(* ===== verification/RTS_Prelude.thy ===== *)
theory RTS_Prelude
  imports Main "HOL-Library.Word"
begin

unbundle bit_operations_syntax

text \<open>
  Shared vocabulary of the development: names for the machine types of the C sources on a
  64-bit platform, the collections of automation facts, and the generic lemmas on bits,
  lists and index-linked free lists that several components use.
\<close>

section \<open>Machine types\<close>

type_synonym word8 = "8 word"
type_synonym word16 = "16 word"
type_synonym word32 = "32 word"
type_synonym word64 = "64 word"

section \<open>Collections\<close>

named_theorems rts_defs \<open>definitions of straight-line operations, for unfolding\<close>
named_theorems rts_inv \<open>invariant preservation lemmas\<close>

section \<open>Bit positions of a 64-bit word, for checking masks position by position\<close>

lemma upt_64: "[0..<64] =
  [0, 1, 2, 3, 4, 5, 6, 7, 8, 9, 10, 11, 12, 13, 14, 15, 16, 17, 18, 19, 20, 21, 22, 23, 24, 25,
   26, 27, 28, 29, 30, 31, 32, 33, 34, 35, 36, 37, 38, 39, 40, 41, 42, 43, 44, 45, 46, 47, 48,
   49, 50, 51, 52, 53, 54, 55, 56, 57, 58, 59, 60, 61, 62, 63]"
  by code_simp

lemma bit_mask_table:
  assumes "list_all (\<lambda>i. bit (M :: word64) i = P i) [0..<64]"
  shows "bit M i \<longleftrightarrow> i < 64 \<and> P i"
  using assms bit_imp_le_length [of M i] by (auto simp: list_all_iff)

lemma unat_of_nat_64: "n < 2 ^ 64 \<Longrightarrow> unat (of_nat n :: word64) = n"
  by (simp add: unat_of_nat)

section \<open>Linked chains of indices or addresses\<close>

text \<open>
  \<open>chain nxt nil p xs\<close>: following \<open>nxt\<close> from \<open>p\<close> visits exactly \<open>xs\<close> and then reaches
  \<open>nil\<close>. The free lists of the closure table, of the stable pointer table and of the stable
  name table are such chains.
\<close>

primrec chain :: "('p \<Rightarrow> 'p) \<Rightarrow> 'p \<Rightarrow> 'p \<Rightarrow> 'p list \<Rightarrow> bool" where
  "chain nxt nil p [] = (p = nil)"
| "chain nxt nil p (x # xs) = (p = x \<and> x \<noteq> nil \<and> chain nxt nil (nxt x) xs)"

lemma chain_nil [simp]: "chain nxt nil nil xs = (xs = [])"
  by (cases xs) auto

lemma chain_upd [simp]: "q \<notin> set xs \<Longrightarrow> chain (nxt(q := r)) nil p xs = chain nxt nil p xs"
  by (induction xs arbitrary: p) auto

lemma chain_cong: "(\<And>x. x \<in> set xs \<Longrightarrow> f x = g x) \<Longrightarrow> chain f nil p xs = chain g nil p xs"
  by (induction xs arbitrary: p) auto

lemma chain_notin_nil: "chain nxt nil p xs \<Longrightarrow> nil \<notin> set xs"
  by (induction xs arbitrary: p) auto

lemma chain_append:
  "chain nxt nil p (xs @ ys) \<Longrightarrow> ys \<noteq> [] \<Longrightarrow> chain nxt nil (hd ys) ys"
  by (induction xs arbitrary: p) (auto simp: neq_Nil_conv)

lemma chain_unique: "chain nxt nil p xs \<Longrightarrow> chain nxt nil p ys \<Longrightarrow> xs = ys"
proof (induction xs arbitrary: p ys)
  case (Cons x xs)
  then show ?case by (cases ys) auto
qed auto

lemma chain_distinct: "chain nxt nil p xs \<Longrightarrow> distinct xs"
proof (induction xs arbitrary: p)
  case (Cons x xs)
  have "x \<notin> set xs"
  proof
    assume "x \<in> set xs"
    then obtain us vs where xs: "xs = us @ x # vs" by (auto simp: in_set_conv_decomp)
    from Cons.prems have "chain nxt nil (nxt x) (us @ x # vs)" by (simp add: xs)
    then have "chain nxt nil x (x # vs)" using chain_append by fastforce
    then have "chain nxt nil (nxt x) vs" by simp
    moreover have "chain nxt nil (nxt x) xs" using Cons.prems by simp
    ultimately have "xs = vs" by (rule chain_unique [rotated])
    then show False by (simp add: xs)
  qed
  with Cons show ?case by auto
qed simp

text \<open>An element taken out of a list.\<close>

lemma chain_unlink:
  assumes "chain nxt nil p (us @ q # vs)"
    "\<And>r. r \<in> set (us @ vs) \<Longrightarrow> us = [] \<or> r \<noteq> last us \<Longrightarrow> nxt' r = nxt r" "us \<noteq> [] \<Longrightarrow> nxt' (last us) = nxt q"
  shows "chain nxt' nil (if us = [] then nxt q else p) (us @ vs)"
  using assms chain_distinct [OF assms(1)]
proof (induction us arbitrary: p)
  case Nil
  then have "chain nxt' nil (nxt q) vs = chain nxt nil (nxt q) vs" by (intro chain_cong) auto
  with Nil show ?case by simp
next
  case (Cons u us)
  have "chain nxt' nil (if us = [] then nxt q else nxt u) (us @ vs)"
    by (rule Cons.IH) (use Cons.prems in \<open>auto split: if_splits\<close>)
  moreover have "us \<noteq> [] \<Longrightarrow> u \<noteq> last us" using Cons.prems(4) last_in_set [of us] by auto
  then have "nxt' u = (if us = [] then nxt q else nxt u)" using Cons.prems by (auto split: if_splits)
  ultimately show ?case using Cons.prems by simp
qed

section \<open>Doubly-linked lists\<close>

text \<open>
  \<open>dl_part nxt prv prev p xs prev' p'\<close>: from \<open>p\<close>, whose back pointer is \<open>prev\<close>, the links lead through \<open>xs\<close> to \<open>p'\<close>,
  whose back pointer is to be \<open>prev'\<close>.
\<close>

primrec dl_part :: "(nat \<Rightarrow> nat) \<Rightarrow> (nat \<Rightarrow> nat) \<Rightarrow> nat \<Rightarrow> nat \<Rightarrow> nat list \<Rightarrow> nat \<Rightarrow> nat \<Rightarrow> bool" where
  "dl_part nxt prv prev p [] prev' p' \<longleftrightarrow> prev = prev' \<and> p = p'"
| "dl_part nxt prv prev p (x # xs) prev' p' \<longleftrightarrow> p = x \<and> x \<noteq> 0 \<and> prv x = prev \<and> dl_part nxt prv x (nxt x) xs prev' p'"

definition dl_list :: "(nat \<Rightarrow> nat) \<Rightarrow> (nat \<Rightarrow> nat) \<Rightarrow> nat \<Rightarrow> nat list \<Rightarrow> bool" where
  "dl_list nxt prv p xs \<longleftrightarrow> distinct xs \<and> (\<exists>q. dl_part nxt prv 0 p xs q 0)"

lemma dl_part_cong:
  "(\<And>x. x \<in> set xs \<Longrightarrow> nxt x = nxt' x \<and> prv x = prv' x) \<Longrightarrow>
    dl_part nxt prv prev p xs prev' p' = dl_part nxt' prv' prev p xs prev' p'"
  by (induction xs arbitrary: prev p) auto

lemma dl_list_cong:
  "(\<And>x. x \<in> set xs \<Longrightarrow> nxt x = nxt' x \<and> prv x = prv' x) \<Longrightarrow> dl_list nxt prv p xs = dl_list nxt' prv' p xs"
  unfolding dl_list_def using dl_part_cong [of xs nxt nxt' prv prv'] by metis

lemma dl_part_append: "dl_part nxt prv prev p (xs @ ys) prev' p' \<longleftrightarrow> (\<exists>q r. dl_part nxt prv prev p xs q r \<and> dl_part nxt prv q r ys prev' p')"
  by (induction xs arbitrary: prev p) auto

lemma dl_part_last: "dl_part nxt prv prev p xs q r \<Longrightarrow> q = (if xs = [] then prev else last xs)"
  by (induction xs arbitrary: prev p) auto

lemma dl_list_Nil [simp]: "dl_list nxt prv p [] \<longleftrightarrow> p = 0"
  by (auto simp: dl_list_def)

lemma dl_list_head: "dl_list nxt prv p xs \<Longrightarrow> p = (case xs of [] \<Rightarrow> 0 | x # _ \<Rightarrow> x)"
  by (cases xs) (auto simp: dl_list_def)

lemma dl_list_nonzero: "dl_list nxt prv p xs \<Longrightarrow> 0 \<notin> set xs"
proof -
  have "dl_part nxt prv prev p xs q r \<Longrightarrow> 0 \<notin> set xs" for prev q r by (induction xs arbitrary: prev p) auto
  then show "dl_list nxt prv p xs \<Longrightarrow> 0 \<notin> set xs" by (auto simp: dl_list_def)
qed

text \<open>Adding at the front.\<close>

lemma dl_list_onto:
  assumes "dl_list nxt prv p xs" "x \<notin> set xs" "x \<noteq> 0" "nxt' x = p \<and> prv' x = 0"
    and "p \<noteq> 0 \<Longrightarrow> nxt' p = nxt p \<and> prv' p = x"
    and "\<And>y. y \<in> set xs \<Longrightarrow> y \<noteq> p \<Longrightarrow> nxt' y = nxt y \<and> prv' y = prv y"
  shows "dl_list nxt' prv' x (x # xs)"
proof (cases xs)
  case Nil
  then show ?thesis using assms(1,3,4) by (auto simp: dl_list_def)
next
  case (Cons y ys)
  obtain q where q: "dl_part nxt prv 0 p xs q 0" "distinct xs" using assms(1) by (auto simp: dl_list_def)
  then have y: "p = y" "y \<noteq> 0" "dl_part nxt prv y (nxt y) ys q 0" "y \<notin> set ys" by (auto simp: Cons)
  have "dl_part nxt' prv' y (nxt y) ys q 0 = dl_part nxt prv y (nxt y) ys q 0"
    by (rule dl_part_cong) (use assms(6) y Cons in auto)
  then show ?thesis using assms(2-5) y q(2) by (auto simp: dl_list_def Cons)
qed

text \<open>Removing anywhere.\<close>

lemma dl_list_remove:
  assumes "dl_list nxt prv p (xs @ x # ys)"
    and "\<And>y. y \<in> set (xs @ ys) \<Longrightarrow> nxt' y = (if y = prv x then nxt x else nxt y)"
    and "\<And>y. y \<in> set (xs @ ys) \<Longrightarrow> prv' y = (if y = nxt x then prv x else prv y)"
  shows "dl_list nxt' prv' (if prv x = 0 then nxt x else p) (xs @ ys)"
proof -
  obtain q where q: "dl_part nxt prv 0 p (xs @ x # ys) q 0" and d: "distinct (xs @ x # ys)" using assms(1) by (auto simp: dl_list_def)
  have nz: "0 \<notin> set (xs @ x # ys)" using dl_list_nonzero [OF assms(1)] .
  obtain r where r: "dl_part nxt prv 0 p xs r x" "prv x = r" "dl_part nxt prv x (nxt x) ys q 0"
    using q by (auto simp: dl_part_append)
  have rl: "r = (if xs = [] then 0 else last xs)" using dl_part_last [OF r(1)] by simp
  have y: "nxt x = (case ys of [] \<Rightarrow> 0 | y # _ \<Rightarrow> y)" using r(3) by (cases ys) auto
  have ys: "\<exists>q'. dl_part nxt' prv' r (nxt x) ys q' 0"
  proof (cases ys)
    case (Cons z zs)
    then have z: "nxt x = z" "dl_part nxt prv z (nxt z) zs q 0" using r(3) by auto
    have "r \<noteq> z" using rl d nz Cons by (auto split: if_splits dest: last_in_set)
    have "dl_part nxt' prv' z (nxt z) zs q 0 = dl_part nxt prv z (nxt z) zs q 0"
    proof (rule dl_part_cong)
      fix w assume w: "w \<in> set zs"
      have "w \<noteq> z" using w d Cons by auto
      moreover have "w \<noteq> r"
      proof
        assume "w = r"
        then have "r \<in> set ys" using w Cons by simp
        then show False using rl d nz by (auto split: if_splits dest: last_in_set)
      qed
      ultimately show "nxt' w = nxt w \<and> prv' w = prv w"
        using assms(2,3) [of w] w Cons r(2) z(1) by simp
    qed
    then show ?thesis using z \<open>r \<noteq> z\<close> nz assms(2,3) [of z] Cons r(2) by (intro exI [of _ q]) simp
  qed (use y in simp)
  show ?thesis
  proof (cases "xs = []")
    case True
    then show ?thesis using ys r(2) rl d by (auto simp: dl_list_def)
  next
    case False
    then obtain us l where xs: "xs = us @ [l]" by (cases xs rule: rev_cases) auto
    then have l: "r = l" "l \<noteq> 0" using rl nz by auto
    obtain t where t: "dl_part nxt prv 0 p us t l" "prv l = t" "nxt l = x" using r(1) by (auto simp: xs dl_part_append)
    have "nxt x \<notin> set xs" using y d nz by (cases ys) auto
    then have same: "w \<in> set xs \<Longrightarrow> prv' w = prv w \<and> (w \<noteq> l \<longrightarrow> nxt' w = nxt w)" for w
      using assms(2,3) [of w] r(2) l by (auto split: if_splits)
    have "dl_part nxt' prv' 0 p us t l = dl_part nxt prv 0 p us t l"
      by (rule dl_part_cong) (use same d xs in auto)
    moreover have "nxt' l = nxt x" "prv' l = t"
      using assms(2) [of l] same [of l] xs r(2) l t(2) by auto
    ultimately have "dl_part nxt' prv' 0 p xs l (nxt x)" using t(1) l(2) by (auto simp: xs dl_part_append)
    with ys l have "\<exists>q'. dl_part nxt' prv' 0 p (xs @ ys) q' 0" by (auto simp: dl_part_append)
    then show ?thesis using r(2) l d by (auto simp: dl_list_def)
  qed
qed

text \<open>Inserting anywhere.\<close>

lemma dl_list_insert:
  assumes "dl_list nxt prv p (xs @ ys)" "x \<notin> set (xs @ ys)" "x \<noteq> 0"
    and "nxt' x = (case ys of [] \<Rightarrow> 0 | y # _ \<Rightarrow> y)" "prv' x = (if xs = [] then 0 else last xs)"
    and "\<And>y. y \<in> set (xs @ ys) \<Longrightarrow> nxt' y = (if xs \<noteq> [] \<and> y = last xs then x else nxt y)"
    and "\<And>y. y \<in> set (xs @ ys) \<Longrightarrow> prv' y = (if ys \<noteq> [] \<and> y = hd ys then x else prv y)"
  shows "dl_list nxt' prv' (if xs = [] then x else p) (xs @ x # ys)"
proof -
  obtain q r e where q: "dl_part nxt prv 0 p xs q r" "dl_part nxt prv q r ys e 0" and d: "distinct (xs @ ys)"
    using assms(1) by (auto simp: dl_list_def dl_part_append)
  have r: "r = (case ys of [] \<Rightarrow> 0 | y # _ \<Rightarrow> y)" using q(2) by (cases ys) auto
  have n: "xs \<noteq> [] \<Longrightarrow> last xs \<notin> set ys" using d by (metis disjoint_iff last_in_set distinct_append)
  have h: "ys \<noteq> [] \<Longrightarrow> hd ys \<notin> set xs" using d by (metis disjoint_iff hd_in_set distinct_append)
  have "\<exists>e'. dl_part nxt' prv' x (nxt' x) ys e' 0"
  proof (cases ys)
    case (Cons y zs)
    have same: "nxt' w = nxt w \<and> (w \<noteq> y \<longrightarrow> prv' w = prv w)" if "w \<in> set ys" for w
      using assms(6,7) [of w] that n d Cons by (auto split: if_splits)
    have "dl_part nxt' prv' y (nxt y) zs e 0 = dl_part nxt prv y (nxt y) zs e 0"
      by (rule dl_part_cong) (use same d Cons in auto)
    then show ?thesis using q(2) r assms(4) assms(7) [of y] same [of y] by (auto simp: Cons)
  qed (use assms(4) in auto)
  moreover have "dl_part nxt' prv' 0 (if xs = [] then x else p) xs (prv' x) x"
  proof (cases xs rule: rev_cases)
    case (snoc us l)
    obtain t where t: "dl_part nxt prv 0 p us t l" "prv l = t" "l \<noteq> 0" using q(1) by (auto simp: snoc dl_part_append)
    have same: "prv' w = prv w \<and> (w \<noteq> l \<longrightarrow> nxt' w = nxt w)" if "w \<in> set xs" for w
      using assms(6,7) [of w] that h d snoc by (auto split: if_splits)
    have "dl_part nxt' prv' 0 p us t l = dl_part nxt prv 0 p us t l"
      by (rule dl_part_cong) (use same d snoc in auto)
    then show ?thesis using t assms(5) assms(6) [of l] same [of l] by (auto simp: snoc dl_part_append)
  qed (use assms(5) in auto)
  ultimately show ?thesis using assms(2,3) d by (auto simp: dl_list_def dl_part_append)
qed

end
