(* ===== verification/BitPrims.thy ===== *)
theory BitPrims
  imports RTS_Prelude "HOL-Library.Signed_Division"
begin

text \<open>
  The fallback implementations of the bit-manipulation primops in \<open>rts/prim\<close>:
  parallel deposit and extract (\<open>pdep.c\<close>, \<open>pext.c\<close>), population count (\<open>popcnt.c\<close>),
  bit and byte reversal (\<open>bitrev.c\<close>, \<open>bswap.c\<close>), leading and trailing zeros (\<open>clz.c\<close>,
  \<open>ctz.c\<close>), the signed overflow test of \<open>mulIntMayOflo.c\<close> and the 64-bit arithmetic of
  32-bit platforms (\<open>longlong.c\<close>). Each routine is characterised bit by bit; the properties
  are the round trips and agreements between routines that follow.
\<close>

section \<open>Parallel bit deposit\<close>

function pdep_loop :: "word64 \<Rightarrow> word64 \<Rightarrow> word64 \<Rightarrow> word64" where
  "pdep_loop result src msk =
    (let lowest = (- msk AND msk)
     in if lowest = 0 then result
        else let lsb = signed_drop_bit 63 (push_bit 63 src)
             in pdep_loop (result OR (lsb AND lowest)) (drop_bit 1 src) (msk AND NOT lowest))"
  by pat_completeness auto

lemma bit_minus_int: "bit (- m :: int) i \<longleftrightarrow> (bit m i \<noteq> (\<exists>j<i. bit m j))"
proof (induction i arbitrary: m)
  case 0
  then show ?case by (simp add: bit_0)
next
  case (Suc i)
  have ex: "(\<exists>j<Suc i. bit m j) \<longleftrightarrow> odd m \<or> (\<exists>j<i. bit (m div 2) j)"
    by (metis (full_types) Suc_less_eq bit_0 bit_Suc gr0_conv_Suc less_Suc_eq_0_disj)
  show ?case
  proof (cases "even m")
    case True
    then have "(- m) div 2 = - (m div 2)" by presburger
    then show ?thesis using True Suc.IH [of "m div 2"] by (simp add: bit_Suc ex)
  next
    case False
    then have "(- m) div 2 = NOT (m div 2)" by (simp add: not_int_def) presburger
    then show ?thesis using False by (simp add: bit_Suc ex bit_not_iff)
  qed
qed

lemma bit_minus_word:
  "bit (- m :: 'a::len word) i \<longleftrightarrow> i < LENGTH('a) \<and> (bit m i \<noteq> (\<exists>j<i. bit m j))"
proof -
  have "bit (- m) i \<longleftrightarrow> i < LENGTH('a) \<and> bit (- uint m) i"
    by transfer (simp add: bit_take_bit_iff, metis bit_take_bit_iff take_bit_minus)
  then show ?thesis
    by (auto simp: bit_minus_int bit_uint_iff)
qed

lemma bit_lowest:
  "bit (- m AND m :: 'a::len word) i \<longleftrightarrow> bit m i \<and> (\<forall>j<i. \<not> bit m j)"
  by (auto simp: bit_and_iff bit_minus_word dest: bit_imp_le_length)


lemma lowest_neq_0: "(- m AND m :: 'a::len word) \<noteq> 0 \<Longrightarrow> \<exists>p. bit m p \<and> (\<forall>j<p. \<not> bit m j)"
  by (metis bit_0_eq bit_lowest bit_word_eqI bot_apply bot_bool_def)

lemma bit_and_not_same: "bit l p \<Longrightarrow> \<not> bit (m AND NOT l :: 'a::len word) p"
  by (auto simp: bit_and_iff bit_not_iff)

lemma bit_and_not: "bit (m AND NOT l :: 'a::len word) p \<longleftrightarrow> bit m p \<and> \<not> bit l p"
  by (auto simp: bit_and_iff bit_not_iff dest: bit_imp_le_length)

lemma clear_lowest_less:
  assumes "(- m AND m :: 'a::len word) \<noteq> 0"
  shows "unat (m AND NOT (- m AND m)) < unat m"
proof -
  from lowest_neq_0 [OF assms] obtain p where p: "bit m p" "\<forall>j<p. \<not> bit m j" by blast
  then have "bit (- m AND m) p" by (simp add: bit_lowest)
  then have "\<not> bit (m AND NOT (- m AND m)) p" by (rule bit_and_not_same)
  with p have "m AND NOT (- m AND m) \<noteq> m" by metis
  moreover have "m AND NOT (- m AND m) \<le> m" by (rule word_and_le2)
  ultimately show ?thesis by (metis order_less_le word_less_nat_alt)
qed

termination pdep_loop
  by (relation "measure (\<lambda>(result, src, msk). unat msk)") (simp_all add: Let_def clear_lowest_less del: bit.de_Morgan_conj)

declare pdep_loop.simps [simp del]

definition hs_pdep64 :: "word64 \<Rightarrow> word64 \<Rightarrow> word64" where
  "hs_pdep64 src msk = pdep_loop 0 src msk"

definition hs_pdep32 :: "word64 \<Rightarrow> word64 \<Rightarrow> word64" where
  "hs_pdep32 src msk = ucast (ucast (hs_pdep64 src msk) :: word32)"

definition hs_pdep16 :: "word64 \<Rightarrow> word64 \<Rightarrow> word64" where
  "hs_pdep16 src msk = ucast (ucast (hs_pdep64 src msk) :: word16)"

definition hs_pdep8 :: "word64 \<Rightarrow> word64 \<Rightarrow> word64" where
  "hs_pdep8 src msk = ucast (ucast (hs_pdep64 src msk) :: word8)"

section \<open>Parallel bit extract\<close>

fun pext_step :: "word64 \<Rightarrow> word64 \<Rightarrow> nat \<Rightarrow> word64 \<times> nat \<Rightarrow> word64 \<times> nat" where
  "pext_step src msk i (result, offset) =
    (let src_bit = drop_bit i src AND 1;
         mask_bit = drop_bit i msk AND 1
     in if mask_bit \<noteq> 0 then (result OR push_bit offset src_bit, offset + 1)
        else (result, offset))"

definition hs_pext :: "nat \<Rightarrow> word64 \<Rightarrow> word64 \<Rightarrow> word64" where
  "hs_pext bit_width src msk = fst (fold (pext_step src msk) [0..<bit_width] (0, 0))"

definition hs_pext64 :: "word64 \<Rightarrow> word64 \<Rightarrow> word64" where
  "hs_pext64 src msk = hs_pext 64 src msk"

definition hs_pext32 :: "word64 \<Rightarrow> word64 \<Rightarrow> word64" where
  "hs_pext32 src msk = ucast (ucast (hs_pext 32 src msk) :: word32)"

definition hs_pext16 :: "word64 \<Rightarrow> word64 \<Rightarrow> word64" where
  "hs_pext16 src msk = ucast (ucast (hs_pext 16 src msk) :: word16)"

definition hs_pext8 :: "word64 \<Rightarrow> word64 \<Rightarrow> word64" where
  "hs_pext8 src msk = ucast (ucast (hs_pext 8 src msk) :: word8)"

section \<open>The rank of a bit position\<close>

text \<open>The number of set bits of a mask below a position.\<close>

definition bit_rank :: "'a::len word \<Rightarrow> nat \<Rightarrow> nat" where
  "bit_rank m i = length (filter (bit m) [0..<i])"

lemma bit_rank_0 [simp]: "bit_rank m 0 = 0"
  by (simp add: bit_rank_def)

lemma bit_rank_Suc [simp]: "bit_rank m (Suc i) = (if bit m i then Suc (bit_rank m i) else bit_rank m i)"
  by (simp add: bit_rank_def)

lemma bit_rank_le: "bit_rank m i \<le> i"
  by (induction i) auto

lemma bit_rank_mono: "i \<le> j \<Longrightarrow> bit_rank m i \<le> bit_rank m j"
  by (induction j) (auto simp: le_Suc_eq)

lemma bit_rank_strict: "bit m i \<Longrightarrow> i < j \<Longrightarrow> bit_rank m i < bit_rank m j"
  using bit_rank_mono [of "Suc i" j m] by simp

lemma bit_rank_inj: "bit m i \<Longrightarrow> bit m j \<Longrightarrow> bit_rank m i = bit_rank m j \<Longrightarrow> i = j"
  by (metis bit_rank_strict less_irrefl linorder_neqE_nat)

lemma bit_rank_surj: "k < bit_rank m n \<Longrightarrow> \<exists>i<n. bit m i \<and> bit_rank m i = k"
proof (induction n)
  case (Suc n)
  then show ?case by (cases "bit m n \<and> k = bit_rank m n") (auto split: if_splits intro: less_SucI)
qed simp

lemma bit_rank_none: "\<forall>j<i. \<not> bit m j \<Longrightarrow> bit_rank m i = 0"
  by (induction i) auto

lemma bit_rank_clear:
  assumes "bit m p" "\<forall>j<p. \<not> bit m j" "\<forall>j. bit m' j \<longleftrightarrow> bit m j \<and> j \<noteq> p"
  shows "bit_rank m i = (if i \<le> p then 0 else Suc (bit_rank m' i))"
  using assms
proof (induction i)
  case (Suc i)
  then show ?case
    by (auto simp: bit_rank_none not_less_eq_eq le_Suc_eq split: if_splits)
qed simp

lemma bit_rank_cong: "\<forall>j<i. bit m j = bit m' j \<Longrightarrow> bit_rank m i = bit_rank m' i"
  by (induction i) auto

lemma bit_rank_stop: "\<forall>j. k \<le> j \<longrightarrow> \<not> bit m j \<Longrightarrow> k \<le> i \<Longrightarrow> bit_rank m i = bit_rank m k"
  by (induction i) (auto simp: le_Suc_eq)

section \<open>Bits of the results\<close>

lemma bit_replicate_lsb: "bit (signed_drop_bit 63 (push_bit 63 s) :: word64) i \<longleftrightarrow> i < 64 \<and> bit s 0"
  by (auto simp: bit_signed_drop_bit_iff bit_push_bit_iff not_le)

lemma lowest_eq_0:
  assumes "(- m AND m :: 'a::len word) = 0"
  shows "m = 0"
proof (rule bit_word_eqI)
  fix n
  have "\<not> bit m n"
  proof
    assume "bit m n"
    then obtain q where "bit m q \<and> (\<forall>j<q. \<not> bit m j)"
      using exists_least_iff [of "bit m"] by blast
    then have "bit (- m AND m) q" by (simp only: bit_lowest) simp
    with assms show False by simp
  qed
  then show "bit m n \<longleftrightarrow> bit 0 n" by simp
qed

lemma bit_pdep_loop:
  "bit (pdep_loop r s m) i \<longleftrightarrow> bit r i \<or> (bit m i \<and> bit s (bit_rank m i))"
proof (induction r s m rule: pdep_loop.induct)
  case (1 r s m)
  let ?l = "- m AND m"
  show ?case
  proof (cases "?l = 0")
    case True
    then have "m = 0" by (rule lowest_eq_0)
    then show ?thesis by (simp add: pdep_loop.simps [of r s 0])
  next
    case False
    let ?m = "m AND NOT ?l"
    from lowest_neq_0 [OF False] obtain p where p: "bit m p" "\<forall>j<p. \<not> bit m j" by blast
    have l: "bit ?l j \<longleftrightarrow> j = p" for j
      using p by (auto simp: bit_lowest) (metis linorder_neqE_nat)
    have m': "bit ?m j \<longleftrightarrow> bit m j \<and> j \<noteq> p" for j
      by (simp only: bit_and_not l)
    have rk: "bit_rank m j = (if j \<le> p then 0 else Suc (bit_rank ?m j))" for j
      using p m' by (intro bit_rank_clear) auto
    have p64: "p < 64" using p(1) bit_imp_le_length by fastforce
    have "pdep_loop r s m = pdep_loop (r OR (signed_drop_bit 63 (push_bit 63 s) AND ?l)) (drop_bit 1 s) ?m"
      using False by (simp add: pdep_loop.simps [of r s m] Let_def)
    then have "bit (pdep_loop r s m) i \<longleftrightarrow>
        bit (r OR (signed_drop_bit 63 (push_bit 63 s) AND ?l)) i \<or>
        (bit ?m i \<and> bit (drop_bit 1 s) (bit_rank ?m i))"
      by (simp only: "1.IH" [OF refl False refl])
    then have "bit (pdep_loop r s m) i \<longleftrightarrow>
        bit r i \<or> (i < 64 \<and> bit s 0 \<and> i = p) \<or> (bit ?m i \<and> bit s (Suc (bit_rank ?m i)))"
      by (simp only: bit_or_iff bit_and_iff [of "signed_drop_bit _ _"] bit_replicate_lsb l bit_drop_bit_eq) auto
    also have "\<dots> \<longleftrightarrow> bit r i \<or> (bit m i \<and> bit s (bit_rank m i))"
    proof (cases i p rule: linorder_cases)
      case less
      with p show ?thesis by (simp add: m' del: bit.de_Morgan_conj)
    next
      case equal
      with p p64 show ?thesis by (simp add: m' rk del: bit.de_Morgan_conj)
    next
      case greater
      then show ?thesis by (simp add: m' rk del: bit.de_Morgan_conj)
    qed
    finally show ?thesis .
  qed
qed

lemma bit_hs_pdep64: "bit (hs_pdep64 s m) i \<longleftrightarrow> bit m i \<and> bit s (bit_rank m i)"
  by (simp add: hs_pdep64_def bit_pdep_loop)

lemma drop_bit_and_1: "drop_bit i (m :: word64) AND 1 = (if bit m i then 1 else 0)"
  by (simp add: and_one_eq bit_iff_odd_drop_bit odd_iff_mod_2_eq_one)

lemma pext_fold:
  "n \<le> 64 \<Longrightarrow> fold (pext_step s m) [0..<n] (0, 0) = (r, off) \<Longrightarrow>
    off = bit_rank m n \<and>
    (\<forall>k. bit r k \<longleftrightarrow> (\<exists>i<n. bit m i \<and> bit_rank m i = k \<and> bit s i))"
proof (induction n arbitrary: r off)
  case (Suc n)
  obtain r' off' where f: "fold (pext_step s m) [0..<n] (0, 0) = (r', off')"
    by (cases "fold (pext_step s m) [0..<n] (0, 0)")
  have IH: "off' = bit_rank m n"
    "\<And>k. bit r' k \<longleftrightarrow> (\<exists>i<n. bit m i \<and> bit_rank m i = k \<and> bit s i)"
    using Suc.IH [OF _ f] Suc.prems(1) by auto
  have step: "(r, off) = pext_step s m n (r', off')" using Suc.prems(2) f by simp
  have rk: "bit_rank m n < 64" using bit_rank_le [of m n] Suc.prems(1) by linarith
  have ub: "bit (push_bit off' (if bit s n then 1 else 0 :: word64)) k \<longleftrightarrow> k = off' \<and> bit s n" for k
    using rk IH(1) by (auto simp: bit_push_bit_iff bit_1_iff)
  show ?case
    using step by (auto simp: drop_bit_and_1 IH bit_or_iff ub [unfolded IH] less_Suc_eq split: if_splits)
qed auto

lemma bit_hs_pext:
  "n \<le> 64 \<Longrightarrow> bit (hs_pext n s m) k \<longleftrightarrow> (\<exists>i<n. bit m i \<and> bit_rank m i = k \<and> bit s i)"
  using pext_fold [of n s m] unfolding hs_pext_def by (metis prod.exhaust_sel)

lemma bit_hs_pext64: "bit (hs_pext64 s m) k \<longleftrightarrow> (\<exists>i. bit m i \<and> bit_rank m i = k \<and> bit s i)"
  using bit_imp_le_length [of m] by (auto simp: hs_pext64_def bit_hs_pext)

lemma ucast_trunc:
  "LENGTH('b) \<le> 64 \<Longrightarrow> (ucast (ucast (x :: word64) :: 'b::len word) :: word64) = take_bit LENGTH('b) x"
  by (rule bit_word_eqI) (auto simp: bit_ucast_iff bit_take_bit_iff)

section \<open>Population count\<close>

definition popcount_tab :: "nat list" where
  "popcount_tab =
   [0,1,1,2,1,2,2,3,1,2,2,3,2,3,3,4,1,2,2,3,2,3,3,4,2,3,3,4,3,4,4,5,
    1,2,2,3,2,3,3,4,2,3,3,4,3,4,4,5,2,3,3,4,3,4,4,5,3,4,4,5,4,5,5,6,
    1,2,2,3,2,3,3,4,2,3,3,4,3,4,4,5,2,3,3,4,3,4,4,5,3,4,4,5,4,5,5,6,
    2,3,3,4,3,4,4,5,3,4,4,5,4,5,5,6,3,4,4,5,4,5,5,6,4,5,5,6,5,6,6,7,
    1,2,2,3,2,3,3,4,2,3,3,4,3,4,4,5,2,3,3,4,3,4,4,5,3,4,4,5,4,5,5,6,
    2,3,3,4,3,4,4,5,3,4,4,5,4,5,5,6,3,4,4,5,4,5,5,6,4,5,5,6,5,6,6,7,
    2,3,3,4,3,4,4,5,3,4,4,5,4,5,5,6,3,4,4,5,4,5,5,6,4,5,5,6,5,6,6,7,
    3,4,4,5,4,5,5,6,4,5,5,6,5,6,6,7,4,5,5,6,5,6,6,7,5,6,6,7,6,7,7,8]"

text \<open>\<open>popcount_tab[(unsigned char) x]\<close>, promoted to an integer.\<close>

definition popcount_at :: "word64 \<Rightarrow> word64" where
  "popcount_at x = of_nat (popcount_tab ! unat (ucast x :: word8))"

definition hs_popcnt8 :: "word64 \<Rightarrow> word64" where
  "hs_popcnt8 x = popcount_at x"

definition hs_popcnt16 :: "word64 \<Rightarrow> word64" where
  "hs_popcnt16 x = popcount_at x + popcount_at (drop_bit 8 x)"

definition hs_popcnt32 :: "word64 \<Rightarrow> word64" where
  "hs_popcnt32 x = popcount_at x + popcount_at (drop_bit 8 x) +
     popcount_at (drop_bit 16 x) + popcount_at (drop_bit 24 x)"

definition hs_popcnt64 :: "word64 \<Rightarrow> word64" where
  "hs_popcnt64 x = popcount_at x + popcount_at (drop_bit 8 x) +
     popcount_at (drop_bit 16 x) + popcount_at (drop_bit 24 x) +
     popcount_at (drop_bit 32 x) + popcount_at (drop_bit 40 x) +
     popcount_at (drop_bit 48 x) + popcount_at (drop_bit 56 x)"

definition hs_popcnt :: "word64 \<Rightarrow> word64" where
  "hs_popcnt x = popcount_at x + popcount_at (drop_bit 8 x) +
     popcount_at (drop_bit 16 x) + popcount_at (drop_bit 24 x) +
     popcount_at (drop_bit 32 x) + popcount_at (drop_bit 40 x) +
     popcount_at (drop_bit 48 x) + popcount_at (drop_bit 56 x)"

text \<open>The table is the doubling sequence \<open>t, t + 1\<close> started at 0, which counts the bits of its index.\<close>

primrec doubling_tab :: "nat \<Rightarrow> nat list" where
  "doubling_tab 0 = [0]"
| "doubling_tab (Suc n) = doubling_tab n @ map Suc (doubling_tab n)"

lemma length_doubling_tab [simp]: "length (doubling_tab n) = 2 ^ n"
  by (induction n) auto

lemma doubling_tab_bits: "i < 2 ^ n \<Longrightarrow> doubling_tab n ! i = length (filter (bit i) [0..<n])"
proof (induction n arbitrary: i)
  case (Suc n)
  show ?case
  proof (cases "i < 2 ^ n")
    case True
    then have "\<not> bit i n" by (simp add: bit_iff_odd)
    with True Suc show ?thesis by (simp add: nth_append)
  next
    case False
    define j where "j = i - 2 ^ n"
    with False Suc.prems have j: "i = 2 ^ n + j" "j < 2 ^ n" by auto
    have "bit i n" using j by (simp add: bit_iff_odd div_add1_eq)
    moreover have "bit i k = bit j k" if kn: "k < n" for k
    proof -
      obtain d where "n = k + Suc d" using less_imp_Suc_add [OF kn] by auto
      then have "i = j + 2 ^ k * (2 * 2 ^ d)" using j by (simp add: power_add)
      then show ?thesis by (simp add: bit_iff_odd)
    qed
    then have "filter (bit i) [0..<n] = filter (bit j) [0..<n]" by (intro filter_cong) auto
    moreover have "doubling_tab (Suc n) ! i = Suc (doubling_tab n ! j)"
      using j by (simp add: nth_append)
    ultimately show ?thesis using Suc.IH [of j] j by simp
  qed
qed simp

lemma popcount_tab_doubling: "popcount_tab = doubling_tab 8"
  by (simp add: popcount_tab_def numeral_eq_Suc)

lemma popcount_tab_ok: "n < 256 \<Longrightarrow> popcount_tab ! n = length (filter (bit n) [0..<8])"
  using doubling_tab_bits [of n 8] by (simp add: popcount_tab_doubling)

lemma popcount_at_rank: "popcount_at x = of_nat (bit_rank x 8)"
proof -
  let ?n = "unat (ucast x :: word8)"
  have "?n < 256" using unsigned_less [of "ucast x :: word8"] by simp
  then have "popcount_tab ! ?n = length (filter (bit ?n) [0..<8])"
    by (rule popcount_tab_ok)
  also have "filter (bit ?n) [0..<8] = filter (bit x) [0..<8]"
    by (rule filter_cong) (auto simp: bit_unsigned_iff bit_ucast_iff)
  finally show ?thesis by (simp add: popcount_at_def bit_rank_def)
qed

lemma bit_rank_add: "bit_rank m (i + k) = bit_rank m i + bit_rank (drop_bit i m) k" for m :: word64
  by (induction k) (auto simp: bit_drop_bit_eq)

lemmas popcnt_defs = hs_popcnt8_def hs_popcnt16_def hs_popcnt32_def hs_popcnt64_def

lemma hs_popcnt16_rank: "hs_popcnt16 x = of_nat (bit_rank x 16)"
  using bit_rank_add [of x 8 8] by (simp add: popcnt_defs popcount_at_rank)

lemma hs_popcnt32_rank: "hs_popcnt32 x = of_nat (bit_rank x 32)"
  using bit_rank_add [of x 8 8] bit_rank_add [of x 16 8] bit_rank_add [of x 24 8]
  by (simp add: popcnt_defs popcount_at_rank)

lemma hs_popcnt64_rank: "hs_popcnt64 x = of_nat (bit_rank x 64)"
  using bit_rank_add [of x 8 8] bit_rank_add [of x 16 8] bit_rank_add [of x 24 8]
    bit_rank_add [of x 32 8] bit_rank_add [of x 40 8] bit_rank_add [of x 48 8] bit_rank_add [of x 56 8]
  by (simp add: popcnt_defs popcount_at_rank)

lemma unat_hs_popcnt64: "unat (hs_popcnt64 x) = bit_rank x 64"
  using bit_rank_le [of x 64] by (simp add: hs_popcnt64_rank unat_of_nat_64)

section \<open>Bit reversal\<close>

text \<open>One line \<open>x = ((x >> k) & m) | ((x & m) << k)\<close> of the reversals.\<close>

definition bitrev_step :: "nat \<Rightarrow> word64 \<Rightarrow> word64 \<Rightarrow> word64" where
  "bitrev_step k m x = (drop_bit k x AND m) OR push_bit k (x AND m)"

definition hs_bitrev8 :: "word64 \<Rightarrow> word64" where
  "hs_bitrev8 x =
    (let x = bitrev_step 1 0x55 x;
         x = bitrev_step 2 0x33 x;
         x = bitrev_step 4 0x0F x
     in x)"

definition hs_bitrev16 :: "word64 \<Rightarrow> word64" where
  "hs_bitrev16 x =
    (let x = bitrev_step 1 0x5555 x;
         x = bitrev_step 2 0x3333 x;
         x = bitrev_step 4 0x0F0F x;
         x = bitrev_step 8 0x00FF x
     in x)"

definition hs_bitrev32 :: "word64 \<Rightarrow> word64" where
  "hs_bitrev32 x =
    (let x = bitrev_step 1 0x55555555 x;
         x = bitrev_step 2 0x33333333 x;
         x = bitrev_step 4 0x0F0F0F0F x;
         x = bitrev_step 8 0x00FF00FF x;
         x = bitrev_step 16 0x0000FFFF x
     in x)"

definition hs_bitrev64 :: "word64 \<Rightarrow> word64" where
  "hs_bitrev64 x =
    (let x = bitrev_step 1 0x5555555555555555 x;
         x = bitrev_step 2 0x3333333333333333 x;
         x = bitrev_step 4 0x0F0F0F0F0F0F0F0F x;
         x = bitrev_step 8 0x00FF00FF00FF00FF x;
         x = bitrev_step 16 0x0000FFFF0000FFFF x;
         x = drop_bit 32 x OR push_bit 32 x
     in x)"

definition swap_index :: "nat \<Rightarrow> nat \<Rightarrow> nat" where
  "swap_index k i = (if even (i div k) then i + k else i - k)"

lemma bit_swap_stage:
  assumes k: "0 < k" and w: "2 * k dvd w" "w \<le> 64"
    and M: "\<And>i. bit M i \<longleftrightarrow> i < w \<and> even (i div k)"
  shows "bit (bitrev_step k M x) i \<longleftrightarrow>
    i < w \<and> bit x (swap_index k i)"
proof -
  have d: "i div k = Suc ((i - k) div k)" if "k \<le> i" using k that by (simp add: le_div_geq)
  obtain c where c: "w = 2 * k * c" using w by (auto simp: dvd_def)
  have up: "i < w \<longleftrightarrow> i - k < w" if "k \<le> i" "even ((i - k) div k)"
  proof
    assume "i - k < w"
    then have "(i - k) div k < 2 * c" using k c by (simp add: less_mult_imp_div_less mult.commute mult.left_commute)
    then have "Suc ((i - k) div k) < 2 * c" using that(2) by (auto elim!: evenE)
    then have "i div k < 2 * c" using d that by simp
    then show "i < w" using c k by (metis div_less_iff_less_mult mult.assoc mult.commute)
  qed simp
  show ?thesis
  proof (cases "even (i div k)")
    case True
    then have "k \<le> i \<Longrightarrow> odd ((i - k) div k)" using d by auto
    with True show ?thesis
      by (auto simp: bitrev_step_def bit_or_iff bit_and_iff bit_push_bit_iff bit_drop_bit_eq M swap_index_def add.commute)
  next
    case False
    then have "k \<le> i" by (metis div_less even_zero not_le_imp_less)
    with False have "even ((i - k) div k)" using d by simp
    with False \<open>k \<le> i\<close> up show ?thesis using w(2)
      by (auto simp: bitrev_step_def bit_or_iff bit_and_iff bit_push_bit_iff bit_drop_bit_eq M swap_index_def)
  qed
qed

lemma bitrev_masks:
  "list_all (\<lambda>i. bit (0x5555555555555555 :: word64) i = even (i div 1)) [0..<64]"
  "list_all (\<lambda>i. bit (0x3333333333333333 :: word64) i = even (i div 2)) [0..<64]"
  "list_all (\<lambda>i. bit (0x0F0F0F0F0F0F0F0F :: word64) i = even (i div 4)) [0..<64]"
  "list_all (\<lambda>i. bit (0x00FF00FF00FF00FF :: word64) i = even (i div 8)) [0..<64]"
  "list_all (\<lambda>i. bit (0x0000FFFF0000FFFF :: word64) i = even (i div 16)) [0..<64]"
  by (simp_all add: upt_64)

lemma bitrev_step_mask:
  assumes "list_all (\<lambda>i. bit (N :: word64) i = even (i div k)) [0..<64]"
    and "M = take_bit w N" "0 < k" "2 * k dvd w" "w \<le> 64"
  shows "bit (bitrev_step k M x) i \<longleftrightarrow> i < w \<and> bit x (swap_index k i)"
proof (rule bit_swap_stage [OF assms(3-5)])
  fix i
  show "bit M i \<longleftrightarrow> i < w \<and> even (i div k)"
    using bit_mask_table [OF assms(1), of i] assms(5) unfolding assms(2) bit_take_bit_iff
    by (metis order_less_le_trans)
qed

lemma bitrev_steps8:
  "bit (bitrev_step 1 0x55 x) i \<longleftrightarrow> i < 8 \<and> bit x (swap_index 1 i)"
  "bit (bitrev_step 2 0x33 x) i \<longleftrightarrow> i < 8 \<and> bit x (swap_index 2 i)"
  "bit (bitrev_step 4 0x0F x) i \<longleftrightarrow> i < 8 \<and> bit x (swap_index 4 i)"
  by (rule bitrev_step_mask, rule bitrev_masks, simp_all)+

lemma bitrev_steps16:
  "bit (bitrev_step 1 0x5555 x) i \<longleftrightarrow> i < 16 \<and> bit x (swap_index 1 i)"
  "bit (bitrev_step 2 0x3333 x) i \<longleftrightarrow> i < 16 \<and> bit x (swap_index 2 i)"
  "bit (bitrev_step 4 0x0F0F x) i \<longleftrightarrow> i < 16 \<and> bit x (swap_index 4 i)"
  "bit (bitrev_step 8 0x00FF x) i \<longleftrightarrow> i < 16 \<and> bit x (swap_index 8 i)"
  by (rule bitrev_step_mask, rule bitrev_masks, simp_all)+

lemma bitrev_steps32:
  "bit (bitrev_step 1 0x55555555 x) i \<longleftrightarrow> i < 32 \<and> bit x (swap_index 1 i)"
  "bit (bitrev_step 2 0x33333333 x) i \<longleftrightarrow> i < 32 \<and> bit x (swap_index 2 i)"
  "bit (bitrev_step 4 0x0F0F0F0F x) i \<longleftrightarrow> i < 32 \<and> bit x (swap_index 4 i)"
  "bit (bitrev_step 8 0x00FF00FF x) i \<longleftrightarrow> i < 32 \<and> bit x (swap_index 8 i)"
  "bit (bitrev_step 16 0x0000FFFF x) i \<longleftrightarrow> i < 32 \<and> bit x (swap_index 16 i)"
  by (rule bitrev_step_mask, rule bitrev_masks, simp_all)+

lemma bitrev_steps64:
  "bit (bitrev_step 1 0x5555555555555555 x) i \<longleftrightarrow> i < 64 \<and> bit x (swap_index 1 i)"
  "bit (bitrev_step 2 0x3333333333333333 x) i \<longleftrightarrow> i < 64 \<and> bit x (swap_index 2 i)"
  "bit (bitrev_step 4 0x0F0F0F0F0F0F0F0F x) i \<longleftrightarrow> i < 64 \<and> bit x (swap_index 4 i)"
  "bit (bitrev_step 8 0x00FF00FF00FF00FF x) i \<longleftrightarrow> i < 64 \<and> bit x (swap_index 8 i)"
  "bit (bitrev_step 16 0x0000FFFF0000FFFF x) i \<longleftrightarrow> i < 64 \<and> bit x (swap_index 16 i)"
  by (rule bitrev_step_mask, rule bitrev_masks, simp_all)+

text \<open>The swaps of a reversal composed: within each block of \<open>2 ^ n\<close> bits the order is reversed.\<close>

primrec swap_down :: "nat \<Rightarrow> nat \<Rightarrow> nat" where
  "swap_down 0 i = i"
| "swap_down (Suc n) i = swap_down n (swap_index (2 ^ n) i)"

lemma swap_index_less:
  assumes "i < w" "0 < k" "2 * k dvd w"
  shows "swap_index k i < w"
proof (cases "even (i div k)")
  case True
  obtain c where c: "w = 2 * k * c" using assms(3) by (auto simp: dvd_def)
  have "i div k < 2 * c" using assms c by (simp add: less_mult_imp_div_less mult.commute mult.left_commute)
  then have "Suc (i div k) < 2 * c" using True by (auto elim!: evenE)
  then have "(i + k) div k < 2 * c" using assms(2) by (simp add: div_add_self2)
  then have "i + k < w" using c assms(2) by (metis div_less_iff_less_mult mult.assoc mult.commute)
  then show ?thesis using True by (simp add: swap_index_def)
next
  case False
  then show ?thesis using assms(1) by (simp add: swap_index_def less_imp_diff_less)
qed

lemma div_mod_block: "0 < p \<Longrightarrow> r < p \<Longrightarrow> (a * p + r) div p = a \<and> (a * p + r) mod p = (r :: nat)"
  by simp

lemma swap_down_rev: "swap_down n i = i div 2 ^ n * 2 ^ n + (2 ^ n - 1 - i mod 2 ^ n)"
proof (induction n arbitrary: i)
  case (Suc n)
  let ?p = "2 ^ n :: nat"
  define q b r where "q = i div ?p div 2" and "b = i div ?p mod 2" and "r = i mod ?p"
  have r: "r < ?p" and b: "b = 0 \<or> b = 1" by (auto simp: r_def b_def)
  have ip: "i div ?p = 2 * q + b" by (simp add: q_def b_def)
  then have i: "i = (2 * q + b) * ?p + r" by (metis r_def div_mult_mod_eq)
  have "i = q * (2 * ?p) + (b * ?p + r)" by (simp add: i algebra_simps)
  moreover have "b * ?p + r < 2 * ?p" using b r by auto
  ultimately have dm: "i div (2 * ?p) = q" "i mod (2 * ?p) = b * ?p + r"
    using div_mod_block [of "2 * ?p" "b * ?p + r" q] by auto
  have e: "even (i div ?p) \<longleftrightarrow> b = 0" using b by (auto simp: ip)
  have "swap_index ?p i = (2 * q + (1 - b)) * ?p + r"
    unfolding swap_index_def e using b by (auto simp: i)
  then have "swap_down (Suc n) i = (2 * q + (1 - b)) * ?p + (?p - 1 - r)"
    using div_mod_block [OF _ r, of "2 * q + (1 - b)"] by (simp add: Suc.IH)
  also have "\<dots> = q * (2 * ?p) + (2 * ?p - 1 - (b * ?p + r))"
    using b r by (auto simp: algebra_simps)
  finally show ?case by (simp add: dm)
qed simp
lemma swap_down_last: "i < 2 ^ n \<Longrightarrow> swap_down n i = 2 ^ n - 1 - i"
  by (simp add: swap_down_rev)

lemma swap_down_numeral:
  "swap_down (numeral k) i = swap_down (pred_numeral k) (swap_index (2 ^ pred_numeral k) i)"
  by (simp add: numeral_eq_Suc)

lemma swap_down_compose:
  "i < 8 \<Longrightarrow> swap_index 1 (swap_index 2 (swap_index 4 i)) = 7 - i"
  "i < 16 \<Longrightarrow> swap_index 1 (swap_index 2 (swap_index 4 (swap_index 8 i))) = 15 - i"
  "i < 32 \<Longrightarrow> swap_index 1 (swap_index 2 (swap_index 4 (swap_index 8 (swap_index 16 i)))) = 31 - i"
  "i < 64 \<Longrightarrow> swap_index 1 (swap_index 2 (swap_index 4 (swap_index 8 (swap_index 16 (swap_index 32 i))))) = 63 - i"
  using swap_down_last [of i 3] swap_down_last [of i 4] swap_down_last [of i 5] swap_down_last [of i 6]
  by (simp_all add: swap_down_numeral)

lemma bit_last_stage: "bit (drop_bit 32 x OR push_bit 32 x :: word64) i \<longleftrightarrow> i < 64 \<and> bit x (swap_index 32 i)"
proof -
  have *: "even (i div 32) \<longleftrightarrow> i < 32" if "i < 64"
    using that by (cases "i < 32") (auto simp: le_div_geq not_less)
  have b: "\<not> bit x j" if "64 \<le> j" for j using bit_imp_le_length [of x j] that by auto
  show ?thesis
    by (cases "i < 64"; cases "i < 32")
      (auto simp: bit_or_iff bit_push_bit_iff bit_drop_bit_eq swap_index_def add.commute * b)
qed

lemma bit_hs_bitrev8: "bit (hs_bitrev8 x) i \<longleftrightarrow> i < 8 \<and> bit x (7 - i)"
proof (cases "i < 8")
  case True
  then show ?thesis
    unfolding hs_bitrev8_def Let_def bitrev_steps8
    by (simp add: swap_index_less swap_down_compose [unfolded One_nat_def])
next
  case False
  then show ?thesis
    unfolding hs_bitrev8_def Let_def bitrev_steps8 by simp
qed

lemma bit_hs_bitrev16: "bit (hs_bitrev16 x) i \<longleftrightarrow> i < 16 \<and> bit x (15 - i)"
proof (cases "i < 16")
  case True
  then show ?thesis
    unfolding hs_bitrev16_def Let_def bitrev_steps16
    by (simp add: swap_index_less swap_down_compose [unfolded One_nat_def])
next
  case False
  then show ?thesis
    unfolding hs_bitrev16_def Let_def bitrev_steps16 by simp
qed

lemma bit_hs_bitrev32: "bit (hs_bitrev32 x) i \<longleftrightarrow> i < 32 \<and> bit x (31 - i)"
proof (cases "i < 32")
  case True
  then show ?thesis
    unfolding hs_bitrev32_def Let_def bitrev_steps32
    by (simp add: swap_index_less swap_down_compose [unfolded One_nat_def])
next
  case False
  then show ?thesis
    unfolding hs_bitrev32_def Let_def bitrev_steps32 by simp
qed

lemma bit_hs_bitrev64: "bit (hs_bitrev64 x) i \<longleftrightarrow> i < 64 \<and> bit x (63 - i)"
proof (cases "i < 64")
  case True
  then show ?thesis
    unfolding hs_bitrev64_def Let_def bitrev_steps64 bit_last_stage
    by (simp add: swap_index_less swap_down_compose [unfolded One_nat_def])
next
  case False
  then show ?thesis
    unfolding hs_bitrev64_def Let_def bitrev_steps64 bit_last_stage by simp
qed

lemmas bit_bitrev = bit_hs_bitrev8 bit_hs_bitrev16 bit_hs_bitrev32 bit_hs_bitrev64

section \<open>Byte reversal\<close>

definition hs_bswap16 :: "word64 \<Rightarrow> word64" where
  "hs_bswap16 x =
    (let x = ucast (ucast x :: word16) :: word64
     in ucast (ucast (drop_bit 8 x OR push_bit 8 x) :: word16))"

definition hs_bswap32 :: "word64 \<Rightarrow> word64" where
  "hs_bswap32 x =
    (let x = ucast (ucast x :: word32) :: word64
     in ucast (ucast (drop_bit 24 x OR (drop_bit 8 x AND 0xff00) OR
                      push_bit 24 x OR push_bit 8 (x AND 0xff00)) :: word32))"

definition hs_bswap64 :: "word64 \<Rightarrow> word64" where
  "hs_bswap64 x =
    (drop_bit 56 x OR push_bit 56 x OR
     (drop_bit 40 x AND 0xff00) OR push_bit 40 (x AND 0xff00) OR
     (drop_bit 24 x AND 0xff0000) OR push_bit 24 (x AND 0xff0000) OR
     (drop_bit 8 x AND 0xff000000) OR push_bit 8 (x AND 0xff000000))"

lemma bit_byte_masks:
  "bit (0xff00 :: word64) i \<longleftrightarrow> 8 \<le> i \<and> i < 16"
  "bit (0xff0000 :: word64) i \<longleftrightarrow> 16 \<le> i \<and> i < 24"
  "bit (0xff000000 :: word64) i \<longleftrightarrow> 24 \<le> i \<and> i < 32"
proof -
  have m: "0xff00 = push_bit 8 (Bit_Operations.mask 8 :: word64)"
    "0xff0000 = push_bit 16 (Bit_Operations.mask 8 :: word64)"
    "0xff000000 = push_bit 24 (Bit_Operations.mask 8 :: word64)"
    by (simp_all add: mask_eq_exp_minus_1)
  show "bit (0xff00 :: word64) i \<longleftrightarrow> 8 \<le> i \<and> i < 16"
    "bit (0xff0000 :: word64) i \<longleftrightarrow> 16 \<le> i \<and> i < 24"
    "bit (0xff000000 :: word64) i \<longleftrightarrow> 24 \<le> i \<and> i < 32"
    unfolding m by (auto simp: bit_push_bit_iff bit_mask_iff)
qed

text \<open>Bit \<open>8 * b + r\<close> of a byte-swapped word of \<open>n\<close> bytes.\<close>

definition byte_index :: "nat \<Rightarrow> nat \<Rightarrow> nat" where
  "byte_index n i = 8 * (n - 1 - i div 8) + i mod 8"

lemma byte_index_cases:
  "i < 64 \<Longrightarrow> byte_index 8 i =
     (if i < 8 then i + 56 else if i < 16 then i + 40 else if i < 24 then i + 24
      else if i < 32 then i + 8 else if i < 40 then i - 8 else if i < 48 then i - 24
      else if i < 56 then i - 40 else i - 56)"
  "i < 32 \<Longrightarrow> byte_index 4 i =
     (if i < 8 then i + 24 else if i < 16 then i + 8 else if i < 24 then i - 8 else i - 24)"
  "i < 16 \<Longrightarrow> byte_index 2 i = (if i < 8 then i + 8 else i - 8)"
proof -
  define q r where "q = i div 8" and "r = i mod 8"
  have i: "i = 8 * q + r" "r < 8" and q: "i div 8 = q" "i mod 8 = r" by (simp_all add: q_def r_def)
  show "i < 64 \<Longrightarrow> byte_index 8 i =
     (if i < 8 then i + 56 else if i < 16 then i + 40 else if i < 24 then i + 24
      else if i < 32 then i + 8 else if i < 40 then i - 8 else if i < 48 then i - 24
      else if i < 56 then i - 40 else i - 56)"
    unfolding byte_index_def q using i
    by (cases "q = 0 \<or> q = 1 \<or> q = 2 \<or> q = 3 \<or> q = 4 \<or> q = 5 \<or> q = 6 \<or> q = 7") (elim disjE, simp_all)
  show "i < 32 \<Longrightarrow> byte_index 4 i =
     (if i < 8 then i + 24 else if i < 16 then i + 8 else if i < 24 then i - 8 else i - 24)"
    unfolding byte_index_def q using i
    by (cases "q = 0 \<or> q = 1 \<or> q = 2 \<or> q = 3") (elim disjE, simp_all)
  show "i < 16 \<Longrightarrow> byte_index 2 i = (if i < 8 then i + 8 else i - 8)"
    unfolding byte_index_def q using i by (cases "q = 0 \<or> q = 1") (elim disjE, simp_all)
qed

lemma byte_index_less: "i < 8 * n \<Longrightarrow> byte_index n i < 8 * n"
proof -
  assume "i < 8 * n"
  then have "i div 8 < n" by (simp add: less_mult_imp_div_less mult.commute)
  moreover have "i mod 8 < 8" by simp
  ultimately show ?thesis unfolding byte_index_def by linarith
qed

lemma byte_index_invol: "i < 8 * n \<Longrightarrow> byte_index n (byte_index n i) = i"
proof -
  assume "i < 8 * n"
  then have "i div 8 < n" by (simp add: less_mult_imp_div_less mult.commute)
  moreover have "byte_index n i div 8 = n - 1 - i div 8" "byte_index n i mod 8 = i mod 8"
    by (simp_all add: byte_index_def)
  ultimately show ?thesis by (simp add: byte_index_def [of n "byte_index n i"])
qed

lemma bit_ge_64 [simp]: "64 \<le> i \<Longrightarrow> \<not> bit (x :: word64) i"
  using bit_imp_le_length [of x i] by auto

lemma bit_drop_bit_add: "bit (drop_bit n (x :: word64)) i = bit x (i + n)"
  by (simp add: bit_drop_bit_eq add.commute)

lemmas bit_shift_simps = bit_or_iff bit_and_iff bit_push_bit_iff bit_drop_bit_add bit_byte_masks

lemma bit_hs_bswap64: "bit (hs_bswap64 x) i \<longleftrightarrow> i < 64 \<and> bit x (byte_index 8 i)"
proof (cases "i < 64")
  case True
  then consider "i < 8" | "8 \<le> i \<and> i < 16" | "16 \<le> i \<and> i < 24" | "24 \<le> i \<and> i < 32" |
    "32 \<le> i \<and> i < 40" | "40 \<le> i \<and> i < 48" | "48 \<le> i \<and> i < 56" | "56 \<le> i" by linarith
  then show ?thesis
    unfolding hs_bswap64_def bit_shift_simps byte_index_cases(1) [OF True]
    using True by cases auto
qed simp

lemma bit_hs_bswap32: "bit (hs_bswap32 x) i \<longleftrightarrow> i < 32 \<and> bit x (byte_index 4 i)"
proof (cases "i < 32")
  case True
  then consider "i < 8" | "8 \<le> i \<and> i < 16" | "16 \<le> i \<and> i < 24" | "24 \<le> i" by linarith
  then show ?thesis
    unfolding hs_bswap32_def Let_def bit_shift_simps byte_index_cases(2) [OF True] bit_ucast_iff comp_apply
    using True by cases auto
qed (simp add: hs_bswap32_def Let_def bit_ucast_iff)

lemma bit_hs_bswap16: "bit (hs_bswap16 x) i \<longleftrightarrow> i < 16 \<and> bit x (byte_index 2 i)"
proof (cases "i < 16")
  case True
  show ?thesis
    unfolding hs_bswap16_def Let_def bit_shift_simps byte_index_cases(3) [OF True] bit_ucast_iff comp_apply
    using True by auto
qed (simp add: hs_bswap16_def Let_def bit_ucast_iff)

section \<open>Leading and trailing zeros\<close>

text \<open>
  \<open>__builtin_clz\<close> and \<open>__builtin_ctz\<close> count the zeros above the highest and below the lowest
  set bit; at 0 the compiler leaves them undefined, and no caller below passes 0.
\<close>

definition builtin_clz :: "'a::len word \<Rightarrow> nat" where
  "builtin_clz x = length (takeWhile (\<lambda>i. \<not> bit x i) (rev [0..<LENGTH('a)]))"

definition builtin_ctz :: "'a::len word \<Rightarrow> nat" where
  "builtin_ctz x = length (takeWhile (\<lambda>i. \<not> bit x i) [0..<LENGTH('a)])"

definition hs_clz8 :: "word64 \<Rightarrow> word64" where
  "hs_clz8 x = (if (ucast x :: word8) \<noteq> 0
     then word_of_int (int (builtin_clz (ucast (ucast x :: word8) :: word32)) - 24) else 8)"

definition hs_clz16 :: "word64 \<Rightarrow> word64" where
  "hs_clz16 x = (if (ucast x :: word16) \<noteq> 0
     then word_of_int (int (builtin_clz (ucast (ucast x :: word16) :: word32)) - 16) else 16)"

definition hs_clz32 :: "word64 \<Rightarrow> word64" where
  "hs_clz32 x = (if (ucast x :: word32) \<noteq> 0
     then word_of_int (int (builtin_clz (ucast x :: word32))) else 32)"

definition hs_clz64 :: "word64 \<Rightarrow> word64" where
  "hs_clz64 x = (if x \<noteq> 0 then word_of_int (int (builtin_clz x)) else 64)"

definition hs_ctz8 :: "word64 \<Rightarrow> word64" where
  "hs_ctz8 x = (if (ucast x :: word8) \<noteq> 0
     then word_of_int (int (builtin_ctz (ucast x :: word32))) else 8)"

definition hs_ctz16 :: "word64 \<Rightarrow> word64" where
  "hs_ctz16 x = (if (ucast x :: word16) \<noteq> 0
     then word_of_int (int (builtin_ctz (ucast x :: word32))) else 16)"

definition hs_ctz32 :: "word64 \<Rightarrow> word64" where
  "hs_ctz32 x = (if (ucast x :: word32) \<noteq> 0
     then word_of_int (int (builtin_ctz (ucast x :: word32))) else 32)"

definition hs_ctz64 :: "word64 \<Rightarrow> word64" where
  "hs_ctz64 x = (if x \<noteq> 0 then word_of_int (int (builtin_ctz x)) else 64)"

text \<open>The 64-bit count composed of two 32-bit ones, as built on i386 and 32-bit powerpc.\<close>

definition hs_ctz64_i386 :: "word64 \<Rightarrow> word64" where
  "hs_ctz64_i386 x = (if x = 0 then 64
     else if (ucast x :: word32) \<noteq> 0 then word_of_int (int (builtin_ctz (ucast x :: word32)))
     else word_of_int (int (builtin_ctz (ucast (drop_bit 32 x) :: word32)) + 32))"

lemma upt_split_at: "c < n \<Longrightarrow> [0..<n] = [0..<c] @ c # [Suc c..<n]"
  using upt_add_eq_append [of 0 c "n - c"] by (simp add: upt_conv_Cons)

lemma takeWhile_upt_first:
  assumes "c < n" "P c" "\<forall>j<c. \<not> P j"
  shows "length (takeWhile (\<lambda>i. \<not> P i) [0..<n]) = c"
  unfolding upt_split_at [OF assms(1)] by (subst takeWhile_append2) (use assms in auto)

lemma takeWhile_rev_upt_last:
  assumes "c < n" "P c" "\<forall>j. c < j \<and> j < n \<longrightarrow> \<not> P j"
  shows "length (takeWhile (\<lambda>i. \<not> P i) (rev [0..<n])) = n - 1 - c"
  unfolding upt_split_at [OF assms(1)] rev_append rev.simps append_assoc by (subst takeWhile_append2) (use assms in auto)

lemma builtin_ctz_eq:
  "bit x c \<Longrightarrow> \<forall>j<c. \<not> bit x j \<Longrightarrow> builtin_ctz (x :: 'a::len word) = c"
  unfolding builtin_ctz_def by (rule takeWhile_upt_first) (auto dest: bit_imp_le_length)

lemma builtin_clz_eq:
  "bit x c \<Longrightarrow> \<forall>j>c. \<not> bit x j \<Longrightarrow> builtin_clz (x :: 'a::len word) = LENGTH('a) - 1 - c"
  unfolding builtin_clz_def by (rule takeWhile_rev_upt_last) (auto dest: bit_imp_le_length)

lemma lowest_bit_exists:
  assumes "(x :: 'a::len word) \<noteq> 0"
  obtains c where "bit x c" "\<forall>j<c. \<not> bit x j" "c < LENGTH('a)"
proof -
  obtain n where "bit x n" using assms by (metis bit_word_eqI bit_0_eq bot_apply bot_bool_def)
  then obtain q where "bit x q \<and> (\<forall>j<q. \<not> bit x j)" using exists_least_iff [of "bit x"] by blast
  then show ?thesis using that by (auto dest: bit_imp_le_length)
qed

lemma highest_bit_exists:
  assumes "(x :: 'a::len word) \<noteq> 0"
  obtains c where "bit x c" "\<forall>j>c. \<not> bit x j" "c < LENGTH('a)"
proof -
  let ?S = "{n. bit x n}"
  have fin: "finite ?S" by (rule finite_subset [of _ "{..<LENGTH('a)}"]) (auto dest: bit_imp_le_length)
  have "?S \<noteq> {}" using assms lowest_bit_exists by blast
  with fin have mx: "Max ?S \<in> ?S" by (rule Max_in)
  have nb: "\<not> bit x j" if "Max ?S < j" for j using that fin by (metis CollectI Max_ge not_le)
  from mx have "bit x (Max ?S)" by simp
  moreover from this have "Max ?S < LENGTH('a)" by (rule bit_imp_le_length)
  ultimately show ?thesis using nb by (intro that [of "Max ?S"]) blast+
qed

lemma word_of_int_nat: "word_of_int (int n) = (of_nat n :: word64)"
  by simp

lemma hs_ctz64_eq: "bit x c \<Longrightarrow> \<forall>j<c. \<not> bit x j \<Longrightarrow> hs_ctz64 x = of_nat c"
  by (auto simp: hs_ctz64_def builtin_ctz_eq)

lemma hs_clz64_eq: "bit x c \<Longrightarrow> \<forall>j>c. \<not> bit x j \<Longrightarrow> hs_clz64 x = of_nat (63 - c)"
  by (auto simp: hs_clz64_def builtin_clz_eq)

lemma hs_ctz64_bounds:
  "\<forall>j<w. \<not> bit x j \<Longrightarrow> w \<le> 64 \<Longrightarrow> w \<le> unat (hs_ctz64 x)"
proof (cases "x = 0")
  case False
  then obtain c where c: "bit x c" "\<forall>j<c. \<not> bit x j" "c < 64" by (rule lowest_bit_exists) simp
  assume "\<forall>j<w. \<not> bit x j" "w \<le> 64"
  then show ?thesis using c hs_ctz64_eq [OF c(1,2)] by (auto simp: unat_of_nat_64 not_less [symmetric])
qed (simp add: hs_ctz64_def)

lemma ucast_ctz:
  assumes "(ucast (x :: word64) :: 'b::len word) \<noteq> 0" "LENGTH('b) \<le> 32"
  obtains c where "c < LENGTH('b)" "hs_ctz64 x = of_nat c" "builtin_ctz (ucast x :: word32) = c"
proof -
  from assms(1) obtain c where c: "bit (ucast x :: 'b word) c"
    "\<forall>j<c. \<not> bit (ucast x :: 'b word) j" "c < LENGTH('b)" by (rule lowest_bit_exists)
  then have x: "bit x c" "\<forall>j<c. \<not> bit x j" by (auto simp: bit_ucast_iff)
  then have "builtin_ctz (ucast x :: word32) = c"
    using c(3) assms(2) by (intro builtin_ctz_eq) (auto simp: bit_ucast_iff)
  with x c(3) show ?thesis using that hs_ctz64_eq by blast
qed

lemma ucast_0_bits: "(ucast (x :: word64) :: 'b::len word) = 0 \<Longrightarrow> \<forall>j<LENGTH('b). \<not> bit x j"
  by (metis bit_0_eq bit_ucast_iff bot_apply bot_bool_def)

lemma ucast_clz:
  assumes "(ucast (x :: word64) :: 'b::len word) \<noteq> 0" "LENGTH('b) \<le> 32"
  obtains c where "c < LENGTH('b)" "hs_clz64 (take_bit LENGTH('b) x) = of_nat (63 - c)"
    "builtin_clz (ucast (ucast x :: 'b word) :: word32) = 31 - c"
proof -
  from assms(1) obtain c where c: "bit (ucast x :: 'b word) c"
    "\<forall>j>c. \<not> bit (ucast x :: 'b word) j" "c < LENGTH('b)" by (rule highest_bit_exists)
  then have "bit (take_bit LENGTH('b) x) c" "\<forall>j>c. \<not> bit (take_bit LENGTH('b) x) j"
    by (auto simp: bit_ucast_iff bit_take_bit_iff)
  then have "hs_clz64 (take_bit LENGTH('b) x) = of_nat (63 - c)" by (rule hs_clz64_eq)
  moreover have "bit (ucast (ucast x :: 'b word) :: word32) c"
    "\<forall>j>c. \<not> bit (ucast (ucast x :: 'b word) :: word32) j"
    using c assms(2) by (auto simp: bit_ucast_iff)
  from builtin_clz_eq [OF this] have "builtin_clz (ucast (ucast x :: 'b word) :: word32) = 31 - c" by simp
  ultimately show ?thesis using that c(3) by blast
qed

lemma clz_take_0:
  assumes "(ucast (x :: word64) :: 'b::len word) = 0"
  shows "hs_clz64 (take_bit LENGTH('b) x) = 64"
proof -
  have "take_bit LENGTH('b) x = 0"
    by (rule bit_word_eqI) (use ucast_0_bits [OF assms] in \<open>auto simp: bit_take_bit_iff\<close>)
  then show ?thesis by (simp add: hs_clz64_def)
qed

lemma of_int_diff_nat: "k \<le> n \<Longrightarrow> word_of_int (int n - int k) = (of_nat (n - k) :: word64)"
  by (simp add: of_nat_diff [symmetric] del: of_nat_diff)

section \<open>Signed multiplication overflow\<close>

text \<open>\<open>__builtin_mul_overflow\<close> on 64-bit signed operands: does the exact product leave the type?\<close>

definition hs_mulIntMayOflo :: "word64 \<Rightarrow> word64 \<Rightarrow> word64" where
  "hs_mulIntMayOflo a b =
    (let p = sint a * sint b in if - (2 ^ 63) \<le> p \<and> p < 2 ^ 63 then 0 else 1)"

section \<open>64-bit arithmetic on 32-bit platforms\<close>

text \<open>
  \<open>HsInt\<close> and \<open>HsWord\<close> are 32 bits wide here, \<open>HsInt64\<close> and \<open>HsWord64\<close> are 64-bit words read as
  signed and unsigned. C truncates quotients towards zero; division by zero, the signed overflow
  \<open>INT64_MIN / -1\<close>, the signed overflow of the negation and shifts by 64 or more are undefined
  behaviour: \<open>None\<close>.
\<close>

definition c_bool :: "bool \<Rightarrow> word32" where
  "c_bool b = (if b then 1 else 0)"

definition hs_eq64 :: "word64 \<Rightarrow> word64 \<Rightarrow> word32" where "hs_eq64 a b = c_bool (a = b)"
definition hs_ne64 :: "word64 \<Rightarrow> word64 \<Rightarrow> word32" where "hs_ne64 a b = c_bool (a \<noteq> b)"
definition hs_gtWord64 :: "word64 \<Rightarrow> word64 \<Rightarrow> word32" where "hs_gtWord64 a b = c_bool (a > b)"
definition hs_geWord64 :: "word64 \<Rightarrow> word64 \<Rightarrow> word32" where "hs_geWord64 a b = c_bool (a \<ge> b)"
definition hs_ltWord64 :: "word64 \<Rightarrow> word64 \<Rightarrow> word32" where "hs_ltWord64 a b = c_bool (a < b)"
definition hs_leWord64 :: "word64 \<Rightarrow> word64 \<Rightarrow> word32" where "hs_leWord64 a b = c_bool (a \<le> b)"
definition hs_gtInt64 :: "word64 \<Rightarrow> word64 \<Rightarrow> word32" where "hs_gtInt64 a b = c_bool (sint a > sint b)"
definition hs_geInt64 :: "word64 \<Rightarrow> word64 \<Rightarrow> word32" where "hs_geInt64 a b = c_bool (sint a \<ge> sint b)"
definition hs_ltInt64 :: "word64 \<Rightarrow> word64 \<Rightarrow> word32" where "hs_ltInt64 a b = c_bool (sint a < sint b)"
definition hs_leInt64 :: "word64 \<Rightarrow> word64 \<Rightarrow> word32" where "hs_leInt64 a b = c_bool (sint a \<le> sint b)"

definition int64_result :: "int \<Rightarrow> word64 option" where
  "int64_result r = (if - (2 ^ 63) \<le> r \<and> r < 2 ^ 63 then Some (word_of_int r) else None)"

definition hs_neg64 :: "word64 \<Rightarrow> word64 option" where "hs_neg64 a = int64_result (- sint a)"
definition hs_add64 :: "word64 \<Rightarrow> word64 \<Rightarrow> word64" where "hs_add64 a b = a + b"
definition hs_sub64 :: "word64 \<Rightarrow> word64 \<Rightarrow> word64" where "hs_sub64 a b = a - b"
definition hs_mul64 :: "word64 \<Rightarrow> word64 \<Rightarrow> word64" where "hs_mul64 a b = a * b"

definition hs_remWord64 :: "word64 \<Rightarrow> word64 \<Rightarrow> word64 option" where
  "hs_remWord64 a b = (if b = 0 then None else Some (a mod b))"
definition hs_quotWord64 :: "word64 \<Rightarrow> word64 \<Rightarrow> word64 option" where
  "hs_quotWord64 a b = (if b = 0 then None else Some (a div b))"

text \<open>\<open>a % b\<close> is undefined in C whenever \<open>a / b\<close> is not representable.\<close>

definition hs_remInt64 :: "word64 \<Rightarrow> word64 \<Rightarrow> word64 option" where
  "hs_remInt64 a b = (if b = 0 \<or> int64_result (sint a sdiv sint b) = None then None
     else Some (word_of_int (sint a smod sint b)))"
definition hs_quotInt64 :: "word64 \<Rightarrow> word64 \<Rightarrow> word64 option" where
  "hs_quotInt64 a b = (if b = 0 then None else int64_result (sint a sdiv sint b))"

definition hs_and64 :: "word64 \<Rightarrow> word64 \<Rightarrow> word64" where "hs_and64 a b = a AND b"
definition hs_or64 :: "word64 \<Rightarrow> word64 \<Rightarrow> word64" where "hs_or64 a b = a OR b"
definition hs_xor64 :: "word64 \<Rightarrow> word64 \<Rightarrow> word64" where "hs_xor64 a b = a XOR b"
definition hs_not64 :: "word64 \<Rightarrow> word64" where "hs_not64 a = NOT a"

definition hs_uncheckedShiftL64 :: "word64 \<Rightarrow> word32 \<Rightarrow> word64 option" where
  "hs_uncheckedShiftL64 a b = (if 0 \<le> sint b \<and> sint b < 64 then Some (push_bit (unat b) a) else None)"
definition hs_uncheckedShiftRL64 :: "word64 \<Rightarrow> word32 \<Rightarrow> word64 option" where
  "hs_uncheckedShiftRL64 a b = (if 0 \<le> sint b \<and> sint b < 64 then Some (drop_bit (unat b) a) else None)"
definition hs_uncheckedIShiftRA64 :: "word64 \<Rightarrow> word32 \<Rightarrow> word64 option" where
  "hs_uncheckedIShiftRA64 a b =
    (if 0 \<le> sint b \<and> sint b < 64 then Some (signed_drop_bit (unat b) a) else None)"

definition hs_intToInt64 :: "word32 \<Rightarrow> word64" where "hs_intToInt64 i = scast i"
definition hs_int64ToInt :: "word64 \<Rightarrow> word32" where "hs_int64ToInt i = ucast i"
definition hs_wordToWord64 :: "word32 \<Rightarrow> word64" where "hs_wordToWord64 w = ucast w"
definition hs_word64ToWord :: "word64 \<Rightarrow> word32" where "hs_word64ToWord w = ucast w"

lemma sint_range_64: "- (2 ^ 63) \<le> sint (a :: word64) \<and> sint a < 2 ^ 63"
  using sint_range_size [of a] by (simp add: word_size)

lemma sint_of_int_64: "- (2 ^ 63) \<le> r \<Longrightarrow> r < 2 ^ 63 \<Longrightarrow> sint (word_of_int r :: word64) = r"
  by (simp add: signed_take_bit_int_eq_self sint_sbintrunc' word_size)

lemma int64_result_Some: "int64_result r = Some w \<longleftrightarrow> - (2 ^ 63) \<le> r \<and> r < 2 ^ 63 \<and> sint w = r"
  using sint_range_64 [of w] by (auto simp: int64_result_def sint_of_int_64)

lemma sdiv_range_64:
  "sint (a :: word64) sdiv sint (b :: word64) < 2 ^ 63 \<and> - (2 ^ 63) \<le> sint a sdiv sint b
    \<longleftrightarrow> \<not> (sint a = - (2 ^ 63) \<and> sint b = -1)"
proof -
  let ?a = "sint a" and ?b = "sint b"
  have r: "- \<bar>?a\<bar> \<le> ?a sdiv ?b" "?a sdiv ?b \<le> \<bar>?a\<bar>" using sdiv_int_range [of ?a ?b] by auto
  have a: "- (2 ^ 63) \<le> ?a" "?a < 2 ^ 63" using sint_range_64 [of a] by auto
  have "?a = - (2 ^ 63) \<and> ?b = -1" if "?a sdiv ?b \<ge> 2 ^ 63"
  proof -
    from that r a have "?a = - (2 ^ 63)" "?a sdiv ?b = - ?a" by arith+
    then show ?thesis using int_sdiv_negated_is_minus1 [of ?a ?b] by auto
  qed
  moreover have "- (2 ^ 63) \<le> ?a sdiv ?b" using r a by auto
  ultimately show ?thesis by force
qed

section \<open>Properties\<close>

text \<open>C31 Depositing bits and extracting them again gives back the low source bits that the mask has
  room for, and extracting then depositing gives back the source under the mask, with
  \<open>hs_popcnt64\<close> as the number of mask bits.\<close>

theorem pdep_pext_roundtrip:
  "hs_pext64 (hs_pdep64 s m) m = take_bit (unat (hs_popcnt64 m)) s \<and>
   hs_pdep64 (hs_pext64 s m) m = s AND m"
proof
  have "bit (hs_pext64 (hs_pdep64 s m) m) k \<longleftrightarrow> k < bit_rank m 64 \<and> bit s k" for k
    using bit_rank_surj [of k m 64] bit_rank_strict [of m _ 64] bit_imp_le_length [of m]
    by (auto simp: bit_hs_pext64 bit_hs_pdep64)
  then show "hs_pext64 (hs_pdep64 s m) m = take_bit (unat (hs_popcnt64 m)) s"
    by (intro bit_word_eqI) (simp add: bit_take_bit_iff unat_hs_popcnt64)
  show "hs_pdep64 (hs_pext64 s m) m = s AND m"
    by (rule bit_word_eqI) (auto simp: bit_hs_pext64 bit_hs_pdep64 bit_and_iff dest: bit_rank_inj)
qed

text \<open>The narrow deposits and extracts, which run the 64-bit loop on whatever the upper bits of
  their arguments hold and truncate the result, depend on the low bits of the mask only and are
  the 64-bit operation on the truncated mask.\<close>

lemma narrow_pdep_pext:
  "hs_pdep32 s m = hs_pdep64 s (take_bit 32 m) \<and> hs_pext32 s m = hs_pext64 s (take_bit 32 m) \<and>
   hs_pdep16 s m = hs_pdep64 s (take_bit 16 m) \<and> hs_pext16 s m = hs_pext64 s (take_bit 16 m) \<and>
   hs_pdep8 s m = hs_pdep64 s (take_bit 8 m) \<and> hs_pext8 s m = hs_pext64 s (take_bit 8 m)"
proof -
  have rk: "i \<le> n \<Longrightarrow> bit_rank (take_bit n m) i = bit_rank m i" for n i
    by (rule bit_rank_cong) (auto simp: bit_take_bit_iff)
  have dep: "take_bit n (hs_pdep64 s m) = hs_pdep64 s (take_bit n m)" for n
    by (rule bit_word_eqI) (auto simp: bit_take_bit_iff bit_hs_pdep64 rk)
  have ext: "take_bit n (hs_pext n s m) = hs_pext64 s (take_bit n m)" if "n \<le> 64" for n
  proof (rule bit_word_eqI)
    fix k
    have small: "bit_rank m i < n" if "i < n" for i using that bit_rank_le [of m i] by simp
    show "bit (take_bit n (hs_pext n s m)) k = bit (hs_pext64 s (take_bit n m)) k"
      using \<open>n \<le> 64\<close> by (auto simp: bit_take_bit_iff bit_hs_pext64 bit_hs_pext rk small)
  qed
  show ?thesis
    by (simp add: hs_pdep32_def hs_pdep16_def hs_pdep8_def hs_pext32_def hs_pext16_def hs_pext8_def
        ucast_trunc dep ext)
qed

text \<open>The bit-twiddling reversals reverse: bit \<open>i\<close> of the result is bit \<open>w - 1 - i\<close> of the
  argument and nothing of the upper bits survives; the byte swaps move byte \<open>b\<close> to byte
  \<open>w / 8 - 1 - b\<close>; both 64-bit versions are involutions.\<close>

lemma bitrev_bswap_correct:
  "(bit (hs_bitrev8 x) i \<longleftrightarrow> i < 8 \<and> bit x (7 - i)) \<and>
   (bit (hs_bitrev16 x) i \<longleftrightarrow> i < 16 \<and> bit x (15 - i)) \<and>
   (bit (hs_bitrev32 x) i \<longleftrightarrow> i < 32 \<and> bit x (31 - i)) \<and>
   (bit (hs_bitrev64 x) i \<longleftrightarrow> i < 64 \<and> bit x (63 - i)) \<and>
   (bit (hs_bswap16 x) i \<longleftrightarrow> i < 16 \<and> bit x (byte_index 2 i)) \<and>
   (bit (hs_bswap32 x) i \<longleftrightarrow> i < 32 \<and> bit x (byte_index 4 i)) \<and>
   (bit (hs_bswap64 x) i \<longleftrightarrow> i < 64 \<and> bit x (byte_index 8 i)) \<and>
   hs_bitrev64 (hs_bitrev64 x) = x \<and> hs_bswap64 (hs_bswap64 x) = x"
proof -
  have "hs_bitrev64 (hs_bitrev64 x) = x"
    by (rule bit_word_eqI) (auto simp: bit_hs_bitrev64)
  moreover have "hs_bswap64 (hs_bswap64 x) = x"
    by (rule bit_word_eqI)
      (use byte_index_less [of _ 8] byte_index_invol [of _ 8] in \<open>simp add: bit_hs_bswap64\<close>)
  ultimately show ?thesis
    by (simp add: bit_bitrev bit_hs_bswap16 bit_hs_bswap32 bit_hs_bswap64)
qed

lemma hs_ctz64_bitrev64: "hs_ctz64 (hs_bitrev64 x) = hs_clz64 x"
proof (cases "x = 0")
  case True
  have "hs_bitrev64 0 = 0" by (rule bit_word_eqI) (simp add: bit_hs_bitrev64)
  with True show ?thesis by (simp add: hs_ctz64_def hs_clz64_def)
next
  case False
  then obtain c where c: "bit x c" "\<forall>j>c. \<not> bit x j" "c < 64" by (rule highest_bit_exists) simp
  then have "hs_ctz64 (hs_bitrev64 x) = of_nat (63 - c)"
    by (intro hs_ctz64_eq) (auto simp: bit_hs_bitrev64)
  with c show ?thesis by (simp add: hs_clz64_eq)
qed

lemma hs_ctz64_i386: "hs_ctz64_i386 x = hs_ctz64 x"
proof (cases "(ucast x :: word32) = 0")
  case True
  show ?thesis
  proof (cases "x = 0")
    case False
    then obtain c where c: "bit x c" "\<forall>j<c. \<not> bit x j" "c < 64" by (rule lowest_bit_exists) simp
    have "32 \<le> c" using ucast_0_bits [OF True] c(1) by (auto simp: not_less [symmetric])
    then have "builtin_ctz (ucast (drop_bit 32 x) :: word32) = c - 32"
      using c by (intro builtin_ctz_eq) (auto simp: bit_ucast_iff bit_drop_bit_eq)
    with False True c \<open>32 \<le> c\<close> show ?thesis
      by (simp add: hs_ctz64_i386_def hs_ctz64_eq [OF c(1,2)])
  qed (simp add: hs_ctz64_i386_def hs_ctz64_def)
next
  case False
  moreover from this obtain c where "hs_ctz64 x = of_nat c" "builtin_ctz (ucast x :: word32) = c"
    by (rule ucast_ctz) auto
  ultimately show ?thesis by (auto simp: hs_ctz64_i386_def)
qed

lemma hs_ctz32_min: "unat (hs_ctz32 x) = min 32 (unat (hs_ctz64 x))"
proof (cases "(ucast x :: word32) = 0")
  case True
  with hs_ctz64_bounds [OF ucast_0_bits [OF True]] show ?thesis by (simp add: hs_ctz32_def)
next
  case False
  then show ?thesis by (rule ucast_ctz) (use False in \<open>auto simp: hs_ctz32_def unat_of_nat_64\<close>)
qed

lemma hs_ctz16_min: "unat (hs_ctz16 x) = min 16 (unat (hs_ctz64 x))"
proof (cases "(ucast x :: word16) = 0")
  case True
  with hs_ctz64_bounds [OF ucast_0_bits [OF True]] show ?thesis by (simp add: hs_ctz16_def)
next
  case False
  then show ?thesis by (rule ucast_ctz) (use False in \<open>auto simp: hs_ctz16_def unat_of_nat_64\<close>)
qed

lemma hs_ctz8_min: "unat (hs_ctz8 x) = min 8 (unat (hs_ctz64 x))"
proof (cases "(ucast x :: word8) = 0")
  case True
  with hs_ctz64_bounds [OF ucast_0_bits [OF True]] show ?thesis by (simp add: hs_ctz8_def)
next
  case False
  then show ?thesis by (rule ucast_ctz) (use False in \<open>auto simp: hs_ctz8_def unat_of_nat_64\<close>)
qed

lemma hs_clz32_take: "unat (hs_clz32 x) + 32 = unat (hs_clz64 (take_bit 32 x))"
proof (cases "(ucast x :: word32) = 0")
  case True
  with clz_take_0 [OF True] show ?thesis by (simp add: hs_clz32_def)
next
  case False
  then obtain c where "c < 32" "hs_clz64 (take_bit 32 x) = of_nat (63 - c)"
    "builtin_clz (ucast (ucast x :: word32) :: word32) = 31 - c" by (rule ucast_clz) auto
  with False show ?thesis
    by (simp add: hs_clz32_def unat_of_nat_64 del: of_nat_diff)
qed

lemma hs_clz16_take: "unat (hs_clz16 x) + 48 = unat (hs_clz64 (take_bit 16 x))"
proof (cases "(ucast x :: word16) = 0")
  case True
  with clz_take_0 [OF True] show ?thesis by (simp add: hs_clz16_def)
next
  case False
  then obtain c where "c < 16" "hs_clz64 (take_bit 16 x) = of_nat (63 - c)"
    "builtin_clz (ucast (ucast x :: word16) :: word32) = 31 - c" by (rule ucast_clz) auto
  with False show ?thesis
    using of_int_diff_nat [of 16 "31 - c"] by (simp add: hs_clz16_def unat_of_nat_64 del: of_nat_diff)
qed

lemma hs_clz8_take: "unat (hs_clz8 x) + 56 = unat (hs_clz64 (take_bit 8 x))"
proof (cases "(ucast x :: word8) = 0")
  case True
  with clz_take_0 [OF True] show ?thesis by (simp add: hs_clz8_def)
next
  case False
  then obtain c where "c < 8" "hs_clz64 (take_bit 8 x) = of_nat (63 - c)"
    "builtin_clz (ucast (ucast x :: word8) :: word32) = 31 - c" by (rule ucast_clz) auto
  with False show ?thesis
    using of_int_diff_nat [of 24 "31 - c"] by (simp add: hs_clz8_def unat_of_nat_64 del: of_nat_diff)
qed

text \<open>Counting leading zeros is counting trailing zeros of the reversed word, the narrow
  trailing-zero counts are the 64-bit count capped at the width, the narrow leading-zero counts are
  the 64-bit count of the truncated word less the missing bits, and the 32-bit composition of the
  64-bit count used on i386 computes the same number.\<close>

lemma clz_ctz_agree:
  "hs_ctz64 (hs_bitrev64 x) = hs_clz64 x \<and> hs_ctz64_i386 x = hs_ctz64 x \<and>
   unat (hs_ctz32 x) = min 32 (unat (hs_ctz64 x)) \<and>
   unat (hs_ctz16 x) = min 16 (unat (hs_ctz64 x)) \<and>
   unat (hs_ctz8 x) = min 8 (unat (hs_ctz64 x)) \<and>
   unat (hs_clz32 x) + 32 = unat (hs_clz64 (take_bit 32 x)) \<and>
   unat (hs_clz16 x) + 48 = unat (hs_clz64 (take_bit 16 x)) \<and>
   unat (hs_clz8 x) + 56 = unat (hs_clz64 (take_bit 8 x))"
  by (intro conjI hs_ctz64_bitrev64 hs_ctz64_i386 hs_ctz32_min hs_ctz16_min hs_ctz8_min hs_clz32_take hs_clz16_take hs_clz8_take)

text \<open>C32 The truncating division of the 64-bit support on 32-bit platforms: where the quotient is
  defined so is the remainder, they recombine to the dividend, the remainder is smaller than the
  divisor and has the dividend's sign; the only undefined cases are a zero divisor and
  \<open>INT64_MIN / -1\<close>.\<close>

theorem quotRemInt64_correct:
  "(hs_quotInt64 a b = None \<longleftrightarrow> b = 0 \<or> (sint a = - (2 ^ 63) \<and> sint b = -1)) \<and>
   (hs_remInt64 a b = None \<longleftrightarrow> hs_quotInt64 a b = None) \<and>
   (hs_quotInt64 a b = Some q \<and> hs_remInt64 a b = Some r \<longrightarrow>
      sint q * sint b + sint r = sint a \<and> \<bar>sint r\<bar> < \<bar>sint b\<bar> \<and> (sint r = 0 \<or> sgn (sint r) = sgn (sint a)))"
proof -
  have quot: "sint a sdiv sint b < 2 ^ 63 \<and> - (2 ^ 63) \<le> sint a sdiv sint b
      \<longleftrightarrow> \<not> (sint a = - (2 ^ 63) \<and> sint b = -1)"
    by (rule sdiv_range_64)
  have rem: "- (2 ^ 63) \<le> sint a smod sint b \<and> sint a smod sint b < 2 ^ 63" if "b \<noteq> 0"
  proof -
    have "sint b \<noteq> 0" using that by (simp add: signed_eq_0_iff)
    from smod_int_range [OF this, of "sint a"] sint_range_64 [of b] show ?thesis
      unfolding atLeastAtMost_iff by arith
  qed
  have none: "hs_quotInt64 a b = None \<longleftrightarrow> b = 0 \<or> (sint a = - (2 ^ 63) \<and> sint b = -1)"
    using quot by (auto simp: hs_quotInt64_def int64_result_def)
  moreover have "hs_remInt64 a b = None \<longleftrightarrow> hs_quotInt64 a b = None"
    by (auto simp: hs_remInt64_def hs_quotInt64_def)
  moreover have "sint q * sint b + sint r = sint a \<and> \<bar>sint r\<bar> < \<bar>sint b\<bar> \<and>
      (sint r = 0 \<or> sgn (sint r) = sgn (sint a))"
    if qr: "hs_quotInt64 a b = Some q" "hs_remInt64 a b = Some r"
  proof -
    from qr have b0: "b \<noteq> 0" and q: "sint q = sint a sdiv sint b"
      by (auto simp: hs_quotInt64_def int64_result_Some split: if_splits)
    from qr rem [OF b0] have r: "sint r = sint a smod sint b"
      by (auto simp: hs_remInt64_def sint_of_int_64 split: if_splits)
    have "\<bar>sint r\<bar> < \<bar>sint b\<bar>" using b0 smod_int_range [of "sint b" "sint a"] by (auto simp: r signed_eq_0_iff)
    moreover have "sint r = 0 \<or> sgn (sint r) = sgn (sint a)"
    proof (cases "sint r = 0")
      case False
      have "0 \<le> \<bar>sint a\<bar> mod \<bar>sint b\<bar>" using b0 by (simp add: signed_eq_0_iff)
      moreover have "\<bar>sint a\<bar> mod \<bar>sint b\<bar> \<noteq> 0" using False by (auto simp: r signed_modulo_int_def)
      ultimately have "sgn (\<bar>sint a\<bar> mod \<bar>sint b\<bar>) = 1" by (simp only: sgn_1_pos)
      then show ?thesis by (simp add: r signed_modulo_int_def sgn_mult)
    qed simp
    ultimately show ?thesis by (simp add: q r sdiv_mult_smod_eq)
  qed
  ultimately show ?thesis by blast
qed

theorem quotRemInt64_correct_witness:
  "hs_quotInt64 (-7) 2 = Some (-3) \<and> hs_remInt64 (-7) 2 = Some (-1) \<and>
   sint (-3 :: word64) * sint (2 :: word64) + sint (-1 :: word64) = sint (-7 :: word64)"
proof -
  have "hs_quotInt64 (-7) 2 = Some (-3)" "hs_remInt64 (-7) 2 = Some (-1)"
    by (simp_all add: hs_quotInt64_def hs_remInt64_def int64_result_def)
  with quotRemInt64_correct [of "-7" 2 "-3" "-1"] show ?thesis by blast
qed

end
