(* ===== verification/TimeoutQueues.thy ===== *)
theory TimeoutQueues
  imports RTS_Prelude "HOL-Library.Multiset"
begin

text \<open>
  The timeout queue of the in-RTS I/O managers (\<open>rts/TimeoutQueue.c\<close>, \<open>rts/TimeoutQueue.h\<close>): a
  heap of linked nodes with parent pointers. The model keeps the pointers: a queue is the root
  pointer with the memory of nodes, every write of the C code is a write to that memory, and the
  loops are \<open>partial_function\<close>s that return \<open>None\<close> when they do not end. The representation
  predicate \<open>tq_rep\<close> and the zipper predicate \<open>tq_zip\<close> relate the memory to trees.
\<close>

section \<open>Nodes and memory\<close>

type_synonym tqptr = word64

text \<open>The address of the static closure that stands for the empty tree.\<close>

definition EMPTY :: tqptr where
  "EMPTY = 0"

text \<open>
  \<open>StgTimeoutQueue\<close> without the profiling header; \<open>tq_info\<close> is whether the header's info pointer
  is \<open>stg_TIMEOUT_QUEUE_info\<close>. \<open>Time\<close> is a signed 64-bit number that is only ever compared.
\<close>

datatype notify_type = NotifyTSO | NotifyMVar | NotifyTVar

record tq_node =
  tq_info :: bool
  tq_notify :: word64
  tq_notify_type :: notify_type
  tq_parent :: tqptr
  tq_a :: tqptr
  tq_b :: tqptr
  tq_rank :: word32
  tq_waketime :: int

type_synonym tq_mem = "tqptr \<Rightarrow> tq_node"

record tq_state =
  tq_root :: tqptr
  tq_mem :: tq_mem

text \<open>The places a \<open>StgTimeoutQueue **\<close> points to: the root variable or a child field.\<close>

datatype tq_slot = RootSlot | SlotA tqptr | SlotB tqptr

definition upd_node :: "tqptr \<Rightarrow> (tq_node \<Rightarrow> tq_node) \<Rightarrow> tq_state \<Rightarrow> tq_state" where
  "upd_node p f s = s\<lparr>tq_mem := (tq_mem s)(p := f (tq_mem s p))\<rparr>"

fun write_slot :: "tq_slot \<Rightarrow> tqptr \<Rightarrow> tq_state \<Rightarrow> tq_state" where
  "write_slot RootSlot q s = s\<lparr>tq_root := q\<rparr>"
| "write_slot (SlotA p) q s = upd_node p (\<lambda>n. n\<lparr>tq_a := q\<rparr>) s"
| "write_slot (SlotB p) q s = upd_node p (\<lambda>n. n\<lparr>tq_b := q\<rparr>) s"

section \<open>Operations\<close>

definition emptyTimeoutQueue :: tqptr where
  "emptyTimeoutQueue = EMPTY"

definition isEmptyTimeoutQueue :: "tq_state \<Rightarrow> bool" where
  "isEmptyTimeoutQueue s = (tq_root s = EMPTY)"

definition findMinWaketimeTimeoutQueue :: "tq_state \<Rightarrow> int" where
  "findMinWaketimeTimeoutQueue s = tq_waketime (tq_mem s (tq_root s))"

definition findMinTimeoutQueue :: "tq_state \<Rightarrow> tqptr" where
  "findMinTimeoutQueue s = tq_root s"

definition initElemTimeoutQueue :: "tqptr \<Rightarrow> word64 \<Rightarrow> notify_type \<Rightarrow> tq_state \<Rightarrow> tq_state" where
  "initElemTimeoutQueue t notify notify_type s =
    upd_node t (\<lambda>n. n\<lparr>tq_info := True, tq_parent := EMPTY, tq_a := EMPTY, tq_b := EMPTY,
      tq_notify := notify, tq_notify_type := notify_type\<rparr>) s"

definition rank_of :: "tq_mem \<Rightarrow> tqptr \<Rightarrow> word32" where
  "rank_of m h = (if h = EMPTY then 0 else tq_rank (m h))"

text \<open>The exit of the loop of \<open>insert_down\<close>: link the new node under its parent, both ways.\<close>

definition link_child :: "tqptr \<Rightarrow> tqptr \<Rightarrow> tq_slot \<Rightarrow> tq_state \<Rightarrow> tq_state" where
  "link_child h hparent hparent_child s =
    write_slot hparent_child h (upd_node h (\<lambda>n. n\<lparr>tq_parent := hparent\<rparr>) s)"

partial_function (option) insert_down_loop ::
  "int \<Rightarrow> tqptr \<Rightarrow> tqptr \<Rightarrow> tq_slot \<Rightarrow> tqptr \<Rightarrow> tq_state \<Rightarrow> tq_state option" where
  "insert_down_loop x hnew hparent hparent_child h s =
    (if h = EMPTY then Some (link_child hnew hparent hparent_child s)
     else if x \<le> tq_waketime (tq_mem s h)
     then Some (link_child hnew hparent hparent_child
            (upd_node h (\<lambda>n. n\<lparr>tq_parent := hnew\<rparr>) (upd_node hnew (\<lambda>n. n\<lparr>tq_a := h\<rparr>) s)))
     else insert_down_loop x hnew h (SlotB h) (tq_b (tq_mem s h)) s)"

definition insert_down :: "tqptr \<Rightarrow> tq_state \<Rightarrow> tq_state option" where
  "insert_down hnew s =
    insert_down_loop (tq_waketime (tq_mem s hnew)) hnew EMPTY RootSlot (tq_root s) s"

partial_function (option) merge_down ::
  "tqptr \<Rightarrow> tqptr \<Rightarrow> tqptr \<Rightarrow> tq_slot \<Rightarrow> tq_state \<Rightarrow> (tqptr \<times> tq_state) option" where
  "merge_down h1 h2 hparent hparent_child s =
    (if h2 = EMPTY then
       (if h1 = EMPTY then Some (hparent, write_slot hparent_child EMPTY s)
        else Some (h1, link_child h1 hparent hparent_child s))
     else if h1 = EMPTY then Some (h2, link_child h2 hparent hparent_child s)
     else if tq_waketime (tq_mem s h1) \<le> tq_waketime (tq_mem s h2)
     then merge_down (tq_b (tq_mem s h1)) h2 h1 (SlotB h1) (link_child h1 hparent hparent_child s)
     else merge_down h1 (tq_b (tq_mem s h2)) h2 (SlotB h2) (link_child h2 hparent hparent_child s))"

definition swap_children :: "tq_node \<Rightarrow> tq_node" where
  "swap_children n = n\<lparr>tq_a := tq_b n, tq_b := tq_a n\<rparr>"

partial_function (option) leftify_up_to :: "tqptr \<Rightarrow> tqptr \<Rightarrow> tq_state \<Rightarrow> tq_state option" where
  "leftify_up_to h target s =
    (if h = target then Some s
     else let ra = rank_of (tq_mem s) (tq_a (tq_mem s h));
              rb = rank_of (tq_mem s) (tq_b (tq_mem s h));
              s' = (if rb \<le> ra then upd_node h (\<lambda>n. n\<lparr>tq_rank := rb + 1\<rparr>) s
                    else upd_node h (\<lambda>n. swap_children (n\<lparr>tq_rank := ra + 1\<rparr>)) s)
          in leftify_up_to (tq_parent (tq_mem s' h)) target s')"

partial_function (option) leftify_up_shortcut :: "tqptr \<Rightarrow> tq_state \<Rightarrow> tq_state option" where
  "leftify_up_shortcut h s =
    (if h = EMPTY then Some s
     else let ra = rank_of (tq_mem s) (tq_a (tq_mem s h));
              rb = rank_of (tq_mem s) (tq_b (tq_mem s h))
          in if rb \<le> ra
             then (if tq_rank (tq_mem s h) = rb + 1 then Some s
                   else let s' = upd_node h (\<lambda>n. n\<lparr>tq_rank := rb + 1\<rparr>) s
                        in leftify_up_shortcut (tq_parent (tq_mem s' h)) s')
             else (if tq_rank (tq_mem s h) = ra + 1 then Some s
                   else let s' = upd_node h (\<lambda>n. swap_children (n\<lparr>tq_rank := ra + 1\<rparr>)) s
                        in leftify_up_shortcut (tq_parent (tq_mem s' h)) s'))"

definition insertTimeoutQueue :: "tqptr \<Rightarrow> int \<Rightarrow> tq_state \<Rightarrow> tq_state option" where
  "insertTimeoutQueue hnew waketime s =
    (let s1 = upd_node hnew (\<lambda>n. n\<lparr>tq_rank := 1, tq_waketime := waketime, tq_a := EMPTY, tq_b := EMPTY\<rparr>) s
     in case insert_down hnew s1 of
          None \<Rightarrow> None
        | Some s2 \<Rightarrow> leftify_up_shortcut (tq_parent (tq_mem s2 hnew)) s2)"

definition deleteMinTimeoutQueue :: "tq_state \<Rightarrow> (tqptr \<times> tq_state) option" where
  "deleteMinTimeoutQueue s =
    (let oldroot = tq_root s;
         a = tq_a (tq_mem s oldroot);
         b = tq_b (tq_mem s oldroot);
         s1 = upd_node oldroot (\<lambda>n. n\<lparr>tq_a := EMPTY, tq_b := EMPTY\<rparr>) s
     in case merge_down a b EMPTY RootSlot s1 of
          None \<Rightarrow> None
        | Some (htmp, s2) \<Rightarrow>
            (case leftify_up_to htmp EMPTY s2 of None \<Rightarrow> None | Some s3 \<Rightarrow> Some (oldroot, s3)))"

definition deleteTimeoutQueue :: "tqptr \<Rightarrow> tq_state \<Rightarrow> tq_state option" where
  "deleteTimeoutQueue h s =
    (let a = tq_a (tq_mem s h);
         b = tq_b (tq_mem s h);
         hparent = tq_parent (tq_mem s h);
         s1 = upd_node h (\<lambda>n. n\<lparr>tq_a := EMPTY, tq_b := EMPTY, tq_parent := EMPTY\<rparr>) s;
         hparent_child = (if hparent \<noteq> EMPTY
                          then (if tq_a (tq_mem s1 hparent) = h then SlotA hparent else SlotB hparent)
                          else RootSlot)
     in case merge_down a b hparent hparent_child s1 of
          None \<Rightarrow> None
        | Some (htmp, s2) \<Rightarrow>
            (case leftify_up_to htmp hparent s2 of
               None \<Rightarrow> None
             | Some s3 \<Rightarrow> leftify_up_shortcut hparent s3))"

text \<open>The checks the debug build runs at the entry and exit of the operations.\<close>

definition sanity_check_element :: "tqptr \<Rightarrow> tq_state \<Rightarrow> bool" where
  "sanity_check_element h s =
    (let m = tq_mem s; n = m h
     in if h = EMPTY then False
        else if \<not> tq_info n then False
        else if tq_parent n \<noteq> EMPTY \<and> tq_a (m (tq_parent n)) \<noteq> h \<and> tq_b (m (tq_parent n)) \<noteq> h then False
        else if tq_rank n \<noteq> min (rank_of m (tq_a n)) (rank_of m (tq_b n)) + 1 then False
        else if tq_a n \<noteq> EMPTY \<and> tq_parent (m (tq_a n)) \<noteq> h then False
        else if tq_b n \<noteq> EMPTY \<and> tq_parent (m (tq_b n)) \<noteq> h then False
        else True)"

definition sanity_check_root :: "tq_state \<Rightarrow> bool" where
  "sanity_check_root s = (tq_root s = EMPTY \<or>
     (sanity_check_element (tq_root s) s \<and> tq_parent (tq_mem s (tq_root s)) = EMPTY))"

partial_function (option) walk_to_root :: "tqptr \<Rightarrow> tq_state \<Rightarrow> tqptr option" where
  "walk_to_root i s =
    (if tq_parent (tq_mem s i) = EMPTY then Some i else walk_to_root (tq_parent (tq_mem s i)) s)"

definition sanity_check_member :: "tqptr \<Rightarrow> tq_state \<Rightarrow> bool option" where
  "sanity_check_member h s = map_option (\<lambda>i. i = tq_root s) (walk_to_root h s)"


section \<open>Trees and zippers\<close>

datatype ptree = PLeaf | PNode (pn_addr: tqptr) (pn_time: int) (pn_rank: nat) (pn_l: ptree) (pn_r: ptree)

text \<open>One step of the way from the root to a subtree: the node passed, with its other child.\<close>

datatype pframe = FrL tqptr int nat ptree | FrR tqptr int nat ptree

primrec fr_addr :: "pframe \<Rightarrow> tqptr" where
  "fr_addr (FrL x y k r) = x" | "fr_addr (FrR x y k l) = x"
primrec fr_time :: "pframe \<Rightarrow> int" where
  "fr_time (FrL x y k r) = y" | "fr_time (FrR x y k l) = y"
primrec fr_rank :: "pframe \<Rightarrow> nat" where
  "fr_rank (FrL x y k r) = k" | "fr_rank (FrR x y k l) = k"
primrec fr_other :: "pframe \<Rightarrow> ptree" where
  "fr_other (FrL x y k r) = r" | "fr_other (FrR x y k l) = l"

primrec plug1 :: "pframe \<Rightarrow> ptree \<Rightarrow> ptree" where
  "plug1 (FrL x y k r) t = PNode x y k t r"
| "plug1 (FrR x y k l) t = PNode x y k l t"

primrec plug :: "pframe list \<Rightarrow> ptree \<Rightarrow> ptree" where
  "plug [] t = t"
| "plug (f # fs) t = plug fs (plug1 f t)"

primrec addrs :: "ptree \<Rightarrow> tqptr list" where
  "addrs PLeaf = []"
| "addrs (PNode x y k l r) = x # addrs l @ addrs r"

primrec zaddrs :: "pframe list \<Rightarrow> tqptr list" where
  "zaddrs [] = []"
| "zaddrs (f # fs) = fr_addr f # addrs (fr_other f) @ zaddrs fs"

text \<open>The contents of a queue: which node waits for which time.\<close>

primrec entries :: "ptree \<Rightarrow> (tqptr \<times> int) multiset" where
  "entries PLeaf = {#}"
| "entries (PNode x y k l r) = {#(x, y)#} + entries l + entries r"

primrec zentries :: "pframe list \<Rightarrow> (tqptr \<times> int) multiset" where
  "zentries [] = {#}"
| "zentries (f # fs) = {#(fr_addr f, fr_time f)#} + entries (fr_other f) + zentries fs"

primrec trank :: "ptree \<Rightarrow> nat" where
  "trank PLeaf = 0"
| "trank (PNode x y k l r) = k"

primrec ranks_ok :: "ptree \<Rightarrow> bool" where
  "ranks_ok PLeaf = True"
| "ranks_ok (PNode x y k l r) = (k = min (trank l) (trank r) + 1 \<and> ranks_ok l \<and> ranks_ok r)"

primrec zranks_ok :: "pframe list \<Rightarrow> nat \<Rightarrow> bool" where
  "zranks_ok [] k = True"
| "zranks_ok (f # fs) k = (fr_rank f = min k (trank (fr_other f)) + 1 \<and>
     ranks_ok (fr_other f) \<and> zranks_ok fs (fr_rank f))"

primrec heap_ordered :: "ptree \<Rightarrow> bool" where
  "heap_ordered PLeaf = True"
| "heap_ordered (PNode x y k l r) = (heap_ordered l \<and> heap_ordered r \<and>
     (\<forall>e \<in># entries l + entries r. y \<le> snd e))"

primrec zheap_ordered :: "pframe list \<Rightarrow> (tqptr \<times> int) multiset \<Rightarrow> bool" where
  "zheap_ordered [] M = True"
| "zheap_ordered (f # fs) M = (heap_ordered (fr_other f) \<and>
     (\<forall>e \<in># M + entries (fr_other f). fr_time f \<le> snd e) \<and>
     zheap_ordered fs ({#(fr_addr f, fr_time f)#} + M + entries (fr_other f)))"

text \<open>The rank property of leftist heaps that the header comment of the C file asks for.\<close>

primrec leftist :: "ptree \<Rightarrow> bool" where
  "leftist PLeaf = True"
| "leftist (PNode x y k l r) = (trank r \<le> trank l \<and> leftist l \<and> leftist r)"

lemma entries_plug1: "entries (plug1 f t) = {#(fr_addr f, fr_time f)#} + entries t + entries (fr_other f)"
  by (cases f) auto

lemma entries_plug: "entries (plug fs t) = zentries fs + entries t"
  by (induction fs arbitrary: t) (auto simp: entries_plug1)

lemma heap_ordered_plug: "heap_ordered (plug fs t) \<longleftrightarrow> heap_ordered t \<and> zheap_ordered fs (entries t)"
proof (induction fs arbitrary: t)
  case (Cons f fs)
  then show ?case by (cases f) (auto simp: ac_simps)
qed simp

lemma zheap_ordered_mono: "zheap_ordered fs M \<Longrightarrow> N \<subseteq># M \<Longrightarrow> zheap_ordered fs N"
  by (induction fs arbitrary: M N) (auto dest: mset_subset_eqD intro: subset_mset.add_mono)

lemma ranks_ok_plug: "ranks_ok (plug fs t) \<longleftrightarrow> ranks_ok t \<and> zranks_ok fs (trank t)"
proof (induction fs arbitrary: t)
  case (Cons f fs)
  then show ?case by (cases f) (auto simp: min.commute)
qed simp

lemma plug_append: "plug (fs @ gs) t = plug gs (plug fs t)"
  by (induction fs arbitrary: t) auto

lemma mset_addrs: "mset (addrs t) = image_mset fst (entries t)"
  by (induction t) auto

lemma mset_zaddrs: "mset (zaddrs fs) = image_mset fst (zentries fs)"
  by (induction fs) (auto simp: mset_addrs)

lemma distinct_addrs_cong: "image_mset fst (entries t) = image_mset fst (entries t') \<Longrightarrow> distinct (addrs t) = distinct (addrs t')"
  by (metis mset_addrs mset_eq_imp_distinct_iff)

lemma set_addrs: "set (addrs t) = fst ` set_mset (entries t)"
  by (metis mset_addrs set_image_mset set_mset_mset)

lemma rank_size: "ranks_ok t \<Longrightarrow> 2 ^ trank t \<le> length (addrs t) + 1"
proof (induction t)
  case (PNode x y k l r)
  have "(2 :: nat) ^ min (trank l) (trank r) \<le> length (addrs l) + 1"
    by (rule order_trans [OF power_increasing PNode.IH(1)]) (use PNode.prems in auto)
  moreover have "(2 :: nat) ^ min (trank l) (trank r) \<le> length (addrs r) + 1"
    by (rule order_trans [OF power_increasing PNode.IH(2)]) (use PNode.prems in auto)
  ultimately show ?case using PNode.prems by simp
qed simp

lemma distinct_words_length: "distinct (xs :: word64 list) \<Longrightarrow> length xs \<le> 2 ^ 64"
  using card_mono [of UNIV "set xs"] by (simp add: distinct_card card_word)

lemma rank_bound: "ranks_ok t \<Longrightarrow> distinct (addrs t) \<Longrightarrow> trank t \<le> 64"
proof (rule ccontr)
  assume r: "ranks_ok t" "distinct (addrs t)" "\<not> trank t \<le> 64"
  then have "(2 :: nat) ^ 65 \<le> 2 ^ trank t" by (intro power_increasing) auto
  also have "\<dots> \<le> length (addrs t) + 1" using r(1) by (rule rank_size)
  also have "\<dots> \<le> 2 ^ 64 + 1" using distinct_words_length [OF r(2)] by simp
  finally show False by simp
qed

section \<open>Representation in memory\<close>

primrec tq_rep :: "tq_mem \<Rightarrow> tqptr \<Rightarrow> tqptr \<Rightarrow> ptree \<Rightarrow> bool" where
  "tq_rep m p par PLeaf = (p = EMPTY)"
| "tq_rep m p par (PNode x y k l r) =
     (p = x \<and> x \<noteq> EMPTY \<and> tq_info (m x) \<and> tq_parent (m x) = par \<and> tq_waketime (m x) = y \<and>
      unat (tq_rank (m x)) = k \<and> tq_rep m (tq_a (m x)) x l \<and> tq_rep m (tq_b (m x)) x r)"

primrec tq_ctx :: "tq_mem \<Rightarrow> tqptr \<Rightarrow> tqptr \<Rightarrow> tqptr \<Rightarrow> pframe list \<Rightarrow> bool" where
  "tq_ctx m root q par [] = (par = EMPTY \<and> root = q)"
| "tq_ctx m root q par (f # fs) =
     (let x = fr_addr f
      in par = x \<and> x \<noteq> EMPTY \<and> tq_info (m x) \<and> tq_waketime (m x) = fr_time f \<and>
         unat (tq_rank (m x)) = fr_rank f \<and>
         (case f of FrL _ _ _ r \<Rightarrow> tq_a (m x) = q \<and> tq_rep m (tq_b (m x)) x r
                  | FrR _ _ _ l \<Rightarrow> tq_b (m x) = q \<and> tq_rep m (tq_a (m x)) x l) \<and>
         tq_ctx m root x (tq_parent (m x)) fs)"

text \<open>\<open>t\<close> hangs at \<open>q\<close> below \<open>par\<close>, in the surroundings \<open>fs\<close>.\<close>

definition tq_zip :: "tq_state \<Rightarrow> tqptr \<Rightarrow> tqptr \<Rightarrow> ptree \<Rightarrow> pframe list \<Rightarrow> bool" where
  "tq_zip s q par t fs \<longleftrightarrow> tq_rep (tq_mem s) q par t \<and> tq_ctx (tq_mem s) (tq_root s) q par fs \<and>
     distinct (addrs t @ zaddrs fs)"

definition tq_links :: "tq_state \<Rightarrow> ptree \<Rightarrow> bool" where
  "tq_links s t \<longleftrightarrow> tq_zip s (tq_root s) EMPTY t []"

definition tq_inv :: "tq_state \<Rightarrow> ptree \<Rightarrow> bool" where
  "tq_inv s t \<longleftrightarrow> tq_links s t \<and> ranks_ok t \<and> heap_ordered t"

fun slot_of :: "pframe list \<Rightarrow> tq_slot" where
  "slot_of [] = RootSlot"
| "slot_of (FrL x y k r # fs) = SlotA x"
| "slot_of (FrR x y k l # fs) = SlotB x"

lemma tq_rep_cong: "(\<And>x. x \<in> set (addrs t) \<Longrightarrow> m x = m' x) \<Longrightarrow> tq_rep m p par t = tq_rep m' p par t"
  by (induction t arbitrary: p par) auto

lemma tq_rep_upd [simp]: "x \<notin> set (addrs t) \<Longrightarrow> tq_rep (m(x := n)) p par t = tq_rep m p par t"
  by (rule tq_rep_cong) auto

lemma tq_ctx_cong:
  "(\<And>x. x \<in> set (zaddrs fs) \<Longrightarrow> m x = m' x) \<Longrightarrow> tq_ctx m root q par fs = tq_ctx m' root q par fs"
proof (induction fs arbitrary: q par)
  case (Cons f fs)
  have "tq_rep m p x (fr_other f) = tq_rep m' p x (fr_other f)" for p x
    using Cons.prems by (intro tq_rep_cong) auto
  with Cons show ?case by (cases f) (auto simp: Let_def)
qed simp

lemma tq_ctx_upd [simp]: "x \<notin> set (zaddrs fs) \<Longrightarrow> tq_ctx (m(x := n)) root q par fs = tq_ctx m root q par fs"
  by (rule tq_ctx_cong) auto

lemma tq_rep_EMPTY [simp]: "tq_rep m EMPTY par t \<longleftrightarrow> t = PLeaf"
  by (cases t) auto

lemma tq_rep_nonempty: "tq_rep m p par t \<Longrightarrow> p \<noteq> EMPTY \<longleftrightarrow> t \<noteq> PLeaf"
  by (cases t) auto

lemma tq_rep_notin_EMPTY: "tq_rep m p par t \<Longrightarrow> EMPTY \<notin> set (addrs t)"
  by (induction t arbitrary: p par) auto

lemma tq_rep_ptr: "tq_rep m p par t \<Longrightarrow> t \<noteq> PLeaf \<Longrightarrow> p = pn_addr t \<and> p \<in> set (addrs t)"
  by (cases t) auto

lemma tq_zip_up: "tq_zip s q par t (f # fs) \<Longrightarrow>
    par = fr_addr f \<and> tq_zip s (fr_addr f) (tq_parent (tq_mem s (fr_addr f))) (plug1 f t) fs"
  by (cases f) (auto simp: tq_zip_def Let_def)

lemma tq_zip_down_r: "tq_zip s q par (PNode x y k l r) fs \<Longrightarrow>
    tq_zip s (tq_b (tq_mem s x)) x r (FrR x y k l # fs)"
  by (auto simp: tq_zip_def Let_def)

lemma tq_zip_plug: "tq_zip s q par t fs \<Longrightarrow> tq_links s (plug fs t)"
proof (induction fs arbitrary: q par t)
  case Nil
  then show ?case by (auto simp: tq_links_def tq_zip_def)
next
  case (Cons f fs)
  then show ?case by (auto dest: tq_zip_up)
qed

lemma tq_rep_unplug:
  "tq_zip s q par t fs \<Longrightarrow> h \<in> set (addrs t) \<Longrightarrow>
    \<exists>fs' y k l r. tq_zip s h (tq_parent (tq_mem s h)) (PNode h y k l r) (fs' @ fs) \<and>
      plug fs' (PNode h y k l r) = t"
proof (induction t arbitrary: q par fs)
  case (PNode x y k l r)
  consider "h = x" | "h \<in> set (addrs l)" | "h \<in> set (addrs r)" using PNode.prems(2) by auto
  then show ?case
  proof cases
    case 1
    with PNode.prems(1) show ?thesis
      by (intro exI [of _ "[]"]) (auto simp: tq_zip_def)
  next
    case 2
    have "tq_zip s (tq_a (tq_mem s x)) x l (FrL x y k r # fs)"
      using PNode.prems(1) by (auto simp: tq_zip_def Let_def)
    from PNode.IH(1) [OF this 2] obtain fs' y' k' l' r' where
      "tq_zip s h (tq_parent (tq_mem s h)) (PNode h y' k' l' r') (fs' @ FrL x y k r # fs)"
      "plug fs' (PNode h y' k' l' r') = l" by blast
    then show ?thesis
      by (intro exI [of _ "fs' @ [FrL x y k r]"] exI [of _ y'] exI [of _ k'] exI [of _ l'] exI [of _ r'])
        (simp add: plug_append)
  next
    case 3
    from PNode.IH(2) [OF tq_zip_down_r [OF PNode.prems(1)] 3] obtain fs' y' k' l' r' where
      "tq_zip s h (tq_parent (tq_mem s h)) (PNode h y' k' l' r') (fs' @ FrR x y k l # fs)"
      "plug fs' (PNode h y' k' l' r') = r" by blast
    then show ?thesis
      by (intro exI [of _ "fs' @ [FrR x y k l]"] exI [of _ y'] exI [of _ k'] exI [of _ l'] exI [of _ r'])
        (simp add: plug_append)
  qed
qed simp


section \<open>The loops on trees\<close>

fun descend :: "tqptr \<Rightarrow> int \<Rightarrow> ptree \<Rightarrow> pframe list \<Rightarrow> ptree \<times> pframe list" where
  "descend n x PLeaf fs = (PNode n x 1 PLeaf PLeaf, fs)"
| "descend n x (PNode a y k l r) fs =
    (if x \<le> y then (PNode n x 1 (PNode a y k l r) PLeaf, fs)
     else descend n x r (FrR a y k l # fs))"

fun meld :: "ptree \<Rightarrow> ptree \<Rightarrow> pframe list \<Rightarrow> ptree \<times> pframe list" where
  "meld t1 PLeaf fs = (t1, fs)"
| "meld PLeaf t2 fs = (t2, fs)"
| "meld (PNode x1 y1 k1 l1 r1) (PNode x2 y2 k2 l2 r2) fs =
    (if y1 \<le> y2 then meld r1 (PNode x2 y2 k2 l2 r2) (FrR x1 y1 k1 l1 # fs)
     else meld (PNode x1 y1 k1 l1 r1) r2 (FrR x2 y2 k2 l2 # fs))"

fun leftify :: "ptree \<Rightarrow> ptree" where
  "leftify PLeaf = PLeaf"
| "leftify (PNode x y k l r) =
    (if trank r \<le> trank l then PNode x y (trank r + 1) l r else PNode x y (trank l + 1) r l)"

primrec lift_up :: "pframe list \<Rightarrow> ptree \<Rightarrow> ptree" where
  "lift_up [] t = t"
| "lift_up (f # fs) t = lift_up fs (leftify (plug1 f t))"

primrec lift_shortcut :: "pframe list \<Rightarrow> ptree \<Rightarrow> ptree" where
  "lift_shortcut [] t = t"
| "lift_shortcut (f # fs) t =
    (if fr_rank f = min (trank t) (trank (fr_other f)) + 1 then plug fs (plug1 f t)
     else lift_shortcut fs (leftify (plug1 f t)))"

definition insert_tree :: "tqptr \<Rightarrow> int \<Rightarrow> ptree \<Rightarrow> ptree" where
  "insert_tree n x t = (case descend n x t [] of (t', fs) \<Rightarrow> lift_shortcut fs t')"

text \<open>Merge two trees into the place left by a deleted node below \<open>fs\<close>.\<close>

definition join_tree :: "ptree \<Rightarrow> ptree \<Rightarrow> ptree" where
  "join_tree l r = (case meld l r [] of (t', gs) \<Rightarrow> if t' = PLeaf then PLeaf else lift_up gs (leftify t'))"

definition delete_tree :: "pframe list \<Rightarrow> ptree \<Rightarrow> ptree \<Rightarrow> ptree" where
  "delete_tree fs l r = lift_shortcut fs (join_tree l r)"

lemma entries_leftify [simp]: "entries (leftify t) = entries t"
  by (cases t) (auto simp: ac_simps)

lemma heap_ordered_leftify [simp]: "heap_ordered (leftify t) = heap_ordered t"
  by (cases t) (auto simp: ac_simps)

lemma ranks_ok_leftify: "t = PNode x y k l r \<Longrightarrow> ranks_ok l \<Longrightarrow> ranks_ok r \<Longrightarrow> ranks_ok (leftify t)"
  by (auto simp: min_def)

lemma entries_lift_up: "entries (lift_up fs t) = zentries fs + entries t"
  by (induction fs arbitrary: t) (auto simp: entries_plug1)

lemma entries_lift_shortcut: "entries (lift_shortcut fs t) = zentries fs + entries t"
  by (induction fs arbitrary: t) (auto simp: entries_plug1 entries_plug)

lemma heap_ordered_plug_eq:
  "entries t = entries t' \<Longrightarrow> heap_ordered t = heap_ordered t' \<Longrightarrow> heap_ordered (plug fs t) = heap_ordered (plug fs t')"
  by (simp add: heap_ordered_plug)

lemma heap_ordered_lift_up: "heap_ordered (lift_up fs t) = heap_ordered (plug fs t)"
proof (induction fs arbitrary: t)
  case (Cons f fs)
  then show ?case using heap_ordered_plug_eq [of "leftify (plug1 f t)" "plug1 f t" fs] by simp
qed simp

lemma heap_ordered_lift_shortcut: "heap_ordered (lift_shortcut fs t) = heap_ordered (plug fs t)"
proof (induction fs arbitrary: t)
  case (Cons f fs)
  then show ?case using heap_ordered_plug_eq [of "leftify (plug1 f t)" "plug1 f t" fs] by simp
qed simp

lemma plug1_children: "\<exists>l r. plug1 f t = PNode (fr_addr f) (fr_time f) (fr_rank f) l r \<and>
    (l = t \<and> r = fr_other f \<or> l = fr_other f \<and> r = t)"
  by (cases f) auto

lemma ranks_ok_leftify_plug1: "ranks_ok t \<Longrightarrow> ranks_ok (fr_other f) \<Longrightarrow> ranks_ok (leftify (plug1 f t))"
  using plug1_children [of f t] by (metis ranks_ok_leftify)

lemma ranks_ok_lift_up: "ranks_ok t \<Longrightarrow> \<forall>f \<in> set fs. ranks_ok (fr_other f) \<Longrightarrow> ranks_ok (lift_up fs t)"
  by (induction fs arbitrary: t) (auto simp: ranks_ok_leftify_plug1)

lemma ranks_ok_lift_shortcut: "ranks_ok t \<Longrightarrow> zranks_ok fs k \<Longrightarrow> ranks_ok (lift_shortcut fs t)"
proof (induction fs arbitrary: t k)
  case (Cons f fs)
  show ?case
  proof (cases "fr_rank f = min (trank t) (trank (fr_other f)) + 1")
    case True
    have tr: "trank (plug1 f t) = fr_rank f" by (cases f) auto
    have "ranks_ok (plug1 f t)" using Cons.prems True by (cases f) (auto simp: min.commute)
    moreover have "zranks_ok fs (fr_rank f)" using Cons.prems(2) unfolding zranks_ok.simps by blast
    ultimately have "ranks_ok (plug fs (plug1 f t))" by (simp only: ranks_ok_plug tr simp_thms)
    then show ?thesis unfolding lift_shortcut.simps if_P [OF True] .
  next
    case False
    with Cons show ?thesis by (auto simp: ranks_ok_leftify_plug1)
  qed
qed simp

lemma zranks_ok_others: "zranks_ok fs k \<Longrightarrow> \<forall>f \<in> set fs. ranks_ok (fr_other f)"
  by (induction fs arbitrary: k) auto

lemma zheap_ordered_add:
  "zheap_ordered fs M \<Longrightarrow> \<forall>f \<in> set fs. fr_time f \<le> snd e \<Longrightarrow> zheap_ordered fs (add_mset e M)"
  by (induction fs arbitrary: M) (auto simp: add_mset_commute)

lemma descend_entries:
  "descend n x t fs = (t', fs') \<Longrightarrow> zentries fs' + entries t' = add_mset (n, x) (zentries fs + entries t)"
  by (induction n x t fs arbitrary: t' fs' rule: descend.induct) (auto split: if_splits simp: ac_simps)

lemma descend_heap_ordered:
  "descend n x t fs = (t', fs') \<Longrightarrow> heap_ordered (plug fs t) \<Longrightarrow> \<forall>f \<in> set fs. fr_time f \<le> x \<Longrightarrow>
    heap_ordered (plug fs' t')"
proof (induction n x t fs arbitrary: t' fs' rule: descend.induct)
  case (1 n x fs)
  then show ?case using zheap_ordered_add [of fs "{#}" "(n, x)"] by (auto simp: heap_ordered_plug)
next
  case (2 n x a y k l r fs)
  show ?case
  proof (cases "x \<le> y")
    case True
    then have "(t', fs') = (PNode n x 1 (PNode a y k l r) PLeaf, fs)" using "2.prems"(1) by simp
    moreover have "zheap_ordered fs (add_mset (n, x) (entries (PNode a y k l r)))"
      using "2.prems" by (intro zheap_ordered_add) (auto simp: heap_ordered_plug)
    ultimately show ?thesis using True "2.prems"(2)
      by (auto simp: heap_ordered_plug add_mset_commute intro: order_trans [OF True])
  next
    case False
    then show ?thesis using "2.IH" [OF False] "2.prems" by simp
  qed
qed

lemma descend_ranks:
  "descend n x t fs = (t', fs') \<Longrightarrow> ranks_ok (plug fs t) \<Longrightarrow> ranks_ok t' \<and> (\<exists>k. zranks_ok fs' k)"
proof (induction n x t fs arbitrary: t' fs' rule: descend.induct)
  case (1 n x fs)
  then show ?case by (auto simp: ranks_ok_plug)
next
  case (2 n x a y k l r fs)
  show ?case
  proof (cases "x \<le> y")
    case True
    then show ?thesis using "2.prems" by (auto simp: ranks_ok_plug)
  next
    case False
    then show ?thesis using "2.IH" [OF False] "2.prems" by simp
  qed
qed

lemma insert_tree_correct:
  assumes "ranks_ok t" "heap_ordered t"
  shows "ranks_ok (insert_tree n x t)" "heap_ordered (insert_tree n x t)"
    "entries (insert_tree n x t) = add_mset (n, x) (entries t)"
proof -
  obtain t' fs where d: "descend n x t [] = (t', fs)" by (cases "descend n x t []")
  show "ranks_ok (insert_tree n x t)"
    using descend_ranks [OF d] assms(1) by (auto simp: insert_tree_def d intro: ranks_ok_lift_shortcut)
  show "heap_ordered (insert_tree n x t)"
    using descend_heap_ordered [OF d] assms(2) by (simp add: insert_tree_def d heap_ordered_lift_shortcut)
  show "entries (insert_tree n x t) = add_mset (n, x) (entries t)"
    using descend_entries [OF d] by (simp add: insert_tree_def d entries_lift_shortcut)
qed

lemma meld_append: "meld t1 t2 (fs @ gs) = (case meld t1 t2 fs of (t, hs) \<Rightarrow> (t, hs @ gs))"
  by (induction t1 t2 fs rule: meld.induct) (auto split: prod.splits)

lemma meld_entries:
  "meld t1 t2 fs = (t', fs') \<Longrightarrow> zentries fs' + entries t' = zentries fs + entries t1 + entries t2"
  by (induction t1 t2 fs arbitrary: t' fs' rule: meld.induct) (auto split: if_splits simp: ac_simps)

lemma meld_heap_ordered:
  "meld t1 t2 fs = (t', fs') \<Longrightarrow> heap_ordered t1 \<Longrightarrow> heap_ordered t2 \<Longrightarrow>
    zheap_ordered fs (entries t1 + entries t2) \<Longrightarrow> heap_ordered (plug fs' t')"
proof (induction t1 t2 fs arbitrary: t' fs' rule: meld.induct)
  case (3 x1 y1 k1 l1 r1 x2 y2 k2 l2 r2 fs)
  show ?case
  proof (cases "y1 \<le> y2")
    case True
    then have m: "meld r1 (PNode x2 y2 k2 l2 r2) (FrR x1 y1 k1 l1 # fs) = (t', fs')" using "3.prems" by simp
    show ?thesis
      by (rule "3.IH"(1) [OF True m])
        (use True "3.prems" in \<open>auto simp: ac_simps add_mset_commute intro: order_trans [OF True]\<close>)
  next
    case False
    then have m: "meld (PNode x1 y1 k1 l1 r1) r2 (FrR x2 y2 k2 l2 # fs) = (t', fs')" using "3.prems" by simp
    from False have "y2 \<le> y1" by simp
    show ?thesis
      by (rule "3.IH"(2) [OF False m])
        (use False "3.prems" in \<open>auto simp: ac_simps add_mset_commute intro: order_trans [OF \<open>y2 \<le> y1\<close>]\<close>)
  qed
qed (auto simp: heap_ordered_plug)

lemma meld_ranks:
  "meld t1 t2 fs = (t', fs') \<Longrightarrow> ranks_ok t1 \<Longrightarrow> ranks_ok t2 \<Longrightarrow> \<forall>f \<in> set fs. ranks_ok (fr_other f) \<Longrightarrow>
    ranks_ok t' \<and> (\<forall>f \<in> set fs'. ranks_ok (fr_other f))"
  by (induction t1 t2 fs arbitrary: t' fs' rule: meld.induct) (auto split: if_splits)

lemma meld_leaf: "meld t1 t2 fs = (t', fs') \<Longrightarrow> t' = PLeaf \<longleftrightarrow> t1 = PLeaf \<and> t2 = PLeaf"
  by (induction t1 t2 fs arbitrary: t' fs' rule: meld.induct) (auto split: if_splits)

lemma ranks_ok_join_tree:
  assumes "ranks_ok l" "ranks_ok r"
  shows "ranks_ok (join_tree l r)"
proof -
  obtain t' gs where m: "meld l r [] = (t', gs)" by (cases "meld l r []")
  show ?thesis
    using meld_ranks [OF m assms] by (cases t') (auto simp: join_tree_def m ranks_ok_lift_up min_def)
qed

lemma join_tree_correct:
  assumes "ranks_ok l" "ranks_ok r" "heap_ordered l" "heap_ordered r"
  shows "ranks_ok (join_tree l r)" "heap_ordered (join_tree l r)"
    "entries (join_tree l r) = entries l + entries r"
proof -
  obtain t' gs where m: "meld l r [] = (t', gs)" by (cases "meld l r []")
  have lr: "t' = PLeaf \<Longrightarrow> l = PLeaf \<and> r = PLeaf \<and> gs = []" using meld_leaf [OF m] m by auto
  show "ranks_ok (join_tree l r)"
    by (rule ranks_ok_join_tree [OF assms(1,2)])
  show "heap_ordered (join_tree l r)"
    using meld_heap_ordered [OF m assms(3,4)] heap_ordered_plug_eq [of "leftify t'" t' gs]
    by (auto simp: join_tree_def m heap_ordered_lift_up)
  show "entries (join_tree l r) = entries l + entries r"
    using meld_entries [OF m] lr by (auto simp: join_tree_def m entries_lift_up)
qed

lemma delete_tree_correct:
  assumes "ranks_ok (plug fs (PNode h y k l r))" "heap_ordered (plug fs (PNode h y k l r))"
  shows "ranks_ok (delete_tree fs l r)" "heap_ordered (delete_tree fs l r)"
    "add_mset (h, y) (entries (delete_tree fs l r)) = entries (plug fs (PNode h y k l r))"
proof -
  note j = join_tree_correct [of l r]
  from assms show "ranks_ok (delete_tree fs l r)"
    by (auto simp: delete_tree_def ranks_ok_plug intro: j(1) ranks_ok_lift_shortcut simp del: trank.simps
        heap_ordered_plug simp: heap_ordered_plug)
  from assms show "heap_ordered (delete_tree fs l r)"
    by (auto simp: delete_tree_def heap_ordered_lift_shortcut heap_ordered_plug ranks_ok_plug j
        intro: zheap_ordered_mono)
  from assms show "add_mset (h, y) (entries (delete_tree fs l r)) = entries (plug fs (PNode h y k l r))"
    by (auto simp: delete_tree_def entries_lift_shortcut entries_plug j heap_ordered_plug ranks_ok_plug)
qed


section \<open>The loops in memory\<close>

lemma mem_upd_node: "tq_mem (upd_node p f s) = (tq_mem s)(p := f (tq_mem s p))"
  by (simp add: upd_node_def)

lemma root_upd_node [simp]: "tq_root (upd_node p f s) = tq_root s"
  by (simp add: upd_node_def)

lemma tq_ctx_notin_EMPTY: "tq_ctx m root q par fs \<Longrightarrow> EMPTY \<notin> set (zaddrs fs)"
proof (induction fs arbitrary: q par)
  case (Cons f fs)
  then show ?case by (cases f) (auto simp: Let_def dest: tq_rep_notin_EMPTY)
qed simp

lemma write_slot_ctx:
  assumes "tq_ctx (tq_mem s) (tq_root s) q par fs" "distinct (zaddrs fs)"
  shows "tq_ctx (tq_mem (write_slot (slot_of fs) q' s)) (tq_root (write_slot (slot_of fs) q' s)) q' par fs"
proof (cases fs)
  case Nil
  with assms show ?thesis by simp
next
  case (Cons f gs)
  with assms show ?thesis by (cases f) (auto simp: Let_def mem_upd_node)
qed

lemma write_slot_frame: "x \<notin> set (zaddrs fs) \<Longrightarrow> tq_mem (write_slot (slot_of fs) q s) x = tq_mem s x"
  by (cases fs rule: slot_of.cases) (auto simp: mem_upd_node)

lemma tq_rep_new_parent:
  "tq_rep m p par0 t \<Longrightarrow> distinct (addrs t) \<Longrightarrow>
    tq_rep (m(p := (m p)\<lparr>tq_parent := par\<rparr>)) p par t"
  by (cases t) auto

lemma link_child_frame:
  "x \<noteq> h \<Longrightarrow> x \<notin> set (zaddrs fs) \<Longrightarrow> tq_mem (link_child h par (slot_of fs) s) x = tq_mem s x"
  by (simp add: link_child_def write_slot_frame mem_upd_node)

lemma link_child_zip:
  assumes "tq_ctx (tq_mem s) (tq_root s) q par fs" "tq_rep (tq_mem s) h par0 t" "t \<noteq> PLeaf"
    "distinct (addrs t @ zaddrs fs)"
  shows "tq_zip (link_child h par (slot_of fs) s) h par t fs"
proof -
  let ?s = "upd_node h (\<lambda>n. n\<lparr>tq_parent := par\<rparr>) s"
  from assms have h: "h \<in> set (addrs t)" using tq_rep_ptr by blast
  with assms(4) have "h \<notin> set (zaddrs fs)" by auto
  with assms(1) have "tq_ctx (tq_mem ?s) (tq_root ?s) q par fs" by (simp add: mem_upd_node)
  with assms(4) have c: "tq_ctx (tq_mem (write_slot (slot_of fs) h ?s)) (tq_root (write_slot (slot_of fs) h ?s)) h par fs"
    by (intro write_slot_ctx) auto
  have "tq_rep (tq_mem ?s) h par t" using assms(2,4) by (auto simp: mem_upd_node intro: tq_rep_new_parent)
  moreover have "tq_rep (tq_mem (write_slot (slot_of fs) h ?s)) h par t = tq_rep (tq_mem ?s) h par t"
    by (rule tq_rep_cong, rule write_slot_frame) (use assms(4) in auto)
  ultimately show ?thesis using c assms(4) by (simp add: tq_zip_def link_child_def)
qed

lemma insert_down_loop_zip:
  assumes "tq_ctx (tq_mem s) (tq_root s) h hparent fs" "tq_rep (tq_mem s) h hparent t"
    "distinct (addrs t @ zaddrs fs)" "hnew \<notin> set (addrs t @ zaddrs fs)" "hnew \<noteq> EMPTY"
    "tq_info (tq_mem s hnew)" "tq_waketime (tq_mem s hnew) = x" "tq_rank (tq_mem s hnew) = 1"
    "tq_a (tq_mem s hnew) = EMPTY" "tq_b (tq_mem s hnew) = EMPTY"
  shows "\<exists>s' par. insert_down_loop x hnew hparent (slot_of fs) h s = Some s' \<and>
    (case descend hnew x t fs of (t', fs') \<Rightarrow> tq_zip s' hnew par t' fs') \<and>
    tq_parent (tq_mem s' hnew) = par"
  using assms
proof (induction t arbitrary: h hparent fs)
  case PLeaf
  let ?s = "link_child hnew hparent (slot_of fs) s"
  have "tq_rep (tq_mem s) hnew (tq_parent (tq_mem s hnew)) (PNode hnew x 1 PLeaf PLeaf)"
    using PLeaf.prems by simp
  with PLeaf.prems have "tq_zip ?s hnew hparent (PNode hnew x 1 PLeaf PLeaf) fs"
    by (intro link_child_zip) auto
  moreover have "insert_down_loop x hnew hparent (slot_of fs) h s = Some ?s"
    using PLeaf.prems by (simp add: insert_down_loop.simps)
  ultimately show ?case by (auto simp: tq_zip_def)
next
  case (PNode a y k l r)
  let ?t = "PNode a y k l r"
  have h: "h = a" "a \<noteq> EMPTY" "tq_waketime (tq_mem s a) = y" using PNode.prems by auto
  show ?case
  proof (cases "x \<le> y")
    case True
    let ?s1 = "upd_node h (\<lambda>n. n\<lparr>tq_parent := hnew\<rparr>) (upd_node hnew (\<lambda>n. n\<lparr>tq_a := h\<rparr>) s)"
    let ?s2 = "link_child hnew hparent (slot_of fs) ?s1"
    have eq: "insert_down_loop x hnew hparent (slot_of fs) h s = Some ?s2"
      using h True by (simp add: insert_down_loop.simps)
    have "tq_rep (tq_mem ?s1) h hnew ?t"
      using PNode.prems tq_rep_new_parent [of "(tq_mem s)(hnew := (tq_mem s hnew)\<lparr>tq_a := h\<rparr>)" h hparent ?t hnew]
      by (auto simp: mem_upd_node)
    then have "tq_rep (tq_mem ?s1) hnew (tq_parent (tq_mem s hnew)) (PNode hnew x 1 ?t PLeaf)"
      using PNode.prems h by (auto simp: mem_upd_node)
    moreover have "tq_ctx (tq_mem ?s1) (tq_root ?s1) h hparent fs"
      using PNode.prems h by (auto simp: mem_upd_node)
    ultimately have "tq_zip ?s2 hnew hparent (PNode hnew x 1 ?t PLeaf) fs"
      using PNode.prems by (intro link_child_zip) auto
    with eq True show ?thesis by (auto simp: tq_zip_def)
  next
    case False
    have "tq_zip s h hparent ?t fs" using PNode.prems by (simp add: tq_zip_def)
    from tq_zip_down_r [OF this [unfolded h(1)]]
    have z: "tq_zip s (tq_b (tq_mem s a)) a r (FrR a y k l # fs)" by simp
    have "insert_down_loop x hnew hparent (slot_of fs) h s =
      insert_down_loop x hnew a (slot_of (FrR a y k l # fs)) (tq_b (tq_mem s a)) s"
      using False h by (subst insert_down_loop.simps) simp
    with PNode.IH(2) [of "tq_b (tq_mem s a)" a "FrR a y k l # fs"] z False PNode.prems
    show ?thesis by (auto simp: tq_zip_def)
  qed
qed

lemma link_child_self:
  "h \<notin> set (zaddrs fs) \<Longrightarrow>
    tq_mem (link_child h par (slot_of fs) s) h = (tq_mem s h)\<lparr>tq_parent := par\<rparr>"
  by (simp add: link_child_def write_slot_frame mem_upd_node)

lemma merge_step:
  assumes "tq_ctx (tq_mem s) (tq_root s) q hparent fs" "tq_rep (tq_mem s) x p1 (PNode x y k l r)"
    "tq_rep (tq_mem s) h2 p2 t2" "distinct (x # addrs l @ addrs r @ addrs t2 @ zaddrs fs)"
  defines "s' \<equiv> link_child x hparent (slot_of fs) s"
  shows "tq_ctx (tq_mem s') (tq_root s') (tq_b (tq_mem s x)) x (FrR x y k l # fs)"
    "tq_rep (tq_mem s') (tq_b (tq_mem s x)) x r" "tq_rep (tq_mem s') h2 p2 t2"
    "z \<notin> set (x # zaddrs fs) \<Longrightarrow> tq_mem s' z = tq_mem s z"
proof -
  have z: "tq_zip s' x hparent (PNode x y k l r) fs"
    unfolding s'_def by (rule link_child_zip [OF assms(1,2)]) (use assms(4) in auto)
  have b: "tq_b (tq_mem s' x) = tq_b (tq_mem s x)"
    unfolding s'_def using assms(4) by (subst link_child_self) auto
  have fr: "tq_mem s' z = tq_mem s z" if "z \<notin> set (x # zaddrs fs)" for z
    unfolding s'_def using that by (intro link_child_frame) auto
  then show "z \<notin> set (x # zaddrs fs) \<Longrightarrow> tq_mem s' z = tq_mem s z" .
  have "tq_rep (tq_mem s') h2 p2 t2 = tq_rep (tq_mem s) h2 p2 t2"
    by (rule tq_rep_cong, rule fr) (use assms(4) in auto)
  then show "tq_rep (tq_mem s') h2 p2 t2" using assms(3) by simp
  show "tq_ctx (tq_mem s') (tq_root s') (tq_b (tq_mem s x)) x (FrR x y k l # fs)"
    "tq_rep (tq_mem s') (tq_b (tq_mem s x)) x r"
    using tq_zip_down_r [OF z] b by (auto simp: tq_zip_def)
qed

lemma merge_down_zip:
  assumes "tq_ctx (tq_mem s) (tq_root s) q hparent fs" "tq_rep (tq_mem s) h1 p1 t1"
    "tq_rep (tq_mem s) h2 p2 t2" "distinct (addrs t1 @ addrs t2 @ zaddrs fs)" "meld t1 t2 fs = (t', fs')"
  shows "\<exists>h s' par. merge_down h1 h2 hparent (slot_of fs) s = Some (h, s') \<and>
    (if t' = PLeaf then h = hparent \<and> tq_zip s' EMPTY hparent PLeaf fs
     else tq_zip s' h par t' fs') \<and>
    (\<forall>x. x \<notin> set (addrs t1 @ addrs t2 @ zaddrs fs) \<longrightarrow> tq_mem s' x = tq_mem s x)"
  using assms
proof (induction t1 t2 fs arbitrary: s q hparent h1 h2 p1 p2 rule: meld.induct)
  case (1 t1 fs)
  show ?case
  proof (cases "t1 = PLeaf")
    case True
    with 1 show ?thesis
      by (subst merge_down.simps) (auto simp: tq_zip_def write_slot_ctx write_slot_frame)
  next
    case False
    with 1 have "tq_zip (link_child h1 hparent (slot_of fs) s) h1 hparent t1 fs"
      by (intro link_child_zip) auto
    moreover have "h1 \<noteq> EMPTY" "h1 \<in> set (addrs t1)" using False "1.prems"(2) tq_rep_nonempty tq_rep_ptr by blast+
    ultimately show ?thesis using False "1.prems"
      by (subst merge_down.simps) (auto intro!: link_child_frame)
  qed
next
  case (2 x y k l r fs)
  let ?t = "PNode x y k l r"
  have "tq_zip (link_child h2 hparent (slot_of fs) s) h2 hparent ?t fs"
    using 2 by (intro link_child_zip) auto
  then show ?case using "2.prems"
    by (subst merge_down.simps) (auto intro!: link_child_frame)
next
  case (3 x1 y1 k1 l1 r1 x2 y2 k2 l2 r2 fs)
  let ?t1 = "PNode x1 y1 k1 l1 r1" and ?t2 = "PNode x2 y2 k2 l2 r2"
  have h: "h1 = x1" "h2 = x2" "x1 \<noteq> EMPTY" "x2 \<noteq> EMPTY" "tq_waketime (tq_mem s x1) = y1"
    "tq_waketime (tq_mem s x2) = y2" using "3.prems" by auto
  note p = "3.prems" [unfolded h(1,2)]
  show ?case
  proof (cases "y1 \<le> y2")
    case True
    let ?s = "link_child x1 hparent (slot_of fs) s"
    have d: "distinct (x1 # addrs l1 @ addrs r1 @ addrs ?t2 @ zaddrs fs)" using p(4) by auto
    note st = merge_step [OF p(1-3) d]
    have m: "meld r1 ?t2 (FrR x1 y1 k1 l1 # fs) = (t', fs')" using p(5) True by simp
    have d': "distinct (addrs r1 @ addrs ?t2 @ zaddrs (FrR x1 y1 k1 l1 # fs))" using d by auto
    from "3.IH"(1) [OF True st(1-3) d' m] obtain h s' par where r:
      "merge_down (tq_b (tq_mem s x1)) x2 x1 (SlotB x1) ?s = Some (h, s')"
      "if t' = PLeaf then h = x1 \<and> tq_zip s' EMPTY x1 PLeaf (FrR x1 y1 k1 l1 # fs) else tq_zip s' h par t' fs'"
      "\<forall>x. x \<notin> set (addrs r1 @ addrs ?t2 @ zaddrs (FrR x1 y1 k1 l1 # fs)) \<longrightarrow> tq_mem s' x = tq_mem ?s x"
      by auto
    have "t' \<noteq> PLeaf" using meld_leaf [OF m] by simp
    moreover have "merge_down h1 h2 hparent (slot_of fs) s = Some (h, s')"
      using r(1) h True by (subst merge_down.simps) simp
    ultimately show ?thesis using r(2,3) st(4) by auto
  next
    case False
    let ?s = "link_child x2 hparent (slot_of fs) s"
    have d: "distinct (x2 # addrs l2 @ addrs r2 @ addrs ?t1 @ zaddrs fs)" using p(4) by auto
    note st = merge_step [OF p(1,3,2) d]
    have m: "meld ?t1 r2 (FrR x2 y2 k2 l2 # fs) = (t', fs')" using p(5) False by simp
    have d': "distinct (addrs ?t1 @ addrs r2 @ zaddrs (FrR x2 y2 k2 l2 # fs))" using d by auto
    from "3.IH"(2) [OF False st(1,3,2) d' m] obtain h s' par where r:
      "merge_down x1 (tq_b (tq_mem s x2)) x2 (SlotB x2) ?s = Some (h, s')"
      "if t' = PLeaf then h = x2 \<and> tq_zip s' EMPTY x2 PLeaf (FrR x2 y2 k2 l2 # fs) else tq_zip s' h par t' fs'"
      "\<forall>x. x \<notin> set (addrs ?t1 @ addrs r2 @ zaddrs (FrR x2 y2 k2 l2 # fs)) \<longrightarrow> tq_mem s' x = tq_mem ?s x"
      by auto
    have "t' \<noteq> PLeaf" using meld_leaf [OF m] by simp
    moreover have "merge_down h1 h2 hparent (slot_of fs) s = Some (h, s')"
      using r(1) h False by (subst merge_down.simps) simp
    ultimately show ?thesis using r(2,3) st(4) by auto
  qed
qed


lemma tq_rep_rank: "tq_rep m p par t \<Longrightarrow> unat (rank_of m p) = trank t"
  by (cases t) (auto simp: rank_of_def)

lemma tq_zip_ranks:
  assumes "tq_zip s h par (PNode x y k l r) fs"
  shows "h = x" "x \<noteq> EMPTY" "tq_parent (tq_mem s x) = par" "unat (tq_rank (tq_mem s x)) = k"
    "unat (rank_of (tq_mem s) (tq_a (tq_mem s x))) = trank l"
    "unat (rank_of (tq_mem s) (tq_b (tq_mem s x))) = trank r"
  using assms by (auto simp: tq_zip_def intro: tq_rep_rank)

lemma unat_rank_Suc: "unat (w :: word32) \<le> 64 \<Longrightarrow> unat (w + 1) = unat w + 1"
  by (simp add: unat_word_ariths)

definition leftify_node :: "tqptr \<Rightarrow> tq_state \<Rightarrow> tq_state" where
  "leftify_node h s =
    (let ra = rank_of (tq_mem s) (tq_a (tq_mem s h));
         rb = rank_of (tq_mem s) (tq_b (tq_mem s h))
     in if rb \<le> ra then upd_node h (\<lambda>n. n\<lparr>tq_rank := rb + 1\<rparr>) s
        else upd_node h (\<lambda>n. swap_children (n\<lparr>tq_rank := ra + 1\<rparr>)) s)"

lemma leftify_node_frame: "z \<noteq> h \<Longrightarrow> tq_mem (leftify_node h s) z = tq_mem s z"
  by (simp add: leftify_node_def Let_def mem_upd_node)

lemma leftify_node_parent [simp]: "tq_parent (tq_mem (leftify_node h s) h) = tq_parent (tq_mem s h)"
  by (simp add: leftify_node_def Let_def mem_upd_node swap_children_def)

lemma leftify_up_to_step:
  "leftify_up_to h target s = (if h = target then Some s
    else leftify_up_to (tq_parent (tq_mem s h)) target (leftify_node h s))"
  by (subst leftify_up_to.simps) (simp add: leftify_node_def Let_def mem_upd_node swap_children_def)

lemma leftify_node_zip:
  assumes z: "tq_zip s h par (PNode x y k l r) fs" and rk: "ranks_ok l" "ranks_ok r"
  shows "tq_zip (leftify_node h s) h par (leftify (PNode x y k l r)) fs"
proof -
  note zr = tq_zip_ranks [OF z]
  let ?ra = "rank_of (tq_mem s) (tq_a (tq_mem s x))" and ?rb = "rank_of (tq_mem s) (tq_b (tq_mem s x))"
  have d: "distinct (addrs l)" "distinct (addrs r)" using z by (auto simp: tq_zip_def)
  have b: "unat (?ra + 1) = trank l + 1" "unat (?rb + 1) = trank r + 1"
    using rank_bound [OF rk(1) d(1)] rank_bound [OF rk(2) d(2)] zr(5,6) by (simp_all add: unat_rank_Suc)
  have le: "?rb \<le> ?ra \<longleftrightarrow> trank r \<le> trank l" by (simp add: word_le_nat_alt zr(5,6))
  show ?thesis
  proof (cases "trank r \<le> trank l")
    case True
    then have eq: "leftify_node h s = upd_node x (\<lambda>n. n\<lparr>tq_rank := ?rb + 1\<rparr>) s"
      by (simp add: leftify_node_def Let_def zr(1) le)
    from z True b show ?thesis unfolding eq by (auto simp: tq_zip_def mem_upd_node)
  next
    case False
    then have eq: "leftify_node h s = upd_node x (\<lambda>n. swap_children (n\<lparr>tq_rank := ?ra + 1\<rparr>)) s"
      by (simp add: leftify_node_def Let_def zr(1) le)
    from z False b show ?thesis unfolding eq by (auto simp: tq_zip_def mem_upd_node swap_children_def)
  qed
qed

primrec frame_addr :: "pframe list \<Rightarrow> tqptr" where
  "frame_addr [] = EMPTY"
| "frame_addr (f # fs) = fr_addr f"

lemma tq_zip_parent: "tq_zip s h par t fs \<Longrightarrow> par = frame_addr fs"
  by (cases fs) (auto simp: tq_zip_def Let_def)

lemma frame_addr_fresh:
  assumes "tq_zip s h par (PNode x y k l r) (fs1 @ fs2)"
  shows "h \<noteq> frame_addr fs2"
proof -
  have "x \<notin> set (zaddrs (fs1 @ fs2))" using assms by (auto simp: tq_zip_def)
  moreover have "set (zaddrs fs2) \<subseteq> set (zaddrs (fs1 @ fs2))" by (induction fs1) auto
  ultimately show ?thesis using tq_zip_ranks(1,2) [OF assms] by (cases fs2) auto
qed

lemma leftify_up_to_zip:
  assumes "tq_zip s h par (PNode x y k l r) (fs1 @ fs2)" "ranks_ok l" "ranks_ok r"
    "\<forall>f \<in> set fs1. ranks_ok (fr_other f)"
  shows "\<exists>s' h'. leftify_up_to h (frame_addr fs2) s = Some s' \<and>
    tq_zip s' h' (frame_addr fs2) (lift_up fs1 (leftify (PNode x y k l r))) fs2 \<and>
    (\<forall>z. z \<notin> set (x # zaddrs fs1) \<longrightarrow> tq_mem s' z = tq_mem s z)"
  using assms
proof (induction fs1 arbitrary: s h par x y k l r)
  case Nil
  let ?s = "leftify_node h s"
  have z: "tq_zip ?s h par (leftify (PNode x y k l r)) fs2"
    using leftify_node_zip [OF Nil(1)] Nil(2,3) by simp
  have ne: "h \<noteq> frame_addr fs2" using frame_addr_fresh [OF Nil(1)] by simp
  have "tq_parent (tq_mem s h) = frame_addr fs2"
    using tq_zip_ranks [OF Nil(1)] tq_zip_parent [OF Nil(1)] by simp
  then have "leftify_up_to h (frame_addr fs2) s = Some ?s"
    using ne by (simp add: leftify_up_to_step)
  with z show ?case using tq_zip_parent [OF z] tq_zip_ranks(1) [OF Nil(1)]
    by (auto simp: leftify_node_frame)
next
  case (Cons f fs1)
  let ?s = "leftify_node h s" and ?t = "leftify (PNode x y k l r)"
  have z: "tq_zip ?s h par ?t (f # fs1 @ fs2)"
    using leftify_node_zip [OF Cons.prems(1)] Cons.prems(2,3) by simp
  note up = tq_zip_up [OF z]
  obtain l' r' where p: "plug1 f ?t = PNode (fr_addr f) (fr_time f) (fr_rank f) l' r'"
    "l' = ?t \<and> r' = fr_other f \<or> l' = fr_other f \<and> r' = ?t"
    using plug1_children [of f ?t] by blast
  have "ranks_ok ?t" using Cons.prems(2,3) by (rule ranks_ok_leftify [OF refl])
  then have rk: "ranks_ok l'" "ranks_ok r'" using p(2) Cons.prems(4) by (auto simp del: leftify.simps)
  from Cons.IH [of ?s "fr_addr f" "tq_parent (tq_mem ?s (fr_addr f))" "fr_addr f" "fr_time f" "fr_rank f" l' r'] up rk Cons.prems(4) p(1)
  obtain s' h' where r: "leftify_up_to (fr_addr f) (frame_addr fs2) ?s = Some s'"
    "tq_zip s' h' (frame_addr fs2) (lift_up fs1 (leftify (plug1 f ?t))) fs2"
    "\<forall>z. z \<notin> set (fr_addr f # zaddrs fs1) \<longrightarrow> tq_mem s' z = tq_mem ?s z"
    by (auto simp del: leftify.simps)
  have ne: "h \<noteq> frame_addr fs2" using frame_addr_fresh [OF Cons.prems(1)] by simp
  have "tq_parent (tq_mem s h) = fr_addr f"
    using tq_zip_ranks [OF Cons.prems(1)] up by simp
  then have "leftify_up_to h (frame_addr fs2) s = Some s'"
    using ne r(1) by (subst leftify_up_to_step) simp
  moreover have "\<forall>z. z \<notin> set (x # zaddrs (f # fs1)) \<longrightarrow> tq_mem s' z = tq_mem s z"
    using r(3) tq_zip_ranks(1) [OF Cons.prems(1)] by (auto simp: leftify_node_frame)
  ultimately show ?case using r(2) by auto
qed

lemma leftify_up_shortcut_step:
  assumes "h \<noteq> EMPTY"
    "unat (rank_of (tq_mem s) (tq_a (tq_mem s h))) \<le> 64" "unat (rank_of (tq_mem s) (tq_b (tq_mem s h))) \<le> 64"
  shows "leftify_up_shortcut h s =
    (if unat (tq_rank (tq_mem s h)) = min (unat (rank_of (tq_mem s) (tq_a (tq_mem s h))))
          (unat (rank_of (tq_mem s) (tq_b (tq_mem s h)))) + 1 then Some s
     else leftify_up_shortcut (tq_parent (tq_mem (leftify_node h s) h)) (leftify_node h s))"
proof -
  let ?ra = "rank_of (tq_mem s) (tq_a (tq_mem s h))" and ?rb = "rank_of (tq_mem s) (tq_b (tq_mem s h))"
  have "tq_rank (tq_mem s h) = ?rb + 1 \<longleftrightarrow> unat (tq_rank (tq_mem s h)) = unat ?rb + 1"
    "tq_rank (tq_mem s h) = ?ra + 1 \<longleftrightarrow> unat (tq_rank (tq_mem s h)) = unat ?ra + 1"
    using assms(2,3) by (metis unat_rank_Suc word_unat_eq_iff)+
  then show ?thesis using assms(1)
    by (subst leftify_up_shortcut.simps) (auto simp: Let_def leftify_node_def word_le_nat_alt min_def)
qed

lemma leftify_up_shortcut_zip:
  assumes "tq_zip s q (frame_addr fs) t fs" "ranks_ok t" "\<forall>f \<in> set fs. ranks_ok (fr_other f)"
  shows "\<exists>s'. leftify_up_shortcut (frame_addr fs) s = Some s' \<and> tq_links s' (lift_shortcut fs t) \<and>
    (\<forall>z. z \<notin> set (zaddrs fs) \<longrightarrow> tq_mem s' z = tq_mem s z)"
  using assms
proof (induction fs arbitrary: s q t)
  case Nil
  then show ?case using tq_zip_plug [OF Nil(1)] by (simp add: leftify_up_shortcut.simps)
next
  case (Cons f fs)
  let ?x = "fr_addr f"
  note up = tq_zip_up [OF Cons.prems(1)]
  obtain l r where p: "plug1 f t = PNode ?x (fr_time f) (fr_rank f) l r"
    "l = t \<and> r = fr_other f \<or> l = fr_other f \<and> r = t"
    using plug1_children [of f t] by blast
  then have rk: "ranks_ok l" "ranks_ok r" using Cons.prems by auto
  from up have z: "tq_zip s ?x (tq_parent (tq_mem s ?x)) (PNode ?x (fr_time f) (fr_rank f) l r) fs"
    by (simp add: p(1))
  note zr = tq_zip_ranks [OF z]
  have b: "trank l \<le> 64" "trank r \<le> 64" using z rk by (auto intro!: rank_bound simp: tq_zip_def)
  have mn: "min (trank l) (trank r) = min (trank t) (trank (fr_other f))" using p(2) by auto
  have st: "leftify_up_shortcut ?x s =
    (if fr_rank f = min (trank t) (trank (fr_other f)) + 1 then Some s
     else leftify_up_shortcut (tq_parent (tq_mem s ?x)) (leftify_node ?x s))"
    using leftify_up_shortcut_step [OF zr(2), of s] b by (simp add: zr(4-6) mn)
  show ?case
  proof (cases "fr_rank f = min (trank t) (trank (fr_other f)) + 1")
    case True
    then show ?thesis using st tq_zip_plug [OF Cons.prems(1)] by simp
  next
    case False
    have z': "tq_zip (leftify_node ?x s) ?x (tq_parent (tq_mem s ?x)) (leftify (plug1 f t)) fs"
      using leftify_node_zip [OF z rk] p(1) by simp
    have "ranks_ok (leftify (plug1 f t))" using Cons.prems by (intro ranks_ok_leftify_plug1) auto
    with Cons.IH [of "leftify_node ?x s" ?x "leftify (plug1 f t)"] z' Cons.prems(3) tq_zip_parent [OF z'] False st
    show ?thesis by (auto simp: leftify_node_frame)
  qed
qed


section \<open>The operations on represented queues\<close>

lemma insert_links:
  assumes t: "tq_inv s t" and new: "hnew \<notin> set (addrs t)" "hnew \<noteq> EMPTY" "tq_info (tq_mem s hnew)"
  shows "\<exists>s'. insertTimeoutQueue hnew w s = Some s' \<and> tq_inv s' (insert_tree hnew w t)"
proof -
  let ?s1 = "upd_node hnew (\<lambda>n. n\<lparr>tq_rank := 1, tq_waketime := w, tq_a := EMPTY, tq_b := EMPTY\<rparr>) s"
  obtain t' fs where d: "descend hnew w t [] = (t', fs)" by (cases "descend hnew w t []")
  have c: "tq_ctx (tq_mem ?s1) (tq_root ?s1) (tq_root s) EMPTY []"
    and r: "tq_rep (tq_mem ?s1) (tq_root s) EMPTY t" and ds: "distinct (addrs t @ zaddrs [])"
    using t new(1) by (auto simp: tq_inv_def tq_links_def tq_zip_def mem_upd_node)
  from insert_down_loop_zip [OF c r ds, of hnew w] new
  obtain s2 where s2: "insert_down hnew ?s1 = Some s2" "tq_zip s2 hnew (tq_parent (tq_mem s2 hnew)) t' fs"
    by (auto simp: insert_down_def mem_upd_node d)
  have ok: "ranks_ok t' \<and> (\<exists>k. zranks_ok fs k)"
    using descend_ranks [OF d] t by (simp add: tq_inv_def)
  then have "\<forall>f \<in> set fs. ranks_ok (fr_other f)"
    using zranks_ok_others by blast
  with leftify_up_shortcut_zip [of s2 hnew fs t'] s2(2) tq_zip_parent [OF s2(2)] ok
  obtain s' where "leftify_up_shortcut (tq_parent (tq_mem s2 hnew)) s2 = Some s'" "tq_links s' (lift_shortcut fs t')"
    by auto
  then show ?thesis using s2(1) insert_tree_correct [of t hnew w] t
    by (auto simp: insertTimeoutQueue_def Let_def insert_tree_def d tq_inv_def)
qed

lemma merge_leftify:
  assumes c: "tq_ctx (tq_mem s) (tq_root s) q par fs"
    and r: "tq_rep (tq_mem s) a p1 l" "tq_rep (tq_mem s) b p2 r"
    and d: "distinct (addrs l @ addrs r @ zaddrs fs)"
    and ok: "ranks_ok l" "ranks_ok r"
  shows "\<exists>h s2 s3 q'. merge_down a b par (slot_of fs) s = Some (h, s2) \<and> leftify_up_to h par s2 = Some s3 \<and>
    tq_zip s3 q' par (join_tree l r) fs \<and>
    (\<forall>x. x \<notin> set (addrs l @ addrs r @ zaddrs fs) \<longrightarrow> tq_mem s3 x = tq_mem s x)"
proof -
  obtain t' gs where m: "meld l r [] = (t', gs)" by (cases "meld l r []")
  have m': "meld l r fs = (t', gs @ fs)" using meld_append [of l r "[]" fs] by (simp add: m)
  from merge_down_zip [OF c r d m'] obtain h s2 par' where g: "merge_down a b par (slot_of fs) s = Some (h, s2)"
    "if t' = PLeaf then h = par \<and> tq_zip s2 EMPTY par PLeaf fs else tq_zip s2 h par' t' (gs @ fs)"
    "\<forall>x. x \<notin> set (addrs l @ addrs r @ zaddrs fs) \<longrightarrow> tq_mem s2 x = tq_mem s x" by blast
  show ?thesis
  proof (cases "t' = PLeaf")
    case True
    with g show ?thesis by (auto simp: join_tree_def m leftify_up_to.simps)
  next
    case False
    then obtain x y k l' r' where t': "t' = PNode x y k l' r'" by (cases t') auto
    have rk: "ranks_ok l'" "ranks_ok r'" "\<forall>f \<in> set gs. ranks_ok (fr_other f)"
      using meld_ranks [OF m ok] by (auto simp: t')
    have z: "tq_zip s2 h par' (PNode x y k l' r') (gs @ fs)" using g(2) False by (simp add: t')
    have "par = frame_addr fs" using c by (cases fs) (auto simp: Let_def)
    with leftify_up_to_zip [OF z rk] obtain s3 h' where l: "leftify_up_to h par s2 = Some s3"
      "tq_zip s3 h' par (lift_up gs (leftify t')) fs" "\<forall>z. z \<notin> set (x # zaddrs gs) \<longrightarrow> tq_mem s3 z = tq_mem s2 z"
      by (auto simp: t' simp del: leftify.simps)
    have "mset (zaddrs gs @ addrs t') = mset (addrs l @ addrs r)"
      using meld_entries [OF m] by (simp add: mset_addrs mset_zaddrs flip: image_mset_union)
    then have "set (zaddrs gs @ addrs t') = set (addrs l @ addrs r)" by (rule mset_eq_setD)
    then have "set (x # zaddrs gs) \<subseteq> set (addrs l @ addrs r)" by (auto simp: t')
    with g(1,3) l False show ?thesis by (auto simp: join_tree_def m)
  qed
qed

lemma delete_links:
  assumes z: "tq_zip s h par (PNode h y k l r) fs" and ok: "ranks_ok (plug fs (PNode h y k l r))"
  shows "\<exists>s'. deleteTimeoutQueue h s = Some s' \<and> tq_links s' (delete_tree fs l r) \<and>
    tq_mem s' h = (tq_mem s h)\<lparr>tq_a := EMPTY, tq_b := EMPTY, tq_parent := EMPTY\<rparr>"
proof -
  let ?s1 = "upd_node h (\<lambda>n. n\<lparr>tq_a := EMPTY, tq_b := EMPTY, tq_parent := EMPTY\<rparr>) s"
  have par: "tq_parent (tq_mem s h) = par" "par = frame_addr fs" "h \<noteq> EMPTY"
    using z tq_zip_parent [OF z] by (auto simp: tq_zip_def)
  have d: "distinct (h # addrs l @ addrs r @ zaddrs fs)" using z by (auto simp: tq_zip_def)
  have c: "tq_ctx (tq_mem ?s1) (tq_root ?s1) h par fs" and rl: "tq_rep (tq_mem ?s1) (tq_a (tq_mem s h)) h l"
    and rr: "tq_rep (tq_mem ?s1) (tq_b (tq_mem s h)) h r"
    using z d by (auto simp: tq_zip_def mem_upd_node)
  have slot: "(if par \<noteq> EMPTY then (if tq_a (tq_mem ?s1 par) = h then SlotA par else SlotB par) else RootSlot)
    = slot_of fs"
  proof (cases fs)
    case (Cons f gs)
    show ?thesis
    proof (cases f)
      case (FrL x y' k' r')
      then show ?thesis using c Cons by (auto simp: Let_def)
    next
      case (FrR x y' k' l')
      then have "tq_rep (tq_mem ?s1) (tq_a (tq_mem ?s1 x)) x l'" "x \<noteq> EMPTY" "par = x" "h \<notin> set (addrs l')"
        using c d Cons by (auto simp: Let_def)
      moreover from this have "tq_a (tq_mem ?s1 x) \<noteq> h"
        using par(3) tq_rep_ptr tq_rep_nonempty by metis
      ultimately show ?thesis using Cons FrR by simp
    qed
  qed (use c in simp)
  have rk: "ranks_ok l" "ranks_ok r" "\<forall>f \<in> set fs. ranks_ok (fr_other f)"
    using ok zranks_ok_others by (auto simp: ranks_ok_plug)
  have d': "distinct (addrs l @ addrs r @ zaddrs fs)" using d by simp
  from merge_leftify [OF c rl rr d' rk(1,2)] obtain h' s2 s3 q' where
    m: "merge_down (tq_a (tq_mem s h)) (tq_b (tq_mem s h)) par (slot_of fs) ?s1 = Some (h', s2)"
      "leftify_up_to h' par s2 = Some s3" "tq_zip s3 q' par (join_tree l r) fs"
      "\<forall>x. x \<notin> set (addrs l @ addrs r @ zaddrs fs) \<longrightarrow> tq_mem s3 x = tq_mem ?s1 x" by blast
  have "ranks_ok (join_tree l r)" by (rule ranks_ok_join_tree [OF rk(1,2)])
  with leftify_up_shortcut_zip [of s3 q' fs "join_tree l r"] m(3) rk(3) par(2)
  obtain s' where "leftify_up_shortcut par s3 = Some s'" "tq_links s' (delete_tree fs l r)"
    "\<forall>z. z \<notin> set (zaddrs fs) \<longrightarrow> tq_mem s' z = tq_mem s3 z"
    by (auto simp: delete_tree_def)
  moreover have "deleteTimeoutQueue h s = leftify_up_shortcut par s3"
    unfolding deleteTimeoutQueue_def Let_def par(1) slot m(1) by (simp add: m(2))
  ultimately show ?thesis using m(4) d by (auto simp: mem_upd_node)
qed

lemma deleteMin_links:
  assumes z: "tq_inv s (PNode h y k l r)"
  shows "\<exists>s'. deleteMinTimeoutQueue s = Some (h, s') \<and> tq_inv s' (join_tree l r) \<and>
    tq_mem s' h = (tq_mem s h)\<lparr>tq_a := EMPTY, tq_b := EMPTY\<rparr>"
proof -
  let ?s1 = "upd_node h (\<lambda>n. n\<lparr>tq_a := EMPTY, tq_b := EMPTY\<rparr>) s"
  have root: "tq_root s = h" and d: "distinct (h # addrs l @ addrs r @ zaddrs [])"
    and rk: "ranks_ok l" "ranks_ok r" and ho: "heap_ordered l" "heap_ordered r"
    using z by (auto simp: tq_inv_def tq_links_def tq_zip_def)
  have c: "tq_ctx (tq_mem ?s1) (tq_root ?s1) h EMPTY []" and rl: "tq_rep (tq_mem ?s1) (tq_a (tq_mem s h)) h l"
    and rr: "tq_rep (tq_mem ?s1) (tq_b (tq_mem s h)) h r"
    using z d by (auto simp: tq_inv_def tq_links_def tq_zip_def mem_upd_node)
  have d': "distinct (addrs l @ addrs r @ zaddrs [])" using d by simp
  from merge_leftify [OF c rl rr d' rk] obtain h' s2 s3 q' where
    m: "merge_down (tq_a (tq_mem s h)) (tq_b (tq_mem s h)) EMPTY RootSlot ?s1 = Some (h', s2)"
      "leftify_up_to h' EMPTY s2 = Some s3" "tq_zip s3 q' EMPTY (join_tree l r) []"
      "\<forall>x. x \<notin> set (addrs l @ addrs r) \<longrightarrow> tq_mem s3 x = tq_mem ?s1 x" by auto
  have "deleteMinTimeoutQueue s = Some (h, s3)"
    unfolding deleteMinTimeoutQueue_def Let_def root m(1) by (simp add: m(2))
  moreover have "tq_inv s3 (join_tree l r)"
    using tq_zip_plug [OF m(3)] join_tree_correct [OF rk ho] by (simp add: tq_inv_def)
  ultimately show ?thesis using m(4) d by (auto simp: mem_upd_node)
qed


section \<open>Nodes keep their payload\<close>

definition same_payload :: "tq_state \<Rightarrow> tq_state \<Rightarrow> bool" where
  "same_payload s s' = (\<forall>p. tq_info (tq_mem s' p) = tq_info (tq_mem s p) \<and>
     tq_notify (tq_mem s' p) = tq_notify (tq_mem s p) \<and>
     tq_notify_type (tq_mem s' p) = tq_notify_type (tq_mem s p))"

lemma same_payload_refl [simp]: "same_payload s s"
  by (simp add: same_payload_def)

lemma same_payload_trans: "same_payload s s' \<Longrightarrow> same_payload s' s'' \<Longrightarrow> same_payload s s''"
  by (simp add: same_payload_def)

lemma same_payload_upd:
  "(\<And>n. tq_info (f n) = tq_info n) \<Longrightarrow> (\<And>n. tq_notify (f n) = tq_notify n) \<Longrightarrow>
    (\<And>n. tq_notify_type (f n) = tq_notify_type n) \<Longrightarrow> same_payload s (upd_node p f s)"
  by (simp add: same_payload_def mem_upd_node)

lemma same_payload_upd_left:
  "(\<And>n. tq_info (f n) = tq_info n) \<Longrightarrow> (\<And>n. tq_notify (f n) = tq_notify n) \<Longrightarrow>
    (\<And>n. tq_notify_type (f n) = tq_notify_type n) \<Longrightarrow> same_payload (upd_node p f s) s' = same_payload s s'"
  by (auto simp: same_payload_def mem_upd_node)

lemma same_payload_write_slot: "same_payload s (write_slot sl q s)"
  by (cases sl) (auto simp: same_payload_def mem_upd_node)

lemma same_payload_link: "same_payload s (link_child h par sl s)"
  unfolding link_child_def
  by (rule same_payload_trans [OF same_payload_upd same_payload_write_slot]) auto

lemma same_payload_leftify: "same_payload s (leftify_node h s)"
  by (simp add: leftify_node_def Let_def same_payload_def mem_upd_node swap_children_def)

lemma insert_down_loop_payload:
  assumes "insert_down_loop x hnew par sl h s = Some s'"
  shows "same_payload s s'"
proof (rule insert_down_loop.raw_induct [of "\<lambda>x hnew par sl h s s'. same_payload s s'"
      "(((((x, hnew), par), sl), h), s)", unfolded prod.case, OF _ assms], goal_cases)
  case (1 rec x hnew par sl h s s')
  show ?case
  proof (cases "h = EMPTY \<or> \<not> x \<le> tq_waketime (tq_mem s h)")
    case True
    then show ?thesis using 1(2) by (auto split: if_splits intro: same_payload_link 1(1))
  next
    case False
    then have "s' = link_child hnew par sl (upd_node h (\<lambda>n. n\<lparr>tq_parent := hnew\<rparr>) (upd_node hnew (\<lambda>n. n\<lparr>tq_a := h\<rparr>) s))"
      using 1(2) by auto
    then show ?thesis
      by (auto intro!: same_payload_trans [OF same_payload_trans [OF same_payload_upd same_payload_upd] same_payload_link])
  qed
qed

lemma merge_down_payload:
  assumes "merge_down h1 h2 par sl s = Some r"
  shows "same_payload s (snd r)"
proof (rule merge_down.raw_induct [where P = "\<lambda>h1 h2 par sl s r. same_payload s (snd r)",
      OF _ assms], goal_cases)
  case (1 rec h1 h2 par sl s r)
  then show ?case
    by (auto split: if_splits intro: same_payload_link same_payload_write_slot same_payload_trans [OF same_payload_link 1(1)])
qed

lemma leftify_up_to_payload:
  assumes "leftify_up_to h target s = Some s'"
  shows "same_payload s s'"
proof (rule leftify_up_to.raw_induct [where P = "\<lambda>h target s s'. same_payload s s'",
      OF _ assms], goal_cases)
  case (1 rec h target s s')
  then show ?case
    by (auto split: if_splits simp: Let_def swap_children_def same_payload_upd_left dest!: 1(1))
qed

lemma leftify_up_shortcut_payload:
  assumes "leftify_up_shortcut h s = Some s'"
  shows "same_payload s s'"
proof (rule leftify_up_shortcut.raw_induct [where P = "\<lambda>h s s'. same_payload s s'",
      OF _ assms], goal_cases)
  case (1 rec h s s')
  then show ?case
    by (auto split: if_splits simp: Let_def swap_children_def same_payload_upd_left dest!: 1(1))
qed

lemma deleteMin_payload:
  assumes "deleteMinTimeoutQueue s = Some (h, s')"
  shows "same_payload s s'"
proof -
  let ?s1 = "upd_node (tq_root s) (\<lambda>n. n\<lparr>tq_a := EMPTY, tq_b := EMPTY\<rparr>) s"
  from assms obtain h2 s2 where
    "merge_down (tq_a (tq_mem s (tq_root s))) (tq_b (tq_mem s (tq_root s))) EMPTY RootSlot ?s1 = Some (h2, s2)"
    "leftify_up_to h2 EMPTY s2 = Some s'"
    unfolding deleteMinTimeoutQueue_def Let_def by (auto split: option.splits prod.splits)
  then have "same_payload ?s1 s2" "same_payload s2 s'"
    using merge_down_payload leftify_up_to_payload by fastforce+
  moreover have "same_payload s ?s1" by (rule same_payload_upd) auto
  ultimately show ?thesis by (metis same_payload_trans)
qed


section \<open>The contract of the queue\<close>

text \<open>The state holds a well-linked, rank-correct heap whose entries are \<open>M\<close>.\<close>

definition tq_queue :: "tq_state \<Rightarrow> (tqptr \<times> int) multiset \<Rightarrow> bool" where
  "tq_queue s M = (\<exists>t. tq_inv s t \<and> entries t = M)"

lemma tq_queueI: "tq_inv s t \<Longrightarrow> entries t = M \<Longrightarrow> tq_queue s M"
  by (auto simp: tq_queue_def)

lemma tq_queue_root:
  assumes "tq_queue s M"
  shows "tq_root s = EMPTY \<longleftrightarrow> M = {#}"
proof -
  obtain t where t: "tq_rep (tq_mem s) (tq_root s) EMPTY t" "entries t = M"
    using assms by (auto simp: tq_queue_def tq_inv_def tq_links_def tq_zip_def)
  then show ?thesis by (cases t) auto
qed

lemma tq_queue_min:
  assumes "tq_queue s M" "M \<noteq> {#}"
  shows "(tq_root s, tq_waketime (tq_mem s (tq_root s))) \<in># M"
    "\<forall>e \<in># M. tq_waketime (tq_mem s (tq_root s)) \<le> snd e"
proof -
  obtain t where t: "tq_rep (tq_mem s) (tq_root s) EMPTY t" "entries t = M" "heap_ordered t"
    using assms by (auto simp: tq_queue_def tq_inv_def tq_links_def tq_zip_def)
  with assms(2) show "(tq_root s, tq_waketime (tq_mem s (tq_root s))) \<in># M"
    "\<forall>e \<in># M. tq_waketime (tq_mem s (tq_root s)) \<le> snd e" by (cases t; auto)+
qed

lemma tq_queue_unplug:
  assumes "tq_inv s t" "h \<in> set (addrs t)"
  obtains fs y k l r where "tq_zip s h (tq_parent (tq_mem s h)) (PNode h y k l r) fs" "plug fs (PNode h y k l r) = t"
  using tq_rep_unplug [of s "tq_root s" EMPTY t "[]" h] assms by (auto simp: tq_inv_def tq_links_def)

lemma entries_addr: "(h, y) \<in># entries t \<Longrightarrow> h \<in> set (addrs t)"
  by (force simp: set_addrs)

lemma entries_unique: "distinct (addrs t) \<Longrightarrow> (h, y) \<in># entries t \<Longrightarrow> (h, y') \<in># entries t \<Longrightarrow> y = y'"
proof (induction t)
  case (PNode x z k l r)
  then show ?case using entries_addr [of h y l] entries_addr [of h y r] entries_addr [of h y' l]
      entries_addr [of h y' r] by auto
qed simp

lemma walk_to_root_ctx:
  "tq_ctx (tq_mem s) (tq_root s) q par fs \<Longrightarrow> tq_parent (tq_mem s q) = par \<Longrightarrow> walk_to_root q s = Some (tq_root s)"
proof (induction fs arbitrary: q par)
  case (Cons f fs)
  then have "tq_ctx (tq_mem s) (tq_root s) (fr_addr f) (tq_parent (tq_mem s (fr_addr f))) fs"
    "par = fr_addr f" "par \<noteq> EMPTY" by (auto simp: Let_def)
  with Cons.IH Cons.prems(2) show ?case by (subst walk_to_root.simps) auto
qed (simp add: walk_to_root.simps)

lemma sanity_element_zip:
  assumes z: "tq_zip s h par (PNode x y k l r) fs" and rk: "ranks_ok (PNode x y k l r)"
  shows "sanity_check_element h s"
proof -
  note zr = tq_zip_ranks [OF z]
  have rep: "tq_rep (tq_mem s) (tq_a (tq_mem s x)) x l" "tq_rep (tq_mem s) (tq_b (tq_mem s x)) x r"
    and ctx: "tq_ctx (tq_mem s) (tq_root s) x par fs" and d: "distinct (addrs l)" "distinct (addrs r)"
    and info: "tq_info (tq_mem s x)"
    using z by (auto simp: tq_zip_def)
  have "par = EMPTY \<or> tq_a (tq_mem s par) = x \<or> tq_b (tq_mem s par) = x"
    using ctx by (cases fs rule: slot_of.cases) (auto simp: Let_def)
  moreover have "tq_a (tq_mem s x) = EMPTY \<or> tq_parent (tq_mem s (tq_a (tq_mem s x))) = x"
    using rep(1) by (cases l) auto
  moreover have "tq_b (tq_mem s x) = EMPTY \<or> tq_parent (tq_mem s (tq_b (tq_mem s x))) = x"
    using rep(2) by (cases r) auto
  moreover have "tq_rank (tq_mem s x) = min (rank_of (tq_mem s) (tq_a (tq_mem s x))) (rank_of (tq_mem s) (tq_b (tq_mem s x))) + 1"
    (is "_ = ?m + 1")
  proof -
    have m: "unat ?m = min (trank l) (trank r)" using zr(5,6) by (auto simp: min_def word_le_nat_alt)
    moreover have "trank l \<le> 64" using rank_bound rk d by simp
    ultimately have "unat (?m + 1) = min (trank l) (trank r) + 1" by (simp add: unat_rank_Suc)
    with zr(4) rk show ?thesis by (simp add: word_unat_eq_iff)
  qed
  ultimately show ?thesis using zr(1-3) info by (auto simp: sanity_check_element_def Let_def)
qed

lemma tq_insert:
  assumes "tq_queue s M" "hnew \<notin># image_mset fst M" "hnew \<noteq> EMPTY" "tq_info (tq_mem s hnew)"
  shows "\<exists>s'. insertTimeoutQueue hnew waketime s = Some s' \<and> tq_queue s' (add_mset (hnew, waketime) M)"
proof -
  obtain t where t: "tq_inv s t" "entries t = M" using assms(1) by (auto simp: tq_queue_def)
  have "hnew \<notin> set (addrs t)" using assms(2) t(2) by (simp add: set_addrs)
  from insert_links [OF t(1) this assms(3,4)] obtain s' where
    "insertTimeoutQueue hnew waketime s = Some s'" "tq_inv s' (insert_tree hnew waketime t)" by blast
  moreover have "entries (insert_tree hnew waketime t) = add_mset (hnew, waketime) M"
    using insert_tree_correct(3) [of t hnew waketime] t by (simp add: tq_inv_def)
  ultimately show ?thesis by (auto intro: tq_queueI)
qed

text \<open>C22 Inserting a node that is not in the queue ends, keeps the queue well formed and adds exactly
  the node with its wake time to the entries.\<close>

theorem insertTimeoutQueue_correct:
  assumes "tq_queue s M" "hnew \<notin># image_mset fst M" "hnew \<noteq> EMPTY" "tq_info (tq_mem s hnew)"
  shows "\<exists>s'. insertTimeoutQueue hnew waketime s = Some s' \<and> tq_queue s' (add_mset (hnew, waketime) M)"
  using assms by (rule tq_insert)

text \<open>C24 Deleting the minimum of a non-empty queue ends, returns the node that
  \<open>findMinTimeoutQueue\<close> shows, whose wake time is least, removes exactly that entry, and hands the node
  back with no link left in it.\<close>

theorem deleteMinTimeoutQueue_correct:
  assumes "tq_queue s M" "M \<noteq> {#}"
  shows "\<exists>s' w. deleteMinTimeoutQueue s = Some (findMinTimeoutQueue s, s') \<and>
    w = findMinWaketimeTimeoutQueue s \<and> (findMinTimeoutQueue s, w) \<in># M \<and> (\<forall>e. e \<in># M \<longrightarrow> w \<le> snd e) \<and>
    tq_queue s' (M - {#(findMinTimeoutQueue s, w)#}) \<and>
    (let n = tq_mem s' (findMinTimeoutQueue s) in tq_a n = EMPTY \<and> tq_b n = EMPTY \<and> tq_parent n = EMPTY)"
proof -
  obtain t where t: "tq_inv s t" "entries t = M" using assms(1) by (auto simp: tq_queue_def)
  then obtain h y k l r where t': "t = PNode h y k l r" using assms(2) by (cases t) auto
  have root: "tq_root s = h" "tq_waketime (tq_mem s h) = y" "tq_parent (tq_mem s h) = EMPTY"
    using t(1) by (auto simp: t' tq_inv_def tq_links_def tq_zip_def)
  from deleteMin_links [OF t(1) [unfolded t']] obtain s' where s':
    "deleteMinTimeoutQueue s = Some (h, s')" "tq_inv s' (join_tree l r)"
    "tq_mem s' h = (tq_mem s h)\<lparr>tq_a := EMPTY, tq_b := EMPTY\<rparr>" by blast
  have "entries (join_tree l r) = M - {#(h, y)#}"
    using join_tree_correct(3) [of l r] t by (auto simp: t' tq_inv_def)
  with s' root tq_queue_min [OF assms] show ?thesis
    by (intro exI [of _ s'] exI [of _ y])
      (auto simp: findMinTimeoutQueue_def findMinWaketimeTimeoutQueue_def Let_def intro: tq_queueI)
qed

lemma tq_delete:
  assumes "tq_queue s M" "(h, w) \<in># M"
  shows "\<exists>s'. deleteTimeoutQueue h s = Some s' \<and> tq_queue s' (M - {#(h, w)#}) \<and>
    (let n = tq_mem s' h in tq_a n = EMPTY \<and> tq_b n = EMPTY \<and> tq_parent n = EMPTY)"
proof -
  obtain t where t: "tq_inv s t" "entries t = M" using assms(1) by (auto simp: tq_queue_def)
  have "h \<in> set (addrs t)" using assms(2) t(2) by (force simp: set_addrs)
  from tq_queue_unplug [OF t(1) this] obtain fs y k l r where
    z: "tq_zip s h (tq_parent (tq_mem s h)) (PNode h y k l r) fs" "plug fs (PNode h y k l r) = t" .
  have ok: "ranks_ok (plug fs (PNode h y k l r))" "heap_ordered (plug fs (PNode h y k l r))"
    using t(1) by (auto simp: z(2) tq_inv_def simp del: ranks_ok_plug heap_ordered_plug)
  have "distinct (addrs t)" using t(1) by (simp add: tq_inv_def tq_links_def tq_zip_def)
  moreover have "(h, y) \<in># entries t" by (simp add: z(2) [symmetric] entries_plug)
  ultimately have w: "w = y" using assms(2) t(2) entries_unique by blast
  from delete_links [OF z(1) ok(1)] obtain s' where s': "deleteTimeoutQueue h s = Some s'"
    "tq_links s' (delete_tree fs l r)"
    "tq_mem s' h = (tq_mem s h)\<lparr>tq_a := EMPTY, tq_b := EMPTY, tq_parent := EMPTY\<rparr>" by blast
  note dt = delete_tree_correct [OF ok]
  have "entries (delete_tree fs l r) = M - {#(h, w)#}"
    using dt(3) t(2) z(2) w by (metis add_mset_remove_trivial)
  with s' dt show ?thesis by (auto simp: tq_inv_def Let_def intro!: tq_queueI)
qed

text \<open>C23 Deleting any member ends, removes exactly its entry and leaves the node without links.\<close>

theorem deleteTimeoutQueue_correct:
  assumes "tq_queue s M" "(h, w) \<in># M"
  shows "\<exists>s'. deleteTimeoutQueue h s = Some s' \<and> tq_queue s' (M - {#(h, w)#}) \<and>
    (let n = tq_mem s' h in tq_a n = EMPTY \<and> tq_b n = EMPTY \<and> tq_parent n = EMPTY)"
  using assms by (rule tq_delete)

text \<open>Every check that the debug build asserts holds in a well-formed queue: of the root, of every
  member, and the walk along the parent pointers from a member ends at the root.\<close>

lemma timeoutQueue_asserts_hold:
  assumes "tq_queue s M"
  shows "sanity_check_root s \<and>
    (\<forall>h \<in># image_mset fst M. sanity_check_element h s \<and> sanity_check_member h s = Some True)"
proof -
  obtain t where t: "tq_inv s t" "entries t = M" using assms(1) by (auto simp: tq_queue_def)
  have el: "sanity_check_element h s \<and> sanity_check_member h s = Some True" if "h \<in> set (addrs t)" for h
  proof -
    from tq_queue_unplug [OF t(1) that] obtain fs y k l r where
      z: "tq_zip s h (tq_parent (tq_mem s h)) (PNode h y k l r) fs" "plug fs (PNode h y k l r) = t" .
    have "ranks_ok (plug fs (PNode h y k l r))" using t(1) z(2) by (simp add: tq_inv_def)
    then have "ranks_ok (PNode h y k l r)" by (simp add: ranks_ok_plug)
    with z(1) walk_to_root_ctx [of s h "tq_parent (tq_mem s h)" fs] show ?thesis
      by (auto simp: sanity_check_member_def tq_zip_def intro!: sanity_element_zip)
  qed
  moreover have "sanity_check_root s"
    using t(1) el by (cases t) (auto simp: sanity_check_root_def tq_inv_def tq_links_def tq_zip_def)
  ultimately show ?thesis by (simp add: t(2) [symmetric] set_addrs)
qed


text \<open>A queue of two nodes, at the addresses 16 and 32.\<close>

definition tq_demo :: tq_state where
  "tq_demo = \<lparr>tq_root = 16, tq_mem = (\<lambda>p.
     if p = 16 then \<lparr>tq_info = True, tq_notify = 7, tq_notify_type = NotifyTSO, tq_parent = EMPTY,
       tq_a = 32, tq_b = EMPTY, tq_rank = 1, tq_waketime = 10\<rparr>
     else \<lparr>tq_info = True, tq_notify = 8, tq_notify_type = NotifyMVar, tq_parent = (if p = 32 then 16 else EMPTY),
       tq_a = EMPTY, tq_b = EMPTY, tq_rank = 1, tq_waketime = 20\<rparr>)\<rparr>"

lemma tq_demo_queue: "tq_queue tq_demo {#(16, 10), (32, 20)#}"
  by (rule tq_queueI [of _ "PNode 16 10 1 (PNode 32 20 1 PLeaf PLeaf) PLeaf"])
    (simp_all add: tq_demo_def tq_inv_def tq_links_def tq_zip_def EMPTY_def)

theorem insertTimeoutQueue_correct_witness:
  "\<exists>s'. insertTimeoutQueue 48 5 tq_demo = Some s' \<and> tq_queue s' {#(48, 5), (16, 10), (32, 20)#}"
  using insertTimeoutQueue_correct [OF tq_demo_queue, of 48 5] by (simp add: EMPTY_def tq_demo_def)

theorem deleteMinTimeoutQueue_correct_witness:
  "\<exists>s'. deleteMinTimeoutQueue tq_demo = Some (16, s') \<and> tq_queue s' {#(32, 20)#}"
  using deleteMinTimeoutQueue_correct [OF tq_demo_queue]
  by (auto simp: findMinTimeoutQueue_def findMinWaketimeTimeoutQueue_def tq_demo_def)

theorem deleteTimeoutQueue_correct_witness:
  "\<exists>s'. deleteTimeoutQueue 32 tq_demo = Some s' \<and> tq_queue s' {#(16, 10)#}"
  using deleteTimeoutQueue_correct [OF tq_demo_queue, of 32 20] by auto

section \<open>The shortcut of leftify and the leftist property\<close>

primrec spine :: "(tqptr \<times> int) list \<Rightarrow> ptree" where
  "spine [] = PLeaf"
| "spine (e # es) = PNode (fst e) (snd e) 1 PLeaf (spine es)"

lemma addrs_spine [simp]: "addrs (spine es) = map fst es"
  by (induction es) auto

lemma descend_spine:
  "\<forall>e \<in> set es. snd e < w \<Longrightarrow> descend n w (spine es) fs =
    (PNode n w 1 PLeaf PLeaf, map (\<lambda>e. FrR (fst e) (snd e) 1 PLeaf) (rev es) @ fs)"
  by (induction es arbitrary: fs) auto

lemma plug_spine:
  "plug (map (\<lambda>e. FrR (fst e) (snd e) 1 PLeaf) (rev es)) (spine ds) = spine (es @ ds)"
proof (induction es arbitrary: ds rule: rev_induct)
  case (snoc e es)
  from snoc [of "e # ds"] show ?case by simp
qed simp

lemma insert_spine:
  assumes "\<forall>e \<in> set es. snd e < w"
  shows "insert_tree n w (spine es) = spine (es @ [(n, w)])"
proof (cases es rule: rev_cases)
  case (snoc ds d)
  have "insert_tree n w (spine es) = plug (map (\<lambda>e. FrR (fst e) (snd e) 1 PLeaf) (rev es)) (spine [(n, w)])"
    using descend_spine [OF assms, of n "[]"] snoc by (simp add: insert_tree_def)
  then show ?thesis by (simp only: plug_spine)
qed (simp add: insert_tree_def)

text \<open>The walk of \<open>leftify_up_shortcut\<close> stops at a node whose rank is already \<open>min + 1\<close> before it
  compares the children, so it may leave the smaller rank on the left: a queue filled in ascending
  order of wake times is a list along the \<open>b\<close> pointers, which is not leftist from two nodes on.\<close>

lemma ascending_inserts_not_leftist:
  assumes "tq_inv s (spine es)" "\<forall>e \<in> set es. snd e < w" "hnew \<notin> fst ` set es" "hnew \<noteq> EMPTY"
    "tq_info (tq_mem s hnew)" "es \<noteq> []"
  shows "\<exists>s'. insertTimeoutQueue hnew w s = Some s' \<and> tq_inv s' (spine (es @ [(hnew, w)])) \<and>
    \<not> leftist (spine (es @ [(hnew, w)]))"
proof -
  have "\<not> leftist (spine (es @ [(hnew, w)]))" using assms(6) by (cases es; cases "tl es") auto
  with insert_links [OF assms(1) _ assms(4,5), of w] assms(2,3) show ?thesis by (simp add: insert_spine)
qed

section \<open>The interface of the queue\<close>

text \<open>What the code that waits for timeouts relies on.\<close>

locale timeout_queue =
  fixes holds :: "'s \<Rightarrow> ('k \<times> int) multiset \<Rightarrow> bool"
    and isEmpty :: "'s \<Rightarrow> bool"
    and minTime :: "'s \<Rightarrow> int"
    and deleteMin :: "'s \<Rightarrow> ('k \<times> 's) option"
    and payload :: "'s \<Rightarrow> 'k \<Rightarrow> 'p"
  assumes isEmpty_iff: "holds s M \<Longrightarrow> isEmpty s \<longleftrightarrow> M = {#}"
    and minTime_least: "holds s M \<Longrightarrow> e \<in># M \<Longrightarrow> minTime s \<le> snd e"
    and deleteMin_min: "holds s M \<Longrightarrow> M \<noteq> {#} \<Longrightarrow>
      \<exists>k s'. deleteMin s = Some (k, s') \<and> (k, minTime s) \<in># M \<and> holds s' (M - {#(k, minTime s)#}) \<and>
        payload s' = payload s"

definition node_payload :: "tq_state \<Rightarrow> tqptr \<Rightarrow> word64 \<times> notify_type" where
  "node_payload s h = (tq_notify (tq_mem s h), tq_notify_type (tq_mem s h))"

lemma same_payload_node: "same_payload s s' \<Longrightarrow> node_payload s' = node_payload s"
  by (auto simp: same_payload_def node_payload_def)

lemma tq_queue_deleteMin:
  assumes "tq_queue s M" "M \<noteq> {#}"
  shows "\<exists>k s'. deleteMinTimeoutQueue s = Some (k, s') \<and> (k, findMinWaketimeTimeoutQueue s) \<in># M \<and>
    tq_queue s' (M - {#(k, findMinWaketimeTimeoutQueue s)#}) \<and> node_payload s' = node_payload s"
proof -
  obtain t where t: "tq_inv s t" "entries t = M" using assms(1) by (auto simp: tq_queue_def)
  then obtain h y k l r where t': "t = PNode h y k l r" using assms(2) by (cases t) auto
  have root: "findMinWaketimeTimeoutQueue s = y"
    using t(1) by (auto simp: t' tq_inv_def tq_links_def tq_zip_def findMinWaketimeTimeoutQueue_def)
  from deleteMin_links [OF t(1) [unfolded t']] obtain s' where s':
    "deleteMinTimeoutQueue s = Some (h, s')" "tq_inv s' (join_tree l r)" by blast
  have "entries (join_tree l r) = M - {#(h, y)#}"
    using join_tree_correct(3) [of l r] t by (auto simp: t' tq_inv_def)
  then show ?thesis
    using s' same_payload_node [OF deleteMin_payload [OF s'(1)]] t(2) by (auto simp: t' root intro!: tq_queueI)
qed

interpretation tq: timeout_queue tq_queue isEmptyTimeoutQueue findMinWaketimeTimeoutQueue
  deleteMinTimeoutQueue node_payload
proof
  fix s M
  assume q: "tq_queue s M"
  show "isEmptyTimeoutQueue s \<longleftrightarrow> M = {#}" using tq_queue_root [OF q] by (simp add: isEmptyTimeoutQueue_def)
  show "findMinWaketimeTimeoutQueue s \<le> snd e" if "e \<in># M" for e
    using tq_queue_min(2) [OF q] that by (cases "M = {#}") (auto simp: findMinWaketimeTimeoutQueue_def)
qed (rule tq_queue_deleteMin)

end
