(* ===== verification/Timeouts.thy ===== *)
theory Timeouts
  imports TimeoutQueues
begin

text \<open>
  The client of the timeout queue (\<open>rts/posix/Timeout.c\<close>): installing and cancelling delays, waking
  what has expired, and the three conversions of the time left until the next timeout for
  \<open>poll\<close>, \<open>ppoll\<close> and \<open>select\<close>. \<open>Time\<close> is \<open>int64_t\<close>; the arithmetic that can leave its range is
  checked, so signed overflow is a value of the model.
\<close>

section \<open>Time\<close>

definition TIME_MAX :: int where
  "TIME_MAX = 2 ^ 63 - 1"

text \<open>The result of a signed 64-bit operation, \<open>None\<close> where C leaves it undefined.\<close>

definition int64 :: "int \<Rightarrow> int option" where
  "int64 x = (if - (2 ^ 63) \<le> x \<and> x < 2 ^ 63 then Some x else None)"

text \<open>C division rounds towards zero.\<close>

definition cdiv :: "int \<Rightarrow> int \<Rightarrow> int" where
  "cdiv a b = (if (a < 0) = (b < 0) then \<bar>a\<bar> div \<bar>b\<bar> else - (\<bar>a\<bar> div \<bar>b\<bar>))"

definition cmod :: "int \<Rightarrow> int \<Rightarrow> int" where
  "cmod a b = a - b * cdiv a b"

definition TimeToUS :: "int \<Rightarrow> int" where
  "TimeToUS t = cdiv t 1000"

definition USToTime :: "int \<Rightarrow> int option" where
  "USToTime t = int64 (t * 1000)"

definition TimeToSeconds :: "int \<Rightarrow> int" where
  "TimeToSeconds t = cdiv t 1000000000"

definition MSToTime :: "int \<Rightarrow> int option" where
  "MSToTime t = int64 (t * 1000000)"

section \<open>Delays\<close>

text \<open>The time at which \<open>syncDelayTimeout\<close> wakes the thread.\<close>

definition delay_target :: "int \<Rightarrow> int \<Rightarrow> int option" where
  "delay_target now us_delay =
    (case int64 (TIME_MAX - now) of
       None \<Rightarrow> None
     | Some left \<Rightarrow>
         (if us_delay > TimeToUS left then Some TIME_MAX
          else case USToTime us_delay of None \<Rightarrow> None | Some d \<Rightarrow> int64 (now + d)))"

datatype why_blocked = NotBlocked | BlockedOnDelay

text \<open>A thread as far as timeouts use it, and the part of \<open>CapIOManager\<close> and its capability.\<close>

record tso =
  why_blocked :: why_blocked
  block_timeout :: tqptr

record iomgr =
  timeout_queue :: tq_state
  tsos :: "word64 \<Rightarrow> tso"
  run_queue :: "word64 list"

text \<open>
  \<open>alloc\<close> is the result of \<open>allocateMightFail\<close>, \<open>None\<close> when there is no memory. The inner option is
  the boolean the function returns, the outer one undefined arithmetic or an unending loop.
\<close>

definition syncDelayTimeout :: "tqptr option \<Rightarrow> int \<Rightarrow> word64 \<Rightarrow> int \<Rightarrow> iomgr \<Rightarrow> (bool \<times> iomgr) option" where
  "syncDelayTimeout alloc now t us_delay io =
    (case delay_target now us_delay of
       None \<Rightarrow> None
     | Some target \<Rightarrow>
         (case alloc of
            None \<Rightarrow> Some (False, io)
          | Some timeout \<Rightarrow>
              (let q = initElemTimeoutQueue timeout t NotifyTSO (timeout_queue io);
                   io1 = io\<lparr>tsos := (tsos io)(t := \<lparr>why_blocked = BlockedOnDelay, block_timeout = timeout\<rparr>)\<rparr>
               in case insertTimeoutQueue timeout target q of
                    None \<Rightarrow> None
                  | Some q' \<Rightarrow> Some (True, io1\<lparr>timeout_queue := q'\<rparr>))))"

definition syncDelayCancelTimeout :: "word64 \<Rightarrow> iomgr \<Rightarrow> iomgr option" where
  "syncDelayCancelTimeout t io =
    (case deleteTimeoutQueue (block_timeout (tsos io t)) (timeout_queue io) of
       None \<Rightarrow> None
     | Some q \<Rightarrow> Some (io\<lparr>timeout_queue := q, run_queue := run_queue io @ [t],
                         tsos := (tsos io)(t := (tsos io t)\<lparr>why_blocked := NotBlocked\<rparr>)\<rparr>))"

section \<open>Completions\<close>

datatype completion = RunThread word64 | PutMVar word64

text \<open>What \<open>notifyTimeoutCompletion\<close> does for a node's payload; \<open>None\<close> is the call of \<open>barf\<close>.\<close>

fun notifyTimeoutCompletion :: "word64 \<times> notify_type \<Rightarrow> completion option" where
  "notifyTimeoutCompletion (x, NotifyTSO) = Some (RunThread x)"
| "notifyTimeoutCompletion (x, NotifyMVar) = Some (PutMVar x)"
| "notifyTimeoutCompletion (x, NotifyTVar) = None"

datatype 'a outcome = Finished 'a | Barf

text \<open>
  The loop of \<open>processTimeoutCompletions\<close> over the operations of a queue; the outer \<open>None\<close> is a loop
  that does not end. The completions are listed in the order in which they are carried out.
\<close>

partial_function (option) pop_expired ::
  "('s \<Rightarrow> bool) \<Rightarrow> ('s \<Rightarrow> int) \<Rightarrow> ('s \<Rightarrow> ('k \<times> 's) option) \<Rightarrow> ('s \<Rightarrow> 'k \<Rightarrow> 'c option) \<Rightarrow> int \<Rightarrow> 'c list \<Rightarrow> 's
    \<Rightarrow> ('c list \<times> 's) outcome option" where
  "pop_expired isEmpty minTime deleteMin notify now out s =
    (if isEmpty s then Some (Finished (out, s))
     else if now < minTime s then Some (Finished (out, s))
     else case deleteMin s of
            None \<Rightarrow> None
          | Some ts \<Rightarrow>
              (case notify (snd ts) (fst ts) of
                 None \<Rightarrow> Some Barf
               | Some c \<Rightarrow> pop_expired isEmpty minTime deleteMin notify now (out @ [c]) (snd ts)))"

definition processTimeoutCompletions :: "int \<Rightarrow> tq_state \<Rightarrow> (completion list \<times> tq_state) outcome option" where
  "processTimeoutCompletions now s =
    pop_expired isEmptyTimeoutQueue findMinWaketimeTimeoutQueue deleteMinTimeoutQueue
      (\<lambda>s h. notifyTimeoutCompletion (node_payload s h)) now [] s"

section \<open>Waiting times\<close>

definition INT_MAX :: int where
  "INT_MAX = 2 ^ 31 - 1"

definition max_timeout_ms :: int where
  "max_timeout_ms = INT_MAX div 1000"

definition timeoutInMilliseconds :: "bool \<Rightarrow> int \<Rightarrow> tq_state \<Rightarrow> int option" where
  "timeoutInMilliseconds wait now s =
    (if \<not> wait then Some 0
     else if \<not> isEmptyTimeoutQueue s then
       (case int64 (findMinWaketimeTimeoutQueue s - now) of
          None \<Rightarrow> None
        | Some waittime \<Rightarrow>
            (case int64 (waittime + 999999) of
               None \<Rightarrow> None
             | Some w \<Rightarrow> (let waittime_ms = cdiv w 1000000
                          in Some (if waittime_ms < max_timeout_ms then waittime_ms else max_timeout_ms))))
     else Some (- 1))"

record timespec =
  tv_sec :: int
  tv_nsec :: int

text \<open>The inner \<open>None\<close> is the null pointer, which means to wait forever.\<close>

definition timeoutInNanoseconds :: "bool \<Rightarrow> int \<Rightarrow> tq_state \<Rightarrow> timespec option option" where
  "timeoutInNanoseconds wait now s =
    (if \<not> wait then Some (Some \<lparr>tv_sec = 0, tv_nsec = 0\<rparr>)
     else if \<not> isEmptyTimeoutQueue s then
       (case int64 (findMinWaketimeTimeoutQueue s - now) of
          None \<Rightarrow> None
        | Some waittime \<Rightarrow>
            (case MSToTime max_timeout_ms of
               None \<Rightarrow> None
             | Some max_timeout_ns \<Rightarrow>
                 (if waittime < max_timeout_ns
                  then Some (Some \<lparr>tv_sec = cdiv waittime 1000000000,
                                  tv_nsec = cmod waittime 1000000000\<rparr>)
                  else Some (Some \<lparr>tv_sec = max_timeout_ms div 1000, tv_nsec = 0\<rparr>))))
     else Some None)"

record timeval =
  tval_sec :: int
  tval_usec :: int

definition max_seconds :: int where
  "max_seconds = 2678400"

definition timeoutInMicroseconds :: "bool \<Rightarrow> int \<Rightarrow> tq_state \<Rightarrow> timeval option option" where
  "timeoutInMicroseconds wait now s =
    (if \<not> wait then Some (Some \<lparr>tval_sec = 0, tval_usec = 0\<rparr>)
     else if \<not> isEmptyTimeoutQueue s then
       (case int64 (findMinWaketimeTimeoutQueue s - now) of
          None \<Rightarrow> None
        | Some waittime \<Rightarrow>
            (let sec = TimeToSeconds waittime
             in if sec < max_seconds
                then Some (Some \<lparr>tval_sec = sec,
                                tval_usec = cmod (TimeToUS waittime) 1000000\<rparr>)
                else Some (Some \<lparr>tval_sec = max_seconds, tval_usec = 0\<rparr>)))
     else Some None)"

section \<open>Draining a queue\<close>

context timeout_queue
begin

lemma pop_expired_drains:
  assumes "holds s M" "\<And>k w. (k, w) \<in># M \<Longrightarrow> w \<le> now \<Longrightarrow> f (payload s k) \<noteq> None"
  shows "\<exists>es s'. pop_expired isEmpty minTime deleteMin (\<lambda>s k. f (payload s k)) now out s =
      Some (Finished (out @ map (\<lambda>e. the (f (payload s (fst e)))) es, s')) \<and>
    mset es = filter_mset (\<lambda>e. snd e \<le> now) M \<and> sorted (map snd es) \<and>
    holds s' (filter_mset (\<lambda>e. now < snd e) M)"
  using assms
proof (induction "size M" arbitrary: s M out)
  case 0
  then have "isEmpty s" using isEmpty_iff by auto
  with 0 show ?case by (intro exI [of _ "[]"] exI [of _ s]) (auto simp: pop_expired.simps)
next
  case (Suc n)
  then have ne: "M \<noteq> {#}" "\<not> isEmpty s" using isEmpty_iff [OF Suc.prems(1)] by auto
  show ?case
  proof (cases "now < minTime s")
    case True
    then have "\<forall>e. e \<in># M \<longrightarrow> now < snd e" using minTime_least [OF Suc.prems(1)] by fastforce
    then have "filter_mset (\<lambda>e. snd e \<le> now) M = {#}" "filter_mset (\<lambda>e. now < snd e) M = M"
      by (fastforce simp: filter_mset_eq_conv)+
    with True ne Suc.prems show ?thesis
      by (intro exI [of _ "[]"] exI [of _ s]) (auto simp: pop_expired.simps)
  next
    case False
    from deleteMin_min [OF Suc.prems(1) ne(1)] obtain k s1 where d: "deleteMin s = Some (k, s1)"
      "(k, minTime s) \<in># M" "holds s1 (M - {#(k, minTime s)#})" "payload s1 = payload s" by blast
    let ?M = "M - {#(k, minTime s)#}"
    from d(2) obtain c where c: "f (payload s k) = Some c" using Suc.prems(2) [of k "minTime s"] False by auto
    have M: "M = add_mset (k, minTime s) ?M" using d(2) by simp
    have n: "n = size ?M" using Suc(2) d(2) by (simp add: size_Diff_singleton)
    have p: "f (payload s1 k') \<noteq> None" if "(k', w) \<in># ?M" "w \<le> now" for k' w
      using Suc.prems(2) [of k' w] that d(4) by (auto dest: in_diffD)
    have "\<exists>es s'. pop_expired isEmpty minTime deleteMin (\<lambda>s k. f (payload s k)) now (out @ [c]) s1 =
        Some (Finished ((out @ [c]) @ map (\<lambda>e. the (f (payload s1 (fst e)))) es, s')) \<and>
      mset es = filter_mset (\<lambda>e. snd e \<le> now) ?M \<and> sorted (map snd es) \<and>
      holds s' (filter_mset (\<lambda>e. now < snd e) ?M)"
      by (rule Suc.hyps(1) [OF n d(3)]) (rule p)
    then obtain es s' where e: "pop_expired isEmpty minTime deleteMin (\<lambda>s k. f (payload s k)) now (out @ [c]) s1 =
      Some (Finished ((out @ [c]) @ map (\<lambda>e. the (f (payload s (fst e)))) es, s'))"
      "mset es = filter_mset (\<lambda>e. snd e \<le> now) ?M" "sorted (map snd es)"
      "holds s' (filter_mset (\<lambda>e. now < snd e) ?M)" unfolding d(4) by blast
    have "mset es \<subseteq># M"
      unfolding e(2) by (rule subset_mset.order_trans [OF multiset_filter_subset diff_subset_eq_self])
    then have le: "\<forall>e \<in> set es. minTime s \<le> snd e"
      using minTime_least [OF Suc.prems(1)] by (auto dest!: mset_subset_eqD simp: in_multiset_in_set)
    show ?thesis
    proof (intro exI conjI)
      show "pop_expired isEmpty minTime deleteMin (\<lambda>s k. f (payload s k)) now out s =
        Some (Finished (out @ map (\<lambda>e. the (f (payload s (fst e)))) ((k, minTime s) # es), s'))"
        using ne False d(1,4) c e(1) by (simp add: pop_expired.simps [of isEmpty _ _ _ _ out])
      show "mset ((k, minTime s) # es) = filter_mset (\<lambda>e. snd e \<le> now) M"
        using False e(2) by (subst M) simp
      show "sorted (map snd ((k, minTime s) # es))" using e(3) le by simp
      show "holds s' (filter_mset (\<lambda>e. now < snd e) M)"
        using False e(4) by (subst M) simp
    qed
  qed
qed

end

section \<open>Properties\<close>

lemma cdiv_nonneg: "0 \<le> a \<Longrightarrow> 0 < b \<Longrightarrow> cdiv a b = a div b"
  by (simp add: cdiv_def)

lemma cmod_nonneg: "0 \<le> a \<Longrightarrow> 0 < b \<Longrightarrow> cmod a b = a mod b"
  by (simp add: cmod_def cdiv_nonneg minus_mult_div_eq_mod)

text \<open>C29 Waking the expired timeouts ends, carries out the completion of every entry that is due
  exactly once and in the order of their wake times, and leaves exactly the entries that are not due.\<close>

theorem processTimeoutCompletions_correct:
  assumes "tq_queue s M"
    "\<And>h w. (h, w) \<in># M \<Longrightarrow> w \<le> now \<Longrightarrow> tq_notify_type (tq_mem s h) \<noteq> NotifyTVar"
  shows "\<exists>es s'. processTimeoutCompletions now s =
      Some (Finished (map (\<lambda>e. the (notifyTimeoutCompletion (node_payload s (fst e)))) es, s')) \<and>
    mset es = filter_mset (\<lambda>e. snd e \<le> now) M \<and> sorted (map snd es) \<and>
    tq_queue s' (filter_mset (\<lambda>e. now < snd e) M)"
proof -
  have "notifyTimeoutCompletion (node_payload s h) \<noteq> None" if "(h, w) \<in># M" "w \<le> now" for h w
    using assms(2) [OF that] by (cases "tq_notify_type (tq_mem s h)") (auto simp: node_payload_def)
  from tq.pop_expired_drains [OF assms(1), where f = notifyTimeoutCompletion and out = "[]", OF this]
  show ?thesis by (simp add: processTimeoutCompletions_def)
qed

theorem processTimeoutCompletions_correct_witness:
  "\<exists>s'. processTimeoutCompletions 15 tq_demo = Some (Finished ([RunThread 7], s')) \<and> tq_queue s' {#(32, 20)#}"
proof -
  have "tq_notify_type (tq_mem tq_demo h) \<noteq> NotifyTVar" for h by (simp add: tq_demo_def)
  from processTimeoutCompletions_correct [OF tq_demo_queue this, of 15] show ?thesis
    by (auto simp: mset_single_iff node_payload_def tq_demo_def split: if_splits)
qed

lemma delay_target_clamp:
  assumes "0 \<le> now" "now \<le> TIME_MAX" "0 \<le> us_delay"
  shows "delay_target now us_delay = Some (min (now + us_delay * 1000) TIME_MAX)"
proof -
  have l: "int64 (TIME_MAX - now) = Some (TIME_MAX - now)"
    using assms by (simp add: int64_def TIME_MAX_def)
  show ?thesis
  proof (cases "us_delay > (TIME_MAX - now) div 1000")
    case True
    then have "TIME_MAX \<le> now + us_delay * 1000" by linarith
    with True assms show ?thesis by (simp add: delay_target_def l TimeToUS_def cdiv_nonneg min_def)
  next
    case False
    then have le: "now + us_delay * 1000 \<le> TIME_MAX" by linarith
    then have "int64 (us_delay * 1000) = Some (us_delay * 1000)"
      "int64 (now + us_delay * 1000) = Some (now + us_delay * 1000)"
      using assms by (auto simp: int64_def TIME_MAX_def)
    with False assms le show ?thesis by (simp add: delay_target_def l TimeToUS_def USToTime_def cdiv_nonneg min_def)
  qed
qed

text \<open>A delay is clamped to the greatest time without any overflow: the thread is woken at the
  lesser of \<open>now\<close> plus the delay and \<open>TIME_MAX\<close>.\<close>

lemma delay_target_clamped:
  assumes "0 \<le> now" "now \<le> TIME_MAX" "0 \<le> us_delay"
  shows "delay_target now us_delay = Some (min (now + us_delay * 1000) TIME_MAX)"
  using assms by (rule delay_target_clamp)

text \<open>C33 The waiting times handed to \<open>poll\<close>, \<open>ppoll\<close> and \<open>select\<close>, for a queue whose first timeout is \<open>d\<close> nanoseconds away. The
  milliseconds for \<open>poll\<close> are never 0, so the loop does not spin, at most the cap, and below the cap no less than \<open>d\<close> and by less than a
  millisecond more; rounding up overflows, which is undefined, exactly when \<open>d\<close> is within a millisecond of the greatest time. The time for
  \<open>ppoll\<close> is exact up to its cap, and the time for \<open>select\<close> is short of \<open>d\<close> by less than a microsecond up to its cap of 31 days.\<close>

theorem timeouts_correct:
  assumes "tq_queue s M" "M \<noteq> {#}" "findMinWaketimeTimeoutQueue s = now + d" "0 < d" "0 \<le> now" "now + d \<le> TIME_MAX"
  shows "(if d + 999999 \<le> TIME_MAX
     then \<exists>ms. timeoutInMilliseconds True now s = Some ms \<and> 0 < ms \<and> ms \<le> 2147483 \<and>
       (ms < 2147483 \<longrightarrow> d \<le> ms * 1000000 \<and> ms * 1000000 < d + 1000000) \<and> (ms = 2147483 \<longrightarrow> 2147482 * 1000000 < d)
     else timeoutInMilliseconds True now s = None) \<and>
    (\<exists>tv. timeoutInNanoseconds True now s = Some (Some tv) \<and> 0 \<le> tv_nsec tv \<and> tv_nsec tv < 1000000000 \<and>
       (let t = tv_sec tv * 1000000000 + tv_nsec tv in t = (if d < 2147483000000 then d else 2147000000000))) \<and>
    (\<exists>tv. timeoutInMicroseconds True now s = Some (Some tv) \<and> 0 \<le> tval_usec tv \<and> tval_usec tv < 1000000 \<and>
       (let t = tval_sec tv * 1000000 + tval_usec tv
        in if d < 2678400000000000 then t * 1000 \<le> d \<and> d < t * 1000 + 1000 else t = 2678400000000))"
proof -
  have ne: "\<not> isEmptyTimeoutQueue s" using tq.isEmpty_iff [OF assms(1)] assms(2) by simp
  have i: "int64 (now + d - now) = Some d" "int64 (d + 999999) = (if d + 999999 \<le> TIME_MAX then Some (d + 999999) else None)"
    using assms(4-6) by (auto simp: int64_def TIME_MAX_def)
  have ms: "timeoutInMilliseconds True now s = (if d + 999999 \<le> TIME_MAX then Some (min ((d + 999999) div 1000000) 2147483) else None)"
    using ne i assms(3,4)
    by (simp add: timeoutInMilliseconds_def max_timeout_ms_def INT_MAX_def cdiv_nonneg min_def Let_def)
  have ns: "timeoutInNanoseconds True now s =
      Some (Some (if d < 2147483000000 then \<lparr>tv_sec = d div 1000000000, tv_nsec = d mod 1000000000\<rparr>
                  else \<lparr>tv_sec = 2147, tv_nsec = 0\<rparr>))"
    using ne i(1) assms(3,4)
    by (simp add: timeoutInNanoseconds_def max_timeout_ms_def INT_MAX_def MSToTime_def cdiv_nonneg cmod_nonneg int64_def)
  have "d div 1000000000 < 2678400 \<longleftrightarrow> d < 2678400000000000" using assms(4) by linarith
  then have us: "timeoutInMicroseconds True now s =
      Some (Some (if d < 2678400000000000
                  then \<lparr>tval_sec = d div 1000000000, tval_usec = d div 1000 mod 1000000\<rparr>
                  else \<lparr>tval_sec = 2678400, tval_usec = 0\<rparr>))"
    using ne i(1) assms(3,4)
    by (simp add: timeoutInMicroseconds_def max_seconds_def TimeToUS_def TimeToSeconds_def cdiv_nonneg cmod_nonneg
        pos_imp_zdiv_nonneg_iff Let_def)
  have "d div 1000000000 = d div 1000 div 1000000" by (simp add: zdiv_zmult2_eq [symmetric])
  then have sec: "d div 1000000000 * 1000000 + d div 1000 mod 1000000 = d div 1000" by simp
  have "0 < min ((d + 999999) div 1000000) 2147483 \<and> min ((d + 999999) div 1000000) 2147483 \<le> 2147483 \<and>
      (min ((d + 999999) div 1000000) 2147483 < 2147483 \<longrightarrow> d \<le> min ((d + 999999) div 1000000) 2147483 * 1000000 \<and>
        min ((d + 999999) div 1000000) 2147483 * 1000000 < d + 1000000) \<and>
      (min ((d + 999999) div 1000000) 2147483 = 2147483 \<longrightarrow> 2147482 * 1000000 < d)"
    using assms(4) by (simp add: min_def) linarith
  moreover have "d div 1000 * 1000 \<le> d \<and> d < d div 1000 * 1000 + 1000" by linarith
  ultimately show ?thesis using sec unfolding ms ns us by (simp add: Let_def)
qed

theorem timeouts_correct_witness:
  "timeoutInMilliseconds True 1000000 (tq_demo\<lparr>tq_mem := (tq_mem tq_demo)(16 := (tq_mem tq_demo 16)\<lparr>tq_a := EMPTY, tq_waketime := 3000001\<rparr>)\<rparr>) = Some 3"
proof -
  let ?s = "tq_demo\<lparr>tq_mem := (tq_mem tq_demo)(16 := (tq_mem tq_demo 16)\<lparr>tq_a := EMPTY, tq_waketime := 3000001\<rparr>)\<rparr>"
  have "tq_queue ?s {#(16, 3000001)#}"
    by (rule tq_queueI [of _ "PNode 16 3000001 1 PLeaf PLeaf"])
      (simp_all add: tq_demo_def tq_inv_def tq_links_def tq_zip_def EMPTY_def)
  moreover have "findMinWaketimeTimeoutQueue ?s = 1000000 + 2000001" by (simp add: findMinWaketimeTimeoutQueue_def tq_demo_def)
  ultimately obtain ms where "timeoutInMilliseconds True 1000000 ?s = Some ms" "0 < ms" "ms \<le> 2147483"
    "ms < 2147483 \<longrightarrow> 2000001 \<le> ms * 1000000 \<and> ms * 1000000 < 2000001 + 1000000" "ms \<noteq> 2147483"
    using timeouts_correct [of ?s "{#(16, 3000001)#}" 1000000 2000001] by (auto simp: TIME_MAX_def)
  moreover from this have "ms = 3" by linarith
  ultimately show ?thesis by simp
qed

text \<open>A node that is not in the queue can be changed freely.\<close>

lemma tq_queue_upd_fresh:
  assumes "tq_queue s M" "h \<notin># image_mset fst M"
  shows "tq_queue (upd_node h f s) M"
proof -
  obtain t where t: "tq_inv s t" "entries t = M" using assms(1) by (auto simp: tq_queue_def)
  then have "h \<notin> set (addrs t)" using assms(2) by (simp add: set_addrs)
  with t show ?thesis
    by (intro tq_queueI [of _ t]) (auto simp: tq_inv_def tq_links_def tq_zip_def mem_upd_node)
qed

text \<open>\<open>syncDelayTimeout\<close> on a fresh closure blocks the thread and enters its timeout at the clamped
  time; cancelling takes exactly that entry out again, unblocks the thread and queues it to run.\<close>

lemma syncDelay_cancel:
  assumes "tq_queue (timeout_queue io) M" "timeout \<notin># image_mset fst M" "timeout \<noteq> EMPTY"
    "0 \<le> now" "now \<le> TIME_MAX" "0 \<le> us_delay"
  shows "\<exists>io' io''. syncDelayTimeout (Some timeout) now t us_delay io = Some (True, io') \<and>
    tq_queue (timeout_queue io') (add_mset (timeout, min (now + us_delay * 1000) TIME_MAX) M) \<and>
    why_blocked (tsos io' t) = BlockedOnDelay \<and>
    syncDelayCancelTimeout t io' = Some io'' \<and> tq_queue (timeout_queue io'') M \<and>
    why_blocked (tsos io'' t) = NotBlocked \<and> run_queue io'' = run_queue io @ [t]"
proof -
  let ?w = "min (now + us_delay * 1000) TIME_MAX"
  let ?q = "initElemTimeoutQueue timeout t NotifyTSO (timeout_queue io)"
  have "tq_queue ?q M" unfolding initElemTimeoutQueue_def by (rule tq_queue_upd_fresh [OF assms(1,2)])
  moreover have "tq_info (tq_mem ?q timeout)" by (simp add: initElemTimeoutQueue_def mem_upd_node)
  ultimately obtain q' where q': "insertTimeoutQueue timeout ?w ?q = Some q'"
    "tq_queue q' (add_mset (timeout, ?w) M)"
    using tq_insert [of ?q M timeout ?w] assms(2,3) by blast
  from tq_delete [OF q'(2), of timeout ?w] obtain q'' where
    "deleteTimeoutQueue timeout q' = Some q''" "tq_queue q'' M" by auto
  with q' show ?thesis
    by (auto simp: syncDelayTimeout_def syncDelayCancelTimeout_def delay_target_clamp assms(4-6) Let_def)
qed

end
