(* ===== verification/HashTables.thy ===== *)
theory HashTables
  imports RTS_Prelude "HOL-Library.Multiset"
begin

text \<open>
  Linear hash tables (\<open>rts/Hash.c\<close>, \<open>rts/Hash.h\<close>): a directory of segments of bucket chains that
  grows by one bucket at a time. Every read of a segment that was never allocated, or of a bucket
  that was never written, is \<open>None\<close> in the model, so the theorems show as well that the code reads
  no uninitialised memory. A bucket chain is the list of its (key, data) cells; of the free list and
  the chunk list the lengths are kept. Keys and data are machine words, and \<open>NULL\<close> is 0.
\<close>

section \<open>The table\<close>

definition HSEGSIZE :: nat where "HSEGSIZE = 1024"
definition HDIRSIZE :: nat where "HDIRSIZE = 1024"
definition HLOAD :: int where "HLOAD = 5"

text \<open>\<open>1024 * sizeof(W_) / sizeof(HashList)\<close> on a 64-bit machine.\<close>

definition HCHUNK :: nat where "HCHUNK = 1024 * 8 div 24"

type_synonym hcell = "word64 \<times> word64"

record hash_table =
  ht_split :: nat
  ht_max :: nat
  ht_mask1 :: nat
  ht_mask2 :: nat
  ht_kcount :: int
  ht_bcount :: int
  ht_dir :: "nat \<Rightarrow> (nat \<Rightarrow> hcell list option) option"
  ht_free :: nat
  ht_chunks :: nat

type_synonym hash_fun = "hash_table \<Rightarrow> word64 \<Rightarrow> nat"
type_synonym compare_fun = "word64 \<Rightarrow> word64 \<Rightarrow> bool"

definition get_bucket :: "hash_table \<Rightarrow> nat \<Rightarrow> nat \<Rightarrow> hcell list option" where
  "get_bucket t segment index = (case ht_dir t segment of None \<Rightarrow> None | Some seg \<Rightarrow> seg index)"

definition set_bucket :: "hash_table \<Rightarrow> nat \<Rightarrow> nat \<Rightarrow> hcell list \<Rightarrow> hash_table option" where
  "set_bucket t segment index cells =
    (case ht_dir t segment of None \<Rightarrow> None
     | Some seg \<Rightarrow> Some (t\<lparr>ht_dir := (ht_dir t)(segment := Some (seg(index := Some cells)))\<rparr>))"

section \<open>Hash functions\<close>

text \<open>The common end of \<open>hashWord\<close> and \<open>hashBuffer\<close>: the bucket for a hash value.\<close>

definition linear_hash :: "hash_table \<Rightarrow> word64 \<Rightarrow> nat" where
  "linear_hash t h =
    (let bucket = unat (h AND of_nat (ht_mask1 t))
     in if bucket < ht_split t then unat (h AND of_nat (ht_mask2 t)) else bucket)"

definition hashWord :: hash_fun where
  "hashWord t key = linear_hash t (key div 8)"

text \<open>\<open>xxh\<close> stands for \<open>XXH3_64bits_withSeed\<close> of the xxHash library with the fixed seed.\<close>

definition hashBuffer :: "(word8 list \<Rightarrow> word64) \<Rightarrow> hash_table \<Rightarrow> word8 list \<Rightarrow> nat" where
  "hashBuffer xxh t buf = linear_hash t (xxh buf)"

text \<open>\<open>str\<close> is the contents of memory: the C string at an address, without its terminator.\<close>

definition hashStr :: "(word8 list \<Rightarrow> word64) \<Rightarrow> (word64 \<Rightarrow> word8 list) \<Rightarrow> hash_fun" where
  "hashStr xxh str t w = hashBuffer xxh t (str w)"

definition compareWord :: compare_fun where
  "compareWord key1 key2 = (key1 = key2)"

definition compareStr :: "(word64 \<Rightarrow> word8 list) \<Rightarrow> compare_fun" where
  "compareStr str key1 key2 = (str key1 = str key2)"

section \<open>Operations\<close>

text \<open>\<open>stgMallocBytes\<close> leaves the buckets of the new segment unwritten.\<close>

definition allocSegment :: "hash_table \<Rightarrow> nat \<Rightarrow> hash_table" where
  "allocSegment t segment = t\<lparr>ht_dir := (ht_dir t)(segment := Some (\<lambda>_. None))\<rparr>"

primrec split_chain :: "(word64 \<Rightarrow> bool) \<Rightarrow> hcell list \<Rightarrow> hcell list \<times> hcell list \<Rightarrow> hcell list \<times> hcell list" where
  "split_chain isnew [] on = on"
| "split_chain isnew (hl # next) on =
    split_chain isnew next (if isnew (fst hl) then (fst on, hl # snd on) else (hl # fst on, snd on))"

text \<open>The first half of \<open>expand\<close>: room for the new bucket, and the new sizes and masks.\<close>

definition expand_sizes :: "hash_table \<Rightarrow> hash_table" where
  "expand_sizes t =
    (let newbucket = ht_max t + ht_split t;
         t1 = (if newbucket mod HSEGSIZE = 0 then allocSegment t (newbucket div HSEGSIZE) else t);
         t2 = t1\<lparr>ht_split := ht_split t1 + 1\<rparr>;
         t3 = (if ht_split t2 = ht_max t2
               then t2\<lparr>ht_split := 0, ht_max := ht_max t2 * 2, ht_mask1 := ht_mask2 t2,
                       ht_mask2 := ht_mask2 t2 * 2 + 1\<rparr>
               else t2)
     in t3\<lparr>ht_bcount := ht_bcount t3 + 1\<rparr>)"

definition expand :: "hash_fun \<Rightarrow> hash_table \<Rightarrow> hash_table option" where
  "expand f t =
    (if HDIRSIZE * HSEGSIZE \<le> ht_split t + ht_max t then Some t
     else
       let oldsegment = ht_split t div HSEGSIZE;
           oldindex = ht_split t mod HSEGSIZE;
           newbucket = ht_max t + ht_split t;
           newsegment = newbucket div HSEGSIZE;
           newindex = newbucket mod HSEGSIZE;
           t' = expand_sizes t
       in case get_bucket t' oldsegment oldindex of
            None \<Rightarrow> None
          | Some cells \<Rightarrow>
              (let on = split_chain (\<lambda>k. f t' k = newbucket) cells ([], [])
               in case set_bucket t' oldsegment oldindex (fst on) of
                    None \<Rightarrow> None
                  | Some t'' \<Rightarrow> set_bucket t'' newsegment newindex (snd on)))"

text \<open>The loop of the lookups: the data of the first cell whose key compares equal.\<close>

primrec chain_lookup :: "compare_fun \<Rightarrow> word64 \<Rightarrow> hcell list \<Rightarrow> word64" where
  "chain_lookup cmp key [] = 0"
| "chain_lookup cmp key (hl # next) = (if cmp (fst hl) key then snd hl else chain_lookup cmp key next)"

definition lookupHashTable_with :: "hash_fun \<Rightarrow> compare_fun \<Rightarrow> hash_table \<Rightarrow> word64 \<Rightarrow> word64 option" where
  "lookupHashTable_with f cmp t key =
    (let bucket = f t key
     in map_option (chain_lookup cmp key) (get_bucket t (bucket div HSEGSIZE) (bucket mod HSEGSIZE)))"

definition lookupHashTable :: "hash_table \<Rightarrow> word64 \<Rightarrow> word64 option" where
  "lookupHashTable t key = lookupHashTable_with hashWord compareWord t key"

definition lookupStrHashTable ::
  "(word8 list \<Rightarrow> word64) \<Rightarrow> (word64 \<Rightarrow> word8 list) \<Rightarrow> hash_table \<Rightarrow> word64 \<Rightarrow> word64 option" where
  "lookupStrHashTable xxh str t key = lookupHashTable_with (hashStr xxh str) (compareStr str) t key"

definition allocHashList :: "hash_table \<Rightarrow> hash_table" where
  "allocHashList t =
    (if ht_free t \<noteq> 0 then t\<lparr>ht_free := ht_free t - 1\<rparr>
     else t\<lparr>ht_chunks := ht_chunks t + 1, ht_free := HCHUNK - 1\<rparr>)"

definition freeHashList :: "hash_table \<Rightarrow> hash_table" where
  "freeHashList t = t\<lparr>ht_free := ht_free t + 1\<rparr>"

definition insertHashTable_with :: "hash_fun \<Rightarrow> hash_table \<Rightarrow> word64 \<Rightarrow> word64 \<Rightarrow> hash_table option" where
  "insertHashTable_with f t key data =
    (let t1 = t\<lparr>ht_kcount := ht_kcount t + 1\<rparr>
     in case (if ht_kcount t1 \<ge> HLOAD * ht_bcount t1 then expand f t1 else Some t1) of
          None \<Rightarrow> None
        | Some t2 \<Rightarrow>
            (let bucket = f t2 key;
                 t3 = allocHashList t2
             in case get_bucket t3 (bucket div HSEGSIZE) (bucket mod HSEGSIZE) of
                  None \<Rightarrow> None
                | Some cells \<Rightarrow> set_bucket t3 (bucket div HSEGSIZE) (bucket mod HSEGSIZE) ((key, data) # cells)))"

definition insertHashTable :: "hash_table \<Rightarrow> word64 \<Rightarrow> word64 \<Rightarrow> hash_table option" where
  "insertHashTable t key data = insertHashTable_with hashWord t key data"

definition insertStrHashTable ::
  "(word8 list \<Rightarrow> word64) \<Rightarrow> (word64 \<Rightarrow> word8 list) \<Rightarrow> hash_table \<Rightarrow> word64 \<Rightarrow> word64 \<Rightarrow> hash_table option" where
  "insertStrHashTable xxh str t key data = insertHashTable_with (hashStr xxh str) t key data"

text \<open>The loop of the removal: the data of the cell taken out, with the chain that is left.\<close>

primrec chain_remove :: "compare_fun \<Rightarrow> word64 \<Rightarrow> word64 \<Rightarrow> hcell list \<Rightarrow> (word64 \<times> hcell list) option" where
  "chain_remove cmp key data [] = None"
| "chain_remove cmp key data (hl # next) =
    (if cmp (fst hl) key \<and> (data = 0 \<or> snd hl = data) then Some (snd hl, next)
     else map_option (\<lambda>(d, next'). (d, hl # next')) (chain_remove cmp key data next))"

definition removeHashTable_with ::
  "hash_fun \<Rightarrow> compare_fun \<Rightarrow> hash_table \<Rightarrow> word64 \<Rightarrow> word64 \<Rightarrow> (word64 \<times> hash_table) option" where
  "removeHashTable_with f cmp t key data =
    (let bucket = f t key; segment = bucket div HSEGSIZE; index = bucket mod HSEGSIZE
     in case get_bucket t segment index of
          None \<Rightarrow> None
        | Some cells \<Rightarrow>
            (case chain_remove cmp key data cells of
               None \<Rightarrow> Some (0, t)
             | Some (d, cells') \<Rightarrow>
                 map_option (\<lambda>t'. (d, (freeHashList t')\<lparr>ht_kcount := ht_kcount t' - 1\<rparr>))
                   (set_bucket t segment index cells')))"

definition removeHashTable :: "hash_table \<Rightarrow> word64 \<Rightarrow> word64 \<Rightarrow> (word64 \<times> hash_table) option" where
  "removeHashTable t key data = removeHashTable_with hashWord compareWord t key data"

definition removeStrHashTable :: "(word8 list \<Rightarrow> word64) \<Rightarrow> (word64 \<Rightarrow> word8 list) \<Rightarrow> hash_table \<Rightarrow> word64 \<Rightarrow> word64
    \<Rightarrow> (word64 \<times> hash_table) option" where
  "removeStrHashTable xxh str t key data = removeHashTable_with (hashStr xxh str) (compareStr str) t key data"

text \<open>
  The two nested loops of the traversals, which run down from the last bucket: the buckets
  \<open>index - 1\<close> down to 0 of one segment, then the segments below it in full.
\<close>

primrec walk_segment :: "hash_table \<Rightarrow> nat \<Rightarrow> nat \<Rightarrow> hcell list option" where
  "walk_segment t segment 0 = Some []"
| "walk_segment t segment (Suc index) =
    (case get_bucket t segment index of
       None \<Rightarrow> None
     | Some cells \<Rightarrow> map_option ((@) cells) (walk_segment t segment index))"

primrec walk_down :: "hash_table \<Rightarrow> nat \<Rightarrow> nat \<Rightarrow> hcell list option" where
  "walk_down t 0 index = Some []"
| "walk_down t (Suc segment) index =
    (case walk_segment t segment index of
       None \<Rightarrow> None
     | Some cells \<Rightarrow> map_option ((@) cells) (walk_down t segment HSEGSIZE))"

definition table_walk :: "hash_table \<Rightarrow> hcell list option" where
  "table_walk t =
    (let l = ht_max t + ht_split t - 1 in walk_down t (l div HSEGSIZE + 1) (l mod HSEGSIZE + 1))"

definition keysHashTable :: "hash_table \<Rightarrow> nat \<Rightarrow> word64 list option" where
  "keysHashTable t szKeys = map_option (\<lambda>cells. take szKeys (map fst cells)) (table_walk t)"

definition mapHashTable :: "hash_table \<Rightarrow> 'a \<Rightarrow> ('a \<Rightarrow> word64 \<Rightarrow> word64 \<Rightarrow> 'a) \<Rightarrow> 'a option" where
  "mapHashTable t data fn = map_option (foldl (\<lambda>a hl. fn a (fst hl) (snd hl)) data) (table_walk t)"

primrec iter_cells :: "('a \<Rightarrow> word64 \<Rightarrow> word64 \<Rightarrow> bool \<times> 'a) \<Rightarrow> 'a \<Rightarrow> hcell list \<Rightarrow> 'a" where
  "iter_cells fn data [] = data"
| "iter_cells fn data (hl # next) =
    (case fn data (fst hl) (snd hl) of (continue, data') \<Rightarrow> if continue then iter_cells fn data' next else data')"

definition iterHashTable :: "hash_table \<Rightarrow> 'a \<Rightarrow> ('a \<Rightarrow> word64 \<Rightarrow> word64 \<Rightarrow> bool \<times> 'a) \<Rightarrow> 'a option" where
  "iterHashTable t data fn = map_option (iter_cells fn data) (table_walk t)"

text \<open>What \<open>freeHashTable\<close> passes to \<open>freeDataFun\<close> (nothing without one), with the numbers of
  segments and of chunks it returns to the allocator.\<close>

definition freeHashTable :: "hash_table \<Rightarrow> bool \<Rightarrow> (word64 list \<times> nat \<times> nat) option" where
  "freeHashTable t freeDataFun =
    (let segments = (ht_max t + ht_split t - 1) div HSEGSIZE + 1
     in if freeDataFun then map_option (\<lambda>cells. (map snd cells, segments, ht_chunks t)) (table_walk t)
        else Some ([], segments, ht_chunks t))"

definition allocHashTable :: hash_table where
  "allocHashTable =
    \<lparr>ht_split = 0, ht_max = HSEGSIZE, ht_mask1 = HSEGSIZE - 1, ht_mask2 = 2 * HSEGSIZE - 1,
     ht_kcount = 0, ht_bcount = int HSEGSIZE,
     ht_dir = (\<lambda>segment. if segment = 0 then Some (\<lambda>index. if index < HSEGSIZE then Some [] else None) else None),
     ht_free = 0, ht_chunks = 0\<rparr>"

definition keyCountHashTable :: "hash_table \<Rightarrow> int" where
  "keyCountHashTable t = ht_kcount t"

definition insertHashSet :: "hash_table \<Rightarrow> word64 \<Rightarrow> hash_table option" where
  "insertHashSet t key = insertHashTable t key 0"


section \<open>Buckets and contents\<close>

definition bucket_at :: "hash_table \<Rightarrow> nat \<Rightarrow> hcell list option" where
  "bucket_at t b = get_bucket t (b div HSEGSIZE) (b mod HSEGSIZE)"

definition ht_size :: "hash_table \<Rightarrow> nat" where
  "ht_size t = ht_max t + ht_split t"

definition ht_cells :: "hash_table \<Rightarrow> hcell list" where
  "ht_cells t = concat (map (\<lambda>b. the (bucket_at t b)) [0..<ht_size t])"

text \<open>The sizes and masks of a table.\<close>

definition ht_sizes :: "hash_table \<Rightarrow> bool" where
  "ht_sizes t = ((\<exists>i \<le> 10. ht_max t = 2 ^ (10 + i)) \<and> ht_split t < ht_max t \<and> ht_size t \<le> 2 ^ 20 \<and>
     ht_mask1 t = ht_max t - 1 \<and> ht_mask2 t = 2 * ht_max t - 1 \<and> ht_bcount t = int (ht_size t))"

text \<open>All buckets in use are written.\<close>

definition ht_shape :: "hash_table \<Rightarrow> bool" where
  "ht_shape t = (ht_sizes t \<and> (\<forall>b < ht_size t. bucket_at t b \<noteq> None))"

definition ht_placed :: "hash_fun \<Rightarrow> hash_table \<Rightarrow> bool" where
  "ht_placed f t = (\<forall>b < ht_size t. \<forall>c \<in> set (the (bucket_at t b)). f t (fst c) = b)"

text \<open>No cell is lost: each is in a bucket or on the free list.\<close>

definition ht_account :: "hash_table \<Rightarrow> bool" where
  "ht_account t = (ht_kcount t = int (length (ht_cells t)) \<and> length (ht_cells t) + ht_free t = ht_chunks t * HCHUNK)"

definition ht_holds :: "hash_fun \<Rightarrow> hash_table \<Rightarrow> hcell multiset \<Rightarrow> bool" where
  "ht_holds f t M = (ht_shape t \<and> ht_placed f t \<and> ht_account t \<and> mset (ht_cells t) = M)"

lemma HSEGSIZE_pos [simp]: "0 < HSEGSIZE"
  by (simp add: HSEGSIZE_def)

lemma bucket_index_eq: "b div HSEGSIZE = b' div HSEGSIZE \<Longrightarrow> b mod HSEGSIZE = b' mod HSEGSIZE \<Longrightarrow> b = b'"
  by (metis div_mult_mod_eq)

lemma get_bucket_at [simp]: "get_bucket t (b div HSEGSIZE) (b mod HSEGSIZE) = bucket_at t b"
  by (simp add: bucket_at_def)

lemma set_bucket_at:
  assumes "ht_dir t (b div HSEGSIZE) \<noteq> None"
  obtains t' where "set_bucket t (b div HSEGSIZE) (b mod HSEGSIZE) cells = Some t'"
    "\<And>b'. bucket_at t' b' = (if b' = b then Some cells else bucket_at t b')"
    "\<And>s. ht_dir t' s = None \<longleftrightarrow> ht_dir t s = None"
    "t' = t\<lparr>ht_dir := ht_dir t'\<rparr>"
proof -
  from assms obtain seg where seg: "ht_dir t (b div HSEGSIZE) = Some seg" by auto
  let ?t = "t\<lparr>ht_dir := (ht_dir t)(b div HSEGSIZE := Some (seg(b mod HSEGSIZE := Some cells)))\<rparr>"
  show ?thesis
  proof (rule that [of ?t])
    show "bucket_at ?t b' = (if b' = b then Some cells else bucket_at t b')" for b'
      using bucket_index_eq [of b' b] seg by (auto simp: bucket_at_def get_bucket_def)
  qed (use seg in \<open>auto simp: set_bucket_def\<close>)
qed

lemma bucket_at_dir: "bucket_at t b \<noteq> None \<Longrightarrow> ht_dir t (b div HSEGSIZE) \<noteq> None"
  by (auto simp: bucket_at_def get_bucket_def split: option.splits)

lemma mset_ht_cells: "mset (ht_cells t) = (\<Sum>b \<leftarrow> [0..<ht_size t]. mset (the (bucket_at t b)))"
  by (simp add: ht_cells_def mset_concat comp_def)

lemma sum_list_upt_split:
  "b < n \<Longrightarrow> (\<Sum>i \<leftarrow> [0..<n]. g i) = (g b :: 'a :: comm_monoid_add) + (\<Sum>i \<in> {0..<n} - {b}. g i)"
  by (simp add: interv_sum_list_conv_sum_set_nat sum.remove)

lemma ht_cells_update:
  assumes "b < ht_size t" "ht_size t' = ht_size t" "\<And>b'. b' \<noteq> b \<Longrightarrow> bucket_at t' b' = bucket_at t b'"
  shows "mset (ht_cells t') + mset (the (bucket_at t b)) = mset (ht_cells t) + mset (the (bucket_at t' b))"
proof -
  have "(\<Sum>i \<in> {0..<ht_size t} - {b}. mset (the (bucket_at t' i))) = (\<Sum>i \<in> {0..<ht_size t} - {b}. mset (the (bucket_at t i)))"
    by (rule sum.cong) (auto simp: assms(3))
  then show ?thesis
    using assms(1,2) by (simp add: mset_ht_cells sum_list_upt_split [where b = b] ac_simps)
qed

lemma set_ht_cells: "set (ht_cells t) = (\<Union>b \<in> {0..<ht_size t}. set (the (bucket_at t b)))"
  by (auto simp: ht_cells_def)

lemma mset_filter_compl: "mset (filter (\<lambda>c. \<not> P c) xs) + mset (filter P xs) = mset xs"
  by (induction xs) auto

lemma split_chain_spec:
  "split_chain P cells on = (o', n') \<Longrightarrow>
    mset o' = mset (filter (\<lambda>c. \<not> P (fst c)) cells) + mset (fst on) \<and>
    mset n' = mset (filter (\<lambda>c. P (fst c)) cells) + mset (snd on)"
  by (induction cells arbitrary: on) (auto split: if_splits)

lemma unat_and_mask: "unat (w AND of_nat (2 ^ n - 1) :: word64) = unat w mod 2 ^ n"
proof -
  have "(of_nat (2 ^ n - 1) :: word64) = mask n"
    by (simp add: mask_eq_exp_minus_1 of_nat_diff)
  then have "unat (w AND of_nat (2 ^ n - 1) :: word64) = unat (take_bit n w)" by (simp only: take_bit_eq_mask)
  also have "\<dots> = unat w mod 2 ^ n" by (simp only: unsigned_take_bit_eq) (simp only: take_bit_eq_mod)
  finally show ?thesis .
qed

lemma linear_hash_sizes:
  assumes "ht_sizes t"
  shows "linear_hash t h = (if unat h mod ht_max t < ht_split t then unat h mod (2 * ht_max t) else unat h mod ht_max t)"
proof -
  from assms obtain i where i: "ht_max t = 2 ^ (10 + i)" by (auto simp: ht_sizes_def)
  have m: "ht_mask1 t = 2 ^ (10 + i) - 1" "ht_mask2 t = 2 ^ (11 + i) - 1"
    using assms i by (auto simp: ht_sizes_def power_add)
  show ?thesis
    unfolding linear_hash_def Let_def m unat_and_mask i by (simp add: power_add)
qed

lemma mod_double: "(a :: nat) mod (2 * m) = a mod m \<or> a mod (2 * m) = a mod m + m"
proof -
  have "a mod (m * 2) = m * (a div m mod 2) + a mod m" by (rule mod_mult2_eq)
  moreover have "a div m mod 2 = 0 \<or> a div m mod 2 = 1" by auto
  ultimately show ?thesis by (auto simp: mult.commute)
qed

lemma mod_of_double: "(a :: nat) mod (2 * m) mod m = a mod m"
  by (simp add: mod_mod_cancel)

lemma linear_hash_less:
  assumes "ht_sizes t"
  shows "linear_hash t h < ht_size t"
proof -
  have p: "0 < ht_max t" using assms by (auto simp: ht_sizes_def)
  show ?thesis
    using mod_less_divisor [OF p, of "unat h"] mod_double [of "unat h" "ht_max t"]
    by (auto simp: linear_hash_sizes [OF assms] ht_size_def)
qed


lemma linear_hash_grow:
  assumes t: "ht_sizes t" and t': "ht_sizes t'"
    and g: "if ht_split t + 1 = ht_max t then ht_split t' = 0 \<and> ht_max t' = 2 * ht_max t
            else ht_split t' = ht_split t + 1 \<and> ht_max t' = ht_max t"
  shows "linear_hash t h \<noteq> ht_split t \<Longrightarrow> linear_hash t' h = linear_hash t h"
    "linear_hash t h = ht_split t \<Longrightarrow> linear_hash t' h = ht_split t \<or> linear_hash t' h = ht_max t + ht_split t"
proof -
  let ?m = "ht_max t" and ?s = "ht_split t"
  have p: "?s < ?m" "unat h mod ?m < ?m" using t by (auto simp: ht_sizes_def)
  have old: "linear_hash t h = (if unat h mod ?m < ?s then unat h mod (2 * ?m) else unat h mod ?m)"
    by (rule linear_hash_sizes [OF t])
  have new: "linear_hash t' h = (if unat h mod ?m < ?s + 1 then unat h mod (2 * ?m) else unat h mod ?m)"
    using g p unfolding linear_hash_sizes [OF t'] by (auto split: if_splits)
  have lo: "unat h mod (2 * ?m) = ?s \<Longrightarrow> unat h mod ?m = ?s"
    using p(1) mod_of_double [of "unat h" ?m] by simp
  show "linear_hash t h \<noteq> ?s \<Longrightarrow> linear_hash t' h = linear_hash t h"
    unfolding old new by (auto simp: less_Suc_eq)
  show "linear_hash t h = ?s \<Longrightarrow> linear_hash t' h = ?s \<or> linear_hash t' h = ?m + ?s"
    unfolding old new using mod_double [of "unat h" ?m] lo by (auto simp: less_Suc_eq split: if_splits)
qed

lemma expand_sizes_fields:
  "ht_kcount (expand_sizes t) = ht_kcount t" "ht_free (expand_sizes t) = ht_free t"
  "ht_chunks (expand_sizes t) = ht_chunks t" "ht_bcount (expand_sizes t) = ht_bcount t + 1"
  "ht_split (expand_sizes t) = (if ht_split t + 1 = ht_max t then 0 else ht_split t + 1)"
  "ht_max (expand_sizes t) = (if ht_split t + 1 = ht_max t then 2 * ht_max t else ht_max t)"
  "ht_mask1 (expand_sizes t) = (if ht_split t + 1 = ht_max t then ht_mask2 t else ht_mask1 t)"
  "ht_mask2 (expand_sizes t) = (if ht_split t + 1 = ht_max t then ht_mask2 t * 2 + 1 else ht_mask2 t)"
  by (auto simp: expand_sizes_def Let_def allocSegment_def)

lemma expand_sizes_size: "ht_sizes t \<Longrightarrow> ht_size (expand_sizes t) = ht_size t + 1"
  by (auto simp: expand_sizes_fields ht_size_def)

lemma expand_sizes_ok:
  assumes t: "ht_sizes t" and small: "ht_size t < 2 ^ 20"
  shows "ht_sizes (expand_sizes t)"
proof -
  obtain i where i: "i \<le> 10" "ht_max t = 2 ^ (10 + i)" using t by (auto simp: ht_sizes_def)
  have "i < 10 \<or> i = 10" using i by auto
  then have i': "i < 10" using small i by (auto simp: ht_size_def)
  have "\<exists>j \<le> 10. ht_max (expand_sizes t) = 2 ^ (10 + j)"
  proof (cases "ht_split t + 1 = ht_max t")
    case True
    then show ?thesis using i i' by (intro exI [of _ "Suc i"]) (simp add: expand_sizes_fields power_add)
  next
    case False
    then show ?thesis using i by (intro exI [of _ i]) (simp add: expand_sizes_fields)
  qed
  moreover have "ht_size (expand_sizes t) \<le> 2 ^ 20" using expand_sizes_size [OF t] small by simp
  ultimately show ?thesis
    using t expand_sizes_size [OF t]
    by (auto simp: ht_sizes_def expand_sizes_fields Suc_lessI)
qed

lemma expand_sizes_bucket:
  assumes "b < ht_size t"
  shows "bucket_at (expand_sizes t) b = bucket_at t b"
proof -
  have "b div HSEGSIZE \<noteq> ht_size t div HSEGSIZE" if "ht_size t mod HSEGSIZE = 0"
  proof
    assume "b div HSEGSIZE = ht_size t div HSEGSIZE"
    then have "ht_size t \<le> b" using that by (metis add.right_neutral div_mult_mod_eq div_times_less_eq_dividend)
    with assms show False by simp
  qed
  then show ?thesis
    by (auto simp: expand_sizes_def Let_def bucket_at_def get_bucket_def allocSegment_def ht_size_def)
qed

lemma expand_sizes_newdir:
  assumes "ht_shape t"
  shows "ht_dir (expand_sizes t) (ht_size t div HSEGSIZE) \<noteq> None"
proof (cases "ht_size t mod HSEGSIZE = 0")
  case False
  then obtain n where n: "ht_size t = Suc n" by (metis mod_0 not0_implies_Suc)
  with False have "n div HSEGSIZE = ht_size t div HSEGSIZE" by (simp add: div_Suc)
  moreover have "ht_dir t (n div HSEGSIZE) \<noteq> None"
    using assms n by (intro bucket_at_dir) (auto simp: ht_shape_def)
  ultimately show ?thesis using False by (simp add: expand_sizes_def Let_def ht_size_def)
qed (simp add: expand_sizes_def Let_def allocSegment_def ht_size_def)

section \<open>Hash functions as an interface\<close>

text \<open>A hash function of the table places a key by a hash value of its own.\<close>

locale linear_hashing =
  fixes f :: hash_fun and h :: "word64 \<Rightarrow> word64"
  assumes hash: "f t key = linear_hash t (h key)"
begin

lemma hash_less: "ht_sizes t \<Longrightarrow> f t key < ht_size t"
  by (simp add: hash linear_hash_less)

lemma hash_cong:
  "ht_split t' = ht_split t \<Longrightarrow> ht_mask1 t' = ht_mask1 t \<Longrightarrow> ht_mask2 t' = ht_mask2 t \<Longrightarrow> f t' key = f t key"
  by (simp add: hash linear_hash_def Let_def)

lemma cells_of_key:
  assumes "ht_shape t" "ht_placed f t" "c \<in> set (ht_cells t)"
  shows "c \<in> set (the (bucket_at t (f t (fst c))))"
  using assms by (auto simp: set_ht_cells ht_placed_def)

lemma expand_step:
  assumes shape: "ht_shape t" and small: "ht_size t < 2 ^ 20"
  obtains t' old new where "expand f t = Some t'"
    "\<exists>dir. t' = (expand_sizes t)\<lparr>ht_dir := dir\<rparr>"
    "\<And>b. bucket_at t' b = (if b = ht_size t then Some new else if b = ht_split t then Some old
      else bucket_at (expand_sizes t) b)"
    "split_chain (\<lambda>k. f t' k = ht_size t) (the (bucket_at t (ht_split t))) ([], []) = (old, new)"
proof -
  let ?s = "ht_split t" and ?n = "ht_size t" and ?t = "expand_sizes t"
  have p: "?s < ?n" using shape by (auto simp: ht_shape_def ht_sizes_def ht_size_def)
  then obtain cells where "bucket_at t ?s = Some cells" using shape by (fastforce simp: ht_shape_def)
  then have cells: "bucket_at ?t ?s = Some cells" "the (bucket_at t ?s) = cells"
    using expand_sizes_bucket [OF p] by auto
  obtain old new where on: "split_chain (\<lambda>k. f ?t k = ?n) cells ([], []) = (old, new)" by fastforce
  have d1: "ht_dir ?t (?s div HSEGSIZE) \<noteq> None" using cells(1) bucket_at_dir by blast
  obtain t1 where t1: "set_bucket ?t (?s div HSEGSIZE) (?s mod HSEGSIZE) old = Some t1"
    "\<And>b. bucket_at t1 b = (if b = ?s then Some old else bucket_at ?t b)"
    "\<And>s. ht_dir t1 s = None \<longleftrightarrow> ht_dir ?t s = None" "t1 = ?t\<lparr>ht_dir := ht_dir t1\<rparr>"
    by (rule set_bucket_at [OF d1, of old]) (rule that)
  have d2: "ht_dir t1 (?n div HSEGSIZE) \<noteq> None" using expand_sizes_newdir [OF shape] t1(3) by simp
  obtain t2 where t2: "set_bucket t1 (?n div HSEGSIZE) (?n mod HSEGSIZE) new = Some t2"
    "\<And>b. bucket_at t2 b = (if b = ?n then Some new else bucket_at t1 b)" "t2 = t1\<lparr>ht_dir := ht_dir t2\<rparr>"
    by (rule set_bucket_at [OF d2, of new]) (rule that)
  have dir: "t2 = ?t\<lparr>ht_dir := ht_dir t2\<rparr>"
    by (subst t2(3), subst t1(4)) simp
  have f2: "f t2 key = f ?t key" for key by (rule hash_cong) (subst dir, simp)+
  have "HDIRSIZE * HSEGSIZE = 2 ^ 20" by (simp add: HDIRSIZE_def HSEGSIZE_def)
  then have "\<not> HDIRSIZE * HSEGSIZE \<le> ht_split t + ht_max t" using small by (simp add: ht_size_def)
  then have "expand f t = Some t2"
    using cells(1) on t1(1) t2(1) by (simp add: expand_def Let_def ht_size_def)
  then show ?thesis
    by (rule that) (use dir t1(2) t2(2) on f2 cells(2) in auto)
qed



lemma expand_ok:
  assumes shape: "ht_shape t" and pl: "ht_placed f t"
  shows "\<exists>t'. expand f t = Some t' \<and> ht_shape t' \<and> ht_placed f t' \<and> mset (ht_cells t') = mset (ht_cells t) \<and>
    ht_kcount t' = ht_kcount t \<and> ht_free t' = ht_free t \<and> ht_chunks t' = ht_chunks t \<and>
    ht_bcount t' = (if ht_size t < 2 ^ 20 then ht_bcount t + 1 else ht_bcount t)"
proof (cases "ht_size t < 2 ^ 20")
  case False
  then have "expand f t = Some t"
    by (simp add: expand_def ht_size_def HDIRSIZE_def HSEGSIZE_def add.commute)
  with False shape pl show ?thesis by auto
next
  case True
  let ?s = "ht_split t" and ?n = "ht_size t"
  obtain t' old new where e': "expand f t = Some t'" "\<exists>dir. t' = (expand_sizes t)\<lparr>ht_dir := dir\<rparr>"
    "\<And>b. bucket_at t' b = (if b = ?n then Some new else if b = ?s then Some old else bucket_at (expand_sizes t) b)"
    "split_chain (\<lambda>k. f t' k = ?n) (the (bucket_at t ?s)) ([], []) = (old, new)"
    by (rule expand_step [OF shape True]) (rule that)
  have "mset old = mset (filter (\<lambda>c. f t' (fst c) \<noteq> ?n) (the (bucket_at t ?s)))"
    "mset new = mset (filter (\<lambda>c. f t' (fst c) = ?n) (the (bucket_at t ?s)))"
    using split_chain_spec [OF e'(4)] by auto
  note e = e'(1-3) this
  note fld = expand_sizes_fields [of t]
  have sz: "ht_sizes t" using shape by (simp add: ht_shape_def)
  have fs: "ht_split t' = ht_split (expand_sizes t)" "ht_max t' = ht_max (expand_sizes t)"
    "ht_size t' = ?n + 1" "ht_kcount t' = ht_kcount t" "ht_free t' = ht_free t" "ht_chunks t' = ht_chunks t"
    "ht_bcount t' = ht_bcount t + 1"
    using e(2) fld expand_sizes_size [OF sz] by (auto simp: ht_size_def)
  have sz': "ht_sizes t'" using expand_sizes_ok [OF sz True] e(2) by (auto simp: ht_sizes_def ht_size_def)
  have p: "?s < ?n" using sz by (auto simp: ht_sizes_def ht_size_def)
  have b: "bucket_at t' b = (if b = ?s then Some old else bucket_at t b)" if "b < ?n" for b
    using e(3) expand_sizes_bucket [OF that] that by auto
  have shape': "ht_shape t'"
    unfolding ht_shape_def using sz' shape b e(3) by (auto simp: fs(3) less_Suc_eq ht_shape_def)
  have cells: "mset (ht_cells t') = mset (ht_cells t)"
  proof -
    have "(\<Sum>i \<in> {0..<?n} - {?s}. mset (the (bucket_at t' i))) = (\<Sum>i \<in> {0..<?n} - {?s}. mset (the (bucket_at t i)))"
      by (rule sum.cong) (auto simp: b)
    moreover have "mset old + mset new = mset (the (bucket_at t ?s))"
      unfolding e(4,5) by (rule mset_filter_compl)
    ultimately show ?thesis
      using p b [OF p] e(3) by (simp add: mset_ht_cells fs(3) sum_list_upt_split [where b = ?s] ac_simps)
  qed
  have grow: "if ?s + 1 = ht_max t then ht_split t' = 0 \<and> ht_max t' = 2 * ht_max t
      else ht_split t' = ?s + 1 \<and> ht_max t' = ht_max t"
    using fs fld by auto
  note g = linear_hash_grow [OF sz sz' grow, folded ht_size_def, folded hash]
  have "ht_placed f t'"
    unfolding ht_placed_def
  proof (intro allI impI ballI)
    fix b' c
    assume b': "b' < ht_size t'" and c: "c \<in> set (the (bucket_at t' b'))"
    consider "b' = ?n" | "b' = ?s" | "b' < ?n" "b' \<noteq> ?s" using b' fs(3) by linarith
    then show "f t' (fst c) = b'"
    proof cases
      case 1
      then have "c \<in># mset new" using c e(3) by simp
      with 1 show ?thesis by (simp add: e(5))
    next
      case 2
      then have "c \<in># mset old" using c b p by simp
      then have c': "c \<in> set (the (bucket_at t ?s))" "f t' (fst c) \<noteq> ?n" by (auto simp: e(4))
      then have "f t (fst c) = ?s" using pl p by (auto simp: ht_placed_def)
      with g(2) c' 2 show ?thesis by (auto simp: hash ht_size_def)
    next
      case 3
      then have "f t (fst c) = b'" using c b pl by (auto simp: ht_placed_def)
      with g(1) 3 show ?thesis by (auto simp: hash)
    qed
  qed
  with e(1) shape' cells fs True show ?thesis by auto
qed

text \<open>What each operation does to the contents.\<close>

lemma bucket_of_key:
  assumes "ht_holds f t M"
  obtains cells where "bucket_at t (f t key) = Some cells" "f t key < ht_size t"
    "ht_dir t (f t key div HSEGSIZE) \<noteq> None"
proof -
  from assms have "f t key < ht_size t" by (intro hash_less) (simp add: ht_holds_def ht_shape_def)
  moreover from this assms obtain cells where "bucket_at t (f t key) = Some cells"
    by (fastforce simp: ht_holds_def ht_shape_def)
  ultimately show ?thesis using bucket_at_dir that by (metis option.distinct(1))
qed

lemma put_bucket_ok:
  assumes t: "ht_shape t" "ht_placed f t" and b: "b < ht_size t"
    and cells: "\<forall>c \<in> set cells. f t (fst c) = b"
  obtains t' where "set_bucket t (b div HSEGSIZE) (b mod HSEGSIZE) cells = Some t'" "ht_shape t'" "ht_placed f t'"
    "mset (ht_cells t') + mset (the (bucket_at t b)) = mset (ht_cells t) + mset cells"
    "t' = t\<lparr>ht_dir := ht_dir t'\<rparr>" "bucket_at t' b = Some cells"
proof -
  have d: "ht_dir t (b div HSEGSIZE) \<noteq> None" using t(1) b by (intro bucket_at_dir) (auto simp: ht_shape_def)
  obtain t' where t': "set_bucket t (b div HSEGSIZE) (b mod HSEGSIZE) cells = Some t'"
    "\<And>b'. bucket_at t' b' = (if b' = b then Some cells else bucket_at t b')"
    "\<And>s. ht_dir t' s = None \<longleftrightarrow> ht_dir t s = None" "t' = t\<lparr>ht_dir := ht_dir t'\<rparr>"
    by (rule set_bucket_at [OF d, of cells]) (rule that)
  have fl: "ht_split t' = ht_split t" "ht_max t' = ht_max t" "ht_mask1 t' = ht_mask1 t" "ht_mask2 t' = ht_mask2 t"
    "ht_bcount t' = ht_bcount t" by (subst t'(4), simp)+
  then have s: "ht_size t' = ht_size t" by (simp add: ht_size_def)
  have ft: "f t' key = f t key" for key by (rule hash_cong) (simp_all add: fl)
  show ?thesis
  proof (rule that [OF t'(1) _ _ _ t'(4)])
    show "ht_shape t'" using t(1) t'(2) by (auto simp: ht_shape_def ht_sizes_def s fl)
    show "ht_placed f t'" using t(2) cells by (auto simp: ht_placed_def s t'(2) ft split: if_splits)
    show "mset (ht_cells t') + mset (the (bucket_at t b)) = mset (ht_cells t) + mset cells"
      using ht_cells_update [OF b s] t'(2) by auto
  qed (simp add: t'(2))
qed

lemma insert_ok:
  assumes t: "ht_holds f t M"
  shows "\<exists>t'. insertHashTable_with f t key data = Some t' \<and> ht_holds f t' (add_mset (key, data) M) \<and>
    (\<exists>cells. bucket_at t' (f t' key) = Some ((key, data) # cells)) \<and>
    ht_bcount t' = (if HLOAD * ht_bcount t \<le> ht_kcount t + 1 \<and> ht_size t < 2 ^ 20 then ht_bcount t + 1 else ht_bcount t)"
proof -
  let ?t1 = "t\<lparr>ht_kcount := ht_kcount t + 1\<rparr>"
  have same: "bucket_at ?t1 b = bucket_at t b" "ht_size ?t1 = ht_size t" for b
    by (auto simp: bucket_at_def get_bucket_def ht_size_def)
  have f1: "f ?t1 k = f t k" for k by (rule hash_cong) auto
  have 1: "ht_shape ?t1" "ht_placed f ?t1" "mset (ht_cells ?t1) = M"
    using t same f1 by (auto simp: ht_holds_def ht_shape_def ht_sizes_def ht_placed_def ht_cells_def)
  obtain t2 where t2: "(if ht_kcount ?t1 \<ge> HLOAD * ht_bcount ?t1 then expand f ?t1 else Some ?t1) = Some t2"
    "ht_shape t2" "ht_placed f t2" "mset (ht_cells t2) = M" "ht_kcount t2 = ht_kcount t + 1"
    "ht_free t2 = ht_free t" "ht_chunks t2 = ht_chunks t"
    "ht_bcount t2 = (if HLOAD * ht_bcount t \<le> ht_kcount t + 1 \<and> ht_size t < 2 ^ 20 then ht_bcount t + 1 else ht_bcount t)"
    using expand_ok [OF 1(1,2)] 1 same(2) by (cases "ht_kcount ?t1 \<ge> HLOAD * ht_bcount ?t1") auto
  let ?t3 = "allocHashList t2"
  have fl3: "ht_split ?t3 = ht_split t2" "ht_max ?t3 = ht_max t2" "ht_mask1 ?t3 = ht_mask1 t2" "ht_mask2 ?t3 = ht_mask2 t2"
    "ht_bcount ?t3 = ht_bcount t2" "ht_kcount ?t3 = ht_kcount t2" "ht_dir ?t3 = ht_dir t2"
    by (simp_all add: allocHashList_def)
  have f3: "f ?t3 k = f t2 k" for k by (rule hash_cong) (simp_all add: fl3)
  have same3: "bucket_at ?t3 b = bucket_at t2 b" "ht_size ?t3 = ht_size t2" for b
    by (simp_all add: bucket_at_def get_bucket_def ht_size_def fl3)
  have 3: "ht_shape ?t3" "ht_placed f ?t3" "ht_cells ?t3 = ht_cells t2"
    using t2(2,3) same3 f3 fl3 by (auto simp: ht_shape_def ht_sizes_def ht_placed_def ht_cells_def)
  have b: "f t2 key < ht_size ?t3" using t2(2) hash_less same3 by (simp add: ht_shape_def)
  then obtain cells where cells: "bucket_at ?t3 (f t2 key) = Some cells" using 3(1) by (fastforce simp: ht_shape_def)
  have pc: "\<forall>c \<in> set ((key, data) # cells). f ?t3 (fst c) = f t2 key"
    using 3(2) b cells by (auto simp: ht_placed_def f3)
  obtain t4 where t4: "set_bucket ?t3 (f t2 key div HSEGSIZE) (f t2 key mod HSEGSIZE) ((key, data) # cells) = Some t4"
    "ht_shape t4" "ht_placed f t4"
    "mset (ht_cells t4) + mset (the (bucket_at ?t3 (f t2 key))) = mset (ht_cells ?t3) + mset ((key, data) # cells)"
    "t4 = ?t3\<lparr>ht_dir := ht_dir t4\<rparr>" "bucket_at t4 (f t2 key) = Some ((key, data) # cells)"
    by (rule put_bucket_ok [OF 3(1,2) b pc]) (rule that)
  have fl4: "ht_split t4 = ht_split t2" "ht_mask1 t4 = ht_mask1 t2" "ht_mask2 t4 = ht_mask2 t2"
    "ht_kcount t4 = ht_kcount t + 1" "ht_free t4 = ht_free ?t3" "ht_chunks t4 = ht_chunks ?t3" "ht_bcount t4 = ht_bcount t2"
    by (subst t4(5), simp add: fl3 t2(5))+
  have M: "mset (ht_cells t4) = add_mset (key, data) M" using t4(4) cells 3(3) t2(4) by simp
  then have len: "length (ht_cells t4) = Suc (length (ht_cells t))"
    using t by (metis ht_holds_def size_add_mset size_mset)
  have acc: "ht_kcount t = int (length (ht_cells t))" "length (ht_cells t) + ht_free t2 = ht_chunks t2 * HCHUNK"
    using t t2(6,7) by (auto simp: ht_holds_def ht_account_def)
  have "0 < HCHUNK" by (simp add: HCHUNK_def)
  then have "ht_account t4"
    using acc len by (auto simp: ht_account_def fl4 allocHashList_def add.commute)
  moreover have "insertHashTable_with f t key data = Some t4"
    using t2(1) cells t4(1) by (simp add: insertHashTable_with_def Let_def)
  moreover have "f t4 key = f t2 key" by (rule hash_cong) (simp_all add: fl4)
  ultimately show ?thesis using t4(2,3,6) M t2(8) fl4(7) by (auto simp: ht_holds_def)
qed

lemma lookup_ok:
  assumes t: "ht_holds f t M" and cmp: "\<And>k k'. cmp k k' \<Longrightarrow> h k = h k'"
  shows "\<exists>d. lookupHashTable_with f cmp t key = Some d \<and>
    (if \<exists>c \<in># M. cmp (fst c) key then \<exists>c \<in># M. cmp (fst c) key \<and> d = snd c else d = 0)"
proof -
  obtain cells where cells: "bucket_at t (f t key) = Some cells" "f t key < ht_size t" by (rule bucket_of_key [OF t])
  have "set cells \<subseteq> set (ht_cells t)" using cells by (force simp: set_ht_cells)
  then have sub: "set cells \<subseteq> set_mset M" using t by (auto simp: ht_holds_def)
  have sup: "c \<in> set cells" if "c \<in># M" "cmp (fst c) key" for c
  proof -
    have "c \<in> set (ht_cells t)" using t that(1) by (auto simp: ht_holds_def)
    then have "c \<in> set (the (bucket_at t (f t (fst c))))"
      using t by (intro cells_of_key) (auto simp: ht_holds_def)
    moreover have "f t (fst c) = f t key" using cmp [OF that(2)] by (simp add: hash)
    ultimately show ?thesis using cells by simp
  qed
  have "if \<exists>c \<in> set cells. cmp (fst c) key then \<exists>c \<in> set cells. cmp (fst c) key \<and> chain_lookup cmp key cells = snd c
    else chain_lookup cmp key cells = 0"
    by (induction cells) auto
  then show ?thesis using sub sup cells by (auto simp: lookupHashTable_with_def Let_def split: if_splits)
qed

lemma remove_ok:
  fixes key data :: word64
  assumes t: "ht_holds f t M" and cmp: "\<And>k k'. cmp k k' \<Longrightarrow> h k = h k'"
  defines "P \<equiv> \<lambda>c. cmp (fst c) key \<and> (data = 0 \<or> snd c = data)"
  shows "\<exists>r. removeHashTable_with f cmp t key data = Some r \<and>
    (if \<exists>c \<in># M. P c then \<exists>c \<in># M. P c \<and> fst r = snd c \<and> ht_holds f (snd r) (M - {#c#}) else r = (0, t))"
proof -
  obtain cells where cells: "bucket_at t (f t key) = Some cells" "f t key < ht_size t" by (rule bucket_of_key [OF t])
  have "set cells \<subseteq> set (ht_cells t)" using cells by (force simp: set_ht_cells)
  then have sub: "set cells \<subseteq> set_mset M" using t by (auto simp: ht_holds_def)
  have sup: "c \<in> set cells" if "c \<in># M" "P c" for c
  proof -
    have "c \<in> set (ht_cells t)" using t that(1) by (auto simp: ht_holds_def)
    then have "c \<in> set (the (bucket_at t (f t (fst c))))"
      using t by (intro cells_of_key) (auto simp: ht_holds_def)
    moreover have "cmp (fst c) key" using that(2) by (simp add: P_def)
    then have "f t (fst c) = f t key" using cmp by (simp add: hash)
    ultimately show ?thesis using cells by simp
  qed
  show ?thesis
  proof (cases "chain_remove cmp key data cells")
    case None
    then have "\<forall>c \<in> set cells. \<not> P c"
      by (induction cells) (auto simp: P_def split: if_splits)
    with sup None cells show ?thesis by (auto simp: removeHashTable_with_def Let_def)
  next
    case (Some r)
    then obtain d cells' where r: "chain_remove cmp key data cells = Some (d, cells')" by (cases r) auto
    from r have "\<exists>c \<in> set cells. P c \<and> d = snd c \<and> mset cells = add_mset c (mset cells')"
      by (induction cells arbitrary: cells') (auto simp: P_def split: if_splits)
    then obtain c where c: "c \<in> set cells" "P c" "d = snd c" "mset cells = add_mset c (mset cells')" by blast
    have "set cells' \<subseteq> set cells" using c(4) by (metis set_mset_add_mset_insert set_mset_mset subset_insertI)
    moreover have "\<forall>c \<in> set (the (bucket_at t (f t key))). f t (fst c) = f t key"
      using t cells(2) unfolding ht_holds_def ht_placed_def by blast
    ultimately have pc: "\<forall>c \<in> set cells'. f t (fst c) = f t key" using cells(1) by auto
    have sp: "ht_shape t" "ht_placed f t" using t by (auto simp: ht_holds_def)
    obtain t' where t': "set_bucket t (f t key div HSEGSIZE) (f t key mod HSEGSIZE) cells' = Some t'"
      "ht_shape t'" "ht_placed f t'" "mset (ht_cells t') + mset (the (bucket_at t (f t key))) = mset (ht_cells t) + mset cells'"
      "t' = t\<lparr>ht_dir := ht_dir t'\<rparr>"
      by (rule put_bucket_ok [OF sp cells(2) pc]) (rule that)
    let ?t = "(freeHashList t')\<lparr>ht_kcount := ht_kcount t' - 1\<rparr>"
    have fl: "ht_split ?t = ht_split t'" "ht_max ?t = ht_max t'" "ht_mask1 ?t = ht_mask1 t'" "ht_mask2 ?t = ht_mask2 t'"
      "ht_bcount ?t = ht_bcount t'" "ht_dir ?t = ht_dir t'" by (simp_all add: freeHashList_def)
    have same: "bucket_at ?t b = bucket_at t' b" "ht_size ?t = ht_size t'" for b
      by (simp_all add: bucket_at_def get_bucket_def ht_size_def fl)
    have ft: "f ?t k = f t' k" for k by (rule hash_cong) (simp_all add: fl)
    have M: "mset (ht_cells t) = add_mset c (mset (ht_cells t'))" using t'(4) cells c(4) by simp
    then have len: "length (ht_cells t) = Suc (length (ht_cells t'))" by (metis size_add_mset size_mset)
    have "ht_kcount t' = ht_kcount t" "ht_free t' = ht_free t" "ht_chunks t' = ht_chunks t" by (subst t'(5), simp)+
    moreover have "ht_cells ?t = ht_cells t'" by (simp add: ht_cells_def same)
    ultimately have "ht_account ?t"
      using t len by (auto simp: ht_holds_def ht_account_def freeHashList_def)
    moreover have "ht_shape ?t" "ht_placed f ?t" using t'(2,3) by (auto simp: ht_shape_def ht_sizes_def ht_placed_def same ft fl)
    ultimately have "ht_holds f ?t (M - {#c#})"
      using t \<open>ht_cells ?t = ht_cells t'\<close> by (simp add: ht_holds_def M [unfolded t [unfolded ht_holds_def, THEN conjunct2, THEN conjunct2, THEN conjunct2]])
    moreover have "removeHashTable_with f cmp t key data = Some (d, ?t)"
      using cells r t'(1) by (simp add: removeHashTable_with_def Let_def)
    moreover have "c \<in># M" using c(1) sub by auto
    ultimately show ?thesis using c(2,3) by auto
  qed
qed

end


section \<open>Traversals\<close>

lemma walk_segment_buckets:
  assumes "n \<le> HSEGSIZE" "\<And>b. b \<in> {segment * HSEGSIZE..<segment * HSEGSIZE + n} \<Longrightarrow> bucket_at t b \<noteq> None"
  shows "walk_segment t segment n =
    Some (concat (map (\<lambda>b. the (bucket_at t b)) (rev [segment * HSEGSIZE..<segment * HSEGSIZE + n])))"
  using assms
proof (induction n)
  case (Suc n)
  then have n: "n < HSEGSIZE" by simp
  then have "get_bucket t segment n = bucket_at t (segment * HSEGSIZE + n)" by (simp add: bucket_at_def)
  moreover from Suc.prems(2) [of "segment * HSEGSIZE + n"] obtain cells where
    "bucket_at t (segment * HSEGSIZE + n) = Some cells" by auto
  moreover have "walk_segment t segment n =
    Some (concat (map (\<lambda>b. the (bucket_at t b)) (rev [segment * HSEGSIZE..<segment * HSEGSIZE + n])))"
    using Suc.prems by (intro Suc.IH) auto
  ultimately show ?case by simp
qed simp

lemma walk_down_buckets:
  assumes "n \<le> HSEGSIZE" "\<And>b. b < segment * HSEGSIZE + n \<Longrightarrow> bucket_at t b \<noteq> None"
  shows "walk_down t (Suc segment) n = Some (concat (map (\<lambda>b. the (bucket_at t b)) (rev [0..<segment * HSEGSIZE + n])))"
  using assms
proof (induction segment arbitrary: n)
  case 0
  then show ?case using walk_segment_buckets [of n 0 t] by simp
next
  case (Suc s)
  have "walk_down t (Suc s) HSEGSIZE =
    Some (concat (map (\<lambda>b. the (bucket_at t b)) (rev [0..<s * HSEGSIZE + HSEGSIZE])))"
    using Suc.prems(2) by (intro Suc.IH) auto
  moreover have "walk_segment t (Suc s) n =
    Some (concat (map (\<lambda>b. the (bucket_at t b)) (rev [Suc s * HSEGSIZE..<Suc s * HSEGSIZE + n])))"
    using Suc.prems by (intro walk_segment_buckets) auto
  moreover have "[0..<Suc s * HSEGSIZE + n] = [0..<s * HSEGSIZE + HSEGSIZE] @ [Suc s * HSEGSIZE..<Suc s * HSEGSIZE + n]"
    using upt_add_eq_append [of 0 "Suc s * HSEGSIZE" n] by (simp add: add.commute)
  ultimately show ?case by simp
qed

lemma table_walk_shape:
  assumes "ht_shape t"
  shows "table_walk t = Some (concat (map (\<lambda>b. the (bucket_at t b)) (rev [0..<ht_size t])))"
proof -
  have "0 < ht_size t" using assms by (auto simp: ht_shape_def ht_sizes_def ht_size_def)
  then have l: "(ht_size t - 1) div HSEGSIZE * HSEGSIZE + ((ht_size t - 1) mod HSEGSIZE + 1) = ht_size t"
    by (metis Suc_eq_plus1 Suc_pred' add_Suc_right div_mult_mod_eq)
  have "table_walk t = walk_down t (Suc ((ht_size t - 1) div HSEGSIZE)) ((ht_size t - 1) mod HSEGSIZE + 1)"
    by (simp add: table_walk_def Let_def ht_size_def)
  moreover have "(ht_size t - 1) mod HSEGSIZE + 1 \<le> HSEGSIZE"
    using mod_less_divisor [OF HSEGSIZE_pos, of "ht_size t - 1"] by linarith
  ultimately show ?thesis
    using walk_down_buckets [of "(ht_size t - 1) mod HSEGSIZE + 1" "(ht_size t - 1) div HSEGSIZE" t] assms
    unfolding l by (simp add: ht_shape_def)
qed

lemma walk_ok:
  assumes "ht_holds f t M"
  shows "\<exists>cells. table_walk t = Some cells \<and> mset cells = M"
proof -
  have "mset (concat (map (\<lambda>b. the (bucket_at t b)) (rev [0..<ht_size t]))) = mset (ht_cells t)"
    unfolding ht_cells_def by (simp add: mset_concat rev_map [symmetric] comp_def flip: sum_mset_sum_list)
  with assms table_walk_shape show ?thesis by (auto simp: ht_holds_def)
qed

lemma chain_lookup_cong: "(\<And>k. cmp k key = cmp k key') \<Longrightarrow> chain_lookup cmp key cells = chain_lookup cmp key' cells"
  by (induction cells) auto

section \<open>The table as an interface\<close>

text \<open>
  What the users of a table rely on: it holds a multiset of cells, a lookup finds a cell whose key
  compares equal when there is one, an insertion adds a cell and a removal takes one out.
\<close>

locale keyed_table =
  fixes holds :: "'t \<Rightarrow> hcell multiset \<Rightarrow> bool" and cmp :: compare_fun
    and look :: "'t \<Rightarrow> word64 \<Rightarrow> word64 option"
    and ins :: "'t \<Rightarrow> word64 \<Rightarrow> word64 \<Rightarrow> 't option"
    and rem :: "'t \<Rightarrow> word64 \<Rightarrow> word64 \<Rightarrow> (word64 \<times> 't) option"
  assumes look: "holds t M \<Longrightarrow> \<exists>d. look t k = Some d \<and>
      (if \<exists>c \<in># M. cmp (fst c) k then \<exists>c \<in># M. cmp (fst c) k \<and> d = snd c else d = 0)"
    and ins: "holds t M \<Longrightarrow> \<exists>t'. ins t k d = Some t' \<and> holds t' (add_mset (k, d) M)"
    and rem: "holds t M \<Longrightarrow> \<exists>r. rem t k d = Some r \<and>
      (if \<exists>c \<in># M. cmp (fst c) k \<and> (d = 0 \<or> snd c = d)
       then \<exists>c \<in># M. (cmp (fst c) k \<and> (d = 0 \<or> snd c = d)) \<and> fst r = snd c \<and> holds (snd r) (M - {#c#})
       else r = (0, t))"
begin

lemma look_present:
  assumes "holds t M" "c \<in># M" "cmp (fst c) k" "\<And>c'. c' \<in># M \<Longrightarrow> cmp (fst c') k \<Longrightarrow> snd c' = snd c"
  shows "look t k = Some (snd c)"
proof -
  have "\<exists>c \<in># M. cmp (fst c) k" using assms(2,3) by blast
  with look [OF assms(1), of k] obtain c' where "c' \<in># M" "cmp (fst c') k" "look t k = Some (snd c')" by auto
  with assms(4) show ?thesis by auto
qed

lemma look_absent: "holds t M \<Longrightarrow> \<not> (\<exists>c \<in># M. cmp (fst c) k) \<Longrightarrow> look t k = Some 0"
  using look [of t M k] by auto

lemma rem_present:
  assumes "holds t M" "c \<in># M" "cmp (fst c) k" "\<And>c'. c' \<in># M \<Longrightarrow> cmp (fst c') k \<Longrightarrow> c' = c"
  shows "\<exists>t'. rem t k 0 = Some (snd c, t') \<and> holds t' (M - {#c#})"
proof -
  have "\<exists>c \<in># M. cmp (fst c) k \<and> ((0 :: word64) = 0 \<or> snd c = 0)" using assms(2,3) by blast
  with rem [OF assms(1), of k 0] obtain c' r where "rem t k 0 = Some r" "c' \<in># M" "cmp (fst c') k"
    "fst r = snd c'" "holds (snd r) (M - {#c'#})" by (auto split: if_splits)
  with assms(4) show ?thesis by (cases r) auto
qed

text \<open>Inserting a new key and removing it again gives the old contents back.\<close>

lemma ins_rem:
  assumes "holds t M" "cmp k k" "\<And>c. c \<in># M \<Longrightarrow> \<not> cmp (fst c) k"
  shows "\<exists>t' t''. ins t k d = Some t' \<and> look t' k = Some d \<and> rem t' k 0 = Some (d, t'') \<and> holds t'' M \<and>
    look t'' k = Some 0"
proof -
  obtain t' where t': "ins t k d = Some t'" "holds t' (add_mset (k, d) M)" using ins [OF assms(1)] by blast
  have l: "look t' k = Some (snd (k, d))" using t'(2) assms(2,3) by (intro look_present) auto
  have "\<exists>t''. rem t' k 0 = Some (snd (k, d), t'') \<and> holds t'' (add_mset (k, d) M - {#(k, d)#})"
    using t'(2) assms(2,3) by (intro rem_present) auto
  with t'(1) l look_absent [of _ M k] assms(3) show ?thesis by auto
qed

end

text \<open>Every linear hash function together with a comparison it respects gives such a table.\<close>

lemma keyed_table_linear:
  assumes "linear_hashing f h" "\<And>k k'. cmp k k' \<Longrightarrow> h k = h k'"
  shows "keyed_table (ht_holds f) cmp (lookupHashTable_with f cmp) (insertHashTable_with f) (removeHashTable_with f cmp)"
proof (unfold_locales, goal_cases)
  case (1 t M k)
  show ?case by (rule linear_hashing.lookup_ok [OF assms(1) 1 assms(2)])
next
  case (2 t M k d)
  show ?case using linear_hashing.insert_ok [OF assms(1) 2] by blast
next
  case (3 t M k d)
  show ?case by (rule linear_hashing.remove_ok [OF assms(1) 3 assms(2)])
qed

interpretation word_hash: linear_hashing hashWord "\<lambda>key. key div 8"
  by unfold_locales (simp add: hashWord_def)

interpretation str_hash: linear_hashing "hashStr xxh str" "\<lambda>w. xxh (str w)"
  by unfold_locales (simp add: hashStr_def hashBuffer_def)

interpretation word_table: keyed_table "ht_holds hashWord" compareWord lookupHashTable insertHashTable removeHashTable
proof -
  have "lookupHashTable = lookupHashTable_with hashWord compareWord" "insertHashTable = insertHashTable_with hashWord"
    "removeHashTable = removeHashTable_with hashWord compareWord"
    by (auto simp: lookupHashTable_def insertHashTable_def removeHashTable_def fun_eq_iff)
  then show "keyed_table (ht_holds hashWord) compareWord lookupHashTable insertHashTable removeHashTable"
    using keyed_table_linear [OF word_hash.linear_hashing_axioms, of compareWord] by (simp add: compareWord_def)
qed

interpretation str_table: keyed_table "ht_holds (hashStr xxh str)" "compareStr str" "lookupStrHashTable xxh str"
  "insertStrHashTable xxh str" "removeStrHashTable xxh str"
proof -
  have "lookupStrHashTable xxh str = lookupHashTable_with (hashStr xxh str) (compareStr str)"
    "insertStrHashTable xxh str = insertHashTable_with (hashStr xxh str)"
    "removeStrHashTable xxh str = removeHashTable_with (hashStr xxh str) (compareStr str)"
    by (auto simp: lookupStrHashTable_def insertStrHashTable_def removeStrHashTable_def fun_eq_iff)
  then show "keyed_table (ht_holds (hashStr xxh str)) (compareStr str) (lookupStrHashTable xxh str)
    (insertStrHashTable xxh str) (removeStrHashTable xxh str)"
    using keyed_table_linear [OF str_hash.linear_hashing_axioms, of "compareStr str"] by (simp add: compareStr_def)
qed


section \<open>Properties\<close>

lemma allocHashTable_bucket: "b < HSEGSIZE \<Longrightarrow> bucket_at allocHashTable b = Some []"
  by (simp add: bucket_at_def get_bucket_def allocHashTable_def)

lemma allocHashTable_holds: "ht_holds f allocHashTable {#}"
proof -
  have s: "ht_size allocHashTable = HSEGSIZE" by (simp add: ht_size_def allocHashTable_def)
  have "\<exists>i \<le> 10. ht_max allocHashTable = 2 ^ (10 + i)"
    by (intro exI [of _ 0]) (simp add: allocHashTable_def HSEGSIZE_def)
  then have "ht_sizes allocHashTable"
    unfolding ht_sizes_def s by (simp add: allocHashTable_def HSEGSIZE_def)
  moreover have "ht_cells allocHashTable = []"
    by (simp add: ht_cells_def s allocHashTable_bucket)
  ultimately show ?thesis
    by (simp add: ht_holds_def ht_shape_def ht_placed_def ht_account_def s allocHashTable_bucket)
      (simp add: allocHashTable_def)
qed

text \<open>A table whose cells are the graph of a finite map.\<close>

definition ht_map :: "hash_table \<Rightarrow> (word64 \<Rightarrow> word64 option) \<Rightarrow> bool" where
  "ht_map t m = (finite (dom m) \<and> ht_holds hashWord t (mset_set (Map.graph m)))"

lemma finite_graph: "finite (dom m) \<Longrightarrow> finite (Map.graph m)"
  by (simp add: finite_graph_iff_finite_dom)

lemma ht_map_lookup:
  assumes "ht_map t m"
  shows "lookupHashTable t k = Some (case m k of None \<Rightarrow> 0 | Some v \<Rightarrow> v)"
proof (cases "m k")
  case None
  have "lookupHashTable t k = Some 0"
    by (rule word_table.look_absent [of t "mset_set (Map.graph m)"])
      (use assms None in \<open>auto simp: ht_map_def compareWord_def finite_graph Map.graph_def\<close>)
  with None show ?thesis by simp
next
  case (Some v)
  have "lookupHashTable t k = Some (snd (k, v))"
    by (rule word_table.look_present [of t "mset_set (Map.graph m)"])
      (use assms Some in \<open>auto simp: ht_map_def compareWord_def finite_graph Map.graph_def\<close>)
  with Some show ?thesis by simp
qed

lemma ht_map_insert:
  assumes "ht_map t m" "m k = None"
  shows "\<exists>t'. insertHashTable t k v = Some t' \<and> ht_map t' (m(k \<mapsto> v))"
proof -
  from assms obtain t' where t': "insertHashTable t k v = Some t'"
    "ht_holds hashWord t' (add_mset (k, v) (mset_set (Map.graph m)))"
    using word_table.ins unfolding ht_map_def by blast
  have "m(k := None) = m" using assms(2) by auto
  then have "Map.graph (m(k \<mapsto> v)) = insert (k, v) (Map.graph m)" by (metis graph_map_upd)
  moreover have "(k, v) \<notin> Map.graph m" using assms(2) by (simp add: Map.graph_def)
  ultimately have "mset_set (Map.graph (m(k \<mapsto> v))) = add_mset (k, v) (mset_set (Map.graph m))"
    using assms(1) by (simp add: ht_map_def finite_graph)
  with t' assms(1) show ?thesis by (auto simp: ht_map_def)
qed

lemma ht_map_remove:
  assumes "ht_map t m"
  shows "\<exists>t'. removeHashTable t k 0 = Some (case m k of None \<Rightarrow> 0 | Some v \<Rightarrow> v, t') \<and> ht_map t' (m(k := None))"
proof (cases "m k")
  case None
  have "\<not> (\<exists>c \<in># mset_set (Map.graph m). compareWord (fst c) k \<and> ((0 :: word64) = 0 \<or> snd c = 0))"
    using assms None by (auto simp: ht_map_def compareWord_def finite_graph Map.graph_def)
  then have "removeHashTable t k 0 = Some (0, t)"
    using word_table.rem [of t "mset_set (Map.graph m)" k 0] assms unfolding ht_map_def if_not_P by auto
  moreover have "m(k := None) = m" using None by auto
  ultimately show ?thesis using assms None by simp
next
  case (Some v)
  have "\<exists>t'. removeHashTable t k 0 = Some (snd (k, v), t') \<and> ht_holds hashWord t' (mset_set (Map.graph m) - {#(k, v)#})"
    by (rule word_table.rem_present)
      (use assms Some in \<open>auto simp: ht_map_def compareWord_def finite_graph Map.graph_def\<close>)
  moreover have "Map.graph (m(k := None)) = Map.graph m - {(k, v)}"
    using Some by (auto simp: Map.graph_def split: if_splits)
  then have "mset_set (Map.graph (m(k := None))) = mset_set (Map.graph m) - {#(k, v)#}"
    using assms Some by (simp add: ht_map_def finite_graph mset_set_Diff Map.graph_def)
  ultimately show ?thesis using assms Some by (auto simp: ht_map_def)
qed

text \<open>C25 The word-keyed table refines a finite map: the new table is the empty map, a lookup returns the
  value or \<open>NULL\<close>, inserting a new key updates the map, removing a key returns its value and deletes
  it. No operation reads uninitialised memory, however often the table has grown.\<close>

theorem hashTable_refines_map:
  assumes "ht_map t m"
  shows "ht_map allocHashTable Map.empty \<and>
    lookupHashTable t k = Some (case m k of None \<Rightarrow> 0 | Some v \<Rightarrow> v) \<and>
    (m k = None \<longrightarrow> (\<exists>t'. insertHashTable t k v = Some t' \<and> ht_map t' (m(k \<mapsto> v)))) \<and>
    (\<exists>t'. removeHashTable t k 0 = Some (case m k of None \<Rightarrow> 0 | Some v \<Rightarrow> v, t') \<and> ht_map t' (m(k := None)))"
  using ht_map_lookup [OF assms] ht_map_insert [OF assms] ht_map_remove [OF assms] allocHashTable_holds
  by (simp add: ht_map_def)

theorem hashTable_refines_map_witness:
  "\<exists>t' t''. insertHashTable allocHashTable 8 5 = Some t' \<and> removeHashTable t' 8 0 = Some (5, t'') \<and>
    lookupHashTable t'' 8 = Some 0"
proof -
  have "ht_map allocHashTable Map.empty" using allocHashTable_holds by (simp add: ht_map_def)
  from hashTable_refines_map [OF this, of 8 5] obtain t' where
    t': "insertHashTable allocHashTable 8 5 = Some t'" "ht_map t' [8 \<mapsto> 5]" by auto
  from hashTable_refines_map [OF t'(2), of 8] obtain t'' where
    t'': "removeHashTable t' 8 0 = Some (5, t'')" "ht_map t'' ([8 \<mapsto> 5](8 := None))" by auto
  from hashTable_refines_map [OF t''(2), of 8] t'(1) t''(1) show ?thesis by auto
qed

text \<open>Every insertion keeps all the invariants of the table (sizes, masks, placement of every cell by the
  hash function, all buckets in use initialised, no cell lost between buckets, free list and chunks)
  and the load: fewer than \<open>HLOAD\<close> keys a bucket, unless the table has its maximum size; and the entry
  just inserted is the one a lookup finds, also when the key was there before.\<close>

lemma insert_keeps_load:
  assumes "ht_holds hashWord t M" "ht_kcount t < HLOAD * ht_bcount t \<or> ht_size t = 2 ^ 20"
  shows "\<exists>t'. insertHashTable t key data = Some t' \<and> ht_holds hashWord t' (add_mset (key, data) M) \<and>
    (ht_kcount t' < HLOAD * ht_bcount t' \<or> ht_size t' = 2 ^ 20) \<and> lookupHashTable t' key = Some data"
proof -
  from word_hash.insert_ok [OF assms(1), of key data] obtain t' cells where t':
    "insertHashTable t key data = Some t'" "ht_holds hashWord t' (add_mset (key, data) M)"
    "bucket_at t' (hashWord t' key) = Some ((key, data) # cells)"
    "ht_bcount t' = (if HLOAD * ht_bcount t \<le> ht_kcount t + 1 \<and> ht_size t < 2 ^ 20 then ht_bcount t + 1 else ht_bcount t)"
    by (auto simp: insertHashTable_def)
  have k: "ht_kcount t = int (size M)" "ht_kcount t' = int (size M) + 1"
    using assms(1) t'(2) by (auto simp: ht_holds_def ht_account_def simp flip: size_mset)
  have b: "ht_bcount t = int (ht_size t)" "ht_bcount t' = int (ht_size t')" "ht_size t \<le> 2 ^ 20" "ht_size t' \<le> 2 ^ 20"
    using assms(1) t'(2) by (auto simp: ht_holds_def ht_shape_def ht_sizes_def)
  have "ht_kcount t' < HLOAD * ht_bcount t' \<or> ht_size t' = 2 ^ 20"
    using assms(2) t'(4) k b by (auto simp: HLOAD_def split: if_splits)
  moreover have "lookupHashTable t' key = Some data"
    using t'(3) by (simp add: lookupHashTable_def lookupHashTable_with_def Let_def compareWord_def)
  ultimately show ?thesis using t'(1,2) by blast
qed

text \<open>The traversals visit every entry of the table exactly once: the keys that \<open>keysHashTable\<close> returns
  are the first \<open>szKeys\<close> of a list of all keys, \<open>mapHashTable\<close> folds its function over a list of all
  entries, and freeing the table hands every datum to the function given.\<close>

lemma traversals_visit_once:
  assumes "ht_holds f t M"
  shows "\<exists>cells. mset cells = M \<and> keysHashTable t szKeys = Some (take szKeys (map fst cells)) \<and>
    mapHashTable t acc fn = Some (foldl (\<lambda>a c. fn a (fst c) (snd c)) acc cells) \<and>
    freeHashTable t True = Some (map snd cells, (ht_size t - 1) div HSEGSIZE + 1, ht_chunks t) \<and>
    keyCountHashTable t = int (length cells)"
proof -
  obtain cells where c: "table_walk t = Some cells" "mset cells = M" using walk_ok [OF assms] by blast
  have "length cells = length (ht_cells t)" using assms c(2) by (metis ht_holds_def size_mset)
  then have "keyCountHashTable t = int (length cells)"
    using assms by (simp add: keyCountHashTable_def ht_holds_def ht_account_def)
  with c show ?thesis
    by (intro exI [of _ cells])
      (simp add: keysHashTable_def mapHashTable_def freeHashTable_def Let_def ht_size_def)
qed

text \<open>In a string table an insertion of a string that is not there, read through any pointer to the same
  characters, finds the datum, and removing it restores the contents; whatever the hash of the
  characters is.\<close>

lemma strHashTable_roundtrip:
  assumes "ht_holds (hashStr xxh str) t M" "\<And>c. c \<in># M \<Longrightarrow> str (fst c) \<noteq> str key" "str key' = str key"
  shows "\<exists>t' t''. insertStrHashTable xxh str t key data = Some t' \<and> lookupStrHashTable xxh str t' key' = Some data \<and>
    removeStrHashTable xxh str t' key 0 = Some (data, t'') \<and> ht_holds (hashStr xxh str) t'' M \<and>
    lookupStrHashTable xxh str t'' key' = Some 0"
proof -
  have "chain_lookup (compareStr str) key' = chain_lookup (compareStr str) key"
    by (rule ext, rule chain_lookup_cong) (simp add: compareStr_def assms(3))
  then have eq: "lookupStrHashTable xxh str t key' = lookupStrHashTable xxh str t key" for t
    using assms(3) by (simp add: lookupStrHashTable_def lookupHashTable_with_def hashStr_def Let_def)
  from str_table.ins_rem [OF assms(1), of key data] assms(2)
  show ?thesis unfolding eq by (auto simp: compareStr_def)
qed

text \<open>A key can be inserted twice, to overwrite its entry, but splitting a bucket turns its chain
  around: after the split a lookup finds the older of the two entries again.\<close>

lemma split_revives_overwritten_entry:
  assumes "ht_shape t" "ht_size t < 2 ^ 20" "bucket_at t (ht_split t) = Some [(k, newer), (k, older)]"
    "hashWord t k = ht_split t"
  shows "lookupHashTable t k = Some newer \<and> (\<exists>t'. expand hashWord t = Some t' \<and> lookupHashTable t' k = Some older)"
proof -
  let ?s = "ht_split t" and ?n = "ht_size t"
  obtain t' old new where e: "expand hashWord t = Some t'" "\<exists>dir. t' = (expand_sizes t)\<lparr>ht_dir := dir\<rparr>"
    "\<And>b. bucket_at t' b = (if b = ?n then Some new else if b = ?s then Some old else bucket_at (expand_sizes t) b)"
    "split_chain (\<lambda>k. hashWord t' k = ?n) (the (bucket_at t ?s)) ([], []) = (old, new)"
    by (rule word_hash.expand_step [OF assms(1,2)]) (rule that)
  have sz: "ht_sizes t" using assms(1) by (simp add: ht_shape_def)
  have "ht_sizes t'" using expand_sizes_ok [OF sz assms(2)] e(2) by (auto simp: ht_sizes_def ht_size_def)
  moreover have "if ?s + 1 = ht_max t then ht_split t' = 0 \<and> ht_max t' = 2 * ht_max t
      else ht_split t' = ?s + 1 \<and> ht_max t' = ht_max t"
    using e(2) by (auto simp: expand_sizes_fields)
  ultimately have h: "hashWord t' k = ?s \<or> hashWord t' k = ?n"
    using linear_hash_grow(2) [OF sz] assms(4) by (simp add: hashWord_def ht_size_def)
  have "?s < ?n" using sz by (auto simp: ht_sizes_def ht_size_def)
  then have "bucket_at t' (hashWord t' k) = Some [(k, older), (k, newer)]"
    using e(3,4) h assms(3) by (auto split: if_splits)
  then have "lookupHashTable t' k = Some older"
    by (simp add: lookupHashTable_def lookupHashTable_with_def Let_def compareWord_def)
  moreover have "lookupHashTable t k = Some newer"
    using assms(3,4) by (simp add: lookupHashTable_def lookupHashTable_with_def Let_def compareWord_def)
  ultimately show ?thesis using e(1) by blast
qed

definition twice_table :: hash_table where
  "twice_table = allocHashTable\<lparr>ht_kcount := 2, ht_chunks := 1, ht_free := HCHUNK - 2,
     ht_dir := (\<lambda>segment. if segment = 0 then Some (\<lambda>index. if index = 0 then Some [(0, 2), (0, 1)]
       else if index < HSEGSIZE then Some [] else None) else None)\<rparr>"

end
