(* ===== verification/FileLocks.thy ===== *)
theory FileLocks
  imports HashTables
begin

text \<open>
  File locks for Haskell's single-writer, multiple-reader handles (\<open>rts/FileLock.c\<close>): two hash
  tables, from files to lock objects and from descriptors to lock objects. The memory of lock
  objects is a map; a call takes the address that \<open>stgMallocBytes\<close> would return and the address of
  the local variable \<open>key\<close> as arguments. A call runs under the mutex from start to end.
\<close>

section \<open>Lock objects and the two tables\<close>

record lock =
  lk_device :: word64
  lk_inode :: word64
  lk_readers :: int

type_synonym lock_mem = "word64 \<Rightarrow> lock"

record fl_state =
  obj_hash :: hash_table
  key_hash :: hash_table
  locks :: lock_mem

definition cmpLocks :: "lock_mem \<Rightarrow> compare_fun" where
  "cmpLocks m w1 w2 = (lk_device (m w1) = lk_device (m w2) \<and> lk_inode (m w1) = lk_inode (m w2))"

definition lock_key :: "lock \<Rightarrow> word64" where
  "lock_key l = lk_inode l XOR drop_bit 32 (lk_inode l) XOR lk_device l XOR drop_bit 32 (lk_device l)"

definition hashLock :: "lock_mem \<Rightarrow> hash_fun" where
  "hashLock m t w = hashWord t (lock_key (m w))"

definition initFileLocking :: "lock_mem \<Rightarrow> fl_state" where
  "initFileLocking m = \<lparr>obj_hash = allocHashTable, key_hash = allocHashTable, locks = m\<rparr>"

text \<open>What \<open>freeFileLocking\<close> passes to \<open>freeLock\<close>.\<close>

definition freeFileLocking :: "fl_state \<Rightarrow> word64 list option" where
  "freeFileLocking s =
    (case (freeHashTable (obj_hash s) True, freeHashTable (key_hash s) False) of
       (Some r, Some _) \<Rightarrow> Some (fst r) | _ \<Rightarrow> None)"

definition lockFile :: "word64 \<Rightarrow> word64 \<Rightarrow> word64 \<Rightarrow> word64 \<Rightarrow> word64 \<Rightarrow> bool \<Rightarrow> fl_state \<Rightarrow> (int \<times> fl_state) option" where
  "lockFile key_addr new_addr fd dev ino for_writing s =
    (let m = (locks s)(key_addr := (locks s key_addr)\<lparr>lk_device := dev, lk_inode := ino\<rparr>)
     in case lookupHashTable_with (hashLock m) (cmpLocks m) (obj_hash s) key_addr of
          None \<Rightarrow> None
        | Some lock \<Rightarrow>
            (if lock = 0 then
               (let m' = (locks s)(new_addr := \<lparr>lk_device = dev, lk_inode = ino,
                                                 lk_readers = if for_writing then - 1 else 1\<rparr>)
                in case insertHashTable_with (hashLock m') (obj_hash s) new_addr new_addr of
                     None \<Rightarrow> None
                   | Some oh \<Rightarrow>
                       map_option (\<lambda>kh. (0, \<lparr>obj_hash = oh, key_hash = kh, locks = m'\<rparr>))
                         (insertHashTable (key_hash s) fd new_addr))
             else if for_writing \<or> lk_readers (locks s lock) < 0 then Some (- 1, s)
             else
               map_option (\<lambda>kh. (0, s\<lparr>key_hash := kh, locks := (locks s)(lock := (locks s lock)
                   \<lparr>lk_readers := lk_readers (locks s lock) + 1\<rparr>)\<rparr>))
                 (insertHashTable (key_hash s) fd lock)))"

definition unlockFile :: "word64 \<Rightarrow> fl_state \<Rightarrow> (int \<times> fl_state) option" where
  "unlockFile fd s =
    (case lookupHashTable (key_hash s) fd of
       None \<Rightarrow> None
     | Some lock \<Rightarrow>
         (if lock = 0 then Some (1, s)
          else
            let r = lk_readers (locks s lock);
                r' = (if r < 0 then r + 1 else r - 1);
                m' = (locks s)(lock := (locks s lock)\<lparr>lk_readers := r'\<rparr>)
            in case (if r' = 0 then map_option snd (removeHashTable_with (hashLock m') (cmpLocks m') (obj_hash s) lock 0)
                     else Some (obj_hash s)) of
                 None \<Rightarrow> None
               | Some oh \<Rightarrow>
                   map_option (\<lambda>k. (0, \<lparr>obj_hash = oh, key_hash = snd k, locks = m'\<rparr>))
                     (removeHashTable (key_hash s) fd 0)))"

section \<open>The table of lock objects\<close>

interpretation lock_hash: linear_hashing "hashLock m" "\<lambda>w. lock_key (m w) div 8"
  by unfold_locales (simp add: hashLock_def hashWord_def)

interpretation obj_table: keyed_table "ht_holds (hashLock m)" "cmpLocks m"
  "lookupHashTable_with (hashLock m) (cmpLocks m)" "insertHashTable_with (hashLock m)"
  "removeHashTable_with (hashLock m) (cmpLocks m)"
  by (rule keyed_table_linear [OF lock_hash.linear_hashing_axioms]) (simp add: cmpLocks_def lock_key_def)

text \<open>The table only depends on the contents of the locks in it.\<close>

lemma ht_holds_cong:
  assumes "ht_holds f t M" "\<And>c t. c \<in># M \<Longrightarrow> g t (fst c) = f t (fst c)"
  shows "ht_holds g t M"
proof -
  have "c \<in># M" if "b < ht_size t" "c \<in> set (the (bucket_at t b))" for b c
  proof -
    have "c \<in> set (ht_cells t)" using that by (auto simp: set_ht_cells)
    then show ?thesis using assms(1) by (auto simp: ht_holds_def)
  qed
  with assms show ?thesis by (auto simp: ht_holds_def ht_placed_def)
qed

definition lock_cells :: "word64 set \<Rightarrow> hcell multiset" where
  "lock_cells L = mset_set ((\<lambda>l. (l, l)) ` L)"

lemma set_lock_cells [simp]: "finite L \<Longrightarrow> set_mset (lock_cells L) = (\<lambda>l. (l, l)) ` L"
  by (simp add: lock_cells_def)

lemma lock_cells_insert: "finite L \<Longrightarrow> l \<notin> L \<Longrightarrow> lock_cells (insert l L) = add_mset (l, l) (lock_cells L)"
  by (simp add: lock_cells_def image_iff)

lemma lock_cells_remove: "finite L \<Longrightarrow> l \<in> L \<Longrightarrow> lock_cells (L - {l}) = lock_cells L - {#(l, l)#}"
  using lock_cells_insert [of "L - {l}" l] by (simp add: insert_absorb)

lemma lock_cells_cong:
  assumes "ht_holds (hashLock m) t (lock_cells L)" "finite L"
    "\<And>l. l \<in> L \<Longrightarrow> lk_device (m' l) = lk_device (m l) \<and> lk_inode (m' l) = lk_inode (m l)"
  shows "ht_holds (hashLock m') t (lock_cells L)"
  by (rule ht_holds_cong [OF assms(1)]) (use assms(2,3) in \<open>auto simp: hashLock_def lock_key_def\<close>)

section \<open>The invariant\<close>

text \<open>\<open>p\<close> maps the descriptors that hold a lock to the lock object.\<close>

definition holders :: "(word64 \<Rightarrow> word64 option) \<Rightarrow> word64 \<Rightarrow> word64 set" where
  "holders p l = {fd. p fd = Some l}"

definition lock_file :: "lock_mem \<Rightarrow> word64 \<Rightarrow> word64 \<times> word64" where
  "lock_file m l = (lk_device (m l), lk_inode (m l))"

definition fl_inv :: "fl_state \<Rightarrow> (word64 \<Rightarrow> word64 option) \<Rightarrow> bool" where
  "fl_inv s p = (ht_map (key_hash s) p \<and> ht_holds (hashLock (locks s)) (obj_hash s) (lock_cells (ran p)) \<and>
     0 \<notin> ran p \<and> inj_on (lock_file (locks s)) (ran p) \<and>
     (\<forall>l \<in> ran p. lk_readers (locks s l) = int (card (holders p l)) \<or>
        lk_readers (locks s l) = - 1 \<and> card (holders p l) = 1))"

text \<open>What a descriptor holds: the file and whether it is locked for writing.\<close>

definition held :: "fl_state \<Rightarrow> (word64 \<Rightarrow> word64 option) \<Rightarrow> word64 \<Rightarrow> ((word64 \<times> word64) \<times> bool) option" where
  "held s p fd = map_option (\<lambda>l. (lock_file (locks s) l, lk_readers (locks s l) < 0)) (p fd)"

lemma fl_inv_finite: "fl_inv s p \<Longrightarrow> finite (dom p) \<and> finite (ran p)"
  by (auto simp: fl_inv_def ht_map_def finite_ran)

lemma finite_holders: "finite (dom p) \<Longrightarrow> finite (holders p l)"
  by (rule finite_subset [of _ "dom p"]) (auto simp: holders_def)

lemma holders_pos: "finite (dom p) \<Longrightarrow> l \<in> ran p \<Longrightarrow> 0 < card (holders p l)"
  using finite_holders [of p l] by (auto simp: card_gt_0_iff holders_def ran_def)

lemma obj_lookup:
  fixes dev ino :: word64
  assumes inv: "fl_inv s p" and key: "key_addr \<notin> ran p"
  defines "m \<equiv> (locks s)(key_addr := (locks s key_addr)\<lparr>lk_device := dev, lk_inode := ino\<rparr>)"
  shows "if \<exists>l \<in> ran p. lock_file (locks s) l = (dev, ino)
    then \<exists>l \<in> ran p. lock_file (locks s) l = (dev, ino) \<and>
      lookupHashTable_with (hashLock m) (cmpLocks m) (obj_hash s) key_addr = Some l
    else lookupHashTable_with (hashLock m) (cmpLocks m) (obj_hash s) key_addr = Some 0"
proof -
  have fin: "finite (ran p)" using fl_inv_finite [OF inv] by simp
  have t: "ht_holds (hashLock m) (obj_hash s) (lock_cells (ran p))"
    by (rule lock_cells_cong [of "locks s"]) (use inv fin key in \<open>auto simp: fl_inv_def m_def\<close>)
  have cmp: "cmpLocks m l key_addr \<longleftrightarrow> lock_file (locks s) l = (dev, ino)" if "l \<in> ran p" for l
    using that key by (auto simp: cmpLocks_def lock_file_def m_def)
  show ?thesis
  proof (cases "\<exists>l \<in> ran p. lock_file (locks s) l = (dev, ino)")
    case True
    then obtain l where l: "l \<in> ran p" "lock_file (locks s) l = (dev, ino)" by blast
    have "lookupHashTable_with (hashLock m) (cmpLocks m) (obj_hash s) key_addr = Some (snd (l, l))"
    proof (rule obj_table.look_present [OF t])
      show "snd c' = snd (l, l)" if "c' \<in># lock_cells (ran p)" "cmpLocks m (fst c') key_addr" for c'
      proof -
        from that fin obtain l' where l': "c' = (l', l')" "l' \<in> ran p" by auto
        with that(2) cmp have "lock_file (locks s) l' = lock_file (locks s) l" by (simp add: l(2))
        then show ?thesis using inv l(1) l' by (auto simp: fl_inv_def dest: inj_onD)
      qed
    qed (use l fin cmp in auto)
    with True l show ?thesis by auto
  next
    case False
    have "lookupHashTable_with (hashLock m) (cmpLocks m) (obj_hash s) key_addr = Some 0"
      by (rule obj_table.look_absent [OF t]) (use False fin cmp in auto)
    with False show ?thesis by auto
  qed
qed

lemma lockFile_new:
  fixes dev ino :: word64 and for_writing :: bool
  assumes inv: "fl_inv s p" and fresh: "p fd = None" "new_addr \<notin> ran p" "new_addr \<noteq> 0"
    and none: "\<not> (\<exists>l \<in> ran p. lock_file (locks s) l = (dev, ino))"
  defines "m' \<equiv> (locks s)(new_addr := \<lparr>lk_device = dev, lk_inode = ino, lk_readers = if for_writing then - 1 else 1\<rparr>)"
  shows "\<exists>oh kh. insertHashTable_with (hashLock m') (obj_hash s) new_addr new_addr = Some oh \<and>
    insertHashTable (key_hash s) fd new_addr = Some kh \<and>
    fl_inv \<lparr>obj_hash = oh, key_hash = kh, locks = m'\<rparr> (p(fd \<mapsto> new_addr))"
proof -
  have fin: "finite (ran p)" "finite (dom p)" using fl_inv_finite [OF inv] by auto
  have same: "m' l = locks s l" if "l \<in> ran p" for l using that fresh by (auto simp: m'_def)
  have t: "ht_holds (hashLock m') (obj_hash s) (lock_cells (ran p))"
    by (rule lock_cells_cong [of "locks s"]) (use inv fin same in \<open>auto simp: fl_inv_def\<close>)
  obtain oh where oh: "insertHashTable_with (hashLock m') (obj_hash s) new_addr new_addr = Some oh"
    "ht_holds (hashLock m') oh (lock_cells (insert new_addr (ran p)))"
    using obj_table.ins [OF t] lock_cells_insert [OF fin(1) fresh(2)] by auto
  obtain kh where kh: "insertHashTable (key_hash s) fd new_addr = Some kh" "ht_map kh (p(fd \<mapsto> new_addr))"
    using ht_map_insert inv fresh(1) unfolding fl_inv_def by blast
  have ran: "ran (p(fd \<mapsto> new_addr)) = insert new_addr (ran p)" using fresh(1) by (rule ran_map_upd)
  have h: "holders (p(fd \<mapsto> new_addr)) l = (if l = new_addr then {fd} else holders p l)" if "l \<in> insert new_addr (ran p)" for l
    using that fresh by (auto simp: holders_def ran_def)
  have "inj_on (lock_file m') (insert new_addr (ran p))"
  proof -
    have "lock_file m' l = lock_file (locks s) l" if "l \<in> ran p" for l using same [OF that] by (simp add: lock_file_def)
    moreover have "lock_file m' new_addr = (dev, ino)" by (simp add: lock_file_def m'_def)
    moreover have "inj_on (lock_file (locks s)) (ran p)" using inv by (simp add: fl_inv_def)
    ultimately show ?thesis using none by (auto simp: inj_on_def)
  qed
  moreover have "\<forall>l \<in> insert new_addr (ran p). lk_readers (m' l) = int (card (holders (p(fd \<mapsto> new_addr)) l)) \<or>
      lk_readers (m' l) = - 1 \<and> card (holders (p(fd \<mapsto> new_addr)) l) = 1"
    using inv h same fresh by (auto simp: fl_inv_def m'_def)
  ultimately show ?thesis
    using oh kh inv fresh(3) by (auto simp: fl_inv_def ran)
qed

lemma lockFile_again:
  assumes inv: "fl_inv s p" and fresh: "p fd = None" and l: "l \<in> ran p" "0 \<le> lk_readers (locks s l)"
  defines "m' \<equiv> (locks s)(l := (locks s l)\<lparr>lk_readers := lk_readers (locks s l) + 1\<rparr>)"
  shows "\<exists>kh. insertHashTable (key_hash s) fd l = Some kh \<and>
    fl_inv (s\<lparr>key_hash := kh, locks := m'\<rparr>) (p(fd \<mapsto> l))"
proof -
  have fin: "finite (ran p)" "finite (dom p)" using fl_inv_finite [OF inv] by auto
  have same_file: "lock_file m' = lock_file (locks s)" by (auto simp: m'_def lock_file_def fun_eq_iff)
  have t: "ht_holds (hashLock m') (obj_hash s) (lock_cells (ran p))"
    by (rule lock_cells_cong [of "locks s"]) (use inv fin in \<open>auto simp: fl_inv_def m'_def\<close>)
  obtain kh where kh: "insertHashTable (key_hash s) fd l = Some kh" "ht_map kh (p(fd \<mapsto> l))"
    using ht_map_insert inv fresh(1) unfolding fl_inv_def by blast
  have ran: "ran (p(fd \<mapsto> l)) = ran p" using l(1) ran_map_upd [of p fd l, OF fresh] by (auto simp: insert_absorb)
  have h: "holders (p(fd \<mapsto> l)) l' = (if l' = l then insert fd (holders p l) else holders p l')" for l'
    using fresh by (auto simp: holders_def)
  have "fd \<notin> holders p l" using fresh by (simp add: holders_def)
  then have "card (insert fd (holders p l)) = Suc (card (holders p l))" using finite_holders [OF fin(2)] by simp
  then have "\<forall>l' \<in> ran p. lk_readers (m' l') = int (card (holders (p(fd \<mapsto> l)) l')) \<or>
      lk_readers (m' l') = - 1 \<and> card (holders (p(fd \<mapsto> l)) l') = 1"
    using inv l by (auto simp: fl_inv_def h m'_def)
  then show ?thesis using kh inv t by (auto simp: fl_inv_def ran same_file)
qed

lemma unlockFile_inv:
  assumes inv: "fl_inv s p" and l: "p fd = Some l"
  shows "\<exists>s'. unlockFile fd s = Some (0, s') \<and> fl_inv s' (p(fd := None)) \<and>
    (\<forall>l' \<in> ran (p(fd := None)). lock_file (locks s') l' = lock_file (locks s) l' \<and>
      (lk_readers (locks s' l') < 0) = (lk_readers (locks s l') < 0))"
proof -
  let ?p = "p(fd := None)" and ?r = "lk_readers (locks s l)"
  define r' where "r' = (if ?r < 0 then ?r + 1 else ?r - 1)"
  define m' where "m' = (locks s)(l := (locks s l)\<lparr>lk_readers := r'\<rparr>)"
  have fin: "finite (ran p)" "finite (dom p)" using fl_inv_finite [OF inv] by auto
  have lr: "l \<in> ran p" "l \<noteq> 0" using l inv by (auto simp: fl_inv_def intro: ranI)
  have same_file: "lock_file m' = lock_file (locks s)" by (auto simp: m'_def lock_file_def fun_eq_iff)
  have t: "ht_holds (hashLock m') (obj_hash s) (lock_cells (ran p))"
    by (rule lock_cells_cong [of "locks s"]) (use inv fin in \<open>auto simp: fl_inv_def m'_def\<close>)
  have lk: "lookupHashTable (key_hash s) fd = Some l"
    using ht_map_lookup [of "key_hash s" p fd] inv l by (simp add: fl_inv_def)
  obtain kh where kh: "removeHashTable (key_hash s) fd 0 = Some (l, kh)" "ht_map kh ?p"
    using ht_map_remove [of "key_hash s" p fd] inv l by (auto simp: fl_inv_def)
  have h: "holders ?p l' = holders p l' - {fd}" for l' by (auto simp: holders_def)
  have fd: "fd \<in> holders p l" "\<And>l'. l' \<noteq> l \<Longrightarrow> fd \<notin> holders p l'" using l by (auto simp: holders_def)
  have card: "card (holders p l) = Suc (card (holders ?p l))"
    unfolding h using fd(1) finite_holders [OF fin(2)] by (metis card_Suc_Diff1)
  have r: "?r = int (card (holders p l)) \<or> ?r = - 1 \<and> card (holders p l) = 1" using inv lr by (simp add: fl_inv_def)
  have r0: "r' = 0 \<longleftrightarrow> card (holders ?p l) = 0" using r card by (auto simp: r'_def)
  have ran: "ran ?p = (if r' = 0 then ran p - {l} else ran p)"
  proof -
    have ran_iff: "l' \<in> ran q \<longleftrightarrow> holders q l' \<noteq> {}" for l' q
      by (auto simp: ran_def holders_def)
    have "holders ?p l = {} \<longleftrightarrow> r' = 0" using r0 finite_holders [of ?p l] fin(2) by simp
    moreover have "holders ?p l' = holders p l'" if "l' \<noteq> l" for l' using h fd(2) [OF that] by simp
    ultimately have "l' \<in> ran ?p \<longleftrightarrow> l' \<in> (if r' = 0 then ran p - {l} else ran p)" for l'
      using lr(1) by (cases "l' = l") (auto simp: ran_iff)
    then show ?thesis by blast
  qed
  obtain oh where oh: "(if r' = 0 then map_option snd (removeHashTable_with (hashLock m') (cmpLocks m') (obj_hash s) l 0)
      else Some (obj_hash s)) = Some oh" "ht_holds (hashLock m') oh (lock_cells (ran ?p))"
  proof (cases "r' = 0")
    case True
    have "\<exists>t'. removeHashTable_with (hashLock m') (cmpLocks m') (obj_hash s) l 0 = Some (snd (l, l), t') \<and>
      ht_holds (hashLock m') t' (lock_cells (ran p) - {#(l, l)#})"
    proof (rule obj_table.rem_present [OF t])
      show "c' = (l, l)" if "c' \<in># lock_cells (ran p)" "cmpLocks m' (fst c') l" for c'
      proof -
        from that fin obtain l' where l': "c' = (l', l')" "l' \<in> ran p" by auto
        with that(2) have "lock_file m' l' = lock_file m' l" by (simp add: cmpLocks_def lock_file_def)
        then show ?thesis using inv lr(1) l' by (auto simp: fl_inv_def same_file dest: inj_onD)
      qed
    qed (use lr fin in \<open>auto simp: cmpLocks_def\<close>)
    with True that ran lock_cells_remove [OF fin(1) lr(1)] show ?thesis by auto
  next
    case False
    with that [of "obj_hash s"] t ran show ?thesis by simp
  qed
  let ?s = "\<lparr>obj_hash = oh, key_hash = kh, locks = m'\<rparr>"
  have "unlockFile fd s = Some (0, ?s)"
    using lr(2) unfolding unlockFile_def lk Let_def option.case r'_def [symmetric] m'_def [symmetric] oh(1) kh(1)
    by simp
  moreover have "\<forall>l' \<in> ran ?p. lk_readers (m' l') = int (card (holders ?p l')) \<or>
      lk_readers (m' l') = - 1 \<and> card (holders ?p l') = 1"
  proof
    fix l' assume l': "l' \<in> ran ?p"
    show "lk_readers (m' l') = int (card (holders ?p l')) \<or> lk_readers (m' l') = - 1 \<and> card (holders ?p l') = 1"
    proof (cases "l' = l")
      case True
      then have "r' \<noteq> 0" using l' ran by auto
      with True r card show ?thesis by (auto simp: m'_def r'_def split: if_splits)
    next
      case False
      then have "l' \<in> ran p" "holders ?p l' = holders p l'" using l' ran fd(2) h by (auto split: if_splits)
      then show ?thesis using inv False by (simp add: fl_inv_def m'_def)
    qed
  qed
  moreover have "inj_on (lock_file (locks s)) (ran ?p)"
    using inv ran by (auto simp: fl_inv_def intro: inj_on_subset)
  ultimately have "unlockFile fd s = Some (0, ?s) \<and> fl_inv ?s ?p"
    using kh(2) oh(2) inv ran by (auto simp: fl_inv_def same_file)
  moreover have "(lk_readers (m' l') < 0) = (lk_readers (locks s l') < 0)" if "l' \<in> ran ?p" for l'
  proof (cases "l' = l")
    case True
    then have "r' \<noteq> 0" using that ran by auto
    then show ?thesis using True r card by (auto simp: m'_def r'_def split: if_splits)
  qed (simp add: m'_def)
  ultimately show ?thesis by (auto simp: same_file)
qed


section \<open>The contract of the locks\<close>

text \<open>The state grants each descriptor of \<open>a\<close> its file, for writing or for reading.\<close>

definition fl_grants :: "fl_state \<Rightarrow> (word64 \<Rightarrow> ((word64 \<times> word64) \<times> bool) option) \<Rightarrow> bool" where
  "fl_grants s a = (\<exists>p. fl_inv s p \<and> a = held s p)"

text \<open>The addresses of the lock objects in use.\<close>

definition live_locks :: "fl_state \<Rightarrow> word64 set" where
  "live_locks s = snd ` set (ht_cells (obj_hash s))"

lemma live_locks_ran:
  assumes "fl_inv s p"
  shows "live_locks s = ran p"
proof -
  have "set (ht_cells (obj_hash s)) = set_mset (lock_cells (ran p))"
    using assms by (metis fl_inv_def ht_holds_def set_mset_mset)
  then show ?thesis using fl_inv_finite [OF assms] by (auto simp: live_locks_def image_image)
qed

lemma held_iff:
  "held s p fd = Some (f, w) \<longleftrightarrow> (\<exists>l. p fd = Some l \<and> f = lock_file (locks s) l \<and> w = (lk_readers (locks s l) < 0))"
  by (auto simp: held_def)

lemma lockFile_unlocked:
  assumes p: "fl_inv s p" and fd: "p fd = None" and fresh: "new_addr \<notin> live_locks s" "new_addr \<noteq> 0" "key_addr \<notin> live_locks s"
    and free: "\<not> (\<exists>l \<in> ran p. lock_file (locks s) l = (dev, ino))"
  shows "\<exists>s'. lockFile key_addr new_addr fd dev ino for_writing s = Some (0, s') \<and>
    fl_grants s' ((held s p)(fd \<mapsto> ((dev, ino), for_writing)))"
proof -
  note ran = live_locks_ran [OF p]
  note look = obj_lookup [OF p, of key_addr dev ino, unfolded if_not_P [OF free]]
  let ?m = "(locks s)(new_addr := \<lparr>lk_device = dev, lk_inode = ino, lk_readers = if for_writing then - 1 else 1\<rparr>)"
  from lockFile_new [OF p fd _ fresh(2) free, of for_writing] fresh(1) ran
  obtain oh kh where n: "lockFile key_addr new_addr fd dev ino for_writing s = Some (0, \<lparr>obj_hash = oh, key_hash = kh, locks = ?m\<rparr>)"
    "fl_inv \<lparr>obj_hash = oh, key_hash = kh, locks = ?m\<rparr> (p(fd \<mapsto> new_addr))"
    using look fresh(3) by (auto simp: lockFile_def Let_def)
  have "held \<lparr>obj_hash = oh, key_hash = kh, locks = ?m\<rparr> (p(fd \<mapsto> new_addr)) = (held s p)(fd \<mapsto> ((dev, ino), for_writing))"
    using fresh(1) ran by (auto simp: fun_eq_iff held_def lock_file_def map_option_case ran_def split: option.splits)
  with n show ?thesis by (auto simp: fl_grants_def)
qed

lemma held_conflict:
  assumes p: "fl_inv s p" and l: "l \<in> ran p" "lock_file (locks s) l = (dev, ino)"
  shows "(\<exists>fd' w. held s p fd' = Some ((dev, ino), w) \<and> (for_writing \<or> w)) \<longleftrightarrow> for_writing \<or> lk_readers (locks s l) < 0"
proof -
  have uniq: "l' = l" if "l' \<in> ran p" "lock_file (locks s) l' = (dev, ino)" for l'
  proof -
    have "inj_on (lock_file (locks s)) (ran p)" using p by (simp add: fl_inv_def)
    then show ?thesis by (rule inj_onD) (use that l in auto)
  qed
  from l(1) obtain fd' where "p fd' = Some l" by (auto simp: ran_def)
  then have "held s p fd' = Some ((dev, ino), lk_readers (locks s l) < 0)" using l(2) by (simp add: held_def)
  moreover have "w = (lk_readers (locks s l) < 0)" if "held s p fd' = Some ((dev, ino), w)" for fd' w
    using that uniq unfolding held_iff by (metis ranI)
  ultimately show ?thesis by blast
qed

lemma lockFile_locked:
  assumes p: "fl_inv s p" and fd: "p fd = None" and key: "key_addr \<notin> live_locks s"
    and l: "l \<in> ran p" "lock_file (locks s) l = (dev, ino)"
  shows "\<exists>r s'. lockFile key_addr new_addr fd dev ino for_writing s = Some (r, s') \<and>
    (if for_writing \<or> lk_readers (locks s l) < 0 then r = - 1 \<and> s' = s
     else r = 0 \<and> fl_grants s' ((held s p)(fd \<mapsto> ((dev, ino), for_writing))))"
proof -
  note ran = live_locks_ran [OF p]
  have "\<exists>l \<in> ran p. lock_file (locks s) l = (dev, ino)" using l by blast
  note look = obj_lookup [OF p, of key_addr dev ino, unfolded if_P [OF this]]
  then obtain l' where l': "l' \<in> ran p" "lock_file (locks s) l' = (dev, ino)"
    "lookupHashTable_with (hashLock ((locks s)(key_addr := (locks s key_addr)\<lparr>lk_device := dev, lk_inode := ino\<rparr>)))
      (cmpLocks ((locks s)(key_addr := (locks s key_addr)\<lparr>lk_device := dev, lk_inode := ino\<rparr>))) (obj_hash s) key_addr = Some l'"
    using key ran by auto
  have "inj_on (lock_file (locks s)) (ran p)" using p by (simp add: fl_inv_def)
  then have [simp]: "l' = l" by (rule inj_onD) (use l l' in auto)
  have l0: "l \<noteq> 0" using p l(1) by (auto simp: fl_inv_def)
  show ?thesis
  proof (cases "for_writing \<or> lk_readers (locks s l) < 0")
    case True
    then show ?thesis using l'(3) l0 by (simp add: lockFile_def Let_def)
  next
    case False
    let ?m = "(locks s)(l := (locks s l)\<lparr>lk_readers := lk_readers (locks s l) + 1\<rparr>)"
    obtain kh where kh: "insertHashTable (key_hash s) fd l = Some kh"
      "fl_inv (s\<lparr>key_hash := kh, locks := ?m\<rparr>) (p(fd \<mapsto> l))"
      using lockFile_again [OF p fd l(1)] False by auto
    have "lockFile key_addr new_addr fd dev ino for_writing s = Some (0, s\<lparr>key_hash := kh, locks := ?m\<rparr>)"
      using l'(3) l0 False kh(1) by (simp add: lockFile_def Let_def)
    moreover have "held (s\<lparr>key_hash := kh, locks := ?m\<rparr>) (p(fd \<mapsto> l)) = (held s p)(fd \<mapsto> ((dev, ino), for_writing))"
      using False l(2) by (auto simp: fun_eq_iff held_def lock_file_def map_option_case split: option.splits)
    ultimately show ?thesis using kh(2) False by (auto simp: fl_grants_def)
  qed
qed

lemma lockFile_grants:
  assumes "fl_grants s a" "a fd = None" "new_addr \<notin> live_locks s" "new_addr \<noteq> 0" "key_addr \<notin> live_locks s"
  shows "\<exists>r s'. lockFile key_addr new_addr fd dev ino for_writing s = Some (r, s') \<and>
    (if \<exists>fd' w. a fd' = Some ((dev, ino), w) \<and> (for_writing \<or> w) then r = - 1 \<and> s' = s
     else r = 0 \<and> fl_grants s' (a(fd \<mapsto> ((dev, ino), for_writing))))"
proof -
  obtain p where p: "fl_inv s p" "a = held s p" using assms(1) by (auto simp: fl_grants_def)
  have fd: "p fd = None" using assms(2) p(2) by (simp add: held_def)
  show ?thesis
  proof (cases "\<exists>l \<in> ran p. lock_file (locks s) l = (dev, ino)")
    case False
    then have "\<not> (\<exists>fd' w. a fd' = Some ((dev, ino), w) \<and> (for_writing \<or> w))"
      unfolding p(2) held_iff by (metis ranI)
    then show ?thesis using lockFile_unlocked [OF p(1) fd assms(3-5) False, of for_writing] p(2) by auto
  next
    case True
    then obtain l where l: "l \<in> ran p" "lock_file (locks s) l = (dev, ino)" by blast
    show ?thesis
      unfolding p(2) held_conflict [OF p(1) l] using lockFile_locked [OF p(1) fd assms(5) l] .
  qed
qed

text \<open>C34 A request for a lock is refused exactly when another descriptor holds the same file and one of the
  two is a writer; then nothing changes. Otherwise the descriptor holds the file as asked, and every
  other descriptor holds what it held.\<close>

theorem lockFile_correct:
  assumes "fl_grants s a" "a fd = None" "new_addr \<notin> live_locks s" "new_addr \<noteq> 0" "key_addr \<notin> live_locks s"
  shows "\<exists>r s'. lockFile key_addr new_addr fd dev ino for_writing s = Some (r, s') \<and>
    (if \<exists>fd' w. a fd' = Some ((dev, ino), w) \<and> (for_writing \<or> w) then r = - 1 \<and> s' = s
     else r = 0 \<and> fl_grants s' (a(fd \<mapsto> ((dev, ino), for_writing))))"
  by (rule lockFile_grants [OF assms])

definition fl_demo :: fl_state where
  "fl_demo = initFileLocking (\<lambda>_. \<lparr>lk_device = 0, lk_inode = 0, lk_readers = 0\<rparr>)"

lemma fl_demo_inv: "fl_inv fl_demo Map.empty"
  using allocHashTable_holds by (auto simp: fl_inv_def fl_demo_def initFileLocking_def ht_map_def lock_cells_def)

lemma fl_demo_grants: "fl_grants fl_demo Map.empty"
  using fl_demo_inv by (auto simp: fl_grants_def held_def fun_eq_iff intro!: exI [of _ Map.empty])

theorem lockFile_correct_witness:
  "\<exists>s'. lockFile 1024 16 3 7 8 True fl_demo = Some (0, s') \<and> fl_grants s' [3 \<mapsto> ((7, 8), True)]"
  using lockFile_correct [OF fl_demo_grants, where fd = 3 and new_addr = 16 and key_addr = 1024 and dev = 7 and ino = 8 and for_writing = True] live_locks_ran [OF fl_demo_inv] by auto

text \<open>Unlocking a descriptor that holds nothing answers 1 and changes nothing; otherwise it answers 0,
  the descriptor holds nothing any more and all others hold what they held.\<close>

lemma unlockFile_correct:
  assumes "fl_grants s a"
  shows "\<exists>r s'. unlockFile fd s = Some (r, s') \<and>
    (if a fd = None then r = 1 \<and> s' = s else r = 0 \<and> fl_grants s' (a(fd := None)))"
proof -
  obtain p where p: "fl_inv s p" "a = held s p" using assms(1) by (auto simp: fl_grants_def)
  show ?thesis
  proof (cases "p fd")
    case None
    then have "lookupHashTable (key_hash s) fd = Some 0" using ht_map_lookup p(1) by (fastforce simp: fl_inv_def)
    with None p(2) show ?thesis by (simp add: unlockFile_def held_def)
  next
    case (Some l)
    from unlockFile_inv [OF p(1) Some] obtain s' where s': "unlockFile fd s = Some (0, s')" "fl_inv s' (p(fd := None))"
      "\<forall>l' \<in> ran (p(fd := None)). lock_file (locks s') l' = lock_file (locks s) l' \<and>
        (lk_readers (locks s' l') < 0) = (lk_readers (locks s l') < 0)" by blast
    have "held s' (p(fd := None)) = a(fd := None)"
    proof
      fix fd'
      show "held s' (p(fd := None)) fd' = (a(fd := None)) fd'"
      proof (cases "fd' = fd \<or> p fd' = None")
        case False
        then obtain l' where l': "p fd' = Some l'" by auto
        moreover have "l' \<in> ran (p(fd := None))" by (rule ranI [of _ fd']) (use l' False in simp)
        ultimately show ?thesis using s'(3) False by (simp add: held_def p(2))
      qed (auto simp: held_def p(2))
    qed
    with s' Some p(2) show ?thesis by (auto simp: fl_grants_def held_def)
  qed
qed

text \<open>Two descriptors that hold the same file hold it for reading.\<close>

lemma grants_compatible:
  assumes "fl_grants s a" "a fd1 = Some (f, w1)" "a fd2 = Some (f, w2)" "fd1 \<noteq> fd2"
  shows "\<not> w1 \<and> \<not> w2"
proof -
  obtain p where p: "fl_inv s p" "a = held s p" using assms(1) by (auto simp: fl_grants_def)
  obtain l1 l2 where l: "p fd1 = Some l1" "p fd2 = Some l2"
    "lock_file (locks s) l1 = f" "lock_file (locks s) l2 = f" "w1 = (lk_readers (locks s l1) < 0)"
    "w2 = (lk_readers (locks s l2) < 0)"
    using assms(2,3) by (auto simp: p(2) held_iff)
  then have eq: "l1 = l2" using p(1) by (auto simp: fl_inv_def dest!: inj_onD intro: ranI)
  have sub: "{fd1, fd2} \<subseteq> holders p l1" using l(1,2) eq by (auto simp: holders_def)
  have "card {fd1, fd2} \<le> card (holders p l1)"
    by (rule card_mono [OF finite_holders sub]) (use fl_inv_finite [OF p(1)] in simp)
  then have "2 \<le> card (holders p l1)" using assms(4) by simp
  moreover have "l1 \<in> ran p" using l(1) by (rule ranI)
  ultimately have "0 \<le> lk_readers (locks s l1)" using p(1) by (fastforce simp: fl_inv_def)
  with l eq show ?thesis by simp
qed

text \<open>
  Histories of calls: \<open>a\<close> is what the callers have been told, the locks that were granted by an answer 0 of \<open>lockFile\<close> and not given up
  by \<open>unlockFile\<close> since. The address of a new lock object is one that is not in use.
\<close>

inductive fl_history :: "fl_state \<Rightarrow> (word64 \<Rightarrow> ((word64 \<times> word64) \<times> bool) option) \<Rightarrow> bool" where
  init: "fl_history (initFileLocking m) Map.empty"
| granted: "fl_history s a \<Longrightarrow> a fd = None \<Longrightarrow> new_addr \<notin> live_locks s \<Longrightarrow> new_addr \<noteq> 0 \<Longrightarrow> key_addr \<notin> live_locks s \<Longrightarrow>
    lockFile key_addr new_addr fd dev ino for_writing s = Some (0, s') \<Longrightarrow> fl_history s' (a(fd \<mapsto> ((dev, ino), for_writing)))"
| refused: "fl_history s a \<Longrightarrow> a fd = None \<Longrightarrow> new_addr \<notin> live_locks s \<Longrightarrow> new_addr \<noteq> 0 \<Longrightarrow> key_addr \<notin> live_locks s \<Longrightarrow>
    lockFile key_addr new_addr fd dev ino for_writing s = Some (r, s') \<Longrightarrow> r \<noteq> 0 \<Longrightarrow> fl_history s' a"
| unlock: "fl_history s a \<Longrightarrow> unlockFile fd s = Some (r, s') \<Longrightarrow> fl_history s' (a(fd := None))"

lemma init_grants: "fl_grants (initFileLocking m) Map.empty"
proof -
  have "fl_inv (initFileLocking m) Map.empty"
    using allocHashTable_holds by (auto simp: fl_inv_def initFileLocking_def ht_map_def lock_cells_def)
  then show ?thesis by (auto simp: fl_grants_def held_def fun_eq_iff intro!: exI [of _ Map.empty])
qed

lemma history_grants: "fl_history s a \<Longrightarrow> fl_grants s a"
proof (induction rule: fl_history.induct)
  case (init m)
  then show ?case by (rule init_grants)
next
  case (granted s a fd new_addr key_addr dev ino for_writing s')
  from lockFile_grants [OF granted.IH granted.hyps(2-5), of dev ino for_writing] granted.hyps(6)
  show ?case by (metis (no_types, lifting) option.inject prod.inject zero_neq_neg_one)
next
  case (refused s a fd new_addr key_addr dev ino for_writing r s')
  then show ?case
    using lockFile_grants [of s a fd new_addr key_addr dev ino for_writing] by (auto split: if_splits)
next
  case (unlock s a fd r s')
  from unlockFile_correct [OF unlock.IH, of fd] unlock.hyps(2)
  have "if a fd = None then r = 1 \<and> s' = s else r = 0 \<and> fl_grants s' (a(fd := None))" by simp
  then show ?case using unlock.IH fun_upd_idem [of a fd None] by (cases "a fd = None") (simp_all only: if_True if_False simp_thms)
qed

text \<open>C35 After any sequence of calls of \<open>lockFile\<close> and \<open>unlockFile\<close>, two descriptors that have been granted the same file and have
  not unlocked it were both granted it for reading.\<close>

theorem single_writer_or_readers:
  assumes "fl_history s a" "a fd1 = Some (f, w1)" "a fd2 = Some (f, w2)" "fd1 \<noteq> fd2"
  shows "\<not> w1 \<and> \<not> w2"
  using grants_compatible [OF history_grants [OF assms(1)] assms(2-4)] .

theorem single_writer_or_readers_witness:
  "\<exists>s. fl_history s [1 \<mapsto> ((7, 8), False), 2 \<mapsto> ((7, 8), False)] \<and>
    (\<forall>w. \<not> fl_history s [1 \<mapsto> ((7, 8), False), 2 \<mapsto> ((7, 8), True)])"
proof -
  let ?a = "[1 \<mapsto> ((7 :: word64, 8 :: word64), False)] :: word64 \<Rightarrow> _"
  have h0: "fl_history fl_demo Map.empty" unfolding fl_demo_def by (rule fl_history.init)
  obtain s1 where s1: "fl_inv s1 [1 \<mapsto> 16]" "lk_readers (locks s1 16) = 1" "lock_file (locks s1) 16 = (7, 8)"
    "lockFile 1024 16 1 7 8 False fl_demo = Some (0, s1)"
    using lockFile_new [OF fl_demo_inv, where fd = 1 and new_addr = 16 and dev = 7 and ino = 8 and for_writing = False]
      obj_lookup [OF fl_demo_inv, of 1024 7 8] live_locks_ran [OF fl_demo_inv] by (auto simp: lock_file_def lockFile_def Let_def)
  have l0: "live_locks fl_demo = {}" "live_locks s1 = {16}" using live_locks_ran [OF fl_demo_inv] live_locks_ran [OF s1(1)] by auto
  have h1: "fl_history s1 ?a" using fl_history.granted [OF h0 _ _ _ _ s1(4)] l0 by simp
  have "fl_grants s1 ?a" by (rule history_grants [OF h1])
  then obtain s2 where "lockFile 1024 32 2 7 8 False s1 = Some (0, s2)"
    using lockFile_grants [of s1 ?a 2 32 1024 7 8 False] l0 by (auto split: if_splits)
  then have "fl_history s2 (?a(2 \<mapsto> ((7, 8), False)))" using fl_history.granted [OF h1, of 2 32 1024 7 8 False s2] l0 by simp
  moreover have "\<not> fl_history s [1 \<mapsto> ((7, 8), False), 2 \<mapsto> ((7, 8), True)]" for s
    using single_writer_or_readers [of s "[1 \<mapsto> ((7, 8), False), 2 \<mapsto> ((7, 8), True)]" 1 "(7, 8)" False 2 True] by auto
  ultimately show ?thesis by blast
qed

end
