(* ===== verification/ProddableBlocks.thy ===== *)
theory ProddableBlocks
  imports RTS_Prelude
begin

text \<open>
  The interval set by which the runtime linker checks the addresses it relocates
  (\<open>rts/linker/ProddableBlocks.c\<close>): an array of intervals sorted by start address, with binary
  search, insertion and coalescing. The array is the list of its first \<open>size\<close> elements; addresses
  are 64-bit words whose additions wrap around.
\<close>

section \<open>The set and its operations\<close>

record proddable_block =
  pb_start :: word64
  pb_end :: word64

record proddable_set =
  pbs_capacity :: nat
  pbs_data :: "proddable_block list"

definition initProddableBlockSet :: proddable_set where
  "initProddableBlockSet = \<lparr>pbs_capacity = 0, pbs_data = []\<rparr>"

definition freeProddableBlocks :: "proddable_set \<Rightarrow> proddable_set" where
  "freeProddableBlocks s = s\<lparr>pbs_data := [], pbs_capacity := 0\<rparr>"

function findLower_loop :: "proddable_block list \<Rightarrow> word64 \<Rightarrow> nat \<Rightarrow> nat \<Rightarrow> nat" where
  "findLower_loop data value l r =
    (if l < r then
       let mid = l + (r - l) div 2
       in if pb_start (data ! mid) < value then findLower_loop data value (mid + 1) r
          else findLower_loop data value l mid
     else l)"
  by pat_completeness auto
termination by (relation "measure (\<lambda>(data, value, l, r). r - l)") auto

declare findLower_loop.simps [simp del]

definition findLower :: "proddable_set \<Rightarrow> word64 \<Rightarrow> nat" where
  "findLower s value = findLower_loop (pbs_data s) value 0 (length (pbs_data s))"

definition containsSpan :: "proddable_set \<Rightarrow> word64 \<Rightarrow> word64 \<Rightarrow> bool" where
  "containsSpan s start stop =
    (let i = findLower s (start + 1)
     in i > 0 \<and> pb_start (pbs_data s ! (i - 1)) \<le> start \<and> stop \<le> pb_end (pbs_data s ! (i - 1)))"

text \<open>\<open>None\<close> is the call of \<open>barf\<close>.\<close>

definition checkProddableBlock :: "proddable_set \<Rightarrow> word64 \<Rightarrow> word64 \<Rightarrow> unit option" where
  "checkProddableBlock s addr sz = (if \<not> containsSpan s addr (addr + sz) then None else Some ())"

definition ensureCapacity :: "proddable_set \<Rightarrow> nat \<Rightarrow> proddable_set" where
  "ensureCapacity s new_capacity =
    (if new_capacity > pbs_capacity s then
       let cap = (if pbs_capacity s \<noteq> 0 then pbs_capacity s * 2 else 4);
           cap' = (if cap < new_capacity then new_capacity else cap)
       in s\<lparr>pbs_capacity := cap'\<rparr>
     else s)"

text \<open>The loop that absorbs the intervals to the right, up to the first that stays.\<close>

function coalesce :: "proddable_block list \<Rightarrow> nat \<Rightarrow> nat \<Rightarrow> proddable_block list \<times> nat" where
  "coalesce data i j =
    (if j < length data \<and> pb_start (data ! j) \<le> pb_end (data ! i) + 1
     then coalesce (data[i := (data ! i)\<lparr>pb_end := pb_end (data ! j)\<rparr>]) i (j + 1)
     else (data, j))"
  by pat_completeness auto
termination by (relation "measure (\<lambda>(data, i, j). length data - j)") auto

declare coalesce.simps [simp del]

definition addProddableBlock :: "proddable_set \<Rightarrow> word64 \<Rightarrow> word64 \<Rightarrow> proddable_set" where
  "addProddableBlock s start sz =
    (let stop = start + sz;
         i = findLower s start;
         data = pbs_data s;
         (set1, i1) =
           (if i > 0 \<and> start \<le> pb_end (data ! (i - 1)) + 1 then
              (if stop > pb_end (data ! (i - 1))
               then (s\<lparr>pbs_data := data[i - 1 := (data ! (i - 1))\<lparr>pb_end := stop\<rparr>]\<rparr>, i - 1)
               else (s, i - 1))
            else
              ((ensureCapacity s (length data + 1))
                 \<lparr>pbs_data := take i data @ \<lparr>pb_start = start, pb_end = stop\<rparr> # drop i data\<rparr>, i));
         (data2, j) = coalesce (pbs_data set1) i1 i1
     in if j \<noteq> i1 then set1\<lparr>pbs_data := take (i1 + 1) data2 @ drop j data2\<rparr>
        else set1\<lparr>pbs_data := data2\<rparr>)"

section \<open>The invariant\<close>

text \<open>An interval that is not empty and does not end at the last address.\<close>

definition block_ok :: "proddable_block \<Rightarrow> bool" where
  "block_ok x = (unat (pb_start x) \<le> unat (pb_end x) \<and> unat (pb_end x) + 1 < 2 ^ 64)"

definition before :: "proddable_block \<Rightarrow> proddable_block \<Rightarrow> bool" where
  "before x y = (unat (pb_end x) + 1 < unat (pb_start y))"

definition blocks_ok :: "proddable_block list \<Rightarrow> bool" where
  "blocks_ok data = (sorted_wrt before data \<and> (\<forall>x \<in> set data. block_ok x))"

definition pb_inv :: "proddable_set \<Rightarrow> bool" where
  "pb_inv s = (blocks_ok (pbs_data s) \<and> length (pbs_data s) \<le> pbs_capacity s)"

text \<open>The addresses of the set.\<close>

definition cover :: "proddable_block list \<Rightarrow> nat set" where
  "cover data = (\<Union>x \<in> set data. {unat (pb_start x)..unat (pb_end x)})"

lemma cover_simps [simp]:
  "cover [] = {}" "cover (x # xs) = {unat (pb_start x)..unat (pb_end x)} \<union> cover xs"
  "cover (xs @ ys) = cover xs \<union> cover ys"
  by (auto simp: cover_def)

lemma unat_end_plus1: "block_ok x \<Longrightarrow> unat (pb_end x + 1) = unat (pb_end x) + 1"
  by (simp add: block_ok_def unat_word_ariths)

lemma findLower_loop_bound:
  assumes "l \<le> r" "r \<le> length data" "\<And>k k'. k < k' \<Longrightarrow> k' < length data \<Longrightarrow> pb_start (data ! k) \<le> pb_start (data ! k')"
    "\<And>k. k < l \<Longrightarrow> pb_start (data ! k) < v" "\<And>k. r \<le> k \<Longrightarrow> k < length data \<Longrightarrow> \<not> pb_start (data ! k) < v"
  shows "findLower_loop data v l r \<le> length data \<and> (\<forall>k < findLower_loop data v l r. pb_start (data ! k) < v) \<and>
    (\<forall>k. findLower_loop data v l r \<le> k \<longrightarrow> k < length data \<longrightarrow> v \<le> pb_start (data ! k))"
  using assms
proof (induction data v l r rule: findLower_loop.induct)
  case (1 data v l r)
  show ?case
  proof (cases "l < r")
    case True
    let ?mid = "l + (r - l) div 2"
    have mid: "l \<le> ?mid" "?mid < r" using True by auto
    show ?thesis
    proof (cases "pb_start (data ! ?mid) < v")
      case lt: True
      have "pb_start (data ! k) < v" if "k < ?mid + 1" for k
      proof (cases "k = ?mid")
        case False
        then have "pb_start (data ! k) \<le> pb_start (data ! ?mid)" using that mid "1.prems"(2,3) by auto
        with lt show ?thesis by simp
      qed (use lt in simp)
      with "1.IH"(1) [OF True refl lt] "1.prems" mid
      show ?thesis by (subst (1 2 3) findLower_loop.simps) (simp add: True lt Let_def)
    next
      case ge: False
      have "\<not> pb_start (data ! k) < v" if "?mid \<le> k" "k < length data" for k
      proof (cases "k = ?mid")
        case False
        then have "pb_start (data ! ?mid) \<le> pb_start (data ! k)" using that mid "1.prems"(2,3) by auto
        with ge show ?thesis by simp
      qed (use ge in simp)
      with "1.IH"(2) [OF True refl ge] "1.prems" mid
      show ?thesis by (subst (1 2 3) findLower_loop.simps) (simp add: True ge Let_def)
    qed
  next
    case False
    with "1.prems" show ?thesis by (subst (1 2 3) findLower_loop.simps) (auto simp: not_less)
  qed
qed

lemma blocks_ok_starts:
  assumes "blocks_ok data" "k < k'" "k' < length data"
  shows "unat (pb_end (data ! k)) + 1 < unat (pb_start (data ! k'))" "pb_start (data ! k) \<le> pb_start (data ! k')"
proof -
  show 1: "unat (pb_end (data ! k)) + 1 < unat (pb_start (data ! k'))"
    using assms by (auto simp: blocks_ok_def before_def dest: sorted_wrt_nth_less)
  have "unat (pb_start (data ! k)) \<le> unat (pb_end (data ! k))"
    using assms by (auto simp: blocks_ok_def block_ok_def)
  with 1 show "pb_start (data ! k) \<le> pb_start (data ! k')" by (simp add: word_le_nat_alt)
qed

lemma findLower_spec:
  assumes "blocks_ok (pbs_data s)"
  shows "findLower s v \<le> length (pbs_data s)" "k < findLower s v \<Longrightarrow> pb_start (pbs_data s ! k) < v"
    "findLower s v \<le> k \<Longrightarrow> k < length (pbs_data s) \<Longrightarrow> v \<le> pb_start (pbs_data s ! k)"
  using findLower_loop_bound [of 0 "length (pbs_data s)" "pbs_data s" v] blocks_ok_starts(2) [OF assms]
  by (auto simp: findLower_def)

section \<open>Coalescing\<close>

fun absorb :: "proddable_block \<Rightarrow> proddable_block list \<Rightarrow> proddable_block list" where
  "absorb x [] = [x]"
| "absorb x (y # ys) = (if pb_start y \<le> pb_end x + 1 then absorb (x\<lparr>pb_end := pb_end y\<rparr>) ys else x # y # ys)"

lemma coalesce_absorb:
  "coalesce (pre @ x # mid @ ys) (length pre) (Suc (length pre + length mid)) = (d, j) \<Longrightarrow>
    j \<noteq> length pre \<and> take (Suc (length pre)) d @ drop j d = pre @ absorb x ys"
proof (induction ys arbitrary: x mid)
  case Nil
  then show ?case by (auto simp: coalesce.simps)
next
  case (Cons y ys)
  have nth: "(pre @ x # mid @ y # ys) ! Suc (length pre + length mid) = y"
    by (simp add: nth_append)
  show ?case
  proof (cases "pb_start y \<le> pb_end x + 1")
    case True
    then have "coalesce (pre @ x # mid @ y # ys) (length pre) (Suc (length pre + length mid)) =
      coalesce (pre @ x\<lparr>pb_end := pb_end y\<rparr> # (mid @ [y]) @ ys) (length pre) (Suc (length pre + length (mid @ [y])))"
      by (subst coalesce.simps) (simp add: nth)
    with Cons.prems Cons.IH [of "x\<lparr>pb_end := pb_end y\<rparr>" "mid @ [y]"] True show ?thesis by simp
  next
    case False
    with Cons.prems show ?thesis by (subst (asm) coalesce.simps) (auto simp: nth)
  qed
qed

lemma coalesce_list:
  assumes "block_ok x" "coalesce (pre @ x # ys) (length pre) (length pre) = (d, j)"
  shows "j \<noteq> length pre" "take (Suc (length pre)) d @ drop j d = pre @ absorb x ys"
proof -
  have "pb_start x \<le> pb_end x + 1"
    using assms(1) by (simp add: word_le_nat_alt unat_end_plus1) (simp add: block_ok_def)
  then have "coalesce (pre @ x # ys) (length pre) (length pre) = coalesce (pre @ x # [] @ ys) (length pre) (Suc (length pre + length []))"
    by (subst coalesce.simps) simp
  then have "coalesce (pre @ x # [] @ ys) (length pre) (Suc (length pre + length [])) = (d, j)" using assms(2) by simp
  from coalesce_absorb [OF this] show "j \<noteq> length pre" "take (Suc (length pre)) d @ drop j d = pre @ absorb x ys"
    by auto
qed

lemma absorb_start: "\<exists>z zs. absorb x ys = z # zs \<and> pb_start z = pb_start x"
  by (induction x ys rule: absorb.induct) auto

lemma absorb_ok:
  assumes "blocks_ok ys" "block_ok x" "\<forall>y \<in> set ys. pb_start x \<le> pb_start y"
  shows "blocks_ok (absorb x ys) \<and> cover (absorb x ys) \<subseteq> cover (x # ys) \<and> length (absorb x ys) \<le> Suc (length ys) \<and>
    (\<forall>z \<in> set (absorb x ys). pb_start x \<le> pb_start z)"
  using assms
proof (induction x ys rule: absorb.induct)
  case (2 x y ys)
  have y: "block_ok y" "blocks_ok ys" "\<forall>z \<in> set ys. before y z" and sy: "unat (pb_start x) \<le> unat (pb_start y)"
    using "2.prems" by (auto simp: blocks_ok_def word_le_nat_alt)
  show ?case
  proof (cases "pb_start y \<le> pb_end x + 1")
    case True
    let ?x = "x\<lparr>pb_end := pb_end y\<rparr>"
    have x: "block_ok ?x" using y(1) sy by (simp add: block_ok_def)
    have "unat (pb_start y) \<le> unat (pb_end x) + 1"
      using True unat_end_plus1 [OF "2.prems"(2)] by (simp add: word_le_nat_alt)
    then have "{unat (pb_start x)..unat (pb_end y)} \<subseteq> {unat (pb_start x)..unat (pb_end x)} \<union> {unat (pb_start y)..unat (pb_end y)}"
      by auto
    with "2.IH" [OF True y(2) x] "2.prems"(3) True show ?thesis by auto
  next
    case False
    then have "before x y" using unat_end_plus1 [OF "2.prems"(2)] by (simp add: before_def word_le_nat_alt)
    moreover have "before x z" if "z \<in> set ys" for z
      using y(1,3) that \<open>before x y\<close> by (fastforce simp: before_def block_ok_def)
    ultimately show ?thesis using "2.prems" False by (auto simp: blocks_ok_def)
  qed
qed (auto simp: blocks_ok_def)

text \<open>Nothing is lost when no interval absorbed ends before the one that absorbs it.\<close>

lemma absorb_cover:
  assumes "blocks_ok ys" "block_ok x" "\<forall>y \<in> set ys. pb_start x \<le> pb_start y"
    "\<forall>y \<in> set ys. unat (pb_start y) \<le> unat (pb_end x) + 1 \<longrightarrow> unat (pb_end x) \<le> unat (pb_end y)"
  shows "cover (absorb x ys) = cover (x # ys)"
proof (cases ys)
  case (Cons y zs)
  have y: "block_ok y" "blocks_ok zs" "\<forall>z \<in> set zs. before y z" and sy: "unat (pb_start x) \<le> unat (pb_start y)"
    using assms(1,3) Cons by (auto simp: blocks_ok_def word_le_nat_alt)
  show ?thesis
  proof (cases "pb_start y \<le> pb_end x + 1")
    case True
    then have le: "unat (pb_start y) \<le> unat (pb_end x) + 1" "unat (pb_end x) \<le> unat (pb_end y)"
      using unat_end_plus1 [OF assms(2)] assms(4) Cons by (auto simp: word_le_nat_alt)
    have "absorb (x\<lparr>pb_end := pb_end y\<rparr>) zs = x\<lparr>pb_end := pb_end y\<rparr> # zs"
    proof (cases zs)
      case (Cons z us)
      then have "unat (pb_end y) + 1 < unat (pb_start z)" using y(3) by (simp add: before_def)
      then show ?thesis using Cons unat_end_plus1 [OF y(1)] by (simp add: word_le_nat_alt)
    qed simp
    moreover have "{unat (pb_start x)..unat (pb_end y)} = {unat (pb_start x)..unat (pb_end x)} \<union> {unat (pb_start y)..unat (pb_end y)}"
      using le sy by auto
    ultimately show ?thesis using True Cons by auto
  next
    case False
    then show ?thesis using Cons by simp
  qed
qed simp

section \<open>Insertion\<close>

lemma blocks_ok_append:
  "blocks_ok (xs @ ys) \<longleftrightarrow> blocks_ok xs \<and> blocks_ok ys \<and> (\<forall>x \<in> set xs. \<forall>y \<in> set ys. before x y)"
  by (auto simp: blocks_ok_def sorted_wrt_append)

lemma blocks_ok_absorb:
  assumes "blocks_ok pre" "blocks_ok ys" "block_ok x" "\<forall>y \<in> set ys. pb_start x \<le> pb_start y" "\<forall>p \<in> set pre. before p x"
  shows "blocks_ok (pre @ absorb x ys)"
proof -
  have "before p z" if "p \<in> set pre" "z \<in> set (absorb x ys)" for p z
  proof -
    have "unat (pb_start x) \<le> unat (pb_start z)"
      using absorb_ok [OF assms(2-4)] that(2) by (auto simp: word_le_nat_alt)
    then show ?thesis using assms(5) that(1) by (force simp: before_def)
  qed
  then show ?thesis using absorb_ok [OF assms(2-4)] assms(1) by (auto simp: blocks_ok_append)
qed

text \<open>What the insertion makes of the array: a block before which everything stays, absorbing the rest.\<close>

lemma add_list:
  assumes inv: "pb_inv s" and wrap: "unat start + unat sz + 1 < 2 ^ 64"
  obtains pre x ys where "pbs_data (addProddableBlock s start sz) = pre @ absorb x ys"
    "blocks_ok pre" "blocks_ok ys" "block_ok x" "\<forall>y \<in> set ys. pb_start x \<le> pb_start y" "\<forall>p \<in> set pre. before p x"
    "cover (pre @ x # ys) = cover (pbs_data s) \<union> {unat start..unat start + unat sz}"
    "set ys \<subseteq> set (pbs_data s)" "\<forall>y \<in> set ys. start \<le> pb_start y"
    "unat (pb_end x) = unat start + unat sz \<or> (\<forall>y \<in> set ys. before x y)"
    "Suc (length pre + length ys) \<le> pbs_capacity (addProddableBlock s start sz)"
proof -
  let ?d = "pbs_data s" and ?i = "findLower s start"
  have ok: "blocks_ok ?d" using inv by (simp add: pb_inv_def)
  note fl = findLower_spec [OF ok, where v = start]
  have stop: "unat (start + sz) = unat start + unat sz" using wrap by (simp add: unat_word_ariths)
  have upper: "\<forall>y \<in> set (drop ?i ?d). start \<le> pb_start y"
    using fl(3) by (fastforce simp: in_set_conv_nth)
  show ?thesis
  proof (cases "?i > 0 \<and> start \<le> pb_end (?d ! (?i - 1)) + 1")
    case True
    let ?x = "?d ! (?i - 1)" and ?pre = "take (?i - 1) ?d" and ?ys = "drop ?i ?d"
    have i: "?i - 1 < length ?d" using True fl(1) by linarith
    have d: "?d = ?pre @ ?x # ?ys" using id_take_nth_drop [OF i] True by simp
    have ok': "blocks_ok (?pre @ ?x # ?ys)" using ok by (simp only: d [symmetric])
    have oks: "blocks_ok ?pre" "blocks_ok ?ys" "block_ok ?x" "\<forall>y \<in> set ?ys. before ?x y" "\<forall>p \<in> set ?pre. before p ?x"
      using ok' unfolding blocks_ok_append by (auto simp: blocks_ok_def)
    have lt: "unat (pb_start ?x) < unat start" using fl(2) [of "?i - 1"] True by (simp add: word_less_nat_alt)
    have adj: "unat start \<le> unat (pb_end ?x) + 1"
      using True unat_end_plus1 [OF oks(3)] by (simp add: word_le_nat_alt)
    define x where "x = (if start + sz > pb_end ?x then ?x\<lparr>pb_end := start + sz\<rparr> else ?x)"
    have xs: "pb_start x = pb_start ?x" "block_ok x"
      using oks(3) lt wrap stop by (auto simp: x_def block_ok_def)
    have len: "length ?pre = ?i - 1" using i by simp
    have upd: "?d[?i - 1 := x] = ?pre @ x # ?ys" using i by (simp add: upd_conv_take_nth_drop True)
    obtain d' j where c: "coalesce (?pre @ x # ?ys) (length ?pre) (length ?pre) = (d', j)" by fastforce
    note cl = coalesce_list [OF xs(2) c]
    have "addProddableBlock s start sz = s\<lparr>pbs_data := take (?i - 1 + 1) d' @ drop j d'\<rparr>"
    proof -
      have "(if start + sz > pb_end ?x then (s\<lparr>pbs_data := ?d[?i - 1 := ?x\<lparr>pb_end := start + sz\<rparr>]\<rparr>, ?i - 1) else (s, ?i - 1))
        = (s\<lparr>pbs_data := ?pre @ x # ?ys\<rparr>, ?i - 1)"
        using upd d by (auto simp: x_def)
      then show ?thesis
        using True c cl(1) unfolding addProddableBlock_def Let_def len by simp
    qed
    then have data: "pbs_data (addProddableBlock s start sz) = ?pre @ absorb x ?ys"
      "pbs_capacity (addProddableBlock s start sz) = pbs_capacity s"
      using cl(2) len by simp_all
    show ?thesis
    proof (rule that [OF data(1) oks(1,2) xs(2)])
      show "\<forall>y \<in> set ?ys. pb_start x \<le> pb_start y"
        using oks(3,4) xs(1) by (fastforce simp: before_def block_ok_def word_le_nat_alt)
      show "\<forall>p \<in> set ?pre. before p x" using oks(5) xs(1) by (simp add: before_def)
      have "{unat (pb_start x)..unat (pb_end x)} = {unat (pb_start ?x)..unat (pb_end ?x)} \<union> {unat start..unat start + unat sz}"
        using lt adj stop by (auto simp: x_def word_less_nat_alt)
      then have "cover (?pre @ x # ?ys) = cover (?pre @ ?x # ?ys) \<union> {unat start..unat start + unat sz}" by auto
      moreover have "cover (?pre @ ?x # ?ys) = cover ?d" by (simp only: d [symmetric])
      ultimately show "cover (?pre @ x # ?ys) = cover ?d \<union> {unat start..unat start + unat sz}" by blast
      show "set ?ys \<subseteq> set ?d" by (rule set_drop_subset)
      show "\<forall>y \<in> set ?ys. start \<le> pb_start y" by (rule upper)
      show "unat (pb_end x) = unat start + unat sz \<or> (\<forall>y \<in> set ?ys. before x y)"
        using oks(4) stop by (auto simp: x_def)
      show "Suc (length ?pre + length ?ys) \<le> pbs_capacity (addProddableBlock s start sz)"
        using inv i data(2) True by (auto simp: pb_inv_def)
    qed
  next
    case False
    let ?x = "\<lparr>pb_start = start, pb_end = start + sz\<rparr>" and ?pre = "take ?i ?d" and ?ys = "drop ?i ?d"
    let ?s = "ensureCapacity s (length ?d + 1)"
    have x: "block_ok ?x" using wrap stop by (simp add: block_ok_def)
    have len: "length ?pre = ?i" using fl(1) by simp
    have oks: "blocks_ok ?pre" "blocks_ok ?ys"
      using ok by (metis append_take_drop_id blocks_ok_append)+
    obtain d' j where c: "coalesce (?pre @ ?x # ?ys) (length ?pre) (length ?pre) = (d', j)" by fastforce
    note cl = coalesce_list [OF x c]
    have "addProddableBlock s start sz = ?s\<lparr>pbs_data := take (?i + 1) d' @ drop j d'\<rparr>"
      using c cl(1) unfolding addProddableBlock_def Let_def len if_not_P [OF False] by simp
    then have data: "pbs_data (addProddableBlock s start sz) = ?pre @ absorb ?x ?ys"
      "pbs_capacity (addProddableBlock s start sz) = pbs_capacity ?s"
      using cl(2) len by simp_all
    have pre: "before p ?x" if "p \<in> set ?pre" for p
    proof -
      from that obtain k where k: "k < ?i" "p = ?d ! k" using len by (auto simp: in_set_conv_nth)
      then have i: "0 < ?i" "?i - 1 < length ?d" using fl(1) by auto
      then have ok1: "block_ok (?d ! (?i - 1))" using ok by (simp add: blocks_ok_def)
      have "unat (pb_end p) \<le> unat (pb_end (?d ! (?i - 1)))"
      proof (cases "k = ?i - 1")
        case False
        then have "unat (pb_end (?d ! k)) + 1 < unat (pb_start (?d ! (?i - 1)))"
          using k i by (intro blocks_ok_starts(1) [OF ok]) auto
        then show ?thesis using ok1 k by (simp add: block_ok_def)
      qed (use k in simp)
      moreover have "unat (pb_end (?d ! (?i - 1))) + 1 < unat start"
        using False i unat_end_plus1 [OF ok1] by (auto simp: word_le_nat_alt)
      ultimately show ?thesis by (simp add: before_def)
    qed
    show ?thesis
    proof (rule that [OF data(1) oks x])
      show "cover (?pre @ ?x # ?ys) = cover ?d \<union> {unat start..unat start + unat sz}"
      proof -
        have "cover ?d = cover ?pre \<union> cover ?ys" by (metis append_take_drop_id cover_simps(3))
        then show ?thesis using stop by auto
      qed
      show "set ?ys \<subseteq> set ?d" by (rule set_drop_subset)
      show "Suc (length ?pre + length ?ys) \<le> pbs_capacity (addProddableBlock s start sz)"
        using data(2) inv fl(1) by (auto simp: ensureCapacity_def Let_def pb_inv_def)
    qed (use upper pre stop in auto)
  qed
qed

section \<open>Properties\<close>

text \<open>The binary search returns the first interval that starts at or after the value.\<close>

lemma findLower_correct:
  assumes "pb_inv s"
  shows "findLower s v = length (takeWhile (\<lambda>x. pb_start x < v) (pbs_data s))"
proof -
  have ok: "blocks_ok (pbs_data s)" using assms by (simp add: pb_inv_def)
  note fl = findLower_spec [OF ok, where v = v]
  have "takeWhile (\<lambda>x. pb_start x < v) (pbs_data s) = take (findLower s v) (pbs_data s)"
    using fl by (intro takeWhile_eq_take_P_nth) (auto simp: not_less)
  then show ?thesis using fl(1) by simp
qed

lemma span_in_one_block:
  assumes ok: "blocks_ok D" and le: "unat start \<le> unat stop"
  shows "{unat start..unat stop} \<subseteq> cover D \<longleftrightarrow> (\<exists>k < length D. unat (pb_start (D ! k)) \<le> unat start \<and> unat stop \<le> unat (pb_end (D ! k)))"
proof
  assume sub: "{unat start..unat stop} \<subseteq> cover D"
  then obtain k where k: "k < length D" "unat (pb_start (D ! k)) \<le> unat start" "unat start \<le> unat (pb_end (D ! k))"
    using le by (fastforce simp: cover_def in_set_conv_nth)
  have "unat stop \<le> unat (pb_end (D ! k))"
  proof (rule ccontr)
    assume "\<not> unat stop \<le> unat (pb_end (D ! k))"
    then have "unat (pb_end (D ! k)) + 1 \<in> {unat start..unat stop}" using k(3) by auto
    then obtain k' where k': "k' < length D" "unat (pb_start (D ! k')) \<le> unat (pb_end (D ! k)) + 1"
      "unat (pb_end (D ! k)) + 1 \<le> unat (pb_end (D ! k'))"
      using sub by (fastforce simp: cover_def in_set_conv_nth)
    have okk: "block_ok (D ! k)" using ok k(1) by (simp add: blocks_ok_def)
    consider "k' < k" | "k' = k" | "k < k'" by linarith
    then show False
    proof cases
      case 1
      then show ?thesis using blocks_ok_starts(1) [OF ok 1 k(1)] k'(3) okk by (simp add: block_ok_def)
    next
      case 2
      then show ?thesis using k'(3) by simp
    next
      case 3
      then show ?thesis using blocks_ok_starts(1) [OF ok 3 k'(1)] k'(2) by simp
    qed
  qed
  with k show "\<exists>k < length D. unat (pb_start (D ! k)) \<le> unat start \<and> unat stop \<le> unat (pb_end (D ! k))" by blast
next
  assume "\<exists>k < length D. unat (pb_start (D ! k)) \<le> unat start \<and> unat stop \<le> unat (pb_end (D ! k))"
  then obtain k where "k < length D" "unat (pb_start (D ! k)) \<le> unat start" "unat stop \<le> unat (pb_end (D ! k))" by blast
  then have "D ! k \<in> set D" "{unat start..unat stop} \<subseteq> {unat (pb_start (D ! k))..unat (pb_end (D ! k))}" by auto
  then show "{unat start..unat stop} \<subseteq> cover D" unfolding cover_def by blast
qed

lemma containsSpan_one_block:
  assumes ok: "blocks_ok (pbs_data s)" and le: "unat start \<le> unat stop" "unat start + 1 < 2 ^ 64"
  shows "(\<exists>k < length (pbs_data s). unat (pb_start (pbs_data s ! k)) \<le> unat start \<and> unat stop \<le> unat (pb_end (pbs_data s ! k))) \<longleftrightarrow> containsSpan s start stop"
proof -
  let ?d = "pbs_data s" and ?i = "findLower s (start + 1)"
  note fl = findLower_spec [OF ok, where v = "start + 1"]
  have s1: "pb_start x < start + 1 \<longleftrightarrow> unat (pb_start x) \<le> unat start" for x
    using le(2) by (simp add: word_less_nat_alt unat_word_ariths less_Suc_eq_le)
  show ?thesis
  proof
    assume "\<exists>k < length ?d. unat (pb_start (?d ! k)) \<le> unat start \<and> unat stop \<le> unat (pb_end (?d ! k))"
    then obtain k where k: "k < length ?d" "unat (pb_start (?d ! k)) \<le> unat start" "unat stop \<le> unat (pb_end (?d ! k))" by blast
    then have ki: "k < ?i" using fl(3) [of k] s1 by (meson not_less)
    have "k = ?i - 1"
    proof (rule ccontr)
      assume "k \<noteq> ?i - 1"
      then have "k < ?i - 1" "?i - 1 < length ?d" "?i - 1 < ?i" using ki fl(1) by auto
      then have "unat (pb_end (?d ! k)) + 1 < unat (pb_start (?d ! (?i - 1)))" "unat (pb_start (?d ! (?i - 1))) \<le> unat start"
        using blocks_ok_starts(1) [OF ok] fl(2) s1 by blast+
      then show False using k(3) le(1) by simp
    qed
    then show "containsSpan s start stop" using ki k by (simp add: containsSpan_def Let_def word_le_nat_alt)
  next
    assume "containsSpan s start stop"
    then have "?i > 0" "unat (pb_start (?d ! (?i - 1))) \<le> unat start" "unat stop \<le> unat (pb_end (?d ! (?i - 1)))"
      by (auto simp: containsSpan_def Let_def word_le_nat_alt)
    then show "\<exists>k < length ?d. unat (pb_start (?d ! k)) \<le> unat start \<and> unat stop \<le> unat (pb_end (?d ! k))"
      using fl(1) by (intro exI [of _ "?i - 1"]) auto
  qed
qed

text \<open>C36 The check of a fixup succeeds exactly when every address from its first to one past its last
  byte belongs to the set.\<close>

theorem containsSpan_correct:
  assumes "pb_inv s" "unat start \<le> unat stop" "unat start + 1 < 2 ^ 64"
  shows "containsSpan s start stop \<longleftrightarrow> {unat start..unat stop} \<subseteq> cover (pbs_data s)"
  using assms span_in_one_block [of "pbs_data s" start stop] containsSpan_one_block [of s start stop]
  by (simp add: pb_inv_def)

theorem containsSpan_correct_witness:
  "containsSpan \<lparr>pbs_capacity = 4, pbs_data = [\<lparr>pb_start = 10, pb_end = 12\<rparr>]\<rparr> 10 11"
  by (subst containsSpan_correct) (auto simp: pb_inv_def blocks_ok_def block_ok_def)

text \<open>The set in terms of \<open>cover\<close>, which counts the ends as the comment in the code does.\<close>

lemma addProddableBlock_cover:
  assumes "pb_inv s" "unat start + unat sz + 1 < 2 ^ 64"
  shows "pb_inv (addProddableBlock s start sz) \<and>
    cover (pbs_data (addProddableBlock s start sz)) \<subseteq> cover (pbs_data s) \<union> {unat start..unat start + unat sz} \<and>
    ((\<forall>x \<in> set (pbs_data s). start \<le> pb_start x \<and> unat (pb_start x) \<le> unat start + unat sz + 1 \<longrightarrow>
        unat start + unat sz \<le> unat (pb_end x)) \<longrightarrow>
      cover (pbs_data (addProddableBlock s start sz)) = cover (pbs_data s) \<union> {unat start..unat start + unat sz})"
proof -
  obtain pre x ys where a: "pbs_data (addProddableBlock s start sz) = pre @ absorb x ys"
    "blocks_ok pre" "blocks_ok ys" "block_ok x" "\<forall>y \<in> set ys. pb_start x \<le> pb_start y" "\<forall>p \<in> set pre. before p x"
    "cover (pre @ x # ys) = cover (pbs_data s) \<union> {unat start..unat start + unat sz}"
    "set ys \<subseteq> set (pbs_data s)" "\<forall>y \<in> set ys. start \<le> pb_start y"
    "unat (pb_end x) = unat start + unat sz \<or> (\<forall>y \<in> set ys. before x y)"
    "Suc (length pre + length ys) \<le> pbs_capacity (addProddableBlock s start sz)"
    by (rule add_list [OF assms]) (rule that)
  note ab = absorb_ok [OF a(3-5)]
  have "pb_inv (addProddableBlock s start sz)"
    unfolding pb_inv_def a(1) using blocks_ok_absorb [OF a(2-6)] ab a(11) by auto
  moreover have "cover (pre @ absorb x ys) \<subseteq> cover (pre @ x # ys)" using ab by auto
  moreover have "cover (pre @ absorb x ys) = cover (pre @ x # ys)"
    if c: "\<forall>x \<in> set (pbs_data s). start \<le> pb_start x \<and> unat (pb_start x) \<le> unat start + unat sz + 1 \<longrightarrow>
        unat start + unat sz \<le> unat (pb_end x)"
  proof -
    have "cover (absorb x ys) = cover (x # ys)"
    proof (rule absorb_cover [OF a(3-5)], intro ballI impI)
      fix y assume y: "y \<in> set ys" "unat (pb_start y) \<le> unat (pb_end x) + 1"
      show "unat (pb_end x) \<le> unat (pb_end y)"
        using a(8-10) c y by (auto simp: before_def)
    qed
    then show ?thesis by simp
  qed
  ultimately show ?thesis unfolding a(1) a(7) [symmetric] by blast
qed

text \<open>
  The bytes of the blocks that were added: the code stores one past the last byte as the end of a block. Since it compares with
  \<open>end + 1\<close> all the same, it also joins blocks that have one byte between them.
\<close>

definition block_bytes :: "proddable_block list \<Rightarrow> nat set" where
  "block_bytes data = (\<Union>x \<in> set data. {unat (pb_start x)..<unat (pb_end x)})"

definition one_byte_gaps :: "proddable_block list \<Rightarrow> nat \<Rightarrow> nat \<Rightarrow> nat set" where
  "one_byte_gaps data start stop =
    {a. a + 1 = start \<and> (\<exists>x \<in> set data. unat (pb_end x) = a) \<or> a = stop \<and> (\<exists>x \<in> set data. unat (pb_start x) = a + 1)}"

lemma block_bytes_cover:
  assumes "blocks_ok data"
  shows "a \<in> block_bytes data \<longleftrightarrow> a \<in> cover data \<and> a + 1 \<in> cover data"
proof
  assume "a \<in> cover data \<and> a + 1 \<in> cover data"
  then obtain x y where xy: "x \<in> set data" "unat (pb_start x) \<le> a" "a \<le> unat (pb_end x)"
    "y \<in> set data" "unat (pb_start y) \<le> a + 1" "a + 1 \<le> unat (pb_end y)" by (auto simp: cover_def)
  obtain i j where ij: "i < length data" "j < length data" "x = data ! i" "y = data ! j" using xy(1,4) by (auto simp: in_set_conv_nth)
  have sep: "before (data ! k) (data ! l)" if "k < l" "l < length data" for k l
    using assms that by (auto simp: blocks_ok_def sorted_wrt_iff_nth_less)
  have "\<not> i < j" using sep [of i j] ij xy by (auto simp: before_def)
  moreover have "j < i \<Longrightarrow> unat (pb_end y) + 1 < unat (pb_start x)" using sep [of j i] ij by (simp add: before_def)
  ultimately show "a \<in> block_bytes data" using ij xy by (cases "i = j") (auto simp: block_bytes_def)
next
  assume "a \<in> block_bytes data"
  then obtain x where "x \<in> set data" "unat (pb_start x) \<le> a" "a < unat (pb_end x)" by (auto simp: block_bytes_def)
  then show "a \<in> cover data \<and> a + 1 \<in> cover data" unfolding cover_def by (intro conjI UN_I [of x]) auto
qed

lemma bytes_union:
  assumes "blocks_ok data" "start \<le> stop"
  shows "{a. {a, a + 1} \<subseteq> cover data \<union> {start..stop}} = block_bytes data \<union> {start..<stop} \<union> one_byte_gaps data start stop"
proof (rule set_eqI)
  fix a
  have c: "b \<in> cover data \<longleftrightarrow> (\<exists>x \<in> set data. unat (pb_start x) \<le> b \<and> b \<le> unat (pb_end x))" for b by (auto simp: cover_def)
  have l: "a \<in> block_bytes data \<or> (\<exists>x \<in> set data. unat (pb_end x) = a)" if "a \<in> cover data"
    using that by (force simp: block_bytes_def cover_def)
  have r: "a \<in> block_bytes data \<or> (\<exists>x \<in> set data. unat (pb_start x) = a + 1)" if a1: "a + 1 \<in> cover data"
  proof -
    obtain x where x: "x \<in> set data" "unat (pb_start x) \<le> a + 1" "a + 1 \<le> unat (pb_end x)" using a1 by (auto simp: cover_def)
    show ?thesis
    proof (cases "unat (pb_start x) = a + 1")
      case False
      then show ?thesis using x unfolding block_bytes_def by (intro disjI1 UN_I [of x]) auto
    qed (use x(1) in blast)
  qed
  have e: "\<exists>x \<in> set data. unat (pb_end x) = b \<Longrightarrow> b \<in> cover data" "\<exists>x \<in> set data. unat (pb_start x) = b \<Longrightarrow> b \<in> cover data" for b
    using assms(1) by (auto simp: cover_def blocks_ok_def block_ok_def)
  show "a \<in> {a. {a, a + 1} \<subseteq> cover data \<union> {start..stop}} \<longleftrightarrow> a \<in> block_bytes data \<union> {start..<stop} \<union> one_byte_gaps data start stop"
  proof (cases "a + 1 \<in> {start..stop}"; cases "a \<in> {start..stop}")
    assume "a + 1 \<in> {start..stop}" "a \<in> {start..stop}"
    then show ?thesis by auto
  next
    assume 1: "a + 1 \<in> {start..stop}" "a \<notin> {start..stop}"
    then have "a + 1 = start" by auto
    then show ?thesis using 1 l e(1) [of a] block_bytes_cover [OF assms(1), of a] by (auto simp: one_byte_gaps_def)
  next
    assume 1: "a + 1 \<notin> {start..stop}" "a \<in> {start..stop}"
    then have "a = stop" by auto
    then show ?thesis using 1 r e(2) [of "a + 1"] block_bytes_cover [OF assms(1), of a] by (auto simp: one_byte_gaps_def)
  next
    assume 1: "a + 1 \<notin> {start..stop}" "a \<notin> {start..stop}"
    then have "a \<notin> {start..<stop}" by auto
    moreover have "a \<notin> one_byte_gaps data start stop" using 1 assms(2) by (auto simp: one_byte_gaps_def)
    moreover have "{a, a + 1} \<subseteq> cover data \<union> {start..stop} \<longleftrightarrow> a \<in> block_bytes data" using 1 block_bytes_cover [OF assms(1), of a] by blast
    ultimately show ?thesis by blast
  qed
qed

text \<open>C37 Insertion keeps the array sorted, its intervals apart, and within its capacity. The bytes of the set are then the old ones, those of the
  new block, and a single byte between the new block and an old one next to it, if there is just one; no other address is ever added, and none
  of these is lost provided no older interval inside the new block ends before it.
\<close>

theorem addProddableBlock_correct:
  assumes "pb_inv s" "unat start + unat sz + 1 < 2 ^ 64"
  shows "pb_inv (addProddableBlock s start sz) \<and>
    block_bytes (pbs_data (addProddableBlock s start sz)) \<subseteq>
      block_bytes (pbs_data s) \<union> {unat start..<unat start + unat sz} \<union> one_byte_gaps (pbs_data s) (unat start) (unat start + unat sz) \<and>
    ((\<forall>x \<in> set (pbs_data s). start \<le> pb_start x \<and> unat (pb_start x) \<le> unat start + unat sz + 1 \<longrightarrow>
        unat start + unat sz \<le> unat (pb_end x)) \<longrightarrow>
      block_bytes (pbs_data (addProddableBlock s start sz)) =
        block_bytes (pbs_data s) \<union> {unat start..<unat start + unat sz} \<union> one_byte_gaps (pbs_data s) (unat start) (unat start + unat sz))"
proof -
  let ?s = "addProddableBlock s start sz"
  note c = addProddableBlock_cover [OF assms]
  have b: "blocks_ok (pbs_data s)" "blocks_ok (pbs_data ?s)" using assms(1) c by (simp_all add: pb_inv_def)
  have e: "block_bytes (pbs_data ?s) = {a. {a, a + 1} \<subseteq> cover (pbs_data ?s)}" using block_bytes_cover [OF b(2)] by auto
  show ?thesis unfolding bytes_union [OF b(1) le_add1, symmetric] e using c by auto
qed

theorem addProddableBlock_correct_witness:
  "block_bytes (pbs_data (addProddableBlock \<lparr>pbs_capacity = 4, pbs_data = [\<lparr>pb_start = 10, pb_end = 12\<rparr>]\<rparr> 5 6)) = {5..<12}"
proof -
  let ?s = "\<lparr>pbs_capacity = 4, pbs_data = [\<lparr>pb_start = 10, pb_end = 12\<rparr>]\<rparr>"
  have "pb_inv ?s" by (simp add: pb_inv_def blocks_ok_def block_ok_def)
  from addProddableBlock_correct [OF this, of 5 6]
  have "block_bytes (pbs_data (addProddableBlock ?s 5 6)) = {10..<12} \<union> {5..<11} \<union> one_byte_gaps (pbs_data ?s) 5 11" by (simp add: block_bytes_def)
  moreover have "one_byte_gaps (pbs_data ?s) 5 11 = {}" by (auto simp: one_byte_gaps_def)
  ultimately show ?thesis by auto
qed

text \<open>A byte between two blocks that was never added is accepted.\<close>

lemma addProddableBlock_bridges_gap:
  "let s = addProddableBlock (addProddableBlock initProddableBlockSet 10 2) 13 2
   in pbs_data s = [\<lparr>pb_start = 10, pb_end = 15\<rparr>] \<and> checkProddableBlock s 12 1 = Some ()"
  by code_simp

text \<open>A new block that contains an older interval and reaches beyond it is cut off at the end of the
  older one, so the check refuses addresses of the block just added.\<close>

lemma addProddableBlock_truncates:
  "let s = addProddableBlock (addProddableBlock initProddableBlockSet 10 2) 0 20
   in pbs_data s = [\<lparr>pb_start = 0, pb_end = 12\<rparr>] \<and> checkProddableBlock s 15 1 = None"
  by code_simp

end
