(* ===== verification/Pools.thy ===== *)
theory Pools
  imports RTS_Prelude "HOL-Library.Multiset"
begin

text \<open>
  Pools of lazily allocated resources (\<open>rts/Pool.c\<close>, \<open>rts/Pool.h\<close>). The lists of entries keep the
  order of the C lists. A call that may allocate takes the resource that \<open>alloc_fn\<close> would return; a
  call that may free returns what it passes to \<open>free_fn\<close>, in order. Each call runs under the mutex
  and is one step.
\<close>

section \<open>The pool and its operations\<close>

record pool_entry =
  pe_thing :: word64
  pe_should_free :: bool

record pool =
  max_size :: word32
  desired_size :: word32
  current_size :: word32
  available :: "pool_entry list"
  taken :: "pool_entry list"

definition poolInit :: "word32 \<Rightarrow> word32 \<Rightarrow> pool" where
  "poolInit msize dsize =
    \<lparr>max_size = (if msize = 0 then - 1 else msize), desired_size = dsize, current_size = 0,
     available = [], taken = []\<rparr>"

fun free_entries :: "word32 \<Rightarrow> word32 \<Rightarrow> pool_entry list \<Rightarrow> word32 \<times> pool_entry list \<times> word64 list" where
  "free_entries target current [] = (current, [], [])"
| "free_entries target current (ent # next) =
    (if current > target
     then case free_entries target (current - 1) next of (c, es, freed) \<Rightarrow> (c, es, pe_thing ent # freed)
     else (current, ent # next, []))"

definition free_available :: "pool \<Rightarrow> word32 \<Rightarrow> pool \<times> word64 list" where
  "free_available p target =
    (case free_entries target (current_size p) (available p) of
       (c, es, freed) \<Rightarrow> (p\<lparr>current_size := c, available := es\<rparr>, freed))"

definition poolSetDesiredSize :: "pool \<Rightarrow> word32 \<Rightarrow> pool \<times> word64 list" where
  "poolSetDesiredSize p target = free_available (p\<lparr>desired_size := target\<rparr>) target"

definition poolSetMaxSize :: "pool \<Rightarrow> word32 \<Rightarrow> pool \<times> word64 list" where
  "poolSetMaxSize p target =
    (let target' = (if target = 0 then - 1 else target);
         p' = p\<lparr>max_size := target'\<rparr>
     in if desired_size p' > max_size p' then free_available (p'\<lparr>desired_size := target'\<rparr>) target'
        else (p', []))"

definition poolGetMaxSize :: "pool \<Rightarrow> word32" where
  "poolGetMaxSize p = max_size p"

definition poolGetDesiredSize :: "pool \<Rightarrow> word32" where
  "poolGetDesiredSize p = desired_size p"

text \<open>The answer 1 with the pool left as it is, or 0 and the pool closed; with the resources that are
  still in the pool when its memory is freed.\<close>

definition poolFree :: "pool \<Rightarrow> int \<times> word64 list \<times> pool_entry list" where
  "poolFree p =
    (if taken p \<noteq> [] then (1, [], available p)
     else case poolSetMaxSize p 0 of (p', freed) \<Rightarrow> (0, freed, available p'))"

definition poolTryTake_entry :: "word64 \<Rightarrow> pool \<Rightarrow> (pool_entry \<times> pool) option" where
  "poolTryTake_entry fresh p =
    (case available p of
       ent # next \<Rightarrow> Some (ent, p\<lparr>available := next, taken := ent # taken p\<rparr>)
     | [] \<Rightarrow>
         (if current_size p < max_size p then
            let ent = \<lparr>pe_thing = fresh, pe_should_free = False\<rparr>
            in Some (ent, p\<lparr>current_size := current_size p + 1, taken := ent # taken p\<rparr>)
          else None))"

text \<open>The result 0 stands for \<open>NULL\<close>.\<close>

definition poolTryTake :: "word64 \<Rightarrow> pool \<Rightarrow> word64 \<times> pool" where
  "poolTryTake fresh p =
    (case poolTryTake_entry fresh p of None \<Rightarrow> (0, p) | Some (ent, p') \<Rightarrow> (pe_thing ent, p'))"

text \<open>\<open>None\<close> is the wait for the condition variable, or \<open>barf\<close> in the non-threaded runtime.\<close>

definition poolTake :: "word64 \<Rightarrow> pool \<Rightarrow> (word64 \<times> pool) option" where
  "poolTake fresh p = map_option (\<lambda>(ent, p'). (pe_thing ent, p')) (poolTryTake_entry fresh p)"

text \<open>The walk of \<open>poolRelease\<close> along the taken list: the entry found and the list without it.\<close>

fun unlink_entry :: "word64 \<Rightarrow> pool_entry list \<Rightarrow> (pool_entry \<times> pool_entry list) option" where
  "unlink_entry thing [] = None"
| "unlink_entry thing (ent # next) =
    (if pe_thing ent = thing then Some (ent, next)
     else map_option (\<lambda>(e, es). (e, ent # es)) (unlink_entry thing next))"

text \<open>\<open>None\<close> is the call of \<open>barf\<close>; the boolean tells whether a waiting thread is signalled.\<close>

definition poolRelease :: "word64 \<Rightarrow> pool \<Rightarrow> (pool \<times> word64 list \<times> bool) option" where
  "poolRelease thing p =
    (case unlink_entry thing (taken p) of
       None \<Rightarrow> None
     | Some (ent, es) \<Rightarrow>
         (let p' = p\<lparr>taken := es\<rparr>
          in if current_size p' > desired_size p' \<or> pe_should_free ent
             then Some (p', [pe_thing ent], False)
             else Some (p'\<lparr>available := ent # available p'\<rparr>, [], True)))"

definition poolFlush :: "pool \<Rightarrow> pool \<times> word64 list" where
  "poolFlush p =
    (case free_available p 0 of
       (p', freed) \<Rightarrow> (p'\<lparr>taken := map (\<lambda>ent. ent\<lparr>pe_should_free := True\<rparr>) (taken p')\<rparr>, freed))"

section \<open>Runs of a pool\<close>

text \<open>
  \<open>pool_run p A F\<close>: the pool can reach \<open>p\<close> after \<open>alloc_fn\<close> returned \<open>A\<close> and \<open>free_fn\<close> received \<open>F\<close>. A call of \<open>poolFree\<close> that is refused
  leaves the pool; one that is not ends the run.
\<close>

inductive pool_run :: "pool \<Rightarrow> word64 multiset \<Rightarrow> word64 multiset \<Rightarrow> bool" where
  init: "pool_run (poolInit msize dsize) {#} {#}"
| reuse: "pool_run p A F \<Longrightarrow> available p \<noteq> [] \<Longrightarrow> poolTryTake_entry fresh p = Some (ent, p') \<Longrightarrow> pool_run p' A F"
| alloc: "pool_run p A F \<Longrightarrow> available p = [] \<Longrightarrow> poolTryTake_entry fresh p = Some (ent, p') \<Longrightarrow>
    pool_run p' (add_mset fresh A) F"
| release: "pool_run p A F \<Longrightarrow> poolRelease thing p = Some (p', freed, sig) \<Longrightarrow> pool_run p' A (F + mset freed)"
| set_desired: "pool_run p A F \<Longrightarrow> poolSetDesiredSize p n = (p', freed) \<Longrightarrow> pool_run p' A (F + mset freed)"
| set_max: "pool_run p A F \<Longrightarrow> poolSetMaxSize p n = (p', freed) \<Longrightarrow> pool_run p' A (F + mset freed)"
| flush: "pool_run p A F \<Longrightarrow> poolFlush p = (p', freed) \<Longrightarrow> pool_run p' A (F + mset freed)"
| free_refused: "pool_run p A F \<Longrightarrow> poolFree p = (1, freed, left) \<Longrightarrow> pool_run p A (F + mset freed)"

definition things :: "pool_entry list \<Rightarrow> word64 multiset" where
  "things es = image_mset pe_thing (mset es)"

lemma things_simps [simp]:
  "things [] = {#}" "things (e # es) = add_mset (pe_thing e) (things es)"
  by (simp_all add: things_def)

lemma size_things [simp]: "size (things es) = length es"
  by (simp add: things_def)

lemma things_flagged [simp]: "things (map (\<lambda>ent. ent\<lparr>pe_should_free := b\<rparr>) es) = things es"
  by (induction es) auto

definition pool_inv :: "pool \<Rightarrow> word64 multiset \<Rightarrow> word64 multiset \<Rightarrow> bool" where
  "pool_inv p A F = (things (available p) + things (taken p) + F = A \<and>
     length (available p) + length (taken p) \<le> unat (current_size p))"

lemma unat_pred: "(w :: word32) > t \<Longrightarrow> unat (w - 1) = unat w - 1"
  by (metis not_less_zero unat_minus_one word_coorder.extremum_strict word_gt_0)

lemma unat_succ:
  assumes "(w :: word32) < m"
  shows "unat (w + 1) = unat w + 1"
proof -
  have "unat w < unat m" using assms by (simp add: word_less_nat_alt)
  moreover have "unat m < 2 ^ LENGTH(32)" by (rule unsigned_less)
  ultimately have "unat w + 1 < 2 ^ 32" by simp
  then show ?thesis by (simp add: unat_word_ariths)
qed

lemma free_entries_spec:
  "free_entries t c es = (c', es', freed) \<Longrightarrow> n + length es \<le> unat c \<Longrightarrow>
    mset freed + things es' = things es \<and> n + length es' \<le> unat c' \<and> unat c' = unat c - length freed \<and>
    length freed + length es' = length es \<and> (es' = [] \<or> c' \<le> t)"
proof (induction t c es arbitrary: c' es' freed n rule: free_entries.induct)
  case (2 t c ent es)
  show ?case
  proof (cases "c > t")
    case True
    obtain c1 es1 fr1 where r: "free_entries t (c - 1) es = (c1, es1, fr1)" by (metis prod_cases3)
    have "n + length es \<le> unat (c - 1)" using "2.prems"(2) unat_pred [OF True] by simp
    from "2.IH" [OF True r this] show ?thesis using "2.prems" True r unat_pred [OF True] by auto
  next
    case False
    then show ?thesis using "2.prems" by auto
  qed
qed auto

lemma free_available_inv:
  "pool_inv p A F \<Longrightarrow> free_available p n = (p', freed) \<Longrightarrow> pool_inv p' A (F + mset freed) \<and> taken p' = taken p"
  using free_entries_spec [of n "current_size p" "available p" _ _ _ "length (taken p)"]
  by (auto simp: pool_inv_def free_available_def ac_simps split: prod.splits)

lemma unlink_entry_spec:
  "unlink_entry t es = Some (e, es') \<Longrightarrow> pe_thing e = t \<and> things es = add_mset t (things es') \<and> length es = Suc (length es')"
  by (induction es arbitrary: es') (auto split: if_splits)

lemma unlink_entry_None: "unlink_entry t es = None \<longleftrightarrow> t \<notin># things es"
  by (induction es) auto

lemma pool_inv_cong:
  "available p' = available p \<Longrightarrow> taken p' = taken p \<Longrightarrow> current_size p' = current_size p \<Longrightarrow> pool_inv p' = pool_inv p"
  by (simp add: fun_eq_iff pool_inv_def)

lemma take_inv:
  assumes "pool_inv p A F" "poolTryTake_entry fresh p = Some (ent, p')"
  shows "pool_inv p' (if available p = [] then add_mset fresh A else A) F"
proof (cases "available p")
  case Nil
  have "unat (current_size p + 1) = unat (current_size p) + 1" if "current_size p < max_size p"
    using that by (rule unat_succ)
  with assms Nil show ?thesis by (auto simp: pool_inv_def poolTryTake_entry_def Let_def split: if_splits)
qed (use assms in \<open>auto simp: pool_inv_def poolTryTake_entry_def\<close>)

lemma release_inv:
  assumes "pool_inv p A F" "poolRelease thing p = Some (p', freed, sig)"
  shows "pool_inv p' A (F + mset freed)"
proof -
  obtain ent es where u: "unlink_entry thing (taken p) = Some (ent, es)"
    using assms(2) by (auto simp: poolRelease_def split: option.splits)
  with unlink_entry_spec [OF u] assms show ?thesis
    by (auto simp: poolRelease_def pool_inv_def Let_def split: if_splits)
qed

lemma flush_inv:
  assumes "pool_inv p A F" "poolFlush p = (p', freed)"
  shows "pool_inv p' A (F + mset freed)"
proof -
  obtain p1 where p1: "free_available p 0 = (p1, freed)"
    "p' = p1\<lparr>taken := map (\<lambda>ent. ent\<lparr>pe_should_free := True\<rparr>) (taken p1)\<rparr>"
    using assms(2) by (auto simp: poolFlush_def split: prod.splits)
  with free_available_inv [OF assms(1) p1(1)] show ?thesis by (auto simp: pool_inv_def)
qed

lemma set_desired_inv:
  assumes "pool_inv p A F" "poolSetDesiredSize p n = (p', freed)"
  shows "pool_inv p' A (F + mset freed)"
proof -
  have "pool_inv (p\<lparr>desired_size := n\<rparr>) A F" using assms(1) by (simp add: pool_inv_def)
  from free_available_inv [OF this] assms(2) show ?thesis by (simp add: poolSetDesiredSize_def)
qed

lemma set_max_inv:
  assumes "pool_inv p A F" "poolSetMaxSize p n = (p', freed)"
  shows "pool_inv p' A (F + mset freed)"
proof -
  let ?n = "if n = 0 then - 1 else n"
  have "pool_inv (p\<lparr>max_size := ?n\<rparr>) A F" "pool_inv (p\<lparr>max_size := ?n, desired_size := ?n\<rparr>) A F"
    using assms(1) by (simp_all add: pool_inv_def)
  with free_available_inv assms(2) show ?thesis
    by (auto simp: poolSetMaxSize_def Let_def split: if_splits)
qed

lemma pool_init_inv: "pool_inv (poolInit msize dsize) {#} {#}"
  by (simp add: pool_inv_def poolInit_def)

lemma poolFree_eq: "poolFree p = (if taken p = [] then 0 else 1, [], available p)"
proof -
  have "\<not> desired_size p > - 1" by (simp add: not_less word_order.extremum)
  then show ?thesis by (simp add: poolFree_def poolSetMaxSize_def Let_def)
qed

lemma pool_run_inv: "pool_run p A F \<Longrightarrow> pool_inv p A F"
proof (induction rule: pool_run.induct)
  case (reuse p A F fresh ent p')
  then show ?case using take_inv by fastforce
next
  case (alloc p A F fresh ent p')
  then show ?case using take_inv by fastforce
next
  case (free_refused p A F freed left)
  then have "freed = []" by (simp add: poolFree_eq)
  then show ?case using free_refused by simp
qed (auto intro: pool_init_inv release_inv set_desired_inv set_max_inv flush_inv)

section \<open>Properties\<close>

text \<open>C38 Whatever the sequence of calls, refused calls of \<open>poolFree\<close> included, every resource ever allocated is in exactly one place:
  available, taken, or handed to \<open>free_fn\<close> once. Freeing the pool succeeds exactly when nothing is taken, and hands nothing to \<open>free_fn\<close>: what
  is available then is neither freed nor reachable any more, and it is all that had not been freed before.\<close>

theorem pool_conserves_resources:
  assumes "pool_run p A F"
  shows "things (available p) + things (taken p) + F = A \<and>
    length (available p) + length (taken p) \<le> unat (current_size p) \<and>
    poolFree p = (if taken p = [] then 0 else 1, [], available p) \<and> (taken p = [] \<longrightarrow> things (available p) = A - F)"
  using pool_run_inv [OF assms] by (auto simp: pool_inv_def poolFree_eq)

theorem pool_conserves_resources_witness:
  "\<exists>p. pool_run p {#7#} {#} \<and> things (available p) + things (taken p) = {#7#} \<and> poolFree p = (1, [], [])"
proof -
  have "poolTryTake_entry 7 (poolInit 1 0) = Some (\<lparr>pe_thing = 7, pe_should_free = False\<rparr>,
      \<lparr>max_size = 1, desired_size = 0, current_size = 1, available = [], taken = [\<lparr>pe_thing = 7, pe_should_free = False\<rparr>]\<rparr>)"
    by (simp add: poolTryTake_entry_def poolInit_def Let_def)
  with pool_run.alloc [OF pool_run.init, of 1 0 7] have r: "pool_run
      \<lparr>max_size = 1, desired_size = 0, current_size = 1, available = [], taken = [\<lparr>pe_thing = 7, pe_should_free = False\<rparr>]\<rparr> {#7#} {#}"
    by (simp add: poolInit_def)
  from pool_conserves_resources [OF this] r show ?thesis by (intro exI) auto
qed

text \<open>A new resource is allocated only when nothing is available, and never so that more resources are
  in use than the maximum.\<close>

lemma pool_respects_maximum:
  assumes "pool_run p A F" "poolTryTake_entry fresh p = Some (ent, p')"
  shows "(available p \<noteq> [] \<longrightarrow> ent = hd (available p) \<and> current_size p' = current_size p) \<and>
    (available p = [] \<longrightarrow> pe_thing ent = fresh \<and> length (available p') + length (taken p') \<le> unat (max_size p'))"
proof (cases "available p")
  case Nil
  with assms(2) have c: "current_size p < max_size p" "pe_thing ent = fresh" "available p' = []" "taken p' = ent # taken p"
    "max_size p' = max_size p"
    by (auto simp: poolTryTake_entry_def Let_def split: if_splits)
  then have "unat (current_size p) < unat (max_size p)" by (simp add: word_less_nat_alt)
  then show ?thesis using pool_run_inv [OF assms(1)] c Nil by (auto simp: pool_inv_def)
qed (use assms(2) in \<open>auto simp: poolTryTake_entry_def\<close>)

text \<open>Releasing a resource that is not taken is refused; releasing a taken one takes it off the taken
  list, and then it is freed if the pool holds more than it wants or was flushed while it was out, and
  else it is the next to be taken.\<close>

lemma poolRelease_correct:
  "if thing \<in># things (taken p) then
     \<exists>p' freed sig. poolRelease thing p = Some (p', freed, sig) \<and> things (taken p') = things (taken p) - {#thing#} \<and>
       (if freed = [] then sig \<and> poolTryTake fresh p' = (thing, p'\<lparr>available := available p, taken := hd (available p') # taken p'\<rparr>)
        else freed = [thing] \<and> available p' = available p)
   else poolRelease thing p = None"
proof (cases "unlink_entry thing (taken p)")
  case None
  then show ?thesis using unlink_entry_None [of thing "taken p"] by (simp add: poolRelease_def)
next
  case (Some r)
  then obtain e es where r: "unlink_entry thing (taken p) = Some (e, es)" by (cases r) auto
  note u = unlink_entry_spec [OF r]
  then have "thing \<in># things (taken p)" by simp
  then show ?thesis
    using r u by (auto simp: poolRelease_def Let_def poolTryTake_def poolTryTake_entry_def)
qed

text \<open>Setting the desired size frees available resources until the count is at most that size or none
  is available.\<close>

lemma poolSetDesiredSize_correct:
  assumes "pool_run p A F" "poolSetDesiredSize p n = (p', freed)"
  shows "(available p' = [] \<or> current_size p' \<le> n) \<and> taken p' = taken p \<and>
    mset freed + things (available p') = things (available p) \<and> unat (current_size p') = unat (current_size p) - length freed"
proof -
  have "length (taken p) + length (available p) \<le> unat (current_size p)"
    using pool_run_inv [OF assms(1)] by (simp add: pool_inv_def)
  with assms(2) show ?thesis
    using free_entries_spec [of n "current_size p" "available p" _ _ _ "length (taken p)"]
    by (auto simp: poolSetDesiredSize_def free_available_def split: prod.splits)
qed

text \<open>A release that frees the resource does not count it off: after one take and one release of a pool
  of at most one resource that wants to keep none, nothing is in use and yet the pool is full for ever.\<close>

lemma poolRelease_miscounts:
  "\<exists>p1 p2. poolTryTake 7 (poolInit 1 0) = (7, p1) \<and> poolRelease 7 p1 = Some (p2, [7], False) \<and>
    available p2 = [] \<and> taken p2 = [] \<and> (\<forall>fresh. poolTryTake fresh p2 = (0, p2))"
  by (simp add: poolTryTake_def poolTryTake_entry_def poolInit_def poolRelease_def Let_def)

text \<open>Freeing a pool frees none of its available resources, because its call to set the maximum size to
  0 means no limit.\<close>

lemma poolFree_leaks: "taken p = [] \<Longrightarrow> poolFree p = (0, [], available p)"
  by (simp add: poolFree_eq)

end
