(* ===== verification/ClosureTables.thy ===== *)
theory ClosureTables
  imports RTS_Prelude
begin

text \<open>
  Tables of closures with stable or compact indexes (\<open>rts/ClosureTable.c\<close>, \<open>rts/ClosureTable.h\<close>): an
  array of closure pointers with a parallel array of free-list links. Indexes are C ints, here
  unbounded integers that stay below the capacity; the arrays are functions of the index.
\<close>

section \<open>The table\<close>

text \<open>The address of \<open>stg_CLOSURE_TABLE_NULL_closure\<close>.\<close>

definition NULL_closure :: word64 where
  "NULL_closure = 0"

definition FREELIST_IX_NULL :: int where
  "FREELIST_IX_NULL = - 1"

definition FREELIST_IX_USED :: int where
  "FREELIST_IX_USED = - 2"

datatype closure_table_mode = ClosureTableNonCompact | ClosureTableCompact

record closure_table =
  ct_arr :: "int \<Rightarrow> word64"
  ct_cards :: "int \<Rightarrow> word8"
  ct_free :: "int \<Rightarrow> int"
  ct_free_hd :: int
  ct_elems :: int
  ct_capacity :: int
  ct_compact :: closure_table_mode

section \<open>Operations\<close>

definition initClosureTable :: "closure_table_mode \<Rightarrow> closure_table" where
  "initClosureTable mode =
    \<lparr>ct_arr = (\<lambda>_. NULL_closure), ct_cards = (\<lambda>_. 0), ct_free = (\<lambda>_. 0), ct_free_hd = FREELIST_IX_NULL,
     ct_elems = 0, ct_capacity = 0, ct_compact = mode\<rparr>"

definition isFullClosureTable :: "closure_table \<Rightarrow> bool" where
  "isFullClosureTable t = (ct_free_hd t = FREELIST_IX_NULL)"

definition isEmptyClosureTable :: "closure_table \<Rightarrow> bool" where
  "isEmptyClosureTable t = (ct_elems t = 0)"

definition sizeClosureTable :: "closure_table \<Rightarrow> int" where
  "sizeClosureTable t = ct_elems t"

definition capacityClosureTable :: "closure_table \<Rightarrow> int" where
  "capacityClosureTable t = ct_capacity t"

definition indexClosureTable :: "closure_table \<Rightarrow> int \<Rightarrow> word64" where
  "indexClosureTable t ix = ct_arr t ix"

text \<open>\<open>mutArrPtrsCards\<close> and the number of bytes of \<open>mutArrPtrsCardTableSize\<close> words.\<close>

definition card_bytes :: "int \<Rightarrow> int" where
  "card_bytes elems = ((elems + 127) div 128 + 7) div 8 * 8"

text \<open>
  The number of bytes of the new array of links is computed as a C \<open>int\<close> (\<open>arrsize\<close>), which the allocator takes as a word and rounds up
  to words (\<open>allocateArrBytes\<close>); it refuses objects of \<open>HS_INT32_MAX\<close> blocks and more (\<open>allocateMightFail\<close>).
\<close>

definition free_arrsize :: "int \<Rightarrow> int" where
  "free_arrsize newcapacity = sint (word_of_int (newcapacity * 4) :: 32 word)"

definition arr_words :: "int \<Rightarrow> nat" where
  "arr_words arrbytes = unat ((word_of_int arrbytes + 7 :: word64) div 8)"

definition alloc_refused :: "nat \<Rightarrow> bool" where
  "alloc_refused n \<longleftrightarrow>
    (let max_words = (2 ^ 64 - 4096) div 8
     in n > max_words \<or> (n * 8 + 4095) div 4096 \<ge> 2 ^ 31 - 1)"

text \<open>
  \<open>newarr\<close> and \<open>newfree\<close> are what the two allocations return where they do not refuse: nothing, or an array with arbitrary
  contents. \<open>None\<close> is a write past the end of the new array of links.
\<close>

definition enlargeClosureTable ::
  "(int \<Rightarrow> word64) option \<Rightarrow> (int \<Rightarrow> int) option \<Rightarrow> closure_table \<Rightarrow> int \<Rightarrow> (bool \<times> closure_table) option" where
  "enlargeClosureTable newarr newfree t newcapacity =
    (case newarr of
       None \<Rightarrow> Some (False, t)
     | Some arr \<Rightarrow>
         (case if alloc_refused (2 + arr_words (free_arrsize newcapacity)) then None else newfree of
            None \<Rightarrow> Some (False, t)
          | Some fr \<Rightarrow>
              (let oldcapacity = ct_capacity t
               in if 2 * int (arr_words (free_arrsize newcapacity)) < newcapacity then None
                  else Some (True, t\<lparr>ct_capacity := newcapacity,
                    ct_arr := (\<lambda>i. if 0 \<le> i \<and> i < oldcapacity then ct_arr t i
                                  else if oldcapacity \<le> i \<and> i < newcapacity then NULL_closure else arr i),
                    ct_cards := (\<lambda>c. if c < card_bytes oldcapacity then ct_cards t c else 0),
                    ct_free := (\<lambda>i. if 0 \<le> i \<and> i < oldcapacity then ct_free t i
                                  else if oldcapacity \<le> i \<and> i < newcapacity - 1 then i + 1
                                  else if i = newcapacity - 1 then ct_free_hd t else fr i),
                    ct_free_hd := oldcapacity\<rparr>))))"

text \<open>\<open>debug\<close> tells whether the entry is marked as used, as the debug build does.\<close>

definition insertClosureTable :: "bool \<Rightarrow> closure_table \<Rightarrow> word64 \<Rightarrow> int \<times> closure_table" where
  "insertClosureTable debug t v =
    (let ix = ct_free_hd t;
         t1 = t\<lparr>ct_arr := (ct_arr t)(ix := v), ct_cards := (ct_cards t)(ix div 128 := 1)\<rparr>;
         t2 = t1\<lparr>ct_free_hd := ct_free t1 ix, ct_elems := ct_elems t1 + 1\<rparr>
     in (ix, if debug then t2\<lparr>ct_free := (ct_free t2)(ix := FREELIST_IX_USED)\<rparr> else t2))"

definition removeClosureTable :: "closure_table \<Rightarrow> int \<Rightarrow> closure_table" where
  "removeClosureTable t ix =
    (let t1 = t\<lparr>ct_arr := (ct_arr t)(ix := NULL_closure)\<rparr>;
         t2 = t1\<lparr>ct_free := (ct_free t1)(ix := ct_free_hd t1), ct_free_hd := ix\<rparr>
     in t2\<lparr>ct_elems := ct_elems t2 - 1\<rparr>)"

text \<open>The table with the indexes between which the last entry moved.\<close>

definition removeCompactClosureTable :: "closure_table \<Rightarrow> int \<Rightarrow> closure_table \<times> int \<times> int" where
  "removeCompactClosureTable t ix =
    (let gap_ix = ix; end_ix = ct_elems t - 1;
         arr1 = (ct_arr t)(gap_ix := ct_arr t end_ix);
         t1 = t\<lparr>ct_arr := arr1(end_ix := NULL_closure), ct_cards := (ct_cards t)(gap_ix div 128 := 1)\<rparr>;
         t2 = t1\<lparr>ct_free := (ct_free t1)(end_ix := ct_free_hd t1), ct_free_hd := end_ix\<rparr>
     in (t2\<lparr>ct_elems := ct_elems t2 - 1\<rparr>, end_ix, gap_ix))"

definition isCompactClosureTable :: "closure_table \<Rightarrow> bool" where
  "isCompactClosureTable t =
    (let used = (\<lambda>n. ct_arr t n \<noteq> NULL_closure \<and> ct_free t n = FREELIST_IX_USED);
         unused = (\<lambda>n. ct_arr t n = NULL_closure \<and>
           ct_free t n = (if n = ct_capacity t - 1 then FREELIST_IX_NULL else n + 1))
     in fold (\<lambda>n b. b \<and> unused n) [ct_elems t..ct_capacity t - 1]
          (fold (\<lambda>n b. b \<and> used n) [0..ct_elems t - 1] True))"

section \<open>The invariant\<close>

text \<open>
  The free list \<open>fl\<close> runs through exactly the empty entries, and every other entry is in use (and is
  marked so in the debug build).
\<close>

definition ct_inv :: "bool \<Rightarrow> closure_table \<Rightarrow> int list \<Rightarrow> bool" where
  "ct_inv debug t fl = (chain (ct_free t) FREELIST_IX_NULL (ct_free_hd t) fl \<and> 0 \<le> ct_capacity t \<and>
     set fl = {i. 0 \<le> i \<and> i < ct_capacity t \<and> ct_arr t i = NULL_closure} \<and>
     ct_elems t = ct_capacity t - int (length fl) \<and>
     (debug \<longrightarrow> (\<forall>i. 0 \<le> i \<and> i < ct_capacity t \<and> ct_arr t i \<noteq> NULL_closure \<longrightarrow> ct_free t i = FREELIST_IX_USED)))"

text \<open>A compact table has its entries in front and the free list in order behind them.\<close>

definition ct_compact_inv :: "bool \<Rightarrow> closure_table \<Rightarrow> bool" where
  "ct_compact_inv debug t = (ct_inv debug t [ct_elems t..ct_capacity t - 1] \<and> 0 \<le> ct_elems t \<and> ct_elems t \<le> ct_capacity t)"

text \<open>The contents as a map and, for compact tables, as a list.\<close>

definition ct_map :: "closure_table \<Rightarrow> int \<Rightarrow> word64 option" where
  "ct_map t ix = (if 0 \<le> ix \<and> ix < ct_capacity t \<and> ct_arr t ix \<noteq> NULL_closure then Some (ct_arr t ix) else None)"

definition ct_list :: "closure_table \<Rightarrow> word64 list" where
  "ct_list t = map (ct_arr t) [0..ct_elems t - 1]"

lemma ct_inv_distinct: "ct_inv debug t fl \<Longrightarrow> distinct fl"
  by (auto simp: ct_inv_def intro: chain_distinct)

lemma upto_chain:
  assumes "\<And>i. lo \<le> i \<Longrightarrow> i < hi \<Longrightarrow> nxt i = (if i = hi - 1 then e else i + 1)" "nil < lo"
  shows "chain nxt nil (if lo < hi then lo else e) ([lo..hi - 1] @ xs) \<longleftrightarrow> chain nxt nil e xs"
  using assms
proof (induction "nat (hi - lo)" arbitrary: lo)
  case (Suc n)
  then have lt: "lo < hi" by simp
  have "n = nat (hi - (lo + 1))" using Suc(2) lt by simp
  then have ih: "chain nxt nil (if lo + 1 < hi then lo + 1 else e) ([lo + 1..hi - 1] @ xs) \<longleftrightarrow> chain nxt nil e xs"
    using Suc.prems by (intro Suc.hyps(1)) auto
  have "nxt lo = (if lo + 1 < hi then lo + 1 else e)" using Suc.prems(1) [of lo] lt by auto
  with ih lt Suc.prems(2) show ?case by (simp add: upto_rec1 [of lo])
qed auto

lemma ct_init_inv: "ct_inv debug (initClosureTable mode) []"
  by (simp add: ct_inv_def initClosureTable_def)

text \<open>Up to \<open>2 ^ 29\<close> entries the size of the array of links is right.\<close>

lemma free_arrsize_small: "0 \<le> n \<Longrightarrow> n < 2 ^ 29 \<Longrightarrow> free_arrsize n = n * 4"
proof -
  assume n: "0 \<le> n" "n < 2 ^ 29"
  have "sint (word_of_int k :: 32 word) = k" if "0 \<le> k" "k < 2 ^ 31" for k using that by (subst signed_of_int) (simp add: signed_take_bit_int_eq_self)
  from this [of "n * 4"] n show "free_arrsize n = n * 4" unfolding free_arrsize_def by simp
qed

lemma arr_words_small:
  assumes "0 \<le> n" "n < 2 ^ 29"
  shows "int (arr_words (free_arrsize n)) = (n * 4 + 7) div 8"
proof -
  have "uint (word_of_int k :: word64) = k" if "0 \<le> k" "k < 2 ^ 64" for k using that by (subst unsigned_of_int) (simp add: take_bit_int_eq_self)
  from this [of "n * 4"] have "uint (word_of_int (n * 4) :: word64) = n * 4" using assms by simp
  then have "uint (word_of_int (n * 4) + 7 :: word64) = n * 4 + 7" using assms by (simp only: uint_word_ariths) simp
  then show ?thesis unfolding free_arrsize_small [OF assms] arr_words_def by (simp add: uint_div)
qed

lemma enlarge_small:
  assumes "0 \<le> n" "n < 2 ^ 29"
  shows "\<not> alloc_refused (2 + arr_words (free_arrsize n))" "n \<le> 2 * int (arr_words (free_arrsize n))"
proof -
  have w: "int (arr_words (free_arrsize n)) = (n * 4 + 7) div 8" by (rule arr_words_small [OF assms])
  then show "n \<le> 2 * int (arr_words (free_arrsize n))" by linarith
  have "(n * 4 + 7) div 8 < 2 ^ 29" using assms by simp
  then have "int (arr_words (free_arrsize n)) < 2 ^ 29" using w by simp
  then have "arr_words (free_arrsize n) < 2 ^ 29" by simp
  then show "\<not> alloc_refused (2 + arr_words (free_arrsize n))" by (simp add: alloc_refused_def Let_def)
qed

lemma ct_enlarge_inv:
  assumes inv: "ct_inv debug t fl" and new: "ct_capacity t < newcapacity"
    and e: "enlargeClosureTable (Some arr) (Some fr) t newcapacity = Some (True, t')"
  shows "ct_inv debug t' ([ct_capacity t..newcapacity - 1] @ fl)"
proof -
  have t': "ct_capacity t' = newcapacity" "ct_free_hd t' = ct_capacity t" "ct_elems t' = ct_elems t"
    "\<And>i. 0 \<le> i \<Longrightarrow> i < ct_capacity t \<Longrightarrow> ct_arr t' i = ct_arr t i \<and> ct_free t' i = ct_free t i"
    "\<And>i. ct_capacity t \<le> i \<Longrightarrow> i < newcapacity \<Longrightarrow> ct_arr t' i = NULL_closure \<and>
      ct_free t' i = (if i = newcapacity - 1 then ct_free_hd t else i + 1)"
    using e new by (auto simp: enlargeClosureTable_def Let_def split: if_splits)
  have cap: "0 \<le> ct_capacity t" using inv by (simp add: ct_inv_def)
  have sub: "\<And>i. i \<in> set fl \<Longrightarrow> 0 \<le> i \<and> i < ct_capacity t" using inv by (auto simp: ct_inv_def)
  have "chain (ct_free t') FREELIST_IX_NULL (ct_free_hd t) fl = chain (ct_free t) FREELIST_IX_NULL (ct_free_hd t) fl"
    by (rule chain_cong) (use sub t'(4) in auto)
  then have "chain (ct_free t') FREELIST_IX_NULL (ct_free_hd t') ([ct_capacity t..newcapacity - 1] @ fl)"
    using upto_chain [of "ct_capacity t" newcapacity "ct_free t'" "ct_free_hd t" FREELIST_IX_NULL fl] t'(2,5) cap new inv
    by (simp add: FREELIST_IX_NULL_def ct_inv_def)
  moreover have "set ([ct_capacity t..newcapacity - 1] @ fl) = {i. 0 \<le> i \<and> i < newcapacity \<and> ct_arr t' i = NULL_closure}"
  proof -
    have "i \<in> set ([ct_capacity t..newcapacity - 1] @ fl) \<longleftrightarrow> 0 \<le> i \<and> i < newcapacity \<and> ct_arr t' i = NULL_closure" for i
      using inv t'(4,5) cap new by (cases "i < ct_capacity t") (auto simp: ct_inv_def)
    then show ?thesis by (intro set_eqI) (simp only: mem_Collect_eq)
  qed
  moreover have "ct_elems t = newcapacity - int (length ([ct_capacity t..newcapacity - 1] @ fl))"
    using inv new by (simp add: ct_inv_def)
  moreover have "debug \<longrightarrow> (\<forall>i. 0 \<le> i \<and> i < newcapacity \<and> ct_arr t' i \<noteq> NULL_closure \<longrightarrow> ct_free t' i = FREELIST_IX_USED)"
    using inv t'(4,5) unfolding ct_inv_def by (metis linorder_not_le)
  ultimately show ?thesis using t'(1,3) cap new by (simp add: ct_inv_def)
qed

lemma ct_insert_inv:
  assumes inv: "ct_inv debug t (x # fl)" and v: "v \<noteq> NULL_closure" and e: "insertClosureTable debug t v = (ix, t')"
  shows "ix = x \<and> ct_inv debug t' fl \<and> ct_map t ix = None \<and> ct_map t' = (ct_map t)(ix \<mapsto> v) \<and>
    ct_elems t' = ct_elems t + 1 \<and> ct_capacity t' = ct_capacity t"
proof -
  have d: "x \<notin> set fl" using ct_inv_distinct [OF inv] by simp
  have hd: "ct_free_hd t = x" "chain (ct_free t) FREELIST_IX_NULL (ct_free t x) fl"
    and x: "0 \<le> x" "x < ct_capacity t" "ct_arr t x = NULL_closure"
    using inv by (auto simp: ct_inv_def)
  have t': "ix = x" "ct_capacity t' = ct_capacity t" "ct_free_hd t' = ct_free t x" "ct_elems t' = ct_elems t + 1"
    "ct_arr t' = (ct_arr t)(x := v)" "ct_free t' = (if debug then (ct_free t)(x := FREELIST_IX_USED) else ct_free t)"
    using e hd(1) by (auto simp: insertClosureTable_def Let_def)
  have "set fl = {i. 0 \<le> i \<and> i < ct_capacity t \<and> ct_arr t' i = NULL_closure}"
  proof -
    have "insert x (set fl) = {i. 0 \<le> i \<and> i < ct_capacity t \<and> ct_arr t i = NULL_closure}" using inv by (simp add: ct_inv_def)
    then show ?thesis using d v unfolding t'(5) by auto
  qed
  then have "ct_inv debug t' fl" using inv hd d v t' by (auto simp: ct_inv_def)
  moreover have "ct_map t' = (ct_map t)(x \<mapsto> v)" using x v by (auto simp: ct_map_def t' fun_eq_iff)
  ultimately show ?thesis using t' x by (simp add: ct_map_def)
qed

lemma ct_remove_inv:
  assumes inv: "ct_inv debug t fl" and ix: "ct_map t ix = Some v"
  shows "ct_inv debug (removeClosureTable t ix) (ix # fl)" "ct_map (removeClosureTable t ix) = (ct_map t)(ix := None)"
proof -
  have x: "0 \<le> ix" "ix < ct_capacity t" "ct_arr t ix \<noteq> NULL_closure" using ix by (auto simp: ct_map_def split: if_splits)
  have d: "ix \<notin> set fl" using inv x by (simp add: ct_inv_def)
  have "insert ix (set fl) = {i. 0 \<le> i \<and> i < ct_capacity t \<and> ((ct_arr t)(ix := NULL_closure)) i = NULL_closure}"
    using inv x by (auto simp: ct_inv_def)
  then show "ct_inv debug (removeClosureTable t ix) (ix # fl)"
    using inv x d by (auto simp: ct_inv_def removeClosureTable_def Let_def FREELIST_IX_NULL_def)
  show "ct_map (removeClosureTable t ix) = (ct_map t)(ix := None)"
    by (auto simp: ct_map_def removeClosureTable_def Let_def fun_eq_iff)
qed

lemma isCompact_iff:
  "isCompactClosureTable t \<longleftrightarrow>
    (\<forall>n. 0 \<le> n \<and> n < ct_elems t \<longrightarrow> ct_arr t n \<noteq> NULL_closure \<and> ct_free t n = FREELIST_IX_USED) \<and>
    (\<forall>n. ct_elems t \<le> n \<and> n < ct_capacity t \<longrightarrow> ct_arr t n = NULL_closure \<and>
       ct_free t n = (if n = ct_capacity t - 1 then FREELIST_IX_NULL else n + 1))"
proof -
  have f: "fold (\<lambda>n b. b \<and> P n) xs b \<longleftrightarrow> b \<and> (\<forall>n \<in> set xs. P n)" for P :: "int \<Rightarrow> bool" and xs b
    by (induction xs arbitrary: b) auto
  show ?thesis unfolding isCompactClosureTable_def Let_def f by auto
qed

lemma upto_chain_links:
  "chain nxt nil p [lo..hi - 1] \<Longrightarrow> lo \<le> i \<Longrightarrow> i < hi \<Longrightarrow> nxt i = (if i = hi - 1 then nil else i + 1)"
proof (induction "nat (hi - lo)" arbitrary: lo p)
  case (Suc n)
  then have lt: "lo < hi" by simp
  then have c: "chain nxt nil (nxt lo) [lo + 1..hi - 1]" using Suc.prems(1) by (simp add: upto_rec1 [of lo])
  show ?case
  proof (cases "i = lo")
    case True
    then show ?thesis using c lt by (cases "lo + 1 \<le> hi - 1") (auto simp: upto_rec1 [of "lo + 1"])
  next
    case False
    have "n = nat (hi - (lo + 1))" using Suc(2) lt by simp
    then show ?thesis using Suc.hyps(1) [OF _ c] Suc.prems False by simp
  qed
qed simp

lemma compact_entries:
  assumes "ct_compact_inv debug t" "0 \<le> i" "i < ct_capacity t"
  shows "ct_arr t i = NULL_closure \<longleftrightarrow> ct_elems t \<le> i"
  using assms by (auto simp: ct_compact_inv_def ct_inv_def set_eq_iff)

lemma compact_isCompact:
  assumes "ct_compact_inv True t"
  shows "isCompactClosureTable t"
proof -
  have "chain (ct_free t) FREELIST_IX_NULL (ct_free_hd t) [ct_elems t..ct_capacity t - 1]"
    "0 \<le> ct_elems t" "ct_elems t \<le> ct_capacity t"
    "\<forall>i. 0 \<le> i \<and> i < ct_capacity t \<and> ct_arr t i \<noteq> NULL_closure \<longrightarrow> ct_free t i = FREELIST_IX_USED"
    using assms by (auto simp: ct_compact_inv_def ct_inv_def)
  then show ?thesis
    using compact_entries [OF assms] upto_chain_links [of "ct_free t" FREELIST_IX_NULL "ct_free_hd t" "ct_elems t" "ct_capacity t"]
    unfolding isCompact_iff by auto
qed

lemma compact_insert:
  assumes c: "ct_compact_inv debug t" "\<not> isFullClosureTable t" and v: "v \<noteq> NULL_closure"
    and e: "insertClosureTable debug t v = (ix, t')"
  shows "ix = ct_elems t \<and> ct_compact_inv debug t' \<and> ct_list t' = ct_list t @ [v]"
proof -
  have inv: "ct_inv debug t [ct_elems t..ct_capacity t - 1]" "0 \<le> ct_elems t" using c by (auto simp: ct_compact_inv_def)
  then have ch: "chain (ct_free t) FREELIST_IX_NULL (ct_free_hd t) [ct_elems t..ct_capacity t - 1]"
    unfolding ct_inv_def by blast
  have lt: "ct_elems t < ct_capacity t"
  proof (rule ccontr)
    assume "\<not> ct_elems t < ct_capacity t"
    then have "[ct_elems t..ct_capacity t - 1] = []" by simp
    with ch c(2) show False by (simp add: isFullClosureTable_def)
  qed
  then have u: "[ct_elems t..ct_capacity t - 1] = ct_elems t # [ct_elems t + 1..ct_capacity t - 1]"
    by (intro upto_rec1) simp
  note i = ct_insert_inv [OF inv(1) [unfolded u] v e]
  have arr: "ct_arr t' = (ct_arr t)(ix := v)" using e by (auto simp: insertClosureTable_def Let_def split: if_splits)
  have "[0..ct_elems t] = [0..ct_elems t - 1] @ [ct_elems t]" using inv(2) by (intro upto_rec2) simp
  then have "ct_list t' = ct_list t @ [v]"
    using i arr by (auto simp: ct_list_def)
  then show ?thesis using i lt inv(2) by (auto simp: ct_compact_inv_def)
qed

lemma compact_remove:
  assumes c: "ct_compact_inv debug t" and ix: "0 \<le> ix" "ix < ct_elems t"
    and e: "removeCompactClosureTable t ix = (t', ix_from, ix_to)"
  shows "ct_compact_inv debug t'" "ct_list t' = butlast ((ct_list t)[nat ix := last (ct_list t)])"
    "ix_from = ct_elems t - 1" "ix_to = ix"
proof -
  have inv: "ct_inv debug t [ct_elems t..ct_capacity t - 1]" "0 \<le> ct_elems t" "ct_elems t \<le> ct_capacity t"
    using c by (auto simp: ct_compact_inv_def)
  let ?e = "ct_elems t - 1"
  have t': "ct_arr t' = ((ct_arr t)(ix := ct_arr t ?e))(?e := NULL_closure)" "ct_free t' = (ct_free t)(?e := ct_free_hd t)"
    "ct_free_hd t' = ?e" "ct_elems t' = ?e" "ct_capacity t' = ct_capacity t" and out: "ix_from = ?e" "ix_to = ix"
    using e by (auto simp: removeCompactClosureTable_def Let_def)
  show "ix_from = ?e" "ix_to = ix" by (rule out)+
  have ent: "ct_arr t i = NULL_closure \<longleftrightarrow> ct_elems t \<le> i" if "0 \<le> i" "i < ct_capacity t" for i
    by (rule compact_entries [OF c that])
  have u: "[?e..ct_capacity t - 1] = ?e # [ct_elems t..ct_capacity t - 1]"
    using inv ix upto_rec1 [of ?e "ct_capacity t - 1"] by simp
  have "chain (ct_free t) FREELIST_IX_NULL (ct_free_hd t) [ct_elems t..ct_capacity t - 1]"
    using inv(1) unfolding ct_inv_def by blast
  then have "chain (ct_free t') FREELIST_IX_NULL (ct_free_hd t) [ct_elems t..ct_capacity t - 1]"
    unfolding t'(2) by (subst chain_upd) auto
  then have "chain (ct_free t') FREELIST_IX_NULL (ct_free_hd t') [?e..ct_capacity t - 1]"
    using ix unfolding u by (simp add: t'(2,3) FREELIST_IX_NULL_def)
  moreover have "i \<in> set [?e..ct_capacity t - 1] \<longleftrightarrow> 0 \<le> i \<and> i < ct_capacity t \<and> ct_arr t' i = NULL_closure" for i
    using ent [of i] ent [of ?e] ix inv(2,3) by (auto simp: t')
  then have "set [?e..ct_capacity t - 1] = {i. 0 \<le> i \<and> i < ct_capacity t \<and> ct_arr t' i = NULL_closure}"
    by (intro set_eqI) (simp only: mem_Collect_eq)
  moreover have "debug \<longrightarrow> (\<forall>i. 0 \<le> i \<and> i < ct_capacity t \<and> ct_arr t' i \<noteq> NULL_closure \<longrightarrow> ct_free t' i = FREELIST_IX_USED)"
    using inv(1) ent ix by (auto simp: ct_inv_def t')
  ultimately show "ct_compact_inv debug t'"
    using inv ix t' by (auto simp: ct_compact_inv_def ct_inv_def)
  have up: "[0..?e] = [0..?e - 1] @ [?e]" using ix by (intro upto_rec2) simp
  show "ct_list t' = butlast ((ct_list t)[nat ix := last (ct_list t)])"
  proof (rule nth_equalityI)
    show "length (ct_list t') = length (butlast ((ct_list t)[nat ix := last (ct_list t)]))"
      using ix by (simp add: ct_list_def t')
    fix i assume i: "i < length (ct_list t')"
    have l: "last (ct_list t) = ct_arr t ?e" by (simp add: ct_list_def up)
    have "int i < ?e" using i by (simp add: ct_list_def t')
    then show "ct_list t' ! i = butlast ((ct_list t)[nat ix := last (ct_list t)]) ! i"
      using ix l by (auto simp: ct_list_def t' nth_butlast nth_list_update)
  qed
qed

section \<open>Properties\<close>

definition ct_ok :: "bool \<Rightarrow> closure_table \<Rightarrow> bool" where
  "ct_ok debug t = (\<exists>fl. ct_inv debug t fl)"

lemma ct_not_full: "ct_inv debug t fl \<Longrightarrow> isFullClosureTable t \<longleftrightarrow> fl = []"
  by (cases fl) (auto simp: ct_inv_def isFullClosureTable_def)

text \<open>C39 A table is a map from indexes to closures with stable indexes: inserting into a table that is not
  full picks an unused index and maps it to the closure, removing an index unmaps only it, and enlarging to fewer than
  \<open>2 ^ 29\<close> entries keeps the map and makes room when both allocations succeed; when either fails it leaves the table as it is.
  (With about \<open>2 ^ 30\<close> entries the size of the links overflows: \<open>enlarge_overflows\<close>.)\<close>

theorem closureTable_refines_map:
  assumes "ct_ok debug t"
  shows "(\<not> isFullClosureTable t \<and> v \<noteq> NULL_closure \<longrightarrow>
      (\<exists>ix t'. insertClosureTable debug t v = (ix, t') \<and> ct_ok debug t' \<and> ct_map t ix = None \<and>
        ct_map t' = (ct_map t)(ix \<mapsto> v) \<and> sizeClosureTable t' = sizeClosureTable t + 1)) \<and>
    (ct_map t ix = Some w \<longrightarrow> indexClosureTable t ix = w \<and> ct_ok debug (removeClosureTable t ix) \<and>
      ct_map (removeClosureTable t ix) = (ct_map t)(ix := None)) \<and>
    (ct_capacity t < newcapacity \<and> newcapacity < 2 ^ 29 \<longrightarrow>
      (\<exists>t'. enlargeClosureTable (Some arr) (Some fr) t newcapacity = Some (True, t') \<and> ct_ok debug t' \<and>
        ct_map t' = ct_map t \<and> \<not> isFullClosureTable t' \<and> capacityClosureTable t' = newcapacity)) \<and>
    enlargeClosureTable None newfree t newcapacity = Some (False, t) \<and>
    enlargeClosureTable newarr None t newcapacity = Some (False, t)"
proof (intro conjI impI)
  obtain fl where inv: "ct_inv debug t fl" using assms by (auto simp: ct_ok_def)
  {
    assume a: "\<not> isFullClosureTable t \<and> v \<noteq> NULL_closure"
    then obtain x fl' where "fl = x # fl'" using ct_not_full [OF inv] by (cases fl) auto
    with ct_insert_inv [OF _ conjunct2 [OF a], of debug t x fl'] inv
    show "\<exists>ix t'. insertClosureTable debug t v = (ix, t') \<and> ct_ok debug t' \<and> ct_map t ix = None \<and>
        ct_map t' = (ct_map t)(ix \<mapsto> v) \<and> sizeClosureTable t' = sizeClosureTable t + 1"
      by (cases "insertClosureTable debug t v") (auto simp: ct_ok_def sizeClosureTable_def)
  }
  assume w: "ct_map t ix = Some w"
  show "indexClosureTable t ix = w" "ct_ok debug (removeClosureTable t ix)"
    "ct_map (removeClosureTable t ix) = (ct_map t)(ix := None)"
    using ct_remove_inv [OF inv w] w by (auto simp: ct_ok_def indexClosureTable_def ct_map_def split: if_splits)
next
  obtain fl where inv: "ct_inv debug t fl" using assms by (auto simp: ct_ok_def)
  assume a: "ct_capacity t < newcapacity \<and> newcapacity < 2 ^ 29"
  then have new: "ct_capacity t < newcapacity" and n: "0 \<le> newcapacity" "newcapacity < 2 ^ 29" using inv by (auto simp: ct_inv_def)
  obtain t' where e: "enlargeClosureTable (Some arr) (Some fr) t newcapacity = Some (True, t')"
    using enlarge_small [OF n] by (auto simp: enlargeClosureTable_def Let_def)
  then have "capacityClosureTable t' = newcapacity"
    by (auto simp: enlargeClosureTable_def Let_def capacityClosureTable_def split: if_splits)
  moreover have "ct_map t' i = ct_map t i" for i
    using e new by (cases "i < ct_capacity t") (auto simp: enlargeClosureTable_def Let_def ct_map_def split: if_splits)
  moreover have "ct_inv debug t' ([ct_capacity t..newcapacity - 1] @ fl)" by (rule ct_enlarge_inv [OF inv new e])
  ultimately show "\<exists>t'. enlargeClosureTable (Some arr) (Some fr) t newcapacity = Some (True, t') \<and> ct_ok debug t' \<and>
        ct_map t' = ct_map t \<and> \<not> isFullClosureTable t' \<and> capacityClosureTable t' = newcapacity"
    using e new ct_not_full by (auto simp: ct_ok_def fun_eq_iff)
qed (simp_all add: enlargeClosureTable_def split: option.split)

theorem closureTable_refines_map_witness:
  "\<exists>t'. enlargeClosureTable (Some (\<lambda>_. 99)) (Some (\<lambda>_. 99)) (initClosureTable ClosureTableNonCompact) 4 = Some (True, t') \<and>
    \<not> isFullClosureTable t'"
proof -
  have "ct_ok True (initClosureTable ClosureTableNonCompact)" using ct_init_inv by (auto simp: ct_ok_def)
  from closureTable_refines_map [OF this, where newcapacity = 4 and arr = "\<lambda>_. 99" and fr = "\<lambda>_. 99"
      and v = 0 and w = 0 and ix = 0]
  show ?thesis by (auto simp: initClosureTable_def)
qed

text \<open>The size of \<open>2 ^ 30\<close> links is 0 as a C \<open>int\<close>: the links are written past the end of an empty array.\<close>

lemma enlarge_overflows: "enlargeClosureTable (Some arr) (Some fr) t (2 ^ 30) = None"
proof -
  have "free_arrsize (2 ^ 30) = 0" by code_simp
  then have w: "arr_words (free_arrsize (2 ^ 30)) = 0" by (simp add: arr_words_def)
  then show ?thesis by (simp add: enlargeClosureTable_def Let_def alloc_refused_def)
qed

text \<open>A compact table is the list of its entries: inserting appends at the index that was the number of
  entries, removing an index replaces it by the last entry and reports that move, and the
  compactness check of the debug build holds throughout.\<close>

lemma closureTable_compact:
  assumes "ct_compact_inv True t"
  shows "isCompactClosureTable t \<and>
    (\<not> isFullClosureTable t \<and> v \<noteq> NULL_closure \<longrightarrow>
      (\<exists>t'. insertClosureTable True t v = (int (length (ct_list t)), t') \<and> ct_compact_inv True t' \<and>
        ct_list t' = ct_list t @ [v])) \<and>
    (0 \<le> ix \<and> ix < sizeClosureTable t \<longrightarrow>
      (\<exists>t'. removeCompactClosureTable t ix = (t', sizeClosureTable t - 1, ix) \<and> ct_compact_inv True t' \<and>
        isCompactClosureTable t' \<and> ct_list t' = butlast ((ct_list t)[nat ix := last (ct_list t)])))"
proof (intro conjI impI)
  show "isCompactClosureTable t" by (rule compact_isCompact [OF assms])
  have len: "int (length (ct_list t)) = ct_elems t" using assms by (simp add: ct_list_def ct_compact_inv_def)
  {
    assume "\<not> isFullClosureTable t \<and> v \<noteq> NULL_closure"
    then show "\<exists>t'. insertClosureTable True t v = (int (length (ct_list t)), t') \<and> ct_compact_inv True t' \<and>
        ct_list t' = ct_list t @ [v]"
      using compact_insert [OF assms] len by (cases "insertClosureTable True t v") auto
  }
  assume "0 \<le> ix \<and> ix < sizeClosureTable t"
  then have ix: "0 \<le> ix" "ix < ct_elems t" by (auto simp: sizeClosureTable_def)
  obtain t' ix_from ix_to where e: "removeCompactClosureTable t ix = (t', ix_from, ix_to)" by (metis prod_cases3)
  with compact_remove [OF assms ix e] compact_isCompact
  show "\<exists>t'. removeCompactClosureTable t ix = (t', sizeClosureTable t - 1, ix) \<and> ct_compact_inv True t' \<and>
        isCompactClosureTable t' \<and> ct_list t' = butlast ((ct_list t)[nat ix := last (ct_list t)])"
    by (auto simp: sizeClosureTable_def)
qed

end
