(* ===== verification/StablePtrs.thy ===== *)
theory StablePtrs
  imports RTS_Prelude
begin

text \<open>
  Stable pointers (\<open>rts/StablePtr.c\<close>, \<open>rts/include/rts/StablePtr.h\<close>): a table on the C heap whose
  free entries are linked through their own words, as absolute addresses. The C heap is a map from
  addresses to words; a call that may allocate takes the address \<open>stgMallocBytes\<close> would return. The
  old tables that are kept for concurrent readers stay in the heap until the next collection. The
  table size is an unsigned 32-bit number and doubles modulo \<open>2 ^ 32\<close>.
\<close>

section \<open>The table\<close>

record spt_state =
  heap :: "nat \<Rightarrow> nat"
  stable_ptr_table :: nat
  stable_ptr_free :: nat
  SPT_size :: nat
  old_SPTs :: "nat list"

definition INIT_SPT_SIZE :: nat where "INIT_SPT_SIZE = 64"

text \<open>The address of entry \<open>i\<close> of a table at \<open>t\<close>; \<open>spEntry\<close> is one word.\<close>

definition spEntry :: "nat \<Rightarrow> nat \<Rightarrow> nat" where
  "spEntry t i = t + 8 * i"

definition spt_initial :: "(nat \<Rightarrow> nat) \<Rightarrow> spt_state" where
  "spt_initial h = \<lparr>heap = h, stable_ptr_table = 0, stable_ptr_free = 0, SPT_size = 0, old_SPTs = []\<rparr>"

section \<open>Operations\<close>

text \<open>The loop of \<open>initSpEntryFreeList\<close>, from entry \<open>k - 1\<close> down to entry 0.\<close>

primrec link_entries :: "nat \<Rightarrow> nat \<Rightarrow> nat \<Rightarrow> (nat \<Rightarrow> nat) \<Rightarrow> nat \<Rightarrow> nat" where
  "link_entries t 0 fr h = h"
| "link_entries t (Suc k) fr h = link_entries t k (spEntry t k) (h(spEntry t k := fr))"

definition initSpEntryFreeList :: "nat \<Rightarrow> nat \<Rightarrow> spt_state \<Rightarrow> spt_state" where
  "initSpEntryFreeList t n s = s\<lparr>heap := link_entries t n 0 (heap s), stable_ptr_free := t\<rparr>"

definition initStablePtrTable :: "nat \<Rightarrow> spt_state \<Rightarrow> spt_state" where
  "initStablePtrTable base s =
    (if SPT_size s > 0 then s
     else initSpEntryFreeList base INIT_SPT_SIZE (s\<lparr>SPT_size := INIT_SPT_SIZE, stable_ptr_table := base\<rparr>))"

definition copy_words :: "nat \<Rightarrow> nat \<Rightarrow> nat \<Rightarrow> (nat \<Rightarrow> nat) \<Rightarrow> nat \<Rightarrow> nat" where
  "copy_words dst src n h = (\<lambda>a. if \<exists>i < n. a = spEntry dst i then h (a - dst + src) else h a)"

definition enlargeStablePtrTable :: "nat \<Rightarrow> spt_state \<Rightarrow> spt_state" where
  "enlargeStablePtrTable base s =
    (let old = SPT_size s;
         s1 = s\<lparr>SPT_size := (SPT_size s * 2) mod 2 ^ 32,
                heap := copy_words base (stable_ptr_table s) old (heap s),
                old_SPTs := old_SPTs s @ [stable_ptr_table s], stable_ptr_table := base\<rparr>
     in initSpEntryFreeList (spEntry base old) old s1)"

definition freeOldSPTs :: "spt_state \<Rightarrow> spt_state" where
  "freeOldSPTs s = s\<lparr>old_SPTs := []\<rparr>"

definition exitStablePtrTable :: "spt_state \<Rightarrow> spt_state" where
  "exitStablePtrTable s = freeOldSPTs (s\<lparr>stable_ptr_table := 0, SPT_size := 0\<rparr>)"

definition freeSpEntry :: "nat \<Rightarrow> spt_state \<Rightarrow> spt_state" where
  "freeSpEntry sp s = s\<lparr>heap := (heap s)(sp := stable_ptr_free s), stable_ptr_free := sp\<rparr>"

definition freeStablePtrUnsafe :: "nat \<Rightarrow> spt_state \<Rightarrow> spt_state" where
  "freeStablePtrUnsafe sp s = (if sp = 0 then s else freeSpEntry (spEntry (stable_ptr_table s) (sp - 1)) s)"

definition freeStablePtr :: "nat \<Rightarrow> nat \<Rightarrow> spt_state \<Rightarrow> spt_state" where
  "freeStablePtr base sp s = freeStablePtrUnsafe sp (initStablePtrTable base s)"

definition getStablePtr :: "nat \<Rightarrow> nat \<Rightarrow> nat \<Rightarrow> spt_state \<Rightarrow> nat \<times> spt_state" where
  "getStablePtr base base' p s =
    (let s1 = initStablePtrTable base s;
         s2 = (if stable_ptr_free s1 = 0 then enlargeStablePtrTable base' s1 else s1);
         sp = (stable_ptr_free s2 - stable_ptr_table s2) div 8;
         s3 = s2\<lparr>stable_ptr_free := heap s2 (stable_ptr_free s2)\<rparr>;
         s4 = s3\<lparr>heap := (heap s3)(spEntry (stable_ptr_table s3) sp := p)\<rparr>
     in (sp + 1, s4))"

definition deRefStablePtr :: "nat \<Rightarrow> spt_state \<Rightarrow> nat" where
  "deRefStablePtr sp s = (if sp = 0 then 0 else heap s (spEntry (stable_ptr_table s) (sp - 1)))"

text \<open>
  The loop \<open>FOR_EACH_STABLE_PTR\<close>: an entry whose word points into the table is free, and the last free
  one holds NULL; \<open>evac\<close> tells where the collector has moved an object.
\<close>

definition evac_entry :: "(nat \<Rightarrow> nat) \<Rightarrow> nat \<Rightarrow> spt_state \<Rightarrow> spt_state" where
  "evac_entry evac i s =
    (let t = stable_ptr_table s; end_ptr = spEntry t (SPT_size s); a = heap s (spEntry t i)
     in if a \<noteq> 0 \<and> (a < t \<or> end_ptr \<le> a) then s\<lparr>heap := (heap s)(spEntry t i := evac a)\<rparr> else s)"

definition for_each_stable_ptr :: "(nat \<Rightarrow> nat) \<Rightarrow> spt_state \<Rightarrow> spt_state" where
  "for_each_stable_ptr evac s = fold (evac_entry evac) [0..<SPT_size s] s"

definition markStablePtrTable :: "(nat \<Rightarrow> nat) \<Rightarrow> spt_state \<Rightarrow> spt_state" where
  "markStablePtrTable evac s = for_each_stable_ptr evac (freeOldSPTs s)"

definition threadStablePtrTable :: "(nat \<Rightarrow> nat) \<Rightarrow> spt_state \<Rightarrow> spt_state" where
  "threadStablePtrTable evac s = for_each_stable_ptr evac s"

section \<open>The invariant\<close>

text \<open>An address outside the table.\<close>

definition outside :: "nat \<Rightarrow> nat \<Rightarrow> nat \<Rightarrow> bool" where
  "outside t n p = (p < t \<or> spEntry t n \<le> p)"

text \<open>\<open>live\<close> is the object of each index in use.\<close>

definition spt_inv :: "spt_state \<Rightarrow> (nat \<Rightarrow> nat option) \<Rightarrow> bool" where
  "spt_inv s live = (0 < SPT_size s \<and> 0 < stable_ptr_table s \<and>
     (\<exists>fl. chain (heap s) 0 (stable_ptr_free s) fl \<and>
       set fl = spEntry (stable_ptr_table s) ` {i. i < SPT_size s \<and> live i = None}) \<and>
     (\<forall>i p. live i = Some p \<longrightarrow> i < SPT_size s \<and> heap s (spEntry (stable_ptr_table s) i) = p \<and> p \<noteq> 0 \<and>
       outside (stable_ptr_table s) (SPT_size s) p))"

lemma spEntry_inj [simp]: "spEntry t i = spEntry t j \<longleftrightarrow> i = j"
  by (simp add: spEntry_def)

lemma spEntry_pos: "0 < t \<Longrightarrow> spEntry t i \<noteq> 0"
  by (simp add: spEntry_def)

lemma link_entries_other: "(\<And>i. i < k \<Longrightarrow> a \<noteq> spEntry t i) \<Longrightarrow> link_entries t k fr h a = h a"
  by (induction k arbitrary: fr h) auto

lemma link_entries_chain:
  "0 < t \<Longrightarrow> chain h 0 fr fl \<Longrightarrow> set fl \<inter> spEntry t ` {..<k} = {} \<Longrightarrow>
    chain (link_entries t k fr h) 0 (if k = 0 then fr else t) (map (spEntry t) [0..<k] @ fl)"
proof (induction k arbitrary: fr h fl)
  case (Suc k)
  have "spEntry t k \<notin> set fl" using Suc.prems(3) by (auto simp: lessThan_Suc)
  then have "chain (h(spEntry t k := fr)) 0 fr fl" using Suc.prems(2) by simp
  then have c: "chain (h(spEntry t k := fr)) 0 (spEntry t k) (spEntry t k # fl)"
    unfolding chain.simps fun_upd_same using spEntry_pos [OF Suc.prems(1)] by blast
  have "set (spEntry t k # fl) \<inter> spEntry t ` {..<k} = {}" using Suc.prems(3) by (auto simp: lessThan_Suc)
  then have "chain (link_entries t k (spEntry t k) (h(spEntry t k := fr))) 0 (if k = 0 then spEntry t k else t)
      (map (spEntry t) [0..<k] @ spEntry t k # fl)"
    by (rule Suc.IH [OF Suc.prems(1) c])
  moreover have "(if k = 0 then spEntry t k else t) = t" by (simp add: spEntry_def)
  ultimately show ?case by (simp del: fun_upd_apply)
qed simp

lemma spt_init_inv:
  assumes "SPT_size s = 0" "0 < base"
  shows "spt_inv (initStablePtrTable base s) Map.empty"
proof -
  have "chain (link_entries base INIT_SPT_SIZE 0 (heap s)) 0 base (map (spEntry base) [0..<INIT_SPT_SIZE] @ [])"
    using link_entries_chain [OF assms(2), of "heap s" 0 "[]" INIT_SPT_SIZE] by (simp add: INIT_SPT_SIZE_def del: upt_rec_numeral)
  then show ?thesis
    using assms by (auto simp: spt_inv_def initStablePtrTable_def initSpEntryFreeList_def INIT_SPT_SIZE_def simp del: upt_rec_numeral
        intro!: exI [of _ "map (spEntry base) [0..<INIT_SPT_SIZE]"])
qed

lemma init_noop: "spt_inv s live \<Longrightarrow> initStablePtrTable base s = s"
  by (simp add: initStablePtrTable_def spt_inv_def)

text \<open>What \<open>malloc\<close> guarantees for the new table: it overlaps neither the old one nor any object.\<close>

definition fresh_table :: "spt_state \<Rightarrow> (nat \<Rightarrow> nat option) \<Rightarrow> nat \<Rightarrow> bool" where
  "fresh_table s live base = (0 < base \<and>
     (spEntry base (2 * SPT_size s) \<le> stable_ptr_table s \<or> spEntry (stable_ptr_table s) (SPT_size s) \<le> base) \<and>
     (\<forall>i p. live i = Some p \<longrightarrow> outside base (2 * SPT_size s) p))"

lemma spt_enlarge_inv:
  assumes inv: "spt_inv s live" and full: "stable_ptr_free s = 0" and fresh: "fresh_table s live base"
    and sz: "SPT_size s < 2 ^ 31"
  shows "spt_inv (enlargeStablePtrTable base s) live" "stable_ptr_free (enlargeStablePtrTable base s) \<noteq> 0"
    "\<And>i. i < SPT_size s \<Longrightarrow> heap (enlargeStablePtrTable base s) (spEntry (stable_ptr_table s) i) =
      heap s (spEntry (stable_ptr_table s) i)"
proof -
  let ?n = "SPT_size s" and ?s = "enlargeStablePtrTable base s" and ?t = "stable_ptr_table s"
  let ?h = "copy_words base ?t ?n (heap s)"
  have b: "0 < base" "0 < ?n" using fresh inv by (auto simp: fresh_table_def spt_inv_def)
  have s: "SPT_size ?s = 2 * ?n" "stable_ptr_table ?s = base" "stable_ptr_free ?s = spEntry base ?n"
    "heap ?s = link_entries (spEntry base ?n) ?n 0 ?h"
    using sz by (simp_all add: enlargeStablePtrTable_def Let_def initSpEntryFreeList_def)
  have e: "spEntry (spEntry base ?n) i = spEntry base (?n + i)" for i by (simp add: spEntry_def)
  have e': "spEntry (spEntry base ?n) = (\<lambda>i. spEntry base (?n + i))" by (rule ext) (rule e)
  show "stable_ptr_free ?s \<noteq> 0" using b by (simp add: s spEntry_pos)
  obtain fl where "chain (heap s) 0 0 fl" "set fl = spEntry ?t ` {i. i < ?n \<and> live i = None}"
    using inv full by (auto simp: spt_inv_def)
  then have all: "live i \<noteq> None" if "i < ?n" for i using that by auto
  have low: "heap ?s (spEntry base i) = heap s (spEntry ?t i)" if "i < ?n" for i
  proof -
    have "heap ?s (spEntry base i) = ?h (spEntry base i)"
      unfolding s(4) by (rule link_entries_other) (use that in \<open>auto simp: e\<close>)
    also have "\<dots> = heap s (spEntry ?t i)"
      using that by (auto simp: copy_words_def spEntry_def add.commute)
    finally show ?thesis .
  qed
  have "chain (heap ?s) 0 (spEntry base ?n) (map (spEntry (spEntry base ?n)) [0..<?n] @ [])"
    using link_entries_chain [of "spEntry base ?n" ?h 0 "[]" ?n] b unfolding s(4) by (simp add: spEntry_def)
  moreover have "spEntry (spEntry base ?n) ` {0..<?n} = spEntry base ` {i. i < 2 * ?n \<and> live i = None}"
  proof -
    have "{i. i < 2 * ?n \<and> live i = None} = (\<lambda>i. ?n + i) ` {0..<?n}"
    proof (intro set_eqI iffI)
      fix i assume "i \<in> {i. i < 2 * ?n \<and> live i = None}"
      then have "i < 2 * ?n" "\<not> i < ?n" using all by blast+
      then show "i \<in> (\<lambda>i. ?n + i) ` {0..<?n}" by (intro image_eqI [of _ _ "i - ?n"]) auto
    next
      fix i assume "i \<in> (\<lambda>i. ?n + i) ` {0..<?n}"
      then have "?n \<le> i" "i < 2 * ?n" by auto
      moreover from this have "live i = None"
        using inv unfolding spt_inv_def by (metis leD not_None_eq)
      ultimately show "i \<in> {i. i < 2 * ?n \<and> live i = None}" by simp
    qed
    then show ?thesis by (simp only: image_image e')
  qed
  ultimately have "\<exists>fl. chain (heap ?s) 0 (stable_ptr_free ?s) fl \<and>
      set fl = spEntry (stable_ptr_table ?s) ` {i. i < SPT_size ?s \<and> live i = None}"
    by (intro exI [of _ "map (spEntry (spEntry base ?n)) [0..<?n]"]) (simp add: s)
  moreover have "\<forall>i p. live i = Some p \<longrightarrow> i < 2 * ?n \<and> heap ?s (spEntry base i) = p \<and> p \<noteq> 0 \<and> outside base (2 * ?n) p"
    using inv fresh low by (fastforce simp: spt_inv_def fresh_table_def)
  ultimately show "spt_inv ?s live" using b by (simp add: spt_inv_def s)
  show "heap ?s (spEntry ?t i) = heap s (spEntry ?t i)" if "i < ?n" for i
  proof -
    have "spEntry ?t i \<noteq> spEntry base j" if "j < 2 * ?n" for j
      using fresh \<open>i < ?n\<close> that by (auto simp: fresh_table_def spEntry_def)
    note neq = this
    have "\<not> (\<exists>j < ?n. spEntry ?t i = spEntry base j)" 
    proof
      assume "\<exists>j < ?n. spEntry ?t i = spEntry base j"
      then obtain j where "j < ?n" "spEntry ?t i = spEntry base j" by blast
      with neq [of j] show False by simp
    qed
    then have "?h (spEntry ?t i) = heap s (spEntry ?t i)" unfolding copy_words_def by (rule if_not_P)
    moreover have "heap ?s (spEntry ?t i) = ?h (spEntry ?t i)"
      unfolding s(4) by (rule link_entries_other) (unfold e, rule neq, simp)
    ultimately show ?thesis by simp
  qed
qed

lemma spt_get_inv:
  assumes inv: "spt_inv s live" and free: "stable_ptr_free s \<noteq> 0" and p: "p \<noteq> 0" "outside (stable_ptr_table s) (SPT_size s) p"
  defines "sp \<equiv> (stable_ptr_free s - stable_ptr_table s) div 8"
  shows "sp < SPT_size s" "live sp = None"
    "spt_inv (s\<lparr>stable_ptr_free := heap s (stable_ptr_free s), heap := (heap s)(spEntry (stable_ptr_table s) sp := p)\<rparr>) (live(sp \<mapsto> p))"
proof -
  let ?t = "stable_ptr_table s" and ?n = "SPT_size s"
  obtain fl where fl: "chain (heap s) 0 (stable_ptr_free s) fl" "set fl = spEntry ?t ` {i. i < ?n \<and> live i = None}"
    using inv by (auto simp: spt_inv_def)
  then obtain xs where xs: "fl = stable_ptr_free s # xs" using free by (cases fl) auto
  then have "stable_ptr_free s \<in> spEntry ?t ` {i. i < ?n \<and> live i = None}" using fl(2) by (metis list.set_intros(1))
  then obtain i where i: "stable_ptr_free s = spEntry ?t i" "i < ?n" "live i = None" by auto
  then have sp: "sp = i" by (simp add: sp_def spEntry_def)
  with i show "sp < ?n" "live sp = None" by auto
  have d: "spEntry ?t i \<notin> set xs" using chain_distinct [OF fl(1)] xs i(1) by simp
  have c: "chain ((heap s)(spEntry ?t i := p)) 0 (heap s (spEntry ?t i)) xs"
    using fl(1) xs i(1) d by simp
  have "set xs = spEntry ?t ` {j. j < ?n \<and> (live(i \<mapsto> p)) j = None}"
  proof -
    have "set xs = set fl - {spEntry ?t i}" using d xs i(1) by auto
    moreover have "{j. j < ?n \<and> (live(i \<mapsto> p)) j = None} = {j. j < ?n \<and> live j = None} - {i}" by auto
    ultimately show ?thesis unfolding fl(2) by (simp add: image_set_diff inj_def)
  qed
  then have "\<exists>fl. chain ((heap s)(spEntry ?t i := p)) 0 (heap s (spEntry ?t i)) fl \<and>
      set fl = spEntry ?t ` {j. j < ?n \<and> (live(i \<mapsto> p)) j = None}" using c by blast
  then show "spt_inv (s\<lparr>stable_ptr_free := heap s (stable_ptr_free s), heap := (heap s)(spEntry ?t sp := p)\<rparr>) (live(sp \<mapsto> p))"
    using inv i p unfolding spt_inv_def sp i(1) by auto
qed

lemma spt_free_inv:
  assumes inv: "spt_inv s live" and i: "live i = Some p"
  shows "spt_inv (freeSpEntry (spEntry (stable_ptr_table s) i) s) (live(i := None))"
proof -
  let ?t = "stable_ptr_table s" and ?n = "SPT_size s"
  obtain fl where fl: "chain (heap s) 0 (stable_ptr_free s) fl" "set fl = spEntry ?t ` {i. i < ?n \<and> live i = None}"
    using inv by (auto simp: spt_inv_def)
  have i': "i < ?n" "0 < ?t" using inv i by (auto simp: spt_inv_def)
  have d: "spEntry ?t i \<notin> set fl" using i fl(2) by auto
  have "chain ((heap s)(spEntry ?t i := stable_ptr_free s)) 0 (spEntry ?t i) (spEntry ?t i # fl)"
    using fl(1) d i' by (simp add: spEntry_pos)
  moreover have "set (spEntry ?t i # fl) = spEntry ?t ` {j. j < ?n \<and> (live(i := None)) j = None}"
    using i' by (auto simp: fl(2))
  ultimately have "\<exists>fl. chain ((heap s)(spEntry ?t i := stable_ptr_free s)) 0 (spEntry ?t i) fl \<and>
      set fl = spEntry ?t ` {j. j < ?n \<and> (live(i := None)) j = None}" by blast
  then show ?thesis using inv unfolding spt_inv_def freeSpEntry_def by auto
qed


lemma free_words:
  assumes inv: "spt_inv s live" and i: "i < SPT_size s" "live i = None"
  shows "heap s (spEntry (stable_ptr_table s) i) = 0 \<or>
    \<not> outside (stable_ptr_table s) (SPT_size s) (heap s (spEntry (stable_ptr_table s) i))"
proof -
  let ?t = "stable_ptr_table s" and ?n = "SPT_size s"
  obtain fl where fl: "chain (heap s) 0 (stable_ptr_free s) fl" "set fl = spEntry ?t ` {i. i < ?n \<and> live i = None}"
    using inv by (auto simp: spt_inv_def)
  then have "spEntry ?t i \<in> set fl" using i by auto
  then obtain us vs where "fl = us @ spEntry ?t i # vs" by (auto simp: in_set_conv_decomp)
  with fl(1) have "chain (heap s) 0 (spEntry ?t i) (spEntry ?t i # vs)"
    using chain_append [of "heap s" 0 "stable_ptr_free s" us "spEntry ?t i # vs"] by simp
  then have c: "chain (heap s) 0 (heap s (spEntry ?t i)) vs" by simp
  show ?thesis
  proof (cases vs)
    case (Cons v ws)
    then have "heap s (spEntry ?t i) \<in> set fl" using c \<open>fl = _\<close> by auto
    then obtain j where "heap s (spEntry ?t i) = spEntry ?t j" "j < ?n" using fl(2) by auto
    then show ?thesis by (simp add: outside_def spEntry_def)
  qed (use c in simp)
qed


lemma evac_fold:
  assumes inv: "spt_inv s live" and k: "k \<le> SPT_size s"
  shows "fold (evac_entry evac) [0..<k] s =
    s\<lparr>heap := (\<lambda>a. if \<exists>i < k. live i \<noteq> None \<and> a = spEntry (stable_ptr_table s) i then evac (heap s a) else heap s a)\<rparr>"
  using k
proof (induction k)
  case (Suc k)
  let ?t = "stable_ptr_table s" and ?n = "SPT_size s"
  let ?H = "\<lambda>k a. if \<exists>i < k. live i \<noteq> None \<and> a = spEntry ?t i then evac (heap s a) else heap s a"
  have step: "fold (evac_entry evac) [0..<Suc k] s = evac_entry evac k (s\<lparr>heap := ?H k\<rparr>)" using Suc by simp
  have Hk: "?H k (spEntry ?t k) = heap s (spEntry ?t k)" by simp
  show ?case
  proof (cases "live k")
    case None
    then have "heap s (spEntry ?t k) = 0 \<or> \<not> outside ?t ?n (heap s (spEntry ?t k))"
      using free_words [OF inv] Suc.prems by simp
    then have "evac_entry evac k (s\<lparr>heap := ?H k\<rparr>) = s\<lparr>heap := ?H k\<rparr>"
      by (auto simp: evac_entry_def Let_def outside_def)
    moreover have "?H k = ?H (Suc k)" using None by (auto simp: less_Suc_eq fun_eq_iff)
    ultimately show ?thesis unfolding step by simp
  next
    case (Some p)
    then have "p \<noteq> 0" "outside ?t ?n p" "heap s (spEntry ?t k) = p" using inv by (auto simp: spt_inv_def)
    then have "evac_entry evac k (s\<lparr>heap := ?H k\<rparr>) = s\<lparr>heap := (?H k)(spEntry ?t k := evac p)\<rparr>"
      by (simp add: evac_entry_def Let_def outside_def)
    moreover have "(?H k)(spEntry ?t k := evac p) = ?H (Suc k)"
      using Some \<open>heap s (spEntry ?t k) = p\<close> by (auto simp: less_Suc_eq fun_eq_iff)
    ultimately show ?thesis unfolding step by simp
  qed
qed simp

lemma chain_congI: "chain f nil p xs \<Longrightarrow> (\<And>x. x \<in> set xs \<Longrightarrow> f x = g x) \<Longrightarrow> chain g nil p xs"
  by (simp only: chain_cong [of xs f g])

lemma for_each_inv:
  assumes inv: "spt_inv s live"
    and ev: "\<And>i p. live i = Some p \<Longrightarrow> evac p \<noteq> 0 \<and> outside (stable_ptr_table s) (SPT_size s) (evac p)"
  shows "spt_inv (for_each_stable_ptr evac s) (\<lambda>i. map_option evac (live i))"
proof -
  let ?t = "stable_ptr_table s" and ?n = "SPT_size s"
  let ?H = "\<lambda>a. if \<exists>i < ?n. live i \<noteq> None \<and> a = spEntry ?t i then evac (heap s a) else heap s a"
  have e: "for_each_stable_ptr evac s = s\<lparr>heap := ?H\<rparr>"
    unfolding for_each_stable_ptr_def by (rule evac_fold [OF inv order_refl])
  obtain fl where fl: "chain (heap s) 0 (stable_ptr_free s) fl" "set fl = spEntry ?t ` {i. i < ?n \<and> live i = None}"
    using inv by (auto simp: spt_inv_def)
  have "chain ?H 0 (stable_ptr_free s) fl"
    by (rule chain_congI [OF fl(1)]) (auto simp: fl(2))
  moreover have "{i. i < ?n \<and> map_option evac (live i) = None} = {i. i < ?n \<and> live i = None}" by simp
  ultimately have "\<exists>fl. chain ?H 0 (stable_ptr_free s) fl \<and>
      set fl = spEntry ?t ` {i. i < ?n \<and> map_option evac (live i) = None}" using fl(2) by auto
  then show ?thesis
    using inv ev unfolding e spt_inv_def by auto
qed

section \<open>Properties\<close>

text \<open>The state in which an operation that may have to grow the table takes its entry.\<close>

definition room_for :: "spt_state \<Rightarrow> (nat \<Rightarrow> nat option) \<Rightarrow> nat \<Rightarrow> nat \<Rightarrow> bool" where
  "room_for s live base p = (p \<noteq> 0 \<and>
     (if stable_ptr_free s = 0
      then SPT_size s < 2 ^ 31 \<and> fresh_table s live base \<and> outside base (2 * SPT_size s) p
      else outside (stable_ptr_table s) (SPT_size s) p))"

lemma get_correct:
  assumes inv: "spt_inv s live" and room: "room_for s live base' p"
  obtains i s' where "getStablePtr base base' p s = (i + 1, s')" "live i = None" "spt_inv s' (live(i \<mapsto> p))"
proof -
  define s2 where "s2 = (if stable_ptr_free s = 0 then enlargeStablePtrTable base' s else s)"
  have "spt_inv s2 live \<and> stable_ptr_free s2 \<noteq> 0 \<and> outside (stable_ptr_table s2) (SPT_size s2) p"
  proof (cases "stable_ptr_free s = 0")
    case True
    have sz: "SPT_size (enlargeStablePtrTable base' s) = 2 * SPT_size s" "stable_ptr_table (enlargeStablePtrTable base' s) = base'"
      using room True by (simp_all add: enlargeStablePtrTable_def Let_def initSpEntryFreeList_def room_for_def)
    show ?thesis
      using spt_enlarge_inv [OF inv True] room True sz by (simp add: s2_def room_for_def)
  qed (use inv room in \<open>simp add: s2_def room_for_def\<close>)
  moreover from this have "p \<noteq> 0" using room by (simp add: room_for_def)
  ultimately show ?thesis
    using spt_get_inv [of s2 live p] that init_noop [OF inv, of base]
    by (simp add: getStablePtr_def Let_def s2_def)
qed

lemma deref_correct: "spt_inv s live \<Longrightarrow> live i = Some p \<Longrightarrow> deRefStablePtr (i + 1) s = p"
  by (simp add: spt_inv_def deRefStablePtr_def)

lemma free_correct:
  "spt_inv s live \<Longrightarrow> live i = Some p \<Longrightarrow> spt_inv (freeStablePtr base (i + 1) s) (live(i := None))"
  using spt_free_inv [of s live i p] by (simp add: freeStablePtr_def init_noop freeStablePtrUnsafe_def)

text \<open>C30 Stable pointers implement a partial map from indices to objects: a new stable pointer is not
  NULL, takes an index that was not in use and denotes its object, also when the table has to grow;
  dereferencing gives the object of the index; freeing releases exactly that index; and NULL is
  dereferenced to NULL and freed without effect.
\<close>

theorem stablePtr_refines_map:
  assumes "spt_inv s live"
  shows "(room_for s live base' p \<longrightarrow>
      (\<exists>i s'. getStablePtr base base' p s = (i + 1, s') \<and> live i = None \<and> spt_inv s' (live(i \<mapsto> p)) \<and>
        deRefStablePtr (i + 1) s' = p)) \<and>
    (live k = Some q \<longrightarrow> deRefStablePtr (k + 1) s = q \<and> spt_inv (freeStablePtr base (k + 1) s) (live(k := None))) \<and>
    deRefStablePtr 0 s = 0 \<and> freeStablePtr base 0 s = s"
proof (intro conjI impI)
  assume "room_for s live base' p"
  then obtain i s' where *: "getStablePtr base base' p s = (i + 1, s')" "live i = None" "spt_inv s' (live(i \<mapsto> p))"
    by (rule get_correct [OF assms])
  moreover have "deRefStablePtr (i + 1) s' = p" by (rule deref_correct [OF *(3)]) simp
  ultimately show "\<exists>i s'. getStablePtr base base' p s = (i + 1, s') \<and> live i = None \<and> spt_inv s' (live(i \<mapsto> p)) \<and>
      deRefStablePtr (i + 1) s' = p" by blast
next
  assume k: "live k = Some q"
  show "deRefStablePtr (k + 1) s = q" by (rule deref_correct [OF assms k])
  show "spt_inv (freeStablePtr base (k + 1) s) (live(k := None))" by (rule free_correct [OF assms k])
qed (use assms in \<open>simp_all add: deRefStablePtr_def freeStablePtr_def freeStablePtrUnsafe_def init_noop\<close>)

theorem stablePtr_refines_map_witness:
  "\<exists>i s'. getStablePtr 1000 0 80 (initStablePtrTable 1000 (spt_initial (\<lambda>_. 0))) = (i + 1, s') \<and>
    deRefStablePtr (i + 1) s' = 80"
proof -
  let ?s = "initStablePtrTable 1000 (spt_initial (\<lambda>_. 0))"
  have inv: "spt_inv ?s Map.empty" by (rule spt_init_inv) (simp_all add: spt_initial_def)
  have "room_for ?s Map.empty 0 80"
    by (simp add: room_for_def initStablePtrTable_def spt_initial_def initSpEntryFreeList_def outside_def INIT_SPT_SIZE_def)
  with stablePtr_refines_map [OF inv, where base = 1000 and base' = 0 and p = 80 and k = 0 and q = 0]
  show ?thesis by blast
qed

text \<open>Growing the table and collecting: when the table is full, growing it doubles its size, keeps
  every stable pointer, and leaves the words of the old table in place for threads that still read
  it; a collection then releases the old tables and passes exactly the objects of the stable pointers
  in use to the collector, whose answers are what they denote afterwards, and touches no free entry.
\<close>

lemma stablePtr_growth_and_gc:
  assumes "spt_inv s live"
  shows "(stable_ptr_free s = 0 \<and> fresh_table s live base \<and> SPT_size s < 2 ^ 31 \<longrightarrow>
      (let s' = enlargeStablePtrTable base s in
        spt_inv s' live \<and> SPT_size s' = 2 * SPT_size s \<and> stable_ptr_free s' \<noteq> 0 \<and>
        stable_ptr_table s \<in> set (old_SPTs s') \<and>
        (\<forall>i < SPT_size s. heap s' (spEntry (stable_ptr_table s) i) = heap s (spEntry (stable_ptr_table s) i)))) \<and>
    ((\<forall>i p. live i = Some p \<longrightarrow> evac p \<noteq> 0 \<and> outside (stable_ptr_table s) (SPT_size s) (evac p)) \<longrightarrow>
      (let s' = markStablePtrTable evac s in
        old_SPTs s' = [] \<and> spt_inv s' (\<lambda>i. map_option evac (live i)) \<and>
        (\<forall>a. heap s' a \<noteq> heap s a \<longrightarrow> (\<exists>i p. live i = Some p \<and> a = spEntry (stable_ptr_table s) i))))"
proof (intro conjI impI)
  assume a: "stable_ptr_free s = 0 \<and> fresh_table s live base \<and> SPT_size s < 2 ^ 31"
  then have "SPT_size (enlargeStablePtrTable base s) = 2 * SPT_size s" "stable_ptr_table s \<in> set (old_SPTs (enlargeStablePtrTable base s))"
    by (simp_all add: enlargeStablePtrTable_def Let_def initSpEntryFreeList_def)
  then show "let s' = enlargeStablePtrTable base s in
        spt_inv s' live \<and> SPT_size s' = 2 * SPT_size s \<and> stable_ptr_free s' \<noteq> 0 \<and>
        stable_ptr_table s \<in> set (old_SPTs s') \<and>
        (\<forall>i < SPT_size s. heap s' (spEntry (stable_ptr_table s) i) = heap s (spEntry (stable_ptr_table s) i))"
    using spt_enlarge_inv [OF assms] a by (simp add: Let_def)
next
  assume ev: "\<forall>i p. live i = Some p \<longrightarrow> evac p \<noteq> 0 \<and> outside (stable_ptr_table s) (SPT_size s) (evac p)"
  have inv: "spt_inv (freeOldSPTs s) live" using assms by (simp add: spt_inv_def freeOldSPTs_def)
  have "spt_inv (markStablePtrTable evac s) (\<lambda>i. map_option evac (live i))"
    unfolding markStablePtrTable_def by (rule for_each_inv [OF inv]) (use ev in \<open>simp add: freeOldSPTs_def\<close>)
  then show "let s' = markStablePtrTable evac s in
        old_SPTs s' = [] \<and> spt_inv s' (\<lambda>i. map_option evac (live i)) \<and>
        (\<forall>a. heap s' a \<noteq> heap s a \<longrightarrow> (\<exists>i p. live i = Some p \<and> a = spEntry (stable_ptr_table s) i))"
    using evac_fold [OF inv order_refl, of evac]
    by (auto simp: Let_def markStablePtrTable_def for_each_stable_ptr_def freeOldSPTs_def)
qed

text \<open>A table of one entry, in use for the object at 80, which the collector moves to 96.\<close>

definition spt_demo :: spt_state where
  "spt_demo = \<lparr>heap = (\<lambda>_. 0)(1000 := 80), stable_ptr_table = 1000, stable_ptr_free = 0, SPT_size = 1, old_SPTs = []\<rparr>"

end
