(* ===== verification/StableNames.thy ===== *)
theory StableNames
  imports HashTables
begin

text \<open>
  Stable names (\<open>rts/StableName.c\<close>, \<open>rts/StableName.h\<close>, \<open>rts/include/rts/StableName.h\<close>): a table of
  entries whose free ones are linked through their \<open>addr\<close> words, and a hash table from object
  addresses to indices of entries. Index 0 is not used. The entries are modelled by index, the pointers
  to them as machine words; \<open>realloc\<close> keeps the entries and may move the table. The info table and
  indirectee of closures, the addresses the allocator returns and what the collector answers for an
  object (\<open>isAlive\<close>: NULL or the new address) are arguments. An operation is \<open>None\<close> when it
  would read uninitialised memory of the hash table, or never returns.
\<close>

section \<open>The table\<close>

record sn_entry =
  sn_addr :: word64
  sn_old :: word64
  sn_obj :: word64

record snt_state =
  sn_tab :: "nat \<Rightarrow> sn_entry"
  stable_name_table :: word64
  stable_name_free :: word64
  SNT_size :: nat
  addrToStableHash :: "hash_table option"

definition INIT_SNT_SIZE :: nat where "INIT_SNT_SIZE = 64"

text \<open>\<open>stable_name_table + i\<close>, and the index of a pointer into the table.\<close>

definition snEntry :: "word64 \<Rightarrow> nat \<Rightarrow> word64" where
  "snEntry t i = t + of_nat (24 * i)"

definition sn_index :: "word64 \<Rightarrow> word64 \<Rightarrow> word64" where
  "sn_index t a = (a - t) div 24"

section \<open>Operations\<close>

text \<open>The loop of \<open>initSnEntryFreeList\<close> over the \<open>n\<close> entries from index \<open>lo\<close>, from the last to the first.\<close>

primrec link_sn_entries :: "word64 \<Rightarrow> nat \<Rightarrow> nat \<Rightarrow> word64 \<Rightarrow> (nat \<Rightarrow> sn_entry) \<Rightarrow> nat \<Rightarrow> sn_entry" where
  "link_sn_entries t lo 0 fr tab = tab"
| "link_sn_entries t lo (Suc k) fr tab =
    link_sn_entries t lo k (snEntry t (lo + k)) (tab(lo + k := \<lparr>sn_addr = fr, sn_old = 0, sn_obj = 0\<rparr>))"

definition initSnEntryFreeList :: "nat \<Rightarrow> nat \<Rightarrow> word64 \<Rightarrow> snt_state \<Rightarrow> snt_state" where
  "initSnEntryFreeList lo n fr s =
    s\<lparr>sn_tab := link_sn_entries (stable_name_table s) lo n fr (sn_tab s),
      stable_name_free := snEntry (stable_name_table s) lo\<rparr>"

definition initStableNameTable :: "word64 \<Rightarrow> snt_state \<Rightarrow> snt_state" where
  "initStableNameTable base s =
    (if SNT_size s > 0 then s
     else (initSnEntryFreeList 1 (INIT_SNT_SIZE - 1) 0 (s\<lparr>SNT_size := INIT_SNT_SIZE, stable_name_table := base\<rparr>))
            \<lparr>addrToStableHash := Some allocHashTable\<rparr>)"

definition enlargeStableNameTable :: "word64 \<Rightarrow> snt_state \<Rightarrow> snt_state" where
  "enlargeStableNameTable base s =
    (let old_SNT_size = SNT_size s
     in initSnEntryFreeList old_SNT_size old_SNT_size 0
          (s\<lparr>SNT_size := (SNT_size s * 2) mod 2 ^ 32, stable_name_table := base\<rparr>))"

definition exitStableNameTable :: "snt_state \<Rightarrow> snt_state" where
  "exitStableNameTable s = s\<lparr>addrToStableHash := None, stable_name_table := 0, SNT_size := 0\<rparr>"

definition upd_entry :: "nat \<Rightarrow> (sn_entry \<Rightarrow> sn_entry) \<Rightarrow> snt_state \<Rightarrow> snt_state" where
  "upd_entry i f s = s\<lparr>sn_tab := (sn_tab s)(i := f (sn_tab s i))\<rparr>"

definition freeSnEntry :: "nat \<Rightarrow> snt_state \<Rightarrow> snt_state option" where
  "freeSnEntry i s =
    (case Option.bind (addrToStableHash s) (\<lambda>h. removeHashTable h (sn_old (sn_tab s i)) 0) of
       None \<Rightarrow> None
     | Some (_, h) \<Rightarrow>
         Some ((upd_entry i (sn_addr_update (\<lambda>_. stable_name_free s)) (s\<lparr>addrToStableHash := Some h\<rparr>))
                 \<lparr>stable_name_free := snEntry (stable_name_table s) i\<rparr>))"

text \<open>Closures: the type in the info table, and the \<open>indirectee\<close> word of an indirection or black hole.\<close>

datatype closure_type = IND | IND_STATIC | BLACKHOLE | OTHER_CLOSURE

definition UNTAG_CLOSURE :: "word64 \<Rightarrow> word64" where
  "UNTAG_CLOSURE p = p AND NOT 7"

definition GET_CLOSURE_TAG :: "word64 \<Rightarrow> word64" where
  "GET_CLOSURE_TAG p = p AND 7"

partial_function (option) removeIndirections ::
  "(word64 \<Rightarrow> closure_type) \<Rightarrow> (word64 \<Rightarrow> word64) \<Rightarrow> word64 \<Rightarrow> word64 option" where
  "removeIndirections itbl indirectee p =
    (let q = UNTAG_CLOSURE p
     in case itbl q of
          IND \<Rightarrow> removeIndirections itbl indirectee (indirectee q)
        | IND_STATIC \<Rightarrow> removeIndirections itbl indirectee (indirectee q)
        | BLACKHOLE \<Rightarrow>
            (let p = indirectee q
             in if GET_CLOSURE_TAG p \<noteq> 0 then removeIndirections itbl indirectee p else Some p)
        | OTHER_CLOSURE \<Rightarrow> Some p)"

definition lookupStableName ::
  "(word64 \<Rightarrow> closure_type) \<Rightarrow> (word64 \<Rightarrow> word64) \<Rightarrow> word64 \<Rightarrow> word64 \<Rightarrow> word64 \<Rightarrow> snt_state
    \<Rightarrow> (word64 \<times> snt_state) option" where
  "lookupStableName itbl indirectee base base' p s0 =
    (let s1 = initStableNameTable base s0;
         s = (if stable_name_free s1 = 0 then enlargeStableNameTable base' s1 else s1)
     in case removeIndirections itbl indirectee p of
          None \<Rightarrow> None
        | Some p \<Rightarrow>
            (let p = UNTAG_CLOSURE p
             in case Option.bind (addrToStableHash s) (\<lambda>h. lookupHashTable h p) of
                  None \<Rightarrow> None
                | Some sn \<Rightarrow>
                    if sn \<noteq> 0 then Some (sn, s)
                    else
                      (let sn = sn_index (stable_name_table s) (stable_name_free s);
                           s = s\<lparr>stable_name_free := sn_addr (sn_tab s (unat sn))\<rparr>;
                           s = upd_entry (unat sn) (\<lambda>e. e\<lparr>sn_addr := p, sn_obj := 0\<rparr>) s
                       in case Option.bind (addrToStableHash s) (\<lambda>h. insertHashTable h p sn) of
                            None \<Rightarrow> None
                          | Some h \<Rightarrow> Some (sn, s\<lparr>addrToStableHash := Some h\<rparr>))))"

text \<open>
  The loop \<open>FOR_EACH_STABLE_NAME\<close>: entries whose \<open>addr\<close> points into the table are free and skipped;
  the last free entry, whose \<open>addr\<close> is NULL, is not.
\<close>

definition for_each_step :: "(nat \<Rightarrow> snt_state \<Rightarrow> snt_state option) \<Rightarrow> nat \<Rightarrow> snt_state \<Rightarrow> snt_state option" where
  "for_each_step code i s =
    (let t = stable_name_table s; end_ptr = snEntry t (SNT_size s); a = sn_addr (sn_tab s i)
     in if a < t \<or> end_ptr \<le> a then code i s else Some s)"

primrec for_each_upto :: "(nat \<Rightarrow> snt_state \<Rightarrow> snt_state option) \<Rightarrow> nat \<Rightarrow> snt_state \<Rightarrow> snt_state option" where
  "for_each_upto code 0 s = Some s"
| "for_each_upto code (Suc k) s =
    (case for_each_upto code k s of None \<Rightarrow> None | Some s \<Rightarrow> if k = 0 then Some s else for_each_step code k s)"

definition for_each_stable_name :: "(nat \<Rightarrow> snt_state \<Rightarrow> snt_state option) \<Rightarrow> snt_state \<Rightarrow> snt_state option" where
  "for_each_stable_name code s = for_each_upto code (SNT_size s) s"

definition remember_entry :: "nat \<Rightarrow> snt_state \<Rightarrow> snt_state option" where
  "remember_entry i s = Some (upd_entry i (\<lambda>e. e\<lparr>sn_old := sn_addr e\<rparr>) s)"

definition rememberOldStableNameAddresses :: "snt_state \<Rightarrow> snt_state option" where
  "rememberOldStableNameAddresses s = for_each_stable_name remember_entry s"

definition thread_entry :: "(word64 \<Rightarrow> word64) \<Rightarrow> nat \<Rightarrow> snt_state \<Rightarrow> snt_state option" where
  "thread_entry evac i s =
    (let s = (if sn_obj (sn_tab s i) \<noteq> 0 then upd_entry i (\<lambda>e. e\<lparr>sn_obj := evac (sn_obj e)\<rparr>) s else s)
     in Some (if sn_addr (sn_tab s i) \<noteq> 0 then upd_entry i (\<lambda>e. e\<lparr>sn_addr := evac (sn_addr e)\<rparr>) s else s))"

definition threadStableNameTable :: "(word64 \<Rightarrow> word64) \<Rightarrow> snt_state \<Rightarrow> snt_state option" where
  "threadStableNameTable evac s = for_each_stable_name (thread_entry evac) s"

definition gc_entry :: "(word64 \<Rightarrow> word64) \<Rightarrow> nat \<Rightarrow> snt_state \<Rightarrow> snt_state option" where
  "gc_entry isAlive i s =
    (if sn_obj (sn_tab s i) \<noteq> 0 then
       (let s = upd_entry i (\<lambda>e. e\<lparr>sn_obj := isAlive (sn_obj e)\<rparr>) s
        in if sn_obj (sn_tab s i) = 0 then freeSnEntry i s
           else if sn_addr (sn_tab s i) \<noteq> 0 then Some (upd_entry i (\<lambda>e. e\<lparr>sn_addr := isAlive (sn_addr e)\<rparr>) s)
           else Some s)
     else Some s)"

definition gcStableNameTable :: "(word64 \<Rightarrow> word64) \<Rightarrow> word64 \<Rightarrow> snt_state \<Rightarrow> snt_state option" where
  "gcStableNameTable isAlive base s = for_each_stable_name (gc_entry isAlive) (initStableNameTable base s)"

definition insert_name :: "nat \<Rightarrow> snt_state \<Rightarrow> snt_state option" where
  "insert_name i s =
    (if sn_addr (sn_tab s i) \<noteq> 0 then
       case Option.bind (addrToStableHash s) (\<lambda>h. insertHashTable h (sn_addr (sn_tab s i)) (of_nat i)) of
         None \<Rightarrow> None
       | Some h \<Rightarrow> Some (s\<lparr>addrToStableHash := Some h\<rparr>)
     else Some s)"

definition rehash_name :: "nat \<Rightarrow> snt_state \<Rightarrow> snt_state option" where
  "rehash_name i s =
    (if sn_addr (sn_tab s i) \<noteq> sn_old (sn_tab s i) then
       case Option.bind (addrToStableHash s) (\<lambda>h. removeHashTable h (sn_old (sn_tab s i)) 0) of
         None \<Rightarrow> None
       | Some (_, h) \<Rightarrow> insert_name i (s\<lparr>addrToStableHash := Some h\<rparr>)
     else Some s)"

definition updateStableNameTable :: "bool \<Rightarrow> snt_state \<Rightarrow> snt_state option" where
  "updateStableNameTable full s =
    (let s = (if full \<and> addrToStableHash s \<noteq> None \<and> keyCountHashTable (the (addrToStableHash s)) \<noteq> 0 then s\<lparr>addrToStableHash := Some allocHashTable\<rparr> else s)
     in for_each_stable_name (if full then insert_name else rehash_name) s)"

text \<open>The sweep of the non-moving collector (\<open>rts/sm/NonMovingSweep.c\<close>).\<close>

definition nonmoving_is_alive :: "(word64 \<Rightarrow> bool) \<Rightarrow> (word64 \<Rightarrow> bool) \<Rightarrow> (word64 \<Rightarrow> bool) \<Rightarrow> word64 \<Rightarrow> bool" where
  "nonmoving_is_alive heap_alloced being_swept marked p =
    (if \<not> heap_alloced p then True else if being_swept p then marked p else True)"

definition sweep_entry :: "(word64 \<Rightarrow> bool) \<Rightarrow> nat \<Rightarrow> snt_state \<Rightarrow> snt_state option" where
  "sweep_entry is_alive i s =
    (if sn_obj (sn_tab s i) \<noteq> 0 then
       if \<not> is_alive (sn_obj (sn_tab s i)) then freeSnEntry i (upd_entry i (\<lambda>e. e\<lparr>sn_obj := 0\<rparr>) s)
       else if sn_addr (sn_tab s i) \<noteq> 0 \<and> \<not> is_alive (sn_addr (sn_tab s i)) then
         Some (upd_entry i (\<lambda>e. e\<lparr>sn_addr := 0\<rparr>) s)
       else Some s
     else Some s)"

definition nonmovingSweepStableNameTable :: "(word64 \<Rightarrow> bool) \<Rightarrow> word64 \<Rightarrow> snt_state \<Rightarrow> snt_state option" where
  "nonmovingSweepStableNameTable is_alive base s = for_each_stable_name (sweep_entry is_alive) (initStableNameTable base s)"

section \<open>The invariant\<close>

lemma unat_snEntry:
  assumes "i \<le> n" "unat t + 24 * n < 2 ^ 64"
  shows "unat (snEntry t i) = unat t + 24 * i"
proof -
  have "unat (of_nat (24 * i) :: word64) = 24 * i" using assms by (intro unat_of_nat_64) simp
  then show ?thesis using assms by (simp add: snEntry_def unat_word_ariths)
qed

lemma sn_index_snEntry:
  assumes "i < n" "unat t + 24 * n < 2 ^ 64"
  shows "unat (sn_index t (snEntry t i)) = i"
proof -
  have "sn_index t (snEntry t i) = of_nat (24 * i) div 24" by (simp add: sn_index_def snEntry_def)
  moreover have "unat (of_nat (24 * i) :: word64) = 24 * i" using assms by (intro unat_of_nat_64) simp
  ultimately show ?thesis by (simp add: unat_div)
qed

lemma snEntry_not_0: "i < n \<Longrightarrow> 0 < unat t \<Longrightarrow> unat t + 24 * n < 2 ^ 64 \<Longrightarrow> snEntry t i \<noteq> 0"
  using unat_snEntry [of i n t] by (metis add_gr_0 less_imp_le less_numeral_extra(3) unat_0)

text \<open>A pointer outside the table.\<close>

definition sn_outside :: "snt_state \<Rightarrow> word64 \<Rightarrow> bool" where
  "sn_outside s a = (a < stable_name_table s \<or> snEntry (stable_name_table s) (SNT_size s) \<le> a)"

text \<open>The free entries, by index, that the list from a pointer visits.\<close>

primrec sn_free :: "word64 \<Rightarrow> (nat \<Rightarrow> sn_entry) \<Rightarrow> word64 \<Rightarrow> nat list \<Rightarrow> bool" where
  "sn_free t tab p [] = (p = 0)"
| "sn_free t tab p (i # is) = (p = snEntry t i \<and> sn_free t tab (sn_addr (tab i)) is)"

lemma sn_free_cong: "(\<And>i. i \<in> set is \<Longrightarrow> sn_addr (tab i) = sn_addr (tab' i)) \<Longrightarrow> sn_free t tab p is = sn_free t tab' p is"
  by (induction "is" arbitrary: p) auto

text \<open>
  \<open>names i\<close> is the object of an entry in use (NULL when it has died), \<open>key i\<close> the address under which
  the entry is in the hash table.
\<close>

definition snt_table_ok :: "snt_state \<Rightarrow> bool" where
  "snt_table_ok s = (1 < SNT_size s \<and> 0 < unat (stable_name_table s) \<and>
     unat (stable_name_table s) + 24 * SNT_size s < 2 ^ 64)"

definition snt_free_ok :: "snt_state \<Rightarrow> (nat \<Rightarrow> word64 option) \<Rightarrow> bool" where
  "snt_free_ok s names = (\<exists>is. sn_free (stable_name_table s) (sn_tab s) (stable_name_free s) is \<and> distinct is \<and>
     set is = {i. 0 < i \<and> i < SNT_size s \<and> names i = None} \<and> (\<forall>i \<in> set is. sn_obj (sn_tab s i) = 0))"

definition snt_names_ok :: "snt_state \<Rightarrow> (nat \<Rightarrow> word64 option) \<Rightarrow> bool" where
  "snt_names_ok s names = (\<forall>i a. names i = Some a \<longrightarrow>
     0 < i \<and> i < SNT_size s \<and> sn_addr (sn_tab s i) = a \<and> sn_outside s a)"

definition snt_hash_ok :: "snt_state \<Rightarrow> (nat \<Rightarrow> word64 option) \<Rightarrow> bool" where
  "snt_hash_ok s key = (inj_on key (dom key) \<and> (\<forall>i \<in> dom key. 0 < i \<and> i < SNT_size s) \<and>
     (\<exists>h m. addrToStableHash s = Some h \<and> ht_map h m \<and> (\<forall>k v. m k = Some v \<longleftrightarrow> (\<exists>i. key i = Some k \<and> v = of_nat i))))"

definition snt_rel :: "snt_state \<Rightarrow> (nat \<Rightarrow> word64 option) \<Rightarrow> (nat \<Rightarrow> word64 option) \<Rightarrow> bool" where
  "snt_rel s names key = (snt_table_ok s \<and> snt_free_ok s names \<and> snt_names_ok s names \<and> snt_hash_ok s key)"

text \<open>Between collections an entry is in the hash table under its object, unless the object has died.\<close>

definition live_keys :: "(nat \<Rightarrow> word64 option) \<Rightarrow> nat \<Rightarrow> word64 option" where
  "live_keys names i = (if names i = Some 0 then None else names i)"

definition snt_inv :: "snt_state \<Rightarrow> (nat \<Rightarrow> word64 option) \<Rightarrow> bool" where
  "snt_inv s names = (snt_rel s names (live_keys names) \<and> SNT_size s \<le> 2 ^ 32)"

subsection \<open>The hash table of names\<close>

lemma snt_hash_okI:
  assumes "inj_on key (dom key)" "\<And>i. i \<in> dom key \<Longrightarrow> 0 < i \<and> i < SNT_size s" "addrToStableHash s = Some h" "ht_map h m"
    "\<And>k v. m k = Some v \<longleftrightarrow> (\<exists>i. key i = Some k \<and> v = of_nat i)"
  shows "snt_hash_ok s key"
  using assms unfolding snt_hash_ok_def by blast

lemma snt_hash_ok_mono:
  assumes "snt_hash_ok s key" "addrToStableHash s' = addrToStableHash s" "SNT_size s \<le> SNT_size s'"
  shows "snt_hash_ok s' key"
proof -
  from assms(1) obtain h m where "addrToStableHash s = Some h" "ht_map h m"
    "\<And>k v. m k = Some v \<longleftrightarrow> (\<exists>i. key i = Some k \<and> v = of_nat i)" unfolding snt_hash_ok_def by blast
  note hm = this
  have dom: "i \<in> dom key \<Longrightarrow> 0 < i \<and> i < SNT_size s" "inj_on key (dom key)" for i
    using assms(1) unfolding snt_hash_ok_def by blast+
  show ?thesis
    by (rule snt_hash_okI [OF dom(2) _ _ hm(2,3)]) (use dom(1) assms hm(1) in \<open>auto intro: less_le_trans\<close>)
qed

lemma names_lookup:
  assumes "snt_hash_ok s key"
  obtains h where "addrToStableHash s = Some h"
    "\<And>k. lookupHashTable h k = Some (if \<exists>i. key i = Some k then of_nat (THE i. key i = Some k) else 0)"
proof -
  from assms obtain h m where h: "addrToStableHash s = Some h" "ht_map h m"
    and m: "\<And>k v. m k = Some v \<longleftrightarrow> (\<exists>i. key i = Some k \<and> v = of_nat i)" unfolding snt_hash_ok_def by blast
  have "lookupHashTable h k = Some (if \<exists>i. key i = Some k then of_nat (THE i. key i = Some k) else 0)" for k
  proof (cases "\<exists>i. key i = Some k")
    case True
    then obtain i where i: "key i = Some k" by blast
    have "(THE i. key i = Some k) = i"
      using assms i by (intro the_equality) (auto simp: snt_hash_ok_def inj_on_def dom_def)
    with True i m [of k "of_nat i"] ht_map_lookup [OF h(2), of k] show ?thesis by auto
  next
    case False
    then have "m k = None" using m [of k] by (cases "m k") auto
    with False ht_map_lookup [OF h(2), of k] show ?thesis by simp
  qed
  with h(1) that show thesis by blast
qed

lemma names_insert:
  assumes ok: "snt_hash_ok s key" and new: "\<And>j. key j \<noteq> Some k" and i: "0 < i" "i < SNT_size s" "key i = None"
  obtains h h' where "addrToStableHash s = Some h" "insertHashTable h k (of_nat i) = Some h'"
    "snt_hash_ok (s\<lparr>addrToStableHash := Some h'\<rparr>) (key(i \<mapsto> k))"
proof -
  from ok obtain h m where h: "addrToStableHash s = Some h" "ht_map h m"
    and m: "\<And>k v. m k = Some v \<longleftrightarrow> (\<exists>i. key i = Some k \<and> v = of_nat i)" unfolding snt_hash_ok_def by blast
  have "m k = None" using m [of k] new by (cases "m k") auto
  from ht_map_insert [OF h(2) this, of "of_nat i"] obtain h' where
    h': "insertHashTable h k (of_nat i) = Some h'" "ht_map h' (m(k \<mapsto> of_nat i))" by blast
  have inj: "inj_on (key(i \<mapsto> k)) (dom (key(i \<mapsto> k)))"
    using ok new i unfolding snt_hash_ok_def inj_on_def by (auto simp: dom_def)
  have "(m(k \<mapsto> of_nat i)) k' = Some v \<longleftrightarrow> (\<exists>j. (key(i \<mapsto> k)) j = Some k' \<and> v = of_nat j)" for k' v
    using m [of k' v] new i(3) by (auto split: if_splits) (metis option.distinct(1))
  note iff = this
  have "snt_hash_ok (s\<lparr>addrToStableHash := Some h'\<rparr>) (key(i \<mapsto> k))"
    by (rule snt_hash_okI [OF inj _ _ h'(2) iff]) (use ok i in \<open>auto simp: snt_hash_ok_def\<close>)
  with h(1) h'(1) that show thesis by blast
qed

lemma names_remove:
  assumes ok: "snt_hash_ok s key" and i: "key i = Some k \<or> key i = None \<and> (\<forall>j. key j \<noteq> Some k)"
  obtains h v h' where "addrToStableHash s = Some h" "removeHashTable h k 0 = Some (v, h')"
    "snt_hash_ok (s\<lparr>addrToStableHash := Some h'\<rparr>) (key(i := None))"
proof -
  from ok obtain h m where h: "addrToStableHash s = Some h" "ht_map h m"
    and m: "\<And>k v. m k = Some v \<longleftrightarrow> (\<exists>i. key i = Some k \<and> v = of_nat i)" unfolding snt_hash_ok_def by blast
  from ht_map_remove [OF h(2), of k] obtain v h' where
    h': "removeHashTable h k 0 = Some (v, h')" "ht_map h' (m(k := None))" by blast
  have inj: "key j = Some k \<Longrightarrow> j = i" for j
    using ok i unfolding snt_hash_ok_def inj_on_def by (auto simp: dom_def)
  have "(m(k := None)) k' = Some v \<longleftrightarrow> (\<exists>j. (key(i := None)) j = Some k' \<and> v = of_nat j)" for k' v
  proof (cases "k' = k")
    case True
    then show ?thesis using inj [of _] by auto
  next
    case False
    then have "(key(i := None)) j = Some k' \<longleftrightarrow> key j = Some k'" for j using i by auto
    then show ?thesis using m [of k' v] False by simp
  qed
  note iff = this
  have inj': "inj_on (key(i := None)) (dom (key(i := None)))"
    using ok unfolding snt_hash_ok_def inj_on_def by (auto simp: dom_def)
  have "snt_hash_ok (s\<lparr>addrToStableHash := Some h'\<rparr>) (key(i := None))"
    by (rule snt_hash_okI [OF inj' _ _ h'(2) iff]) (use ok in \<open>auto simp: snt_hash_ok_def split: if_splits\<close>)
  with h(1) h'(1) that show thesis by blast
qed

subsection \<open>Initialising, growing and looking up\<close>

lemma link_sn_other: "i < lo \<or> lo + k \<le> i \<Longrightarrow> link_sn_entries t lo k fr tab i = tab i"
  by (induction k arbitrary: fr tab) auto

lemma link_sn_free:
  "sn_free t tab fr is \<Longrightarrow> (\<And>i. i \<in> set is \<Longrightarrow> lo + k \<le> i) \<Longrightarrow>
    sn_free t (link_sn_entries t lo k fr tab) (if k = 0 then fr else snEntry t lo) ([lo..<lo + k] @ is) \<and>
    (\<forall>i. lo \<le> i \<and> i < lo + k \<longrightarrow> sn_obj (link_sn_entries t lo k fr tab i) = 0)"
proof (induction k arbitrary: fr tab "is")
  case (Suc k)
  let ?tab = "tab(lo + k := \<lparr>sn_addr = fr, sn_old = 0, sn_obj = 0\<rparr>)"
  have "sn_free t ?tab fr is"
    using Suc.prems by (subst sn_free_cong [of _ _ tab]) fastforce+
  then have "sn_free t ?tab (snEntry t (lo + k)) ((lo + k) # is)" by simp
  moreover have "\<And>i. i \<in> set ((lo + k) # is) \<Longrightarrow> lo + k \<le> i" using Suc.prems(2) by fastforce
  ultimately have "sn_free t (link_sn_entries t lo k (snEntry t (lo + k)) ?tab) (if k = 0 then snEntry t (lo + k) else snEntry t lo)
      ([lo..<lo + k] @ (lo + k) # is) \<and>
      (\<forall>i. lo \<le> i \<and> i < lo + k \<longrightarrow> sn_obj (link_sn_entries t lo k (snEntry t (lo + k)) ?tab i) = 0)"
    by (rule Suc.IH)
  moreover have "sn_obj (link_sn_entries t lo k (snEntry t (lo + k)) ?tab (lo + k)) = 0"
    by (simp add: link_sn_other)
  moreover have "(if k = 0 then snEntry t (lo + k) else snEntry t lo) = snEntry t lo" by simp
  ultimately show ?case by (auto simp: less_Suc_eq)
qed auto

lemma init_names:
  assumes "SNT_size s = 0" "0 < unat base" "unat base + 24 * 64 < 2 ^ 64"
  shows "snt_inv (initStableNameTable base s) Map.empty"
proof -
  have "sn_free base (link_sn_entries base 1 63 0 (sn_tab s)) (snEntry base 1) ([1..<1 + 63] @ []) \<and>
    (\<forall>i. 1 \<le> i \<and> i < 1 + 63 \<longrightarrow> sn_obj (link_sn_entries base 1 63 0 (sn_tab s) i) = 0)"
    using link_sn_free [of base "sn_tab s" 0 "[]" 1 63] by (simp del: upt_rec_numeral upt.simps)
  then have "snt_free_ok (initStableNameTable base s) Map.empty"
    using assms unfolding snt_free_ok_def
    by (intro exI [of _ "[1..<64]"])
      (auto simp: initStableNameTable_def initSnEntryFreeList_def INIT_SNT_SIZE_def simp del: upt_rec_numeral)
  moreover have "snt_hash_ok (initStableNameTable base s) Map.empty"
    by (rule snt_hash_okI [where h = allocHashTable and m = Map.empty])
      (use assms allocHashTable_holds in \<open>auto simp: initStableNameTable_def ht_map_def\<close>)
  moreover have "live_keys Map.empty = Map.empty" by (auto simp: live_keys_def)
  ultimately show ?thesis
    using assms by (simp add: snt_inv_def snt_rel_def snt_names_ok_def snt_table_ok_def initStableNameTable_def
        initSnEntryFreeList_def INIT_SNT_SIZE_def)
qed

lemma init_names_noop: "snt_inv s names \<Longrightarrow> initStableNameTable base s = s"
  by (simp add: initStableNameTable_def snt_inv_def snt_rel_def snt_table_ok_def)

text \<open>What \<open>realloc\<close> guarantees for the enlarged table: it lies in the address space and holds no object.\<close>

definition room_at :: "snt_state \<Rightarrow> (nat \<Rightarrow> word64 option) \<Rightarrow> word64 \<Rightarrow> bool" where
  "room_at s names base = (0 < unat base \<and> unat base + 24 * (2 * SNT_size s) < 2 ^ 64 \<and> SNT_size s \<le> 2 ^ 30 \<and>
     (\<forall>i a. names i = Some a \<longrightarrow> a < base \<or> snEntry base (2 * SNT_size s) \<le> a))"

lemma full_no_free:
  assumes R: "snt_rel s names key" and full: "stable_name_free s = 0"
  shows "{i. 0 < i \<and> i < SNT_size s \<and> names i = None} = {}"
proof -
  obtain fr where fr: "sn_free (stable_name_table s) (sn_tab s) 0 fr"
    "set fr = {i. 0 < i \<and> i < SNT_size s \<and> names i = None}"
    using R full by (auto simp: snt_rel_def snt_free_ok_def)
  have nz: "snEntry (stable_name_table s) i \<noteq> 0" if "i < SNT_size s" for i
    by (rule snEntry_not_0 [OF that]) (use R in \<open>auto simp: snt_rel_def snt_table_ok_def\<close>)
  have "fr = []"
  proof (cases fr)
    case (Cons i "is")
    then have "i < SNT_size s" "snEntry (stable_name_table s) i = 0" using fr by auto
    with nz show ?thesis by blast
  qed
  then show ?thesis using fr(2) by simp
qed

lemma enlarge_names:
  assumes inv: "snt_inv s names" and full: "stable_name_free s = 0" and room: "room_at s names base"
  shows "snt_inv (enlargeStableNameTable base s) names" "stable_name_free (enlargeStableNameTable base s) \<noteq> 0"
proof -
  let ?n = "SNT_size s" and ?s = "enlargeStableNameTable base s"
  have r: "0 < unat base" "unat base + 24 * (2 * ?n) < 2 ^ 64" "?n \<le> 2 ^ 30" "1 < ?n"
    using room inv by (auto simp: room_at_def snt_inv_def snt_rel_def snt_table_ok_def)
  have s: "SNT_size ?s = 2 * ?n" "stable_name_table ?s = base" "stable_name_free ?s = snEntry base ?n"
    "sn_tab ?s = link_sn_entries base ?n ?n 0 (sn_tab s)" "addrToStableHash ?s = addrToStableHash s"
    using r by (simp_all add: enlargeStableNameTable_def initSnEntryFreeList_def Let_def)
  show "stable_name_free ?s \<noteq> 0" unfolding s(3) by (rule snEntry_not_0 [of _ "2 * ?n"]) (use r in auto)
  have R: "snt_rel s names (live_keys names)" using inv by (simp add: snt_inv_def)
  have all: "{i. 0 < i \<and> i < ?n \<and> names i = None} = {}" by (rule full_no_free [OF R full])
  have out: "names i = None" if "?n \<le> i" for i
    using R that unfolding snt_rel_def snt_names_ok_def by (metis leD not_None_eq)
  have ge: "?n \<le> i" if "0 < i" "names i = None" for i 
  proof (rule ccontr)
    assume "\<not> ?n \<le> i"
    then have "i \<in> {i. 0 < i \<and> i < ?n \<and> names i = None}" using that by simp
    then show False unfolding all by blast
  qed
  have "{i. 0 < i \<and> i < 2 * ?n \<and> names i = None} = {?n..<?n + ?n}"
    using ge out r by auto
  moreover have "sn_free base (link_sn_entries base ?n ?n 0 (sn_tab s)) (snEntry base ?n) ([?n..<?n + ?n] @ []) \<and>
    (\<forall>i. ?n \<le> i \<and> i < ?n + ?n \<longrightarrow> sn_obj (link_sn_entries base ?n ?n 0 (sn_tab s) i) = 0)"
    using link_sn_free [of base "sn_tab s" 0 "[]" ?n ?n] r by simp
  ultimately have f: "snt_free_ok ?s names" unfolding snt_free_ok_def s
    by (intro exI [of _ "[?n..<?n + ?n]"]) auto
  have "snt_names_ok ?s names"
    unfolding snt_names_ok_def s sn_outside_def
  proof (intro allI impI)
    fix i a assume a: "names i = Some a"
    then have "0 < i" "i < ?n" "sn_addr (sn_tab s i) = a" using R unfolding snt_rel_def snt_names_ok_def by blast+
    moreover from a have "a < base \<or> snEntry base (2 * ?n) \<le> a" using room unfolding room_at_def by blast
    ultimately show "0 < i \<and> i < 2 * ?n \<and> sn_addr (link_sn_entries base ?n ?n 0 (sn_tab s) i) = a \<and>
        (a < base \<or> snEntry base (2 * ?n) \<le> a)" by (simp add: link_sn_other)
  qed
  moreover have "snt_hash_ok ?s (live_keys names)"
    by (rule snt_hash_ok_mono [of s]) (use R s in \<open>auto simp: snt_rel_def\<close>)
  ultimately show "snt_inv ?s names"
    using f r by (simp add: snt_inv_def snt_rel_def snt_table_ok_def s)
qed


lemma sn_outside_table: "snt_table_ok s \<Longrightarrow> i < SNT_size s \<Longrightarrow> \<not> sn_outside s (snEntry (stable_name_table s) i)"
  using unat_snEntry [of i "SNT_size s" "stable_name_table s"] unat_snEntry [of "SNT_size s" "SNT_size s" "stable_name_table s"]
  by (simp add: sn_outside_def snt_table_ok_def word_less_nat_alt word_le_nat_alt)

text \<open>Taking the first free entry for a new object.\<close>

lemma take_entry:
  assumes inv: "snt_inv s names" and free: "stable_name_free s \<noteq> 0" and p: "p \<noteq> 0" "sn_outside s p"
    and new: "\<And>i. names i \<noteq> Some p"
  defines "sn \<equiv> sn_index (stable_name_table s) (stable_name_free s)"
  obtains i h h' where "sn = of_nat i" "unat sn = i" "0 < i" "names i = None" "addrToStableHash s = Some h"
    "insertHashTable h p sn = Some h'"
    "snt_inv (upd_entry i (\<lambda>e. e\<lparr>sn_addr := p, sn_obj := 0\<rparr>) (s\<lparr>stable_name_free := sn_addr (sn_tab s i)\<rparr>)
        \<lparr>addrToStableHash := Some h'\<rparr>) (names(i \<mapsto> p))"
proof -
  let ?n = "SNT_size s" and ?t = "stable_name_table s"
  have R: "snt_rel s names (live_keys names)" and n: "?n \<le> 2 ^ 32" using inv by (auto simp: snt_inv_def)
  have T: "snt_table_ok s" using R by (simp add: snt_rel_def)
  obtain fr where fr: "sn_free ?t (sn_tab s) (stable_name_free s) fr" "distinct fr"
    "set fr = {i. 0 < i \<and> i < ?n \<and> names i = None}" "\<forall>i \<in> set fr. sn_obj (sn_tab s i) = 0"
    using R unfolding snt_rel_def snt_free_ok_def by blast
  obtain i is' where c: "fr = i # is'" using fr(1) free by (cases fr) auto
  have i: "0 < i" "i < ?n" "names i = None" using fr(3) c by auto
  have sn: "unat sn = i" using fr(1) c sn_index_snEntry [OF i(2)] T by (simp add: sn_def snt_table_ok_def)
  then have sn': "sn = of_nat i" by (simp flip: sn)
  have K: "live_keys (names(i \<mapsto> p)) = (live_keys names)(i \<mapsto> p)" using p(1) by (auto simp: live_keys_def)
  have nk: "live_keys names j \<noteq> Some p" for j using new by (simp add: live_keys_def)
  obtain h h' where h: "addrToStableHash s = Some h" "insertHashTable h p (of_nat i) = Some h'"
    "snt_hash_ok (s\<lparr>addrToStableHash := Some h'\<rparr>) ((live_keys names)(i \<mapsto> p))"
    by (rule names_insert [of s "live_keys names" p i]) (use R i nk in \<open>auto simp: snt_rel_def live_keys_def\<close>)
  let ?s = "upd_entry i (\<lambda>e. e\<lparr>sn_addr := p, sn_obj := 0\<rparr>) (s\<lparr>stable_name_free := sn_addr (sn_tab s i)\<rparr>)
        \<lparr>addrToStableHash := Some h'\<rparr>"
  have s: "SNT_size ?s = ?n" "stable_name_table ?s = ?t" "stable_name_free ?s = sn_addr (sn_tab s i)"
    "sn_tab ?s = (sn_tab s)(i := (sn_tab s i)\<lparr>sn_addr := p, sn_obj := 0\<rparr>)" "addrToStableHash ?s = Some h'"
    by (simp_all add: upd_entry_def)
  have "sn_free ?t (sn_tab ?s) (sn_addr (sn_tab s i)) is'"
    unfolding s using fr(1,2) c by (subst sn_free_cong [of _ _ "sn_tab s"]) auto
  moreover have "set is' = {j. 0 < j \<and> j < ?n \<and> (names(i \<mapsto> p)) j = None}"
  proof -
    have "set is' = set fr - {i}" using c fr(2) by auto
    also have "\<dots> = {j. 0 < j \<and> j < ?n \<and> names j = None} - {i}" unfolding fr(3) by (rule refl)
    finally show ?thesis by auto
  qed
  moreover have "\<forall>j \<in> set is'. sn_obj (sn_tab ?s j) = 0" unfolding s using fr c by auto
  ultimately have "snt_free_ok ?s (names(i \<mapsto> p))"
    unfolding snt_free_ok_def s(1-3) using fr(2) c by (intro exI [of _ is']) auto
  moreover have "snt_names_ok ?s (names(i \<mapsto> p))"
    using R i p unfolding snt_rel_def snt_names_ok_def s sn_outside_def by auto
  moreover have "snt_hash_ok ?s (live_keys (names(i \<mapsto> p)))"
    unfolding K by (rule snt_hash_ok_mono [OF h(3)]) (simp_all add: s)
  ultimately have "snt_inv ?s (names(i \<mapsto> p))"
    using T n by (simp add: snt_inv_def snt_rel_def snt_table_ok_def s)
  moreover have "insertHashTable h p sn = Some h'" using h(2) sn' by simp
  ultimately show ?thesis by (intro that [OF sn' sn i(1,3) h(1)])
qed


lemma lookup_names:
  assumes inv: "snt_inv s names"
    and room: "if stable_name_free s = 0 then room_at s names base' \<and>
        (p < base' \<or> snEntry base' (2 * SNT_size s) \<le> p) else sn_outside s p"
    and p: "removeIndirections itbl indirectee q = Some p'" "UNTAG_CLOSURE p' = p" "p \<noteq> 0"
  shows "\<exists>i s'. lookupStableName itbl indirectee base base' q s = Some (of_nat i, s') \<and> 0 < i \<and> i < 2 ^ 32 \<and>
    (names i = Some p \<and> snt_inv s' names \<or>
     (\<forall>j. names j \<noteq> Some p) \<and> names i = None \<and> snt_inv s' (names(i \<mapsto> p)))"
proof -
  define s2 where "s2 = (if stable_name_free s = 0 then enlargeStableNameTable base' s else s)"
  have s2: "snt_inv s2 names" "stable_name_free s2 \<noteq> 0" "sn_outside s2 p"
  proof -
    have "snt_inv s2 names \<and> stable_name_free s2 \<noteq> 0 \<and> sn_outside s2 p"
    proof (cases "stable_name_free s = 0")
      case True
      then have r: "room_at s names base'" "p < base' \<or> snEntry base' (2 * SNT_size s) \<le> p" using room by auto
      have "SNT_size (enlargeStableNameTable base' s) = 2 * SNT_size s" "stable_name_table (enlargeStableNameTable base' s) = base'"
        using r by (simp_all add: enlargeStableNameTable_def initSnEntryFreeList_def Let_def room_at_def)
      with enlarge_names [OF inv True r(1)] r(2) True show ?thesis by (simp add: s2_def sn_outside_def)
    qed (use room inv in \<open>simp add: s2_def\<close>)
    then show "snt_inv s2 names" "stable_name_free s2 \<noteq> 0" "sn_outside s2 p" by auto
  qed
  have R: "snt_rel s2 names (live_keys names)" "SNT_size s2 \<le> 2 ^ 32" using s2(1) by (auto simp: snt_inv_def)
  obtain h where h: "addrToStableHash s2 = Some h" and look: "\<And>k. lookupHashTable h k =
      Some (if \<exists>i. live_keys names i = Some k then of_nat (THE i. live_keys names i = Some k) else 0)"
    using names_lookup R unfolding snt_rel_def by blast
  have key: "live_keys names i = Some p \<longleftrightarrow> names i = Some p" for i using p(3) by (simp add: live_keys_def)
  have run: "lookupStableName itbl indirectee base base' q s =
      (case lookupHashTable h p of None \<Rightarrow> None | Some sn \<Rightarrow> if sn \<noteq> 0 then Some (sn, s2) else
        (let sn = sn_index (stable_name_table s2) (stable_name_free s2);
             s3 = upd_entry (unat sn) (\<lambda>e. e\<lparr>sn_addr := p, sn_obj := 0\<rparr>) (s2\<lparr>stable_name_free := sn_addr (sn_tab s2 (unat sn))\<rparr>)
         in case insertHashTable h p sn of None \<Rightarrow> None | Some h \<Rightarrow> Some (sn, s3\<lparr>addrToStableHash := Some h\<rparr>)))"
    unfolding lookupStableName_def init_names_noop [OF inv, of base] Let_def s2_def [symmetric] p(1)
    by (simp add: h p(2) upd_entry_def cong: option.case_cong if_cong)
  show ?thesis
  proof (cases "\<exists>i. names i = Some p")
    case True
    then obtain i where i: "names i = Some p" by blast
    have i': "0 < i" "i < SNT_size s2" using R(1) i unfolding snt_rel_def snt_names_ok_def by blast+
    have "inj_on (live_keys names) (dom (live_keys names))" using R(1) by (simp add: snt_rel_def snt_hash_ok_def)
    note inj = this
    have ki: "live_keys names i = Some p" using i key by blast
    have "(THE i. live_keys names i = Some p) = i"
    proof (rule the_equality)
      show "j = i" if "live_keys names j = Some p" for j
        by (rule inj_onD [OF inj]) (simp_all add: that ki domIff)
    qed (rule ki)
    moreover have "unat (of_nat i :: word64) = i" using i' R(2) by (intro unat_of_nat_64) simp
    then have "(of_nat i :: word64) \<noteq> 0" using i'(1) by (metis less_numeral_extra(3) unat_0)
    ultimately have "lookupStableName itbl indirectee base base' q s = Some (of_nat i, s2)"
      unfolding run look using i key by auto
    with i i' R(2) s2(1) show ?thesis by force
  next
    case False
    then have new: "names i \<noteq> Some p" for i by blast
    obtain i h' where i: "sn_index (stable_name_table s2) (stable_name_free s2) = of_nat i"
      "unat (sn_index (stable_name_table s2) (stable_name_free s2)) = i" "0 < i" "names i = None"
      "insertHashTable h p (sn_index (stable_name_table s2) (stable_name_free s2)) = Some h'"
      "snt_inv (upd_entry i (\<lambda>e. e\<lparr>sn_addr := p, sn_obj := 0\<rparr>) (s2\<lparr>stable_name_free := sn_addr (sn_tab s2 i)\<rparr>)
        \<lparr>addrToStableHash := Some h'\<rparr>) (names(i \<mapsto> p))"
      by (rule take_entry [OF s2(1,2) p(3) s2(3) new]) (use h in auto)
    note inv' = i(6)
    have "i < SNT_size s2" using inv' unfolding snt_inv_def snt_rel_def snt_names_ok_def by (auto simp: upd_entry_def)
    moreover have "\<exists>s'. lookupStableName itbl indirectee base base' q s = Some (of_nat i, s') \<and> snt_inv s' (names(i \<mapsto> p))"
      unfolding run look using new key i inv' by (simp add: Let_def)
    ultimately show ?thesis using i(3,4) new R(2) by force
  qed
qed


subsection \<open>The loop over the table\<close>

lemma for_each_rule:
  assumes "P 1 s" "0 < SNT_size s"
    and step: "\<And>i s'. 0 < i \<Longrightarrow> i < SNT_size s \<Longrightarrow> P i s' \<Longrightarrow> \<exists>s''. for_each_step code i s' = Some s'' \<and> P (Suc i) s''"
  shows "\<exists>s'. for_each_stable_name code s = Some s' \<and> P (SNT_size s) s'"
proof -
  have "\<exists>s'. for_each_upto code (Suc k) s = Some s' \<and> P (Suc k) s'" if "k < SNT_size s" for k
    using that
  proof (induction k)
    case (Suc k)
    then obtain s' where "for_each_upto code (Suc k) s = Some s'" "P (Suc k) s'" by auto
    with step [of "Suc k" s'] Suc.prems show ?case by simp
  qed (use assms(1) in simp)
  from this [of "SNT_size s - 1"] assms(2) show ?thesis by (simp add: for_each_stable_name_def)
qed

lemma free_entry_word:
  assumes "snt_table_ok s" "snt_free_ok s names" "0 < i" "i < SNT_size s" "names i = None"
  shows "sn_obj (sn_tab s i) = 0" "sn_outside s (sn_addr (sn_tab s i)) \<Longrightarrow> sn_addr (sn_tab s i) = 0"
proof -
  obtain fr where fr: "sn_free (stable_name_table s) (sn_tab s) (stable_name_free s) fr"
    "set fr = {i. 0 < i \<and> i < SNT_size s \<and> names i = None}" "\<forall>i \<in> set fr. sn_obj (sn_tab s i) = 0"
    using assms(2) unfolding snt_free_ok_def by blast
  have i: "i \<in> set fr" using fr(2) assms by simp
  with fr(3) show "sn_obj (sn_tab s i) = 0" by blast
  obtain us vs where "fr = us @ i # vs" using i by (auto simp: in_set_conv_decomp)
  moreover have "sn_free t tab p (us @ i # vs) \<Longrightarrow> sn_free t tab (sn_addr (tab i)) vs" for t tab p
    by (induction us arbitrary: p) auto
  ultimately have v: "sn_free (stable_name_table s) (sn_tab s) (sn_addr (sn_tab s i)) vs" using fr(1) by blast
  assume out: "sn_outside s (sn_addr (sn_tab s i))"
  show "sn_addr (sn_tab s i) = 0"
  proof (cases vs)
    case (Cons j ws)
    then have "j \<in> set fr" using \<open>fr = _\<close> by simp
    then have "j < SNT_size s" using fr(2) by simp
    with v Cons out sn_outside_table [OF assms(1)] show ?thesis by auto
  qed (use v in simp)
qed

text \<open>Changing the words of an entry in use, other than its \<open>addr\<close>, and changing its \<open>addr\<close>.\<close>

lemma rel_upd_entry:
  assumes rel: "snt_rel s names key" and f: "\<And>e. sn_addr (f e) = sn_addr e" "names i = None \<Longrightarrow> sn_obj (f (sn_tab s i)) = 0"
  shows "snt_rel (upd_entry i f s) names key"
proof -
  have "snt_free_ok (upd_entry i f s) names"
  proof -
    obtain fr where fr: "sn_free (stable_name_table s) (sn_tab s) (stable_name_free s) fr" "distinct fr"
      "set fr = {i. 0 < i \<and> i < SNT_size s \<and> names i = None}" "\<forall>i \<in> set fr. sn_obj (sn_tab s i) = 0"
      using rel unfolding snt_rel_def snt_free_ok_def by blast
    have "sn_free (stable_name_table s) (sn_tab (upd_entry i f s)) (stable_name_free s) fr"
      using fr(1) by (subst sn_free_cong [of _ _ "sn_tab s"]) (auto simp: upd_entry_def f(1))
    with fr f(2) show ?thesis unfolding snt_free_ok_def by (intro exI [of _ fr]) (auto simp: upd_entry_def)
  qed
  then show ?thesis
    using rel by (auto simp: snt_rel_def snt_names_ok_def snt_table_ok_def snt_hash_ok_def sn_outside_def upd_entry_def f(1))
qed

lemma rel_upd_addr:
  assumes rel: "snt_rel s names key" and i: "names i = Some a" and b: "sn_outside s b"
  shows "snt_rel (upd_entry i (\<lambda>e. e\<lparr>sn_addr := b\<rparr>) s) (names(i \<mapsto> b)) key"
proof -
  let ?s = "upd_entry i (\<lambda>e. e\<lparr>sn_addr := b\<rparr>) s"
  have f: "SNT_size ?s = SNT_size s" "stable_name_table ?s = stable_name_table s" "stable_name_free ?s = stable_name_free s"
    by (simp_all add: upd_entry_def)
  obtain fr where fr: "sn_free (stable_name_table s) (sn_tab s) (stable_name_free s) fr" "distinct fr"
    "set fr = {i. 0 < i \<and> i < SNT_size s \<and> names i = None}" "\<forall>i \<in> set fr. sn_obj (sn_tab s i) = 0"
    using rel unfolding snt_rel_def snt_free_ok_def by blast
  have ni: "i \<notin> set fr" using fr(3) i by simp
  have "sn_free (stable_name_table s) (sn_tab ?s) (stable_name_free s) fr"
    using fr(1) ni by (subst sn_free_cong [of _ _ "sn_tab s"]) (auto simp: upd_entry_def)
  moreover have "{j. 0 < j \<and> j < SNT_size s \<and> (names(i \<mapsto> b)) j = None} = {i. 0 < i \<and> i < SNT_size s \<and> names i = None}"
    using i by auto
  moreover have "\<forall>j \<in> set fr. sn_obj (sn_tab ?s j) = 0" using fr(4) ni by (auto simp: upd_entry_def)
  ultimately have "snt_free_ok ?s (names(i \<mapsto> b))" using fr(2,3) unfolding snt_free_ok_def f by blast
  moreover have "snt_names_ok ?s (names(i \<mapsto> b))"
    using rel i b by (auto simp: snt_rel_def snt_names_ok_def sn_outside_def upd_entry_def)
  ultimately show ?thesis
    using rel by (simp add: snt_rel_def snt_table_ok_def snt_hash_ok_def upd_entry_def)
qed

text \<open>Freeing an entry whose \<open>old\<close> word is its key in the hash table.\<close>

lemma rel_free_entry:
  assumes rel: "snt_rel s names key" and i: "names i = Some a" "sn_obj (sn_tab s i) = 0"
    and old: "key i = Some (sn_old (sn_tab s i)) \<or> key i = None \<and> (\<forall>j. key j \<noteq> Some (sn_old (sn_tab s i)))"
  shows "\<exists>s'. freeSnEntry i s = Some s' \<and> snt_rel s' (names(i := None)) (key(i := None)) \<and>
    SNT_size s' = SNT_size s \<and> stable_name_table s' = stable_name_table s \<and>
    (\<forall>j. sn_old (sn_tab s' j) = sn_old (sn_tab s j)) \<and> (\<forall>j. j \<noteq> i \<longrightarrow> sn_tab s' j = sn_tab s j)"
proof -
  have hash: "snt_hash_ok s key" using rel by (simp add: snt_rel_def)
  obtain h v h' where h: "addrToStableHash s = Some h" "removeHashTable h (sn_old (sn_tab s i)) 0 = Some (v, h')"
    "snt_hash_ok (s\<lparr>addrToStableHash := Some h'\<rparr>) (key(i := None))" by (rule names_remove [OF hash old])
  let ?s = "(upd_entry i (sn_addr_update (\<lambda>_. stable_name_free s)) (s\<lparr>addrToStableHash := Some h'\<rparr>))
      \<lparr>stable_name_free := snEntry (stable_name_table s) i\<rparr>"
  have run: "freeSnEntry i s = Some ?s" using h by (simp add: freeSnEntry_def)
  have f: "SNT_size ?s = SNT_size s" "stable_name_table ?s = stable_name_table s"
    "stable_name_free ?s = snEntry (stable_name_table s) i" by (simp_all add: upd_entry_def)
  obtain fr where fr: "sn_free (stable_name_table s) (sn_tab s) (stable_name_free s) fr" "distinct fr"
    "set fr = {i. 0 < i \<and> i < SNT_size s \<and> names i = None}" "\<forall>i \<in> set fr. sn_obj (sn_tab s i) = 0"
    using rel unfolding snt_rel_def snt_free_ok_def by blast
  have ib: "0 < i" "i < SNT_size s" using rel i unfolding snt_rel_def snt_names_ok_def by blast+
  have ni: "i \<notin> set fr" using fr(3) i by simp
  have "sn_free (stable_name_table s) (sn_tab ?s) (stable_name_free s) fr"
    using fr(1) ni by (subst sn_free_cong [of _ _ "sn_tab s"]) (auto simp: upd_entry_def)
  then have "sn_free (stable_name_table s) (sn_tab ?s) (snEntry (stable_name_table s) i) (i # fr)"
    by (simp add: upd_entry_def)
  moreover have "{j. 0 < j \<and> j < SNT_size s \<and> (names(i := None)) j = None} = insert i (set fr)"
    using ib by (auto simp: fr(3))
  moreover have "\<forall>j \<in> set (i # fr). sn_obj (sn_tab ?s j) = 0" using fr(4) ni i(2) by (auto simp: upd_entry_def)
  ultimately have "snt_free_ok ?s (names(i := None))"
    using fr(2) ni unfolding snt_free_ok_def f by (intro exI [of _ "i # fr"]) simp
  moreover have "snt_names_ok ?s (names(i := None))"
    using rel by (auto simp: snt_rel_def snt_names_ok_def sn_outside_def upd_entry_def)
  moreover have "snt_hash_ok ?s (key(i := None))" by (rule snt_hash_ok_mono [OF h(3)]) (simp_all add: upd_entry_def)
  ultimately have "snt_rel ?s (names(i := None)) (key(i := None))"
    using rel by (simp add: snt_rel_def snt_table_ok_def f)
  with run show ?thesis by (auto simp: upd_entry_def)
qed


section \<open>A collection\<close>

text \<open>
  What a collection makes of the entries: \<open>obj i\<close> is the StableName object of entry \<open>i\<close>, and \<open>isAlive\<close>
  answers NULL for a dead object and the new address for a live one.
\<close>

definition names_after :: "(word64 \<Rightarrow> word64) \<Rightarrow> (nat \<Rightarrow> word64) \<Rightarrow> (nat \<Rightarrow> word64 option) \<Rightarrow> nat \<Rightarrow> word64 option" where
  "names_after isAlive obj names i =
    (case names i of
       None \<Rightarrow> None
     | Some a \<Rightarrow> if isAlive (obj i) = 0 then None else Some (if a = 0 then 0 else isAlive a))"

text \<open>
  The assumptions on a collection: every entry in use has its StableName object; objects do not land in
  the table; two live objects stay apart, and an object that moves lands at an address that no
  named object had before (the to-space is fresh).
\<close>

definition gc_ok :: "(word64 \<Rightarrow> word64) \<Rightarrow> snt_state \<Rightarrow> (nat \<Rightarrow> word64 option) \<Rightarrow> bool" where
  "gc_ok isAlive s names =
    ((\<forall>i a. names i = Some a \<longrightarrow> sn_obj (sn_tab s i) \<noteq> 0 \<and> (a \<noteq> 0 \<longrightarrow> sn_outside s (isAlive a))) \<and>
     (\<forall>i j a b. names i = Some a \<longrightarrow> names j = Some b \<longrightarrow> a \<noteq> 0 \<longrightarrow> b \<noteq> 0 \<longrightarrow> isAlive a \<noteq> 0 \<longrightarrow>
        isAlive a = isAlive b \<longrightarrow> a = b) \<and>
     (\<forall>i j a b. names i = Some a \<longrightarrow> names j = Some b \<longrightarrow> a \<noteq> 0 \<longrightarrow> b \<noteq> 0 \<longrightarrow> isAlive a \<noteq> a \<longrightarrow> isAlive a \<noteq> 0 \<longrightarrow> isAlive a \<noteq> b))"

lemma live_keys_inj:
  assumes "snt_inv s names" "names i = Some a" "names j = Some a" "a \<noteq> 0"
  shows "i = j"
proof -
  have "inj_on (live_keys names) (dom (live_keys names))"
    using assms(1) by (simp add: snt_inv_def snt_rel_def snt_hash_ok_def)
  then show ?thesis by (rule inj_onD) (use assms in \<open>auto simp: live_keys_def\<close>)
qed

subsection \<open>Remembering the old addresses\<close>

lemma remember_rel:
  assumes R: "snt_rel s names key"
  shows "\<exists>s'. rememberOldStableNameAddresses s = Some s' \<and> snt_rel s' names key \<and>
    SNT_size s' = SNT_size s \<and> stable_name_table s' = stable_name_table s \<and> addrToStableHash s' = addrToStableHash s \<and>
    (\<forall>i. sn_addr (sn_tab s' i) = sn_addr (sn_tab s i) \<and> sn_obj (sn_tab s' i) = sn_obj (sn_tab s i)) \<and>
    (\<forall>i a. names i = Some a \<longrightarrow> sn_old (sn_tab s' i) = a) \<and>
    (\<forall>i. 0 < i \<and> i < SNT_size s \<and> names i = None \<and> sn_addr (sn_tab s' i) = 0 \<longrightarrow> sn_old (sn_tab s' i) = 0)"
proof -
  define P where "P k s' \<longleftrightarrow> snt_rel s' names key \<and>
    SNT_size s' = SNT_size s \<and> stable_name_table s' = stable_name_table s \<and> addrToStableHash s' = addrToStableHash s \<and>
    (\<forall>i. sn_addr (sn_tab s' i) = sn_addr (sn_tab s i) \<and> sn_obj (sn_tab s' i) = sn_obj (sn_tab s i)) \<and>
    (\<forall>i. 0 < i \<and> i < k \<and> sn_outside s (sn_addr (sn_tab s i)) \<longrightarrow> sn_old (sn_tab s' i) = sn_addr (sn_tab s i))" for k s'
  have T: "snt_table_ok s" "snt_names_ok s names" using R by (simp_all add: snt_rel_def)
  have "\<exists>s'. for_each_stable_name remember_entry s = Some s' \<and> P (SNT_size s) s'"
  proof (rule for_each_rule)
    show "P 1 s" using R by (simp add: P_def)
    show "0 < SNT_size s" using T by (simp add: snt_table_ok_def)
    fix i s' assume i: "0 < i" "i < SNT_size s" and p: "P i s'"
    have st: "stable_name_table s' = stable_name_table s" "SNT_size s' = SNT_size s"
      "sn_addr (sn_tab s' i) = sn_addr (sn_tab s i)" using p by (auto simp: P_def)
    show "\<exists>s''. for_each_step remember_entry i s' = Some s'' \<and> P (Suc i) s''"
    proof (cases "sn_outside s (sn_addr (sn_tab s i))")
      case True
      let ?s = "upd_entry i (\<lambda>e. e\<lparr>sn_old := sn_addr e\<rparr>) s'"
      have "for_each_step remember_entry i s' = Some ?s"
        using True by (simp add: for_each_step_def st Let_def remember_entry_def sn_outside_def)
      moreover have "snt_rel ?s names key"
      proof (rule rel_upd_entry)
        show r: "snt_rel s' names key" using p by (simp add: P_def)
        show "sn_obj ((sn_tab s' i)\<lparr>sn_old := sn_addr (sn_tab s' i)\<rparr>) = 0" if "names i = None"
          using free_entry_word(1) [of s' names i] r i st that by (simp add: snt_rel_def)
      qed simp
      then have "P (Suc i) ?s" using p by (auto simp: P_def upd_entry_def less_Suc_eq)
      ultimately show ?thesis by blast
    next
      case False
      then have "for_each_step remember_entry i s' = Some s'"
        by (simp add: for_each_step_def st Let_def sn_outside_def)
      moreover have "P (Suc i) s'" using p False by (auto simp: P_def less_Suc_eq)
      ultimately show ?thesis by blast
    qed
  qed
  then obtain s' where s': "rememberOldStableNameAddresses s = Some s'" "P (SNT_size s) s'"
    by (auto simp: rememberOldStableNameAddresses_def)
  have z: "sn_outside s 0" using T by (simp add: sn_outside_def snt_table_ok_def word_less_nat_alt)
  have "sn_old (sn_tab s' i) = a" if "names i = Some a" for i a
    using T(2) that s'(2) unfolding snt_names_ok_def P_def by metis
  moreover have "sn_old (sn_tab s' i) = 0"
    if "0 < i \<and> i < SNT_size s \<and> names i = None \<and> sn_addr (sn_tab s' i) = 0" for i
    using s'(2) z that unfolding P_def by metis
  ultimately show ?thesis using s' unfolding P_def by auto
qed

lemma remember_ok:
  assumes inv: "snt_inv s names"
  shows "\<exists>s'. rememberOldStableNameAddresses s = Some s' \<and> snt_inv s' names \<and>
    SNT_size s' = SNT_size s \<and> stable_name_table s' = stable_name_table s \<and>
    (\<forall>i. sn_obj (sn_tab s' i) = sn_obj (sn_tab s i)) \<and>
    (\<forall>i a. names i = Some a \<longrightarrow> sn_old (sn_tab s' i) = a) \<and>
    (\<forall>i. 0 < i \<and> i < SNT_size s \<and> names i = None \<and> sn_addr (sn_tab s' i) = 0 \<longrightarrow> sn_old (sn_tab s' i) = 0)"
  using remember_rel [of s names "live_keys names"] inv unfolding snt_inv_def by metis

subsection \<open>Freeing dead names and updating live ones\<close>

lemma gc_table_ok:
  assumes inv: "snt_inv s names" and gc: "gc_ok isAlive s names"
    and old: "\<And>i a. names i = Some a \<Longrightarrow> sn_old (sn_tab s i) = a"
  defines "nn \<equiv> names_after isAlive (\<lambda>i. sn_obj (sn_tab s i)) names"
  shows "\<exists>s'. gcStableNameTable isAlive base s = Some s' \<and>
    snt_rel s' nn (\<lambda>i. if nn i = None then None else live_keys names i) \<and>
    SNT_size s' = SNT_size s \<and> stable_name_table s' = stable_name_table s \<and>
    (\<forall>i. sn_old (sn_tab s' i) = sn_old (sn_tab s i)) \<and> (\<forall>i. names i = None \<longrightarrow> sn_tab s' i = sn_tab s i)"
proof -
  define N where "N k i = (if i < k then nn i else names i)" for k i
  define K where "K k i = (if i < k \<and> nn i = None then None else live_keys names i)" for k i
  define P where "P k s' \<longleftrightarrow> snt_rel s' (N k) (K k) \<and>
    SNT_size s' = SNT_size s \<and> stable_name_table s' = stable_name_table s \<and>
    (\<forall>i. sn_old (sn_tab s' i) = sn_old (sn_tab s i)) \<and> (\<forall>i. names i = None \<longrightarrow> sn_tab s' i = sn_tab s i) \<and>
    (\<forall>i. k \<le> i \<longrightarrow> sn_tab s' i = sn_tab s i)" for k s'
  have R: "snt_rel s names (live_keys names)" using inv by (simp add: snt_inv_def)
  have T: "snt_table_ok s" "snt_names_ok s names" "snt_free_ok s names" using R by (simp_all add: snt_rel_def)
  have n0: "names 0 = None" using T(2) unfolding snt_names_ok_def by (metis less_irrefl not_None_eq)
  have nnNone: "names i = None \<Longrightarrow> nn i = None" for i by (simp add: nn_def names_after_def)
  have N_Suc: "N (Suc i) = (N i)(i := nn i)" "K (Suc i) = (K i)(i := if nn i = None then None else K i i)" for i
    by (auto simp: N_def K_def)
  have Nii: "N i i = names i" "K i i = live_keys names i" for i by (simp_all add: N_def K_def)
  have init: "initStableNameTable base s = s" by (rule init_names_noop [OF inv])
  have "\<exists>s'. for_each_stable_name (gc_entry isAlive) s = Some s' \<and> P (SNT_size s) s'"
  proof (rule for_each_rule)
    have "N 1 = names" "K 1 = live_keys names" using n0 nnNone by (auto simp: N_def K_def live_keys_def)
    then show "P 1 s" using R by (simp add: P_def)
    show "0 < SNT_size s" using T by (simp add: snt_table_ok_def)
    fix i s' assume i: "0 < i" "i < SNT_size s" and p: "P i s'"
    have st: "stable_name_table s' = stable_name_table s" "SNT_size s' = SNT_size s" "sn_tab s' i = sn_tab s i"
      using p by (auto simp: P_def)
    have rel: "snt_rel s' (N i) (K i)" using p by (simp add: P_def)
    show "\<exists>s''. for_each_step (gc_entry isAlive) i s' = Some s'' \<and> P (Suc i) s''"
    proof (cases "names i")
      case None
      then have "sn_obj (sn_tab s i) = 0" using free_entry_word(1) [OF T(1,3) i None] by simp
      then have "for_each_step (gc_entry isAlive) i s' = Some s'"
        by (simp add: for_each_step_def st Let_def gc_entry_def)
      moreover have "P (Suc i) s'"
        using p None nnNone [OF None] unfolding P_def N_Suc by (auto simp: Nii live_keys_def fun_upd_idem)
      ultimately show ?thesis by blast
    next
      case (Some a)
      have out: "sn_outside s a" "sn_addr (sn_tab s i) = a" using T(2) Some unfolding snt_names_ok_def by blast+
      have obj: "sn_obj (sn_tab s i) \<noteq> 0" using gc Some by (simp add: gc_ok_def)
      let ?s1 = "upd_entry i (\<lambda>e. e\<lparr>sn_obj := isAlive (sn_obj e)\<rparr>) s'"
      have s1: "sn_addr (sn_tab ?s1 i) = a" "sn_obj (sn_tab ?s1 i) = isAlive (sn_obj (sn_tab s i))"
        "sn_old (sn_tab ?s1 i) = a" using out old [OF Some] st by (simp_all add: upd_entry_def)
      have rel1: "snt_rel ?s1 (N i) (K i)" by (rule rel_upd_entry [OF rel]) (simp_all add: Nii Some)
      have step: "for_each_step (gc_entry isAlive) i s' =
        (if isAlive (sn_obj (sn_tab s i)) = 0 then freeSnEntry i ?s1
         else if a \<noteq> 0 then Some (upd_entry i (\<lambda>e. e\<lparr>sn_addr := isAlive (sn_addr e)\<rparr>) ?s1) else Some ?s1)"
        using out(1) obj s1 unfolding for_each_step_def st gc_entry_def Let_def
        by (simp add: out(2) sn_outside_def st(3))
      show ?thesis
      proof (cases "isAlive (sn_obj (sn_tab s i)) = 0")
        case True
        then have nn: "nn i = None" using Some by (simp add: nn_def names_after_def)
        have key0: "K i j \<noteq> Some 0" for j by (simp add: K_def live_keys_def)
        have "K i i = Some (sn_old (sn_tab ?s1 i)) \<or> K i i = None \<and> (\<forall>j. K i j \<noteq> Some (sn_old (sn_tab ?s1 i)))"
          using key0 Some by (auto simp: s1 Nii live_keys_def)
        from rel_free_entry [OF rel1 _ _ this] obtain s'' where s'': "freeSnEntry i ?s1 = Some s''"
          "snt_rel s'' ((N i)(i := None)) ((K i)(i := None))" "SNT_size s'' = SNT_size s'"
          "stable_name_table s'' = stable_name_table s'" "\<forall>j. sn_old (sn_tab s'' j) = sn_old (sn_tab s' j)"
          "\<forall>j. j \<noteq> i \<longrightarrow> sn_tab s'' j = sn_tab s' j"
          using Some s1(2) True by (auto simp: Nii upd_entry_def)
        have "sn_tab s'' j = sn_tab s j" if "names j = None" for j
          using s''(6) p Some that unfolding P_def by (metis option.distinct(1))
        moreover have "sn_tab s'' j = sn_tab s j" if "Suc i \<le> j" for j
          using s''(6) p that unfolding P_def by (metis Suc_le_lessD less_imp_le nat_neq_iff)
        ultimately have "P (Suc i) s''" using p nn s'' unfolding P_def N_Suc by simp
        with s''(1) step True show ?thesis by auto
      next
        case False
        then have nn: "nn i = Some (if a = 0 then 0 else isAlive a)" using Some by (simp add: nn_def names_after_def)
        let ?s2 = "if a \<noteq> 0 then upd_entry i (\<lambda>e. e\<lparr>sn_addr := isAlive (sn_addr e)\<rparr>) ?s1 else ?s1"
        have "snt_rel ?s2 ((N i)(i \<mapsto> if a = 0 then 0 else isAlive a)) (K i)"
        proof (cases "a = 0")
          case True
          then show ?thesis using rel1 Some by (simp add: Nii fun_upd_idem)
        next
          case False
          have "upd_entry i (\<lambda>e. e\<lparr>sn_addr := isAlive (sn_addr e)\<rparr>) ?s1 = upd_entry i (\<lambda>e. e\<lparr>sn_addr := isAlive a\<rparr>) ?s1"
            using s1(1) by (simp add: upd_entry_def)
          moreover have "sn_outside ?s1 (isAlive a)"
            using gc Some False st by (simp add: gc_ok_def sn_outside_def upd_entry_def)
          ultimately show ?thesis using rel_upd_addr [OF rel1, of i a] Some False by (simp add: Nii)
        qed
        moreover have "(K i)(i := if nn i = None then None else K i i) = K i" using nn by simp
        ultimately have "P (Suc i) ?s2"
          using p nn Some unfolding P_def N_Suc by (auto simp: upd_entry_def)
        moreover have "for_each_step (gc_entry isAlive) i s' = Some ?s2" using step False by simp
        ultimately show ?thesis by blast
      qed
    qed
  qed
  then obtain s' where s': "gcStableNameTable isAlive base s = Some s'" "P (SNT_size s) s'"
    unfolding gcStableNameTable_def init by blast
  have out: "names i = None" if "\<not> i < SNT_size s" for i
    using T(2) that unfolding snt_names_ok_def by (metis not_None_eq)
  have "N (SNT_size s) = nn" using out nnNone by (auto simp: N_def fun_eq_iff)
  moreover have "K (SNT_size s) = (\<lambda>i. if nn i = None then None else live_keys names i)"
    using out nnNone by (auto simp: K_def fun_eq_iff live_keys_def)
  ultimately show ?thesis using s' by (auto simp: P_def)
qed


subsection \<open>Rebuilding the hash table\<close>

lemma rel_hash:
  "snt_rel s names key' \<Longrightarrow> snt_hash_ok (s\<lparr>addrToStableHash := h\<rparr>) key \<Longrightarrow> snt_rel (s\<lparr>addrToStableHash := h\<rparr>) names key"
  by (auto simp: snt_rel_def snt_table_ok_def snt_free_ok_def snt_names_ok_def sn_outside_def)

text \<open>Inserting and re-keying the entry of index \<open>i\<close>.\<close>

lemma insert_name_ok:
  assumes ok: "snt_hash_ok s key" and i: "0 < i" "i < SNT_size s" "key i = None" and a: "sn_addr (sn_tab s i) = a"
    and new: "a \<noteq> 0 \<Longrightarrow> (\<And>j. key j \<noteq> Some a)"
  shows "\<exists>h. insert_name i s = Some (s\<lparr>addrToStableHash := h\<rparr>) \<and>
    snt_hash_ok (s\<lparr>addrToStableHash := h\<rparr>) (key(i := if a = 0 then None else Some a))"
proof (cases "a = 0")
  case True
  then have "insert_name i s = Some (s\<lparr>addrToStableHash := addrToStableHash s\<rparr>)" using a by (simp add: insert_name_def)
  with True ok i(3) show ?thesis by (intro exI [of _ "addrToStableHash s"]) (simp add: fun_upd_idem)
next
  case False
  obtain h h' where "addrToStableHash s = Some h" "insertHashTable h a (of_nat i) = Some h'"
    "snt_hash_ok (s\<lparr>addrToStableHash := Some h'\<rparr>) (key(i \<mapsto> a))"
    by (rule names_insert [OF ok new [OF False] i])
  with False a show ?thesis by (intro exI [of _ "Some h'"]) (simp add: insert_name_def)
qed

lemma rehash_name_ok:
  assumes ok: "snt_hash_ok s key" and i: "0 < i" "i < SNT_size s" and a: "sn_addr (sn_tab s i) = a" "a \<noteq> sn_old (sn_tab s i)"
    and old: "key i = Some (sn_old (sn_tab s i)) \<or> key i = None \<and> (\<forall>j. key j \<noteq> Some (sn_old (sn_tab s i)))"
    and new: "a \<noteq> 0 \<Longrightarrow> (\<And>j. j \<noteq> i \<Longrightarrow> key j \<noteq> Some a)"
  shows "\<exists>h. rehash_name i s = Some (s\<lparr>addrToStableHash := h\<rparr>) \<and>
    snt_hash_ok (s\<lparr>addrToStableHash := h\<rparr>) (key(i := if a = 0 then None else Some a))"
proof -
  obtain h v h' where h: "addrToStableHash s = Some h" "removeHashTable h (sn_old (sn_tab s i)) 0 = Some (v, h')"
    "snt_hash_ok (s\<lparr>addrToStableHash := Some h'\<rparr>) (key(i := None))" by (rule names_remove [OF ok old])
  have "a \<noteq> 0 \<Longrightarrow> (key(i := None)) j \<noteq> Some a" for j using new by simp
  with insert_name_ok [OF h(3), of i a] i a(1) obtain h'' where
    "insert_name i (s\<lparr>addrToStableHash := Some h'\<rparr>) = Some (s\<lparr>addrToStableHash := h''\<rparr>)"
    "snt_hash_ok (s\<lparr>addrToStableHash := h''\<rparr>) (key(i := if a = 0 then None else Some a))"
    by (auto split: if_splits)
  then show ?thesis using h a by (intro exI [of _ h'']) (simp add: rehash_name_def)
qed

lemma hash_count_0:
  assumes "snt_hash_ok s key" "keyCountHashTable (the (addrToStableHash s)) = 0"
  shows "key = Map.empty"
proof -
  obtain h m where h: "addrToStableHash s = Some h" "ht_map h m"
    and m: "\<And>k v. m k = Some v \<longleftrightarrow> (\<exists>i. key i = Some k \<and> v = of_nat i)" using assms(1) unfolding snt_hash_ok_def by blast
  have "finite (Map.graph m)" "mset_set (Map.graph m) = mset (ht_cells h)" "ht_kcount h = int (length (ht_cells h))"
    using h(2) by (auto simp: ht_map_def finite_graph ht_holds_def ht_account_def)
  moreover have "ht_kcount h = 0" using assms(2) h(1) by (simp add: keyCountHashTable_def)
  ultimately have "Map.graph m = {}" by (simp add: mset_set_empty_iff)
  then have "m k \<noteq> Some v" for k v by (auto simp: Map.graph_def)
  then have "m = Map.empty" by (auto simp: fun_eq_iff intro: option.exhaust)
  show ?thesis
  proof
    fix i show "key i = None"
    proof (rule ccontr)
      assume "key i \<noteq> None"
      then obtain k where "key i = Some k" by auto
      then have "m k = Some (of_nat i)" using m by blast
      with \<open>m = Map.empty\<close> show False by simp
    qed
  qed
qed

lemma hash_empty_ok: "snt_hash_ok (s\<lparr>addrToStableHash := Some allocHashTable\<rparr>) Map.empty"
  by (rule snt_hash_okI [where h = allocHashTable and m = Map.empty]) (use allocHashTable_holds in \<open>auto simp: ht_map_def\<close>)

text \<open>Both loops visit the entries in use, and perhaps the last free one, and change the hash table only.\<close>

lemma update_loop:
  assumes R: "snt_rel s nn key0" and K0: "key0 = K 1" and Ks: "\<And>i. K (Suc i) = (K i)(i := live_keys nn i)"
    and step: "\<And>i h. 0 < i \<Longrightarrow> i < SNT_size s \<Longrightarrow> snt_hash_ok (s\<lparr>addrToStableHash := h\<rparr>) (K i) \<Longrightarrow>
      sn_outside s (sn_addr (sn_tab s i)) \<Longrightarrow>
      \<exists>h'. code i (s\<lparr>addrToStableHash := h\<rparr>) = Some (s\<lparr>addrToStableHash := h'\<rparr>) \<and>
        snt_hash_ok (s\<lparr>addrToStableHash := h'\<rparr>) ((K i)(i := live_keys nn i))"
    and skip: "\<And>i. 0 < i \<Longrightarrow> i < SNT_size s \<Longrightarrow> \<not> sn_outside s (sn_addr (sn_tab s i)) \<Longrightarrow> K i i = None"
  shows "\<exists>h. for_each_stable_name code s = Some (s\<lparr>addrToStableHash := h\<rparr>) \<and>
    snt_rel (s\<lparr>addrToStableHash := h\<rparr>) nn (K (SNT_size s))"
proof -
  define P where "P k s' \<longleftrightarrow> (\<exists>h. s' = s\<lparr>addrToStableHash := h\<rparr> \<and> snt_hash_ok s' (K k))" for k s'
  have T: "snt_table_ok s" "snt_names_ok s nn" using R by (simp_all add: snt_rel_def)
  have "\<exists>s'. for_each_stable_name code s = Some s' \<and> P (SNT_size s) s'"
  proof (rule for_each_rule)
    show "P 1 s" unfolding P_def using R K0 by (intro exI [of _ "addrToStableHash s"]) (simp add: snt_rel_def)
    show "0 < SNT_size s" using T by (simp add: snt_table_ok_def)
    fix i s' assume i: "0 < i" "i < SNT_size s" and "P i s'"
    then obtain h where h: "s' = s\<lparr>addrToStableHash := h\<rparr>" "snt_hash_ok (s\<lparr>addrToStableHash := h\<rparr>) (K i)" by (auto simp: P_def)
    show "\<exists>s''. for_each_step code i s' = Some s'' \<and> P (Suc i) s''"
    proof (cases "sn_outside s (sn_addr (sn_tab s i))")
      case True
      with step [OF i h(2)] show ?thesis
        unfolding P_def Ks h(1) by (auto simp: for_each_step_def Let_def sn_outside_def)
    next
      case False
      then have "nn i = None" using T(2) unfolding snt_names_ok_def by (metis not_None_eq)
      then have "(K i)(i := live_keys nn i) = K i" using skip [OF i False] by (simp add: live_keys_def fun_upd_idem)
      with False h show ?thesis unfolding P_def Ks by (auto simp: for_each_step_def Let_def sn_outside_def)
    qed
  qed
  then obtain h where "for_each_stable_name code s = Some (s\<lparr>addrToStableHash := h\<rparr>)"
    "snt_hash_ok (s\<lparr>addrToStableHash := h\<rparr>) (K (SNT_size s))" by (auto simp: P_def)
  with rel_hash [OF R] show ?thesis by blast
qed


lemma update_minor_ok:
  assumes inv: "snt_inv s0 names" and gc: "gc_ok isAlive s0 names"
  defines "nn \<equiv> names_after isAlive (\<lambda>i. sn_obj (sn_tab s0 i)) names"
  assumes R: "snt_rel s nn (\<lambda>i. if nn i = None then None else live_keys names i)"
    and old: "\<And>i a. names i = Some a \<Longrightarrow> sn_old (sn_tab s i) = a"
    and last: "\<And>i. 0 < i \<Longrightarrow> i < SNT_size s \<Longrightarrow> names i = None \<Longrightarrow> sn_addr (sn_tab s i) = 0 \<Longrightarrow> sn_old (sn_tab s i) = 0"
  shows "\<exists>h. updateStableNameTable False s = Some (s\<lparr>addrToStableHash := h\<rparr>) \<and>
    snt_rel (s\<lparr>addrToStableHash := h\<rparr>) nn (live_keys nn)"
proof -
  define K where "K k i = (if i < k then live_keys nn i else if nn i = None then None else live_keys names i)" for k i
  have T: "snt_table_ok s" "snt_names_ok s nn" "snt_free_ok s nn" using R by (simp_all add: snt_rel_def)
  have n0: "nn 0 = None" using T(2) unfolding snt_names_ok_def by (metis less_irrefl not_None_eq)
  have K1: "(\<lambda>i. if nn i = None then None else live_keys names i) = K 1"
    using n0 by (auto simp: K_def live_keys_def fun_eq_iff)
  have KS: "K (Suc i) = (K i)(i := live_keys nn i)" for i by (auto simp: K_def fun_eq_iff)
  have inj: "names i = Some a \<Longrightarrow> names j = Some a \<Longrightarrow> a \<noteq> 0 \<Longrightarrow> i = j" for i j a by (rule live_keys_inj [OF inv])
  have nnD: "\<exists>a. names i = Some a \<and> b = (if a = 0 then 0 else isAlive a)" if "nn i = Some b" for i b
    using that by (auto simp: nn_def names_after_def split: option.splits if_splits)
  text \<open>The old address of an entry is a key of no other entry, before or after.\<close>
  have key_old: "j = i" if "names i = Some a" "a \<noteq> 0" "K k j = Some a" for i j k a
  proof (cases "j < k")
    case True
    with that obtain b where b: "names j = Some b" "b \<noteq> 0" "isAlive b = a"
      using nnD [of j a] by (auto simp: K_def live_keys_def split: if_splits)
    show ?thesis
    proof (cases "isAlive b = b")
      case True
      with b that inj show ?thesis by metis
    next
      case False
      have "\<forall>i j a b. names i = Some a \<longrightarrow> names j = Some b \<longrightarrow> a \<noteq> 0 \<longrightarrow> b \<noteq> 0 \<longrightarrow>
          isAlive a \<noteq> a \<longrightarrow> isAlive a \<noteq> 0 \<longrightarrow> isAlive a \<noteq> b" using gc unfolding gc_ok_def by blast
      with b that False show ?thesis by metis
    qed
  next
    case False
    with that have "names j = Some a" by (auto simp: K_def live_keys_def split: if_splits)
    with that inj show ?thesis by blast
  qed
  text \<open>The new address of an entry that has moved is a key of no other entry.\<close>
  have key_new: "j = i" if "names i = Some a" "a \<noteq> 0" "isAlive a \<noteq> a" "isAlive a \<noteq> 0" "K k j = Some (isAlive a)" for i j k a
  proof -
    have H: "\<And>i j a b. names i = Some a \<Longrightarrow> names j = Some b \<Longrightarrow> a \<noteq> 0 \<Longrightarrow> b \<noteq> 0 \<Longrightarrow> isAlive a \<noteq> a \<Longrightarrow>
        isAlive a \<noteq> 0 \<Longrightarrow> isAlive a \<noteq> b"
      "\<And>i j a b. names i = Some a \<Longrightarrow> names j = Some b \<Longrightarrow> a \<noteq> 0 \<Longrightarrow> b \<noteq> 0 \<Longrightarrow> isAlive a \<noteq> 0 \<Longrightarrow>
        isAlive a = isAlive b \<Longrightarrow> a = b"
      using gc unfolding gc_ok_def by blast+
    show ?thesis
    proof (cases "j < k")
      case True
      with that obtain b where b: "names j = Some b" "b \<noteq> 0" "isAlive b = isAlive a"
        using nnD [of j "isAlive a"] by (auto simp: K_def live_keys_def split: if_splits)
      with H(2) [of j b i a] that inj [of i a j] show ?thesis by simp
    next
      case False
      with that have "names j = Some (isAlive a)" by (auto simp: K_def live_keys_def split: if_splits)
      with H(1) [of i a j "isAlive a"] that show ?thesis by simp
    qed
  qed
  have "\<exists>h. for_each_stable_name rehash_name s = Some (s\<lparr>addrToStableHash := h\<rparr>) \<and>
      snt_rel (s\<lparr>addrToStableHash := h\<rparr>) nn (K (SNT_size s))"
  proof (rule update_loop [where K = K, OF R K1 KS])
    fix i h assume i: "0 < i" "i < SNT_size s" and ok: "snt_hash_ok (s\<lparr>addrToStableHash := h\<rparr>) (K i)"
      and out: "sn_outside s (sn_addr (sn_tab s i))"
    let ?s = "s\<lparr>addrToStableHash := h\<rparr>"
    show "\<exists>h'. rehash_name i ?s = Some (s\<lparr>addrToStableHash := h'\<rparr>) \<and>
        snt_hash_ok (s\<lparr>addrToStableHash := h'\<rparr>) ((K i)(i := live_keys nn i))"
    proof (cases "sn_addr (sn_tab s i) = sn_old (sn_tab s i)")
      case True
      have "live_keys nn i = K i i"
      proof (cases "nn i")
        case (Some b)
        then obtain a where "names i = Some a" "b = (if a = 0 then 0 else isAlive a)" using nnD by blast
        moreover have "sn_addr (sn_tab s i) = b" using T(2) Some unfolding snt_names_ok_def by blast
        ultimately show ?thesis using True old Some by (simp add: K_def live_keys_def)
      qed (simp add: K_def live_keys_def)
      then have "(K i)(i := live_keys nn i) = K i" by (simp add: fun_upd_idem)
      then show ?thesis using ok True by (intro exI [of _ h]) (simp add: rehash_name_def)
    next
      case False
      have ad: "sn_addr (sn_tab s i) = (case nn i of None \<Rightarrow> 0 | Some b \<Rightarrow> b)"
        using free_entry_word(2) [OF T(1,3) i] out T(2) by (cases "nn i") (auto simp: snt_names_ok_def)
      have "names i \<noteq> None"
      proof
        assume none: "names i = None"
        then have "nn i = None" by (simp add: nn_def names_after_def)
        with last [OF i none] ad False show False by simp
      qed
      then obtain a where a: "names i = Some a" "sn_old (sn_tab s i) = a" using old by auto
      have a0: "a \<noteq> 0"
      proof
        assume "a = 0"
        then have "nn i = None \<or> nn i = Some 0" using a(1) by (auto simp: nn_def names_after_def)
        with ad a(2) \<open>a = 0\<close> False show False by auto
      qed
      have keys: "live_keys nn i = (if sn_addr (sn_tab s i) = 0 then None else Some (sn_addr (sn_tab s i)))"
        using ad by (auto simp: live_keys_def split: option.splits)
      have "K i i = Some a \<or> K i i = None \<and> (\<forall>j. K i j \<noteq> Some a)"
      proof (cases "nn i = None")
        case True
        then have "K i i = None" by (simp add: K_def)
        with key_old [OF a(1) a0, of i] show ?thesis by (metis option.distinct(1))
      next
        case False
        then have "K i i = Some a" using a(1) a0 by (auto simp: K_def live_keys_def)
        then show ?thesis by blast
      qed
      moreover have "K i j \<noteq> Some (sn_addr (sn_tab s i))" if "sn_addr (sn_tab s i) \<noteq> 0" "j \<noteq> i" for j
      proof -
        from that ad obtain b where "nn i = Some b" "b \<noteq> 0" by (cases "nn i") auto
        moreover from this nnD [of i b] a(1) have "b = isAlive a" by auto
        ultimately show ?thesis using key_new [OF a(1) a0, of i j] a(2) ad False that by auto
      qed
      ultimately show ?thesis
        using rehash_name_ok [OF ok, of i "sn_addr (sn_tab s i)"] i False a(2) by (simp add: keys)
    qed
  next
    fix i assume "0 < i" "i < SNT_size s" "\<not> sn_outside s (sn_addr (sn_tab s i))"
    then have "nn i = None" using T(2) unfolding snt_names_ok_def by (metis not_None_eq)
    then show "K i i = None" by (simp add: K_def live_keys_def)
  qed
  moreover have "nn i = None" if "\<not> i < SNT_size s" for i
    using T(2) that unfolding snt_names_ok_def by (metis not_None_eq)
  then have "K (SNT_size s) = live_keys nn" by (auto simp: K_def live_keys_def fun_eq_iff)
  ultimately show ?thesis by (simp add: updateStableNameTable_def)
qed

lemma update_full_ok:
  assumes R: "snt_rel s nn key" and inj: "\<And>i j a. nn i = Some a \<Longrightarrow> nn j = Some a \<Longrightarrow> a \<noteq> 0 \<Longrightarrow> i = j"
  shows "\<exists>h. updateStableNameTable True s = Some (s\<lparr>addrToStableHash := h\<rparr>) \<and>
    snt_rel (s\<lparr>addrToStableHash := h\<rparr>) nn (live_keys nn)"
proof -
  define K where "K k i = (if i < k then live_keys nn i else None)" for k i
  have T: "snt_table_ok s" "snt_names_ok s nn" "snt_free_ok s nn" "snt_hash_ok s key" using R by (simp_all add: snt_rel_def)
  define s1 where "s1 = (if keyCountHashTable (the (addrToStableHash s)) \<noteq> 0 then s\<lparr>addrToStableHash := Some allocHashTable\<rparr> else s)"
  have "addrToStableHash s \<noteq> None" using T(4) by (auto simp: snt_hash_ok_def)
  then have run: "updateStableNameTable True s = for_each_stable_name insert_name s1"
    by (simp add: updateStableNameTable_def s1_def)
  define h1 where "h1 = (if keyCountHashTable (the (addrToStableHash s)) \<noteq> 0 then Some allocHashTable else addrToStableHash s)"
  have h1: "s1 = s\<lparr>addrToStableHash := h1\<rparr>" by (simp add: s1_def h1_def)
  have "snt_hash_ok s1 Map.empty"
    using hash_empty_ok [of s] hash_count_0 [OF T(4)] T(4) by (auto simp: s1_def)
  then have R1: "snt_rel s1 nn Map.empty" using rel_hash [OF R] h1 by simp
  have T1: "snt_table_ok s1" "snt_free_ok s1 nn" using R1 by (simp_all add: snt_rel_def)
  have fld: "sn_tab s1 = sn_tab s" "SNT_size s1 = SNT_size s" "stable_name_table s1 = stable_name_table s" by (simp_all add: h1)
  have n0: "nn 0 = None" using T(2) unfolding snt_names_ok_def by (metis less_irrefl not_None_eq)
  have K1: "Map.empty = K 1" using n0 by (auto simp: K_def live_keys_def fun_eq_iff)
  have KS: "K (Suc i) = (K i)(i := live_keys nn i)" for i by (auto simp: K_def fun_eq_iff)
  have "\<exists>h. for_each_stable_name insert_name s1 = Some (s1\<lparr>addrToStableHash := h\<rparr>) \<and>
      snt_rel (s1\<lparr>addrToStableHash := h\<rparr>) nn (K (SNT_size s1))"
  proof (rule update_loop [where K = K, OF R1 K1 KS])
    fix i h assume i: "0 < i" "i < SNT_size s1" and ok: "snt_hash_ok (s1\<lparr>addrToStableHash := h\<rparr>) (K i)"
      and out: "sn_outside s1 (sn_addr (sn_tab s1 i))"
    have ad: "sn_addr (sn_tab s i) = (case nn i of None \<Rightarrow> 0 | Some b \<Rightarrow> b)"
      using free_entry_word(2) [OF T1 i] out T(2) by (cases "nn i") (auto simp: snt_names_ok_def fld)
    then have keys: "live_keys nn i = (if sn_addr (sn_tab s i) = 0 then None else Some (sn_addr (sn_tab s i)))"
      by (auto simp: live_keys_def split: option.splits)
    have "K i j \<noteq> Some (sn_addr (sn_tab s i))" if "sn_addr (sn_tab s i) \<noteq> 0" for j
    proof
      assume k: "K i j = Some (sn_addr (sn_tab s i))"
      then have "j < i" "nn j = Some (sn_addr (sn_tab s i))" by (auto simp: K_def live_keys_def split: if_splits)
      moreover have "nn i = Some (sn_addr (sn_tab s i))" using ad that by (cases "nn i") auto
      ultimately show False using inj that by blast
    qed
    with insert_name_ok [OF ok, of i "sn_addr (sn_tab s i)"] i
    show "\<exists>h'. insert_name i (s1\<lparr>addrToStableHash := h\<rparr>) = Some (s1\<lparr>addrToStableHash := h'\<rparr>) \<and>
        snt_hash_ok (s1\<lparr>addrToStableHash := h'\<rparr>) ((K i)(i := live_keys nn i))"
      by (auto simp: keys fld K_def)
  qed (simp add: K_def)
  moreover have "nn i = None" if "\<not> i < SNT_size s" for i
    using T(2) that unfolding snt_names_ok_def by (metis not_None_eq)
  then have "K (SNT_size s1) = live_keys nn" by (auto simp: K_def live_keys_def fun_eq_iff fld)
  ultimately show ?thesis by (simp add: run h1)
qed


section \<open>Properties\<close>

text \<open>C17 A lookup removes the indirections and the tag of its argument, and what counts is the address \<open>p\<close> that this reaches. If \<open>p\<close> has a name
  it gets it again; else it gets the index of an entry that was free, never 0, also when the table has to grow. Afterwards that index is the one name of
  \<open>p\<close>, no other address has it, and all other names are as before; every closure from which the loop reaches \<open>p\<close> gets the same answer. For evaluated
  objects this is the object itself; but the loop leaves a black hole for its owner, so that all thunks under evaluation by one thread share the name of that
  thread (\<open>blackholes_share_a_name\<close>).\<close>

theorem lookupStableName_correct:
  assumes "snt_inv s names"
    and "if stable_name_free s = 0 then room_at s names base' \<and>
        (p < base' \<or> snEntry base' (2 * SNT_size s) \<le> p) else sn_outside s p"
    and "removeIndirections itbl indirectee q = Some p'" "UNTAG_CLOSURE p' = p" "p \<noteq> 0"
  shows "\<exists>i s' names'. lookupStableName itbl indirectee base base' q s = Some (of_nat i, s') \<and> 0 < i \<and> i < 2 ^ 32 \<and> snt_inv s' names' \<and>
    (\<forall>j. names' j = Some p \<longleftrightarrow> j = i) \<and> (\<forall>j. j \<noteq> i \<longrightarrow> names' j = names j) \<and>
    (if \<exists>j. names j = Some p then names i = Some p else names i = None) \<and>
    (\<forall>q2 p2. removeIndirections itbl indirectee q2 = Some p2 \<and> UNTAG_CLOSURE p2 = p \<longrightarrow>
      lookupStableName itbl indirectee base base' q2 s = Some (of_nat i, s'))"
proof -
  obtain i s' where l: "lookupStableName itbl indirectee base base' q s = Some (of_nat i, s')" "0 < i" "i < 2 ^ 32"
    "names i = Some p \<and> snt_inv s' names \<or> (\<forall>j. names j \<noteq> Some p) \<and> names i = None \<and> snt_inv s' (names(i \<mapsto> p))"
    using lookup_names [OF assms] by blast
  define names' where "names' = names(i \<mapsto> p)"
  have n: "snt_inv s' names'" using l(4) fun_upd_idem [of names i "Some p"] unfolding names'_def by metis
  have "names' i = Some p" by (simp add: names'_def)
  then have one: "names' j = Some p \<longleftrightarrow> j = i" for j using live_keys_inj [OF n _ _ assms(5)] by metis
  have same: "lookupStableName itbl indirectee base base' q2 s = Some (of_nat i, s')"
    if "removeIndirections itbl indirectee q2 = Some p2 \<and> UNTAG_CLOSURE p2 = p" for q2 p2
    using that assms(3,4) l(1) by (simp add: lookupStableName_def)
  have "\<forall>j. j \<noteq> i \<longrightarrow> names' j = names j" by (simp add: names'_def)
  moreover have "if \<exists>j. names j = Some p then names i = Some p else names i = None" using l(4) by auto
  ultimately show ?thesis using l(1-3) n one same by blast
qed

definition snt_demo :: snt_state where
  "snt_demo = initStableNameTable 1024
    \<lparr>sn_tab = (\<lambda>_. \<lparr>sn_addr = 0, sn_old = 0, sn_obj = 0\<rparr>), stable_name_table = 0, stable_name_free = 0,
     SNT_size = 0, addrToStableHash = None\<rparr>"

lemma snt_demo_inv: "snt_inv snt_demo Map.empty"
  unfolding snt_demo_def by (rule init_names) simp_all

lemma snt_demo_room: "stable_name_free snt_demo \<noteq> 0" "p < 1024 \<Longrightarrow> sn_outside snt_demo p"
  by (simp_all add: snt_demo_def initStableNameTable_def initSnEntryFreeList_def snEntry_def sn_outside_def)

theorem lookupStableName_correct_witness:
  "\<exists>i s' names. lookupStableName (\<lambda>_. OTHER_CLOSURE) (\<lambda>_. 0) 0 0 81 snt_demo = Some (of_nat i, s') \<and> snt_inv s' names \<and> names = [i \<mapsto> 80]"
proof -
  have u: "UNTAG_CLOSURE 81 = 80" by (simp add: UNTAG_CLOSURE_def)
  have r: "removeIndirections (\<lambda>_. OTHER_CLOSURE) (\<lambda>_. 0) 81 = Some 81" by (simp add: removeIndirections.simps)
  have "if stable_name_free snt_demo = 0 then room_at snt_demo Map.empty 0 \<and> ((80 :: word64) < 0 \<or> snEntry 0 (2 * SNT_size snt_demo) \<le> 80)
      else sn_outside snt_demo 80" "(80 :: word64) \<noteq> 0" by (simp_all add: snt_demo_room)
  from lookupStableName_correct [OF snt_demo_inv this(1) r u this(2), of 0] obtain i s' names where
    l: "lookupStableName (\<lambda>_. OTHER_CLOSURE) (\<lambda>_. 0) 0 0 81 snt_demo = Some (of_nat i, s')" "snt_inv s' names"
      "\<forall>j. names j = Some 80 \<longleftrightarrow> j = i" "\<forall>j. j \<noteq> i \<longrightarrow> names j = None" by blast
  then have "names = [i \<mapsto> 80]" by (simp add: fun_eq_iff)
  then show ?thesis using l(1,2) by blast
qed

text \<open>C21 A collection keeps the names: after remembering the old addresses, updating the entries with the
  collector's answers and rebuilding the hash table, be it from scratch (major collection) or only for
  the objects that moved (minor collection), every live object whose StableName lives has the index it
  had, at its new address; the entries whose StableName died are free; and the hash table is exact.\<close>

theorem stableNames_survive_gc:
  assumes inv: "snt_inv s names" and gc: "gc_ok isAlive s names"
  shows "\<exists>s1 s2 s3. rememberOldStableNameAddresses s = Some s1 \<and> gcStableNameTable isAlive base s1 = Some s2 \<and>
    updateStableNameTable full s2 = Some s3 \<and>
    snt_inv s3 (names_after isAlive (\<lambda>i. sn_obj (sn_tab s i)) names)"
proof -
  let ?nn = "names_after isAlive (\<lambda>i. sn_obj (sn_tab s i)) names"
  obtain s1 where s1: "rememberOldStableNameAddresses s = Some s1" "snt_inv s1 names" "SNT_size s1 = SNT_size s"
    "stable_name_table s1 = stable_name_table s" "\<And>i. sn_obj (sn_tab s1 i) = sn_obj (sn_tab s i)"
    "\<And>i a. names i = Some a \<Longrightarrow> sn_old (sn_tab s1 i) = a"
    "\<And>i. 0 < i \<Longrightarrow> i < SNT_size s \<Longrightarrow> names i = None \<Longrightarrow> sn_addr (sn_tab s1 i) = 0 \<Longrightarrow> sn_old (sn_tab s1 i) = 0"
    using remember_ok [OF inv] by blast
  have gc1: "gc_ok isAlive s1 names" using gc s1(3-5) by (simp add: gc_ok_def sn_outside_def)
  have nn: "names_after isAlive (\<lambda>i. sn_obj (sn_tab s1 i)) names = ?nn" using s1(5) by simp
  obtain s2 where s2: "gcStableNameTable isAlive base s1 = Some s2"
    "snt_rel s2 ?nn (\<lambda>i. if ?nn i = None then None else live_keys names i)" "SNT_size s2 = SNT_size s1"
    "\<And>i. sn_old (sn_tab s2 i) = sn_old (sn_tab s1 i)" "\<And>i. names i = None \<Longrightarrow> sn_tab s2 i = sn_tab s1 i"
    using gc_table_ok [OF s1(2) gc1 s1(6)] unfolding nn by blast
  have "\<exists>h. updateStableNameTable full s2 = Some (s2\<lparr>addrToStableHash := h\<rparr>) \<and>
    snt_rel (s2\<lparr>addrToStableHash := h\<rparr>) ?nn (live_keys ?nn)"
  proof (cases full)
    case True
    have "i = j" if ij: "?nn i = Some a" "?nn j = Some a" "a \<noteq> 0" for i j a
    proof -
      have "\<exists>b. names k = Some b \<and> b \<noteq> 0 \<and> isAlive b = a" if "?nn k = Some a" for k
        using that \<open>a \<noteq> 0\<close> by (auto simp: names_after_def split: option.splits if_splits)
      then obtain b c where bc: "names i = Some b" "names j = Some c" "b \<noteq> 0" "c \<noteq> 0" "isAlive b = a" "isAlive c = a"
        using ij(1,2) by meson
      then have "b = c" using gc ij(3) unfolding gc_ok_def by metis
      with bc live_keys_inj [OF inv] show ?thesis by blast
    qed
    with update_full_ok [OF s2(2)] True show ?thesis by simp
  next
    case False
    have "sn_old (sn_tab s2 i) = a" if "names i = Some a" for i a using s1(6) s2(4) that by simp
    moreover have "sn_old (sn_tab s2 i) = 0"
      if "0 < i" "i < SNT_size s2" "names i = None" "sn_addr (sn_tab s2 i) = 0" for i
      using s1(3,7) s2(3,5) that by simp
    ultimately show ?thesis
      using update_minor_ok [OF s1(2) gc1 s2(2) [folded nn]] False unfolding nn by simp
  qed
  then obtain h where h: "updateStableNameTable full s2 = Some (s2\<lparr>addrToStableHash := h\<rparr>)"
    "snt_rel (s2\<lparr>addrToStableHash := h\<rparr>) ?nn (live_keys ?nn)" by blast
  then have "snt_inv (s2\<lparr>addrToStableHash := h\<rparr>) ?nn"
    using inv s1(3) s2(3) by (simp add: snt_inv_def)
  with s1(1) s2(1) h(1) show ?thesis by blast
qed

text \<open>A thunk that is being evaluated does not get a name of its own: the loop leaves a black hole for its
  owner, so two different thunks under evaluation by the same thread get the same stable name.\<close>

lemma blackholes_share_a_name:
  assumes "itbl qa = BLACKHOLE" "itbl qb = BLACKHOLE" "indirectee qa = tso" "indirectee qb = tso"
    and "qa AND 7 = 0" "qb AND 7 = 0" "tso AND 7 = 0"
  shows "removeIndirections itbl indirectee qa = Some tso \<and> removeIndirections itbl indirectee qb = Some tso \<and>
    lookupStableName itbl indirectee base base' qa s = lookupStableName itbl indirectee base base' qb s"
proof -
  have untag: "UNTAG_CLOSURE q = q" if "q AND 7 = 0" for q
    unfolding UNTAG_CLOSURE_def
  proof (rule bit_word_eqI)
    fix n assume "n < LENGTH(64)"
    then show "bit (q AND NOT 7) n = bit q n"
      using arg_cong [OF that, of "\<lambda>w. bit w n"] by (simp only: bit_simps) (auto simp: bit_simps)
  qed
  have "removeIndirections itbl indirectee qa = Some tso" "removeIndirections itbl indirectee qb = Some tso"
    using assms untag by (simp_all add: removeIndirections.simps GET_CLOSURE_TAG_def)
  then show ?thesis by (simp add: lookupStableName_def)
qed


text \<open>The object at 80 gets a name, its StableName object is made at 96, and a collection moves both.\<close>

lemma snt_demo_named:
  obtains s where "snt_inv s [1 \<mapsto> 80]" "stable_name_free s \<noteq> 0" "sn_obj (sn_tab s 1) = 96"
    "stable_name_table s = 1024" "SNT_size s = 64"
proof -
  obtain h' where "snt_inv (upd_entry 1 (\<lambda>e. e\<lparr>sn_addr := 80, sn_obj := 0\<rparr>)
      (snt_demo\<lparr>stable_name_free := sn_addr (sn_tab snt_demo 1)\<rparr>)\<lparr>addrToStableHash := Some h'\<rparr>) [1 \<mapsto> 80]"
    (is "snt_inv ?s _")
  proof -
    have "sn_index (stable_name_table snt_demo) (stable_name_free snt_demo) = 1"
      by (simp add: snt_demo_def initStableNameTable_def initSnEntryFreeList_def sn_index_def snEntry_def)
    with take_entry [OF snt_demo_inv snt_demo_room(1), of 80] snt_demo_room(2) that show ?thesis by fastforce
  qed
  then have r: "snt_rel ?s [1 \<mapsto> 80] (live_keys [1 \<mapsto> 80])" "SNT_size ?s \<le> 2 ^ 32" by (simp_all add: snt_inv_def)
  let ?s' = "upd_entry 1 (\<lambda>e. e\<lparr>sn_obj := 96\<rparr>) ?s"
  have "snt_inv ?s' [1 \<mapsto> 80]"
    unfolding snt_inv_def using rel_upd_entry [OF r(1), of "\<lambda>e. e\<lparr>sn_obj := 96\<rparr>" 1] r(2) by (simp add: upd_entry_def)
  moreover from this have "stable_name_free ?s' \<noteq> 0"
  proof -
    have "SNT_size ?s' = 64"
      by (simp add: upd_entry_def snt_demo_def initStableNameTable_def initSnEntryFreeList_def INIT_SNT_SIZE_def)
    then have "2 \<in> {i. 0 < i \<and> i < SNT_size ?s' \<and> [1 \<mapsto> 80 :: word64] i = None}" by simp
    with full_no_free [of ?s' "[1 \<mapsto> 80]"] \<open>snt_inv ?s' _\<close> show ?thesis unfolding snt_inv_def by blast
  qed
  ultimately show thesis
    by (intro that [of ?s']) (simp_all add: upd_entry_def snt_demo_def initStableNameTable_def initSnEntryFreeList_def INIT_SNT_SIZE_def)
qed

text \<open>The object at 80 gets a name, its StableName object is made at 96, and a collection moves both.\<close>

theorem stableNames_survive_gc_witness:
  "\<exists>i s s1 s2 s3. snt_inv s [i \<mapsto> 80] \<and> rememberOldStableNameAddresses s = Some s1 \<and>
    gcStableNameTable (\<lambda>a. a + 512) 0 s1 = Some s2 \<and> updateStableNameTable False s2 = Some s3 \<and> snt_inv s3 [i \<mapsto> 592]"
proof -
  obtain s where s: "snt_inv s [1 \<mapsto> 80]" "sn_obj (sn_tab s 1) = 96" "stable_name_table s = 1024" "SNT_size s = 64"
    by (rule snt_demo_named)
  have "gc_ok (\<lambda>a. a + 512) s [1 \<mapsto> 80]"
    using s by (auto simp: gc_ok_def sn_outside_def snEntry_def)
  moreover have "names_after (\<lambda>a. a + 512) (\<lambda>i. sn_obj (sn_tab s i)) [1 \<mapsto> 80] = [1 \<mapsto> 592]"
    using s by (auto simp: names_after_def fun_eq_iff)
  ultimately show ?thesis
    using stableNames_survive_gc [OF s(1), where isAlive = "\<lambda>a. a + 512" and base = 0 and full = False] s(1) by metis
qed

lemma sweep_single:
  assumes inv: "snt_inv s [i \<mapsto> a]" and a: "a \<noteq> 0" "\<not> is_alive a" and obj: "sn_obj (sn_tab s i) \<noteq> 0" "is_alive (sn_obj (sn_tab s i))"
  shows "nonmovingSweepStableNameTable is_alive base s = Some (upd_entry i (\<lambda>e. e\<lparr>sn_addr := 0\<rparr>) s)"
proof -
  let ?names = "[i \<mapsto> a]" and ?s' = "upd_entry i (\<lambda>e. e\<lparr>sn_addr := 0\<rparr>) s"
  define P where "P k s' \<longleftrightarrow> s' = (if i < k then ?s' else s)" for k s'
  have T: "snt_table_ok s" "snt_free_ok s ?names" "snt_names_ok s ?names"
    using inv by (simp_all add: snt_inv_def snt_rel_def)
  have i: "0 < i" "i < SNT_size s" "sn_addr (sn_tab s i) = a" "sn_outside s a"
    using T(3) by (simp_all add: snt_names_ok_def)
  have "\<exists>s'. for_each_stable_name (sweep_entry is_alive) s = Some s' \<and> P (SNT_size s) s'"
  proof (rule for_each_rule)
    show "P 1 s" "0 < SNT_size s" using i by (auto simp: P_def)
    fix j s' assume j: "0 < j" "j < SNT_size s" and p: "P j s'"
    show "\<exists>s''. for_each_step (sweep_entry is_alive) j s' = Some s'' \<and> P (Suc j) s''"
    proof (cases "j = i")
      case True
      with p have "s' = s" by (simp add: P_def)
      then show ?thesis
        using True i a obj by (auto simp: P_def for_each_step_def Let_def sweep_entry_def sn_outside_def)
    next
      case False
      then have "sn_obj (sn_tab s j) = 0" using free_entry_word(1) [OF T(1,2) j] by simp
      then have "sn_obj (sn_tab s' j) = 0" using p False by (auto simp: P_def upd_entry_def)
      then have "for_each_step (sweep_entry is_alive) j s' = Some s'"
        by (simp add: for_each_step_def Let_def sweep_entry_def)
      moreover have "P (Suc j) s'" using p False by (auto simp: P_def less_Suc_eq)
      ultimately show ?thesis by blast
    qed
  qed
  then show ?thesis using i(2) by (simp add: nonmovingSweepStableNameTable_def P_def init_names_noop [OF inv])
qed

text \<open>When the non-moving sweep finds that the object of a stable name has died, it clears the entry and
  leaves its key in the hash table. If another object is then allocated at the same address, it
  gets the name of the dead one, and the next collection does not repair this.\<close>

lemma sweep_keeps_stale_key:
  assumes "snt_inv s [i \<mapsto> a]" "a \<noteq> 0" "\<not> is_alive a" "sn_obj (sn_tab s i) \<noteq> 0" "is_alive (sn_obj (sn_tab s i))"
    and "stable_name_free s \<noteq> 0" "removeIndirections itbl indirectee a = Some a" "UNTAG_CLOSURE a = a"
  shows "\<exists>s' s'' h. nonmovingSweepStableNameTable is_alive base s = Some s' \<and> sn_addr (sn_tab s' i) = 0 \<and>
    lookupStableName itbl indirectee base' base'' a s' = Some (of_nat i, s') \<and>
    rememberOldStableNameAddresses s' = Some s'' \<and> updateStableNameTable False s'' = Some s'' \<and>
    addrToStableHash s'' = Some h \<and> lookupHashTable h a = Some (of_nat i)"
proof -
  let ?s = "upd_entry i (\<lambda>e. e\<lparr>sn_addr := 0\<rparr>) s"
  have R: "snt_rel s [i \<mapsto> a] (live_keys [i \<mapsto> a])" and n: "SNT_size s \<le> 2 ^ 32" using assms(1) by (auto simp: snt_inv_def)
  have K: "live_keys [i \<mapsto> a] = [i \<mapsto> a]" using assms(2) by (auto simp: live_keys_def)
  have i: "0 < i" "i < SNT_size s" using R by (simp_all add: snt_rel_def snt_names_ok_def)
  have z: "sn_outside s 0" using R by (simp add: snt_rel_def sn_outside_def snt_table_ok_def word_less_nat_alt)
  have R': "snt_rel ?s [i \<mapsto> 0] [i \<mapsto> a]" using rel_upd_addr [OF R _ z, of i a] K by simp
  have nz: "(of_nat i :: word64) \<noteq> 0"
  proof -
    have "unat (of_nat i :: word64) = i" using i n by (intro unat_of_nat_64) simp
    then show ?thesis using i(1) by (metis less_numeral_extra(3) unat_0)
  qed
  obtain h where h: "addrToStableHash ?s = Some h" and look: "\<And>k. lookupHashTable h k =
      Some (if \<exists>j. [i \<mapsto> a] j = Some k then of_nat (THE j. [i \<mapsto> a] j = Some k) else 0)"
    using names_lookup R' unfolding snt_rel_def by blast
  have "(THE j. [i \<mapsto> a] j = Some a) = i" by (rule the_equality) (auto split: if_splits)
  then have la: "lookupHashTable h a = Some (of_nat i)" unfolding look by auto
  have sz: "0 < SNT_size ?s" "stable_name_free ?s \<noteq> 0" using i assms(6) by (simp_all add: upd_entry_def)
  have L: "lookupStableName itbl indirectee base' base'' a ?s = Some (of_nat i, ?s)"
    unfolding lookupStableName_def initStableNameTable_def Let_def assms(7)
    using sz h la nz assms(8) by simp
  have key0: "live_keys [i \<mapsto> 0] = Map.empty" by (auto simp: live_keys_def)
  obtain s'' where s'': "rememberOldStableNameAddresses ?s = Some s''" "snt_rel s'' [i \<mapsto> 0] [i \<mapsto> a]"
    "addrToStableHash s'' = Some h" "sn_old (sn_tab s'' i) = 0"
    "\<And>j. 0 < j \<Longrightarrow> j < SNT_size s'' \<Longrightarrow> j \<noteq> i \<Longrightarrow> sn_addr (sn_tab s'' j) = 0 \<Longrightarrow> sn_old (sn_tab s'' j) = 0"
    using remember_rel [OF R'] h by auto
  have T: "snt_table_ok s''" "snt_free_ok s'' [i \<mapsto> 0]" "sn_addr (sn_tab s'' i) = 0"
    using s''(2) by (simp_all add: snt_rel_def snt_names_ok_def)
  have same: "for_each_step rehash_name j s'' = Some s''" if j: "0 < j" "j < SNT_size s''" for j
  proof (cases "sn_outside s'' (sn_addr (sn_tab s'' j))")
    case True
    have "sn_addr (sn_tab s'' j) = sn_old (sn_tab s'' j)"
    proof (cases "j = i")
      case False
      then show ?thesis using free_entry_word(2) [OF T(1,2) j _ True] s''(5) [OF j] by simp
    qed (simp add: T s''(4))
    then show ?thesis by (simp add: for_each_step_def Let_def rehash_name_def)
  qed (simp add: for_each_step_def Let_def sn_outside_def)
  have "\<exists>t. for_each_stable_name rehash_name s'' = Some t \<and> t = s''"
    by (rule for_each_rule [where P = "\<lambda>_ t. t = s''"]) (use same T(1) in \<open>auto simp: snt_table_ok_def\<close>)
  then have "updateStableNameTable False s'' = Some s''" by (simp add: updateStableNameTable_def)
  moreover have "sn_addr (sn_tab ?s i) = 0" by (simp add: upd_entry_def)
  ultimately show ?thesis
    using sweep_single [OF assms(1-5), of base] L s'' la by blast
qed


lemma removeIndirections_finite:
  assumes dec: "\<forall>q. itbl q = IND \<or> itbl q = IND_STATIC \<or> itbl q = BLACKHOLE \<and> GET_CLOSURE_TAG (indirectee q) \<noteq> 0 \<longrightarrow>
      (f :: word64 \<Rightarrow> nat) (UNTAG_CLOSURE (indirectee q)) < f q"
  shows "\<exists>p'. removeIndirections itbl indirectee p = Some p' \<and>
    (itbl (UNTAG_CLOSURE p') = OTHER_CLOSURE \<or> (\<exists>q. itbl q = BLACKHOLE \<and> p' = indirectee q \<and> GET_CLOSURE_TAG p' = 0))"
proof (induction "f (UNTAG_CLOSURE p)" arbitrary: p rule: less_induct)
  case less
  let ?q = "UNTAG_CLOSURE p"
  show ?case
  proof (cases "itbl ?q")
    case BLACKHOLE
    then show ?thesis
      using less [of "indirectee ?q"] dec by (cases "GET_CLOSURE_TAG (indirectee ?q) = 0") (auto simp: removeIndirections.simps [of _ _ p])
  qed (use less [of "indirectee ?q"] dec in \<open>auto simp: removeIndirections.simps [of _ _ p]\<close>)
qed

lemma removeIndirections_cycle:
  assumes c: "itbl c = IND" "UNTAG_CLOSURE (indirectee c) = c"
  shows "UNTAG_CLOSURE p = c \<Longrightarrow> removeIndirections itbl indirectee p = None"
proof (rule ccontr)
  assume p: "UNTAG_CLOSURE p = c" and "removeIndirections itbl indirectee p \<noteq> None"
  then obtain r where r: "removeIndirections itbl indirectee p = Some r" by blast
  have "UNTAG_CLOSURE p \<noteq> c"
    by (rule removeIndirections.raw_induct [where P = "\<lambda>itbl' ind' p r. itbl' = itbl \<longrightarrow> ind' = indirectee \<longrightarrow> UNTAG_CLOSURE p \<noteq> c", OF _ r, rule_format])
      (use c in \<open>auto simp: Let_def split: closure_type.splits if_splits\<close>)
  with p show False by blast
qed
text \<open>Removing indirections returns whenever the chain of indirections that starts at the closure is finite
  (some measure decreases along it), with a closure that is no indirection, unless it is the untagged
  owner of a black hole; on a closure that is an indirection to itself the loop never returns.\<close>

lemma removeIndirections_terminates:
  "((\<forall>q. itbl q = IND \<or> itbl q = IND_STATIC \<or> itbl q = BLACKHOLE \<and> GET_CLOSURE_TAG (indirectee q) \<noteq> 0 \<longrightarrow>
      (f :: word64 \<Rightarrow> nat) (UNTAG_CLOSURE (indirectee q)) < f q) \<longrightarrow>
      (\<exists>p'. removeIndirections itbl indirectee p = Some p' \<and>
        (itbl (UNTAG_CLOSURE p') = OTHER_CLOSURE \<or> (\<exists>q. itbl q = BLACKHOLE \<and> p' = indirectee q \<and> GET_CLOSURE_TAG p' = 0)))) \<and>
   (itbl c = IND \<and> UNTAG_CLOSURE (indirectee c) = c \<and> UNTAG_CLOSURE c = c \<longrightarrow> removeIndirections itbl indirectee c = None)"
  using removeIndirections_finite [of itbl indirectee f p] removeIndirections_cycle [of itbl c indirectee c] by blast

end
