(* ===== verification/VectorPrims.thy ===== *)
theory VectorPrims
  imports RTS_Prelude "HOL-Library.Signed_Division"
begin

text \<open>
  The vector primitives that have no instruction (\<open>rts/prim/vectorQuotRem.c\<close>,
  \<open>rts/prim/int64x2minmax.c\<close>): quotient and remainder of the lanes of two 128-bit vectors, in the
  version for SSE2 and in the one for AArch64, and minimum and maximum of 64-bit lanes. A vector
  is a 128-bit word with lane 0 in its low bits, as \<open>memcpy\<close> lays it out on these little-endian machines. A
  division that is undefined in C is \<open>None\<close>; lanes of 8 and 16 bits are promoted to \<open>int\<close> first.
\<close>

section \<open>Lanes\<close>

type_synonym v128 = "128 word"

text \<open>\<open>x[i]\<close> after \<open>memcpy(x, &xx, 16)\<close>, for an array of \<open>'a\<close>.\<close>

definition lane :: "v128 \<Rightarrow> nat \<Rightarrow> 'a::len word" where
  "lane v i = ucast (drop_bit (LENGTH('a) * i) v)"

text \<open>\<open>_mm_set_epiN\<close>, with the lanes listed from lane 0 on.\<close>

primrec mm_set :: "'a::len word list \<Rightarrow> v128" where
  "mm_set [] = 0"
| "mm_set (z # zs) = ucast z OR push_bit LENGTH('a) (mm_set zs)"

text \<open>\<open>vsetq_lane\<close>.\<close>

definition vsetq_lane :: "'a::len word \<Rightarrow> v128 \<Rightarrow> nat \<Rightarrow> v128" where
  "vsetq_lane z v i = (v AND NOT (push_bit (LENGTH('a) * i) (ucast (- 1 :: 'a word)))) OR push_bit (LENGTH('a) * i) (ucast z)"

section \<open>Division of lanes\<close>

definition c_quot :: "'a::len word \<Rightarrow> 'a word \<Rightarrow> 'a word option" where
  "c_quot x y =
    (if sint y = 0 then None
     else if LENGTH('a) < 32 \<or> sint x sdiv sint y < 2 ^ (LENGTH('a) - 1) then Some (word_of_int (sint x sdiv sint y))
     else None)"

definition c_rem :: "'a::len word \<Rightarrow> 'a word \<Rightarrow> 'a word option" where
  "c_rem x y =
    (if sint y = 0 then None
     else if LENGTH('a) < 32 \<or> sint x sdiv sint y < 2 ^ (LENGTH('a) - 1) then Some (word_of_int (sint x smod sint y))
     else None)"

definition c_uquot :: "'a::len word \<Rightarrow> 'a word \<Rightarrow> 'a word option" where
  "c_uquot x y = (if y = 0 then None else Some (x div y))"

definition c_urem :: "'a::len word \<Rightarrow> 'a word \<Rightarrow> 'a word option" where
  "c_urem x y = (if y = 0 then None else Some (x mod y))"

section \<open>The two schemes\<close>

text \<open>SSE2: compute \<open>z0\<close>, \<open>z1\<close>, ... in order and build the vector from them.\<close>

primrec sse_lanes :: "('a::len word \<Rightarrow> 'a word \<Rightarrow> 'a word option) \<Rightarrow> v128 \<Rightarrow> v128 \<Rightarrow> nat list \<Rightarrow> 'a word list option" where
  "sse_lanes f xx yy [] = Some []"
| "sse_lanes f xx yy (i # is) =
    (case f (lane xx i) (lane yy i) of
       None \<Rightarrow> None
     | Some z \<Rightarrow> map_option ((#) z) (sse_lanes f xx yy is))"

definition sse :: "('a::len word \<Rightarrow> 'a word \<Rightarrow> 'a word option) \<Rightarrow> nat \<Rightarrow> v128 \<Rightarrow> v128 \<Rightarrow> v128 option" where
  "sse f n xx yy = map_option mm_set (sse_lanes f xx yy [0..<n])"

text \<open>AArch64: start from zero and set the lanes one after the other.\<close>

primrec neon_lanes :: "('a::len word \<Rightarrow> 'a word \<Rightarrow> 'a word option) \<Rightarrow> v128 \<Rightarrow> v128 \<Rightarrow> nat list \<Rightarrow> v128 \<Rightarrow> v128 option" where
  "neon_lanes f xx yy [] v = Some v"
| "neon_lanes f xx yy (i # is) v =
    (case f (lane xx i) (lane yy i) of
       None \<Rightarrow> None
     | Some z \<Rightarrow> neon_lanes f xx yy is (vsetq_lane z v i))"

definition neon :: "('a::len word \<Rightarrow> 'a word \<Rightarrow> 'a word option) \<Rightarrow> nat \<Rightarrow> v128 \<Rightarrow> v128 \<Rightarrow> v128 option" where
  "neon f n xx yy = neon_lanes f xx yy [0..<n] 0"

section \<open>The operations\<close>

subsection \<open>SSE2\<close>

definition hs_quotInt8X16 :: "v128 \<Rightarrow> v128 \<Rightarrow> v128 option" where
  "hs_quotInt8X16 = sse (c_quot :: word8 \<Rightarrow> word8 \<Rightarrow> word8 option) 16"

definition hs_quotInt16X8 :: "v128 \<Rightarrow> v128 \<Rightarrow> v128 option" where
  "hs_quotInt16X8 = sse (c_quot :: word16 \<Rightarrow> word16 \<Rightarrow> word16 option) 8"

definition hs_quotInt32X4 :: "v128 \<Rightarrow> v128 \<Rightarrow> v128 option" where
  "hs_quotInt32X4 = sse (c_quot :: word32 \<Rightarrow> word32 \<Rightarrow> word32 option) 4"

definition hs_quotInt64X2 :: "v128 \<Rightarrow> v128 \<Rightarrow> v128 option" where
  "hs_quotInt64X2 = sse (c_quot :: word64 \<Rightarrow> word64 \<Rightarrow> word64 option) 2"

definition hs_quotWord8X16 :: "v128 \<Rightarrow> v128 \<Rightarrow> v128 option" where
  "hs_quotWord8X16 = sse (c_uquot :: word8 \<Rightarrow> word8 \<Rightarrow> word8 option) 16"

definition hs_quotWord16X8 :: "v128 \<Rightarrow> v128 \<Rightarrow> v128 option" where
  "hs_quotWord16X8 = sse (c_uquot :: word16 \<Rightarrow> word16 \<Rightarrow> word16 option) 8"

definition hs_quotWord32X4 :: "v128 \<Rightarrow> v128 \<Rightarrow> v128 option" where
  "hs_quotWord32X4 = sse (c_uquot :: word32 \<Rightarrow> word32 \<Rightarrow> word32 option) 4"

definition hs_quotWord64X2 :: "v128 \<Rightarrow> v128 \<Rightarrow> v128 option" where
  "hs_quotWord64X2 = sse (c_uquot :: word64 \<Rightarrow> word64 \<Rightarrow> word64 option) 2"

definition hs_remInt8X16 :: "v128 \<Rightarrow> v128 \<Rightarrow> v128 option" where
  "hs_remInt8X16 = sse (c_rem :: word8 \<Rightarrow> word8 \<Rightarrow> word8 option) 16"

definition hs_remInt16X8 :: "v128 \<Rightarrow> v128 \<Rightarrow> v128 option" where
  "hs_remInt16X8 = sse (c_rem :: word16 \<Rightarrow> word16 \<Rightarrow> word16 option) 8"

definition hs_remInt32X4 :: "v128 \<Rightarrow> v128 \<Rightarrow> v128 option" where
  "hs_remInt32X4 = sse (c_rem :: word32 \<Rightarrow> word32 \<Rightarrow> word32 option) 4"

definition hs_remInt64X2 :: "v128 \<Rightarrow> v128 \<Rightarrow> v128 option" where
  "hs_remInt64X2 = sse (c_rem :: word64 \<Rightarrow> word64 \<Rightarrow> word64 option) 2"

definition hs_remWord8X16 :: "v128 \<Rightarrow> v128 \<Rightarrow> v128 option" where
  "hs_remWord8X16 = sse (c_urem :: word8 \<Rightarrow> word8 \<Rightarrow> word8 option) 16"

definition hs_remWord16X8 :: "v128 \<Rightarrow> v128 \<Rightarrow> v128 option" where
  "hs_remWord16X8 = sse (c_urem :: word16 \<Rightarrow> word16 \<Rightarrow> word16 option) 8"

definition hs_remWord32X4 :: "v128 \<Rightarrow> v128 \<Rightarrow> v128 option" where
  "hs_remWord32X4 = sse (c_urem :: word32 \<Rightarrow> word32 \<Rightarrow> word32 option) 4"

definition hs_remWord64X2 :: "v128 \<Rightarrow> v128 \<Rightarrow> v128 option" where
  "hs_remWord64X2 = sse (c_urem :: word64 \<Rightarrow> word64 \<Rightarrow> word64 option) 2"

subsection \<open>AArch64\<close>

definition hs_quotInt8X16_neon :: "v128 \<Rightarrow> v128 \<Rightarrow> v128 option" where
  "hs_quotInt8X16_neon = neon (c_quot :: word8 \<Rightarrow> word8 \<Rightarrow> word8 option) 16"

definition hs_quotInt16X8_neon :: "v128 \<Rightarrow> v128 \<Rightarrow> v128 option" where
  "hs_quotInt16X8_neon = neon (c_quot :: word16 \<Rightarrow> word16 \<Rightarrow> word16 option) 8"

definition hs_quotInt32X4_neon :: "v128 \<Rightarrow> v128 \<Rightarrow> v128 option" where
  "hs_quotInt32X4_neon = neon (c_quot :: word32 \<Rightarrow> word32 \<Rightarrow> word32 option) 4"

definition hs_quotInt64X2_neon :: "v128 \<Rightarrow> v128 \<Rightarrow> v128 option" where
  "hs_quotInt64X2_neon = neon (c_quot :: word64 \<Rightarrow> word64 \<Rightarrow> word64 option) 2"

definition hs_quotWord8X16_neon :: "v128 \<Rightarrow> v128 \<Rightarrow> v128 option" where
  "hs_quotWord8X16_neon = neon (c_uquot :: word8 \<Rightarrow> word8 \<Rightarrow> word8 option) 16"

definition hs_quotWord16X8_neon :: "v128 \<Rightarrow> v128 \<Rightarrow> v128 option" where
  "hs_quotWord16X8_neon = neon (c_uquot :: word16 \<Rightarrow> word16 \<Rightarrow> word16 option) 8"

definition hs_quotWord32X4_neon :: "v128 \<Rightarrow> v128 \<Rightarrow> v128 option" where
  "hs_quotWord32X4_neon = neon (c_uquot :: word32 \<Rightarrow> word32 \<Rightarrow> word32 option) 4"

definition hs_quotWord64X2_neon :: "v128 \<Rightarrow> v128 \<Rightarrow> v128 option" where
  "hs_quotWord64X2_neon = neon (c_uquot :: word64 \<Rightarrow> word64 \<Rightarrow> word64 option) 2"

definition hs_remInt8X16_neon :: "v128 \<Rightarrow> v128 \<Rightarrow> v128 option" where
  "hs_remInt8X16_neon = neon (c_rem :: word8 \<Rightarrow> word8 \<Rightarrow> word8 option) 16"

definition hs_remInt16X8_neon :: "v128 \<Rightarrow> v128 \<Rightarrow> v128 option" where
  "hs_remInt16X8_neon = neon (c_rem :: word16 \<Rightarrow> word16 \<Rightarrow> word16 option) 8"

definition hs_remInt32X4_neon :: "v128 \<Rightarrow> v128 \<Rightarrow> v128 option" where
  "hs_remInt32X4_neon = neon (c_rem :: word32 \<Rightarrow> word32 \<Rightarrow> word32 option) 4"

definition hs_remInt64X2_neon :: "v128 \<Rightarrow> v128 \<Rightarrow> v128 option" where
  "hs_remInt64X2_neon = neon (c_rem :: word64 \<Rightarrow> word64 \<Rightarrow> word64 option) 2"

definition hs_remWord8X16_neon :: "v128 \<Rightarrow> v128 \<Rightarrow> v128 option" where
  "hs_remWord8X16_neon = neon (c_urem :: word8 \<Rightarrow> word8 \<Rightarrow> word8 option) 16"

definition hs_remWord16X8_neon :: "v128 \<Rightarrow> v128 \<Rightarrow> v128 option" where
  "hs_remWord16X8_neon = neon (c_urem :: word16 \<Rightarrow> word16 \<Rightarrow> word16 option) 8"

definition hs_remWord32X4_neon :: "v128 \<Rightarrow> v128 \<Rightarrow> v128 option" where
  "hs_remWord32X4_neon = neon (c_urem :: word32 \<Rightarrow> word32 \<Rightarrow> word32 option) 4"

definition hs_remWord64X2_neon :: "v128 \<Rightarrow> v128 \<Rightarrow> v128 option" where
  "hs_remWord64X2_neon = neon (c_urem :: word64 \<Rightarrow> word64 \<Rightarrow> word64 option) 2"

subsection \<open>Minimum and maximum\<close>

text \<open>The two lanes of the result of a function on 64-bit lanes.\<close>

definition both64 :: "(word64 \<Rightarrow> word64 \<Rightarrow> word64) \<Rightarrow> v128 \<Rightarrow> v128 \<Rightarrow> v128" where
  "both64 f xx yy = mm_set [f (lane xx 0) (lane yy 0), f (lane xx 1) (lane yy 1)]"

definition hs_minInt64X2 :: "v128 \<Rightarrow> v128 \<Rightarrow> v128" where
  "hs_minInt64X2 = both64 (\<lambda>x y. if x <s y then x else y)"

definition hs_maxInt64X2 :: "v128 \<Rightarrow> v128 \<Rightarrow> v128" where
  "hs_maxInt64X2 = both64 (\<lambda>x y. if x <s y then y else x)"

definition hs_minWord64X2 :: "v128 \<Rightarrow> v128 \<Rightarrow> v128" where
  "hs_minWord64X2 = both64 (\<lambda>x y. if x < y then x else y)"

definition hs_maxWord64X2 :: "v128 \<Rightarrow> v128 \<Rightarrow> v128" where
  "hs_maxWord64X2 = both64 (\<lambda>x y. if x < y then y else x)"

section \<open>Lane lemmas\<close>

lemma bit_lane: "bit (lane v i :: 'a::len word) k \<longleftrightarrow> k < LENGTH('a) \<and> bit v (LENGTH('a) * i + k)"
  by (auto simp: lane_def bit_simps)

lemma bit_mm_set:
  "length zs * LENGTH('a) \<le> 128 \<Longrightarrow>
    bit (mm_set (zs :: 'a::len word list)) k \<longleftrightarrow> k < length zs * LENGTH('a) \<and> bit (zs ! (k div LENGTH('a))) (k mod LENGTH('a))"
proof (induction zs arbitrary: k)
  case (Cons z zs)
  show ?case
  proof (cases "k < LENGTH('a)")
    case True
    with Cons.prems show ?thesis by (auto simp: bit_simps)
  next
    case False
    then obtain j where j: "k = LENGTH('a) + j" by (metis le_add_diff_inverse not_less)
    have "\<not> bit z k" using False bit_imp_le_length by blast
    moreover have "bit (mm_set zs) j \<longleftrightarrow> j < length zs * LENGTH('a) \<and> bit (zs ! (j div LENGTH('a))) (j mod LENGTH('a))"
      using Cons by simp
    moreover have "j < length zs * LENGTH('a) \<Longrightarrow> k < 128" using Cons.prems j by simp
    moreover have "(LENGTH('a) + j) div LENGTH('a) = Suc (j div LENGTH('a))" by (simp add: div_add_self1)
    ultimately show ?thesis using j by (auto simp: bit_simps)
  qed
qed simp

lemma lane_mm_set:
  assumes "length zs * LENGTH('a) \<le> 128" "i < length zs"
  shows "lane (mm_set zs) i = (zs ! i :: 'a::len word)"
proof (rule bit_word_eqI)
  fix k assume "k < LENGTH('a)"
  moreover have "LENGTH('a) * i + k < length zs * LENGTH('a)"
  proof -
    have "LENGTH('a) * i + k < LENGTH('a) * Suc i" using \<open>k < LENGTH('a)\<close> by simp
    also have "\<dots> \<le> LENGTH('a) * length zs" using assms(2) by (intro mult_le_mono2) simp
    finally show ?thesis by (simp add: mult.commute)
  qed
  ultimately show "bit (lane (mm_set zs) i :: 'a word) k = bit (zs ! i) k"
    using assms by (simp add: bit_lane bit_mm_set)
qed

lemma bit_vsetq_lane:
  "bit (vsetq_lane z v i) k \<longleftrightarrow> (if LENGTH('a) * i \<le> k \<and> k < LENGTH('a) * Suc i \<and> k < 128
    then bit (z :: 'a::len word) (k - LENGTH('a) * i) else bit v k)"
  using bit_imp_le_length [of v k] bit_imp_le_length [of z "k - LENGTH('a) * i"]
  by (auto simp: vsetq_lane_def bit_simps)

lemma sse_lanes_eq:
  "sse_lanes f xx yy is = Some zs \<longleftrightarrow> length zs = length is \<and>
    (\<forall>j < length is. f (lane xx (is ! j)) (lane yy (is ! j)) = Some (zs ! j))"
proof (induction "is" arbitrary: zs)
  case (Cons i "is")
  show ?case
  proof (cases zs)
    case (Cons z zs')
    with Cons.IH show ?thesis by (auto simp: less_Suc_eq_0_disj nth_Cons split: option.splits nat.splits)
  qed (auto split: option.splits)
qed auto

lemma neon_lanes_eq:
  "neon_lanes f xx yy is v =
    map_option (\<lambda>zs. fold (\<lambda>(i, z) v. vsetq_lane z v i) (zip is zs) v) (sse_lanes f xx yy is)"
  by (induction "is" arbitrary: v) (auto simp: option.map_comp comp_def split: option.splits)

lemma bit_set_lanes:
  "length zs = n \<Longrightarrow> n * LENGTH('a) \<le> 128 \<Longrightarrow>
    bit (fold (\<lambda>(i, z) v. vsetq_lane z v i) (zip [0..<n] (zs :: 'a::len word list)) v) k \<longleftrightarrow>
      (if k < n * LENGTH('a) then bit (zs ! (k div LENGTH('a))) (k mod LENGTH('a)) else bit v k)"
proof (induction n arbitrary: zs)
  case (Suc n)
  then obtain ys z where zs: "zs = ys @ [z]" "length ys = n" by (cases zs rule: rev_cases) auto
  have f: "fold (\<lambda>(i, z) v. vsetq_lane z v i) (zip [0..<Suc n] zs) v =
    vsetq_lane z (fold (\<lambda>(i, z) v. vsetq_lane z v i) (zip [0..<n] ys) v) n" using zs by simp
  have ih: "bit (fold (\<lambda>(i, z) v. vsetq_lane z v i) (zip [0..<n] ys) v) k \<longleftrightarrow>
      (if k < n * LENGTH('a) then bit (ys ! (k div LENGTH('a))) (k mod LENGTH('a)) else bit v k)"
    by (rule Suc.IH) (use Suc.prems zs in auto)
  show ?case
  proof (cases "LENGTH('a) * n \<le> k \<and> k < LENGTH('a) * Suc n")
    case True
    then have "k div LENGTH('a) = n" by (metis div_nat_eqI mult.commute)
    moreover from this have "k mod LENGTH('a) = k - LENGTH('a) * n" by (metis minus_mult_div_eq_mod)
    moreover have "k < Suc n * LENGTH('a)" "k < 128" using True Suc.prems by (simp_all add: mult.commute)
    ultimately show ?thesis using True zs unfolding f bit_vsetq_lane by (simp add: nth_append)
  next
    case False
    then have "k < n * LENGTH('a) \<longleftrightarrow> k < Suc n * LENGTH('a)" by (auto simp: mult.commute)
    moreover have "k div LENGTH('a) < n" if "k < n * LENGTH('a)"
      using that by (simp add: less_mult_imp_div_less)
    ultimately show ?thesis using False zs ih unfolding f bit_vsetq_lane by (auto simp: nth_append)
  qed
qed simp

lemma neon_sse:
  assumes "n * LENGTH('a::len) = 128"
  shows "neon f n = sse (f :: 'a word \<Rightarrow> 'a word \<Rightarrow> 'a word option) n"
proof (intro ext)
  fix xx yy
  show "neon f n xx yy = sse f n xx yy"
  proof (cases "sse_lanes f xx yy [0..<n]")
    case (Some zs)
    then have "length zs = n" by (simp add: sse_lanes_eq)
    then have "fold (\<lambda>(i, z) v. vsetq_lane z v i) (zip [0..<n] zs) 0 = mm_set zs"
      by (intro bit_word_eqI) (use assms in \<open>simp add: bit_set_lanes bit_mm_set\<close>)
    with Some show ?thesis by (simp add: neon_def sse_def neon_lanes_eq)
  qed (simp add: neon_def sse_def neon_lanes_eq)
qed

lemma sse_Some:
  assumes "n * LENGTH('a::len) = 128"
  shows "sse (f :: 'a word \<Rightarrow> 'a word \<Rightarrow> 'a word option) n xx yy = Some v \<longleftrightarrow>
    (\<forall>i < n. f (lane xx i) (lane yy i) = Some (lane v i))"
proof
  assume "sse f n xx yy = Some v"
  then obtain zs where "sse_lanes f xx yy [0..<n] = Some zs" "v = mm_set zs" by (auto simp: sse_def)
  then show "\<forall>i < n. f (lane xx i) (lane yy i) = Some (lane v i)"
    using assms by (simp add: sse_lanes_eq lane_mm_set)
next
  assume *: "\<forall>i < n. f (lane xx i) (lane yy i) = Some (lane v i)"
  then have "sse_lanes f xx yy [0..<n] = Some (map (lane v) [0..<n])" by (simp add: sse_lanes_eq)
  moreover have "mm_set (map (lane v :: nat \<Rightarrow> 'a word) [0..<n]) = v"
  proof (rule bit_word_eqI)
    fix k assume "k < LENGTH(128)"
    then have k: "k < n * LENGTH('a)" using assms by simp
    then have "k div LENGTH('a) < n" by (simp add: less_mult_imp_div_less)
    with k assms show "bit (mm_set (map (lane v :: nat \<Rightarrow> 'a word) [0..<n])) k = bit v k"
      by (simp add: bit_mm_set bit_lane)
  qed
  ultimately show "sse f n xx yy = Some v" by (simp add: sse_def)
qed

section \<open>Division of one lane\<close>

text \<open>\<open>q\<close> and \<open>r\<close> are quotient and remainder of \<open>x\<close> by \<open>y\<close>, truncated towards zero; the quotient of the
  least number by -1 wraps around.\<close>

definition divides_signed :: "'a::len word \<Rightarrow> 'a word \<Rightarrow> 'a word \<Rightarrow> 'a word \<Rightarrow> bool" where
  "divides_signed x y q r \<longleftrightarrow> q * y + r = x \<and> \<bar>sint r\<bar> < \<bar>sint y\<bar> \<and> (sint r = 0 \<or> sgn (sint r) = sgn (sint x)) \<and>
     (\<not> (sint x = - (2 ^ (LENGTH('a) - 1)) \<and> sint y = -1) \<longrightarrow> sint q * sint y + sint r = sint x)"

definition divides_unsigned :: "'a::len word \<Rightarrow> 'a word \<Rightarrow> 'a word \<Rightarrow> 'a word \<Rightarrow> bool" where
  "divides_unsigned x y q r \<longleftrightarrow> unat q * unat y + unat r = unat x \<and> unat r < unat y"

definition quot_overflows :: "'a::len word \<Rightarrow> 'a word \<Rightarrow> bool" where
  "quot_overflows x y \<longleftrightarrow> sint x = - (2 ^ (LENGTH('a) - 1)) \<and> sint y = -1"

lemma sint_bounds: "- (2 ^ (LENGTH('a) - 1)) \<le> sint (x :: 'a::len word)" "sint x < 2 ^ (LENGTH('a) - 1)"
  using sint_ge [of x] sint_lt [of x] by auto

lemma sint_word_of_int:
  "- (2 ^ (LENGTH('a) - 1)) \<le> i \<Longrightarrow> i < 2 ^ (LENGTH('a) - 1) \<Longrightarrow> sint (word_of_int i :: 'a::len word) = i"
  by (simp add: signed_of_int signed_take_bit_int_eq_self)

lemma sdiv_bound:
  "sint x sdiv sint y < 2 ^ (LENGTH('a) - 1) \<longleftrightarrow> \<not> quot_overflows x (y :: 'a::len word)"
  "- (2 ^ (LENGTH('a) - 1)) \<le> sint x sdiv sint y"
proof -
  have r: "- \<bar>sint x\<bar> \<le> sint x sdiv sint y" "sint x sdiv sint y \<le> \<bar>sint x\<bar>"
    using sdiv_int_range [of "sint x" "sint y"] by auto
  note b = sint_bounds [of x]
  show "- (2 ^ (LENGTH('a) - 1)) \<le> sint x sdiv sint y" using r b by linarith
  have "quot_overflows x y" if "2 ^ (LENGTH('a) - 1) \<le> sint x sdiv sint y"
  proof -
    have "sint x = - (2 ^ (LENGTH('a) - 1))" "sint x sdiv sint y = - sint x" using that r b by linarith+
    then show ?thesis using int_sdiv_negated_is_minus1 [of "sint x" "sint y"] by (simp add: quot_overflows_def)
  qed
  moreover have "sint x sdiv sint y = 2 ^ (LENGTH('a) - 1)" if "quot_overflows x y"
    using that by (simp add: quot_overflows_def)
  ultimately show "sint x sdiv sint y < 2 ^ (LENGTH('a) - 1) \<longleftrightarrow> \<not> quot_overflows x y" by force
qed

lemma c_quot_None: "c_quot x y = None \<longleftrightarrow> y = 0 \<or> 32 \<le> LENGTH('a) \<and> quot_overflows x (y :: 'a::len word)"
  unfolding c_quot_def sdiv_bound(1) by (auto simp: signed_eq_0_iff)

lemma c_rem_None: "c_rem x y = None \<longleftrightarrow> y = 0 \<or> 32 \<le> LENGTH('a) \<and> quot_overflows x (y :: 'a::len word)"
  unfolding c_rem_def sdiv_bound(1) by (auto simp: signed_eq_0_iff)

lemma divides_signed_lane:
  assumes "c_quot x y = Some q" "c_rem x y = Some r"
  shows "divides_signed x y q (r :: 'a::len word)"
proof -
  have y: "sint y \<noteq> 0" and q: "q = word_of_int (sint x sdiv sint y)" and r: "r = word_of_int (sint x smod sint y)"
    using assms by (auto simp: c_quot_def c_rem_def split: if_splits)
  have m: "\<bar>sint x smod sint y\<bar> < \<bar>sint y\<bar>" using y smod_int_range [of "sint y" "sint x"] by auto
  then have sr: "sint r = sint x smod sint y"
    unfolding r using sint_bounds [of y] by (intro sint_word_of_int) linarith+
  have "q * y + r = of_int (sint x sdiv sint y) * of_int (sint y) + of_int (sint x smod sint y)"
    by (simp add: q r)
  also have "\<dots> = of_int (sint x sdiv sint y * sint y + sint x smod sint y)" by (simp only: of_int_mult of_int_add)
  also have "\<dots> = x" by (simp add: sdiv_mult_smod_eq)
  finally have "q * y + r = x" .
  moreover have "sint r = 0 \<or> sgn (sint r) = sgn (sint x)"
  proof (cases "sint r = 0")
    case False
    have "0 \<le> \<bar>sint x\<bar> mod \<bar>sint y\<bar>" using y by simp
    moreover have "\<bar>sint x\<bar> mod \<bar>sint y\<bar> \<noteq> 0" using False by (auto simp: sr signed_modulo_int_def)
    ultimately have "sgn (\<bar>sint x\<bar> mod \<bar>sint y\<bar>) = 1" by (simp only: sgn_1_pos)
    then show ?thesis by (simp add: sr signed_modulo_int_def sgn_mult)
  qed simp
  moreover have "sint q * sint y + sint r = sint x" if "\<not> quot_overflows x y"
  proof -
    have "sint q = sint x sdiv sint y" unfolding q using sdiv_bound [of x y] that by (intro sint_word_of_int) auto
    then show ?thesis by (simp add: sr sdiv_mult_smod_eq)
  qed
  ultimately show ?thesis using m by (auto simp: divides_signed_def sr quot_overflows_def)
qed

lemma divides_unsigned_lane: "c_uquot x y = Some q \<Longrightarrow> c_urem x y = Some r \<Longrightarrow> divides_unsigned x y q r"
  by (auto simp: c_uquot_def c_urem_def divides_unsigned_def unat_div unat_mod unat_gt_0 split: if_splits)


lemma sse_None:
  assumes "n * LENGTH('a::len) = 128"
  shows "sse (f :: 'a word \<Rightarrow> 'a word \<Rightarrow> 'a word option) n xx yy = None \<longleftrightarrow>
    (\<exists>i < n. f (lane xx i) (lane yy i) = None)"
proof -
  have "sse_lanes f xx yy is = None \<longleftrightarrow> (\<exists>i \<in> set is. f (lane xx i) (lane yy i) = None)" for "is"
    by (induction "is") (auto split: option.splits)
  then show ?thesis by (auto simp: sse_def)
qed

lemma sse_signed:
  assumes "n * LENGTH('a::len) = 128" "sse (c_quot :: 'a word \<Rightarrow> _) n xx yy = Some q" "sse (c_rem :: 'a word \<Rightarrow> _) n xx yy = Some r" "i < n"
  shows "divides_signed (lane xx i :: 'a word) (lane yy i) (lane q i) (lane r i)"
  using assms(2-4) unfolding sse_Some [OF assms(1)] by (blast intro: divides_signed_lane)

lemma sse_unsigned:
  assumes "n * LENGTH('a::len) = 128" "sse (c_uquot :: 'a word \<Rightarrow> _) n xx yy = Some q" "sse (c_urem :: 'a word \<Rightarrow> _) n xx yy = Some r" "i < n"
  shows "divides_unsigned (lane xx i :: 'a word) (lane yy i) (lane q i) (lane r i)"
  using assms(2-4) unfolding sse_Some [OF assms(1)] by (blast intro: divides_unsigned_lane)

section \<open>Properties\<close>

lemmas vector_division_defs = hs_quotInt8X16_def hs_quotInt16X8_def hs_quotInt32X4_def hs_quotInt64X2_def
  hs_quotWord8X16_def hs_quotWord16X8_def hs_quotWord32X4_def hs_quotWord64X2_def
  hs_remInt8X16_def hs_remInt16X8_def hs_remInt32X4_def hs_remInt64X2_def
  hs_remWord8X16_def hs_remWord16X8_def hs_remWord32X4_def hs_remWord64X2_def

lemmas vector_division_neon_defs = hs_quotInt8X16_neon_def hs_quotInt16X8_neon_def hs_quotInt32X4_neon_def hs_quotInt64X2_neon_def
  hs_quotWord8X16_neon_def hs_quotWord16X8_neon_def hs_quotWord32X4_neon_def hs_quotWord64X2_neon_def
  hs_remInt8X16_neon_def hs_remInt16X8_neon_def hs_remInt32X4_neon_def hs_remInt64X2_neon_def
  hs_remWord8X16_neon_def hs_remWord16X8_neon_def hs_remWord32X4_neon_def hs_remWord64X2_neon_def

text \<open>The division of vectors is the division of their lanes: where quotient and remainder are defined, each
  lane holds the truncated quotient and remainder of that lane, at every width, signed and unsigned; they
  are undefined exactly when a divisor lane is zero or, for signed lanes of 32 and 64 bits, when the least
  number is divided by -1 in some lane, which for 8 and 16 bits wraps around instead.\<close>

lemma vector_division_correct:
  "(hs_quotInt8X16 xx yy = Some q \<and> hs_remInt8X16 xx yy = Some r \<longrightarrow>
      (\<forall>i < 16. divides_signed (lane xx i :: word8) (lane yy i) (lane q i) (lane r i))) \<and>
   (hs_quotInt16X8 xx yy = Some q \<and> hs_remInt16X8 xx yy = Some r \<longrightarrow>
      (\<forall>i < 8. divides_signed (lane xx i :: word16) (lane yy i) (lane q i) (lane r i))) \<and>
   (hs_quotInt32X4 xx yy = Some q \<and> hs_remInt32X4 xx yy = Some r \<longrightarrow>
      (\<forall>i < 4. divides_signed (lane xx i :: word32) (lane yy i) (lane q i) (lane r i))) \<and>
   (hs_quotInt64X2 xx yy = Some q \<and> hs_remInt64X2 xx yy = Some r \<longrightarrow>
      (\<forall>i < 2. divides_signed (lane xx i :: word64) (lane yy i) (lane q i) (lane r i))) \<and>
   (hs_quotWord8X16 xx yy = Some q \<and> hs_remWord8X16 xx yy = Some r \<longrightarrow>
      (\<forall>i < 16. divides_unsigned (lane xx i :: word8) (lane yy i) (lane q i) (lane r i))) \<and>
   (hs_quotWord16X8 xx yy = Some q \<and> hs_remWord16X8 xx yy = Some r \<longrightarrow>
      (\<forall>i < 8. divides_unsigned (lane xx i :: word16) (lane yy i) (lane q i) (lane r i))) \<and>
   (hs_quotWord32X4 xx yy = Some q \<and> hs_remWord32X4 xx yy = Some r \<longrightarrow>
      (\<forall>i < 4. divides_unsigned (lane xx i :: word32) (lane yy i) (lane q i) (lane r i))) \<and>
   (hs_quotWord64X2 xx yy = Some q \<and> hs_remWord64X2 xx yy = Some r \<longrightarrow>
      (\<forall>i < 2. divides_unsigned (lane xx i :: word64) (lane yy i) (lane q i) (lane r i))) \<and>
   (hs_quotInt8X16 xx yy = None \<longleftrightarrow> (\<exists>i < 16. (lane yy i :: word8) = 0)) \<and>
   (hs_remInt16X8 xx yy = None \<longleftrightarrow> (\<exists>i < 8. (lane yy i :: word16) = 0)) \<and>
   (hs_quotInt32X4 xx yy = None \<longleftrightarrow> (\<exists>i < 4. (lane yy i :: word32) = 0 \<or> quot_overflows (lane xx i) (lane yy i :: word32))) \<and>
   (hs_remInt64X2 xx yy = None \<longleftrightarrow> (\<exists>i < 2. (lane yy i :: word64) = 0 \<or> quot_overflows (lane xx i) (lane yy i :: word64))) \<and>
   (hs_quotWord64X2 xx yy = None \<longleftrightarrow> (\<exists>i < 2. (lane yy i :: word64) = 0))"
  unfolding vector_division_defs
  by (intro conjI impI allI)
    ((rule sse_signed sse_unsigned, simp, fast, fast, assumption)+,
      simp_all add: sse_None c_quot_None c_rem_None, auto simp: c_uquot_def)

text \<open>C40 The versions for AArch64, which set the lanes of a zero vector one after the other, compute the same
  vectors as the versions for SSE2, and are undefined for the same arguments.\<close>

theorem neon_equals_sse:
  "hs_quotInt8X16_neon = hs_quotInt8X16 \<and> hs_quotInt16X8_neon = hs_quotInt16X8 \<and>
   hs_quotInt32X4_neon = hs_quotInt32X4 \<and> hs_quotInt64X2_neon = hs_quotInt64X2 \<and>
   hs_quotWord8X16_neon = hs_quotWord8X16 \<and> hs_quotWord16X8_neon = hs_quotWord16X8 \<and>
   hs_quotWord32X4_neon = hs_quotWord32X4 \<and> hs_quotWord64X2_neon = hs_quotWord64X2 \<and>
   hs_remInt8X16_neon = hs_remInt8X16 \<and> hs_remInt16X8_neon = hs_remInt16X8 \<and>
   hs_remInt32X4_neon = hs_remInt32X4 \<and> hs_remInt64X2_neon = hs_remInt64X2 \<and>
   hs_remWord8X16_neon = hs_remWord8X16 \<and> hs_remWord16X8_neon = hs_remWord16X8 \<and>
   hs_remWord32X4_neon = hs_remWord32X4 \<and> hs_remWord64X2_neon = hs_remWord64X2"
  unfolding vector_division_defs vector_division_neon_defs by (simp add: neon_sse)

text \<open>The minima and maxima of the two lanes.\<close>

lemma minmax64_correct:
  "sint (lane (hs_minInt64X2 xx yy) i :: word64) = min (sint (lane xx i :: word64)) (sint (lane yy i :: word64)) \<and>
   sint (lane (hs_maxInt64X2 xx yy) i :: word64) = max (sint (lane xx i :: word64)) (sint (lane yy i :: word64)) \<and>
   (lane (hs_minWord64X2 xx yy) i :: word64) = min (lane xx i) (lane yy i) \<and>
   (lane (hs_maxWord64X2 xx yy) i :: word64) = max (lane xx i) (lane yy i)"
  if "i < 2"
proof -
  have "lane (both64 f xx yy) i = f (lane xx i) (lane yy i)" for f
    using that lane_mm_set [of "[f (lane xx 0) (lane yy 0), f (lane xx 1) (lane yy 1)]" i]
    by (cases i) (auto simp: both64_def)
  then show ?thesis
    by (auto simp: hs_minInt64X2_def hs_maxInt64X2_def hs_minWord64X2_def hs_maxWord64X2_def word_sless_alt min_def max_def)
qed

end
