(* ===== verification/WSDeques.thy ===== *)
theory WSDeques
  imports RTS_Prelude "HOL-Library.Signed_Division" "HOL-Library.Multiset"
begin

text \<open>
  The work-stealing deque (\<open>rts/WSDeque.c\<close>, \<open>rts/WSDeque.h\<close>): one owner pushes and pops at the bottom,
  any number of thieves steal at the top. The operations are cut into their accesses to the shared
  fields; each access is one step, and the steps of all threads interleave arbitrarily (sequential
  consistency, which the fences and the acquire and release accesses of the code are there to give
  for these fields). The positions are mathematical integers: the code assumes that 64-bit positions
  never overflow. The result of an operation is the label of the step that decides it.
\<close>

section \<open>The deque\<close>

record ws_deque =
  wsd_size :: int
  moduloSize :: int
  dq_top :: int
  dq_bottom :: int
  elements :: "int \<Rightarrow> word64"

lemma drop_bit_1_less: "drop_bit 1 (val :: word64) \<noteq> 0 \<Longrightarrow> unat (drop_bit 1 val) < unat val"
proof -
  assume "drop_bit 1 val \<noteq> 0"
  then have "unat val \<noteq> 0" by (auto simp: unat_eq_0)
  then show ?thesis by (simp add: drop_bit_eq_div unat_div)
qed

text \<open>\<open>roundUp2\<close>: the argument 0 stops the program (\<open>barf\<close>).\<close>

function roundUp2_loop :: "word64 \<Rightarrow> word64 \<Rightarrow> word64" where
  "roundUp2_loop rounded val =
    (let rounded = push_bit 1 rounded; val = drop_bit 1 val
     in if val \<noteq> 0 then roundUp2_loop rounded val else rounded)"
  by pat_completeness auto

termination roundUp2_loop
  by (relation "measure (\<lambda>(rounded, val). unat val)") (use drop_bit_1_less in auto)

declare roundUp2_loop.simps [simp del]

definition roundUp2 :: "word64 \<Rightarrow> word64 option" where
  "roundUp2 val = (if val = 0 then None else Some (roundUp2_loop 1 val))"

definition newWSDeque :: "word32 \<Rightarrow> (int \<Rightarrow> word64) \<Rightarrow> ws_deque option" where
  "newWSDeque sz garbage =
    map_option (\<lambda>realsize. \<lparr>wsd_size = sint realsize, moduloSize = uint (realsize - 1), dq_top = 0, dq_bottom = 0, elements = garbage\<rparr>)
      (roundUp2 (ucast sz))"

section \<open>The threads\<close>

datatype owner_pc =
    OwnerIdle
  | PushTop word64 int
  | PushStore word64 int
  | PushBottom word64 int
  | PopStore int
  | PopTop int
  | PopRead int int
  | PopCas int int word64
  | PopFix int
  | DiscardStore int

datatype thief_pc =
    ThiefIdle
  | StealTop
  | StealBottom int
  | StealRead int
  | StealCas int word64
  | StealNull
  | LookBottom int

record ws_system =
  deque :: ws_deque
  owner :: owner_pc
  thief :: "nat \<Rightarrow> thief_pc"

datatype ws_event =
    Internal
  | Pushed word64
  | Push_full word64
  | Popped word64
  | Pop_null
  | Stolen nat word64
  | Steal_lost nat
  | Steal_null nat
  | Discarded

subsection \<open>The owner\<close>

definition push_begin :: "word64 \<Rightarrow> ws_deque \<Rightarrow> owner_pc" where
  "push_begin e q = PushTop e (dq_bottom q)"

definition push_top :: "word64 \<Rightarrow> int \<Rightarrow> ws_deque \<Rightarrow> owner_pc \<times> ws_event" where
  "push_top e b q =
    (let t = dq_top q
     in if b - t > wsd_size q - 1 then (OwnerIdle, Push_full e) else (PushStore e b, Internal))"

definition push_store :: "word64 \<Rightarrow> int \<Rightarrow> ws_deque \<Rightarrow> owner_pc \<times> ws_deque" where
  "push_store e b q = (PushBottom e b, q\<lparr>elements := (elements q)(b AND moduloSize q := e)\<rparr>)"

definition push_bottom :: "word64 \<Rightarrow> int \<Rightarrow> ws_deque \<Rightarrow> ws_deque" where
  "push_bottom e b q = q\<lparr>dq_bottom := b + 1\<rparr>"

definition pop_begin :: "ws_deque \<Rightarrow> owner_pc" where
  "pop_begin q = PopStore (dq_bottom q - 1)"

definition pop_store :: "int \<Rightarrow> ws_deque \<Rightarrow> owner_pc \<times> ws_deque" where
  "pop_store b q = (PopTop b, q\<lparr>dq_bottom := b\<rparr>)"

definition pop_top :: "int \<Rightarrow> ws_deque \<Rightarrow> owner_pc \<times> ws_event" where
  "pop_top b q = (let t = dq_top q in if t \<le> b then (PopRead b t, Internal) else (PopFix b, Pop_null))"

definition pop_read :: "int \<Rightarrow> int \<Rightarrow> ws_deque \<Rightarrow> owner_pc \<times> ws_event" where
  "pop_read b t q =
    (let result = elements q (b AND moduloSize q)
     in if t = b then (PopCas b t result, Internal) else (OwnerIdle, Popped result))"

definition cas_top :: "int \<Rightarrow> int \<Rightarrow> ws_deque \<Rightarrow> bool \<times> ws_deque" where
  "cas_top old new q = (if dq_top q = old then (True, q\<lparr>dq_top := new\<rparr>) else (False, q))"

definition pop_cas :: "int \<Rightarrow> int \<Rightarrow> word64 \<Rightarrow> ws_deque \<Rightarrow> owner_pc \<times> ws_event \<times> ws_deque" where
  "pop_cas b t result q =
    (case cas_top t (t + 1) q of (ok, q') \<Rightarrow> (PopFix b, if ok then Popped result else Pop_null, q'))"

definition pop_fix :: "int \<Rightarrow> ws_deque \<Rightarrow> ws_deque" where
  "pop_fix b q = q\<lparr>dq_bottom := b + 1\<rparr>"

definition discard_begin :: "ws_deque \<Rightarrow> owner_pc" where
  "discard_begin q = DiscardStore (dq_bottom q)"

definition discard_store :: "int \<Rightarrow> ws_deque \<Rightarrow> ws_deque" where
  "discard_store b q = q\<lparr>dq_top := b\<rparr>"

subsection \<open>A thief\<close>

definition steal_top :: "ws_deque \<Rightarrow> thief_pc" where
  "steal_top q = StealBottom (dq_top q)"

definition steal_bottom :: "int \<Rightarrow> ws_deque \<Rightarrow> thief_pc" where
  "steal_bottom t q = (if t < dq_bottom q then StealRead t else StealNull)"

definition steal_read :: "int \<Rightarrow> ws_deque \<Rightarrow> thief_pc" where
  "steal_read t q = StealCas t (elements q (t smod wsd_size q))"

text \<open>The caller \<open>stealWSDeque\<close> goes on when it gets NULL.\<close>

definition steal_cas :: "nat \<Rightarrow> int \<Rightarrow> word64 \<Rightarrow> ws_deque \<Rightarrow> thief_pc \<times> ws_event \<times> ws_deque" where
  "steal_cas i t result q =
    (case cas_top t (t + 1) q of
       (ok, q') \<Rightarrow> if ok then (if result = 0 then StealNull else ThiefIdle, Stolen i result, q') else (StealNull, Steal_lost i, q'))"

definition look_top :: "ws_deque \<Rightarrow> thief_pc" where
  "look_top q = LookBottom (dq_top q)"

definition look_bottom :: "nat \<Rightarrow> int \<Rightarrow> ws_deque \<Rightarrow> thief_pc \<times> ws_event" where
  "look_bottom i t q =
    (let n = dq_bottom q - t; elements = (if n > 0 then n else 0)
     in if elements \<le> 0 then (ThiefIdle, Steal_null i) else (StealTop, Internal))"

subsection \<open>Interleaving\<close>

inductive ws_step :: "ws_system \<Rightarrow> ws_event \<Rightarrow> ws_system \<Rightarrow> bool" where
  step_push_begin: "owner s = OwnerIdle \<Longrightarrow> ws_step s Internal (s\<lparr>owner := push_begin e (deque s)\<rparr>)"
| step_push_top: "owner s = PushTop e b \<Longrightarrow> push_top e b (deque s) = (pc, ev) \<Longrightarrow> ws_step s ev (s\<lparr>owner := pc\<rparr>)"
| step_push_store: "owner s = PushStore e b \<Longrightarrow> push_store e b (deque s) = (pc, q) \<Longrightarrow>
    ws_step s Internal (s\<lparr>owner := pc, deque := q\<rparr>)"
| step_push_bottom: "owner s = PushBottom e b \<Longrightarrow>
    ws_step s (Pushed e) (s\<lparr>owner := OwnerIdle, deque := push_bottom e b (deque s)\<rparr>)"
| step_pop_begin: "owner s = OwnerIdle \<Longrightarrow> ws_step s Internal (s\<lparr>owner := pop_begin (deque s)\<rparr>)"
| step_pop_store: "owner s = PopStore b \<Longrightarrow> pop_store b (deque s) = (pc, q) \<Longrightarrow>
    ws_step s Internal (s\<lparr>owner := pc, deque := q\<rparr>)"
| step_pop_top: "owner s = PopTop b \<Longrightarrow> pop_top b (deque s) = (pc, ev) \<Longrightarrow> ws_step s ev (s\<lparr>owner := pc\<rparr>)"
| step_pop_read: "owner s = PopRead b t \<Longrightarrow> pop_read b t (deque s) = (pc, ev) \<Longrightarrow> ws_step s ev (s\<lparr>owner := pc\<rparr>)"
| step_pop_cas: "owner s = PopCas b t r \<Longrightarrow> pop_cas b t r (deque s) = (pc, ev, q) \<Longrightarrow>
    ws_step s ev (s\<lparr>owner := pc, deque := q\<rparr>)"
| step_pop_fix: "owner s = PopFix b \<Longrightarrow> ws_step s Internal (s\<lparr>owner := OwnerIdle, deque := pop_fix b (deque s)\<rparr>)"
| step_discard_begin: "owner s = OwnerIdle \<Longrightarrow> ws_step s Internal (s\<lparr>owner := discard_begin (deque s)\<rparr>)"
| step_discard_store: "owner s = DiscardStore b \<Longrightarrow>
    ws_step s Discarded (s\<lparr>owner := OwnerIdle, deque := discard_store b (deque s)\<rparr>)"
| step_steal_top: "thief s i = ThiefIdle \<or> thief s i = StealTop \<Longrightarrow>
    ws_step s Internal (s\<lparr>thief := (thief s)(i := steal_top (deque s))\<rparr>)"
| step_steal_bottom: "thief s i = StealBottom t \<Longrightarrow>
    ws_step s Internal (s\<lparr>thief := (thief s)(i := steal_bottom t (deque s))\<rparr>)"
| step_steal_read: "thief s i = StealRead t \<Longrightarrow>
    ws_step s Internal (s\<lparr>thief := (thief s)(i := steal_read t (deque s))\<rparr>)"
| step_steal_cas: "thief s i = StealCas t x \<Longrightarrow> steal_cas i t x (deque s) = (pc, ev, q) \<Longrightarrow>
    ws_step s ev (s\<lparr>thief := (thief s)(i := pc), deque := q\<rparr>)"
| step_steal_return: "thief s i = StealNull \<Longrightarrow> ws_step s (Steal_null i) (s\<lparr>thief := (thief s)(i := ThiefIdle)\<rparr>)"
| step_look_top: "thief s i = StealNull \<Longrightarrow> ws_step s Internal (s\<lparr>thief := (thief s)(i := look_top (deque s))\<rparr>)"
| step_look_bottom: "thief s i = LookBottom t \<Longrightarrow> look_bottom i t (deque s) = (pc, ev) \<Longrightarrow>
    ws_step s ev (s\<lparr>thief := (thief s)(i := pc)\<rparr>)"

inductive ws_run :: "ws_system \<Rightarrow> ws_event list \<Rightarrow> ws_system \<Rightarrow> bool" where
  ws_run_nil: "ws_run s [] s"
| ws_run_step: "ws_run s evs s' \<Longrightarrow> ws_step s' ev s'' \<Longrightarrow> ws_run s (evs @ [ev]) s''"

definition ws_init :: "ws_deque \<Rightarrow> ws_system" where
  "ws_init q = \<lparr>deque = q, owner = OwnerIdle, thief = (\<lambda>_. ThiefIdle)\<rparr>"

lemmas ws_defs = push_begin_def push_top_def push_store_def push_bottom_def pop_begin_def pop_store_def pop_top_def
  pop_read_def cas_top_def pop_cas_def pop_fix_def discard_begin_def discard_store_def steal_top_def steal_bottom_def
  steal_read_def steal_cas_def look_top_def look_bottom_def

section \<open>The abstract deque\<close>

text \<open>
  What the steps of a double-ended queue do to its content: a push appends, a pop takes the last element, a steal the first
  one. A push may fail when the queue is full, a pop only when it is empty. When a steal may fail is \<open>steal_spec\<close>.
\<close>

inductive deque_spec :: "int \<Rightarrow> word64 list \<Rightarrow> ws_event \<Rightarrow> word64 list \<Rightarrow> bool" for n where
  "deque_spec n Q Internal Q"
| "int (length Q) < n \<Longrightarrow> deque_spec n Q (Pushed e) (Q @ [e])"
| "int (length Q) = n \<Longrightarrow> deque_spec n Q (Push_full e) Q"
| "deque_spec n (Q @ [r]) (Popped r) Q"
| "deque_spec n [] Pop_null []"
| "deque_spec n (x # Q) (Stolen i x) Q"
| "deque_spec n Q (Steal_lost i) Q"
| "deque_spec n Q (Steal_null i) Q"
| "deque_spec n Q Discarded []"

text \<open>
  When a steal may fail. Of the thieves, \<open>attempts\<close> are those in an attempt to take an element, \<open>behind\<close> those in an attempt since whose beginning
  another thread has taken an element or discarded all, \<open>failed\<close> those whose last attempt has failed. The flag tells that the deque is
  empty, or holds but the element that the owner is about to take. An attempt begins with no one ahead; it fails only then, or by being behind; and a
  thief reports nothing found only after a failed attempt or when the flag is set.
\<close>

record steal_view =
  attempts :: "nat set"
  behind :: "nat set"
  failed :: "nat set"

definition give_up :: "nat \<Rightarrow> steal_view \<Rightarrow> steal_view" where
  "give_up i v = v\<lparr>attempts := attempts v - {i}, behind := behind v - {i}, failed := insert i (failed v)\<rparr>"

inductive steal_spec :: "bool \<Rightarrow> steal_view \<Rightarrow> ws_event \<Rightarrow> steal_view \<Rightarrow> bool" where
  quiet: "steal_spec e v Internal v"
| attempt: "i \<notin> attempts v \<Longrightarrow> i \<notin> behind v \<Longrightarrow> steal_spec e v Internal (v\<lparr>attempts := insert i (attempts v)\<rparr>)"
| nothing: "i \<in> attempts v \<Longrightarrow> e \<Longrightarrow> steal_spec e v Internal (give_up i v)"
| look: "i \<in> failed v \<Longrightarrow> steal_spec e v Internal (v\<lparr>failed := failed v - {i}\<rparr>)"
| lost: "i \<in> behind v \<Longrightarrow> steal_spec e v (Steal_lost i) (give_up i v)"
| null: "i \<in> failed v \<or> e \<Longrightarrow> steal_spec e v (Steal_null i) (v\<lparr>failed := failed v - {i}\<rparr>)"
| stolen: "i \<in> attempts v \<Longrightarrow>
    steal_spec e v (Stolen i x) (v\<lparr>attempts := attempts v - {i}, behind := attempts v - {i}, failed := failed v \<union> (if x = 0 then {i} else {})\<rparr>)"
| pop_low: "steal_spec e v (Popped r) v"
| pop_last: "steal_spec e v (Popped r) (v\<lparr>behind := attempts v\<rparr>)"
| discard: "w = behind v \<or> w = attempts v \<Longrightarrow> steal_spec e v Discarded (v\<lparr>behind := w\<rparr>)"
| push: "steal_spec e v (Pushed x) v"
| full: "steal_spec e v (Push_full x) v"
| pop_null: "steal_spec e v Pop_null v"

text \<open>The bound of the elements in the deque, and the bound below which a thief may take one.\<close>

fun content_bound :: "ws_deque \<Rightarrow> owner_pc \<Rightarrow> int" where
  "content_bound q (PopTop b) = b + 1"
| "content_bound q (PopRead b t) = b + 1"
| "content_bound q (PopCas b t r) = b + 1"
| "content_bound q (PopFix b) = b + 1"
| "content_bound q pc = dq_bottom q"

fun thief_bound :: "ws_deque \<Rightarrow> owner_pc \<Rightarrow> int" where
  "thief_bound q (PopRead b t) = (if t < b then b else b + 1)"
| "thief_bound q pc = content_bound q pc"

definition content :: "ws_system \<Rightarrow> word64 list" where
  "content s = map (\<lambda>i. elements (deque s) (i mod wsd_size (deque s))) [dq_top (deque s)..content_bound (deque s) (owner s) - 1]"

fun owner_taking :: "owner_pc \<Rightarrow> bool" where
  "owner_taking (PopTop b) = True"
| "owner_taking (PopRead b t) = True"
| "owner_taking (PopCas b t r) = True"
| "owner_taking (PopFix b) = True"
| "owner_taking pc = False"

definition looks_empty :: "ws_system \<Rightarrow> bool" where
  "looks_empty s \<longleftrightarrow> content s = [] \<or> owner_taking (owner s) \<and> length (content s) = 1"

text \<open>The index that a thief is about to take.\<close>

fun steal_index :: "thief_pc \<Rightarrow> int option" where
  "steal_index (StealBottom t) = Some t"
| "steal_index (StealRead t) = Some t"
| "steal_index (StealCas t x) = Some t"
| "steal_index pc = None"

definition steals :: "ws_system \<Rightarrow> steal_view" where
  "steals s =
    \<lparr>attempts = {i. steal_index (thief s i) \<noteq> None},
     behind = {i. \<exists>t. steal_index (thief s i) = Some t \<and> t < dq_top (deque s)},
     failed = {i. thief s i = StealNull}\<rparr>"

fun owner_ok :: "ws_deque \<Rightarrow> owner_pc \<Rightarrow> bool" where
  "owner_ok q OwnerIdle = True"
| "owner_ok q (PushTop e b) = (dq_bottom q = b)"
| "owner_ok q (PushStore e b) = (dq_bottom q = b \<and> b - dq_top q < wsd_size q)"
| "owner_ok q (PushBottom e b) = (dq_bottom q = b \<and> b - dq_top q < wsd_size q \<and> elements q (b mod wsd_size q) = e)"
| "owner_ok q (PopStore b) = (dq_bottom q = b + 1)"
| "owner_ok q (PopTop b) = (dq_bottom q = b)"
| "owner_ok q (PopRead b t) = (dq_bottom q = b \<and> t \<le> b \<and> t \<le> dq_top q \<and> (t < b \<longrightarrow> dq_top q \<le> b))"
| "owner_ok q (PopCas b t r) = (dq_bottom q = b \<and> t = b \<and> t \<le> dq_top q \<and> r = elements q (b mod wsd_size q))"
| "owner_ok q (PopFix b) = (dq_bottom q = b \<and> dq_top q = b + 1)"
| "owner_ok q (DiscardStore b) = (dq_bottom q = b)"

fun thief_ok :: "ws_deque \<Rightarrow> int \<Rightarrow> thief_pc \<Rightarrow> bool" where
  "thief_ok q n (StealBottom t) = (t \<le> dq_top q \<and> 0 \<le> t)"
| "thief_ok q n (StealRead t) = (t \<le> dq_top q \<and> 0 \<le> t \<and> (t = dq_top q \<longrightarrow> t < n))"
| "thief_ok q n (StealCas t x) = (t \<le> dq_top q \<and> 0 \<le> t \<and> (t = dq_top q \<longrightarrow> t < n \<and> x = elements q (t mod wsd_size q)))"
| "thief_ok q n (LookBottom t) = (t \<le> dq_top q)"
| "thief_ok q n pc = True"

definition is_pow2 :: "int \<Rightarrow> bool" where
  "is_pow2 n = (\<exists>k. n = 2 ^ k)"

definition deque_ok :: "ws_deque \<Rightarrow> owner_pc \<Rightarrow> bool" where
  "deque_ok q pc = (0 < wsd_size q \<and> is_pow2 (wsd_size q) \<and> moduloSize q = wsd_size q - 1 \<and> 0 \<le> dq_top q \<and>
     dq_top q \<le> content_bound q pc \<and> content_bound q pc - dq_top q \<le> wsd_size q)"

definition ws_inv :: "ws_system \<Rightarrow> bool" where
  "ws_inv s = (deque_ok (deque s) (owner s) \<and> owner_ok (deque s) (owner s) \<and>
     (\<forall>i. thief_ok (deque s) (thief_bound (deque s) (owner s)) (thief s i)))"

lemma and_modulo: "deque_ok q pc \<Longrightarrow> b AND moduloSize q = b mod wsd_size q"
proof -
  assume "deque_ok q pc"
  then obtain k where k: "wsd_size q = 2 ^ k" "moduloSize q = 2 ^ k - 1" by (auto simp: deque_ok_def is_pow2_def)
  show ?thesis unfolding k by (simp flip: take_bit_eq_mod mask_eq_exp_minus_1 take_bit_eq_mask)
qed

lemma mod_neq:
  fixes i b n :: int
  assumes "i < b" "b - i < n"
  shows "i mod n \<noteq> b mod n"
proof
  assume "i mod n = b mod n"
  then have "n dvd b - i" by (simp add: mod_eq_dvd_iff dvd_diff_commute)
  with assms show False by (simp add: zdvd_not_zless)
qed


lemma content_Cons: "dq_top (deque s) < content_bound (deque s) (owner s) \<Longrightarrow>
    content s = elements (deque s) (dq_top (deque s) mod wsd_size (deque s)) #
      map (\<lambda>i. elements (deque s) (i mod wsd_size (deque s))) [dq_top (deque s) + 1..content_bound (deque s) (owner s) - 1]"
  by (simp add: content_def upto_rec1)

text \<open>The content depends on the fields between the two bounds only.\<close>

lemma content_cong:
  "dq_top (deque s') = dq_top (deque s) \<Longrightarrow> content_bound (deque s') (owner s') = content_bound (deque s) (owner s) \<Longrightarrow>
    wsd_size (deque s') = wsd_size (deque s) \<Longrightarrow> elements (deque s') = elements (deque s) \<Longrightarrow> content s' = content s"
  by (simp add: content_def)

lemma content_snoc:
  assumes "dq_top (deque s) \<le> b" "content_bound (deque s) (owner s) = b + 1"
  shows "content s = map (\<lambda>i. elements (deque s) (i mod wsd_size (deque s))) [dq_top (deque s)..b - 1] @
    [elements (deque s) (b mod wsd_size (deque s))]"
  using assms by (simp add: content_def upto_rec2)

lemma content_empty: "content_bound (deque s) (owner s) \<le> dq_top (deque s) \<Longrightarrow> content s = []"
  by (simp add: content_def)

lemma length_content: "length (content s) = nat (content_bound (deque s) (owner s) - dq_top (deque s))"
  by (simp add: content_def)

section \<open>Every step refines the abstract deque\<close>

lemma ws_invI:
  assumes "deque_ok (deque s) (owner s)" "owner_ok (deque s) (owner s)"
    "\<And>i. thief_ok (deque s) (thief_bound (deque s) (owner s)) (thief s i)"
  shows "ws_inv s"
  using assms by (simp add: ws_inv_def)

text \<open>A thief's knowledge survives when the top, the bound and the element it saw do.\<close>

lemma thief_ok_mono:
  assumes "thief_ok q n pc" "dq_top q \<le> dq_top q'" "wsd_size q' = wsd_size q"
    "dq_top q' = dq_top q \<Longrightarrow> dq_top q < n \<Longrightarrow>
      dq_top q < n' \<and> elements q' (dq_top q mod wsd_size q) = elements q (dq_top q mod wsd_size q)"
  shows "thief_ok q' n' pc"
  using assms by (cases pc) auto

definition good_step :: "ws_system \<Rightarrow> ws_event \<Rightarrow> ws_system \<Rightarrow> bool" where
  "good_step s ev s' \<longleftrightarrow> ws_inv s' \<and> wsd_size (deque s') = wsd_size (deque s) \<and>
     deque_spec (wsd_size (deque s)) (content s) ev (content s')"

lemma owner_step_good:
  assumes inv: "ws_inv s" and s': "s' = s\<lparr>owner := pc, deque := q\<rparr>"
    and d: "deque_ok q pc" and o: "owner_ok q pc"
    and mono: "dq_top (deque s) \<le> dq_top q" "wsd_size q = wsd_size (deque s)"
    "dq_top q = dq_top (deque s) \<Longrightarrow> dq_top q < thief_bound (deque s) (owner s) \<Longrightarrow>
      dq_top q < thief_bound q pc \<and> elements q (dq_top q mod wsd_size q) = elements (deque s) (dq_top q mod wsd_size q)"
    and spec: "deque_spec (wsd_size (deque s)) (content s) ev (content s')"
  shows "good_step s ev s'"
proof -
  have "ws_inv s'"
  proof (rule ws_invI)
    fix i
    have "thief_ok (deque s) (thief_bound (deque s) (owner s)) (thief s i)" using inv by (simp add: ws_inv_def)
    then show "thief_ok (deque s') (thief_bound (deque s') (owner s')) (thief s' i)"
      unfolding s' by (simp) (rule thief_ok_mono, assumption, use mono in auto)
  qed (use d o s' in simp_all)
  with spec mono(2) s' show ?thesis by (simp add: good_step_def)
qed

lemma push_steps_good:
  assumes inv: "ws_inv s"
  shows "owner s = OwnerIdle \<Longrightarrow> good_step s Internal (s\<lparr>owner := push_begin e (deque s)\<rparr>)"
    and "owner s = PushTop e b \<Longrightarrow> push_top e b (deque s) = (pc, ev) \<Longrightarrow> good_step s ev (s\<lparr>owner := pc\<rparr>)"
    and "owner s = PushStore e b \<Longrightarrow> push_store e b (deque s) = (pc, q) \<Longrightarrow>
      good_step s Internal (s\<lparr>owner := pc, deque := q\<rparr>)"
    and "owner s = PushBottom e b \<Longrightarrow>
      good_step s (Pushed e) (s\<lparr>owner := OwnerIdle, deque := push_bottom e b (deque s)\<rparr>)"
proof -
  have D: "deque_ok (deque s) (owner s)" "owner_ok (deque s) (owner s)" using inv by (auto simp: ws_inv_def)
  note am = and_modulo [OF D(1)]
  show "good_step s Internal (s\<lparr>owner := push_begin e (deque s)\<rparr>)" if o: "owner s = OwnerIdle"
    by (rule owner_step_good [OF inv, where q = "deque s"])
      (use D o in \<open>auto simp: push_begin_def deque_ok_def content_def intro: deque_spec.intros\<close>)
  show "good_step s ev (s\<lparr>owner := pc\<rparr>)" if o: "owner s = PushTop e b" "push_top e b (deque s) = (pc, ev)"
  proof -
    have "deque_spec (wsd_size (deque s)) (content s) ev (content (s\<lparr>owner := pc\<rparr>))"
    proof (cases "b - dq_top (deque s) > wsd_size (deque s) - 1")
      case True
      then have "int (length (content s)) = wsd_size (deque s)"
        using D o(1) by (auto simp: length_content deque_ok_def)
      moreover have "content (s\<lparr>owner := pc\<rparr>) = content s" "ev = Push_full e"
        using o True D by (auto simp: push_top_def content_def)
      ultimately show ?thesis by (auto intro: deque_spec.intros)
    next
      case False
      with o D have "content (s\<lparr>owner := pc\<rparr>) = content s" "ev = Internal" by (auto simp: push_top_def content_def)
      then show ?thesis by (auto intro: deque_spec.intros)
    qed
    then show ?thesis
      by (rule owner_step_good [OF inv, where q = "deque s", rotated -1])
        (use D o in \<open>auto simp: push_top_def deque_ok_def split: if_splits\<close>)
  qed
  show "good_step s Internal (s\<lparr>owner := pc, deque := q\<rparr>)" if o: "owner s = PushStore e b" "push_store e b (deque s) = (pc, q)"
  proof -
    let ?n = "wsd_size (deque s)"
    have b: "dq_bottom (deque s) = b" "b - dq_top (deque s) < ?n" using D o by auto
    have q: "q = (deque s)\<lparr>elements := (elements (deque s))(b mod ?n := e)\<rparr>" "pc = PushBottom e b"
      using o am by (auto simp: push_store_def)
    have ne: "i mod ?n \<noteq> b mod ?n" if "dq_top (deque s) \<le> i" "i < b" for i by (rule mod_neq) (use that b in auto)
    have "content (s\<lparr>owner := pc, deque := q\<rparr>) = content s"
      unfolding content_def using ne b o by (auto simp: q)
    then have "deque_spec ?n (content s) Internal (content (s\<lparr>owner := pc, deque := q\<rparr>))" by (auto intro: deque_spec.intros)
    then show ?thesis
      by (rule owner_step_good [OF inv refl, rotated -1])
        (use D o b ne [of "dq_top (deque s)"] in \<open>auto simp: q deque_ok_def\<close>)
  qed
  show "good_step s (Pushed e) (s\<lparr>owner := OwnerIdle, deque := push_bottom e b (deque s)\<rparr>)" (is "good_step s _ ?s'")
    if o: "owner s = PushBottom e b"
  proof -
    have b: "dq_bottom (deque s) = b" "b - dq_top (deque s) < wsd_size (deque s)"
      "elements (deque s) (b mod wsd_size (deque s)) = e" "dq_top (deque s) \<le> b" using D o by (auto simp: deque_ok_def)
    have "content ?s' = content s @ [e]"
      using content_snoc [of ?s' b] b o by (simp add: push_bottom_def) (simp add: content_def)
    moreover have "int (length (content s)) < wsd_size (deque s)" using b o by (simp add: length_content)
    ultimately have "deque_spec (wsd_size (deque s)) (content s) (Pushed e) (content ?s')"
      by (auto intro: deque_spec.intros)
    then show ?thesis
      by (rule owner_step_good [OF inv refl, rotated -1]) (use D o b in \<open>auto simp: push_bottom_def deque_ok_def\<close>)
  qed
qed


lemma pop_steps_good:
  assumes inv: "ws_inv s"
  shows "owner s = OwnerIdle \<Longrightarrow> good_step s Internal (s\<lparr>owner := pop_begin (deque s)\<rparr>)"
    and "owner s = PopStore b \<Longrightarrow> pop_store b (deque s) = (pc, q) \<Longrightarrow> good_step s Internal (s\<lparr>owner := pc, deque := q\<rparr>)"
    and "owner s = PopTop b \<Longrightarrow> pop_top b (deque s) = (pc, ev) \<Longrightarrow> good_step s ev (s\<lparr>owner := pc\<rparr>)"
    and "owner s = PopRead b t \<Longrightarrow> pop_read b t (deque s) = (pc, ev) \<Longrightarrow> good_step s ev (s\<lparr>owner := pc\<rparr>)"
    and "owner s = PopCas b t r \<Longrightarrow> pop_cas b t r (deque s) = (pc, ev, q) \<Longrightarrow> good_step s ev (s\<lparr>owner := pc, deque := q\<rparr>)"
    and "owner s = PopFix b \<Longrightarrow> good_step s Internal (s\<lparr>owner := OwnerIdle, deque := pop_fix b (deque s)\<rparr>)"
proof -
  let ?t = "dq_top (deque s)" and ?n = "wsd_size (deque s)"
  have D: "deque_ok (deque s) (owner s)" "owner_ok (deque s) (owner s)" using inv by (auto simp: ws_inv_def)
  note am = and_modulo [OF D(1)]
  show "good_step s Internal (s\<lparr>owner := pop_begin (deque s)\<rparr>)" if o: "owner s = OwnerIdle"
    by (rule owner_step_good [OF inv, where q = "deque s"])
      (use D o in \<open>auto simp: pop_begin_def deque_ok_def content_def intro: deque_spec.intros\<close>)
  show "good_step s Internal (s\<lparr>owner := pc, deque := q\<rparr>)" if o: "owner s = PopStore b" "pop_store b (deque s) = (pc, q)"
    by (rule owner_step_good [OF inv refl])
      (use D o in \<open>auto simp: pop_store_def deque_ok_def content_def intro: deque_spec.intros\<close>)
  show "good_step s ev (s\<lparr>owner := pc\<rparr>)" if o: "owner s = PopTop b" "pop_top b (deque s) = (pc, ev)"
  proof (cases "?t \<le> b")
    case True
    with o have "pc = PopRead b ?t" "ev = Internal" by (auto simp: pop_top_def)
    then show ?thesis
      by (intro owner_step_good [OF inv, where q = "deque s" and pc = pc])
        (use D o True in \<open>auto simp: deque_ok_def content_def intro: deque_spec.intros\<close>)
  next
    case False
    with o have e: "pc = PopFix b" "ev = Pop_null" by (auto simp: pop_top_def)
    have "content s = []" "content (s\<lparr>owner := pc\<rparr>) = []" using False o e by (auto intro!: content_empty)
    with e show ?thesis
      by (intro owner_step_good [OF inv, where q = "deque s" and pc = pc])
        (use D o False in \<open>auto simp: deque_ok_def intro: deque_spec.intros\<close>)
  qed
  show "good_step s ev (s\<lparr>owner := pc\<rparr>)" if o: "owner s = PopRead b t" "pop_read b t (deque s) = (pc, ev)"
  proof (cases "t = b")
    case True
    with o am have "pc = PopCas b t (elements (deque s) (b mod ?n))" "ev = Internal" by (auto simp: pop_read_def)
    then show ?thesis
      by (intro owner_step_good [OF inv, where q = "deque s" and pc = pc])
        (use D o True in \<open>auto simp: deque_ok_def content_def intro: deque_spec.intros\<close>)
  next
    case False
    with o am have e: "pc = OwnerIdle" "ev = Popped (elements (deque s) (b mod ?n))" by (auto simp: pop_read_def)
    have b: "t < b" "?t \<le> b" "dq_bottom (deque s) = b" using D o False by auto
    have "content s = content (s\<lparr>owner := pc\<rparr>) @ [elements (deque s) (b mod ?n)]"
      using content_snoc [of s b] b o e by (simp add: content_def)
    then have "deque_spec ?n (content s) ev (content (s\<lparr>owner := pc\<rparr>))" unfolding e by (metis deque_spec.intros(4))
    then show ?thesis
      by (rule owner_step_good [OF inv, where q = "deque s", rotated -1])
        (use D o b in \<open>auto simp: e deque_ok_def\<close>)
  qed
  show "good_step s ev (s\<lparr>owner := pc, deque := q\<rparr>)" if o: "owner s = PopCas b t r" "pop_cas b t r (deque s) = (pc, ev, q)"
  proof (cases "?t = t")
    case True
    with o have e: "pc = PopFix b" "ev = Popped r" "q = (deque s)\<lparr>dq_top := b + 1\<rparr>"
      using D by (auto simp: pop_cas_def cas_top_def)
    have b: "t = b" "dq_bottom (deque s) = b" "r = elements (deque s) (b mod ?n)" using D o by auto
    have "content s = [] @ [r]" using content_snoc [of s b] b o True by simp
    moreover have "content (s\<lparr>owner := pc, deque := q\<rparr>) = []" by (rule content_empty) (simp add: e)
    ultimately have "deque_spec ?n (content s) ev (content (s\<lparr>owner := pc, deque := q\<rparr>))"
      unfolding e by (metis deque_spec.intros(4))
    then show ?thesis
      by (rule owner_step_good [OF inv refl, rotated -1]) (use D o b True in \<open>auto simp: e deque_ok_def\<close>)
  next
    case False
    with o have e: "pc = PopFix b" "ev = Pop_null" "q = deque s" by (auto simp: pop_cas_def cas_top_def)
    have b: "?t = b + 1" "dq_bottom (deque s) = b" using D o False by (auto simp: deque_ok_def)
    have "content s = []" "content (s\<lparr>owner := pc, deque := q\<rparr>) = []" using b o e by (auto intro!: content_empty)
    then show ?thesis
      by (intro owner_step_good [OF inv refl])
        (use D o b e in \<open>auto simp: deque_ok_def intro: deque_spec.intros\<close>)
  qed
  show "good_step s Internal (s\<lparr>owner := OwnerIdle, deque := pop_fix b (deque s)\<rparr>)" if o: "owner s = PopFix b"
    by (rule owner_step_good [OF inv refl])
      (use D o in \<open>auto simp: pop_fix_def deque_ok_def content_def intro: deque_spec.intros\<close>)
qed

lemma discard_steps_good:
  assumes inv: "ws_inv s"
  shows "owner s = OwnerIdle \<Longrightarrow> good_step s Internal (s\<lparr>owner := discard_begin (deque s)\<rparr>)"
    and "owner s = DiscardStore b \<Longrightarrow>
      good_step s Discarded (s\<lparr>owner := OwnerIdle, deque := discard_store b (deque s)\<rparr>)"
proof -
  have D: "deque_ok (deque s) (owner s)" "owner_ok (deque s) (owner s)" using inv by (auto simp: ws_inv_def)
  show "good_step s Internal (s\<lparr>owner := discard_begin (deque s)\<rparr>)" if o: "owner s = OwnerIdle"
    by (rule owner_step_good [OF inv, where q = "deque s"])
      (use D o in \<open>auto simp: discard_begin_def deque_ok_def content_def intro: deque_spec.intros\<close>)
  show "good_step s Discarded (s\<lparr>owner := OwnerIdle, deque := discard_store b (deque s)\<rparr>)" if o: "owner s = DiscardStore b"
    by (rule owner_step_good [OF inv refl])
      (use D o in \<open>auto simp: discard_store_def deque_ok_def content_def intro: deque_spec.intros\<close>)
qed

lemma thief_step_good:
  assumes inv: "ws_inv s" and s': "s' = s\<lparr>thief := (thief s)(i := pc)\<rparr>"
    and ok: "thief_ok (deque s) (thief_bound (deque s) (owner s)) pc"
    and ev: "\<And>Q. deque_spec (wsd_size (deque s)) Q ev Q"
  shows "good_step s ev s'"
proof -
  have "ws_inv s'" by (rule ws_invI) (use inv ok s' in \<open>auto simp: ws_inv_def\<close>)
  moreover have "content s' = content s" by (rule content_cong) (simp_all add: s')
  ultimately show ?thesis using ev s' by (simp add: good_step_def)
qed

lemma bottom_le_thief_bound: "owner_ok q pc \<Longrightarrow> dq_bottom q \<le> thief_bound q pc"
  by (cases pc) auto

lemma thief_le_content_bound: "thief_bound q pc \<le> content_bound q pc"
  by (cases pc) auto

lemma thief_steps_good:
  assumes inv: "ws_inv s"
  shows "good_step s Internal (s\<lparr>thief := (thief s)(i := steal_top (deque s))\<rparr>)"
    and "thief s i = StealBottom t \<Longrightarrow> good_step s Internal (s\<lparr>thief := (thief s)(i := steal_bottom t (deque s))\<rparr>)"
    and "thief s i = StealRead t \<Longrightarrow> good_step s Internal (s\<lparr>thief := (thief s)(i := steal_read t (deque s))\<rparr>)"
    and "good_step s (Steal_null i) (s\<lparr>thief := (thief s)(i := ThiefIdle)\<rparr>)"
    and "good_step s Internal (s\<lparr>thief := (thief s)(i := look_top (deque s))\<rparr>)"
    and "look_bottom i t (deque s) = (pc, ev) \<Longrightarrow> good_step s ev (s\<lparr>thief := (thief s)(i := pc)\<rparr>)"
proof -
  have D: "deque_ok (deque s) (owner s)" "owner_ok (deque s) (owner s)" using inv by (auto simp: ws_inv_def)
  have th: "thief_ok (deque s) (thief_bound (deque s) (owner s)) (thief s i)" using inv by (simp add: ws_inv_def)
  note nn = bottom_le_thief_bound [OF D(2)]
  show "good_step s Internal (s\<lparr>thief := (thief s)(i := steal_top (deque s))\<rparr>)"
    by (rule thief_step_good [OF inv refl]) (use D in \<open>auto simp: steal_top_def deque_ok_def intro: deque_spec.intros\<close>)
  show "good_step s Internal (s\<lparr>thief := (thief s)(i := steal_bottom t (deque s))\<rparr>)" if "thief s i = StealBottom t"
    by (rule thief_step_good [OF inv refl]) (use th that nn in \<open>auto simp: steal_bottom_def intro: deque_spec.intros\<close>)
  show "good_step s Internal (s\<lparr>thief := (thief s)(i := steal_read t (deque s))\<rparr>)" if "thief s i = StealRead t"
  proof (rule thief_step_good [OF inv refl])
    have "0 \<le> t" "0 < wsd_size (deque s)" using th that D by (auto simp: deque_ok_def)
    then have "t smod wsd_size (deque s) = t mod wsd_size (deque s)"
      by (cases "t = 0") (auto simp: smod_int_alt_def)
    then show "thief_ok (deque s) (thief_bound (deque s) (owner s)) (steal_read t (deque s))"
      using th that by (auto simp: steal_read_def)
  qed (auto intro: deque_spec.intros)
  show "good_step s (Steal_null i) (s\<lparr>thief := (thief s)(i := ThiefIdle)\<rparr>)"
    by (rule thief_step_good [OF inv refl]) (auto intro: deque_spec.intros)
  show "good_step s Internal (s\<lparr>thief := (thief s)(i := look_top (deque s))\<rparr>)"
    by (rule thief_step_good [OF inv refl]) (auto simp: look_top_def intro: deque_spec.intros)
  show "good_step s ev (s\<lparr>thief := (thief s)(i := pc)\<rparr>)" if "look_bottom i t (deque s) = (pc, ev)"
    by (rule thief_step_good [OF inv refl])
      (use that in \<open>auto simp: look_bottom_def Let_def intro: deque_spec.intros split: if_splits\<close>)
qed

lemma steal_cas_good:
  assumes inv: "ws_inv s" and t: "thief s i = StealCas t x" "steal_cas i t x (deque s) = (pc, ev, q)"
  shows "good_step s ev (s\<lparr>thief := (thief s)(i := pc), deque := q\<rparr>)" (is "good_step s ev ?s'")
proof -
  let ?n = "wsd_size (deque s)" and ?t = "dq_top (deque s)"
  have D: "deque_ok (deque s) (owner s)" "owner_ok (deque s) (owner s)" using inv by (auto simp: ws_inv_def)
  have th: "thief_ok (deque s) (thief_bound (deque s) (owner s)) (StealCas t x)" using inv t(1) unfolding ws_inv_def by metis
  show ?thesis
  proof (cases "?t = t")
    case True
    with t(2) have e: "q = (deque s)\<lparr>dq_top := t + 1\<rparr>" "ev = Stolen i x" "pc = (if x = 0 then StealNull else ThiefIdle)"
      by (auto simp: steal_cas_def cas_top_def)
    have x: "t < thief_bound (deque s) (owner s)" "x = elements (deque s) (t mod ?n)" using th True by auto
    then have lt: "t < content_bound (deque s) (owner s)" using thief_le_content_bound [of "deque s" "owner s"] by linarith
    have tb: "thief_bound q (owner s) = thief_bound (deque s) (owner s)" "content_bound q (owner s) = content_bound (deque s) (owner s)"
      by (cases "owner s"; simp add: e)+
    have "content s = x # content ?s'"
      using content_Cons [of s] lt True x tb by (simp add: content_def e)
    then have "deque_spec ?n (content s) ev (content ?s')" using e(2) by (auto intro: deque_spec.intros)
    moreover have "ws_inv ?s'"
    proof (rule ws_invI)
      show "deque_ok (deque ?s') (owner ?s')" using D lt tb by (auto simp: deque_ok_def e True)
      show "owner_ok (deque ?s') (owner ?s')" using D x True by (cases "owner s") (auto simp: e split: if_splits)
      fix j
      have "thief_ok (deque s) (thief_bound (deque s) (owner s)) (thief s j)" using inv by (simp add: ws_inv_def)
      then have "thief_ok q (thief_bound q (owner s)) (thief s j)"
        by (rule thief_ok_mono) (use True in \<open>auto simp: e\<close>)
      then show "thief_ok (deque ?s') (thief_bound (deque ?s') (owner ?s')) (thief ?s' j)" using e(3) by simp
    qed
    ultimately show ?thesis by (simp add: good_step_def e)
  next
    case False
    with t(2) have e: "q = deque s" "ev = Steal_lost i" "pc = StealNull" by (auto simp: steal_cas_def cas_top_def)
    have "good_step s ev (s\<lparr>thief := (thief s)(i := pc)\<rparr>)"
      by (rule thief_step_good [OF inv refl]) (auto simp: e intro: deque_spec.intros)
    then show ?thesis by (simp add: e)
  qed
qed

lemma ws_step_good: "ws_step s ev s' \<Longrightarrow> ws_inv s \<Longrightarrow> good_step s ev s'"
  by (induction rule: ws_step.induct)
    (simp_all add: push_steps_good pop_steps_good discard_steps_good thief_steps_good steal_cas_good)


section \<open>When a steal fails\<close>

lemma steals_owner:
  "steals (s\<lparr>owner := pc\<rparr>) = steals s"
  "dq_top q = dq_top (deque s) \<Longrightarrow> steals (s\<lparr>owner := pc, deque := q\<rparr>) = steals s"
  by (simp_all add: steals_def)

lemma attempts_le_top:
  assumes "ws_inv s" "steal_index (thief s i) = Some t"
  shows "t \<le> dq_top (deque s)"
proof -
  have "thief_ok (deque s) (thief_bound (deque s) (owner s)) (thief s i)" using assms(1) by (simp add: ws_inv_def)
  then show ?thesis using assms(2) by (cases "thief s i") auto
qed

text \<open>Moving the top up leaves every thief in an attempt behind.\<close>

lemma steals_top:
  assumes "ws_inv s" "thief s' = thief s" "dq_top (deque s) < dq_top (deque s')"
  shows "steals s' = (steals s)\<lparr>behind := attempts (steals s)\<rparr>"
proof -
  have "(\<exists>t. steal_index (thief s i) = Some t \<and> t < dq_top (deque s')) \<longleftrightarrow> steal_index (thief s i) \<noteq> None" for i
    using attempts_le_top [OF assms(1), of i] assms(3) by fastforce
  then show ?thesis by (simp add: steals_def assms(2))
qed

lemma empty_seen:
  assumes "ws_inv s" "dq_bottom (deque s) \<le> dq_top (deque s)"
  shows "looks_empty s"
proof -
  have "content_bound (deque s) (owner s) = (if owner_taking (owner s) then dq_bottom (deque s) + 1 else dq_bottom (deque s))"
    using assms(1) by (cases "owner s") (auto simp: ws_inv_def)
  moreover have "length (content s) = nat (content_bound (deque s) (owner s) - dq_top (deque s))" by (rule length_content)
  ultimately have "length (content s) = 0 \<or> owner_taking (owner s) \<and> length (content s) = 1" using assms(2) by (auto split: if_splits)
  then show ?thesis by (auto simp: looks_empty_def)
qed

lemma ws_step_steals:
  assumes "ws_step s ev s'" "ws_inv s"
  shows "steal_spec (looks_empty s) (steals s) ev (steals s')"
  using assms
proof (induction rule: ws_step.induct)
  case (step_push_top s e b pc ev)
  then show ?case by (auto simp: steals_owner push_top_def Let_def split: if_splits intro: steal_spec.intros)
next
  case (step_pop_top s b pc ev)
  then show ?case by (auto simp: steals_owner pop_top_def Let_def split: if_splits intro: steal_spec.intros)
next
  case (step_pop_read s b t pc ev)
  then show ?case by (auto simp: steals_owner pop_read_def Let_def split: if_splits intro: steal_spec.intros)
next
  case (step_pop_cas s b t r pc ev q)
  show ?case
  proof (cases "dq_top (deque s) = t")
    case True
    then have "ev = Popped r" "dq_top q = t + 1" using step_pop_cas.hyps(2) by (auto simp: pop_cas_def cas_top_def)
    moreover have "steals (s\<lparr>owner := pc, deque := q\<rparr>) = (steals s)\<lparr>behind := attempts (steals s)\<rparr>"
      by (rule steals_top [OF step_pop_cas.prems]) (use calculation True in simp_all)
    ultimately show ?thesis by (auto intro: steal_spec.pop_last)
  next
    case False
    then have "ev = Pop_null" "q = deque s" using step_pop_cas.hyps(2) by (auto simp: pop_cas_def cas_top_def)
    then show ?thesis by (simp add: steals_owner steal_spec.pop_null)
  qed
next
  case (step_discard_store s b)
  have le: "dq_top (deque s) \<le> b" using step_discard_store by (auto simp: ws_inv_def deque_ok_def)
  let ?s = "s\<lparr>owner := OwnerIdle, deque := discard_store b (deque s)\<rparr>"
  have "steals ?s = (steals s)\<lparr>behind := behind (steals s)\<rparr> \<or> steals ?s = (steals s)\<lparr>behind := attempts (steals s)\<rparr>"
  proof (cases "dq_top (deque s) = b")
    case True
    then have "steals ?s = steals s" by (intro steals_owner(2)) (simp add: discard_store_def)
    then show ?thesis by simp
  next
    case False
    then show ?thesis using le by (intro disjI2 steals_top [OF step_discard_store.prems]) (simp_all add: discard_store_def)
  qed
  then show ?case
    using steal_spec.discard [of "behind (steals s)" "steals s" "looks_empty s"] steal_spec.discard [of "attempts (steals s)" "steals s" "looks_empty s"]
    by (elim disjE) simp_all
next
  case (step_steal_top s i)
  let ?s = "s\<lparr>thief := (thief s)(i := steal_top (deque s))\<rparr>"
  have "steals ?s = (steals s)\<lparr>attempts := insert i (attempts (steals s))\<rparr>" "i \<notin> attempts (steals s)" "i \<notin> behind (steals s)"
    using step_steal_top by (auto simp: steals_def steal_top_def)
  then show ?case using steal_spec.attempt by metis
next
  case (step_steal_bottom s i t)
  have t: "t \<le> dq_top (deque s)" using attempts_le_top [OF step_steal_bottom.prems, of i] step_steal_bottom.hyps by simp
  show ?case
  proof (cases "t < dq_bottom (deque s)")
    case True
    then have "steals (s\<lparr>thief := (thief s)(i := steal_bottom t (deque s))\<rparr>) = steals s"
      using step_steal_bottom.hyps by (auto simp: steals_def steal_bottom_def)
    then show ?thesis using steal_spec.quiet by metis
  next
    case False
    then have "looks_empty s" using empty_seen [OF step_steal_bottom.prems] t by simp
    moreover have "steals (s\<lparr>thief := (thief s)(i := steal_bottom t (deque s))\<rparr>) = give_up i (steals s)" "i \<in> attempts (steals s)"
      using step_steal_bottom.hyps False by (auto simp: steals_def give_up_def steal_bottom_def)
    ultimately show ?thesis using steal_spec.nothing by metis
  qed
next
  case (step_steal_read s i t)
  then have "steals (s\<lparr>thief := (thief s)(i := steal_read t (deque s))\<rparr>) = steals s" by (auto simp: steals_def steal_read_def)
  then show ?case using steal_spec.quiet by metis
next
  case (step_steal_cas s i t x pc ev q)
  show ?case
  proof (cases "dq_top (deque s) = t")
    case True
    then have e: "ev = Stolen i x" "q = (deque s)\<lparr>dq_top := t + 1\<rparr>" "pc = (if x = 0 then StealNull else ThiefIdle)"
      using step_steal_cas.hyps(2) by (auto simp: steal_cas_def cas_top_def)
    have "(\<exists>u. steal_index (thief s j) = Some u \<and> u < t + 1) \<longleftrightarrow> steal_index (thief s j) \<noteq> None" for j
      using attempts_le_top [OF step_steal_cas.prems, of j] True by fastforce
    then have "steals (s\<lparr>thief := (thief s)(i := pc), deque := q\<rparr>) =
        (steals s)\<lparr>attempts := attempts (steals s) - {i}, behind := attempts (steals s) - {i}, failed := failed (steals s) \<union> (if x = 0 then {i} else {})\<rparr>"
      using step_steal_cas.hyps(1) e(3) by (auto simp: steals_def e(2))
    moreover have "i \<in> attempts (steals s)" using step_steal_cas.hyps(1) by (simp add: steals_def)
    ultimately show ?thesis unfolding e(1) using steal_spec.stolen by metis
  next
    case False
    then have e: "ev = Steal_lost i" "q = deque s" "pc = StealNull" using step_steal_cas.hyps(2) by (auto simp: steal_cas_def cas_top_def)
    have "t < dq_top (deque s)" using attempts_le_top [OF step_steal_cas.prems, of i] step_steal_cas.hyps(1) False by simp
    then have "i \<in> behind (steals s)" using step_steal_cas.hyps(1) by (simp add: steals_def)
    moreover have "steals (s\<lparr>thief := (thief s)(i := pc), deque := q\<rparr>) = give_up i (steals s)"
      using step_steal_cas.hyps(1) e by (auto simp: steals_def give_up_def)
    ultimately show ?thesis unfolding e(1) using steal_spec.lost by metis
  qed
next
  case (step_steal_return s i)
  then have "i \<in> failed (steals s)" "steals (s\<lparr>thief := (thief s)(i := ThiefIdle)\<rparr>) = (steals s)\<lparr>failed := failed (steals s) - {i}\<rparr>"
    by (auto simp: steals_def)
  then show ?case using steal_spec.null by metis
next
  case (step_look_top s i)
  then have "i \<in> failed (steals s)" "steals (s\<lparr>thief := (thief s)(i := look_top (deque s))\<rparr>) = (steals s)\<lparr>failed := failed (steals s) - {i}\<rparr>"
    by (auto simp: steals_def look_top_def)
  then show ?case using steal_spec.look by metis
next
  case (step_look_bottom s i t pc ev)
  have "thief_ok (deque s) (thief_bound (deque s) (owner s)) (thief s i)" using step_look_bottom.prems by (simp add: ws_inv_def)
  then have t: "t \<le> dq_top (deque s)" using step_look_bottom.hyps(1) by simp
  have st: "steals (s\<lparr>thief := (thief s)(i := pc)\<rparr>) = steals s" "failed (steals s) - {i} = failed (steals s)"
    using step_look_bottom.hyps by (auto simp: steals_def look_bottom_def Let_def split: if_splits)
  show ?case
  proof (cases "dq_bottom (deque s) \<le> t")
    case True
    then have "ev = Steal_null i" "looks_empty s" using step_look_bottom.hyps(2) empty_seen [OF step_look_bottom.prems] t
      by (auto simp: look_bottom_def Let_def)
    then show ?thesis using steal_spec.null [of i "steals s" "looks_empty s"] st by simp
  next
    case False
    then have "ev = Internal" using step_look_bottom.hyps(2) by (auto simp: look_bottom_def Let_def)
    then show ?thesis unfolding st(1) by (simp add: steal_spec.quiet)
  qed
qed (auto simp: steals_owner push_store_def push_bottom_def pop_store_def pop_fix_def intro: steal_spec.intros)

section \<open>Properties\<close>

text \<open>C16 Every access of every thread, in any interleaving, keeps the invariant and is a step of the abstract deque: a push appends its element, a
  pop takes the last element and a steal the first one, and all other accesses leave the content unchanged. A push fails only when the
  deque is full and a pop only when it is empty. An attempt to steal fails only when the deque is empty or holds but the element that the owner
  is about to take, or when since it began another thread has taken an element (or the owner has discarded all); and a thief goes away with nothing
  only after a failed attempt or when the deque is seen so, or when the element was a null pointer.\<close>

theorem deque_steps_refine:
  assumes "ws_inv s" "ws_step s ev s'"
  shows "ws_inv s' \<and> deque_spec (wsd_size (deque s)) (content s) ev (content s') \<and>
    steal_spec (looks_empty s) (steals s) ev (steals s')"
  using ws_step_good [OF assms(2,1)] ws_step_steals [OF assms(2,1)] by (simp add: good_step_def)

theorem deque_steps_refine_witness:
  "\<exists>s s'. ws_inv s \<and> ws_step s Internal s' \<and> owner s' = PopStore (- 1) \<and> content s' = []"
proof -
  let ?s = "ws_init \<lparr>wsd_size = 1, moduloSize = 0, dq_top = 0, dq_bottom = 0, elements = (\<lambda>_. 0)\<rparr>"
  let ?s' = "?s\<lparr>owner := PopStore (- 1)\<rparr>"
  have inv: "ws_inv ?s" by (auto simp: ws_inv_def ws_init_def deque_ok_def is_pow2_def intro!: exI [of _ 0])
  have st: "ws_step ?s Internal ?s'"
    using step_pop_begin [of ?s] by (simp add: ws_init_def pop_begin_def)
  have "deque_spec 1 (content ?s) Internal (content ?s')"
    using deque_steps_refine [OF inv st] by (simp add: ws_init_def)
  moreover have "content ?s = []" by (simp add: content_def ws_init_def)
  ultimately have "content ?s' = []" by (auto elim: deque_spec.cases)
  then show ?thesis using inv st by fastforce
qed

lemma roundUp2_loop_pow2:
  "2 ^ k \<le> unat val \<Longrightarrow> unat val < 2 ^ Suc k \<Longrightarrow> roundUp2_loop r val = push_bit (Suc k) r"
proof (induction k arbitrary: r val)
  case 0
  then have "unat val = 1" by simp
  then have "val = 1" by (metis unat_1 unsigned_word_eqI)
  then show ?case by (subst roundUp2_loop.simps) simp
next
  case (Suc k)
  have d: "unat (drop_bit 1 val) = unat val div 2" unfolding unat_drop_bit_eq by (simp add: drop_bit_eq_div)
  then have "2 ^ k \<le> unat (drop_bit 1 val)" "unat (drop_bit 1 val) < 2 ^ Suc k" using Suc.prems by auto
  moreover from this have "drop_bit 1 val \<noteq> 0" by (metis less_le_not_le unat_0 zero_less_numeral zero_less_power)
  moreover note Suc.IH [of "drop_bit 1 val" "push_bit 1 r"]
  ultimately show ?case by (subst roundUp2_loop.simps) (simp add: Let_def)
qed

lemma roundUp2_32:
  assumes "sz \<noteq> (0 :: word32)"
  obtains k w where "roundUp2 (ucast sz) = Some w" "uint w = 2 ^ k" "k \<le> 32" "uint sz < 2 ^ k" "2 ^ k \<le> 2 * uint sz"
proof -
  have n0: "0 < unat sz" using assms by (simp add: unat_gt_0)
  define j where "j = (LEAST j. unat sz < 2 ^ Suc j)"
  have ex: "unat sz < 2 ^ Suc 31" using unsigned_less [of sz] by simp
  then have j: "unat sz < 2 ^ Suc j" "j \<le> 31" unfolding j_def by (rule LeastI, rule Least_le)
  have ge: "2 ^ j \<le> unat sz"
  proof (cases j)
    case (Suc i)
    then have "\<not> unat sz < 2 ^ Suc i" unfolding j_def by (intro not_less_Least) simp
    then show ?thesis using Suc by simp
  qed (use n0 in simp)
  have u: "unat (ucast sz :: word64) = unat sz" by transfer simp
  have r: "roundUp2 (ucast sz) = Some (push_bit (Suc j) 1)"
    using roundUp2_loop_pow2 [of j "ucast sz" 1] j(1) ge u n0 by (auto simp: roundUp2_def)
  have "uint (push_bit (Suc j) 1 :: word64) = 2 ^ Suc j"
  proof -
    have "(2 :: int) ^ Suc j < 2 ^ 64" using j(2) by (intro power_strict_increasing) auto
    then have "take_bit 64 ((2 :: int) ^ Suc j) = 2 ^ Suc j" by (intro take_bit_int_eq_self) simp_all
    moreover have "uint (push_bit (Suc j) 1 :: word64) = take_bit 64 (2 ^ Suc j)"
      unfolding unsigned_push_bit_eq by (simp add: push_bit_eq_mult)
    ultimately show ?thesis by simp
  qed
  moreover have "int (unat sz) < int (2 ^ Suc j)" "int (2 ^ j) \<le> int (unat sz)"
    using j(1) ge unfolding of_nat_less_iff of_nat_le_iff by blast+
  then have "uint sz < 2 ^ Suc j" "2 ^ Suc j \<le> 2 * uint sz" by simp_all
  ultimately show thesis by (intro that [OF r, of "Suc j"]) (use j(2) in auto)
qed


text \<open>What a run pushes, and what it takes by pops and by steals.\<close>

fun pushed_of :: "ws_event list \<Rightarrow> word64 multiset" where
  "pushed_of [] = {#}"
| "pushed_of (Pushed e # evs) = add_mset e (pushed_of evs)"
| "pushed_of (ev # evs) = pushed_of evs"

fun taken_of :: "ws_event list \<Rightarrow> word64 multiset" where
  "taken_of [] = {#}"
| "taken_of (Popped r # evs) = add_mset r (taken_of evs)"
| "taken_of (Stolen i x # evs) = add_mset x (taken_of evs)"
| "taken_of (ev # evs) = taken_of evs"

lemma pushed_of_append [simp]: "pushed_of (evs @ evs') = pushed_of evs + pushed_of evs'"
  by (induction evs rule: pushed_of.induct) auto

lemma taken_of_append [simp]: "taken_of (evs @ evs') = taken_of evs + taken_of evs'"
  by (induction evs rule: taken_of.induct) auto

lemma ws_run_inv:
  "ws_run s evs s' \<Longrightarrow> ws_inv s \<Longrightarrow> content s = [] \<Longrightarrow> ws_inv s' \<and> wsd_size (deque s') = wsd_size (deque s) \<and>
    taken_of evs + mset (content s') \<subseteq># pushed_of evs \<and>
    (Discarded \<notin> set evs \<longrightarrow> taken_of evs + mset (content s') = pushed_of evs)"
proof (induction rule: ws_run.induct)
  case (ws_run_step s evs s' ev s'')
  then have g: "good_step s' ev s''" and ih: "taken_of evs + mset (content s') \<subseteq># pushed_of evs"
    "Discarded \<notin> set evs \<longrightarrow> taken_of evs + mset (content s') = pushed_of evs" "wsd_size (deque s') = wsd_size (deque s)"
    using ws_step_good by auto
  from g have "deque_spec (wsd_size (deque s')) (content s') ev (content s'')" by (simp add: good_step_def)
  then have "taken_of [ev] + mset (content s'') \<subseteq># pushed_of [ev] + mset (content s') \<and>
    (ev \<noteq> Discarded \<longrightarrow> taken_of [ev] + mset (content s'') = pushed_of [ev] + mset (content s'))"
    by cases auto
  then have st: "taken_of [ev] + mset (content s'') \<subseteq># pushed_of [ev] + mset (content s')"
    "ev \<noteq> Discarded \<Longrightarrow> taken_of [ev] + mset (content s'') = pushed_of [ev] + mset (content s')" by blast+
  have "taken_of (evs @ [ev]) + mset (content s'') = taken_of evs + (taken_of [ev] + mset (content s''))"
    by (simp add: union_assoc)
  also have "\<dots> \<subseteq># taken_of evs + (pushed_of [ev] + mset (content s'))"
    by (rule subset_mset.add_left_mono [OF st(1)])
  also have "\<dots> = pushed_of [ev] + (taken_of evs + mset (content s'))" by (simp add: ac_simps)
  also have "\<dots> \<subseteq># pushed_of [ev] + pushed_of evs" by (rule subset_mset.add_left_mono [OF ih(1)])
  also have "\<dots> = pushed_of (evs @ [ev])" by (simp add: ac_simps)
  finally have "taken_of (evs @ [ev]) + mset (content s'') \<subseteq># pushed_of (evs @ [ev])" .
  moreover have "taken_of (evs @ [ev]) + mset (content s'') = pushed_of (evs @ [ev])" if "Discarded \<notin> set (evs @ [ev])"
  proof -
    have "taken_of (evs @ [ev]) + mset (content s'') = taken_of evs + (pushed_of [ev] + mset (content s'))"
      using st(2) that by (auto simp: union_assoc)
    also have "\<dots> = (taken_of evs + mset (content s')) + pushed_of [ev]" by (simp only: ac_simps)
    also have "\<dots> = pushed_of (evs @ [ev])" using ih(2) that by (simp add: ac_simps)
    finally show ?thesis .
  qed
  ultimately show ?case using ih(3) g unfolding good_step_def by metis
qed simp

lemma new_inv:
  assumes "newWSDeque sz garbage = Some q"
  shows "ws_inv (ws_init q)" "content (ws_init q) = []" "uint sz < wsd_size q"
proof -
  from assms have n0: "sz \<noteq> 0" by (auto simp: newWSDeque_def roundUp2_def)
  obtain k w where kw: "roundUp2 (ucast sz) = Some w" "uint w = 2 ^ k" "k \<le> 32" "uint sz < 2 ^ k" "2 ^ k \<le> 2 * uint sz"
    using roundUp2_32 [OF n0] by metis
  have "w \<noteq> 0" using kw(2) by auto
  then have m: "uint (w - 1) = 2 ^ k - 1" 
  proof -
    have "unat (w - 1) = unat w - 1" using \<open>w \<noteq> 0\<close> by (rule unat_minus_one)
    moreover have "0 < unat w" using \<open>w \<noteq> 0\<close> by (simp add: unat_gt_0)
    ultimately have "int (unat (w - 1)) = int (unat w) - 1" by simp
    then show ?thesis using kw(2) by simp
  qed
  have "(2 :: int) ^ k \<le> 2 ^ 32" using kw(3) by (intro power_increasing) auto
  then have "signed_take_bit 63 ((2 :: int) ^ k) = 2 ^ k" 
    by (intro signed_take_bit_int_eq_self) (rule order_trans [of _ 0], simp, simp, rule le_less_trans, assumption, simp)
  then have s: "sint w = 2 ^ k" using kw(2) by (simp add: sint_uint)
  from assms kw have q: "q = \<lparr>wsd_size = 2 ^ k, moduloSize = 2 ^ k - 1, dq_top = 0, dq_bottom = 0, elements = garbage\<rparr>"
    by (simp add: newWSDeque_def m s)
  show "ws_inv (ws_init q)" "content (ws_init q) = []" "uint sz < wsd_size q"
    using kw(4) by (auto simp: ws_inv_def ws_init_def q deque_ok_def is_pow2_def content_def)
qed


text \<open>C20 No element is lost or taken twice: in every run from a new deque, with any number of thieves and any
  interleaving, the elements pushed are, counted with multiplicity, those popped, those stolen and those still in
  the deque; elements disappear only when the owner discards them. A deque for \<open>n\<close> elements has a
  power of two above \<open>n\<close> as size, and is never overfull.\<close>

theorem deque_conserves_elements:
  assumes "newWSDeque sz garbage = Some q" "ws_run (ws_init q) evs s"
  shows "taken_of evs + mset (content s) \<subseteq># pushed_of evs \<and>
    (Discarded \<notin> set evs \<longrightarrow> taken_of evs + mset (content s) = pushed_of evs) \<and>
    int (length (content s)) \<le> wsd_size (deque s) \<and> uint sz < wsd_size (deque s)"
proof -
  note n = new_inv [OF assms(1)]
  have d: "deque (ws_init q) = q" by (simp add: ws_init_def)
  have r: "ws_inv s" "wsd_size (deque s) = wsd_size q"
    "taken_of evs + mset (content s) \<subseteq># pushed_of evs"
    "Discarded \<notin> set evs \<longrightarrow> taken_of evs + mset (content s) = pushed_of evs"
    using ws_run_inv [OF assms(2) n(1,2)] d by auto
  have "int (length (content s)) \<le> wsd_size (deque s)"
    using r(1) by (simp add: ws_inv_def deque_ok_def length_content)
  with r n(3) show ?thesis by simp
qed

text \<open>The owner of a new deque for one element pushes 7.\<close>

definition ws_demo :: ws_deque where
  "ws_demo = \<lparr>wsd_size = 2, moduloSize = 1, dq_top = 0, dq_bottom = 0, elements = (\<lambda>_. 0)\<rparr>"

lemma ws_demo_new: "newWSDeque 1 (\<lambda>_. 0) = Some ws_demo"
  by (simp add: newWSDeque_def roundUp2_def roundUp2_loop.simps Let_def ws_demo_def)

definition ws_demo_pushed :: ws_system where
  "ws_demo_pushed = \<lparr>deque = \<lparr>wsd_size = 2, moduloSize = 1, dq_top = 0, dq_bottom = 1, elements = (\<lambda>_. 0)(0 := 7)\<rparr>,
     owner = OwnerIdle, thief = (\<lambda>_. ThiefIdle)\<rparr>"

lemma ws_demo_run: "ws_run (ws_init ws_demo) [Internal, Internal, Internal, Pushed 7] ws_demo_pushed"
proof -
  let ?s0 = "ws_init ws_demo"
  let ?s1 = "?s0\<lparr>owner := PushTop 7 0\<rparr>"
  let ?s2 = "?s0\<lparr>owner := PushStore 7 0\<rparr>"
  let ?s3 = "?s0\<lparr>owner := PushBottom 7 0, deque := ws_demo\<lparr>elements := (\<lambda>_. 0)(0 := 7)\<rparr>\<rparr>"
  have "ws_step ?s0 Internal ?s1"
    using step_push_begin [of ?s0 7] by (simp add: ws_init_def ws_defs ws_demo_def)
  moreover have "ws_step ?s1 Internal ?s2"
    using step_push_top [of ?s1 7 0] by (simp add: ws_init_def ws_defs ws_demo_def)
  moreover have "ws_step ?s2 Internal ?s3"
    using step_push_store [of ?s2 7 0] by (simp add: ws_init_def ws_defs ws_demo_def)
  moreover have "ws_step ?s3 (Pushed 7) ws_demo_pushed"
    using step_push_bottom [of ?s3 7 0] by (simp add: ws_init_def ws_defs ws_demo_def ws_demo_pushed_def)
  ultimately show ?thesis
    using ws_run_step [OF ws_run_step [OF ws_run_step [OF ws_run_step [OF ws_run_nil]]]] by fastforce
qed

theorem deque_conserves_elements_witness:
  "ws_run (ws_init ws_demo) [Internal, Internal, Internal, Pushed 7] ws_demo_pushed \<and> mset (content ws_demo_pushed) = {#7#}"
  using deque_conserves_elements [OF ws_demo_new ws_demo_run] ws_demo_run by simp

text \<open>The owner never waits: in an operation its next access is always enabled, every access of its own brings it
  closer to the end, which comes after at most five of them, and accesses of thieves do not disturb it. A
  steal fails in its compare-and-swap only when another thread has taken an element meanwhile.\<close>

fun owner_rank :: "owner_pc \<Rightarrow> nat" where
  "owner_rank OwnerIdle = 0"
| "owner_rank (PushTop e b) = 3"
| "owner_rank (PushStore e b) = 2"
| "owner_rank (PushBottom e b) = 1"
| "owner_rank (PopStore b) = 5"
| "owner_rank (PopTop b) = 4"
| "owner_rank (PopRead b t) = 3"
| "owner_rank (PopCas b t r) = 2"
| "owner_rank (PopFix b) = 1"
| "owner_rank (DiscardStore b) = 1"

lemma owner_step_enabled: "owner s \<noteq> OwnerIdle \<Longrightarrow> \<exists>ev s'. ws_step s ev s' \<and> owner_rank (owner s') < owner_rank (owner s)"
proof (cases "owner s")
  case (PushTop e b)
  obtain pc ev where p: "push_top e b (deque s) = (pc, ev)" by fastforce
  moreover have "owner_rank pc < 3" using p by (auto simp: push_top_def Let_def split: if_splits)
  ultimately show ?thesis using step_push_top [OF PushTop p] PushTop by fastforce
next
  case (PushStore e b)
  obtain pc q where p: "push_store e b (deque s) = (pc, q)" by fastforce
  moreover have "owner_rank pc < 2" using p by (auto simp: push_store_def)
  ultimately show ?thesis using step_push_store [OF PushStore p] PushStore by fastforce
next
  case (PushBottom e b)
  then show ?thesis using step_push_bottom [OF PushBottom] by fastforce
next
  case (PopStore b)
  obtain pc q where p: "pop_store b (deque s) = (pc, q)" by fastforce
  moreover have "owner_rank pc < 5" using p by (auto simp: pop_store_def)
  ultimately show ?thesis using step_pop_store [OF PopStore p] PopStore by fastforce
next
  case (PopTop b)
  obtain pc ev where p: "pop_top b (deque s) = (pc, ev)" by fastforce
  moreover have "owner_rank pc < 4" using p by (auto simp: pop_top_def Let_def split: if_splits)
  ultimately show ?thesis using step_pop_top [OF PopTop p] PopTop by fastforce
next
  case (PopRead b t)
  obtain pc ev where p: "pop_read b t (deque s) = (pc, ev)" by fastforce
  moreover have "owner_rank pc < 3" using p by (auto simp: pop_read_def Let_def split: if_splits)
  ultimately show ?thesis using step_pop_read [OF PopRead p] PopRead by fastforce
next
  case (PopCas b t r)
  obtain pc ev q where p: "pop_cas b t r (deque s) = (pc, ev, q)" by (metis prod_cases3)
  moreover have "owner_rank pc < 2" using p by (auto simp: pop_cas_def split: prod.splits)
  ultimately show ?thesis using step_pop_cas [OF PopCas p] PopCas by fastforce
next
  case (PopFix b)
  then show ?thesis using step_pop_fix [OF PopFix] by fastforce
next
  case (DiscardStore b)
  then show ?thesis using step_discard_store [OF DiscardStore] by fastforce
qed simp

lemma owner_step_rank:
  "ws_step s ev s' \<Longrightarrow> owner s \<noteq> OwnerIdle \<Longrightarrow> owner_rank (owner s') < owner_rank (owner s) \<or> owner s' = owner s"
  by (induction rule: ws_step.induct) (auto simp: ws_defs Let_def split: if_splits prod.splits)

lemma owner_wait_free:
  "(owner s \<noteq> OwnerIdle \<longrightarrow> (\<exists>ev s'. ws_step s ev s' \<and> owner_rank (owner s') < owner_rank (owner s))) \<and>
   (owner s \<noteq> OwnerIdle \<and> ws_step s ev s' \<longrightarrow> owner_rank (owner s') < owner_rank (owner s) \<or> owner s' = owner s) \<and>
   owner_rank (owner s) \<le> 5 \<and> (owner_rank (owner s) = 0 \<longleftrightarrow> owner s = OwnerIdle) \<and>
   (ws_inv s \<and> ws_step s (Steal_lost i) s' \<longrightarrow> (\<exists>t x. thief s i = StealCas t x \<and> t < dq_top (deque s)))"
proof (intro conjI)
  show "ws_inv s \<and> ws_step s (Steal_lost i) s' \<longrightarrow> (\<exists>t x. thief s i = StealCas t x \<and> t < dq_top (deque s))"
  proof
    assume *: "ws_inv s \<and> ws_step s (Steal_lost i) s'"
    then have "ws_step s (Steal_lost i) s'" by blast
    then obtain t x where t: "thief s i = StealCas t x" "dq_top (deque s) \<noteq> t"
      by cases (auto simp: ws_defs Let_def split: if_splits prod.splits)
    moreover have "thief_ok (deque s) (thief_bound (deque s) (owner s)) (StealCas t x)"
      using * t(1) unfolding ws_inv_def by metis
    ultimately show "\<exists>t x. thief s i = StealCas t x \<and> t < dq_top (deque s)" by force
  qed
  show "owner_rank (owner s) \<le> 5" "(owner_rank (owner s) = 0) = (owner s = OwnerIdle)" by (cases "owner s"; simp)+
qed (use owner_step_enabled owner_step_rank in blast)+


end
