(* ===== verification/STM.thy ===== *)
theory STM
  imports RTS_Prelude "HOL-Library.Multiset"
begin

text \<open>
  Software transactional memory (\<open>rts/STM.c\<close>, the types in \<open>rts/include/rts/storage/Closures.h\<close>):
  TVars with their queues of waiting threads, transaction records with their chunks of entries, and
  the operations of the primops, in both configurations: \<open>STM_UNIPROC\<close> of the non-threaded runtime and
  \<open>STM_FG_LOCKS\<close> of the threaded one, where a TVar is locked by writing the transaction record into
  its \<open>current_value\<close>. Each operation is run here by one capability without interleaving; the
  interleaving of commits is the subject of the theory \<open>STMCommits\<close>. The value \<open>None\<close> means that the
  operation waits for ever: for a lock that nobody releases, or along a cyclic list. Write barriers,
  tracing and the assertions are left out, and \<open>shake\<close> is the constant false of a normal build.
\<close>

section \<open>State\<close>

text \<open>Addresses of heap objects; 0 stands for \<open>NO_TREC\<close>, \<open>END_STM_WATCH_QUEUE\<close> and \<open>END_TSO_QUEUE\<close>.\<close>

type_synonym addr = nat

datatype stm_config = STM_UNIPROC | STM_FG_LOCKS

text \<open>What a field of type \<open>StgClosure *\<close> points to, as far as the code looks at it.\<close>

datatype closure = Value word64 | TRec addr | WatchQueue addr

record tvar =
  current_value :: closure
  first_watch_queue_entry :: addr
  num_updates :: int

record watch_queue =
  wq_closure :: addr
  next_queue_entry :: addr
  prev_queue_entry :: addr

record trec_entry =
  e_tvar :: addr
  expected_value :: closure
  new_value :: closure
  e_num_updates :: int

definition TREC_CHUNK_NUM_ENTRIES :: nat where
  "TREC_CHUNK_NUM_ENTRIES = 16"

record trec_chunk =
  next_entry_idx :: nat
  entries :: "nat \<Rightarrow> trec_entry"

datatype trec_state = TREC_ACTIVE | TREC_CONDEMNED | TREC_ABORTED | TREC_WAITING

text \<open>The chunks behind \<open>current_chunk\<close> along \<open>prev_chunk\<close> are a list; each belongs to one record.\<close>

record trec =
  enclosing_trec :: addr
  current_chunk :: trec_chunk
  prev_chunks :: "trec_chunk list"
  t_state :: trec_state

datatype why_blocked = NotBlocked | BlockedOnMVar | BlockedOnMVarRead | BlockedOnMsgThrowTo | BlockedOnSTM
  | BlockedOnBlackHole | ThreadMigrating | BlockedOnOther

text \<open>\<open>throwto_null\<close>: whether the message the thread waits for has been answered.\<close>

record tso =
  why_blocked :: why_blocked
  tso_link :: addr
  throwto_null :: bool
  tso_cap :: nat
  tso_trec :: addr

text \<open>
  The memory and the capability that runs: its free lists, its tokens, its run queue, and the wakeup
  messages it has sent to other capabilities. The allocator gives the next address; \<open>junk\<close> is what the
  memory of a fresh chunk holds.
\<close>

record stm_state =
  tvars :: "addr \<Rightarrow> tvar"
  watch_queues :: "addr \<Rightarrow> watch_queue"
  trecs :: "addr \<Rightarrow> trec"
  tsos :: "addr \<Rightarrow> tso"
  cap_no :: nat
  free_tvar_watch_queues :: addr
  free_trec_chunks :: "trec_chunk list"
  free_trec_headers :: addr
  transaction_tokens :: nat
  run_queue :: "addr list"
  wakeups_sent :: "(nat \<times> addr) list"
  next_object :: addr
  junk :: "nat \<Rightarrow> trec_entry"
  max_commits :: int

definition upd_tvar :: "addr \<Rightarrow> (tvar \<Rightarrow> tvar) \<Rightarrow> stm_state \<Rightarrow> stm_state" where
  "upd_tvar x f st = st\<lparr>tvars := (tvars st)(x := f (tvars st x))\<rparr>"

definition upd_trec :: "addr \<Rightarrow> (trec \<Rightarrow> trec) \<Rightarrow> stm_state \<Rightarrow> stm_state" where
  "upd_trec t f st = st\<lparr>trecs := (trecs st)(t := f (trecs st t))\<rparr>"

definition upd_wq :: "addr \<Rightarrow> (watch_queue \<Rightarrow> watch_queue) \<Rightarrow> stm_state \<Rightarrow> stm_state" where
  "upd_wq q f st = st\<lparr>watch_queues := (watch_queues st)(q := f (watch_queues st q))\<rparr>"

definition upd_tso :: "addr \<Rightarrow> (tso \<Rightarrow> tso) \<Rightarrow> stm_state \<Rightarrow> stm_state" where
  "upd_tso t f st = st\<lparr>tsos := (tsos st)(t := f (tsos st t))\<rparr>"

section \<open>The entries of a transaction record\<close>

text \<open>A position is the number of a chunk, counted from the current one, and an index in it.\<close>

type_synonym entry_pos = "nat \<times> nat"

definition entry_positions :: "trec \<Rightarrow> entry_pos list" where
  "entry_positions t =
    map (Pair 0) [0..<next_entry_idx (current_chunk t)] @
    concat (map (\<lambda>k. map (Pair (Suc k)) [0..<TREC_CHUNK_NUM_ENTRIES]) [0..<length (prev_chunks t)])"

fun entry_at :: "trec \<Rightarrow> entry_pos \<Rightarrow> trec_entry" where
  "entry_at t (0, i) = entries (current_chunk t) i"
| "entry_at t (Suc k, i) = entries (prev_chunks t ! k) i"

fun set_entry :: "entry_pos \<Rightarrow> trec_entry \<Rightarrow> trec \<Rightarrow> trec" where
  "set_entry (0, i) e t = t\<lparr>current_chunk := (current_chunk t)\<lparr>entries := (entries (current_chunk t))(i := e)\<rparr>\<rparr>"
| "set_entry (Suc k, i) e t =
    t\<lparr>prev_chunks := (prev_chunks t)[k := (prev_chunks t ! k)\<lparr>entries := (entries (prev_chunks t ! k))(i := e)\<rparr>]\<rparr>"

text \<open>\<open>FOR_EACH_ENTRY\<close>: the body says whether it leaves the loop with \<open>BREAK_FOR_EACH\<close>.\<close>

fun for_each_pos :: "(entry_pos \<Rightarrow> 's \<Rightarrow> (bool \<times> 's) option) \<Rightarrow> entry_pos list \<Rightarrow> 's \<Rightarrow> 's option" where
  "for_each_pos body [] s = Some s"
| "for_each_pos body (p # ps) s =
    (case body p s of None \<Rightarrow> None | Some (brk, s') \<Rightarrow> if brk then Some s' else for_each_pos body ps s')"

definition for_each_entry :: "trec \<Rightarrow> (entry_pos \<Rightarrow> 's \<Rightarrow> (bool \<times> 's) option) \<Rightarrow> 's \<Rightarrow> 's option" where
  "for_each_entry t body s = for_each_pos body (entry_positions t) s"

section \<open>Locking TVars\<close>

fun lock_tvar :: "stm_config \<Rightarrow> addr \<Rightarrow> addr \<Rightarrow> stm_state \<Rightarrow> (closure \<times> stm_state) option" where
  "lock_tvar STM_UNIPROC trec s st = Some (current_value (tvars st s), st)"
| "lock_tvar STM_FG_LOCKS trec s st =
    (case current_value (tvars st s) of
       TRec _ \<Rightarrow> None
     | result \<Rightarrow> Some (result, upd_tvar s (\<lambda>v. v\<lparr>current_value := TRec trec\<rparr>) st))"

fun unlock_tvar :: "stm_config \<Rightarrow> addr \<Rightarrow> addr \<Rightarrow> closure \<Rightarrow> bool \<Rightarrow> stm_state \<Rightarrow> stm_state" where
  "unlock_tvar STM_UNIPROC trec s c force_update st =
    (if force_update then upd_tvar s (\<lambda>v. v\<lparr>current_value := c\<rparr>) st else st)"
| "unlock_tvar STM_FG_LOCKS trec s c force_update st = upd_tvar s (\<lambda>v. v\<lparr>current_value := c\<rparr>) st"

fun cond_lock_tvar :: "stm_config \<Rightarrow> addr \<Rightarrow> addr \<Rightarrow> closure \<Rightarrow> stm_state \<Rightarrow> bool \<times> stm_state" where
  "cond_lock_tvar STM_UNIPROC trec s expected st = (current_value (tvars st s) = expected, st)"
| "cond_lock_tvar STM_FG_LOCKS trec s expected st =
    (if current_value (tvars st s) = expected
     then (True, upd_tvar s (\<lambda>v. v\<lparr>current_value := TRec trec\<rparr>) st) else (False, st))"

definition config_use_read_phase :: "stm_config \<Rightarrow> bool" where
  "config_use_read_phase cfg = (cfg = STM_FG_LOCKS)"

section \<open>Blocking and waking threads\<close>

definition park_tso :: "addr \<Rightarrow> stm_state \<Rightarrow> stm_state" where
  "park_tso tso = upd_tso tso (\<lambda>t. t\<lparr>why_blocked := BlockedOnSTM\<rparr>)"

text \<open>\<open>tryWakeupThread\<close> of \<open>rts/Threads.c\<close>, without popping the stack frame of a \<open>throwTo\<close>.\<close>

definition unblocks :: "tso \<Rightarrow> bool" where
  "unblocks t = (case why_blocked t of
      BlockedOnMVar \<Rightarrow> tso_link t = 0
    | BlockedOnMVarRead \<Rightarrow> tso_link t = 0
    | BlockedOnMsgThrowTo \<Rightarrow> throwto_null t
    | BlockedOnSTM \<Rightarrow> True
    | BlockedOnBlackHole \<Rightarrow> True
    | ThreadMigrating \<Rightarrow> True
    | _ \<Rightarrow> False)"

definition tryWakeupThread :: "stm_config \<Rightarrow> addr \<Rightarrow> stm_state \<Rightarrow> stm_state" where
  "tryWakeupThread cfg tso st =
    (if cfg = STM_FG_LOCKS \<and> tso_cap (tsos st tso) \<noteq> cap_no st
     then st\<lparr>wakeups_sent := wakeups_sent st @ [(tso_cap (tsos st tso), tso)]\<rparr>
     else if unblocks (tsos st tso)
     then upd_tso tso (\<lambda>t. t\<lparr>why_blocked := NotBlocked\<rparr>) (st\<lparr>run_queue := run_queue st @ [tso]\<rparr>)
     else st)"

definition unpark_tso :: "stm_config \<Rightarrow> addr \<Rightarrow> stm_state \<Rightarrow> stm_state" where
  "unpark_tso cfg tso st = tryWakeupThread cfg tso st"

text \<open>The last entry of the queue that starts at \<open>q\<close>, with \<open>trail\<close> behind it.\<close>

partial_function (option) queue_tail :: "(addr \<Rightarrow> watch_queue) \<Rightarrow> addr \<Rightarrow> addr \<Rightarrow> addr option" where
  "queue_tail wqs q trail = (if q = 0 then Some trail else queue_tail wqs (next_queue_entry (wqs q)) q)"

partial_function (option) unpark_back :: "stm_config \<Rightarrow> addr \<Rightarrow> stm_state \<Rightarrow> stm_state option" where
  "unpark_back cfg q st =
    (if q = 0 then Some st
     else let st' = unpark_tso cfg (wq_closure (watch_queues st q)) st
          in unpark_back cfg (prev_queue_entry (watch_queues st' q)) st')"

definition unpark_waiters_on :: "stm_config \<Rightarrow> addr \<Rightarrow> stm_state \<Rightarrow> stm_state option" where
  "unpark_waiters_on cfg s st =
    (let q = first_watch_queue_entry (tvars st s)
     in case queue_tail (watch_queues st) q q of None \<Rightarrow> None | Some q \<Rightarrow> unpark_back cfg q st)"

section \<open>Allocation with reuse\<close>

definition alloc_stg_tvar_watch_queue :: "addr \<Rightarrow> stm_state \<Rightarrow> addr \<times> stm_state" where
  "alloc_stg_tvar_watch_queue closure st =
    (if free_tvar_watch_queues st = 0
     then (next_object st, upd_wq (next_object st) (\<lambda>q. q\<lparr>wq_closure := closure\<rparr>) (st\<lparr>next_object := next_object st + 1\<rparr>))
     else let result = free_tvar_watch_queues st;
              st = upd_wq result (\<lambda>q. q\<lparr>wq_closure := closure\<rparr>) st
          in (result, st\<lparr>free_tvar_watch_queues := next_queue_entry (watch_queues st result)\<rparr>))"

definition free_stg_tvar_watch_queue :: "addr \<Rightarrow> stm_state \<Rightarrow> stm_state" where
  "free_stg_tvar_watch_queue wq st =
    (upd_wq wq (\<lambda>q. q\<lparr>next_queue_entry := free_tvar_watch_queues st\<rparr>) st)\<lparr>free_tvar_watch_queues := wq\<rparr>"

text \<open>The entries of a fresh chunk are whatever the memory held.\<close>

definition new_stg_trec_chunk :: "stm_state \<Rightarrow> trec_chunk" where
  "new_stg_trec_chunk st = \<lparr>next_entry_idx = 0, entries = junk st\<rparr>"

definition alloc_stg_trec_chunk :: "stm_state \<Rightarrow> trec_chunk \<times> stm_state" where
  "alloc_stg_trec_chunk st =
    (case free_trec_chunks st of
       [] \<Rightarrow> (new_stg_trec_chunk st, st)
     | result # rest \<Rightarrow> (result\<lparr>next_entry_idx := 0\<rparr>, st\<lparr>free_trec_chunks := rest\<rparr>))"

definition free_stg_trec_chunk :: "trec_chunk \<Rightarrow> stm_state \<Rightarrow> stm_state" where
  "free_stg_trec_chunk c st = st\<lparr>free_trec_chunks := c # free_trec_chunks st\<rparr>"

text \<open>The state a record starts in.\<close>

definition initial_state :: "addr \<Rightarrow> stm_state \<Rightarrow> trec_state" where
  "initial_state enclosing st = (if enclosing = 0 then TREC_ACTIVE else t_state (trecs st enclosing))"

definition alloc_stg_trec_header :: "addr \<Rightarrow> stm_state \<Rightarrow> addr \<times> stm_state" where
  "alloc_stg_trec_header enclosing st =
    (if free_trec_headers st = 0
     then (next_object st,
           upd_trec (next_object st)
             (\<lambda>_. \<lparr>enclosing_trec = enclosing, current_chunk = new_stg_trec_chunk st, prev_chunks = [],
                   t_state = initial_state enclosing st\<rparr>)
             (st\<lparr>next_object := next_object st + 1\<rparr>))
     else let result = free_trec_headers st
          in (result,
              upd_trec result
                (\<lambda>t. t\<lparr>enclosing_trec := enclosing, current_chunk := (current_chunk t)\<lparr>next_entry_idx := 0\<rparr>,
                       t_state := initial_state enclosing st\<rparr>)
                (st\<lparr>free_trec_headers := enclosing_trec (trecs st result)\<rparr>)))"

definition free_stg_trec_header :: "addr \<Rightarrow> stm_state \<Rightarrow> stm_state" where
  "free_stg_trec_header trec st =
    (let st = fold free_stg_trec_chunk (prev_chunks (trecs st trec)) st
     in (upd_trec trec (\<lambda>t. t\<lparr>prev_chunks := [], enclosing_trec := free_trec_headers st\<rparr>) st)\<lparr>free_trec_headers := trec\<rparr>)"

section \<open>Watch queues\<close>

definition build_watch_queue_entry :: "addr \<Rightarrow> addr \<Rightarrow> entry_pos \<Rightarrow> stm_state \<Rightarrow> (bool \<times> stm_state) option" where
  "build_watch_queue_entry tso trec p st =
    (let e = entry_at (trecs st trec) p;
         s = e_tvar e;
         fq = first_watch_queue_entry (tvars st s);
         (q, st) = alloc_stg_tvar_watch_queue tso st;
         st = upd_wq q (\<lambda>w. w\<lparr>next_queue_entry := fq, prev_queue_entry := 0\<rparr>) st;
         st = (if fq \<noteq> 0 then upd_wq fq (\<lambda>w. w\<lparr>prev_queue_entry := q\<rparr>) st else st);
         st = upd_tvar s (\<lambda>v. v\<lparr>first_watch_queue_entry := q\<rparr>) st
     in Some (False, upd_trec trec (set_entry p (e\<lparr>new_value := WatchQueue q\<rparr>)) st))"

definition build_watch_queue_entries_for_trec :: "addr \<Rightarrow> addr \<Rightarrow> stm_state \<Rightarrow> stm_state option" where
  "build_watch_queue_entries_for_trec tso trec st =
    for_each_entry (trecs st trec) (build_watch_queue_entry tso trec) st"

definition remove_watch_queue_entry :: "stm_config \<Rightarrow> addr \<Rightarrow> entry_pos \<Rightarrow> stm_state \<Rightarrow> (bool \<times> stm_state) option" where
  "remove_watch_queue_entry cfg trec p st =
    (let e = entry_at (trecs st trec) p;
         s = e_tvar e
     in case (lock_tvar cfg trec s st, new_value e) of
          (Some (saw, st), WatchQueue q) \<Rightarrow>
            (let nq = next_queue_entry (watch_queues st q);
                 pq = prev_queue_entry (watch_queues st q);
                 st = (if nq \<noteq> 0 then upd_wq nq (\<lambda>w. w\<lparr>prev_queue_entry := pq\<rparr>) st else st);
                 st = (if pq \<noteq> 0 then upd_wq pq (\<lambda>w. w\<lparr>next_queue_entry := nq\<rparr>) st
                       else upd_tvar s (\<lambda>v. v\<lparr>first_watch_queue_entry := nq\<rparr>) st);
                 st = free_stg_tvar_watch_queue q st
             in Some (False, unlock_tvar cfg trec s saw False st))
        | _ \<Rightarrow> None)"

definition remove_watch_queue_entries_for_trec :: "stm_config \<Rightarrow> addr \<Rightarrow> stm_state \<Rightarrow> stm_state option" where
  "remove_watch_queue_entries_for_trec cfg trec st =
    for_each_entry (trecs st trec) (remove_watch_queue_entry cfg trec) st"

section \<open>Adding and merging entries\<close>

definition get_new_entry :: "addr \<Rightarrow> stm_state \<Rightarrow> entry_pos \<times> stm_state" where
  "get_new_entry t st =
    (let c = current_chunk (trecs st t);
         i = next_entry_idx c
     in if i < TREC_CHUNK_NUM_ENTRIES
        then ((0, i), upd_trec t (\<lambda>t. t\<lparr>current_chunk := c\<lparr>next_entry_idx := i + 1\<rparr>\<rparr>) st)
        else let (nc, st) = alloc_stg_trec_chunk st
             in ((0, 0), upd_trec t (\<lambda>t. t\<lparr>current_chunk := nc\<lparr>next_entry_idx := 1\<rparr>, prev_chunks := c # prev_chunks t\<rparr>) st))"

text \<open>Filling in the three fields of a new entry.\<close>

definition add_entry :: "addr \<Rightarrow> addr \<Rightarrow> closure \<Rightarrow> closure \<Rightarrow> stm_state \<Rightarrow> stm_state" where
  "add_entry t x expected new st =
    (let (p, st) = get_new_entry t st;
         ne = (entry_at (trecs st t) p)\<lparr>e_tvar := x, expected_value := expected, new_value := new\<rparr>
     in upd_trec t (set_entry p ne) st)"

definition merge_update_into :: "addr \<Rightarrow> addr \<Rightarrow> closure \<Rightarrow> closure \<Rightarrow> stm_state \<Rightarrow> stm_state option" where
  "merge_update_into t x expected new st =
    (case for_each_entry (trecs st t)
       (\<lambda>p (found, st).
          let e = entry_at (trecs st t) p
          in if e_tvar e = x
             then let st = (if expected_value e \<noteq> expected then upd_trec t (\<lambda>t. t\<lparr>t_state := TREC_CONDEMNED\<rparr>) st else st)
                  in Some (True, True, upd_trec t (set_entry p (e\<lparr>new_value := new\<rparr>)) st)
             else Some (False, found, st))
       (False, st) of
       None \<Rightarrow> None
     | Some (found, st) \<Rightarrow> Some (if \<not> found then add_entry t x expected new st else st))"

text \<open>The search of \<open>merge_read_into\<close> through the record \<open>t\<close> and those that enclose it.\<close>

partial_function (option) merge_read_search :: "addr \<Rightarrow> closure \<Rightarrow> addr \<Rightarrow> bool \<Rightarrow> stm_state \<Rightarrow> (bool \<times> stm_state) option" where
  "merge_read_search x expected t found st =
    (if \<not> found \<and> t \<noteq> 0 then
       (case for_each_entry (trecs st t)
          (\<lambda>p (found, st).
             let e = entry_at (trecs st t) p
             in if e_tvar e = x
                then Some (True, True, if expected_value e \<noteq> expected then upd_trec t (\<lambda>t. t\<lparr>t_state := TREC_CONDEMNED\<rparr>) st else st)
                else Some (False, found, st))
          (found, st) of
          None \<Rightarrow> None
        | Some (found, st) \<Rightarrow> merge_read_search x expected (enclosing_trec (trecs st t)) found st)
     else Some (found, st))"

definition merge_read_into :: "addr \<Rightarrow> addr \<Rightarrow> closure \<Rightarrow> stm_state \<Rightarrow> stm_state option" where
  "merge_read_into trec x expected st =
    (case merge_read_search x expected trec False st of
       None \<Rightarrow> None
     | Some (found, st) \<Rightarrow> Some (if \<not> found then add_entry trec x expected expected st else st))"

section \<open>Validation\<close>

definition entry_is_update :: "trec_entry \<Rightarrow> bool" where
  "entry_is_update e = (expected_value e \<noteq> new_value e)"

definition entry_is_read_only :: "trec_entry \<Rightarrow> bool" where
  "entry_is_read_only e = (expected_value e = new_value e)"

definition tvar_is_locked :: "addr \<Rightarrow> addr \<Rightarrow> stm_state \<Rightarrow> bool" where
  "tvar_is_locked s h st = (current_value (tvars st s) = TRec h)"

definition revert_entry :: "stm_config \<Rightarrow> addr \<Rightarrow> bool \<Rightarrow> entry_pos \<Rightarrow> stm_state \<Rightarrow> (bool \<times> stm_state) option" where
  "revert_entry cfg trec revert_all p st =
    (let e = entry_at (trecs st trec) p
     in if (revert_all \<or> entry_is_update e) \<and> tvar_is_locked (e_tvar e) trec st
        then Some (False, unlock_tvar cfg trec (e_tvar e) (expected_value e) True st)
        else Some (False, st))"

definition revert_ownership :: "stm_config \<Rightarrow> addr \<Rightarrow> bool \<Rightarrow> stm_state \<Rightarrow> stm_state option" where
  "revert_ownership cfg trec revert_all st =
    (if cfg = STM_FG_LOCKS then for_each_entry (trecs st trec) (revert_entry cfg trec revert_all) st else Some st)"

definition validate_trec_optimistic :: "addr \<Rightarrow> stm_state \<Rightarrow> bool option" where
  "validate_trec_optimistic trec st =
    (if t_state (trecs st trec) \<noteq> TREC_CONDEMNED
     then for_each_entry (trecs st trec)
       (\<lambda>p result.
          let e = entry_at (trecs st trec) p;
              current = current_value (tvars st (e_tvar e))
          in if current \<noteq> expected_value e \<and> (case current of TRec _ \<Rightarrow> False | _ \<Rightarrow> True)
             then Some (True, False) else Some (False, result))
       True
     else Some False)"

definition validate_entry ::
  "stm_config \<Rightarrow> addr \<Rightarrow> bool \<Rightarrow> entry_pos \<Rightarrow> bool \<times> stm_state \<Rightarrow> (bool \<times> bool \<times> stm_state) option" where
  "validate_entry cfg trec acquire_all p rs =
    (let (result, st) = rs;
         e = entry_at (trecs st trec) p;
         s = e_tvar e
     in if acquire_all \<or> entry_is_update e then
          (let (ok, st) = cond_lock_tvar cfg trec s (expected_value e) st
           in if \<not> ok then Some (True, False, st) else Some (False, result, st))
        else if cfg = STM_FG_LOCKS then
          (if current_value (tvars st s) \<noteq> expected_value e then Some (True, False, st)
           else let st = upd_trec trec (set_entry p (e\<lparr>e_num_updates := num_updates (tvars st s)\<rparr>)) st
                in if current_value (tvars st s) \<noteq> expected_value e then Some (True, False, st)
                   else Some (False, result, st))
        else Some (False, result, st))"

definition validate_and_acquire_ownership ::
  "stm_config \<Rightarrow> addr \<Rightarrow> bool \<Rightarrow> bool \<Rightarrow> stm_state \<Rightarrow> (bool \<times> stm_state) option" where
  "validate_and_acquire_ownership cfg trec acquire_all retain_ownership st =
    (case (if t_state (trecs st trec) \<noteq> TREC_CONDEMNED
           then for_each_entry (trecs st trec) (validate_entry cfg trec acquire_all) (True, st)
           else Some (False, st)) of
       None \<Rightarrow> None
     | Some (result, st) \<Rightarrow>
         if \<not> result \<or> \<not> retain_ownership
         then map_option (Pair result) (revert_ownership cfg trec acquire_all st)
         else Some (result, st))"

definition check_read_only :: "stm_config \<Rightarrow> addr \<Rightarrow> stm_state \<Rightarrow> bool option" where
  "check_read_only cfg trec st =
    (if cfg = STM_FG_LOCKS
     then for_each_entry (trecs st trec)
       (\<lambda>p result.
          let e = entry_at (trecs st trec) p;
              v = tvars st (e_tvar e)
          in if entry_is_read_only e \<and> (current_value v \<noteq> expected_value e \<or> num_updates v \<noteq> e_num_updates e)
             then Some (True, False) else Some (False, result))
       True
     else Some True)"

section \<open>The operations\<close>

definition stmPreGCHook :: "stm_state \<Rightarrow> stm_state" where
  "stmPreGCHook st = st\<lparr>free_tvar_watch_queues := 0, free_trec_chunks := [], free_trec_headers := 0\<rparr>"

definition TOKEN_BATCH_SIZE :: nat where
  "TOKEN_BATCH_SIZE = 1024"

definition getMaxCommits :: "stm_config \<Rightarrow> stm_state \<Rightarrow> int" where
  "getMaxCommits cfg st = (if cfg = STM_FG_LOCKS then max_commits st else 0)"

definition getTokenBatch :: "stm_state \<Rightarrow> stm_state" where
  "getTokenBatch st = st\<lparr>max_commits := max_commits st + int TOKEN_BATCH_SIZE, transaction_tokens := TOKEN_BATCH_SIZE\<rparr>"

definition getToken :: "stm_config \<Rightarrow> stm_state \<Rightarrow> stm_state" where
  "getToken cfg st =
    (if cfg = STM_FG_LOCKS
     then let st = (if transaction_tokens st = 0 then getTokenBatch st else st)
          in st\<lparr>transaction_tokens := transaction_tokens st - 1\<rparr>
     else st)"

definition stmStartTransaction :: "stm_config \<Rightarrow> addr \<Rightarrow> stm_state \<Rightarrow> addr \<times> stm_state" where
  "stmStartTransaction cfg outer st = alloc_stg_trec_header outer (getToken cfg st)"

definition set_state :: "addr \<Rightarrow> trec_state \<Rightarrow> stm_state \<Rightarrow> stm_state" where
  "set_state trec s = upd_trec trec (\<lambda>t. t\<lparr>t_state := s\<rparr>)"

definition merge_reads :: "addr \<Rightarrow> addr \<Rightarrow> stm_state \<Rightarrow> stm_state option" where
  "merge_reads trec et st =
    for_each_entry (trecs st trec)
      (\<lambda>p st. let e = entry_at (trecs st trec) p
              in map_option (Pair False) (merge_read_into et (e_tvar e) (expected_value e) st)) st"

definition stmAbortTransaction :: "stm_config \<Rightarrow> addr \<Rightarrow> stm_state \<Rightarrow> stm_state option" where
  "stmAbortTransaction cfg trec st =
    (let et = enclosing_trec (trecs st trec)
     in map_option (set_state trec TREC_ABORTED)
          (if et = 0
           then if t_state (trecs st trec) = TREC_WAITING then remove_watch_queue_entries_for_trec cfg trec st else Some st
           else merge_reads trec et st))"

definition stmFreeAbortedTRec :: "addr \<Rightarrow> stm_state \<Rightarrow> stm_state" where
  "stmFreeAbortedTRec trec st = free_stg_trec_header trec st"

definition stmAbortNestedCatchRetryTransaction :: "stm_config \<Rightarrow> addr \<Rightarrow> bool \<Rightarrow> stm_state \<Rightarrow> stm_state option" where
  "stmAbortNestedCatchRetryTransaction cfg tso running_alt_code st =
    (if \<not> running_alt_code
     then let trec = tso_trec (tsos st tso);
              outer = enclosing_trec (trecs st trec)
          in map_option (\<lambda>st. upd_tso tso (\<lambda>t. t\<lparr>tso_trec := outer\<rparr>) (stmFreeAbortedTRec trec st))
               (stmAbortTransaction cfg trec st)
     else Some st)"

definition stmCondemnTransaction :: "stm_config \<Rightarrow> addr \<Rightarrow> stm_state \<Rightarrow> stm_state option" where
  "stmCondemnTransaction cfg trec st =
    map_option (set_state trec TREC_CONDEMNED)
      (if t_state (trecs st trec) = TREC_WAITING then remove_watch_queue_entries_for_trec cfg trec st else Some st)"

partial_function (option) validate_nest :: "stm_config \<Rightarrow> bool \<Rightarrow> addr \<Rightarrow> bool \<Rightarrow> stm_state \<Rightarrow> (bool \<times> stm_state) option" where
  "validate_nest cfg optimistically t result st =
    (if t \<noteq> 0 then
       (case (if optimistically then map_option (\<lambda>r. (r, st)) (validate_trec_optimistic t st)
              else validate_and_acquire_ownership cfg t True False st) of
          None \<Rightarrow> None
        | Some (r, st) \<Rightarrow> validate_nest cfg optimistically (enclosing_trec (trecs st t)) (result \<and> r) st)
     else Some (result, st))"

definition stmValidateNestOfTransactions :: "stm_config \<Rightarrow> addr \<Rightarrow> bool \<Rightarrow> stm_state \<Rightarrow> (bool \<times> stm_state) option" where
  "stmValidateNestOfTransactions cfg trec optimistically st =
    (case validate_nest cfg optimistically trec True st of
       None \<Rightarrow> None
     | Some (result, st) \<Rightarrow>
         Some (result, if \<not> result \<and> t_state (trecs st trec) \<noteq> TREC_WAITING then set_state trec TREC_CONDEMNED st else st))"

text \<open>The position of the entry and the record it is in.\<close>

partial_function (option) get_entry_for :: "addr \<Rightarrow> addr \<Rightarrow> stm_state \<Rightarrow> (entry_pos \<times> addr) option option" where
  "get_entry_for trec x st =
    (case for_each_entry (trecs st trec)
       (\<lambda>p result. if e_tvar (entry_at (trecs st trec) p) = x then Some (True, Some (p, trec)) else Some (False, result)) None of
       None \<Rightarrow> None
     | Some result \<Rightarrow>
         let trec = enclosing_trec (trecs st trec)
         in if result = None \<and> trec \<noteq> 0 then get_entry_for trec x st else Some result)"

definition write_back :: "stm_config \<Rightarrow> addr \<Rightarrow> entry_pos \<Rightarrow> stm_state \<Rightarrow> (bool \<times> stm_state) option" where
  "write_back cfg trec p st =
    (let e = entry_at (trecs st trec) p;
         s = e_tvar e
     in if \<not> config_use_read_phase cfg \<or> new_value e \<noteq> expected_value e
        then case unpark_waiters_on cfg s st of
               None \<Rightarrow> None
             | Some st \<Rightarrow>
                 let st = (if cfg = STM_FG_LOCKS then upd_tvar s (\<lambda>v. v\<lparr>num_updates := num_updates v + 1\<rparr>) st else st)
                 in Some (False, unlock_tvar cfg trec s (new_value e) True st)
        else Some (False, st))"

definition stmCommitTransaction :: "stm_config \<Rightarrow> nat \<Rightarrow> addr \<Rightarrow> stm_state \<Rightarrow> (bool \<times> stm_state) option" where
  "stmCommitTransaction cfg n_capabilities trec st =
    (let max_commits_at_start = getMaxCommits cfg st
     in case validate_and_acquire_ownership cfg trec (\<not> config_use_read_phase cfg) True st of
          None \<Rightarrow> None
        | Some (result, st) \<Rightarrow>
            map_option (\<lambda>(result, st). (result, free_stg_trec_header trec st))
              (if result then
                 (case (if config_use_read_phase cfg
                        then map_option
                               (\<lambda>r. let max_concurrent_commits = (getMaxCommits cfg st - max_commits_at_start) +
                                          int (n_capabilities * TOKEN_BATCH_SIZE)
                                    in if max_concurrent_commits div 2 ^ 32 > 0 then False else r)
                               (check_read_only cfg trec st)
                        else Some True) of
                    None \<Rightarrow> None
                  | Some result \<Rightarrow>
                      map_option (Pair result)
                        (if result then for_each_entry (trecs st trec) (write_back cfg trec) st
                         else revert_ownership cfg trec False st))
               else Some (result, st)))"

definition merge_back :: "stm_config \<Rightarrow> addr \<Rightarrow> addr \<Rightarrow> entry_pos \<Rightarrow> stm_state \<Rightarrow> (bool \<times> stm_state) option" where
  "merge_back cfg trec et p st =
    (let e = entry_at (trecs st trec) p;
         s = e_tvar e;
         st = (if entry_is_update e then unlock_tvar cfg trec s (expected_value e) False st else st)
     in map_option (Pair False) (merge_update_into et s (expected_value e) (new_value e) st))"

definition stmCommitNestedTransaction :: "stm_config \<Rightarrow> addr \<Rightarrow> stm_state \<Rightarrow> (bool \<times> stm_state) option" where
  "stmCommitNestedTransaction cfg trec st =
    (let et = enclosing_trec (trecs st trec)
     in case validate_and_acquire_ownership cfg trec (\<not> config_use_read_phase cfg) True st of
          None \<Rightarrow> None
        | Some (result, st) \<Rightarrow>
            map_option (\<lambda>(result, st). (result, free_stg_trec_header trec st))
              (if result then
                 (case (if config_use_read_phase cfg then check_read_only cfg trec st else Some True) of
                    None \<Rightarrow> None
                  | Some result \<Rightarrow>
                      map_option (Pair result)
                        (if result then for_each_entry (trecs st trec) (merge_back cfg trec et) st
                         else revert_ownership cfg trec False st))
               else Some (result, st)))"

definition stmWait :: "stm_config \<Rightarrow> addr \<Rightarrow> addr \<Rightarrow> stm_state \<Rightarrow> (bool \<times> stm_state) option" where
  "stmWait cfg tso trec st =
    (case validate_and_acquire_ownership cfg trec True True st of
       None \<Rightarrow> None
     | Some (result, st) \<Rightarrow>
         map_option (Pair result)
           (if result
            then map_option (\<lambda>st. set_state trec TREC_WAITING (park_tso tso st)) (build_watch_queue_entries_for_trec tso trec st)
            else Some (free_stg_trec_header trec st)))"

definition stmWaitUnlock :: "stm_config \<Rightarrow> addr \<Rightarrow> stm_state \<Rightarrow> stm_state option" where
  "stmWaitUnlock cfg trec st = revert_ownership cfg trec True st"

definition stmReWait :: "stm_config \<Rightarrow> addr \<Rightarrow> stm_state \<Rightarrow> (bool \<times> stm_state) option" where
  "stmReWait cfg tso st =
    (let trec = tso_trec (tsos st tso)
     in case validate_and_acquire_ownership cfg trec True True st of
          None \<Rightarrow> None
        | Some (result, st) \<Rightarrow>
            map_option (Pair result)
              (if result then revert_ownership cfg trec True (park_tso tso st)
               else map_option (free_stg_trec_header trec)
                 (if t_state (trecs st trec) \<noteq> TREC_CONDEMNED
                  then remove_watch_queue_entries_for_trec cfg trec st else Some st)))"

text \<open>\<open>None\<close>: the loop that waits until the TVar is not locked.\<close>

definition read_current_value :: "stm_config \<Rightarrow> addr \<Rightarrow> stm_state \<Rightarrow> closure option" where
  "read_current_value cfg x st =
    (case current_value (tvars st x) of
       TRec t \<Rightarrow> (if cfg = STM_FG_LOCKS then None else Some (TRec t))
     | result \<Rightarrow> Some result)"

definition stmReadTVar :: "stm_config \<Rightarrow> addr \<Rightarrow> addr \<Rightarrow> stm_state \<Rightarrow> (closure \<times> stm_state) option" where
  "stmReadTVar cfg trec x st =
    (case get_entry_for trec x st of
       None \<Rightarrow> None
     | Some (Some (p, entry_in)) \<Rightarrow>
         (let entry = entry_at (trecs st entry_in) p
          in Some (new_value entry,
               if entry_in = trec then st else add_entry trec x (expected_value entry) (new_value entry) st))
     | Some None \<Rightarrow>
         (case read_current_value cfg x st of
            None \<Rightarrow> None
          | Some current \<Rightarrow> Some (current, add_entry trec x current current st)))"

definition stmWriteTVar :: "stm_config \<Rightarrow> addr \<Rightarrow> addr \<Rightarrow> closure \<Rightarrow> stm_state \<Rightarrow> stm_state option" where
  "stmWriteTVar cfg trec x new st =
    (case get_entry_for trec x st of
       None \<Rightarrow> None
     | Some (Some (p, entry_in)) \<Rightarrow>
         (let entry = entry_at (trecs st entry_in) p
          in Some (if entry_in = trec then upd_trec trec (set_entry p (entry\<lparr>new_value := new\<rparr>)) st
                   else add_entry trec x (expected_value entry) new st))
     | Some None \<Rightarrow>
         (case read_current_value cfg x st of
            None \<Rightarrow> None
          | Some current \<Rightarrow> Some (add_entry trec x current new st)))"

section \<open>Entries and logs\<close>

lemma upd_simps [simp]:
  "tvars (upd_trec t f st) = tvars st" "watch_queues (upd_trec t f st) = watch_queues st" "tsos (upd_trec t f st) = tsos st"
  "trecs (upd_trec t f st) = (trecs st)(t := f (trecs st t))" "first_watch_queue_entry (tvars (upd_trec t f st) x) = first_watch_queue_entry (tvars st x)"
  "trecs (upd_tvar x g st) = trecs st" "watch_queues (upd_tvar x g st) = watch_queues st" "tsos (upd_tvar x g st) = tsos st"
  "tvars (upd_tvar x g st) = (tvars st)(x := g (tvars st x))"
  "trecs (upd_wq q h st) = trecs st" "tvars (upd_wq q h st) = tvars st" "tsos (upd_wq q h st) = tsos st"
  "watch_queues (upd_wq q h st) = (watch_queues st)(q := h (watch_queues st q))"
  "trecs (upd_tso u k st) = trecs st" "tvars (upd_tso u k st) = tvars st" "watch_queues (upd_tso u k st) = watch_queues st"
  "tsos (upd_tso u k st) = (tsos st)(u := k (tsos st u))"
  by (simp_all add: upd_trec_def upd_tvar_def upd_wq_def upd_tso_def)

lemma upd_more [simp]:
  "free_tvar_watch_queues (upd_trec t f st) = free_tvar_watch_queues st" "free_tvar_watch_queues (upd_tvar x g st) = free_tvar_watch_queues st"
  "free_tvar_watch_queues (upd_wq q h st) = free_tvar_watch_queues st" "free_tvar_watch_queues (upd_tso u k st) = free_tvar_watch_queues st"
  "next_object (upd_trec t f st) = next_object st" "next_object (upd_tvar x g st) = next_object st"
  "next_object (upd_wq q h st) = next_object st" "next_object (upd_tso u k st) = next_object st"
  "free_trec_headers (upd_trec t f st) = free_trec_headers st" "free_trec_headers (upd_tvar x g st) = free_trec_headers st"
  "free_trec_headers (upd_wq q h st) = free_trec_headers st" "free_trec_headers (upd_tso u k st) = free_trec_headers st"
  "run_queue (upd_trec t f st) = run_queue st" "run_queue (upd_tvar x g st) = run_queue st"
  "run_queue (upd_wq q h st) = run_queue st" "run_queue (upd_tso u k st) = run_queue st"
  "wakeups_sent (upd_trec t f st) = wakeups_sent st" "wakeups_sent (upd_tvar x g st) = wakeups_sent st"
  "wakeups_sent (upd_wq q h st) = wakeups_sent st" "wakeups_sent (upd_tso u k st) = wakeups_sent st"
  "cap_no (upd_trec t f st) = cap_no st" "cap_no (upd_tvar x g st) = cap_no st"
  "cap_no (upd_wq q h st) = cap_no st" "cap_no (upd_tso u k st) = cap_no st"
  "max_commits (upd_trec t f st) = max_commits st" "max_commits (upd_tvar x g st) = max_commits st"
  "free_trec_chunks (upd_trec t f st) = free_trec_chunks st" "free_trec_chunks (upd_tvar x g st) = free_trec_chunks st"
  "free_trec_chunks (upd_wq q h st) = free_trec_chunks st" "free_trec_chunks (upd_tso u k st) = free_trec_chunks st"
  by (simp_all add: upd_trec_def upd_tvar_def upd_wq_def upd_tso_def)

text \<open>The entries of a record, and its log: what it expects in a TVar and what it will write.\<close>

definition trec_entries :: "trec \<Rightarrow> trec_entry list" where
  "trec_entries t = map (entry_at t) (entry_positions t)"

definition entry_log :: "trec_entry \<Rightarrow> addr \<times> closure \<times> closure" where
  "entry_log e = (e_tvar e, expected_value e, new_value e)"

definition trec_log :: "trec \<Rightarrow> addr \<rightharpoonup> closure \<times> closure" where
  "trec_log t = map_of (map entry_log (trec_entries t))"

definition trec_ok :: "trec \<Rightarrow> bool" where
  "trec_ok t \<longleftrightarrow> next_entry_idx (current_chunk t) \<le> TREC_CHUNK_NUM_ENTRIES \<and> distinct (map e_tvar (trec_entries t))"

lemma entry_log_fst [simp]: "fst (entry_log e) = e_tvar e"
  by (simp add: entry_log_def)

lemma map_fst_entry_log [simp]: "map (fst \<circ> entry_log) es = map e_tvar es"
  by simp

lemma in_entry_positions:
  "(k, i) \<in> set (entry_positions t) \<longleftrightarrow>
    (case k of 0 \<Rightarrow> i < next_entry_idx (current_chunk t) | Suc k \<Rightarrow> k < length (prev_chunks t) \<and> i < TREC_CHUNK_NUM_ENTRIES)"
  by (cases k) (force simp: entry_positions_def)+

lemma distinct_entry_positions [simp]: "distinct (entry_positions t)"
proof -
  have "distinct (concat (map (\<lambda>k. map (Pair (Suc k)) [0..<TREC_CHUNK_NUM_ENTRIES]) [0..<n]))" for n
    by (induction n) (auto simp: distinct_map inj_on_def)
  then show ?thesis by (auto simp: entry_positions_def distinct_map inj_on_def)
qed

lemma entry_positions_set_entry [simp]: "entry_positions (set_entry p e t) = entry_positions t"
  by (cases "(p, e, t)" rule: set_entry.cases) (auto simp: entry_positions_def)

lemma set_entry_fields [simp]:
  "enclosing_trec (set_entry p e t) = enclosing_trec t" "t_state (set_entry p e t) = t_state t"
  "next_entry_idx (current_chunk (set_entry p e t)) = next_entry_idx (current_chunk t)"
  by (cases "(p, e, t)" rule: set_entry.cases; simp)+

lemma entry_at_set_entry:
  assumes "p \<in> set (entry_positions t)"
  shows "entry_at (set_entry p e t) q = (if q = p then e else entry_at t q)"
proof (cases p)
  case (Pair k i)
  obtain l j where q: "q = (l, j)" by (cases q)
  show ?thesis using assms unfolding Pair q by (cases k; cases l) (auto simp: in_entry_positions nth_list_update)
qed

lemma state_fields [simp]:
  "entry_at (t\<lparr>t_state := s\<rparr>) p = entry_at t p" "entry_positions (t\<lparr>t_state := s\<rparr>) = entry_positions t"
  "entry_at (t\<lparr>enclosing_trec := a\<rparr>) p = entry_at t p" "entry_positions (t\<lparr>enclosing_trec := a\<rparr>) = entry_positions t"
  by (cases "(t, p)" rule: entry_at.cases; simp add: entry_positions_def)+

lemma state_log [simp]: "trec_log (t\<lparr>t_state := s\<rparr>) = trec_log t" "trec_entries (t\<lparr>t_state := s\<rparr>) = trec_entries t"
    "trec_ok (t\<lparr>t_state := s\<rparr>) = trec_ok t"
  by (simp_all add: trec_log_def trec_entries_def trec_ok_def cong: map_cong)

lemma trec_log_Some_iff:
  assumes "trec_ok t"
  shows "trec_log t x = Some (a, b) \<longleftrightarrow> (\<exists>p \<in> set (entry_positions t). entry_log (entry_at t p) = (x, a, b))"
proof -
  have "distinct (map fst (map entry_log (trec_entries t)))" using assms by (simp add: trec_ok_def)
  then show ?thesis
    unfolding trec_log_def by (simp only: map_of_eq_Some_iff) (force simp: trec_entries_def)
qed

lemma trec_log_None_iff: "trec_log t x = None \<longleftrightarrow> (\<forall>p \<in> set (entry_positions t). e_tvar (entry_at t p) \<noteq> x)"
  by (auto simp: trec_log_def map_of_eq_None_iff trec_entries_def entry_log_def image_iff)

lemma pos_unique:
  assumes "trec_ok t" "p \<in> set (entry_positions t)" "q \<in> set (entry_positions t)" "e_tvar (entry_at t p) = e_tvar (entry_at t q)"
  shows "p = q"
proof -
  have "inj_on (\<lambda>p. e_tvar (entry_at t p)) (set (entry_positions t))"
    using assms(1) by (simp add: trec_ok_def trec_entries_def distinct_map comp_def)
  then show ?thesis by (rule inj_onD) (use assms in auto)
qed

lemma trec_log_at:
  "trec_ok t \<Longrightarrow> p \<in> set (entry_positions t) \<Longrightarrow>
    trec_log t (e_tvar (entry_at t p)) = Some (expected_value (entry_at t p), new_value (entry_at t p))"
  by (auto simp: trec_log_Some_iff entry_log_def)

lemma trec_log_set_entry:
  assumes "trec_ok t" "p \<in> set (entry_positions t)" "e_tvar e = e_tvar (entry_at t p)"
  shows "trec_ok (set_entry p e t)" "trec_log (set_entry p e t) = (trec_log t)(e_tvar e \<mapsto> (expected_value e, new_value e))"
proof -
  have eq: "map e_tvar (trec_entries (set_entry p e t)) = map e_tvar (trec_entries t)"
    using assms by (auto simp: trec_entries_def entry_at_set_entry)
  then show ok: "trec_ok (set_entry p e t)" using assms(1) by (simp add: trec_ok_def)
  show "trec_log (set_entry p e t) = (trec_log t)(e_tvar e \<mapsto> (expected_value e, new_value e))"
  proof
    fix x
    show "trec_log (set_entry p e t) x = ((trec_log t)(e_tvar e \<mapsto> (expected_value e, new_value e))) x"
    proof (cases "\<exists>q \<in> set (entry_positions t). e_tvar (entry_at (set_entry p e t) q) = x")
      case True
      then obtain q where q: "q \<in> set (entry_positions t)" "x = e_tvar (entry_at (set_entry p e t) q)" by blast
      have "q \<noteq> p \<Longrightarrow> e_tvar (entry_at t q) \<noteq> e_tvar e" using pos_unique [OF assms(1) q(1) assms(2)] assms(3) by metis
      then show ?thesis
        unfolding q(2) trec_log_at [OF ok q(1) [folded entry_positions_set_entry [of p e t]]] using trec_log_at [OF assms(1) q(1)] assms(2)
        by (auto simp: entry_at_set_entry)
    next
      case False
      then have "x \<noteq> e_tvar e" "\<forall>q \<in> set (entry_positions t). e_tvar (entry_at t q) \<noteq> x"
        using assms(2,3) by (auto simp: entry_at_set_entry split: if_splits)
      with False show ?thesis using trec_log_None_iff [of t x] trec_log_None_iff [of "set_entry p e t" x] by auto
    qed
  qed
qed

lemma trec_entries_alt:
  "trec_entries t = map (entries (current_chunk t)) [0..<next_entry_idx (current_chunk t)] @
     concat (map (\<lambda>c. map (entries c) [0..<TREC_CHUNK_NUM_ENTRIES]) (prev_chunks t))"
proof -
  have "concat (map (\<lambda>k. map (entry_at t) (map (Pair (Suc k)) [0..<TREC_CHUNK_NUM_ENTRIES])) [0..<length (prev_chunks t)]) =
      concat (map (\<lambda>k. map (entries (prev_chunks t ! k)) [0..<TREC_CHUNK_NUM_ENTRIES]) [0..<length (prev_chunks t)])"
    by (intro arg_cong [of _ _ concat] map_cong) auto
  also have "\<dots> = concat (map (\<lambda>c. map (entries c) [0..<TREC_CHUNK_NUM_ENTRIES]) (map (\<lambda>k. prev_chunks t ! k) [0..<length (prev_chunks t)]))"
    by (simp only: map_map comp_def)
  also have "map (\<lambda>k. prev_chunks t ! k) [0..<length (prev_chunks t)] = prev_chunks t" by (rule map_nth)
  finally show ?thesis by (simp add: trec_entries_def entry_positions_def map_concat comp_def)
qed

lemma map_of_insert_log:
  assumes "distinct (map fst ys)" "set ys = insert (x, v) (set xs)" "distinct (map fst xs)" "x \<notin> fst ` set xs"
  shows "map_of ys = (map_of xs)(x \<mapsto> v)"
proof
  fix z
  show "map_of ys z = ((map_of xs)(x \<mapsto> v)) z"
  proof (cases "map_of ys z")
    case None
    then have "z \<notin> fst ` set ys" by (simp add: map_of_eq_None_iff)
    then have "z \<noteq> x" "map_of xs z = None" using assms(2) by (auto simp: map_of_eq_None_iff)
    then show ?thesis using None by simp
  next
    case (Some w)
    then have "(z, w) \<in> set ys" by (rule map_of_SomeD)
    then have "z = x \<and> w = v \<or> z \<noteq> x \<and> (z, w) \<in> set xs" using assms(2,4) by force
    then show ?thesis using Some assms(3) by auto
  qed
qed

lemma trec_log_add:
  assumes ok: "trec_ok t" "trec_log t x = None"
    and t': "mset (trec_entries t') = add_mset e (mset (trec_entries t))" "next_entry_idx (current_chunk t') \<le> TREC_CHUNK_NUM_ENTRIES"
    and e: "e_tvar e = x"
  shows "trec_ok t'" "trec_log t' = (trec_log t)(x \<mapsto> (expected_value e, new_value e))"
proof -
  have x: "x \<notin> e_tvar ` set (trec_entries t)" using ok(2) by (auto simp: trec_log_None_iff trec_entries_def)
  have m: "mset (map e_tvar (trec_entries t')) = add_mset x (mset (map e_tvar (trec_entries t)))"
    using t'(1) e by simp
  have "distinct (map e_tvar (trec_entries t'))"
  proof -
    have "distinct (x # map e_tvar (trec_entries t))" using ok(1) x by (simp add: trec_ok_def)
    with m show ?thesis by (metis mset.simps(2) mset_eq_imp_distinct_iff)
  qed
  then show "trec_ok t'" using t'(2) by (simp add: trec_ok_def)
  show "trec_log t' = (trec_log t)(x \<mapsto> (expected_value e, new_value e))"
    unfolding trec_log_def
  proof (rule map_of_insert_log)
    show "distinct (map fst (map entry_log (trec_entries t')))" "distinct (map fst (map entry_log (trec_entries t)))"
      using \<open>trec_ok t'\<close> ok(1) by (simp_all add: trec_ok_def)
    have "set (trec_entries t') = insert e (set (trec_entries t))" using t'(1) by (metis set_mset_add_mset_insert set_mset_mset)
    then show "set (map entry_log (trec_entries t')) = insert (x, expected_value e, new_value e) (set (map entry_log (trec_entries t)))"
      using e by (simp add: entry_log_def)
    show "x \<notin> fst ` set (map entry_log (trec_entries t))" using x by (auto simp: entry_log_def)
  qed
qed

lemma add_entry_correct:
  assumes ok: "trec_ok (trecs st a)" "trec_log (trecs st a) x = None"
  shows "\<exists>t' fc. add_entry a x e n st = st\<lparr>trecs := (trecs st)(a := t'), free_trec_chunks := fc\<rparr> \<and> trec_ok t' \<and>
    trec_log t' = (trec_log (trecs st a))(x \<mapsto> (e, n)) \<and> enclosing_trec t' = enclosing_trec (trecs st a) \<and> t_state t' = t_state (trecs st a)"
proof (cases "next_entry_idx (current_chunk (trecs st a)) < TREC_CHUNK_NUM_ENTRIES")
  case True
  let ?t = "trecs st a" and ?c = "current_chunk (trecs st a)"
  let ?i = "next_entry_idx ?c"
  let ?e = "(entries ?c ?i)\<lparr>e_tvar := x, expected_value := e, new_value := n\<rparr>"
  let ?t' = "?t\<lparr>current_chunk := ?c\<lparr>next_entry_idx := Suc ?i, entries := (entries ?c)(?i := ?e)\<rparr>\<rparr>"
  have a: "add_entry a x e n st = st\<lparr>trecs := (trecs st)(a := ?t')\<rparr>"
    using True by (simp add: add_entry_def get_new_entry_def upd_trec_def Let_def)
  have "map ((entries ?c)(?i := ?e)) [0..<?i] = map (entries ?c) [0..<?i]" by (intro map_cong) auto
  then have "mset (trec_entries ?t') = add_mset ?e (mset (trec_entries ?t))"
    by (simp add: trec_entries_alt)
  from trec_log_add [OF ok this] True show ?thesis
    unfolding a by (intro exI [of _ ?t'] exI [of _ "free_trec_chunks st"]) simp
next
  case False
  let ?t = "trecs st a" and ?c = "current_chunk (trecs st a)"
  obtain nc st' where nc: "alloc_stg_trec_chunk st = (nc, st')" by fastforce
  define fc where "fc = free_trec_chunks st'"
  have st': "st' = st\<lparr>free_trec_chunks := fc\<rparr>"
    using nc by (auto simp: fc_def alloc_stg_trec_chunk_def split: list.splits)
  let ?e = "(entries nc 0)\<lparr>e_tvar := x, expected_value := e, new_value := n\<rparr>"
  let ?t' = "?t\<lparr>prev_chunks := ?c # prev_chunks ?t, current_chunk := nc\<lparr>next_entry_idx := 1, entries := (entries nc)(0 := ?e)\<rparr>\<rparr>"
  have a: "add_entry a x e n st = st\<lparr>trecs := (trecs st)(a := ?t'), free_trec_chunks := fc\<rparr>"
    using False by (simp add: add_entry_def get_new_entry_def upd_trec_def Let_def nc st')
  have "next_entry_idx ?c = TREC_CHUNK_NUM_ENTRIES" using False ok(1) by (simp add: trec_ok_def)
  then have "mset (trec_entries ?t') = add_mset ?e (mset (trec_entries ?t))"
    by (simp add: trec_entries_alt)
  from trec_log_add [OF ok this] show ?thesis
    unfolding a by (intro exI [of _ ?t'] exI [of _ fc]) (simp add: TREC_CHUNK_NUM_ENTRIES_def)
qed

section \<open>Loops over the entries\<close>

text \<open>A search that leaves the state alone until it has found its entry.\<close>

lemma for_each_find:
  assumes "\<And>p. p \<in> set ps \<Longrightarrow> body p s = (if P p then Some (True, g p) else Some (False, s))"
  shows "for_each_pos body ps s = Some (case find P ps of None \<Rightarrow> s | Some p \<Rightarrow> g p)"
  using assms by (induction ps) auto

lemma for_each_all:
  assumes "\<And>pre p post s. ps = pre @ p # post \<Longrightarrow> I pre s \<Longrightarrow> \<exists>s'. body p s = Some (False, s') \<and> I (pre @ [p]) s'"
    and "I [] s"
  shows "\<exists>s'. for_each_pos body ps s = Some s' \<and> I ps s'"
proof -
  have "\<exists>s'. for_each_pos body post s = Some s' \<and> I ps s'" if "ps = pre @ post" "I pre s" for pre post s
    using that
  proof (induction post arbitrary: pre s)
    case (Cons p post)
    from assms(1) [OF Cons.prems] obtain s' where "body p s = Some (False, s')" "I (pre @ [p]) s'" by blast
    with Cons.IH [of "pre @ [p]" s'] Cons.prems(1) show ?case by simp
  qed auto
  from this [of "[]" ps s] assms(2) show ?thesis by simp
qed

definition find_entry :: "trec \<Rightarrow> addr \<Rightarrow> entry_pos option" where
  "find_entry t x = find (\<lambda>p. e_tvar (entry_at t p) = x) (entry_positions t)"

lemma find_entry_Some:
  assumes "trec_ok t"
  shows "find_entry t x = Some p \<longleftrightarrow> p \<in> set (entry_positions t) \<and> e_tvar (entry_at t p) = x"
proof -
  have found: "q \<in> set (entry_positions t) \<and> e_tvar (entry_at t q) = x" if "find_entry t x = Some q" for q
    using that by (auto simp: find_entry_def find_Some_iff)
  moreover have "find_entry t x = Some p" if p: "p \<in> set (entry_positions t)" "e_tvar (entry_at t p) = x"
  proof -
    have "find_entry t x \<noteq> None" using p unfolding find_entry_def find_None_iff by blast
    then obtain q where q: "find_entry t x = Some q" by blast
    with pos_unique [OF assms p(1), of q] found [OF q] p(2) show ?thesis by simp
  qed
  ultimately show ?thesis by blast
qed

lemma find_entry_None: "find_entry t x = None \<longleftrightarrow> trec_log t x = None"
  by (auto simp: find_entry_def find_None_iff trec_log_None_iff)

lemma for_each_until:
  assumes "\<And>pre p post s. ps = pre @ p # post \<Longrightarrow> I pre s \<Longrightarrow>
      (\<exists>s'. body p s = Some (False, s') \<and> I (pre @ [p]) s') \<or> (\<exists>s'. body p s = Some (True, s') \<and> Q s')"
    and "I [] s"
  shows "\<exists>s'. for_each_pos body ps s = Some s' \<and> (I ps s' \<or> Q s')"
proof -
  have "\<exists>s'. for_each_pos body post s = Some s' \<and> (I ps s' \<or> Q s')" if "ps = pre @ post" "I pre s" for pre post s
    using that
  proof (induction post arbitrary: pre s)
    case (Cons p post)
    from assms(1) [OF Cons.prems] show ?case
    proof
      assume "\<exists>s'. body p s = Some (False, s') \<and> I (pre @ [p]) s'"
      then obtain s' where "body p s = Some (False, s')" "I (pre @ [p]) s'" by blast
      with Cons.IH [of "pre @ [p]" s'] Cons.prems(1) show ?case by simp
    qed auto
  qed auto
  from this [of "[]" ps s] assms(2) show ?thesis by simp
qed

end
