(* ===== verification/STMTransactions.thy ===== *)
theory STMTransactions
  imports STM
begin

text \<open>
  What the operations of \<open>STM\<close> do to the logs of the records: reading and writing in a nest of
  transactions, validation and the release of locks, waking threads, committing, starting, merging and
  aborting nested transactions. The logs are the abstract view: a partial map from TVars to the
  expected and the new value.
\<close>

section \<open>Reading and writing in a nest of transactions\<close>

abbreviation nest :: "stm_state \<Rightarrow> addr \<Rightarrow> addr list \<Rightarrow> bool" where
  "nest st \<equiv> chain (\<lambda>t. enclosing_trec (trecs st t)) 0"

primrec nest_find :: "stm_state \<Rightarrow> addr list \<Rightarrow> addr \<Rightarrow> (entry_pos \<times> addr) option" where
  "nest_find st [] x = None"
| "nest_find st (t # ts) x = (case find_entry (trecs st t) x of Some p \<Rightarrow> Some (p, t) | None \<Rightarrow> nest_find st ts x)"

primrec nest_log :: "stm_state \<Rightarrow> addr list \<Rightarrow> addr \<rightharpoonup> closure \<times> closure" where
  "nest_log st [] x = None"
| "nest_log st (t # ts) x = (case trec_log (trecs st t) x of Some v \<Rightarrow> Some v | None \<Rightarrow> nest_log st ts x)"

text \<open>What a transaction expects in a TVar and sees there: by its records, or else by the memory.\<close>

definition nest_view :: "stm_state \<Rightarrow> addr list \<Rightarrow> addr \<Rightarrow> closure \<times> closure" where
  "nest_view st ts x = (case nest_log st ts x of Some v \<Rightarrow> v | None \<Rightarrow> (current_value (tvars st x), current_value (tvars st x)))"

definition readable :: "stm_config \<Rightarrow> stm_state \<Rightarrow> addr \<Rightarrow> bool" where
  "readable cfg st x \<longleftrightarrow> cfg = STM_UNIPROC \<or> (\<forall>t. current_value (tvars st x) \<noteq> TRec t)"

lemma get_entry_for_nest:
  "nest st t ts \<Longrightarrow> ts \<noteq> [] \<Longrightarrow> get_entry_for t x st = Some (nest_find st ts x)"
proof (induction ts arbitrary: t)
  case (Cons u us)
  have u: "t = u" "t \<noteq> 0" "nest st (enclosing_trec (trecs st t)) us" using Cons.prems by auto
  have loop: "for_each_entry (trecs st t)
      (\<lambda>p result. if e_tvar (entry_at (trecs st t) p) = x then Some (True, Some (p, t)) else Some (False, result)) None =
    Some (case find_entry (trecs st t) x of None \<Rightarrow> None | Some p \<Rightarrow> Some (p, t))"
    unfolding for_each_entry_def find_entry_def by (rule for_each_find) simp
  have step: "get_entry_for t x st = (case find_entry (trecs st t) x of Some p \<Rightarrow> Some (Some (p, t))
      | None \<Rightarrow> if enclosing_trec (trecs st t) \<noteq> 0 then get_entry_for (enclosing_trec (trecs st t)) x st else Some None)"
    by (subst get_entry_for.simps) (simp add: loop Let_def split: option.splits)
  show ?case
  proof (cases us)
    case Nil
    then show ?thesis unfolding step using u by (auto split: option.splits)
  next
    case (Cons v vs)
    with u(3) have "enclosing_trec (trecs st t) \<noteq> 0" by simp
    with Cons.IH [OF u(3)] Cons u(1) show ?thesis unfolding step by (auto split: option.splits)
  qed
qed simp

lemma nest_find_log:
  assumes "\<forall>t \<in> set ts. trec_ok (trecs st t)"
  shows "nest_find st ts x = None \<longleftrightarrow> nest_log st ts x = None"
    and "nest_find st ts x = Some (p, u) \<Longrightarrow> u \<in> set ts \<and> p \<in> set (entry_positions (trecs st u)) \<and> e_tvar (entry_at (trecs st u) p) = x \<and>
      nest_log st ts x = Some (expected_value (entry_at (trecs st u) p), new_value (entry_at (trecs st u) p)) \<and>
      (u \<noteq> hd ts \<longrightarrow> trec_log (trecs st (hd ts)) x = None)"
proof -
  have log: "trec_log (trecs st t) x = (case find_entry (trecs st t) x of None \<Rightarrow> None
      | Some p \<Rightarrow> Some (expected_value (entry_at (trecs st t) p), new_value (entry_at (trecs st t) p)))" if "t \<in> set ts" for t
    using that assms by (auto simp: find_entry_None find_entry_Some trec_log_at split: option.splits)
  show "nest_find st ts x = None \<longleftrightarrow> nest_log st ts x = None"
    using log by (induction ts) (auto split: option.splits)
  show "nest_find st ts x = Some (p, u) \<Longrightarrow> u \<in> set ts \<and> p \<in> set (entry_positions (trecs st u)) \<and> e_tvar (entry_at (trecs st u) p) = x \<and>
      nest_log st ts x = Some (expected_value (entry_at (trecs st u) p), new_value (entry_at (trecs st u) p)) \<and>
      (u \<noteq> hd ts \<longrightarrow> trec_log (trecs st (hd ts)) x = None)"
    using assms log
  proof (induction ts)
    case (Cons t ts)
    show ?case
    proof (cases "find_entry (trecs st t) x")
      case None
      with Cons.IH Cons.prems show ?thesis by auto
    next
      case (Some q)
      have tok: "trec_ok (trecs st t)" using Cons.prems(2) by simp
      from Some Cons.prems(1) have "p = q" "u = t" by simp_all
      with Some tok trec_log_at [OF tok, of q] show ?thesis by (simp add: find_entry_Some)
    qed
  qed simp
qed

lemma nest_find_hd:
  assumes "\<forall>t \<in> set ts. trec_ok (trecs st t)" "nest_find st ts x = None" "ts \<noteq> []"
  shows "trec_log (trecs st (hd ts)) x = None"
  using assms by (cases ts) (auto simp: find_entry_None split: option.splits)

text \<open>The state after a record has got a new version, and perhaps taken a chunk off the free list.\<close>

abbreviation with_trec :: "stm_state \<Rightarrow> addr \<Rightarrow> trec \<Rightarrow> trec_chunk list \<Rightarrow> stm_state" where
  "with_trec st t t' fc \<equiv> st\<lparr>trecs := (trecs st)(t := t'), free_trec_chunks := fc\<rparr>"

lemma read_tvar_nest:
  assumes n: "nest st t ts" "ts \<noteq> []" "\<forall>t \<in> set ts. trec_ok (trecs st t)"
    and r: "nest_log st ts x = None \<Longrightarrow> readable cfg st x"
  shows "\<exists>t' fc. stmReadTVar cfg t x st = Some (snd (nest_view st ts x), with_trec st t t' fc) \<and> trec_ok t' \<and>
    trec_log t' = (trec_log (trecs st t))(x \<mapsto> nest_view st ts x) \<and>
    enclosing_trec t' = enclosing_trec (trecs st t) \<and> t_state t' = t_state (trecs st t)"
proof -
  note get = get_entry_for_nest [OF n(1,2), of x]
  have t: "t = hd ts" "t \<in> set ts" using n(1,2) by (cases ts; simp)+
  then have tok: "trec_ok (trecs st t)" using n(3) by blast
  show ?thesis
  proof (cases "nest_find st ts x")
    case None
    have log: "nest_log st ts x = None" using nest_find_log(1) [OF n(3)] None by simp
    have rd: "read_current_value cfg x st = Some (current_value (tvars st x))"
      using r [OF log] by (auto simp: read_current_value_def readable_def split: closure.splits)
    have "trec_log (trecs st t) x = None" using nest_find_hd [OF n(3) None n(2)] t by simp
    from add_entry_correct [OF tok this, of "current_value (tvars st x)" "current_value (tvars st x)"] show ?thesis
      by (auto simp: stmReadTVar_def get None rd nest_view_def log)
  next
    case (Some pu)
    obtain p u where pu: "pu = (p, u)" by (cases pu)
    note f = nest_find_log(2) [OF n(3) Some [unfolded pu]]
    show ?thesis
    proof (cases "u = t")
      case True
      have "(trec_log (trecs st t))(x \<mapsto> nest_view st ts x) = trec_log (trecs st t)"
        using f True trec_log_at [OF tok, of p] by (auto simp: fun_eq_iff nest_view_def)
      then show ?thesis using f True tok
        by (intro exI [of _ "trecs st t"] exI [of _ "free_trec_chunks st"]) (simp add: stmReadTVar_def get Some pu nest_view_def)
    next
      case False
      then have "trec_log (trecs st t) x = None" using f t by simp
      from add_entry_correct [OF tok this, of "expected_value (entry_at (trecs st u) p)" "new_value (entry_at (trecs st u) p)"] False f
      show ?thesis by (auto simp: stmReadTVar_def get Some pu nest_view_def Let_def)
    qed
  qed
qed

lemma write_tvar_nest:
  assumes n: "nest st t ts" "ts \<noteq> []" "\<forall>t \<in> set ts. trec_ok (trecs st t)"
    and r: "nest_log st ts x = None \<Longrightarrow> readable cfg st x"
  shows "\<exists>t' fc. stmWriteTVar cfg t x new st = Some (with_trec st t t' fc) \<and> trec_ok t' \<and>
    trec_log t' = (trec_log (trecs st t))(x \<mapsto> (fst (nest_view st ts x), new)) \<and>
    enclosing_trec t' = enclosing_trec (trecs st t) \<and> t_state t' = t_state (trecs st t)"
proof -
  note get = get_entry_for_nest [OF n(1,2), of x]
  have t: "t = hd ts" "t \<in> set ts" using n(1,2) by (cases ts; simp)+
  then have tok: "trec_ok (trecs st t)" using n(3) by blast
  show ?thesis
  proof (cases "nest_find st ts x")
    case None
    have log: "nest_log st ts x = None" using nest_find_log(1) [OF n(3)] None by simp
    have rd: "read_current_value cfg x st = Some (current_value (tvars st x))"
      using r [OF log] by (auto simp: read_current_value_def readable_def split: closure.splits)
    have "trec_log (trecs st t) x = None" using nest_find_hd [OF n(3) None n(2)] t by simp
    from add_entry_correct [OF tok this, of "current_value (tvars st x)" new] show ?thesis
      by (auto simp: stmWriteTVar_def get None rd nest_view_def log)
  next
    case (Some pu)
    obtain p u where pu: "pu = (p, u)" by (cases pu)
    note f = nest_find_log(2) [OF n(3) Some [unfolded pu]]
    show ?thesis
    proof (cases "u = t")
      case True
      let ?e = "(entry_at (trecs st t) p)\<lparr>new_value := new\<rparr>"
      have "stmWriteTVar cfg t x new st = Some (with_trec st t (set_entry p ?e (trecs st t)) (free_trec_chunks st))"
        using f True by (simp add: stmWriteTVar_def get Some pu Let_def upd_trec_def)
      then show ?thesis using f True trec_log_set_entry [OF tok, of p ?e]
        by (auto simp: nest_view_def intro!: exI [of _ "set_entry p ?e (trecs st t)"] exI [of _ "free_trec_chunks st"])
    next
      case False
      then have "trec_log (trecs st t) x = None" using f t by simp
      from add_entry_correct [OF tok this, of "expected_value (entry_at (trecs st u) p)" new] False f
      show ?thesis by (auto simp: stmWriteTVar_def get Some pu nest_view_def Let_def)
    qed
  qed
qed

section \<open>Validation\<close>

text \<open>A record is valid when it is not condemned and the memory holds what its entries expect.\<close>

definition trec_valid :: "(addr \<Rightarrow> tvar) \<Rightarrow> trec \<Rightarrow> bool" where
  "trec_valid tv t \<longleftrightarrow> t_state t \<noteq> TREC_CONDEMNED \<and>
    (\<forall>p \<in> set (entry_positions t). current_value (tv (e_tvar (entry_at t p))) = expected_value (entry_at t p))"

text \<open>A record whose entries expect no lock, and that owns no TVar.\<close>

definition unowned :: "stm_state \<Rightarrow> addr \<Rightarrow> bool" where
  "unowned st a \<longleftrightarrow> (\<forall>x. current_value (tvars st x) \<noteq> TRec a) \<and>
    (\<forall>p \<in> set (entry_positions (trecs st a)). \<forall>t. expected_value (entry_at (trecs st a) p) \<noteq> TRec t)"

definition locked_by :: "addr \<Rightarrow> addr set \<Rightarrow> (addr \<Rightarrow> tvar) \<Rightarrow> addr \<Rightarrow> tvar" where
  "locked_by a X tv = (\<lambda>x. if x \<in> X then (tv x)\<lparr>current_value := TRec a\<rparr> else tv x)"

lemma locked_by_empty [simp]: "locked_by a {} tv = tv"
  by (simp add: locked_by_def)

lemma locked_by_simps [simp]:
  "num_updates (locked_by a X tv x) = num_updates (tv x)"
  "first_watch_queue_entry (locked_by a X tv x) = first_watch_queue_entry (tv x)"
  "current_value (locked_by a X tv x) = (if x \<in> X then TRec a else current_value (tv x))"
  by (simp_all add: locked_by_def)

lemma locked_by_insert:
  "x \<notin> X \<Longrightarrow> (locked_by a X tv)(x := (tv x)\<lparr>current_value := TRec a\<rparr>) = locked_by a (insert x X) tv"
  by (auto simp: locked_by_def)

definition acquired_set :: "stm_config \<Rightarrow> bool \<Rightarrow> trec \<Rightarrow> entry_pos list \<Rightarrow> addr set" where
  "acquired_set cfg acquire_all t ps =
    {x. cfg = STM_FG_LOCKS \<and> (\<exists>p \<in> set ps. x = e_tvar (entry_at t p) \<and> (acquire_all \<or> entry_is_update (entry_at t p)))}"

text \<open>The same entries but for the versions seen, and the versions of the entries that were only read.\<close>

definition same_log :: "trec \<Rightarrow> trec \<Rightarrow> bool" where
  "same_log t t' \<longleftrightarrow> entry_positions t' = entry_positions t \<and> enclosing_trec t' = enclosing_trec t \<and> t_state t' = t_state t \<and>
    next_entry_idx (current_chunk t') = next_entry_idx (current_chunk t) \<and>
    (\<forall>p \<in> set (entry_positions t). entry_log (entry_at t' p) = entry_log (entry_at t p))"

lemma same_log_refl [simp]: "same_log t t"
  by (simp add: same_log_def)

lemma same_log_ok:
  assumes "same_log t t'"
  shows "trec_ok t' = trec_ok t" "trec_log t' = trec_log t" "trec_valid tv t' = trec_valid tv t"
proof -
  have l: "map entry_log (trec_entries t') = map entry_log (trec_entries t)"
    using assms by (simp add: same_log_def trec_entries_def)
  then have "map fst (map entry_log (trec_entries t')) = map fst (map entry_log (trec_entries t))" by simp
  then have "map e_tvar (trec_entries t') = map e_tvar (trec_entries t)" by simp
  then show "trec_ok t' = trec_ok t" using assms by (simp add: same_log_def trec_ok_def)
  show "trec_log t' = trec_log t" by (simp add: trec_log_def l)
  show "trec_valid tv t' = trec_valid tv t"
    using assms by (auto simp: same_log_def trec_valid_def entry_log_def)
qed

lemma same_log_entry:
  assumes "same_log t t'" "p \<in> set (entry_positions t)"
  shows "e_tvar (entry_at t' p) = e_tvar (entry_at t p)" "expected_value (entry_at t' p) = expected_value (entry_at t p)"
    "new_value (entry_at t' p) = new_value (entry_at t p)" "entry_is_update (entry_at t' p) = entry_is_update (entry_at t p)"
  using assms by (auto simp: same_log_def entry_log_def entry_is_update_def)

lemma same_log_acquired:
  assumes "same_log t t'" "set ps \<subseteq> set (entry_positions t)"
  shows "acquired_set cfg b t' ps = acquired_set cfg b t ps"
proof -
  have "(\<exists>p \<in> set ps. x = e_tvar (entry_at t' p) \<and> (b \<or> entry_is_update (entry_at t' p))) \<longleftrightarrow>
      (\<exists>p \<in> set ps. x = e_tvar (entry_at t p) \<and> (b \<or> entry_is_update (entry_at t p)))" for x
    by (rule bex_cong) (use assms same_log_entry [OF assms(1)] in auto)
  then show ?thesis by (simp add: acquired_set_def)
qed

definition validated :: "stm_config \<Rightarrow> addr \<Rightarrow> bool \<Rightarrow> stm_state \<Rightarrow> entry_pos list \<Rightarrow> stm_state \<Rightarrow> bool" where
  "validated cfg a acquire_all st ps st' \<longleftrightarrow>
    (\<exists>t'. st' = st\<lparr>tvars := locked_by a (acquired_set cfg acquire_all (trecs st a) ps) (tvars st), trecs := (trecs st)(a := t')\<rparr> \<and>
      same_log (trecs st a) t' \<and>
      (\<forall>p \<in> set ps. current_value (tvars st (e_tvar (entry_at (trecs st a) p))) = expected_value (entry_at (trecs st a) p) \<and>
        (cfg = STM_FG_LOCKS \<and> \<not> acquire_all \<and> \<not> entry_is_update (entry_at (trecs st a) p) \<longrightarrow>
          e_num_updates (entry_at t' p) = num_updates (tvars st (e_tvar (entry_at (trecs st a) p))))))"

lemma same_log_trans: "same_log t t' \<Longrightarrow> same_log t' t'' \<Longrightarrow> same_log t t''"
  by (simp add: same_log_def)

lemma same_log_version:
  assumes "p \<in> set (entry_positions t)"
  shows "same_log t (set_entry p ((entry_at t p)\<lparr>e_num_updates := n\<rparr>) t)"
  using assms by (auto simp: same_log_def entry_at_set_entry entry_log_def)

lemma validate_entry_step:
  assumes ok: "trec_ok (trecs st a)" "unowned st a" and c: "cfg = STM_FG_LOCKS \<or> acquire_all"
    and ps: "entry_positions (trecs st a) = pre @ p # post" and v: "validated cfg a acquire_all st pre st1"
  shows "if current_value (tvars st (e_tvar (entry_at (trecs st a) p))) = expected_value (entry_at (trecs st a) p)
    then \<exists>st2. validate_entry cfg a acquire_all p (r, st1) = Some (False, r, st2) \<and> validated cfg a acquire_all st (pre @ [p]) st2
    else validate_entry cfg a acquire_all p (r, st1) = Some (True, False, st1)"
proof -
  let ?t = "trecs st a" and ?e = "entry_at (trecs st a) p"
  obtain t' where st1: "st1 = st\<lparr>tvars := locked_by a (acquired_set cfg acquire_all ?t pre) (tvars st), trecs := (trecs st)(a := t')\<rparr>"
    and t': "same_log ?t t'"
    and seen: "\<And>q. q \<in> set pre \<Longrightarrow> current_value (tvars st (e_tvar (entry_at ?t q))) = expected_value (entry_at ?t q) \<and>
        (cfg = STM_FG_LOCKS \<and> \<not> acquire_all \<and> \<not> entry_is_update (entry_at ?t q) \<longrightarrow>
          e_num_updates (entry_at t' q) = num_updates (tvars st (e_tvar (entry_at ?t q))))"
    using v unfolding validated_def by blast
  have p: "p \<in> set (entry_positions ?t)" "p \<notin> set pre"
    using ps distinct_entry_positions [of ?t] by (auto simp del: distinct_entry_positions)
  have p': "p \<in> set (entry_positions t')" using p(1) t' by (simp add: same_log_def)
  have e': "e_tvar (entry_at t' p) = e_tvar ?e" "expected_value (entry_at t' p) = expected_value ?e"
    "entry_is_update (entry_at t' p) = entry_is_update ?e"
    using t' p(1) by (auto simp: same_log_def entry_log_def entry_is_update_def)
  have new: "e_tvar ?e \<notin> acquired_set cfg acquire_all ?t pre"
    using p pos_unique [OF ok(1) p(1)] ps by (auto simp: acquired_set_def)
  show ?thesis
  proof (cases "acquire_all \<or> entry_is_update ?e")
    case True
    have acq: "acquired_set cfg acquire_all ?t (pre @ [p]) =
        (if cfg = STM_FG_LOCKS then insert (e_tvar ?e) (acquired_set cfg acquire_all ?t pre) else {})"
      using True by (auto simp: acquired_set_def)
    show ?thesis
    proof (cases "current_value (tvars st (e_tvar ?e)) = expected_value ?e")
      case m: True
      let ?st2 = "if cfg = STM_FG_LOCKS then upd_tvar (e_tvar ?e) (\<lambda>v. v\<lparr>current_value := TRec a\<rparr>) st1 else st1"
      have "validate_entry cfg a acquire_all p (r, st1) = Some (False, r, ?st2)"
        using True m new e' by (cases cfg) (auto simp: validate_entry_def st1 Let_def)
      moreover have "?st2 = st\<lparr>tvars := locked_by a (acquired_set cfg acquire_all ?t (pre @ [p])) (tvars st), trecs := (trecs st)(a := t')\<rparr>"
        using new locked_by_insert unfolding acq
        by (intro stm_state.equality) (auto simp: st1 upd_tvar_def, auto simp: locked_by_def acquired_set_def)
      ultimately have "validated cfg a acquire_all st (pre @ [p]) ?st2"
        unfolding validated_def by (intro exI [of _ t'] conjI t') (use seen m True in auto)
      with \<open>validate_entry cfg a acquire_all p (r, st1) = Some (False, r, ?st2)\<close> show ?thesis using m by auto
    next
      case False
      then show ?thesis using True new e' by (cases cfg) (auto simp: validate_entry_def st1 Let_def)
    qed
  next
    case False
    then have fg: "cfg = STM_FG_LOCKS" using c by simp
    have acq: "acquired_set cfg acquire_all ?t (pre @ [p]) = acquired_set cfg acquire_all ?t pre"
      using False by (auto simp: acquired_set_def)
    show ?thesis
    proof (cases "current_value (tvars st (e_tvar ?e)) = expected_value ?e")
      case m: True
      let ?t2 = "set_entry p ((entry_at t' p)\<lparr>e_num_updates := num_updates (tvars st (e_tvar ?e))\<rparr>) t'"
      have "validate_entry cfg a acquire_all p (r, st1) = Some (False, r, st1\<lparr>trecs := (trecs st)(a := ?t2)\<rparr>)"
        using False m new e' fg by (simp add: validate_entry_def st1 Let_def upd_trec_def)
      moreover have "same_log ?t ?t2" using same_log_trans [OF t' same_log_version [OF p']] .
      ultimately have "validated cfg a acquire_all st (pre @ [p]) (st1\<lparr>trecs := (trecs st)(a := ?t2)\<rparr>)"
        unfolding validated_def acq by (intro exI [of _ ?t2] conjI) (use seen m p p' in \<open>auto simp: st1 entry_at_set_entry\<close>)
      with \<open>validate_entry cfg a acquire_all p (r, st1) = Some (False, r, st1\<lparr>trecs := (trecs st)(a := ?t2)\<rparr>)\<close>
      show ?thesis using m by auto
    next
      case False
      then show ?thesis using \<open>\<not> (acquire_all \<or> entry_is_update ?e)\<close> new e' fg by (simp add: validate_entry_def st1 Let_def)
    qed
  qed
qed

lemma revert_restores:
  assumes st: "tvars st = locked_by a X tv" and X: "cfg = STM_UNIPROC \<Longrightarrow> X = {}"
    "X \<subseteq> {x. \<exists>p \<in> set (entry_positions (trecs st a)). x = e_tvar (entry_at (trecs st a) p) \<and>
        (ra \<or> entry_is_update (entry_at (trecs st a) p))}"
    and val: "\<And>p. p \<in> set (entry_positions (trecs st a)) \<Longrightarrow> e_tvar (entry_at (trecs st a) p) \<in> X \<Longrightarrow>
      current_value (tv (e_tvar (entry_at (trecs st a) p))) = expected_value (entry_at (trecs st a) p)"
    and free: "\<And>x. current_value (tv x) \<noteq> TRec a"
  shows "revert_ownership cfg a ra st = Some (st\<lparr>tvars := tv\<rparr>)"
proof (cases cfg)
  case STM_UNIPROC
  then show ?thesis using X st by (simp add: revert_ownership_def)
next
  case STM_FG_LOCKS
  let ?t = "trecs st a"
  let ?done = "\<lambda>ps. {x. \<exists>p \<in> set ps. x = e_tvar (entry_at ?t p) \<and> (ra \<or> entry_is_update (entry_at ?t p))}"
  let ?I = "\<lambda>ps s. s = st\<lparr>tvars := locked_by a (X - ?done ps) tv\<rparr>"
  have "\<exists>s'. for_each_pos (revert_entry cfg a ra) (entry_positions ?t) st = Some s' \<and> ?I (entry_positions ?t) s'"
  proof (rule for_each_all)
    show "?I [] st" using st by simp
  next
    fix pre p post s
    assume ps: "entry_positions ?t = pre @ p # post" and s: "?I pre s"
    have p: "p \<in> set (entry_positions ?t)" using ps by simp
    let ?x = "e_tvar (entry_at ?t p)"
    have lock: "tvar_is_locked ?x a s \<longleftrightarrow> ?x \<in> X - ?done pre"
      using free by (simp add: tvar_is_locked_def s)
    show "\<exists>s'. revert_entry cfg a ra p s = Some (False, s') \<and> ?I (pre @ [p]) s'"
    proof (cases "(ra \<or> entry_is_update (entry_at ?t p)) \<and> ?x \<in> X - ?done pre")
      case True
      then have eq: "(locked_by a (X - ?done pre) tv)(?x := (tv ?x)\<lparr>current_value := expected_value (entry_at ?t p)\<rparr>) =
          locked_by a (X - ?done (pre @ [p])) tv"
        using val [OF p] by (auto simp: locked_by_def fun_eq_iff)
      have "revert_entry cfg a ra p s = Some (False, st\<lparr>tvars := locked_by a (X - ?done (pre @ [p])) tv\<rparr>)"
        using True lock unfolding eq [symmetric] by (simp add: revert_entry_def s STM_FG_LOCKS upd_tvar_def Let_def locked_by_def)
      then show ?thesis by blast
    next
      case False
      then have "X - ?done (pre @ [p]) = X - ?done pre" by auto
      moreover have "revert_entry cfg a ra p s = Some (False, s)"
        using False lock by (auto simp: revert_entry_def s Let_def)
      ultimately show ?thesis using s by auto
    qed
  qed
  moreover have "X - ?done (entry_positions ?t) = {}" using X(2) by blast
  ultimately show ?thesis by (simp add: revert_ownership_def for_each_entry_def STM_FG_LOCKS)
qed

lemma validated_revert:
  assumes v: "validated cfg a ra st ps st1" and ps: "set ps \<subseteq> set (entry_positions (trecs st a))"
    and ok: "trec_ok (trecs st a)" "unowned st a"
  shows "\<exists>t'. revert_ownership cfg a ra st1 = Some (st\<lparr>trecs := (trecs st)(a := t')\<rparr>) \<and> same_log (trecs st a) t'"
proof -
  let ?X = "acquired_set cfg ra (trecs st a) ps"
  obtain t' where t': "same_log (trecs st a) t'" and st1: "st1 = st\<lparr>tvars := locked_by a ?X (tvars st), trecs := (trecs st)(a := t')\<rparr>"
    and seen: "\<And>p. p \<in> set ps \<Longrightarrow> current_value (tvars st (e_tvar (entry_at (trecs st a) p))) = expected_value (entry_at (trecs st a) p)"
    using v unfolding validated_def by blast
  note e' = same_log_entry [OF t']
  have pos: "entry_positions t' = entry_positions (trecs st a)" using t' by (simp add: same_log_def)
  have "revert_ownership cfg a ra st1 = Some (st1\<lparr>tvars := tvars st\<rparr>)"
  proof (rule revert_restores)
    show "tvars st1 = locked_by a ?X (tvars st)" by (simp add: st1)
    show "cfg = STM_UNIPROC \<Longrightarrow> ?X = {}" by (simp add: acquired_set_def)
    show "?X \<subseteq> {x. \<exists>p \<in> set (entry_positions (trecs st1 a)). x = e_tvar (entry_at (trecs st1 a) p) \<and>
        (ra \<or> entry_is_update (entry_at (trecs st1 a) p))}"
      unfolding same_log_acquired [OF t' ps, symmetric] using ps pos unfolding acquired_set_def by (auto simp: st1 pos)
    show "current_value (tvars st x) \<noteq> TRec a" for x using ok(2) by (simp add: unowned_def)
  next
    fix p assume p: "p \<in> set (entry_positions (trecs st1 a))" "e_tvar (entry_at (trecs st1 a) p) \<in> ?X"
    then obtain q where q: "q \<in> set ps" "e_tvar (entry_at (trecs st a) p) = e_tvar (entry_at (trecs st a) q)"
      using e' pos by (auto simp: st1 acquired_set_def)
    have p': "p \<in> set (entry_positions (trecs st a))" and q': "q \<in> set (entry_positions (trecs st a))"
      using p(1) q(1) ps pos by (auto simp: st1)
    have "p = q" using pos_unique [OF ok(1) p' q'] q(2) by simp
    then show "current_value (tvars st (e_tvar (entry_at (trecs st1 a) p))) = expected_value (entry_at (trecs st1 a) p)"
      using seen [OF q(1)] e' [OF q'] by (simp add: st1)
  qed
  moreover have "st1\<lparr>tvars := tvars st\<rparr> = st\<lparr>trecs := (trecs st)(a := t')\<rparr>" by (simp add: st1)
  ultimately show ?thesis using t' by auto
qed

lemma validate_acquire:
  assumes ok: "trec_ok (trecs st a)" "unowned st a" and c: "cfg = STM_FG_LOCKS \<or> acquire_all"
  shows "\<exists>st'. validate_and_acquire_ownership cfg a acquire_all retain st = Some (trec_valid (tvars st) (trecs st a), st') \<and>
    (if trec_valid (tvars st) (trecs st a) \<and> retain
     then validated cfg a acquire_all st (entry_positions (trecs st a)) st'
     else \<exists>t'. st' = st\<lparr>trecs := (trecs st)(a := t')\<rparr> \<and> same_log (trecs st a) t')"
proof (cases "t_state (trecs st a) = TREC_CONDEMNED")
  case True
  have "validated cfg a acquire_all st [] st" by (auto simp: validated_def acquired_set_def intro!: exI [of _ "trecs st a"])
  from validated_revert [OF this _ ok] True show ?thesis
    by (auto simp: validate_and_acquire_ownership_def trec_valid_def)
next
  case False
  let ?t = "trecs st a"
  let ?ps = "entry_positions ?t"
  let ?I = "\<lambda>pre rs. fst rs \<and> validated cfg a acquire_all st pre (snd rs)"
  let ?Q = "\<lambda>rs. \<not> fst rs \<and> \<not> trec_valid (tvars st) ?t \<and> (\<exists>pre. set pre \<subseteq> set ?ps \<and> validated cfg a acquire_all st pre (snd rs))"
  have "\<exists>rs. for_each_pos (validate_entry cfg a acquire_all) ?ps (True, st) = Some rs \<and> (?I ?ps rs \<or> ?Q rs)"
  proof (rule for_each_until)
    show "?I [] (True, st)" by (auto simp: validated_def acquired_set_def intro!: exI [of _ ?t])
  next
    fix pre p post rs
    assume ps: "?ps = pre @ p # post" and rs: "?I pre rs"
    obtain r st1 where [simp]: "rs = (r, st1)" by (cases rs)
    from validate_entry_step [OF ok c ps, of st1 r] rs
    show "(\<exists>rs'. validate_entry cfg a acquire_all p rs = Some (False, rs') \<and> ?I (pre @ [p]) rs') \<or>
        (\<exists>rs'. validate_entry cfg a acquire_all p rs = Some (True, rs') \<and> ?Q rs')"
      using ps by (fastforce simp: trec_valid_def split: if_splits)
  qed
  then obtain r st1 where loop: "for_each_pos (validate_entry cfg a acquire_all) ?ps (True, st) = Some (r, st1)" "?I ?ps (r, st1) \<or> ?Q (r, st1)"
    by fastforce
  have r: "r = trec_valid (tvars st) ?t" using loop(2) False by (auto simp: validated_def trec_valid_def)
  have "\<exists>pre. set pre \<subseteq> set ?ps \<and> validated cfg a acquire_all st pre st1" using loop(2) unfolding fst_conv snd_conv by blast
  then obtain pre where pre: "set pre \<subseteq> set ?ps" "validated cfg a acquire_all st pre st1" by blast
  from validated_revert [OF pre(2,1) ok] loop r False show ?thesis
    by (cases "r \<and> retain") (auto simp: validate_and_acquire_ownership_def for_each_entry_def)
qed

section \<open>Waking the waiting threads\<close>

text \<open>The queue of a TVar: linked both ways, from its first entry on.\<close>

primrec back_links :: "(addr \<Rightarrow> watch_queue) \<Rightarrow> addr \<Rightarrow> addr list \<Rightarrow> bool" where
  "back_links wqs p [] = True"
| "back_links wqs p (q # qs) = (prev_queue_entry (wqs q) = p \<and> back_links wqs q qs)"

definition queue_ok :: "stm_state \<Rightarrow> addr \<Rightarrow> addr list \<Rightarrow> bool" where
  "queue_ok st x qs \<longleftrightarrow> chain (\<lambda>q. next_queue_entry (watch_queues st q)) 0 (first_watch_queue_entry (tvars st x)) qs \<and>
    back_links (watch_queues st) 0 qs"

definition waiters :: "stm_state \<Rightarrow> addr list \<Rightarrow> addr list" where
  "waiters st qs = map (\<lambda>q. wq_closure (watch_queues st q)) (rev qs)"

definition wake :: "stm_config \<Rightarrow> addr list \<Rightarrow> stm_state \<Rightarrow> stm_state" where
  "wake cfg us st = fold (unpark_tso cfg) us st"

lemma unpark_fields [simp]:
  "tvars (unpark_tso cfg u st) = tvars st" "watch_queues (unpark_tso cfg u st) = watch_queues st"
  "trecs (unpark_tso cfg u st) = trecs st" "cap_no (unpark_tso cfg u st) = cap_no st"
  by (simp_all add: unpark_tso_def tryWakeupThread_def)

lemma wake_fields [simp]:
  "tvars (wake cfg us st) = tvars st" "watch_queues (wake cfg us st) = watch_queues st"
  "trecs (wake cfg us st) = trecs st" "cap_no (wake cfg us st) = cap_no st"
  by (induction us arbitrary: st) (simp_all add: wake_def)

lemma wake_append: "wake cfg (us @ vs) st = wake cfg vs (wake cfg us st)"
  by (simp add: wake_def)

lemma unpark_update:
  "unpark_tso cfg u (st\<lparr>tvars := T\<rparr>) = (unpark_tso cfg u st)\<lparr>tvars := T\<rparr>"
  "unpark_tso cfg u (st\<lparr>trecs := R\<rparr>) = (unpark_tso cfg u st)\<lparr>trecs := R\<rparr>"
  by (rule stm_state.equality; simp add: unpark_tso_def tryWakeupThread_def upd_tso_def)+

lemma wake_update:
  "wake cfg us (st\<lparr>tvars := T\<rparr>) = (wake cfg us st)\<lparr>tvars := T\<rparr>"
  "wake cfg us (st\<lparr>trecs := R\<rparr>) = (wake cfg us st)\<lparr>trecs := R\<rparr>"
  by (induction us arbitrary: st) (simp_all add: wake_def unpark_update)

lemma queue_tail_chain:
  "chain (\<lambda>q. next_queue_entry (wqs q)) 0 q qs \<Longrightarrow> queue_tail wqs q trail = Some (if qs = [] then trail else last qs)"
proof (induction qs arbitrary: q trail)
  case (Cons r rs)
  then show ?case using queue_tail.simps [of wqs q trail] by (cases rs) auto
qed (simp add: queue_tail.simps)

lemma unpark_back_links:
  "back_links (watch_queues st) p qs \<Longrightarrow> 0 \<notin> set qs \<Longrightarrow>
    unpark_back cfg (if qs = [] then p else last qs) st = unpark_back cfg p (wake cfg (waiters st qs) st)"
proof (induction qs arbitrary: st rule: rev_induct)
  case (snoc q qs)
  have links: "back_links ws p (qs @ [q]) \<longleftrightarrow> back_links ws p qs \<and> prev_queue_entry (ws q) = (if qs = [] then p else last qs)" for ws
    by (induction qs arbitrary: p) auto
  let ?st = "unpark_tso cfg (wq_closure (watch_queues st q)) st"
  have "unpark_back cfg q st = unpark_back cfg (if qs = [] then p else last qs) ?st"
    using snoc.prems by (subst unpark_back.simps) (simp add: links Let_def)
  also have "\<dots> = unpark_back cfg p (wake cfg (waiters ?st qs) ?st)"
    using snoc.prems by (intro snoc.IH) (simp_all add: links)
  finally show ?case by (simp add: waiters_def wake_def)
qed (simp add: wake_def waiters_def)

lemma unpark_waiters:
  assumes "queue_ok st x qs"
  shows "unpark_waiters_on cfg x st = Some (wake cfg (waiters st qs) st)"
proof -
  have ch: "chain (\<lambda>q. next_queue_entry (watch_queues st q)) 0 (first_watch_queue_entry (tvars st x)) qs"
    and bk: "back_links (watch_queues st) 0 qs" using assms by (simp_all add: queue_ok_def)
  have "first_watch_queue_entry (tvars st x) = 0" if "qs = []" using ch that by simp
  then have "unpark_waiters_on cfg x st = unpark_back cfg (if qs = [] then 0 else last qs) st"
    by (auto simp: unpark_waiters_on_def queue_tail_chain [OF ch])
  then show ?thesis
    using unpark_back_links [OF bk chain_notin_nil [OF ch], of cfg] by (simp add: unpark_back.simps [of _ 0])
qed

text \<open>What has become of a thread that had to be woken.\<close>

definition woken :: "stm_config \<Rightarrow> stm_state \<Rightarrow> stm_state \<Rightarrow> addr \<Rightarrow> bool" where
  "woken cfg st st' u \<longleftrightarrow>
    (if cfg = STM_FG_LOCKS \<and> tso_cap (tsos st u) \<noteq> cap_no st then (tso_cap (tsos st u), u) \<in> set (wakeups_sent st')
     else unblocks (tsos st u) \<longrightarrow> u \<in> set (run_queue st') \<and> why_blocked (tsos st' u) = NotBlocked)"

lemma woken_cong:
  "tsos st2 = tsos st \<Longrightarrow> cap_no st2 = cap_no st \<Longrightarrow> tsos st2' = tsos st' \<Longrightarrow> run_queue st2' = run_queue st' \<Longrightarrow>
    wakeups_sent st2' = wakeups_sent st' \<Longrightarrow> woken cfg st2 st2' u = woken cfg st st' u"
  by (simp add: woken_def)

lemma unpark_tso_woken:
  "woken cfg st (unpark_tso cfg u st) u"
  "woken cfg st st' u \<Longrightarrow> cap_no st' = cap_no st \<Longrightarrow> woken cfg st (unpark_tso cfg v st') u"
  "tso_cap (tsos (unpark_tso cfg v st) u) = tso_cap (tsos st u)"
  "u \<noteq> v \<Longrightarrow> tsos (unpark_tso cfg v st) u = tsos st u"
  by (auto simp: woken_def unpark_tso_def tryWakeupThread_def upd_tso_def)

lemma wake_woken_mono: "woken cfg st st' u \<Longrightarrow> cap_no st' = cap_no st \<Longrightarrow> woken cfg st (wake cfg us st') u"
  by (induction us arbitrary: st') (auto simp: wake_def unpark_tso_woken)

lemma wake_woken: "u \<in> set us \<Longrightarrow> woken cfg st (wake cfg us st) u"
proof (induction us arbitrary: st)
  case (Cons v us)
  have w: "wake cfg (v # us) st = wake cfg us (unpark_tso cfg v st)" by (simp add: wake_def)
  show ?case
  proof (cases "u = v")
    case True
    then show ?thesis unfolding w by (intro wake_woken_mono) (simp_all add: unpark_tso_woken)
  next
    case False
    then have "woken cfg (unpark_tso cfg v st) (wake cfg us (unpark_tso cfg v st)) u" using Cons by simp
    then show ?thesis unfolding w using False unpark_tso_woken(4) [of u v cfg st] by (auto simp: woken_def split: if_splits)
  qed
qed simp

text \<open>What an operation does not touch: the queues of the TVars and the list of free queue entries; in the second
  definition, neither the TVars nor the threads. In the third one threads are only unblocked.\<close>

definition queues_kept :: "stm_state \<Rightarrow> stm_state \<Rightarrow> bool" where
  "queues_kept st st' \<longleftrightarrow> watch_queues st' = watch_queues st \<and> free_tvar_watch_queues st' = free_tvar_watch_queues st \<and>
    next_object st \<le> next_object st' \<and> (\<forall>x. first_watch_queue_entry (tvars st' x) = first_watch_queue_entry (tvars st x))"

definition undisturbed :: "stm_state \<Rightarrow> stm_state \<Rightarrow> bool" where
  "undisturbed st st' \<longleftrightarrow> queues_kept st st' \<and> tvars st' = tvars st \<and> tsos st' = tsos st \<and>
    wakeups_sent st' = wakeups_sent st \<and> cap_no st' = cap_no st"

definition only_woken :: "stm_state \<Rightarrow> stm_state \<Rightarrow> bool" where
  "only_woken st st' \<longleftrightarrow> (\<forall>u. tso_cap (tsos st' u) = tso_cap (tsos st u) \<and>
      (why_blocked (tsos st' u) = why_blocked (tsos st u) \<or> why_blocked (tsos st' u) = NotBlocked)) \<and>
    set (wakeups_sent st) \<subseteq> set (wakeups_sent st')"

lemma wake_only: "only_woken st (wake cfg us st)"
proof (induction us arbitrary: st)
  case (Cons u us)
  have "only_woken st (unpark_tso cfg u st)"
    by (auto simp: only_woken_def unpark_tso_def tryWakeupThread_def)
  with Cons [of "unpark_tso cfg u st"] show ?case unfolding only_woken_def wake_def by (simp, metis subset_trans)
qed (simp add: only_woken_def wake_def)

lemma only_woken_cong:
  "tsos st2 = tsos st \<Longrightarrow> wakeups_sent st2 = wakeups_sent st \<Longrightarrow> tsos st2' = tsos st' \<Longrightarrow> wakeups_sent st2' = wakeups_sent st' \<Longrightarrow>
    only_woken st2 st2' = only_woken st st'"
  by (simp add: only_woken_def)

lemma wake_lists [simp]: "free_tvar_watch_queues (wake cfg us st) = free_tvar_watch_queues st" "next_object (wake cfg us st) = next_object st"
  by (induction us arbitrary: st) (simp_all add: wake_def unpark_tso_def tryWakeupThread_def)

section \<open>Committing\<close>

definition written_set :: "stm_config \<Rightarrow> trec \<Rightarrow> entry_pos list \<Rightarrow> addr set" where
  "written_set cfg t ps = {x. \<exists>p \<in> set ps. x = e_tvar (entry_at t p) \<and> (cfg = STM_UNIPROC \<or> entry_is_update (entry_at t p))}"

text \<open>The TVars after the updates of a log have been written to the TVars in a set.\<close>

definition write_log :: "stm_config \<Rightarrow> (addr \<rightharpoonup> closure \<times> closure) \<Rightarrow> addr set \<Rightarrow> (addr \<Rightarrow> tvar) \<Rightarrow> addr \<Rightarrow> tvar" where
  "write_log cfg L X tv = (\<lambda>x. if x \<in> X
     then (tv x)\<lparr>num_updates := num_updates (tv x) + (if cfg = STM_FG_LOCKS then 1 else 0), current_value := snd (the (L x))\<rparr>
     else tv x)"

lemma write_log_simps [simp]:
  "first_watch_queue_entry (write_log cfg L X tv x) = first_watch_queue_entry (tv x)"
  "current_value (write_log cfg L X tv x) = (if x \<in> X then snd (the (L x)) else current_value (tv x))"
  "write_log cfg L {} tv = tv"
  by (simp_all add: write_log_def)

lemma queue_ok_cong:
  "first_watch_queue_entry (tvars st' x) = first_watch_queue_entry (tvars st x) \<Longrightarrow> watch_queues st' = watch_queues st \<Longrightarrow>
    queue_ok st' x qs = queue_ok st x qs"
  by (simp add: queue_ok_def)

lemma waiters_cong: "watch_queues st' = watch_queues st \<Longrightarrow> waiters st' qs = waiters st qs"
  by (simp add: waiters_def)

lemma write_back_loop:
  assumes ok: "trec_ok (trecs st a)" and q: "\<And>x. queue_ok st x (Q x)"
  shows "\<exists>us. for_each_entry (trecs st a) (write_back cfg a) st =
      Some ((wake cfg us st)\<lparr>tvars := write_log cfg (trec_log (trecs st a)) (written_set cfg (trecs st a) (entry_positions (trecs st a))) (tvars st)\<rparr>) \<and>
    (\<forall>x \<in> written_set cfg (trecs st a) (entry_positions (trecs st a)). set (waiters st (Q x)) \<subseteq> set us)"
proof -
  let ?t = "trecs st a"
  let ?ps = "entry_positions ?t" and ?W = "written_set cfg ?t"
  let ?T = "\<lambda>ps. write_log cfg (trec_log ?t) (?W ps) (tvars st)"
  let ?I = "\<lambda>ps s. \<exists>us. s = (wake cfg us st)\<lparr>tvars := ?T ps\<rparr> \<and> (\<forall>x \<in> ?W ps. set (waiters st (Q x)) \<subseteq> set us)"
  have "\<exists>s'. for_each_pos (write_back cfg a) ?ps st = Some s' \<and> ?I ?ps s'"
  proof (rule for_each_all)
    show "?I [] st" by (intro exI [of _ "[]"]) (simp add: wake_def written_set_def)
  next
    fix pre p post s
    assume ps: "?ps = pre @ p # post" and "?I pre s"
    then obtain us where s: "s = (wake cfg us st)\<lparr>tvars := ?T pre\<rparr>" and us: "\<forall>x \<in> ?W pre. set (waiters st (Q x)) \<subseteq> set us" by blast
    let ?e = "entry_at ?t p"
    let ?x = "e_tvar ?e"
    have p: "p \<in> set ?ps" "p \<notin> set pre" using ps distinct_entry_positions [of ?t] by (auto simp del: distinct_entry_positions)
    show "\<exists>s'. write_back cfg a p s = Some (False, s') \<and> ?I (pre @ [p]) s'"
    proof (cases "cfg = STM_UNIPROC \<or> entry_is_update ?e")
      case True
      have W: "?W (pre @ [p]) = insert ?x (?W pre)" using True by (auto simp: written_set_def)
      have x: "?x \<notin> ?W pre" using p pos_unique [OF ok p(1)] ps by (auto simp: written_set_def)
      have "queue_ok s ?x (Q ?x)" using q by (simp add: s cong: queue_ok_cong)
      then have wk: "unpark_waiters_on cfg ?x s = Some (wake cfg (waiters st (Q ?x)) s)"
        by (simp add: unpark_waiters s waiters_cong [of "(wake cfg us st)\<lparr>tvars := ?T pre\<rparr>" st])
      let ?s' = "(wake cfg (us @ waiters st (Q ?x)) st)\<lparr>tvars := ?T (pre @ [p])\<rparr>"
      have T: "(?T pre)(?x := (tvars st ?x)\<lparr>num_updates := num_updates (tvars st ?x) +
          (if cfg = STM_FG_LOCKS then 1 else 0), current_value := new_value ?e\<rparr>) = ?T (pre @ [p])"
        using x trec_log_at [OF ok p(1)] unfolding W by (auto simp: write_log_def)
      have "write_back cfg a p s = Some (False, ?s')"
      proof (cases cfg)
        case STM_UNIPROC
        then show ?thesis using wk x unfolding T [symmetric]
          by (simp add: write_back_def s Let_def config_use_read_phase_def wake_update wake_append upd_tvar_def write_log_def)
      next
        case STM_FG_LOCKS
        then show ?thesis using wk x True unfolding T [symmetric]
          by (simp add: write_back_def s Let_def config_use_read_phase_def wake_update wake_append upd_tvar_def write_log_def entry_is_update_def)
      qed
      moreover have "?I (pre @ [p]) ?s'" using us by (intro exI [of _ "us @ waiters st (Q ?x)"]) (auto simp: W)
      ultimately show ?thesis by blast
    next
      case False
      then have "?W (pre @ [p]) = ?W pre" by (auto simp: written_set_def)
      moreover have "write_back cfg a p s = Some (False, s)"
        using False by (cases cfg) (auto simp: write_back_def s Let_def config_use_read_phase_def entry_is_update_def)
      ultimately show ?thesis using s us by auto
    qed
  qed
  then show ?thesis by (auto simp: for_each_entry_def)
qed

lemma free_header_fields [simp]:
  "tvars (free_stg_trec_header a st) = tvars st" "tsos (free_stg_trec_header a st) = tsos st"
  "watch_queues (free_stg_trec_header a st) = watch_queues st" "run_queue (free_stg_trec_header a st) = run_queue st"
  "wakeups_sent (free_stg_trec_header a st) = wakeups_sent st" "cap_no (free_stg_trec_header a st) = cap_no st"
  "free_tvar_watch_queues (free_stg_trec_header a st) = free_tvar_watch_queues st"
  "next_object (free_stg_trec_header a st) = next_object st"
  "b \<noteq> a \<Longrightarrow> trecs (free_stg_trec_header a st) b = trecs st b"
proof -
  have f: "tvars (fold free_stg_trec_chunk cs st) = tvars st \<and> tsos (fold free_stg_trec_chunk cs st) = tsos st \<and>
      watch_queues (fold free_stg_trec_chunk cs st) = watch_queues st \<and> run_queue (fold free_stg_trec_chunk cs st) = run_queue st \<and>
      wakeups_sent (fold free_stg_trec_chunk cs st) = wakeups_sent st \<and> cap_no (fold free_stg_trec_chunk cs st) = cap_no st \<and>
      free_tvar_watch_queues (fold free_stg_trec_chunk cs st) = free_tvar_watch_queues st \<and>
      next_object (fold free_stg_trec_chunk cs st) = next_object st \<and> trecs (fold free_stg_trec_chunk cs st) = trecs st" for cs
    by (induction cs arbitrary: st) (simp_all add: free_stg_trec_chunk_def)
  show "tvars (free_stg_trec_header a st) = tvars st" "tsos (free_stg_trec_header a st) = tsos st"
    "watch_queues (free_stg_trec_header a st) = watch_queues st" "run_queue (free_stg_trec_header a st) = run_queue st"
    "wakeups_sent (free_stg_trec_header a st) = wakeups_sent st" "cap_no (free_stg_trec_header a st) = cap_no st"
    "free_tvar_watch_queues (free_stg_trec_header a st) = free_tvar_watch_queues st"
    "next_object (free_stg_trec_header a st) = next_object st"
    "b \<noteq> a \<Longrightarrow> trecs (free_stg_trec_header a st) b = trecs st b"
    using f [of "prev_chunks (trecs st a)"] by (simp_all add: free_stg_trec_header_def Let_def)
qed

lemma validated_check_read_only:
  assumes v: "validated cfg a False st (entry_positions (trecs st a)) st1" and ok: "trec_ok (trecs st a)"
  shows "check_read_only cfg a st1 = Some True"
proof (cases cfg)
  case STM_FG_LOCKS
  let ?t = "trecs st a"
  obtain t' where t': "same_log ?t t'"
    and st1: "st1 = st\<lparr>tvars := locked_by a (acquired_set cfg False ?t (entry_positions ?t)) (tvars st), trecs := (trecs st)(a := t')\<rparr>"
    and seen: "\<And>p. p \<in> set (entry_positions ?t) \<Longrightarrow> current_value (tvars st (e_tvar (entry_at ?t p))) = expected_value (entry_at ?t p) \<and>
      (\<not> entry_is_update (entry_at ?t p) \<longrightarrow> e_num_updates (entry_at t' p) = num_updates (tvars st (e_tvar (entry_at ?t p))))"
    using v STM_FG_LOCKS unfolding validated_def by blast
  note e' = same_log_entry [OF t']
  have pos: "entry_positions t' = entry_positions ?t" using t' by (simp add: same_log_def)
  let ?P = "\<lambda>p. entry_is_read_only (entry_at t' p) \<and>
    (current_value (tvars st1 (e_tvar (entry_at t' p))) \<noteq> expected_value (entry_at t' p) \<or>
     num_updates (tvars st1 (e_tvar (entry_at t' p))) \<noteq> e_num_updates (entry_at t' p))"
  have "\<not> ?P p" if p: "p \<in> set (entry_positions ?t)" for p
  proof (cases "entry_is_update (entry_at ?t p)")
    case False
    have "e_tvar (entry_at ?t p) \<notin> acquired_set cfg False ?t (entry_positions ?t)"
      using False pos_unique [OF ok p] by (auto simp: acquired_set_def)
    then show ?thesis using seen [OF p] False e' [OF p] by (simp add: st1)
  qed (use e' [OF p] in \<open>simp add: entry_is_read_only_def entry_is_update_def\<close>)
  then have "find ?P (entry_positions ?t) = None" by (simp add: find_None_iff)
  moreover have "for_each_pos (\<lambda>p result. let e = entry_at (trecs st1 a) p; v = tvars st1 (e_tvar e)
        in if entry_is_read_only e \<and> (current_value v \<noteq> expected_value e \<or> num_updates v \<noteq> e_num_updates e)
           then Some (True, False) else Some (False, result)) (entry_positions ?t) True =
      Some (case find ?P (entry_positions ?t) of None \<Rightarrow> True | Some p \<Rightarrow> False)"
    by (rule for_each_find) (simp add: st1 Let_def)
  ultimately show ?thesis by (simp add: check_read_only_def STM_FG_LOCKS for_each_entry_def st1 pos)
qed (simp add: check_read_only_def)

definition after_write :: "(addr \<rightharpoonup> closure \<times> closure) \<Rightarrow> closure \<Rightarrow> addr \<Rightarrow> closure" where
  "after_write L v x = (case L x of None \<Rightarrow> v | Some (_, new) \<Rightarrow> new)"

lemma written_update:
  assumes "trec_ok t" "trec_log t x = Some (e, n)"
  shows "x \<in> written_set cfg t (entry_positions t) \<longleftrightarrow> cfg = STM_UNIPROC \<or> e \<noteq> n"
proof -
  from assms obtain p where p: "p \<in> set (entry_positions t)" "entry_log (entry_at t p) = (x, e, n)"
    by (auto simp: trec_log_Some_iff)
  then show ?thesis using pos_unique [OF assms(1) p(1)] by (fastforce simp: written_set_def entry_log_def entry_is_update_def)
qed

lemma written_logged: "x \<in> written_set cfg t (entry_positions t) \<Longrightarrow> trec_log t x \<noteq> None"
  by (auto simp: written_set_def trec_log_None_iff)

lemma same_log_written:
  assumes "same_log t t'"
  shows "written_set cfg t' (entry_positions t') = written_set cfg t (entry_positions t)"
proof -
  have pos: "entry_positions t' = entry_positions t" using assms by (simp add: same_log_def)
  have "(\<exists>p \<in> set (entry_positions t). x = e_tvar (entry_at t' p) \<and> (cfg = STM_UNIPROC \<or> entry_is_update (entry_at t' p))) \<longleftrightarrow>
      (\<exists>p \<in> set (entry_positions t). x = e_tvar (entry_at t p) \<and> (cfg = STM_UNIPROC \<or> entry_is_update (entry_at t p)))" for x
    by (rule bex_cong) (use same_log_entry [OF assms] in auto)
  then show ?thesis by (simp add: written_set_def pos)
qed

lemma commit_correct:
  assumes ok: "trec_ok (trecs st a)" "unowned st a" and q: "\<And>x. queue_ok st x (Q x)" and n: "n_capabilities < 2 ^ 22"
  shows "\<exists>st'. stmCommitTransaction cfg n_capabilities a st = Some (trec_valid (tvars st) (trecs st a), st') \<and>
    (\<forall>b. b \<noteq> a \<longrightarrow> trecs st' b = trecs st b) \<and> queues_kept st st' \<and> only_woken st st' \<and>
    (if trec_valid (tvars st) (trecs st a)
     then (\<forall>x. current_value (tvars st' x) = after_write (trec_log (trecs st a)) (current_value (tvars st x)) x) \<and>
       (\<forall>x e n. trec_log (trecs st a) x = Some (e, n) \<and> e \<noteq> n \<longrightarrow>
         (\<forall>u \<in> set (Q x). woken cfg st st' (wq_closure (watch_queues st u))))
     else tvars st' = tvars st \<and> tsos st' = tsos st)"
proof -
  let ?t = "trecs st a" and ?all = "\<not> config_use_read_phase cfg"
  have c: "cfg = STM_FG_LOCKS \<or> ?all" by (cases cfg) (simp_all add: config_use_read_phase_def)
  obtain st1 where st1: "validate_and_acquire_ownership cfg a ?all True st = Some (trec_valid (tvars st) ?t, st1)"
    "if trec_valid (tvars st) ?t then validated cfg a ?all st (entry_positions ?t) st1
     else \<exists>t'. st1 = st\<lparr>trecs := (trecs st)(a := t')\<rparr> \<and> same_log ?t t'"
    using validate_acquire [OF ok c, of True] by auto
  show ?thesis
  proof (cases "trec_valid (tvars st) ?t")
    case False
    with st1 obtain t' where "st1 = st\<lparr>trecs := (trecs st)(a := t')\<rparr>" by auto
    then show ?thesis using False st1(1) by (auto simp: stmCommitTransaction_def queues_kept_def only_woken_def)
  next
    case True
    then have v: "validated cfg a ?all st (entry_positions ?t) st1" using st1(2) by simp
    then obtain t' where s1: "st1 = st\<lparr>tvars := locked_by a (acquired_set cfg ?all ?t (entry_positions ?t)) (tvars st), trecs := (trecs st)(a := t')\<rparr>"
      and t': "same_log ?t t'" by (auto simp: validated_def)
    have q1: "queue_ok st1 x (Q x)" for x using q [of x] by (simp add: s1 queue_ok_def)
    let ?W = "written_set cfg ?t (entry_positions ?t)"
    obtain us where us: "for_each_entry (trecs st1 a) (write_back cfg a) st1 =
        Some ((wake cfg us st1)\<lparr>tvars := write_log cfg (trec_log ?t) ?W (tvars st1)\<rparr>)" "\<forall>x \<in> ?W. set (waiters st (Q x)) \<subseteq> set us"
      using write_back_loop [of st1 a Q cfg, OF _ q1] same_log_ok [OF t'] same_log_written [OF t'] ok(1)
      by (auto simp: s1 waiters_def)
    let ?st' = "free_stg_trec_header a ((wake cfg us st1)\<lparr>tvars := write_log cfg (trec_log ?t) ?W (tvars st1)\<rparr>)"
    have "stmCommitTransaction cfg n_capabilities a st = Some (True, ?st')"
    proof (cases cfg)
      case STM_UNIPROC
      then show ?thesis using st1(1) us(1) True by (simp add: stmCommitTransaction_def config_use_read_phase_def)
    next
      case STM_FG_LOCKS
      have "check_read_only cfg a st1 = Some True"
        using validated_check_read_only [of cfg a st st1] v ok(1) by (simp add: config_use_read_phase_def STM_FG_LOCKS)
      moreover have "getMaxCommits cfg st1 = getMaxCommits cfg st" by (simp add: getMaxCommits_def s1)
      moreover have "int (n_capabilities * TOKEN_BATCH_SIZE) div 2 ^ 32 = 0" using n by (simp add: TOKEN_BATCH_SIZE_def)
      ultimately show ?thesis using st1(1) us(1) True STM_FG_LOCKS
        by (simp add: stmCommitTransaction_def config_use_read_phase_def Let_def)
    qed
    moreover have "current_value (tvars ?st' x) = after_write (trec_log ?t) (current_value (tvars st x)) x" for x
    proof (cases "trec_log ?t x")
      case None
      then have "x \<notin> ?W" using written_logged by blast
      moreover have "x \<notin> acquired_set cfg ?all ?t (entry_positions ?t)" using None by (auto simp: acquired_set_def trec_log_None_iff)
      ultimately show ?thesis using None by (simp add: s1 after_write_def)
    next
      case (Some en)
      obtain e n where en: "en = (e, n)" by (cases en)
      from Some [unfolded en] obtain p where p: "p \<in> set (entry_positions ?t)" "entry_log (entry_at ?t p) = (x, e, n)"
        using trec_log_Some_iff [OF ok(1)] by blast
      have cur: "current_value (tvars st x) = e" using True p by (auto simp: trec_valid_def entry_log_def)
      have "x \<in> acquired_set cfg ?all ?t (entry_positions ?t) \<Longrightarrow> cfg \<noteq> STM_UNIPROC \<Longrightarrow> e \<noteq> n"
        using p pos_unique [OF ok(1) p(1)]
        by (auto simp: acquired_set_def entry_log_def config_use_read_phase_def entry_is_update_def)
      then show ?thesis using written_update [OF ok(1) Some [unfolded en], of cfg] Some en cur
        by (cases cfg) (auto simp: s1 after_write_def acquired_set_def)
    qed
    moreover have "woken cfg st ?st' (wq_closure (watch_queues st u))"
      if "trec_log ?t x = Some (e, n)" "e \<noteq> n" "u \<in> set (Q x)" for x e n u
    proof -
      have "x \<in> ?W" using that written_update [OF ok(1)] by blast
      then have "wq_closure (watch_queues st u) \<in> set us" using us(2) that(3) by (force simp: waiters_def)
      then have "woken cfg st1 (wake cfg us st1) (wq_closure (watch_queues st u))" by (rule wake_woken)
      then show ?thesis
        by (rule woken_cong [THEN iffD1, rotated 5]) (simp_all add: s1)
    qed
    moreover have "queues_kept st ?st'" by (simp add: queues_kept_def s1)
    moreover have "only_woken st ?st'"
      by (rule only_woken_cong [THEN iffD1, OF _ _ _ _ wake_only [of st1 cfg us]]) (simp_all add: s1)
    ultimately show ?thesis using True by (auto simp: s1)
  qed
qed

section \<open>Nests of transactions\<close>

text \<open>Two logs agree when they expect the same values.\<close>

definition logs_agree :: "(addr \<rightharpoonup> closure \<times> closure) \<Rightarrow> (addr \<rightharpoonup> closure \<times> closure) \<Rightarrow> bool" where
  "logs_agree L M \<longleftrightarrow> (\<forall>x e n e' n'. L x = Some (e, n) \<longrightarrow> M x = Some (e', n') \<longrightarrow> e = e')"

primrec nest_agrees :: "stm_state \<Rightarrow> addr list \<Rightarrow> bool" where
  "nest_agrees st [] = True"
| "nest_agrees st (t # ts) = (logs_agree (trec_log (trecs st t)) (nest_log st ts) \<and> nest_agrees st ts)"

definition nest_ok :: "stm_state \<Rightarrow> addr list \<Rightarrow> bool" where
  "nest_ok st ts \<longleftrightarrow> nest st (hd ts) ts \<and> ts \<noteq> [] \<and> (\<forall>t \<in> set ts. trec_ok (trecs st t)) \<and> nest_agrees st ts"

lemma nest_cong:
  assumes "\<And>t. t \<in> set ts \<Longrightarrow> trec_log (trecs st' t) = trec_log (trecs st t)"
  shows "nest_log st' ts = nest_log st ts" "nest_agrees st' ts = nest_agrees st ts"
proof -
  show l: "nest_log st' ts = nest_log st ts" using assms by (induction ts) (auto simp: fun_eq_iff split: option.splits)
  show "nest_agrees st' ts = nest_agrees st ts" using assms
  proof (induction ts)
    case (Cons t ts)
    have "nest_log st' ts = nest_log st ts" using Cons.prems by (induction ts) (auto simp: fun_eq_iff split: option.splits)
    with Cons show ?case by simp
  qed simp
qed

text \<open>Changing the innermost record, or the states of the records, leaves the nest around it as it is.\<close>

lemma nest_ok_update:
  assumes ok: "nest_ok st (t # ts)"
    and others: "\<And>u. u \<in> set ts \<Longrightarrow> trec_ok (trecs st' u) \<and> trec_log (trecs st' u) = trec_log (trecs st u) \<and>
      enclosing_trec (trecs st' u) = enclosing_trec (trecs st u)"
    and t': "trec_ok (trecs st' t)" "enclosing_trec (trecs st' t) = enclosing_trec (trecs st t)"
      "logs_agree (trec_log (trecs st' t)) (nest_log st ts)"
  shows "nest_ok st' (t # ts)" "nest_log st' ts = nest_log st ts"
proof -
  show l: "nest_log st' ts = nest_log st ts" by (rule nest_cong) (simp add: others)
  have "nest st' (enclosing_trec (trecs st t)) ts = nest st (enclosing_trec (trecs st t)) ts"
    by (rule chain_cong) (use others in simp)
  moreover have "nest_agrees st' ts = nest_agrees st ts" by (rule nest_cong) (simp add: others)
  ultimately show "nest_ok st' (t # ts)" using ok t' others by (auto simp: nest_ok_def l)
qed

lemma nest_ok_distinct: "nest_ok st ts \<Longrightarrow> distinct ts"
  by (auto simp: nest_ok_def dest: chain_distinct)

lemma nest_ok_tl: "nest_ok st (a # et # ts) \<Longrightarrow> nest_ok st (et # ts)"
  by (auto simp: nest_ok_def)

lemma nest_log_upd:
  assumes "nest_log st' ts = nest_log st ts" "trec_log (trecs st' t) = (trec_log (trecs st t))(x \<mapsto> v)"
  shows "nest_log st' (t # ts) = (nest_log st (t # ts))(x \<mapsto> v)"
  using assms by (auto simp: fun_eq_iff split: option.splits)

lemma logs_agree_view:
  assumes "nest_ok st (t # ts)"
  shows "logs_agree ((trec_log (trecs st t))(x \<mapsto> (fst (nest_view st (t # ts) x), n))) (nest_log st ts)"
  using assms by (auto simp: logs_agree_def nest_ok_def nest_view_def split: option.splits)

lemma read_correct:
  assumes ok: "nest_ok st (t # ts)" and r: "nest_log st (t # ts) x = None \<Longrightarrow> readable cfg st x"
  shows "\<exists>st'. stmReadTVar cfg t x st = Some (snd (nest_view st (t # ts) x), st') \<and> nest_ok st' (t # ts) \<and>
    nest_log st' (t # ts) = (nest_log st (t # ts))(x \<mapsto> nest_view st (t # ts) x) \<and> tvars st' = tvars st \<and>
    (\<forall>u. u \<noteq> t \<longrightarrow> trecs st' u = trecs st u) \<and> undisturbed st st'"
proof -
  obtain t' fc where t': "stmReadTVar cfg t x st = Some (snd (nest_view st (t # ts) x), with_trec st t t' fc)" "trec_ok t'"
    "trec_log t' = (trec_log (trecs st t))(x \<mapsto> nest_view st (t # ts) x)" "enclosing_trec t' = enclosing_trec (trecs st t)"
    using read_tvar_nest [of st t "t # ts" x cfg] ok r by (auto simp: nest_ok_def)
  have nt: "t \<notin> set ts" using nest_ok_distinct [OF ok] by simp
  have n: "nest_ok (with_trec st t t' fc) (t # ts)" "nest_log (with_trec st t t' fc) ts = nest_log st ts"
    by (rule nest_ok_update [OF ok]; use t' nt ok logs_agree_view [OF ok, of x "snd (nest_view st (t # ts) x)"] in \<open>auto simp: nest_ok_def\<close>)+
  have "nest_log (with_trec st t t' fc) (t # ts) = (nest_log st (t # ts))(x \<mapsto> nest_view st (t # ts) x)"
    by (rule nest_log_upd [OF n(2)]) (simp add: t')
  moreover have "undisturbed st (with_trec st t t' fc)" by (simp add: undisturbed_def queues_kept_def)
  ultimately show ?thesis using t'(1) n(1) by auto
qed

lemma write_correct:
  assumes ok: "nest_ok st (t # ts)" and r: "nest_log st (t # ts) x = None \<Longrightarrow> readable cfg st x"
  shows "\<exists>st'. stmWriteTVar cfg t x new st = Some st' \<and> nest_ok st' (t # ts) \<and>
    nest_log st' (t # ts) = (nest_log st (t # ts))(x \<mapsto> (fst (nest_view st (t # ts) x), new)) \<and> tvars st' = tvars st \<and>
    (\<forall>u. u \<noteq> t \<longrightarrow> trecs st' u = trecs st u) \<and> undisturbed st st'"
proof -
  obtain t' fc where t': "stmWriteTVar cfg t x new st = Some (with_trec st t t' fc)" "trec_ok t'"
    "trec_log t' = (trec_log (trecs st t))(x \<mapsto> (fst (nest_view st (t # ts) x), new))" "enclosing_trec t' = enclosing_trec (trecs st t)"
    using write_tvar_nest [of st t "t # ts" x cfg new] ok r by (auto simp: nest_ok_def)
  have nt: "t \<notin> set ts" using nest_ok_distinct [OF ok] by simp
  have n: "nest_ok (with_trec st t t' fc) (t # ts)" "nest_log (with_trec st t t' fc) ts = nest_log st ts"
    by (rule nest_ok_update [OF ok]; use t' nt ok logs_agree_view [OF ok, of x new] in \<open>auto simp: nest_ok_def\<close>)+
  have "nest_log (with_trec st t t' fc) (t # ts) = (nest_log st (t # ts))(x \<mapsto> (fst (nest_view st (t # ts) x), new))"
    by (rule nest_log_upd [OF n(2)]) (simp add: t')
  moreover have "undisturbed st (with_trec st t t' fc)" by (simp add: undisturbed_def queues_kept_def)
  ultimately show ?thesis using t'(1) n(1) by auto
qed

section \<open>Merging records\<close>

lemma merge_update_correct:
  assumes ok: "trec_ok (trecs st t)"
  shows "\<exists>t' fc. merge_update_into t x e n st = Some (with_trec st t t' fc) \<and> trec_ok t' \<and>
    trec_log t' = (trec_log (trecs st t))(x \<mapsto> (case trec_log (trecs st t) x of None \<Rightarrow> e | Some (e', _) \<Rightarrow> e', n)) \<and>
    enclosing_trec t' = enclosing_trec (trecs st t) \<and>
    t_state t' = (if \<exists>e' n'. trec_log (trecs st t) x = Some (e', n') \<and> e' \<noteq> e then TREC_CONDEMNED else t_state (trecs st t))"
proof -
  let ?t = "trecs st t"
  let ?g = "\<lambda>p. (True, upd_trec t (set_entry p ((entry_at ?t p)\<lparr>new_value := n\<rparr>))
    (if expected_value (entry_at ?t p) \<noteq> e then upd_trec t (\<lambda>t. t\<lparr>t_state := TREC_CONDEMNED\<rparr>) st else st))"
  have loop: "for_each_entry ?t
       (\<lambda>p (found, st). let e' = entry_at (trecs st t) p
          in if e_tvar e' = x
             then let st = (if expected_value e' \<noteq> e then upd_trec t (\<lambda>t. t\<lparr>t_state := TREC_CONDEMNED\<rparr>) st else st)
                  in Some (True, True, upd_trec t (set_entry p (e'\<lparr>new_value := n\<rparr>)) st)
             else Some (False, found, st)) (False, st) =
      Some (case find_entry ?t x of None \<Rightarrow> (False, st) | Some p \<Rightarrow> ?g p)"
    unfolding for_each_entry_def find_entry_def by (rule for_each_find) (simp add: Let_def)
  show ?thesis
  proof (cases "find_entry ?t x")
    case None
    then have "trec_log ?t x = None" by (simp add: find_entry_None)
    with add_entry_correct [OF ok this, of e n] None loop show ?thesis by (auto simp: merge_update_into_def)
  next
    case (Some p)
    then have p: "p \<in> set (entry_positions ?t)" "e_tvar (entry_at ?t p) = x" using find_entry_Some [OF ok] by auto
    note at = trec_log_at [OF ok p(1), unfolded p(2)]
    let ?c = "if expected_value (entry_at ?t p) \<noteq> e then ?t\<lparr>t_state := TREC_CONDEMNED\<rparr> else ?t"
    let ?t' = "set_entry p ((entry_at ?t p)\<lparr>new_value := n\<rparr>) ?c"
    have c: "trec_ok ?c" "trec_log ?c = trec_log ?t" "entry_positions ?c = entry_positions ?t" "entry_at ?c p = entry_at ?t p"
      using ok by auto
    have "merge_update_into t x e n st = Some (with_trec st t ?t' (free_trec_chunks st))"
      using loop Some by (auto simp: merge_update_into_def upd_trec_def)
    then show ?thesis
      using trec_log_set_entry [OF c(1), of p "(entry_at ?t p)\<lparr>new_value := n\<rparr>"] p c at
      by (intro exI [of _ ?t'] exI [of _ "free_trec_chunks st"]) auto
  qed
qed

text \<open>The log of the outer record after the inner one has been merged into it.\<close>

definition merged :: "(addr \<rightharpoonup> closure \<times> closure) \<Rightarrow> (addr \<rightharpoonup> closure \<times> closure) \<Rightarrow> addr \<rightharpoonup> closure \<times> closure" where
  "merged L M = (\<lambda>x. case L x of None \<Rightarrow> M x
     | Some (e, n) \<Rightarrow> Some (case M x of None \<Rightarrow> e | Some (e', _) \<Rightarrow> e', n))"

lemma merged_restrict_insert:
  assumes "L x = Some (e, n)" "x \<notin> D"
  shows "merged (L |` insert x D) M = (merged (L |` D) M)(x \<mapsto> (case merged (L |` D) M x of None \<Rightarrow> e | Some (e', _) \<Rightarrow> e', n))"
    "logs_agree (L |` insert x D) M \<longleftrightarrow> logs_agree (L |` D) M \<and> \<not> (\<exists>e' n'. merged (L |` D) M x = Some (e', n') \<and> e' \<noteq> e)"
  using assms by (auto simp: merged_def fun_eq_iff logs_agree_def restrict_map_def split: option.splits)

definition entry_tvars :: "trec \<Rightarrow> entry_pos list \<Rightarrow> addr set" where
  "entry_tvars t ps = (\<lambda>p. e_tvar (entry_at t p)) ` set ps"

lemma merge_back_loop:
  assumes t: "trec_ok (trecs st a)" "trec_ok (trecs st et)" "et \<noteq> a"
    and lock: "tvars st = locked_by a X tv" "X = acquired_set cfg False (trecs st a) (entry_positions (trecs st a))"
    and val: "\<And>p. p \<in> set (entry_positions (trecs st a)) \<Longrightarrow>
      current_value (tv (e_tvar (entry_at (trecs st a) p))) = expected_value (entry_at (trecs st a) p)"
  shows "\<exists>te fc. for_each_entry (trecs st a) (merge_back cfg a et) st =
      Some (st\<lparr>tvars := tv, trecs := (trecs st)(et := te), free_trec_chunks := fc\<rparr>) \<and>
    trec_ok te \<and> trec_log te = merged (trec_log (trecs st a)) (trec_log (trecs st et)) \<and>
    enclosing_trec te = enclosing_trec (trecs st et) \<and>
    t_state te = (if logs_agree (trec_log (trecs st a)) (trec_log (trecs st et)) then t_state (trecs st et) else TREC_CONDEMNED)"
proof -
  let ?t = "trecs st a"
  let ?ps = "entry_positions ?t" and ?M = "trec_log (trecs st et)"
  let ?L = "\<lambda>ps. trec_log ?t |` entry_tvars ?t ps"
  let ?X = "\<lambda>ps. X - entry_tvars ?t ps"
  let ?I = "\<lambda>ps s. \<exists>te fc. s = st\<lparr>tvars := locked_by a (?X ps) tv, trecs := (trecs st)(et := te), free_trec_chunks := fc\<rparr> \<and>
    trec_ok te \<and> trec_log te = merged (?L ps) ?M \<and> enclosing_trec te = enclosing_trec (trecs st et) \<and>
    t_state te = (if logs_agree (?L ps) ?M then t_state (trecs st et) else TREC_CONDEMNED)"
  have "\<exists>s'. for_each_pos (merge_back cfg a et) ?ps st = Some s' \<and> ?I ?ps s'"
  proof (rule for_each_all)
    show "?I [] st" using t lock(1)
      by (intro exI [of _ "trecs st et"] exI [of _ "free_trec_chunks st"]) (auto simp: entry_tvars_def merged_def logs_agree_def)
  next
    fix pre p post s
    assume ps: "?ps = pre @ p # post" and "?I pre s"
    then obtain te fc where s: "s = st\<lparr>tvars := locked_by a (?X pre) tv, trecs := (trecs st)(et := te), free_trec_chunks := fc\<rparr>"
      and te: "trec_ok te" "trec_log te = merged (?L pre) ?M" "enclosing_trec te = enclosing_trec (trecs st et)"
        "t_state te = (if logs_agree (?L pre) ?M then t_state (trecs st et) else TREC_CONDEMNED)" by blast
    let ?e = "entry_at ?t p"
    let ?x = "e_tvar ?e"
    have p: "p \<in> set ?ps" "p \<notin> set pre" using ps distinct_entry_positions [of ?t] by (auto simp del: distinct_entry_positions)
    have x: "?x \<notin> entry_tvars ?t pre" using p pos_unique [OF t(1) p(1)] ps by (auto simp: entry_tvars_def)
    have D: "entry_tvars ?t (pre @ [p]) = insert ?x (entry_tvars ?t pre)" by (simp add: entry_tvars_def)
    have eq: "trecs s a = ?t" using t(3) by (simp add: s)
    let ?s1 = "st\<lparr>tvars := locked_by a (?X (pre @ [p])) tv, trecs := (trecs st)(et := te), free_trec_chunks := fc\<rparr>"
    have "(if entry_is_update ?e then unlock_tvar cfg a ?x (expected_value ?e) False s else s) = ?s1"
    proof (cases "cfg = STM_FG_LOCKS \<and> entry_is_update ?e")
      case True
      then have "?x \<in> X" using p(1) unfolding lock(2) by (auto simp: acquired_set_def)
      then have "(locked_by a (?X pre) tv)(?x := (locked_by a (?X pre) tv ?x)\<lparr>current_value := expected_value ?e\<rparr>) =
          locked_by a (?X (pre @ [p])) tv"
        using val [OF p(1)] x unfolding D by (auto simp: locked_by_def fun_eq_iff)
      then show ?thesis using True by (intro stm_state.equality) (simp_all add: s upd_tvar_def)
    next
      case False
      have "?x \<notin> X" using False pos_unique [OF t(1) p(1)] unfolding lock(2) by (auto simp: acquired_set_def)
      then have "?X (pre @ [p]) = ?X pre" unfolding D by auto
      then show ?thesis using False by (cases cfg) (auto simp: s)
    qed
    note mri = merged_restrict_insert [of "trec_log ?t" ?x _ _ "entry_tvars ?t pre" ?M, OF trec_log_at [OF t(1) p(1)] x, folded D]
    have s1: "trecs ?s1 et = te" by simp
    from merge_update_correct [of ?s1 et ?x "expected_value ?e" "new_value ?e", unfolded s1, OF te(1)]
    obtain t' fc' where mu: "merge_update_into et ?x (expected_value ?e) (new_value ?e) ?s1 = Some (with_trec ?s1 et t' fc')" "trec_ok t'"
      "trec_log t' = (trec_log te)(?x \<mapsto> (case trec_log te ?x of None \<Rightarrow> expected_value ?e | Some (e', _) \<Rightarrow> e', new_value ?e))"
      "enclosing_trec t' = enclosing_trec te"
      "t_state t' = (if \<exists>e' n'. trec_log te ?x = Some (e', n') \<and> e' \<noteq> expected_value ?e then TREC_CONDEMNED else t_state te)"
      by blast
    have t': "trec_log t' = merged (?L (pre @ [p])) ?M" "enclosing_trec t' = enclosing_trec (trecs st et)"
      "t_state t' = (if logs_agree (?L (pre @ [p])) ?M then t_state (trecs st et) else TREC_CONDEMNED)"
      unfolding mu(3-5) te(2-4) mri by auto
    from \<open>(if entry_is_update ?e then unlock_tvar cfg a ?x (expected_value ?e) False s else s) = ?s1\<close> mu(1)
    have "merge_back cfg a et p s = Some (False, with_trec ?s1 et t' fc')" by (simp add: merge_back_def eq Let_def)
    with mu(2) t'
    show "\<exists>s'. merge_back cfg a et p s = Some (False, s') \<and> ?I (pre @ [p]) s'"
      by (intro exI [of _ "with_trec ?s1 et t' fc'"] conjI exI [of _ t'] exI [of _ fc']) simp_all
  qed
  moreover have "X - entry_tvars ?t ?ps = {}" unfolding lock(2) by (auto simp: acquired_set_def entry_tvars_def)
  moreover have "?L ?ps = trec_log ?t"
  proof
    fix x show "?L ?ps x = trec_log ?t x"
      by (cases "trec_log ?t x") (auto simp: restrict_map_def entry_tvars_def, metis trec_log_None_iff option.distinct(1) imageI)
  qed
  ultimately show ?thesis by (auto simp: for_each_entry_def)
qed

lemma validated_False_facts:
  assumes v: "validated cfg a ra st (entry_positions (trecs st a)) st1"
  obtains t' where "same_log (trecs st a) t'"
    "st1 = st\<lparr>tvars := locked_by a (acquired_set cfg ra (trecs st a) (entry_positions (trecs st a))) (tvars st), trecs := (trecs st)(a := t')\<rparr>"
    "\<And>p. p \<in> set (entry_positions (trecs st a)) \<Longrightarrow>
      current_value (tvars st (e_tvar (entry_at (trecs st a) p))) = expected_value (entry_at (trecs st a) p)"
  using v unfolding validated_def by blast

lemma commit_nested_correct:
  assumes ok: "trec_ok (trecs st a)" "unowned st a" and et: "et = enclosing_trec (trecs st a)" "et \<noteq> a" "trec_ok (trecs st et)"
  shows "\<exists>st'. stmCommitNestedTransaction cfg a st = Some (trec_valid (tvars st) (trecs st a), st') \<and> tvars st' = tvars st \<and>
    (\<forall>b. b \<noteq> a \<longrightarrow> b \<noteq> et \<longrightarrow> trecs st' b = trecs st b) \<and> undisturbed st st' \<and>
    (if trec_valid (tvars st) (trecs st a)
     then trec_ok (trecs st' et) \<and> trec_log (trecs st' et) = merged (trec_log (trecs st a)) (trec_log (trecs st et)) \<and>
       enclosing_trec (trecs st' et) = enclosing_trec (trecs st et) \<and>
       t_state (trecs st' et) =
         (if logs_agree (trec_log (trecs st a)) (trec_log (trecs st et)) then t_state (trecs st et) else TREC_CONDEMNED)
     else trecs st' et = trecs st et)"
proof -
  let ?t = "trecs st a" and ?all = "\<not> config_use_read_phase cfg"
  have c: "cfg = STM_FG_LOCKS \<or> ?all" by (cases cfg) (simp_all add: config_use_read_phase_def)
  obtain st1 where st1: "validate_and_acquire_ownership cfg a ?all True st = Some (trec_valid (tvars st) ?t, st1)"
    "if trec_valid (tvars st) ?t then validated cfg a ?all st (entry_positions ?t) st1
     else \<exists>t'. st1 = st\<lparr>trecs := (trecs st)(a := t')\<rparr> \<and> same_log ?t t'"
    using validate_acquire [OF ok c, of True] by auto
  show ?thesis
  proof (cases "trec_valid (tvars st) ?t")
    case False
    with st1 obtain t' where "st1 = st\<lparr>trecs := (trecs st)(a := t')\<rparr>" by auto
    then show ?thesis using False st1(1) et(2) by (auto simp: stmCommitNestedTransaction_def undisturbed_def queues_kept_def)
  next
    case True
    then have v: "validated cfg a ?all st (entry_positions ?t) st1" using st1(2) by simp
    from validated_False_facts [OF v] obtain t' where t': "same_log ?t t'"
      and s1: "st1 = st\<lparr>tvars := locked_by a (acquired_set cfg ?all ?t (entry_positions ?t)) (tvars st), trecs := (trecs st)(a := t')\<rparr>"
      and val: "\<And>p. p \<in> set (entry_positions ?t) \<Longrightarrow> current_value (tvars st (e_tvar (entry_at ?t p))) = expected_value (entry_at ?t p)" by blast
    have pos: "entry_positions t' = entry_positions ?t" using t' by (simp add: same_log_def)
    have X: "acquired_set cfg ?all ?t (entry_positions ?t) = acquired_set cfg False t' (entry_positions t')"
      unfolding pos same_log_acquired [OF t' subset_refl, symmetric] by (cases cfg) (simp_all add: acquired_set_def config_use_read_phase_def)
    obtain te fc where te: "for_each_entry (trecs st1 a) (merge_back cfg a et) st1 =
        Some (st1\<lparr>tvars := tvars st, trecs := (trecs st1)(et := te), free_trec_chunks := fc\<rparr>)"
      "trec_ok te" "trec_log te = merged (trec_log ?t) (trec_log (trecs st et))" "enclosing_trec te = enclosing_trec (trecs st et)"
      "t_state te = (if logs_agree (trec_log ?t) (trec_log (trecs st et)) then t_state (trecs st et) else TREC_CONDEMNED)"
      using merge_back_loop [of st1 a et _ "tvars st" cfg] same_log_ok [OF t'] same_log_entry [OF t'] ok(1) et val X pos
      by (auto simp: s1)
    let ?st' = "free_stg_trec_header a (st1\<lparr>tvars := tvars st, trecs := (trecs st1)(et := te), free_trec_chunks := fc\<rparr>)"
    have "stmCommitNestedTransaction cfg a st = Some (True, ?st')"
    proof (cases cfg)
      case STM_UNIPROC
      then show ?thesis using st1(1) te(1) True et(1) by (simp add: stmCommitNestedTransaction_def config_use_read_phase_def)
    next
      case STM_FG_LOCKS
      have "check_read_only cfg a st1 = Some True"
        using validated_check_read_only [of cfg a st st1] v ok(1) by (simp add: config_use_read_phase_def STM_FG_LOCKS)
      then show ?thesis using st1(1) te(1) True et(1) STM_FG_LOCKS
        by (simp add: stmCommitNestedTransaction_def config_use_read_phase_def)
    qed
    then show ?thesis using True te et(2) by (auto simp: s1 undisturbed_def queues_kept_def)
  qed
qed

lemma merged_agrees:
  assumes "logs_agree M N" "logs_agree L (\<lambda>x. case M x of Some v \<Rightarrow> Some v | None \<Rightarrow> N x)"
  shows "logs_agree (merged L M) N" "logs_agree L M"
  using assms by (auto simp: logs_agree_def merged_def split: option.splits) (metis option.simps(4,5) option.distinct(1))+

text \<open>Committing a nested transaction keeps what the nest expects and sees.\<close>

lemma commit_nested_nest:
  assumes ok: "nest_ok st (a # et # ts)" "unowned st a"
  shows "\<exists>st'. stmCommitNestedTransaction cfg a st = Some (trec_valid (tvars st) (trecs st a), st') \<and> tvars st' = tvars st \<and>
    nest_ok st' (et # ts) \<and> t_state (trecs st' et) = t_state (trecs st et) \<and>
    nest_log st' (et # ts) = (if trec_valid (tvars st) (trecs st a) then nest_log st (a # et # ts) else nest_log st (et # ts))"
proof -
  have d: "a \<noteq> et" "a \<notin> set ts" "et \<notin> set ts" using nest_ok_distinct [OF ok(1)] by auto
  have e: "et = enclosing_trec (trecs st a)" "trec_ok (trecs st a)" "trec_ok (trecs st et)" using ok(1) by (auto simp: nest_ok_def)
  note ok2 = nest_ok_tl [OF ok(1)]
  obtain st' where st': "stmCommitNestedTransaction cfg a st = Some (trec_valid (tvars st) (trecs st a), st')" "tvars st' = tvars st"
    "\<And>b. b \<noteq> a \<Longrightarrow> b \<noteq> et \<Longrightarrow> trecs st' b = trecs st b"
    "if trec_valid (tvars st) (trecs st a)
     then trec_ok (trecs st' et) \<and> trec_log (trecs st' et) = merged (trec_log (trecs st a)) (trec_log (trecs st et)) \<and>
       enclosing_trec (trecs st' et) = enclosing_trec (trecs st et) \<and>
       t_state (trecs st' et) =
         (if logs_agree (trec_log (trecs st a)) (trec_log (trecs st et)) then t_state (trecs st et) else TREC_CONDEMNED)
     else trecs st' et = trecs st et"
    using commit_nested_correct [OF e(2) ok(2) e(1) d(1) [symmetric] e(3), of cfg] by blast
  have agr: "logs_agree (trec_log (trecs st et)) (nest_log st ts)" "logs_agree (trec_log (trecs st a)) (nest_log st (et # ts))"
    using ok(1) by (auto simp: nest_ok_def)
  note m = merged_agrees [OF agr(1), of "trec_log (trecs st a)"]
  have m': "logs_agree (merged (trec_log (trecs st a)) (trec_log (trecs st et))) (nest_log st ts)"
    "logs_agree (trec_log (trecs st a)) (trec_log (trecs st et))"
    using m agr(2) by (simp_all add: nest_log.simps [abs_def])
  have others: "\<And>u. u \<in> set ts \<Longrightarrow> trecs st' u = trecs st u" using st'(3) d by metis
  have n: "nest_ok st' (et # ts)" "nest_log st' ts = nest_log st ts"
    by (rule nest_ok_update [OF ok2]; use others st'(4) m' ok2 in \<open>auto simp: nest_ok_def split: if_splits\<close>)+
  have "nest_log st' (et # ts) = nest_log st (a # et # ts)" if "trec_valid (tvars st) (trecs st a)"
  proof
    fix x
    show "nest_log st' (et # ts) x = nest_log st (a # et # ts) x"
      using that st'(4) n(2) m'(2) by (fastforce simp: merged_def logs_agree_def split: option.splits)
  qed
  moreover have "nest_log st' (et # ts) = nest_log st (et # ts)" if "\<not> trec_valid (tvars st) (trecs st a)"
    using that st'(4) n(2) by (auto simp: fun_eq_iff split: option.splits)
  ultimately show ?thesis using st' n(1) m'(2) by (auto split: if_splits)
qed

lemma merge_read_search_nest:
  assumes "nest st t us"
  shows "merge_read_search x e t False st = Some (case nest_find st us x of None \<Rightarrow> (False, st)
    | Some (p, u) \<Rightarrow> (True, if expected_value (entry_at (trecs st u) p) \<noteq> e then set_state u TREC_CONDEMNED st else st))"
  using assms
proof (induction us arbitrary: t)
  case Nil
  then show ?case by (simp add: merge_read_search.simps)
next
  case (Cons u us)
  have u: "u = t" "t \<noteq> 0" "nest st (enclosing_trec (trecs st t)) us" using Cons.prems by auto
  let ?g = "\<lambda>p. (True, if expected_value (entry_at (trecs st t) p) \<noteq> e then set_state t TREC_CONDEMNED st else st)"
  have loop: "for_each_entry (trecs st t)
      (\<lambda>p (found, st). let e' = entry_at (trecs st t) p
         in if e_tvar e' = x
            then Some (True, True, if expected_value e' \<noteq> e then upd_trec t (\<lambda>t. t\<lparr>t_state := TREC_CONDEMNED\<rparr>) st else st)
            else Some (False, found, st)) (False, st) =
      Some (case find_entry (trecs st t) x of None \<Rightarrow> (False, st) | Some p \<Rightarrow> ?g p)"
    unfolding for_each_entry_def find_entry_def by (rule for_each_find) (simp add: Let_def set_state_def)
  show ?case
  proof (cases "find_entry (trecs st t) x")
    case None
    then show ?thesis
      by (subst merge_read_search.simps) (use loop u Cons.IH [OF u(3)] in \<open>simp\<close>)
  next
    case (Some p)
    then show ?thesis
      by (subst merge_read_search.simps) (use loop u in \<open>simp add: merge_read_search.simps [of _ _ _ True]\<close>)
  qed
qed

lemma merge_read_correct:
  assumes ok: "nest_ok st (t # ts)" and e: "\<forall>e' n. nest_log st (t # ts) x = Some (e', n) \<longrightarrow> e' = e"
  shows "\<exists>t' fc. merge_read_into t x e st = Some (with_trec st t t' fc) \<and> trec_ok t' \<and>
    trec_log t' = (if nest_log st (t # ts) x = None then (trec_log (trecs st t))(x \<mapsto> (e, e)) else trec_log (trecs st t)) \<and>
    enclosing_trec t' = enclosing_trec (trecs st t) \<and> t_state t' = t_state (trecs st t)"
proof -
  have n: "nest st t (t # ts)" and oks: "\<forall>u \<in> set (t # ts). trec_ok (trecs st u)" using ok by (auto simp: nest_ok_def)
  then have tok: "trec_ok (trecs st t)" by simp
  show ?thesis
  proof (cases "nest_find st (t # ts) x")
    case None
    then have log: "nest_log st (t # ts) x = None" "trec_log (trecs st t) x = None"
      using nest_find_log(1) [OF oks] by (auto split: option.splits)
    from add_entry_correct [OF tok log(2), of e e] log(1) show ?thesis
      by (auto simp: merge_read_into_def merge_read_search_nest [OF n] None simp del: nest_log.simps nest_find.simps)
  next
    case (Some pu)
    obtain p u where pu: "pu = (p, u)" by (cases pu)
    note f = nest_find_log(2) [OF oks Some [unfolded pu]]
    then have "merge_read_into t x e st = Some (with_trec st t (trecs st t) (free_trec_chunks st))"
      using e by (simp add: merge_read_into_def merge_read_search_nest [OF n] Some pu del: nest_log.simps nest_find.simps)
    then show ?thesis using f tok by (intro exI [of _ "trecs st t"] exI [of _ "free_trec_chunks st"]) simp
  qed
qed

text \<open>The reads of a log that the nest around it does not have.\<close>

definition reads_into :: "(addr \<rightharpoonup> closure \<times> closure) \<Rightarrow> (addr \<rightharpoonup> closure \<times> closure) \<Rightarrow> addr \<rightharpoonup> closure \<times> closure" where
  "reads_into L N = (\<lambda>x. case N x of Some v \<Rightarrow> Some v | None \<Rightarrow> map_option (\<lambda>(e, _). (e, e)) (L x))"

lemma reads_into_insert:
  assumes "L x = Some (e, n)" "x \<notin> D"
  shows "reads_into (L |` insert x D) N = (if N x = None then (reads_into (L |` D) N)(x \<mapsto> (e, e)) else reads_into (L |` D) N)"
    "reads_into (L |` D) N x = N x"
  using assms by (auto simp: reads_into_def fun_eq_iff restrict_map_def split: option.splits)

lemma merge_reads_correct:
  assumes ok: "nest_ok st (a # et # ts)"
  shows "\<exists>te fc. merge_reads a et st = Some (with_trec st et te fc) \<and> nest_ok (with_trec st et te fc) (et # ts) \<and>
    nest_log (with_trec st et te fc) (et # ts) = reads_into (trec_log (trecs st a)) (nest_log st (et # ts)) \<and>
    t_state te = t_state (trecs st et)"
proof -
  have d: "a \<noteq> et" "a \<notin> set ts" "et \<notin> set ts" using nest_ok_distinct [OF ok] by auto
  note ok2 = nest_ok_tl [OF ok]
  let ?t = "trecs st a" and ?N = "nest_log st (et # ts)"
  let ?ps = "entry_positions ?t"
  let ?L = "\<lambda>ps. trec_log ?t |` entry_tvars ?t ps"
  have tok: "trec_ok ?t" and agr: "logs_agree (trec_log ?t) ?N" using ok by (auto simp: nest_ok_def)
  let ?body = "\<lambda>p st. let e = entry_at (trecs st a) p in map_option (Pair False) (merge_read_into et (e_tvar e) (expected_value e) st)"
  let ?I = "\<lambda>ps s. \<exists>te fc. s = with_trec st et te fc \<and> nest_ok s (et # ts) \<and> nest_log s (et # ts) = reads_into (?L ps) ?N \<and>
    enclosing_trec te = enclosing_trec (trecs st et) \<and> t_state te = t_state (trecs st et)"
  have "\<exists>s'. for_each_pos ?body ?ps st = Some s' \<and> ?I ?ps s'"
  proof (rule for_each_all)
    show "?I [] st" using ok2
      by (intro exI [of _ "trecs st et"] exI [of _ "free_trec_chunks st"])
        (auto simp: entry_tvars_def reads_into_def fun_eq_iff split: option.splits)
  next
    fix pre p post s
    assume ps: "?ps = pre @ p # post" and "?I pre s"
    then obtain te fc where s: "s = with_trec st et te fc" and I: "nest_ok s (et # ts)" "nest_log s (et # ts) = reads_into (?L pre) ?N"
      "enclosing_trec te = enclosing_trec (trecs st et)" "t_state te = t_state (trecs st et)" by blast
    let ?e = "entry_at ?t p"
    let ?x = "e_tvar ?e"
    have p: "p \<in> set ?ps" "p \<notin> set pre" using ps distinct_entry_positions [of ?t] by (auto simp del: distinct_entry_positions)
    have x: "?x \<notin> entry_tvars ?t pre" using p pos_unique [OF tok p(1)] ps by (auto simp: entry_tvars_def)
    have D: "entry_tvars ?t (pre @ [p]) = insert ?x (entry_tvars ?t pre)" by (simp add: entry_tvars_def)
    note at = trec_log_at [OF tok p(1)]
    note ri = reads_into_insert [of "trec_log ?t" ?x _ _ "entry_tvars ?t pre" ?N, OF at x]
    have view: "nest_log s (et # ts) ?x = ?N ?x" unfolding I(2) ri(2) ..
    have e: "\<forall>e' n. nest_log s (et # ts) ?x = Some (e', n) \<longrightarrow> e' = expected_value ?e"
      unfolding view using agr at by (auto simp: logs_agree_def simp del: nest_log.simps)
    from merge_read_correct [OF I(1) e, unfolded view] obtain t' fc' where t': "merge_read_into et ?x (expected_value ?e) s = Some (with_trec s et t' fc')"
      "trec_ok t'" "trec_log t' = (if ?N ?x = None then (trec_log (trecs s et))(?x \<mapsto> (expected_value ?e, expected_value ?e)) else trec_log (trecs s et))"
      "enclosing_trec t' = enclosing_trec (trecs s et)" "t_state t' = t_state (trecs s et)"
      by blast
    let ?s' = "with_trec s et t' fc'"
    have agr': "logs_agree (trec_log (trecs s et)) (nest_log s ts)" using I(1) by (simp add: nest_ok_def)
    have none: "nest_log s ts ?x = None" if "?N ?x = None" using that view by (auto split: option.splits)
    have n: "nest_ok ?s' (et # ts)" "nest_log ?s' ts = nest_log s ts"
      by (rule nest_ok_update [OF I(1)]; use t' d I(1) agr' none in \<open>auto simp: nest_ok_def logs_agree_def simp del: nest_log.simps\<close>)+
    have "nest_log ?s' (et # ts) = (if ?N ?x = None then (nest_log s (et # ts))(?x \<mapsto> (expected_value ?e, expected_value ?e)) else nest_log s (et # ts))"
      using n(2) t'(3) by (auto simp: fun_eq_iff split: option.splits)
    then have "nest_log ?s' (et # ts) = reads_into (?L (pre @ [p])) ?N" unfolding I(2) D ri(1) by simp
    moreover have "?s' = with_trec st et t' fc'" by (simp add: s)
    moreover have "?body p s = Some (False, ?s')" using t'(1) d by (simp add: s)
    ultimately show "\<exists>s'. ?body p s = Some (False, s') \<and> ?I (pre @ [p]) s'"
      using n(1) t' I(3,4) by (intro exI [of _ ?s'] conjI exI [of _ t'] exI [of _ fc']) (simp_all add: s)
  qed
  moreover have "?L ?ps = trec_log ?t"
  proof
    fix x show "?L ?ps x = trec_log ?t x"
      by (cases "trec_log ?t x") (auto simp: restrict_map_def entry_tvars_def, metis trec_log_None_iff option.distinct(1) imageI)
  qed
  ultimately show ?thesis by (auto simp: merge_reads_def for_each_entry_def simp del: nest_log.simps)
qed

lemma abort_nested_correct:
  assumes ok: "nest_ok st (a # et # ts)"
  shows "\<exists>st'. stmAbortTransaction cfg a st = Some st' \<and> tvars st' = tvars st \<and> nest_ok st' (et # ts) \<and>
    nest_log st' (et # ts) = reads_into (trec_log (trecs st a)) (nest_log st (et # ts)) \<and>
    t_state (trecs st' a) = TREC_ABORTED \<and> t_state (trecs st' et) = t_state (trecs st et) \<and>
    (\<forall>b. b \<noteq> a \<longrightarrow> b \<noteq> et \<longrightarrow> trecs st' b = trecs st b) \<and> undisturbed st st'"
proof -
  have d: "a \<noteq> et" "a \<notin> set ts" "et \<notin> set ts" using nest_ok_distinct [OF ok] by auto
  have e: "enclosing_trec (trecs st a) = et" "et \<noteq> 0" using ok by (auto simp: nest_ok_def)
  obtain te fc where te: "merge_reads a et st = Some (with_trec st et te fc)" "nest_ok (with_trec st et te fc) (et # ts)"
    "nest_log (with_trec st et te fc) (et # ts) = reads_into (trec_log (trecs st a)) (nest_log st (et # ts))"
    "t_state te = t_state (trecs st et)" using merge_reads_correct [OF ok] by blast
  let ?s = "with_trec st et te fc"
  let ?s' = "set_state a TREC_ABORTED ?s"
  have n: "nest_ok ?s' (et # ts)" "nest_log ?s' ts = nest_log ?s ts"
    by (rule nest_ok_update [OF te(2)]; use te(2) d in \<open>auto simp: nest_ok_def set_state_def\<close>)+
  have "nest_log ?s' (et # ts) = nest_log ?s (et # ts)"
    by (rule nest_cong) (use d in \<open>auto simp: set_state_def\<close>)
  moreover have "stmAbortTransaction cfg a st = Some ?s'" using te(1) e by (simp add: stmAbortTransaction_def)
  moreover have "undisturbed st ?s'" by (simp add: set_state_def undisturbed_def queues_kept_def)
  ultimately show ?thesis using te n(1) d by (auto simp: set_state_def simp del: nest_log.simps)
qed

section \<open>Starting a transaction\<close>

lemma getToken_fields [simp]:
  "tvars (getToken cfg st) = tvars st" "trecs (getToken cfg st) = trecs st" "free_trec_headers (getToken cfg st) = free_trec_headers st"
  "next_object (getToken cfg st) = next_object st" "watch_queues (getToken cfg st) = watch_queues st" "tsos (getToken cfg st) = tsos st"
  "free_tvar_watch_queues (getToken cfg st) = free_tvar_watch_queues st" "wakeups_sent (getToken cfg st) = wakeups_sent st"
  "cap_no (getToken cfg st) = cap_no st"
  by (simp_all add: getToken_def getTokenBatch_def Let_def)

lemma start_frame:
  assumes "stmStartTransaction cfg outer st = (t, st')"
  shows "undisturbed st st'" "u \<noteq> t \<Longrightarrow> trecs st' u = trecs st u"
  using assms by (auto simp: stmStartTransaction_def alloc_stg_trec_header_def Let_def undisturbed_def queues_kept_def new_stg_trec_chunk_def
      split: if_splits)

lemma start_correct:
  assumes ts: "ts = [] \<and> outer = 0 \<or> nest_ok st ts \<and> outer = hd ts"
    and fresh: "if free_trec_headers st = 0 then next_object st \<notin> set ts \<and> next_object st \<noteq> 0
      else free_trec_headers st \<notin> set ts \<and> prev_chunks (trecs st (free_trec_headers st)) = []"
  shows "\<exists>t st'. stmStartTransaction cfg outer st = (t, st') \<and> t \<notin> set ts \<and> nest_ok st' (t # ts) \<and> trec_log (trecs st' t) = Map.empty \<and>
    nest_log st' (t # ts) = nest_log st ts \<and> tvars st' = tvars st \<and>
    t_state (trecs st' t) = (if ts = [] then TREC_ACTIVE else t_state (trecs st (hd ts)))"
proof -
  obtain t st' where t: "stmStartTransaction cfg outer st = (t, st')" by fastforce
  have f: "t \<notin> set ts" "t \<noteq> 0" "enclosing_trec (trecs st' t) = outer" "trec_entries (trecs st' t) = []" "tvars st' = tvars st"
    "next_entry_idx (current_chunk (trecs st' t)) = 0" "\<And>u. u \<noteq> t \<Longrightarrow> trecs st' u = trecs st u"
    "t_state (trecs st' t) = (if outer = 0 then TREC_ACTIVE else t_state (trecs st outer))"
    using t fresh by (auto simp: stmStartTransaction_def alloc_stg_trec_header_def Let_def initial_state_def new_stg_trec_chunk_def
        trec_entries_alt split: if_splits)
  have log: "trec_log (trecs st' t) = Map.empty" by (simp add: trec_log_def f)
  have others: "\<And>u. u \<in> set ts \<Longrightarrow> trecs st' u = trecs st u" using f(1,7) by metis
  have nl: "nest_log st' ts = nest_log st ts" "nest_agrees st' ts = nest_agrees st ts"
    by (rule nest_cong; simp add: others)+
  have "nest st' outer ts = nest st outer ts" by (rule chain_cong) (simp add: others)
  then have "nest_ok st' (t # ts)"
    using ts f nl log others by (auto simp: nest_ok_def trec_ok_def logs_agree_def)
  moreover have "nest_log st' (t # ts) = nest_log st ts" using log nl by (simp add: fun_eq_iff)
  moreover have "outer = 0 \<longleftrightarrow> ts = []" using ts by (auto simp: nest_ok_def neq_Nil_conv)
  ultimately show ?thesis using t f log ts by auto
qed

end
