(* ===== verification/STMWaiting.thy ===== *)
theory STMWaiting
  imports STMTransactions
begin

text \<open>
  The queues of threads that wait for TVars (\<open>stmWait\<close>, \<open>stmReWait\<close> and the removal of queue entries) as
  doubly linked lists in the heap, with the free list of queue entries; and the properties of the operations,
  with an example state.
\<close>

section \<open>The queues of waiting threads\<close>

definition queues_ok :: "stm_state \<Rightarrow> (addr \<Rightarrow> addr list) \<Rightarrow> addr list \<Rightarrow> bool" where
  "queues_ok st Q F \<longleftrightarrow> (\<forall>x. queue_ok st x (Q x)) \<and> (\<forall>x y. x \<noteq> y \<longrightarrow> set (Q x) \<inter> set (Q y) = {}) \<and>
    chain (\<lambda>q. next_queue_entry (watch_queues st q)) 0 (free_tvar_watch_queues st) F \<and>
    (\<forall>x. set F \<inter> set (Q x) = {}) \<and> (\<forall>q \<in> set F. q < next_object st) \<and> (\<forall>x. \<forall>q \<in> set (Q x). q < next_object st) \<and>
    0 < next_object st"

lemma back_links_cong:
  "(\<And>q. q \<in> set qs \<Longrightarrow> prev_queue_entry (w q) = prev_queue_entry (w' q)) \<Longrightarrow> back_links w p qs = back_links w' p qs"
  by (induction qs arbitrary: p) auto

lemma queue_ok_frame:
  assumes "queue_ok st x qs" "first_watch_queue_entry (tvars st' x) = first_watch_queue_entry (tvars st x)"
    "\<And>q. q \<in> set qs \<Longrightarrow> next_queue_entry (watch_queues st' q) = next_queue_entry (watch_queues st q) \<and>
      prev_queue_entry (watch_queues st' q) = prev_queue_entry (watch_queues st q)"
  shows "queue_ok st' x qs"
proof -
  have "chain (\<lambda>q. next_queue_entry (watch_queues st' q)) 0 (first_watch_queue_entry (tvars st' x)) qs"
    using assms by (subst chain_cong [where g = "\<lambda>q. next_queue_entry (watch_queues st q)"]) (auto simp: queue_ok_def)
  moreover have "back_links (watch_queues st') 0 qs"
    using assms by (subst back_links_cong [where w' = "watch_queues st"]) (auto simp: queue_ok_def)
  ultimately show ?thesis by (simp add: queue_ok_def)
qed

text \<open>A new entry at the front of a queue.\<close>

lemma queue_ok_push:
  assumes q: "queue_ok st x qs" "q \<notin> set qs" "q \<noteq> 0"
    and first: "first_watch_queue_entry (tvars st' x) = q"
    and new: "next_queue_entry (watch_queues st' q) = first_watch_queue_entry (tvars st x)" "prev_queue_entry (watch_queues st' q) = 0"
    and rest: "\<And>r. r \<in> set qs \<Longrightarrow> next_queue_entry (watch_queues st' r) = next_queue_entry (watch_queues st r) \<and>
      prev_queue_entry (watch_queues st' r) = (if r = first_watch_queue_entry (tvars st x) then q else prev_queue_entry (watch_queues st r))"
  shows "queue_ok st' x (q # qs)"
proof -
  have ch: "chain (\<lambda>q. next_queue_entry (watch_queues st q)) 0 (first_watch_queue_entry (tvars st x)) qs"
    and bk: "back_links (watch_queues st) 0 qs" using q(1) by (simp_all add: queue_ok_def)
  have "chain (\<lambda>q. next_queue_entry (watch_queues st' q)) 0 (first_watch_queue_entry (tvars st x)) qs"
    using ch rest by (subst chain_cong [where g = "\<lambda>q. next_queue_entry (watch_queues st q)"]) auto
  moreover have "back_links (watch_queues st') q qs"
  proof (cases qs)
    case (Cons r rs)
    have "r = first_watch_queue_entry (tvars st x)" "distinct qs" using ch chain_distinct [OF ch] Cons by auto
    moreover have "back_links (watch_queues st') r rs = back_links (watch_queues st) r rs"
      by (rule back_links_cong) (use rest Cons \<open>distinct qs\<close> calculation(1) in auto)
    ultimately show ?thesis using rest bk Cons by auto
  qed simp
  ultimately show ?thesis using q(3) first new by (simp add: queue_ok_def)
qed

text \<open>An entry taken out of a queue.\<close>

lemma back_links_append:
  "back_links w p (us @ vs) \<longleftrightarrow> back_links w p us \<and> back_links w (if us = [] then p else last us) vs"
  by (induction us arbitrary: p) auto

lemma back_links_remove:
  assumes "back_links w p (us @ q # vs)" "distinct (us @ q # vs)"
    "\<And>r. r \<in> set (us @ vs) \<Longrightarrow> vs = [] \<or> r \<noteq> hd vs \<Longrightarrow> prev_queue_entry (w' r) = prev_queue_entry (w r)"
    "vs \<noteq> [] \<Longrightarrow> prev_queue_entry (w' (hd vs)) = prev_queue_entry (w q)"
  shows "back_links w' p (us @ vs)"
proof -
  have "back_links w' p us = back_links w p us" by (rule back_links_cong) (use assms(2,3) in \<open>cases vs; fastforce\<close>)
  moreover have "back_links w' (prev_queue_entry (w q)) vs"
  proof (cases vs)
    case (Cons v vs')
    then have "back_links w' v vs' = back_links w v vs'" by (intro back_links_cong) (use assms in auto)
    then show ?thesis using assms Cons by (simp add: back_links_append)
  qed simp
  ultimately show ?thesis using assms(1) by (simp add: back_links_append)
qed

lemma queues_okD:
  assumes "queues_ok st Q F"
  shows "queue_ok st x (Q x)" "x \<noteq> y \<Longrightarrow> set (Q x) \<inter> set (Q y) = {}"
    "chain (\<lambda>q. next_queue_entry (watch_queues st q)) 0 (free_tvar_watch_queues st) F" "set F \<inter> set (Q x) = {}"
    "q \<in> set F \<Longrightarrow> q < next_object st" "q \<in> set (Q x) \<Longrightarrow> q < next_object st" "0 < next_object st"
    "0 \<notin> set (Q x)" "0 \<notin> set F" "distinct (Q x)"
proof -
  show q: "queue_ok st x (Q x)" "x \<noteq> y \<Longrightarrow> set (Q x) \<inter> set (Q y) = {}"
    "set F \<inter> set (Q x) = {}"
    "q \<in> set F \<Longrightarrow> q < next_object st" "q \<in> set (Q x) \<Longrightarrow> q < next_object st" "0 < next_object st"
    using assms unfolding queues_ok_def by blast+
  show f: "chain (\<lambda>q. next_queue_entry (watch_queues st q)) 0 (free_tvar_watch_queues st) F"
    using assms unfolding queues_ok_def by blast
  have ch: "chain (\<lambda>q. next_queue_entry (watch_queues st q)) 0 (first_watch_queue_entry (tvars st x)) (Q x)"
    using q(1) by (simp add: queue_ok_def)
  show "0 \<notin> set (Q x)" "distinct (Q x)" "0 \<notin> set F"
    using chain_notin_nil [OF ch] chain_distinct [OF ch] chain_notin_nil [OF f] by auto
qed

lemma queues_okI:
  "(\<And>x. queue_ok st x (Q x)) \<Longrightarrow> (\<And>x y. x \<noteq> y \<Longrightarrow> set (Q x) \<inter> set (Q y) = {}) \<Longrightarrow>
    chain (\<lambda>q. next_queue_entry (watch_queues st q)) 0 (free_tvar_watch_queues st) F \<Longrightarrow> (\<And>x. set F \<inter> set (Q x) = {}) \<Longrightarrow>
    next_object st = n \<Longrightarrow> (\<And>q. q \<in> set F \<Longrightarrow> q < n) \<Longrightarrow> (\<And>x q. q \<in> set (Q x) \<Longrightarrow> q < n) \<Longrightarrow> 0 < n \<Longrightarrow> queues_ok st Q F"
  by (auto simp: queues_ok_def)

lemma queues_ok_cong:
  "watch_queues st' = watch_queues st \<Longrightarrow> free_tvar_watch_queues st' = free_tvar_watch_queues st \<Longrightarrow> next_object st' = next_object st \<Longrightarrow>
    (\<And>x. first_watch_queue_entry (tvars st' x) = first_watch_queue_entry (tvars st x)) \<Longrightarrow> queues_ok st' Q F = queues_ok st Q F"
  by (simp add: queues_ok_def queue_ok_def)

lemma alloc_wq_correct:
  assumes ok: "queues_ok st Q F"
  shows "\<exists>q st' F'. alloc_stg_tvar_watch_queue tso st = (q, st') \<and> queues_ok st' Q F' \<and> q \<noteq> 0 \<and> (\<forall>x. q \<notin> set (Q x)) \<and>
    q \<notin> set F' \<and> q < next_object st' \<and> tvars st' = tvars st \<and> trecs st' = trecs st \<and> tsos st' = tsos st \<and> wakeups_sent st' = wakeups_sent st \<and>
    wq_closure (watch_queues st' q) = tso \<and> (\<forall>r. r \<noteq> q \<longrightarrow> watch_queues st' r = watch_queues st r)"
proof (cases "free_tvar_watch_queues st = 0")
  case True
  note D = queues_okD [OF ok]
  let ?q = "next_object st"
  let ?st' = "upd_wq ?q (\<lambda>w. w\<lparr>wq_closure := tso\<rparr>) (st\<lparr>next_object := ?q + 1\<rparr>)"
  have "F = []" using D(3) True by simp
  have "queue_ok ?st' x (Q x)" for x
    by (rule queue_ok_frame [OF D(1)]) (use D(6) in auto)
  then have "queues_ok ?st' Q []"
    using D True by (auto simp: queues_ok_def less_Suc_eq)
  moreover have "next_object st \<notin> set (Q x)" for x using D(6) by blast
  ultimately show ?thesis using True D
    by (intro exI [of _ ?q] exI [of _ ?st'] exI [of _ "[]"]) (auto simp: alloc_stg_tvar_watch_queue_def)
next
  case False
  note D = queues_okD [OF ok]
  let ?q = "free_tvar_watch_queues st"
  let ?st1 = "upd_wq ?q (\<lambda>w. w\<lparr>wq_closure := tso\<rparr>) st"
  let ?st' = "?st1\<lparr>free_tvar_watch_queues := next_queue_entry (watch_queues ?st1 ?q)\<rparr>"
  obtain F' where F: "F = ?q # F'" using D(3) False by (cases F) auto
  have dF: "distinct F" using chain_distinct [OF D(3)] .
  have qo: "queue_ok ?st' x (Q x)" for x
    by (rule queue_ok_frame [OF D(1)]) (use F D(4) in auto)
  have "chain (\<lambda>q. next_queue_entry (watch_queues ?st' q)) 0 (next_queue_entry (watch_queues st ?q)) F'"
    using D(3) dF F by (subst chain_cong [where g = "\<lambda>q. next_queue_entry (watch_queues st q)"]) auto
  then have "queues_ok ?st' Q F'"
    unfolding queues_ok_def using qo D F by (auto simp: disjoint_iff)
  moreover have "\<forall>x. ?q \<notin> set (Q x)" using D(4) F by auto
  ultimately show ?thesis using False D(5) dF F
    by (intro exI [of _ ?q] exI [of _ ?st'] exI [of _ F']) (auto simp: alloc_stg_tvar_watch_queue_def Let_def)
qed

lemma build_entry_correct:
  assumes ok: "queues_ok st Q F" and e: "e = entry_at (trecs st a) p"
  shows "\<exists>q st' F'. build_watch_queue_entry tso a p st = Some (False, st') \<and> queues_ok st' (Q(e_tvar e := q # Q (e_tvar e))) F' \<and>
    (\<forall>x. q \<notin> set (Q x)) \<and> trecs st' = (trecs st)(a := set_entry p (e\<lparr>new_value := WatchQueue q\<rparr>) (trecs st a)) \<and>
    (\<forall>y. current_value (tvars st' y) = current_value (tvars st y) \<and> num_updates (tvars st' y) = num_updates (tvars st y)) \<and>
    tsos st' = tsos st \<and> wakeups_sent st' = wakeups_sent st \<and> wq_closure (watch_queues st' q) = tso \<and>
    (\<forall>r. r \<noteq> q \<longrightarrow> wq_closure (watch_queues st' r) = wq_closure (watch_queues st r))"
proof -
  let ?x = "e_tvar e"
  let ?fq = "first_watch_queue_entry (tvars st ?x)"
  obtain q st1 F' where al: "alloc_stg_tvar_watch_queue tso st = (q, st1)" and ok1: "queues_ok st1 Q F'" and q: "q \<noteq> 0" "\<forall>x. q \<notin> set (Q x)"
    "q \<notin> set F'" "q < next_object st1" "tvars st1 = tvars st" "trecs st1 = trecs st" "tsos st1 = tsos st" "wakeups_sent st1 = wakeups_sent st"
    "wq_closure (watch_queues st1 q) = tso" "\<forall>r. r \<noteq> q \<longrightarrow> watch_queues st1 r = watch_queues st r"
    using alloc_wq_correct [OF ok] by blast
  note D = queues_okD [OF ok1]
  let ?st2 = "upd_wq q (\<lambda>w. w\<lparr>next_queue_entry := ?fq, prev_queue_entry := 0\<rparr>) st1"
  let ?st3 = "if ?fq \<noteq> 0 then upd_wq ?fq (\<lambda>w. w\<lparr>prev_queue_entry := q\<rparr>) ?st2 else ?st2"
  define st' where "st' = upd_trec a (set_entry p (e\<lparr>new_value := WatchQueue q\<rparr>)) (upd_tvar ?x (\<lambda>v. v\<lparr>first_watch_queue_entry := q\<rparr>) ?st3)"
  have ch: "chain (\<lambda>q. next_queue_entry (watch_queues st1 q)) 0 ?fq (Q ?x)" using D(1) [of ?x] q(5) by (simp add: queue_ok_def)
  have fq: "?fq = 0 \<or> ?fq \<in> set (Q ?x)" using ch by (cases "Q ?x") auto
  have fq_out: "?fq \<notin> set (Q y)" if "y \<noteq> ?x" for y
    using fq D(2) [OF that] D(8) [of y] by auto
  have fq_F: "?fq \<notin> set F'" using fq D(4) [of ?x] D(9) by auto
  have fq_q: "?fq \<noteq> q" using fq q by auto
  have push: "queue_ok st' ?x (q # Q ?x)"
    by (rule queue_ok_push [OF D(1)]) (use q fq_q D(8) in \<open>auto simp: st'_def\<close>)
  have other: "queue_ok st' y (Q y)" if "y \<noteq> ?x" for y
    by (rule queue_ok_frame [OF D(1)]) (use that q fq_out [OF that] in \<open>auto simp: st'_def\<close>)
  have "chain (\<lambda>q. next_queue_entry (watch_queues st' q)) 0 (free_tvar_watch_queues st1) F' =
      chain (\<lambda>q. next_queue_entry (watch_queues st1 q)) 0 (free_tvar_watch_queues st1) F'"
    by (rule chain_cong) (use q(3) fq_F in \<open>auto simp: st'_def\<close>)
  moreover have st': "free_tvar_watch_queues st' = free_tvar_watch_queues st1" "next_object st' = next_object st1"
    "trecs st' = (trecs st)(a := set_entry p (e\<lparr>new_value := WatchQueue q\<rparr>) (trecs st a))" "tsos st' = tsos st" "wakeups_sent st' = wakeups_sent st"
    "wq_closure (watch_queues st' q) = tso" "\<forall>r. r \<noteq> q \<longrightarrow> wq_closure (watch_queues st' r) = wq_closure (watch_queues st r)"
    "\<forall>y. current_value (tvars st' y) = current_value (tvars st y) \<and> num_updates (tvars st' y) = num_updates (tvars st y)"
    using q fq_q by (auto simp: st'_def)
  ultimately have "queues_ok st' (Q(?x := q # Q ?x)) F'"
    by (intro queues_okI [where n = "next_object st1"]) (use push other D q in \<open>auto simp: disjoint_iff split: if_splits\<close>)
  moreover have "build_watch_queue_entry tso a p st = Some (False, st')"
    by (simp add: build_watch_queue_entry_def Let_def e [symmetric] al st'_def)
  ultimately show ?thesis using q st' by blast
qed

lemma remove_entry_correct:
  assumes ok: "queues_ok st Q F" and e: "e = entry_at (trecs st a) p" "new_value e = WatchQueue q" "q \<in> set (Q (e_tvar e))"
    and free: "readable cfg st (e_tvar e)"
  shows "\<exists>st'. remove_watch_queue_entry cfg a p st = Some (False, st') \<and>
    queues_ok st' (Q(e_tvar e := remove1 q (Q (e_tvar e)))) (q # F) \<and> trecs st' = trecs st \<and> tsos st' = tsos st \<and> wakeups_sent st' = wakeups_sent st \<and>
    (\<forall>y. current_value (tvars st' y) = current_value (tvars st y) \<and> num_updates (tvars st' y) = num_updates (tvars st y)) \<and>
    (\<forall>r. wq_closure (watch_queues st' r) = wq_closure (watch_queues st r))"
proof -
  note D = queues_okD [OF ok]
  let ?x = "e_tvar e"
  obtain us vs where Q: "Q ?x = us @ q # vs" using e(3) by (auto simp: in_set_conv_decomp)
  have d: "distinct (us @ q # vs)" using D(10) [of ?x] Q by simp
  let ?nq = "next_queue_entry (watch_queues st q)" and ?pq = "prev_queue_entry (watch_queues st q)"
  have ch: "chain (\<lambda>q. next_queue_entry (watch_queues st q)) 0 (first_watch_queue_entry (tvars st ?x)) (us @ q # vs)"
    and bk: "back_links (watch_queues st) 0 (us @ q # vs)" using D(1) [of ?x] by (simp_all add: queue_ok_def Q)
  have pq: "?pq = (if us = [] then 0 else last us)" using bk by (simp add: back_links_append)
  have "chain (\<lambda>q. next_queue_entry (watch_queues st q)) 0 q (q # vs)"
    using chain_append [OF ch] by simp
  then have nq: "?nq = (if vs = [] then 0 else hd vs)" by (cases vs) auto
  have nz: "0 \<notin> set us" "0 \<notin> set vs" "q \<noteq> 0" using D(8) [of ?x] Q by auto
  have last: "us \<noteq> [] \<Longrightarrow> last us \<noteq> 0" and hd: "vs \<noteq> [] \<Longrightarrow> hd vs \<noteq> 0"
    using nz last_in_set [of us] hd_in_set [of vs] by metis+
  let ?w1 = "if ?nq \<noteq> 0 then (watch_queues st)(?nq := (watch_queues st ?nq)\<lparr>prev_queue_entry := ?pq\<rparr>) else watch_queues st"
  let ?w2 = "if ?pq \<noteq> 0 then ?w1(?pq := (?w1 ?pq)\<lparr>next_queue_entry := ?nq\<rparr>) else ?w1"
  let ?w3 = "?w2(q := (?w2 q)\<lparr>next_queue_entry := free_tvar_watch_queues st\<rparr>)"
  let ?saw = "current_value (tvars st ?x)"
  define s1 where "s1 = (if cfg = STM_FG_LOCKS then upd_tvar ?x (\<lambda>v. v\<lparr>current_value := TRec a\<rparr>) st else st)"
  define s2 where "s2 = (if ?nq \<noteq> 0 then upd_wq ?nq (\<lambda>w. w\<lparr>prev_queue_entry := ?pq\<rparr>) s1 else s1)"
  define s3 where "s3 = (if ?pq \<noteq> 0 then upd_wq ?pq (\<lambda>w. w\<lparr>next_queue_entry := ?nq\<rparr>) s2
    else upd_tvar ?x (\<lambda>v. v\<lparr>first_watch_queue_entry := ?nq\<rparr>) s2)"
  define st' where "st' = unlock_tvar cfg a ?x ?saw False (free_stg_tvar_watch_queue q s3)"
  have lock: "lock_tvar cfg a ?x st = Some (?saw, s1)"
    using free by (cases cfg) (auto simp: s1_def readable_def split: closure.splits)
  have "watch_queues s1 = watch_queues st" by (simp add: s1_def)
  then have rm: "remove_watch_queue_entry cfg a p st = Some (False, st')"
    by (simp add: remove_watch_queue_entry_def e(1) [symmetric] e(2) lock Let_def st'_def s3_def s2_def)
  have w3: "watch_queues s3 = ?w2" "tsos s3 = tsos st" "trecs s3 = trecs st" "wakeups_sent s3 = wakeups_sent st" "next_object s3 = next_object st"
    "free_tvar_watch_queues s3 = free_tvar_watch_queues st"
    by (simp_all add: s3_def s2_def s1_def)
  have st': "watch_queues st' = ?w3" "free_tvar_watch_queues st' = q" "trecs st' = trecs st" "tsos st' = tsos st"
    "next_object st' = next_object st" "wakeups_sent st' = wakeups_sent st"
    using w3 by (cases cfg; simp add: st'_def free_stg_tvar_watch_queue_def)+
  have t3: "tvars st' y = (if y = ?x then (tvars s3 y)\<lparr>current_value := if cfg = STM_FG_LOCKS then ?saw else current_value (tvars s3 y)\<rparr> else tvars s3 y)" for y
    by (cases cfg) (simp_all add: st'_def free_stg_tvar_watch_queue_def)
  have tv: "current_value (tvars st' y) = current_value (tvars st y) \<and> num_updates (tvars st' y) = num_updates (tvars st y)"
    "first_watch_queue_entry (tvars st' y) = (if y = ?x \<and> ?pq = 0 then ?nq else first_watch_queue_entry (tvars st y))" for y
    unfolding t3 by (auto simp: s3_def s2_def s1_def)
  have nq_in: "?nq \<noteq> 0 \<Longrightarrow> ?nq \<in> set vs" and pq_in: "?pq \<noteq> 0 \<Longrightarrow> ?pq \<in> set us" using nq pq by auto
  have next': "next_queue_entry (watch_queues st' r) = (if r = q then free_tvar_watch_queues st else if r = ?pq \<and> ?pq \<noteq> 0 then ?nq
      else next_queue_entry (watch_queues st r))" for r
    unfolding st'(1) by auto
  have prev': "prev_queue_entry (watch_queues st' r) = (if r = ?nq \<and> ?nq \<noteq> 0 then ?pq
      else prev_queue_entry (watch_queues st r))" for r
    unfolding st'(1) by auto
  have clo: "wq_closure (watch_queues st' r) = wq_closure (watch_queues st r)" for r
    unfolding st'(1) by auto
  have x: "queue_ok st' ?x (us @ vs)"
    unfolding queue_ok_def
  proof
    have "chain (\<lambda>q. next_queue_entry (watch_queues st' q)) 0 (if us = [] then ?nq else first_watch_queue_entry (tvars st ?x)) (us @ vs)"
      by (rule chain_unlink [OF ch]) (use d pq nz last nq_in in \<open>auto simp: next'\<close>)
    moreover have "us = [] \<longleftrightarrow> ?pq = 0" using pq nz(1) last by auto
    ultimately show "chain (\<lambda>q. next_queue_entry (watch_queues st' q)) 0 (first_watch_queue_entry (tvars st' ?x)) (us @ vs)"
      by (simp add: tv(2))
    show "back_links (watch_queues st') 0 (us @ vs)"
      by (rule back_links_remove [OF bk d]) (use d nq nz hd in \<open>auto simp: prev'\<close>)
  qed
  have out: "r \<noteq> q \<and> r \<noteq> ?pq \<and> r \<noteq> ?nq" if "r \<in> set (Q y)" "y \<noteq> ?x" for r y
  proof -
    have "r \<notin> set (Q ?x)" "r \<noteq> 0" using D(2) [OF that(2)] D(8) [of y] that(1) by auto
    then show ?thesis using nq_in pq_in Q by auto
  qed
  have other: "queue_ok st' y (Q y)" if "y \<noteq> ?x" for y
    by (rule queue_ok_frame [OF D(1)]) (use that out [OF _ that] in \<open>auto simp: tv next' prev'\<close>)
  have outF: "r \<noteq> q \<and> r \<noteq> ?pq" if "r \<in> set F" for r
  proof -
    have "r \<notin> set (Q ?x)" "r \<noteq> 0" using that D(4) [of ?x] D(9) by auto
    then show ?thesis using pq_in Q by auto
  qed
  have "chain (\<lambda>q. next_queue_entry (watch_queues st' q)) 0 (free_tvar_watch_queues st) F =
      chain (\<lambda>q. next_queue_entry (watch_queues st q)) 0 (free_tvar_watch_queues st) F"
    by (rule chain_cong) (use outF in \<open>auto simp: next'\<close>)
  with D(3) nz(3) have F': "chain (\<lambda>q. next_queue_entry (watch_queues st' q)) 0 (free_tvar_watch_queues st') (q # F)"
    by (simp add: st'(2) next')
  have sub: "set ((Q(?x := us @ vs)) y) \<subseteq> set (Q y) - {q}" for y
    using d Q D(2) [of y ?x] by (auto simp: disjoint_iff)
  have "remove1 q (Q ?x) = us @ vs" using d Q by (simp add: remove1_append)
  moreover have "queues_ok st' (Q(?x := us @ vs)) (q # F)"
  proof (rule queues_okI [OF _ _ F' _ st'(5)])
    show "queue_ok st' y ((Q(?x := us @ vs)) y)" for y using x other by simp
    show "y \<noteq> z \<Longrightarrow> set ((Q(?x := us @ vs)) y) \<inter> set ((Q(?x := us @ vs)) z) = {}" for y z
      using sub [of y] sub [of z] D(2) [of y z] by blast
    show "set (q # F) \<inter> set ((Q(?x := us @ vs)) y) = {}" for y
      using sub [of y] D(4) [of y] by auto
    show "r \<in> set (q # F) \<Longrightarrow> r < next_object st" for r using D(5) [of r] D(6) [of q ?x] Q by auto
    show "r \<in> set ((Q(?x := us @ vs)) y) \<Longrightarrow> r < next_object st" for y r using sub [of y] D(6) [of r y] by blast
  qed (rule D(7))
  ultimately show ?thesis using rm st' tv clo by auto
qed

section \<open>Waiting\<close>

text \<open>The queues with one more entry in those of some TVars.\<close>

definition pushed :: "(addr \<Rightarrow> addr list) \<Rightarrow> (addr \<Rightarrow> addr) \<Rightarrow> addr set \<Rightarrow> addr \<Rightarrow> addr list" where
  "pushed Q g X = (\<lambda>x. if x \<in> X then g x # Q x else Q x)"

text \<open>The entries of a record hold the queue entries in which its thread waits.\<close>

definition registered :: "stm_state \<Rightarrow> (addr \<Rightarrow> addr list) \<Rightarrow> addr \<Rightarrow> addr \<Rightarrow> bool" where
  "registered st Q a tso \<longleftrightarrow> (\<forall>p \<in> set (entry_positions (trecs st a)). \<exists>q. new_value (entry_at (trecs st a) p) = WatchQueue q \<and>
    q \<in> set (Q (e_tvar (entry_at (trecs st a) p))) \<and> wq_closure (watch_queues st q) = tso)"

definition same_reads :: "trec \<Rightarrow> trec \<Rightarrow> bool" where
  "same_reads t t' \<longleftrightarrow> entry_positions t' = entry_positions t \<and> enclosing_trec t' = enclosing_trec t \<and>
    next_entry_idx (current_chunk t') = next_entry_idx (current_chunk t) \<and>
    (\<forall>p \<in> set (entry_positions t). e_tvar (entry_at t' p) = e_tvar (entry_at t p) \<and>
      expected_value (entry_at t' p) = expected_value (entry_at t p))"

lemma same_reads_ok: "same_reads t t' \<Longrightarrow> trec_ok t' = trec_ok t"
proof -
  assume s: "same_reads t t'"
  then have "map e_tvar (trec_entries t') = map e_tvar (trec_entries t)"
    by (simp add: same_reads_def trec_entries_def)
  then show ?thesis using s by (simp add: trec_ok_def same_reads_def)
qed

lemma same_log_reads: "same_log t t' \<Longrightarrow> same_reads t t'"
  by (auto simp: same_log_def same_reads_def entry_log_def)

lemma logged_entry_tvars: "trec_log t x \<noteq> None \<longleftrightarrow> x \<in> entry_tvars t (entry_positions t)"
  using trec_log_None_iff [of t x] by (auto simp: entry_tvars_def)

lemma build_loop:
  assumes ok: "queues_ok st Q F" "trec_ok (trecs st a)"
  shows "\<exists>st' g F' t'. build_watch_queue_entries_for_trec tso a st = Some st' \<and>
    queues_ok st' (pushed Q g (entry_tvars (trecs st a) (entry_positions (trecs st a)))) F' \<and>
    trecs st' = (trecs st)(a := t') \<and> same_reads (trecs st a) t' \<and>
    (\<forall>p \<in> set (entry_positions t'). new_value (entry_at t' p) = WatchQueue (g (e_tvar (entry_at t' p))) \<and>
      wq_closure (watch_queues st' (g (e_tvar (entry_at t' p)))) = tso) \<and>
    (\<forall>y. current_value (tvars st' y) = current_value (tvars st y) \<and> num_updates (tvars st' y) = num_updates (tvars st y)) \<and>
    tsos st' = tsos st \<and> wakeups_sent st' = wakeups_sent st \<and> (\<forall>x. \<forall>q \<in> set (Q x). wq_closure (watch_queues st' q) = wq_closure (watch_queues st q))"
proof -
  let ?t = "trecs st a"
  let ?ps = "entry_positions ?t"
  let ?I = "\<lambda>ps s. \<exists>g F' t'. queues_ok s (pushed Q g (entry_tvars ?t ps)) F' \<and> trecs s = (trecs st)(a := t') \<and> same_reads ?t t' \<and>
    (\<forall>p \<in> set ?ps. if p \<in> set ps then new_value (entry_at t' p) = WatchQueue (g (e_tvar (entry_at ?t p))) \<and>
        wq_closure (watch_queues s (g (e_tvar (entry_at ?t p)))) = tso
      else entry_at t' p = entry_at ?t p) \<and>
    (\<forall>y. current_value (tvars s y) = current_value (tvars st y) \<and> num_updates (tvars s y) = num_updates (tvars st y)) \<and>
    tsos s = tsos st \<and> wakeups_sent s = wakeups_sent st \<and> (\<forall>x. \<forall>q \<in> set (Q x). wq_closure (watch_queues s q) = wq_closure (watch_queues st q))"
  have "\<exists>s'. for_each_pos (build_watch_queue_entry tso a) ?ps st = Some s' \<and> ?I ?ps s'"
  proof (rule for_each_all [where I = ?I])
    show "?I [] st" using ok
      by (intro exI [of _ "\<lambda>_. 0"] exI [of _ F] exI [of _ ?t]) (simp add: entry_tvars_def same_reads_def pushed_def)
  next
    fix pre p post s
    assume ps: "?ps = pre @ p # post" and "?I pre s"
    then obtain g F' t' where I: "queues_ok s (pushed Q g (entry_tvars ?t pre)) F'" "trecs s = (trecs st)(a := t')" "same_reads ?t t'"
      "\<And>q. q \<in> set ?ps \<Longrightarrow> if q \<in> set pre then new_value (entry_at t' q) = WatchQueue (g (e_tvar (entry_at ?t q))) \<and>
          wq_closure (watch_queues s (g (e_tvar (entry_at ?t q)))) = tso
        else entry_at t' q = entry_at ?t q"
      "\<And>y. current_value (tvars s y) = current_value (tvars st y) \<and> num_updates (tvars s y) = num_updates (tvars st y)"
      "tsos s = tsos st" "\<And>x q. q \<in> set (Q x) \<Longrightarrow> wq_closure (watch_queues s q) = wq_closure (watch_queues st q)"
      "wakeups_sent s = wakeups_sent st" by blast
    let ?e = "entry_at ?t p"
    let ?x = "e_tvar ?e"
    have p: "p \<in> set ?ps" "p \<notin> set pre" using ps distinct_entry_positions [of ?t] by (auto simp del: distinct_entry_positions)
    have x: "?x \<notin> entry_tvars ?t pre" using p pos_unique [OF ok(2) p(1)] ps by (auto simp: entry_tvars_def)
    have D: "entry_tvars ?t (pre @ [p]) = insert ?x (entry_tvars ?t pre)" by (simp add: entry_tvars_def)
    have e: "?e = entry_at (trecs s a) p" using I(2) I(4) [OF p(1)] p(2) by simp
    obtain q s' F'' where b: "build_watch_queue_entry tso a p s = Some (False, s')"
      "queues_ok s' ((pushed Q g (entry_tvars ?t pre))(?x := q # pushed Q g (entry_tvars ?t pre) ?x)) F''"
      "\<forall>x. q \<notin> set (pushed Q g (entry_tvars ?t pre) x)"
      "trecs s' = (trecs s)(a := set_entry p (?e\<lparr>new_value := WatchQueue q\<rparr>) (trecs s a))"
      "\<forall>y. current_value (tvars s' y) = current_value (tvars s y) \<and> num_updates (tvars s' y) = num_updates (tvars s y)"
      "tsos s' = tsos s" "wq_closure (watch_queues s' q) = tso"
      "\<forall>r. r \<noteq> q \<longrightarrow> wq_closure (watch_queues s' r) = wq_closure (watch_queues s r)"
      "wakeups_sent s' = wakeups_sent s"
      using build_entry_correct [OF I(1) e, of tso] by blast
    have q_old: "q \<notin> set (Q y)" for y
      using spec [OF b(3), of y] by (auto simp: pushed_def split: if_splits)
    have q_new: "g y \<noteq> q" if "y \<in> entry_tvars ?t pre" for y
      using spec [OF b(3), of y] that by (auto simp: pushed_def)
    let ?g = "g(?x := q)" and ?t' = "set_entry p (?e\<lparr>new_value := WatchQueue q\<rparr>) t'"
    have Q': "(pushed Q g (entry_tvars ?t pre))(?x := q # pushed Q g (entry_tvars ?t pre) ?x) = pushed Q ?g (entry_tvars ?t (pre @ [p]))"
      using x unfolding D by (auto simp: pushed_def)
    have p': "p \<in> set (entry_positions t')" using p(1) I(3) by (simp add: same_reads_def)
    have reads: "same_reads ?t ?t'"
      using I(3) p' by (auto simp: same_reads_def entry_at_set_entry)
    have ents: "if q' \<in> set (pre @ [p]) then new_value (entry_at ?t' q') = WatchQueue (?g (e_tvar (entry_at ?t q'))) \<and>
          wq_closure (watch_queues s' (?g (e_tvar (entry_at ?t q')))) = tso
        else entry_at ?t' q' = entry_at ?t q'" if q': "q' \<in> set ?ps" for q'
    proof (cases "q' = p")
      case True
      then show ?thesis using b(7) p' by (simp add: entry_at_set_entry)
    next
      case False
      have "q' \<in> set pre \<Longrightarrow> e_tvar (entry_at ?t q') \<in> entry_tvars ?t pre" by (simp add: entry_tvars_def)
      then show ?thesis using False I(4) [OF q'] b(8) q_new x p' by (auto simp: entry_at_set_entry)
    qed
    have clo: "wq_closure (watch_queues s' r) = wq_closure (watch_queues st r)" if "r \<in> set (Q y)" for r y
      using b(8) I(7) [OF that] q_old [of y] that by metis
    have A: "queues_ok s' (pushed Q ?g (entry_tvars ?t (pre @ [p]))) F''" using b(2) unfolding Q' .
    have B: "trecs s' = (trecs st)(a := ?t')" "tsos s' = tsos st" "wakeups_sent s' = wakeups_sent st" using b(4,6,9) I(2,6,8) by simp_all
    have E: "current_value (tvars s' y) = current_value (tvars st y)" "num_updates (tvars s' y) = num_updates (tvars st y)" for y
      using b(5) I(5) by simp_all
    have "?I (pre @ [p]) s'"
      by (intro exI [of _ ?g] exI [of _ F''] exI [of _ ?t'] conjI allI ballI A B reads ents E clo)
    with b(1) show "\<exists>s'. build_watch_queue_entry tso a p s = Some (False, s') \<and> ?I (pre @ [p]) s'" by blast
  qed
  then show ?thesis
    unfolding build_watch_queue_entries_for_trec_def for_each_entry_def
    by (elim exE conjE) (intro exI conjI, assumption+, auto simp: same_reads_def)
qed

text \<open>The record of a thread waits: its entries are in the queues of their TVars. The thread itself sleeps until it is woken,
  and may then sleep again.\<close>

definition enrolled :: "stm_state \<Rightarrow> (addr \<Rightarrow> addr list) \<Rightarrow> addr \<Rightarrow> addr \<Rightarrow> bool" where
  "enrolled st Q a tso \<longleftrightarrow> registered st Q a tso \<and> trec_ok (trecs st a) \<and> t_state (trecs st a) = TREC_WAITING"

definition waiting :: "stm_state \<Rightarrow> (addr \<Rightarrow> addr list) \<Rightarrow> addr \<Rightarrow> addr \<Rightarrow> bool" where
  "waiting st Q a tso \<longleftrightarrow> enrolled st Q a tso \<and> why_blocked (tsos st tso) = BlockedOnSTM"

lemma unlock_all:
  assumes cv: "\<And>x. current_value (tvars st x) = (if x \<in> X then TRec a else current_value (tv0 x))"
    and X: "X = acquired_set cfg True (trecs st a) (entry_positions (trecs st a))"
    and val: "\<And>p. p \<in> set (entry_positions (trecs st a)) \<Longrightarrow>
      current_value (tv0 (e_tvar (entry_at (trecs st a) p))) = expected_value (entry_at (trecs st a) p)"
    and free: "\<And>x. current_value (tv0 x) \<noteq> TRec a"
  shows "\<exists>st'. stmWaitUnlock cfg a st = Some st' \<and> (\<forall>x. current_value (tvars st' x) = current_value (tv0 x) \<and>
      num_updates (tvars st' x) = num_updates (tvars st x) \<and>
      first_watch_queue_entry (tvars st' x) = first_watch_queue_entry (tvars st x)) \<and> trecs st' = trecs st \<and> tsos st' = tsos st \<and> wakeups_sent st' = wakeups_sent st \<and>
    watch_queues st' = watch_queues st \<and> free_tvar_watch_queues st' = free_tvar_watch_queues st \<and> next_object st' = next_object st"
proof -
  define tv where "tv = (\<lambda>x. (tvars st x)\<lparr>current_value := current_value (tv0 x)\<rparr>)"
  have "tvars st = locked_by a X tv"
  proof
    fix x show "tvars st x = locked_by a X tv x" using cv [of x] by (cases "tvars st x") (auto simp: tv_def locked_by_def)
  qed
  then have "revert_ownership cfg a True st = Some (st\<lparr>tvars := tv\<rparr>)"
    by (rule revert_restores) (use X val free in \<open>auto simp: acquired_set_def tv_def\<close>)
  then show ?thesis by (auto simp: stmWaitUnlock_def tv_def)
qed

lemma wait_correct:
  assumes ok: "queues_ok st Q F" "trec_ok (trecs st a)" "unowned st a"
  shows "\<exists>st'. stmWait cfg tso a st = Some (trec_valid (tvars st) (trecs st a), st') \<and>
    (\<forall>b. b \<noteq> a \<longrightarrow> trecs st' b = trecs st b) \<and>
    (if trec_valid (tvars st) (trecs st a)
     then \<exists>g F' st''. stmWaitUnlock cfg a st' = Some st'' \<and>
       queues_ok st'' (pushed Q g (dom (trec_log (trecs st a)))) F' \<and> waiting st'' (pushed Q g (dom (trec_log (trecs st a)))) a tso \<and>
       (\<forall>p \<in> set (entry_positions (trecs st'' a)). new_value (entry_at (trecs st'' a) p) = WatchQueue (g (e_tvar (entry_at (trecs st'' a) p)))) \<and>
       same_reads (trecs st a) (trecs st'' a) \<and> (\<forall>b. b \<noteq> a \<longrightarrow> trecs st'' b = trecs st b) \<and>
       (\<forall>x. current_value (tvars st'' x) = current_value (tvars st x)) \<and>
       tsos st'' = (tsos st)(tso := (tsos st tso)\<lparr>why_blocked := BlockedOnSTM\<rparr>) \<and> wakeups_sent st'' = wakeups_sent st \<and>
       (\<forall>x. \<forall>q \<in> set (Q x). wq_closure (watch_queues st'' q) = wq_closure (watch_queues st q))
     else tvars st' = tvars st \<and> tsos st' = tsos st \<and> queues_ok st' Q F \<and> wakeups_sent st' = wakeups_sent st \<and> watch_queues st' = watch_queues st)"
proof -
  let ?t = "trecs st a"
  have c: "cfg = STM_FG_LOCKS \<or> True" by simp
  obtain st1 where st1: "validate_and_acquire_ownership cfg a True True st = Some (trec_valid (tvars st) ?t, st1)"
    "if trec_valid (tvars st) ?t then validated cfg a True st (entry_positions ?t) st1
     else \<exists>t'. st1 = st\<lparr>trecs := (trecs st)(a := t')\<rparr> \<and> same_log ?t t'"
    using validate_acquire [OF ok(2,3) c, of True] by auto
  show ?thesis
  proof (cases "trec_valid (tvars st) ?t")
    case False
    with st1 obtain t' where t': "st1 = st\<lparr>trecs := (trecs st)(a := t')\<rparr>" by auto
    have "queues_ok (free_stg_trec_header a st1) Q F"
      using ok(1) by (subst queues_ok_cong [where st = st]) (simp_all add: t')
    then show ?thesis using False st1(1) t' by (auto simp: stmWait_def)
  next
    case True
    then have v: "validated cfg a True st (entry_positions ?t) st1" using st1(2) by simp
    from validated_False_facts [OF v] obtain t' where t': "same_log ?t t'"
      and s1: "st1 = st\<lparr>tvars := locked_by a (acquired_set cfg True ?t (entry_positions ?t)) (tvars st), trecs := (trecs st)(a := t')\<rparr>"
      and val: "\<And>p. p \<in> set (entry_positions ?t) \<Longrightarrow> current_value (tvars st (e_tvar (entry_at ?t p))) = expected_value (entry_at ?t p)"
      by blast
    have q1: "queues_ok st1 Q F" using ok(1) by (subst queues_ok_cong [where st = st]) (simp_all add: s1)
    have t1: "trec_ok (trecs st1 a)" using same_log_ok(1) [OF t'] ok(2) by (simp add: s1)
    obtain st2 g F' t2 where b: "build_watch_queue_entries_for_trec tso a st1 = Some st2"
      "queues_ok st2 (pushed Q g (entry_tvars (trecs st1 a) (entry_positions (trecs st1 a)))) F'"
      "trecs st2 = (trecs st1)(a := t2)" "same_reads (trecs st1 a) t2"
      "\<forall>p \<in> set (entry_positions t2). new_value (entry_at t2 p) = WatchQueue (g (e_tvar (entry_at t2 p))) \<and>
        wq_closure (watch_queues st2 (g (e_tvar (entry_at t2 p)))) = tso"
      "\<forall>y. current_value (tvars st2 y) = current_value (tvars st1 y) \<and> num_updates (tvars st2 y) = num_updates (tvars st1 y)"
      "tsos st2 = tsos st1" "wakeups_sent st2 = wakeups_sent st1"
      "\<forall>x. \<forall>q \<in> set (Q x). wq_closure (watch_queues st2 q) = wq_closure (watch_queues st1 q)"
      using build_loop [OF q1 t1, of tso] by blast
    have X: "entry_tvars (trecs st1 a) (entry_positions (trecs st1 a)) = dom (trec_log ?t)"
      using logged_entry_tvars [of t'] same_log_ok(2) [OF t'] by (auto simp: s1 dom_def)
    have r: "same_reads ?t t2" using b(4) same_log_reads [OF t'] by (auto simp: same_reads_def s1)
    let ?s3 = "set_state a TREC_WAITING (park_tso tso st2)"
    let ?t3 = "t2\<lparr>t_state := TREC_WAITING\<rparr>"
    have s3: "trecs ?s3 = (trecs st1)(a := ?t3)" "tvars ?s3 = tvars st2" "watch_queues ?s3 = watch_queues st2"
      "free_tvar_watch_queues ?s3 = free_tvar_watch_queues st2" "next_object ?s3 = next_object st2"
      "tsos ?s3 = (tsos st)(tso := (tsos st tso)\<lparr>why_blocked := BlockedOnSTM\<rparr>)" "wakeups_sent ?s3 = wakeups_sent st"
      using b(3,7,8) by (simp_all add: set_state_def park_tso_def s1)
    have pos: "entry_positions t2 = entry_positions ?t" using r by (simp add: same_reads_def)
    have ev: "e_tvar (entry_at t2 p) = e_tvar (entry_at ?t p)" "expected_value (entry_at t2 p) = expected_value (entry_at ?t p)"
      if "p \<in> set (entry_positions ?t)" for p
      using r that by (auto simp: same_reads_def)
    have acq: "acquired_set cfg True ?t (entry_positions ?t) = acquired_set cfg True (trecs ?s3 a) (entry_positions (trecs ?s3 a))"
      using ev unfolding acquired_set_def by (auto simp: s3 pos)
    obtain st'' where u: "stmWaitUnlock cfg a ?s3 = Some st''"
      "\<And>x. current_value (tvars st'' x) = current_value (tvars st x)"
      "\<And>x. first_watch_queue_entry (tvars st'' x) = first_watch_queue_entry (tvars ?s3 x)"
      "trecs st'' = trecs ?s3" "tsos st'' = tsos ?s3" "watch_queues st'' = watch_queues ?s3"
      "free_tvar_watch_queues st'' = free_tvar_watch_queues ?s3" "next_object st'' = next_object ?s3" "wakeups_sent st'' = wakeups_sent ?s3"
      using unlock_all [of ?s3 _ a "tvars st" cfg, OF _ acq] b(6) ev val ok(3) by (auto simp: s3 s1 pos unowned_def)
    have "queues_ok st'' (pushed Q g (dom (trec_log ?t))) F'"
      using b(2) unfolding X by (subst queues_ok_cong [where st = st2]) (simp_all add: u s3)
    moreover have "registered st'' (pushed Q g (dom (trec_log ?t))) a tso"
      unfolding registered_def
    proof
      fix p assume "p \<in> set (entry_positions (trecs st'' a))"
      then have p: "p \<in> set (entry_positions ?t)" "p \<in> set (entry_positions t2)" by (simp_all add: u s3 pos)
      have "e_tvar (entry_at ?t p) \<in> dom (trec_log ?t)" using trec_log_at [OF ok(2) p(1)] by auto
      with bspec [OF b(5) p(2)] show "\<exists>q. new_value (entry_at (trecs st'' a) p) = WatchQueue q \<and>
          q \<in> set (pushed Q g (dom (trec_log ?t)) (e_tvar (entry_at (trecs st'' a) p))) \<and> wq_closure (watch_queues st'' q) = tso"
        by (auto simp: u s3 pushed_def ev [OF p(1)])
    qed
    moreover have "trec_ok ?t3" "same_reads ?t ?t3" using same_reads_ok [OF r] r ok(2) by (auto simp: same_reads_def)
    moreover have "(\<forall>x. \<forall>q \<in> set (Q x). wq_closure (watch_queues st'' q) = wq_closure (watch_queues st q))"
      using b(9) by (simp add: u s3 s1)
    moreover have "stmWait cfg tso a st = Some (True, ?s3)" using st1(1) True b(1) by (simp add: stmWait_def)
    ultimately show ?thesis using True u b(5)
      by (intro exI [of _ ?s3]) (auto simp: s3 s1 waiting_def enrolled_def intro!: exI [of _ g] exI [of _ F'] exI [of _ st''])
  qed
qed

lemma readable_cong: "current_value (tvars st' x) = current_value (tvars st x) \<Longrightarrow> readable cfg st' x = readable cfg st x"
  by (simp add: readable_def)

definition removed :: "(addr \<Rightarrow> addr list) \<Rightarrow> (addr \<Rightarrow> addr) \<Rightarrow> addr set \<Rightarrow> addr \<Rightarrow> addr list" where
  "removed Q g X = (\<lambda>x. if x \<in> X then remove1 (g x) (Q x) else Q x)"

lemma removed_pushed [simp]: "removed (pushed Q g X) g X = Q"
  by (auto simp: removed_def pushed_def)

lemma remove_loop:
  assumes ok: "queues_ok st Q F" "trec_ok (trecs st a)"
    and reg: "\<And>p. p \<in> set (entry_positions (trecs st a)) \<Longrightarrow>
      new_value (entry_at (trecs st a) p) = WatchQueue (g (e_tvar (entry_at (trecs st a) p))) \<and>
      g (e_tvar (entry_at (trecs st a) p)) \<in> set (Q (e_tvar (entry_at (trecs st a) p))) \<and> readable cfg st (e_tvar (entry_at (trecs st a) p))"
  shows "\<exists>st' F'. remove_watch_queue_entries_for_trec cfg a st = Some st' \<and>
    queues_ok st' (removed Q g (dom (trec_log (trecs st a)))) F' \<and> trecs st' = trecs st \<and> tsos st' = tsos st \<and> wakeups_sent st' = wakeups_sent st \<and>
    (\<forall>y. current_value (tvars st' y) = current_value (tvars st y) \<and> num_updates (tvars st' y) = num_updates (tvars st y)) \<and>
    (\<forall>r. wq_closure (watch_queues st' r) = wq_closure (watch_queues st r))"
proof -
  let ?t = "trecs st a"
  let ?ps = "entry_positions ?t"
  let ?I = "\<lambda>ps s. \<exists>F'. queues_ok s (removed Q g (entry_tvars ?t ps)) F' \<and> trecs s = trecs st \<and> tsos s = tsos st \<and> wakeups_sent s = wakeups_sent st \<and>
    (\<forall>y. current_value (tvars s y) = current_value (tvars st y) \<and> num_updates (tvars s y) = num_updates (tvars st y)) \<and>
    (\<forall>r. wq_closure (watch_queues s r) = wq_closure (watch_queues st r))"
  have "\<exists>s'. for_each_pos (remove_watch_queue_entry cfg a) ?ps st = Some s' \<and> ?I ?ps s'"
  proof (rule for_each_all [where I = ?I])
    show "?I [] st" using ok by (intro exI [of _ F]) (simp add: entry_tvars_def removed_def)
  next
    fix pre p post s
    assume ps: "?ps = pre @ p # post" and "?I pre s"
    then obtain F' where I: "queues_ok s (removed Q g (entry_tvars ?t pre)) F'" "trecs s = trecs st" "tsos s = tsos st"
      "\<And>y. current_value (tvars s y) = current_value (tvars st y) \<and> num_updates (tvars s y) = num_updates (tvars st y)"
      "\<And>r. wq_closure (watch_queues s r) = wq_closure (watch_queues st r)" "wakeups_sent s = wakeups_sent st" by blast
    let ?e = "entry_at ?t p"
    let ?x = "e_tvar ?e"
    have p: "p \<in> set ?ps" "p \<notin> set pre" using ps distinct_entry_positions [of ?t] by (auto simp del: distinct_entry_positions)
    have x: "?x \<notin> entry_tvars ?t pre" using p pos_unique [OF ok(2) p(1)] ps by (auto simp: entry_tvars_def)
    have D: "entry_tvars ?t (pre @ [p]) = insert ?x (entry_tvars ?t pre)" by (simp add: entry_tvars_def)
    have e: "?e = entry_at (trecs s a) p" by (simp add: I(2))
    have "g ?x \<in> set (removed Q g (entry_tvars ?t pre) ?x)" "new_value ?e = WatchQueue (g ?x)" "readable cfg s ?x"
      using reg [OF p(1)] x I(4) by (simp_all add: removed_def readable_def)
    from remove_entry_correct [OF I(1) e this(2,1,3)]
    obtain s' where r: "remove_watch_queue_entry cfg a p s = Some (False, s')"
      "queues_ok s' ((removed Q g (entry_tvars ?t pre))(?x := remove1 (g ?x) (removed Q g (entry_tvars ?t pre) ?x))) (g ?x # F')"
      "trecs s' = trecs s" "tsos s' = tsos s" "wakeups_sent s' = wakeups_sent s"
      "\<And>y. current_value (tvars s' y) = current_value (tvars s y) \<and> num_updates (tvars s' y) = num_updates (tvars s y)"
      "\<And>r. wq_closure (watch_queues s' r) = wq_closure (watch_queues s r)" by blast
    have "(removed Q g (entry_tvars ?t pre))(?x := remove1 (g ?x) (removed Q g (entry_tvars ?t pre) ?x)) = removed Q g (entry_tvars ?t (pre @ [p]))"
      using x unfolding D by (auto simp: removed_def)
    then have "?I (pre @ [p]) s'" using r I by (intro exI [of _ "g ?x # F'"]) simp
    with r(1) show "\<exists>s'. remove_watch_queue_entry cfg a p s = Some (False, s') \<and> ?I (pre @ [p]) s'" by blast
  qed
  moreover have "entry_tvars ?t ?ps = dom (trec_log ?t)" using logged_entry_tvars [of ?t] by (auto simp: dom_def)
  ultimately show ?thesis by (auto simp: remove_watch_queue_entries_for_trec_def for_each_entry_def)
qed

lemma same_reads_dom: "same_reads t t' \<Longrightarrow> dom (trec_log t') = dom (trec_log t)"
  using logged_entry_tvars [of t] logged_entry_tvars [of t'] by (auto simp: same_reads_def entry_tvars_def dom_def)

lemma queues_okE: "queues_ok st Q F \<Longrightarrow> queue_ok st x (Q x)"
  by (rule queues_okD(1))

lemma rewait_correct:
  assumes ok: "queues_ok st Q F" "enrolled st Q a tso" "unowned st a" "tso_trec (tsos st tso) = a"
    and reg: "\<And>p. p \<in> set (entry_positions (trecs st a)) \<Longrightarrow>
      new_value (entry_at (trecs st a) p) = WatchQueue (g (e_tvar (entry_at (trecs st a) p))) \<and> readable cfg st (e_tvar (entry_at (trecs st a) p))"
  shows "\<exists>st' F'. stmReWait cfg tso st = Some (trec_valid (tvars st) (trecs st a), st') \<and>
    (\<forall>x. current_value (tvars st' x) = current_value (tvars st x)) \<and> (\<forall>b. b \<noteq> a \<longrightarrow> trecs st' b = trecs st b) \<and>
    wakeups_sent st' = wakeups_sent st \<and> (\<forall>q. wq_closure (watch_queues st' q) = wq_closure (watch_queues st q)) \<and>
    (if trec_valid (tvars st) (trecs st a)
     then queues_ok st' Q F' \<and> tsos st' = (tsos st)(tso := (tsos st tso)\<lparr>why_blocked := BlockedOnSTM\<rparr>) \<and> same_log (trecs st a) (trecs st' a)
     else queues_ok st' (removed Q g (dom (trec_log (trecs st a)))) F' \<and> tsos st' = tsos st)"
proof -
  let ?t = "trecs st a"
  have tok: "trec_ok ?t" and ws: "t_state ?t = TREC_WAITING" and rg: "registered st Q a tso" using ok(2) by (simp_all add: enrolled_def)
  obtain st1 where st1: "validate_and_acquire_ownership cfg a True True st = Some (trec_valid (tvars st) ?t, st1)"
    "if trec_valid (tvars st) ?t then validated cfg a True st (entry_positions ?t) st1
     else \<exists>t'. st1 = st\<lparr>trecs := (trecs st)(a := t')\<rparr> \<and> same_log ?t t'"
    using validate_acquire [OF tok ok(3), of cfg True True] by auto
  show ?thesis
  proof (cases "trec_valid (tvars st) ?t")
    case True
    then have v: "validated cfg a True st (entry_positions ?t) st1" using st1(2) by simp
    from validated_False_facts [OF v] obtain t' where t': "same_log ?t t'"
      and s1: "st1 = st\<lparr>tvars := locked_by a (acquired_set cfg True ?t (entry_positions ?t)) (tvars st), trecs := (trecs st)(a := t')\<rparr>"
      and val: "\<And>p. p \<in> set (entry_positions ?t) \<Longrightarrow> current_value (tvars st (e_tvar (entry_at ?t p))) = expected_value (entry_at ?t p)"
      by blast
    have pos: "entry_positions t' = entry_positions ?t" using t' by (simp add: same_log_def)
    let ?s2 = "park_tso tso st1"
    have s2: "tvars ?s2 = tvars st1" "trecs ?s2 = trecs st1" "watch_queues ?s2 = watch_queues st"
      "free_tvar_watch_queues ?s2 = free_tvar_watch_queues st" "next_object ?s2 = next_object st"
      "tsos ?s2 = (tsos st)(tso := (tsos st tso)\<lparr>why_blocked := BlockedOnSTM\<rparr>)" "wakeups_sent ?s2 = wakeups_sent st" by (simp_all add: park_tso_def s1)
    have acq: "acquired_set cfg True ?t (entry_positions ?t) = acquired_set cfg True (trecs ?s2 a) (entry_positions (trecs ?s2 a))"
      unfolding s2 using same_log_acquired [OF t' subset_refl] by (simp add: s1 pos)
    have "current_value (tvars ?s2 x) = (if x \<in> acquired_set cfg True ?t (entry_positions ?t) then TRec a else current_value (tvars st x))" for x
      unfolding s2 by (simp add: s1)
    moreover have "current_value (tvars st (e_tvar (entry_at (trecs ?s2 a) p))) = expected_value (entry_at (trecs ?s2 a) p)"
      if "p \<in> set (entry_positions (trecs ?s2 a))" for p
    proof -
      have p: "p \<in> set (entry_positions ?t)" using that unfolding s2 by (simp add: s1 pos)
      show ?thesis unfolding s2 using same_log_entry [OF t' p] val [OF p] by (simp add: s1)
    qed
    moreover have "current_value (tvars st x) \<noteq> TRec a" for x using ok(3) by (simp add: unowned_def)
    ultimately obtain st'' where u: "stmWaitUnlock cfg a ?s2 = Some st''" "\<And>x. current_value (tvars st'' x) = current_value (tvars st x)"
      "\<And>x. first_watch_queue_entry (tvars st'' x) = first_watch_queue_entry (tvars ?s2 x)"
      "tsos st'' = tsos ?s2" "watch_queues st'' = watch_queues ?s2" "trecs st'' = trecs ?s2" "wakeups_sent st'' = wakeups_sent ?s2"
      "free_tvar_watch_queues st'' = free_tvar_watch_queues ?s2" "next_object st'' = next_object ?s2"
      using unlock_all [of ?s2 "acquired_set cfg True ?t (entry_positions ?t)" a "tvars st" cfg, OF _ acq] by blast
    have "queues_ok st'' Q F" using ok(1) by (subst queues_ok_cong [where st = st]) (simp_all add: u s2(3-5), unfold s2(1), simp add: s1)
    moreover have "stmReWait cfg tso st = Some (True, st'')"
      using u(1) st1(1) True ok(4) by (simp add: stmReWait_def stmWaitUnlock_def Let_def)
    moreover have "trecs st'' = (trecs st)(a := t')" unfolding u(6) s2 by (simp add: s1)
    ultimately show ?thesis using True u(2,4,5,7) s2(3,6,7) t' by auto
  next
    case False
    with st1 obtain t' where t': "st1 = st\<lparr>trecs := (trecs st)(a := t')\<rparr>" "same_log ?t t'" by auto
    have pos: "entry_positions t' = entry_positions ?t" using t'(2) by (simp add: same_log_def)
    have q1: "queues_ok st1 Q F" using ok(1) by (subst queues_ok_cong [where st = st]) (simp_all add: t')
    have tok1: "trec_ok (trecs st1 a)" and d: "dom (trec_log (trecs st1 a)) = dom (trec_log ?t)" and w1: "t_state (trecs st1 a) = TREC_WAITING"
      using same_log_ok [OF t'(2)] tok ws t' by (auto simp: same_log_def)
    have "new_value (entry_at (trecs st1 a) p) = WatchQueue (g (e_tvar (entry_at (trecs st1 a) p))) \<and>
      g (e_tvar (entry_at (trecs st1 a) p)) \<in> set (Q (e_tvar (entry_at (trecs st1 a) p))) \<and> readable cfg st1 (e_tvar (entry_at (trecs st1 a) p))"
      if p: "p \<in> set (entry_positions (trecs st1 a))" for p
    proof -
      have p': "p \<in> set (entry_positions ?t)" using p pos t'(1) by simp
      from bspec [OF rg [unfolded registered_def] p'] reg [OF p'] same_log_entry [OF t'(2) p'] show ?thesis
        by (auto simp: t'(1) readable_def)
    qed
    from remove_loop [OF q1 tok1 this] obtain st2 F' where rm: "remove_watch_queue_entries_for_trec cfg a st1 = Some st2"
      "queues_ok st2 (removed Q g (dom (trec_log ?t))) F'" "tsos st2 = tsos st1" "trecs st2 = trecs st1" "wakeups_sent st2 = wakeups_sent st1"
      "\<forall>q. wq_closure (watch_queues st2 q) = wq_closure (watch_queues st1 q)"
      "\<forall>y. current_value (tvars st2 y) = current_value (tvars st1 y) \<and> num_updates (tvars st2 y) = num_updates (tvars st1 y)"
      unfolding d by blast
    have "queues_ok (free_stg_trec_header a st2) (removed Q g (dom (trec_log ?t))) F'"
      using rm(2) by (subst queues_ok_cong [where st = st2]) simp_all
    moreover have "stmReWait cfg tso st = Some (False, free_stg_trec_header a st2)"
      using rm(1) st1(1) False ok(4) w1 by (simp add: stmReWait_def Let_def)
    ultimately show ?thesis using False rm t'(1) by auto
  qed
qed

lemma unwait_correct:
  assumes ok: "queues_ok st Q F" "enrolled st Q a tso"
    and reg: "\<And>p. p \<in> set (entry_positions (trecs st a)) \<Longrightarrow>
      new_value (entry_at (trecs st a) p) = WatchQueue (g (e_tvar (entry_at (trecs st a) p))) \<and> readable cfg st (e_tvar (entry_at (trecs st a) p))"
  shows "\<exists>st' F'. remove_watch_queue_entries_for_trec cfg a st = Some st' \<and> queues_ok st' (removed Q g (dom (trec_log (trecs st a)))) F' \<and>
    (\<forall>x. current_value (tvars st' x) = current_value (tvars st x)) \<and> trecs st' = trecs st \<and> tsos st' = tsos st \<and>
    wakeups_sent st' = wakeups_sent st \<and> (\<forall>q. wq_closure (watch_queues st' q) = wq_closure (watch_queues st q))"
proof -
  have r: "new_value (entry_at (trecs st a) p) = WatchQueue (g (e_tvar (entry_at (trecs st a) p))) \<and>
      g (e_tvar (entry_at (trecs st a) p)) \<in> set (Q (e_tvar (entry_at (trecs st a) p))) \<and> readable cfg st (e_tvar (entry_at (trecs st a) p))"
    if "p \<in> set (entry_positions (trecs st a))" for p
    using ok(2) reg [OF that] that by (fastforce simp: enrolled_def registered_def)
  have tok: "trec_ok (trecs st a)" using ok(2) by (simp add: enrolled_def)
  from remove_loop [OF ok(1) tok r] show ?thesis by blast
qed

section \<open>Properties\<close>

text \<open>C15 A commit succeeds exactly when the record is not condemned and every TVar it used holds the value it
  expects. It then gives every TVar the new value of the log, all at once, and wakes every thread that waits
  for a TVar it changed; otherwise the memory and the threads stay as they are. In both configurations no
  TVar is left locked, and no other record changes.\<close>

theorem stmCommitTransaction_correct:
  assumes "trec_ok (trecs st a)" "unowned st a" "queues_ok st Q F" "n_capabilities < 2 ^ 22"
  shows "\<exists>st'. stmCommitTransaction cfg n_capabilities a st = Some (trec_valid (tvars st) (trecs st a), st') \<and>
    (\<forall>b. b \<noteq> a \<longrightarrow> trecs st' b = trecs st b) \<and>
    (if trec_valid (tvars st) (trecs st a)
     then (\<forall>x. current_value (tvars st' x) = after_write (trec_log (trecs st a)) (current_value (tvars st x)) x) \<and>
       (\<forall>x e n. trec_log (trecs st a) x = Some (e, n) \<and> e \<noteq> n \<longrightarrow>
         (\<forall>u \<in> set (Q x). woken cfg st st' (wq_closure (watch_queues st u))))
     else tvars st' = tvars st \<and> tsos st' = tsos st)"
  using commit_correct [OF assms(1,2) queues_okE [OF assms(3)] assms(4), of cfg] by blast

text \<open>C28 Reading a TVar inside a nest of transactions gives the value last written by the transaction or one that
  encloses it, or else the one in memory, and both reading and writing only extend the log of the innermost
  record: the nest stays well formed, its log maps the TVar to the value expected so far and the value seen or
  written, and the memory and the other records do not change.\<close>

theorem stm_read_write_correct:
  assumes "nest_ok st (t # ts)" "nest_log st (t # ts) x = None \<longrightarrow> readable cfg st x"
  shows "(\<exists>st'. stmReadTVar cfg t x st = Some (snd (nest_view st (t # ts) x), st') \<and> nest_ok st' (t # ts) \<and>
      nest_log st' (t # ts) = (nest_log st (t # ts))(x \<mapsto> nest_view st (t # ts) x) \<and> tvars st' = tvars st \<and>
      (\<forall>u. u \<noteq> t \<longrightarrow> trecs st' u = trecs st u)) \<and>
    (\<exists>st'. stmWriteTVar cfg t x new st = Some st' \<and> nest_ok st' (t # ts) \<and>
      nest_log st' (t # ts) = (nest_log st (t # ts))(x \<mapsto> (fst (nest_view st (t # ts) x), new)) \<and> tvars st' = tvars st \<and>
      (\<forall>u. u \<noteq> t \<longrightarrow> trecs st' u = trecs st u))"
  using assms read_correct [of st t ts x cfg] write_correct [of st t ts x cfg new] by (fastforce simp del: nest_log.simps)

text \<open>C19 A nested transaction: its start adds an empty record that sees what the enclosing ones see; its commit
  succeeds exactly when it is valid and makes the enclosing nest expect and see what the inner one did; its
  abort leaves the enclosing nest as it was, but for the values it has read, which the enclosing transaction
  now expects too.\<close>

theorem stm_nested_correct:
  assumes "nest_ok st (a # et # ts)" "unowned st a"
    and "if free_trec_headers st = 0 then next_object st \<notin> set (a # et # ts) \<and> next_object st \<noteq> 0
      else free_trec_headers st \<notin> set (a # et # ts) \<and> prev_chunks (trecs st (free_trec_headers st)) = []"
  shows "(\<exists>t st'. stmStartTransaction cfg a st = (t, st') \<and> nest_ok st' (t # a # et # ts) \<and>
      nest_log st' (t # a # et # ts) = nest_log st (a # et # ts) \<and> tvars st' = tvars st) \<and>
    (\<exists>st'. stmCommitNestedTransaction cfg a st = Some (trec_valid (tvars st) (trecs st a), st') \<and> tvars st' = tvars st \<and>
      nest_ok st' (et # ts) \<and>
      nest_log st' (et # ts) = (if trec_valid (tvars st) (trecs st a) then nest_log st (a # et # ts) else nest_log st (et # ts))) \<and>
    (\<exists>st'. stmAbortTransaction cfg a st = Some st' \<and> tvars st' = tvars st \<and> nest_ok st' (et # ts) \<and>
      nest_log st' (et # ts) = reads_into (trec_log (trecs st a)) (nest_log st (et # ts)))"
  using start_correct [of "a # et # ts" a st cfg] commit_nested_nest [OF assms(1,2), of cfg] abort_nested_correct [OF assms(1), of cfg] assms
  by (auto simp del: nest_log.simps)

text \<open>C27 Going to sleep and being woken for nothing, or being aborted: waiting succeeds exactly when the record is
  valid, and otherwise changes neither the TVars nor the queues. When it succeeds, the queue of every TVar in
  the log has got one new entry at its front, which names the thread and to which the entry of the record
  points, the other queues are as before, and the thread is blocked. Re-validation with an unchanged memory
  then keeps the thread asleep in the same queues, and aborting takes its entries out of the queues again and
  leaves each queue, every TVar's value and the other records as they were.\<close>

theorem stmWait_roundtrip:
  assumes "queues_ok st Q F" "trec_ok (trecs st a)" "unowned st a" "enclosing_trec (trecs st a) = 0" "tso_trec (tsos st tso) = a"
  shows "\<exists>st1. stmWait cfg tso a st = Some (trec_valid (tvars st) (trecs st a), st1) \<and>
    (if trec_valid (tvars st) (trecs st a)
     then \<exists>st2 st3 st4 g F2 F3 F4. stmWaitUnlock cfg a st1 = Some st2 \<and> why_blocked (tsos st2 tso) = BlockedOnSTM \<and>
       queues_ok st2 (\<lambda>x. if trec_log (trecs st a) x \<noteq> None then g x # Q x else Q x) F2 \<and>
       (\<forall>x. trec_log (trecs st a) x \<noteq> None \<longrightarrow> wq_closure (watch_queues st2 (g x)) = tso) \<and>
       (\<forall>p \<in> set (entry_positions (trecs st2 a)).
         new_value (entry_at (trecs st2 a) p) = WatchQueue (g (e_tvar (entry_at (trecs st2 a) p)))) \<and>
       stmReWait cfg tso st2 = Some (True, st3) \<and> why_blocked (tsos st3 tso) = BlockedOnSTM \<and>
       queues_ok st3 (\<lambda>x. if trec_log (trecs st a) x \<noteq> None then g x # Q x else Q x) F3 \<and>
       stmAbortTransaction cfg a st2 = Some st4 \<and> queues_ok st4 Q F4 \<and> t_state (trecs st4 a) = TREC_ABORTED \<and>
       (\<forall>x. current_value (tvars st4 x) = current_value (tvars st x)) \<and> (\<forall>b. b \<noteq> a \<longrightarrow> trecs st4 b = trecs st b)
     else tvars st1 = tvars st \<and> queues_ok st1 Q F)"
proof -
  let ?t = "trecs st a"
  let ?X = "dom (trec_log ?t)"
  obtain st1 where st1: "stmWait cfg tso a st = Some (trec_valid (tvars st) ?t, st1)"
    "if trec_valid (tvars st) ?t
     then \<exists>g F' st''. stmWaitUnlock cfg a st1 = Some st'' \<and> queues_ok st'' (pushed Q g ?X) F' \<and> waiting st'' (pushed Q g ?X) a tso \<and>
       (\<forall>p \<in> set (entry_positions (trecs st'' a)). new_value (entry_at (trecs st'' a) p) = WatchQueue (g (e_tvar (entry_at (trecs st'' a) p)))) \<and>
       same_reads ?t (trecs st'' a) \<and> (\<forall>b. b \<noteq> a \<longrightarrow> trecs st'' b = trecs st b) \<and>
       (\<forall>x. current_value (tvars st'' x) = current_value (tvars st x)) \<and>
       tsos st'' = (tsos st)(tso := (tsos st tso)\<lparr>why_blocked := BlockedOnSTM\<rparr>) \<and> wakeups_sent st'' = wakeups_sent st \<and>
       (\<forall>x. \<forall>q \<in> set (Q x). wq_closure (watch_queues st'' q) = wq_closure (watch_queues st q))
     else tvars st1 = tvars st \<and> tsos st1 = tsos st \<and> queues_ok st1 Q F \<and> wakeups_sent st1 = wakeups_sent st \<and> watch_queues st1 = watch_queues st"
    using wait_correct [OF assms(1-3), of cfg tso] by blast
  show ?thesis
  proof (cases "trec_valid (tvars st) ?t")
    case False
    then show ?thesis using st1 by auto
  next
    case True
    with st1(2) obtain g F' st2 where u: "stmWaitUnlock cfg a st1 = Some st2" and q: "queues_ok st2 (pushed Q g ?X) F'"
      and w: "waiting st2 (pushed Q g ?X) a tso"
      and ent: "\<And>p. p \<in> set (entry_positions (trecs st2 a)) \<Longrightarrow>
        new_value (entry_at (trecs st2 a) p) = WatchQueue (g (e_tvar (entry_at (trecs st2 a) p)))"
      and r: "same_reads ?t (trecs st2 a)" and others: "\<forall>b. b \<noteq> a \<longrightarrow> trecs st2 b = trecs st b"
      and cv: "\<And>x. current_value (tvars st2 x) = current_value (tvars st x)" and tt: "tso_trec (tsos st2 tso) = a"
      using assms(5) by auto
    have w': "enrolled st2 (pushed Q g ?X) a tso" and ws: "t_state (trecs st2 a) = TREC_WAITING" "why_blocked (tsos st2 tso) = BlockedOnSTM"
      using w by (simp_all add: waiting_def enrolled_def)
    have reg: "new_value (entry_at (trecs st2 a) p) = WatchQueue (g (e_tvar (entry_at (trecs st2 a) p))) \<and>
        readable cfg st2 (e_tvar (entry_at (trecs st2 a) p))" if "p \<in> set (entry_positions (trecs st2 a))" for p
      using that ent [OF that] True r assms(3) by (auto simp: same_reads_def readable_def cv trec_valid_def unowned_def)
    have named: "wq_closure (watch_queues st2 (g x)) = tso" if x: "trec_log ?t x \<noteq> None" for x
    proof -
      have "trec_log (trecs st2 a) x \<noteq> None" using x same_reads_dom [OF r] domIff by metis
      then obtain p where "p \<in> set (entry_positions (trecs st2 a))" "e_tvar (entry_at (trecs st2 a) p) = x"
        using logged_entry_tvars [of "trecs st2 a" x] by (auto simp: entry_tvars_def)
      then show ?thesis using w' ent by (fastforce simp: enrolled_def registered_def)
    qed
    have "unowned st2 a" "trec_valid (tvars st2) (trecs st2 a)"
      using assms(3) True r ws by (auto simp: unowned_def cv same_reads_def trec_valid_def)
    from rewait_correct [OF q w' this(1) tt reg] this(2)
    obtain st3 F3 where 3: "stmReWait cfg tso st2 = Some (True, st3)" "queues_ok st3 (pushed Q g ?X) F3" "why_blocked (tsos st3 tso) = BlockedOnSTM"
      by auto
    from unwait_correct [OF q w' reg] obtain st4 F4 where 4: "remove_watch_queue_entries_for_trec cfg a st2 = Some st4" "queues_ok st4 Q F4"
      "\<forall>x. current_value (tvars st4 x) = current_value (tvars st2 x)" "trecs st4 = trecs st2"
      unfolding same_reads_dom [OF r] by auto
    have "enclosing_trec (trecs st2 a) = 0" using r assms(4) by (simp add: same_reads_def)
    then have "stmAbortTransaction cfg a st2 = Some (set_state a TREC_ABORTED st4)"
      using 4(1) ws by (simp add: stmAbortTransaction_def)
    moreover have "queues_ok (set_state a TREC_ABORTED st4) Q F4"
      using 4(2) by (subst queues_ok_cong [where st = st4]) (simp_all add: set_state_def)
    ultimately have A: "stmAbortTransaction cfg a st2 = Some (set_state a TREC_ABORTED st4)" "queues_ok (set_state a TREC_ABORTED st4) Q F4" .
    have P: "pushed Q g ?X = (\<lambda>x. if trec_log ?t x \<noteq> None then g x # Q x else Q x)" by (auto simp: pushed_def dom_def)
    show ?thesis
      unfolding if_P [OF True]
      by (rule exI [of _ st1], rule conjI, use st1(1) True in simp,
          rule exI [of _ st2], rule exI [of _ st3], rule exI [of _ "set_state a TREC_ABORTED st4"], rule exI [of _ g], rule exI [of _ F'],
          rule exI [of _ F3], rule exI [of _ F4])
        (use A u ws q [unfolded P] named ent 3(1,3) 3(2) [unfolded P] 4 others cv in \<open>simp add: set_state_def\<close>)
  qed
qed

section \<open>An example\<close>

text \<open>Record 21 is at the top level and changes TVar 10, record 22 is nested in it and reads TVar 11, and
  record 23 is another one at the top level that changes TVar 10.\<close>

definition demo_trec :: "addr \<Rightarrow> addr \<Rightarrow> word64 \<Rightarrow> trec" where
  "demo_trec outer x v = \<lparr>enclosing_trec = outer,
    current_chunk = \<lparr>next_entry_idx = 1, entries = (\<lambda>_. \<lparr>e_tvar = x, expected_value = Value 5, new_value = Value v, e_num_updates = 0\<rparr>)\<rparr>,
    prev_chunks = [], t_state = TREC_ACTIVE\<rparr>"

definition stm_demo :: stm_state where
  "stm_demo = \<lparr>tvars = (\<lambda>_. \<lparr>current_value = Value 5, first_watch_queue_entry = 0, num_updates = 0\<rparr>),
    watch_queues = (\<lambda>_. \<lparr>wq_closure = 0, next_queue_entry = 0, prev_queue_entry = 0\<rparr>),
    trecs = (\<lambda>a. if a = 21 then demo_trec 0 10 7 else if a = 22 then demo_trec 21 11 5 else demo_trec 0 10 9),
    tsos = (\<lambda>_. \<lparr>why_blocked = NotBlocked, tso_link = 0, throwto_null = False, tso_cap = 0, tso_trec = 21\<rparr>),
    cap_no = 0, free_tvar_watch_queues = 0, free_trec_chunks = [], free_trec_headers = 0, transaction_tokens = 0,
    run_queue = [], wakeups_sent = [], next_object = 100,
    junk = (\<lambda>_. \<lparr>e_tvar = 0, expected_value = Value 0, new_value = Value 0, e_num_updates = 0\<rparr>), max_commits = 0\<rparr>"

lemma demo_trec_facts: "entry_positions (demo_trec o' x v) = [(0, 0)]" "trec_ok (demo_trec o' x v)"
    "trec_log (demo_trec o' x v) = [x \<mapsto> (Value 5, Value v)]"
  by (simp_all add: demo_trec_def entry_positions_def trec_ok_def trec_entries_def TREC_CHUNK_NUM_ENTRIES_def trec_log_def entry_log_def)

lemma stm_demo_facts: "trec_ok (trecs stm_demo a)" "unowned stm_demo a" "trec_valid (tvars stm_demo) (trecs stm_demo a)"
    "queues_ok stm_demo (\<lambda>_. []) []"
  by (simp_all add: stm_demo_def demo_trec_facts unowned_def trec_valid_def queues_ok_def queue_ok_def) (simp_all add: demo_trec_def)

lemma stm_demo_trecs: "trecs stm_demo 21 = demo_trec 0 10 7" "trecs stm_demo 22 = demo_trec 21 11 5" "trecs stm_demo 23 = demo_trec 0 10 9"
  by (simp_all add: stm_demo_def)

lemma stm_demo_nests: "nest_ok stm_demo [21]" "nest_ok stm_demo [22, 21]"
  by (simp_all add: nest_ok_def stm_demo_facts stm_demo_trecs demo_trec_facts logs_agree_def) (simp_all add: demo_trec_def)

theorem stmCommitTransaction_correct_witness:
  "\<exists>st'. stmCommitTransaction STM_FG_LOCKS 4 21 stm_demo = Some (True, st') \<and> current_value (tvars st' 10) = Value 7"
  using stmCommitTransaction_correct [OF stm_demo_facts(1) stm_demo_facts(2) stm_demo_facts(4), where n_capabilities = 4 and a = 21 and cfg = STM_FG_LOCKS]
    stm_demo_facts(3) [of 21]
  by (auto simp: stm_demo_trecs demo_trec_facts after_write_def)

theorem stm_read_write_correct_witness:
  "(\<exists>st'. stmReadTVar STM_UNIPROC 22 10 stm_demo = Some (Value 7, st')) \<and>
   (\<exists>st'. stmWriteTVar STM_FG_LOCKS 22 12 (Value 8) stm_demo = Some st' \<and> nest_ok st' [22, 21])"
proof -
  have "readable cfg stm_demo x" for cfg x by (simp add: readable_def stm_demo_def)
  then show ?thesis
    using stm_read_write_correct [of stm_demo 22 "[21]" 10 STM_UNIPROC "Value 0", OF stm_demo_nests(2)]
      stm_read_write_correct [of stm_demo 22 "[21]" 12 STM_FG_LOCKS "Value 8", OF stm_demo_nests(2)]
    by (auto simp: nest_view_def stm_demo_trecs demo_trec_facts)
qed

theorem stm_nested_correct_witness:
  "\<exists>st'. stmCommitNestedTransaction STM_FG_LOCKS 22 stm_demo = Some (True, st') \<and> nest_ok st' [21] \<and> nest_log st' [21] 11 = Some (Value 5, Value 5)"
proof -
  have "free_trec_headers stm_demo = 0" "next_object stm_demo = 100" by (simp_all add: stm_demo_def)
  with stm_nested_correct [OF stm_demo_nests(2) stm_demo_facts(2), of STM_FG_LOCKS] stm_demo_facts(3) [of 22]
  show ?thesis by (auto simp: stm_demo_trecs demo_trec_facts simp del: nest_log.simps) (auto simp: stm_demo_trecs demo_trec_facts)
qed

theorem stmWait_roundtrip_witness:
  "\<exists>st1 st2 st3 q F. stmWait STM_FG_LOCKS 50 21 stm_demo = Some (True, st1) \<and> stmWaitUnlock STM_FG_LOCKS 21 st1 = Some st2 \<and>
    queues_ok st2 (\<lambda>x. if x = 10 then [q] else []) F \<and> wq_closure (watch_queues st2 q) = 50 \<and>
    stmReWait STM_FG_LOCKS 50 st2 = Some (True, st3) \<and> why_blocked (tsos st3 50) = BlockedOnSTM"
proof -
  have "enclosing_trec (trecs stm_demo 21) = 0" "tso_trec (tsos stm_demo 50) = 21"
    by (simp add: stm_demo_trecs demo_trec_def) (simp add: stm_demo_def)
  note R = stmWait_roundtrip [OF stm_demo_facts(4) stm_demo_facts(1) stm_demo_facts(2) this, of STM_FG_LOCKS, unfolded if_P [OF stm_demo_facts(3)]]
  then obtain st1 st2 st3 g F2 where w: "stmWait STM_FG_LOCKS 50 21 stm_demo = Some (True, st1)" "stmWaitUnlock STM_FG_LOCKS 21 st1 = Some st2"
      "queues_ok st2 (\<lambda>x. if trec_log (trecs stm_demo 21) x \<noteq> None then [g x] else []) F2"
      "\<forall>x. trec_log (trecs stm_demo 21) x \<noteq> None \<longrightarrow> wq_closure (watch_queues st2 (g x)) = 50"
      "stmReWait STM_FG_LOCKS 50 st2 = Some (True, st3)" "why_blocked (tsos st3 50) = BlockedOnSTM"
    using stm_demo_facts(3) [of 21] by fastforce
  have Q: "(\<lambda>x. if trec_log (trecs stm_demo 21) x \<noteq> None then [g x] else []) = (\<lambda>x. if x = 10 then [g 10] else [])"
    by (auto simp: stm_demo_trecs demo_trec_facts)
  have "wq_closure (watch_queues st2 (g 10)) = 50" using w(4) by (simp add: stm_demo_trecs demo_trec_facts)
  with w(1,2) w(3) [unfolded Q] w(5,6) show ?thesis by blast
qed

end
