(* ===== verification/STMSleeping.thy ===== *)
theory STMSleeping
  imports STMWaiting
begin

text \<open>
  Threads that sleep in the queues of TVars while other transactions run: the sequences of calls of the STM
  interface (\<open>rts/STM.c\<close>) in which threads go to sleep, are woken, sleep again or leave, and what
  every such sequence keeps true of the sleeping threads.
\<close>

section \<open>Records in the queues\<close>

lemma enrolled_mono:
  assumes e: "enrolled st Q a tso" and t: "same_log (trecs st a) (trecs st' a)"
    and q: "\<And>x q. q \<in> set (Q x) \<Longrightarrow> wq_closure (watch_queues st q) = tso \<Longrightarrow>
      q \<in> set (Q' x) \<and> wq_closure (watch_queues st' q) = tso"
  shows "enrolled st' Q' a tso"
proof -
  have pos: "entry_positions (trecs st' a) = entry_positions (trecs st a)" "t_state (trecs st' a) = t_state (trecs st a)"
    using t by (simp_all add: same_log_def)
  have "\<exists>q. new_value (entry_at (trecs st' a) p) = WatchQueue q \<and> q \<in> set (Q' (e_tvar (entry_at (trecs st' a) p))) \<and>
      wq_closure (watch_queues st' q) = tso" if p: "p \<in> set (entry_positions (trecs st a))" for p
    using e p q same_log_entry [OF t p] by (fastforce simp: enrolled_def registered_def)
  then show ?thesis using e same_log_ok(1) [OF t] by (simp add: enrolled_def registered_def pos)
qed

lemma enrolled_entries:
  assumes "enrolled st Q a tso"
  obtains g where "\<And>p. p \<in> set (entry_positions (trecs st a)) \<Longrightarrow>
    new_value (entry_at (trecs st a) p) = WatchQueue (g (e_tvar (entry_at (trecs st a) p))) \<and>
    g (e_tvar (entry_at (trecs st a) p)) \<in> set (Q (e_tvar (entry_at (trecs st a) p))) \<and>
    wq_closure (watch_queues st (g (e_tvar (entry_at (trecs st a) p)))) = tso"
proof -
  let ?t = "trecs st a"
  have r: "\<forall>p \<in> set (entry_positions ?t). \<exists>q. new_value (entry_at ?t p) = WatchQueue q \<and>
      q \<in> set (Q (e_tvar (entry_at ?t p))) \<and> wq_closure (watch_queues st q) = tso" and ok: "trec_ok ?t"
    using assms by (simp_all add: enrolled_def registered_def)
  from bchoice [OF r] obtain h where h: "\<And>p. p \<in> set (entry_positions ?t) \<Longrightarrow> new_value (entry_at ?t p) = WatchQueue (h p) \<and>
      h p \<in> set (Q (e_tvar (entry_at ?t p))) \<and> wq_closure (watch_queues st (h p)) = tso" by blast
  let ?pos = "inv_into (set (entry_positions ?t)) (\<lambda>p. e_tvar (entry_at ?t p))"
  have "inj_on (\<lambda>p. e_tvar (entry_at ?t p)) (set (entry_positions ?t))"
    using pos_unique [OF ok] by (auto intro: inj_onI)
  then have "?pos (e_tvar (entry_at ?t p)) = p" if "p \<in> set (entry_positions ?t)" for p
    using that by (rule inv_into_f_f)
  then show ?thesis using that [of "\<lambda>x. h (?pos x)"] h by simp
qed

lemma enrolled_queued:
  assumes "enrolled st Q a tso" "trec_log (trecs st a) x \<noteq> None"
  obtains q where "q \<in> set (Q x)" "wq_closure (watch_queues st q) = tso"
proof -
  from assms(2) obtain p where "p \<in> set (entry_positions (trecs st a))" "e_tvar (entry_at (trecs st a) p) = x"
    using logged_entry_tvars [of "trecs st a" x] by (auto simp: entry_tvars_def)
  then show ?thesis using assms(1) that by (fastforce simp: enrolled_def registered_def)
qed

section \<open>Sequences of calls\<close>

text \<open>
  \<open>stm_run cfg n W st\<close>: the calls so far have led from some well formed state, in which nobody this development follows
  sleeps, to \<open>st\<close>. \<open>W\<close> maps each record that waits in the queues to its thread and the TVars it had read when the thread went
  to sleep. The thread itself may meanwhile have been woken by a commit; it then calls \<open>stmReWait\<close>, which puts it to sleep again or
  takes its record out of the queues. A record that waits is used by no other call, and a thread waits with one record.
\<close>

inductive stm_run :: "stm_config \<Rightarrow> nat \<Rightarrow> (addr \<rightharpoonup> addr \<times> addr set) \<Rightarrow> stm_state \<Rightarrow> bool" for cfg n where
  run_empty: "queues_ok st Q F \<Longrightarrow> wakeups_sent st = [] \<Longrightarrow> stm_run cfg n Map.empty st"
| run_start: "stm_run cfg n W st \<Longrightarrow> stmStartTransaction cfg outer st = (t, st') \<Longrightarrow> W t = None \<Longrightarrow> stm_run cfg n W st'"
| run_read: "stm_run cfg n W st \<Longrightarrow> nest_ok st (t # ts) \<Longrightarrow> nest_log st (t # ts) x = None \<longrightarrow> readable cfg st x \<Longrightarrow> W t = None \<Longrightarrow>
    stmReadTVar cfg t x st = Some (v, st') \<Longrightarrow> stm_run cfg n W st'"
| run_write: "stm_run cfg n W st \<Longrightarrow> nest_ok st (t # ts) \<Longrightarrow> nest_log st (t # ts) x = None \<longrightarrow> readable cfg st x \<Longrightarrow> W t = None \<Longrightarrow>
    stmWriteTVar cfg t x v st = Some st' \<Longrightarrow> stm_run cfg n W st'"
| run_commit_nested: "stm_run cfg n W st \<Longrightarrow> nest_ok st (b # et # ts) \<Longrightarrow> unowned st b \<Longrightarrow> W b = None \<Longrightarrow> W et = None \<Longrightarrow>
    stmCommitNestedTransaction cfg b st = Some (r, st') \<Longrightarrow> stm_run cfg n W st'"
| run_abort_nested: "stm_run cfg n W st \<Longrightarrow> nest_ok st (b # et # ts) \<Longrightarrow> W b = None \<Longrightarrow> W et = None \<Longrightarrow>
    stmAbortTransaction cfg b st = Some st' \<Longrightarrow> stm_run cfg n W st'"
| run_commit: "stm_run cfg n W st \<Longrightarrow> trec_ok (trecs st b) \<Longrightarrow> unowned st b \<Longrightarrow> W b = None \<Longrightarrow>
    stmCommitTransaction cfg n b st = Some (r, st') \<Longrightarrow> stm_run cfg n W st'"
| run_abort: "stm_run cfg n W st \<Longrightarrow> enclosing_trec (trecs st b) = 0 \<Longrightarrow> t_state (trecs st b) \<noteq> TREC_WAITING \<Longrightarrow> W b = None \<Longrightarrow>
    stmAbortTransaction cfg b st = Some st' \<Longrightarrow> stm_run cfg n W st'"
| run_wait: "stm_run cfg n W st \<Longrightarrow> trec_ok (trecs st b) \<Longrightarrow> unowned st b \<Longrightarrow> W b = None \<Longrightarrow> \<forall>c X. W c \<noteq> Some (tso, X) \<Longrightarrow>
    stmWait cfg tso b st = Some (True, st1) \<Longrightarrow> stmWaitUnlock cfg b st1 = Some st' \<Longrightarrow>
    stm_run cfg n (W(b \<mapsto> (tso, {x. trec_log (trecs st b) x \<noteq> None}))) st'"
| run_wait_refused: "stm_run cfg n W st \<Longrightarrow> trec_ok (trecs st b) \<Longrightarrow> unowned st b \<Longrightarrow> W b = None \<Longrightarrow>
    stmWait cfg tso b st = Some (False, st') \<Longrightarrow> stm_run cfg n W st'"
| run_wait_again: "stm_run cfg n W st \<Longrightarrow> W b = Some (tso, X) \<Longrightarrow> tso_trec (tsos st tso) = b \<Longrightarrow> unowned st b \<Longrightarrow> \<forall>x\<in>X. readable cfg st x \<Longrightarrow>
    stmReWait cfg tso st = Some (True, st') \<Longrightarrow> stm_run cfg n W st'"
| run_leave: "stm_run cfg n W st \<Longrightarrow> W b = Some (tso, X) \<Longrightarrow> tso_trec (tsos st tso) = b \<Longrightarrow> unowned st b \<Longrightarrow> \<forall>x\<in>X. readable cfg st x \<Longrightarrow>
    stmReWait cfg tso st = Some (False, st') \<Longrightarrow> stm_run cfg n (W(b := None)) st'"
| run_abandon: "stm_run cfg n W st \<Longrightarrow> W b = Some (tso, X) \<Longrightarrow> enclosing_trec (trecs st b) = 0 \<Longrightarrow> \<forall>x\<in>X. readable cfg st x \<Longrightarrow>
    stmAbortTransaction cfg b st = Some st' \<Longrightarrow> stm_run cfg n (W(b := None)) st'"
| run_deliver: "stm_run cfg n W st \<Longrightarrow> wakeups_sent st = (c, tso) # ms \<Longrightarrow>
    st1 = tryWakeupThread cfg tso (st\<lparr>wakeups_sent := ms, cap_no := c\<rparr>) \<Longrightarrow>
    stm_run cfg n W (st1\<lparr>cap_no := cap_no st, run_queue := run_queue st\<rparr>)"
| run_schedule: "stm_run cfg n W st \<Longrightarrow> stm_run cfg n W (st\<lparr>run_queue := ts\<rparr>)"
| run_collect: "stm_run cfg n W st \<Longrightarrow> stm_run cfg n W (stmPreGCHook st)"

text \<open>What every sequence keeps: each waiting record is in the queue of every TVar it has read, and its thread, when it sleeps,
  either sleeps for a reason, since no TVar it has read has changed, or has a message on its way.\<close>

definition well_slept :: "stm_config \<Rightarrow> stm_state \<Rightarrow> addr \<Rightarrow> addr \<Rightarrow> bool" where
  "well_slept cfg st a tso \<longleftrightarrow> why_blocked (tsos st tso) = BlockedOnSTM \<longrightarrow>
    trec_valid (tvars st) (trecs st a) \<or> cfg = STM_FG_LOCKS \<and> (tso_cap (tsos st tso), tso) \<in> set (wakeups_sent st)"

definition sleepers_ok :: "stm_config \<Rightarrow> (addr \<rightharpoonup> addr \<times> addr set) \<Rightarrow> stm_state \<Rightarrow> (addr \<Rightarrow> addr list) \<Rightarrow> bool" where
  "sleepers_ok cfg W st Q \<longleftrightarrow> (\<forall>a tso X. W a = Some (tso, X) \<longrightarrow> enrolled st Q a tso \<and> dom (trec_log (trecs st a)) = X \<and>
      well_slept cfg st a tso \<and> (\<forall>b Y. W b = Some (tso, Y) \<longrightarrow> b = a))"

text \<open>An operation that leaves the queues and the waiting records alone.\<close>

lemma queues_kept_ok:
  assumes "queues_ok st Q F" "queues_kept st st'"
  shows "queues_ok st' Q F"
proof -
  note D = queues_okD [OF assms(1)]
  have le: "next_object st \<le> next_object st'" and k: "watch_queues st' = watch_queues st" "free_tvar_watch_queues st' = free_tvar_watch_queues st"
    "\<And>x. first_watch_queue_entry (tvars st' x) = first_watch_queue_entry (tvars st x)"
    using assms(2) by (simp_all add: queues_kept_def)
  have "queue_ok st' x (Q x)" for x by (rule queue_ok_frame [OF D(1)]) (simp_all add: k)
  moreover have "q < next_object st'" if "q \<in> set F \<or> q \<in> set (Q x)" for q x using that D(5) [of q] D(6) [of q x] le by linarith
  ultimately show ?thesis
    by (intro queues_okI [where n = "next_object st'"]) (use D(2-4,7) le in \<open>simp_all add: k, blast\<close>)
qed

lemma sleepers_kept:
  assumes s: "sleepers_ok cfg W st Q" and k: "queues_kept st st'"
    and t: "\<And>a tso X. W a = Some (tso, X) \<Longrightarrow> trecs st' a = trecs st a"
    and w: "\<And>a tso X. W a = Some (tso, X) \<Longrightarrow> well_slept cfg st a tso \<Longrightarrow> well_slept cfg st' a tso"
  shows "sleepers_ok cfg W st' Q"
  unfolding sleepers_ok_def
proof (intro allI impI)
  fix a tso X assume a: "W a = Some (tso, X)"
  have "enrolled st Q a tso" "dom (trec_log (trecs st a)) = X" "well_slept cfg st a tso" "\<forall>b Y. W b = Some (tso, Y) \<longrightarrow> b = a"
    using s a by (auto simp: sleepers_ok_def)
  moreover from this(1) have "enrolled st' Q a tso"
    by (rule enrolled_mono) (use t [OF a] k in \<open>simp_all add: queues_kept_def\<close>)
  ultimately show "enrolled st' Q a tso \<and> dom (trec_log (trecs st' a)) = X \<and> well_slept cfg st' a tso \<and> (\<forall>b Y. W b = Some (tso, Y) \<longrightarrow> b = a)"
    using t [OF a] w [OF a] by simp
qed

lemma undisturbed_slept: "undisturbed st st' \<Longrightarrow> trecs st' a = trecs st a \<Longrightarrow> well_slept cfg st a tso \<Longrightarrow> well_slept cfg st' a tso"
  by (simp add: well_slept_def undisturbed_def)

lemma sleepers_undisturbed:
  assumes "sleepers_ok cfg W st Q" "undisturbed st st'" "\<And>a. W a \<noteq> None \<Longrightarrow> trecs st' a = trecs st a"
  shows "sleepers_ok cfg W st' Q"
  by (rule sleepers_kept [OF assms(1)]) (use assms(2,3) undisturbed_slept [OF assms(2)] in \<open>auto simp: undisturbed_def\<close>)

text \<open>A commit by another record: it wakes whoever has read what it changes.\<close>

lemma commit_keeps_slept:
  assumes ok: "trec_ok (trecs st b)" "unowned st b" "queues_ok st Q F" "n < 2 ^ 22"
    and c: "stmCommitTransaction cfg n b st = Some (r, st')"
    and e: "enrolled st Q a tso" "a \<noteq> b" and w: "well_slept cfg st a tso"
  shows "well_slept cfg st' a tso"
proof -
  from commit_correct [OF ok(1,2) queues_okE [OF ok(3)] ok(4), of cfg] c
  have r: "r = trec_valid (tvars st) (trecs st b)" and others: "trecs st' a = trecs st a" and only: "only_woken st st'"
    and cv: "r \<Longrightarrow> current_value (tvars st' x) = after_write (trec_log (trecs st b)) (current_value (tvars st x)) x"
    and wk: "r \<Longrightarrow> trec_log (trecs st b) x = Some (v, v') \<Longrightarrow> v \<noteq> v' \<Longrightarrow> u \<in> set (Q x) \<Longrightarrow> woken cfg st st' (wq_closure (watch_queues st u))"
    and no: "\<not> r \<Longrightarrow> tvars st' = tvars st" for x v v' u
    using e(2) by (auto split: if_splits)
  show ?thesis unfolding well_slept_def
  proof
    assume bl': "why_blocked (tsos st' tso) = BlockedOnSTM"
    then have bl: "why_blocked (tsos st tso) = BlockedOnSTM" and cap: "tso_cap (tsos st' tso) = tso_cap (tsos st tso)"
      and sent: "set (wakeups_sent st) \<subseteq> set (wakeups_sent st')"
      using only by (auto simp: only_woken_def dest: spec [of _ tso])
    show "trec_valid (tvars st') (trecs st' a) \<or> cfg = STM_FG_LOCKS \<and> (tso_cap (tsos st' tso), tso) \<in> set (wakeups_sent st')"
    proof (cases "r \<and> (\<exists>x v v'. trec_log (trecs st a) x \<noteq> None \<and> trec_log (trecs st b) x = Some (v, v') \<and> v \<noteq> v')")
      case True
      then obtain x v v' where x: "r" "trec_log (trecs st a) x \<noteq> None" "trec_log (trecs st b) x = Some (v, v')" "v \<noteq> v'" by blast
      obtain q where "q \<in> set (Q x)" "wq_closure (watch_queues st q) = tso" by (rule enrolled_queued [OF e(1) x(2)])
      then have "woken cfg st st' tso" using wk [OF x(1,3,4)] by blast
      then show ?thesis using bl bl' by (auto simp: woken_def unblocks_def cap split: if_splits)
    next
      case False
      have "current_value (tvars st' x) = current_value (tvars st x)" if x: "trec_log (trecs st a) x \<noteq> None" for x
      proof (cases "r \<and> trec_log (trecs st b) x \<noteq> None")
        case True
        then obtain v where v: "trec_log (trecs st b) x = Some (v, v)" using False x by fastforce
        then obtain p where "p \<in> set (entry_positions (trecs st b))" "entry_log (entry_at (trecs st b) p) = (x, v, v)"
          using trec_log_Some_iff [OF ok(1)] by blast
        then have "current_value (tvars st x) = v" using True r by (auto simp: trec_valid_def entry_log_def)
        then show ?thesis using cv True v by (simp add: after_write_def)
      next
        case False
        then show ?thesis using cv [of x] no by (cases "trec_log (trecs st b) x"; cases r) (simp_all add: after_write_def)
      qed
      moreover have "trec_log (trecs st a) (e_tvar (entry_at (trecs st a) p)) \<noteq> None" if "p \<in> set (entry_positions (trecs st a))" for p
        using trec_log_at [of "trecs st a" p] e(1) that by (simp add: enrolled_def)
      ultimately have "trec_valid (tvars st') (trecs st' a) = trec_valid (tvars st) (trecs st a)"
        by (auto simp: trec_valid_def others)
      then show ?thesis using w bl cap sent by (auto simp: well_slept_def)
    qed
  qed
qed

section \<open>Going to sleep, sleeping again and leaving\<close>

lemma sleepers_wait:
  assumes q: "queues_ok st Q F" and s: "sleepers_ok cfg W st Q" and b: "trec_ok (trecs st b)" "unowned st b" "W b = None"
    and t: "\<forall>c X. W c \<noteq> Some (tso, X)"
    and w: "stmWait cfg tso b st = Some (True, st1)" "stmWaitUnlock cfg b st1 = Some st'"
  shows "\<exists>Q' F'. queues_ok st' Q' F' \<and> sleepers_ok cfg (W(b \<mapsto> (tso, {x. trec_log (trecs st b) x \<noteq> None}))) st' Q'"
proof -
  let ?X = "dom (trec_log (trecs st b))"
  from wait_correct [OF q b(1,2), of cfg tso] w obtain g F' where v: "trec_valid (tvars st) (trecs st b)"
    and q': "queues_ok st' (pushed Q g ?X) F'" and wt: "waiting st' (pushed Q g ?X) b tso"
    and r: "same_reads (trecs st b) (trecs st' b)" and others: "\<And>c. c \<noteq> b \<Longrightarrow> trecs st' c = trecs st c"
    and cv: "\<And>x. current_value (tvars st' x) = current_value (tvars st x)"
    and ts: "tsos st' = (tsos st)(tso := (tsos st tso)\<lparr>why_blocked := BlockedOnSTM\<rparr>)" "wakeups_sent st' = wakeups_sent st"
    and cl: "\<And>x q. q \<in> set (Q x) \<Longrightarrow> wq_closure (watch_queues st' q) = wq_closure (watch_queues st q)"
    by (auto split: if_splits)
  have old: "enrolled st' (pushed Q g ?X) a u \<and> dom (trec_log (trecs st' a)) = Y \<and> well_slept cfg st' a u \<and> u \<noteq> tso \<and> a \<noteq> b"
    if a: "W a = Some (u, Y)" for a u Y
  proof -
    have ab: "a \<noteq> b" "u \<noteq> tso" using a b(3) t by auto
    have e: "enrolled st Q a u" "dom (trec_log (trecs st a)) = Y" "well_slept cfg st a u"
      using s a by (auto simp: sleepers_ok_def)
    from e(1) have "enrolled st' (pushed Q g ?X) a u"
      by (rule enrolled_mono) (use others [OF ab(1)] cl in \<open>auto simp: pushed_def\<close>)
    then show ?thesis using e ab others [OF ab(1)] by (simp add: well_slept_def ts trec_valid_def cv)
  qed
  have "trec_valid (tvars st') (trecs st' b)"
    using v r wt by (auto simp: trec_valid_def same_reads_def cv waiting_def enrolled_def)
  then have new: "enrolled st' (pushed Q g ?X) b tso" "dom (trec_log (trecs st' b)) = ?X" "well_slept cfg st' b tso"
    using wt same_reads_dom [OF r] by (simp_all add: waiting_def well_slept_def)
  have "sleepers_ok cfg (W(b \<mapsto> (tso, ?X))) st' (pushed Q g ?X)"
    unfolding sleepers_ok_def
  proof (intro allI impI)
    fix a u Y assume "(W(b \<mapsto> (tso, ?X))) a = Some (u, Y)"
    then have a: "a = b \<and> u = tso \<and> Y = ?X \<or> a \<noteq> b \<and> W a = Some (u, Y)" by (auto split: if_splits)
    have "c = a" if "(W(b \<mapsto> (tso, ?X))) c = Some (u, Z)" for c Z
    proof -
      have "c = b \<and> u = tso \<or> c \<noteq> b \<and> W c = Some (u, Z)" using that by (auto split: if_splits)
      then show ?thesis using a old s by (auto simp: sleepers_ok_def)
    qed
    with a new old show "enrolled st' (pushed Q g ?X) a u \<and> dom (trec_log (trecs st' a)) = Y \<and> well_slept cfg st' a u \<and>
        (\<forall>c Z. (W(b \<mapsto> (tso, ?X))) c = Some (u, Z) \<longrightarrow> c = a)" by blast
  qed
  then show ?thesis using q' by (auto simp: dom_def)
qed

text \<open>The entries of a record taken out of the queues are not those of another thread.\<close>

lemma sleepers_removed:
  assumes s: "sleepers_ok cfg W st Q" and b: "W b = Some (tso, X)"
    and g: "\<And>x. x \<in> X \<Longrightarrow> wq_closure (watch_queues st (g x)) = tso"
    and others: "\<And>c. c \<noteq> b \<Longrightarrow> trecs st' c = trecs st c"
    and cl: "\<And>q. wq_closure (watch_queues st' q) = wq_closure (watch_queues st q)"
    and cv: "\<And>x. current_value (tvars st' x) = current_value (tvars st x)"
    and ts: "tsos st' = tsos st" "wakeups_sent st' = wakeups_sent st"
  shows "sleepers_ok cfg (W(b := None)) st' (removed Q g X)"
  unfolding sleepers_ok_def
proof (intro allI impI)
  fix a u Y assume "(W(b := None)) a = Some (u, Y)"
  then have a: "a \<noteq> b" "W a = Some (u, Y)" by (auto split: if_splits)
  then have e: "enrolled st Q a u" "dom (trec_log (trecs st a)) = Y" "well_slept cfg st a u" and inj: "\<forall>c Z. W c = Some (u, Z) \<longrightarrow> c = a"
    using s by (auto simp: sleepers_ok_def)
  have u: "u \<noteq> tso" using inj b a(1) by blast
  have left: "q \<in> set (removed Q g X x) \<and> wq_closure (watch_queues st' q) = u" if "q \<in> set (Q x)" "wq_closure (watch_queues st q) = u" for x q
  proof -
    have "x \<in> X \<Longrightarrow> q \<noteq> g x" using g [of x] that(2) u by auto
    then show ?thesis using that cl by (simp add: removed_def)
  qed
  have "enrolled st' (removed Q g X) a u" by (rule enrolled_mono [OF e(1)]) (use others [OF a(1)] left in simp_all)
  then show "enrolled st' (removed Q g X) a u \<and> dom (trec_log (trecs st' a)) = Y \<and> well_slept cfg st' a u \<and>
      (\<forall>c Z. (W(b := None)) c = Some (u, Z) \<longrightarrow> c = a)"
    using e inj others [OF a(1)] by (simp add: well_slept_def ts trec_valid_def cv)
qed

lemma sleepers_entries:
  assumes s: "sleepers_ok cfg W st Q" and b: "W b = Some (tso, X)" and r: "\<forall>x\<in>X. readable cfg st x"
  obtains g where "enrolled st Q b tso" "dom (trec_log (trecs st b)) = X" "\<And>x. x \<in> X \<Longrightarrow> wq_closure (watch_queues st (g x)) = tso"
    "\<And>p. p \<in> set (entry_positions (trecs st b)) \<Longrightarrow>
      new_value (entry_at (trecs st b) p) = WatchQueue (g (e_tvar (entry_at (trecs st b) p))) \<and> readable cfg st (e_tvar (entry_at (trecs st b) p))"
proof -
  have e: "enrolled st Q b tso" "dom (trec_log (trecs st b)) = X" using s b by (auto simp: sleepers_ok_def)
  obtain g where g: "\<And>p. p \<in> set (entry_positions (trecs st b)) \<Longrightarrow>
      new_value (entry_at (trecs st b) p) = WatchQueue (g (e_tvar (entry_at (trecs st b) p))) \<and>
      g (e_tvar (entry_at (trecs st b) p)) \<in> set (Q (e_tvar (entry_at (trecs st b) p))) \<and>
      wq_closure (watch_queues st (g (e_tvar (entry_at (trecs st b) p)))) = tso"
    using enrolled_entries [OF e(1)] by blast
  have X: "X = entry_tvars (trecs st b) (entry_positions (trecs st b))"
    using e(2) logged_entry_tvars [of "trecs st b"] by (auto simp: dom_def)
  show ?thesis by (rule that [OF e, of g]) (use g r in \<open>auto simp: X entry_tvars_def\<close>)
qed

lemma sleepers_rewait:
  assumes q: "queues_ok st Q F" and s: "sleepers_ok cfg W st Q" and b: "W b = Some (tso, X)" "tso_trec (tsos st tso) = b" "unowned st b"
    and free: "\<forall>x\<in>X. readable cfg st x" and w: "stmReWait cfg tso st = Some (r, st')"
  shows "\<exists>Q' F'. queues_ok st' Q' F' \<and> sleepers_ok cfg (if r then W else W(b := None)) st' Q'"
proof -
  obtain g where e: "enrolled st Q b tso" "dom (trec_log (trecs st b)) = X" "\<And>x. x \<in> X \<Longrightarrow> wq_closure (watch_queues st (g x)) = tso"
    and reg: "\<And>p. p \<in> set (entry_positions (trecs st b)) \<Longrightarrow>
      new_value (entry_at (trecs st b) p) = WatchQueue (g (e_tvar (entry_at (trecs st b) p))) \<and> readable cfg st (e_tvar (entry_at (trecs st b) p))"
    using sleepers_entries [OF s b(1) free] by blast
  from rewait_correct [OF q e(1) b(3,2) reg] w obtain F' where r: "r = trec_valid (tvars st) (trecs st b)"
    and cv: "\<And>x. current_value (tvars st' x) = current_value (tvars st x)" and others: "\<And>c. c \<noteq> b \<Longrightarrow> trecs st' c = trecs st c"
    and ms: "wakeups_sent st' = wakeups_sent st" and cl: "\<And>q. wq_closure (watch_queues st' q) = wq_closure (watch_queues st q)"
    and yes: "r \<Longrightarrow> queues_ok st' Q F' \<and> tsos st' = (tsos st)(tso := (tsos st tso)\<lparr>why_blocked := BlockedOnSTM\<rparr>) \<and> same_log (trecs st b) (trecs st' b)"
    and no: "\<not> r \<Longrightarrow> queues_ok st' (removed Q g (dom (trec_log (trecs st b)))) F' \<and> tsos st' = tsos st"
    by (auto split: if_splits)
  show ?thesis
  proof (cases r)
    case False
    have "sleepers_ok cfg (W(b := None)) st' (removed Q g X)"
      by (rule sleepers_removed [OF s b(1) e(3)]) (use others cl cv ms no [OF False] in auto)
    then show ?thesis using False no [OF False] e(2) by auto
  next
    case True
    note y = yes [OF True]
    have "enrolled st' Q a u \<and> dom (trec_log (trecs st' a)) = Y \<and> well_slept cfg st' a u \<and> (\<forall>c Z. W c = Some (u, Z) \<longrightarrow> c = a)"
      if a: "W a = Some (u, Y)" for a u Y
    proof -
      have old: "enrolled st Q a u" "dom (trec_log (trecs st a)) = Y" "well_slept cfg st a u" and inj: "\<forall>c Z. W c = Some (u, Z) \<longrightarrow> c = a"
        using s a by (auto simp: sleepers_ok_def)
      have sl: "same_log (trecs st a) (trecs st' a)" using y others [of a] by (cases "a = b") auto
      have "enrolled st' Q a u" by (rule enrolled_mono [OF old(1) sl]) (simp add: cl)
      moreover have "well_slept cfg st' a u"
      proof (cases "u = tso")
        case True
        then have "a = b" using inj b(1) by blast
        then have "trec_valid (tvars st') (trecs st' a)"
          using \<open>r\<close> r same_log_ok(3) [OF sl] by (simp add: trec_valid_def cv)
        then show ?thesis by (simp add: well_slept_def)
      next
        case False
        have "trec_valid (tvars st') (trecs st' a) = trec_valid (tvars st) (trecs st a)"
          using same_log_ok(3) [OF sl] by (simp add: trec_valid_def cv)
        then show ?thesis using old(3) False y by (simp add: well_slept_def ms)
      qed
      ultimately show ?thesis using old(2) same_log_ok(2) [OF sl] inj by simp
    qed
    then show ?thesis using True y by (auto simp: sleepers_ok_def)
  qed
qed

lemma sleepers_abandon:
  assumes q: "queues_ok st Q F" and s: "sleepers_ok cfg W st Q" and b: "W b = Some (tso, X)" "enclosing_trec (trecs st b) = 0"
    and free: "\<forall>x\<in>X. readable cfg st x" and w: "stmAbortTransaction cfg b st = Some st'"
  shows "\<exists>Q' F'. queues_ok st' Q' F' \<and> sleepers_ok cfg (W(b := None)) st' Q'"
proof -
  obtain g where e: "enrolled st Q b tso" "dom (trec_log (trecs st b)) = X" "\<And>x. x \<in> X \<Longrightarrow> wq_closure (watch_queues st (g x)) = tso"
    and reg: "\<And>p. p \<in> set (entry_positions (trecs st b)) \<Longrightarrow>
      new_value (entry_at (trecs st b) p) = WatchQueue (g (e_tvar (entry_at (trecs st b) p))) \<and> readable cfg st (e_tvar (entry_at (trecs st b) p))"
    using sleepers_entries [OF s b(1) free] by blast
  from unwait_correct [OF q e(1) reg] obtain st1 F' where rm: "remove_watch_queue_entries_for_trec cfg b st = Some st1"
    and q1: "queues_ok st1 (removed Q g X) F'" and k: "\<forall>x. current_value (tvars st1 x) = current_value (tvars st x)" "trecs st1 = trecs st"
      "tsos st1 = tsos st" "wakeups_sent st1 = wakeups_sent st" "\<forall>q. wq_closure (watch_queues st1 q) = wq_closure (watch_queues st q)"
    unfolding e(2) by blast
  have st': "st' = set_state b TREC_ABORTED st1"
    using w rm b(2) e(1) by (simp add: stmAbortTransaction_def enrolled_def)
  have "queues_ok st' (removed Q g X) F'" using q1 by (subst queues_ok_cong [where st = st1]) (simp_all add: st' set_state_def)
  moreover have "sleepers_ok cfg (W(b := None)) st' (removed Q g X)"
    by (rule sleepers_removed [OF s b(1) e(3)]) (use k in \<open>auto simp: st' set_state_def\<close>)
  ultimately show ?thesis by blast
qed

lemma deliver_keeps:
  assumes ms: "wakeups_sent st = (c, tso) # ms" and st1: "st1 = tryWakeupThread cfg tso (st\<lparr>wakeups_sent := ms, cap_no := c\<rparr>)"
  shows "queues_kept st (st1\<lparr>cap_no := cap_no st, run_queue := run_queue st\<rparr>)" "trecs st1 = trecs st" "tvars st1 = tvars st"
    "why_blocked (tsos st1 u) = BlockedOnSTM \<Longrightarrow> why_blocked (tsos st u) = BlockedOnSTM \<and> tso_cap (tsos st1 u) = tso_cap (tsos st u) \<and>
      (cfg = STM_FG_LOCKS \<and> (tso_cap (tsos st u), u) \<in> set (wakeups_sent st) \<longrightarrow> (tso_cap (tsos st u), u) \<in> set (wakeups_sent st1))"
proof -
  show "queues_kept st (st1\<lparr>cap_no := cap_no st, run_queue := run_queue st\<rparr>)" "trecs st1 = trecs st" "tvars st1 = tvars st"
    by (simp_all add: st1 tryWakeupThread_def queues_kept_def)
  assume u: "why_blocked (tsos st1 u) = BlockedOnSTM"
  show "why_blocked (tsos st u) = BlockedOnSTM \<and> tso_cap (tsos st1 u) = tso_cap (tsos st u) \<and>
      (cfg = STM_FG_LOCKS \<and> (tso_cap (tsos st u), u) \<in> set (wakeups_sent st) \<longrightarrow> (tso_cap (tsos st u), u) \<in> set (wakeups_sent st1))"
  proof (cases "u = tso")
    case True
    then show ?thesis using u by (auto simp: st1 ms tryWakeupThread_def unblocks_def split: if_splits)
  next
    case False
    then show ?thesis using u by (auto simp: st1 ms tryWakeupThread_def split: if_splits)
  qed
qed

section \<open>Every sequence of calls\<close>

lemma run_sleepers:
  assumes "stm_run cfg n W st" "n < 2 ^ 22"
  shows "\<exists>Q F. queues_ok st Q F \<and> sleepers_ok cfg W st Q"
  using assms
proof (induction rule: stm_run.induct)
  case (run_empty st Q F)
  then show ?case by (auto simp: sleepers_ok_def)
next
  case (run_start W st outer t st')
  then obtain Q F where i: "queues_ok st Q F" "sleepers_ok cfg W st Q" by blast
  note f = start_frame [OF run_start.hyps(2)]
  have "sleepers_ok cfg W st' Q" by (rule sleepers_undisturbed [OF i(2) f(1)]) (use f(2) run_start.hyps(3) in metis)
  then show ?case using queues_kept_ok [OF i(1)] f(1) by (auto simp: undisturbed_def)
next
  case (run_read W st t ts x v st')
  then obtain Q F where i: "queues_ok st Q F" "sleepers_ok cfg W st Q" by blast
  have f: "undisturbed st st'" "\<And>u. u \<noteq> t \<Longrightarrow> trecs st' u = trecs st u"
    using read_correct [of st t ts x cfg] run_read.hyps by (auto simp del: nest_log.simps)
  have "sleepers_ok cfg W st' Q" by (rule sleepers_undisturbed [OF i(2) f(1)]) (use f(2) run_read.hyps(4) in metis)
  then show ?case using queues_kept_ok [OF i(1)] f(1) by (auto simp: undisturbed_def)
next
  case (run_write W st t ts x v st')
  then obtain Q F where i: "queues_ok st Q F" "sleepers_ok cfg W st Q" by blast
  have f: "undisturbed st st'" "\<And>u. u \<noteq> t \<Longrightarrow> trecs st' u = trecs st u"
    using write_correct [of st t ts x cfg v] run_write.hyps by (auto simp del: nest_log.simps)
  have "sleepers_ok cfg W st' Q" by (rule sleepers_undisturbed [OF i(2) f(1)]) (use f(2) run_write.hyps(4) in metis)
  then show ?case using queues_kept_ok [OF i(1)] f(1) by (auto simp: undisturbed_def)
next
  case (run_commit_nested W st b et ts r st')
  then obtain Q F where i: "queues_ok st Q F" "sleepers_ok cfg W st Q" by blast
  have e: "et = enclosing_trec (trecs st b)" "trec_ok (trecs st b)" "trec_ok (trecs st et)" "et \<noteq> b"
    using run_commit_nested.hyps(2) nest_ok_distinct [OF run_commit_nested.hyps(2)] by (auto simp: nest_ok_def)
  have f: "undisturbed st st'" "\<And>u. u \<noteq> b \<Longrightarrow> u \<noteq> et \<Longrightarrow> trecs st' u = trecs st u"
    using commit_nested_correct [OF e(2) run_commit_nested.hyps(3) e(1,4,3), of cfg] run_commit_nested.hyps(6) by auto
  have "sleepers_ok cfg W st' Q" by (rule sleepers_undisturbed [OF i(2) f(1)]) (use f(2) run_commit_nested.hyps(4,5) in metis)
  then show ?case using queues_kept_ok [OF i(1)] f(1) by (auto simp: undisturbed_def)
next
  case (run_abort_nested W st b et ts st')
  then obtain Q F where i: "queues_ok st Q F" "sleepers_ok cfg W st Q" by blast
  have f: "undisturbed st st'" "\<And>u. u \<noteq> b \<Longrightarrow> u \<noteq> et \<Longrightarrow> trecs st' u = trecs st u"
    using abort_nested_correct [OF run_abort_nested.hyps(2), of cfg] run_abort_nested.hyps(5) by auto
  have "sleepers_ok cfg W st' Q" by (rule sleepers_undisturbed [OF i(2) f(1)]) (use f(2) run_abort_nested.hyps(3,4) in metis)
  then show ?case using queues_kept_ok [OF i(1)] f(1) by (auto simp: undisturbed_def)
next
  case (run_commit W st b r st')
  then obtain Q F where i: "queues_ok st Q F" "sleepers_ok cfg W st Q" by blast
  have f: "queues_kept st st'" "\<And>u. u \<noteq> b \<Longrightarrow> trecs st' u = trecs st u"
    using commit_correct [OF run_commit.hyps(2,3) queues_okE [OF i(1)] run_commit.prems, of cfg] run_commit.hyps(5) by auto
  have "sleepers_ok cfg W st' Q"
  proof (rule sleepers_kept [OF i(2) f(1)])
    fix a tso X assume a: "W a = Some (tso, X)"
    then have ab: "a \<noteq> b" "enrolled st Q a tso" using run_commit.hyps(4) i(2) by (auto simp: sleepers_ok_def)
    then show "trecs st' a = trecs st a" using f(2) by simp
    show "well_slept cfg st a tso \<Longrightarrow> well_slept cfg st' a tso"
      by (rule commit_keeps_slept [OF run_commit.hyps(2,3) i(1) run_commit.prems run_commit.hyps(5) ab(2,1)])
  qed
  then show ?case using queues_kept_ok [OF i(1) f(1)] by blast
next
  case (run_abort W st b st')
  then obtain Q F where i: "queues_ok st Q F" "sleepers_ok cfg W st Q" by blast
  have st': "st' = set_state b TREC_ABORTED st" using run_abort.hyps by (simp add: stmAbortTransaction_def)
  have f: "undisturbed st st'" "\<And>u. u \<noteq> b \<Longrightarrow> trecs st' u = trecs st u"
    by (simp_all add: st' set_state_def undisturbed_def queues_kept_def)
  have "sleepers_ok cfg W st' Q" by (rule sleepers_undisturbed [OF i(2) f(1)]) (use f(2) run_abort.hyps(4) in metis)
  then show ?case using queues_kept_ok [OF i(1)] f(1) by (auto simp: undisturbed_def)
next
  case (run_wait W st b tso st1 st')
  then obtain Q F where i: "queues_ok st Q F" "sleepers_ok cfg W st Q" by blast
  show ?case by (rule sleepers_wait [OF i run_wait.hyps(2-7)])
next
  case (run_wait_refused W st b tso st')
  then obtain Q F where i: "queues_ok st Q F" "sleepers_ok cfg W st Q" by blast
  from wait_correct [OF i(1) run_wait_refused.hyps(2,3), of cfg tso] run_wait_refused.hyps(5)
  have q: "queues_ok st' Q F" and f: "\<And>u. u \<noteq> b \<Longrightarrow> trecs st' u = trecs st u"
    and k: "tvars st' = tvars st" "tsos st' = tsos st" "wakeups_sent st' = wakeups_sent st" "watch_queues st' = watch_queues st"
    by (auto split: if_splits)
  have "enrolled st' Q a u" if "W a = Some (u, X)" for a u X
  proof -
    have "a \<noteq> b" "enrolled st Q a u" using that i(2) run_wait_refused.hyps(4) by (auto simp: sleepers_ok_def)
    from enrolled_mono [OF this(2), of st' Q] f [OF this(1)] show ?thesis by (simp add: k)
  qed
  moreover have "trecs st' a = trecs st a" if "W a = Some (u, X)" for a u X using that f run_wait_refused.hyps(4) by (metis option.distinct(1))
  ultimately have "sleepers_ok cfg W st' Q" using i(2) unfolding sleepers_ok_def well_slept_def k by metis
  then show ?case using q by blast
next
  case (run_wait_again W st b tso X st')
  then obtain Q F where i: "queues_ok st Q F" "sleepers_ok cfg W st Q" by blast
  from sleepers_rewait [OF i run_wait_again.hyps(2-6)] show ?case by simp
next
  case (run_leave W st b tso X st')
  then obtain Q F where i: "queues_ok st Q F" "sleepers_ok cfg W st Q" by blast
  from sleepers_rewait [OF i run_leave.hyps(2-6)] show ?case by (simp only: if_False)
next
  case (run_abandon W st b tso X st')
  then obtain Q F where i: "queues_ok st Q F" "sleepers_ok cfg W st Q" by blast
  show ?case by (rule sleepers_abandon [OF i run_abandon.hyps(2-5)])
next
  case (run_deliver W st c tso ms st1)
  then obtain Q F where i: "queues_ok st Q F" "sleepers_ok cfg W st Q" by blast
  note d = deliver_keeps [OF run_deliver.hyps(2,3)]
  let ?st' = "st1\<lparr>cap_no := cap_no st, run_queue := run_queue st\<rparr>"
  have "sleepers_ok cfg W ?st' Q"
    by (rule sleepers_kept [OF i(2) d(1)]) (use d(2-4) in \<open>auto simp: well_slept_def\<close>)
  then show ?case using queues_kept_ok [OF i(1) d(1)] by blast
next
  case (run_schedule W st ts)
  then obtain Q F where i: "queues_ok st Q F" "sleepers_ok cfg W st Q" by blast
  have f: "undisturbed st (st\<lparr>run_queue := ts\<rparr>)" by (simp add: undisturbed_def queues_kept_def)
  have "sleepers_ok cfg W (st\<lparr>run_queue := ts\<rparr>) Q" by (rule sleepers_undisturbed [OF i(2) f]) simp
  then show ?case using queues_kept_ok [OF i(1)] f by (auto simp: undisturbed_def)
next
  case (run_collect W st)
  then obtain Q F where i: "queues_ok st Q F" "sleepers_ok cfg W st Q" by blast
  have "queues_ok (stmPreGCHook st) Q []"
    using i(1) by (auto simp: queues_ok_def queue_ok_def stmPreGCHook_def)
  moreover have "enrolled (stmPreGCHook st) Q a u" if "enrolled st Q a u" for a u
    by (rule enrolled_mono [OF that]) (simp_all add: stmPreGCHook_def)
  moreover have "well_slept cfg (stmPreGCHook st) a u = well_slept cfg st a u" "trecs (stmPreGCHook st) a = trecs st a" for a u
    by (simp_all add: well_slept_def stmPreGCHook_def)
  ultimately have "queues_ok (stmPreGCHook st) Q []" "sleepers_ok cfg W (stmPreGCHook st) Q"
    using i(2) by (auto simp: sleepers_ok_def)
  then show ?case by blast
qed

section \<open>No lost wakeup\<close>

text \<open>C18 No wakeup is lost, whatever calls have been made since the thread went to sleep (others that read, write, commit, abort,
  go to sleep, wake, leave, and collections): while a thread sleeps, every TVar that it had read holds the value it has
  seen, or a wakeup message is on its way to the capability that owns it. And when any commit then changes one of these TVars, the
  thread is put on the run queue, unblocked, or such a message is sent, wherever its entry stands in the queue by then.\<close>

theorem stm_no_lost_wakeup:
  assumes "stm_run cfg n W st" "n < 2 ^ 22" "W a = Some (tso, X)" "why_blocked (tsos st tso) = BlockedOnSTM"
  shows "{x. trec_log (trecs st a) x \<noteq> None} = X \<and>
    (trec_valid (tvars st) (trecs st a) \<or>
      cfg = STM_FG_LOCKS \<and> (tso_cap (tsos st tso), tso) \<in> set (wakeups_sent st)) \<and>
    (\<forall>b st' x e v. trec_ok (trecs st b) \<and> unowned st b \<and> stmCommitTransaction cfg n b st = Some (True, st') \<and>
        x \<in> X \<and> trec_log (trecs st b) x = Some (e, v) \<and> e \<noteq> v \<longrightarrow>
      (if cfg = STM_FG_LOCKS \<and> tso_cap (tsos st tso) \<noteq> cap_no st then (tso_cap (tsos st tso), tso) \<in> set (wakeups_sent st')
       else tso \<in> set (run_queue st') \<and> why_blocked (tsos st' tso) = NotBlocked))"
proof -
  obtain Q F where q: "queues_ok st Q F" and s: "sleepers_ok cfg W st Q" using run_sleepers [OF assms(1,2)] by blast
  then have e: "enrolled st Q a tso" "dom (trec_log (trecs st a)) = X" "well_slept cfg st a tso"
    using assms(3) by (auto simp: sleepers_ok_def)
  have "woken cfg st st' tso" if c: "trec_ok (trecs st b)" "unowned st b" "stmCommitTransaction cfg n b st = Some (True, st')"
    and x: "x \<in> X" "trec_log (trecs st b) x = Some (v, v')" "v \<noteq> v'" for b st' x v v'
  proof -
    have "trec_log (trecs st a) x \<noteq> None" using e(2) x(1) by blast
    then obtain u where "u \<in> set (Q x)" "wq_closure (watch_queues st u) = tso" by (rule enrolled_queued [OF e(1)])
    then show ?thesis
      using commit_correct [OF c(1,2) queues_okE [OF q] assms(2), of cfg] c(3) x(2,3) by (auto split: if_splits) blast
  qed
  then show ?thesis using e(2,3) assms(4) by (fastforce simp: woken_def unblocks_def well_slept_def dom_def)
qed

text \<open>Threads 50 and 51 go to sleep, the second in front of the first in the queue of TVar 10; then a third transaction changes it.\<close>

lemma demo_wait:
  assumes "stm_run STM_UNIPROC 4 W st" "trecs st b = trecs stm_demo b" "\<And>x. current_value (tvars st x) = Value 5"
    "W b = None" "\<forall>c X. W c \<noteq> Some (tso, X)" "b \<notin> {21, 22}"
  shows "\<exists>st'. stm_run STM_UNIPROC 4 (W(b \<mapsto> (tso, {10}))) st' \<and> (\<forall>c. c \<noteq> b \<longrightarrow> trecs st' c = trecs st c) \<and>
    (\<forall>x. current_value (tvars st' x) = Value 5) \<and> why_blocked (tsos st' tso) = BlockedOnSTM \<and>
    (\<forall>t. t \<noteq> tso \<longrightarrow> tsos st' t = tsos st t)"
proof -
  obtain Q F where q: "queues_ok st Q F" using run_sleepers [OF assms(1)] by auto
  have b: "trecs st b = demo_trec 0 10 9" using assms(2,6) by (simp add: stm_demo_def)
  have o: "trec_ok (trecs st b)" "unowned st b" "trec_valid (tvars st) (trecs st b)" "{x. trec_log (trecs st b) x \<noteq> None} = {10}"
    using assms(3) by (simp_all add: b demo_trec_facts unowned_def trec_valid_def) (simp_all add: demo_trec_def)
  from wait_correct [OF q o(1,2), of STM_UNIPROC tso] o(3) obtain st1 st' where w: "stmWait STM_UNIPROC tso b st = Some (True, st1)"
    "stmWaitUnlock STM_UNIPROC b st1 = Some st'" "\<And>c. c \<noteq> b \<Longrightarrow> trecs st' c = trecs st c"
    "\<And>x. current_value (tvars st' x) = Value 5" "tsos st' = (tsos st)(tso := (tsos st tso)\<lparr>why_blocked := BlockedOnSTM\<rparr>)"
    using assms(3) by auto
  have "stm_run STM_UNIPROC 4 (W(b \<mapsto> (tso, {10}))) st'"
    using run_wait [OF assms(1) o(1,2) assms(4,5) w(1,2)] by (simp only: o(4))
  then show ?thesis using w by auto
qed

theorem stm_no_lost_wakeup_witness:
  "\<exists>st st'. stm_run STM_UNIPROC 4 [24 \<mapsto> (50, {10}), 25 \<mapsto> (51, {10})] st \<and> why_blocked (tsos st 50) = BlockedOnSTM \<and>
    trec_valid (tvars st) (trecs st 24) \<and> stmCommitTransaction STM_UNIPROC 4 23 st = Some (True, st') \<and> 50 \<in> set (run_queue st')"
proof -
  have "wakeups_sent stm_demo = []" by (simp add: stm_demo_def)
  with stm_demo_facts(4) have r0: "stm_run STM_UNIPROC 4 Map.empty stm_demo" by (rule run_empty)
  have v0: "current_value (tvars stm_demo x) = Value 5" for x by (simp add: stm_demo_def)
  obtain st1 where 1: "stm_run STM_UNIPROC 4 [24 \<mapsto> (50, {10})] st1" "\<And>c. c \<noteq> 24 \<Longrightarrow> trecs st1 c = trecs stm_demo c"
    "\<And>x. current_value (tvars st1 x) = Value 5" "why_blocked (tsos st1 50) = BlockedOnSTM"
    using demo_wait [OF r0 _ v0, of 24 50] by fastforce
  obtain st2 where 2: "stm_run STM_UNIPROC 4 [24 \<mapsto> (50, {10}), 25 \<mapsto> (51, {10})] st2" "\<And>c. c \<noteq> 25 \<Longrightarrow> trecs st2 c = trecs st1 c"
    "\<And>x. current_value (tvars st2 x) = Value 5" "\<And>t. t \<noteq> 51 \<Longrightarrow> tsos st2 t = tsos st1 t"
    using demo_wait [OF 1(1) _ 1(3), of 25 51] 1(2) [of 25] by (fastforce split: if_splits)
  have b: "trecs st2 23 = demo_trec 0 10 9" using 1(2) [of 23] 2(2) [of 23] by (simp add: stm_demo_trecs)
  have o: "trec_ok (trecs st2 23)" "unowned st2 23" "trec_valid (tvars st2) (trecs st2 23)" "trec_log (trecs st2 23) 10 = Some (Value 5, Value 9)"
    using 2(3) by (simp_all add: b demo_trec_facts unowned_def trec_valid_def) (simp_all add: demo_trec_def)
  obtain Q F where "queues_ok st2 Q F" using run_sleepers [OF 2(1)] by auto
  from commit_correct [OF o(1,2) queues_okE [OF this], of 4 STM_UNIPROC] o(3)
  obtain st' where c: "stmCommitTransaction STM_UNIPROC 4 23 st2 = Some (True, st')" by auto
  have bl: "why_blocked (tsos st2 50) = BlockedOnSTM" using 1(4) 2(4) [of 50] by simp
  have "(4 :: nat) < 2 ^ 22" "[24 \<mapsto> (50, {10}), 25 \<mapsto> (51, {10})] (24 :: addr) = Some (50 :: addr, {10 :: addr})" by simp_all
  note T = stm_no_lost_wakeup [OF 2(1) this bl]
  have "trec_valid (tvars st2) (trecs st2 24)" using T by simp
  moreover have "50 \<in> set (run_queue st')"
    using T [THEN conjunct2, THEN conjunct2, rule_format, of 23 st' 10 "Value 5" "Value 9"] o(1,2,4) c by simp
  ultimately show ?thesis using 2(1) bl c by blast
qed

end
