(* ===== verification/STMCommits.thy ===== *)
theory STMCommits
  imports STM "HOL-Library.Sublist"
begin

text \<open>
  The commit protocol of \<open>STM_FG_LOCKS\<close> when any number of capabilities run it at the same time: the loops of
  \<open>validate_and_acquire_ownership\<close>, \<open>check_read_only\<close>, \<open>stmCommitTransaction\<close>,
  \<open>stmCommitNestedTransaction\<close>, \<open>stmWait\<close> with \<open>stmWaitUnlock\<close> and \<open>revert_ownership\<close>, one access to a
  TVar per step, interleaved in any order (sequentially consistent). The records do not change while they
  are being committed, but for the versions that validation stores in their entries, which are the
  component \<open>versions\<close> of the state. What is shown is that the commits are serializable.
\<close>

section \<open>The steps\<close>

text \<open>What a record is validated for; \<open>Wait\<close> locks all TVars, the others only those they update.\<close>

datatype commit_kind = Commit | CommitNested | Wait

text \<open>Where a record is in the protocol; the lists are the entries a loop has still to visit.\<close>

datatype commit_pc =
    Running
  | Acquiring "entry_pos list"
  | Versioning entry_pos "entry_pos list"
  | Rereading entry_pos "entry_pos list"
  | Holding
  | Checking "entry_pos list"
  | CheckingVersion entry_pos "entry_pos list"
  | Writing "entry_pos list"
  | Unlocking entry_pos "entry_pos list"
  | Reverting bool "entry_pos list"
  | Finished bool

text \<open>
  The last component records, for the statement of the properties, the order in which the records have
  passed the end of \<open>validate_and_acquire_ownership\<close>.
\<close>

record commit_sys =
  mem :: "addr \<Rightarrow> tvar"
  versions :: "addr \<Rightarrow> entry_pos \<Rightarrow> int"
  pc :: "addr \<Rightarrow> commit_pc"
  lin_order :: "addr list"

type_synonym records = "addr \<Rightarrow> trec"
type_synonym kinds = "addr \<Rightarrow> commit_kind"

definition acquires :: "records \<Rightarrow> kinds \<Rightarrow> addr \<Rightarrow> entry_pos \<Rightarrow> bool" where
  "acquires R K a p \<longleftrightarrow> K a = Wait \<or> entry_is_update (entry_at (R a) p)"

definition fail :: "records \<Rightarrow> addr \<Rightarrow> commit_pc" where
  "fail R a = Reverting False (entry_positions (R a))"

text \<open>The body of the loop of \<open>validate_and_acquire_ownership\<close>: a compare-and-swap, or the first read.\<close>

definition acquire_entry :: "records \<Rightarrow> kinds \<Rightarrow> addr \<Rightarrow> entry_pos \<Rightarrow> entry_pos list \<Rightarrow> (addr \<Rightarrow> tvar) \<Rightarrow> commit_pc \<times> (addr \<Rightarrow> tvar)" where
  "acquire_entry R K a p ps m =
    (let e = entry_at (R a) p; s = e_tvar e
     in if acquires R K a p
        then if current_value (m s) = expected_value e
             then (Acquiring ps, m(s := (m s)\<lparr>current_value := TRec a\<rparr>)) else (fail R a, m)
        else if current_value (m s) \<noteq> expected_value e then (fail R a, m) else (Versioning p ps, m))"

definition reread_entry :: "records \<Rightarrow> addr \<Rightarrow> entry_pos \<Rightarrow> entry_pos list \<Rightarrow> (addr \<Rightarrow> tvar) \<Rightarrow> commit_pc" where
  "reread_entry R a p ps m =
    (let e = entry_at (R a) p
     in if current_value (m (e_tvar e)) \<noteq> expected_value e then fail R a else Acquiring ps)"

text \<open>The body of the loop of \<open>check_read_only\<close>: first the value, then the version.\<close>

definition check_entry :: "records \<Rightarrow> kinds \<Rightarrow> addr \<Rightarrow> entry_pos \<Rightarrow> entry_pos list \<Rightarrow> (addr \<Rightarrow> tvar) \<Rightarrow> commit_pc" where
  "check_entry R K a p ps m =
    (let e = entry_at (R a) p
     in if entry_is_read_only e
        then if current_value (m (e_tvar e)) \<noteq> expected_value e then fail R a else CheckingVersion p ps
        else Checking ps)"

definition check_version :: "records \<Rightarrow> addr \<Rightarrow> entry_pos \<Rightarrow> entry_pos list \<Rightarrow> int \<Rightarrow> (addr \<Rightarrow> tvar) \<Rightarrow> commit_pc" where
  "check_version R a p ps seen m =
    (if num_updates (m (e_tvar (entry_at (R a) p))) \<noteq> seen then fail R a else Checking ps)"

text \<open>The body of the loop that makes the updates: count the update, then store the value, which unlocks.\<close>

definition count_update :: "records \<Rightarrow> addr \<Rightarrow> entry_pos \<Rightarrow> entry_pos list \<Rightarrow> (addr \<Rightarrow> tvar) \<Rightarrow> commit_pc \<times> (addr \<Rightarrow> tvar)" where
  "count_update R a p ps m =
    (let e = entry_at (R a) p; s = e_tvar e
     in if new_value e \<noteq> expected_value e
        then (Unlocking p ps, m(s := (m s)\<lparr>num_updates := num_updates (m s) + 1\<rparr>)) else (Writing ps, m))"

definition store_update :: "records \<Rightarrow> addr \<Rightarrow> entry_pos \<Rightarrow> (addr \<Rightarrow> tvar) \<Rightarrow> addr \<Rightarrow> tvar" where
  "store_update R a p m =
    (let e = entry_at (R a) p; s = e_tvar e in m(s := (m s)\<lparr>current_value := new_value e\<rparr>))"

text \<open>The body of the loop of \<open>revert_ownership\<close>.\<close>

definition revert_one :: "records \<Rightarrow> kinds \<Rightarrow> addr \<Rightarrow> entry_pos \<Rightarrow> (addr \<Rightarrow> tvar) \<Rightarrow> addr \<Rightarrow> tvar" where
  "revert_one R K a p m =
    (let e = entry_at (R a) p; s = e_tvar e
     in if acquires R K a p \<and> current_value (m s) = TRec a
        then m(s := (m s)\<lparr>current_value := expected_value e\<rparr>) else m)"

text \<open>
  A record may also fail after the check, when too many transactions have started meanwhile
  (\<open>step_exceeded\<close>). A nested commit releases its locks with the expected values, as \<open>revert_ownership\<close> does.
\<close>

inductive commit_step :: "records \<Rightarrow> kinds \<Rightarrow> commit_sys \<Rightarrow> commit_sys \<Rightarrow> bool" for R K where
  step_start: "pc s a = Running \<Longrightarrow>
    commit_step R K s (s\<lparr>pc := (pc s)(a := if t_state (R a) \<noteq> TREC_CONDEMNED then Acquiring (entry_positions (R a)) else fail R a)\<rparr>)"
| step_acquire: "pc s a = Acquiring (p # ps) \<Longrightarrow> acquire_entry R K a p ps (mem s) = (c, m) \<Longrightarrow>
    commit_step R K s (s\<lparr>mem := m, pc := (pc s)(a := c)\<rparr>)"
| step_version: "pc s a = Versioning p ps \<Longrightarrow>
    commit_step R K s (s\<lparr>versions := (versions s)(a := (versions s a)(p := num_updates (mem s (e_tvar (entry_at (R a) p))))),
      pc := (pc s)(a := Rereading p ps)\<rparr>)"
| step_reread: "pc s a = Rereading p ps \<Longrightarrow>
    commit_step R K s (s\<lparr>pc := (pc s)(a := reread_entry R a p ps (mem s))\<rparr>)"
| step_acquired: "pc s a = Acquiring [] \<Longrightarrow>
    commit_step R K s (s\<lparr>pc := (pc s)(a := if K a = Wait then Holding else Checking (entry_positions (R a))),
      lin_order := lin_order s @ [a]\<rparr>)"
| step_release: "pc s a = Holding \<Longrightarrow> commit_step R K s (s\<lparr>pc := (pc s)(a := Reverting True (entry_positions (R a)))\<rparr>)"
| step_check: "pc s a = Checking (p # ps) \<Longrightarrow>
    commit_step R K s (s\<lparr>pc := (pc s)(a := check_entry R K a p ps (mem s))\<rparr>)"
| step_check_version: "pc s a = CheckingVersion p ps \<Longrightarrow>
    commit_step R K s (s\<lparr>pc := (pc s)(a := check_version R a p ps (versions s a p) (mem s))\<rparr>)"
| step_checked: "pc s a = Checking [] \<Longrightarrow>
    commit_step R K s (s\<lparr>pc := (pc s)(a := if K a = Commit then Writing (entry_positions (R a)) else Reverting True (entry_positions (R a)))\<rparr>)"
| step_exceeded: "pc s a = Checking [] \<Longrightarrow> K a = Commit \<Longrightarrow> commit_step R K s (s\<lparr>pc := (pc s)(a := fail R a)\<rparr>)"
| step_count: "pc s a = Writing (p # ps) \<Longrightarrow> count_update R a p ps (mem s) = (c, m) \<Longrightarrow>
    commit_step R K s (s\<lparr>mem := m, pc := (pc s)(a := c)\<rparr>)"
| step_store: "pc s a = Unlocking p ps \<Longrightarrow>
    commit_step R K s (s\<lparr>mem := store_update R a p (mem s), pc := (pc s)(a := Writing ps)\<rparr>)"
| step_written: "pc s a = Writing [] \<Longrightarrow> commit_step R K s (s\<lparr>pc := (pc s)(a := Finished True)\<rparr>)"
| step_revert: "pc s a = Reverting ok (p # ps) \<Longrightarrow>
    commit_step R K s (s\<lparr>mem := revert_one R K a p (mem s), pc := (pc s)(a := Reverting ok ps)\<rparr>)"
| step_reverted: "pc s a = Reverting ok [] \<Longrightarrow> commit_step R K s (s\<lparr>pc := (pc s)(a := Finished ok)\<rparr>)"

inductive commit_run :: "records \<Rightarrow> kinds \<Rightarrow> commit_sys \<Rightarrow> commit_sys \<Rightarrow> bool" for R K where
  run_nil: "commit_run R K s s"
| run_step: "commit_run R K s s' \<Longrightarrow> commit_step R K s' s'' \<Longrightarrow> commit_run R K s s''"

definition commit_init :: "(addr \<Rightarrow> tvar) \<Rightarrow> (addr \<Rightarrow> entry_pos \<Rightarrow> int) \<Rightarrow> commit_sys" where
  "commit_init m v = \<lparr>mem = m, versions = v, pc = (\<lambda>_. Running), lin_order = []\<rparr>"

section \<open>Serial executions\<close>

text \<open>A record has been validated for good: what it has read is a snapshot, and its updates will be made.\<close>

fun decided :: "commit_pc \<Rightarrow> bool" where
  "decided Holding = True"
| "decided (Writing ps) = True"
| "decided (Unlocking p ps) = True"
| "decided (Reverting ok ps) = ok"
| "decided (Finished ok) = ok"
| "decided c = False"

text \<open>The TVars a record changes, and their values after it.\<close>

definition writes :: "records \<Rightarrow> kinds \<Rightarrow> addr \<Rightarrow> addr set" where
  "writes R K a = {x. K a = Commit \<and> (\<exists>p \<in> set (entry_positions (R a)). entry_is_update (entry_at (R a) p) \<and> x = e_tvar (entry_at (R a) p))}"

definition apply_writes :: "records \<Rightarrow> kinds \<Rightarrow> addr \<Rightarrow> (addr \<Rightarrow> closure) \<Rightarrow> addr \<Rightarrow> closure" where
  "apply_writes R K a m = (\<lambda>x. if x \<in> writes R K a then snd (the (trec_log (R a) x)) else m x)"

text \<open>Running some of the records of a list one after the other, and whether each finds what it expects.\<close>

primrec replay :: "records \<Rightarrow> kinds \<Rightarrow> (addr \<Rightarrow> bool) \<Rightarrow> addr list \<Rightarrow> (addr \<Rightarrow> closure) \<Rightarrow> addr \<Rightarrow> closure" where
  "replay R K D [] m = m"
| "replay R K D (a # as) m = replay R K D as (if D a then apply_writes R K a m else m)"

primrec serial :: "records \<Rightarrow> kinds \<Rightarrow> (addr \<Rightarrow> bool) \<Rightarrow> addr list \<Rightarrow> (addr \<Rightarrow> closure) \<Rightarrow> bool" where
  "serial R K D [] m = True"
| "serial R K D (a # as) m \<longleftrightarrow>
    (D a \<longrightarrow> (\<forall>p \<in> set (entry_positions (R a)). m (e_tvar (entry_at (R a) p)) = expected_value (entry_at (R a) p))) \<and>
    serial R K D as (if D a then apply_writes R K a m else m)"


section \<open>The locks\<close>

abbreviation positions :: "records \<Rightarrow> addr \<Rightarrow> entry_pos list" where
  "positions R a \<equiv> entry_positions (R a)"

abbreviation tv :: "records \<Rightarrow> addr \<Rightarrow> entry_pos \<Rightarrow> addr" where
  "tv R a p \<equiv> e_tvar (entry_at (R a) p)"

abbreviation cv :: "commit_sys \<Rightarrow> addr \<Rightarrow> closure" where
  "cv s x \<equiv> current_value (mem s x)"

text \<open>Records with one entry for each TVar, and no lock among the values.\<close>

definition records_ok :: "records \<Rightarrow> bool" where
  "records_ok R \<longleftrightarrow> (\<forall>a. trec_ok (R a) \<and>
    (\<forall>p \<in> set (positions R a). \<forall>b. expected_value (entry_at (R a) p) \<noteq> TRec b \<and> new_value (entry_at (R a) p) \<noteq> TRec b))"

lemma records_okD:
  assumes "records_ok R" "p \<in> set (positions R a)"
  shows "expected_value (entry_at (R a) p) \<noteq> TRec b" "new_value (entry_at (R a) p) \<noteq> TRec b"
    "q \<in> set (positions R a) \<Longrightarrow> tv R a p = tv R a q \<Longrightarrow> p = q"
  using assms pos_unique [of "R a" p q] by (auto simp: records_ok_def)

text \<open>The entries whose TVars a record may hold, those whose version it has seen, and those read again since.\<close>

fun held :: "entry_pos list \<Rightarrow> commit_pc \<Rightarrow> entry_pos set" where
  "held E (Acquiring ps) = set E - set ps"
| "held E (Versioning p ps) = set E - insert p (set ps)"
| "held E (Rereading p ps) = set E - insert p (set ps)"
| "held E (Writing ps) = set ps"
| "held E (Unlocking p ps) = insert p (set ps)"
| "held E (Reverting ok ps) = set ps"
| "held E Running = {}"
| "held E (Finished ok) = {}"
| "held E c = set E"

fun versioned :: "entry_pos list \<Rightarrow> commit_pc \<Rightarrow> entry_pos set" where
  "versioned E (Acquiring ps) = set E - set ps"
| "versioned E (Versioning p ps) = set E - insert p (set ps)"
| "versioned E (Rereading p ps) = set E - set ps"
| "versioned E (Checking ps) = set E"
| "versioned E (CheckingVersion p ps) = set E"
| "versioned E c = {}"

fun reread :: "entry_pos list \<Rightarrow> commit_pc \<Rightarrow> entry_pos set" where
  "reread E (Rereading p ps) = set E - insert p (set ps)"
| "reread E c = versioned E c"

fun pc_ok :: "records \<Rightarrow> kinds \<Rightarrow> addr \<Rightarrow> commit_pc \<Rightarrow> bool" where
  "pc_ok R K a (Acquiring ps) \<longleftrightarrow> suffix ps (positions R a)"
| "pc_ok R K a (Versioning p ps) \<longleftrightarrow> suffix (p # ps) (positions R a) \<and> \<not> acquires R K a p"
| "pc_ok R K a (Rereading p ps) \<longleftrightarrow> suffix (p # ps) (positions R a) \<and> \<not> acquires R K a p"
| "pc_ok R K a Holding \<longleftrightarrow> K a = Wait"
| "pc_ok R K a (Checking ps) \<longleftrightarrow> suffix ps (positions R a) \<and> K a \<noteq> Wait"
| "pc_ok R K a (CheckingVersion p ps) \<longleftrightarrow> suffix (p # ps) (positions R a) \<and> K a \<noteq> Wait \<and> \<not> acquires R K a p"
| "pc_ok R K a (Writing ps) \<longleftrightarrow> suffix ps (positions R a) \<and> K a = Commit"
| "pc_ok R K a (Unlocking p ps) \<longleftrightarrow> suffix (p # ps) (positions R a) \<and> K a = Commit \<and> acquires R K a p"
| "pc_ok R K a (Reverting ok ps) \<longleftrightarrow> suffix ps (positions R a) \<and> (K a = Commit \<longrightarrow> \<not> ok)"
| "pc_ok R K a Running = True"
| "pc_ok R K a (Finished ok) = True"

lemma suffix_step:
  assumes "suffix (p # ps) (entry_positions t)"
  shows "suffix ps (entry_positions t)" "p \<in> set (entry_positions t)" "p \<notin> set ps" "set ps \<subseteq> set (entry_positions t)"
proof -
  have "distinct (p # ps)"
    using assms distinct_entry_positions [of t] by (auto simp: suffix_def simp del: distinct_entry_positions)
  then show "p \<notin> set ps" by simp
qed (use assms in \<open>auto dest: suffix_ConsD set_mono_suffix\<close>)

lemma tv_apart:
  assumes "records_ok R" "suffix (p # ps) (positions R a)" "q \<in> set ps"
  shows "tv R a q \<noteq> tv R a p"
  using suffix_step [OF assms(2)] assms(3) records_okD(3) [OF assms(1), of p a q] by auto

definition pcs_ok :: "records \<Rightarrow> kinds \<Rightarrow> commit_sys \<Rightarrow> bool" where
  "pcs_ok R K s \<longleftrightarrow> (\<forall>a. pc_ok R K a (pc s a))"

lemma pcs_okD: "pcs_ok R K s \<Longrightarrow> pc s a = c \<Longrightarrow> pc_ok R K a c"
  by (auto simp: pcs_ok_def)

text \<open>The bodies of the loops.\<close>

lemmas bodies = fail_def acquire_entry_def reread_entry_def check_entry_def check_version_def count_update_def
  store_update_def revert_one_def acquires_def entry_is_update_def entry_is_read_only_def Let_def

lemma pcs_ok_step:
  assumes "commit_step R K s s'" "pcs_ok R K s"
  shows "pcs_ok R K s'"
  using assms
proof cases
qed (frule (1) pcs_okD; auto simp: bodies pcs_ok_def split: if_splits dest: suffix_ConsD)+

fun reverting :: "commit_pc \<Rightarrow> bool" where
  "reverting (Reverting ok ps) = True"
| "reverting c = False"

text \<open>A locked TVar is one the record has acquired, and those it holds for sure are locked by it.\<close>

definition locks_ok :: "records \<Rightarrow> kinds \<Rightarrow> commit_sys \<Rightarrow> bool" where
  "locks_ok R K s \<longleftrightarrow>
    (\<forall>x b. cv s x = TRec b \<longrightarrow> (\<exists>p \<in> held (positions R b) (pc s b). acquires R K b p \<and> tv R b p = x)) \<and>
    (\<forall>b. \<not> reverting (pc s b) \<longrightarrow> (\<forall>p \<in> held (positions R b) (pc s b). acquires R K b p \<longrightarrow> cv s (tv R b p) = TRec b))"

lemma locks_okD:
  assumes "locks_ok R K s"
  shows "cv s x = TRec b \<Longrightarrow> \<exists>p \<in> held (positions R b) (pc s b). acquires R K b p \<and> tv R b p = x"
    "\<not> reverting (pc s b) \<Longrightarrow> p \<in> held (positions R b) (pc s b) \<Longrightarrow> acquires R K b p \<Longrightarrow> cv s (tv R b p) = TRec b"
  using assms by (auto simp: locks_ok_def)

lemma locks_keep:
  assumes "locks_ok R K s" "\<And>x. cv s' x = cv s x" "pc s' = (pc s)(a := c)"
    and "\<And>p. p \<in> held (positions R a) (pc s a) \<Longrightarrow> acquires R K a p \<Longrightarrow> p \<in> held (positions R a) c"
    and "\<And>p. \<not> reverting c \<Longrightarrow> p \<in> held (positions R a) c \<Longrightarrow> acquires R K a p \<Longrightarrow>
      \<not> reverting (pc s a) \<and> p \<in> held (positions R a) (pc s a)"
  shows "locks_ok R K s'"
  unfolding locks_ok_def
proof (intro conjI allI impI ballI)
  fix x b assume "cv s' x = TRec b"
  then have "cv s x = TRec b" by (simp only: assms(2))
  from locks_okD(1) [OF assms(1) this] obtain p where "p \<in> held (positions R b) (pc s b)" "acquires R K b p" "tv R b p = x"
    by blast
  then show "\<exists>p\<in>held (positions R b) (pc s' b). acquires R K b p \<and> tv R b p = x"
    using assms(3) assms(4) [of p] by (intro bexI [of _ p]) (cases "b = a"; simp)+
next
  fix b p assume "\<not> reverting (pc s' b)" "p \<in> held (positions R b) (pc s' b)" "acquires R K b p"
  then show "cv s' (tv R b p) = TRec b"
    using locks_okD(2) [OF assms(1), of b p] assms(2) [of "tv R b p"] assms(3) assms(5) [of p] by (cases "b = a") simp_all
qed

lemma locks_goto:
  assumes "locks_ok R K s" "pc s a = d"
    and "\<And>p. p \<in> held (positions R a) d \<Longrightarrow> acquires R K a p \<Longrightarrow> p \<in> held (positions R a) c"
    and "\<And>p. \<not> reverting c \<Longrightarrow> p \<in> held (positions R a) c \<Longrightarrow> acquires R K a p \<Longrightarrow> \<not> reverting d \<and> p \<in> held (positions R a) d"
  shows "locks_ok R K (s\<lparr>pc := (pc s)(a := c)\<rparr>)"
  using assms(3,4) by (intro locks_keep [OF assms(1), where a = a and c = c]) (simp_all add: assms(2))

lemma locks_ok_more [simp]:
  "locks_ok R K (s\<lparr>versions := v, pc := c\<rparr>) = locks_ok R K (s\<lparr>pc := c\<rparr>)"
  "locks_ok R K (s\<lparr>pc := c, lin_order := l\<rparr>) = locks_ok R K (s\<lparr>pc := c\<rparr>)"
  by (simp_all add: locks_ok_def)

text \<open>Locking one more TVar, and unlocking one.\<close>

lemma locks_acquire:
  assumes "locks_ok R K s" "\<And>y. cv s' y = (if y = tv R a p then TRec a else cv s y)" "pc s' = (pc s)(a := c)"
    and "acquires R K a p" "\<And>b. cv s (tv R a p) \<noteq> TRec b"
    and "held (positions R a) c = insert p (held (positions R a) (pc s a))" "\<not> reverting (pc s a)"
  shows "locks_ok R K s'"
  unfolding locks_ok_def
proof (intro conjI allI impI ballI)
  fix x b assume "cv s' x = TRec b"
  with assms(2) [of x] consider "x = tv R a p" "b = a" | "cv s x = TRec b" by (auto split: if_splits)
  then show "\<exists>q\<in>held (positions R b) (pc s' b). acquires R K b q \<and> tv R b q = x"
  proof cases
    case 2
    from locks_okD(1) [OF assms(1) this] obtain q where "q \<in> held (positions R b) (pc s b)" "acquires R K b q" "tv R b q = x"
      by blast
    then show ?thesis using assms(3,6) by (cases "b = a") auto
  qed (use assms(3,4,6) in auto)
next
  fix b q assume "\<not> reverting (pc s' b)" and q: "q \<in> held (positions R b) (pc s' b)" "acquires R K b q"
  show "cv s' (tv R b q) = TRec b"
  proof (cases "b = a \<and> q = p")
    case False
    with q assms(3,6) have "q \<in> held (positions R b) (pc s b)" by (auto split: if_splits)
    moreover have "\<not> reverting (pc s b)" using \<open>\<not> reverting (pc s' b)\<close> assms(3,7) by (auto split: if_splits)
    ultimately have "cv s (tv R b q) = TRec b" using q(2) by (intro locks_okD(2) [OF assms(1)])
    moreover from this have "tv R b q \<noteq> tv R a p" using assms(5) by metis
    ultimately show ?thesis using assms(2) by simp
  qed (use assms(2) in simp)
qed

lemma locks_release:
  assumes "locks_ok R K s" "\<And>y. y \<noteq> tv R a p \<Longrightarrow> cv s' y = cv s y" "pc s' = (pc s)(a := c)"
    and "cv s' (tv R a p) = cv s (tv R a p) \<and> cv s (tv R a p) \<noteq> TRec a \<or> cv s (tv R a p) = TRec a \<and> (\<forall>b. cv s' (tv R a p) \<noteq> TRec b)"
    and "held (positions R a) (pc s a) = insert p (held (positions R a) c)" "reverting c = reverting (pc s a)"
    and "\<And>q. \<not> reverting c \<Longrightarrow> q \<in> held (positions R a) c \<Longrightarrow> tv R a q \<noteq> tv R a p"
  shows "locks_ok R K s'"
  unfolding locks_ok_def
proof (intro conjI allI impI ballI)
  fix x b assume x: "cv s' x = TRec b"
  have "cv s x = TRec b" using x assms(2) [of x] assms(4) by (cases "x = tv R a p") auto
  moreover have "b = a \<Longrightarrow> x \<noteq> tv R a p" using x assms(4) by auto
  ultimately show "\<exists>q\<in>held (positions R b) (pc s' b). acquires R K b q \<and> tv R b q = x"
    using locks_okD(1) [OF assms(1), of x b] assms(3,5) by (cases "b = a") auto
next
  fix b q assume r: "\<not> reverting (pc s' b)" and q: "q \<in> held (positions R b) (pc s' b)" "acquires R K b q"
  then have cv: "cv s (tv R b q) = TRec b"
    using locks_okD(2) [OF assms(1), of b q] assms(3,5,6) by (cases "b = a") auto
  show "cv s' (tv R b q) = TRec b"
  proof (cases "tv R b q = tv R a p")
    case True
    have "b \<noteq> a"
    proof
      assume "b = a"
      with r q assms(3) have "\<not> reverting c" "q \<in> held (positions R a) c" by auto
      from assms(7) [OF this] True \<open>b = a\<close> show False by simp
    qed
    with True cv assms(4) show ?thesis by auto
  qed (use cv assms(2) in simp)
qed

lemma locks_ok_step:
  assumes "commit_step R K s s'" "records_ok R" "pcs_ok R K s" "locks_ok R K s"
  shows "locks_ok R K s'"
  using assms(1)
proof cases
  case (step_acquire a p ps c m)
  note pc = pcs_okD [OF assms(3) step_acquire(2), simplified]
  note p = suffix_step [OF pc]
  show ?thesis
  proof (cases "acquires R K a p \<and> cv s (tv R a p) = expected_value (entry_at (R a) p)")
    case True
    with step_acquire(3) have "c = Acquiring ps" "m = (mem s)(tv R a p := (mem s (tv R a p))\<lparr>current_value := TRec a\<rparr>)"
      by (auto simp: acquire_entry_def Let_def)
    then show ?thesis using True p
      by (intro locks_acquire [OF assms(4), of s' a p c]) (auto simp: step_acquire records_okD [OF assms(2)])
  next
    case False
    with step_acquire(3) have m: "m = mem s" and c: "c = fail R a \<or> \<not> acquires R K a p \<and> c = Versioning p ps"
      by (auto simp: acquire_entry_def Let_def split: if_splits)
    show ?thesis
      by (rule locks_keep [OF assms(4), where c = c and a = a]) (use m c p in \<open>auto simp: step_acquire fail_def\<close>)
  qed
next
  case (step_store a p ps)
  note pc = pcs_okD [OF assms(3) step_store(2), simplified]
  note p = suffix_step [OF conjunct1 [OF pc]]
  have "cv s (tv R a p) = TRec a" using pc by (intro locks_okD(2) [OF assms(4)]) (simp_all add: step_store)
  then show ?thesis using records_okD(2) [OF assms(2) p(2)] tv_apart [OF assms(2) conjunct1 [OF pc]]
    by (intro locks_release [OF assms(4), of a p s' "Writing ps"]) (simp_all add: step_store store_update_def Let_def)
next
  case (step_revert a ok p ps)
  note pc = pcs_okD [OF assms(3) step_revert(2), simplified]
  note p = suffix_step [OF conjunct1 [OF pc]]
  have "acquires R K a p" if "cv s (tv R a p) = TRec a"
  proof -
    from locks_okD(1) [OF assms(4) that] obtain q where "q \<in> held (positions R a) (pc s a)" "acquires R K a q" "tv R a q = tv R a p"
      by blast
    moreover from this have "q = p \<or> q \<in> set ps" by (simp add: step_revert)
    ultimately show ?thesis using tv_apart [OF assms(2) conjunct1 [OF pc], of q] by auto
  qed
  then show ?thesis using records_okD(1) [OF assms(2) p(2)]
    by (intro locks_release [OF assms(4), of a p s' "Reverting ok ps"])
      (auto simp: step_revert revert_one_def Let_def)
next
  case (step_count a p ps c m)
  from step_count(3) have "current_value (m x) = cv s x" for x by (auto simp: count_update_def Let_def split: if_splits)
  then show ?thesis
    by (intro locks_keep [OF assms(4), of s' a c]) (use step_count(3) pcs_okD [OF assms(3) step_count(2)] in \<open>auto simp: step_count(1,2) bodies split: if_splits\<close>)
qed (hypsubst, frule pcs_okD [OF assms(3)], (simp only: locks_ok_more)?, rule locks_goto [OF assms(4)], assumption;
  auto simp: bodies dest: suffix_step split: if_splits)+

section \<open>The versions\<close>

text \<open>
  The version a record has seen is not larger than that of the TVar, and smaller when another record has
  counted an update that it has yet to store.
\<close>

definition versions_ok :: "records \<Rightarrow> kinds \<Rightarrow> commit_sys \<Rightarrow> bool" where
  "versions_ok R K s \<longleftrightarrow>
    (\<forall>c. \<forall>p \<in> versioned (positions R c) (pc s c). \<not> acquires R K c p \<longrightarrow> versions s c p \<le> num_updates (mem s (tv R c p))) \<and>
    (\<forall>c. \<forall>p \<in> reread (positions R c) (pc s c). \<not> acquires R K c p \<longrightarrow>
      (\<forall>b q qs. pc s b = Unlocking q qs \<longrightarrow> tv R b q = tv R c p \<longrightarrow> versions s c p < num_updates (mem s (tv R c p))))"

lemma versions_okD:
  assumes "versions_ok R K s" "\<not> acquires R K c p"
  shows "p \<in> versioned (positions R c) (pc s c) \<Longrightarrow> versions s c p \<le> num_updates (mem s (tv R c p))"
    "p \<in> reread (positions R c) (pc s c) \<Longrightarrow> pc s b = Unlocking q qs \<Longrightarrow> tv R b q = tv R c p \<Longrightarrow>
      versions s c p < num_updates (mem s (tv R c p))"
  using assms unfolding versions_ok_def by blast+

lemma versions_okI:
  assumes "\<And>c p. p \<in> versioned (positions R c) (pc s c) \<Longrightarrow> \<not> acquires R K c p \<Longrightarrow> versions s c p \<le> num_updates (mem s (tv R c p))"
    and "\<And>c p b q qs. p \<in> reread (positions R c) (pc s c) \<Longrightarrow> \<not> acquires R K c p \<Longrightarrow> pc s b = Unlocking q qs \<Longrightarrow>
      tv R b q = tv R c p \<Longrightarrow> versions s c p < num_updates (mem s (tv R c p))"
  shows "versions_ok R K s"
  unfolding versions_ok_def using assms by blast

lemma reread_versioned: "p \<in> reread E c \<Longrightarrow> p \<in> versioned E c"
  by (cases "(E, c)" rule: reread.cases) auto

lemma versions_goto:
  assumes "versions_ok R K s" "pc s' = (pc s)(a := c)" "versions s' = versions s" "\<And>x. num_updates (mem s' x) = num_updates (mem s x)"
    and "\<And>p. p \<in> versioned (positions R a) c \<Longrightarrow> \<not> acquires R K a p \<Longrightarrow> p \<in> versioned (positions R a) (pc s a)"
    and "\<And>p. p \<in> reread (positions R a) c \<Longrightarrow> \<not> acquires R K a p \<Longrightarrow> p \<in> reread (positions R a) (pc s a)"
    and "\<And>q qs. c \<noteq> Unlocking q qs"
  shows "versions_ok R K s'"
proof (rule versions_okI)
  fix d p assume "p \<in> versioned (positions R d) (pc s' d)" "\<not> acquires R K d p"
  with assms(2) assms(5) [of p] have "p \<in> versioned (positions R d) (pc s d)" by (cases "d = a") simp_all
  with \<open>\<not> acquires R K d p\<close> show "versions s' d p \<le> num_updates (mem s' (tv R d p))"
    by (simp add: assms(3,4) versions_okD(1) [OF assms(1)])
next
  fix d p b q qs assume p: "p \<in> reread (positions R d) (pc s' d)" "\<not> acquires R K d p" and b: "pc s' b = Unlocking q qs" "tv R b q = tv R d p"
  have "pc s b = Unlocking q qs" using b(1) assms(2) assms(7) [of q qs] by (simp split: if_splits)
  moreover have "p \<in> reread (positions R d) (pc s d)" using p assms(2) assms(6) [of p] by (cases "d = a") simp_all
  ultimately show "versions s' d p < num_updates (mem s' (tv R d p))"
    using versions_okD(2) [OF assms(1)] p(2) b(2) by (simp add: assms(3,4))
qed

lemma versions_pc:
  assumes "versions_ok R K s" "pc s a = d"
    and "\<And>p. p \<in> versioned (positions R a) c \<Longrightarrow> \<not> acquires R K a p \<Longrightarrow> p \<in> versioned (positions R a) d"
    and "\<And>p. p \<in> reread (positions R a) c \<Longrightarrow> \<not> acquires R K a p \<Longrightarrow> p \<in> reread (positions R a) d"
    and "\<And>q qs. c \<noteq> Unlocking q qs"
  shows "versions_ok R K (s\<lparr>pc := (pc s)(a := c)\<rparr>)"
  using assms(3-5) by (intro versions_goto [OF assms(1), where a = a and c = c]) (simp_all add: assms(2))

lemma versions_ok_more [simp]: "versions_ok R K (s\<lparr>pc := c, lin_order := l\<rparr>) = versions_ok R K (s\<lparr>pc := c\<rparr>)"
  by (simp add: versions_ok_def)

lemma versions_ok_step:
  assumes "commit_step R K s s'" "records_ok R" "pcs_ok R K s" "locks_ok R K s" "versions_ok R K s"
  shows "versions_ok R K s'"
  using assms(1)
proof cases
  case (step_version a p ps)
  note p = suffix_step [OF conjunct1 [OF pcs_okD [OF assms(3) step_version(2), simplified]]]
  have old: "d \<noteq> a \<or> q \<noteq> p \<Longrightarrow> versions s' d q = versions s d q" for d q using step_version(1) by auto
  have n: "mem s' = mem s" using step_version(1) by simp
  have r: "reread (positions R d) (pc s' d) = reread (positions R d) (pc s d)" for d
    using step_version by auto
  show ?thesis
  proof (rule versions_okI)
    fix d q assume q: "q \<in> versioned (positions R d) (pc s' d)" "\<not> acquires R K d q"
    show "versions s' d q \<le> num_updates (mem s' (tv R d q))"
    proof (cases "d = a \<and> q = p")
      case False
      with q(1) p have "q \<in> versioned (positions R d) (pc s d)" using step_version by (auto split: if_splits)
      with q(2) old [of d q] False show ?thesis by (auto simp: n versions_okD(1) [OF assms(5)])
    qed (simp add: step_version(1))
  next
    fix d q b u us assume q: "q \<in> reread (positions R d) (pc s' d)" "\<not> acquires R K d q" and b: "pc s' b = Unlocking u us" "tv R b u = tv R d q"
    have "d \<noteq> a \<or> q \<noteq> p" using q(1) p step_version by auto
    moreover have "pc s b = Unlocking u us" using b(1) step_version by (auto split: if_splits)
    ultimately show "versions s' d q < num_updates (mem s' (tv R d q))"
      using q b(2) old [of d q] versions_okD(2) [OF assms(5)] by (simp add: r n)
  qed
next
  case (step_reread a p ps)
  note pc = pcs_okD [OF assms(3) step_reread(2), simplified]
  note p = suffix_step [OF conjunct1 [OF pc]]
  have "versions s' = versions s" "mem s' = mem s" using step_reread(1) by simp_all
  moreover have "versioned (positions R d) (pc s' d) \<subseteq> versioned (positions R d) (pc s d)" for d
    using p by (auto simp: step_reread reread_entry_def fail_def Let_def)
  moreover have "versions s d q < num_updates (mem s (tv R d q))"
    if q: "q \<in> reread (positions R d) (pc s' d)" "\<not> acquires R K d q" and b: "pc s' b = Unlocking u us" "tv R b u = tv R d q" for d q b u us
  proof -
    have u: "pc s b = Unlocking u us" using b(1) by (auto simp: step_reread reread_entry_def fail_def Let_def split: if_splits)
    then have "acquires R K b u" using pcs_okD [OF assms(3) u] by simp
    then have lock: "cv s (tv R b u) = TRec b" using locks_okD(2) [OF assms(4), of b u] by (simp add: u)
    have "\<not> (d = a \<and> q = p)"
    proof
      assume "d = a \<and> q = p"
      with q(1) p have "cv s (tv R a p) = expected_value (entry_at (R a) p)"
        by (auto simp: step_reread reread_entry_def fail_def Let_def split: if_splits)
      with lock b(2) \<open>d = a \<and> q = p\<close> records_okD(1) [OF assms(2) p(2)] show False by metis
    qed
    then have "q \<in> reread (positions R d) (pc s d)"
      using q(1) p by (auto simp: step_reread reread_entry_def fail_def Let_def split: if_splits)
    then show ?thesis using versions_okD(2) [OF assms(5) q(2) _ u b(2)] by simp
  qed
  ultimately show ?thesis
    by (intro versions_okI) (auto intro: versions_okD(1) [OF assms(5)])
next
  case (step_count a p ps c m)
  show ?thesis
  proof (cases "new_value (entry_at (R a) p) = expected_value (entry_at (R a) p)")
    case True
    with step_count(3) have "c = Writing ps" "m = mem s" by (simp_all add: count_update_def Let_def)
    then show ?thesis by (intro versions_goto [OF assms(5), of s' a c]) (simp_all add: step_count)
  next
    case False
    with step_count(3) have c: "c = Unlocking p ps"
      and m: "m = (mem s)(tv R a p := (mem s (tv R a p))\<lparr>num_updates := num_updates (mem s (tv R a p)) + 1\<rparr>)"
      by (simp_all add: count_update_def Let_def)
    have sub: "versioned (positions R d) (pc s' d) \<subseteq> versioned (positions R d) (pc s d)"
      "reread (positions R d) (pc s' d) \<subseteq> reread (positions R d) (pc s d)" for d
      by (auto simp: step_count c split: if_splits)
    show ?thesis
    proof (rule versions_okI)
      fix d q assume "q \<in> versioned (positions R d) (pc s' d)" "\<not> acquires R K d q"
      then have "versions s d q \<le> num_updates (mem s (tv R d q))" using sub(1) versions_okD(1) [OF assms(5)] by blast
      then show "versions s' d q \<le> num_updates (mem s' (tv R d q))" by (auto simp: step_count(1) m)
    next
      fix d q b u us assume q: "q \<in> reread (positions R d) (pc s' d)" "\<not> acquires R K d q" and b: "pc s' b = Unlocking u us" "tv R b u = tv R d q"
      have q': "q \<in> reread (positions R d) (pc s d)" using q(1) sub(2) by blast
      show "versions s' d q < num_updates (mem s' (tv R d q))"
      proof (cases "tv R d q = tv R a p")
        case True
        have "versions s d q \<le> num_updates (mem s (tv R d q))"
          using versions_okD(1) [OF assms(5) q(2) reread_versioned [OF q']] .
        then show ?thesis by (simp add: step_count(1) m True)
      next
        case False
        with b have "pc s b = Unlocking u us" by (auto simp: step_count(1) c split: if_splits)
        from versions_okD(2) [OF assms(5) q(2) q' this b(2)] False show ?thesis by (simp add: step_count(1) m)
      qed
    qed
  qed
next
  case (step_acquire a p ps c m)
  from step_acquire(3) have "num_updates (m x) = num_updates (mem s x)" for x by (auto simp: acquire_entry_def Let_def split: if_splits)
  then show ?thesis
    by (intro versions_goto [OF assms(5), of s' a c]) (use step_acquire(3) in \<open>auto simp: step_acquire(1,2) bodies split: if_splits\<close>)
next
  case (step_store a p ps)
  then show ?thesis by (intro versions_goto [OF assms(5), of s' a "Writing ps"]) (auto simp: store_update_def Let_def)
next
  case (step_revert a ok p ps)
  then show ?thesis by (intro versions_goto [OF assms(5), of s' a "Reverting ok ps"]) (auto simp: revert_one_def Let_def)
qed (hypsubst, frule pcs_okD [OF assms(3)], (simp only: versions_ok_more)?, rule versions_pc [OF assms(5)], assumption;
  auto simp: bodies dest: suffix_step split: if_splits)+

section \<open>Replaying\<close>

lemma writes_iff:
  "x \<in> writes R K a \<longleftrightarrow> K a = Commit \<and> (\<exists>p \<in> set (positions R a). acquires R K a p \<and> x = tv R a p)"
  by (auto simp: writes_def acquires_def)

lemma replay_append: "replay R K D (as @ bs) m = replay R K D bs (replay R K D as m)"
  by (induction as arbitrary: m) simp_all

lemma serial_append: "serial R K D (as @ bs) m \<longleftrightarrow> serial R K D as m \<and> serial R K D bs (replay R K D as m)"
  by (induction as arbitrary: m) simp_all

lemma replay_cong:
  "\<forall>a \<in> set as. x \<in> writes R K a \<longrightarrow> D a = D' a \<Longrightarrow> m x = m' x \<Longrightarrow> replay R K D as m x = replay R K D' as m' x"
proof (induction as arbitrary: m m')
  case (Cons a as)
  show ?case unfolding replay.simps by (rule Cons.IH) (use Cons.prems in \<open>auto simp: apply_writes_def\<close>)
qed simp

lemma replay_none:
  assumes "\<forall>a \<in> set as. x \<in> writes R K a \<longrightarrow> \<not> D a"
  shows "replay R K D as m x = m x"
proof -
  have "replay R K (\<lambda>_. False) as m = m" by (induction as) simp_all
  then show ?thesis using replay_cong [of as x R K D "\<lambda>_. False" m m] assms by simp
qed

text \<open>The records before one in the order.\<close>

definition before :: "addr \<Rightarrow> addr list \<Rightarrow> addr list" where
  "before c as = takeWhile (\<lambda>a. a \<noteq> c) as"

lemma before_append: "c \<in> set as \<Longrightarrow> before c (as @ bs) = before c as"
  by (auto simp: before_def takeWhile_append)

lemma before_last: "c \<notin> set as \<Longrightarrow> before c (as @ [c]) = as"
  by (simp add: before_def takeWhile_append)

lemma before_split:
  assumes "c \<in> set as"
  obtains bs where "as = before c as @ c # bs" "\<And>b. distinct as \<Longrightarrow> b \<in> set bs \<Longrightarrow> c \<in> set (before b as)"
proof -
  obtain us vs where as: "as = us @ c # vs" "c \<notin> set us" using split_list_first [OF assms] by blast
  then have "before c as = us" by (auto simp: before_def takeWhile_append)
  moreover have "c \<in> set (before b as)" if "distinct as" "b \<in> set vs" for b
    using that as by (auto simp: before_def takeWhile_append split: if_splits)
  ultimately show thesis using as that [of vs] by blast
qed

lemma in_before: "b \<in> set (before c as) \<Longrightarrow> b \<in> set as \<and> b \<noteq> c"
  by (auto simp: before_def dest: set_takeWhileD)

lemma serial_before:
  assumes "distinct as"
    and "\<And>c p. c \<in> set as \<Longrightarrow> D c \<Longrightarrow> p \<in> set (positions R c) \<Longrightarrow>
      replay R K D (before c as) m (tv R c p) = expected_value (entry_at (R c) p)"
  shows "serial R K D as m"
  using assms
proof (induction as rule: rev_induct)
  case (snoc a as)
  have "serial R K D as m"
  proof (rule snoc.IH)
    fix c p assume "c \<in> set as" "D c" "p \<in> set (positions R c)"
    then show "replay R K D (before c as) m (tv R c p) = expected_value (entry_at (R c) p)"
      using snoc.prems(2) [of c p] by (simp add: before_append)
  qed (use snoc.prems(1) in simp)
  moreover have "replay R K D as m (tv R a p) = expected_value (entry_at (R a) p)" if "D a" "p \<in> set (positions R a)" for p
    using snoc.prems(2) [of a p] that snoc.prems(1) by (simp add: before_last)
  ultimately show ?case unfolding serial_append by simp
qed simp

text \<open>The memory the decided records would leave, and the one a record finds.\<close>

abbreviation done_in :: "commit_sys \<Rightarrow> addr \<Rightarrow> bool" where
  "done_in s \<equiv> \<lambda>a. decided (pc s a)"

definition replayed :: "records \<Rightarrow> kinds \<Rightarrow> (addr \<Rightarrow> closure) \<Rightarrow> commit_sys \<Rightarrow> addr \<Rightarrow> closure" where
  "replayed R K v s = replay R K (done_in s) (lin_order s) v"

definition found :: "records \<Rightarrow> kinds \<Rightarrow> (addr \<Rightarrow> closure) \<Rightarrow> commit_sys \<Rightarrow> addr \<Rightarrow> entry_pos \<Rightarrow> bool" where
  "found R K v s c p \<longleftrightarrow>
    replay R K (done_in s) (before c (lin_order s)) v (tv R c p) = expected_value (entry_at (R c) p)"

lemma replayed_same:
  "lin_order s' = lin_order s \<Longrightarrow> (\<And>a. decided (pc s' a) = decided (pc s a)) \<Longrightarrow>
    replayed R K v s' = replayed R K v s \<and> found R K v s' = found R K v s"
  by (simp add: replayed_def found_def fun_eq_iff)

section \<open>The order\<close>

fun early :: "commit_pc \<Rightarrow> bool" where
  "early Running = True"
| "early (Acquiring ps) = True"
| "early (Versioning p ps) = True"
| "early (Rereading p ps) = True"
| "early c = False"

fun in_check :: "commit_pc \<Rightarrow> bool" where
  "in_check (Checking ps) = True"
| "in_check (CheckingVersion p ps) = True"
| "in_check c = False"

fun writing :: "commit_pc \<Rightarrow> bool" where
  "writing (Writing ps) = True"
| "writing (Unlocking p ps) = True"
| "writing c = False"

definition order_ok :: "commit_sys \<Rightarrow> bool" where
  "order_ok s \<longleftrightarrow> distinct (lin_order s) \<and> (\<forall>a. early (pc s a) \<longrightarrow> a \<notin> set (lin_order s)) \<and>
    (\<forall>a. in_check (pc s a) \<or> decided (pc s a) \<longrightarrow> a \<in> set (lin_order s))"

lemma order_okD:
  assumes "order_ok s"
  shows "distinct (lin_order s)" "early (pc s a) \<Longrightarrow> a \<notin> set (lin_order s)"
    "in_check (pc s a) \<Longrightarrow> a \<in> set (lin_order s)" "decided (pc s a) \<Longrightarrow> a \<in> set (lin_order s)"
  using assms by (auto simp: order_ok_def)

lemma order_ok_pc:
  assumes "order_ok s" "pc s a = d" "early c \<Longrightarrow> early d" "in_check c \<or> decided c \<Longrightarrow> in_check d \<or> decided d"
  shows "order_ok (s\<lparr>pc := (pc s)(a := c)\<rparr>)"
  using assms by (auto simp: order_ok_def)

lemma order_ok_more [simp]:
  "order_ok (s\<lparr>mem := m, pc := c\<rparr>) = order_ok (s\<lparr>pc := c\<rparr>)" "order_ok (s\<lparr>versions := v, pc := c\<rparr>) = order_ok (s\<lparr>pc := c\<rparr>)"
  by (simp_all add: order_ok_def)

lemma order_ok_step:
  assumes "commit_step R K s s'" "order_ok s"
  shows "order_ok s'"
  using assms(1)
proof cases
  case (step_acquired a)
  then show ?thesis using assms(2) by (auto simp: order_ok_def)
qed (hypsubst, (simp only: order_ok_more)?, rule order_ok_pc [OF assms(2)], assumption; auto simp: bodies split: if_splits)+

section \<open>The check of the reads\<close>

text \<open>The entries whose value a record has looked at again, and those whose version it has checked as well.\<close>

fun looked :: "entry_pos list \<Rightarrow> commit_pc \<Rightarrow> entry_pos set" where
  "looked E (Checking ps) = set E - set ps"
| "looked E (CheckingVersion p ps) = set E - set ps"
| "looked E c = {}"

fun checked :: "entry_pos list \<Rightarrow> commit_pc \<Rightarrow> entry_pos set" where
  "checked E (Checking ps) = set E - set ps"
| "checked E (CheckingVersion p ps) = set E - insert p (set ps)"
| "checked E c = {}"

definition conflicts_ok :: "records \<Rightarrow> kinds \<Rightarrow> commit_sys \<Rightarrow> bool" where
  "conflicts_ok R K s \<longleftrightarrow>
    (\<forall>c. \<forall>p \<in> looked (positions R c) (pc s c). \<not> acquires R K c p \<longrightarrow>
      (\<forall>b \<in> set (before c (lin_order s)). in_check (pc s b) \<longrightarrow> tv R c p \<notin> writes R K b)) \<and>
    (\<forall>d. decided (pc s d) \<longrightarrow> (\<forall>c \<in> set (before d (lin_order s)). in_check (pc s c) \<longrightarrow>
      (\<forall>p \<in> set (positions R d). tv R d p \<notin> writes R K c)))"

lemma conflicts_okD:
  assumes "conflicts_ok R K s"
  shows "p \<in> looked (positions R c) (pc s c) \<Longrightarrow> \<not> acquires R K c p \<Longrightarrow> b \<in> set (before c (lin_order s)) \<Longrightarrow>
      in_check (pc s b) \<Longrightarrow> tv R c p \<notin> writes R K b"
    "decided (pc s d) \<Longrightarrow> c \<in> set (before d (lin_order s)) \<Longrightarrow> in_check (pc s c) \<Longrightarrow> p \<in> set (positions R d) \<Longrightarrow>
      tv R d p \<notin> writes R K c"
  using assms unfolding conflicts_ok_def by blast+

lemma conflicts_okI:
  assumes "\<And>c p b. p \<in> looked (positions R c) (pc s c) \<Longrightarrow> \<not> acquires R K c p \<Longrightarrow> b \<in> set (before c (lin_order s)) \<Longrightarrow>
      in_check (pc s b) \<Longrightarrow> tv R c p \<notin> writes R K b"
    and "\<And>d c p. decided (pc s d) \<Longrightarrow> c \<in> set (before d (lin_order s)) \<Longrightarrow> in_check (pc s c) \<Longrightarrow> p \<in> set (positions R d) \<Longrightarrow>
      tv R d p \<notin> writes R K c"
  shows "conflicts_ok R K s"
  unfolding conflicts_ok_def using assms by blast

lemma in_check_held: "in_check c \<Longrightarrow> held E c = set E \<and> \<not> reverting c"
  by (cases c) auto

text \<open>While a record checks its reads, it holds the TVars it will write.\<close>

lemma writes_locked:
  assumes "locks_ok R K s" "in_check (pc s b)" "x \<in> writes R K b"
  shows "cv s x = TRec b"
proof -
  obtain q where q: "q \<in> set (positions R b)" "acquires R K b q" "x = tv R b q" using assms(3) unfolding writes_iff by blast
  show ?thesis unfolding q(3) by (rule locks_okD(2) [OF assms(1) _ _ q(2)]) (use q(1) in_check_held [OF assms(2)] in auto)
qed

lemma conflicts_ok_pc:
  assumes "conflicts_ok R K s" "lin_order s' = lin_order s" "pc s' = (pc s)(a := c)"
    and "\<And>p. p \<in> looked (positions R a) c \<Longrightarrow> \<not> acquires R K a p \<Longrightarrow> p \<in> looked (positions R a) (pc s a)"
    and "decided c \<Longrightarrow> decided (pc s a)" "in_check c \<Longrightarrow> in_check (pc s a)"
  shows "conflicts_ok R K s'"
proof (rule conflicts_okI)
  have chk: "in_check (pc s' b) \<Longrightarrow> in_check (pc s b)" for b using assms(3,6) by (cases "b = a") auto
  { fix d p b assume p: "p \<in> looked (positions R d) (pc s' d)" "\<not> acquires R K d p" and b: "b \<in> set (before d (lin_order s'))" "in_check (pc s' b)"
    have "p \<in> looked (positions R d) (pc s d)" using p assms(3) assms(4) [of p] by (cases "d = a") simp_all
    then show "tv R d p \<notin> writes R K b" using conflicts_okD(1) [OF assms(1)] p(2) b(1) chk [OF b(2)] assms(2) by simp }
  { fix d b p assume d: "decided (pc s' d)" and b: "b \<in> set (before d (lin_order s'))" "in_check (pc s' b)" and p: "p \<in> set (positions R d)"
    have "decided (pc s d)" using d assms(3,5) by (cases "d = a") auto
    then show "tv R d p \<notin> writes R K b" using conflicts_okD(2) [OF assms(1)] b(1) chk [OF b(2)] p assms(2) by simp }
qed

lemma conflicts_ok_goto:
  assumes "conflicts_ok R K s" "pc s a = d"
    and "\<And>p. p \<in> looked (positions R a) c \<Longrightarrow> \<not> acquires R K a p \<Longrightarrow> p \<in> looked (positions R a) d"
    and "decided c \<Longrightarrow> decided d" "in_check c \<Longrightarrow> in_check d"
  shows "conflicts_ok R K (s\<lparr>pc := (pc s)(a := c)\<rparr>)"
  using assms(3-5) by (intro conflicts_ok_pc [OF assms(1), where a = a and c = c]) (simp_all add: assms(2))

lemma conflicts_ok_more [simp]:
  "conflicts_ok R K (s\<lparr>mem := m, pc := c\<rparr>) = conflicts_ok R K (s\<lparr>pc := c\<rparr>)"
  "conflicts_ok R K (s\<lparr>versions := v, pc := c\<rparr>) = conflicts_ok R K (s\<lparr>pc := c\<rparr>)"
  by (simp_all add: conflicts_ok_def)

text \<open>A record that has just looked at a value knows that nobody holds the TVar.\<close>

lemma conflicts_ok_check:
  assumes "conflicts_ok R K s" "locks_ok R K s" "records_ok R" "pcs_ok R K s" "pc s a = Checking (p # ps)" "s' = s\<lparr>pc := (pc s)(a := check_entry R K a p ps (mem s))\<rparr>"
  shows "conflicts_ok R K s'"
proof -
  note pc = pcs_okD [OF assms(4,5), simplified]
  note p = suffix_step [OF conjunct1 [OF pc]]
  consider (upd) "entry_is_update (entry_at (R a) p)" "pc s' = (pc s)(a := Checking ps)" | (failed) "pc s' = (pc s)(a := fail R a)"
    | (looked) "pc s' = (pc s)(a := CheckingVersion p ps)" "cv s (tv R a p) = expected_value (entry_at (R a) p)"
    unfolding assms(6) by (fastforce simp: check_entry_def Let_def entry_is_read_only_def entry_is_update_def)
  then show ?thesis
  proof cases
    case upd
    then show ?thesis using p by (intro conflicts_ok_pc [OF assms(1), of s' a "Checking ps"]) (auto simp: assms(5,6) acquires_def)
  next
    case failed
    then show ?thesis by (intro conflicts_ok_pc [OF assms(1), of s' a "fail R a"]) (auto simp: assms(5,6) fail_def)
  next
    case looked
    have chk: "in_check (pc s' b) = in_check (pc s b)" for b using looked(1) assms(5) by simp
    show ?thesis
    proof (rule conflicts_okI)
      fix c q b assume q: "q \<in> looked (positions R c) (pc s' c)" "\<not> acquires R K c q" and b: "b \<in> set (before c (lin_order s'))" "in_check (pc s' b)"
      show "tv R c q \<notin> writes R K b"
      proof (cases "c = a \<and> q = p")
        case True
        then show ?thesis using writes_locked [OF assms(2), of b "tv R a p"] looked(2) b(2) records_okD(1) [OF assms(3) p(2)] chk by metis
      next
        case False
        with q(1) p looked(1) have "q \<in> looked (positions R c) (pc s c)" using assms(5) by (cases "c = a") auto
        then show ?thesis using conflicts_okD(1) [OF assms(1) _ q(2)] b chk by (simp add: assms(6))
      qed
    next
      fix d c q assume d: "decided (pc s' d)" "c \<in> set (before d (lin_order s'))" "in_check (pc s' c)" "q \<in> set (positions R d)"
      have "decided (pc s d)" using d(1) looked(1) by (cases "d = a") auto
      then show "tv R d q \<notin> writes R K c" using conflicts_okD(2) [OF assms(1)] d(2-4) chk by (simp add: assms(6))
    qed
  qed
qed

lemma conflicts_ok_acquired:
  assumes "conflicts_ok R K s" "locks_ok R K s" "order_ok s" "pc s a = Acquiring []"
    "s' = s\<lparr>pc := (pc s)(a := if K a = Wait then Holding else Checking (positions R a)), lin_order := lin_order s @ [a]\<rparr>"
  shows "conflicts_ok R K s'"
proof -
  have new: "a \<notin> set (lin_order s)" using order_okD(2) [OF assms(3), of a] assms(4) by simp
  have L: "before d (lin_order s') = (if d = a then lin_order s else before d (lin_order s))" if "d \<in> set (lin_order s')" for d
    using that new by (auto simp: assms(5) before_append before_last)
  have old: "b \<noteq> a \<and> pc s' b = pc s b" if "b \<in> set (before d (lin_order s'))" "d \<in> set (lin_order s')" for b d
    using that L [of d] new in_before [of b d] by (auto simp: assms(5) split: if_splits)
  have ord: "order_ok s'" unfolding assms(5) using assms(3,4) by (auto simp: order_ok_def)
  show ?thesis
  proof (rule conflicts_okI)
    fix c q b assume q: "q \<in> looked (positions R c) (pc s' c)" "\<not> acquires R K c q" and b: "b \<in> set (before c (lin_order s'))" "in_check (pc s' b)"
    have "c \<noteq> a" using q(1) by (auto simp: assms(5) split: if_splits)
    have "in_check (pc s' c)" using q(1) by (cases "pc s' c") auto
    then have c: "c \<in> set (lin_order s')" by (rule order_okD(3) [OF ord])
    show "tv R c q \<notin> writes R K b"
      using conflicts_okD(1) [OF assms(1), of q c b] q b \<open>c \<noteq> a\<close> L [OF c] old [OF b(1) c] by (simp add: assms(5))
  next
    fix d c q assume d: "decided (pc s' d)" "c \<in> set (before d (lin_order s'))" "in_check (pc s' c)" "q \<in> set (positions R d)"
    have d': "d \<in> set (lin_order s')" by (rule order_okD(4) [OF ord d(1)])
    note c = old [OF d(2) d']
    show "tv R d q \<notin> writes R K c"
    proof (cases "d = a")
      case True
      then have "K a = Wait" using d(1) by (auto simp: assms(5) split: if_splits)
      then have "cv s (tv R a q) = TRec a" using d(4) True by (intro locks_okD(2) [OF assms(2)]) (auto simp: assms(4) acquires_def)
      then show ?thesis using writes_locked [OF assms(2), of c "tv R a q"] c d(3) True by auto
    next
      case False
      then show ?thesis using conflicts_okD(2) [OF assms(1), of d c q] d L [OF d'] c by (simp add: assms(5))
    qed
  qed
qed

lemma conflicts_ok_checked:
  assumes "conflicts_ok R K s" "locks_ok R K s" "pc s a = Checking []"
    "s' = s\<lparr>pc := (pc s)(a := if K a = Commit then Writing (positions R a) else Reverting True (positions R a))\<rparr>"
  shows "conflicts_ok R K s'"
proof (rule conflicts_okI)
  fix c q b assume q: "q \<in> looked (positions R c) (pc s' c)" "\<not> acquires R K c q" and b: "b \<in> set (before c (lin_order s'))" "in_check (pc s' b)"
  have "c \<noteq> a" using q(1) by (auto simp: assms(4) split: if_splits)
  then show "tv R c q \<notin> writes R K b"
    using conflicts_okD(1) [OF assms(1), of q c b] q b by (simp add: assms(4) split: if_splits)
next
  fix d c q assume d: "decided (pc s' d)" "c \<in> set (before d (lin_order s'))" "in_check (pc s' c)" "q \<in> set (positions R d)"
  have c: "in_check (pc s c)" "c \<in> set (before d (lin_order s))" using d(2,3) by (auto simp: assms(4) split: if_splits)
  show "tv R d q \<notin> writes R K c"
  proof (cases "d = a")
    case True
    show ?thesis
    proof (cases "acquires R K a q")
      case acq: True
      then have "cv s (tv R a q) = TRec a" using d(4) True by (intro locks_okD(2) [OF assms(2)]) (simp_all add: assms(3))
      then show ?thesis using writes_locked [OF assms(2) c(1), of "tv R a q"] in_before [OF c(2)] True by auto
    next
      case False
      then show ?thesis using conflicts_okD(1) [OF assms(1), of q a c] True c d(4) by (simp add: assms(3))
    qed
  next
    case False
    then show ?thesis using conflicts_okD(2) [OF assms(1), of d c q] d c by (simp add: assms(4))
  qed
qed

lemma conflicts_ok_step:
  assumes "commit_step R K s s'" "records_ok R" "pcs_ok R K s" "locks_ok R K s" "order_ok s" "conflicts_ok R K s"
  shows "conflicts_ok R K s'"
  using assms(1)
proof cases
  case (step_check a p ps)
  then show ?thesis by (intro conflicts_ok_check [OF assms(6,4,2,3)])
next
  case (step_acquired a)
  then show ?thesis by (intro conflicts_ok_acquired [OF assms(6,4,5)])
next
  case (step_checked a)
  then show ?thesis by (intro conflicts_ok_checked [OF assms(6,4)])
qed (hypsubst, frule pcs_okD [OF assms(3)], (simp only: conflicts_ok_more)?, rule conflicts_ok_goto [OF assms(6)], assumption;
  auto simp: bodies dest: suffix_step split: if_splits)+

section \<open>The values\<close>

text \<open>
  A TVar that is not locked holds the value the serial execution gives; one that is locked will get its
  value back, the new one when its holder is making its updates.
\<close>

definition values_ok :: "records \<Rightarrow> kinds \<Rightarrow> (addr \<Rightarrow> closure) \<Rightarrow> commit_sys \<Rightarrow> bool" where
  "values_ok R K v s \<longleftrightarrow>
    (\<forall>x. (\<forall>b. cv s x \<noteq> TRec b) \<longrightarrow> cv s x = replayed R K v s x) \<and>
    (\<forall>b. \<forall>p \<in> set (positions R b). cv s (tv R b p) = TRec b \<longrightarrow>
      replayed R K v s (tv R b p) = (if writing (pc s b) then new_value (entry_at (R b) p) else expected_value (entry_at (R b) p)))"

lemma values_okD:
  assumes "values_ok R K v s"
  shows "\<forall>b. cv s x \<noteq> TRec b \<Longrightarrow> cv s x = replayed R K v s x"
    "p \<in> set (positions R b) \<Longrightarrow> cv s (tv R b p) = TRec b \<Longrightarrow>
      replayed R K v s (tv R b p) = (if writing (pc s b) then new_value (entry_at (R b) p) else expected_value (entry_at (R b) p))"
  using assms unfolding values_ok_def by blast+

lemma values_okI:
  assumes "\<And>x. \<forall>b. cv s x \<noteq> TRec b \<Longrightarrow> cv s x = replayed R K v s x"
    and "\<And>b p. p \<in> set (positions R b) \<Longrightarrow> cv s (tv R b p) = TRec b \<Longrightarrow>
      replayed R K v s (tv R b p) = (if writing (pc s b) then new_value (entry_at (R b) p) else expected_value (entry_at (R b) p))"
  shows "values_ok R K v s"
  unfolding values_ok_def using assms by blast

lemma values_keep:
  assumes "values_ok R K v s" "replayed R K v s' = replayed R K v s" "pc s' = (pc s)(a := c)"
    and "\<And>x. cv s' x = cv s x" "\<And>x. cv s x = TRec a \<Longrightarrow> writing c = writing (pc s a)"
  shows "values_ok R K v s'"
proof (rule values_okI)
  fix x assume "\<forall>b. cv s' x \<noteq> TRec b"
  then show "cv s' x = replayed R K v s' x" using values_okD(1) [OF assms(1), of x] by (simp add: assms(2,4))
next
  fix b p assume p: "p \<in> set (positions R b)" "cv s' (tv R b p) = TRec b"
  then have "cv s (tv R b p) = TRec b" by (simp add: assms(4))
  from values_okD(2) [OF assms(1) p(1) this] assms(5) [of "tv R b p"] this
  show "replayed R K v s' (tv R b p) = (if writing (pc s' b) then new_value (entry_at (R b) p) else expected_value (entry_at (R b) p))"
    by (cases "b = a") (simp_all add: assms(2,3))
qed

text \<open>Unlocking a TVar with the value it is to have.\<close>

lemma values_release:
  assumes "values_ok R K v s" "replayed R K v s' = replayed R K v s" "pc s' = (pc s)(a := c)" "writing c = writing (pc s a)"
    and "\<And>y. y \<noteq> x \<Longrightarrow> cv s' y = cv s y" "cv s' x = replayed R K v s x" "\<And>b. cv s' x \<noteq> TRec b"
  shows "values_ok R K v s'"
proof (rule values_okI)
  fix y assume "\<forall>b. cv s' y \<noteq> TRec b"
  then show "cv s' y = replayed R K v s' y"
    using values_okD(1) [OF assms(1), of y] assms(5) [of y] assms(6) by (cases "y = x") (simp_all add: assms(2))
next
  fix b p assume p: "p \<in> set (positions R b)" "cv s' (tv R b p) = TRec b"
  then have "tv R b p \<noteq> x" using assms(7) by metis
  with p(2) assms(5) have "cv s (tv R b p) = TRec b" by simp
  from values_okD(2) [OF assms(1) p(1) this]
  show "replayed R K v s' (tv R b p) = (if writing (pc s' b) then new_value (entry_at (R b) p) else expected_value (entry_at (R b) p))"
    using assms(4) by (cases "b = a") (simp_all add: assms(2,3))
qed

lemma values_lock:
  assumes "values_ok R K v s" "records_ok R" "replayed R K v s' = replayed R K v s" "pc s' = (pc s)(a := c)" "\<not> writing c" "\<not> writing (pc s a)"
    and p: "p \<in> set (positions R a)" "cv s (tv R a p) = expected_value (entry_at (R a) p)"
    and "\<And>y. cv s' y = (if y = tv R a p then TRec a else cv s y)"
  shows "values_ok R K v s'"
proof (rule values_okI)
  fix y assume "\<forall>b. cv s' y \<noteq> TRec b"
  then have "y \<noteq> tv R a p" "\<forall>b. cv s y \<noteq> TRec b" using assms(9) [of y] by (auto split: if_splits)
  then show "cv s' y = replayed R K v s' y" using values_okD(1) [OF assms(1), of y] by (simp add: assms(3,9))
next
  fix b q assume q: "q \<in> set (positions R b)" "cv s' (tv R b q) = TRec b"
  show "replayed R K v s' (tv R b q) = (if writing (pc s' b) then new_value (entry_at (R b) q) else expected_value (entry_at (R b) q))"
  proof (cases "tv R b q = tv R a p")
    case True
    with q(2) have "b = a" by (simp add: assms(9))
    with True records_okD(3) [OF assms(2), of q a p] q(1) p(1) have "q = p" by simp
    have "\<forall>b. cv s (tv R a p) \<noteq> TRec b" using p(2) records_okD(1) [OF assms(2) p(1)] by simp
    from values_okD(1) [OF assms(1) this] show ?thesis unfolding \<open>b = a\<close> \<open>q = p\<close> using p(2) assms(5) by (simp add: assms(3,4))
  next
    case False
    with q(2) have "cv s (tv R b q) = TRec b" by (simp add: assms(9))
    from values_okD(2) [OF assms(1) q(1) this] show ?thesis using assms(5,6) by (cases "b = a") (simp_all add: assms(3,4))
  qed
qed

text \<open>When a record has been checked, its updates become visible in the serial execution.\<close>

lemma replayed_writes:
  assumes "distinct (lin_order s)" "a \<in> set (lin_order s)" "decided (pc s a)" "p \<in> set (positions R a)" "tv R a p \<in> writes R K a" "trec_ok (R a)"
    and "\<And>b. decided (pc s b) \<Longrightarrow> a \<in> set (before b (lin_order s)) \<Longrightarrow> b \<in> set (lin_order s) \<Longrightarrow> tv R a p \<notin> writes R K b"
  shows "replayed R K v s (tv R a p) = new_value (entry_at (R a) p)"
proof -
  obtain bs where L: "lin_order s = before a (lin_order s) @ a # bs" "\<And>b. b \<in> set bs \<Longrightarrow> a \<in> set (before b (lin_order s))"
    using before_split [OF assms(2)] assms(1) by metis
  define m where "m = replay R K (done_in s) (before a (lin_order s)) v"
  have "replayed R K v s (tv R a p) = replay R K (done_in s) bs (apply_writes R K a m) (tv R a p)"
    unfolding replayed_def by (subst L(1)) (simp add: replay_append m_def assms(3))
  also have "\<dots> = apply_writes R K a m (tv R a p)"
  proof (rule replay_none, intro ballI impI)
    fix b assume b: "b \<in> set bs" "tv R a p \<in> writes R K b"
    have "b \<in> set (lin_order s)" by (subst L(1)) (simp add: b(1))
    with assms(7) [OF _ L(2) [OF b(1)]] b(2) show "\<not> decided (pc s b)" by blast
  qed
  also have "\<dots> = new_value (entry_at (R a) p)"
    using assms(5) trec_log_at [OF assms(6,4)] by (simp add: apply_writes_def)
  finally show ?thesis .
qed

lemma replayed_other:
  assumes "pc s' = (pc s)(a := c)" "lin_order s' = lin_order s" "x \<notin> writes R K a"
  shows "replayed R K v s' x = replayed R K v s x"
  unfolding replayed_def assms(2) by (rule replay_cong) (use assms(1,3) in auto)

lemma values_checked:
  assumes "values_ok R K v s" "records_ok R" "locks_ok R K s" "order_ok s" "conflicts_ok R K s" "pc s a = Checking []" "K a \<noteq> Wait"
    "s' = s\<lparr>pc := (pc s)(a := if K a = Commit then Writing (positions R a) else Reverting True (positions R a))\<rparr>"
  shows "values_ok R K v s'"
proof -
  have wr: "cv s x = TRec a" if "x \<in> writes R K a" for x using that by (intro writes_locked [OF assms(3)]) (simp_all add: assms(6))
  have other: "replayed R K v s' x = replayed R K v s x" if "x \<notin> writes R K a" for x
    by (rule replayed_other [OF _ _ that, where c = "pc s' a"]) (simp_all add: assms(8))
  show ?thesis
  proof (rule values_okI)
    fix x assume x: "\<forall>b. cv s' x \<noteq> TRec b"
    then have "x \<notin> writes R K a" using wr [of x] by (auto simp: assms(8))
    then show "cv s' x = replayed R K v s' x" using values_okD(1) [OF assms(1), of x] x other by (simp add: assms(8))
  next
    fix b p assume p: "p \<in> set (positions R b)" "cv s' (tv R b p) = TRec b"
    have cv: "cv s (tv R b p) = TRec b" using p(2) by (simp add: assms(8))
    note old = values_okD(2) [OF assms(1) p(1) cv]
    show "replayed R K v s' (tv R b p) = (if writing (pc s' b) then new_value (entry_at (R b) p) else expected_value (entry_at (R b) p))"
    proof (cases "tv R b p \<in> writes R K a")
      case True
      with wr cv have b: "b = a" by fastforce
      have "K a = Commit" using True by (simp add: writes_iff)
      have "replayed R K v s' (tv R a p) = new_value (entry_at (R a) p)"
      proof (rule replayed_writes)
        show "distinct (lin_order s')" "a \<in> set (lin_order s')"
          using order_okD(1) [OF assms(4)] order_okD(3) [OF assms(4), of a] by (simp_all add: assms(6,8))
        show "decided (pc s' a)" by (simp add: assms(8))
        show "trec_ok (R a)" using assms(2) by (simp add: records_ok_def)
        fix d assume d: "decided (pc s' d)" "a \<in> set (before d (lin_order s'))" "d \<in> set (lin_order s')"
        have "d \<noteq> a" using in_before [OF d(2)] by simp
        with d(1,2) have d': "decided (pc s d)" "a \<in> set (before d (lin_order s))" by (simp_all add: assms(8))
        show "tv R a p \<notin> writes R K d"
        proof
          assume w: "tv R a p \<in> writes R K d"
          then obtain q where "q \<in> set (positions R d)" "tv R a p = tv R d q" unfolding writes_iff by blast
          with conflicts_okD(2) [OF assms(5) d', of q] True b show False by (simp add: assms(6))
        qed
      qed (use p(1) True b in simp_all)
      with b \<open>K a = Commit\<close> show ?thesis by (simp add: assms(8))
    next
      case False
      have "\<not> writing (pc s' b)" if "b = a"
      proof
        assume "writing (pc s' b)"
        with that have "K a = Commit" by (simp add: assms(8) split: if_splits)
        moreover from locks_okD(1) [OF assms(3) cv] have "\<exists>q \<in> set (positions R a). acquires R K a q \<and> tv R a p = tv R a q"
          unfolding that assms(6) by (metis held.simps(10) in_check.simps(1) in_check_held)
        ultimately show False using False that by (simp add: writes_iff)
      qed
      then show ?thesis using old other [OF False] by (cases "b = a") (simp_all add: assms(6,8))
    qed
  qed
qed

lemma values_goto:
  assumes "values_ok R K v s" "lin_order s' = lin_order s" "mem s' = mem s" "pc s' = (pc s)(a := c)" "pc s a = d"
    and "decided c = decided d" "writing c = writing d"
  shows "values_ok R K v s'"
proof (rule values_keep [OF assms(1) _ assms(4)])
  show "replayed R K v s' = replayed R K v s" using replayed_same [of s' s R K v] assms by simp
qed (simp_all add: assms)

lemma values_ok_step:
  assumes "commit_step R K s s'" "records_ok R" "pcs_ok R K s" "locks_ok R K s" "order_ok s" "conflicts_ok R K s" "values_ok R K v s"
  shows "values_ok R K v s'"
  using assms(1)
proof cases
  case (step_acquire a p ps c m)
  note p = suffix_step [OF pcs_okD [OF assms(3) step_acquire(2), simplified]]
  have dec: "\<not> decided c \<and> \<not> writing c" using step_acquire(3) by (auto simp: bodies split: if_splits)
  then have same: "replayed R K v s' = replayed R K v s"
    using replayed_same [of s' s R K v] step_acquire(1,2) by simp
  show ?thesis
  proof (cases "m = mem s")
    case True
    then show ?thesis using dec step_acquire(1,2) by (intro values_keep [OF assms(7) same, of a c]) simp_all
  next
    case False
    with step_acquire(3) have "cv s (tv R a p) = expected_value (entry_at (R a) p)"
      "m = (mem s)(tv R a p := (mem s (tv R a p))\<lparr>current_value := TRec a\<rparr>)"
      by (auto simp: acquire_entry_def Let_def split: if_splits)
    then show ?thesis using dec step_acquire(1,2) p by (intro values_lock [OF assms(7,2) same, of a c p]) simp_all
  qed
next
  case (step_acquired a)
  have new: "a \<notin> set (lin_order s)" using order_okD(2) [OF assms(5), of a] by (simp add: step_acquired(2))
  have "writes R K a = {}" if "K a = Wait" using that by (simp add: writes_def)
  then have "replayed R K v s' = replay R K (done_in s') (lin_order s) v"
    by (simp add: replayed_def step_acquired(1) replay_append apply_writes_def)
  also have "\<dots> = replayed R K v s"
    unfolding replayed_def by (rule ext, rule replay_cong) (use new in \<open>auto simp: step_acquired(1)\<close>)
  finally show ?thesis using step_acquired(1,2)
    by (intro values_keep [OF assms(7), of s' a "if K a = Wait then Holding else Checking (positions R a)"]) simp_all
next
  case (step_checked a)
  then show ?thesis using pcs_okD [OF assms(3) step_checked(2)] by (intro values_checked [OF assms(7,2,4,5,6)]) simp_all
next
  case (step_count a p ps c m)
  have "decided c \<and> writing c" using step_count(3) by (auto simp: count_update_def Let_def split: if_splits)
  moreover have "current_value (m x) = cv s x" for x using step_count(3) by (auto simp: count_update_def Let_def split: if_splits)
  ultimately show ?thesis using step_count(1,2) replayed_same [of s' s R K v]
    by (intro values_keep [OF assms(7), of s' a c]) simp_all
next
  case (step_store a p ps)
  note pc = pcs_okD [OF assms(3) step_store(2), simplified]
  note p = suffix_step [OF conjunct1 [OF pc]]
  have "cv s (tv R a p) = TRec a" using pc by (intro locks_okD(2) [OF assms(4)]) (simp_all add: step_store(2))
  with values_okD(2) [OF assms(7) p(2)] have "replayed R K v s (tv R a p) = new_value (entry_at (R a) p)" by (simp add: step_store(2))
  then show ?thesis using step_store replayed_same [of s' s R K v] records_okD(2) [OF assms(2) p(2)]
    by (intro values_release [OF assms(7), of s' a "Writing ps" "tv R a p"]) (simp_all add: store_update_def Let_def)
next
  case (step_revert a ok p ps)
  note p = suffix_step [OF conjunct1 [OF pcs_okD [OF assms(3) step_revert(2), simplified]]]
  have same: "replayed R K v s' = replayed R K v s" using replayed_same [of s' s R K v] step_revert by simp
  show ?thesis
  proof (cases "acquires R K a p \<and> cv s (tv R a p) = TRec a")
    case True
    with values_okD(2) [OF assms(7) p(2)] have "replayed R K v s (tv R a p) = expected_value (entry_at (R a) p)" by (simp add: step_revert(2))
    then show ?thesis using step_revert True records_okD(1) [OF assms(2) p(2)]
      by (intro values_release [OF assms(7) same, of a "Reverting ok ps" "tv R a p"]) (simp_all add: revert_one_def Let_def)
  next
    case False
    then have "mem s' = mem s" using step_revert(1) by (auto simp: revert_one_def Let_def)
    then show ?thesis using step_revert same by (intro values_goto [OF assms(7), of s' a "Reverting ok ps" "Reverting ok (p # ps)"]) simp_all
  qed
next
  case (step_written a)
  have "cv s x \<noteq> TRec a" for x using locks_okD(1) [OF assms(4), of x a] by (auto simp: step_written(2))
  then show ?thesis using step_written replayed_same [of s' s R K v]
    by (intro values_keep [OF assms(7), of s' a "Finished True"]) simp_all
next
  case (step_start a)
  then show ?thesis by (intro values_goto [OF assms(7), of s' a "pc s' a" Running]) (simp_all add: fail_def)
next
  case (step_check a p ps)
  then show ?thesis by (intro values_goto [OF assms(7), of s' a "pc s' a" "Checking (p # ps)"]) (simp_all add: bodies)
next
  case (step_check_version a p ps)
  then show ?thesis by (intro values_goto [OF assms(7), of s' a "pc s' a" "CheckingVersion p ps"]) (simp_all add: bodies)
next
  case (step_reread a p ps)
  then show ?thesis by (intro values_goto [OF assms(7), of s' a "pc s' a" "Rereading p ps"]) (simp_all add: bodies)
next
  case (step_version a p ps)
  then show ?thesis by (intro values_goto [OF assms(7), of s' a "Rereading p ps" "Versioning p ps"]) simp_all
next
  case (step_release a)
  then show ?thesis by (intro values_goto [OF assms(7), of s' a "pc s' a" Holding]) simp_all
next
  case (step_exceeded a)
  then show ?thesis by (intro values_goto [OF assms(7), of s' a "pc s' a" "Checking []"]) (simp_all add: fail_def)
next
  case (step_reverted a ok)
  then show ?thesis by (intro values_goto [OF assms(7), of s' a "pc s' a" "Reverting ok []"]) simp_all
qed

section \<open>The snapshots\<close>

text \<open>
  What a record finds in the serial execution: the values it expects, once it is decided, and before that
  at the TVars it holds and those it has checked; at the others, under what the rest of the check tests.
\<close>

definition pending :: "records \<Rightarrow> kinds \<Rightarrow> (addr \<Rightarrow> closure) \<Rightarrow> commit_sys \<Rightarrow> addr \<Rightarrow> entry_pos \<Rightarrow> bool" where
  "pending R K v s c p \<longleftrightarrow> versions s c p = num_updates (mem s (tv R c p)) \<and>
    (p \<in> looked (positions R c) (pc s c) \<or>
     (\<forall>b. cv s (tv R c p) = TRec b \<longrightarrow> \<not> writing (pc s b)) \<and> replayed R K v s (tv R c p) = expected_value (entry_at (R c) p))"

definition snapshots_ok :: "records \<Rightarrow> kinds \<Rightarrow> (addr \<Rightarrow> closure) \<Rightarrow> commit_sys \<Rightarrow> bool" where
  "snapshots_ok R K v s \<longleftrightarrow>
    (\<forall>c. decided (pc s c) \<longrightarrow> (\<forall>p \<in> set (positions R c). found R K v s c p)) \<and>
    (\<forall>c. in_check (pc s c) \<longrightarrow> (\<forall>p \<in> set (positions R c).
      acquires R K c p \<or> p \<in> checked (positions R c) (pc s c) \<or> pending R K v s c p \<longrightarrow> found R K v s c p))"

lemma snapshots_okD:
  assumes "snapshots_ok R K v s" "p \<in> set (positions R c)"
  shows "decided (pc s c) \<Longrightarrow> found R K v s c p"
    "in_check (pc s c) \<Longrightarrow> acquires R K c p \<or> p \<in> checked (positions R c) (pc s c) \<or> pending R K v s c p \<Longrightarrow> found R K v s c p"
  using assms unfolding snapshots_ok_def by blast+

lemma snapshots_okI:
  assumes "\<And>c p. p \<in> set (positions R c) \<Longrightarrow> decided (pc s c) \<Longrightarrow> found R K v s c p"
    and "\<And>c p. p \<in> set (positions R c) \<Longrightarrow> in_check (pc s c) \<Longrightarrow> \<not> acquires R K c p \<Longrightarrow>
      p \<in> checked (positions R c) (pc s c) \<or> pending R K v s c p \<Longrightarrow> found R K v s c p"
    and "\<And>c p. p \<in> set (positions R c) \<Longrightarrow> in_check (pc s c) \<Longrightarrow> acquires R K c p \<Longrightarrow> found R K v s c p"
  shows "snapshots_ok R K v s"
  unfolding snapshots_ok_def using assms by blast

lemma snapshots_keep:
  assumes "snapshots_ok R K v s" "lin_order s' = lin_order s" "pc s' = (pc s)(a := c)" "decided c = decided (pc s a)"
    and "in_check c \<Longrightarrow> in_check (pc s a)"
    and "\<And>d p. p \<in> set (positions R d) \<Longrightarrow> in_check (pc s' d) \<Longrightarrow> \<not> acquires R K d p \<Longrightarrow>
      p \<in> checked (positions R d) (pc s' d) \<or> pending R K v s' d p \<Longrightarrow> p \<in> checked (positions R d) (pc s d) \<or> pending R K v s d p"
  shows "snapshots_ok R K v s'"
proof -
  have same: "found R K v s' = found R K v s" using replayed_same [of s' s R K v] assms(2-4) by simp
  have chk: "in_check (pc s' d) \<Longrightarrow> in_check (pc s d)" for d using assms(3,5) by (cases "d = a") auto
  show ?thesis
  proof (rule snapshots_okI)
    fix d p assume p: "p \<in> set (positions R d)"
    { assume "decided (pc s' d)"
      then have "decided (pc s d)" using assms(3,4) by (cases "d = a") auto
      then show "found R K v s' d p" unfolding same by (rule snapshots_okD(1) [OF assms(1) p]) }
    { assume "in_check (pc s' d)" "\<not> acquires R K d p" "p \<in> checked (positions R d) (pc s' d) \<or> pending R K v s' d p"
      from assms(6) [OF p this] snapshots_okD(2) [OF assms(1) p chk] this show "found R K v s' d p" unfolding same by blast }
    { assume "in_check (pc s' d)" "acquires R K d p"
      then show "found R K v s' d p" unfolding same using snapshots_okD(2) [OF assms(1) p chk] by blast }
  qed
qed

definition write_locked :: "commit_sys \<Rightarrow> addr \<Rightarrow> bool" where
  "write_locked s x \<longleftrightarrow> (\<exists>b. cv s x = TRec b \<and> writing (pc s b))"

lemma pending_mono:
  assumes "pending R K v s' d p" "replayed R K v s' = replayed R K v s" "versions s' d p = versions s d p"
    "num_updates (mem s' (tv R d p)) = num_updates (mem s (tv R d p))"
    "p \<in> looked (positions R d) (pc s' d) \<Longrightarrow> p \<in> looked (positions R d) (pc s d)"
    "write_locked s (tv R d p) \<Longrightarrow> write_locked s' (tv R d p)"
  shows "pending R K v s d p"
  using assms unfolding pending_def write_locked_def by auto

text \<open>A step that neither counts nor stores an update, nor decides or checks anything.\<close>

lemma snapshots_goto:
  assumes "snapshots_ok R K v s" "lin_order s' = lin_order s" "pc s' = (pc s)(a := c)" "decided c = decided (pc s a)" "\<not> in_check c"
    and "\<And>d. d \<noteq> a \<Longrightarrow> versions s' d = versions s d" "\<And>x. num_updates (mem s' x) = num_updates (mem s x)"
    and "\<And>x. write_locked s x \<Longrightarrow> write_locked s' x"
  shows "snapshots_ok R K v s'"
proof (rule snapshots_keep [OF assms(1-4)])
  fix d p assume "in_check (pc s' d)" and p: "p \<in> checked (positions R d) (pc s' d) \<or> pending R K v s' d p"
  then have "d \<noteq> a" using assms(3,5) by auto
  then have d: "pc s' d = pc s d" "versions s' d p = versions s d p" using assms(3,6) by simp_all
  show "p \<in> checked (positions R d) (pc s d) \<or> pending R K v s d p"
    using p
  proof
    assume "pending R K v s' d p"
    then have "pending R K v s d p"
      by (rule pending_mono) (use d assms(2-4,7,8) replayed_same [of s' s R K v] in simp_all)
    then show ?thesis ..
  qed (simp add: d(1))
qed (use assms(5) in simp)

lemma snapshots_pc:
  assumes "snapshots_ok R K v s" "lin_order s' = lin_order s" "mem s' = mem s" "pc s' = (pc s)(a := c)" "pc s a = d"
    "decided c = decided d" "\<not> in_check c" "\<not> writing d" "\<And>d. d \<noteq> a \<Longrightarrow> versions s' d = versions s d"
  shows "snapshots_ok R K v s'"
proof (rule snapshots_goto [OF assms(1,2,4)])
  fix x assume "write_locked s x"
  then obtain b where "cv s x = TRec b" "writing (pc s b)" unfolding write_locked_def by blast
  moreover from this assms(5,8) have "b \<noteq> a" by auto
  ultimately show "write_locked s' x" unfolding write_locked_def by (auto simp: assms(3,4))
qed (simp_all add: assms)

text \<open>Counting or storing an update changes the version that others compare with.\<close>

lemma snapshots_update:
  assumes "snapshots_ok R K v s" "lin_order s' = lin_order s" "pc s' = (pc s)(a := c)" "decided c" "decided (pc s a)" "versions s' = versions s"
    and writing: "writing (pc s a) = writing c"
    and "\<And>d p. p \<in> set (positions R d) \<Longrightarrow> in_check (pc s d) \<Longrightarrow> \<not> acquires R K d p \<Longrightarrow> tv R d p = x \<Longrightarrow>
      versions s d p < num_updates (mem s' x)"
    and "\<And>y. y \<noteq> x \<Longrightarrow> mem s' y = mem s y"
  shows "snapshots_ok R K v s'"
proof (rule snapshots_keep [OF assms(1-3)])
  have wr: "writing (pc s' b) = writing (pc s b)" for b using assms(3) writing by simp
  have no: "\<not> in_check c" using assms(4) by (cases c) auto
  fix d p assume d: "p \<in> set (positions R d)" "in_check (pc s' d)" "\<not> acquires R K d p"
    and p: "p \<in> checked (positions R d) (pc s' d) \<or> pending R K v s' d p"
  have "d \<noteq> a" using d(2) no assms(3) by auto
  then have pc: "pc s' d = pc s d" using assms(3) by simp
  show "p \<in> checked (positions R d) (pc s d) \<or> pending R K v s d p"
    using p
  proof
    assume pen: "pending R K v s' d p"
    have "tv R d p \<noteq> x" using assms(8) [OF d(1) _ d(3)] d(2) pc pen by (auto simp: pending_def assms(6))
    then have "mem s' (tv R d p) = mem s (tv R d p)" by (rule assms(9))
    then have "pending R K v s d p"
      by (intro pending_mono [OF pen]) (use pc assms(2-6) replayed_same [of s' s R K v] wr in \<open>simp_all add: write_locked_def\<close>)
    then show ?thesis ..
  qed (simp add: pc)
qed (use assms(4,5) in \<open>auto elim: decided.elims\<close>)

text \<open>The two reads of \<open>check_read_only\<close>.\<close>

lemma snapshots_check:
  assumes "snapshots_ok R K v s" "values_ok R K v s" "records_ok R" "pcs_ok R K s" "pc s a = Checking (p # ps)"
    "s' = s\<lparr>pc := (pc s)(a := check_entry R K a p ps (mem s))\<rparr>"
  shows "snapshots_ok R K v s'"
proof -
  note pc = pcs_okD [OF assms(4,5), simplified]
  note p = suffix_step [OF conjunct1 [OF pc]]
  have same: "replayed R K v s' = replayed R K v s"
    using replayed_same [of s' s R K v] by (simp add: assms(5,6) bodies)
  have "writing (pc s' b) = writing (pc s b)" for b by (auto simp: assms(5,6) bodies)
  then have wl: "write_locked s' x = write_locked s x" for x
    unfolding write_locked_def by (simp add: assms(6))
  show ?thesis
  proof (rule snapshots_keep [OF assms(1), of s' a "check_entry R K a p ps (mem s)"])
    fix d q assume d: "q \<in> set (positions R d)" "in_check (pc s' d)" "\<not> acquires R K d q"
      and q: "q \<in> checked (positions R d) (pc s' d) \<or> pending R K v s' d q"
    show "q \<in> checked (positions R d) (pc s d) \<or> pending R K v s d q"
    proof (cases "d = a \<and> q = p")
      case False
      have "q \<in> checked (positions R d) (pc s' d) \<Longrightarrow> q \<in> checked (positions R d) (pc s d)"
        "q \<in> looked (positions R d) (pc s' d) \<Longrightarrow> q \<in> looked (positions R d) (pc s d)"
        using False d(2) by (auto simp: assms(5,6) bodies split: if_splits)
      moreover have "pending R K v s' d q \<Longrightarrow> (q \<in> looked (positions R d) (pc s' d) \<Longrightarrow> q \<in> looked (positions R d) (pc s d)) \<Longrightarrow> pending R K v s d q"
        by (erule pending_mono) (simp_all add: same wl, simp_all add: assms(6))
      ultimately show ?thesis using q by blast
    next
      case True
      then have ro: "entry_is_read_only (entry_at (R a) p)" using d(3) by (simp add: acquires_def entry_is_update_def entry_is_read_only_def)
      have cv: "cv s (tv R a p) = expected_value (entry_at (R a) p)" and c: "check_entry R K a p ps (mem s) = CheckingVersion p ps"
        using d(2) True ro by (auto simp: assms(6) check_entry_def Let_def fail_def split: if_splits)
      have free: "\<forall>b. cv s (tv R a p) \<noteq> TRec b" using cv records_okD(1) [OF assms(3) p(2)] by simp
      have "replayed R K v s (tv R a p) = expected_value (entry_at (R a) p)" using values_okD(1) [OF assms(2) free] cv by simp
      then show ?thesis using q True free by (simp add: assms(6) c pending_def)
    qed
  qed (auto simp: assms(5,6) bodies)
qed

lemma snapshots_check_version:
  assumes "snapshots_ok R K v s" "pcs_ok R K s" "pc s a = CheckingVersion p ps"
    "s' = s\<lparr>pc := (pc s)(a := check_version R a p ps (versions s a p) (mem s))\<rparr>"
  shows "snapshots_ok R K v s'"
proof -
  note pc = pcs_okD [OF assms(2,3), simplified]
  note p = suffix_step [OF conjunct1 [OF pc]]
  have same: "replayed R K v s' = replayed R K v s"
    using replayed_same [of s' s R K v] by (simp add: assms(3,4) bodies)
  have "writing (pc s' b) = writing (pc s b)" for b by (auto simp: assms(3,4) bodies)
  then have wl: "write_locked s' x = write_locked s x" for x
    unfolding write_locked_def by (simp add: assms(4))
  show ?thesis
  proof (rule snapshots_keep [OF assms(1), of s' a "check_version R a p ps (versions s a p) (mem s)"])
    fix d q assume d: "q \<in> set (positions R d)" "in_check (pc s' d)" "\<not> acquires R K d q"
      and q: "q \<in> checked (positions R d) (pc s' d) \<or> pending R K v s' d q"
    show "q \<in> checked (positions R d) (pc s d) \<or> pending R K v s d q"
    proof (cases "d = a \<and> q = p")
      case False
      have "q \<in> checked (positions R d) (pc s' d) \<Longrightarrow> q \<in> checked (positions R d) (pc s d)"
        "q \<in> looked (positions R d) (pc s' d) \<Longrightarrow> q \<in> looked (positions R d) (pc s d)"
        using False d(2) by (auto simp: assms(3,4) bodies split: if_splits)
      moreover have "pending R K v s' d q \<Longrightarrow> (q \<in> looked (positions R d) (pc s' d) \<Longrightarrow> q \<in> looked (positions R d) (pc s d)) \<Longrightarrow> pending R K v s d q"
        by (erule pending_mono) (simp_all add: same wl, simp_all add: assms(4))
      ultimately show ?thesis using q by blast
    next
      case True
      then have "num_updates (mem s (tv R a p)) = versions s a p"
        using d(2) by (auto simp: assms(4) check_version_def fail_def split: if_splits)
      then show ?thesis using True p by (simp add: assms(3) pending_def)
    qed
  qed (auto simp: assms(3,4) bodies)
qed

lemma snapshots_acquired:
  assumes "snapshots_ok R K v s" "values_ok R K v s" "locks_ok R K s" "order_ok s" "pc s a = Acquiring []"
    "s' = s\<lparr>pc := (pc s)(a := if K a = Wait then Holding else Checking (positions R a)), lin_order := lin_order s @ [a]\<rparr>"
  shows "snapshots_ok R K v s'"
proof -
  have new: "a \<notin> set (lin_order s)" using order_okD(2) [OF assms(4), of a] by (simp add: assms(5))
  have dec: "decided (pc s' b) = decided (pc s b)" if "b \<noteq> a" for b using that by (simp add: assms(6))
  have old: "replay R K (done_in s') as v x = replay R K (done_in s) as v x" if "a \<notin> set as" for as x
  proof (rule replay_cong, intro ballI impI)
    fix b assume "b \<in> set as"
    with that have "b \<noteq> a" by blast
    then show "done_in s' b = done_in s b" by (rule dec)
  qed simp
  have L: "lin_order s' = lin_order s @ [a]" by (simp add: assms(6))
  have "\<not> decided (pc s' a) \<or> writes R K a = {}" by (simp add: assms(6) writes_def)
  then have "replayed R K v s' = replay R K (done_in s') (lin_order s) v"
    unfolding replayed_def L replay_append by (auto simp: apply_writes_def)
  then have same: "replayed R K v s' = replayed R K v s"
    using old [OF new] unfolding replayed_def by (simp add: fun_eq_iff)
  have "writing (pc s' b) = writing (pc s b)" for b by (simp add: assms(5,6))
  then have wl: "write_locked s' x = write_locked s x" for x
    unfolding write_locked_def by (simp add: assms(6))
  have found_old: "found R K v s' d p = found R K v s d p" if "d \<noteq> a" "d \<in> set (lin_order s)" for d p
  proof -
    have "before d (lin_order s') = before d (lin_order s)" using that by (simp add: assms(6) before_append)
    moreover have "a \<notin> set (before d (lin_order s))" using new in_before by blast
    ultimately show ?thesis unfolding found_def using old by simp
  qed
  have found_new: "found R K v s' a p \<longleftrightarrow> replayed R K v s (tv R a p) = expected_value (entry_at (R a) p)" for p
    unfolding found_def replayed_def using old [OF new] new by (simp add: assms(6) before_last)
  have acq: "found R K v s' a p" if "p \<in> set (positions R a)" "acquires R K a p" for p
  proof -
    have "cv s (tv R a p) = TRec a" using that by (intro locks_okD(2) [OF assms(3)]) (simp_all add: assms(5))
    then show ?thesis unfolding found_new using values_okD(2) [OF assms(2) that(1)] by (simp add: assms(5))
  qed
  show ?thesis
  proof (rule snapshots_okI)
    fix d p assume p: "p \<in> set (positions R d)"
    { assume d: "decided (pc s' d)"
      show "found R K v s' d p"
      proof (cases "d = a")
        case True
        then show ?thesis using d acq [of p] p by (auto simp: assms(6) acquires_def split: if_splits)
      next
        case False
        then show ?thesis using d snapshots_okD(1) [OF assms(1) p] order_okD(4) [OF assms(4), of d] found_old by (simp add: dec)
      qed }
    { assume d: "in_check (pc s' d)" "\<not> acquires R K d p" and q: "p \<in> checked (positions R d) (pc s' d) \<or> pending R K v s' d p"
      show "found R K v s' d p"
      proof (cases "d = a")
        case True
        then show ?thesis using q unfolding True found_new by (auto simp: pending_def same, auto simp: assms(6) split: if_splits)
      next
        case False
        have "pending R K v s d p" if "pending R K v s' d p"
          using that by (rule pending_mono) (simp_all add: same wl, simp_all add: assms(6) False)
        then show ?thesis using q snapshots_okD(2) [OF assms(1) p] d(1) order_okD(3) [OF assms(4), of d] found_old False
          by (auto simp: assms(6))
      qed }
    { assume d: "in_check (pc s' d)" "acquires R K d p"
      show "found R K v s' d p"
      proof (cases "d = a")
        case False
        then show ?thesis using d snapshots_okD(2) [OF assms(1) p] order_okD(3) [OF assms(4), of d] found_old by (simp add: assms(6))
      qed (use acq d p in simp) }
  qed
qed

lemma snapshots_checked:
  assumes "snapshots_ok R K v s" "locks_ok R K s" "order_ok s" "conflicts_ok R K s" "pc s a = Checking []" "K a \<noteq> Wait"
    "s' = s\<lparr>pc := (pc s)(a := if K a = Commit then Writing (positions R a) else Reverting True (positions R a))\<rparr>"
  shows "snapshots_ok R K v s'"
proof -
  have wr: "cv s x = TRec a" if "x \<in> writes R K a" for x using that by (intro writes_locked [OF assms(2)]) (simp_all add: assms(5))
  have found_same: "found R K v s' d p = found R K v s d p" if "tv R d p \<in> writes R K a \<Longrightarrow> a \<notin> set (before d (lin_order s))" for d p
  proof -
    have "replay R K (done_in s') (before d (lin_order s)) v (tv R d p) = replay R K (done_in s) (before d (lin_order s)) v (tv R d p)"
      by (rule replay_cong) (use that in \<open>auto simp: assms(7)\<close>)
    then show ?thesis by (simp add: found_def assms(7))
  qed
  show ?thesis
  proof (rule snapshots_okI)
    fix d p assume p: "p \<in> set (positions R d)"
    { assume d: "decided (pc s' d)"
      show "found R K v s' d p"
      proof (cases "d = a")
        case True
        have "a \<notin> set (before a (lin_order s))" using in_before by blast
        then show ?thesis unfolding True using found_same [of a p] snapshots_okD(2) [OF assms(1), of p a] p True by (simp add: assms(5))
      next
        case False
        then have old: "decided (pc s d)" using d by (simp add: assms(7))
        have "tv R d p \<in> writes R K a \<Longrightarrow> a \<notin> set (before d (lin_order s))"
          using conflicts_okD(2) [OF assms(4) old _ _ p, of a] by (auto simp: assms(5))
        from found_same [OF this] show ?thesis using snapshots_okD(1) [OF assms(1) p old] by simp
      qed }
    { assume d: "in_check (pc s' d)" "acquires R K d p"
      then have "d \<noteq> a" by (auto simp: assms(7) split: if_splits)
      then have chk: "in_check (pc s d)" using d(1) by (simp add: assms(7))
      have "cv s (tv R d p) = TRec d" by (rule locks_okD(2) [OF assms(2) _ _ d(2)]) (use in_check_held [OF chk] p in simp_all)
      with wr \<open>d \<noteq> a\<close> have "tv R d p \<notin> writes R K a" by fastforce
      then show "found R K v s' d p" using found_same [of d p] snapshots_okD(2) [OF assms(1) p chk] d(2) by blast }
    { assume d: "in_check (pc s' d)" "\<not> acquires R K d p" and q: "p \<in> checked (positions R d) (pc s' d) \<or> pending R K v s' d p"
      have "d \<noteq> a" using d(1) by (auto simp: assms(7) split: if_splits)
      then have pc: "pc s' d = pc s d" by (simp add: assms(7))
      have look: "p \<in> looked (positions R d) (pc s d)" if "p \<in> checked (positions R d) (pc s d)"
        using that by (cases "(positions R d, pc s d)" rule: checked.cases) auto
      have apart: "tv R d p \<in> writes R K a \<Longrightarrow> a \<notin> set (before d (lin_order s))" if "p \<in> looked (positions R d) (pc s d)"
        using conflicts_okD(1) [OF assms(4) that d(2), of a] by (auto simp: assms(5))
      show "found R K v s' d p"
      proof (cases "p \<in> looked (positions R d) (pc s d)")
        case True
        have "p \<in> checked (positions R d) (pc s d) \<or> pending R K v s d p"
          using q True by (auto simp: pc pending_def, auto simp: assms(7))
        then show ?thesis using found_same [OF apart [OF True]] snapshots_okD(2) [OF assms(1) p] d(1) pc by simp
      next
        case False
        with q look have pen: "pending R K v s' d p" by (auto simp: pc)
        have "tv R d p \<notin> writes R K a"
        proof
          assume w: "tv R d p \<in> writes R K a"
          then have "K a = Commit" by (simp add: writes_iff)
          with pen wr [OF w] False show False by (auto simp: pending_def pc, auto simp: assms(7))
        qed
        moreover have "replayed R K v s' (tv R d p) = replayed R K v s (tv R d p)"
          by (rule replayed_other [where a = a and c = "pc s' a"]) (use calculation in \<open>simp_all add: assms(7)\<close>)
        moreover have "\<not> writing (pc s b)" if "cv s (tv R d p) = TRec b" for b
        proof (cases "b = a")
          case False
          then show ?thesis using pen that \<open>p \<notin> looked _ _\<close> by (auto simp: pending_def pc, auto simp: assms(7))
        qed (simp add: assms(5))
        ultimately have "pending R K v s d p" using pen False by (auto simp: pending_def pc, auto simp: assms(7))
        then show ?thesis using found_same [of d p] \<open>tv R d p \<notin> writes R K a\<close> snapshots_okD(2) [OF assms(1) p] d(1) pc by simp
      qed }
  qed
qed

lemma snapshots_ok_step:
  assumes "commit_step R K s s'" "records_ok R" "pcs_ok R K s" "locks_ok R K s" "versions_ok R K s" "order_ok s" "conflicts_ok R K s"
    "values_ok R K v s" "snapshots_ok R K v s"
  shows "snapshots_ok R K v s'"
  using assms(1)
proof cases
  case (step_acquire a p ps c m)
  note p = suffix_step [OF pcs_okD [OF assms(3) step_acquire(2), simplified]]
  have c: "\<not> decided c \<and> \<not> in_check c" using step_acquire(3) by (auto simp: bodies split: if_splits)
  have m: "current_value (m x) = cv s x \<or> cv s x = expected_value (entry_at (R a) p) \<and> x = tv R a p" "num_updates (m x) = num_updates (mem s x)" for x
    using step_acquire(3) by (auto simp: acquire_entry_def Let_def split: if_splits)
  show ?thesis
  proof (rule snapshots_goto [OF assms(9), of s' a c])
    fix x assume "write_locked s x"
    then obtain b where b: "cv s x = TRec b" "writing (pc s b)" unfolding write_locked_def by blast
    with m(1) [of x] records_okD(1) [OF assms(2) p(2), of b] have "current_value (m x) = TRec b" by metis
    moreover have "b \<noteq> a" using b(2) by (auto simp: step_acquire(2))
    ultimately show "write_locked s' x" unfolding write_locked_def using b(2) by (auto simp: step_acquire(1))
  qed (use c m in \<open>simp_all add: step_acquire(1,2)\<close>)
next
  case (step_acquired a)
  then show ?thesis by (intro snapshots_acquired [OF assms(9,8,4,6)])
next
  case (step_check a p ps)
  then show ?thesis by (intro snapshots_check [OF assms(9,8,2,3)])
next
  case (step_check_version a p ps)
  then show ?thesis by (intro snapshots_check_version [OF assms(9,3)])
next
  case (step_checked a)
  then show ?thesis using pcs_okD [OF assms(3) step_checked(2)] by (intro snapshots_checked [OF assms(9,4,6,7)]) simp_all
next
  case (step_count a p ps c m)
  have c: "decided c \<and> writing c" using step_count(3) by (auto simp: count_update_def Let_def split: if_splits)
  show ?thesis
  proof (cases "m = mem s")
    case True
    show ?thesis
      by (rule snapshots_keep [OF assms(9), of s' a c])
        (use c True replayed_same [of s' s R K v] in \<open>auto simp: step_count(1,2) pending_def elim: decided.elims split: if_splits\<close>)
  next
    case False
    then have m: "m = (mem s)(tv R a p := (mem s (tv R a p))\<lparr>num_updates := num_updates (mem s (tv R a p)) + 1\<rparr>)"
      using step_count(3) by (auto simp: count_update_def Let_def split: if_splits)
    show ?thesis
    proof (rule snapshots_update [OF assms(9), of s' a c "tv R a p"])
      fix d q assume q: "q \<in> set (positions R d)" "in_check (pc s d)" "\<not> acquires R K d q" "tv R d q = tv R a p"
      have "q \<in> versioned (positions R d) (pc s d)" using q(1,2) by (cases "pc s d") auto
      from versions_okD(1) [OF assms(5) q(3) this] show "versions s d q < num_updates (mem s' (tv R a p))"
        by (simp add: step_count(1) m q(4))
    qed (use c in \<open>simp_all add: step_count(1,2) m\<close>)
  qed
next
  case (step_store a p ps)
  show ?thesis
  proof (rule snapshots_update [OF assms(9), of s' a "Writing ps" "tv R a p"])
    fix d q assume q: "q \<in> set (positions R d)" "in_check (pc s d)" "\<not> acquires R K d q" "tv R d q = tv R a p"
    have "q \<in> reread (positions R d) (pc s d)" using q(1,2) by (cases "pc s d") auto
    from versions_okD(2) [OF assms(5) q(3) this step_store(2)] q(4) show "versions s d q < num_updates (mem s' (tv R a p))"
      by (simp add: step_store(1) store_update_def Let_def)
  qed (simp_all add: step_store store_update_def Let_def)
next
  case (step_revert a ok p ps)
  have m: "cv s' x = cv s x \<or> cv s x = TRec a" "num_updates (mem s' x) = num_updates (mem s x)" for x
    by (auto simp: step_revert(1) revert_one_def Let_def)
  show ?thesis
  proof (rule snapshots_goto [OF assms(9), of s' a "Reverting ok ps"])
    fix x assume "write_locked s x"
    then obtain b where b: "cv s x = TRec b" "writing (pc s b)" unfolding write_locked_def by blast
    moreover from this have "b \<noteq> a" by (auto simp: step_revert(2))
    ultimately show "write_locked s' x" using m(1) [of x] unfolding write_locked_def by (auto simp: step_revert(1))
  qed (use m in \<open>simp_all add: step_revert\<close>)
next
  case (step_written a)
  show ?thesis
  proof (rule snapshots_goto [OF assms(9), of s' a "Finished True"])
    fix x assume "write_locked s x"
    then obtain b where b: "cv s x = TRec b" "writing (pc s b)" unfolding write_locked_def by blast
    moreover from this have "b \<noteq> a" using locks_okD(1) [OF assms(4) b(1)] by (auto simp: step_written(2))
    ultimately show "write_locked s' x" unfolding write_locked_def by (auto simp: step_written(1))
  qed (simp_all add: step_written)
next
  case (step_start a)
  then show ?thesis by (intro snapshots_pc [OF assms(9), of s' a "pc s' a" Running]) (simp_all add: fail_def)
next
  case (step_version a p ps)
  then show ?thesis by (intro snapshots_pc [OF assms(9), of s' a "Rereading p ps" "Versioning p ps"]) simp_all
next
  case (step_reread a p ps)
  then show ?thesis by (intro snapshots_pc [OF assms(9), of s' a "pc s' a" "Rereading p ps"]) (simp_all add: bodies)
next
  case (step_release a)
  then show ?thesis by (intro snapshots_pc [OF assms(9), of s' a "pc s' a" Holding]) simp_all
next
  case (step_exceeded a)
  then show ?thesis by (intro snapshots_pc [OF assms(9), of s' a "pc s' a" "Checking []"]) (simp_all add: fail_def)
next
  case (step_reverted a ok)
  then show ?thesis by (intro snapshots_pc [OF assms(9), of s' a "pc s' a" "Reverting ok []"]) simp_all
qed

section \<open>Serializability\<close>

definition commits_ok :: "records \<Rightarrow> kinds \<Rightarrow> (addr \<Rightarrow> closure) \<Rightarrow> commit_sys \<Rightarrow> bool" where
  "commits_ok R K v s \<longleftrightarrow> pcs_ok R K s \<and> locks_ok R K s \<and> versions_ok R K s \<and> order_ok s \<and> conflicts_ok R K s \<and>
    values_ok R K v s \<and> snapshots_ok R K v s"

lemma commits_ok_step: "commit_step R K s s' \<Longrightarrow> records_ok R \<Longrightarrow> commits_ok R K v s \<Longrightarrow> commits_ok R K v s'"
  unfolding commits_ok_def
  by (elim conjE, intro conjI; (rule pcs_ok_step locks_ok_step versions_ok_step order_ok_step conflicts_ok_step values_ok_step
    snapshots_ok_step; assumption))

lemma commits_ok_init:
  assumes "\<And>x b. current_value (m x) \<noteq> TRec b"
  shows "commits_ok R K (\<lambda>x. current_value (m x)) (commit_init m w)"
  using assms unfolding commits_ok_def commit_init_def
  by (simp add: pcs_ok_def locks_ok_def versions_ok_def order_ok_def conflicts_ok_def values_ok_def snapshots_ok_def replayed_def)

lemma commits_ok_run: "commit_run R K s s' \<Longrightarrow> records_ok R \<Longrightarrow> commits_ok R K v s \<Longrightarrow> commits_ok R K v s'"
  by (induction rule: commit_run.induct) (auto intro: commits_ok_step)

lemma commits_ok_serial:
  assumes "commits_ok R K v s"
  shows "serial R K (done_in s) (lin_order s) v" "distinct (lin_order s)" "decided (pc s a) \<Longrightarrow> a \<in> set (lin_order s)"
    "\<forall>b. cv s x \<noteq> TRec b \<Longrightarrow> cv s x = replay R K (done_in s) (lin_order s) v x"
proof -
  from assms have ok: "order_ok s" "values_ok R K v s" "snapshots_ok R K v s" by (simp_all add: commits_ok_def)
  show "distinct (lin_order s)" "decided (pc s a) \<Longrightarrow> a \<in> set (lin_order s)" using order_okD(1,4) [OF ok(1)] by auto
  show "serial R K (done_in s) (lin_order s) v"
    by (rule serial_before) (use order_okD(1) [OF ok(1)] snapshots_okD(1) [OF ok(3)] in \<open>auto simp: found_def\<close>)
  show "\<forall>b. cv s x \<noteq> TRec b \<Longrightarrow> cv s x = replay R K (done_in s) (lin_order s) v x"
    using values_okD(1) [OF ok(2)] by (simp add: replayed_def)
qed

text \<open>The order only grows, so that records which commit one after the other are ordered so.\<close>

lemma lin_order_step: "commit_step R K s s' \<Longrightarrow> \<exists>as. lin_order s' = lin_order s @ as"
  by (cases rule: commit_step.cases) auto

lemma lin_order_run: "commit_run R K s s' \<Longrightarrow> \<exists>as. lin_order s' = lin_order s @ as"
proof (induction rule: commit_run.induct)
  case (run_step s s' s'')
  from run_step.IH lin_order_step [OF run_step.hyps(2)] show ?case by auto
qed simp

section \<open>Progress\<close>

text \<open>How many steps a record with \<open>n\<close> entries has still to make at most.\<close>

fun work :: "nat \<Rightarrow> commit_pc \<Rightarrow> nat" where
  "work n Running = 7 * n + 4"
| "work n (Acquiring ps) = 3 * length ps + 4 * n + 3"
| "work n (Versioning p ps) = 3 * length ps + 4 * n + 5"
| "work n (Rereading p ps) = 3 * length ps + 4 * n + 4"
| "work n Holding = n + 2"
| "work n (Checking ps) = 2 * length ps + 2 * n + 2"
| "work n (CheckingVersion p ps) = 2 * length ps + 2 * n + 3"
| "work n (Writing ps) = 2 * length ps + 1"
| "work n (Unlocking p ps) = 2 * length ps + 2"
| "work n (Reverting ok ps) = length ps + 1"
| "work n (Finished ok) = 0"

abbreviation entries_left :: "records \<Rightarrow> commit_sys \<Rightarrow> addr \<Rightarrow> nat" where
  "entries_left R s a \<equiv> work (length (positions R a)) (pc s a)"

lemma work_step:
  assumes "commit_step R K s s'"
  shows "\<exists>a. entries_left R s' a < entries_left R s a \<and> (\<forall>b. b \<noteq> a \<longrightarrow> pc s' b = pc s b)"
  using assms
proof cases
qed (rule exI, rule conjI; fastforce simp: bodies split: if_splits)+

text \<open>The next step of one record, but for \<open>step_exceeded\<close>.\<close>

definition advance :: "records \<Rightarrow> kinds \<Rightarrow> addr \<Rightarrow> commit_sys \<Rightarrow> commit_sys" where
  "advance R K a s =
    (let goto = (\<lambda>c s. s\<lparr>pc := (pc s)(a := c)\<rparr>)
     in case pc s a of
       Running \<Rightarrow> goto (if t_state (R a) \<noteq> TREC_CONDEMNED then Acquiring (positions R a) else fail R a) s
     | Acquiring [] \<Rightarrow> (goto (if K a = Wait then Holding else Checking (positions R a)) s)\<lparr>lin_order := lin_order s @ [a]\<rparr>
     | Acquiring (p # ps) \<Rightarrow> (case acquire_entry R K a p ps (mem s) of (c, m) \<Rightarrow> goto c (s\<lparr>mem := m\<rparr>))
     | Versioning p ps \<Rightarrow>
         goto (Rereading p ps) (s\<lparr>versions := (versions s)(a := (versions s a)(p := num_updates (mem s (tv R a p))))\<rparr>)
     | Rereading p ps \<Rightarrow> goto (reread_entry R a p ps (mem s)) s
     | Holding \<Rightarrow> goto (Reverting True (positions R a)) s
     | Checking [] \<Rightarrow> goto (if K a = Commit then Writing (positions R a) else Reverting True (positions R a)) s
     | Checking (p # ps) \<Rightarrow> goto (check_entry R K a p ps (mem s)) s
     | CheckingVersion p ps \<Rightarrow> goto (check_version R a p ps (versions s a p) (mem s)) s
     | Writing [] \<Rightarrow> goto (Finished True) s
     | Writing (p # ps) \<Rightarrow> (case count_update R a p ps (mem s) of (c, m) \<Rightarrow> goto c (s\<lparr>mem := m\<rparr>))
     | Unlocking p ps \<Rightarrow> goto (Writing ps) (s\<lparr>mem := store_update R a p (mem s)\<rparr>)
     | Reverting ok [] \<Rightarrow> goto (Finished ok) s
     | Reverting ok (p # ps) \<Rightarrow> goto (Reverting ok ps) (s\<lparr>mem := revert_one R K a p (mem s)\<rparr>)
     | Finished ok \<Rightarrow> s)"

lemma advance_step:
  assumes "\<And>ok. pc s a \<noteq> Finished ok"
  shows "commit_step R K s (advance R K a s)" "pc (advance R K a s) a \<noteq> pc s a"
proof -
  show "commit_step R K s (advance R K a s)"
    using assms unfolding advance_def Let_def
    by (auto split: commit_pc.split list.split prod.split split del: if_split intro: commit_step.intros)
  show "pc (advance R K a s) a \<noteq> pc s a"
    using assms unfolding advance_def Let_def
    by (auto split: commit_pc.split list.split prod.split simp: bodies split: if_splits)
qed

lemma step_possible:
  assumes "\<And>ok. pc s a \<noteq> Finished ok"
  shows "\<exists>s'. commit_step R K s s' \<and> entries_left R s' a < entries_left R s a \<and> (\<forall>b. b \<noteq> a \<longrightarrow> pc s' b = pc s b)"
  using advance_step [OF assms] work_step [OF advance_step(1) [OF assms], of R K] by metis

lemma advance_run: "commit_run R K s s' \<Longrightarrow> (\<And>ok. pc s' a \<noteq> Finished ok) \<Longrightarrow> commit_run R K s (advance R K a s')"
  by (rule run_step, assumption, rule advance_step(1))

text \<open>C1 Serializability of commits. However the commits, nested commits and waits of any records interleave,
  there is an order of those that have been decided in favour in which, run one after the other on the initial
  values, each finds all the values it has read, and which gives every unlocked TVar its value; a record that
  is decided before another starts comes first; and a record that has finished holds no lock.\<close>

theorem commits_serializable:
  assumes "records_ok R" "\<forall>x b. current_value (m x) \<noteq> TRec b" "commit_run R K (commit_init m w) s" "commit_run R K s s'"
  shows "serial R K (done_in s') (lin_order s') (current_value \<circ> m) \<and> distinct (lin_order s') \<and>
    {a. decided (pc s' a)} \<subseteq> set (lin_order s') \<and>
    (\<forall>x. (\<exists>b. cv s' x = TRec b) \<or> cv s' x = replay R K (done_in s') (lin_order s') (current_value \<circ> m) x) \<and>
    (\<forall>a b. decided (pc s a) \<longrightarrow> early (pc s b) \<longrightarrow> decided (pc s' b) \<longrightarrow> a \<in> set (before b (lin_order s'))) \<and>
    (\<forall>a ok x. pc s' a = Finished ok \<longrightarrow> cv s' x \<noteq> TRec a)"
proof -
  have "commits_ok R K (\<lambda>x. current_value (m x)) (commit_init m w)" using assms(2) by (intro commits_ok_init) simp
  from commits_ok_run [OF assms(3,1) this] have ok: "commits_ok R K (current_value \<circ> m) s" by (simp add: comp_def)
  note ok' = commits_ok_run [OF assms(4,1) ok]
  have "a \<in> set (before b (lin_order s'))" if ab: "decided (pc s a)" "early (pc s b)" "decided (pc s' b)" for a b
  proof -
    obtain as where as: "lin_order s' = lin_order s @ as" using lin_order_run [OF assms(4)] by blast
    have "b \<notin> set (lin_order s)" using order_okD(2) [of s b] ok ab(2) by (simp add: commits_ok_def)
    moreover have "a \<in> set (lin_order s)" using commits_ok_serial(3) [OF ok ab(1)] .
    ultimately show ?thesis by (auto simp: before_def as takeWhile_append)
  qed
  moreover have "cv s' x \<noteq> TRec a" if "pc s' a = Finished ok" for a ok x
    using locks_okD(1) [of R K s' x a] ok' that by (auto simp: commits_ok_def)
  moreover have "{a. decided (pc s' a)} \<subseteq> set (lin_order s')" using commits_ok_serial(3) [OF ok'] by blast
  ultimately show ?thesis using commits_ok_serial(1,2,4) [OF ok'] by metis
qed

text \<open>C26 Commits are wait-free: every step is made by one record, which comes closer to its end, so that a record
  with \<open>n\<close> entries makes at most \<open>7 n + 4\<close> steps whatever the others do; and a record that has not finished
  can always make a step, it never waits for a lock.\<close>

theorem commits_wait_free:
  "(commit_step R K s s' \<longrightarrow> (\<exists>a. entries_left R s' a < entries_left R s a \<and> (\<forall>b. b \<noteq> a \<longrightarrow> pc s' b = pc s b))) \<and>
   ((\<forall>ok. pc s a \<noteq> Finished ok) \<longrightarrow>
     (\<exists>s''. commit_step R K s s'' \<and> entries_left R s'' a < entries_left R s a \<and> (\<forall>b. b \<noteq> a \<longrightarrow> pc s'' b = pc s b))) \<and>
   entries_left R (commit_init m w) a = 7 * length (positions R a) + 4"
  using work_step [of R K s s'] step_possible [of s a R K] by (simp add: commit_init_def)

section \<open>An example\<close>

text \<open>
  Record 7 changes TVar 5 from 20 to 30, and record 8 reads TVar 5 and changes TVar 6 from 20 to 40; record 8
  has checked its read of TVar 5 when record 7 starts, and makes its update after record 7 has finished.
\<close>

definition example_entry :: "addr \<Rightarrow> closure \<Rightarrow> trec_entry" where
  "example_entry x n = \<lparr>e_tvar = x, expected_value = Value 20, new_value = n, e_num_updates = 0\<rparr>"

definition example_records :: records where
  "example_records a = \<lparr>enclosing_trec = 0,
    current_chunk = \<lparr>next_entry_idx = (if a = 7 then 1 else if a = 8 then 2 else 0),
      entries = (\<lambda>i. if a = 7 then example_entry 5 (Value 30) else if i = 0 then example_entry 5 (Value 20) else example_entry 6 (Value 40))\<rparr>,
    prev_chunks = [], t_state = TREC_ACTIVE\<rparr>"

definition example_tvar :: tvar where
  "example_tvar = \<lparr>current_value = Value 20, first_watch_queue_entry = 0, num_updates = 0\<rparr>"

definition example_start :: commit_sys where
  "example_start = commit_init (\<lambda>_. example_tvar) (\<lambda>_ _. 0)"

definition example_middle :: commit_sys where
  "example_middle = fold (advance example_records (\<lambda>_. Commit)) [8, 8, 8, 8, 8, 8, 8, 8, 8] example_start"

definition example_end :: commit_sys where
  "example_end = fold (advance example_records (\<lambda>_. Commit)) [7, 7, 7, 7, 7, 7, 7, 7, 8, 8, 8, 8, 8] example_middle"

lemma example_records_ok: "records_ok example_records"
proof -
  have pos: "positions example_records a = (if a = 7 then [(0, 0)] else if a = 8 then [(0, 0), (0, 1)] else [])" for a
    by (simp add: entry_positions_def example_records_def upt_rec)
  have "trec_ok (example_records a)" for a
    by (simp add: trec_ok_def trec_entries_def pos, simp add: example_records_def example_entry_def TREC_CHUNK_NUM_ENTRIES_def)
  then show ?thesis unfolding records_ok_def pos by (auto simp: example_records_def example_entry_def)
qed

lemma example_middle_eval:
  "pc example_middle 8 = Checking []" "pc example_middle 7 = Running" "lin_order example_middle = [8]"
  by code_simp+

lemma example_end_eval:
  "pc example_end 7 = Finished True" "pc example_end 8 = Finished True" "lin_order example_end = [8, 7]"
  "cv example_end 5 = Value 30" "cv example_end 6 = Value 40"
  by code_simp+

text \<open>Advancing records that have not finished.\<close>

fun all_unfinished :: "records \<Rightarrow> kinds \<Rightarrow> addr list \<Rightarrow> commit_sys \<Rightarrow> bool" where
  "all_unfinished R K [] s = True"
| "all_unfinished R K (a # as) s \<longleftrightarrow> (case pc s a of Finished _ \<Rightarrow> False | _ \<Rightarrow> all_unfinished R K as (advance R K a s))"

lemma run_advances: "all_unfinished R K as s' \<Longrightarrow> commit_run R K s s' \<Longrightarrow> commit_run R K s (fold (advance R K) as s')"
proof (induction as arbitrary: s')
  case (Cons a as)
  from Cons.prems(1) have a: "\<And>ok. pc s' a \<noteq> Finished ok" and as: "all_unfinished R K as (advance R K a s')"
    by (auto split: commit_pc.splits)
  from Cons.IH [OF as advance_run [OF Cons.prems(2) a]] show ?case by simp
qed simp

lemma example_runs:
  "commit_run example_records (\<lambda>_. Commit) example_start example_middle"
  "commit_run example_records (\<lambda>_. Commit) example_middle example_end"
proof -
  have "all_unfinished example_records (\<lambda>_. Commit) [8, 8, 8, 8, 8, 8, 8, 8, 8] example_start" by code_simp
  from run_advances [OF this run_nil] show "commit_run example_records (\<lambda>_. Commit) example_start example_middle"
    unfolding example_middle_def .
  have "all_unfinished example_records (\<lambda>_. Commit) [7, 7, 7, 7, 7, 7, 7, 7, 8, 8, 8, 8, 8] example_middle" by code_simp
  from run_advances [OF this run_nil] show "commit_run example_records (\<lambda>_. Commit) example_middle example_end"
    unfolding example_end_def .
qed

theorem commits_serializable_witness:
  "serial example_records (\<lambda>_. Commit) (done_in example_end) [8, 7] (\<lambda>_. Value 20) \<and>
   cv example_end 5 = replay example_records (\<lambda>_. Commit) (done_in example_end) [8, 7] (\<lambda>_. Value 20) 5 \<and>
   cv example_end 5 = Value 30 \<and> cv example_end 6 = Value 40"
proof -
  have init: "example_start = commit_init (\<lambda>_. example_tvar) (\<lambda>_ _. 0)" by (simp add: example_start_def)
  have m: "current_value \<circ> (\<lambda>_ :: addr. example_tvar) = (\<lambda>_. Value 20)" by (simp add: example_tvar_def comp_def)
  have "\<forall>x b. current_value example_tvar \<noteq> TRec b" by (simp add: example_tvar_def)
  note ser = commits_serializable [OF example_records_ok _ example_runs(1) [unfolded init] example_runs(2), OF this, unfolded m example_end_eval]
  have "(\<exists>b. cv example_end 5 = TRec b) \<or>
    cv example_end 5 = replay example_records (\<lambda>_. Commit) (done_in example_end) [8, 7] (\<lambda>_. Value 20) 5"
    using ser by blast
  then have "Value 30 = replay example_records (\<lambda>_. Commit) (done_in example_end) [8, 7] (\<lambda>_. Value 20) 5"
    unfolding example_end_eval by (simp del: replay.simps)
  with ser show ?thesis unfolding example_end_eval by blast
qed

theorem commits_wait_free_witness:
  "(\<exists>s'. commit_step example_records (\<lambda>_. Commit) example_middle s' \<and>
      entries_left example_records s' 8 < entries_left example_records example_middle 8) \<and>
   entries_left example_records example_start 8 = 18"
proof -
  have "length (positions example_records 8) = 2" by (simp add: example_records_def entry_positions_def)
  then show ?thesis
    using commits_wait_free [of example_records "\<lambda>_. Commit" example_middle example_middle 8 "\<lambda>_. example_tvar" "\<lambda>_ _. 0"] example_middle_eval(1)
    unfolding example_start_def by auto
qed

end
