(* ===== verification/BlockAlloc.thy ===== *)
theory BlockAlloc
  imports RTS_Prelude "HOL-Library.Log_Nat" "HOL-Library.Multiset"
begin

text \<open>
  The block allocator (\<open>rts/sm/BlockAlloc.c\<close>, the types and macros in \<open>rts/include/rts/storage/Block.h\<close>):
  groups of adjacent blocks inside megablocks, with a free list for each power of two and coalescing of
  neighbours, and groups of adjacent megablocks, with a free list sorted by address. Addresses are numbers
  of bytes, 0 is \<open>NULL\<close>; a block descriptor lies at the start of its megablock. The megablocks come from
  \<open>getMBlocks\<close> of \<open>rts/sm/MBlock.c\<close> or the operating system: the address it returns when it is called is
  an argument. \<open>None\<close> is a call of \<open>barf\<close>, or a loop along a cyclic list. The sizes are below the width
  of the field \<open>blocks\<close>, so that no arithmetic wraps around. Filling freed memory, statistics output and the
  annotations of benign races are left out.
\<close>

section \<open>Blocks and megablocks\<close>

definition BLOCK_SIZE :: nat where "BLOCK_SIZE = 2 ^ 12"
definition MBLOCK_SIZE :: nat where "MBLOCK_SIZE = 2 ^ 20"
definition BDESCR_SIZE :: nat where "BDESCR_SIZE = 64"

definition BLOCK_ROUND_UP :: "nat \<Rightarrow> nat" where
  "BLOCK_ROUND_UP p = (p + BLOCK_SIZE - 1) div BLOCK_SIZE * BLOCK_SIZE"

definition MBLOCK_ROUND_UP :: "nat \<Rightarrow> nat" where
  "MBLOCK_ROUND_UP p = (p + MBLOCK_SIZE - 1) div MBLOCK_SIZE * MBLOCK_SIZE"

definition MBLOCK_ROUND_DOWN :: "nat \<Rightarrow> nat" where
  "MBLOCK_ROUND_DOWN p = p div MBLOCK_SIZE * MBLOCK_SIZE"

definition FIRST_BLOCK_OFF :: nat where
  "FIRST_BLOCK_OFF = BLOCK_ROUND_UP (BDESCR_SIZE * (MBLOCK_SIZE div BLOCK_SIZE))"

definition FIRST_BLOCK :: "nat \<Rightarrow> nat" where "FIRST_BLOCK m = FIRST_BLOCK_OFF + m"
definition LAST_BLOCK :: "nat \<Rightarrow> nat" where "LAST_BLOCK m = MBLOCK_SIZE - BLOCK_SIZE + m"

definition FIRST_BDESCR :: "nat \<Rightarrow> nat" where
  "FIRST_BDESCR m = FIRST_BLOCK_OFF div (BLOCK_SIZE div BDESCR_SIZE) + m"

definition LAST_BDESCR :: "nat \<Rightarrow> nat" where
  "LAST_BDESCR m = (MBLOCK_SIZE - BLOCK_SIZE) div (BLOCK_SIZE div BDESCR_SIZE) + m"

definition BLOCKS_PER_MBLOCK :: nat where
  "BLOCKS_PER_MBLOCK = (MBLOCK_SIZE - FIRST_BLOCK_OFF) div BLOCK_SIZE"

definition MBLOCK_GROUP_BLOCKS :: "nat \<Rightarrow> nat" where
  "MBLOCK_GROUP_BLOCKS n = BLOCKS_PER_MBLOCK + (n - 1) * (MBLOCK_SIZE div BLOCK_SIZE)"

definition BLOCKS_TO_MBLOCKS :: "nat \<Rightarrow> nat" where
  "BLOCKS_TO_MBLOCKS n = 1 + MBLOCK_ROUND_UP ((n - BLOCKS_PER_MBLOCK) * BLOCK_SIZE) div MBLOCK_SIZE"

text \<open>\<open>bd + n\<close> on pointers to block descriptors.\<close>

definition bd_plus :: "nat \<Rightarrow> nat \<Rightarrow> nat" where
  "bd_plus bd n = bd + n * BDESCR_SIZE"

text \<open>The descriptor of the block that an address lies in.\<close>

definition Bdescr :: "nat \<Rightarrow> nat" where
  "Bdescr p = (p mod MBLOCK_SIZE div BLOCK_SIZE * BLOCK_SIZE) div (BLOCK_SIZE div BDESCR_SIZE) + p div MBLOCK_SIZE * MBLOCK_SIZE"

definition NUM_FREE_LISTS :: nat where "NUM_FREE_LISTS = 20 - 12"

text \<open>The value \<open>(P_)-1\<close> of the field \<open>free\<close>, which marks a free group.\<close>

definition FREE_MARK :: nat where "FREE_MARK = 2 ^ 64 - 1"

section \<open>State\<close>

record bdescr =
  bd_start :: nat
  bd_free :: nat
  bd_link :: nat
  bd_back :: nat
  bd_gen :: nat
  bd_gen_no :: nat
  bd_node :: nat
  bd_blocks :: nat

text \<open>The last component lists the calls of \<open>freeMBlocks\<close>.\<close>

record ba_state =
  bds :: "nat \<Rightarrow> bdescr"
  free_list :: "nat \<Rightarrow> nat \<Rightarrow> nat"
  free_mblock_list :: "nat \<Rightarrow> nat"
  defer_mblock_frees :: bool
  deferred_free_mblock_list :: "nat \<Rightarrow> nat"
  n_alloc_blocks :: nat
  hw_alloc_blocks :: nat
  n_alloc_blocks_by_node :: "nat \<Rightarrow> nat"
  n_numa_nodes :: nat
  mblocks_freed :: "(nat \<times> nat) list"

definition upd_bd :: "nat \<Rightarrow> (bdescr \<Rightarrow> bdescr) \<Rightarrow> ba_state \<Rightarrow> ba_state" where
  "upd_bd p f s = s\<lparr>bds := (bds s)(p := f (bds s p))\<rparr>"

abbreviation blocks_of :: "ba_state \<Rightarrow> nat \<Rightarrow> nat" where "blocks_of s p \<equiv> bd_blocks (bds s p)"
abbreviation link_of :: "ba_state \<Rightarrow> nat \<Rightarrow> nat" where "link_of s p \<equiv> bd_link (bds s p)"

definition initBlockAllocator :: "ba_state \<Rightarrow> ba_state" where
  "initBlockAllocator s = s\<lparr>free_list := (\<lambda>_ _. 0), free_mblock_list := (\<lambda>_. 0), n_alloc_blocks := 0, hw_alloc_blocks := 0,
    n_alloc_blocks_by_node := (\<lambda>_. 0)\<rparr>"

definition recordAllocatedBlocks :: "nat \<Rightarrow> nat \<Rightarrow> ba_state \<Rightarrow> ba_state" where
  "recordAllocatedBlocks node n s =
    (let s = s\<lparr>n_alloc_blocks := n_alloc_blocks s + n,
           n_alloc_blocks_by_node := (n_alloc_blocks_by_node s)(node := n_alloc_blocks_by_node s node + n)\<rparr>
     in if n > 0 \<and> n_alloc_blocks s > hw_alloc_blocks s then s\<lparr>hw_alloc_blocks := n_alloc_blocks s\<rparr> else s)"

definition recordFreedBlocks :: "nat \<Rightarrow> nat \<Rightarrow> ba_state \<Rightarrow> ba_state" where
  "recordFreedBlocks node n s =
    s\<lparr>n_alloc_blocks := n_alloc_blocks s - n,
      n_alloc_blocks_by_node := (n_alloc_blocks_by_node s)(node := n_alloc_blocks_by_node s node - n)\<rparr>"

section \<open>Doubly-linked lists\<close>

definition dbl_link_onto :: "nat \<Rightarrow> nat \<Rightarrow> nat \<Rightarrow> ba_state \<Rightarrow> ba_state" where
  "dbl_link_onto bd node lg s =
    (let s = upd_bd bd (\<lambda>b. b\<lparr>bd_link := free_list s node lg, bd_back := 0\<rparr>) s;
         s = (if free_list s node lg \<noteq> 0 then upd_bd (free_list s node lg) (\<lambda>b. b\<lparr>bd_back := bd\<rparr>) s else s)
     in s\<lparr>free_list := (free_list s)(node := (free_list s node)(lg := bd))\<rparr>)"

definition dbl_link_remove :: "nat \<Rightarrow> nat \<Rightarrow> nat \<Rightarrow> ba_state \<Rightarrow> ba_state" where
  "dbl_link_remove bd node lg s =
    (let s = (if bd_back (bds s bd) \<noteq> 0 then upd_bd (bd_back (bds s bd)) (\<lambda>b. b\<lparr>bd_link := link_of s bd\<rparr>) s
              else s\<lparr>free_list := (free_list s)(node := (free_list s node)(lg := link_of s bd))\<rparr>)
     in if link_of s bd \<noteq> 0 then upd_bd (link_of s bd) (\<lambda>b. b\<lparr>bd_back := bd_back (bds s bd)\<rparr>) s else s)"

section \<open>Groups\<close>

definition tail_of :: "ba_state \<Rightarrow> nat \<Rightarrow> nat" where
  "tail_of s bd = bd_plus bd (blocks_of s bd - 1)"

definition initGroup :: "nat \<Rightarrow> ba_state \<Rightarrow> ba_state" where
  "initGroup head s =
    (let s = upd_bd head (\<lambda>b. b\<lparr>bd_free := bd_start b, bd_link := 0\<rparr>) s
     in if blocks_of s head > 1 \<and> blocks_of s head \<le> BLOCKS_PER_MBLOCK
        then upd_bd (tail_of s head) (\<lambda>b. b\<lparr>bd_blocks := 0, bd_link := head\<rparr>) s else s)"

definition CLZW :: "nat \<Rightarrow> nat" where
  "CLZW n = 64 - floorlog 2 n"

definition log_2 :: "nat \<Rightarrow> nat" where
  "log_2 n = CLZW n XOR (8 * 8 - 1)"

definition log_2_ceil :: "nat \<Rightarrow> nat" where
  "log_2_ceil n = (let r = log_2 n in if n AND (n - 1) \<noteq> 0 then r + 1 else r)"

definition free_list_insert :: "nat \<Rightarrow> nat \<Rightarrow> ba_state \<Rightarrow> ba_state" where
  "free_list_insert node bd s = dbl_link_onto bd node (log_2 (blocks_of s bd)) s"

definition setup_tail :: "nat \<Rightarrow> ba_state \<Rightarrow> ba_state" where
  "setup_tail bd s =
    (let tail = tail_of s bd
     in if tail \<noteq> bd then upd_bd tail (\<lambda>b. b\<lparr>bd_blocks := 0, bd_free := 0, bd_link := bd\<rparr>) s else s)"

text \<open>Initialises the start of each block of a megablock.\<close>

fun init_blocks :: "nat \<Rightarrow> nat \<Rightarrow> nat \<Rightarrow> nat \<Rightarrow> ba_state \<Rightarrow> ba_state" where
  "init_blocks 0 bd block node s = s"
| "init_blocks (Suc n) bd block node s =
    init_blocks n (bd_plus bd 1) (block + BLOCK_SIZE) node (upd_bd bd (\<lambda>b. b\<lparr>bd_start := block, bd_node := node\<rparr>) s)"

definition initMBlock :: "nat \<Rightarrow> nat \<Rightarrow> ba_state \<Rightarrow> ba_state" where
  "initMBlock mblock node s =
    init_blocks ((LAST_BLOCK mblock + BLOCK_SIZE - FIRST_BLOCK mblock) div BLOCK_SIZE) (FIRST_BDESCR mblock) (FIRST_BLOCK mblock) node s"

section \<open>Freeing\<close>

definition coalesce_mblocks :: "nat \<Rightarrow> ba_state \<Rightarrow> nat \<times> ba_state" where
  "coalesce_mblocks p s =
    (let q = link_of s p
     in if q \<noteq> 0 \<and> MBLOCK_ROUND_DOWN q = MBLOCK_ROUND_DOWN p + BLOCKS_TO_MBLOCKS (blocks_of s p) * MBLOCK_SIZE
        then (p, upd_bd p (\<lambda>b. b\<lparr>bd_blocks := MBLOCK_GROUP_BLOCKS (BLOCKS_TO_MBLOCKS (bd_blocks b) + BLOCKS_TO_MBLOCKS (blocks_of s q)),
                                  bd_link := link_of s q\<rparr>) s)
        else (q, s))"

text \<open>The loop that finds the place of a group in the list, from the position \<open>bd\<close> with \<open>prev\<close> before it.\<close>

partial_function (option) find_place :: "(nat \<Rightarrow> bdescr) \<Rightarrow> nat \<Rightarrow> nat \<Rightarrow> nat \<Rightarrow> (nat \<times> nat) option" where
  "find_place m mg prev bd =
    (if bd \<noteq> 0 \<and> bd_start (m bd) < bd_start (m mg) then find_place m mg bd (bd_link (m bd)) else Some (prev, bd))"

text \<open>Inserting after \<open>prev\<close> and coalescing on both sides; the result is the group that contains the new one.\<close>

definition insert_coalesce :: "nat \<Rightarrow> nat \<Rightarrow> nat \<Rightarrow> ba_state \<Rightarrow> nat \<times> ba_state" where
  "insert_coalesce node mg prev s =
    (let (mg, s) =
       (if prev \<noteq> 0
        then coalesce_mblocks prev (upd_bd prev (\<lambda>b. b\<lparr>bd_link := mg\<rparr>) (upd_bd mg (\<lambda>b. b\<lparr>bd_link := link_of s prev\<rparr>) s))
        else (mg, (upd_bd mg (\<lambda>b. b\<lparr>bd_link := free_mblock_list s node\<rparr>) s)
                    \<lparr>free_mblock_list := (free_mblock_list s)(node := mg)\<rparr>))
     in (mg, snd (coalesce_mblocks mg s)))"

definition free_mega_group :: "nat \<Rightarrow> ba_state \<Rightarrow> ba_state option" where
  "free_mega_group mg s =
    (let node = bd_node (bds s mg)
     in if defer_mblock_frees s
        then Some ((upd_bd mg (\<lambda>b. b\<lparr>bd_link := deferred_free_mblock_list s node\<rparr>) s)
               \<lparr>deferred_free_mblock_list := (deferred_free_mblock_list s)(node := mg)\<rparr>)
        else (case find_place (bds s) mg 0 (free_mblock_list s node) of
                None \<Rightarrow> None
              | Some (prev, bd) \<Rightarrow> Some (snd (insert_coalesce node mg prev s))))"

text \<open>The two halves of the coalescing in \<open>freeGroup\<close>; the flag says that a full megablock has been freed.\<close>

definition coalesce_forwards :: "nat \<Rightarrow> nat \<Rightarrow> ba_state \<Rightarrow> bool \<times> ba_state" where
  "coalesce_forwards node p s =
    (let next = bd_plus p (blocks_of s p)
     in if next \<le> LAST_BDESCR (MBLOCK_ROUND_DOWN p) \<and> bd_free (bds s next) = FREE_MARK
        then let n = blocks_of s next;
                 s = upd_bd p (\<lambda>b. b\<lparr>bd_blocks := bd_blocks b + n\<rparr>) s;
                 s = dbl_link_remove next node (log_2 n) s
             in if blocks_of s p = BLOCKS_PER_MBLOCK then (True, s) else (False, setup_tail p s)
        else (False, s))"

definition coalesce_backwards :: "nat \<Rightarrow> nat \<Rightarrow> ba_state \<Rightarrow> bool \<times> nat \<times> ba_state" where
  "coalesce_backwards node p s =
    (if p \<noteq> FIRST_BDESCR (MBLOCK_ROUND_DOWN p)
     then let prev = p - BDESCR_SIZE;
              prev = (if blocks_of s prev = 0 then link_of s prev else prev)
          in if bd_free (bds s prev) = FREE_MARK
             then let s = dbl_link_remove prev node (log_2 (blocks_of s prev)) s;
                      s = upd_bd prev (\<lambda>b. b\<lparr>bd_blocks := bd_blocks b + blocks_of s p\<rparr>) s
                  in (blocks_of s prev \<ge> BLOCKS_PER_MBLOCK, prev, s)
             else (False, p, s)
     else (False, p, s))"

definition freeGroup :: "nat \<Rightarrow> ba_state \<Rightarrow> ba_state option" where
  "freeGroup p s =
    (let node = bd_node (bds s p);
         s = upd_bd p (\<lambda>b. b\<lparr>bd_free := FREE_MARK, bd_gen := 0, bd_gen_no := 0\<rparr>) s
     in if blocks_of s p = 0 then None
        else if blocks_of s p \<ge> BLOCKS_PER_MBLOCK
        then free_mega_group p (recordFreedBlocks node (BLOCKS_TO_MBLOCKS (blocks_of s p) * BLOCKS_PER_MBLOCK) s)
        else let s = recordFreedBlocks node (blocks_of s p) s;
                 (full, s) = coalesce_forwards node p s
             in if full then free_mega_group p s
                else let (full, p, s) = coalesce_backwards node p s
                     in if full then free_mega_group p s
                        else Some (free_list_insert node p (setup_tail p s)))"

partial_function (option) freeChain :: "nat \<Rightarrow> ba_state \<Rightarrow> ba_state option" where
  "freeChain bd s =
    (if bd \<noteq> 0
     then let next_bd = link_of s bd
          in (case freeGroup bd s of None \<Rightarrow> None | Some s \<Rightarrow> freeChain next_bd s)
     else Some s)"

section \<open>Allocation\<close>

definition split_free_block :: "nat \<Rightarrow> nat \<Rightarrow> nat \<Rightarrow> nat \<Rightarrow> ba_state \<Rightarrow> nat \<times> ba_state" where
  "split_free_block bd node n lg s =
    (let s = dbl_link_remove bd node lg s;
         fg = bd_plus bd (blocks_of s bd - n);
         s = upd_bd fg (\<lambda>b. b\<lparr>bd_blocks := n\<rparr>) s;
         s = upd_bd bd (\<lambda>b. b\<lparr>bd_blocks := bd_blocks b - n\<rparr>) s;
         s = setup_tail bd s
     in (fg, dbl_link_onto bd node (log_2 (blocks_of s bd)) s))"

definition split_block_high_no_free :: "nat \<Rightarrow> nat \<Rightarrow> ba_state \<Rightarrow> nat \<times> ba_state" where
  "split_block_high_no_free bd n s =
    (let ret = bd_plus bd (blocks_of s bd - n);
         start = bd_start (bds s bd) + (blocks_of s bd - n) * BLOCK_SIZE;
         s = upd_bd ret (\<lambda>b. b\<lparr>bd_blocks := n, bd_start := start, bd_free := start, bd_link := 0\<rparr>) s;
         s = upd_bd bd (\<lambda>b. b\<lparr>bd_blocks := bd_blocks b - n\<rparr>) s
     in (ret, setup_tail bd (setup_tail ret s)))"

definition split_block_high :: "nat \<Rightarrow> nat \<Rightarrow> ba_state \<Rightarrow> (nat \<times> ba_state) option" where
  "split_block_high bd n s =
    (let (ret, s) = split_block_high_no_free bd n s in map_option (Pair ret) (freeGroup bd s))"

definition split_block_low :: "nat \<Rightarrow> nat \<Rightarrow> ba_state \<Rightarrow> (nat \<times> ba_state) option" where
  "split_block_low bd n s =
    (let bd' = bd_plus bd n;
         start = bd_start (bds s bd) + n * BLOCK_SIZE;
         s = upd_bd bd' (\<lambda>b. b\<lparr>bd_blocks := blocks_of s bd - n, bd_start := start, bd_free := start\<rparr>) s;
         s = upd_bd bd (\<lambda>b. b\<lparr>bd_blocks := n\<rparr>) s
     in map_option (Pair bd) (freeGroup bd' (setup_tail bd (setup_tail bd' s))))"

text \<open>
  The search in a list of free megablock groups: the exact match or 0, what comes before it in the list, and
  the smallest larger group.
\<close>

partial_function (option) find_mega :: "(nat \<Rightarrow> bdescr) \<Rightarrow> nat \<Rightarrow> nat \<Rightarrow> nat \<Rightarrow> nat \<Rightarrow> (nat \<times> nat \<times> nat) option" where
  "find_mega m n bd prev best =
    (if bd = 0 then Some (0, prev, best)
     else if bd_blocks (m bd) = n then Some (bd, prev, best)
     else find_mega m n (bd_link (m bd)) bd
       (if bd_blocks (m bd) > n \<and> (best = 0 \<or> bd_blocks (m bd) < bd_blocks (m best)) then bd else best))"

text \<open>The result: the exact match, the best fit, the new head of the list, the memory.\<close>

definition alloc_mega_group_from_free_list :: "nat \<Rightarrow> nat \<Rightarrow> ba_state \<Rightarrow> (nat \<times> nat \<times> nat \<times> ba_state) option" where
  "alloc_mega_group_from_free_list head n s =
    (case find_mega (bds s) n head 0 0 of
       None \<Rightarrow> None
     | Some (bd, prev, best) \<Rightarrow>
         Some (if bd = 0 then (0, best, head, s)
               else if prev \<noteq> 0 then (bd, best, head, upd_bd prev (\<lambda>b. b\<lparr>bd_link := link_of s bd\<rparr>) s)
               else (bd, best, link_of s bd, s)))"

text \<open>The search in the lists of a node, first the deferred one while freeing is deferred.\<close>

definition find_mega_group :: "nat \<Rightarrow> nat \<Rightarrow> ba_state \<Rightarrow> (nat \<times> nat \<times> ba_state) option" where
  "find_mega_group node n s =
    (let regular = (\<lambda>s. map_option (\<lambda>(bd, best, head, s). (bd, best, s\<lparr>free_mblock_list := (free_mblock_list s)(node := head)\<rparr>))
           (alloc_mega_group_from_free_list (free_mblock_list s node) n s))
     in if defer_mblock_frees s
        then (case alloc_mega_group_from_free_list (deferred_free_mblock_list s node) n s of
                None \<Rightarrow> None
              | Some (bd, best, head, s) \<Rightarrow>
                  let s = s\<lparr>deferred_free_mblock_list := (deferred_free_mblock_list s)(node := head)\<rparr>
                  in if bd \<noteq> 0 then Some (bd, best, s)
                     else if best = 0 then regular s
                     else Some (0, best, s))
        else regular s)"

text \<open>\<open>mblock\<close>: the address that \<open>getMBlocks\<close> returns if it is called.\<close>

definition alloc_mega_group :: "nat \<Rightarrow> nat \<Rightarrow> nat \<Rightarrow> ba_state \<Rightarrow> (nat \<times> ba_state) option" where
  "alloc_mega_group mblock node mblocks s =
    (let n = MBLOCK_GROUP_BLOCKS mblocks
     in case find_mega_group node n s of
          None \<Rightarrow> None
        | Some (bd, best, s) \<Rightarrow>
            if bd \<noteq> 0 then Some (bd, s)
            else let (bd, s) =
                   (if best \<noteq> 0
                    then let best_mblocks = BLOCKS_TO_MBLOCKS (blocks_of s best);
                             bd = FIRST_BDESCR (MBLOCK_ROUND_DOWN best + (best_mblocks - mblocks) * MBLOCK_SIZE);
                             s = upd_bd best (\<lambda>b. b\<lparr>bd_blocks := MBLOCK_GROUP_BLOCKS (best_mblocks - mblocks)\<rparr>) s
                         in (bd, initMBlock (MBLOCK_ROUND_DOWN bd) node s)
                    else (FIRST_BDESCR mblock, initMBlock mblock node s))
                 in Some (bd, upd_bd bd (\<lambda>b. b\<lparr>bd_blocks := MBLOCK_GROUP_BLOCKS mblocks\<rparr>) s))"

text \<open>How many megablocks the call asks \<open>getMBlocks\<close> for; 0 if it does not call it.\<close>

definition mega_request :: "nat \<Rightarrow> nat \<Rightarrow> ba_state \<Rightarrow> nat" where
  "mega_request node mblocks s =
    (case find_mega_group node (MBLOCK_GROUP_BLOCKS mblocks) s of
       None \<Rightarrow> 0
     | Some (bd, best, s) \<Rightarrow> if bd = 0 \<and> best = 0 then mblocks else 0)"

text \<open>The first non-empty free list from \<open>lg\<close> on below a bound.\<close>

function scan_free_lists :: "nat \<Rightarrow> nat \<Rightarrow> nat \<Rightarrow> ba_state \<Rightarrow> nat" where
  "scan_free_lists node lg bound s =
    (if lg < bound \<and> free_list s node lg = 0 then scan_free_lists node (Suc lg) bound s else lg)"
  by auto

termination scan_free_lists
  by (relation "measure (\<lambda>(node, lg, bound, s). bound - lg)") auto

declare scan_free_lists.simps [simp del]

definition allocGroupOnNode :: "nat \<Rightarrow> nat \<Rightarrow> nat \<Rightarrow> ba_state \<Rightarrow> (nat \<times> ba_state) option" where
  "allocGroupOnNode mblock node n s =
    (if n = 0 then None
     else if n \<ge> BLOCKS_PER_MBLOCK then
       let mblocks = BLOCKS_TO_MBLOCKS n
       in map_option (\<lambda>(bd, s). (bd, initGroup bd s))
            (alloc_mega_group mblock node mblocks (recordAllocatedBlocks node (mblocks * BLOCKS_PER_MBLOCK) s))
     else
       let s = recordAllocatedBlocks node n s;
           lg = scan_free_lists node (log_2_ceil n) NUM_FREE_LISTS s
       in if lg = NUM_FREE_LISTS then
            (case alloc_mega_group mblock node 1 s of
               None \<Rightarrow> None
             | Some (bd, s) \<Rightarrow>
                 let s = initGroup bd (upd_bd bd (\<lambda>b. b\<lparr>bd_blocks := n\<rparr>) s);
                     rem = bd_plus bd n;
                     s = initGroup rem (upd_bd rem (\<lambda>b. b\<lparr>bd_blocks := BLOCKS_PER_MBLOCK - n\<rparr>) s);
                     s = recordAllocatedBlocks node (blocks_of s rem) s
                 in map_option (Pair bd) (freeGroup rem s))
          else
            let bd = free_list s node lg
            in if blocks_of s bd = n then Some (bd, initGroup bd (dbl_link_remove bd node lg s))
               else if blocks_of s bd > n then
                 let (bd, s) = split_free_block bd node n lg s in Some (bd, initGroup bd s)
               else None)"

definition group_request :: "nat \<Rightarrow> nat \<Rightarrow> ba_state \<Rightarrow> nat" where
  "group_request node n s =
    (if n \<ge> BLOCKS_PER_MBLOCK then mega_request node (BLOCKS_TO_MBLOCKS n) s
     else if scan_free_lists node (log_2_ceil n) NUM_FREE_LISTS s = NUM_FREE_LISTS then mega_request node 1 s else 0)"

definition nodeWithLeastBlocks :: "ba_state \<Rightarrow> nat" where
  "nodeWithLeastBlocks s =
    fst (fold (\<lambda>i (node, min_blocks).
           if n_alloc_blocks_by_node s i < min_blocks then (i, n_alloc_blocks_by_node s i) else (node, min_blocks))
         [1..<n_numa_nodes s] (0, n_alloc_blocks_by_node s 0))"

definition allocGroup :: "nat \<Rightarrow> nat \<Rightarrow> ba_state \<Rightarrow> (nat \<times> ba_state) option" where
  "allocGroup mblock n s = allocGroupOnNode mblock (nodeWithLeastBlocks s) n s"

definition allocBlock :: "nat \<Rightarrow> ba_state \<Rightarrow> (nat \<times> ba_state) option" where
  "allocBlock mblock s = allocGroup mblock 1 s"

definition allocLargeChunkOnNode :: "nat \<Rightarrow> nat \<Rightarrow> nat \<Rightarrow> nat \<Rightarrow> ba_state \<Rightarrow> (nat \<times> ba_state) option" where
  "allocLargeChunkOnNode mblock node min_n max_n s =
    (if min_n \<ge> BLOCKS_PER_MBLOCK then allocGroupOnNode mblock node max_n s
     else
       let lnmax = log_2_ceil max_n;
           lg = scan_free_lists node (log_2_ceil min_n) (min NUM_FREE_LISTS lnmax) s
       in if lg = NUM_FREE_LISTS \<or> lg = lnmax then allocGroupOnNode mblock node max_n s
          else
            let bd = free_list s node lg;
                (bd, s) = (if blocks_of s bd \<le> max_n then (bd, initGroup bd (dbl_link_remove bd node lg s))
                           else let (bd, s) = split_free_block bd node max_n lg s in (bd, initGroup bd s))
            in Some (bd, recordAllocatedBlocks node (blocks_of s bd) s))"

definition chunk_request :: "nat \<Rightarrow> nat \<Rightarrow> nat \<Rightarrow> ba_state \<Rightarrow> nat" where
  "chunk_request node min_n max_n s =
    (if min_n \<ge> BLOCKS_PER_MBLOCK then group_request node max_n s
     else
       let lnmax = log_2_ceil max_n;
           lg = scan_free_lists node (log_2_ceil min_n) (min NUM_FREE_LISTS lnmax) s
       in if lg = NUM_FREE_LISTS \<or> lg = lnmax then group_request node max_n s else 0)"

definition allocLargeChunk :: "nat \<Rightarrow> nat \<Rightarrow> nat \<Rightarrow> ba_state \<Rightarrow> (nat \<times> ba_state) option" where
  "allocLargeChunk mblock min_n max_n s = allocLargeChunkOnNode mblock (nodeWithLeastBlocks s) min_n max_n s"

text \<open>\<open>None\<close> also where an assertion fails that the rest relies on.\<close>

definition allocAlignedGroupOnNode :: "nat \<Rightarrow> nat \<Rightarrow> nat \<Rightarrow> ba_state \<Rightarrow> (nat \<times> ba_state) option" where
  "allocAlignedGroupOnNode mblock node n s =
    (let num_blocks = 2 * n - 1
     in if num_blocks \<ge> BLOCKS_PER_MBLOCK then None
        else
          let group_size = n * BLOCK_SIZE;
              max_blocks = min (num_blocks * 3) (BLOCKS_PER_MBLOCK - 1)
          in (case allocLargeChunkOnNode mblock node num_blocks max_blocks s of
                None \<Rightarrow> None
              | Some (bd, s) \<Rightarrow>
                  let num_blocks = blocks_of s bd;
                      slop_low = (if bd_start (bds s bd) mod group_size \<noteq> 0 then group_size - bd_start (bds s bd) mod group_size else 0);
                      slop_high = num_blocks * BLOCK_SIZE - group_size - slop_low;
                      slop_low_blocks = slop_low div BLOCK_SIZE;
                      slop_high_blocks = slop_high div BLOCK_SIZE
                  in (case (if slop_low_blocks \<noteq> 0 then split_block_high bd (num_blocks - slop_low_blocks) s else Some (bd, s)) of
                        None \<Rightarrow> None
                      | Some (bd, s) \<Rightarrow> if slop_high_blocks \<noteq> 0 then split_block_low bd n s else Some (bd, s))))"

definition aligned_request :: "nat \<Rightarrow> nat \<Rightarrow> ba_state \<Rightarrow> nat" where
  "aligned_request node n s =
    (let num_blocks = 2 * n - 1
     in if num_blocks \<ge> BLOCKS_PER_MBLOCK then 0
        else chunk_request node num_blocks (min (num_blocks * 3) (BLOCKS_PER_MBLOCK - 1)) s)"

text \<open>Chaining the aligned groups of a megablock.\<close>

partial_function (option) chain_chunks :: "nat \<Rightarrow> nat \<Rightarrow> nat \<Rightarrow> nat \<Rightarrow> ba_state \<Rightarrow> (nat \<times> ba_state) option" where
  "chain_chunks bd n prev chunk s =
    (if blocks_of s bd > n
     then let (chunk, s) = split_block_high_no_free bd n s
          in chain_chunks bd n chunk chunk (upd_bd chunk (\<lambda>b. b\<lparr>bd_link := prev\<rparr>) s)
     else Some (chunk, s))"

definition allocMBlockAlignedGroupOnNode :: "nat \<Rightarrow> nat \<Rightarrow> nat \<Rightarrow> ba_state \<Rightarrow> (nat \<times> ba_state) option" where
  "allocMBlockAlignedGroupOnNode mblock node n s =
    (case allocGroupOnNode mblock node BLOCKS_PER_MBLOCK s of
       None \<Rightarrow> None
     | Some (bd, s) \<Rightarrow>
         (case split_block_high bd (blocks_of s bd - blocks_of s bd mod n) s of
            None \<Rightarrow> None
          | Some (bd, s) \<Rightarrow>
              map_option (\<lambda>(chunk, s). (bd, upd_bd bd (\<lambda>b. b\<lparr>bd_link := chunk\<rparr>) s)) (chain_chunks bd n 0 0 s)))"

section \<open>Deferred freeing of megablocks\<close>

partial_function (option) halve :: "nat \<Rightarrow> nat \<Rightarrow> ba_state \<Rightarrow> nat option" where
  "halve fast slow s =
    (if fast \<noteq> 0
     then let fast = link_of s fast
          in if fast \<noteq> 0 then halve (link_of s fast) (link_of s slow) s else halve fast slow s
     else Some slow)"

definition splitDeferredList :: "nat \<Rightarrow> ba_state \<Rightarrow> (nat \<times> ba_state) option" where
  "splitDeferredList head s =
    (case halve (link_of s head) head s of
       None \<Rightarrow> None
     | Some slow \<Rightarrow> Some (link_of s slow, upd_bd slow (\<lambda>b. b\<lparr>bd_link := 0\<rparr>) s))"

abbreviation start_of :: "ba_state \<Rightarrow> nat \<Rightarrow> nat" where "start_of s p \<equiv> bd_start (bds s p)"

text \<open>The three loops that append to \<open>cur\<close>: the merge, then what is left of the first and of the second half.\<close>

partial_function (option) merge_halves :: "nat \<Rightarrow> nat \<Rightarrow> nat \<Rightarrow> ba_state \<Rightarrow> ba_state option" where
  "merge_halves cur first second s =
    (if first \<noteq> 0 \<and> second \<noteq> 0 then
       (if start_of s first < start_of s second
        then let s = upd_bd cur (\<lambda>b. b\<lparr>bd_link := first\<rparr>) s in merge_halves (link_of s cur) (link_of s first) second s
        else let s = upd_bd cur (\<lambda>b. b\<lparr>bd_link := second\<rparr>) s in merge_halves (link_of s cur) first (link_of s second) s)
     else if first \<noteq> 0 then
       let s = upd_bd cur (\<lambda>b. b\<lparr>bd_link := first\<rparr>) s in merge_halves (link_of s cur) (link_of s first) second s
     else if second \<noteq> 0 then
       let s = upd_bd cur (\<lambda>b. b\<lparr>bd_link := second\<rparr>) s in merge_halves (link_of s cur) first (link_of s second) s
     else Some s)"

partial_function (option) sortDeferredList :: "nat \<Rightarrow> ba_state \<Rightarrow> (nat \<times> ba_state) option" where
  "sortDeferredList head s =
    (if head = 0 \<or> link_of s head = 0 then Some (head, s)
     else
       (case splitDeferredList head s of
          None \<Rightarrow> None
        | Some (second, s) \<Rightarrow>
            Option.bind (sortDeferredList head s) (\<lambda>(first, s).
              Option.bind (sortDeferredList second s) (\<lambda>(second, s).
                if start_of s first < start_of s second
                then map_option (Pair first) (merge_halves first (link_of s first) second s)
                else map_option (Pair second) (merge_halves second first (link_of s second) s)))))"

text \<open>Merging the sorted deferred list, from \<open>new_head\<close> on, into the free list from the position \<open>bd\<close> on.\<close>

partial_function (option) free_sorted_groups :: "nat \<Rightarrow> nat \<Rightarrow> nat \<Rightarrow> nat \<Rightarrow> ba_state \<Rightarrow> ba_state option" where
  "free_sorted_groups node new_head prev bd s =
    (if new_head \<noteq> 0
     then let mg = new_head; new_head = link_of s mg
          in (case find_place (bds s) mg prev bd of
                None \<Rightarrow> None
              | Some (prev, bd) \<Rightarrow>
                  let (mg, s) = insert_coalesce node mg prev s in free_sorted_groups node new_head mg (link_of s mg) s)
     else Some s)"

definition free_deferred_mega_groups :: "nat \<Rightarrow> ba_state \<Rightarrow> ba_state option" where
  "free_deferred_mega_groups node s =
    (case sortDeferredList (deferred_free_mblock_list s node) s of
       None \<Rightarrow> None
     | Some (head, s) \<Rightarrow>
         free_sorted_groups node head 0 (free_mblock_list s node)
           (s\<lparr>deferred_free_mblock_list := (deferred_free_mblock_list s)(node := 0)\<rparr>))"

definition deferMBlockFreeing :: "ba_state \<Rightarrow> ba_state option" where
  "deferMBlockFreeing s = (if defer_mblock_frees s then None else Some (s\<lparr>defer_mblock_frees := True\<rparr>))"

definition commitMBlockFreeing :: "ba_state \<Rightarrow> ba_state option" where
  "commitMBlockFreeing s =
    (if \<not> defer_mblock_frees s then None
     else fold (\<lambda>node r. case r of None \<Rightarrow> None | Some s \<Rightarrow> free_deferred_mega_groups node s) [0..<n_numa_nodes s]
            (Some (s\<lparr>defer_mblock_frees := False\<rparr>)))"

section \<open>Counting\<close>

partial_function (option) countBlocks :: "nat \<Rightarrow> ba_state \<Rightarrow> nat option" where
  "countBlocks bd s =
    (if bd \<noteq> 0 then Option.bind (countBlocks (link_of s bd) s) (\<lambda>n. Some (blocks_of s bd + n)) else Some 0)"

partial_function (option) countAllocdBlocks :: "nat \<Rightarrow> ba_state \<Rightarrow> nat option" where
  "countAllocdBlocks bd s =
    (if bd \<noteq> 0
     then Option.bind (countAllocdBlocks (link_of s bd) s)
           (\<lambda>n. Some (n + blocks_of s bd -
               (if blocks_of s bd > BLOCKS_PER_MBLOCK
                then (MBLOCK_SIZE div BLOCK_SIZE - BLOCKS_PER_MBLOCK) * (blocks_of s bd div (MBLOCK_SIZE div BLOCK_SIZE)) else 0)))
     else Some 0)"

text \<open>Returning megablocks to the operating system from the list of one node; the result is how many are left to free.\<close>

partial_function (option) return_from :: "nat \<Rightarrow> nat \<Rightarrow> ba_state \<Rightarrow> (nat \<times> nat \<times> ba_state) option" where
  "return_from n bd s =
    (if n > 0 \<and> bd \<noteq> 0
     then let size = BLOCKS_TO_MBLOCKS (blocks_of s bd)
          in if size > n
             then let newSize = size - n;
                      freeAddr = MBLOCK_ROUND_DOWN (start_of s bd) + newSize * MBLOCK_SIZE;
                      s = upd_bd bd (\<lambda>b. b\<lparr>bd_blocks := MBLOCK_GROUP_BLOCKS newSize\<rparr>) s
                  in return_from 0 bd (s\<lparr>mblocks_freed := mblocks_freed s @ [(freeAddr, n)]\<rparr>)
             else let freeAddr = MBLOCK_ROUND_DOWN (start_of s bd)
                  in return_from (n - size) (link_of s bd) (s\<lparr>mblocks_freed := mblocks_freed s @ [(freeAddr, size)]\<rparr>)
     else Some (n, bd, s))"

definition returnMemoryToOS :: "nat \<Rightarrow> ba_state \<Rightarrow> (nat \<times> ba_state) option" where
  "returnMemoryToOS n s =
    map_option (\<lambda>(n', s). (n - n', s))
      (fold (\<lambda>node r. case r of
               None \<Rightarrow> None
             | Some (n, s) \<Rightarrow>
                 if n > 0
                 then map_option (\<lambda>(n, bd, s). (n, s\<lparr>free_mblock_list := (free_mblock_list s)(node := bd)\<rparr>))
                        (return_from n (free_mblock_list s node) s)
                 else Some (n, s))
        [0..<n_numa_nodes s] (Some (n, s)))"

end
