(* ===== verification/BlockLists.thy ===== *)
theory BlockLists
  imports BlockAlloc
begin

text \<open>
  What the properties of the block allocator rest on: the addresses of descriptors, the doubly-linked free
  lists, and the layout of a megablock as a list of groups with their sizes.
\<close>

section \<open>Addresses\<close>

lemma ba_consts:
  "BLOCK_SIZE = 4096" "MBLOCK_SIZE = 1048576" "BDESCR_SIZE = 64" "FIRST_BLOCK_OFF = 16384" "BLOCKS_PER_MBLOCK = 252" "NUM_FREE_LISTS = 8"
  by (simp_all add: BLOCK_SIZE_def MBLOCK_SIZE_def BDESCR_SIZE_def FIRST_BLOCK_OFF_def BLOCKS_PER_MBLOCK_def BLOCK_ROUND_UP_def NUM_FREE_LISTS_def)

lemma ba_macros:
  "FIRST_BDESCR m = 256 + m" "LAST_BDESCR m = 16320 + m" "FIRST_BLOCK m = 16384 + m" "LAST_BLOCK m = 1044480 + m"
  "MBLOCK_GROUP_BLOCKS k = 252 + (k - 1) * 256" "bd_plus p n = p + n * 64"
  by (simp_all add: FIRST_BDESCR_def LAST_BDESCR_def FIRST_BLOCK_def LAST_BLOCK_def MBLOCK_GROUP_BLOCKS_def bd_plus_def ba_consts)

lemma BLOCKS_TO_MBLOCKS_eq: "BLOCKS_TO_MBLOCKS n = 1 + (n - 252 + 255) div 256"
proof -
  have "(x * 4096 + 1048575) div 1048576 = (x + 255) div (256 :: nat)" for x
  proof -
    have "x * 4096 + 1048575 = 4095 + (x + 255) * 4096" by simp
    moreover have "(1048576 :: nat) = 4096 * 256" by simp
    ultimately have "(x * 4096 + 1048575) div 1048576 = (4095 + (x + 255) * 4096) div 4096 div (256 :: nat)"
      by (simp only: div_mult2_eq)
    also have "(4095 + (x + 255) * 4096) div 4096 = x + 255" by (rule div_nat_eqI) auto
    finally show ?thesis .
  qed
  then show ?thesis by (simp add: BLOCKS_TO_MBLOCKS_def MBLOCK_ROUND_UP_def ba_consts)
qed

lemma BLOCKS_TO_MBLOCKS_group [simp]: "k > 0 \<Longrightarrow> BLOCKS_TO_MBLOCKS (MBLOCK_GROUP_BLOCKS k) = k"
  unfolding BLOCKS_TO_MBLOCKS_eq ba_macros by (cases k) auto

lemma BLOCKS_TO_MBLOCKS_fits: "BLOCKS_TO_MBLOCKS n > 0" "n \<le> MBLOCK_GROUP_BLOCKS (BLOCKS_TO_MBLOCKS n)"
  unfolding BLOCKS_TO_MBLOCKS_eq ba_macros by simp_all

text \<open>The descriptor of block \<open>i\<close> of megablock number \<open>u\<close>.\<close>

definition bd_at :: "nat \<Rightarrow> nat \<Rightarrow> nat" where
  "bd_at u i = u * MBLOCK_SIZE + 256 + i * 64"

definition block_at :: "nat \<Rightarrow> nat \<Rightarrow> nat" where
  "block_at u i = u * MBLOCK_SIZE + FIRST_BLOCK_OFF + i * BLOCK_SIZE"

lemma bd_at_eq [simp]:
  assumes "i < 256" "j < 256"
  shows "bd_at u i = bd_at v j \<longleftrightarrow> u = v \<and> i = j"
proof -
  have "bd_at u i div 1048576 = u" if "i < 256" for u i
    unfolding bd_at_def ba_consts by (rule div_nat_eqI) (use that in auto)
  then have "u = v" if "bd_at u i = bd_at v j" using assms that by metis
  then show ?thesis by (auto simp: bd_at_def)
qed

lemma bd_at_simps [simp]:
  "bd_at u i \<noteq> 0" "bd_plus (bd_at u i) n = bd_at u (i + n)" "FIRST_BDESCR (u * MBLOCK_SIZE) = bd_at u 0"
  "i < 256 \<Longrightarrow> MBLOCK_ROUND_DOWN (bd_at u i) = u * MBLOCK_SIZE"
  "bd_at u i \<le> LAST_BDESCR (u * MBLOCK_SIZE) \<longleftrightarrow> i < 252"
  "i > 0 \<Longrightarrow> bd_at u i - BDESCR_SIZE = bd_at u (i - 1)"
proof -
  show "MBLOCK_ROUND_DOWN (bd_at u i) = u * MBLOCK_SIZE" if "i < 256"
  proof -
    have "bd_at u i div 1048576 = u" unfolding bd_at_def ba_consts by (rule div_nat_eqI) (use that in auto)
    then show ?thesis by (simp add: MBLOCK_ROUND_DOWN_def ba_consts)
  qed
qed (auto simp: bd_at_def ba_macros ba_consts algebra_simps)

lemma block_at_not_free: "block_at u i \<noteq> FREE_MARK"
proof
  assume "block_at u i = FREE_MARK"
  then have "block_at u i mod 2 = FREE_MARK mod 2" by simp
  moreover have "block_at u i mod 2 = 0" by (simp add: block_at_def ba_consts)
  moreover have "FREE_MARK mod 2 = 1" by (simp add: FREE_MARK_def)
  ultimately show False by simp
qed

section \<open>Logarithms\<close>

lemma log_2_bounds:
  assumes "n > 0" "n < 2 ^ 64"
  shows "2 ^ log_2 n \<le> n" "n < 2 ^ Suc (log_2 n)"
proof -
  have f: "2 ^ (floorlog 2 n - 1) \<le> n" "n < 2 ^ floorlog 2 n"
    using floorlog_bounds [of n 2] assms(1) by auto
  then have "floorlog 2 n > 0" using assms(1) by (cases "floorlog 2 n") auto
  moreover have "(2 :: nat) ^ (floorlog 2 n - 1) < 2 ^ 64" using f(1) assms(2) by linarith
  then have "floorlog 2 n - 1 < 64" by (simp only: power_strict_increasing_iff)
  moreover have "\<forall>v \<in> set [0..<64]. v XOR (63 :: nat) = 63 - v" by code_simp
  ultimately have "log_2 n = floorlog 2 n - 1" by (simp add: log_2_def CLZW_def)
  with f \<open>floorlog 2 n > 0\<close> show "2 ^ log_2 n \<le> n" "n < 2 ^ Suc (log_2 n)" by simp_all
qed

lemma log_2_ceil_bounds:
  assumes "n > 0" "n < 2 ^ 64"
  shows "n \<le> 2 ^ log_2_ceil n" "log_2 n \<le> log_2_ceil n" "log_2_ceil n \<le> Suc (log_2 n)"
proof -
  note b = log_2_bounds [OF assms]
  have top: "bit m (log_2 n)" if "2 ^ log_2 n \<le> m" "m \<le> n" for m
  proof -
    have "m div 2 ^ log_2 n = 1" by (rule div_nat_eqI) (use that b(2) in auto)
    then show ?thesis by (simp add: bit_iff_odd)
  qed
  have "n \<le> 2 ^ log_2 n" if "n AND (n - 1) = 0"
  proof (rule ccontr)
    assume "\<not> n \<le> 2 ^ log_2 n"
    then have "bit (n AND (n - 1)) (log_2 n)" using top [of n] top [of "n - 1"] b(1) by (simp add: bit_and_iff)
    with that show False by simp
  qed
  with b(2) show "n \<le> 2 ^ log_2_ceil n" by (auto simp: log_2_ceil_def Let_def)
qed (auto simp: log_2_ceil_def Let_def)

section \<open>The free lists\<close>

abbreviation dpart :: "(nat \<Rightarrow> bdescr) \<Rightarrow> nat \<Rightarrow> nat \<Rightarrow> nat list \<Rightarrow> nat \<Rightarrow> nat \<Rightarrow> bool" where
  "dpart m \<equiv> dl_part (\<lambda>a. bd_link (m a)) (\<lambda>a. bd_back (m a))"

abbreviation dlist :: "(nat \<Rightarrow> bdescr) \<Rightarrow> nat \<Rightarrow> nat list \<Rightarrow> bool" where
  "dlist m \<equiv> dl_list (\<lambda>a. bd_link (m a)) (\<lambda>a. bd_back (m a))"

end
