(* ===== verification/BlockGroups.thy ===== *)
theory BlockGroups
  imports BlockLists
begin

text \<open>
  Groups of blocks inside a megablock: the invariant of the block allocator, and what freeing and splitting
  groups do to it.
\<close>

section \<open>The layout of a megablock\<close>

text \<open>The groups of a megablock in the order of their addresses, with their sizes and whether they are free.\<close>

type_synonym groups = "(nat \<times> bool) list"

abbreviation size_of :: "groups \<Rightarrow> nat" where "size_of L \<equiv> sum_list (map fst L)"

definition group_at :: "(nat \<Rightarrow> bdescr) \<Rightarrow> nat \<Rightarrow> nat \<Rightarrow> nat \<Rightarrow> bool \<Rightarrow> bool" where
  "group_at m u i n f \<longleftrightarrow> n > 0 \<and> bd_blocks (m (bd_at u i)) = n \<and> (bd_free (m (bd_at u i)) = FREE_MARK) = f \<and>
    (n > 1 \<longrightarrow> bd_blocks (m (bd_at u (i + n - 1))) = 0 \<and> bd_link (m (bd_at u (i + n - 1))) = bd_at u i)"

fun lay :: "(nat \<Rightarrow> bdescr) \<Rightarrow> nat \<Rightarrow> nat \<Rightarrow> groups \<Rightarrow> bool" where
  "lay m u i [] = True"
| "lay m u i ((n, f) # L) \<longleftrightarrow> group_at m u i n f \<and> lay m u (i + n) L"

fun no_adj :: "groups \<Rightarrow> bool" where
  "no_adj (a # b # L) \<longleftrightarrow> \<not> (snd a \<and> snd b) \<and> no_adj (b # L)"
| "no_adj L = True"

fun frees :: "nat \<Rightarrow> nat \<Rightarrow> groups \<Rightarrow> nat set" where
  "frees u i [] = {}"
| "frees u i ((n, f) # L) = (if f then {bd_at u i} else {}) \<union> frees u (i + n) L"

fun busies :: "nat \<Rightarrow> nat \<Rightarrow> groups \<Rightarrow> (nat \<times> nat) set" where
  "busies u i [] = {}"
| "busies u i ((n, f) # L) = (if f then {} else {(bd_at u i, n)}) \<union> busies u (i + n) L"

lemma lay_append [simp]: "lay m u i (L @ L') \<longleftrightarrow> lay m u i L \<and> lay m u (i + size_of L) L'"
  by (induction L arbitrary: i) (auto simp: add.assoc)

lemma frees_append [simp]: "frees u i (L @ L') = frees u i L \<union> frees u (i + size_of L) L'"
  by (induction L arbitrary: i) (auto simp: add.assoc)

lemma busies_append [simp]: "busies u i (L @ L') = busies u i L \<union> busies u (i + size_of L) L'"
  by (induction L arbitrary: i) (auto simp: add.assoc)

lemma no_adj_append: "no_adj (L @ L') \<longleftrightarrow> no_adj L \<and> no_adj L' \<and> (L \<noteq> [] \<and> L' \<noteq> [] \<longrightarrow> \<not> (snd (last L) \<and> snd (hd L')))"
  by (induction L rule: no_adj.induct; cases L'; auto)

text \<open>What the invariant sees of a descriptor: the link only of the last block of a group.\<close>

definition tag :: "(nat \<Rightarrow> bdescr) \<Rightarrow> nat \<Rightarrow> nat \<times> bool \<times> nat \<times> nat \<times> nat" where
  "tag m a = (bd_blocks (m a), bd_free (m a) = FREE_MARK, bd_start (m a), bd_node (m a), if bd_blocks (m a) = 0 then bd_link (m a) else 0)"

lemma tagD:
  assumes "tag m a = tag m' a"
  shows "bd_blocks (m a) = bd_blocks (m' a)" "(bd_free (m a) = FREE_MARK) = (bd_free (m' a) = FREE_MARK)"
    "bd_start (m a) = bd_start (m' a)" "bd_node (m a) = bd_node (m' a)" "bd_blocks (m a) = 0 \<Longrightarrow> bd_link (m a) = bd_link (m' a)"
  using assms by (simp_all add: tag_def)

lemma group_at_cong:
  assumes "tag m (bd_at u i) = tag m' (bd_at u i)" "tag m (bd_at u (i + n - 1)) = tag m' (bd_at u (i + n - 1))"
  shows "group_at m u i n f = group_at m' u i n f"
  unfolding group_at_def tagD(1,2) [OF assms(1)] tagD(1) [OF assms(2)]
  using tagD(5) [OF assms(2)] tagD(1) [OF assms(2)] by auto

lemma lay_pos: "lay m u i L \<Longrightarrow> (n, f) \<in> set L \<Longrightarrow> n > 0"
  by (induction L arbitrary: i) (auto simp: group_at_def)

lemma lay_cong:
  assumes "\<And>x. i \<le> x \<Longrightarrow> x < i + size_of L \<Longrightarrow> tag m (bd_at u x) = tag m' (bd_at u x)"
  shows "lay m u i L = lay m' u i L"
  using assms
proof (induction L arbitrary: i)
  case (Cons a L)
  obtain n f where a: "a = (n, f)" by force
  have "lay m u (i + n) L = lay m' u (i + n) L" by (rule Cons.IH) (use Cons.prems a in auto)
  moreover have "group_at m u i n f = group_at m' u i n f"
  proof (cases "n = 0")
    case False
    then show ?thesis by (intro group_at_cong Cons.prems) (auto simp: a)
  qed (simp add: group_at_def)
  ultimately show ?case by (simp add: a)
qed simp

lemma frees_split: "x \<in> frees u i L \<longleftrightarrow> (\<exists>L1 n L2. L = L1 @ (n, True) # L2 \<and> x = bd_at u (i + size_of L1))"
proof
  assume "x \<in> frees u i L"
  then show "\<exists>L1 n L2. L = L1 @ (n, True) # L2 \<and> x = bd_at u (i + size_of L1)"
  proof (induction u i L rule: frees.induct)
    case (2 u i n f L)
    from "2.prems" consider "f" "x = bd_at u i" | "x \<in> frees u (i + n) L" by (auto split: if_splits)
    then show ?case
    proof cases
      case 1
      then show ?thesis by (intro exI [of _ "[]"]) simp
    next
      case 2
      with "2.IH" obtain L1 k L2 where "L = L1 @ (k, True) # L2" "x = bd_at u (i + n + size_of L1)" by blast
      then show ?thesis by (intro exI [of _ "(n, f) # L1"]) (simp add: add.assoc)
    qed
  qed simp
qed auto

lemma busies_split: "(x, n) \<in> busies u i L \<longleftrightarrow> (\<exists>L1 L2. L = L1 @ (n, False) # L2 \<and> x = bd_at u (i + size_of L1))"
proof
  assume "(x, n) \<in> busies u i L"
  then show "\<exists>L1 L2. L = L1 @ (n, False) # L2 \<and> x = bd_at u (i + size_of L1)"
  proof (induction u i L rule: busies.induct)
    case (2 u i k f L)
    from "2.prems" consider "\<not> f" "x = bd_at u i" "k = n" | "(x, n) \<in> busies u (i + k) L" by (auto split: if_splits)
    then show ?case
    proof cases
      case 1
      then show ?thesis by (intro exI [of _ "[]"] exI [of _ L]) simp
    next
      case 2
      with "2.IH" obtain L1 L2 where "L = L1 @ (n, False) # L2" "x = bd_at u (i + k + size_of L1)" by blast
      then show ?thesis by (intro exI [of _ "(k, f) # L1"] exI [of _ L2]) (simp add: add.assoc)
    qed
  qed simp
qed auto

text \<open>A free group and its descriptor.\<close>

lemma lay_frees:
  assumes "lay m u i L" "x \<in> frees u i L"
  obtains j where "x = bd_at u j" "i \<le> j" "j < i + size_of L" "bd_blocks (m x) > 0" "j + bd_blocks (m x) \<le> i + size_of L"
    "bd_free (m x) = FREE_MARK"
proof -
  obtain L1 n L2 where L: "L = L1 @ (n, True) # L2" "x = bd_at u (i + size_of L1)" using assms(2) frees_split by blast
  with assms(1) have "group_at m u (i + size_of L1) n True" by simp
  with that [of "i + size_of L1"] L show thesis by (auto simp: group_at_def)
qed

section \<open>The invariant\<close>

text \<open>
  What a megablock is used for: it is split into groups, or it is one of the \<open>k\<close> megablocks from number \<open>v\<close> on
  that form a group, which is allocated, on the free list, or on the deferred free list.
\<close>

datatype mstate = Busy | Listed | Deferred
datatype mowner = Split groups | Mega nat nat mstate

type_synonym owners = "nat \<Rightarrow> mowner option"

definition mblock_init :: "(nat \<Rightarrow> bdescr) \<Rightarrow> nat \<Rightarrow> nat \<Rightarrow> bool" where
  "mblock_init m u d \<longleftrightarrow> (\<forall>i < 252. bd_start (m (bd_at u i)) = block_at u i \<and> bd_node (m (bd_at u i)) = d)"

definition split_ok :: "(nat \<Rightarrow> bdescr) \<Rightarrow> nat \<Rightarrow> groups \<Rightarrow> bool" where
  "split_ok m u L \<longleftrightarrow> (\<exists>d. mblock_init m u d) \<and> lay m u 0 L \<and> size_of L = 252 \<and> length L > 1"

definition mega_ok :: "(nat \<Rightarrow> bdescr) \<Rightarrow> owners \<Rightarrow> nat \<Rightarrow> nat \<Rightarrow> mstate \<Rightarrow> bool" where
  "mega_ok m own v k st \<longleftrightarrow> k > 0 \<and> (\<forall>w. v \<le> w \<and> w < v + k \<longrightarrow> own w = Some (Mega v k st)) \<and> (\<exists>d. mblock_init m v d) \<and>
    bd_blocks (m (bd_at v 0)) = MBLOCK_GROUP_BLOCKS k"

definition mblocks_ok :: "(nat \<Rightarrow> bdescr) \<Rightarrow> owners \<Rightarrow> bool" where
  "mblocks_ok m own \<longleftrightarrow> (\<forall>u L. own u = Some (Split L) \<longrightarrow> split_ok m u L) \<and>
    (\<forall>u v k st. own u = Some (Mega v k st) \<longrightarrow> v \<le> u \<and> u < v + k \<and> mega_ok m own v k st)"

definition all_free :: "owners \<Rightarrow> nat set" where
  "all_free own = {x. \<exists>u L. own u = Some (Split L) \<and> x \<in> frees u 0 L}"

definition allocs :: "owners \<Rightarrow> (nat \<times> nat) set" where
  "allocs own = {(x, n). (\<exists>u L. own u = Some (Split L) \<and> (x, n) \<in> busies u 0 L) \<or>
    (\<exists>v k. own v = Some (Mega v k Busy) \<and> x = bd_at v 0 \<and> n = MBLOCK_GROUP_BLOCKS k)}"

definition coalesced :: "owners \<Rightarrow> bool" where
  "coalesced own \<longleftrightarrow> (\<forall>u L. own u = Some (Split L) \<longrightarrow> no_adj L)"

type_synonym free_lists = "nat \<Rightarrow> nat \<Rightarrow> nat list"

definition dlists :: "ba_state \<Rightarrow> free_lists \<Rightarrow> bool" where
  "dlists s FL \<longleftrightarrow> (\<forall>d k. dlist (bds s) (free_list s d k) (FL d k))"

text \<open>The free groups \<open>F\<close> are those of the lists, by node and by size.\<close>

definition members :: "(nat \<Rightarrow> bdescr) \<Rightarrow> nat set \<Rightarrow> free_lists \<Rightarrow> bool" where
  "members m F FL \<longleftrightarrow> (\<forall>d k x. x \<in> set (FL d k) \<longleftrightarrow> x \<in> F \<and> bd_node (m x) = d \<and> log_2 (bd_blocks (m x)) = k)"

type_synonym megas = "nat \<Rightarrow> (nat \<times> nat) list"

definition mega_list :: "(nat \<Rightarrow> bdescr) \<Rightarrow> nat \<Rightarrow> (nat \<times> nat) list \<Rightarrow> bool" where
  "mega_list m p xs \<longleftrightarrow> chain (\<lambda>a. bd_link (m a)) 0 p (map (\<lambda>(v, k). bd_at v 0) xs)"

definition megas_ok :: "ba_state \<Rightarrow> owners \<Rightarrow> megas \<Rightarrow> megas \<Rightarrow> bool" where
  "megas_ok s own MF MD \<longleftrightarrow>
    (\<forall>d. mega_list (bds s) (free_mblock_list s d) (MF d) \<and> sorted_wrt (\<lambda>(v, k) (w, l). v + k < w) (MF d) \<and>
      (\<forall>v k. (v, k) \<in> set (MF d) \<longleftrightarrow> own v = Some (Mega v k Listed) \<and> bd_node (bds s (bd_at v 0)) = d)) \<and>
    (\<forall>d. mega_list (bds s) (deferred_free_mblock_list s d) (MD d) \<and>
      (\<forall>v k. (v, k) \<in> set (MD d) \<longleftrightarrow> own v = Some (Mega v k Deferred) \<and> bd_node (bds s (bd_at v 0)) = d))"

definition ba_inv :: "ba_state \<Rightarrow> owners \<Rightarrow> bool" where
  "ba_inv s own \<longleftrightarrow> mblocks_ok (bds s) own \<and> coalesced own \<and>
    (\<exists>FL. dlists s FL \<and> members (bds s) (all_free own) FL) \<and> (\<exists>MF MD. megas_ok s own MF MD)"

section \<open>Operations on the free lists\<close>

lemma dbl_link_remove_simps [simp]:
  "free_mblock_list (dbl_link_remove x d k s) = free_mblock_list s"
  "deferred_free_mblock_list (dbl_link_remove x d k s) = deferred_free_mblock_list s"
  "defer_mblock_frees (dbl_link_remove x d k s) = defer_mblock_frees s"
  "n_alloc_blocks (dbl_link_remove x d k s) = n_alloc_blocks s"
  "bd_blocks (bds (dbl_link_remove x d k s) y) = bd_blocks (bds s y)" "bd_free (bds (dbl_link_remove x d k s) y) = bd_free (bds s y)"
  "bd_start (bds (dbl_link_remove x d k s) y) = bd_start (bds s y)" "bd_node (bds (dbl_link_remove x d k s) y) = bd_node (bds s y)"
  by (simp_all add: dbl_link_remove_def upd_bd_def Let_def)

lemma dbl_link_onto_simps [simp]:
  "free_mblock_list (dbl_link_onto x d k s) = free_mblock_list s"
  "deferred_free_mblock_list (dbl_link_onto x d k s) = deferred_free_mblock_list s"
  "defer_mblock_frees (dbl_link_onto x d k s) = defer_mblock_frees s"
  "n_alloc_blocks (dbl_link_onto x d k s) = n_alloc_blocks s"
  "bd_blocks (bds (dbl_link_onto x d k s) y) = bd_blocks (bds s y)" "bd_free (bds (dbl_link_onto x d k s) y) = bd_free (bds s y)"
  "bd_start (bds (dbl_link_onto x d k s) y) = bd_start (bds s y)" "bd_node (bds (dbl_link_onto x d k s) y) = bd_node (bds s y)"
  by (simp_all add: dbl_link_onto_def upd_bd_def Let_def)

lemma members_disjoint: "members m F FL \<Longrightarrow> x \<in> set (FL d k) \<Longrightarrow> x \<in> set (FL d' k') \<Longrightarrow> d = d' \<and> k = k'"
  by (auto simp: members_def)

lemma dlists_remove:
  assumes "dlists s FL" "members (bds s) F FL" "x \<in> F" "d = bd_node (bds s x)" "k = log_2 (bd_blocks (bds s x))"
  defines "s' \<equiv> dbl_link_remove x d k s" and "FL' \<equiv> FL(d := (FL d)(k := remove1 x (FL d k)))"
  shows "dlists s' FL'" "\<And>y. y \<notin> F - {x} \<Longrightarrow> bds s' y = bds s y" "members (bds s') (F - {x}) FL'"
proof -
  have x: "x \<in> set (FL d k)" using assms(2-5) by (simp add: members_def)
  then obtain xs ys where FL: "FL d k = xs @ x # ys" "x \<notin> set xs" using split_list_first by metis
  have l: "dlist (bds s) (free_list s d k) (xs @ x # ys)" using assms(1) FL(1) by (metis dlists_def)
  let ?b = "bd_back (bds s x)" and ?l = "bd_link (bds s x)"
  have d: "distinct (xs @ x # ys)" "0 \<notin> set (xs @ x # ys)" using l dl_list_nonzero [OF l] by (auto simp: dl_list_def)
  have bl: "?b = (if xs = [] then 0 else last xs)" "?l = (case ys of [] \<Rightarrow> 0 | y # _ \<Rightarrow> y)"
  proof -
    from l obtain q r where "dpart (bds s) 0 (free_list s d k) xs q r" "dpart (bds s) q r (x # ys) (last (x # ys)) 0"
      unfolding dl_list_def dl_part_append using dl_part_last by (metis append_is_Nil_conv list.distinct(1) dl_part_append)
    then show "?b = (if xs = [] then 0 else last xs)" "?l = (case ys of [] \<Rightarrow> 0 | y # _ \<Rightarrow> y)"
      using dl_part_last [of _ _ 0 "free_list s d k" xs q r] by (auto split: list.split)
  qed
  have b: "?b = 0 \<or> ?b \<in> set xs" and l': "?l = 0 \<or> ?l \<in> set ys" using bl by (auto split: list.splits)
  then have ne: "?b \<noteq> x" "?l \<noteq> x" "x \<noteq> 0" using d by auto
  have nb: "?b = 0 \<or> ?b \<in> set (FL d k)" "?l = 0 \<or> ?l \<in> set (FL d k)" using b l' FL(1) by auto
  have desc: "bds s' y = (bds s y)\<lparr>bd_link := (if y = ?b \<and> y \<noteq> 0 then ?l else bd_link (bds s y)),
      bd_back := (if y = ?l \<and> y \<noteq> 0 then ?b else bd_back (bds s y))\<rparr>" for y
    using ne by (auto simp: s'_def dbl_link_remove_def upd_bd_def Let_def)
  have fl: "free_list s' = (free_list s)(d := (free_list s d)(k := (if ?b = 0 then ?l else free_list s d k)))"
    by (auto simp: s'_def dbl_link_remove_def upd_bd_def Let_def fun_eq_iff)
  have rem: "remove1 x (FL d k) = xs @ ys" using FL by (simp add: remove1_append)
  have new: "dlist (bds s') (free_list s' d k) (xs @ ys)"
    using dl_list_remove [OF l, of "\<lambda>a. bd_link (bds s' a)" "\<lambda>a. bd_back (bds s' a)"] d(2) by (fastforce simp: desc fl)
  show "dlists s' FL'"
    unfolding dlists_def
  proof (intro allI)
    fix d' k'
    show "dlist (bds s') (free_list s' d' k') (FL' d' k')"
    proof (cases "d' = d \<and> k' = k")
      case True
      then show ?thesis using new by (simp add: FL'_def rem)
    next
      case False
      have "0 \<notin> set (FL d' k')" using assms(1) dl_list_nonzero unfolding dlists_def by blast
      moreover have "y \<notin> set (FL d' k')" if "y \<in> set (FL d k)" for y
        using members_disjoint [OF assms(2) that, of d' k'] False by blast
      ultimately have "?b \<notin> set (FL d' k') \<and> ?l \<notin> set (FL d' k')" using nb by metis
      then have "dlist (bds s') (free_list s d' k') (FL d' k') = dlist (bds s) (free_list s d' k') (FL d' k')"
        by (intro dl_list_cong) (auto simp: desc)
      then show ?thesis using False assms(1) by (auto simp: dlists_def FL'_def fl)
    qed
  qed
  show "bds s' y = bds s y" if "y \<notin> F - {x}" for y
  proof -
    have inF: "z \<in> F - {x}" if "z \<in> set (FL d k)" "z \<noteq> x" for z using assms(2) that by (simp add: members_def)
    have "y = ?b \<Longrightarrow> y = 0" "y = ?l \<Longrightarrow> y = 0" using nb inF [of y] ne that by metis+
    then show ?thesis by (auto simp: desc)
  qed
  show "members (bds s') (F - {x}) FL'"
    unfolding members_def
  proof (intro allI)
    fix d' k' y
    have "y \<in> set (FL' d' k') \<longleftrightarrow> y \<in> set (FL d' k') \<and> y \<noteq> x"
    proof (cases "d' = d \<and> k' = k")
      case True
      then show ?thesis using d(1) FL(1) by (auto simp: FL'_def rem)
    next
      case False
      then show ?thesis using members_disjoint [OF assms(2) x, of d' k'] by (auto simp: FL'_def)
    qed
    then show "y \<in> set (FL' d' k') \<longleftrightarrow> y \<in> F - {x} \<and> bd_node (bds s' y) = d' \<and> log_2 (bd_blocks (bds s' y)) = k'"
      using assms(2) by (auto simp: members_def s'_def)
  qed
qed

lemma dlists_onto:
  assumes "dlists s FL" "members (bds s) F FL" "x \<notin> F" "x \<noteq> 0" "d = bd_node (bds s x)" "k = log_2 (bd_blocks (bds s x))"
  defines "s' \<equiv> dbl_link_onto x d k s" and "FL' \<equiv> FL(d := (FL d)(k := x # FL d k))"
  shows "dlists s' FL'" "\<And>y. y \<notin> insert x F \<Longrightarrow> bds s' y = bds s y" "members (bds s') (insert x F) FL'"
proof -
  let ?h = "free_list s d k"
  have l: "dlist (bds s) ?h (FL d k)" using assms(1) by (simp add: dlists_def)
  have xn: "x \<notin> set (FL d' k')" for d' k' using assms(2,3) by (simp add: members_def)
  have h: "?h = 0 \<or> ?h \<in> set (FL d k)" using dl_list_head [OF l] by (cases "FL d k") auto
  then have hx: "?h \<noteq> x" using xn assms(4) by metis
  have desc: "bds s' y = (if y = x then (bds s x)\<lparr>bd_link := ?h, bd_back := 0\<rparr> else if y = ?h \<and> y \<noteq> 0 then (bds s y)\<lparr>bd_back := x\<rparr> else bds s y)" for y
    using hx by (auto simp: s'_def dbl_link_onto_def upd_bd_def Let_def)
  have fl: "free_list s' = (free_list s)(d := (free_list s d)(k := x))"
    by (auto simp: s'_def dbl_link_onto_def upd_bd_def Let_def fun_eq_iff)
  show "dlists s' FL'"
    unfolding dlists_def
  proof (intro allI)
    fix d' k'
    show "dlist (bds s') (free_list s' d' k') (FL' d' k')"
    proof (cases "d' = d \<and> k' = k")
      case True
      have "dlist (bds s') x (x # FL d k)"
        by (rule dl_list_onto [OF l xn assms(4)]) (use xn hx assms(4) in \<open>auto simp: desc\<close>)
      then show ?thesis using True by (simp add: FL'_def fl)
    next
      case False
      have "0 \<notin> set (FL d' k')" using assms(1) dl_list_nonzero unfolding dlists_def by blast
      moreover have "y \<notin> set (FL d' k')" if "y \<in> set (FL d k)" for y
        using members_disjoint [OF assms(2) that, of d' k'] False by blast
      ultimately have "?h \<notin> set (FL d' k')" using h by metis
      then have "dlist (bds s') (free_list s d' k') (FL d' k') = dlist (bds s) (free_list s d' k') (FL d' k')"
        using xn by (intro dl_list_cong) (auto simp: desc)
      then show ?thesis using False assms(1) by (auto simp: dlists_def FL'_def fl)
    qed
  qed
  show "bds s' y = bds s y" if "y \<notin> insert x F" for y
  proof -
    have "?h = 0 \<or> ?h \<in> F" using h assms(2) by (auto simp: members_def)
    with that show ?thesis by (auto simp: desc)
  qed
  show "members (bds s') (insert x F) FL'"
    using assms(2-6) unfolding members_def s'_def FL'_def by auto
qed

section \<open>Frames\<close>

abbreviation bd_span :: "nat \<Rightarrow> nat \<Rightarrow> nat \<Rightarrow> nat set" where
  "bd_span u i j \<equiv> bd_at u ` {i..<j}"

lemma in_span: "a < 256 \<Longrightarrow> j \<le> 256 \<Longrightarrow> bd_at v a \<in> bd_span u i j \<longleftrightarrow> v = u \<and> i \<le> a \<and> a < j"
  by force

text \<open>
  A step that may change the descriptors of \<open>P\<close>, and else only links and back pointers inside the lists of
  free groups.
\<close>

definition keeps :: "owners \<Rightarrow> nat set \<Rightarrow> ba_state \<Rightarrow> ba_state \<Rightarrow> bool" where
  "keeps own P s s' \<longleftrightarrow> (\<forall>a. bd_start (bds s' a) = bd_start (bds s a) \<and> bd_node (bds s' a) = bd_node (bds s a)) \<and>
    (\<forall>a. a \<notin> P \<longrightarrow> tag (bds s') a = tag (bds s) a) \<and>
    (\<forall>v k st. own v = Some (Mega v k st) \<longrightarrow> bd_link (bds s' (bd_at v 0)) = bd_link (bds s (bd_at v 0))) \<and>
    free_mblock_list s' = free_mblock_list s \<and> deferred_free_mblock_list s' = deferred_free_mblock_list s \<and>
    defer_mblock_frees s' = defer_mblock_frees s"

lemma keepsD:
  assumes "keeps own P s s'"
  shows "bd_start (bds s' a) = bd_start (bds s a)" "bd_node (bds s' a) = bd_node (bds s a)"
    "a \<notin> P \<Longrightarrow> tag (bds s') a = tag (bds s) a"
    "own v = Some (Mega v k st) \<Longrightarrow> bd_link (bds s' (bd_at v 0)) = bd_link (bds s (bd_at v 0))"
    "free_mblock_list s' = free_mblock_list s" "deferred_free_mblock_list s' = deferred_free_mblock_list s"
    "defer_mblock_frees s' = defer_mblock_frees s"
  using assms unfolding keeps_def by blast+

lemma keeps_refl: "keeps own P s s"
  by (simp add: keeps_def)

lemma keeps_trans: "keeps own P s s' \<Longrightarrow> keeps own Q s' s'' \<Longrightarrow> P \<subseteq> R \<Longrightarrow> Q \<subseteq> R \<Longrightarrow> keeps own R s s''"
  unfolding keeps_def by (metis subset_iff)

lemma mblock_init_cong:
  "(\<And>a. bd_start (m' a) = bd_start (m a) \<and> bd_node (m' a) = bd_node (m a)) \<Longrightarrow> mblock_init m' u d = mblock_init m u d"
  by (simp add: mblock_init_def)

lemma mega_ok_head: "mega_ok m own v k st \<Longrightarrow> own v = Some (Mega v k st)"
  by (auto simp: mega_ok_def)

lemma split_okD:
  assumes "mblocks_ok m own" "own u = Some (Split L)"
  shows "lay m u 0 L" "size_of L = 252" "length L > 1" "\<exists>d. mblock_init m u d"
  using assms by (auto simp: mblocks_ok_def split_ok_def)

lemma megaD:
  assumes "mblocks_ok m own" "own u = Some (Mega v k st)"
  shows "v \<le> u" "u < v + k" "mega_ok m own v k st"
  using assms by (auto simp: mblocks_ok_def)

lemma mblocks_ok_keep:
  assumes "mblocks_ok (bds s) own" "keeps own P s s'" "\<And>v j. own v \<noteq> None \<Longrightarrow> j < 252 \<Longrightarrow> bd_at v j \<notin> P"
  shows "mblocks_ok (bds s') own"
proof -
  have init: "mblock_init (bds s') v d = mblock_init (bds s) v d" for v d
    by (rule mblock_init_cong) (simp add: keepsD(1,2) [OF assms(2)])
  show ?thesis
    unfolding mblocks_ok_def
  proof (intro conjI allI impI)
    fix u L assume u: "own u = Some (Split L)"
    note ok = split_okD [OF assms(1) u]
    have "lay (bds s') u 0 L = lay (bds s) u 0 L"
      by (rule lay_cong, rule keepsD(3) [OF assms(2)], rule assms(3)) (use u ok(2) in auto)
    then show "split_ok (bds s') u L" using ok by (simp add: split_ok_def init)
  next
    fix u v k st assume u: "own u = Some (Mega v k st)"
    note ok = megaD [OF assms(1) u]
    have "tag (bds s') (bd_at v 0) = tag (bds s) (bd_at v 0)"
      by (rule keepsD(3) [OF assms(2)], rule assms(3)) (use mega_ok_head [OF ok(3)] in auto)
    from tagD(1) [OF this] show "mega_ok (bds s') own v k st" using ok(3) by (simp add: mega_ok_def init)
    show "v \<le> u" "u < v + k" by (fact ok)+
  qed
qed

lemma mega_list_cong:
  "(\<And>v k. (v, k) \<in> set xs \<Longrightarrow> bd_link (m' (bd_at v 0)) = bd_link (m (bd_at v 0))) \<Longrightarrow> mega_list m' p xs = mega_list m p xs"
  unfolding mega_list_def by (rule chain_cong) auto

lemma megas_ok_keep:
  assumes "megas_ok s own MF MD" "keeps own P s s'"
  shows "megas_ok s' own MF MD"
proof -
  have "mega_list (bds s') p (MF d) = mega_list (bds s) p (MF d)" "mega_list (bds s') p (MD d) = mega_list (bds s) p (MD d)" for p d
    using assms(1) by (auto intro!: mega_list_cong keepsD(4) [OF assms(2)] simp: megas_ok_def)
  then show ?thesis using assms(1) unfolding megas_ok_def keepsD(2,5,6) [OF assms(2)] by simp
qed

lemma all_free_at:
  assumes "mblocks_ok m own" "x \<in> all_free own"
  obtains v j L where "x = bd_at v j" "j < 252" "own v = Some (Split L)" "bd_blocks (m x) > 0" "bd_free (m x) = FREE_MARK"
proof -
  from assms(2) obtain v L where L: "own v = Some (Split L)" "x \<in> frees v 0 L" by (auto simp: all_free_def)
  from lay_frees [OF split_okD(1) [OF assms(1) L(1)] L(2)] obtain j where
    "x = bd_at v j" "j < 0 + size_of L" "bd_blocks (m x) > 0" "bd_free (m x) = FREE_MARK" .
  then show thesis using that [OF _ _ L(1)] split_okD(2) [OF assms(1) L(1)] by simp
qed

text \<open>List operations as frames.\<close>

lemma keeps_lists:
  assumes "\<And>y. y \<notin> F \<Longrightarrow> bds s' y = bds s y"
    and "\<And>y. bd_blocks (bds s' y) = bd_blocks (bds s y) \<and> bd_free (bds s' y) = bd_free (bds s y) \<and>
      bd_start (bds s' y) = bd_start (bds s y) \<and> bd_node (bds s' y) = bd_node (bds s y)"
    and "\<And>y. y \<in> F \<Longrightarrow> bd_blocks (bds s y) > 0" "\<And>v k st. own v = Some (Mega v k st) \<Longrightarrow> bd_at v 0 \<notin> F"
    and "free_mblock_list s' = free_mblock_list s" "deferred_free_mblock_list s' = deferred_free_mblock_list s"
      "defer_mblock_frees s' = defer_mblock_frees s"
  shows "keeps own {} s s'"
  unfolding keeps_def
proof (intro conjI allI impI)
  fix a show "tag (bds s') a = tag (bds s) a"
    using assms(1) [of a] assms(2) [of a] assms(3) [of a] by (cases "a \<in> F") (auto simp: tag_def)
qed (use assms in auto)

lemma keeps_upd:
  assumes "\<And>b. bd_start (f b) = bd_start b \<and> bd_node (f b) = bd_node b" "\<And>v k st. own v = Some (Mega v k st) \<Longrightarrow> bd_at v 0 \<noteq> p"
  shows "keeps own {p} s (upd_bd p f s)"
  using assms by (auto simp: keeps_def upd_bd_def tag_def)

lemma dlists_upd:
  assumes "dlists s FL" "members (bds s) F FL" "p \<notin> F"
  shows "dlists (upd_bd p f s) FL" "members (bds (upd_bd p f s)) F FL"
proof -
  have p: "p \<notin> set (FL d k)" for d k using assms(2,3) by (simp add: members_def)
  have "dlist (bds (upd_bd p f s)) q (FL d k) = dlist (bds s) q (FL d k)" for q d k
    by (rule dl_list_cong) (use p in \<open>auto simp: upd_bd_def\<close>)
  then show "dlists (upd_bd p f s) FL" using assms(1) by (simp add: dlists_def) (simp add: upd_bd_def)
  show "members (bds (upd_bd p f s)) F FL"
    using assms(2,3) p unfolding members_def upd_bd_def by auto
qed

section \<open>Coalescing\<close>

text \<open>
  While it is being freed, the group of \<open>N\<close> blocks between the groups \<open>L1\<close> and \<open>L2\<close> of megablock \<open>u\<close> is marked
  free but is in no list.
\<close>

definition rest_free :: "owners \<Rightarrow> nat \<Rightarrow> groups \<Rightarrow> nat \<Rightarrow> groups \<Rightarrow> nat set" where
  "rest_free own u L1 N L2 = all_free own \<union> frees u 0 L1 \<union> frees u (size_of L1 + N) L2"

definition base :: "ba_state \<Rightarrow> owners \<Rightarrow> nat \<Rightarrow> groups \<Rightarrow> nat \<Rightarrow> groups \<Rightarrow> bool" where
  "base s own u L1 N L2 \<longleftrightarrow> own u = None \<and> mblocks_ok (bds s) own \<and> coalesced own \<and> (\<exists>MF MD. megas_ok s own MF MD) \<and>
    (\<exists>d. mblock_init (bds s) u d) \<and> lay (bds s) u 0 L1 \<and> lay (bds s) u (size_of L1 + N) L2 \<and> no_adj L1 \<and> no_adj L2 \<and>
    size_of L1 + N + size_of L2 = 252 \<and> N > 0"

definition pend :: "ba_state \<Rightarrow> owners \<Rightarrow> nat \<Rightarrow> groups \<Rightarrow> nat \<Rightarrow> groups \<Rightarrow> bool" where
  "pend s own u L1 N L2 \<longleftrightarrow> base s own u L1 N L2 \<and> blocks_of s (bd_at u (size_of L1)) = N \<and>
    bd_free (bds s (bd_at u (size_of L1))) = FREE_MARK \<and> (\<exists>FL. dlists s FL \<and> members (bds s) (rest_free own u L1 N L2) FL)"

lemma baseD:
  assumes "base s own u L1 N L2"
  shows "own u = None" "mblocks_ok (bds s) own" "coalesced own" "\<exists>MF MD. megas_ok s own MF MD" "\<exists>d. mblock_init (bds s) u d"
    "lay (bds s) u 0 L1" "lay (bds s) u (size_of L1 + N) L2" "no_adj L1" "no_adj L2" "size_of L1 + N + size_of L2 = 252" "N > 0"
  using assms by (auto simp: base_def)

lemma base_node:
  assumes "base s own u L1 N L2" "i < 252" "j < 252"
  shows "bd_node (bds s (bd_at u i)) = bd_node (bds s (bd_at u j))"
  using baseD(5) [OF assms(1)] assms(2,3) by (auto simp: mblock_init_def)

lemma base_keep:
  assumes "base s own u L1 N L2" "keeps own (bd_span u (size_of L1) (size_of L1 + N)) s s'"
  shows "base s' own u L1 N L2"
proof -
  note b = baseD [OF assms(1)] and k = keepsD [OF assms(2)]
  have "lay (bds s') u 0 L1 = lay (bds s) u 0 L1" by (rule lay_cong, rule k(3), subst in_span) (use b in auto)
  moreover have "lay (bds s') u (size_of L1 + N) L2 = lay (bds s) u (size_of L1 + N) L2"
    by (rule lay_cong, rule k(3), subst in_span) (use b in auto)
  moreover have "mblocks_ok (bds s') own"
  proof (rule mblocks_ok_keep [OF b(2) assms(2)])
    fix v j assume "own v \<noteq> None" "j < (252 :: nat)"
    then show "bd_at v j \<notin> bd_span u (size_of L1) (size_of L1 + N)" using b(1,10) by (subst in_span) auto
  qed
  moreover have "mblock_init (bds s') u d = mblock_init (bds s) u d" for d by (rule mblock_init_cong) (simp add: k(1,2))
  ultimately show ?thesis using b megas_ok_keep [OF _ assms(2)] unfolding base_def by blast
qed

lemma rest_free_at:
  assumes "base s own u L1 N L2" "x \<in> rest_free own u L1 N L2"
  shows "blocks_of s x > 0" "bd_free (bds s x) = FREE_MARK" "x \<notin> bd_span u (size_of L1) (size_of L1 + N)" "x \<noteq> 0"
    "own v = Some (Mega v k st) \<Longrightarrow> bd_at v 0 \<noteq> x"
proof -
  note b = baseD [OF assms(1)]
  have "\<exists>w j. x = bd_at w j \<and> j < 252 \<and> blocks_of s x > 0 \<and> bd_free (bds s x) = FREE_MARK \<and>
    ((\<exists>L. own w = Some (Split L)) \<or> w = u \<and> (j < size_of L1 \<or> size_of L1 + N \<le> j))"
  proof -
    from assms(2) consider "x \<in> all_free own" | "x \<in> frees u 0 L1" | "x \<in> frees u (size_of L1 + N) L2"
      by (auto simp: rest_free_def)
    then show ?thesis
    proof cases
      case 1
      from all_free_at [OF b(2) this] show ?thesis by metis
    next
      case 2
      from lay_frees [OF b(6) this] obtain j where "x = bd_at u j" "j < 0 + size_of L1" "blocks_of s x > 0" "bd_free (bds s x) = FREE_MARK" .
      with b(10) show ?thesis by (intro exI [of _ u] exI [of _ j]) auto
    next
      case 3
      from lay_frees [OF b(7) this] obtain j where "x = bd_at u j" "size_of L1 + N \<le> j" "j < size_of L1 + N + size_of L2"
        "blocks_of s x > 0" "bd_free (bds s x) = FREE_MARK" .
      with b(10) show ?thesis by (intro exI [of _ u] exI [of _ j]) auto
    qed
  qed
  then obtain w j where w: "x = bd_at w j" "j < 252" "blocks_of s x > 0" "bd_free (bds s x) = FREE_MARK"
    "(\<exists>L. own w = Some (Split L)) \<or> w = u \<and> (j < size_of L1 \<or> size_of L1 + N \<le> j)" by blast
  show "blocks_of s x > 0" "bd_free (bds s x) = FREE_MARK" "x \<noteq> 0" using w by simp_all
  show "x \<notin> bd_span u (size_of L1) (size_of L1 + N)"
    unfolding w(1) by (subst in_span) (use w(2,5) b(1,10) in auto)
  show "own v = Some (Mega v k st) \<Longrightarrow> bd_at v 0 \<noteq> x" using w b(1) by auto
qed

lemma mega_not_span: "base s own u L1 N L2 \<Longrightarrow> own v = Some (Mega v k st) \<Longrightarrow> j < 256 \<Longrightarrow> bd_at v 0 \<noteq> bd_at u j"
  using baseD(1) by fastforce

text \<open>Removing a free group from its list; adding one.\<close>

lemma take_off:
  assumes "base s own u L1 N L2" "dlists s FL" "members (bds s) F FL" "F \<subseteq> rest_free own u L1 N L2" "x \<in> F"
    "d = bd_node (bds s x)" "k = log_2 (blocks_of s x)"
  shows "keeps own {} s (dbl_link_remove x d k s)"
    "\<exists>FL'. dlists (dbl_link_remove x d k s) FL' \<and> members (bds (dbl_link_remove x d k s)) (F - {x}) FL'"
proof -
  note r = dlists_remove [OF assms(2,3,5,6,7)]
  show "\<exists>FL'. dlists (dbl_link_remove x d k s) FL' \<and> members (bds (dbl_link_remove x d k s)) (F - {x}) FL'" using r(1,3) by blast
  show "keeps own {} s (dbl_link_remove x d k s)"
  proof (rule keeps_lists [where F = F])
    fix y assume "y \<notin> F" then show "bds (dbl_link_remove x d k s) y = bds s y" by (intro r(2)) auto
  next
    fix y assume "y \<in> F" then show "blocks_of s y > 0" using rest_free_at(1) [OF assms(1)] assms(4) by blast
  next
    fix v k st assume "own v = Some (Mega v k st)" then show "bd_at v 0 \<notin> F" using rest_free_at(5) [OF assms(1)] assms(4) by blast
  qed simp_all
qed

lemma put_on:
  assumes "base s own u L1 N L2" "dlists s FL" "members (bds s) F FL" "F \<subseteq> rest_free own u L1 N L2" "x = bd_at u j" "j < 252" "x \<notin> F"
    "d = bd_node (bds s x)" "k = log_2 (blocks_of s x)" "blocks_of s x > 0"
  shows "keeps own {} s (dbl_link_onto x d k s)"
    "\<exists>FL'. dlists (dbl_link_onto x d k s) FL' \<and> members (bds (dbl_link_onto x d k s)) (insert x F) FL'"
proof -
  have "x \<noteq> 0" by (simp add: assms(5))
  note r = dlists_onto [OF assms(2,3,7) this assms(8,9)]
  show "\<exists>FL'. dlists (dbl_link_onto x d k s) FL' \<and> members (bds (dbl_link_onto x d k s)) (insert x F) FL'" using r(1,3) by blast
  show "keeps own {} s (dbl_link_onto x d k s)"
  proof (rule keeps_lists [where F = "insert x F"])
    fix y assume "y \<notin> insert x F" then show "bds (dbl_link_onto x d k s) y = bds s y" by (rule r(2))
  next
    fix y assume "y \<in> insert x F" then show "blocks_of s y > 0" using rest_free_at(1) [OF assms(1)] assms(4,10) by blast
  next
    fix v k st assume v: "own v = Some (Mega v k st)"
    then show "bd_at v 0 \<notin> insert x F" using rest_free_at(5) [OF assms(1) _ v] assms(4-6) mega_not_span [OF assms(1) v, of j] by auto
  qed simp_all
qed

text \<open>Setting the descriptors inside the group.\<close>

lemma set_inside:
  assumes "base s own u L1 N L2" "dlists s FL" "members (bds s) F FL" "F \<subseteq> rest_free own u L1 N L2" "size_of L1 \<le> j" "j < size_of L1 + N"
    "\<And>b. bd_start (f b) = bd_start b \<and> bd_node (f b) = bd_node b"
  shows "keeps own (bd_span u (size_of L1) (size_of L1 + N)) s (upd_bd (bd_at u j) f s)"
    "dlists (upd_bd (bd_at u j) f s) FL" "members (bds (upd_bd (bd_at u j) f s)) F FL"
proof -
  have j: "bd_at u j \<in> bd_span u (size_of L1) (size_of L1 + N)" using assms(5,6) by simp
  then have "bd_at u j \<notin> F" using rest_free_at(3) [OF assms(1)] assms(4) by blast
  from dlists_upd [OF assms(2,3) this]
  show "dlists (upd_bd (bd_at u j) f s) FL" "members (bds (upd_bd (bd_at u j) f s)) F FL" by simp_all
  have "keeps own {bd_at u j} s (upd_bd (bd_at u j) f s)"
    by (rule keeps_upd [OF assms(7)]) (use mega_not_span [OF assms(1)] assms(6) baseD(10) [OF assms(1)] in auto)
  from keeps_trans [OF this keeps_refl [of own "{}"]] j
  show "keeps own (bd_span u (size_of L1) (size_of L1 + N)) s (upd_bd (bd_at u j) f s)" by blast
qed

lemma no_adj_tl: "no_adj (a # L) \<Longrightarrow> no_adj L"
  by (cases L) auto

lemma base_forward: "base s own u L1 N ((n, f) # L2) \<Longrightarrow> base s own u L1 (N + n) L2"
  by (auto simp: base_def add.assoc dest: no_adj_tl)

lemma base_backward: "base s own u (L1 @ [(n, f)]) N L2 \<Longrightarrow> base s own u L1 (n + N) L2"
  by (auto simp: base_def add.assoc no_adj_append group_at_def)

lemma rest_free_forward:
  assumes "base s own u L1 N ((n, True) # L2)"
  shows "rest_free own u L1 N ((n, True) # L2) - {bd_at u (size_of L1 + N)} = rest_free own u L1 (N + n) L2"
    "bd_at u (size_of L1 + N) \<in> rest_free own u L1 N ((n, True) # L2)"
proof -
  have "group_at (bds s) u (size_of L1 + N) n True" using baseD(7) [OF assms] by simp
  then have "n > 0" by (simp add: group_at_def)
  then have "bd_at u (size_of L1 + N) \<in> bd_span u (size_of L1) (size_of L1 + (N + n))" by (intro imageI) auto
  then have "bd_at u (size_of L1 + N) \<notin> rest_free own u L1 (N + n) L2"
    using rest_free_at(3) [OF base_forward [OF assms]] by blast
  then show "rest_free own u L1 N ((n, True) # L2) - {bd_at u (size_of L1 + N)} = rest_free own u L1 (N + n) L2"
    by (auto simp: rest_free_def add.assoc)
qed (simp add: rest_free_def)

lemma rest_free_backward:
  assumes "base s own u (L1 @ [(n, True)]) N L2"
  shows "rest_free own u (L1 @ [(n, True)]) N L2 - {bd_at u (size_of L1)} = rest_free own u L1 (n + N) L2"
    "bd_at u (size_of L1) \<in> rest_free own u (L1 @ [(n, True)]) N L2"
proof -
  have "bd_at u (size_of L1) \<in> bd_span u (size_of L1) (size_of L1 + (n + N))" using baseD(11) [OF assms] by (intro imageI) auto
  then have "bd_at u (size_of L1) \<notin> rest_free own u L1 (n + N) L2"
    using rest_free_at(3) [OF base_backward [OF assms]] by blast
  then show "rest_free own u (L1 @ [(n, True)]) N L2 - {bd_at u (size_of L1)} = rest_free own u L1 (n + N) L2"
    by (auto simp: rest_free_def add.assoc)
qed (simp add: rest_free_def)

lemma upd_bd_simps [simp]:
  "bds (upd_bd p f s) = (bds s)(p := f (bds s p))" "free_mblock_list (upd_bd p f s) = free_mblock_list s"
  "free_list (upd_bd p f s) = free_list s" "n_alloc_blocks (upd_bd p f s) = n_alloc_blocks s"
  "deferred_free_mblock_list (upd_bd p f s) = deferred_free_mblock_list s" "defer_mblock_frees (upd_bd p f s) = defer_mblock_frees s"
  by (simp_all add: upd_bd_def)

lemma setup_tail_at:
  assumes "blocks_of s (bd_at u i) = n" "n > 0" "i + n \<le> 252"
  shows "setup_tail (bd_at u i) s = (if n = 1 then s else upd_bd (bd_at u (i + n - 1)) (\<lambda>b. b\<lparr>bd_blocks := 0, bd_free := 0, bd_link := bd_at u i\<rparr>) s)"
proof -
  have "bd_at u (i + (n - 1)) = bd_at u i \<longleftrightarrow> n = 1" using assms(2,3) by (subst bd_at_eq) auto
  moreover have "i + n - 1 = i + (n - 1)" using assms(2) by simp
  ultimately show ?thesis by (simp add: setup_tail_def tail_of_def assms(1) Let_def)
qed

lemma full_iff:
  assumes "base s own u L1 N L2"
  shows "N = 252 \<longleftrightarrow> L1 = [] \<and> L2 = []"
proof -
  note b = baseD [OF assms]
  have "L1 = []" if "size_of L1 = 0" using that b(6) by (cases L1) (auto simp: group_at_def)
  moreover have "L2 = []" if "size_of L2 = 0" using that b(7) by (cases L2) (auto simp: group_at_def)
  ultimately show ?thesis using b(10) by auto
qed

lemma forward_merge:
  assumes "pend s own u L1 N ((n, True) # L2)" "p = bd_at u (size_of L1)" "d = bd_node (bds s p)"
  obtains s' where "coalesce_forwards d p s = (L1 = [] \<and> L2 = [], s')" "pend s' own u L1 (N + n) L2"
    "n_alloc_blocks s' = n_alloc_blocks s" "defer_mblock_frees s' = defer_mblock_frees s" "\<And>a. bd_node (bds s' a) = bd_node (bds s a)"
proof -
  let ?i = "size_of L1" and ?L = "(n, True) # L2"
  let ?x = "bd_at u (?i + N)"
  have b: "base s own u L1 N ?L" using assms(1) by (simp add: pend_def)
  obtain FL where FL: "dlists s FL" "members (bds s) (rest_free own u L1 N ?L) FL" using assms(1) by (auto simp: pend_def)
  have p: "blocks_of s p = N" "bd_free (bds s p) = FREE_MARK" using assms(1,2) by (simp_all add: pend_def)
  have x: "blocks_of s ?x = n" "bd_free (bds s ?x) = FREE_MARK" "n > 0" using baseD(7) [OF b] by (simp_all add: group_at_def)
  have sz: "?i + N + n + size_of L2 = 252" "N > 0" using baseD(10,11) [OF b] by simp_all
  note b' = base_forward [OF b] and rf = rest_free_forward [OF b]
  have sub: "rest_free own u L1 (N + n) L2 \<subseteq> rest_free own u L1 N ?L" using rf(1) by blast
  have px: "p \<noteq> ?x" unfolding assms(2) using sz x(3) by (subst bd_at_eq) auto
  define s1 where "s1 = upd_bd p (\<lambda>b. b\<lparr>bd_blocks := bd_blocks b + n\<rparr>) s"
  have i1: "?i \<le> ?i" "?i < ?i + N" using sz by simp_all
  have f1: "\<And>b. bd_start (b\<lparr>bd_blocks := bd_blocks b + n\<rparr>) = bd_start b \<and> bd_node (b\<lparr>bd_blocks := bd_blocks b + n\<rparr>) = bd_node b" by simp
  note s1 = set_inside [OF b FL subset_refl i1, where f = "\<lambda>b. b\<lparr>bd_blocks := bd_blocks b + n\<rparr>", OF f1, folded assms(2), folded s1_def]
  have b1: "base s1 own u L1 N ?L" by (rule base_keep [OF b s1(1)])
  define s2 where "s2 = dbl_link_remove ?x d (log_2 n) s1"
  have d: "d = bd_node (bds s1 ?x)" "log_2 n = log_2 (blocks_of s1 ?x)"
    using base_node [OF b, of ?i "?i + N"] sz x px by (simp_all add: assms(2,3) s1_def)
  note s2 = take_off [OF b1 s1(2,3) subset_refl rf(2) d, folded s2_def]
  obtain FL2 where FL2: "dlists s2 FL2" "members (bds s2) (rest_free own u L1 (N + n) L2) FL2" using s2(2) unfolding rf(1) by blast
  have k2: "keeps own (bd_span u ?i (?i + (N + n))) s s2"
    by (rule keeps_trans [OF s1(1) s2(1)]) auto
  have b2: "base s2 own u L1 (N + n) L2" by (rule base_keep [OF b' k2])
  have p2: "blocks_of s2 p = N + n" "bd_free (bds s2 p) = FREE_MARK" using p px by (simp_all add: s2_def s1_def)
  define s3 where "s3 = setup_tail p s2"
  have len: "N + n > 0" "?i + (N + n) \<le> 252" "N + n \<noteq> 1" using sz x(3) by auto
  then have s3': "s3 = upd_bd (bd_at u (?i + (N + n) - 1)) (\<lambda>b. b\<lparr>bd_blocks := 0, bd_free := 0, bd_link := p\<rparr>) s2"
    unfolding s3_def assms(2) using setup_tail_at [OF p2(1) [unfolded assms(2)] len(1,2)] by simp
  have i3: "?i \<le> ?i + (N + n) - 1" "?i + (N + n) - 1 < ?i + (N + n)" using len by auto
  have f3: "\<And>b. bd_start (b\<lparr>bd_blocks := 0, bd_free := 0, bd_link := p\<rparr>) = bd_start b \<and> bd_node (b\<lparr>bd_blocks := 0, bd_free := 0, bd_link := p\<rparr>) = bd_node b" by simp
  note s3 = set_inside [OF b2 FL2 subset_refl i3, where f = "\<lambda>b. b\<lparr>bd_blocks := 0, bd_free := 0, bd_link := p\<rparr>", OF f3, folded s3']
  have b3: "base s3 own u L1 (N + n) L2" by (rule base_keep [OF b2 s3(1)])
  have "p \<noteq> bd_at u (?i + (N + n) - 1)" unfolding assms(2) using len by (subst bd_at_eq) auto
  then have p3: "blocks_of s3 p = N + n" "bd_free (bds s3 p) = FREE_MARK" using p2 by (simp_all add: s3')
  have pend2: "pend s2 own u L1 (N + n) L2" using b2 p2 FL2 by (auto simp: pend_def assms(2))
  have pend3: "pend s3 own u L1 (N + n) L2" using b3 p3 s3(2,3) by (auto simp: pend_def assms(2))
  have next': "bd_plus p (blocks_of s p) = ?x" "?x \<le> LAST_BDESCR (MBLOCK_ROUND_DOWN p)"
    unfolding p(1) unfolding assms(2) using sz x(3) by simp_all
  have cf: "coalesce_forwards d p s = (if blocks_of s2 p = BLOCKS_PER_MBLOCK then (True, s2) else (False, s3))"
    unfolding coalesce_forwards_def next' Let_def using next'(2) x(2) by (simp add: x(1) s1_def [symmetric] s2_def [symmetric] s3_def [symmetric])
  have full: "blocks_of s2 p = BLOCKS_PER_MBLOCK \<longleftrightarrow> L1 = [] \<and> L2 = []" using full_iff [OF b2] by (simp add: p2 ba_consts)
  have st: "n_alloc_blocks s2 = n_alloc_blocks s" "defer_mblock_frees s2 = defer_mblock_frees s" "bd_node (bds s2 a) = bd_node (bds s a)" for a
    by (simp_all add: s2_def s1_def)
  show thesis
  proof (cases "L1 = [] \<and> L2 = []")
    case True
    then show thesis using that [of s2] cf full pend2 st by simp
  next
    case False
    have "n_alloc_blocks s3 = n_alloc_blocks s" "defer_mblock_frees s3 = defer_mblock_frees s" "bd_node (bds s3 a) = bd_node (bds s a)" for a
      using st by (simp_all add: s3')
    moreover have "coalesce_forwards d p s = (L1 = [] \<and> L2 = [], s3)" using cf full False by auto
    ultimately show thesis using that pend3 by blast
  qed
qed

lemma forward_none:
  assumes "pend s own u L1 N L2" "p = bd_at u (size_of L1)" "L2 = [] \<or> \<not> snd (hd L2)"
  shows "coalesce_forwards d p s = (False, s)"
proof -
  have b: "base s own u L1 N L2" and p: "blocks_of s p = N" using assms(1,2) by (simp_all add: pend_def)
  have next': "bd_plus p (blocks_of s p) = bd_at u (size_of L1 + N)" unfolding p unfolding assms(2) by simp
  show ?thesis
  proof (cases L2)
    case Nil
    then have "size_of L1 + N = 252" using baseD(10) [OF b] by simp
    moreover have "size_of L1 < 252" using baseD(10,11) [OF b] by simp
    ultimately have "\<not> bd_plus p (blocks_of s p) \<le> LAST_BDESCR (MBLOCK_ROUND_DOWN p)" unfolding next' unfolding assms(2) by simp
    then show ?thesis by (simp add: coalesce_forwards_def)
  next
    case (Cons a L)
    obtain n where "a = (n, False)" using assms(3) Cons by (cases a) auto
    then have "bd_free (bds s (bd_at u (size_of L1 + N))) \<noteq> FREE_MARK" using baseD(7) [OF b] by (simp add: Cons group_at_def)
    then show ?thesis by (simp add: coalesce_forwards_def next')
  qed
qed

lemma backward_merge:
  assumes "pend s own u (L1 @ [(n, True)]) N L2" "p = bd_at u (size_of L1 + n)" "d = bd_node (bds s p)"
  obtains s' where "coalesce_backwards d p s = (L1 = [] \<and> L2 = [], bd_at u (size_of L1), s')" "pend s' own u L1 (n + N) L2"
    "n_alloc_blocks s' = n_alloc_blocks s" "defer_mblock_frees s' = defer_mblock_frees s" "\<And>a. bd_node (bds s' a) = bd_node (bds s a)"
proof -
  let ?i = "size_of L1" and ?L = "L1 @ [(n, True)]"
  let ?x = "bd_at u ?i"
  have b: "base s own u ?L N L2" using assms(1) by (simp add: pend_def)
  obtain FL where FL: "dlists s FL" "members (bds s) (rest_free own u ?L N L2) FL" using assms(1) by (auto simp: pend_def)
  have p: "blocks_of s p = N" "bd_free (bds s p) = FREE_MARK" using assms(1,2) by (simp_all add: pend_def)
  have x: "blocks_of s ?x = n" "bd_free (bds s ?x) = FREE_MARK" "n > 0"
    "n > 1 \<Longrightarrow> blocks_of s (bd_at u (?i + n - 1)) = 0 \<and> link_of s (bd_at u (?i + n - 1)) = ?x"
    using baseD(6) [OF b] by (simp_all add: group_at_def)
  have sz: "?i + n + N + size_of L2 = 252" "N > 0" using baseD(10,11) [OF b] by simp_all
  note b' = base_backward [OF b] and rf = rest_free_backward [OF b]
  have px: "p \<noteq> ?x" unfolding assms(2) using sz x(3) by (subst bd_at_eq) auto
  have d: "d = bd_node (bds s ?x)" "log_2 (blocks_of s ?x) = log_2 (blocks_of s ?x)"
    using base_node [OF b, of ?i "?i + n"] sz by (simp_all add: assms(2,3))
  define s2 where "s2 = dbl_link_remove ?x d (log_2 (blocks_of s ?x)) s"
  note s2 = take_off [OF b FL subset_refl rf(2) d, folded s2_def]
  obtain FL2 where FL2: "dlists s2 FL2" "members (bds s2) (rest_free own u L1 (n + N) L2) FL2" using s2(2) unfolding rf(1) by blast
  have "keeps own (bd_span u ?i (?i + (n + N))) s s2" by (rule keeps_trans [OF s2(1) keeps_refl [where P = "{}"]]) auto
  then have b2: "base s2 own u L1 (n + N) L2" by (rule base_keep [OF b'])
  define s3 where "s3 = upd_bd ?x (\<lambda>b. b\<lparr>bd_blocks := bd_blocks b + N\<rparr>) s2"
  have i3: "?i \<le> ?i" "?i < ?i + (n + N)" using sz by simp_all
  have f3: "\<And>b. bd_start (b\<lparr>bd_blocks := bd_blocks b + N\<rparr>) = bd_start b \<and> bd_node (b\<lparr>bd_blocks := bd_blocks b + N\<rparr>) = bd_node b" by simp
  note s3 = set_inside [OF b2 FL2 subset_refl i3, where f = "\<lambda>b. b\<lparr>bd_blocks := bd_blocks b + N\<rparr>", OF f3, folded s3_def]
  have b3: "base s3 own u L1 (n + N) L2" by (rule base_keep [OF b2 s3(1)])
  have x3: "blocks_of s3 ?x = n + N" "bd_free (bds s3 ?x) = FREE_MARK" using x by (simp_all add: s3_def s2_def)
  have pend3: "pend s3 own u L1 (n + N) L2" using b3 x3 s3(2,3) by (auto simp: pend_def)
  have first: "p \<noteq> FIRST_BDESCR (MBLOCK_ROUND_DOWN p)" unfolding assms(2) using sz x(3) by simp
  have prev: "p - BDESCR_SIZE = bd_at u (?i + n - 1)" unfolding assms(2) using x(3) by simp
  have head: "(if blocks_of s (p - BDESCR_SIZE) = 0 then link_of s (p - BDESCR_SIZE) else p - BDESCR_SIZE) = ?x"
    unfolding prev using x by (cases "n = 1") auto
  have cb: "coalesce_backwards d p s = (blocks_of s3 ?x \<ge> BLOCKS_PER_MBLOCK, ?x, s3)"
    unfolding coalesce_backwards_def Let_def head using first x(2) px by (simp add: s2_def [symmetric] s3_def p(1)) (simp add: s2_def p(1))
  have full: "blocks_of s3 ?x \<ge> BLOCKS_PER_MBLOCK \<longleftrightarrow> L1 = [] \<and> L2 = []"
  proof -
    have "n + N \<ge> 252 \<longleftrightarrow> n + N = 252" using baseD(10) [OF b3] by linarith
    then show ?thesis using full_iff [OF b3] by (simp add: x3 ba_consts)
  qed
  show thesis using that [of s3] cb full pend3 by (simp add: s3_def s2_def)
qed

lemma backward_none:
  assumes "pend s own u L1 N L2" "p = bd_at u (size_of L1)" "L1 = [] \<or> \<not> snd (last L1)"
  shows "coalesce_backwards d p s = (False, p, s)"
proof -
  have b: "base s own u L1 N L2" using assms(1) by (simp add: pend_def)
  have sz: "size_of L1 < 252" using baseD(10,11) [OF b] by simp
  show ?thesis
  proof (cases L1 rule: rev_cases)
    case Nil
    then show ?thesis by (simp add: coalesce_backwards_def assms(2))
  next
    case (snoc L a)
    obtain n where a: "a = (n, False)" using assms(3) snoc by (cases a) auto
    let ?x = "bd_at u (size_of L)"
    have x: "blocks_of s ?x = n" "bd_free (bds s ?x) \<noteq> FREE_MARK" "n > 0"
      "n > 1 \<Longrightarrow> blocks_of s (bd_at u (size_of L + n - 1)) = 0 \<and> link_of s (bd_at u (size_of L + n - 1)) = ?x"
      using baseD(6) [OF b] by (simp_all add: snoc a group_at_def)
    have prev: "p - BDESCR_SIZE = bd_at u (size_of L + n - 1)" unfolding assms(2) using x(3) by (simp add: snoc a)
    have head: "(if blocks_of s (p - BDESCR_SIZE) = 0 then link_of s (p - BDESCR_SIZE) else p - BDESCR_SIZE) = ?x"
      unfolding prev using x by (cases "n = 1") auto
    show ?thesis unfolding coalesce_backwards_def Let_def head using x(2) by simp
  qed
qed

text \<open>Adding a split megablock.\<close>

lemma mblocks_ok_split:
  assumes "own u = None"
  shows "mblocks_ok m (own(u \<mapsto> Split L)) \<longleftrightarrow> mblocks_ok m own \<and> split_ok m u L"
proof -
  have "mega_ok m (own(u \<mapsto> Split L)) v k st = mega_ok m own v k st" if "own v = Some (Mega v k st)" for v k st
    using that assms unfolding mega_ok_def by (metis fun_upd_apply mowner.distinct(1) option.distinct(1) option.inject)
  moreover have "mega_ok m (own(u \<mapsto> Split L)) v k st \<Longrightarrow> own v = Some (Mega v k st)" for v k st
    using mega_ok_head [of m "own(u \<mapsto> Split L)" v k st] by (auto split: if_splits)
  ultimately have mega: "mega_ok m (own(u \<mapsto> Split L)) v k st = mega_ok m own v k st" for v k st
    using mega_ok_head by metis
  show ?thesis
  proof
    assume h: "mblocks_ok m (own(u \<mapsto> Split L))"
    have "own v = Some x \<Longrightarrow> (own(u \<mapsto> Split L)) v = Some x" for v x using assms by auto
    with h show "mblocks_ok m own \<and> split_ok m u L" unfolding mblocks_ok_def mega by (metis fun_upd_same)
  next
    assume h: "mblocks_ok m own \<and> split_ok m u L"
    then show "mblocks_ok m (own(u \<mapsto> Split L))" unfolding mblocks_ok_def mega by (auto split: if_splits)
  qed
qed

lemma own_split:
  assumes "own u = None"
  shows "(own(u \<mapsto> Split L)) v = Some (Mega w k st) \<longleftrightarrow> own v = Some (Mega w k st)"
    "(own(u \<mapsto> Split L)) v = Some (Split L') \<longleftrightarrow> own v = Some (Split L') \<or> v = u \<and> L' = L"
  using assms by auto

lemma all_free_split: "own u = None \<Longrightarrow> all_free (own(u \<mapsto> Split L)) = all_free own \<union> frees u 0 L"
  unfolding all_free_def own_split by blast

lemma allocs_split: "own u = None \<Longrightarrow> allocs (own(u \<mapsto> Split L)) = allocs own \<union> busies u 0 L"
  unfolding allocs_def own_split by blast

lemma coalesced_split: "own u = None \<Longrightarrow> coalesced (own(u \<mapsto> Split L)) \<longleftrightarrow> coalesced own \<and> no_adj L"
  unfolding coalesced_def own_split by blast

lemma megas_ok_split: "own u = None \<Longrightarrow> megas_ok s (own(u \<mapsto> Split L)) = megas_ok s own"
  unfolding megas_ok_def own_split ..

lemma pend_finish:
  assumes "pend s own u L1 N L2" "p = bd_at u (size_of L1)" "d = bd_node (bds s p)"
    "L1 = [] \<or> \<not> snd (last L1)" "L2 = [] \<or> \<not> snd (hd L2)" "L1 \<noteq> [] \<or> L2 \<noteq> []"
  defines "s' \<equiv> free_list_insert d p (setup_tail p s)" and "own' \<equiv> own(u \<mapsto> Split (L1 @ (N, True) # L2))"
  shows "ba_inv s' own'" "n_alloc_blocks s' = n_alloc_blocks s" "defer_mblock_frees s' = defer_mblock_frees s"
proof -
  let ?i = "size_of L1" and ?R = "rest_free own u L1 N L2"
  have b: "base s own u L1 N L2" using assms(1) by (simp add: pend_def)
  obtain FL where FL: "dlists s FL" "members (bds s) ?R FL" using assms(1) by (auto simp: pend_def)
  have p: "blocks_of s p = N" "bd_free (bds s p) = FREE_MARK" using assms(1,2) by (simp_all add: pend_def)
  have sz: "?i + N + size_of L2 = 252" "N > 0" using baseD(10,11) [OF b] by simp_all
  define s1 where "s1 = setup_tail p s"
  let ?t = "bd_at u (?i + N - 1)" and ?f = "\<lambda>b. b\<lparr>bd_blocks := 0, bd_free := 0, bd_link := p\<rparr>"
  have s1: "s1 = (if N = 1 then s else upd_bd ?t ?f s)"
    using setup_tail_at [OF p(1) [unfolded assms(2)] sz(2)] sz(1) by (simp add: s1_def assms(2))
  have tp: "?t = p \<longleftrightarrow> N = 1" unfolding assms(2) using sz by (subst bd_at_eq) auto
  have i3: "?i \<le> ?i + N - 1" "?i + N - 1 < ?i + N" using sz(2) by auto
  have f3: "\<And>b. bd_start (?f b) = bd_start b \<and> bd_node (?f b) = bd_node b" by simp
  note set = set_inside [OF b FL subset_refl i3, where f = ?f, OF f3]
  have k1: "keeps own (bd_span u ?i (?i + N)) s s1" "dlists s1 FL" "members (bds s1) ?R FL"
    using set FL keeps_trans [OF keeps_refl [of own "{}"] keeps_refl [of own "{}"]] by (auto simp: s1)
  have b1: "base s1 own u L1 N L2" by (rule base_keep [OF b k1(1)])
  have p1: "blocks_of s1 p = N" "bd_free (bds s1 p) = FREE_MARK" using p tp by (auto simp: s1)
  have g1: "group_at (bds s1) u ?i N True" using p1 sz(2) tp by (auto simp: group_at_def s1 assms(2) [symmetric])
  have "p \<in> bd_span u ?i (?i + N)" unfolding assms(2) using sz(2) by (intro imageI) auto
  then have pR: "p \<notin> ?R" using rest_free_at(3) [OF b] by blast
  have d1: "d = bd_node (bds s1 p)" using keepsD(2) [OF k1(1)] assms(3) by simp
  have "?i < 252" "blocks_of s1 p > 0" using sz p1 by simp_all
  note on = put_on [OF b1 k1(2,3) subset_refl assms(2) this(1) pR d1 refl this(2)]
  have s': "s' = dbl_link_onto p d (log_2 (blocks_of s1 p)) s1" by (simp add: s'_def s1_def free_list_insert_def)
  note on = on [folded s']
  have b2: "base s' own u L1 N L2"
    by (rule base_keep [OF b1], rule keeps_trans [OF on(1) keeps_refl [where P = "{}"]]) auto
  note b2D = baseD [OF b2]
  have "tag (bds s') a = tag (bds s1) a" for a using keepsD(3) [OF on(1)] by simp
  then have g2: "group_at (bds s') u ?i N True" using g1 group_at_cong [of "bds s'" u ?i "bds s1"] by simp
  let ?L = "L1 @ (N, True) # L2"
  have "length ?L > 1" using assms(6) by (cases L1; cases L2) auto
  then have ok: "split_ok (bds s') u ?L" using b2D(5-7) g2 sz by (simp add: split_ok_def)
  have adj: "no_adj ?L" using b2D(8,9) assms(4,5) by (cases L2) (auto simp: no_adj_append)
  have fr: "all_free own' = insert p ?R"
    unfolding own'_def using b2D(1) by (simp add: all_free_split rest_free_def assms(2)) blast
  show "ba_inv s' own'"
    unfolding ba_inv_def fr using on(2) b2D(1-4) ok adj by (simp add: own'_def mblocks_ok_split coalesced_split megas_ok_split)
  show "n_alloc_blocks s' = n_alloc_blocks s" "defer_mblock_frees s' = defer_mblock_frees s" by (simp_all add: s' s1)
qed

end
