(* ===== verification/BlockMegas.thy ===== *)
theory BlockMegas
  imports BlockGroups
begin

text \<open>
  Groups of megablocks: what putting one on the sorted free list, coalescing it with its neighbours, and taking one off do
  to the invariant of the block allocator.
\<close>

section \<open>Owners\<close>

definition own_mega :: "owners \<Rightarrow> nat \<Rightarrow> nat \<Rightarrow> mstate \<Rightarrow> owners" where
  "own_mega own v k st = (\<lambda>w. if v \<le> w \<and> w < v + k then Some (Mega v k st) else own w)"

definition disown :: "owners \<Rightarrow> nat \<Rightarrow> nat \<Rightarrow> owners" where
  "disown own v k = (\<lambda>w. if v \<le> w \<and> w < v + k then None else own w)"

definition fresh :: "owners \<Rightarrow> nat \<Rightarrow> nat \<Rightarrow> bool" where
  "fresh own v k \<longleftrightarrow> (\<forall>w. v \<le> w \<and> w < v + k \<longrightarrow> own w = None)"

text \<open>No group of megablocks lies across the borders of the interval, which has no split megablock.\<close>

definition clean :: "owners \<Rightarrow> nat \<Rightarrow> nat \<Rightarrow> bool" where
  "clean own v k \<longleftrightarrow> (\<forall>w. v \<le> w \<and> w < v + k \<longrightarrow> (\<forall>L. own w \<noteq> Some (Split L))) \<and>
    (\<forall>w x l st. own w = Some (Mega x l st) \<longrightarrow> (v \<le> w \<and> w < v + k \<longleftrightarrow> v \<le> x \<and> x + l \<le> v + k))"

lemma fresh_disown: "fresh (disown own v k) v k"
  by (simp add: fresh_def disown_def)

lemma fresh_clean: "mblocks_ok m own \<Longrightarrow> fresh own v k \<Longrightarrow> clean own v k"
  unfolding clean_def
proof (intro conjI allI impI)
  fix w x l st assume m: "mblocks_ok m own" "fresh own v k" and w: "own w = Some (Mega x l st)"
  note ok = megaD [OF m(1) w]
  have "l > 0" "own x = Some (Mega x l st)" using ok(3) mega_ok_head by (auto simp: mega_ok_def)
  then show "v \<le> w \<and> w < v + k \<longleftrightarrow> v \<le> x \<and> x + l \<le> v + k" using m(2) w unfolding fresh_def
    by (metis le_add1 less_add_same_cancel1 option.distinct(1) order_less_le_trans)
qed (auto simp: fresh_def)

lemma mega_clean:
  assumes "mblocks_ok m own" "own v = Some (Mega v k st)"
  shows "clean own v k"
  unfolding clean_def
proof (intro conjI allI impI)
  note ok = megaD(3) [OF assms]
  then have int: "v \<le> w \<Longrightarrow> w < v + k \<Longrightarrow> own w = Some (Mega v k st)" for w by (auto simp: mega_ok_def)
  show "own w \<noteq> Some (Split L)" if "v \<le> w \<and> w < v + k" for w L using int that by simp
  fix w x l st' assume w: "own w = Some (Mega x l st')"
  note ok' = megaD [OF assms(1) w]
  have l: "l > 0" "own x = Some (Mega x l st')" using ok'(3) mega_ok_head by (auto simp: mega_ok_def)
  show "v \<le> w \<and> w < v + k \<longleftrightarrow> v \<le> x \<and> x + l \<le> v + k"
  proof
    assume "v \<le> w \<and> w < v + k"
    with int w have "x = v" "l = k" by force+
    then show "v \<le> x \<and> x + l \<le> v + k" by simp
  next
    assume "v \<le> x \<and> x + l \<le> v + k"
    with ok'(1,2) show "v \<le> w \<and> w < v + k" by simp
  qed
qed

section \<open>Changing the owners\<close>

definition mega_sets :: "ba_state \<Rightarrow> owners \<Rightarrow> megas \<Rightarrow> megas \<Rightarrow> bool" where
  "mega_sets s own MF MD \<longleftrightarrow>
    (\<forall>d. mega_list (bds s) (free_mblock_list s d) (MF d) \<and> mega_list (bds s) (deferred_free_mblock_list s d) (MD d)) \<and>
    (\<forall>d v k. (v, k) \<in> set (MF d) \<longleftrightarrow> own v = Some (Mega v k Listed) \<and> bd_node (bds s (bd_at v 0)) = d) \<and>
    (\<forall>d v k. (v, k) \<in> set (MD d) \<longleftrightarrow> own v = Some (Mega v k Deferred) \<and> bd_node (bds s (bd_at v 0)) = d)"

definition minv :: "ba_state \<Rightarrow> owners \<Rightarrow> megas \<Rightarrow> megas \<Rightarrow> bool" where
  "minv s own MF MD \<longleftrightarrow> mblocks_ok (bds s) own \<and> coalesced own \<and>
    (\<exists>FL. dlists s FL \<and> members (bds s) (all_free own) FL) \<and> mega_sets s own MF MD"

abbreviation gaps :: "(nat \<times> nat) list \<Rightarrow> bool" where
  "gaps \<equiv> sorted_wrt (\<lambda>(v, k) (w, l). v + k < w)"

lemma ba_inv_iff: "ba_inv s own \<longleftrightarrow> (\<exists>MF MD. minv s own MF MD \<and> (\<forall>d. gaps (MF d)))"
  unfolding ba_inv_def minv_def megas_ok_def mega_sets_def by blast

lemma minvD:
  assumes "minv s own MF MD"
  shows "mblocks_ok (bds s) own" "coalesced own" "\<exists>FL. dlists s FL \<and> members (bds s) (all_free own) FL"
    "mega_list (bds s) (free_mblock_list s d) (MF d)" "mega_list (bds s) (deferred_free_mblock_list s d) (MD d)"
    "(v, k) \<in> set (MF d) \<longleftrightarrow> own v = Some (Mega v k Listed) \<and> bd_node (bds s (bd_at v 0)) = d"
    "(v, k) \<in> set (MD d) \<longleftrightarrow> own v = Some (Mega v k Deferred) \<and> bd_node (bds s (bd_at v 0)) = d"
  using assms unfolding minv_def mega_sets_def by blast+

lemma minv_step:
  assumes "minv s own MF MD"
    and split: "\<And>u L. own' u = Some (Split L) \<longleftrightarrow> own u = Some (Split L)"
    and init: "\<And>a. bd_start (bds s' a) = bd_start (bds s a) \<and> bd_node (bds s' a) = bd_node (bds s a)"
    and same: "\<And>u L j. own u = Some (Split L) \<Longrightarrow> j < 252 \<Longrightarrow> bds s' (bd_at u j) = bds s (bd_at u j)"
    and fl: "free_list s' = free_list s"
    and mega: "\<And>u v k st. own' u = Some (Mega v k st) \<Longrightarrow> v \<le> u \<and> u < v + k \<and> mega_ok (bds s') own' v k st"
    and sets: "mega_sets s' own' MF' MD'"
  shows "minv s' own' MF' MD'"
proof -
  note i = minvD [OF assms(1)]
  have fr: "all_free own' = all_free own" unfolding all_free_def split ..
  have "split_ok (bds s') u L" if u: "own u = Some (Split L)" for u L
  proof -
    note ok = split_okD [OF i(1) u]
    have "lay (bds s') u 0 L = lay (bds s) u 0 L" by (rule lay_cong) (use same [OF u] ok(2) in \<open>auto simp: tag_def\<close>)
    then show ?thesis using ok mblock_init_cong [OF init] by (auto simp: split_ok_def)
  qed
  then have ok: "mblocks_ok (bds s') own'" using mega unfolding mblocks_ok_def split by blast
  obtain FL where FL: "dlists s FL" "members (bds s) (all_free own) FL" using i(3) by blast
  have same': "bds s' x = bds s x" if "x \<in> all_free own" for x
    using all_free_at [OF i(1) that] same by metis
  have mem: "x \<in> set (FL d k) \<Longrightarrow> x \<in> all_free own" for x d k using FL(2) by (simp add: members_def)
  have "dlist (bds s') p (FL d k) = dlist (bds s) p (FL d k)" for p d k
    by (rule dl_list_cong) (use mem same' in metis)
  then have "dlists s' FL" using FL(1) by (simp add: dlists_def fl)
  moreover have "members (bds s') (all_free own) FL" using FL(2) same' unfolding members_def by metis
  ultimately show ?thesis using ok i(2) sets unfolding minv_def fr coalesced_def split by blast
qed

lemma mega_ok_keep:
  assumes "mega_ok m own v k st" "\<And>w. v \<le> w \<Longrightarrow> w < v + k \<Longrightarrow> own' w = own w"
    "\<And>a. bd_start (m' a) = bd_start (m a) \<and> bd_node (m' a) = bd_node (m a)" "bd_blocks (m' (bd_at v 0)) = bd_blocks (m (bd_at v 0))"
  shows "mega_ok m' own' v k st"
  using assms mblock_init_cong [OF assms(3)] by (simp add: mega_ok_def)

text \<open>A step that makes the megablocks of a clean interval one group.\<close>

lemma own_mega_head: "own_mega own v k st x = Some (Mega x l st') \<longleftrightarrow>
    x = v \<and> l = k \<and> st = st' \<and> k > 0 \<or> \<not> (v \<le> x \<and> x < v + k) \<and> own x = Some (Mega x l st')"
  by (auto simp: own_mega_def)

lemma clean_outside:
  assumes "mblocks_ok m own" "clean own v k" "own u = Some (Mega x l st)" "\<not> (v \<le> u \<and> u < v + k)" "x \<le> w" "w < x + l"
  shows "\<not> (v \<le> w \<and> w < v + k)"
proof
  assume w: "v \<le> w \<and> w < v + k"
  have "own w = Some (Mega x l st)" using megaD(3) [OF assms(1,3)] assms(5,6) by (simp add: mega_ok_def)
  with w assms(2) have "v \<le> x \<and> x + l \<le> v + k" unfolding clean_def by blast
  with megaD(1,2) [OF assms(1,3)] assms(4) show False by simp
qed

lemma minv_mega:
  assumes "minv s own MF MD" "clean own v k" "k > 0"
    and init: "\<And>a. bd_start (bds s' a) = bd_start (bds s a) \<and> bd_node (bds s' a) = bd_node (bds s a)"
    and same: "\<And>u L j. own u = Some (Split L) \<Longrightarrow> j < 252 \<Longrightarrow> bds s' (bd_at u j) = bds s (bd_at u j)"
    and fl: "free_list s' = free_list s"
    and out: "\<And>x l st. own x = Some (Mega x l st) \<Longrightarrow> \<not> (v \<le> x \<and> x < v + k) \<Longrightarrow> blocks_of s' (bd_at x 0) = blocks_of s (bd_at x 0)"
    and new: "\<exists>d. mblock_init (bds s) v d" "blocks_of s' (bd_at v 0) = MBLOCK_GROUP_BLOCKS k"
    and sets: "mega_sets s' (own_mega own v k st) MF' MD'"
  shows "minv s' (own_mega own v k st) MF' MD'"
proof (rule minv_step [OF assms(1) _ init same fl _ sets])
  note i = minvD(1) [OF assms(1)]
  show "own_mega own v k st u = Some (Split L) \<longleftrightarrow> own u = Some (Split L)" for u L
    using assms(2) by (auto simp: own_mega_def clean_def)
  fix u x l st' assume u: "own_mega own v k st u = Some (Mega x l st')"
  show "x \<le> u \<and> u < x + l \<and> mega_ok (bds s') (own_mega own v k st) x l st'"
  proof (cases "v \<le> u \<and> u < v + k")
    case True
    then have "x = v" "l = k" "st' = st" using u by (auto simp: own_mega_def)
    then show ?thesis using True assms(3) new mblock_init_cong [OF init] by (auto simp: mega_ok_def own_mega_def)
  next
    case False
    then have w: "own u = Some (Mega x l st')" using u by (auto simp: own_mega_def)
    note ok = megaD [OF i w] and out' = clean_outside [OF i assms(2) w False]
    have "l > 0" "own x = Some (Mega x l st')" using ok(3) mega_ok_head by (auto simp: mega_ok_def)
    then have "blocks_of s' (bd_at x 0) = blocks_of s (bd_at x 0)" using out out' [of x] by auto
    then have "mega_ok (bds s') (own_mega own v k st) x l st'"
      by (intro mega_ok_keep [OF ok(3) _ init]) (use out' in \<open>auto simp: own_mega_def\<close>)
    with ok show ?thesis by blast
  qed
qed

section \<open>Lists of megablock groups\<close>

lemma chain_insert:
  assumes "chain nxt 0 p (xs @ ys)" "a \<notin> set (xs @ ys)" "a \<noteq> (0 :: nat)" "xs \<noteq> []"
    "nxt' a = nxt (last xs)" "nxt' (last xs) = a" "\<And>x. x \<in> set (xs @ ys) \<Longrightarrow> x \<noteq> last xs \<Longrightarrow> nxt' x = nxt x"
  shows "chain nxt' 0 p (xs @ a # ys)"
proof -
  have d: "distinct (xs @ ys)" using chain_distinct [OF assms(1)] .
  obtain us z where xs: "xs = us @ [z]" using assms(4) by (cases xs rule: rev_cases) auto
  have "z \<notin> set ys" using d xs by simp
  then have "chain nxt' 0 q ys = chain nxt 0 q ys" for q by (intro chain_cong) (use assms(7) xs in auto)
  moreover have "z \<noteq> a" using assms(2) xs by auto
  moreover have "chain nxt' 0 p (us @ [z] @ a # ys)" if "chain nxt 0 p (us @ [z] @ ys)" "\<And>x. x \<in> set us \<Longrightarrow> nxt' x = nxt x" for us p
    using that by (induction us arbitrary: p) (use calculation assms(3,5,6) xs in auto)
  moreover have "\<And>x. x \<in> set us \<Longrightarrow> nxt' x = nxt x" using assms(7) d xs by auto
  ultimately show ?thesis using assms(1) xs by simp
qed

lemma chain_skip:
  assumes "chain nxt 0 p (xs @ a # b # ys)" "nxt' a = nxt b" "\<And>x. x \<in> set (xs @ ys) \<Longrightarrow> nxt' x = nxt x"
  shows "chain nxt' 0 p (xs @ a # ys)"
proof -
  have "chain nxt' 0 q ys = chain nxt 0 q ys" for q by (intro chain_cong) (use assms(3) in auto)
  moreover have "\<And>x. x \<in> set xs \<Longrightarrow> nxt' x = nxt x" using assms(3) by simp
  ultimately show ?thesis using assms(1,2) by (induction xs arbitrary: p) auto
qed

lemma chain_next: "chain nxt 0 p (xs @ a # ys) \<Longrightarrow> nxt a = (case ys of [] \<Rightarrow> 0 | y # _ \<Rightarrow> y)"
  by (induction xs arbitrary: p) (auto split: list.split simp: neq_Nil_conv)

lemma mega_heads:
  assumes "minv s own MF MD" "own v = Some (Mega v k Listed)" "d = bd_node (bds s (bd_at v 0))"
  shows "bd_at v 0 \<notin> (\<lambda>(v, k). bd_at v 0) ` set (MD d')" "d' \<noteq> d \<Longrightarrow> bd_at v 0 \<notin> (\<lambda>(v, k). bd_at v 0) ` set (MF d')"
  using minvD(6,7) [OF assms(1)] assms(2,3) by fastforce+

lemma mega_heads_fresh:
  assumes "minv s own MF MD" "fresh own v k" "k > 0"
  shows "bd_at v 0 \<notin> (\<lambda>(v, k). bd_at v 0) ` set (MF d)" "bd_at v 0 \<notin> (\<lambda>(v, k). bd_at v 0) ` set (MD d)"
proof -
  have "own v = None" using assms(2,3) by (simp add: fresh_def)
  then show "bd_at v 0 \<notin> (\<lambda>(v, k). bd_at v 0) ` set (MF d)" "bd_at v 0 \<notin> (\<lambda>(v, k). bd_at v 0) ` set (MD d)"
    using minvD(6,7) [OF assms(1)] by fastforce+
qed

lemma mega_list_links: "(\<And>x. x \<in> (\<lambda>(v, k). bd_at v 0) ` set xs \<Longrightarrow> bd_link (m' x) = bd_link (m x)) \<Longrightarrow> mega_list m' p xs = mega_list m p xs"
  by (rule mega_list_cong) force

definition link_in :: "nat \<Rightarrow> nat \<Rightarrow> nat \<Rightarrow> ba_state \<Rightarrow> ba_state" where
  "link_in d mg prev s =
    (if prev \<noteq> 0 then upd_bd prev (\<lambda>b. b\<lparr>bd_link := mg\<rparr>) (upd_bd mg (\<lambda>b. b\<lparr>bd_link := link_of s prev\<rparr>) s)
     else (upd_bd mg (\<lambda>b. b\<lparr>bd_link := free_mblock_list s d\<rparr>) s)\<lparr>free_mblock_list := (free_mblock_list s)(d := mg)\<rparr>)"

definition last_of :: "(nat \<times> nat) list \<Rightarrow> nat" where
  "last_of xs = (if xs = [] then 0 else bd_at (fst (last xs)) 0)"

lemma link_in_simps [simp]:
  "blocks_of (link_in d mg prev s) a = blocks_of s a" "bd_start (bds (link_in d mg prev s) a) = bd_start (bds s a)"
  "bd_node (bds (link_in d mg prev s) a) = bd_node (bds s a)" "free_list (link_in d mg prev s) = free_list s"
  "deferred_free_mblock_list (link_in d mg prev s) = deferred_free_mblock_list s"
  "n_alloc_blocks (link_in d mg prev s) = n_alloc_blocks s" "defer_mblock_frees (link_in d mg prev s) = defer_mblock_frees s"
  by (simp_all add: link_in_def)

lemma minv_insert:
  assumes "minv s own MF MD" "fresh own v k" "k > 0" "\<exists>d. mblock_init (bds s) v d" "blocks_of s (bd_at v 0) = MBLOCK_GROUP_BLOCKS k"
    "d = bd_node (bds s (bd_at v 0))" "MF d = pre @ post"
  shows "minv (link_in d (bd_at v 0) (last_of pre) s) (own_mega own v k Listed) (MF(d := pre @ (v, k) # post)) MD"
proof -
  let ?s = "link_in d (bd_at v 0) (last_of pre) s" and ?h = "\<lambda>(v, k :: nat). bd_at v 0"
  note i = minvD [OF assms(1)] and fr = mega_heads_fresh [OF assms(1-3)]
  have prev: "\<exists>w l. last_of pre = bd_at w 0 \<and> own w = Some (Mega w l Listed) \<and> bd_node (bds s (bd_at w 0)) = d" if "pre \<noteq> []"
  proof -
    obtain w l where w: "last pre = (w, l)" by force
    then have "(w, l) \<in> set (MF d)" using that assms(7) last_in_set [of pre] by simp
    then show ?thesis using i(6) [of w l d] w that by (auto simp: last_of_def)
  qed
  have link: "a \<noteq> bd_at v 0 \<Longrightarrow> a \<noteq> last_of pre \<Longrightarrow> bds ?s a = bds s a" for a by (simp add: link_in_def)
  have lists: "mega_list (bds ?s) p (MD d') = mega_list (bds s) p (MD d')" "d' \<noteq> d \<Longrightarrow> mega_list (bds ?s) p (MF d') = mega_list (bds s) p (MF d')" for d' p
  proof -
    have "last_of pre \<notin> ?h ` set (MD d') \<and> (d' \<noteq> d \<longrightarrow> last_of pre \<notin> ?h ` set (MF d'))"
    proof (cases "pre = []")
      case False
      then show ?thesis using prev mega_heads [OF assms(1)] by metis
    qed (auto simp: last_of_def)
    then show "mega_list (bds ?s) p (MD d') = mega_list (bds s) p (MD d')" "d' \<noteq> d \<Longrightarrow> mega_list (bds ?s) p (MF d') = mega_list (bds s) p (MF d')"
      by (intro mega_list_links; metis link fr)+
  qed
  have "mega_list (bds ?s) (free_mblock_list ?s d) (pre @ (v, k) # post)"
  proof -
    have l: "chain (\<lambda>a. bd_link (bds s a)) 0 (free_mblock_list s d) (map ?h pre @ map ?h post)"
      using i(4) [of d] assms(7) by (simp add: mega_list_def)
    have n: "bd_at v 0 \<notin> set (map ?h pre @ map ?h post)" using fr(1) [of d] assms(7) by auto
    show ?thesis
    proof (cases "pre = []")
      case True
      have "chain (\<lambda>a. bd_link (bds ?s a)) 0 p (map ?h post) = chain (\<lambda>a. bd_link (bds s a)) 0 p (map ?h post)" for p
        by (rule chain_cong) (use n True in \<open>auto simp: link_in_def last_of_def\<close>)
      then show ?thesis using l True by (auto simp: mega_list_def link_in_def last_of_def)
    next
      case False
      then have lp: "last (map ?h pre) = last_of pre" "last_of pre \<noteq> 0" by (auto simp: last_of_def last_map split: prod.splits)
      moreover have "last_of pre \<noteq> bd_at v 0" using n False lp(1) last_in_set [of "map ?h pre"] by auto
      ultimately have "chain (\<lambda>a. bd_link (bds ?s a)) 0 (free_mblock_list s d) (map ?h pre @ bd_at v 0 # map ?h post)"
        by (intro chain_insert [OF l n]) (use False n in \<open>auto simp: link_in_def\<close>)
      then show ?thesis using lp(2) by (simp add: mega_list_def link_in_def)
    qed
  qed
  with lists i(4,5) have ls: "mega_list (bds ?s) (free_mblock_list ?s d') ((MF(d := pre @ (v, k) # post)) d')"
    "mega_list (bds ?s) (deferred_free_mblock_list ?s d') (MD d')" for d'
    by (auto simp: link_in_def)
  have out: "\<not> (v \<le> x \<and> x < v + k) \<and> own x = Some (Mega x l st) \<longleftrightarrow> own x = Some (Mega x l st)" for x l st
    using assms(2) by (auto simp: fresh_def)
  show ?thesis
  proof (rule minv_mega [OF assms(1) fresh_clean [OF i(1) assms(2)] assms(3)])
    fix u L j assume u: "own u = Some (Split L)" "j < (252 :: nat)"
    have "bd_at u j \<noteq> bd_at v 0" using u assms(2,3) by (auto simp: fresh_def)
    moreover have "bd_at u j \<noteq> last_of pre" using u prev by (cases "pre = []") (force simp: last_of_def)+
    ultimately show "bds ?s (bd_at u j) = bds s (bd_at u j)" by (rule link)
  next
    have "(x, l) \<in> set (MF d) \<longleftrightarrow> (x, l) \<in> set pre \<or> (x, l) \<in> set post" for x l using assms(7) by simp
    then show "mega_sets ?s (own_mega own v k Listed) (MF(d := pre @ (v, k) # post)) MD"
      unfolding mega_sets_def own_mega_head out using ls i(6,7) assms(3,6) by auto
  qed (use assms in simp_all)
qed

text \<open>Joining clean intervals; marking groups that are not allocated.\<close>

lemma clean_join:
  assumes "mblocks_ok m own" "clean own v k" "clean own (v + k) l"
  shows "clean own v (k + l)"
  unfolding clean_def
proof (intro conjI allI impI)
  fix w L assume "v \<le> w \<and> w < v + (k + l)"
  then show "own w \<noteq> Some (Split L)" using assms(2,3) unfolding clean_def by (cases "w < v + k") auto
next
  fix w x y st assume w: "own w = Some (Mega x y st)"
  show "v \<le> w \<and> w < v + (k + l) \<longleftrightarrow> v \<le> x \<and> x + y \<le> v + (k + l)"
  proof
    assume "v \<le> w \<and> w < v + (k + l)"
    then consider "v \<le> w \<and> w < v + k" | "v + k \<le> w \<and> w < v + k + l" by linarith
    then show "v \<le> x \<and> x + y \<le> v + (k + l)" using assms(2,3) w unfolding clean_def by cases fastforce+
  next
    assume "v \<le> x \<and> x + y \<le> v + (k + l)"
    then show "v \<le> w \<and> w < v + (k + l)" using megaD(1,2) [OF assms(1) w] by simp
  qed
qed

lemma own_mega_quiet:
  assumes "\<And>x. v \<le> x \<and> x < v + k \<Longrightarrow> \<exists>y z st. own x = Some (Mega y z st) \<and> st \<noteq> Busy" "st \<noteq> Busy"
  shows "dom (own_mega own v k st) = dom own" "allocs (own_mega own v k st) = allocs own"
proof -
  have "own_mega own v k st x = Some (Split L) \<longleftrightarrow> own x = Some (Split L)" "own_mega own v k st x = Some (Mega x y Busy) \<longleftrightarrow> own x = Some (Mega x y Busy)" for x y L
    using assms(1) [of x] assms(2) by (auto simp: own_mega_def)
  then show "allocs (own_mega own v k st) = allocs own" by (simp add: allocs_def)
  show "dom (own_mega own v k st) = dom own" using assms(1) by (auto simp: own_mega_def dom_def split: if_splits)
qed

text \<open>One step of coalescing.\<close>

lemma minv_coalesce:
  assumes "minv s own MF MD" "MF d = pre @ (v, k) # post" "p = bd_at v 0"
  shows "case post of [] \<Rightarrow> coalesce_mblocks p s = (0, s)
    | (w, l) # post' \<Rightarrow> if w = v + k then \<exists>s'. coalesce_mblocks p s = (p, s') \<and> minv s' (own_mega own v (k + l) Listed) (MF(d := pre @ (v, k + l) # post')) MD
        \<and> n_alloc_blocks s' = n_alloc_blocks s \<and> defer_mblock_frees s' = defer_mblock_frees s \<and> dom (own_mega own v (k + l) Listed) = dom own \<and>
        allocs (own_mega own v (k + l) Listed) = allocs own
      else coalesce_mblocks p s = (bd_at w 0, s)"
proof -
  let ?h = "\<lambda>(v, k :: nat). bd_at v 0"
  note i = minvD [OF assms(1)]
  have l: "chain (\<lambda>a. bd_link (bds s a)) 0 (free_mblock_list s d) (map ?h pre @ p # map ?h post)"
    using i(4) [of d] assms(2,3) by (simp add: mega_list_def)
  have next': "link_of s p = (case post of [] \<Rightarrow> 0 | (w, l) # _ \<Rightarrow> bd_at w 0)"
    using chain_next [OF l] by (auto split: list.split)
  have v: "own v = Some (Mega v k Listed)" "bd_node (bds s (bd_at v 0)) = d" using i(6) [of v k d] assms(2) by auto
  note vok = megaD(3) [OF i(1) v(1)]
  then have k: "k > 0" "blocks_of s p = MBLOCK_GROUP_BLOCKS k" by (auto simp: mega_ok_def assms(3))
  show ?thesis
  proof (cases post)
    case Nil
    then show ?thesis by (simp add: coalesce_mblocks_def next')
  next
    case (Cons a post')
    obtain w l where a: "a = (w, l)" by force
    have w: "own w = Some (Mega w l Listed)" "bd_node (bds s (bd_at w 0)) = d" using i(6) [of w l d] assms(2) Cons a by auto
    note wok = megaD(3) [OF i(1) w(1)]
    then have l': "l > 0" "blocks_of s (bd_at w 0) = MBLOCK_GROUP_BLOCKS l" by (auto simp: mega_ok_def)
    have adj: "MBLOCK_ROUND_DOWN (bd_at w 0) = MBLOCK_ROUND_DOWN p + BLOCKS_TO_MBLOCKS (blocks_of s p) * MBLOCK_SIZE \<longleftrightarrow> w = v + k"
    proof -
      have "w * MBLOCK_SIZE = v * MBLOCK_SIZE + k * MBLOCK_SIZE \<longleftrightarrow> w = v + k"
        unfolding add_mult_distrib [symmetric] mult_cancel2 by (simp add: MBLOCK_SIZE_def)
      then show ?thesis using k by (simp add: assms(3))
    qed
    have lw: "link_of s p = bd_at w 0" using next' by (simp add: Cons a)
    show ?thesis
    proof (cases "w = v + k")
      case False
      then have "(MBLOCK_ROUND_DOWN (bd_at w 0) = MBLOCK_ROUND_DOWN p + BLOCKS_TO_MBLOCKS (blocks_of s p) * MBLOCK_SIZE) = False"
        using adj by blast
      then have "coalesce_mblocks p s = (bd_at w 0, s)" unfolding coalesce_mblocks_def Let_def lw by (simp only: simp_thms if_False)
      then show ?thesis using False by (simp add: Cons a)
    next
      case True
      define s' where "s' = upd_bd p (\<lambda>b. b\<lparr>bd_blocks := MBLOCK_GROUP_BLOCKS (k + l), bd_link := link_of s (bd_at w 0)\<rparr>) s"
      have co: "coalesce_mblocks p s = (p, s')"
      proof -
        have "upd_bd p (\<lambda>b. b\<lparr>bd_blocks := MBLOCK_GROUP_BLOCKS (BLOCKS_TO_MBLOCKS (bd_blocks b) + BLOCKS_TO_MBLOCKS (blocks_of s (bd_at w 0))),
            bd_link := link_of s (bd_at w 0)\<rparr>) s = s'"
          using k l' by (simp add: s'_def upd_bd_def)
        then show ?thesis using adj True by (simp add: coalesce_mblocks_def lw Let_def)
      qed
      have desc: "a \<noteq> p \<Longrightarrow> bds s' a = bds s a" for a by (simp add: s'_def)
      have lists: "mega_list (bds s') q (MD d') = mega_list (bds s) q (MD d')" "d' \<noteq> d \<Longrightarrow> mega_list (bds s') q (MF d') = mega_list (bds s) q (MF d')" for d' q
      proof -
        have h: "p \<notin> ?h ` set (MD d')" "d' \<noteq> d \<Longrightarrow> p \<notin> ?h ` set (MF d')"
          using mega_heads [OF assms(1) v(1), of d d'] v(2) assms(3) by auto
        have "bd_link (bds s' x) = bd_link (bds s x)" if "x \<in> X" "p \<notin> X" for x X using desc that by metis
        with h show "mega_list (bds s') q (MD d') = mega_list (bds s) q (MD d')" "d' \<noteq> d \<Longrightarrow> mega_list (bds s') q (MF d') = mega_list (bds s) q (MF d')"
          by (intro mega_list_links; blast)+
      qed
      have dist: "distinct (map ?h pre @ p # map ?h post)" using chain_distinct [OF l] .
      have "mega_list (bds s') (free_mblock_list s d) (pre @ (v, k + l) # post')"
      proof -
        have "chain (\<lambda>a. bd_link (bds s' a)) 0 (free_mblock_list s d) (map ?h pre @ p # map ?h post')"
          by (rule chain_skip [where b = "bd_at w 0" and nxt = "\<lambda>a. bd_link (bds s a)"])
            (use l dist desc in \<open>auto simp: s'_def Cons a\<close>)
        then show ?thesis by (simp add: mega_list_def assms(3))
      qed
      with lists i(4,5) have ls: "mega_list (bds s') (free_mblock_list s' d') ((MF(d := pre @ (v, k + l) # post')) d')"
        "mega_list (bds s') (deferred_free_mblock_list s' d') (MD d')" for d'
        by (auto simp: s'_def)
      have one: "own x = Some (Mega v k Listed)" if "v \<le> x" "x < v + k" for x using that vok by (simp add: mega_ok_def)
      have two: "own x = Some (Mega w l Listed)" if "w \<le> x" "x < w + l" for x using that wok by (simp add: mega_ok_def)
      have int: "own x = Some (Mega v k Listed) \<or> own x = Some (Mega w l Listed)" if "v \<le> x \<and> x < v + (k + l)" for x
        using that one [of x] two [of x] True by (cases "x < v + k") auto
      then have heads: "own x = Some (Mega x y st) \<longleftrightarrow> (x = v \<and> y = k \<or> x = w \<and> y = l) \<and> st = Listed"
        if "v \<le> x \<and> x < v + (k + l)" for x y st using that v w by force
      have new: "minv s' (own_mega own v (k + l) Listed) (MF(d := pre @ (v, k + l) # post')) MD"
      proof (rule minv_mega [OF assms(1)])
        show "clean own v (k + l)" using clean_join [OF i(1)] mega_clean [OF i(1)] v(1) w(1) True by blast
        fix u L j assume u: "own u = Some (Split L)" "j < (252 :: nat)"
        then show "bds s' (bd_at u j) = bds s (bd_at u j)" using v(1) by (intro desc) (auto simp: assms(3))
      next
        fix x y st assume x: "own x = Some (Mega x y st)" "\<not> (v \<le> x \<and> x < v + (k + l))"
        then have "bd_at x 0 \<noteq> p" using k(1) by (auto simp: assms(3))
        then show "blocks_of s' (bd_at x 0) = blocks_of s (bd_at x 0)" by (simp add: desc)
      next
        have m: "(v, k) \<notin> set pre \<union> set post'" "(w, l) \<notin> set pre \<union> set post'"
          using dist unfolding Cons a assms(3) by force+
        have "(x, y) \<in> set (pre @ (v, k + l) # post') \<longleftrightarrow> own_mega own v (k + l) Listed x = Some (Mega x y Listed) \<and> bd_node (bds s (bd_at x 0)) = d" for x y
          using i(6) [of x y d] assms(2) m heads [of x y Listed] v w True k l' unfolding own_mega_head Cons a by auto
        moreover have "(x, y) \<in> set (MF d') \<longleftrightarrow> own_mega own v (k + l) Listed x = Some (Mega x y Listed) \<and> bd_node (bds s (bd_at x 0)) = d'"
          if "d' \<noteq> d" for x y d'
          using i(6) [of x y d'] heads [of x y Listed] v w that unfolding own_mega_head by auto
        moreover have "(x, y) \<in> set (MD d') \<longleftrightarrow> own_mega own v (k + l) Listed x = Some (Mega x y Deferred) \<and> bd_node (bds s (bd_at x 0)) = d'" for x y d'
          using i(7) [of x y d'] heads [of x y Deferred] unfolding own_mega_head by auto
        moreover have "bd_node (bds s' a) = bd_node (bds s a)" for a by (simp add: s'_def)
        ultimately show "mega_sets s' (own_mega own v (k + l) Listed) (MF(d := pre @ (v, k + l) # post')) MD"
          unfolding mega_sets_def using ls by simp
      qed (use k vok in \<open>auto simp: s'_def mega_ok_def assms(3)\<close>)
      have "dom (own_mega own v (k + l) Listed) = dom own" "allocs (own_mega own v (k + l) Listed) = allocs own"
        by (rule own_mega_quiet, use int in \<open>force\<close>, simp)+
      with new co True show ?thesis by (simp add: Cons a) (simp add: s'_def)
    qed
  qed
qed

section \<open>Putting a group on the free list\<close>

abbreviation head_of :: "(nat \<times> nat) list \<Rightarrow> nat" where
  "head_of xs \<equiv> (case xs of [] \<Rightarrow> 0 | (w, l) # _ \<Rightarrow> bd_at w 0)"

lemma block_at_less [simp]: "block_at v 0 < block_at w 0 \<longleftrightarrow> v < w"
  by (simp add: block_at_def ba_consts)

lemma find_place_eq:
  assumes "mega_list m p xs" "\<And>w l. (w, l) \<in> set xs \<Longrightarrow> bd_start (m (bd_at w 0)) = block_at w 0" "bd_start (m (bd_at v 0)) = block_at v 0"
  defines "pre \<equiv> takeWhile (\<lambda>(w, l). w < v) xs" and "post \<equiv> dropWhile (\<lambda>(w, l). w < v) xs"
  shows "find_place m (bd_at v 0) prev p = Some (if pre = [] then prev else last_of pre, head_of post)"
  using assms(1,2) unfolding pre_def post_def
proof (induction xs arbitrary: p prev)
  case Nil
  then show ?case by (subst find_place.simps) (simp add: mega_list_def)
next
  case (Cons a xs)
  obtain w l where a: "a = (w, l)" by force
  have p: "p = bd_at w 0" "mega_list m (bd_link (m p)) xs" "bd_start (m p) = block_at w 0"
    using Cons.prems(1) Cons.prems(2) [of w l] by (auto simp: a mega_list_def)
  show ?case
  proof (cases "w < v")
    case True
    then have "find_place m (bd_at v 0) prev p = find_place m (bd_at v 0) p (bd_link (m p))"
      using p(3) assms(3) by (subst find_place.simps) (simp add: p(1))
    also have "\<dots> = Some (if takeWhile (\<lambda>(w, l). w < v) xs = [] then p else last_of (takeWhile (\<lambda>(w, l). w < v) xs), head_of (dropWhile (\<lambda>(w, l). w < v) xs))"
      using Cons.prems(2) by (intro Cons.IH [OF p(2)]) auto
    finally show ?thesis using True by (simp add: a last_of_def p(1))
  next
    case False
    then show ?thesis using p(3) assms(3) by (subst find_place.simps) (simp add: a p(1))
  qed
qed

lemma coalesce_second:
  assumes "minv s own MF MD" "MF d = A @ (x, y) # B" "gaps (A @ [(x, y)])" "gaps (A @ B)" "\<And>w l. (w, l) \<in> set B \<Longrightarrow> x + y \<le> w"
  obtains s' own' y' B' where "snd (coalesce_mblocks (bd_at x 0) s) = s'" "minv s' own' (MF(d := A @ (x, y') # B')) MD" "gaps (A @ (x, y') # B')"
    "dom own' = dom own" "allocs own' = allocs own" "n_alloc_blocks s' = n_alloc_blocks s" "defer_mblock_frees s' = defer_mblock_frees s"
proof (cases "\<exists>l B'. B = (x + y, l) # B'")
  case True
  then obtain l B' where B: "B = (x + y, l) # B'" by blast
  have g: "gaps (A @ (x, y + l) # B')"
    using assms(3,4) by (auto simp: B sorted_wrt_append add.assoc)
  from minv_coalesce [OF assms(1,2) refl] obtain s' where s': "coalesce_mblocks (bd_at x 0) s = (bd_at x 0, s')"
    "minv s' (own_mega own x (y + l) Listed) (MF(d := A @ (x, y + l) # B')) MD" "n_alloc_blocks s' = n_alloc_blocks s"
    "defer_mblock_frees s' = defer_mblock_frees s" "dom (own_mega own x (y + l) Listed) = dom own"
    "allocs (own_mega own x (y + l) Listed) = allocs own"
    by (auto simp: B)
  show thesis by (rule that [of s' "own_mega own x (y + l) Listed" "y + l" B']) (use s' g in auto)
next
  case False
  have "snd (coalesce_mblocks (bd_at x 0) s) = s"
    using minv_coalesce [OF assms(1,2) refl] False by (auto split: list.splits if_splits)
  moreover have "gaps (A @ (x, y) # B)"
  proof -
    have "x + y < w" if "(w, l) \<in> set B" for w l
    proof (cases B)
      case (Cons b B')
      obtain w0 l0 where b: "b = (w0, l0)" by force
      have "w0 \<noteq> x + y" "x + y \<le> w0" using False assms(5) [of w0 l0] by (auto simp: Cons b)
      then show ?thesis using that assms(4) by (auto simp: Cons b sorted_wrt_append)
    qed (use that in simp)
    then show ?thesis using assms(3,4) by (auto simp: sorted_wrt_append)
  qed
  ultimately show thesis using that [of s own y B] assms(1,2) by (simp add: fun_upd_idem)
qed

lemma own_mega_fresh:
  assumes "fresh own v k" "st \<noteq> Busy"
  shows "dom (own_mega own v k st) = dom own \<union> {v..<v + k}" "allocs (own_mega own v k st) = allocs own"
proof -
  have "own_mega own v k st x = Some (Split L) \<longleftrightarrow> own x = Some (Split L)" "own_mega own v k st x = Some (Mega x y Busy) \<longleftrightarrow> own x = Some (Mega x y Busy)" for x y L
    using assms(1) assms(2) by (auto simp: own_mega_def fresh_def)
  then show "allocs (own_mega own v k st) = allocs own" by (simp add: allocs_def)
  show "dom (own_mega own v k st) = dom own \<union> {v..<v + k}" by (auto simp: own_mega_def dom_def split: if_splits)
qed

lemma insert_coalesce_correct:
  assumes "minv s own MF MD" "gaps (MF d)" "fresh own v k" "k > 0" "\<exists>d. mblock_init (bds s) v d" "blocks_of s (bd_at v 0) = MBLOCK_GROUP_BLOCKS k"
    "d = bd_node (bds s (bd_at v 0))" "MF d = pre @ post" "\<And>w l. (w, l) \<in> set pre \<Longrightarrow> w < v" "\<And>w l. (w, l) \<in> set post \<Longrightarrow> v \<le> w"
  obtains s' own' A x y B where "insert_coalesce d (bd_at v 0) (last_of pre) s = (bd_at x 0, s')"
    "minv s' own' (MF(d := A @ (x, y) # B)) MD" "gaps (A @ (x, y) # B)" "x \<le> v"
    "dom own' = dom own \<union> {v..<v + k}" "allocs own' = allocs own" "n_alloc_blocks s' = n_alloc_blocks s" "defer_mblock_frees s' = defer_mblock_frees s"
proof -
  let ?own = "own_mega own v k Listed" and ?s = "link_in d (bd_at v 0) (last_of pre) s"
  note i = minvD [OF assms(1)]
  note ins = minv_insert [OF assms(1,3-8)]
  note own = own_mega_fresh [OF assms(3), of Listed, simplified]
  have none: "own w = None" if "v \<le> w" "w < v + k" for w using that assms(3) by (simp add: fresh_def)
  have mem: "own w = Some (Mega w l Listed) \<and> (\<forall>z. w \<le> z \<and> z < w + l \<longrightarrow> own z = Some (Mega w l Listed)) \<and> l > 0" if "(w, l) \<in> set (pre @ post)" for w l
  proof -
    have w: "own w = Some (Mega w l Listed)" using that i(6) [of w l d] assms(8) by simp
    with megaD(3) [OF i(1) w] show ?thesis by (auto simp: mega_ok_def)
  qed
  have below: "w + l \<le> v" if "(w, l) \<in> set pre" for w l
  proof (rule ccontr)
    assume "\<not> w + l \<le> v"
    then have "own v = Some (Mega w l Listed)" using mem [of w l] assms(9) [of w l] that by simp
    with none [of v] assms(4) show False by simp
  qed
  have above: "v + k \<le> w" if "(w, l) \<in> set post" for w l
  proof (rule ccontr)
    assume "\<not> v + k \<le> w"
    with none [of w] assms(10) [OF that] mem [of w l] that show False by simp
  qed
  have ic: "insert_coalesce d (bd_at v 0) (last_of pre) s = (let (mg, s) = (if pre \<noteq> [] then coalesce_mblocks (last_of pre) ?s else (bd_at v 0, ?s)) in
      (mg, snd (coalesce_mblocks mg s)))"
    by (simp add: insert_coalesce_def link_in_def last_of_def)
  have gpp: "gaps (pre @ post)" using assms(2,8) by simp
  show thesis
  proof (cases "\<exists>us vp kp. pre = us @ [(vp, kp)] \<and> vp + kp = v")
    case True
    then obtain us vp kp where pre: "pre = us @ [(vp, kp)]" and v: "v = vp + kp" by blast
    have M: "(MF(d := pre @ (v, k) # post)) d = us @ (vp, kp) # (v, k) # post" by (simp add: pre)
    from minv_coalesce [OF ins M refl] v obtain s2 where s2: "coalesce_mblocks (bd_at vp 0) ?s = (bd_at vp 0, s2)"
      "minv s2 (own_mega ?own vp (kp + k) Listed) (MF(d := us @ (vp, kp + k) # post)) MD" "n_alloc_blocks s2 = n_alloc_blocks s"
      "defer_mblock_frees s2 = defer_mblock_frees s" "dom (own_mega ?own vp (kp + k) Listed) = dom ?own"
      "allocs (own_mega ?own vp (kp + k) Listed) = allocs ?own"
      by auto
    have g: "gaps (us @ [(vp, kp + k)])" "gaps (us @ post)" using gpp by (auto simp: pre sorted_wrt_append)
    have ab: "vp + (kp + k) \<le> w" if "(w, l) \<in> set post" for w l using above [OF that] v by simp
    from coalesce_second [OF s2(2) fun_upd_same g ab, unfolded fun_upd_upd s2(3-6)]
    obtain s' own' y B where f: "snd (coalesce_mblocks (bd_at vp 0) s2) = s'" "minv s' own' (MF(d := us @ (vp, y) # B)) MD"
      "gaps (us @ (vp, y) # B)" "dom own' = dom ?own" "allocs own' = allocs ?own" "n_alloc_blocks s' = n_alloc_blocks s" "defer_mblock_frees s' = defer_mblock_frees s" .
    have "insert_coalesce d (bd_at v 0) (last_of pre) s = (bd_at vp 0, s')"
      unfolding ic using s2(1) f(1) by (simp add: pre last_of_def)
    then show thesis using f own v by (intro that [of vp s' own' us y B]) auto
  next
    case False
    have ic': "insert_coalesce d (bd_at v 0) (last_of pre) s = (bd_at v 0, snd (coalesce_mblocks (bd_at v 0) ?s))"
    proof (cases pre rule: rev_cases)
      case Nil
      then show ?thesis unfolding ic by simp
    next
      case (snoc us a)
      obtain vp kp where a: "a = (vp, kp)" by force
      have M: "(MF(d := pre @ (v, k) # post)) d = us @ (vp, kp) # (v, k) # post" by (simp add: snoc a)
      have "coalesce_mblocks (last_of pre) ?s = (bd_at v 0, ?s)"
        using minv_coalesce [OF ins M refl] False by (simp add: snoc a last_of_def)
      then show ?thesis unfolding ic by (simp add: snoc)
    qed
    have g1: "gaps (pre @ [(v, k)])"
    proof (cases pre rule: rev_cases)
      case (snoc us a)
      obtain vp kp where a: "a = (vp, kp)" by force
      have "vp + kp < v" using below [of vp kp] False by (force simp: snoc a)
      moreover have "w + l < v" if "(w, l) \<in> set us" for w l
        using gpp that calculation by (fastforce simp: snoc a sorted_wrt_append)
      ultimately show ?thesis using gpp by (auto simp: snoc a sorted_wrt_append)
    qed simp
    from coalesce_second [OF ins fun_upd_same g1 gpp above, unfolded fun_upd_upd link_in_simps]
    obtain s' own' y B where f: "snd (coalesce_mblocks (bd_at v 0) ?s) = s'" "minv s' own' (MF(d := pre @ (v, y) # B)) MD"
      "gaps (pre @ (v, y) # B)" "dom own' = dom ?own" "allocs own' = allocs ?own" "n_alloc_blocks s' = n_alloc_blocks s" "defer_mblock_frees s' = defer_mblock_frees s" .
    then show thesis using ic' own by (intro that [of v s' own' pre y B]) auto
  qed
qed

section \<open>A group of megablocks that nobody owns\<close>

definition limbo :: "ba_state \<Rightarrow> owners \<Rightarrow> nat \<Rightarrow> nat \<Rightarrow> bool" where
  "limbo s own v k \<longleftrightarrow> ba_inv s own \<and> fresh own v k \<and> k > 0 \<and> (\<exists>d. mblock_init (bds s) v d) \<and>
    blocks_of s (bd_at v 0) = MBLOCK_GROUP_BLOCKS k"

lemma minv_defer:
  assumes "minv s own MF MD" "fresh own v k" "k > 0" "\<exists>d. mblock_init (bds s) v d" "blocks_of s (bd_at v 0) = MBLOCK_GROUP_BLOCKS k"
    "d = bd_node (bds s (bd_at v 0))"
  defines "s' \<equiv> (upd_bd (bd_at v 0) (\<lambda>b. b\<lparr>bd_link := deferred_free_mblock_list s d\<rparr>) s)
      \<lparr>deferred_free_mblock_list := (deferred_free_mblock_list s)(d := bd_at v 0)\<rparr>"
  shows "minv s' (own_mega own v k Deferred) MF (MD(d := (v, k) # MD d))"
proof -
  note i = minvD [OF assms(1)] and fr = mega_heads_fresh [OF assms(1-3)]
  have desc: "a \<noteq> bd_at v 0 \<Longrightarrow> bds s' a = bds s a" for a by (simp add: s'_def)
  have lists: "mega_list (bds s') p (MD d') = mega_list (bds s) p (MD d')" "mega_list (bds s') p (MF d') = mega_list (bds s) p (MF d')" for d' p
    using fr [of d'] desc by (intro mega_list_links; metis)+
  have "mega_list (bds s') (bd_at v 0) ((v, k) # MD d)"
    using lists(1) [of "deferred_free_mblock_list s d" d] i(5) [of d] by (simp add: mega_list_def) (simp add: s'_def)
  with lists i(4,5) have ls: "mega_list (bds s') (free_mblock_list s' d') (MF d')"
    "mega_list (bds s') (deferred_free_mblock_list s' d') ((MD(d := (v, k) # MD d)) d')" for d'
    by (auto simp: s'_def)
  have out: "\<not> (v \<le> x \<and> x < v + k) \<and> own x = Some (Mega x l st) \<longleftrightarrow> own x = Some (Mega x l st)" for x l st
    using assms(2) by (auto simp: fresh_def)
  have init: "bd_start (bds s' a) = bd_start (bds s a)" "bd_node (bds s' a) = bd_node (bds s a)" "blocks_of s' a = blocks_of s a" for a
    by (simp_all add: s'_def)
  show ?thesis
  proof (rule minv_mega [OF assms(1) fresh_clean [OF i(1) assms(2)] assms(3)])
    fix u L j assume u: "own u = Some (Split L)" "j < (252 :: nat)"
    then show "bds s' (bd_at u j) = bds s (bd_at u j)" using assms(2,3) by (intro desc) (auto simp: fresh_def)
  next
    show "mega_sets s' (own_mega own v k Deferred) MF (MD(d := (v, k) # MD d))"
      unfolding mega_sets_def own_mega_head out init using ls i(6,7) assms(3,6) by auto
  qed (use assms init in \<open>auto simp: s'_def\<close>)
qed

lemma limbo_free:
  assumes "limbo s own v k"
  obtains s' own' where "free_mega_group (bd_at v 0) s = Some s'" "ba_inv s' own'" "dom own' = dom own \<union> {v..<v + k}" "allocs own' = allocs own"
    "n_alloc_blocks s' = n_alloc_blocks s" "defer_mblock_frees s' = defer_mblock_frees s"
proof -
  have l: "fresh own v k" "k > 0" "\<exists>d. mblock_init (bds s) v d" "blocks_of s (bd_at v 0) = MBLOCK_GROUP_BLOCKS k"
    using assms by (auto simp: limbo_def)
  obtain MF MD where m: "minv s own MF MD" "\<And>d. gaps (MF d)" using assms by (auto simp: limbo_def ba_inv_iff)
  note i = minvD [OF m(1)]
  define d where "d = bd_node (bds s (bd_at v 0))"
  show thesis
  proof (cases "defer_mblock_frees s")
    case True
    define s' where "s' = (upd_bd (bd_at v 0) (\<lambda>b. b\<lparr>bd_link := deferred_free_mblock_list s d\<rparr>) s)
      \<lparr>deferred_free_mblock_list := (deferred_free_mblock_list s)(d := bd_at v 0)\<rparr>"
    have "ba_inv s' (own_mega own v k Deferred)"
      using minv_defer [OF m(1) l d_def] m(2) unfolding ba_inv_iff s'_def by blast
    then show thesis using own_mega_fresh [OF l(1), of Deferred]
      by (intro that [of s' "own_mega own v k Deferred"]) (simp_all add: free_mega_group_def True d_def [symmetric] s'_def)
  next
    case False
    define pre where "pre = takeWhile (\<lambda>(w, l). w < v) (MF d)"
    define post where "post = dropWhile (\<lambda>(w, l). w < v) (MF d)"
    have "bd_start (bds s (bd_at w 0)) = block_at w 0" if "(w, l) \<in> set (MF d)" for w l
    proof -
      have "own w = Some (Mega w l Listed)" using i(6) [of w l d] that by simp
      from megaD(3) [OF i(1) this] show ?thesis by (auto simp: mega_ok_def mblock_init_def)
    qed
    moreover have "bd_start (bds s (bd_at v 0)) = block_at v 0" using l(3) by (auto simp: mblock_init_def)
    ultimately have fp: "find_place (bds s) (bd_at v 0) 0 (free_mblock_list s d) = Some (last_of pre, head_of post)"
      using find_place_eq [OF i(4) [of d], of v 0] by (simp add: pre_def post_def last_of_def)
    have pp: "MF d = pre @ post" by (simp add: pre_def post_def)
    have lt: "w < v" if "(w, l) \<in> set pre" for w l using that set_takeWhileD [of "(w, l)"] by (fastforce simp: pre_def)
    have ge: "v \<le> w" if "(w, l) \<in> set post" for w l
    proof (cases post)
      case (Cons a zs)
      obtain w0 l0 where a: "a = (w0, l0)" by force
      have "\<not> w0 < v" using hd_dropWhile [of "\<lambda>(w, l). w < v" "MF d"] Cons by (simp add: post_def [symmetric] a)
      moreover have "gaps post" using m(2) [of d] unfolding pp by (simp add: sorted_wrt_append)
      ultimately show ?thesis using that by (auto simp: Cons a)
    qed (use that in simp)
    from insert_coalesce_correct [OF m(1) m(2) l d_def pp lt ge]
    obtain s' own' A x y B where f: "insert_coalesce d (bd_at v 0) (last_of pre) s = (bd_at x 0, s')"
      "minv s' own' (MF(d := A @ (x, y) # B)) MD" "gaps (A @ (x, y) # B)" "x \<le> v"
      "dom own' = dom own \<union> {v..<v + k}" "allocs own' = allocs own" "n_alloc_blocks s' = n_alloc_blocks s" "defer_mblock_frees s' = defer_mblock_frees s" .
    have "ba_inv s' own'" unfolding ba_inv_iff using f(2,3) m(2) by (intro exI [of _ "MF(d := A @ (x, y) # B)"] exI [of _ MD]) auto
    then show thesis using that f fp False by (simp add: free_mega_group_def d_def [symmetric])
  qed
qed

text \<open>Marking it as allocated, and the reverse.\<close>

lemma disown_head: "disown own v k x = Some (Mega x l st') \<longleftrightarrow> \<not> (v \<le> x \<and> x < v + k) \<and> own x = Some (Mega x l st')"
  by (auto simp: disown_def)

lemma limbo_busy:
  assumes "limbo s own v k"
  shows "ba_inv s (own_mega own v k Busy)" "allocs (own_mega own v k Busy) = insert (bd_at v 0, MBLOCK_GROUP_BLOCKS k) (allocs own)"
    "dom (own_mega own v k Busy) = dom own \<union> {v..<v + k}"
proof -
  have l: "fresh own v k" "k > 0" "\<exists>d. mblock_init (bds s) v d" "blocks_of s (bd_at v 0) = MBLOCK_GROUP_BLOCKS k"
    using assms by (auto simp: limbo_def)
  obtain MF MD where m: "minv s own MF MD" "\<And>d. gaps (MF d)" using assms by (auto simp: limbo_def ba_inv_iff)
  note i = minvD [OF m(1)]
  have out: "\<not> (v \<le> x \<and> x < v + k) \<and> own x = Some (Mega x l st) \<longleftrightarrow> own x = Some (Mega x l st)" for x l st
    using l(1) by (auto simp: fresh_def)
  have "minv s (own_mega own v k Busy) MF MD"
  proof (rule minv_mega [OF m(1) fresh_clean [OF i(1) l(1)] l(2)])
    show "mega_sets s (own_mega own v k Busy) MF MD"
      unfolding mega_sets_def own_mega_head out using i(4-7) by auto
  qed (use l in auto)
  then show "ba_inv s (own_mega own v k Busy)" using m(2) unfolding ba_inv_iff by blast
  have "own_mega own v k Busy x = Some (Split L) \<longleftrightarrow> own x = Some (Split L)"
    "own_mega own v k Busy x = Some (Mega x y Busy) \<longleftrightarrow> x = v \<and> y = k \<or> own x = Some (Mega x y Busy)" for x y L
    using l(1,2) by (auto simp: own_mega_def fresh_def)
  then show "allocs (own_mega own v k Busy) = insert (bd_at v 0, MBLOCK_GROUP_BLOCKS k) (allocs own)" by (auto simp: allocs_def)
  show "dom (own_mega own v k Busy) = dom own \<union> {v..<v + k}" by (auto simp: own_mega_def dom_def split: if_splits)
qed

lemma minv_disown:
  assumes "minv s own MF MD" "clean own v k"
    and init: "\<And>a. bd_start (bds s' a) = bd_start (bds s a) \<and> bd_node (bds s' a) = bd_node (bds s a)"
    and same: "\<And>u L j. own u = Some (Split L) \<Longrightarrow> j < 252 \<Longrightarrow> bds s' (bd_at u j) = bds s (bd_at u j)"
    and fl: "free_list s' = free_list s"
    and out: "\<And>x l st. own x = Some (Mega x l st) \<Longrightarrow> \<not> (v \<le> x \<and> x < v + k) \<Longrightarrow> blocks_of s' (bd_at x 0) = blocks_of s (bd_at x 0)"
    and sets: "mega_sets s' (disown own v k) MF' MD'"
  shows "minv s' (disown own v k) MF' MD'"
proof (rule minv_step [OF assms(1) _ init same fl _ sets])
  note i = minvD(1) [OF assms(1)]
  show "disown own v k u = Some (Split L) \<longleftrightarrow> own u = Some (Split L)" for u L
    using assms(2) by (auto simp: disown_def clean_def)
  fix u x l st' assume u: "disown own v k u = Some (Mega x l st')"
  then have u': "\<not> (v \<le> u \<and> u < v + k)" and w: "own u = Some (Mega x l st')" by (auto simp: disown_def split: if_splits)
  note ok = megaD [OF i w] and out' = clean_outside [OF i assms(2) w u']
  have "l > 0" "own x = Some (Mega x l st')" using ok(3) mega_ok_head by (auto simp: mega_ok_def)
  then have "blocks_of s' (bd_at x 0) = blocks_of s (bd_at x 0)" using out out' [of x] by auto
  then have "mega_ok (bds s') (disown own v k) x l st'"
    by (intro mega_ok_keep [OF ok(3) _ init]) (use out' in \<open>auto simp: disown_def\<close>)
  with ok show "x \<le> u \<and> u < x + l \<and> mega_ok (bds s') (disown own v k) x l st'" by blast
qed

lemma busy_limbo:
  assumes "ba_inv s own" "own v = Some (Mega v k Busy)"
  shows "limbo s (disown own v k) v k" "allocs (disown own v k) = allocs own - {(bd_at v 0, MBLOCK_GROUP_BLOCKS k)}"
    "dom own = dom (disown own v k) \<union> {v..<v + k}"
proof -
  obtain MF MD where m: "minv s own MF MD" "\<And>d. gaps (MF d)" using assms(1) by (auto simp: ba_inv_iff)
  note i = minvD [OF m(1)] and vok = megaD(3) [OF minvD(1) [OF m(1)] assms(2)]
  have int: "own x = Some (Mega v k Busy)" if "v \<le> x \<and> x < v + k" for x using vok that by (auto simp: mega_ok_def)
  have k: "k > 0" using vok by (simp add: mega_ok_def)
  have out: "disown own v k x = Some (Mega x l st) \<longleftrightarrow> own x = Some (Mega x l st) \<and> \<not> (x = v \<and> l = k \<and> st = Busy)" for x l st
    using int [of x] k by (auto simp: disown_def)
  have out': "disown own v k x = Some (Split L) \<longleftrightarrow> own x = Some (Split L)" for x L
    using int [of x] by (auto simp: disown_def)
  have "minv s (disown own v k) MF MD"
  proof (rule minv_disown [OF m(1) mega_clean [OF i(1) assms(2)]])
    show "mega_sets s (disown own v k) MF MD" unfolding mega_sets_def out using i(4-7) by auto
  qed simp_all
  then show "limbo s (disown own v k) v k"
    using m(2) vok unfolding limbo_def ba_inv_iff by (auto simp: fresh_disown mega_ok_def)
  have "(x, y) \<in> allocs (disown own v k) \<longleftrightarrow> (x, y) \<in> allocs own - {(bd_at v 0, MBLOCK_GROUP_BLOCKS k)}" for x y
  proof -
    have "(bd_at v 0, MBLOCK_GROUP_BLOCKS k) \<notin> busies u 0 L" if "own u = Some (Split L)" for u L
    proof
      assume b: "(bd_at v 0, MBLOCK_GROUP_BLOCKS k) \<in> busies u 0 L"
      obtain L1 L2 where L: "L = L1 @ (MBLOCK_GROUP_BLOCKS k, False) # L2" "bd_at v 0 = bd_at u (0 + size_of L1)"
        using b unfolding busies_split by blast
      moreover have "size_of L1 < 256" using split_okD(2) [OF i(1) that] L by simp
      ultimately have "u = v" by auto
      with that assms(2) show False by simp
    qed
    then show ?thesis unfolding allocs_def out out' using assms(2) by auto
  qed
  then show "allocs (disown own v k) = allocs own - {(bd_at v 0, MBLOCK_GROUP_BLOCKS k)}" by auto
  show "dom own = dom (disown own v k) \<union> {v..<v + k}" using int by (auto simp: disown_def dom_def)
qed

end
