(* ===== verification/BlockFree.thy ===== *)
theory BlockFree
  imports BlockMegas
begin

text \<open>
  Freeing a group: the invariant of the block allocator is kept, the group is no longer allocated, and nothing
  else is.
\<close>

section \<open>Counters\<close>

lemma record_simps [simp]:
  "bds (recordFreedBlocks d n s) = bds s" "free_list (recordFreedBlocks d n s) = free_list s"
  "free_mblock_list (recordFreedBlocks d n s) = free_mblock_list s"
  "deferred_free_mblock_list (recordFreedBlocks d n s) = deferred_free_mblock_list s"
  "defer_mblock_frees (recordFreedBlocks d n s) = defer_mblock_frees s"
  "n_alloc_blocks (recordFreedBlocks d n s) = n_alloc_blocks s - n"
  "bds (recordAllocatedBlocks d n s) = bds s" "free_list (recordAllocatedBlocks d n s) = free_list s"
  "free_mblock_list (recordAllocatedBlocks d n s) = free_mblock_list s"
  "deferred_free_mblock_list (recordAllocatedBlocks d n s) = deferred_free_mblock_list s"
  "defer_mblock_frees (recordAllocatedBlocks d n s) = defer_mblock_frees s"
  "n_alloc_blocks (recordAllocatedBlocks d n s) = n_alloc_blocks s + n"
  by (simp_all add: recordFreedBlocks_def recordAllocatedBlocks_def Let_def)

lemma record_inv [simp]:
  "dlists (recordFreedBlocks d n s) FL = dlists s FL" "megas_ok (recordFreedBlocks d n s) own MF MD = megas_ok s own MF MD"
  "dlists (recordAllocatedBlocks d n s) FL = dlists s FL" "megas_ok (recordAllocatedBlocks d n s) own MF MD = megas_ok s own MF MD"
  by (simp_all add: dlists_def megas_ok_def)

lemma record_ba_inv [simp]:
  "ba_inv (recordFreedBlocks d n s) own = ba_inv s own" "ba_inv (recordAllocatedBlocks d n s) own = ba_inv s own"
  "limbo (recordFreedBlocks d n s) own v k = limbo s own v k" "limbo (recordAllocatedBlocks d n s) own v k = limbo s own v k"
  "pend (recordFreedBlocks d n s) own u L1 N L2 = pend s own u L1 N L2"
  by (simp_all add: ba_inv_def limbo_def pend_def base_def)

section \<open>Taking a group out of its megablock\<close>

lemma split_base:
  assumes "ba_inv s own" "own u = Some (Split (L1 @ (n, f) # L2))"
  shows "base s (own(u := None)) u L1 n L2"
    "\<exists>FL. dlists s FL \<and> members (bds s) (rest_free (own(u := None)) u L1 n L2 \<union> (if f then {bd_at u (size_of L1)} else {})) FL"
    "blocks_of s (bd_at u (size_of L1)) = n" "(bd_free (bds s (bd_at u (size_of L1))) = FREE_MARK) = f"
    "L1 \<noteq> [] \<or> L2 \<noteq> []" "f \<Longrightarrow> L1 = [] \<or> \<not> snd (last L1)" "f \<Longrightarrow> L2 = [] \<or> \<not> snd (hd L2)"
proof -
  let ?own = "own(u := None)" and ?L = "L1 @ (n, f) # L2"
  have own: "own = ?own(u \<mapsto> Split ?L)" "?own u = None" using assms(2) by auto
  from assms(1) obtain FL MF MD where i: "mblocks_ok (bds s) own" "coalesced own" "dlists s FL" "members (bds s) (all_free own) FL" "megas_ok s own MF MD"
    unfolding ba_inv_def by blast
  have ok: "mblocks_ok (bds s) ?own" "split_ok (bds s) u ?L" using i(1) mblocks_ok_split [where own = ?own and u = u, OF own(2)] own(1) by metis+
  have co: "coalesced ?own" "no_adj ?L" using i(2) coalesced_split [where own = ?own and u = u, OF own(2)] own(1) by metis+
  have mg: "megas_ok s ?own MF MD" using i(5) megas_ok_split [where own = ?own and u = u, OF own(2)] own(1) by metis
  have g: "group_at (bds s) u (size_of L1) n f" using ok(2) by (simp add: split_ok_def)
  then show "blocks_of s (bd_at u (size_of L1)) = n" "(bd_free (bds s (bd_at u (size_of L1))) = FREE_MARK) = f"
    by (simp_all add: group_at_def)
  have n: "n > 0" using g by (simp add: group_at_def)
  have adj: "no_adj L1" "no_adj L2" "f \<Longrightarrow> L1 = [] \<or> \<not> snd (last L1)" "f \<Longrightarrow> L2 = [] \<or> \<not> snd (hd L2)"
    using co(2) by (cases L2; auto simp: no_adj_append dest: no_adj_tl)+
  then show "f \<Longrightarrow> L1 = [] \<or> \<not> snd (last L1)" "f \<Longrightarrow> L2 = [] \<or> \<not> snd (hd L2)" by auto
  show "base s ?own u L1 n L2" using ok co(1) mg n adj by (auto simp: base_def split_ok_def)
  show "L1 \<noteq> [] \<or> L2 \<noteq> []" using ok(2) by (auto simp: split_ok_def)
  have "all_free own = all_free ?own \<union> frees u 0 ?L" using all_free_split [where own = ?own and u = u, OF own(2)] own(1) by metis
  then have "all_free own = rest_free ?own u L1 n L2 \<union> (if f then {bd_at u (size_of L1)} else {})" by (auto simp: rest_free_def)
  with i(3,4) show "\<exists>FL. dlists s FL \<and> members (bds s) (rest_free ?own u L1 n L2 \<union> (if f then {bd_at u (size_of L1)} else {})) FL" by auto
qed

lemma split_pend:
  assumes "ba_inv s own" "own u = Some (Split (L1 @ (n, False) # L2))" "p = bd_at u (size_of L1)"
    "\<And>b. bd_start (f b) = bd_start b \<and> bd_node (f b) = bd_node b \<and> bd_blocks (f b) = bd_blocks b \<and> bd_free (f b) = FREE_MARK"
  shows "pend (upd_bd p f s) (own(u := None)) u L1 n L2"
proof -
  note b = split_base [OF assms(1,2)]
  obtain FL where FL: "dlists s FL" "members (bds s) (rest_free (own(u := None)) u L1 n L2) FL" using b(2) by auto
  have i: "size_of L1 \<le> size_of L1" "size_of L1 < size_of L1 + n" using baseD(11) [OF b(1)] by simp_all
  have f: "\<And>b. bd_start (f b) = bd_start b \<and> bd_node (f b) = bd_node b" using assms(4) by simp
  note set = set_inside [OF b(1) FL subset_refl i, where f = f, OF f]
  show ?thesis unfolding pend_def using base_keep [OF b(1) set(1)] set(2,3) b(3) assms(3,4) by auto
qed

text \<open>The groups that are allocated beside a pending one.\<close>

definition rest_busy :: "owners \<Rightarrow> nat \<Rightarrow> groups \<Rightarrow> nat \<Rightarrow> groups \<Rightarrow> (nat \<times> nat) set" where
  "rest_busy own u L1 N L2 = allocs own \<union> busies u 0 L1 \<union> busies u (size_of L1 + N) L2"

lemma pend_limbo: "pend s own u [] N [] \<Longrightarrow> limbo s own u 1"
proof -
  have "fresh own u 1 \<longleftrightarrow> own u = None" unfolding fresh_def by (metis le_antisym less_Suc_eq_le add.commute plus_1_eq_Suc order_refl)
  then show "pend s own u [] N [] \<Longrightarrow> limbo s own u 1" by (auto simp: pend_def base_def limbo_def ba_inv_def rest_free_def ba_macros)
qed

lemma pend_done:
  assumes "pend s own u L1 N L2" "p = bd_at u (size_of L1)" "d = bd_node (bds s p)"
  defines "r \<equiv> (let (full, p, s) = coalesce_backwards d p s
      in if full then free_mega_group p s else Some (free_list_insert d p (setup_tail p s)))"
  assumes "L2 = [] \<or> \<not> snd (hd L2)" "L1 \<noteq> [] \<or> L2 \<noteq> []"
  obtains s' own' where "r = Some s'" "ba_inv s' own'" "allocs own' = rest_busy own u L1 N L2" "dom own' = insert u (dom own)"
    "n_alloc_blocks s' = n_alloc_blocks s" "defer_mblock_frees s' = defer_mblock_frees s"
proof (cases "L1 = [] \<or> \<not> snd (last L1)")
  case True
  have none: "own u = None" using assms(1) by (simp add: pend_def base_def)
  have "r = Some (free_list_insert d p (setup_tail p s))" using backward_none [OF assms(1,2) True] by (simp add: r_def)
  moreover note pend_finish [OF assms(1-3) True assms(5,6)]
  moreover have "allocs (own(u \<mapsto> Split (L1 @ (N, True) # L2))) = rest_busy own u L1 N L2"
    using none by (simp add: allocs_split rest_busy_def Un_assoc)
  moreover have "dom (own(u \<mapsto> Split (L1 @ (N, True) # L2))) = insert u (dom own)" by simp
  ultimately show thesis using that by blast
next
  case False
  then obtain L n where L: "L1 = L @ [(n, True)]" by (cases L1 rule: rev_cases) auto
  have p: "p = bd_at u (size_of L + n)" using assms(2) by (simp add: L)
  from backward_merge [OF assms(1) [unfolded L] p assms(3)]
  obtain s1 where s1: "coalesce_backwards d p s = (L = [] \<and> L2 = [], bd_at u (size_of L), s1)" "pend s1 own u L (n + N) L2"
    "n_alloc_blocks s1 = n_alloc_blocks s" "defer_mblock_frees s1 = defer_mblock_frees s" "\<And>a. bd_node (bds s1 a) = bd_node (bds s a)" by blast
  have busy: "rest_busy own u L (n + N) L2 = rest_busy own u L1 N L2" by (simp add: rest_busy_def L add.assoc)
  show thesis
  proof (cases "L = [] \<and> L2 = []")
    case True
    then have "limbo s1 own u 1" using s1(2) pend_limbo by simp
    from limbo_free [OF this] obtain s' own' where f: "free_mega_group (bd_at u 0) s1 = Some s'" "ba_inv s' own'"
      "dom own' = dom own \<union> {u..<u + 1}" "allocs own' = allocs own" "n_alloc_blocks s' = n_alloc_blocks s1" "defer_mblock_frees s' = defer_mblock_frees s1" .
    have "rest_busy own u L1 N L2 = allocs own" using True unfolding busy [symmetric] by (simp add: rest_busy_def)
    then show thesis using that f s1 True by (simp add: r_def)
  next
    case False
    have "size_of L < 252" "size_of L + n < 252" using assms(1) by (auto simp: pend_def base_def L)
    then have d: "d = bd_node (bds s1 (bd_at u (size_of L)))"
      using base_node [of s own u L1 N L2 "size_of L" "size_of L + n"] assms(1,3) s1(5) by (simp add: pend_def p)
    have none: "own u = None" using assms(1) by (simp add: pend_def base_def)
    have adj: "L = [] \<or> \<not> snd (last L)" using assms(1) by (auto simp: pend_def base_def L no_adj_append)
    have "r = Some (free_list_insert d (bd_at u (size_of L)) (setup_tail (bd_at u (size_of L)) s1))" using s1(1) False by (auto simp: r_def)
    moreover note pend_finish [OF s1(2) refl d adj assms(5)]
    moreover have "allocs (own(u \<mapsto> Split (L @ (n + N, True) # L2))) = rest_busy own u L1 N L2"
      unfolding busy [symmetric] using none by (simp add: allocs_split rest_busy_def Un_assoc)
    moreover have "dom (own(u \<mapsto> Split (L @ (n + N, True) # L2))) = insert u (dom own)" by simp
    ultimately show thesis using that False s1(3,4) by simp
  qed
qed

text \<open>Changes outside the megablocks that are in use.\<close>

lemma ba_inv_cong:
  assumes "ba_inv s own" "\<And>u j. own u \<noteq> None \<Longrightarrow> j < 252 \<Longrightarrow> bds s' (bd_at u j) = bds s (bd_at u j)"
    "free_list s' = free_list s" "free_mblock_list s' = free_mblock_list s" "deferred_free_mblock_list s' = deferred_free_mblock_list s"
  shows "ba_inv s' own"
proof -
  from assms(1) obtain FL MF MD where i: "mblocks_ok (bds s) own" "coalesced own" "dlists s FL" "members (bds s) (all_free own) FL" "megas_ok s own MF MD"
    unfolding ba_inv_def by blast
  have init: "mblock_init (bds s') u d = mblock_init (bds s) u d" if "own u \<noteq> None" for u d
    using assms(2) [OF that] by (simp add: mblock_init_def)
  have heads: "bds s' (bd_at v 0) = bds s (bd_at v 0)" if "own v = Some (Mega v k st)" for v k st
    using assms(2) [of v 0] that by simp
  have ok: "mblocks_ok (bds s') own"
    unfolding mblocks_ok_def
  proof (intro conjI allI impI)
    fix u L assume u: "own u = Some (Split L)"
    note ok = split_okD [OF i(1) u]
    have "lay (bds s') u 0 L = lay (bds s) u 0 L" by (rule lay_cong) (use assms(2) [of u] u ok(2) in \<open>auto simp: tag_def\<close>)
    then show "split_ok (bds s') u L" using ok init [of u] u by (auto simp: split_ok_def)
  next
    fix u v k st assume u: "own u = Some (Mega v k st)"
    note ok = megaD [OF i(1) u]
    then show "v \<le> u" "u < v + k" by simp_all
    note v = mega_ok_head [OF ok(3)]
    then show "mega_ok (bds s') own v k st" using ok(3) init [of v] heads [OF v] by (auto simp: mega_ok_def)
  qed
  have free: "bds s' x = bds s x" if "x \<in> all_free own" for x using all_free_at [OF i(1) that] assms(2) by (metis option.distinct(1))
  have mem: "x \<in> set (FL d k) \<Longrightarrow> x \<in> all_free own" for x d k using i(4) by (simp add: members_def)
  have "dlist (bds s') p (FL d k) = dlist (bds s) p (FL d k)" for p d k by (rule dl_list_cong) (use mem free in metis)
  then have "dlists s' FL" using i(3) by (simp add: dlists_def assms(3))
  moreover have "members (bds s') (all_free own) FL" using i(4) free unfolding members_def by metis
  moreover have "megas_ok s' own MF MD"
  proof -
    have "mega_list (bds s') p (MF d) = mega_list (bds s) p (MF d)" "mega_list (bds s') p (MD d) = mega_list (bds s) p (MD d)" for p d
      using i(5) heads by (auto intro!: mega_list_cong simp: megas_ok_def)
    moreover have "own v = Some (Mega v k st) \<and> bd_node (bds s' (bd_at v 0)) = d \<longleftrightarrow> own v = Some (Mega v k st) \<and> bd_node (bds s (bd_at v 0)) = d" for v k st d
      using heads by auto
    ultimately show ?thesis using i(5) unfolding megas_ok_def assms(4,5) by simp
  qed
  ultimately show ?thesis using ok i(2) unfolding ba_inv_def by blast
qed

section \<open>\<open>freeGroup\<close>\<close>

text \<open>The blocks a group counts for in the statistics.\<close>

definition counted :: "nat \<Rightarrow> nat" where
  "counted n = (if n \<ge> BLOCKS_PER_MBLOCK then BLOCKS_TO_MBLOCKS n * BLOCKS_PER_MBLOCK else n)"

lemma pend_forward:
  assumes "pend s own u L1 N L2" "p = bd_at u (size_of L1)" "d = bd_node (bds s p)" "L1 \<noteq> [] \<or> L2 \<noteq> []"
  obtains s' own' where "(let (full, s) = coalesce_forwards d p s
      in if full then free_mega_group p s
         else let (full, p, s) = coalesce_backwards d p s
              in if full then free_mega_group p s else Some (free_list_insert d p (setup_tail p s))) = Some s'"
    "ba_inv s' own'" "allocs own' = rest_busy own u L1 N L2" "dom own' = insert u (dom own)"
    "n_alloc_blocks s' = n_alloc_blocks s" "defer_mblock_frees s' = defer_mblock_frees s"
proof (cases "L2 = [] \<or> \<not> snd (hd L2)")
  case True
  from pend_done [OF assms(1-3) True assms(4)] show thesis
    using that unfolding forward_none [OF assms(1,2) True] Let_def prod.case if_False by blast
next
  case False
  then obtain n L where L: "L2 = (n, True) # L" by (cases L2) auto
  from forward_merge [OF assms(1) [unfolded L] assms(2,3)]
  obtain s1 where s1: "coalesce_forwards d p s = (L1 = [] \<and> L = [], s1)" "pend s1 own u L1 (N + n) L"
    "n_alloc_blocks s1 = n_alloc_blocks s" "defer_mblock_frees s1 = defer_mblock_frees s" "\<And>a. bd_node (bds s1 a) = bd_node (bds s a)" by blast
  have busy: "rest_busy own u L1 (N + n) L = rest_busy own u L1 N L2" by (simp add: rest_busy_def L add.assoc)
  show thesis
  proof (cases "L1 = [] \<and> L = []")
    case True
    then have "limbo s1 own u 1" using s1(2) pend_limbo by simp
    from limbo_free [OF this] obtain s' own' where f: "free_mega_group (bd_at u 0) s1 = Some s'" "ba_inv s' own'"
      "dom own' = dom own \<union> {u..<u + 1}" "allocs own' = allocs own" "n_alloc_blocks s' = n_alloc_blocks s1" "defer_mblock_frees s' = defer_mblock_frees s1" .
    have "rest_busy own u L1 N L2 = allocs own" using True unfolding busy [symmetric] by (simp add: rest_busy_def)
    then show thesis using that f s1 True assms(2) by simp
  next
    case False
    have adj: "L = [] \<or> \<not> snd (hd L)" using assms(1) by (cases L) (auto simp: pend_def base_def \<open>L2 = (n, True) # L\<close>)
    have ne: "L1 \<noteq> [] \<or> L \<noteq> []" using False by blast
    have d: "d = bd_node (bds s1 p)" using s1(5) assms(3) by simp
    have full: "coalesce_forwards d p s = (False, s1)" using s1(1) False by simp
    from pend_done [OF s1(2) assms(2) d adj ne] show thesis
      using that unfolding full Let_def prod.case if_False busy s1(3,4) by blast
  qed
qed

lemma alloc_at:
  assumes "mblocks_ok m own" "(x, n) \<in> allocs own"
  obtains v j where "x = bd_at v j" "j < 252" "own v \<noteq> None"
proof -
  from assms(2) consider u L where "own u = Some (Split L)" "(x, n) \<in> busies u 0 L" | v k where "own v = Some (Mega v k Busy)" "x = bd_at v 0"
    by (auto simp: allocs_def)
  then show thesis
  proof cases
    case 1
    obtain L1 L2 where L: "L = L1 @ (n, False) # L2" "x = bd_at u (0 + size_of L1)" using 1(2) unfolding busies_split by blast
    have "n > 0" using lay_pos [OF split_okD(1) [OF assms(1) 1(1)], of n False] L(1) by simp
    then have "size_of L1 < 252" using split_okD(2) [OF assms(1) 1(1)] L(1) by simp
    then show thesis using that 1(1) L(2) by simp
  next
    case 2
    then show thesis using that [of v 0] by simp
  qed
qed

lemma not_rest_busy:
  assumes "base s own u L1 N L2" "size_of L1 \<le> j" "j < size_of L1 + N"
  shows "(bd_at u j, n) \<notin> rest_busy own u L1 N L2"
proof
  note b = baseD [OF assms(1)]
  have j: "j < 252" using assms(3) b(10) by simp
  assume "(bd_at u j, n) \<in> rest_busy own u L1 N L2"
  then consider "(bd_at u j, n) \<in> allocs own" | "(bd_at u j, n) \<in> busies u 0 L1" | "(bd_at u j, n) \<in> busies u (size_of L1 + N) L2"
    by (auto simp: rest_busy_def)
  then show False
  proof cases
    case 1
    from alloc_at [OF b(2) 1] show False using b(1) j by auto
  next
    case 2
    obtain K1 K2 where K: "L1 = K1 @ (n, False) # K2" "bd_at u j = bd_at u (0 + size_of K1)" using 2 unfolding busies_split by blast
    have "n > 0" using lay_pos [OF b(6), of n False] K(1) by simp
    then show False using K j assms(2) b(10) by auto
  next
    case 3
    obtain K1 K2 where K: "L2 = K1 @ (n, False) # K2" "bd_at u j = bd_at u (size_of L1 + N + size_of K1)" using 3 unfolding busies_split by blast
    then show False using j assms(3) b(10) by auto
  qed
qed

lemma allocs_hole: "own u = Some (Split (L1 @ (n, f) # L2)) \<Longrightarrow>
    allocs own = rest_busy (own(u := None)) u L1 n L2 \<union> (if f then {} else {(bd_at u (size_of L1), n)})"
  using allocs_split [where own = "own(u := None)" and u = u and L = "L1 @ (n, f) # L2"] by (auto simp: fun_upd_idem rest_busy_def)

lemma freeGroup_ok:
  assumes "ba_inv s own" "(p, n) \<in> allocs own"
  obtains s' own' where "freeGroup p s = Some s'" "ba_inv s' own'" "allocs own' = allocs own - {(p, n)}" "dom own' = dom own"
    "n_alloc_blocks s' = n_alloc_blocks s - counted n" "defer_mblock_frees s' = defer_mblock_frees s"
proof -
  let ?f = "\<lambda>b. b\<lparr>bd_free := FREE_MARK, bd_gen := 0, bd_gen_no := 0\<rparr>"
  let ?s = "upd_bd p ?f s" and ?d = "bd_node (bds s p)"
  have ok: "mblocks_ok (bds s) own" using assms(1) by (simp add: ba_inv_def)
  from assms(2) consider u L1 L2 where "own u = Some (Split (L1 @ (n, False) # L2))" "p = bd_at u (size_of L1)"
    | v k where "own v = Some (Mega v k Busy)" "p = bd_at v 0" "n = MBLOCK_GROUP_BLOCKS k"
    unfolding allocs_def busies_split by auto
  then show thesis
  proof cases
    case 1
    note b = split_base [OF assms(1) 1(1)]
    have pend: "pend ?s (own(u := None)) u L1 n L2" by (rule split_pend [OF assms(1) 1]) simp
    have n: "n > 0" "n < 252" "n \<noteq> 0" using baseD(10,11) [OF b(1)] full_iff [OF b(1)] b(5) by auto
    have d: "?d = bd_node (bds (recordFreedBlocks ?d n ?s) p)" by simp
    from pend_forward [OF _ 1(2) d b(5), of "own(u := None)" n] pend
    obtain s' own' where f: "(let (full, s) = coalesce_forwards ?d p (recordFreedBlocks ?d n ?s)
      in if full then free_mega_group p s
         else let (full, p, s) = coalesce_backwards ?d p s
              in if full then free_mega_group p s else Some (free_list_insert ?d p (setup_tail p s))) = Some s'"
      "ba_inv s' own'" "allocs own' = rest_busy (own(u := None)) u L1 n L2" "dom own' = insert u (dom (own(u := None)))"
      "n_alloc_blocks s' = n_alloc_blocks (recordFreedBlocks ?d n ?s)" "defer_mblock_frees s' = defer_mblock_frees (recordFreedBlocks ?d n ?s)"
      by auto
    have fg: "freeGroup p s = Some s'"
      using f(1) n b(3) [folded 1(2)] unfolding freeGroup_def Let_def by (simp add: ba_consts)
    have al: "allocs own = insert (p, n) (rest_busy (own(u := None)) u L1 n L2)"
      using allocs_hole [where own = own, OF 1(1)] by (simp add: 1(2))
    have "(p, n) \<notin> rest_busy (own(u := None)) u L1 n L2"
      unfolding 1(2) by (rule not_rest_busy [OF b(1)]) (use n in simp_all)
    then have "allocs own' = allocs own - {(p, n)}" using al f(3) by auto
    moreover have "dom own' = dom own" using f(4) 1(1) by auto
    ultimately show thesis using that fg f(2,5,6) n by (simp add: counted_def ba_consts)
  next
    case 2
    let ?own = "disown own v k"
    note b = busy_limbo [OF assms(1) 2(1)]
    have k: "k > 0" "blocks_of s p = n" using b(1) 2 by (simp_all add: limbo_def)
    have n: "n \<ge> 252" "BLOCKS_TO_MBLOCKS n = k" using k(1) by (simp_all add: 2(3)) (simp add: ba_macros)
    have none: "?own v = None" using k(1) by (simp add: disown_def)
    have "ba_inv ?s ?own"
      by (rule ba_inv_cong [where s = s]) (use b(1) none in \<open>auto simp: limbo_def 2(2)\<close>)
    moreover have "mblock_init (bds ?s) v d = mblock_init (bds s) v d" for d by (rule mblock_init_cong) simp
    ultimately have "limbo (recordFreedBlocks ?d (k * BLOCKS_PER_MBLOCK) ?s) ?own v k" using b(1) by (simp add: limbo_def 2(2))
    from limbo_free [OF this] obtain s' own' where f: "free_mega_group p (recordFreedBlocks ?d (k * BLOCKS_PER_MBLOCK) ?s) = Some s'" "ba_inv s' own'"
      "dom own' = dom ?own \<union> {v..<v + k}" "allocs own' = allocs ?own"
      "n_alloc_blocks s' = n_alloc_blocks s - k * BLOCKS_PER_MBLOCK" "defer_mblock_frees s' = defer_mblock_frees s"
      by (auto simp: 2(2))
    have "freeGroup p s = Some s'" using f(1) n k unfolding freeGroup_def Let_def by (simp add: ba_consts)
    then show thesis using that f b(2,3) n 2(2,3) by (simp add: counted_def ba_consts)
  qed
qed

end
