(* ===== verification/BlockGet.thy ===== *)
theory BlockGet
  imports BlockFree
begin

text \<open>
  Allocating a group: the invariant of the block allocator is kept, exactly one group becomes allocated, and
  it has the size asked for.
\<close>

section \<open>Initialising a megablock\<close>

lemma block_at_next: "block_at u i + BLOCK_SIZE = block_at u (Suc i)"
  by (simp add: block_at_def)

lemma init_blocks_frame [simp]:
  "free_list (init_blocks n a b d s) = free_list s" "free_mblock_list (init_blocks n a b d s) = free_mblock_list s"
  "deferred_free_mblock_list (init_blocks n a b d s) = deferred_free_mblock_list s" "n_alloc_blocks (init_blocks n a b d s) = n_alloc_blocks s"
  "defer_mblock_frees (init_blocks n a b d s) = defer_mblock_frees s" "blocks_of (init_blocks n a b d s) x = blocks_of s x"
  by (induction n a b d s rule: init_blocks.induct) auto

lemma init_blocks_at:
  assumes "i + n \<le> 252" "j < 252"
  shows "bds (init_blocks n (bd_at u i) (block_at u i) d s) (bd_at v j) =
    (if v = u \<and> i \<le> j \<and> j < i + n then (bds s (bd_at u j))\<lparr>bd_start := block_at u j, bd_node := d\<rparr> else bds s (bd_at v j))"
  using assms
proof (induction n arbitrary: i s)
  case (Suc n)
  have "bds (init_blocks (Suc n) (bd_at u i) (block_at u i) d s) (bd_at v j) =
      bds (init_blocks n (bd_at u (Suc i)) (block_at u (Suc i)) d (upd_bd (bd_at u i) (\<lambda>b. b\<lparr>bd_start := block_at u i, bd_node := d\<rparr>) s)) (bd_at v j)"
    by (simp add: block_at_next)
  then show ?case using Suc.prems by (subst (asm) Suc.IH) auto
qed auto

lemma initMBlock_eq: "initMBlock (u * MBLOCK_SIZE) d s = init_blocks 252 (bd_at u 0) (block_at u 0) d s"
proof -
  have "(LAST_BLOCK (u * MBLOCK_SIZE) + BLOCK_SIZE - FIRST_BLOCK (u * MBLOCK_SIZE)) div BLOCK_SIZE = 252"
    by (simp add: ba_macros ba_consts)
  moreover have "FIRST_BLOCK (u * MBLOCK_SIZE) = block_at u 0" by (simp add: ba_macros block_at_def ba_consts)
  ultimately show ?thesis unfolding initMBlock_def by (simp only: bd_at_simps)
qed

lemma initMBlock_init: "mblock_init (bds (initMBlock (u * MBLOCK_SIZE) d s)) u d"
  unfolding initMBlock_eq mblock_init_def by (simp add: init_blocks_at)

lemma initMBlock_inv:
  assumes "ba_inv s own" "own u = None"
  shows "ba_inv (initMBlock (u * MBLOCK_SIZE) d s) own"
  by (rule ba_inv_cong [OF assms(1)]) (use assms(2) in \<open>auto simp: initMBlock_eq init_blocks_at\<close>)

text \<open>Changing the first descriptor of a group in limbo, or others of its first megablock.\<close>

lemma limbo_upd:
  assumes "limbo s own v k" "j < 252" "\<And>b. bd_start (f b) = bd_start b \<and> bd_node (f b) = bd_node b" "j = 0 \<Longrightarrow> \<forall>b. bd_blocks (f b) = bd_blocks b"
  shows "limbo (upd_bd (bd_at v j) f s) own v k"
proof -
  have none: "own v = None" using assms(1) by (auto simp: limbo_def fresh_def)
  have "ba_inv (upd_bd (bd_at v j) f s) own"
    by (rule ba_inv_cong [where s = s]) (use assms(1,2) none in \<open>auto simp: limbo_def\<close>)
  moreover have "mblock_init (bds (upd_bd (bd_at v j) f s)) v d = mblock_init (bds s) v d" for d
    by (rule mblock_init_cong) (use assms(3) in simp)
  ultimately show ?thesis using assms by (auto simp: limbo_def)
qed

lemma limbo_initGroup:
  assumes "limbo s own v k"
  shows "limbo (initGroup (bd_at v 0) s) own v k"
proof -
  let ?s = "upd_bd (bd_at v 0) (\<lambda>b. b\<lparr>bd_free := bd_start b, bd_link := 0\<rparr>) s"
  have l: "limbo ?s own v k" using assms by (rule limbo_upd) simp_all
  have k: "k > 0" "blocks_of ?s (bd_at v 0) = MBLOCK_GROUP_BLOCKS k" using l by (auto simp: limbo_def)
  show ?thesis
  proof (cases "k = 1")
    case True
    then have "initGroup (bd_at v 0) s = upd_bd (bd_at v 251) (\<lambda>b. b\<lparr>bd_blocks := 0, bd_link := bd_at v 0\<rparr>) ?s"
      using k unfolding initGroup_def Let_def tail_of_def by (simp add: ba_macros(5) ba_consts del: upd_bd_simps)
    then show ?thesis using limbo_upd [OF l, of 251 "\<lambda>b. b\<lparr>bd_blocks := 0, bd_link := bd_at v 0\<rparr>"] by simp
  next
    case False
    then have "MBLOCK_GROUP_BLOCKS k > BLOCKS_PER_MBLOCK" using k(1) by (simp add: ba_macros ba_consts)
    then have "initGroup (bd_at v 0) s = ?s" using k by (simp add: initGroup_def Let_def del: upd_bd_simps)
    then show ?thesis using l by simp
  qed
qed

section \<open>The search for megablocks\<close>

lemma group_blocks_eq [simp]: "k > 0 \<Longrightarrow> j > 0 \<Longrightarrow> MBLOCK_GROUP_BLOCKS k = MBLOCK_GROUP_BLOCKS j \<longleftrightarrow> k = j"
  by (auto simp: ba_macros)

lemma group_blocks_less [simp]: "k > 0 \<Longrightarrow> j > 0 \<Longrightarrow> MBLOCK_GROUP_BLOCKS k < MBLOCK_GROUP_BLOCKS j \<longleftrightarrow> k < j"
  by (auto simp: ba_macros)

definition groups_sized :: "(nat \<Rightarrow> bdescr) \<Rightarrow> (nat \<times> nat) list \<Rightarrow> bool" where
  "groups_sized m xs \<longleftrightarrow> (\<forall>v k. (v, k) \<in> set xs \<longrightarrow> k > 0 \<and> bd_blocks (m (bd_at v 0)) = MBLOCK_GROUP_BLOCKS k)"

lemma find_mega_eq:
  assumes "mega_list m p xs" "groups_sized m xs" "j > 0"
  shows "(\<exists>A v B best'. xs = A @ (v, j) # B \<and> find_mega m (MBLOCK_GROUP_BLOCKS j) p prev best = Some (bd_at v 0, if A = [] then prev else last_of A, best')) \<or>
    (\<exists>prev' best'. find_mega m (MBLOCK_GROUP_BLOCKS j) p prev best = Some (0, prev', best') \<and>
      (best' = best \<or> (\<exists>v k. (v, k) \<in> set xs \<and> k > j \<and> best' = bd_at v 0)))"
  using assms(1,2)
proof (induction xs arbitrary: p prev best)
  case Nil
  then show ?case by (subst (2) find_mega.simps, subst find_mega.simps) (simp add: mega_list_def)
next
  case (Cons a xs)
  obtain w l where a: "a = (w, l)" by force
  have p: "p = bd_at w 0" "mega_list m (bd_link (m p)) xs" "l > 0" "bd_blocks (m p) = MBLOCK_GROUP_BLOCKS l"
    using Cons.prems by (auto simp: a mega_list_def groups_sized_def)
  have sized: "groups_sized m xs" using Cons.prems(2) by (auto simp: groups_sized_def)
  show ?case
  proof (cases "l = j")
    case True
    then have "find_mega m (MBLOCK_GROUP_BLOCKS j) p prev best = Some (p, prev, best)"
      using p by (subst find_mega.simps) simp
    then show ?thesis using True p(1) by (intro disjI1 exI [of _ "[]"] exI [of _ w] exI [of _ xs] exI [of _ best]) (simp add: a)
  next
    case False
    define best1 where "best1 = (if bd_blocks (m p) > MBLOCK_GROUP_BLOCKS j \<and> (best = 0 \<or> bd_blocks (m p) < bd_blocks (m best)) then p else best)"
    have f: "find_mega m (MBLOCK_GROUP_BLOCKS j) p prev best = find_mega m (MBLOCK_GROUP_BLOCKS j) (bd_link (m p)) p best1"
      using p False assms(3) by (subst find_mega.simps) (simp add: best1_def)
    have b1: "best1 = best \<or> l > j \<and> best1 = bd_at w 0" using p assms(3) by (auto simp: best1_def)
    from Cons.IH [OF p(2) sized, of p best1] show ?thesis
    proof (elim disjE exE conjE)
      fix A v B best' assume "xs = A @ (v, j) # B"
        "find_mega m (MBLOCK_GROUP_BLOCKS j) (bd_link (m p)) p best1 = Some (bd_at v 0, if A = [] then p else last_of A, best')"
      then show ?thesis unfolding f
        by (intro disjI1 exI [of _ "a # A"] exI [of _ v] exI [of _ B] exI [of _ best']) (auto simp: a last_of_def p(1))
    next
      fix prev' best' assume "find_mega m (MBLOCK_GROUP_BLOCKS j) (bd_link (m p)) p best1 = Some (0, prev', best')" "best' = best1"
      then show ?thesis unfolding f using b1 by (intro disjI2) (auto simp: a)
    next
      fix prev' best' v k assume "find_mega m (MBLOCK_GROUP_BLOCKS j) (bd_link (m p)) p best1 = Some (0, prev', best')"
        "(v, k) \<in> set xs" "k > j" "best' = bd_at v 0"
      then show ?thesis unfolding f by (intro disjI2) auto
    qed
  qed
qed

section \<open>Taking megablocks off a list\<close>

text \<open>One of the two lists, with the status of its members.\<close>

definition mset_ok :: "(nat \<Rightarrow> bdescr) \<Rightarrow> (nat \<Rightarrow> nat) \<Rightarrow> owners \<Rightarrow> mstate \<Rightarrow> megas \<Rightarrow> bool" where
  "mset_ok m h own st M \<longleftrightarrow> (\<forall>d. mega_list m (h d) (M d)) \<and>
    (\<forall>d v k. (v, k) \<in> set (M d) \<longleftrightarrow> own v = Some (Mega v k st) \<and> bd_node (m (bd_at v 0)) = d)"

lemma mega_sets_iff: "mega_sets s own MF MD \<longleftrightarrow>
    mset_ok (bds s) (free_mblock_list s) own Listed MF \<and> mset_ok (bds s) (deferred_free_mblock_list s) own Deferred MD"
  by (auto simp: mega_sets_def mset_ok_def)

lemma mset_other:
  assumes "mset_ok m h own st M" "\<And>x l. own' x = Some (Mega x l st) \<longleftrightarrow> own x = Some (Mega x l st)" "\<And>a. bd_node (m' a) = bd_node (m a)"
    "\<And>x l. own x = Some (Mega x l st) \<Longrightarrow> bd_link (m' (bd_at x 0)) = bd_link (m (bd_at x 0))"
  shows "mset_ok m' h own' st M"
proof -
  have "mega_list m' p (M d) = mega_list m p (M d)" for p d
    by (rule mega_list_cong) (use assms(1,4) in \<open>auto simp: mset_ok_def\<close>)
  then show ?thesis using assms(1) unfolding mset_ok_def assms(2,3) by simp
qed

lemma mset_remove:
  assumes "mset_ok m h own st M" "M d = A @ (v, k) # B" "\<And>x l. own' x = Some (Mega x l st) \<longleftrightarrow> own x = Some (Mega x l st) \<and> x \<noteq> v"
    "\<And>a. bd_node (m' a) = bd_node (m a)" "A \<noteq> [] \<Longrightarrow> bd_link (m' (last_of A)) = bd_link (m (bd_at v 0))"
    "\<And>a. A = [] \<or> a \<noteq> last_of A \<Longrightarrow> bd_link (m' a) = bd_link (m a)"
    "h' = (if A = [] then h(d := bd_link (m (bd_at v 0))) else h)"
  shows "mset_ok m' h' own' st (M(d := A @ B))"
proof -
  let ?h = "\<lambda>(v, k :: nat). bd_at v 0"
  have mem: "(x, l) \<in> set (M d') \<longleftrightarrow> own x = Some (Mega x l st) \<and> bd_node (m (bd_at x 0)) = d'" for x l d' using assms(1) by (simp add: mset_ok_def)
  have l: "chain (\<lambda>a. bd_link (m a)) 0 (h d) (map ?h A @ bd_at v 0 # map ?h B)"
    using assms(1,2) by (metis (no_types, lifting) mset_ok_def mega_list_def list.simps(9) map_append prod.case)
  have d: "distinct (map ?h A @ bd_at v 0 # map ?h B)" using chain_distinct [OF l] .
  have la: "last (map ?h A) = last_of A" if "A \<noteq> []" using that by (auto simp: last_of_def last_map split: prod.splits)
  have "chain (\<lambda>a. bd_link (m' a)) 0 (if map ?h A = [] then bd_link (m (bd_at v 0)) else h d) (map ?h A @ map ?h B)"
  proof (rule chain_unlink [OF l])
    show "bd_link (m' x) = bd_link (m x)" if "map ?h A = [] \<or> x \<noteq> last (map ?h A)" for x using that assms(6) la by (cases "A = []") auto
    show "bd_link (m' (last (map ?h A))) = bd_link (m (bd_at v 0))" if "map ?h A \<noteq> []" using that assms(5) la by auto
  qed
  then have new: "mega_list m' (h' d) (A @ B)" by (cases "A = []") (simp_all add: mega_list_def assms(7))
  have other: "mega_list m' (h' d') (M d')" if "d' \<noteq> d" for d'
  proof -
    have "last_of A \<notin> ?h ` set (M d')" if "A \<noteq> []"
    proof
      assume "last_of A \<in> ?h ` set (M d')"
      then obtain x l where x: "last_of A = bd_at x 0" "(x, l) \<in> set (M d')" by auto
      obtain y z where y: "last A = (y, z)" by force
      have "(y, z) \<in> set (M d)" using last_in_set [OF that] y assms(2) by simp
      moreover have "x = y" using x(1) y that by (simp add: last_of_def)
      ultimately show False using x(2) mem [of x l d'] mem [of y z d] \<open>d' \<noteq> d\<close> by simp
    qed
    then have "mega_list m' (h d') (M d') = mega_list m (h d') (M d')"
      by (intro mega_list_links) (use assms(6) in metis)
    then show ?thesis using assms(1,7) that by (auto simp: mset_ok_def)
  qed
  have "(v, k) \<notin> set A" "(v, k) \<notin> set B" "(v, l) \<notin> set A" "(v, l) \<notin> set B" for l using d by force+
  then have "(x, l) \<in> set (A @ B) \<longleftrightarrow> (x, l) \<in> set (M d) \<and> x \<noteq> v" for x l using assms(2) by auto
  moreover have "(x, l) \<in> set (M d') \<Longrightarrow> x = v \<Longrightarrow> d' = d" for x l d' using mem [of v l d'] mem [of v k d] assms(2) by simp
  ultimately show ?thesis using new other mem unfolding mset_ok_def assms(3,4) by auto
qed

text \<open>The group that a search finds, on the list of status \<open>st\<close>.\<close>

definition on_list :: "mstate \<Rightarrow> ba_state \<Rightarrow> nat \<Rightarrow> nat" where
  "on_list st s = (if st = Listed then free_mblock_list s else deferred_free_mblock_list s)"

definition unlink :: "mstate \<Rightarrow> nat \<Rightarrow> nat \<Rightarrow> nat \<Rightarrow> ba_state \<Rightarrow> ba_state" where
  "unlink st d prev p s =
    (if prev \<noteq> 0 then upd_bd prev (\<lambda>b. b\<lparr>bd_link := link_of s p\<rparr>) s
     else if st = Listed then s\<lparr>free_mblock_list := (free_mblock_list s)(d := link_of s p)\<rparr>
     else s\<lparr>deferred_free_mblock_list := (deferred_free_mblock_list s)(d := link_of s p)\<rparr>)"

lemma unlink_simps [simp]:
  "bd_start (bds (unlink st d q p s) a) = bd_start (bds s a)" "bd_node (bds (unlink st d q p s) a) = bd_node (bds s a)"
  "blocks_of (unlink st d q p s) a = blocks_of s a" "free_list (unlink st d q p s) = free_list s"
  "n_alloc_blocks (unlink st d q p s) = n_alloc_blocks s" "defer_mblock_frees (unlink st d q p s) = defer_mblock_frees s"
  by (simp_all add: unlink_def)

abbreviation mlist :: "mstate \<Rightarrow> megas \<Rightarrow> megas \<Rightarrow> megas" where
  "mlist st MF MD \<equiv> (if st = Listed then MF else MD)"

lemma mega_setsI:
  assumes "\<And>st. st \<noteq> Busy \<Longrightarrow> mset_ok (bds s) (on_list st s) own st (mlist st MF MD)"
  shows "mega_sets s own MF MD"
  using assms [of Listed] assms [of Deferred] by (simp add: mega_sets_iff on_list_def)

lemma mega_setsD: "minv s own MF MD \<Longrightarrow> st \<noteq> Busy \<Longrightarrow> mset_ok (bds s) (on_list st s) own st (mlist st MF MD)"
  by (cases st) (auto simp: minv_def mega_sets_iff on_list_def)

lemma gaps_skip: "gaps (A @ (v, k) # B) \<Longrightarrow> gaps (A @ B)"
  unfolding sorted_wrt_append sorted_wrt.simps by (simp del: case_prod_conv)

lemma unlink_limbo:
  assumes m: "minv s own MF MD" "\<And>d. gaps (MF d)" and M: "mlist st MF MD d = A @ (v, k) # B" and st: "st \<noteq> Busy"
  defines "s' \<equiv> unlink st d (last_of A) (bd_at v 0) s"
  shows "limbo s' (disown own v k) v k" "allocs (disown own v k) = allocs own" "dom own = dom (disown own v k) \<union> {v..<v + k}"
    "bd_node (bds s (bd_at v 0)) = d"
proof -
  note i = minvD [OF m(1)] and ok = mega_setsD [OF m(1)]
  have v: "own v = Some (Mega v k st)" "bd_node (bds s (bd_at v 0)) = d"
    by (metis ok [OF st] M mset_ok_def in_set_conv_decomp)+
  then show "bd_node (bds s (bd_at v 0)) = d" by simp
  note vok = megaD(3) [OF i(1) v(1)]
  have int: "own x = Some (Mega v k st)" if "v \<le> x \<and> x < v + k" for x using vok that by (auto simp: mega_ok_def)
  have k: "k > 0" using vok by (simp add: mega_ok_def)
  have out: "disown own v k x = Some (Mega x l st') \<longleftrightarrow> own x = Some (Mega x l st') \<and> x \<noteq> v" for x l st'
    using int [of x] k by (auto simp: disown_def)
  have out': "disown own v k x = Some (Split L) \<longleftrightarrow> own x = Some (Split L)" for x L
    using int [of x] by (auto simp: disown_def)
  have prev: "\<exists>y z. last_of A = bd_at y 0 \<and> own y = Some (Mega y z st)" if "A \<noteq> []"
  proof -
    obtain y z where y: "last A = (y, z)" by force
    then have "(y, z) \<in> set (mlist st MF MD d)" using M last_in_set [OF that] by simp
    then have "own y = Some (Mega y z st)" by (metis ok [OF st] mset_ok_def)
    then show ?thesis using y that by (auto simp: last_of_def)
  qed
  have desc: "bds s' a = bds s a" if "A = [] \<or> a \<noteq> last_of A" for a using that by (auto simp: s'_def unlink_def last_of_def)
  let ?MF = "if st = Listed then MF(d := A @ B) else MF" and ?MD = "if st = Listed then MD else MD(d := A @ B)"
  have "minv s' (disown own v k) ?MF ?MD"
  proof (rule minv_disown [OF m(1) mega_clean [OF i(1) v(1)]])
    show "mega_sets s' (disown own v k) ?MF ?MD"
    proof (rule mega_setsI)
      fix st' assume st': "st' \<noteq> Busy"
      show "mset_ok (bds s') (on_list st' s') (disown own v k) st' (mlist st' ?MF ?MD)"
      proof (cases "st' = st")
        case True
        have "mset_ok (bds s') (on_list st s') (disown own v k) st ((mlist st MF MD)(d := A @ B))"
          by (rule mset_remove [OF ok [OF st] M out])
            (use desc in \<open>auto simp: s'_def unlink_def on_list_def last_of_def\<close>)
        then show ?thesis using True by (simp split: if_splits)
      next
        case False
        have "mset_ok (bds s') (on_list st' s) (disown own v k) st' (mlist st' MF MD)"
        proof (rule mset_other [OF ok [OF st']])
          show "disown own v k x = Some (Mega x l st') \<longleftrightarrow> own x = Some (Mega x l st')" for x l
            using out [of x l st'] v(1) False by auto
          show "bd_link (bds s' (bd_at x 0)) = bd_link (bds s (bd_at x 0))" if x: "own x = Some (Mega x l st')" for x l
          proof -
            have "A = [] \<or> bd_at x 0 \<noteq> last_of A" using prev x False by (cases "A = []") auto
            then show ?thesis using desc by simp
          qed
        qed (simp add: s'_def)
        moreover have "on_list st' s' = on_list st' s" "mlist st' ?MF ?MD = mlist st' MF MD"
          using False st st' by (cases st'; cases st; simp add: s'_def on_list_def unlink_def)+
        ultimately show ?thesis by simp
      qed
    qed
    fix u L j assume u: "own u = Some (Split L)" "j < (252 :: nat)"
    then show "bds s' (bd_at u j) = bds s (bd_at u j)" using prev by (intro desc) force
  qed (simp_all add: s'_def)
  moreover have "gaps (?MF d')" for d'
    using m(2) [of d'] M gaps_skip [of A v k B] by (cases "st = Listed"; cases "d' = d") simp_all
  ultimately have "ba_inv s' (disown own v k)" unfolding ba_inv_iff by blast
  moreover have "mblock_init (bds s') v d = mblock_init (bds s) v d" for d by (rule mblock_init_cong) (simp add: s'_def)
  ultimately show "limbo s' (disown own v k) v k" using vok by (simp add: limbo_def fresh_disown mega_ok_def) (simp add: s'_def)
  show "allocs (disown own v k) = allocs own" using out v(1) st unfolding allocs_def out' by auto
  show "dom own = dom (disown own v k) \<union> {v..<v + k}" using int by (auto simp: disown_def dom_def)
qed

text \<open>Cutting megablocks off the end of a group on a list.\<close>

definition cut_mega :: "owners \<Rightarrow> nat \<Rightarrow> nat \<Rightarrow> nat \<Rightarrow> mstate \<Rightarrow> owners" where
  "cut_mega own w l j st = own_mega (disown own w l) w (l - j) st"

lemma cut_limbo:
  assumes m: "minv s own MF MD" "\<And>d. gaps (MF d)" and M: "(w, l) \<in> set (mlist st MF MD d)" and st: "st \<noteq> Busy" and j: "0 < j" "j < l"
  defines "s1 \<equiv> upd_bd (bd_at w 0) (\<lambda>b. b\<lparr>bd_blocks := MBLOCK_GROUP_BLOCKS (l - j)\<rparr>) s" and "v \<equiv> w + (l - j)"
    and "own' \<equiv> cut_mega own w l j st"
  shows "ba_inv s1 own'" "fresh own' v j" "allocs own' = allocs own" "dom own = dom own' \<union> {v..<v + j}"
    "own w = Some (Mega w l st)" "bd_node (bds s (bd_at w 0)) = d"
proof -
  note i = minvD [OF m(1)] and ok = mega_setsD [OF m(1)]
  have w: "own w = Some (Mega w l st)" "bd_node (bds s (bd_at w 0)) = d"
    by (metis ok [OF st] M mset_ok_def)+
  then show "own w = Some (Mega w l st)" "bd_node (bds s (bd_at w 0)) = d" by simp_all
  note wok = megaD(3) [OF i(1) w(1)]
  have int: "own x = Some (Mega w l st)" if "w \<le> x \<and> x < w + l" for x using wok that by (auto simp: mega_ok_def)
  have own': "own' x = (if w \<le> x \<and> x < v then Some (Mega w (l - j) st) else if v \<le> x \<and> x < v + j then None else own x)" for x
    using j by (auto simp: own'_def cut_mega_def own_mega_def disown_def v_def)
  have vj: "v + j = w + l" "w < v" using j by (auto simp: v_def)
  have out: "own' x = Some (Mega x y st') \<longleftrightarrow> (x = w \<and> y = l - j \<and> st' = st \<or> x \<noteq> w \<and> own x = Some (Mega x y st'))" for x y st'
    using int [of x] vj w by (auto simp: own')
  have out': "own' x = Some (Split L) \<longleftrightarrow> own x = Some (Split L)" for x L
    using int [of x] vj by (auto simp: own')
  have outB: "own' x = Some (Mega y z Busy) \<longleftrightarrow> own x = Some (Mega y z Busy)" for x y z
    using int [of x] vj st by (auto simp: own')
  show "fresh own' v j" using vj by (auto simp: fresh_def own')
  show "allocs own' = allocs own" by (simp add: allocs_def out' outB)
  show "dom own = dom own' \<union> {v..<v + j}" using int vj by (auto simp: own' dom_def split: if_splits)
  let ?f = "\<lambda>M d'. map (\<lambda>(x, y). if x = w then (x, l - j) else (x, y)) (M d')"
  let ?MF = "if st = Listed then ?f MF else MF" and ?MD = "if st = Listed then MD else ?f MD"
  have links: "bd_link (bds s1 a) = bd_link (bds s a)" "bd_node (bds s1 a) = bd_node (bds s a)" "bd_start (bds s1 a) = bd_start (bds s a)" for a by (simp_all add: s1_def)
  have lists: "mega_list (bds s1) p xs = mega_list (bds s) p xs" for p xs by (rule mega_list_cong) (rule links(1))
  have heads: "mega_list m p (?f M d') = mega_list m p (M d')" for m p M d'
    unfolding mega_list_def map_map by (rule arg_cong [where f = "chain _ _ _"]) (auto simp: case_prod_unfold)
  have sets: "(x, y) \<in> set (?f (mlist st MF MD) d') \<longleftrightarrow> own' x = Some (Mega x y st) \<and> bd_node (bds s (bd_at x 0)) = d'" for x y d'
  proof -
    have mem: "(x, y) \<in> set (mlist st MF MD d') \<longleftrightarrow> own x = Some (Mega x y st) \<and> bd_node (bds s (bd_at x 0)) = d'" for x y
      using ok [OF st] unfolding mset_ok_def by blast
    have "(x, y) \<in> set (?f (mlist st MF MD) d') \<longleftrightarrow> (\<exists>z. (x, z) \<in> set (mlist st MF MD d') \<and> (if x = w then y = l - j else z = y))"
      by (force split: prod.splits if_splits)
    then show ?thesis unfolding mem out using w by auto
  qed
  have "minv s1 own' ?MF ?MD"
  proof (rule minv_step [OF m(1) out'])
    show "mega_sets s1 own' ?MF ?MD"
    proof (rule mega_setsI)
      fix st' assume st': "st' \<noteq> Busy"
      have h: "on_list st' s1 = on_list st' s" by (simp add: on_list_def s1_def)
      show "mset_ok (bds s1) (on_list st' s1) own' st' (mlist st' ?MF ?MD)"
      proof (cases "st' = st")
        case True
        have "mset_ok (bds s1) (on_list st s) own' st (?f (mlist st MF MD))"
          using ok [OF st] sets unfolding mset_ok_def lists heads links by blast
        then show ?thesis unfolding True h [unfolded True] by (cases "st = Listed") simp_all
      next
        case False
        have "mset_ok (bds s1) (on_list st' s) own' st' (mlist st' MF MD)"
          by (rule mset_other [OF ok [OF st']]) (use out w False links in auto)
        moreover have "mlist st' ?MF ?MD = mlist st' MF MD" using False st st' by (cases st'; cases st) simp_all
        ultimately show ?thesis by (simp add: h)
      qed
    qed
    fix u L k assume u: "own u = Some (Split L)" "k < (252 :: nat)"
    then show "bds s1 (bd_at u k) = bds s (bd_at u k)" using w(1) by (auto simp: s1_def)
  next
    fix u x y st' assume u: "own' u = Some (Mega x y st')"
    show "x \<le> u \<and> u < x + y \<and> mega_ok (bds s1) own' x y st'"
    proof (cases "w \<le> u \<and> u < v")
      case True
      have "mblock_init (bds s1) w d = mblock_init (bds s) w d" for d by (rule mblock_init_cong) (simp add: links)
      then have "mega_ok (bds s1) own' w (l - j) st" using j wok by (auto simp: mega_ok_def own' v_def s1_def)
      then show ?thesis using True u j by (auto simp: own' v_def)
    next
      case False
      then have u': "own u = Some (Mega x y st')" "\<not> (w \<le> u \<and> u < w + l)" using u vj by (auto simp: own' split: if_splits)
      note ok' = megaD [OF i(1) u'(1)]
      have cl: "\<not> (w \<le> z \<and> z < w + l)" if "x \<le> z" "z < x + y" for z
        using clean_outside [OF i(1) mega_clean [OF i(1) w(1)] u'(1) u'(2) that] .
      have "x < x + y" using ok'(3) by (simp add: mega_ok_def)
      then have "x \<noteq> w" using cl [of x] j by auto
      moreover have "own' z = own z" if "x \<le> z" "z < x + y" for z using cl [OF that] vj by (auto simp: own')
      ultimately have "mega_ok (bds s1) own' x y st'"
        by (intro mega_ok_keep [OF ok'(3)]) (simp_all add: s1_def)
      then show ?thesis using ok' by blast
    qed
  qed (simp_all add: s1_def)
  moreover have "gaps (?MF d')" for d'
  proof -
    have "st = Listed \<Longrightarrow> (w, b) \<in> set (MF d') \<Longrightarrow> b = l" for b using i(6) [of w b d'] w(1) by simp
    then have "st = Listed \<Longrightarrow> gaps (?f MF d')" using m(2) [of d'] unfolding sorted_wrt_map
      by (elim sorted_wrt_mono_rel [rotated]) (auto split: if_splits)
    then show ?thesis using m(2) by simp
  qed
  ultimately show "ba_inv s1 own'" unfolding ba_inv_iff by blast
qed

section \<open>Allocating megablocks\<close>

lemma sized:
  assumes "minv s own MF MD" "st \<noteq> Busy"
  shows "groups_sized (bds s) (mlist st MF MD d)"
  unfolding groups_sized_def
proof (intro allI impI)
  fix v k assume "(v, k) \<in> set (mlist st MF MD d)"
  then have "own v = Some (Mega v k st)" by (metis mega_setsD [OF assms] mset_ok_def)
  from megaD(3) [OF minvD(1) [OF assms(1)] this] show "k > 0 \<and> blocks_of s (bd_at v 0) = MBLOCK_GROUP_BLOCKS k"
    by (auto simp: mega_ok_def)
qed

text \<open>The search on one list and what it leaves.\<close>

definition search :: "mstate \<Rightarrow> nat \<Rightarrow> nat \<Rightarrow> ba_state \<Rightarrow> (nat \<times> nat \<times> ba_state) option" where
  "search st d n s = map_option (\<lambda>(bd, best, head, s). (bd, best,
      if st = Listed then s\<lparr>free_mblock_list := (free_mblock_list s)(d := head)\<rparr>
      else s\<lparr>deferred_free_mblock_list := (deferred_free_mblock_list s)(d := head)\<rparr>))
    (alloc_mega_group_from_free_list (on_list st s d) n s)"

lemma find_mega_group_search: "find_mega_group d n s =
    (if defer_mblock_frees s
     then (case search Deferred d n s of
             None \<Rightarrow> None
           | Some (bd, best, s) \<Rightarrow> if bd \<noteq> 0 then Some (bd, best, s) else if best = 0 then search Listed d n s else Some (0, best, s))
     else search Listed d n s)"
  by (auto simp: find_mega_group_def search_def on_list_def Let_def split: option.splits)

lemma search_cases:
  assumes m: "minv s own MF MD" and st: "st \<noteq> Busy" and j: "j > 0"
  obtains (found) best A v B where "search st d (MBLOCK_GROUP_BLOCKS j) s = Some (bd_at v 0, best, unlink st d (last_of A) (bd_at v 0) s)"
      "mlist st MF MD d = A @ (v, j) # B"
  | (best) w l where "search st d (MBLOCK_GROUP_BLOCKS j) s = Some (0, bd_at w 0, s)" "(w, l) \<in> set (mlist st MF MD d)" "j < l"
  | (none) "search st d (MBLOCK_GROUP_BLOCKS j) s = Some (0, 0, s)"
proof -
  have idem: "s\<lparr>free_mblock_list := (free_mblock_list s)(d := free_mblock_list s d)\<rparr> = s"
    "s\<lparr>deferred_free_mblock_list := (deferred_free_mblock_list s)(d := deferred_free_mblock_list s d)\<rparr> = s" for s :: ba_state
    by simp_all
  have ml: "mega_list (bds s) (on_list st s d) (mlist st MF MD d)" using mega_setsD [OF m st] unfolding mset_ok_def by blast
  from find_mega_eq [OF ml sized [OF m st] j, of 0 0] show thesis
  proof (elim disjE exE conjE)
    fix A v B best assume f: "mlist st MF MD d = A @ (v, j) # B"
      "find_mega (bds s) (MBLOCK_GROUP_BLOCKS j) (on_list st s d) 0 0 = Some (bd_at v 0, if A = [] then 0 else last_of A, best)"
    have "search st d (MBLOCK_GROUP_BLOCKS j) s = Some (bd_at v 0, best, unlink st d (last_of A) (bd_at v 0) s)"
      using f(2) by (auto simp: search_def alloc_mega_group_from_free_list_def unlink_def on_list_def last_of_def)
    then show thesis using found f(1) by blast
  next
    fix q b assume "find_mega (bds s) (MBLOCK_GROUP_BLOCKS j) (on_list st s d) 0 0 = Some (0, q, b)" "b = 0"
    then show thesis by (intro none) (auto simp: search_def alloc_mega_group_from_free_list_def on_list_def idem)
  next
    fix q b w l assume "find_mega (bds s) (MBLOCK_GROUP_BLOCKS j) (on_list st s d) 0 0 = Some (0, q, b)" "(w, l) \<in> set (mlist st MF MD d)" "j < l" "b = bd_at w 0"
    then show thesis by (intro best [of w l]) (auto simp: search_def alloc_mega_group_from_free_list_def on_list_def idem)
  qed
qed

text \<open>What the search in both lists gives: a group of the right size, one to cut, or none.\<close>

lemma find_group_cases:
  assumes m: "minv s own MF MD" and j: "j > 0"
  obtains (found) best A v B st where "find_mega_group d (MBLOCK_GROUP_BLOCKS j) s = Some (bd_at v 0, best, unlink st d (last_of A) (bd_at v 0) s)"
      "mlist st MF MD d = A @ (v, j) # B" "st \<noteq> Busy"
  | (best) w l st where "find_mega_group d (MBLOCK_GROUP_BLOCKS j) s = Some (0, bd_at w 0, s)" "(w, l) \<in> set (mlist st MF MD d)" "j < l" "st \<noteq> Busy"
  | (none) "find_mega_group d (MBLOCK_GROUP_BLOCKS j) s = Some (0, 0, s)"
proof -
  have listed: thesis if "find_mega_group d (MBLOCK_GROUP_BLOCKS j) s = search Listed d (MBLOCK_GROUP_BLOCKS j) s"
  proof -
    have st: "Listed \<noteq> Busy" by simp
    show thesis
    proof (cases rule: search_cases [OF m st j, of d])
      case f: (1 b A v B)
      then show ?thesis using that by (intro found [of v b Listed A B]) simp_all
    next
      case b: (2 w l)
      then show ?thesis using that by (intro best [of w l Listed]) simp_all
    next
      case 3
      then show ?thesis using that by (intro none) simp
    qed
  qed
  show thesis
  proof (cases "defer_mblock_frees s")
    case True
    have st: "Deferred \<noteq> Busy" by simp
    show thesis
    proof (cases rule: search_cases [OF m st j, of d])
      case f: (1 b A v B)
      then show ?thesis by (intro found [of v b Deferred A B]) (auto simp: find_mega_group_search True)
    next
      case b: (2 w l)
      then show ?thesis by (intro best [of w l Deferred]) (auto simp: find_mega_group_search True)
    next
      case 3
      then show ?thesis by (intro listed) (simp add: find_mega_group_search True)
    qed
  next
    case False
    then show thesis by (intro listed) (simp add: find_mega_group_search)
  qed
qed

lemma limbo_new:
  fixes d :: nat
  assumes "ba_inv s own" "fresh own v j" "j > 0"
  defines "s' \<equiv> upd_bd (bd_at v 0) (\<lambda>b. b\<lparr>bd_blocks := MBLOCK_GROUP_BLOCKS j\<rparr>) (initMBlock (v * MBLOCK_SIZE) d s)"
  shows "limbo s' own v j" "bd_node (bds s' (bd_at v 0)) = d" "n_alloc_blocks s' = n_alloc_blocks s" "defer_mblock_frees s' = defer_mblock_frees s"
proof -
  let ?s = "initMBlock (v * MBLOCK_SIZE) d s"
  have none: "own v = None" using assms(2,3) by (simp add: fresh_def)
  have "ba_inv s' own"
    by (rule ba_inv_cong [OF initMBlock_inv [OF assms(1) none, of d]]) (use none in \<open>auto simp: s'_def\<close>)
  moreover have "mblock_init (bds s') v d = mblock_init (bds ?s) v d" by (rule mblock_init_cong) (simp add: s'_def)
  ultimately show "limbo s' own v j" using assms(2,3) initMBlock_init [of v d s] unfolding limbo_def by (auto simp: s'_def)
  show "bd_node (bds s' (bd_at v 0)) = d" using initMBlock_init [of v d s] by (simp add: s'_def mblock_init_def)
  show "n_alloc_blocks s' = n_alloc_blocks s" "defer_mblock_frees s' = defer_mblock_frees s" by (simp_all add: s'_def initMBlock_eq)
qed

lemma alloc_mega_ok:
  assumes "ba_inv s own" "j > 0" "fresh own m (mega_request d j s)"
  obtains v s' own' where "alloc_mega_group (m * MBLOCK_SIZE) d j s = Some (bd_at v 0, s')" "limbo s' own' v j" "allocs own' = allocs own"
    "dom own' \<union> {v..<v + j} = dom own \<union> {m..<m + mega_request d j s}" "bd_node (bds s' (bd_at v 0)) = d"
    "n_alloc_blocks s' = n_alloc_blocks s" "defer_mblock_frees s' = defer_mblock_frees s"
proof -
  obtain MF MD where m: "minv s own MF MD" "\<And>d. gaps (MF d)" using assms(1) by (auto simp: ba_inv_iff)
  show thesis
  proof (cases rule: find_group_cases [OF m(1) assms(2), of d])
    case f: (1 best A v B st)
    note u = unlink_limbo [OF m f(2,3)]
    let ?s = "unlink st d (last_of A) (bd_at v 0) s"
    have "alloc_mega_group (m * MBLOCK_SIZE) d j s = Some (bd_at v 0, ?s)"
      using f(1) by (simp add: alloc_mega_group_def)
    moreover have "mega_request d j s = 0" using f(1) by (simp add: mega_request_def)
    ultimately show thesis using that [OF _ u(1)] u by auto
  next
    case b: (2 w l st)
    note c = cut_limbo [OF m b(2,4) assms(2) b(3)]
    let ?v = "w + (l - j)" and ?own = "cut_mega own w l j st"
    let ?s1 = "upd_bd (bd_at w 0) (\<lambda>b. b\<lparr>bd_blocks := MBLOCK_GROUP_BLOCKS (l - j)\<rparr>) s"
    have "blocks_of s (bd_at w 0) = MBLOCK_GROUP_BLOCKS l" "l > 0"
      using megaD(3) [OF minvD(1) [OF m(1)] c(5)] by (auto simp: mega_ok_def)
    then have best: "BLOCKS_TO_MBLOCKS (blocks_of s (bd_at w 0)) = l" by simp
    have addr: "FIRST_BDESCR (w * MBLOCK_SIZE + (l - j) * MBLOCK_SIZE) = bd_at ?v 0"
      unfolding bd_at_simps(3) [symmetric] by (simp add: add_mult_distrib)
    note new = limbo_new [OF c(1,2) assms(2), of d]
    have "alloc_mega_group (m * MBLOCK_SIZE) d j s =
        Some (bd_at ?v 0, upd_bd (bd_at ?v 0) (\<lambda>b. b\<lparr>bd_blocks := MBLOCK_GROUP_BLOCKS j\<rparr>) (initMBlock (?v * MBLOCK_SIZE) d ?s1))"
      using b(1) unfolding alloc_mega_group_def Let_def by (simp add: best addr del: upd_bd_simps)
    moreover have "mega_request d j s = 0" using b(1) by (simp add: mega_request_def)
    ultimately show thesis using that [OF _ new(1)] c(3,4) new(2-4) by auto
  next
    case 3
    have r: "mega_request d j s = j" using 3 by (simp add: mega_request_def)
    note new = limbo_new [OF assms(1,3) [unfolded r] assms(2), of d]
    have "alloc_mega_group (m * MBLOCK_SIZE) d j s =
        Some (bd_at m 0, upd_bd (bd_at m 0) (\<lambda>b. b\<lparr>bd_blocks := MBLOCK_GROUP_BLOCKS j\<rparr>) (initMBlock (m * MBLOCK_SIZE) d s))"
      using 3 unfolding alloc_mega_group_def Let_def by (simp add: del: upd_bd_simps)
    then show thesis by (rule that [OF _ new(1)]) (use new(2-4) r in auto)
  qed
qed

section \<open>Rebuilding the groups of a megablock\<close>

text \<open>
  The groups between \<open>L1\<close> and \<open>L2\<close> of megablock \<open>u\<close> are being rebuilt; of their descriptors those in \<open>X\<close> are on the
  free lists.
\<close>

definition hole :: "ba_state \<Rightarrow> owners \<Rightarrow> nat \<Rightarrow> groups \<Rightarrow> nat \<Rightarrow> groups \<Rightarrow> nat set \<Rightarrow> bool" where
  "hole s own u L1 N L2 X \<longleftrightarrow> base s own u L1 N L2 \<and> X \<subseteq> bd_span u (size_of L1) (size_of L1 + N) \<and> (\<forall>x\<in>X. blocks_of s x > 0) \<and>
    (\<exists>FL. dlists s FL \<and> members (bds s) (rest_free own u L1 N L2 \<union> X) FL)"

lemma hole_upd:
  assumes "hole s own u L1 N L2 X" "size_of L1 \<le> j" "j < size_of L1 + N" "bd_at u j \<notin> X"
    "\<And>b. bd_start (f b) = bd_start b \<and> bd_node (f b) = bd_node b"
  shows "hole (upd_bd (bd_at u j) f s) own u L1 N L2 X"
proof -
  have b: "base s own u L1 N L2" using assms(1) by (simp add: hole_def)
  have j: "bd_at u j \<in> bd_span u (size_of L1) (size_of L1 + N)" using assms(2,3) by simp
  obtain FL where FL: "dlists s FL" "members (bds s) (rest_free own u L1 N L2 \<union> X) FL" using assms(1) by (auto simp: hole_def)
  have "bd_at u j \<notin> rest_free own u L1 N L2 \<union> X" using rest_free_at(3) [OF b] j assms(4) by blast
  note d = dlists_upd [OF FL this, of f]
  have "keeps own {bd_at u j} s (upd_bd (bd_at u j) f s)"
    by (rule keeps_upd [OF assms(5)]) (use mega_not_span [OF b] assms(3) baseD(10) [OF b] in auto)
  from base_keep [OF b keeps_trans [OF this keeps_refl [of own "{}"]]] j have "base (upd_bd (bd_at u j) f s) own u L1 N L2" by simp
  then show ?thesis using d assms(1,4) unfolding hole_def by auto
qed

lemma hole_lists:
  assumes "hole s own u L1 N L2 X" "\<And>y. y \<notin> rest_free own u L1 N L2 \<union> X \<union> Y \<Longrightarrow> bds s' y = bds s y"
    "\<And>y. blocks_of s' y = blocks_of s y \<and> bd_free (bds s' y) = bd_free (bds s y) \<and> bd_start (bds s' y) = bd_start (bds s y) \<and> bd_node (bds s' y) = bd_node (bds s y)"
    "Y \<subseteq> bd_span u (size_of L1) (size_of L1 + N)" "\<forall>y\<in>Y. blocks_of s y > 0"
    "free_mblock_list s' = free_mblock_list s" "deferred_free_mblock_list s' = deferred_free_mblock_list s" "defer_mblock_frees s' = defer_mblock_frees s"
  shows "base s' own u L1 N L2" "keeps own {} s s'"
proof -
  have b: "base s own u L1 N L2" and X: "X \<subseteq> bd_span u (size_of L1) (size_of L1 + N)" "\<forall>x\<in>X. blocks_of s x > 0" using assms(1) by (auto simp: hole_def)
  show k: "keeps own {} s s'"
  proof (rule keeps_lists [where F = "rest_free own u L1 N L2 \<union> X \<union> Y"])
    show "blocks_of s y > 0" if "y \<in> rest_free own u L1 N L2 \<union> X \<union> Y" for y
      using that rest_free_at(1) [OF b] X(2) assms(5) by blast
    show "bd_at v 0 \<notin> rest_free own u L1 N L2 \<union> X \<union> Y" if v: "own v = Some (Mega v k st)" for v k st
    proof -
      have "bd_at v 0 \<notin> bd_span u (size_of L1) (size_of L1 + N)" using mega_not_span [OF b v] baseD(10) [OF b] by fastforce
      moreover have "bd_at v 0 \<notin> rest_free own u L1 N L2" using rest_free_at(5) [OF b _ v] by blast
      ultimately show ?thesis using X(1) assms(4) by blast
    qed
  qed (use assms in auto)
  show "base s' own u L1 N L2" by (rule base_keep [OF b], rule keeps_trans [OF k keeps_refl [where P = "{}"]]) auto
qed

lemma hole_off:
  assumes "hole s own u L1 N L2 X" "x \<in> X" "d = bd_node (bds s x)" "k = log_2 (blocks_of s x)"
  shows "hole (dbl_link_remove x d k s) own u L1 N L2 (X - {x})" "keeps own {} s (dbl_link_remove x d k s)"
proof -
  let ?F = "rest_free own u L1 N L2 \<union> X" and ?s = "dbl_link_remove x d k s"
  have b: "base s own u L1 N L2" "X \<subseteq> bd_span u (size_of L1) (size_of L1 + N)" using assms(1) by (auto simp: hole_def)
  obtain FL where FL: "dlists s FL" "members (bds s) ?F FL" using assms(1) by (auto simp: hole_def)
  have "x \<in> ?F" using assms(2) by simp
  note r = dlists_remove [OF FL this assms(3,4)]
  have "y \<notin> ?F \<union> {} \<Longrightarrow> bds ?s y = bds s y" for y using r(2) by blast
  note h = hole_lists [where s' = ?s and Y = "{}", OF assms(1) this]
  show "keeps own {} s ?s" by (rule h) simp_all
  have "?F - {x} = rest_free own u L1 N L2 \<union> (X - {x})" using rest_free_at(3) [OF b(1)] b(2) assms(2) by blast
  moreover have "base ?s own u L1 N L2" by (rule h) simp_all
  ultimately show "hole ?s own u L1 N L2 (X - {x})"
    unfolding hole_def using r(1,3) assms(1) by (auto simp: hole_def)
qed

lemma hole_on:
  assumes "hole s own u L1 N L2 X" "size_of L1 \<le> j" "j < size_of L1 + N" "x = bd_at u j" "x \<notin> X" "d = bd_node (bds s x)" "k = log_2 (blocks_of s x)"
    "blocks_of s x > 0"
  shows "hole (dbl_link_onto x d k s) own u L1 N L2 (insert x X)" "keeps own {} s (dbl_link_onto x d k s)"
proof -
  let ?F = "rest_free own u L1 N L2 \<union> X" and ?s = "dbl_link_onto x d k s"
  have b: "base s own u L1 N L2" "X \<subseteq> bd_span u (size_of L1) (size_of L1 + N)" using assms(1) by (auto simp: hole_def)
  have x: "x \<in> bd_span u (size_of L1) (size_of L1 + N)" using assms(2-4) by simp
  obtain FL where FL: "dlists s FL" "members (bds s) ?F FL" using assms(1) by (auto simp: hole_def)
  have "x \<notin> ?F" "x \<noteq> 0" using assms(4,5) rest_free_at(3) [OF b(1)] x by auto
  note r = dlists_onto [OF FL this assms(6,7)]
  have "y \<notin> ?F \<union> {x} \<Longrightarrow> bds ?s y = bds s y" for y using r(2) by blast
  note h = hole_lists [where s' = ?s and Y = "{x}", OF assms(1) this]
  show "keeps own {} s ?s" by (rule h) (use x assms(8) in simp_all)
  have "insert x ?F = rest_free own u L1 N L2 \<union> insert x X" by blast
  moreover have "base ?s own u L1 N L2" by (rule h) (use x assms(8) in simp_all)
  ultimately show "hole ?s own u L1 N L2 (insert x X)"
    unfolding hole_def using r(1,3) assms(1,8) x by (auto simp: hole_def)
qed

lemma hole_close:
  assumes "hole s own u L1 N L2 (frees u (size_of L1) M)" "lay (bds s) u (size_of L1) M" "size_of M = N" "length (L1 @ M @ L2) > 1" "no_adj (L1 @ M @ L2)"
  shows "ba_inv s (own(u \<mapsto> Split (L1 @ M @ L2)))" "allocs (own(u \<mapsto> Split (L1 @ M @ L2))) = rest_busy own u L1 N L2 \<union> busies u (size_of L1) M"
proof -
  let ?L = "L1 @ M @ L2"
  have b: "base s own u L1 N L2" using assms(1) by (simp add: hole_def)
  note bD = baseD [OF b]
  obtain FL where FL: "dlists s FL" "members (bds s) (rest_free own u L1 N L2 \<union> frees u (size_of L1) M) FL" using assms(1) by (auto simp: hole_def)
  have ok: "split_ok (bds s) u ?L" using bD assms(2-4) by (simp add: split_ok_def add.assoc)
  have "all_free (own(u \<mapsto> Split ?L)) = rest_free own u L1 N L2 \<union> frees u (size_of L1) M"
    using bD(1) by (auto simp: all_free_split rest_free_def assms(3) add.assoc)
  with FL ok bD(1-4) assms(5) show "ba_inv s (own(u \<mapsto> Split ?L))"
    unfolding ba_inv_def by (auto simp: mblocks_ok_split coalesced_split megas_ok_split)
  show "allocs (own(u \<mapsto> Split ?L)) = rest_busy own u L1 N L2 \<union> busies u (size_of L1) M"
    using bD(1) by (auto simp: allocs_split rest_busy_def assms(3) add.assoc)
qed

lemma limbo_hole: "limbo s own v 1 \<Longrightarrow> hole s own v [] 252 [] {}"
  by (auto simp: limbo_def hole_def ba_inv_def base_def rest_free_def fresh_def)

lemma split_hole:
  assumes "ba_inv s own" "own u = Some (Split (L1 @ (n, f) # L2))"
  shows "hole s (own(u := None)) u L1 n L2 (if f then {bd_at u (size_of L1)} else {})"
  using split_base [OF assms] baseD(11) [OF split_base(1) [OF assms]] by (auto simp: hole_def)

text \<open>Initialising a group inside a hole.\<close>

lemma hole_initGroup:
  assumes "hole s own u L1 N L2 X" "size_of L1 \<le> i" "i + n \<le> size_of L1 + N" "blocks_of s (bd_at u i) = n" "n > 0"
    "bd_at u i \<notin> X" "bd_at u (i + n - 1) \<notin> X"
  defines "s' \<equiv> initGroup (bd_at u i) s"
  shows "hole s' own u L1 N L2 X" "group_at (bds s') u i n False" "\<And>a. a \<noteq> bd_at u i \<Longrightarrow> a \<noteq> bd_at u (i + n - 1) \<Longrightarrow> bds s' a = bds s a"
    "n_alloc_blocks s' = n_alloc_blocks s" "defer_mblock_frees s' = defer_mblock_frees s" "\<And>a. bd_node (bds s' a) = bd_node (bds s a)"
    "free_list s' = free_list s"
proof -
  let ?f1 = "\<lambda>b. b\<lparr>bd_free := bd_start b, bd_link := 0\<rparr>" and ?f2 = "\<lambda>b. b\<lparr>bd_blocks := 0, bd_link := bd_at u i\<rparr>"
  let ?t = "bd_at u (i + n - 1)"
  have b: "base s own u L1 N L2" using assms(1) by (simp add: hole_def)
  have sz: "size_of L1 + N + size_of L2 = 252" using baseD(10) [OF b] .
  then have n: "n \<le> BLOCKS_PER_MBLOCK" "i + n - 1 < 252" using assms(3,5) by (simp_all add: ba_consts)
  have tail: "tail_of (upd_bd (bd_at u i) ?f1 s) (bd_at u i) = ?t"
    using assms(4,5) by (simp add: tail_of_def)
  have s': "s' = (if n > 1 then upd_bd ?t ?f2 (upd_bd (bd_at u i) ?f1 s) else upd_bd (bd_at u i) ?f1 s)"
    unfolding s'_def initGroup_def Let_def tail using assms(4) n(1) by simp
  have it: "?t = bd_at u i \<longleftrightarrow> n = 1" using assms(5) n(2) by (subst bd_at_eq) auto
  have h1: "hole (upd_bd (bd_at u i) ?f1 s) own u L1 N L2 X" by (rule hole_upd [OF assms(1,2)]) (use assms(3,5,6) in auto)
  have h2: "hole (upd_bd ?t ?f2 (upd_bd (bd_at u i) ?f1 s)) own u L1 N L2 X" by (rule hole_upd [OF h1]) (use assms(2,3,5,7) in auto)
  show "hole s' own u L1 N L2 X" using h1 h2 by (simp add: s')
  obtain d where d: "mblock_init (bds s) u d" using baseD(5) [OF b] by blast
  have "bd_start (bds s (bd_at u i)) = block_at u i" using d n(2) assms(5) by (simp add: mblock_init_def)
  then show "group_at (bds s') u i n False" using assms(4,5) it by (auto simp: group_at_def s' block_at_not_free)
  show "\<And>a. a \<noteq> bd_at u i \<Longrightarrow> a \<noteq> ?t \<Longrightarrow> bds s' a = bds s a" by (simp add: s')
  show "n_alloc_blocks s' = n_alloc_blocks s" "defer_mblock_frees s' = defer_mblock_frees s" "\<And>a. bd_node (bds s' a) = bd_node (bds s a)" "free_list s' = free_list s"
    by (simp_all add: s')
qed

lemma group_at_same:
  assumes "group_at m u i n f" "m' (bd_at u i) = m (bd_at u i)" "m' (bd_at u (i + n - 1)) = m (bd_at u (i + n - 1))"
  shows "group_at m' u i n f"
  using assms by (auto simp: group_at_def)

text \<open>A whole free group, or the end of a larger one.\<close>

lemma take_group:
  assumes "ba_inv s own" "own u = Some (Split (L1 @ (n, True) # L2))" "p = bd_at u (size_of L1)" "d = bd_node (bds s p)" "k = log_2 n"
  defines "s' \<equiv> initGroup p (dbl_link_remove p d k s)" and "own' \<equiv> own(u \<mapsto> Split (L1 @ (n, False) # L2))"
  shows "ba_inv s' own'" "allocs own' = insert (p, n) (allocs own)" "dom own' = dom own"
    "n_alloc_blocks s' = n_alloc_blocks s" "defer_mblock_frees s' = defer_mblock_frees s" "bd_node (bds s' p) = d" "p \<notin> fst ` allocs own"
proof -
  let ?own = "own(u := None)" and ?i = "size_of L1"
  note sb = split_base [OF assms(1,2)] and h = split_hole [OF assms(1,2)]
  have b: "blocks_of s p = n" "n > 0" using sb(3) baseD(11) [OF sb(1)] by (simp_all add: assms(3))
  have "p \<in> (if True then {bd_at u ?i} else {})" by (simp add: assms(3))
  note off = hole_off [OF h this assms(4)]
  have h1: "hole (dbl_link_remove p d k s) ?own u L1 n L2 {}" using off(1) b by (simp add: assms(3,5))
  note init = hole_initGroup [OF h1 order_refl order_refl, folded assms(3), folded s'_def, simplified, OF b]
  have lay: "lay (bds s') u ?i [(n, False)]" using init(2) by simp
  have fr: "hole s' ?own u L1 n L2 (frees u ?i [(n, False)])" using init(1) by simp
  have len: "length (L1 @ [(n, False)] @ L2) > 1" using sb(5) by (cases L1; cases L2) auto
  have adj: "no_adj (L1 @ [(n, False)] @ L2)" using baseD(8,9) [OF sb(1)] by (cases L2) (auto simp: no_adj_append)
  note c = hole_close [OF fr lay _ len adj]
  have own': "?own(u \<mapsto> Split (L1 @ [(n, False)] @ L2)) = own'" by (auto simp: own'_def)
  show "ba_inv s' own'" using c(1) unfolding own' by simp
  have al: "allocs own = rest_busy ?own u L1 n L2" using allocs_hole [where own = own, OF assms(2)] by simp
  show "allocs own' = insert (p, n) (allocs own)" using c(2) unfolding own' al by (simp add: assms(3))
  have "(p, x) \<notin> allocs own" for x unfolding al assms(3) by (rule not_rest_busy [OF sb(1)]) (use b(2) in simp_all)
  then show "p \<notin> fst ` allocs own" by force
  show "dom own' = dom own" using assms(2) by (auto simp: own'_def)
  show "n_alloc_blocks s' = n_alloc_blocks s" "defer_mblock_frees s' = defer_mblock_frees s" "bd_node (bds s' p) = d"
    using init(4-6) assms(4) by simp_all
qed

lemma split_group:
  assumes "ba_inv s own" "own u = Some (Split (L1 @ (N, True) # L2))" "p = bd_at u (size_of L1)" "d = bd_node (bds s p)" "k = log_2 N" "0 < n" "n < N"
  obtains q s' own' where "split_free_block p d n k s = (q, s')" "ba_inv (initGroup q s') own'" "allocs own' = insert (q, n) (allocs own)" "dom own' = dom own"
    "n_alloc_blocks (initGroup q s') = n_alloc_blocks s" "defer_mblock_frees (initGroup q s') = defer_mblock_frees s" "bd_node (bds (initGroup q s') q) = d"
    "blocks_of (initGroup q s') q = n" "q \<notin> fst ` allocs own"
proof -
  let ?own = "own(u := None)" and ?i = "size_of L1"
  let ?q = "bd_at u (?i + (N - n))" and ?t = "bd_at u (?i + (N - n) - 1)"
  note sb = split_base [OF assms(1,2)] and h = split_hole [OF assms(1,2)]
  have b: "blocks_of s p = N" "bd_free (bds s p) = FREE_MARK" using sb(3,4) by (simp_all add: assms(3))
  have sz: "?i + N + size_of L2 = 252" using baseD(10) [OF sb(1)] .
  have "p \<in> (if True then {bd_at u ?i} else {})" by (simp add: assms(3))
  note off = hole_off [OF h this assms(4)]
  define s1 where "s1 = dbl_link_remove p d k s"
  have h1: "hole s1 ?own u L1 N L2 {}" using off(1) b by (simp add: s1_def assms(3,5))
  define s2 where "s2 = upd_bd ?q (\<lambda>b. b\<lparr>bd_blocks := n\<rparr>) s1"
  have h2: "hole s2 ?own u L1 N L2 {}" unfolding s2_def by (rule hole_upd [OF h1]) (use assms(6,7) in auto)
  define s3 where "s3 = upd_bd p (\<lambda>b. b\<lparr>bd_blocks := bd_blocks b - n\<rparr>) s2"
  have h3: "hole s3 ?own u L1 N L2 {}" unfolding s3_def assms(3) by (rule hole_upd [OF h2]) (use assms(6,7) in auto)
  have pq: "p \<noteq> ?q" "?q \<noteq> ?t" "p = ?t \<longleftrightarrow> N - n = 1" unfolding assms(3) using sz assms(6,7) by (auto simp: bd_at_eq)
  have p3: "blocks_of s3 p = N - n" using b pq by (simp add: s3_def s2_def s1_def)
  define s4 where "s4 = setup_tail p s3"
  have s4: "s4 = (if N - n = 1 then s3 else upd_bd ?t (\<lambda>b. b\<lparr>bd_blocks := 0, bd_free := 0, bd_link := p\<rparr>) s3)"
    unfolding s4_def assms(3) by (rule setup_tail_at) (use p3 sz assms(6,7) in \<open>auto simp: assms(3)\<close>)
  have h4: "hole s4 ?own u L1 N L2 {}" unfolding s4 using h3 by (auto intro!: hole_upd [OF h3] simp: assms(6,7)) (use assms(6,7) in auto)
  have p4: "blocks_of s4 p = N - n" using p3 pq(3) by (simp add: s4)
  have g4: "group_at (bds s4) u ?i (N - n) True" using p4 pq b(2) assms(3,7) by (auto simp: group_at_def s4 s3_def s2_def s1_def)
  define s5 where "s5 = dbl_link_onto p d (log_2 (blocks_of s4 p)) s4"
  have node1: "bd_node (bds s1 a) = bd_node (bds s a)" for a unfolding s1_def by simp
  have node3: "bd_node (bds s3 a) = bd_node (bds s1 a)" for a unfolding s3_def s2_def by simp
  have node4: "bd_node (bds s4 a) = bd_node (bds s3 a)" for a unfolding s4 by simp
  have node: "bd_node (bds s4 a) = bd_node (bds s a)" for a unfolding node4 node3 node1 ..
  have d4: "d = bd_node (bds s4 p)" using assms(4) by (simp only: node)
  have "?i < ?i + N" "p \<notin> {}" "blocks_of s4 p > 0" using p4 assms(6,7) by auto
  note on = hole_on [OF h4 order_refl this(1) assms(3) this(2) d4 refl this(3), folded s5_def]
  have "tag (bds s5) a = tag (bds s4) a" for a using keepsD(3) [OF on(2)] by simp
  then have g5: "group_at (bds s5) u ?i (N - n) True" using g4 group_at_cong [of "bds s5" u ?i "bds s4"] by simp
  have q3: "blocks_of s3 ?q = n" using pq(1) unfolding s3_def s2_def by simp
  have "blocks_of s4 ?q = n" unfolding s4 using pq(2) q3 by (cases "N - n = 1") simp_all
  then have q5: "blocks_of s5 ?q = n" unfolding s5_def by simp
  have e: "split_free_block p d n k s = (?q, s5)"
  proof -
    have "bd_plus p (blocks_of s1 p - n) = ?q" unfolding s1_def using b by (simp add: assms(3))
    then show ?thesis unfolding split_free_block_def Let_def s1_def [symmetric] by (simp add: s2_def s3_def s4_def s5_def del: upd_bd_simps)
  qed
  let ?s = "initGroup ?q s5"
  have i: "?i \<le> ?i + (N - n)" "?i + (N - n) + n \<le> ?i + N" "?q \<notin> insert p {}" "bd_at u (?i + (N - n) + n - 1) \<notin> insert p {}"
    unfolding assms(3) using sz assms(6,7) by (auto simp: bd_at_eq)
  note init = hole_initGroup [OF on(1) i(1,2) q5 assms(6) i(3,4)]
  let ?M = "[(N - n, True), (n, False)]"
  have g: "group_at (bds ?s) u ?i (N - n) True"
    by (rule group_at_same [OF g5]; rule init(3)) (use sz assms(6,7) in \<open>auto simp: bd_at_eq\<close>)
  have lay: "lay (bds ?s) u ?i ?M" using g init(2) by simp
  have fr: "hole ?s ?own u L1 N L2 (frees u ?i ?M)" using init(1) by (simp add: assms(3))
  have adj: "no_adj (L1 @ ?M @ L2)" using baseD(8,9) [OF sb(1)] sb(6) by (cases L2) (auto simp: no_adj_append)
  have "size_of ?M = N" "length (L1 @ ?M @ L2) > 1" using assms(6,7) by simp_all
  note c = hole_close [OF fr lay this adj]
  let ?own' = "?own(u \<mapsto> Split (L1 @ ?M @ L2))"
  have al: "allocs own = rest_busy ?own u L1 N L2" using allocs_hole [where own = own, OF assms(2)] by simp
  have "(?q, x) \<notin> allocs own" for x unfolding al by (rule not_rest_busy [OF sb(1)]) (use assms(6,7) in simp_all)
  then have "?q \<notin> fst ` allocs own" by force
  moreover have "dom ?own' = dom own" using assms(2) by auto
  moreover have "allocs ?own' = insert (?q, n) (allocs own)" using c(2) unfolding al by auto
  moreover have "n_alloc_blocks ?s = n_alloc_blocks s" "defer_mblock_frees ?s = defer_mblock_frees s"
    using init(4,5) by (simp_all add: s5_def s4 s3_def s2_def s1_def)
  moreover have "bd_node (bds ?s ?q) = d"
  proof -
    have "bd_node (bds ?s ?q) = bd_node (bds s ?q)" unfolding init(6) unfolding s5_def using node by simp
    also have "\<dots> = bd_node (bds s p)" unfolding assms(3) using base_node [OF sb(1)] sz assms(6,7) by simp
    finally show ?thesis using assms(4) by simp
  qed
  moreover have "blocks_of ?s ?q = n" using init(2) by (simp add: group_at_def)
  ultimately show thesis using that [OF e c(1)] by blast
qed

section \<open>\<open>allocGroupOnNode\<close>\<close>

lemma scan_free_lists_spec:
  "lg \<le> scan_free_lists d lg bound s \<and> (lg \<le> bound \<longrightarrow> scan_free_lists d lg bound s \<le> bound) \<and>
    (scan_free_lists d lg bound s < bound \<longrightarrow> free_list s d (scan_free_lists d lg bound s) \<noteq> 0)"
proof (induction d lg bound s rule: scan_free_lists.induct)
  case (1 d lg bound s)
  have e: "scan_free_lists d lg bound s = (if lg < bound \<and> free_list s d lg = 0 then scan_free_lists d (Suc lg) bound s else lg)"
    by (rule scan_free_lists.simps)
  show ?case using 1 unfolding e by (cases "lg < bound \<and> free_list s d lg = 0") auto
qed

lemma free_list_group:
  assumes "ba_inv s own" "free_list s d k \<noteq> 0"
  obtains u L1 N L2 where "own u = Some (Split (L1 @ (N, True) # L2))" "free_list s d k = bd_at u (size_of L1)"
    "bd_node (bds s (free_list s d k)) = d" "k = log_2 N" "0 < N" "N < 252" "blocks_of s (free_list s d k) = N"
proof -
  let ?p = "free_list s d k"
  from assms(1) obtain FL where i: "mblocks_ok (bds s) own" "dlists s FL" "members (bds s) (all_free own) FL" unfolding ba_inv_def by blast
  have "dlist (bds s) ?p (FL d k)" using i(2) by (simp add: dlists_def)
  from dl_list_head [OF this] have "?p \<in> set (FL d k)" using assms(2) by (cases "FL d k") simp_all
  then have p: "?p \<in> all_free own" "bd_node (bds s ?p) = d" "log_2 (blocks_of s ?p) = k" using i(3) by (auto simp: members_def)
  from p(1) obtain u L where u: "own u = Some (Split L)" "?p \<in> frees u 0 L" by (auto simp: all_free_def)
  obtain L1 N L2 where L: "L = L1 @ (N, True) # L2" "?p = bd_at u (0 + size_of L1)" using u(2) unfolding frees_split by blast
  note sb = split_base [OF assms(1) u(1) [unfolded L]]
  have "N \<noteq> 252" "N > 0" "N \<le> 252" using full_iff [OF sb(1)] sb(5) baseD(10,11) [OF sb(1)] by auto
  then have N: "0 < N" "N < 252" by simp_all
  have pb: "?p = bd_at u (size_of L1)" using L(2) by simp
  have bl: "blocks_of s ?p = N" unfolding pb by (rule sb(3))
  show thesis by (rule that [OF u(1) [unfolded L(1)] pb p(2) _ N bl]) (rule p(3) [unfolded bl, symmetric])
qed

lemma log_2_ceil_fits:
  assumes "0 < n" "n < 252" "log_2_ceil n \<le> log_2 N" "0 < N" "N < 252"
  shows "n \<le> N"
proof -
  have "n \<le> 2 ^ log_2_ceil n" using log_2_ceil_bounds(1) assms(1,2) by simp
  also have "\<dots> \<le> 2 ^ log_2 N" using assms(3) by simp
  also have "\<dots> \<le> N" using log_2_bounds(1) assms(4,5) by simp
  finally show ?thesis .
qed

lemma log_2_ceil_small: "0 < n \<Longrightarrow> n < 252 \<Longrightarrow> log_2_ceil n \<le> NUM_FREE_LISTS"
proof -
  assume n: "0 < n" "n < 252"
  have "(2 :: nat) ^ log_2 n < 2 ^ 8" using log_2_bounds(1) [of n] n by simp
  then have "log_2 n < 8" by (simp only: power_strict_increasing_iff)
  then show ?thesis using log_2_ceil_bounds(3) [of n] n by (simp add: ba_consts)
qed

lemma limbo_not_alloc: "limbo s own v k \<Longrightarrow> j < 252 \<Longrightarrow> bd_at v j \<notin> fst ` allocs own"
proof
  assume l: "limbo s own v k" "j < 252" and "bd_at v j \<in> fst ` allocs own"
  then obtain n where a: "(bd_at v j, n) \<in> allocs own" by force
  have "mblocks_ok (bds s) own" using l(1) by (auto simp: limbo_def ba_inv_def)
  from alloc_at [OF this a] show False using l by (auto simp: limbo_def fresh_def)
qed

text \<open>The size of the group that a request gets.\<close>

definition granted :: "nat \<Rightarrow> nat" where
  "granted n = (if n \<ge> BLOCKS_PER_MBLOCK then MBLOCK_GROUP_BLOCKS (BLOCKS_TO_MBLOCKS n) else n)"

text \<open>A fresh megablock, of which the first \<open>n\<close> blocks are kept.\<close>

lemma fresh_split:
  assumes "limbo s own v 1" "0 < n" "n < 252"
  defines "s1 \<equiv> initGroup (bd_at v 0) (upd_bd (bd_at v 0) (\<lambda>b. b\<lparr>bd_blocks := n\<rparr>) s)"
  defines "s2 \<equiv> initGroup (bd_at v n) (upd_bd (bd_at v n) (\<lambda>b. b\<lparr>bd_blocks := BLOCKS_PER_MBLOCK - n\<rparr>) s1)"
    and "own' \<equiv> own(v \<mapsto> Split [(n, False), (252 - n, False)])"
  shows "ba_inv s2 own'" "allocs own' = insert (bd_at v n, 252 - n) (insert (bd_at v 0, n) (allocs own))" "dom own' = insert v (dom own)"
    "n_alloc_blocks s2 = n_alloc_blocks s" "defer_mblock_frees s2 = defer_mblock_frees s" "blocks_of s2 (bd_at v n) = 252 - n"
    "bd_node (bds s2 (bd_at v 0)) = bd_node (bds s (bd_at v 0))"
proof -
  note h = limbo_hole [OF assms(1)]
  let ?s0 = "upd_bd (bd_at v 0) (\<lambda>b. b\<lparr>bd_blocks := n\<rparr>) s" and ?s1 = "upd_bd (bd_at v n) (\<lambda>b. b\<lparr>bd_blocks := BLOCKS_PER_MBLOCK - n\<rparr>) s1"
  have h0: "hole ?s0 own v [] 252 [] {}" by (rule hole_upd [OF h]) auto
  have a: "size_of [] \<le> (0 :: nat)" "0 + n \<le> size_of [] + 252" "blocks_of ?s0 (bd_at v 0) = n" "bd_at v 0 \<notin> {}" "bd_at v (0 + n - 1) \<notin> {}"
    using assms(2,3) by simp_all
  note i1 = hole_initGroup [OF h0 a(1-3) assms(2) a(4,5), folded s1_def]
  have h1: "hole ?s1 own v [] 252 [] {}" by (rule hole_upd [OF i1(1)]) (use assms(3) in auto)
  have c: "size_of [] \<le> n" "n + (252 - n) \<le> size_of [] + 252" "blocks_of ?s1 (bd_at v n) = 252 - n" "252 - n > 0" "bd_at v n \<notin> {}" "bd_at v (n + (252 - n) - 1) \<notin> {}"
    using assms(2,3) by (simp_all add: ba_consts)
  note i2 = hole_initGroup [OF h1 c, folded s2_def]
  have ne: "bd_at v 0 \<noteq> bd_at v n" "bd_at v (n - 1) \<noteq> bd_at v n" "bd_at v 0 \<noteq> bd_at v 251" "bd_at v (n - 1) \<noteq> bd_at v 251"
    using assms(2,3) by (auto simp: bd_at_eq)
  have g: "group_at (bds ?s1) v 0 n False" by (rule group_at_same [OF i1(2)]) (use ne in simp_all)
  have g2: "group_at (bds s2) v 0 n False" by (rule group_at_same [OF g]; rule i2(3)) (use ne assms(2,3) in simp_all)
  let ?M = "[(n, False), (252 - n, False)]"
  have lay: "lay (bds s2) v (size_of []) ?M" using g2 i2(2) by simp
  have fr: "hole s2 own v [] 252 [] (frees v (size_of []) ?M)" using i2(1) by simp
  have len: "size_of ?M = 252" "length ([] @ ?M @ []) > 1" "no_adj ([] @ ?M @ [])" using assms(2,3) by simp_all
  note cl = hole_close [OF fr lay len]
  show "ba_inv s2 own'" using cl(1) by (simp add: own'_def)
  show "allocs own' = insert (bd_at v n, 252 - n) (insert (bd_at v 0, n) (allocs own))"
    using cl(2) by (auto simp: own'_def rest_busy_def)
  show "dom own' = insert v (dom own)" by (simp add: own'_def)
  show "n_alloc_blocks s2 = n_alloc_blocks s" "defer_mblock_frees s2 = defer_mblock_frees s"
    "bd_node (bds s2 (bd_at v 0)) = bd_node (bds s (bd_at v 0))"
    using i1(4-6) i2(4-6) by simp_all
  show "blocks_of s2 (bd_at v n) = 252 - n" using i2(2) by (simp add: group_at_def)
qed

text \<open>Recording does not change what the search finds.\<close>

lemma mega_request_record: "mega_request d j (recordAllocatedBlocks e n s) = mega_request d j s"
proof -
  have c: "mega_request d j s =
    (let found = (\<lambda>h. find_mega (bds s) (MBLOCK_GROUP_BLOCKS j) h 0 0);
         ask = (\<lambda>r. case r of None \<Rightarrow> 0 | Some (bd, prev, best) \<Rightarrow> if bd = 0 \<and> best = 0 then j else 0)
     in if defer_mblock_frees s
        then (case found (deferred_free_mblock_list s d) of
                None \<Rightarrow> 0
              | Some (bd, prev, best) \<Rightarrow> if bd = 0 \<and> best = 0 then ask (found (free_mblock_list s d)) else 0)
        else ask (found (free_mblock_list s d)))" for s
    by (cases "find_mega (bds s) (MBLOCK_GROUP_BLOCKS j) (deferred_free_mblock_list s d) 0 0"; cases "find_mega (bds s) (MBLOCK_GROUP_BLOCKS j) (free_mblock_list s d) 0 0")
      (simp_all add: mega_request_def find_mega_group_def alloc_mega_group_from_free_list_def split: prod.split)
  show ?thesis by (simp only: c record_simps)
qed

lemma scan_record: "scan_free_lists d k b (recordAllocatedBlocks e n s) = scan_free_lists d k b s"
proof (induction d k b s rule: scan_free_lists.induct)
  case (1 d k b s)
  then show ?case by (subst (1 2) scan_free_lists.simps) simp
qed

lemma allocGroupOnNode_ok:
  assumes "ba_inv s own" "0 < n" "fresh own m (group_request d n s)"
  obtains p s' own' where "allocGroupOnNode (m * MBLOCK_SIZE) d n s = Some (p, s')" "ba_inv s' own'"
    "allocs own' = insert (p, granted n) (allocs own)" "dom own' = dom own \<union> {m..<m + group_request d n s}"
    "n_alloc_blocks s' = n_alloc_blocks s + counted n" "defer_mblock_frees s' = defer_mblock_frees s" "p \<notin> fst ` allocs own"
proof (cases "n \<ge> 252")
  case True
  let ?j = "BLOCKS_TO_MBLOCKS n"
  have j: "?j > 0" by (rule BLOCKS_TO_MBLOCKS_fits)
  let ?s = "recordAllocatedBlocks d (?j * BLOCKS_PER_MBLOCK) s"
  have r: "group_request d n s = mega_request d ?j ?s" using True by (simp add: group_request_def mega_request_record ba_consts)
  have "ba_inv ?s own" using assms(1) by simp
  from alloc_mega_ok [OF this j assms(3) [unfolded r]] obtain v s' own' where a: "alloc_mega_group (m * MBLOCK_SIZE) d ?j ?s = Some (bd_at v 0, s')"
    "limbo s' own' v ?j" "allocs own' = allocs own" "dom own' \<union> {v..<v + ?j} = dom own \<union> {m..<m + group_request d n s}"
    "bd_node (bds s' (bd_at v 0)) = d" "n_alloc_blocks s' = n_alloc_blocks ?s" "defer_mblock_frees s' = defer_mblock_frees ?s" unfolding r .
  note b = limbo_busy [OF limbo_initGroup [OF a(2)]]
  have "bd_at v 0 \<notin> fst ` allocs own" using limbo_not_alloc [OF a(2), of 0] a(3) by simp
  moreover have "allocGroupOnNode (m * MBLOCK_SIZE) d n s = Some (bd_at v 0, initGroup (bd_at v 0) s')"
    using True a(1) assms(2) by (simp add: allocGroupOnNode_def ba_consts(5))
  moreover have "n_alloc_blocks (initGroup (bd_at v 0) s') = n_alloc_blocks s'" "defer_mblock_frees (initGroup (bd_at v 0) s') = defer_mblock_frees s'"
    by (simp_all add: initGroup_def Let_def)
  ultimately show thesis using that [OF _ b(1)] b(2,3) a True by (simp add: granted_def counted_def ba_consts(5))
next
  case False
  then have n: "n < 252" by simp
  define s0 where "s0 = recordAllocatedBlocks d n s"
  define lg where "lg = scan_free_lists d (log_2_ceil n) NUM_FREE_LISTS s0"
  note scan = scan_free_lists_spec [of "log_2_ceil n" d NUM_FREE_LISTS s0, folded lg_def]
  have inv0: "ba_inv s0 own" using assms(1) by (simp add: s0_def)
  have st0: "n_alloc_blocks s0 = n_alloc_blocks s + n" "defer_mblock_frees s0 = defer_mblock_frees s" by (simp_all add: s0_def)
  have sizes: "granted n = n" "counted n = n" using n by (simp_all add: granted_def counted_def ba_consts)
  show thesis
  proof (cases "lg = NUM_FREE_LISTS")
    case True
    have r: "group_request d n s = mega_request d 1 s0"
      using True False by (simp add: group_request_def mega_request_record scan_record s0_def lg_def ba_consts)
    have "(1 :: nat) > 0" by simp
    from alloc_mega_ok [OF inv0 this assms(3) [unfolded r]] obtain v s1 own1 where a: "alloc_mega_group (m * MBLOCK_SIZE) d 1 s0 = Some (bd_at v 0, s1)" "limbo s1 own1 v 1" "allocs own1 = allocs own"
      "dom own1 \<union> {v..<v + 1} = dom own \<union> {m..<m + group_request d n s}" "bd_node (bds s1 (bd_at v 0)) = d"
      "n_alloc_blocks s1 = n_alloc_blocks s0" "defer_mblock_frees s1 = defer_mblock_frees s0" unfolding r .
    define s2 where "s2 = initGroup (bd_at v 0) (upd_bd (bd_at v 0) (\<lambda>b. b\<lparr>bd_blocks := n\<rparr>) s1)"
    define s3 where "s3 = initGroup (bd_at v n) (upd_bd (bd_at v n) (\<lambda>b. b\<lparr>bd_blocks := BLOCKS_PER_MBLOCK - n\<rparr>) s2)"
    note f = fresh_split [OF a(2) assms(2) n, folded s2_def, folded s3_def]
    define s4 where "s4 = recordAllocatedBlocks d (blocks_of s3 (bd_at v n)) s3"
    have inv4: "ba_inv s4 (own1(v \<mapsto> Split [(n, False), (252 - n, False)]))" using f(1) by (simp add: s4_def)
    have "(bd_at v n, 252 - n) \<in> allocs (own1(v \<mapsto> Split [(n, False), (252 - n, False)]))" using f(2) by simp
    from freeGroup_ok [OF inv4 this] obtain s5 own5 where g: "freeGroup (bd_at v n) s4 = Some s5" "ba_inv s5 own5"
      "allocs own5 = allocs (own1(v \<mapsto> Split [(n, False), (252 - n, False)])) - {(bd_at v n, 252 - n)}"
      "dom own5 = dom (own1(v \<mapsto> Split [(n, False), (252 - n, False)]))"
      "n_alloc_blocks s5 = n_alloc_blocks s4 - counted (252 - n)" "defer_mblock_frees s5 = defer_mblock_frees s4" .
    have not: "bd_at v j \<notin> fst ` allocs own" if "j < 252" for j using limbo_not_alloc [OF a(2) that] a(3) by simp
    have "bd_at v n \<noteq> bd_at v 0" using n assms(2) by simp
    then have "(bd_at v n, 252 - n) \<notin> insert (bd_at v 0, n) (allocs own1)" using not [OF n] a(3) by force
    then have "allocs own5 = insert (bd_at v 0, n) (allocs own)" using g(3) f(2) a(3) by auto
    moreover have "dom own5 = dom own \<union> {m..<m + group_request d n s}" using g(4) f(3) a(4) by auto
    moreover have "\<not> 252 - n \<ge> BLOCKS_PER_MBLOCK" using assms(2) n unfolding ba_consts by linarith
    then have "counted (252 - n) = 252 - n" by (simp add: counted_def)
    then have "n_alloc_blocks s5 = n_alloc_blocks s + n" "defer_mblock_frees s5 = defer_mblock_frees s"
      using g(5,6) f(4-6) a(6,7) st0 by (simp_all add: s4_def)
    moreover have "\<not> n \<ge> BLOCKS_PER_MBLOCK" using n by (simp add: ba_consts)
    then have "allocGroupOnNode (m * MBLOCK_SIZE) d n s = Some (bd_at v 0, s5)"
      using assms(2) a(1) g(1) True
      by (simp add: allocGroupOnNode_def Let_def s0_def [symmetric] lg_def [symmetric] s2_def [symmetric] s3_def [symmetric] s4_def [symmetric] del: upd_bd_simps)
    ultimately show thesis using that g(2) sizes not [of 0] by simp
  next
    case False
    then have lg: "free_list s0 d lg \<noteq> 0" "log_2_ceil n \<le> lg" using scan log_2_ceil_small [OF assms(2) n] by auto
    have r: "group_request d n s = 0"
      using False n by (simp add: group_request_def scan_record s0_def lg_def ba_consts)
    obtain u L1 N L2 where p: "own u = Some (Split (L1 @ (N, True) # L2))" "free_list s0 d lg = bd_at u (size_of L1)"
      "bd_node (bds s0 (free_list s0 d lg)) = d" "lg = log_2 N" "0 < N" "N < 252" "blocks_of s0 (free_list s0 d lg) = N"
      using free_list_group [OF inv0 lg(1)] .
    have nN: "n \<le> N" using log_2_ceil_fits [OF assms(2) n] lg(2) p(4-6) by simp
    let ?p = "free_list s0 d lg"
    have "\<not> n \<ge> BLOCKS_PER_MBLOCK" "n \<noteq> 0" using n assms(2) by (simp_all add: ba_consts)
    then have eq: "allocGroupOnNode (m * MBLOCK_SIZE) d n s = (if blocks_of s0 ?p = n then Some (?p, initGroup ?p (dbl_link_remove ?p d lg s0))
        else if blocks_of s0 ?p > n then (case split_free_block ?p d n lg s0 of (bd, s) \<Rightarrow> Some (bd, initGroup bd s)) else None)"
      using False unfolding allocGroupOnNode_def Let_def s0_def [symmetric] lg_def [symmetric] by (simp only: if_False)
    show thesis
    proof (cases "n = N")
      case True
      note t = take_group [OF inv0 p(1,2) p(3) [symmetric] p(4)]
      have "allocGroupOnNode (m * MBLOCK_SIZE) d n s = Some (free_list s0 d lg, initGroup (free_list s0 d lg) (dbl_link_remove (free_list s0 d lg) d lg s0))"
        unfolding eq using True p(7) by simp
      then show thesis by (rule that [OF _ t(1)]) (use t True sizes st0 r in auto)
    next
      case neq: False
      then have "n < N" using nN by simp
      from split_group [OF inv0 p(1,2) p(3) [symmetric] p(4) assms(2) this]
      obtain q s1 own1 where q: "split_free_block (free_list s0 d lg) d n lg s0 = (q, s1)" "ba_inv (initGroup q s1) own1" "allocs own1 = insert (q, n) (allocs own)"
        "dom own1 = dom own" "n_alloc_blocks (initGroup q s1) = n_alloc_blocks s0" "defer_mblock_frees (initGroup q s1) = defer_mblock_frees s0"
        "q \<notin> fst ` allocs own" by blast
      have "allocGroupOnNode (m * MBLOCK_SIZE) d n s = Some (q, initGroup q s1)"
        unfolding eq q(1) using neq p(7) \<open>n < N\<close> by simp
      then show thesis by (rule that [OF _ q(2)]) (use q sizes st0 r in auto)
    qed
  qed
qed

section \<open>Allocated groups\<close>

lemma alloc_cases:
  assumes "ba_inv s own" "(p, n) \<in> allocs own"
  obtains (split) u L1 L2 where "own u = Some (Split (L1 @ (n, False) # L2))" "p = bd_at u (size_of L1)" "0 < n" "size_of L1 + n \<le> 252"
      "blocks_of s p = n" "bd_start (bds s p) = block_at u (size_of L1)" "bd_free (bds s p) \<noteq> FREE_MARK"
  | (mega) v k where "own v = Some (Mega v k Busy)" "p = bd_at v 0" "n = MBLOCK_GROUP_BLOCKS k" "0 < k" "blocks_of s p = n"
      "bd_start (bds s p) = block_at v 0"
proof -
  have ok: "mblocks_ok (bds s) own" using assms(1) by (simp add: ba_inv_def)
  from assms(2) consider u L1 L2 where "own u = Some (Split (L1 @ (n, False) # L2))" "p = bd_at u (size_of L1)"
    | v k where "own v = Some (Mega v k Busy)" "p = bd_at v 0" "n = MBLOCK_GROUP_BLOCKS k"
    unfolding allocs_def busies_split by auto
  then show thesis
  proof cases
    case 1
    note sb = split_base [OF assms(1) 1(1)]
    obtain d where "mblock_init (bds s) u d" using split_okD(4) [OF ok 1(1)] by blast
    then have "bd_start (bds s p) = block_at u (size_of L1)"
      using baseD(10,11) [OF sb(1)] by (simp add: 1(2) mblock_init_def)
    then show thesis using split [OF 1] baseD(10,11) [OF sb(1)] sb(3,4) 1(2) by simp
  next
    case 2
    from megaD(3) [OF ok 2(1)] show thesis using mega [OF 2] by (auto simp: mega_ok_def 2 mblock_init_def)
  qed
qed

lemma alloc_blocks: "ba_inv s own \<Longrightarrow> (p, n) \<in> allocs own \<Longrightarrow> blocks_of s p = n \<and> 0 < n"
  by (erule (1) alloc_cases) (auto simp: ba_macros)

lemma alloc_unique: "ba_inv s own \<Longrightarrow> (p, m) \<in> allocs own \<Longrightarrow> (p, n) \<in> allocs own \<Longrightarrow> m = n"
  by (metis alloc_blocks)

end
