(* ===== verification/BlockSplit.thy ===== *)
theory BlockSplit
  imports BlockGet
begin

text \<open>
  The other ways to get a group: any size within bounds, cutting a group in two, and groups aligned to their
  size.
\<close>

section \<open>\<open>allocLargeChunkOnNode\<close>\<close>

lemma log_2_ceil_le:
  assumes "0 < n" "n < 2 ^ 64" "n \<le> 2 ^ r"
  shows "log_2_ceil n \<le> r"
proof (cases "n AND (n - 1) = 0")
  case True
  have "(2 :: nat) ^ log_2 n \<le> 2 ^ r" using log_2_bounds(1) [OF assms(1,2)] assms(3) by (rule order_trans)
  then show ?thesis using True by (simp add: log_2_ceil_def Let_def)
next
  case False
  have "n \<noteq> 2 ^ log_2 n"
  proof
    assume n: "n = 2 ^ log_2 n"
    have "n AND (n - 1) = take_bit (log_2 n) n" by (subst (2) n) (simp add: take_bit_eq_mask mask_eq_exp_minus_1)
    also have "\<dots> = 0" by (subst (2) n) simp
    finally show False using False by simp
  qed
  then have "(2 :: nat) ^ log_2 n < 2 ^ r" using log_2_bounds(1) [OF assms(1,2)] assms(3) by linarith
  then have "log_2 n < r" by (simp only: power_strict_increasing_iff)
  then show ?thesis using False by (simp add: log_2_ceil_def Let_def)
qed

lemma counted_granted [simp]: "counted (granted n) = counted n"
proof -
  have "MBLOCK_GROUP_BLOCKS (BLOCKS_TO_MBLOCKS n) \<ge> BLOCKS_PER_MBLOCK" by (simp add: ba_macros ba_consts)
  then show ?thesis by (simp add: counted_def granted_def BLOCKS_TO_MBLOCKS_fits)
qed

lemma counted_small: "n < 252 \<Longrightarrow> counted n = n"
  by (simp add: counted_def ba_consts)

lemma allocLargeChunkOnNode_ok:
  assumes "ba_inv s own" "0 < lo" "lo \<le> hi" "hi < 2 ^ 64" "fresh own m (chunk_request d lo hi s)"
  obtains p k s' own' where "allocLargeChunkOnNode (m * MBLOCK_SIZE) d lo hi s = Some (p, s')" "ba_inv s' own'"
    "allocs own' = insert (p, k) (allocs own)" "dom own' = dom own \<union> {m..<m + chunk_request d lo hi s}"
    "k = granted hi \<or> lo \<le> k \<and> k \<le> hi \<and> k < 252" "blocks_of s' p = k" "p \<notin> fst ` allocs own"
    "n_alloc_blocks s' = n_alloc_blocks s + counted k" "defer_mblock_frees s' = defer_mblock_frees s"
proof -
  note result = that
  have hi: "0 < hi" using assms(2,3) by simp
  have whole: thesis if "allocLargeChunkOnNode (m * MBLOCK_SIZE) d lo hi s = allocGroupOnNode (m * MBLOCK_SIZE) d hi s"
      "chunk_request d lo hi s = group_request d hi s"
  proof -
    from allocGroupOnNode_ok [OF assms(1) hi assms(5) [unfolded that(2)]] obtain p s' own' where
      a: "allocGroupOnNode (m * MBLOCK_SIZE) d hi s = Some (p, s')" "ba_inv s' own'"
      "allocs own' = insert (p, granted hi) (allocs own)" "dom own' = dom own \<union> {m..<m + group_request d hi s}"
      "n_alloc_blocks s' = n_alloc_blocks s + counted hi" "defer_mblock_frees s' = defer_mblock_frees s" "p \<notin> fst ` allocs own" .
    have "blocks_of s' p = granted hi" using alloc_blocks [OF a(2)] a(3) by blast
    then show thesis using result [of p s' own' "granted hi"] a that by simp
  qed
  define lnmax where "lnmax = log_2_ceil hi"
  define bound where "bound = min NUM_FREE_LISTS lnmax"
  define lg where "lg = scan_free_lists d (log_2_ceil lo) bound s"
  have def: "allocLargeChunkOnNode (m * MBLOCK_SIZE) d lo hi s =
      (if lo \<ge> BLOCKS_PER_MBLOCK then allocGroupOnNode (m * MBLOCK_SIZE) d hi s
       else if lg = NUM_FREE_LISTS \<or> lg = lnmax then allocGroupOnNode (m * MBLOCK_SIZE) d hi s
       else let bd = free_list s d lg;
              (bd, s) = (if blocks_of s bd \<le> hi then (bd, initGroup bd (dbl_link_remove bd d lg s))
                         else let (bd, s) = split_free_block bd d hi lg s in (bd, initGroup bd s))
          in Some (bd, recordAllocatedBlocks d (blocks_of s bd) s))"
    unfolding allocLargeChunkOnNode_def Let_def lg_def lnmax_def bound_def ..
  show thesis
  proof (cases "lo \<ge> BLOCKS_PER_MBLOCK \<or> lg = NUM_FREE_LISTS \<or> lg = lnmax")
    case True
    moreover have "chunk_request d lo hi s = group_request d hi s"
      using True unfolding chunk_request_def Let_def lg_def lnmax_def bound_def by auto
    ultimately show thesis by (intro whole) (auto simp: def)
  next
    case False
    then have r: "chunk_request d lo hi s = 0" unfolding chunk_request_def Let_def lg_def lnmax_def bound_def by auto
    from False have lo: "lo < 252" by (simp add: ba_consts)
    have "log_2_ceil lo \<le> lnmax"
      using log_2_ceil_le [of lo lnmax] log_2_ceil_bounds(1) [of hi] assms(2-4) by (simp add: lnmax_def)
    then have "log_2_ceil lo \<le> bound" using log_2_ceil_small [OF assms(2) lo] by (simp add: bound_def)
    then have lg: "free_list s d lg \<noteq> 0" "log_2_ceil lo \<le> lg"
      using scan_free_lists_spec [of "log_2_ceil lo" d bound s, folded lg_def] False by (auto simp: bound_def min_def split: if_splits)
    let ?p = "free_list s d lg"
    obtain u L1 N L2 where p: "own u = Some (Split (L1 @ (N, True) # L2))" "?p = bd_at u (size_of L1)"
      "bd_node (bds s ?p) = d" "lg = log_2 N" "0 < N" "N < 252" "blocks_of s ?p = N"
      using free_list_group [OF assms(1) lg(1)] .
    have nN: "lo \<le> N" using log_2_ceil_fits [OF assms(2) lo] lg(2) p(4-6) by simp
    have small: "counted k = k" if "k < 252" for k using that by (simp add: counted_def ba_consts)
    show thesis
    proof (cases "N \<le> hi")
      case True
      note t = take_group [OF assms(1) p(1,2) p(3) [symmetric] p(4)]
      let ?s = "initGroup ?p (dbl_link_remove ?p d lg s)"
      have b: "blocks_of ?s ?p = N" using alloc_blocks [OF t(1)] t(2) by blast
      have "allocLargeChunkOnNode (m * MBLOCK_SIZE) d lo hi s = Some (?p, recordAllocatedBlocks d N ?s)"
        unfolding def using False True b by (simp add: p(7) Let_def)
      then show thesis by (rule that [of _ _ "own(u \<mapsto> Split (L1 @ (N, False) # L2))" N]) (use t True nN b small [OF p(6)] p(6) r in simp_all)
    next
      case big: False
      then have "hi < N" by simp
      from split_group [OF assms(1) p(1,2) p(3) [symmetric] p(4) hi this]
      obtain q s1 own1 where q: "split_free_block ?p d hi lg s = (q, s1)" "ba_inv (initGroup q s1) own1" "allocs own1 = insert (q, hi) (allocs own)"
        "dom own1 = dom own" "n_alloc_blocks (initGroup q s1) = n_alloc_blocks s" "defer_mblock_frees (initGroup q s1) = defer_mblock_frees s"
        "blocks_of (initGroup q s1) q = hi" "q \<notin> fst ` allocs own" by blast
      have "allocLargeChunkOnNode (m * MBLOCK_SIZE) d lo hi s = Some (q, recordAllocatedBlocks d hi (initGroup q s1))"
        unfolding def using False big q(1,7) by (simp add: p(7) Let_def)
      then show thesis by (rule that [of _ _ own1 hi]) (use q assms(3) \<open>hi < N\<close> p(6) small [of hi] r in simp_all)
    qed
  qed
qed

section \<open>Cutting an allocated group in two\<close>

lemma hole_setup_tail:
  assumes "hole s own u L1 N L2 X" "size_of L1 \<le> i" "i + n \<le> size_of L1 + N" "blocks_of s (bd_at u i) = n" "n > 0"
    "bd_at u (i + n - 1) \<notin> X" "bd_free (bds s (bd_at u i)) \<noteq> FREE_MARK"
  defines "s' \<equiv> setup_tail (bd_at u i) s"
  shows "hole s' own u L1 N L2 X" "group_at (bds s') u i n False" "\<And>a. a \<noteq> bd_at u (i + n - 1) \<or> n = 1 \<Longrightarrow> bds s' a = bds s a"
    "n_alloc_blocks s' = n_alloc_blocks s" "defer_mblock_frees s' = defer_mblock_frees s"
proof -
  have b: "base s own u L1 N L2" using assms(1) by (simp add: hole_def)
  have sz: "size_of L1 + N + size_of L2 = 252" using baseD(10) [OF b] .
  let ?t = "bd_at u (i + n - 1)" and ?f = "\<lambda>b. b\<lparr>bd_blocks := 0, bd_free := 0, bd_link := bd_at u i\<rparr>"
  have s': "s' = (if n = 1 then s else upd_bd ?t ?f s)"
    unfolding s'_def by (rule setup_tail_at [OF assms(4,5)]) (use sz assms(3) in simp)
  have it: "?t = bd_at u i \<longleftrightarrow> n = 1" using assms(3,5) sz by (subst bd_at_eq) auto
  have "hole (upd_bd ?t ?f s) own u L1 N L2 X" by (rule hole_upd [OF assms(1)]) (use assms(2,3,5,6) in auto)
  then show "hole s' own u L1 N L2 X" using assms(1) by (simp add: s')
  show "group_at (bds s') u i n False" using assms(4,5,7) it by (auto simp: group_at_def s')
  show "\<And>a. a \<noteq> ?t \<or> n = 1 \<Longrightarrow> bds s' a = bds s a" by (auto simp: s')
  show "n_alloc_blocks s' = n_alloc_blocks s" "defer_mblock_frees s' = defer_mblock_frees s" by (simp_all add: s')
qed

lemma cut_busy:
  assumes "ba_inv s own" "own u = Some (Split (L1 @ (a + b, False) # L2))" "p = bd_at u (size_of L1)" "q = bd_at u (size_of L1 + a)" "0 < a" "0 < b"
    "bd_blocks (f (bds s q)) = b" "bd_start (f (bds s q)) = block_at u (size_of L1 + a)" "bd_free (f (bds s q)) = block_at u (size_of L1 + a)"
    "bd_node (f (bds s q)) = bd_node (bds s q)" "bd_blocks (g (bds s p)) = a"
    "\<And>x. bd_start (g x) = bd_start x \<and> bd_node (g x) = bd_node x \<and> bd_free (g x) = bd_free x"
  defines "s' \<equiv> setup_tail p (setup_tail q (upd_bd p g (upd_bd q f s)))" and "own' \<equiv> own(u \<mapsto> Split (L1 @ (a, False) # (b, False) # L2))"
  shows "ba_inv s' own'" "allocs own' = insert (p, a) (insert (q, b) (allocs own - {(p, a + b)}))"
    "(p, a) \<notin> insert (q, b) (allocs own - {(p, a + b)})" "(q, b) \<notin> insert (p, a) (allocs own - {(p, a + b)})" "dom own' = dom own"
    "n_alloc_blocks s' = n_alloc_blocks s" "defer_mblock_frees s' = defer_mblock_frees s"
proof -
  let ?own = "own(u := None)" and ?i = "size_of L1" and ?N = "a + b" and ?M = "[(a, False), (b, False)]"
  note sb = split_base [OF assms(1,2)]
  have h: "hole s ?own u L1 ?N L2 {}" using split_hole [OF assms(1,2)] by simp
  have sz: "?i + ?N + size_of L2 = 252" using baseD(10) [OF sb(1)] .
  have free: "bd_free (bds s p) \<noteq> FREE_MARK" using sb(4) by (simp add: assms(3))
  obtain d where d: "mblock_init (bds s) u d" using baseD(5) [OF sb(1)] by blast
  have start: "bd_start (bds s q) = block_at u (?i + a)" unfolding assms(4) using d sz assms(6) by (simp add: mblock_init_def)
  have pq: "p \<noteq> q" unfolding assms(3,4) using sz assms(5,6) by (subst bd_at_eq) auto
  define s1 where "s1 = upd_bd q f s"
  have "s1 = upd_bd q (\<lambda>x. if x = bds s q then f x else x) s" by (simp add: s1_def upd_bd_def)
  moreover have "hole (upd_bd q (\<lambda>x. if x = bds s q then f x else x) s) ?own u L1 ?N L2 {}"
    unfolding assms(4) by (rule hole_upd [OF h]) (use assms(4,6,8,10) start in auto)
  ultimately have h1: "hole s1 ?own u L1 ?N L2 {}" by simp
  define s2 where "s2 = upd_bd p g s1"
  have h2: "hole s2 ?own u L1 ?N L2 {}" unfolding s2_def assms(3) by (rule hole_upd [OF h1]) (use assms(5,12) in auto)
  have q2: "blocks_of s2 (bd_at u (?i + a)) = b" "bd_free (bds s2 (bd_at u (?i + a))) \<noteq> FREE_MARK"
    using pq assms(4,7,9) block_at_not_free by (auto simp: s2_def s1_def)
  have p2: "blocks_of s2 p = a" "bd_free (bds s2 p) \<noteq> FREE_MARK" using pq assms(11,12) free by (simp_all add: s2_def s1_def)
  have i: "?i \<le> ?i + a" "?i + a + b \<le> ?i + ?N" "bd_at u (?i + a + b - 1) \<notin> {}" by simp_all
  define s3 where "s3 = setup_tail q s2"
  note t3 = hole_setup_tail [OF h2 i(1,2) q2(1) assms(6) i(3) q2(2), folded assms(4), folded s3_def]
  have ne: "p \<noteq> bd_at u (?i + a + b - 1)" "bd_at u (?i + a - 1) \<noteq> q" "bd_at u (?i + a - 1) \<noteq> bd_at u (?i + a + b - 1)"
    unfolding assms(3,4) using sz assms(5,6) by (auto simp: bd_at_eq)
  have p3: "blocks_of s3 (bd_at u ?i) = a" "bd_free (bds s3 (bd_at u ?i)) \<noteq> FREE_MARK"
    using t3(3) [of p] ne(1) p2 by (simp_all add: assms(3))
  have j: "?i \<le> ?i" "?i + a \<le> ?i + ?N" "bd_at u (?i + a - 1) \<notin> {}" by simp_all
  note t4 = hole_setup_tail [OF t3(1) j(1,2) p3(1) assms(5) j(3) p3(2), folded assms(3)]
  have s': "s' = setup_tail p s3" by (simp add: s'_def s3_def s2_def s1_def)
  note t4 = t4 [folded s']
  have "group_at (bds s') u (?i + a) b False"
    by (rule group_at_same [OF t3(2)]; rule t4(3)) (use ne in \<open>auto simp: assms(4)\<close>)
  then have lay: "lay (bds s') u ?i ?M" using t4(2) by simp
  have fr: "hole s' ?own u L1 ?N L2 (frees u ?i ?M)" using t4(1) by simp
  have M: "size_of ?M = ?N" "length (L1 @ ?M @ L2) > 1" by simp_all
  have adj: "no_adj (L1 @ ?M @ L2)" using baseD(8,9) [OF sb(1)] by (cases L2) (auto simp: no_adj_append)
  note c = hole_close [OF fr lay M adj]
  have own': "?own(u \<mapsto> Split (L1 @ ?M @ L2)) = own'" by (simp add: own'_def)
  show "ba_inv s' own'" using c(1) unfolding own' .
  let ?R = "rest_busy ?own u L1 ?N L2"
  have nr: "(p, n) \<notin> ?R" "(q, n) \<notin> ?R" for n
    unfolding assms(3,4) using not_rest_busy [OF sb(1)] assms(5,6) by simp_all
  have rest: "allocs own - {(p, ?N)} = ?R" using allocs_hole [where own = own, OF assms(2)] nr by (auto simp: assms(3))
  show "allocs own' = insert (p, a) (insert (q, b) (allocs own - {(p, a + b)}))"
    unfolding rest using c(2) unfolding own' by (auto simp: assms(3,4))
  show "(p, a) \<notin> insert (q, b) (allocs own - {(p, a + b)})" "(q, b) \<notin> insert (p, a) (allocs own - {(p, a + b)})"
    unfolding rest using nr pq by auto
  show "dom own' = dom own" using assms(2) by (auto simp: own'_def)
  show "n_alloc_blocks s' = n_alloc_blocks s" "defer_mblock_frees s' = defer_mblock_frees s" using t3(4,5) t4(4,5) by (simp_all add: s2_def s1_def)
qed

lemma block_at_plus: "block_at u i + n * BLOCK_SIZE = block_at u (i + n)"
  by (simp add: block_at_def algebra_simps)

lemma small_alloc:
  assumes "ba_inv s own" "(p, N) \<in> allocs own" "N < 252"
  obtains u L1 L2 where "own u = Some (Split (L1 @ (N, False) # L2))" "p = bd_at u (size_of L1)" "0 < N" "size_of L1 + N \<le> 252"
    "blocks_of s p = N" "bd_start (bds s p) = block_at u (size_of L1)"
  using assms(1,2)
proof (cases rule: alloc_cases)
  case split: (split u L1 L2)
  then show thesis using that by blast
next
  case (mega v k)
  then show thesis using assms(3) by (simp add: ba_macros)
qed

lemma split_block_high_ok:
  assumes "ba_inv s own" "(p, N) \<in> allocs own" "N < 252" "0 < n" "n < N"
  obtains u j s' own' where "split_block_high p n s = Some (bd_at u (j + (N - n)), s')" "p = bd_at u j" "j + N \<le> 252"
    "bd_start (bds s p) = block_at u j" "ba_inv s' own'"
    "allocs own' = insert (bd_at u (j + (N - n)), n) (allocs own - {(p, N)})" "(bd_at u (j + (N - n)), n) \<notin> allocs own - {(p, N)}" "dom own' = dom own"
    "n_alloc_blocks s' = n_alloc_blocks s - (N - n)" "defer_mblock_frees s' = defer_mblock_frees s"
proof -
  obtain u L1 L2 where p: "own u = Some (Split (L1 @ (N, False) # L2))" "p = bd_at u (size_of L1)" "size_of L1 + N \<le> 252"
    "blocks_of s p = N" "bd_start (bds s p) = block_at u (size_of L1)" using small_alloc [OF assms(1-3)] by blast
  let ?i = "size_of L1" and ?a = "N - n"
  let ?q = "bd_at u (?i + ?a)"
  let ?f = "\<lambda>b. b\<lparr>bd_blocks := n, bd_start := block_at u (?i + ?a), bd_free := block_at u (?i + ?a), bd_link := 0\<rparr>" and ?g = "\<lambda>b. b\<lparr>bd_blocks := bd_blocks b - n\<rparr>"
  have N: "?a + n = N" "0 < ?a" using assms(4,5) by simp_all
  have g: "bd_blocks (?g (bds s p)) = ?a" by (simp add: p(4))
  have p1: "own u = Some (Split (L1 @ (?a + n, False) # L2))" using p(1) N(1) by simp
  have fs: "bd_blocks (?f (bds s ?q)) = n" "bd_start (?f (bds s ?q)) = block_at u (?i + ?a)" "bd_free (?f (bds s ?q)) = block_at u (?i + ?a)"
    "bd_node (?f (bds s ?q)) = bd_node (bds s ?q)" by simp_all
  have gs: "bd_start (?g x) = bd_start x \<and> bd_node (?g x) = bd_node x \<and> bd_free (?g x) = bd_free x" for x by simp
  note c = cut_busy [where f = ?f and g = ?g, OF assms(1) p1 p(2) refl N(2) assms(4) fs g gs, unfolded N(1)]
  define s1 where "s1 = setup_tail p (setup_tail ?q (upd_bd p ?g (upd_bd ?q ?f s)))"
  have e: "split_block_high_no_free p n s = (?q, s1)"
    unfolding split_block_high_no_free_def Let_def p(4,5) block_at_plus s1_def by (simp add: p(2) del: upd_bd_simps)
  let ?own = "own(u \<mapsto> Split (L1 @ (?a, False) # (n, False) # L2))"
  have inv: "ba_inv s1 ?own" "(p, ?a) \<in> allocs ?own" using c(1,2) by (simp_all add: s1_def)
  from freeGroup_ok [OF inv] obtain s' own' where f: "freeGroup p s1 = Some s'" "ba_inv s' own'" "allocs own' = allocs ?own - {(p, ?a)}"
    "dom own' = dom ?own" "n_alloc_blocks s' = n_alloc_blocks s1 - counted ?a" "defer_mblock_frees s' = defer_mblock_frees s1" .
  have "counted ?a = ?a" by (rule counted_small) (use assms(3) in simp)
  moreover have "allocs own' = insert (?q, n) (allocs own - {(p, N)})" using f(3) c(2,3) by auto
  ultimately show thesis using that [of u ?i s' own'] e f p(2,3,5) c by (simp add: split_block_high_def s1_def)
qed

lemma split_block_low_ok:
  assumes "ba_inv s own" "(p, N) \<in> allocs own" "N < 252" "0 < n" "n < N"
  obtains s' own' where "split_block_low p n s = Some (p, s')" "ba_inv s' own'"
    "allocs own' = insert (p, n) (allocs own - {(p, N)})" "(p, n) \<notin> allocs own - {(p, N)}" "dom own' = dom own"
    "n_alloc_blocks s' = n_alloc_blocks s - (N - n)" "defer_mblock_frees s' = defer_mblock_frees s"
proof -
  obtain u L1 L2 where p: "own u = Some (Split (L1 @ (N, False) # L2))" "p = bd_at u (size_of L1)" "size_of L1 + N \<le> 252"
    "blocks_of s p = N" "bd_start (bds s p) = block_at u (size_of L1)" using small_alloc [OF assms(1-3)] by blast
  let ?i = "size_of L1" and ?b = "N - n"
  let ?q = "bd_at u (?i + n)"
  let ?f = "\<lambda>b. b\<lparr>bd_blocks := N - n, bd_start := block_at u (?i + n), bd_free := block_at u (?i + n)\<rparr>" and ?g = "\<lambda>b. b\<lparr>bd_blocks := n\<rparr>"
  have N: "n + ?b = N" "0 < ?b" using assms(4,5) by simp_all
  have p1: "own u = Some (Split (L1 @ (n + ?b, False) # L2))" using p(1) N(1) by simp
  have fs: "bd_blocks (?f (bds s ?q)) = ?b" "bd_start (?f (bds s ?q)) = block_at u (?i + n)" "bd_free (?f (bds s ?q)) = block_at u (?i + n)"
    "bd_node (?f (bds s ?q)) = bd_node (bds s ?q)" by simp_all
  have g: "bd_blocks (?g (bds s p)) = n" by simp
  have gs: "bd_start (?g x) = bd_start x \<and> bd_node (?g x) = bd_node x \<and> bd_free (?g x) = bd_free x" for x by simp
  note c = cut_busy [where f = ?f and g = ?g, OF assms(1) p1 p(2) refl assms(4) N(2) fs g gs, unfolded N(1)]
  define s1 where "s1 = setup_tail p (setup_tail ?q (upd_bd p ?g (upd_bd ?q ?f s)))"
  have e: "split_block_low p n s = map_option (Pair p) (freeGroup ?q s1)"
    unfolding split_block_low_def Let_def p(4,5) block_at_plus s1_def by (simp add: p(2) del: upd_bd_simps)
  let ?own = "own(u \<mapsto> Split (L1 @ (n, False) # (?b, False) # L2))"
  have inv: "ba_inv s1 ?own" "(?q, ?b) \<in> allocs ?own" using c(1,2) by (simp_all add: s1_def)
  from freeGroup_ok [OF inv] obtain s' own' where f: "freeGroup ?q s1 = Some s'" "ba_inv s' own'" "allocs own' = allocs ?own - {(?q, ?b)}"
    "dom own' = dom ?own" "n_alloc_blocks s' = n_alloc_blocks s1 - counted ?b" "defer_mblock_frees s' = defer_mblock_frees s1" .
  have cb: "counted ?b = ?b" by (rule counted_small) (use assms(3) in simp)
  have ins: "insert x (insert y X) - {y} = insert x X" if "y \<notin> insert x X" for x y :: "nat \<times> nat" and X using that by blast
  have al: "allocs own' = insert (p, n) (allocs own - {(p, N)})" unfolding f(3) c(2) by (rule ins [OF c(4)])
  have nin: "(p, n) \<notin> allocs own - {(p, N)}" using c(3) by simp
  show thesis by (rule that [OF _ f(2) al nin]) (use e f(1,4-6) c(5-7) cb in \<open>simp_all add: s1_def\<close>)
qed

section \<open>\<open>allocAlignedGroupOnNode\<close>\<close>

text \<open>The blocks below the aligned region, and what is left above it.\<close>

lemma slop:
  fixes x n :: nat
  assumes "0 < n" "2 * n - 1 \<le> N"
  defines "gs \<equiv> n * BLOCK_SIZE"
  defines "low \<equiv> (if x * BLOCK_SIZE mod gs \<noteq> 0 then gs - x * BLOCK_SIZE mod gs else 0)"
  obtains k where "low div BLOCK_SIZE = k" "(N * BLOCK_SIZE - gs - low) div BLOCK_SIZE = N - n - k" "k + n \<le> N" "(x + k) mod n = 0"
proof -
  have m: "x * BLOCK_SIZE mod gs = (x mod n) * BLOCK_SIZE" by (simp add: gs_def mult_mod_left)
  have pos: "BLOCK_SIZE > 0" by (simp add: ba_consts)
  define k where "k = (if x mod n \<noteq> 0 then n - x mod n else 0)"
  have low: "low = k * BLOCK_SIZE" using pos by (simp add: low_def m k_def gs_def diff_mult_distrib2 mult.commute)
  have k: "k < n" using assms(1) by (simp add: k_def)
  have "N * BLOCK_SIZE - gs - low = (N - n - k) * BLOCK_SIZE" by (simp add: low gs_def diff_mult_distrib add_mult_distrib)
  moreover have "(x + k) mod n = 0"
  proof (cases "x mod n = 0")
    case False
    then have "x mod n + k = n" using assms(1) by (simp add: k_def less_imp_le)
    then show ?thesis by (metis mod_add_left_eq mod_self)
  qed (simp add: k_def)
  ultimately show thesis using that [of k] pos low k assms(2) by simp
qed

lemma alloc_start:
  assumes "ba_inv s own" "(bd_at u j, n) \<in> allocs own" "j < 252"
  shows "bd_start (bds s (bd_at u j)) = block_at u j"
  using assms(1,2) by (cases rule: alloc_cases) (use assms(3) in auto)

lemma new_alloc:
  assumes "ba_inv s own'" "allocs own' = insert (q, n) (allocs own)" "(q, n) \<notin> allocs own"
  shows "q \<notin> fst ` allocs own"
proof
  assume "q \<in> fst ` allocs own"
  then obtain x where "(q, x) \<in> allocs own" by force
  moreover from this have "x = n" by (intro alloc_unique [OF assms(1), of q]) (simp_all add: assms(2))
  ultimately show False using assms(3) by simp
qed

lemma allocAlignedGroupOnNode_ok:
  assumes "ba_inv s own" "0 < n" "2 * n - 1 < BLOCKS_PER_MBLOCK" "fresh own m (aligned_request d n s)"
  obtains p s' own' where "allocAlignedGroupOnNode (m * MBLOCK_SIZE) d n s = Some (p, s')" "ba_inv s' own'"
    "allocs own' = insert (p, n) (allocs own)" "dom own' = dom own \<union> {m..<m + aligned_request d n s}" "bd_start (bds s' p) mod (n * BLOCK_SIZE) = 0"
    "n_alloc_blocks s' = n_alloc_blocks s + n" "defer_mblock_frees s' = defer_mblock_frees s" "p \<notin> fst ` allocs own"
proof -
  define lo where "lo = 2 * n - 1"
  define hi where "hi = min (lo * 3) (BLOCKS_PER_MBLOCK - 1)"
  have b: "0 < lo" "lo \<le> hi" "hi < 2 ^ 64" "hi < 252" using assms(2,3) by (auto simp: lo_def hi_def ba_consts)
  then have hi: "granted hi = hi" by (simp add: granted_def ba_consts)
  have r: "aligned_request d n s = chunk_request d lo hi s" using assms(3) by (simp add: aligned_request_def Let_def lo_def hi_def)
  from allocLargeChunkOnNode_ok [OF assms(1) b(1-3) assms(4) [unfolded r]] obtain p N s1 own1 where
    a: "allocLargeChunkOnNode (m * MBLOCK_SIZE) d lo hi s = Some (p, s1)" "ba_inv s1 own1"
      "allocs own1 = insert (p, N) (allocs own)" "dom own1 = dom own \<union> {m..<m + chunk_request d lo hi s}"
      "N = granted hi \<or> lo \<le> N \<and> N \<le> hi \<and> N < 252" "blocks_of s1 p = N" "p \<notin> fst ` allocs own"
      "n_alloc_blocks s1 = n_alloc_blocks s + counted N" "defer_mblock_frees s1 = defer_mblock_frees s" .
  have N: "N < 252" "2 * n - 1 \<le> N" "counted N = N" using a(5) hi b by (auto simp: lo_def counted_small)
  have pN: "(p, N) \<in> allocs own1" "allocs own1 - {(p, N)} = allocs own" using a(3,7) by force+
  have dom: "dom own1 = dom own \<union> {m..<m + aligned_request d n s}" using a(4) r by simp
  obtain u j where p: "p = bd_at u j" "j + N \<le> 252" "bd_start (bds s1 p) = block_at u j" using small_alloc [OF a(2) pN(1) N(1)] by blast
  have block: "block_at u i = (u * 256 + 4 + i) * BLOCK_SIZE" for i by (simp add: block_at_def ba_consts)
  let ?st = "bd_start (bds s1 p)" and ?gs = "n * BLOCK_SIZE"
  let ?low = "if ?st mod ?gs \<noteq> 0 then ?gs - ?st mod ?gs else 0"
  obtain k where k: "?low div BLOCK_SIZE = k" "(N * BLOCK_SIZE - ?gs - ?low) div BLOCK_SIZE = N - n - k" "k + n \<le> N" "(u * 256 + 4 + j + k) mod n = 0"
    using slop [OF assms(2) N(2), of "u * 256 + 4 + j"] unfolding p(3) block by blast
  have al: "block_at u (j + k) mod ?gs = 0"
  proof -
    have "block_at u (j + k) = (u * 256 + 4 + j + k) * BLOCK_SIZE" unfolding block by (simp add: add.assoc)
    then show ?thesis using k(4) by (simp only: mult_mod_left [symmetric] mult_0)
  qed
  have jk: "j + k < 252" using p(2) k(3) assms(2) by simp
  let ?step1 = "if k \<noteq> 0 then split_block_high p (N - k) s1 else Some (p, s1)"
  have def: "allocAlignedGroupOnNode (m * MBLOCK_SIZE) d n s =
      (case ?step1 of None \<Rightarrow> None | Some (bd, s) \<Rightarrow> if N - n - k \<noteq> 0 then split_block_low bd n s else Some (bd, s))"
  proof -
    have "\<not> lo \<ge> BLOCKS_PER_MBLOCK" using assms(3) by (simp add: lo_def)
    then show ?thesis unfolding allocAlignedGroupOnNode_def Let_def lo_def [symmetric] hi_def [symmetric]
      by (simp only: a(1) if_False option.case prod.case a(6) k(1,2))
  qed
  have "\<exists>s2 own2. ?step1 = Some (bd_at u (j + k), s2) \<and> ba_inv s2 own2 \<and> allocs own2 = insert (bd_at u (j + k), N - k) (allocs own) \<and>
      (bd_at u (j + k), N - k) \<notin> allocs own \<and> dom own2 = dom own1 \<and> n_alloc_blocks s2 = n_alloc_blocks s + (N - k) \<and> defer_mblock_frees s2 = defer_mblock_frees s"
  proof (cases "k = 0")
    case True
    have "(p, N) \<notin> allocs own" using a(7) by force
    with True show ?thesis using a(2,3,8,9) N(3) p(1) by (intro exI [of _ s1] exI [of _ own1]) simp
  next
    case False
    then have "0 < N - k" "N - k < N" "N - (N - k) = k" using k(3) assms(2) by auto
    from split_block_high_ok [OF a(2) pN(1) N(1) this(1,2), unfolded this(3)] obtain u' j' s2 own2 where
      h: "split_block_high p (N - k) s1 = Some (bd_at u' (j' + k), s2)" "p = bd_at u' j'" "j' + N \<le> 252"
      "bd_start (bds s1 p) = block_at u' j'" "ba_inv s2 own2" "allocs own2 = insert (bd_at u' (j' + k), N - k) (allocs own1 - {(p, N)})"
      "(bd_at u' (j' + k), N - k) \<notin> allocs own1 - {(p, N)}" "dom own2 = dom own1"
      "n_alloc_blocks s2 = n_alloc_blocks s1 - k" "defer_mblock_frees s2 = defer_mblock_frees s1" .
    have "u' = u" "j' = j" using h(2,3) p(1,2) N by auto
    then show ?thesis using h a(8,9) N(3) k(3) False unfolding pN(2) by (intro exI [of _ s2] exI [of _ own2]) simp
  qed
  then obtain s2 own2 where s2: "?step1 = Some (bd_at u (j + k), s2)" "ba_inv s2 own2" "allocs own2 = insert (bd_at u (j + k), N - k) (allocs own)"
      "(bd_at u (j + k), N - k) \<notin> allocs own" "dom own2 = dom own1" "n_alloc_blocks s2 = n_alloc_blocks s + (N - k)" "defer_mblock_frees s2 = defer_mblock_frees s" by blast
  show thesis
  proof (cases "N - n - k = 0")
    case True
    then have "N - k = n" using k(3) by simp
    then have q: "(bd_at u (j + k), n) \<in> allocs own2" "n_alloc_blocks s2 = n_alloc_blocks s + n" using s2 by simp_all
    have "allocAlignedGroupOnNode (m * MBLOCK_SIZE) d n s = Some (bd_at u (j + k), s2)" unfolding def s2(1) using True by simp
    moreover have "bd_at u (j + k) \<notin> fst ` allocs own"
      by (rule new_alloc [OF s2(2,3,4)])
    ultimately show thesis
      by (intro that [OF _ s2(2)]) (use s2 q \<open>N - k = n\<close> dom al jk alloc_start [OF s2(2) q(1) jk] in auto)
  next
    case False
    then have "n < N - k" "N - k < 252" "(bd_at u (j + k), N - k) \<in> allocs own2" using k(3) N(1) s2(3) by auto
    from split_block_low_ok [OF s2(2) this(3,2) assms(2) this(1)] obtain s3 own3 where
      h: "split_block_low (bd_at u (j + k)) n s2 = Some (bd_at u (j + k), s3)" "ba_inv s3 own3"
      "allocs own3 = insert (bd_at u (j + k), n) (allocs own2 - {(bd_at u (j + k), N - k)})"
      "(bd_at u (j + k), n) \<notin> allocs own2 - {(bd_at u (j + k), N - k)}" "dom own3 = dom own2"
      "n_alloc_blocks s3 = n_alloc_blocks s2 - (N - k - n)" "defer_mblock_frees s3 = defer_mblock_frees s2" .
    have rest: "allocs own2 - {(bd_at u (j + k), N - k)} = allocs own" using s2(3,4) by auto
    have q: "(bd_at u (j + k), n) \<in> allocs own3" using h(3) by simp
    have "allocAlignedGroupOnNode (m * MBLOCK_SIZE) d n s = Some (bd_at u (j + k), s3)" unfolding def s2(1) using False h(1) by simp
    moreover have "n_alloc_blocks s3 = n_alloc_blocks s + n" using h(6) s2(6) \<open>n < N - k\<close> by simp
    moreover have "bd_at u (j + k) \<notin> fst ` allocs own"
      using h(3,4) unfolding rest by (rule new_alloc [OF h(2)])
    ultimately show thesis
      by (intro that [OF _ h(2)]) (use h s2 rest dom al alloc_start [OF h(2) q jk] in auto)
  qed
qed

section \<open>\<open>allocMBlockAlignedGroupOnNode\<close>\<close>

text \<open>
  The function cuts off the blocks below the first multiple of \<open>n\<close>. When \<open>n\<close> divides the number of blocks of a megablock
  nothing is below, and \<open>split_block_high\<close> frees a group of no blocks, which is a call of \<open>barf\<close>.
\<close>

lemma freeGroup_empty: "blocks_of s p = 0 \<Longrightarrow> freeGroup p s = None"
proof -
  assume "blocks_of s p = 0"
  then have "blocks_of (upd_bd p (\<lambda>b. b\<lparr>bd_free := FREE_MARK, bd_gen := 0, bd_gen_no := 0\<rparr>) s) p = 0" by simp
  then show ?thesis unfolding freeGroup_def Let_def by (simp only: if_True simp_thms)
qed

lemma setup_tail_one: "blocks_of s p \<le> 1 \<Longrightarrow> setup_tail p s = s"
  by (simp add: setup_tail_def tail_of_def bd_plus_def)

lemma allocMBlockAligned_barfs:
  assumes "ba_inv s own" "n dvd BLOCKS_PER_MBLOCK" "fresh own m (group_request d BLOCKS_PER_MBLOCK s)"
  shows "allocMBlockAlignedGroupOnNode (m * MBLOCK_SIZE) d n s = None"
proof -
  have j: "BLOCKS_TO_MBLOCKS BLOCKS_PER_MBLOCK = 1" "granted BLOCKS_PER_MBLOCK = 252"
    by (simp_all add: BLOCKS_TO_MBLOCKS_eq granted_def ba_consts ba_macros)
  have "0 < BLOCKS_PER_MBLOCK" by (simp add: ba_consts)
  from allocGroupOnNode_ok [OF assms(1) this assms(3)] obtain p s' own' where a: "allocGroupOnNode (m * MBLOCK_SIZE) d BLOCKS_PER_MBLOCK s = Some (p, s')" "ba_inv s' own'"
    "allocs own' = insert (p, 252) (allocs own)" unfolding j .
  have b: "blocks_of s' p = 252" using alloc_blocks [OF a(2)] a(3) by blast
  have "blocks_of s' p mod n = 0" using assms(2) by (simp add: b ba_consts)
  then have n: "blocks_of s' p - blocks_of s' p mod n = 252" by (simp add: b)
  define s1 where "s1 = snd (split_block_high_no_free p 252 s')"
  define s2 where "s2 = upd_bd p (\<lambda>b. b\<lparr>bd_blocks := bd_blocks b - 252\<rparr>) (upd_bd p (\<lambda>b. b\<lparr>bd_blocks := 252,
      bd_start := bd_start (bds s' p) + 0 * BLOCK_SIZE, bd_free := bd_start (bds s' p) + 0 * BLOCK_SIZE, bd_link := 0\<rparr>) s')"
  have z: "blocks_of s2 p = 0" by (simp add: s2_def)
  have "bd_plus p 0 = p" "252 - 252 = (0 :: nat)" by (simp_all add: bd_plus_def)
  then have "s1 = setup_tail p (setup_tail p s2)"
    unfolding s1_def split_block_high_no_free_def Let_def b s2_def by (simp only: snd_conv)
  then have "blocks_of s1 p = 0" using z setup_tail_one [of s2 p] by (simp only: le0 zero_le)
  then have "freeGroup p s1 = None" by (rule freeGroup_empty)
  then have "split_block_high p 252 s' = None"
    unfolding split_block_high_def s1_def case_prod_beta Let_def by (simp only: option.map)
  then show ?thesis by (simp add: allocMBlockAlignedGroupOnNode_def a(1) n)
qed

end
