(* ===== verification/BlockDefer.thy ===== *)
theory BlockDefer
  imports BlockFree "HOL-Library.Sublist"
begin

text \<open>
  Deferred freeing of megablocks: the merge sort of the deferred list on its links, and the merge of the sorted
  list into the free list.
\<close>

section \<open>Lists of links\<close>

abbreviation lst :: "ba_state \<Rightarrow> nat \<Rightarrow> nat list \<Rightarrow> bool" where
  "lst s p xs \<equiv> chain (\<lambda>a. bd_link (bds s a)) 0 p xs"

text \<open>A step that changes only links, and only those of \<open>X\<close>.\<close>

definition relinks :: "nat set \<Rightarrow> ba_state \<Rightarrow> ba_state \<Rightarrow> bool" where
  "relinks X s s' \<longleftrightarrow> (\<forall>a. (bds s' a)\<lparr>bd_link := 0\<rparr> = (bds s a)\<lparr>bd_link := 0\<rparr>) \<and> (\<forall>a. a \<notin> X \<longrightarrow> bds s' a = bds s a) \<and> s' = s\<lparr>bds := bds s'\<rparr>"

lemma relinksD:
  assumes "relinks X s s'"
  shows "bd_start (bds s' a) = bd_start (bds s a)" "bd_node (bds s' a) = bd_node (bds s a)" "blocks_of s' a = blocks_of s a" "bd_free (bds s' a) = bd_free (bds s a)"
    "a \<notin> X \<Longrightarrow> bds s' a = bds s a" "free_list s' = free_list s" "free_mblock_list s' = free_mblock_list s"
    "deferred_free_mblock_list s' = deferred_free_mblock_list s" "n_alloc_blocks s' = n_alloc_blocks s" "defer_mblock_frees s' = defer_mblock_frees s"
    "n_numa_nodes s' = n_numa_nodes s"
proof -
  have a: "(bds s' a)\<lparr>bd_link := 0\<rparr> = (bds s a)\<lparr>bd_link := 0\<rparr>" using assms by (simp add: relinks_def)
  from arg_cong [OF a, of bd_start] arg_cong [OF a, of bd_node] arg_cong [OF a, of bd_blocks] arg_cong [OF a, of bd_free]
  show "bd_start (bds s' a) = bd_start (bds s a)" "bd_node (bds s' a) = bd_node (bds s a)" "blocks_of s' a = blocks_of s a"
    "bd_free (bds s' a) = bd_free (bds s a)" by simp_all
  show "a \<notin> X \<Longrightarrow> bds s' a = bds s a" using assms by (simp add: relinks_def)
  have s: "s' = s\<lparr>bds := bds s'\<rparr>" using assms by (simp add: relinks_def)
  show "free_list s' = free_list s" "free_mblock_list s' = free_mblock_list s"
    "deferred_free_mblock_list s' = deferred_free_mblock_list s" "n_alloc_blocks s' = n_alloc_blocks s" "defer_mblock_frees s' = defer_mblock_frees s"
    "n_numa_nodes s' = n_numa_nodes s"
    by (subst s, simp)+
qed

lemma relinks_refl: "relinks X s s"
  by (simp add: relinks_def)

lemma relinks_trans:
  assumes "relinks X s s'" "relinks Y s' s''" "X \<subseteq> Z" "Y \<subseteq> Z"
  shows "relinks Z s s''"
proof -
  have "s'' = s'\<lparr>bds := bds s''\<rparr>" "s' = s\<lparr>bds := bds s'\<rparr>" using assms(1,2) unfolding relinks_def by blast+
  then have "s'' = s\<lparr>bds := bds s'\<rparr>\<lparr>bds := bds s''\<rparr>" by metis
  also have "\<dots> = s\<lparr>bds := bds s''\<rparr>" by simp
  finally have "s'' = s\<lparr>bds := bds s''\<rparr>" .
  moreover have "(bds s'' a)\<lparr>bd_link := 0\<rparr> = (bds s a)\<lparr>bd_link := 0\<rparr>" for a using assms(1,2) by (simp add: relinks_def)
  moreover have "bds s'' a = bds s a" if "a \<notin> Z" for a
    using assms that unfolding relinks_def by (metis subset_iff)
  ultimately show ?thesis unfolding relinks_def by blast
qed

lemma relinks_upd: "relinks {p} s (upd_bd p (\<lambda>b. b\<lparr>bd_link := q\<rparr>) s)"
  by (simp add: relinks_def upd_bd_def)

lemma lst_relinks: "relinks X s s' \<Longrightarrow> set xs \<inter> X = {} \<Longrightarrow> lst s' p xs = lst s p xs"
  by (rule chain_cong) (use relinksD(5) in fastforce)

section \<open>Splitting and merging\<close>

lemma halve_eq:
  assumes "lst s slow (a # bs)" "lst s fast cs" "suffix cs bs" "bs \<noteq> []"
  shows "\<exists>A c B. halve fast slow s = Some c \<and> a # bs = A @ c # B \<and> B \<noteq> []"
  using assms
proof (induction "length cs" arbitrary: slow a bs fast cs rule: less_induct)
  case less
  consider "cs = []" | c where "cs = [c]" | c1 c2 cs' where "cs = c1 # c2 # cs'" by (metis list.exhaust)
  then show ?case
  proof cases
    case 1
    then have "fast = 0" using less.prems(2) by simp
    then have "halve fast slow s = Some slow" by (subst halve.simps) simp
    moreover have "slow = a" using less.prems(1) by simp
    ultimately show ?thesis using less.prems(4) by (intro exI [of _ "[]"] exI [of _ a] exI [of _ bs]) simp
  next
    case (2 c)
    then have "fast \<noteq> 0" "link_of s fast = 0" using less.prems(2) by auto
    then have "halve fast slow s = halve fast slow s" "halve fast slow s = Some slow"
      by (simp, subst halve.simps, simp add: Let_def, subst halve.simps, simp)
    moreover have "slow = a" using less.prems(1) by simp
    ultimately show ?thesis using less.prems(4) by (intro exI [of _ "[]"] exI [of _ a] exI [of _ bs]) simp
  next
    case (3 c1 c2 cs')
    then have f: "fast = c1" "c1 \<noteq> 0" "link_of s c1 = c2" "c2 \<noteq> 0" "lst s (link_of s c2) cs'" using less.prems(2) by auto
    then have h: "halve fast slow s = halve (link_of s c2) (link_of s slow) s" by (subst halve.simps) (simp add: Let_def)
    obtain ds where ds: "bs = ds @ c1 # c2 # cs'" using less.prems(3) 3 by (auto simp: suffix_def)
    obtain b bs' where b: "bs = b # bs'" using less.prems(4) by (cases bs) auto
    have "lst s (link_of s slow) (b # bs')" using less.prems(1) by (auto simp: b)
    moreover have "suffix cs' bs'" "bs' \<noteq> []" using ds b by (cases ds; auto simp: suffix_def)+
    ultimately obtain A c B where "halve (link_of s c2) (link_of s slow) s = Some c" "b # bs' = A @ c # B" "B \<noteq> []"
      using less.hyps [of cs' "link_of s slow" b bs' "link_of s c2"] f(5) 3 by auto
    then show ?thesis unfolding h by (intro exI [of _ "a # A"] exI [of _ c] exI [of _ B]) (simp add: b)
  qed
qed

lemma chain_end:
  assumes "chain nxt 0 p (A @ c # B)" "nxt' c = (0 :: nat)" "\<And>x. x \<in> set A \<Longrightarrow> nxt' x = nxt x"
  shows "chain nxt' 0 p (A @ [c])"
  using assms by (induction A arbitrary: p) auto

lemma splitDeferredList_eq:
  assumes "lst s p xs" "length xs > 1"
  obtains A B q s' where "splitDeferredList p s = Some (q, s')" "xs = A @ B" "A \<noteq> []" "B \<noteq> []" "lst s' p A" "lst s' q B" "relinks (set xs) s s'"
proof -
  obtain a b xs' where xs: "xs = a # b # xs'" using assms(2) by (cases xs; cases "tl xs") auto
  have p: "lst s p (a # b # xs')" "lst s (link_of s p) (b # xs')" using assms(1) by (auto simp: xs)
  obtain A c B where h: "halve (link_of s p) p s = Some c" "a # b # xs' = A @ c # B" "B \<noteq> []"
    using halve_eq [OF p] by auto
  let ?s = "upd_bd c (\<lambda>b. b\<lparr>bd_link := 0\<rparr>) s"
  have e: "splitDeferredList p s = Some (link_of s c, ?s)" using h(1) by (simp add: splitDeferredList_def)
  have l: "lst s p (A @ c # B)" using p(1) by (simp only: h(2))
  have d: "distinct (A @ c # B)" using chain_distinct [OF l] .
  have "lst s (link_of s c) B" using chain_next [OF l] chain_append [of _ _ _ "A @ [c]" B] l h(3) by (cases B) auto
  then have "lst ?s (link_of s c) B" using lst_relinks [OF relinks_upd, of B c] d by simp
  moreover have "lst ?s p (A @ [c])" by (rule chain_end [OF l]) (use d in auto)
  moreover have "relinks (set xs) s ?s" by (rule relinks_trans [OF relinks_upd [of c] relinks_refl [of "{}"]]) (use h(2) in \<open>auto simp: xs\<close>)
  ultimately show thesis using that [OF e, of "A @ [c]" B] h(2,3) by (simp add: xs)
qed

fun merge_by :: "(nat \<Rightarrow> nat) \<Rightarrow> nat list \<Rightarrow> nat list \<Rightarrow> nat list" where
  "merge_by st (x # xs) (y # ys) = (if st x < st y then x # merge_by st xs (y # ys) else y # merge_by st (x # xs) ys)"
| "merge_by st xs [] = xs"
| "merge_by st [] ys = ys"

lemma mset_merge_by [simp]: "mset (merge_by st xs ys) = mset xs + mset ys"
  by (induction st xs ys rule: merge_by.induct) auto

lemma set_merge_by [simp]: "set (merge_by st xs ys) = set xs \<union> set ys"
  by (induction st xs ys rule: merge_by.induct) auto

lemma sorted_merge_by: "sorted (map st xs) \<Longrightarrow> sorted (map st ys) \<Longrightarrow> sorted (map st (merge_by st xs ys))"
proof (induction st xs ys rule: merge_by.induct)
  case (1 st x xs y ys)
  then show ?case by (cases "st x < st y") (auto dest: order_trans less_imp_le)
qed simp_all

lemma merge_halves_eq:
  assumes "lst s p xs" "lst s q ys" "distinct (cur # xs @ ys)" "cur \<noteq> 0" "link_of s cur = p \<or> link_of s cur = q"
  shows "\<exists>s'. merge_halves cur p q s = Some s' \<and> lst s' (link_of s' cur) (merge_by (\<lambda>a. bd_start (bds s a)) xs ys) \<and> relinks (insert cur (set (xs @ ys))) s s'"
  using assms
proof (induction "length xs + length ys" arbitrary: s cur p q xs ys rule: less_induct)
  case less
  let ?st = "\<lambda>a. bd_start (bds s a)"
  note IH = less.hyps
  have step: ?case
    if "merge_halves cur p q s = merge_halves z p' q' s1" "s1 = upd_bd cur (\<lambda>b. b\<lparr>bd_link := z\<rparr>) s" "lst s1 p' xs'" "lst s1 q' ys'"
      "merge_by ?st xs ys = z # merge_by ?st xs' ys'" "set (z # xs' @ ys') = set (xs @ ys)" "distinct (z # xs' @ ys')"
      "length xs' + length ys' < length xs + length ys" "link_of s1 z = p' \<or> link_of s1 z = q'" "z \<noteq> 0" for z p' q' s1 xs' ys'
  proof -
    note c = that
    have r1: "relinks {cur} s s1" unfolding c(2) by (rule relinks_upd)
    have st: "(\<lambda>a. bd_start (bds s1 a)) = ?st" using relinksD(1) [OF r1] by simp
    obtain s' where s': "merge_halves z p' q' s1 = Some s'" "lst s' (link_of s' z) (merge_by ?st xs' ys')" "relinks (insert z (set (xs' @ ys'))) s1 s'"
      using IH [OF c(8,3,4,7,10,9)] unfolding st by blast
    have "cur \<notin> insert z (set (xs' @ ys'))" using less.prems(3) c(6) by auto
    then have "link_of s' cur = z" using relinksD(5) [OF s'(3)] by (simp add: c(2))
    then have "lst s' (link_of s' cur) (merge_by ?st xs ys)" using s'(2) c(5,10) by simp
    moreover have "relinks (insert cur (set (xs @ ys))) s s'"
      by (rule relinks_trans [OF r1 s'(3)]) (use c(6) in auto)
    ultimately show ?thesis using s'(1) c(1) by simp
  qed
  have same: "lst (upd_bd cur (\<lambda>b. b\<lparr>bd_link := z\<rparr>) s) r zs = lst s r zs" if "cur \<notin> set zs" for z r zs
    by (rule lst_relinks [OF relinks_upd]) (use that in simp)
  have "xs = [] \<and> ys = [] \<or> (\<exists>x xs'. xs = x # xs' \<and> (ys = [] \<or> (\<exists>y ys'. ys = y # ys' \<and> ?st x < ?st y))) \<or>
      (\<exists>y ys'. ys = y # ys' \<and> (xs = [] \<or> (\<exists>x xs'. xs = x # xs' \<and> \<not> ?st x < ?st y)))"
    by (cases xs; cases ys) auto
  then consider "xs = []" "ys = []" | x xs' where "xs = x # xs'" "ys = [] \<or> (\<exists>y ys'. ys = y # ys' \<and> ?st x < ?st y)"
    | y ys' where "ys = y # ys'" "xs = [] \<or> (\<exists>x xs'. xs = x # xs' \<and> \<not> ?st x < ?st y)"
    by blast
  then show ?case
  proof cases
    case 1
    then have "p = 0" "q = 0" "link_of s cur = 0" using less.prems by auto
    then show ?thesis using 1 by (intro exI [of _ s]) (subst merge_halves.simps, simp add: relinks_refl)
  next
    case (2 x xs')
    let ?s = "upd_bd cur (\<lambda>b. b\<lparr>bd_link := x\<rparr>) s"
    have p: "p = x" "x \<noteq> 0" "lst s (link_of s x) xs'" "x \<noteq> cur" "cur \<notin> set xs'" "cur \<notin> set ys" using less.prems(1,3) 2(1) by auto
    have mh: "merge_halves cur p q s = merge_halves x (link_of s x) q ?s"
    proof (cases ys)
      case Nil
      then have "q = 0" using less.prems(2) by simp
      then show ?thesis using p(1,2,4) by (subst merge_halves.simps) (simp add: Let_def)
    next
      case (Cons y ys')
      then have "q = y" "y \<noteq> 0" "?st x < ?st y" using less.prems(2) 2(2) by auto
      then show ?thesis using p(1,2,4) by (subst merge_halves.simps) (simp add: Let_def)
    qed
    have mb: "merge_by ?st xs ys = x # merge_by ?st xs' ys" using 2 by (cases xs') auto
    show ?thesis
      by (rule step [OF mh refl _ _ mb]) (use p less.prems(2,3) 2(1) same in auto)
  next
    case (3 y ys')
    let ?s = "upd_bd cur (\<lambda>b. b\<lparr>bd_link := y\<rparr>) s"
    have q: "q = y" "y \<noteq> 0" "lst s (link_of s y) ys'" "y \<noteq> cur" "cur \<notin> set ys'" "cur \<notin> set xs" using less.prems(2,3) 3(1) by auto
    have mh: "merge_halves cur p q s = merge_halves y p (link_of s y) ?s"
    proof (cases xs)
      case Nil
      then have "p = 0" using less.prems(1) by simp
      then show ?thesis using q(1,2,4) by (subst merge_halves.simps) (simp add: Let_def)
    next
      case (Cons x xs')
      then have "p = x" "x \<noteq> 0" "\<not> ?st x < ?st y" using less.prems(1) 3(2) by auto
      then show ?thesis using q(1,2,4) by (subst merge_halves.simps) (simp add: Let_def)
    qed
    have mb: "merge_by ?st xs ys = y # merge_by ?st xs ys'" using 3 by (cases ys') auto
    show ?thesis
      by (rule step [OF mh refl _ _ mb]) (use q less.prems(1,3) 3(1) same in auto)
  qed
qed

text \<open>The sort terminates, relinks the groups in the order of their addresses, and changes nothing else.\<close>

lemma sortDeferredList_eq:
  assumes "lst s p xs"
  shows "\<exists>q s' ys. sortDeferredList p s = Some (q, s') \<and> lst s' q ys \<and> mset ys = mset xs \<and> sorted (map (\<lambda>a. bd_start (bds s a)) ys) \<and> relinks (set xs) s s'"
  using assms
proof (induction "length xs" arbitrary: p s xs rule: less_induct)
  case less
  let ?st = "\<lambda>a. bd_start (bds s a)"
  show ?case
  proof (cases "length xs > 1")
    case False
    then consider "xs = []" | x where "xs = [x]" by (cases xs; cases "tl xs") auto
    then have "p = 0 \<or> link_of s p = 0" using less.prems by cases auto
    then have "sortDeferredList p s = Some (p, s)" by (subst sortDeferredList.simps) simp
    moreover have "sorted (map ?st xs)" using False by (cases xs) auto
    ultimately show ?thesis using less.prems relinks_refl by blast
  next
    case True
    obtain A B q s1 where s1: "splitDeferredList p s = Some (q, s1)" "xs = A @ B" "A \<noteq> []" "B \<noteq> []" "lst s1 p A" "lst s1 q B" "relinks (set xs) s s1"
      using splitDeferredList_eq [OF less.prems True] .
    have d: "distinct (A @ B)" using chain_distinct [OF less.prems] by (simp add: s1(2))
    have "length A < length xs" "length B < length xs" using s1(2-4) by auto
    note IH = less.hyps [OF this(1)] less.hyps [OF this(2)]
    have nz: "p \<noteq> 0" "link_of s p \<noteq> 0" using less.prems True by (cases xs; cases "tl xs"; auto)+
    obtain p2 s2 A' where s2: "sortDeferredList p s1 = Some (p2, s2)" "lst s2 p2 A'" "mset A' = mset A" "sorted (map (\<lambda>a. bd_start (bds s1 a)) A')" "relinks (set A) s1 s2"
      using IH(1) [OF s1(5)] by blast
    have "lst s2 q B" using lst_relinks [OF s2(5), of B q] s1(6) d by auto
    from IH(2) [OF this] obtain q3 s3 B' where s3: "sortDeferredList q s2 = Some (q3, s3)" "lst s3 q3 B'" "mset B' = mset B"
      "sorted (map (\<lambda>a. bd_start (bds s2 a)) B')" "relinks (set B) s2 s3" by blast
    have set: "set A' = set A" "set B' = set B" using s2(3) s3(3) mset_eq_setD by blast+
    have l3: "lst s3 p2 A'" using lst_relinks [OF s3(5), of A' p2] s2(2) d set by auto
    have st: "bd_start (bds s1 a) = ?st a" "bd_start (bds s2 a) = ?st a" "bd_start (bds s3 a) = ?st a" for a
      using relinksD(1) [OF s1(7)] relinksD(1) [OF s2(5)] relinksD(1) [OF s3(5)] by simp_all
    have sorted: "sorted (map ?st A')" "sorted (map ?st B')" using s2(4) s3(4) by (simp_all add: st)
    have r2: "relinks (set xs) s s2" by (rule relinks_trans [OF s1(7) s2(5)]) (use s1(2) in auto)
    have r3: "relinks (set xs) s s3" by (rule relinks_trans [OF r2 s3(5)]) (use s1(2) in auto)
    have d': "distinct (A' @ B')" using d s2(3) s3(3) set by (metis distinct_append mset_eq_imp_distinct_iff)
    have ne: "A' \<noteq> []" "B' \<noteq> []" using set s1(3,4) by auto
    obtain a A2 b B2 where ab: "A' = a # A2" "B' = b # B2" using ne by (cases A'; cases B') auto
    have heads: "p2 = a" "a \<noteq> 0" "lst s3 (link_of s3 a) A2" "q3 = b" "b \<noteq> 0" "lst s3 (link_of s3 b) B2"
      using l3 s3(2) by (auto simp: ab)
    have sts: "(\<lambda>a. bd_start (bds s3 a)) = ?st" by (simp add: st)
    show ?thesis
    proof (cases "?st a < ?st b")
      case lt: True
      have "distinct (a # A2 @ B')" "link_of s3 a = link_of s3 a \<or> link_of s3 a = q3" using d' by (auto simp: ab)
      from merge_halves_eq [OF heads(3) s3(2) this(1) heads(2) this(2), unfolded sts]
      obtain s4 where s4: "merge_halves a (link_of s3 a) q3 s3 = Some s4" "lst s4 (link_of s4 a) (merge_by ?st A2 B')" "relinks (insert a (set (A2 @ B'))) s3 s4" by blast
      have "sortDeferredList p s = Some (a, s4)"
        using nz s1(1) s2(1) s3(1) s4(1) lt heads(1,4) by (subst sortDeferredList.simps) (simp add: st)
      moreover have m: "a # merge_by ?st A2 B' = merge_by ?st A' B'" using lt by (simp add: ab)
      moreover have "lst s4 a (a # merge_by ?st A2 B')" using s4(2) heads(2) by simp
      moreover have "relinks (set xs) s s4" by (rule relinks_trans [OF r3 s4(3)]) (use set ab s1(2) in auto)
      ultimately show ?thesis using sorted_merge_by [OF sorted] s2(3) s3(3) s1(2)
        by (intro exI [of _ a] exI [of _ s4] exI [of _ "merge_by ?st A' B'"]) simp
    next
      case ge: False
      have "distinct (b # A' @ B2)" "link_of s3 b = p2 \<or> link_of s3 b = link_of s3 b" using d' by (auto simp: ab)
      from merge_halves_eq [OF l3 heads(6) this(1) heads(5) this(2), unfolded sts]
      obtain s4 where s4: "merge_halves b p2 (link_of s3 b) s3 = Some s4" "lst s4 (link_of s4 b) (merge_by ?st A' B2)" "relinks (insert b (set (A' @ B2))) s3 s4" by blast
      have "sortDeferredList p s = Some (b, s4)"
        using nz s1(1) s2(1) s3(1) s4(1) ge heads(1,4) by (subst sortDeferredList.simps) (simp add: st)
      moreover have m: "b # merge_by ?st A' B2 = merge_by ?st A' B'" using ge by (simp add: ab)
      moreover have "lst s4 b (b # merge_by ?st A' B2)" using s4(2) heads(5) by simp
      moreover have "relinks (set xs) s s4" by (rule relinks_trans [OF r3 s4(3)]) (use set ab s1(2) in auto)
      ultimately show ?thesis using sorted_merge_by [OF sorted] s2(3) s3(3) s1(2)
        by (intro exI [of _ b] exI [of _ s4] exI [of _ "merge_by ?st A' B'"]) simp
    qed
  qed
qed

section \<open>Merging the sorted list into the free list\<close>

lemma coalesce_frame:
  "fst (coalesce_mblocks p s) = p \<or> fst (coalesce_mblocks p s) = link_of s p"
  "bd_start (bds (snd (coalesce_mblocks p s)) a) = bd_start (bds s a)" "bd_node (bds (snd (coalesce_mblocks p s)) a) = bd_node (bds s a)"
  "a \<noteq> p \<Longrightarrow> bds (snd (coalesce_mblocks p s)) a = bds s a" "n_numa_nodes (snd (coalesce_mblocks p s)) = n_numa_nodes s"
  "deferred_free_mblock_list (snd (coalesce_mblocks p s)) = deferred_free_mblock_list s"
  by (auto simp: coalesce_mblocks_def Let_def upd_bd_def)

lemma insert_coalesce_frame:
  shows "bd_start (bds (snd (insert_coalesce d mg prev s)) a) = bd_start (bds s a)"
    "bd_node (bds (snd (insert_coalesce d mg prev s)) a) = bd_node (bds s a)"
    "a \<noteq> mg \<Longrightarrow> a \<noteq> prev \<Longrightarrow> bds (snd (insert_coalesce d mg prev s)) a = bds s a"
    "n_numa_nodes (snd (insert_coalesce d mg prev s)) = n_numa_nodes s"
    "deferred_free_mblock_list (snd (insert_coalesce d mg prev s)) = deferred_free_mblock_list s"
proof -
  let ?s = "link_in d mg prev s"
  have nu: "n_numa_nodes (link_in d mg q s) = n_numa_nodes s" for q by (simp add: link_in_def upd_bd_def)
  have same: "a \<noteq> mg \<Longrightarrow> a \<noteq> prev \<Longrightarrow> bds ?s a = bds s a" by (simp add: link_in_def)
  have lk: "prev \<noteq> 0 \<Longrightarrow> link_of ?s prev = mg" by (simp add: link_in_def)
  have ic: "insert_coalesce d mg prev s = (let (mg, s) = (if prev \<noteq> 0 then coalesce_mblocks prev ?s else (mg, ?s)) in (mg, snd (coalesce_mblocks mg s)))"
    by (simp add: insert_coalesce_def link_in_def)
  note cf = coalesce_frame [where p = prev and s = ?s]
  show "bd_start (bds (snd (insert_coalesce d mg prev s)) a) = bd_start (bds s a)"
    "bd_node (bds (snd (insert_coalesce d mg prev s)) a) = bd_node (bds s a)"
    "n_numa_nodes (snd (insert_coalesce d mg prev s)) = n_numa_nodes s"
    "deferred_free_mblock_list (snd (insert_coalesce d mg prev s)) = deferred_free_mblock_list s"
    unfolding ic by (simp_all add: case_prod_beta coalesce_frame nu)
  show "a \<noteq> mg \<Longrightarrow> a \<noteq> prev \<Longrightarrow> bds (snd (insert_coalesce d mg prev s)) a = bds s a"
  proof -
    assume a: "a \<noteq> mg" "a \<noteq> prev"
    show ?thesis
    proof (cases "prev = 0")
      case True
      then show ?thesis unfolding ic using a same by (simp add: coalesce_frame(4))
    next
      case False
      have "fst (coalesce_mblocks prev ?s) \<noteq> a" using cf(1) lk [OF False] a by auto
      then show ?thesis unfolding ic using a same False by (simp add: case_prod_beta coalesce_frame(4))
    qed
  qed
qed

definition waiting :: "ba_state \<Rightarrow> owners \<Rightarrow> nat \<Rightarrow> (nat \<times> nat) list \<Rightarrow> bool" where
  "waiting s own d ps \<longleftrightarrow> sorted_wrt (\<lambda>(v, k) (w, l). v + k \<le> w) ps \<and>
    (\<forall>(v, k)\<in>set ps. fresh own v k \<and> k > 0 \<and> (\<exists>d. mblock_init (bds s) v d) \<and> blocks_of s (bd_at v 0) = MBLOCK_GROUP_BLOCKS k \<and>
      bd_node (bds s (bd_at v 0)) = d)"

abbreviation heads :: "(nat \<times> nat) list \<Rightarrow> nat list" where
  "heads xs \<equiv> map (\<lambda>(v, k). bd_at v 0) xs"

lemma last_of_snoc [simp]: "last_of (A @ [(x, y)]) = bd_at x 0"
  by (simp add: last_of_def)

lemma find_place_after:
  assumes "minv s own MF MD" "gaps (MF d)" "MF d = A @ B" "\<exists>d. mblock_init (bds s) v d" "\<And>w l. (w, l) \<in> set A \<Longrightarrow> w < v"
  obtains pre post where "find_place (bds s) (bd_at v 0) (last_of A) (head_of B) = Some (last_of pre, head_of post)" "MF d = pre @ post"
    "\<And>w l. (w, l) \<in> set pre \<Longrightarrow> w < v" "\<And>w l. (w, l) \<in> set post \<Longrightarrow> v \<le> w"
proof -
  note i = minvD [OF assms(1)]
  define pre where "pre = takeWhile (\<lambda>(w, l). w < v) B"
  define post where "post = dropWhile (\<lambda>(w, l). w < v) B"
  have B: "B = pre @ post" by (simp add: pre_def post_def)
  have start: "bd_start (bds s (bd_at w 0)) = block_at w 0" if "(w, l) \<in> set B" for w l
  proof -
    have "own w = Some (Mega w l Listed)" using i(6) [of w l d] that assms(3) by simp
    from megaD(3) [OF i(1) this] show ?thesis by (auto simp: mega_ok_def mblock_init_def)
  qed
  have "chain (\<lambda>a. bd_link (bds s a)) 0 (free_mblock_list s d) (heads A @ heads B)" using i(4) [of d] assms(3) by (simp add: mega_list_def)
  then have "mega_list (bds s) (head_of B) B"
    using chain_append [of "\<lambda>a. bd_link (bds s a)" 0 "free_mblock_list s d" "heads A" "heads B"] by (cases B) (auto simp: mega_list_def)
  moreover have "bd_start (bds s (bd_at v 0)) = block_at v 0" using assms(4) by (auto simp: mblock_init_def)
  ultimately have "find_place (bds s) (bd_at v 0) (last_of A) (head_of B) = Some (if pre = [] then last_of A else last_of pre, head_of post)"
    using find_place_eq [of "bds s" "head_of B" B v "last_of A"] start unfolding pre_def post_def by blast
  moreover have "(if pre = [] then last_of A else last_of pre) = last_of (A @ pre)" by (simp add: last_of_def)
  ultimately have "find_place (bds s) (bd_at v 0) (last_of A) (head_of B) = Some (last_of (A @ pre), head_of post)" by simp
  moreover have "w < v" if "(w, l) \<in> set (A @ pre)" for w l
    using that assms(5) set_takeWhileD [of "(w, l)"] by (fastforce simp: pre_def)
  moreover have "v \<le> w" if "(w, l) \<in> set post" for w l
  proof (cases post)
    case (Cons a zs)
    obtain w0 l0 where a: "a = (w0, l0)" by force
    have "\<not> w0 < v" using hd_dropWhile [of "\<lambda>(w, l). w < v" B] Cons by (simp add: post_def [symmetric] a)
    moreover have "gaps post" using assms(2) unfolding assms(3) B by (simp add: sorted_wrt_append)
    ultimately show ?thesis using that by (auto simp: Cons a)
  qed (use that in simp)
  ultimately show thesis using that [of "A @ pre" post] assms(3) B by simp
qed

lemma free_sorted_groups_ok:
  assumes "minv s own MF MD" "\<And>d. gaps (MF d)" "waiting s own d ps" "lst s p (heads ps)" "MF d = A @ B"
    "\<And>w l v k. (w, l) \<in> set A \<Longrightarrow> (v, k) \<in> set ps \<Longrightarrow> w < v"
  shows "\<exists>s' own' MF'. free_sorted_groups d p (last_of A) (head_of B) s = Some s' \<and> minv s' own' MF' MD \<and> (\<forall>d. gaps (MF' d)) \<and>
    dom own' = dom own \<union> (\<Union>(v, k)\<in>set ps. {v..<v + k}) \<and> allocs own' = allocs own \<and> n_alloc_blocks s' = n_alloc_blocks s \<and>
    defer_mblock_frees s' = defer_mblock_frees s \<and> n_numa_nodes s' = n_numa_nodes s \<and> deferred_free_mblock_list s' = deferred_free_mblock_list s"
  using assms
proof (induction ps arbitrary: s own MF p A B)
  case Nil
  then have "p = 0" by simp
  then have "free_sorted_groups d p (last_of A) (head_of B) s = Some s" by (subst free_sorted_groups.simps) simp
  then show ?case using Nil.prems(1,2) by (intro exI [of _ s] exI [of _ own] exI [of _ MF]) simp
next
  case (Cons a ps)
  obtain v k where a: "a = (v, k)" by force
  note i = minvD [OF Cons.prems(1)]
  have vk: "fresh own v k" "k > 0" "\<exists>d. mblock_init (bds s) v d" "blocks_of s (bd_at v 0) = MBLOCK_GROUP_BLOCKS k" "bd_node (bds s (bd_at v 0)) = d"
    using Cons.prems(3) by (auto simp: waiting_def a)
  have p: "p = bd_at v 0" "lst s (link_of s p) (heads ps)" using Cons.prems(4) by (auto simp: a)
  have lt: "w < v" if "(w, l) \<in> set A" for w l using Cons.prems(6) [OF that, of v k] by (simp add: a)
  obtain pre post where f: "find_place (bds s) (bd_at v 0) (last_of A) (head_of B) = Some (last_of pre, head_of post)" "MF d = pre @ post"
    "\<And>w l. (w, l) \<in> set pre \<Longrightarrow> w < v" "\<And>w l. (w, l) \<in> set post \<Longrightarrow> v \<le> w"
    using find_place_after [OF Cons.prems(1,2,5) vk(3) lt] by metis
  from insert_coalesce_correct [OF Cons.prems(1,2) vk(1-4) vk(5) [symmetric] f(2-4)]
  obtain s1 own1 A1 x y B1 where n: "insert_coalesce d (bd_at v 0) (last_of pre) s = (bd_at x 0, s1)"
    "minv s1 own1 (MF(d := A1 @ (x, y) # B1)) MD" "gaps (A1 @ (x, y) # B1)" "x \<le> v"
    "dom own1 = dom own \<union> {v..<v + k}" "allocs own1 = allocs own" "n_alloc_blocks s1 = n_alloc_blocks s" "defer_mblock_frees s1 = defer_mblock_frees s" .
  let ?MF = "MF(d := A1 @ (x, y) # B1)"
  note fr = insert_coalesce_frame [where d = d and mg = "bd_at v 0" and prev = "last_of pre" and s = s, unfolded n(1) snd_conv]
  have e: "free_sorted_groups d p (last_of A) (head_of B) s = free_sorted_groups d (link_of s p) (bd_at x 0) (link_of s1 (bd_at x 0)) s1"
    by (subst free_sorted_groups.simps) (simp add: p(1) f(1) n(1) Let_def)
  have same: "bds s1 (bd_at w 0) = bds s (bd_at w 0) \<and> fresh own1 w l" if "(w, l) \<in> set ps" for w l
  proof -
    have w: "v + k \<le> w" "fresh own w l" "l > 0" using Cons.prems(3) that by (auto simp: waiting_def a)
    have "bd_at w 0 \<noteq> last_of pre"
    proof (cases pre rule: rev_cases)
      case (snoc us b)
      obtain y z where b: "b = (y, z)" by force
      have "own y = Some (Mega y z Listed)" using i(6) [of y z d] f(2) by (simp add: snoc b)
      then have "y \<noteq> w" using w(2,3) by (auto simp: fresh_def)
      then show ?thesis by (simp add: snoc b)
    qed (simp add: last_of_def)
    moreover have "bd_at w 0 \<noteq> bd_at v 0" using w(1) vk(2) by simp
    moreover have "own1 z = None" if z: "w \<le> z" "z < w + l" for z
    proof -
      have "z \<notin> dom own" using w(2) z by (auto simp: fresh_def)
      moreover have "z \<notin> {v..<v + k}" using w(1) z by simp
      ultimately show ?thesis using n(5) by blast
    qed
    ultimately show ?thesis using fr(3) by (simp add: fresh_def)
  qed
  have "waiting s1 own1 d ps"
    unfolding waiting_def
  proof (intro conjI ballI)
    show "sorted_wrt (\<lambda>(v, k) (w, l). v + k \<le> w) ps" using Cons.prems(3) by (simp add: waiting_def)
    fix c assume c: "c \<in> set ps"
    obtain w l where wl: "c = (w, l)" by force
    have "l > 0 \<and> (\<exists>d. mblock_init (bds s) w d) \<and> blocks_of s (bd_at w 0) = MBLOCK_GROUP_BLOCKS l \<and> bd_node (bds s (bd_at w 0)) = d"
      using Cons.prems(3) c by (auto simp: waiting_def wl)
    moreover have "mblock_init (bds s1) w d = mblock_init (bds s) w d" for d by (rule mblock_init_cong) (simp add: fr(1,2))
    ultimately show "case c of (v, k) \<Rightarrow> fresh own1 v k \<and> k > 0 \<and> (\<exists>d. mblock_init (bds s1) v d) \<and> blocks_of s1 (bd_at v 0) = MBLOCK_GROUP_BLOCKS k \<and>
      bd_node (bds s1 (bd_at v 0)) = d" using same [of w l] c by (auto simp: wl)
  qed
  moreover have "lst s1 (link_of s p) (heads ps)"
    using p(2) same by (subst chain_cong [of _ _ "\<lambda>a. bd_link (bds s a)"]) auto
  moreover have g: "gaps (?MF d')" for d' using Cons.prems(2) n(3) by simp
  moreover have "?MF d = (A1 @ [(x, y)]) @ B1" by simp
  moreover have "w' < w" if w': "(w', l') \<in> set (A1 @ [(x, y)])" and w: "(w, l) \<in> set ps" for w' l' w l
  proof -
    have "w' \<le> x" using w' n(3) by (auto simp: sorted_wrt_append)
    moreover have "v + k \<le> w" using Cons.prems(3) w by (auto simp: waiting_def a)
    ultimately show ?thesis using n(4) vk(2) by simp
  qed
  ultimately have ex: "\<exists>s' own' MF'. free_sorted_groups d (link_of s p) (last_of (A1 @ [(x, y)])) (head_of B1) s1 = Some s' \<and> minv s' own' MF' MD \<and>
    (\<forall>d. gaps (MF' d)) \<and> dom own' = dom own1 \<union> (\<Union>(v, k)\<in>set ps. {v..<v + k}) \<and> allocs own' = allocs own1 \<and> n_alloc_blocks s' = n_alloc_blocks s1 \<and>
    defer_mblock_frees s' = defer_mblock_frees s1 \<and> n_numa_nodes s' = n_numa_nodes s1 \<and> deferred_free_mblock_list s' = deferred_free_mblock_list s1"
    by (intro Cons.IH [OF n(2)]) blast+
  have "link_of s1 (bd_at x 0) = head_of B1"
  proof -
    have "chain (\<lambda>a. bd_link (bds s1 a)) 0 (free_mblock_list s1 d) (heads A1 @ bd_at x 0 # heads B1)"
      using minvD(4) [OF n(2), of d] by (simp add: mega_list_def)
    from chain_next [OF this] show ?thesis by (cases B1) auto
  qed
  then have e': "free_sorted_groups d p (last_of A) (head_of B) s = free_sorted_groups d (link_of s p) (last_of (A1 @ [(x, y)])) (head_of B1) s1"
    unfolding e by simp
  have "dom own1 \<union> (\<Union>(v, k)\<in>set ps. {v..<v + k}) = dom own \<union> (\<Union>(v, k)\<in>set (a # ps). {v..<v + k})" using n(5) by (auto simp: a)
  then show ?case using ex unfolding e' n(6-8) fr(4,5) by simp
qed

section \<open>\<open>free_deferred_mega_groups\<close>\<close>

lemma perm_map: "mset ys = mset (map f xs) \<Longrightarrow> \<exists>zs. mset zs = mset xs \<and> map f zs = ys"
proof (induction ys arbitrary: xs)
  case (Cons y ys)
  from Cons.prems have "y \<in> set (map f xs)" by (metis list.set_intros(1) mset_eq_setD)
  then obtain x where x: "x \<in> set xs" "y = f x" by auto
  then have "mset ys = mset (map f (remove1 x xs))" using Cons.prems
    by (metis (no_types, lifting) add_mset_add_mset_same_iff image_mset_add_mset insert_DiffM mset.simps(2) mset_map mset_remove1 set_mset_mset)
  then obtain zs where "mset zs = mset (remove1 x xs)" "map f zs = ys" using Cons.IH by blast
  then show ?case using x by (intro exI [of _ "x # zs"]) simp
qed simp

lemma sorted_distinct_wrt: "sorted (map f xs) \<Longrightarrow> distinct xs \<Longrightarrow> sorted_wrt (\<lambda>a b. f a \<le> f b \<and> a \<noteq> b) xs"
  by (induction xs) auto

definition undefer :: "ba_state \<Rightarrow> owners \<Rightarrow> nat \<Rightarrow> owners" where
  "undefer s own d = (\<lambda>x. case own x of Some (Mega v k Deferred) \<Rightarrow> if bd_node (bds s (bd_at v 0)) = d then None else own x | _ \<Rightarrow> own x)"

lemma undefer_iff:
  "undefer s own d x = Some (Split L) \<longleftrightarrow> own x = Some (Split L)"
  "undefer s own d x = Some (Mega v k st) \<longleftrightarrow> own x = Some (Mega v k st) \<and> \<not> (st = Deferred \<and> bd_node (bds s (bd_at v 0)) = d)"
  by (auto simp: undefer_def split: option.splits mowner.splits mstate.splits)

lemma undefer_minv:
  assumes "minv s own MF MD" "relinks (set (heads (MD d))) s s1"
  defines "s2 \<equiv> s1\<lparr>deferred_free_mblock_list := (deferred_free_mblock_list s1)(d := 0)\<rparr>"
  shows "minv s2 (undefer s own d) MF (MD(d := []))"
proof -
  note i = minvD [OF assms(1)] and r = relinksD [OF assms(2)]
  have h: "own v = Some (Mega v k Deferred) \<and> bd_node (bds s (bd_at v 0)) = d" if "(v, k) \<in> set (MD d)" for v k
    using i(7) [of v k d] that by simp
  have notin: "bd_at u j \<notin> set (heads (MD d))" if "\<And>k. own u = Some (Mega u k Deferred) \<Longrightarrow> bd_node (bds s (bd_at u 0)) \<noteq> d" "j < 256" for u j
    using h that by force
  have desc: "bds s2 a = bds s1 a" "blocks_of s2 a = blocks_of s a" "bd_node (bds s2 a) = bd_node (bds s a)" "bd_start (bds s2 a) = bd_start (bds s a)" for a
    by (simp_all add: s2_def r)
  show ?thesis
  proof (rule minv_step [OF assms(1)])
    show "undefer s own d u = Some (Split L) \<longleftrightarrow> own u = Some (Split L)" for u L by (rule undefer_iff)
    show "bds s2 (bd_at u j) = bds s (bd_at u j)" if "own u = Some (Split L)" "j < 252" for u L j
      using that notin [of u j] r(5) by (simp add: desc)
    show "v \<le> u \<and> u < v + k \<and> mega_ok (bds s2) (undefer s own d) v k st" if u: "undefer s own d u = Some (Mega v k st)" for u v k st
    proof -
      have u': "own u = Some (Mega v k st)" "\<not> (st = Deferred \<and> bd_node (bds s (bd_at v 0)) = d)" using u by (simp_all add: undefer_iff)
      note ok = megaD [OF i(1) u'(1)]
      have "undefer s own d w = own w" if "v \<le> w" "w < v + k" for w
      proof -
        have "own w = Some (Mega v k st)" using ok(3) that by (simp add: mega_ok_def)
        then show ?thesis using u'(2) undefer_iff(2) [of s own d w v k st] by simp
      qed
      then have "mega_ok (bds s2) (undefer s own d) v k st" by (intro mega_ok_keep [OF ok(3)]) (simp_all add: desc(2-4))
      with ok show ?thesis by blast
    qed
    have "mega_list (bds s2) p (MF d') = mega_list (bds s) p (MF d')" for p d'
    proof (rule mega_list_cong)
      fix v k assume "(v, k) \<in> set (MF d')"
      then have "own v = Some (Mega v k Listed)" using i(6) [of v k d'] by simp
      then show "link_of s2 (bd_at v 0) = link_of s (bd_at v 0)" using notin [of v 0] r(5) by (simp add: desc)
    qed
    moreover have "mega_list (bds s2) p (MD d') = mega_list (bds s) p (MD d')" if "d' \<noteq> d" for p d'
    proof (rule mega_list_cong)
      fix v k assume "(v, k) \<in> set (MD d')"
      then have "own v = Some (Mega v k Deferred)" "bd_node (bds s (bd_at v 0)) = d'" using i(7) [of v k d'] by simp_all
      then show "link_of s2 (bd_at v 0) = link_of s (bd_at v 0)" using notin [of v 0] r(5) that by (simp add: desc)
    qed
    moreover have "free_mblock_list s2 = free_mblock_list s" "deferred_free_mblock_list s2 = (deferred_free_mblock_list s)(d := 0)" by (simp_all add: s2_def r)
    ultimately show "mega_sets s2 (undefer s own d) MF (MD(d := []))"
      unfolding mega_sets_def undefer_iff desc(2-4) using i(4-7) by (auto simp: mega_list_def)
  qed (simp_all add: desc(2-4), simp_all add: s2_def r)
qed

lemma undefer_allocs: "allocs (undefer s own d) = allocs own"
  unfolding allocs_def undefer_iff by simp

lemma undefer_waiting:
  assumes "minv s own MF MD" "mset ps = mset (MD d)" "sorted (map (\<lambda>a. bd_start (bds s a)) (heads ps))" "distinct (heads ps)"
    "\<And>a. bd_start (bds s' a) = bd_start (bds s a) \<and> bd_node (bds s' a) = bd_node (bds s a) \<and> blocks_of s' a = blocks_of s a"
  shows "waiting s' (undefer s own d) d ps" "dom own = dom (undefer s own d) \<union> (\<Union>(v, k)\<in>set ps. {v..<v + k})"
proof -
  note i = minvD [OF assms(1)]
  have set: "set ps = set (MD d)" using mset_eq_setD [OF assms(2)] .
  have mem: "own v = Some (Mega v k Deferred) \<and> bd_node (bds s (bd_at v 0)) = d \<and> mega_ok (bds s) own v k Deferred" if "(v, k) \<in> set ps" for v k
    using i(7) [of v k d] that megaD(3) [OF i(1)] unfolding set by blast
  have init: "mblock_init (bds s') v d = mblock_init (bds s) v d" for v d by (rule mblock_init_cong) (use assms(5) in blast)
  have start: "bd_start (bds s (bd_at v 0)) = block_at v 0" if "(v, k) \<in> set ps" for v k
    using mem [OF that] by (auto simp: mega_ok_def mblock_init_def)
  show "waiting s' (undefer s own d) d ps"
    unfolding waiting_def
  proof (intro conjI ballI)
    have "sorted_wrt (\<lambda>a b. bd_start (bds s a) \<le> bd_start (bds s b) \<and> a \<noteq> b) (heads ps)" by (rule sorted_distinct_wrt [OF assms(3,4)])
    then show "sorted_wrt (\<lambda>(v, k) (w, l). v + k \<le> w) ps"
      unfolding sorted_wrt_map
    proof (rule sorted_wrt_mono_rel [rotated])
      fix a b assume ab: "a \<in> set ps" "b \<in> set ps"
        "bd_start (bds s (case a of (v, k) \<Rightarrow> bd_at v 0)) \<le> bd_start (bds s (case b of (v, k) \<Rightarrow> bd_at v 0)) \<and>
          (case a of (v, k) \<Rightarrow> bd_at v 0) \<noteq> (case b of (v, k) \<Rightarrow> bd_at v 0)"
      obtain v k w l where e: "a = (v, k)" "b = (w, l)" by force
      have "v < w" using ab start [of v k] start [of w l] by (auto simp: e linorder_not_less [symmetric])
      moreover have "own w = Some (Mega w l Deferred)" using mem ab(2) by (simp add: e)
      moreover have "own x = Some (Mega v k Deferred)" if "v \<le> x" "x < v + k" for x using mem [of v k] ab(1) that by (auto simp: e mega_ok_def)
      ultimately show "(case a of (v, k) \<Rightarrow> \<lambda>(w, l). v + k \<le> w) b" unfolding e prod.case
        by (metis less_imp_le linorder_not_less mowner.inject(2) nat_neq_iff option.inject)
    qed
    fix c assume c: "c \<in> set ps"
    obtain v k where e: "c = (v, k)" by force
    note m = mem [of v k] and u = undefer_iff
    have "fresh (undefer s own d) v k" using m c by (auto simp: e fresh_def mega_ok_def undefer_def)
    then show "case c of (v, k) \<Rightarrow> fresh (undefer s own d) v k \<and> k > 0 \<and> (\<exists>d. mblock_init (bds s') v d) \<and>
      blocks_of s' (bd_at v 0) = MBLOCK_GROUP_BLOCKS k \<and> bd_node (bds s' (bd_at v 0)) = d"
      using m c assms(5) by (simp add: e init mega_ok_def)
  qed
  show "dom own = dom (undefer s own d) \<union> (\<Union>(v, k)\<in>set ps. {v..<v + k})" (is "_ = ?R")
  proof (intro equalityI subsetI)
    fix x assume "x \<in> dom own"
    then obtain g where g: "own x = Some g" by blast
    show "x \<in> ?R"
    proof (cases "undefer s own d x")
      case None
      then obtain v k where v: "own x = Some (Mega v k Deferred)" "bd_node (bds s (bd_at v 0)) = d"
        using g by (auto simp: undefer_def split: mowner.splits mstate.splits if_splits)
      have "own v = Some (Mega v k Deferred)" "v \<le> x" "x < v + k" using megaD [OF i(1) v(1)] mega_ok_head by auto
      moreover have "(v, k) \<in> set ps" unfolding set using i(7) [of v k d] v(2) calculation(1) by simp
      ultimately show ?thesis by force
    qed blast
  next
    fix x assume "x \<in> ?R"
    then show "x \<in> dom own"
    proof
      assume "x \<in> dom (undefer s own d)"
      then show ?thesis by (auto simp: undefer_def split: option.splits)
    next
      assume "x \<in> (\<Union>(v, k)\<in>set ps. {v..<v + k})"
      then show ?thesis using mem by (auto simp: mega_ok_def)
    qed
  qed
qed

lemma free_deferred_ok:
  assumes "ba_inv s own"
  shows "\<exists>s' own'. free_deferred_mega_groups d s = Some s' \<and> ba_inv s' own' \<and> dom own' = dom own \<and> allocs own' = allocs own \<and>
    n_alloc_blocks s' = n_alloc_blocks s \<and> defer_mblock_frees s' = defer_mblock_frees s \<and> n_numa_nodes s' = n_numa_nodes s \<and>
    deferred_free_mblock_list s' = (deferred_free_mblock_list s)(d := 0)"
proof -
  obtain MF MD where m: "minv s own MF MD" "\<And>d. gaps (MF d)" using assms by (auto simp: ba_inv_iff)
  note i = minvD [OF m(1)]
  have l: "lst s (deferred_free_mblock_list s d) (heads (MD d))" using i(5) [of d] by (simp add: mega_list_def)
  obtain q s1 ys where s1: "sortDeferredList (deferred_free_mblock_list s d) s = Some (q, s1)" "lst s1 q ys" "mset ys = mset (heads (MD d))"
    "sorted (map (\<lambda>a. bd_start (bds s a)) ys)" "relinks (set (heads (MD d))) s s1" using sortDeferredList_eq [OF l] by blast
  obtain ps where ps: "mset ps = mset (MD d)" "heads ps = ys" using perm_map [OF s1(3)] by blast
  note r = relinksD [OF s1(5)]
  define s2 where "s2 = s1\<lparr>deferred_free_mblock_list := (deferred_free_mblock_list s1)(d := 0)\<rparr>"
  note m2 = undefer_minv [OF m(1) s1(5), folded s2_def]
  have dist: "distinct (heads ps)" using chain_distinct [OF s1(2)] ps(2) by simp
  have st: "\<And>a. bd_start (bds s2 a) = bd_start (bds s a) \<and> bd_node (bds s2 a) = bd_node (bds s a) \<and> blocks_of s2 a = blocks_of s a"
    by (simp add: s2_def r)
  note w = undefer_waiting [OF m(1) ps(1) s1(4) [folded ps(2)] dist st]
  have l2: "lst s2 q (heads ps)" using s1(2) by (simp add: s2_def ps(2))
  have pos: "free_mblock_list s1 d = head_of (MF d)"
    using i(4) [of d] by (cases "MF d") (auto simp: mega_list_def r)
  have fe: "free_deferred_mega_groups d s = free_sorted_groups d q (last_of []) (head_of (MF d)) s2"
    by (simp add: free_deferred_mega_groups_def s1(1) s2_def pos last_of_def)
  have "MF d = [] @ MF d" by simp
  from free_sorted_groups_ok [OF m2 m(2) w(1) l2 this] obtain s3 own3 MF3 where
    f: "free_sorted_groups d q (last_of []) (head_of (MF d)) s2 = Some s3" "minv s3 own3 MF3 (MD(d := []))" "\<forall>d. gaps (MF3 d)"
      "dom own3 = dom (undefer s own d) \<union> (\<Union>(v, k)\<in>set ps. {v..<v + k})" "allocs own3 = allocs (undefer s own d)"
      "n_alloc_blocks s3 = n_alloc_blocks s2" "defer_mblock_frees s3 = defer_mblock_frees s2" "n_numa_nodes s3 = n_numa_nodes s2"
      "deferred_free_mblock_list s3 = deferred_free_mblock_list s2" by auto
  then have "ba_inv s3 own3" unfolding ba_inv_iff by blast
  then show ?thesis using f w(2) undefer_allocs unfolding fe
    by (intro exI [of _ s3] exI [of _ own3]) (simp add: s2_def r)
qed

section \<open>\<open>commitMBlockFreeing\<close>\<close>

lemma commit_nodes_ok:
  assumes "ba_inv s own"
  shows "\<exists>s' own'. fold (\<lambda>node r. case r of None \<Rightarrow> None | Some s \<Rightarrow> free_deferred_mega_groups node s) ds (Some s) = Some s' \<and>
    ba_inv s' own' \<and> dom own' = dom own \<and> allocs own' = allocs own \<and> n_alloc_blocks s' = n_alloc_blocks s \<and>
    defer_mblock_frees s' = defer_mblock_frees s \<and> n_numa_nodes s' = n_numa_nodes s \<and>
    deferred_free_mblock_list s' = (\<lambda>d. if d \<in> set ds then 0 else deferred_free_mblock_list s d)"
  using assms
proof (induction ds arbitrary: s own)
  case Nil
  then show ?case by (intro exI [of _ s] exI [of _ own]) simp
next
  case (Cons d ds)
  from free_deferred_ok [OF Cons.prems, of d] obtain s1 own1 where
    a: "free_deferred_mega_groups d s = Some s1" "ba_inv s1 own1" "dom own1 = dom own" "allocs own1 = allocs own" "n_alloc_blocks s1 = n_alloc_blocks s"
      "defer_mblock_frees s1 = defer_mblock_frees s" "n_numa_nodes s1 = n_numa_nodes s"
      "deferred_free_mblock_list s1 = (deferred_free_mblock_list s)(d := 0)" by blast
  from Cons.IH [OF a(2)] show ?case unfolding a(3-8) using a(1) by (auto simp: fun_eq_iff)
qed

lemma commitMBlockFreeing_ok:
  assumes "ba_inv s own" "defer_mblock_frees s"
  shows "\<exists>s' own'. commitMBlockFreeing s = Some s' \<and> ba_inv s' own' \<and> dom own' = dom own \<and> allocs own' = allocs own \<and>
    n_alloc_blocks s' = n_alloc_blocks s \<and> \<not> defer_mblock_frees s' \<and> n_numa_nodes s' = n_numa_nodes s \<and>
    deferred_free_mblock_list s' = (\<lambda>d. if d < n_numa_nodes s then 0 else deferred_free_mblock_list s d)"
proof -
  have "ba_inv (s\<lparr>defer_mblock_frees := False\<rparr>) own" using assms(1) by (simp add: ba_inv_def dlists_def megas_ok_def)
  from commit_nodes_ok [OF this, of "[0..<n_numa_nodes s]"] show ?thesis using assms(2) by (simp add: commitMBlockFreeing_def cong: if_cong)
qed

end
