(* ===== verification/BlockReturn.thy ===== *)
theory BlockReturn
  imports BlockGet
begin

text \<open>
  Returning free megablocks to the megablock allocator: what \<open>returnMemoryToOS\<close> gives back was free, is no longer
  managed, and nothing that could be given back is kept while more is wanted.
\<close>

text \<open>The megablocks that a call of \<open>freeMBlocks\<close>, and a list of them, gives back.\<close>

definition call_mblocks :: "nat \<times> nat \<Rightarrow> nat set" where
  "call_mblocks = (\<lambda>(a, k). {a div MBLOCK_SIZE..<a div MBLOCK_SIZE + k})"

definition given_back :: "(nat \<times> nat) list \<Rightarrow> nat set" where
  "given_back calls = (\<Union>c\<in>set calls. call_mblocks c)"

definition calls_ok :: "(nat \<times> nat) list \<Rightarrow> bool" where
  "calls_ok calls \<longleftrightarrow> (\<forall>(a, k) \<in> set calls. MBLOCK_SIZE dvd a \<and> 0 < k) \<and> sorted_wrt (\<lambda>c d. call_mblocks c \<inter> call_mblocks d = {}) calls"

lemma given_back_simps [simp]:
  "given_back [] = {}" "given_back (c # calls) = call_mblocks c \<union> given_back calls"
  "given_back (calls @ calls') = given_back calls \<union> given_back calls'"
  by (auto simp: given_back_def)

lemma finite_given_back: "finite (given_back calls)"
  by (auto simp: given_back_def call_mblocks_def split: prod.splits)

lemma calls_ok_append: "calls_ok (calls @ calls') \<longleftrightarrow> calls_ok calls \<and> calls_ok calls' \<and> given_back calls \<inter> given_back calls' = {}"
  unfolding calls_ok_def sorted_wrt_append given_back_def by auto

lemma ba_inv_freed [simp]: "ba_inv (s\<lparr>mblocks_freed := c\<rparr>) own = ba_inv s own"
  by (simp add: ba_inv_def dlists_def megas_ok_def)

text \<open>The loop works on the list from \<open>bd\<close> on, which becomes the list of the node in the end.\<close>

abbreviation listed_from :: "nat \<Rightarrow> nat \<Rightarrow> ba_state \<Rightarrow> ba_state" where
  "listed_from d bd s \<equiv> s\<lparr>free_mblock_list := (free_mblock_list s)(d := bd)\<rparr>"

definition returned :: "nat \<Rightarrow> ba_state \<Rightarrow> owners \<Rightarrow> nat \<Rightarrow> ba_state \<Rightarrow> owners \<Rightarrow> bool" where
  "returned n s own n' s' own' \<longleftrightarrow> allocs own' = allocs own \<and> n_alloc_blocks s' = n_alloc_blocks s \<and> defer_mblock_frees s' = defer_mblock_frees s \<and>
    n_numa_nodes s' = n_numa_nodes s \<and>
    (\<exists>calls. mblocks_freed s' = mblocks_freed s @ calls \<and> calls_ok calls \<and> given_back calls \<subseteq> dom own \<and> dom own' = dom own - given_back calls \<and>
      n = n' + card (given_back calls))"

lemma returned_refl: "returned n s own n s own"
  by (simp add: returned_def calls_ok_def)

lemma returned_trans:
  assumes "returned n s own n1 s1 own1" "returned n1 s1 own1 n2 s2 own2"
  shows "returned n s own n2 s2 own2"
proof -
  obtain c1 c2 where c: "mblocks_freed s1 = mblocks_freed s @ c1" "calls_ok c1" "given_back c1 \<subseteq> dom own" "dom own1 = dom own - given_back c1" "n = n1 + card (given_back c1)"
    "mblocks_freed s2 = mblocks_freed s1 @ c2" "calls_ok c2" "given_back c2 \<subseteq> dom own1" "dom own2 = dom own1 - given_back c2" "n1 = n2 + card (given_back c2)"
    using assms unfolding returned_def by blast
  have d: "given_back c1 \<inter> given_back c2 = {}" using c(4,8) by blast
  have "n = n2 + card (given_back (c1 @ c2))" using c(5,10) d finite_given_back by (simp add: card_Un_disjoint)
  moreover have "calls_ok (c1 @ c2)" using c(2,7) d by (simp add: calls_ok_append)
  ultimately show ?thesis using assms c(1,3,4,6,8,9) unfolding returned_def
    by (intro conjI exI [of _ "c1 @ c2"]) auto
qed

lemma returned_call:
  assumes "0 < k" "{v..<v + k} \<subseteq> dom own" "dom own = dom own' \<union> {v..<v + k}" "fresh own' v k" "allocs own' = allocs own"
    "mblocks_freed s' = mblocks_freed s @ [(v * MBLOCK_SIZE, k)]" "n_alloc_blocks s' = n_alloc_blocks s" "defer_mblock_frees s' = defer_mblock_frees s"
    "n_numa_nodes s' = n_numa_nodes s"
  shows "returned (n + k) s own n s' own'"
proof -
  have a: "v * MBLOCK_SIZE div MBLOCK_SIZE = v" by (simp add: MBLOCK_SIZE_def)
  have "dom own' \<inter> {v..<v + k} = {}" using assms(4) by (auto simp: fresh_def)
  then have "dom own' = dom own - {v..<v + k}" using assms(3) by auto
  then show ?thesis using assms unfolding returned_def by (intro conjI exI [of _ "[(v * MBLOCK_SIZE, k)]"]) (simp_all add: calls_ok_def call_mblocks_def a)
qed

lemma returned_freed_field: "returned n (listed_from d b s) own = returned n s own" "returned n s own n' (listed_from d b s') own' = returned n s own n' s' own'"
  by (simp_all add: returned_def fun_eq_iff)

lemma return_from_ok:
  assumes "ba_inv (listed_from d bd s) own"
  shows "\<exists>n' bd' s' own'. return_from n bd s = Some (n', bd', s') \<and> ba_inv (listed_from d bd' s') own' \<and> returned n s own n' s' own' \<and>
    free_mblock_list s' = free_mblock_list s \<and> (0 < n' \<longrightarrow> bd' = 0)"
  using assms
proof (induction n arbitrary: bd s own rule: less_induct)
  case (less n)
  show ?case
  proof (cases "n > 0 \<and> bd \<noteq> 0")
    case False
    then have "return_from n bd s = Some (n, bd, s)" by (subst return_from.simps) auto
    moreover have "0 < n \<longrightarrow> bd = 0" using False by auto
    ultimately show ?thesis using less.prems returned_refl [of n s own] by blast
  next
    case True
    let ?s = "listed_from d bd s"
    obtain MF MD where m: "minv ?s own MF MD" "\<And>d. gaps (MF d)" using less.prems [unfolded ba_inv_iff] by blast
    have ml: "mega_list (bds s) bd (MF d)" using minvD(4) [OF m(1), of d] by (simp add: mega_list_def)
    then obtain v k B where B: "MF d = (v, k) # B" "bd = bd_at v 0" using True by (cases "MF d") (auto simp: mega_list_def)
    have own: "own v = Some (Mega v k Listed)" using minvD(6) [OF m(1), of v k d] B(1) by simp
    have ok: "mega_ok (bds s) own v k Listed" using megaD(3) [OF minvD(1) [OF m(1)] own] by simp
    then have k: "k > 0" "blocks_of s bd = MBLOCK_GROUP_BLOCKS k" "start_of s bd = block_at v 0" "{v..<v + k} \<subseteq> dom own"
      by (auto simp: mega_ok_def mblock_init_def B(2))
    have size: "BLOCKS_TO_MBLOCKS (blocks_of s bd) = k" using k(1,2) by simp
    have addr: "MBLOCK_ROUND_DOWN (start_of s bd) = v * MBLOCK_SIZE" using k(3) by (simp add: MBLOCK_ROUND_DOWN_def block_at_def ba_consts)
    show ?thesis
    proof (cases "k > n")
      case cut: True
      have mem: "(v, k) \<in> set (mlist Listed MF MD d)" by (simp add: B(1))
      note c = cut_limbo [OF m mem _ _ cut]
      let ?f = "\<lambda>b. b\<lparr>bd_blocks := MBLOCK_GROUP_BLOCKS (k - n)\<rparr>"
      let ?s1 = "(upd_bd bd ?f s)\<lparr>mblocks_freed := mblocks_freed s @ [((v + (k - n)) * MBLOCK_SIZE, n)]\<rparr>"
      have "return_from n bd s = return_from 0 bd ?s1"
        using True cut by (subst return_from.simps) (simp add: size addr Let_def distrib_right upd_bd_def del: Nat.add_diff_assoc Nat.add_diff_assoc2)
      also have "\<dots> = Some (0, bd, ?s1)" by (subst return_from.simps) simp
      finally have r: "return_from n bd s = Some (0, bd, ?s1)" .
      have "listed_from d bd ?s1 = (upd_bd bd ?f ?s)\<lparr>mblocks_freed := mblocks_freed s @ [((v + (k - n)) * MBLOCK_SIZE, n)]\<rparr>"
        by (simp add: upd_bd_def)
      then have i: "ba_inv (listed_from d bd ?s1) (cut_mega own v k n Listed)" using c(1) True by (simp add: B(2))
      have "returned (0 + n) s own 0 ?s1 (cut_mega own v k n Listed)"
        by (rule returned_call [of n "v + (k - n)"]) (use c(2-4) True k(4) cut in \<open>auto simp: upd_bd_def\<close>)
      moreover have "free_mblock_list ?s1 = free_mblock_list s" by (simp add: upd_bd_def)
      ultimately show ?thesis using r i by (metis add_0 less_irrefl)
    next
      case whole: False
      have mem: "mlist Listed MF MD d = [] @ (v, k) # B" by (simp add: B(1))
      note u = unlink_limbo [OF m mem]
      let ?s1 = "s\<lparr>mblocks_freed := mblocks_freed s @ [(v * MBLOCK_SIZE, k)]\<rparr>" and ?own = "disown own v k"
      have r: "return_from n bd s = return_from (n - k) (link_of s bd) ?s1"
        using True whole by (subst return_from.simps) (simp add: size addr Let_def)
      have "unlink Listed d (last_of []) (bd_at v 0) ?s = listed_from d (link_of s bd) s" by (simp add: unlink_def last_of_def B(2))
      then have "ba_inv (listed_from d (link_of s bd) s) ?own" using u(1) by (simp add: limbo_def)
      then have i: "ba_inv (listed_from d (link_of s bd) ?s1) ?own" by (simp add: ba_inv_def dlists_def megas_ok_def)
      have "n - k < n" using True k(1) by simp
      from less.IH [OF this i] obtain n' bd' s' own' where ih: "return_from (n - k) (link_of s bd) ?s1 = Some (n', bd', s')"
        "ba_inv (listed_from d bd' s') own'" "returned (n - k) ?s1 ?own n' s' own'" "free_mblock_list s' = free_mblock_list ?s1" "0 < n' \<longrightarrow> bd' = 0" by blast
      have "returned (n - k + k) s own (n - k) ?s1 ?own"
        by (rule returned_call [of k v]) (use u(2,3) k(1,4) in \<open>auto simp: fresh_def disown_def\<close>)
      then have "returned n s own n' s' own'" using returned_trans [OF _ ih(3)] whole by simp
      moreover have "free_mblock_list s' = free_mblock_list s" using ih(4) by simp
      ultimately show ?thesis using r ih(1,2,5) by metis
    qed
  qed
qed

lemma return_nodes_ok:
  assumes "ba_inv s own" "distinct ds"
  shows "\<exists>n' s' own'. fold (\<lambda>node r. case r of
               None \<Rightarrow> None
             | Some (n, s) \<Rightarrow>
                 if n > 0
                 then map_option (\<lambda>(n, bd, s). (n, s\<lparr>free_mblock_list := (free_mblock_list s)(node := bd)\<rparr>))
                        (return_from n (free_mblock_list s node) s)
                 else Some (n, s)) ds (Some (n, s)) = Some (n', s') \<and>
    ba_inv s' own' \<and> returned n s own n' s' own' \<and> (\<forall>d. d \<notin> set ds \<longrightarrow> free_mblock_list s' d = free_mblock_list s d) \<and>
    (0 < n' \<longrightarrow> (\<forall>d \<in> set ds. free_mblock_list s' d = 0))"
    (is "\<exists>n' s' own'. fold ?F ds (Some (n, s)) = _ \<and> _")
  using assms
proof (induction ds arbitrary: n s own)
  case Nil
  then show ?case using returned_refl [of n s own] by auto
next
  case (Cons d ds)
  show ?case
  proof (cases "n > 0")
    case True
    have "ba_inv (listed_from d (free_mblock_list s d) s) own" using Cons.prems(1) by simp
    from return_from_ok [OF this, of n] obtain n1 bd s1 own1 where r: "return_from n (free_mblock_list s d) s = Some (n1, bd, s1)"
      "ba_inv (listed_from d bd s1) own1" "returned n s own n1 s1 own1" "free_mblock_list s1 = free_mblock_list s" "0 < n1 \<longrightarrow> bd = 0" by blast
    let ?s1 = "listed_from d bd s1"
    have step: "?F d (Some (n, s)) = Some (n1, ?s1)" using True r(1) by simp
    from Cons.IH [OF r(2), of n1] Cons.prems(2) obtain n' s' own' where ih: "fold ?F ds (Some (n1, ?s1)) = Some (n', s')" "ba_inv s' own'"
      "returned n1 ?s1 own1 n' s' own'" "\<forall>e. e \<notin> set ds \<longrightarrow> free_mblock_list s' e = free_mblock_list ?s1 e"
      "0 < n' \<longrightarrow> (\<forall>e \<in> set ds. free_mblock_list s' e = 0)" by auto
    have "returned n s own n' s' own'" using returned_trans [OF r(3)] ih(3) by (simp add: returned_freed_field)
    moreover have "n' \<le> n1" using ih(3) by (auto simp: returned_def)
    moreover have "\<forall>e. e \<notin> set (d # ds) \<longrightarrow> free_mblock_list s' e = free_mblock_list s e" using ih(4) r(4) by simp
    moreover have "free_mblock_list s' d = bd" using ih(4) Cons.prems(2) by simp
    moreover have "fold ?F (d # ds) (Some (n, s)) = Some (n', s')" unfolding fold_simps step using ih(1) .
    ultimately show ?thesis using ih(2,5) r(5) by (intro exI [of _ n'] exI [of _ s'] exI [of _ own']) auto
  next
    case False
    then have step: "?F d (Some (n, s)) = Some (n, s)" by simp
    from Cons.IH [OF Cons.prems(1), of n] Cons.prems(2) obtain n' s' own' where ih: "fold ?F ds (Some (n, s)) = Some (n', s')" "ba_inv s' own'"
      "returned n s own n' s' own'" "\<forall>e. e \<notin> set ds \<longrightarrow> free_mblock_list s' e = free_mblock_list s e" by auto
    have "n' = 0" using ih(3) False by (auto simp: returned_def)
    moreover have "fold ?F (d # ds) (Some (n, s)) = Some (n', s')" unfolding fold_simps step using ih(1) .
    ultimately show ?thesis using ih(2-4) by (intro exI [of _ n'] exI [of _ s'] exI [of _ own']) auto
  qed
qed

lemma returnMemoryToOS_ok:
  assumes "ba_inv s own"
  obtains r s' own' where "returnMemoryToOS n s = Some (r, s')" "ba_inv s' own'" "r \<le> n" "returned n s own (n - r) s' own'"
    "r < n \<Longrightarrow> \<forall>d < n_numa_nodes s. free_mblock_list s' d = 0"
proof -
  from return_nodes_ok [OF assms, of "[0..<n_numa_nodes s]" n] obtain n' s' own' where
    r: "returnMemoryToOS n s = Some (n - n', s')" "ba_inv s' own'" "returned n s own n' s' own'"
      "0 < n' \<longrightarrow> (\<forall>d \<in> set [0..<n_numa_nodes s]. free_mblock_list s' d = 0)"
    by (auto simp: returnMemoryToOS_def simp del: fold.simps)
  have "n' \<le> n" using r(3) by (auto simp: returned_def)
  then show thesis using r by (intro that [of "n - n'" s' own']) auto
qed

end
