(* ===== verification/BlockHistory.thy ===== *)
theory BlockHistory
  imports BlockSplit BlockDefer BlockReturn
begin

text \<open>
  The block allocator as its clients see it: what an allocated group is, histories of calls, and the properties
  that hold after each of them.
\<close>

section \<open>Allocated groups\<close>

text \<open>The memory of a group.\<close>

definition memory_of :: "ba_state \<Rightarrow> nat \<Rightarrow> nat set" where
  "memory_of s p = {bd_start (bds s p)..<bd_start (bds s p) + blocks_of s p * BLOCK_SIZE}"

text \<open>The memory of a group lies in its megablocks.\<close>

lemma alloc_memory:
  assumes "ba_inv s own" "(p, n) \<in> allocs own" "x \<in> memory_of s p"
  shows "\<exists>g. own (x div MBLOCK_SIZE) = Some g \<and>
    (case g of Split L \<Rightarrow> \<exists>L1 L2. L = L1 @ (n, False) # L2 \<and> p = bd_at (x div MBLOCK_SIZE) (size_of L1) \<and>
        block_at (x div MBLOCK_SIZE) (size_of L1) \<le> x \<and> x < block_at (x div MBLOCK_SIZE) (size_of L1 + n)
      | Mega v k st \<Rightarrow> p = bd_at v 0)"
  using assms(1,2)
proof (cases rule: alloc_cases)
  case (split u L1 L2)
  have x: "block_at u (size_of L1) \<le> x" "x < block_at u (size_of L1 + n)"
    using assms(3) split by (simp_all add: memory_of_def block_at_def algebra_simps)
  have "x div MBLOCK_SIZE = u"
    by (rule div_nat_eqI) (use x split(4) in \<open>auto simp: block_at_def ba_consts\<close>)
  then show ?thesis using split x by auto
next
  case (mega v k)
  have x: "block_at v 0 \<le> x" "x < block_at v 0 + MBLOCK_GROUP_BLOCKS k * BLOCK_SIZE"
    using assms(3) mega by (simp_all add: memory_of_def)
  have "block_at v 0 + MBLOCK_GROUP_BLOCKS k * BLOCK_SIZE = (v + k) * MBLOCK_SIZE"
    using mega(4) by (cases k) (simp_all add: block_at_def ba_macros ba_consts algebra_simps)
  then have "v \<le> x div MBLOCK_SIZE" "x div MBLOCK_SIZE < v + k"
    using x by (auto simp: block_at_def less_eq_div_iff_mult_less_eq div_less_iff_less_mult ba_consts)
  moreover have "mega_ok (bds s) own v k Busy" using assms(1) mega(1) megaD(3) by (auto simp: ba_inv_def)
  ultimately have "own (x div MBLOCK_SIZE) = Some (Mega v k Busy)" by (simp add: mega_ok_def)
  then show ?thesis using mega(2) by simp
qed

text \<open>The descriptor of every block is found from any address in it.\<close>

lemma Bdescr_block:
  assumes "j < BLOCKS_PER_MBLOCK" "x < BLOCK_SIZE"
  shows "Bdescr (block_at u j + x) = bd_at u j"
proof -
  have b: "block_at u j + x = u * MBLOCK_SIZE + ((4 + j) * 4096 + x)" "(4 + j) * 4096 + x < MBLOCK_SIZE" "x < 4096"
    using assms by (simp_all add: block_at_def ba_consts)
  then have "(block_at u j + x) mod MBLOCK_SIZE = (4 + j) * 4096 + x" "(block_at u j + x) div MBLOCK_SIZE = u"
    unfolding b(1) by simp_all
  moreover have "((4 + j) * 4096 + x) div 4096 = 4 + j" using b(3) by (intro div_nat_eqI) auto
  moreover have "(4 + j) * 4096 div 64 = (4 + j) * 64" by simp
  ultimately show ?thesis unfolding Bdescr_def by (simp add: bd_at_def ba_consts)
qed

lemma alloc_Bdescr:
  assumes "ba_inv s own" "(p, n) \<in> allocs own"
  shows "Bdescr (bd_start (bds s p)) = p"
  using assms
proof (cases rule: alloc_cases)
  case (split u L1 L2)
  then show ?thesis using Bdescr_block [of "size_of L1" 0 u] by (simp add: ba_consts)
next
  case (mega v k)
  then show ?thesis using Bdescr_block [of 0 0 v] by (simp add: ba_consts)
qed

lemma positions_disjoint:
  assumes "L1 @ (n, f) # L2 = K1 @ (m, g) # K2" "block_at u (size_of L1) \<le> x" "x < block_at u (size_of L1 + n)"
    "block_at u (size_of K1) \<le> x" "x < block_at u (size_of K1 + m)"
  shows "size_of L1 = size_of K1"
proof -
  have lt: "a < b" if "block_at u a \<le> x" "x < block_at u b" for a b
  proof (rule ccontr)
    assume "\<not> a < b"
    then have "block_at u b \<le> block_at u a" by (simp add: block_at_def ba_consts)
    with that show False by simp
  qed
  have a: "size_of L1 < size_of K1 + m" by (rule lt [OF assms(2,5)])
  have b: "size_of K1 < size_of L1 + n" by (rule lt [OF assms(4,3)])
  from assms(1) obtain us where "L1 = K1 @ us \<and> us @ (n, f) # L2 = (m, g) # K2 \<or> L1 @ us = K1 \<and> (n, f) # L2 = us @ (m, g) # K2"
    unfolding append_eq_append_conv2 by blast
  then show ?thesis using a b by (cases us) auto
qed

lemma allocs_disjoint:
  assumes "ba_inv s own" "(p, n) \<in> allocs own" "(q, k) \<in> allocs own" "p \<noteq> q"
  shows "memory_of s p \<inter> memory_of s q = {}"
proof (rule ccontr)
  assume "memory_of s p \<inter> memory_of s q \<noteq> {}"
  then obtain x where x: "x \<in> memory_of s p" "x \<in> memory_of s q" by blast
  obtain g where g: "own (x div MBLOCK_SIZE) = Some g" using alloc_memory [OF assms(1,2) x(1)] by blast
  show False
  proof (cases g)
    case (Split L)
    then show False using alloc_memory [OF assms(1,2) x(1)] alloc_memory [OF assms(1,3) x(2)] g assms(4) positions_disjoint by fastforce
  next
    case (Mega v k st)
    then show False using alloc_memory [OF assms(1,2) x(1)] alloc_memory [OF assms(1,3) x(2)] g assms(4) by simp
  qed
qed

section \<open>Histories of calls\<close>

text \<open>
  \<open>ba_history s G U\<close>: calls have led from the initialised allocator to \<open>s\<close>; \<open>G\<close> are the groups that have been handed out
  and not been freed, \<open>U\<close> the megablocks that have been obtained from \<open>getMBlocks\<close> and not been given back; it is asked for exactly as
  many as the state needs, and what it returns is not in use.
\<close>

inductive ba_history :: "ba_state \<Rightarrow> nat set \<Rightarrow> nat set \<Rightarrow> bool" where
  start: "deferred_free_mblock_list s = (\<lambda>_. 0) \<Longrightarrow> ba_history (initBlockAllocator s) {} {}"
| alloc: "ba_history s G U \<Longrightarrow> 0 < n \<Longrightarrow> {m..<m + group_request d n s} \<inter> U = {} \<Longrightarrow>
    allocGroupOnNode (m * MBLOCK_SIZE) d n s = Some (p, s') \<Longrightarrow> ba_history s' (insert p G) (U \<union> {m..<m + group_request d n s})"
| large: "ba_history s G U \<Longrightarrow> 0 < lo \<Longrightarrow> lo \<le> hi \<Longrightarrow> hi < 2 ^ 64 \<Longrightarrow> {m..<m + chunk_request d lo hi s} \<inter> U = {} \<Longrightarrow>
    allocLargeChunkOnNode (m * MBLOCK_SIZE) d lo hi s = Some (p, s') \<Longrightarrow> ba_history s' (insert p G) (U \<union> {m..<m + chunk_request d lo hi s})"
| aligned: "ba_history s G U \<Longrightarrow> 0 < n \<Longrightarrow> {m..<m + aligned_request d n s} \<inter> U = {} \<Longrightarrow>
    allocAlignedGroupOnNode (m * MBLOCK_SIZE) d n s = Some (p, s') \<Longrightarrow> ba_history s' (insert p G) (U \<union> {m..<m + aligned_request d n s})"
| free: "ba_history s G U \<Longrightarrow> p \<in> G \<Longrightarrow> freeGroup p s = Some s' \<Longrightarrow> ba_history s' (G - {p}) U"
| postpone: "ba_history s G U \<Longrightarrow> deferMBlockFreeing s = Some s' \<Longrightarrow> ba_history s' G U"
| commit: "ba_history s G U \<Longrightarrow> commitMBlockFreeing s = Some s' \<Longrightarrow> ba_history s' G U"
| give_back: "ba_history s G U \<Longrightarrow> returnMemoryToOS n s = Some (r, s') \<Longrightarrow> mblocks_freed s' = mblocks_freed s @ calls \<Longrightarrow>
    ba_history s' G (U - given_back calls)"

text \<open>What the allocator knows of the groups that are in use.\<close>

definition ba_knows :: "ba_state \<Rightarrow> owners \<Rightarrow> nat set \<Rightarrow> nat set \<Rightarrow> bool" where
  "ba_knows s own G U \<longleftrightarrow> ba_inv s own \<and> finite (allocs own) \<and> G = fst ` allocs own \<and> dom own = U \<and>
    n_alloc_blocks s = (\<Sum>(p, n)\<in>allocs own. counted n)"

lemma ba_init: "deferred_free_mblock_list s = (\<lambda>_. 0) \<Longrightarrow> ba_inv (initBlockAllocator s) Map.empty"
  unfolding ba_inv_def
  by (intro conjI exI [of _ "\<lambda>_ _. []"] exI [of _ "\<lambda>_. []"])
    (simp_all add: mblocks_ok_def coalesced_def dlists_def members_def all_free_def megas_ok_def mega_list_def initBlockAllocator_def)

lemma knows_grow:
  assumes "ba_knows s own G U" "ba_inv s' own'" "allocs own' = insert (p, k) (allocs own)" "dom own' = dom own \<union> V"
    "n_alloc_blocks s' = n_alloc_blocks s + counted k" "p \<notin> fst ` allocs own"
  shows "ba_knows s' own' (insert p G) (U \<union> V)"
proof -
  have "(p, k) \<notin> allocs own" using assms(6) by force
  then show ?thesis using assms(1-5) by (auto simp: ba_knows_def)
qed

lemma knows_shrink:
  assumes "ba_knows s own G U" "(p, n) \<in> allocs own" "ba_inv s' own'" "allocs own' = allocs own - {(p, n)}" "dom own' = dom own"
    "n_alloc_blocks s' = n_alloc_blocks s - counted n"
  shows "ba_knows s' own' (G - {p}) U"
proof -
  have "m = n" if "(p, m) \<in> allocs own" for m using alloc_unique [of s own p m n] that assms(1,2) by (auto simp: ba_knows_def)
  then have "fst ` (allocs own - {(p, n)}) = fst ` allocs own - {p}" by force
  moreover have "(\<Sum>(p, n)\<in>allocs own - {(p, n)}. counted n) = (\<Sum>(p, n)\<in>allocs own. counted n) - counted n"
    using assms(1,2) by (subst sum_diff1_nat) (auto simp: ba_knows_def)
  ultimately show ?thesis using assms by (simp add: ba_knows_def)
qed

lemma fresh_outside: "ba_knows s own G U \<Longrightarrow> {m..<m + k} \<inter> U = {} \<Longrightarrow> fresh own m k"
  by (force simp: ba_knows_def fresh_def)

lemma history_knows: "ba_history s G U \<Longrightarrow> \<exists>own. ba_knows s own G U"
proof (induction rule: ba_history.induct)
  case (start s)
  then have "ba_inv (initBlockAllocator s) Map.empty" by (rule ba_init)
  then show ?case by (intro exI [of _ Map.empty]) (simp add: ba_knows_def allocs_def initBlockAllocator_def)
next
  case (alloc s G U n m d p s')
  then obtain own where k: "ba_knows s own G U" by blast
  then have i: "ba_inv s own" by (simp add: ba_knows_def)
  from allocGroupOnNode_ok [OF i alloc.hyps(2) fresh_outside [OF k alloc.hyps(3)]] obtain p1 s1 own1 where
    a: "allocGroupOnNode (m * MBLOCK_SIZE) d n s = Some (p1, s1)" "ba_inv s1 own1" "allocs own1 = insert (p1, granted n) (allocs own)"
      "dom own1 = dom own \<union> {m..<m + group_request d n s}" "n_alloc_blocks s1 = n_alloc_blocks s + counted n"
      "defer_mblock_frees s1 = defer_mblock_frees s" "p1 \<notin> fst ` allocs own" .
  have "p1 = p" "s1 = s'" using a(1) alloc.hyps(4) by simp_all
  then show ?case using knows_grow [OF k a(2-4) _ a(7)] a(5) by auto
next
  case (large s G U lo hi m d p s')
  then obtain own where k: "ba_knows s own G U" by blast
  then have i: "ba_inv s own" by (simp add: ba_knows_def)
  from allocLargeChunkOnNode_ok [OF i large.hyps(2-4) fresh_outside [OF k large.hyps(5)]] obtain p1 n1 s1 own1 where
    a: "allocLargeChunkOnNode (m * MBLOCK_SIZE) d lo hi s = Some (p1, s1)" "ba_inv s1 own1" "allocs own1 = insert (p1, n1) (allocs own)"
      "dom own1 = dom own \<union> {m..<m + chunk_request d lo hi s}" "n_alloc_blocks s1 = n_alloc_blocks s + counted n1" "p1 \<notin> fst ` allocs own" .
  have "p1 = p" "s1 = s'" using a(1) large.hyps(6) by simp_all
  then show ?case using knows_grow [OF k a(2-6)] by auto
next
  case (aligned s G U n m d p s')
  then obtain own where k: "ba_knows s own G U" by blast
  then have i: "ba_inv s own" by (simp add: ba_knows_def)
  have n: "2 * n - 1 < BLOCKS_PER_MBLOCK" using aligned.hyps(4) by (rule contrapos_pp) (simp add: allocAlignedGroupOnNode_def Let_def)
  from allocAlignedGroupOnNode_ok [OF i aligned.hyps(2) n fresh_outside [OF k aligned.hyps(3)]] obtain p1 s1 own1 where
    a: "allocAlignedGroupOnNode (m * MBLOCK_SIZE) d n s = Some (p1, s1)" "ba_inv s1 own1" "allocs own1 = insert (p1, n) (allocs own)"
      "dom own1 = dom own \<union> {m..<m + aligned_request d n s}" "n_alloc_blocks s1 = n_alloc_blocks s + n" "p1 \<notin> fst ` allocs own" .
  have "counted n = n" using n by (intro counted_small) (simp add: ba_consts)
  moreover have "p1 = p" "s1 = s'" using a(1) aligned.hyps(4) by simp_all
  ultimately show ?case using knows_grow [OF k a(2-4) _ a(6)] a(5) by auto
next
  case (free s G U p s')
  then obtain own where k: "ba_knows s own G U" by blast
  then obtain n where n: "(p, n) \<in> allocs own" using free.hyps(2) by (auto simp: ba_knows_def)
  have i: "ba_inv s own" using k by (simp add: ba_knows_def)
  from freeGroup_ok [OF i n] obtain s1 own1 where f: "freeGroup p s = Some s1" "ba_inv s1 own1" "allocs own1 = allocs own - {(p, n)}" "dom own1 = dom own"
    "n_alloc_blocks s1 = n_alloc_blocks s - counted n" "defer_mblock_frees s1 = defer_mblock_frees s" .
  then show ?case using knows_shrink [OF k n f(2-5)] free.hyps(3) by auto
next
  case (postpone s G U s')
  then obtain own where k: "ba_knows s own G U" by blast
  have s': "s' = s\<lparr>defer_mblock_frees := True\<rparr>" using postpone.hyps(2) by (auto simp: deferMBlockFreeing_def split: if_splits)
  have "ba_inv s' own = ba_inv s own" by (simp add: ba_inv_def dlists_def megas_ok_def s')
  then show ?case using k by (auto simp: ba_knows_def s')
next
  case (commit s G U s')
  then obtain own where k: "ba_knows s own G U" by blast
  then have i: "ba_inv s own" by (simp add: ba_knows_def)
  have d: "defer_mblock_frees s" using commit.hyps(2) by (auto simp: commitMBlockFreeing_def split: if_splits)
  from commitMBlockFreeing_ok [OF i d] commit.hyps(2) obtain own' where
    "ba_inv s' own'" "dom own' = dom own" "allocs own' = allocs own" "n_alloc_blocks s' = n_alloc_blocks s" by auto
  then have "ba_knows s' own' G U" using k by (simp add: ba_knows_def)
  then show ?case by blast
next
  case (give_back s G U n r s' calls)
  then obtain own where k: "ba_knows s own G U" by blast
  then have i: "ba_inv s own" by (simp add: ba_knows_def)
  from returnMemoryToOS_ok [OF i, of n] obtain r1 s1 own1 where
    f: "returnMemoryToOS n s = Some (r1, s1)" "ba_inv s1 own1" "returned n s own (n - r1) s1 own1" by metis
  have s: "s1 = s'" using f(1) give_back.hyps(2) by simp
  have "allocs own1 = allocs own" "n_alloc_blocks s' = n_alloc_blocks s" "dom own1 = dom own - given_back calls"
    using f(3) give_back.hyps(3) by (auto simp: returned_def s)
  then have "ba_knows s' own1 G (U - given_back calls)" using k f(2) by (auto simp: ba_knows_def s)
  then show ?case by blast
qed

section \<open>The properties\<close>

text \<open>An allocator that has just been initialised, and the next call in a history.\<close>

definition new_allocator :: ba_state where
  "new_allocator = initBlockAllocator
    \<lparr>bds = \<lambda>_. \<lparr>bd_start = 0, bd_free = 0, bd_link = 0, bd_back = 0, bd_gen = 0, bd_gen_no = 0, bd_node = 0, bd_blocks = 0\<rparr>,
     free_list = \<lambda>_ _. 0, free_mblock_list = \<lambda>_. 0, defer_mblock_frees = False, deferred_free_mblock_list = \<lambda>_. 0,
     n_alloc_blocks = 0, hw_alloc_blocks = 0, n_alloc_blocks_by_node = \<lambda>_. 0, n_numa_nodes = 1, mblocks_freed = []\<rparr>"

lemma new_history: "ba_history new_allocator {} {}"
  unfolding new_allocator_def by (rule ba_history.start) simp

lemma new_allocator_inv: "ba_inv new_allocator Map.empty"
  unfolding new_allocator_def by (rule ba_init) simp

lemma no_allocs: "allocs Map.empty = {}" "fresh Map.empty m k" "n_alloc_blocks new_allocator = 0"
  by (simp_all add: allocs_def fresh_def new_allocator_def initBlockAllocator_def)

lemma history_alloc:
  assumes "ba_history s G U" "0 < n" "{m..<m + group_request d n s} \<inter> U = {}"
  shows "\<exists>p s'. allocGroupOnNode (m * MBLOCK_SIZE) d n s = Some (p, s') \<and> p \<notin> G \<and> ba_history s' (insert p G) (U \<union> {m..<m + group_request d n s})"
proof -
  obtain own where k: "ba_knows s own G U" using history_knows [OF assms(1)] by blast
  then have i: "ba_inv s own" and G: "G = fst ` allocs own" by (auto simp: ba_knows_def)
  from allocGroupOnNode_ok [OF i assms(2) fresh_outside [OF k assms(3)]] show ?thesis
    using ba_history.alloc [OF assms] unfolding G by metis
qed

lemma request_le: "mega_request d k s \<le> k" "group_request d n s \<le> BLOCKS_TO_MBLOCKS n"
proof -
  show r: "mega_request d k s \<le> k" for k by (simp add: mega_request_def split: option.split)
  have "0 < BLOCKS_TO_MBLOCKS n" by (rule BLOCKS_TO_MBLOCKS_fits)
  then show "group_request d n s \<le> BLOCKS_TO_MBLOCKS n"
    using r [of 1] r [of "BLOCKS_TO_MBLOCKS n"] unfolding group_request_def by (auto intro: order.trans)
qed

lemma two_groups: "\<exists>s p q U. ba_history s {p, q} U \<and> p \<noteq> q"
proof -
  have m: "BLOCKS_TO_MBLOCKS 3 = 1" "BLOCKS_TO_MBLOCKS 5 = 1" by (simp_all add: BLOCKS_TO_MBLOCKS_eq)
  obtain p s where s: "ba_history s {p} {1..<1 + group_request 0 3 new_allocator}" using history_alloc [OF new_history, of 3 1 0] by auto
  have "group_request 0 3 new_allocator \<le> 1" using request_le(2) [of 0 3] m by simp
  then have "{2..<2 + group_request 0 5 s} \<inter> {1..<1 + group_request 0 3 new_allocator} = {}" by auto
  from history_alloc [OF s _ this] obtain q s' U where "q \<noteq> p" "ba_history s' {q, p} U" by auto
  then show ?thesis by blast
qed

text \<open>C9 \<open>allocGroupOnNode\<close> succeeds on every request: it returns a group that was not allocated before, of the size asked
  for or of the whole megablocks that hold it, and every other group stays allocated; the invariant is kept, exactly the
  megablocks that \<open>getMBlocks\<close> gives are added, and the count of blocks grows by what the group counts for.
\<close>

theorem allocGroupOnNode_correct:
  assumes "ba_inv s own" "0 < n" "fresh own m (group_request d n s)"
  shows "\<exists>p s' own'. allocGroupOnNode (m * MBLOCK_SIZE) d n s = Some (p, s') \<and> ba_inv s' own' \<and> p \<notin> fst ` allocs own \<and>
    allocs own' = insert (p, granted n) (allocs own) \<and> n \<le> granted n \<and> blocks_of s' p = granted n \<and>
    dom own' = dom own \<union> {m..<m + group_request d n s} \<and> n_alloc_blocks s' = n_alloc_blocks s + counted n"
proof -
  from allocGroupOnNode_ok [OF assms] obtain p s' own' where a: "allocGroupOnNode (m * MBLOCK_SIZE) d n s = Some (p, s')" "ba_inv s' own'"
    "allocs own' = insert (p, granted n) (allocs own)" "dom own' = dom own \<union> {m..<m + group_request d n s}"
    "n_alloc_blocks s' = n_alloc_blocks s + counted n" "p \<notin> fst ` allocs own" .
  moreover have "blocks_of s' p = granted n" using alloc_blocks [OF a(2)] a(3) by blast
  moreover have "n \<le> granted n" using BLOCKS_TO_MBLOCKS_fits(2) by (simp add: granted_def)
  ultimately show ?thesis by blast
qed

theorem allocGroupOnNode_correct_witness:
  "\<exists>p s' own'. allocGroupOnNode (7 * MBLOCK_SIZE) 0 300 new_allocator = Some (p, s') \<and> ba_inv s' own' \<and> allocs own' = {(p, 508)} \<and>
    n_alloc_blocks s' = 504"
proof -
  have "granted 300 = 508" "counted 300 = 504"
    by (simp_all add: granted_def counted_def BLOCKS_TO_MBLOCKS_eq ba_consts ba_macros)
  moreover have "(0 :: nat) < 300" by simp
  ultimately show ?thesis
    using allocGroupOnNode_correct [OF new_allocator_inv _ no_allocs(2), of 300 7 0] unfolding no_allocs by force
qed

text \<open>C10 Freeing any allocated group succeeds: that group is no longer allocated, all others still are, no free group
  lies beside another in a megablock nor beside another on the list of free megablocks, and the count of blocks goes down by
  what the group counted for.
\<close>

theorem freeGroup_correct:
  assumes "ba_inv s own" "(p, n) \<in> allocs own"
  shows "\<exists>s' own'. freeGroup p s = Some s' \<and> ba_inv s' own' \<and> coalesced own' \<and> allocs own' = allocs own - {(p, n)} \<and> dom own' = dom own \<and>
    n_alloc_blocks s' = n_alloc_blocks s - counted n"
  using freeGroup_ok [OF assms] unfolding ba_inv_def by metis

theorem freeGroup_correct_witness:
  "\<exists>p s own s' own'. allocGroupOnNode (7 * MBLOCK_SIZE) 0 3 new_allocator = Some (p, s) \<and> allocs own = {(p, 3)} \<and>
    freeGroup p s = Some s' \<and> ba_inv s' own' \<and> allocs own' = {}"
proof -
  have g: "granted 3 = 3" "(0 :: nat) < 3" by (simp_all add: granted_def ba_consts)
  from allocGroupOnNode_ok [OF new_allocator_inv g(2) no_allocs(2), of 7 0, unfolded no_allocs g(1)] obtain p s own where
    a: "allocGroupOnNode (7 * MBLOCK_SIZE) 0 3 new_allocator = Some (p, s)" "ba_inv s own" "allocs own = {(p, 3)}" .
  then have "(p, 3) \<in> allocs own" by simp
  from freeGroup_correct [OF a(2) this] show ?thesis using a(1,3) by fastforce
qed

text \<open>C3 Whatever sequence of allocations, aligned ones and those of any size within bounds included, and of frees has led to
  a state, the groups that have been handed out and not freed occupy disjoint memory.
\<close>

theorem groups_never_overlap:
  assumes "ba_history s G U" "p \<in> G" "q \<in> G" "p \<noteq> q"
  shows "memory_of s p \<inter> memory_of s q = {}"
  using history_knows [OF assms(1)] assms(2-4) allocs_disjoint by (fastforce simp: ba_knows_def)

theorem groups_never_overlap_witness:
  "\<exists>s p q U. ba_history s {p, q} U \<and> p \<noteq> q \<and> memory_of s p \<inter> memory_of s q = {}"
proof -
  obtain s p q U where "ba_history s {p, q} U" "p \<noteq> q" using two_groups by blast
  then show ?thesis using groups_never_overlap [of s "{p, q}" U p q] by blast
qed

text \<open>C13 After any such sequence of calls the counter of allocated blocks has neither drifted up nor down: it is the sum, over the groups
  in use, of their blocks for a group below a megablock, and of \<open>BLOCKS_PER_MBLOCK\<close> per megablock for a larger group. The blocks that
  a larger group has in the space of the descriptors of its second and later megablocks are not counted, as \<open>BlockAlloc.c\<close> says.
\<close>

theorem allocated_blocks_counted:
  assumes "ba_history s G U"
  shows "n_alloc_blocks s = (\<Sum>p\<in>G. if blocks_of s p < BLOCKS_PER_MBLOCK then blocks_of s p
    else BLOCKS_TO_MBLOCKS (blocks_of s p) * BLOCKS_PER_MBLOCK)"
proof -
  obtain own where k: "ba_inv s own" "G = fst ` allocs own" "n_alloc_blocks s = (\<Sum>(p, n)\<in>allocs own. counted n)"
    using history_knows [OF assms] by (auto simp: ba_knows_def)
  have "inj_on fst (allocs own)" using alloc_unique [OF k(1)] by (auto simp: inj_on_def)
  then have "(\<Sum>p\<in>G. if blocks_of s p < BLOCKS_PER_MBLOCK then blocks_of s p
      else BLOCKS_TO_MBLOCKS (blocks_of s p) * BLOCKS_PER_MBLOCK) = (\<Sum>x\<in>allocs own. counted (blocks_of s (fst x)))"
    unfolding k(2) by (simp add: sum.reindex counted_def) (intro sum.cong, auto)
  also have "\<dots> = (\<Sum>(p, n)\<in>allocs own. counted n)"
    using alloc_blocks [OF k(1)] by (intro sum.cong) auto
  finally show ?thesis using k(3) by simp
qed

theorem allocated_blocks_counted_witness:
  "\<exists>s p q. p \<noteq> q \<and> n_alloc_blocks s = counted (blocks_of s p) + counted (blocks_of s q)"
proof -
  obtain s p q U where "ba_history s {p, q} U" "p \<noteq> q" using two_groups by blast
  then show ?thesis using allocated_blocks_counted [of s "{p, q}" U] by (intro exI [of _ s] exI [of _ p] exI [of _ q]) (simp add: counted_def)
qed

text \<open>C11 \<open>allocAlignedGroupOnNode\<close> succeeds on every request for which a megablock can hold the region and the slop: the group has
  exactly the blocks asked for, starts at a multiple of its size, is found from its start by \<open>Bdescr\<close>, and overlaps no group in use.
\<close>

theorem allocAlignedGroup_correct:
  assumes "ba_history s G U" "0 < n" "2 * n - 1 < BLOCKS_PER_MBLOCK" "{m..<m + aligned_request d n s} \<inter> U = {}"
  shows "\<exists>p s'. allocAlignedGroupOnNode (m * MBLOCK_SIZE) d n s = Some (p, s') \<and> blocks_of s' p = n \<and> bd_start (bds s' p) mod (n * BLOCK_SIZE) = 0 \<and>
    Bdescr (bd_start (bds s' p)) = p \<and> p \<notin> G \<and> (\<forall>q\<in>G. memory_of s' p \<inter> memory_of s' q = {})"
proof -
  obtain own where k: "ba_knows s own G U" using history_knows [OF assms(1)] by blast
  then have i: "ba_inv s own" "G = fst ` allocs own" by (auto simp: ba_knows_def)
  from allocAlignedGroupOnNode_ok [OF i(1) assms(2,3) fresh_outside [OF k assms(4)]] obtain p s' own' where
    a: "allocAlignedGroupOnNode (m * MBLOCK_SIZE) d n s = Some (p, s')" "ba_inv s' own'" "allocs own' = insert (p, n) (allocs own)"
      "bd_start (bds s' p) mod (n * BLOCK_SIZE) = 0" "p \<notin> fst ` allocs own" .
  have p: "(p, n) \<in> allocs own'" using a(3) by simp
  have "memory_of s' p \<inter> memory_of s' q = {}" if "q \<in> G" for q
  proof -
    obtain x where "(q, x) \<in> allocs own" using \<open>q \<in> G\<close> by (auto simp: i(2))
    then show ?thesis using allocs_disjoint [OF a(2) p, of q x] a(3,5) by force
  qed
  then show ?thesis using a(1,4,5) alloc_blocks [OF a(2) p] alloc_Bdescr [OF a(2) p] unfolding i(2) by (intro exI [of _ p] exI [of _ s']) simp
qed

theorem allocAlignedGroup_correct_witness:
  "\<exists>p s'. allocAlignedGroupOnNode (1 * MBLOCK_SIZE) 0 8 new_allocator = Some (p, s') \<and> blocks_of s' p = 8 \<and> bd_start (bds s' p) mod 32768 = 0"
proof -
  have h: "8 * BLOCK_SIZE = 32768" "2 * 8 - 1 < BLOCKS_PER_MBLOCK" "(0 :: nat) < 8"
    "{1..<1 + aligned_request 0 8 new_allocator} \<inter> {} = {}" by (simp_all add: ba_consts)
  from allocAlignedGroup_correct [OF new_history h(3,2,4), unfolded h(1)] show ?thesis by (elim exE conjE) (intro exI conjI)
qed

text \<open>C12 When the freeing of megablocks has been deferred, \<open>commitMBlockFreeing\<close> succeeds: it sorts what was freed meanwhile, merges it
  into the lists of free megablocks so that no two free groups lie beside each other, leaves nothing waiting on any node, and changes neither
  the groups in use nor the count of blocks.
\<close>

theorem commitMBlockFreeing_correct:
  assumes "ba_inv s own" "defer_mblock_frees s"
  shows "\<exists>s' own'. commitMBlockFreeing s = Some s' \<and> ba_inv s' own' \<and> allocs own' = allocs own \<and> dom own' = dom own \<and>
    n_alloc_blocks s' = n_alloc_blocks s \<and> \<not> defer_mblock_frees s' \<and> (\<forall>node < n_numa_nodes s. deferred_free_mblock_list s' node = 0)"
  using commitMBlockFreeing_ok [OF assms] by fastforce

theorem commitMBlockFreeing_correct_witness:
  "\<exists>s0 p s1 s2 s3 own. deferMBlockFreeing new_allocator = Some s0 \<and> allocGroupOnNode (7 * MBLOCK_SIZE) 0 300 s0 = Some (p, s1) \<and>
    freeGroup p s1 = Some s2 \<and> commitMBlockFreeing s2 = Some s3 \<and> ba_inv s3 own \<and> allocs own = {}"
proof -
  define s0 where "s0 = new_allocator\<lparr>defer_mblock_frees := True\<rparr>"
  have d: "deferMBlockFreeing new_allocator = Some s0" by (simp add: deferMBlockFreeing_def s0_def new_allocator_def initBlockAllocator_def)
  have i: "ba_inv s0 Map.empty" using new_allocator_inv by (simp add: s0_def ba_inv_def dlists_def megas_ok_def)
  have "(0 :: nat) < 300" by simp
  from allocGroupOnNode_ok [OF i this no_allocs(2), of 7 0] obtain p s1 own1 where
    a: "allocGroupOnNode (7 * MBLOCK_SIZE) 0 300 s0 = Some (p, s1)" "ba_inv s1 own1" "allocs own1 = insert (p, granted 300) (allocs Map.empty)"
      "dom own1 = dom (Map.empty :: owners) \<union> {7..<7 + group_request 0 300 s0}" "n_alloc_blocks s1 = n_alloc_blocks s0 + counted 300"
      "defer_mblock_frees s1 = defer_mblock_frees s0" "p \<notin> fst ` allocs Map.empty" .
  note a = a(1,2) a(3) [unfolded no_allocs] a(6)
  then have "(p, granted 300) \<in> allocs own1" by simp
  from freeGroup_ok [OF a(2) this] obtain s2 own2 where
    f: "freeGroup p s1 = Some s2" "ba_inv s2 own2" "allocs own2 = allocs own1 - {(p, granted 300)}" "dom own2 = dom own1"
      "n_alloc_blocks s2 = n_alloc_blocks s1 - counted (granted 300)" "defer_mblock_frees s2 = defer_mblock_frees s1" .
  have e: "allocs own2 = {}" using f(3) a(3) by simp
  have "defer_mblock_frees s2" using a(4) f(6) by (simp add: s0_def)
  from commitMBlockFreeing_correct [OF f(2) this] show ?thesis using d a(1) f(1) e by (metis (no_types, lifting))
qed

text \<open>C14 Sorting a list of deferred groups in place terminates, returns a list of the same groups in the order of their addresses, and changes
  no field of any descriptor but the links of those groups.
\<close>

theorem sortDeferredList_correct:
  assumes "lst s p xs"
  shows "\<exists>q s' ys. sortDeferredList p s = Some (q, s') \<and> lst s' q ys \<and> mset ys = mset xs \<and> sorted (map (\<lambda>a. bd_start (bds s a)) ys) \<and>
    (\<forall>a. (bds s' a)\<lparr>bd_link := 0\<rparr> = (bds s a)\<lparr>bd_link := 0\<rparr>) \<and> (\<forall>a. a \<notin> set xs \<longrightarrow> bds s' a = bds s a)"
  using sortDeferredList_eq [OF assms] unfolding relinks_def by blast

theorem sortDeferredList_correct_witness:
  "\<exists>s q s' ys. bd_start (bds s 8) = 80 \<and> bd_start (bds s 9) = 40 \<and> sortDeferredList 8 s = Some (q, s') \<and> lst s' q ys \<and> ys = [9, 8]"
proof -
  define b where "b = (\<lambda>l x. \<lparr>bd_start = x, bd_free = 0, bd_link = l, bd_back = 0, bd_gen = 0, bd_gen_no = 0, bd_node = 0, bd_blocks = 0\<rparr>)"
  define s where "s = new_allocator\<lparr>bds := (\<lambda>_. b 0 0)(8 := b 9 80, 9 := b 0 40)\<rparr>"
  have l: "lst s 8 [8, 9]" by (simp add: s_def b_def)
  from sortDeferredList_correct [OF l] obtain q s' ys where
    e: "sortDeferredList 8 s = Some (q, s')" "lst s' q ys" "mset ys = mset [8, 9]" "sorted (map (\<lambda>a. bd_start (bds s a)) ys)" by blast
  have "ys = [9, 8]"
  proof -
    have "length ys = 2" using mset_eq_length [OF e(3)] by simp
    then obtain x y where ys: "ys = [x, y]" by (auto simp: numeral_2_eq_2 length_Suc_conv)
    then have "x = 8 \<and> y = 9 \<or> x = 9 \<and> y = 8" using mset_eq_setD [OF e(3)] by (auto simp: doubleton_eq_iff)
    then show ?thesis using e(4) ys by (auto simp: s_def b_def)
  qed
  then show ?thesis using e(1,2) by (intro exI [of _ s] exI [of _ q] exI [of _ s'] exI [of _ ys]) (simp add: s_def b_def)
qed

end
