(* ===== verification/MBlocks.thy ===== *)
theory MBlocks
  imports BlockAlloc
begin

text \<open>
  The megablock allocator (\<open>rts/sm/MBlock.c\<close>) with a large address space: a range of addresses is reserved at the
  start, megablocks are committed at a high watermark, and those that are given back are kept on a doubly-linked
  list of ranges, sorted by address and coalesced, whose nodes lie in memory of \<open>malloc\<close>. Addresses are numbers of bytes;
  the reserved range and the sizes asked for are far below \<open>2 ^ 64\<close>, so that no sum wraps around. What the operating
  system has committed is a set of addresses, which \<open>osCommitMemory\<close> and \<open>osDecommitMemory\<close> (\<open>rts/posix/OSMem.c\<close>) add to and take
  from. The operating system may refuse to commit: its answers to the calls of \<open>mmap\<close>, one after the other, are part of the
  state and arbitrary. A decommitment never ends the program there. The address of a new node is an argument (\<open>stgMallocBytes\<close>
  is taken to succeed). \<open>None\<close> is a loop along a cyclic list; leaving the program because there is no memory, be it
  that the reserved space is used up or that \<open>mmap\<close> fails, is a value. Traces are left out, and so is binding memory to a node.
\<close>

section \<open>State\<close>

record fl_node =
  fl_prev :: nat
  fl_next :: nat
  fl_address :: nat
  fl_size :: nat

record mb_state =
  fl_mem :: "nat \<Rightarrow> fl_node"
  free_list_head :: nat
  mblock_high_watermark :: nat
  space_begin :: nat
  space_end :: nat
  mblocks_allocated :: nat
  peak_mblocks_allocated :: nat
  committed :: "nat set"
  os_answers :: "nat \<Rightarrow> bool"
  os_calls :: nat

datatype mb_error = OutOfMemory | CommitFailed

definition upd_fl :: "nat \<Rightarrow> (fl_node \<Rightarrow> fl_node) \<Rightarrow> mb_state \<Rightarrow> mb_state" where
  "upd_fl p f s = s\<lparr>fl_mem := (fl_mem s)(p := f (fl_mem s p))\<rparr>"

definition HEAP_ALLOCED :: "nat \<Rightarrow> mb_state \<Rightarrow> bool" where
  "HEAP_ALLOCED p s \<longleftrightarrow> p \<ge> space_begin s \<and> p < space_end s"

section \<open>Walking over the committed megablocks\<close>

text \<open>The loop of \<open>getAllocatedMBlock\<close>: the entry it stops at and the candidate.\<close>

partial_function (option) skip_free :: "(nat \<Rightarrow> fl_node) \<Rightarrow> nat \<Rightarrow> nat \<Rightarrow> (nat \<times> nat) option" where
  "skip_free m iter p =
    (if iter = 0 then Some (0, p)
     else if p < fl_address (m iter) then Some (iter, p)
     else skip_free m (fl_next (m iter)) (if p = fl_address (m iter) then p + fl_size (m iter) else p))"

text \<open>The result: the megablock or \<open>NULL\<close>, and the new \<open>*start_iter\<close>.\<close>

definition getAllocatedMBlock :: "nat \<Rightarrow> nat \<Rightarrow> mb_state \<Rightarrow> (nat \<times> nat) option" where
  "getAllocatedMBlock start_iter startingAt s =
    (case skip_free (fl_mem s) start_iter startingAt of
       None \<Rightarrow> None
     | Some (iter, p) \<Rightarrow> Some (if p \<ge> mblock_high_watermark s then 0 else p, iter))"

text \<open>The argument \<open>state\<close> of \<open>getNextMBlock\<close> is \<open>NULL\<close> or holds an entry.\<close>

definition getFirstMBlock :: "mb_state \<Rightarrow> (nat \<times> nat) option" where
  "getFirstMBlock s = getAllocatedMBlock (free_list_head s) (space_begin s) s"

definition getNextMBlock :: "nat option \<Rightarrow> nat \<Rightarrow> mb_state \<Rightarrow> (nat \<times> nat) option" where
  "getNextMBlock state mblock s =
    getAllocatedMBlock (case state of None \<Rightarrow> free_list_head s | Some iter \<Rightarrow> iter) (mblock + MBLOCK_SIZE) s"

text \<open>The megablocks that a loop over \<open>getFirstMBlock\<close> and \<open>getNextMBlock\<close> visits, with or without a state.\<close>

partial_function (option) visit_mblocks :: "bool \<Rightarrow> nat \<Rightarrow> nat \<Rightarrow> mb_state \<Rightarrow> nat list option" where
  "visit_mblocks keep mblock state s =
    (if mblock = 0 then Some []
     else (case getNextMBlock (if keep then Some state else None) mblock s of
             None \<Rightarrow> None
           | Some (mblock', state') \<Rightarrow> Option.bind (visit_mblocks keep mblock' state' s) (\<lambda>r. Some (mblock # r))))"

definition all_mblocks :: "bool \<Rightarrow> mb_state \<Rightarrow> nat list option" where
  "all_mblocks keep s = (case getFirstMBlock s of None \<Rightarrow> None | Some (mblock, state) \<Rightarrow> visit_mblocks keep mblock state s)"

section \<open>Committing\<close>

text \<open>The answer of the operating system to the next call, and what a granted call does.\<close>

definition os_grants :: "mb_state \<Rightarrow> bool" where
  "os_grants s \<longleftrightarrow> os_answers s (os_calls s)"

definition commit_memory :: "nat \<Rightarrow> nat \<Rightarrow> mb_state \<Rightarrow> mb_state" where
  "commit_memory addr sz s = s\<lparr>committed := committed s \<union> {addr..<addr + sz}, os_calls := os_calls s + 1\<rparr>"

definition osCommitMemory :: "nat \<Rightarrow> nat \<Rightarrow> mb_state \<Rightarrow> mb_error + mb_state" where
  "osCommitMemory addr sz s = (if os_grants s then Inr (commit_memory addr sz s) else Inl CommitFailed)"

definition osDecommitMemory :: "nat \<Rightarrow> nat \<Rightarrow> mb_state \<Rightarrow> mb_state" where
  "osDecommitMemory addr sz s = s\<lparr>committed := committed s - {addr..<addr + sz}\<rparr>"

partial_function (option) find_reusable :: "(nat \<Rightarrow> fl_node) \<Rightarrow> nat \<Rightarrow> nat \<Rightarrow> nat option" where
  "find_reusable m sz iter =
    (if iter = 0 then Some 0 else if fl_size (m iter) < sz then find_reusable m sz (fl_next (m iter)) else Some iter)"

definition unlink_range :: "nat \<Rightarrow> mb_state \<Rightarrow> mb_state" where
  "unlink_range iter s =
    (let prev = fl_prev (fl_mem s iter);
         next = fl_next (fl_mem s iter);
         s = (if prev = 0 then s\<lparr>free_list_head := next\<rparr> else upd_fl prev (\<lambda>f. f\<lparr>fl_next := next\<rparr>) s)
     in if next \<noteq> 0 then upd_fl next (\<lambda>f. f\<lparr>fl_prev := prev\<rparr>) s else s)"

definition getReusableMBlocks :: "nat \<Rightarrow> mb_state \<Rightarrow> (mb_error + (nat \<times> mb_state)) option" where
  "getReusableMBlocks n s =
    (let sz = MBLOCK_SIZE * n
     in case find_reusable (fl_mem s) sz (free_list_head s) of
          None \<Rightarrow> None
        | Some iter \<Rightarrow>
            Some (if iter = 0 then Inr (0, s)
                  else let addr = fl_address (fl_mem s iter);
                           s = upd_fl iter (\<lambda>f. f\<lparr>fl_address := fl_address f + sz, fl_size := fl_size f - sz\<rparr>) s;
                           s = (if fl_size (fl_mem s iter) = 0 then unlink_range iter s else s)
                       in map_sum id (\<lambda>s. (addr, s)) (osCommitMemory addr sz s)))"

definition getFreshMBlocks :: "nat \<Rightarrow> mb_state \<Rightarrow> mb_error + (nat \<times> mb_state)" where
  "getFreshMBlocks n s =
    (let sz = MBLOCK_SIZE * n; addr = mblock_high_watermark s
     in if mblock_high_watermark s + sz > space_end s then Inl OutOfMemory
        else map_sum id (\<lambda>s. (addr, s\<lparr>mblock_high_watermark := mblock_high_watermark s + sz\<rparr>)) (osCommitMemory addr sz s))"

definition getCommittedMBlocks :: "nat \<Rightarrow> mb_state \<Rightarrow> (mb_error + (nat \<times> mb_state)) option" where
  "getCommittedMBlocks n s =
    (case getReusableMBlocks n s of
       None \<Rightarrow> None
     | Some (Inl e) \<Rightarrow> Some (Inl e)
     | Some (Inr (p, s)) \<Rightarrow> Some (if p = 0 then getFreshMBlocks n s else Inr (p, s)))"

section \<open>Decommitting\<close>

text \<open>The entry that the loop of \<open>decommitMBlocks\<close> stops at, with the one before it.\<close>

partial_function (option) find_spot :: "(nat \<Rightarrow> fl_node) \<Rightarrow> nat \<Rightarrow> nat \<Rightarrow> nat \<Rightarrow> (nat \<times> nat) option" where
  "find_spot m address iter prev =
    (if iter = 0 then Some (0, prev)
     else if fl_address (m iter) + fl_size (m iter) < address then find_spot m address (fl_next (m iter)) iter
     else Some (iter, prev))"

text \<open>The three cases of an entry after which, before which or where the range is to be entered.\<close>

definition extend_entry :: "nat \<Rightarrow> nat \<Rightarrow> nat \<Rightarrow> mb_state \<Rightarrow> mb_state" where
  "extend_entry iter address sz s =
    (let s = upd_fl iter (\<lambda>f. f\<lparr>fl_size := fl_size f + sz\<rparr>) s; it = fl_mem s iter
     in if address + sz = mblock_high_watermark s
        then let s = s\<lparr>mblock_high_watermark := mblock_high_watermark s - fl_size it\<rparr>
             in if fl_prev it \<noteq> 0 then upd_fl (fl_prev it) (\<lambda>f. f\<lparr>fl_next := 0\<rparr>) s else s\<lparr>free_list_head := 0\<rparr>
        else if fl_next it \<noteq> 0 \<and> fl_address (fl_mem s (fl_next it)) = fl_address it + fl_size it
        then let next = fl_mem s (fl_next it);
                 s = upd_fl iter (\<lambda>f. f\<lparr>fl_size := fl_size f + fl_size next, fl_next := fl_next next\<rparr>) s
             in if fl_next next \<noteq> 0 then upd_fl (fl_next next) (\<lambda>f. f\<lparr>fl_prev := iter\<rparr>) s else s
        else s)"

definition insert_before :: "nat \<Rightarrow> nat \<Rightarrow> nat \<Rightarrow> nat \<Rightarrow> mb_state \<Rightarrow> mb_state" where
  "insert_before new iter address sz s =
    (let prev = fl_prev (fl_mem s iter);
         s = upd_fl new (\<lambda>_. \<lparr>fl_prev = prev, fl_next = iter, fl_address = address, fl_size = sz\<rparr>) s;
         s = (if prev \<noteq> 0 then upd_fl prev (\<lambda>f. f\<lparr>fl_next := new\<rparr>) s else s\<lparr>free_list_head := new\<rparr>)
     in upd_fl iter (\<lambda>f. f\<lparr>fl_prev := new\<rparr>) s)"

definition insert_last :: "nat \<Rightarrow> nat \<Rightarrow> nat \<Rightarrow> nat \<Rightarrow> mb_state \<Rightarrow> mb_state" where
  "insert_last new prev address sz s =
    (let s = upd_fl new (\<lambda>_. \<lparr>fl_prev = prev, fl_next = 0, fl_address = address, fl_size = sz\<rparr>) s
     in if prev \<noteq> 0 then upd_fl prev (\<lambda>f. f\<lparr>fl_next := new\<rparr>) s else s\<lparr>free_list_head := new\<rparr>)"

definition decommitMBlocks :: "nat \<Rightarrow> nat \<Rightarrow> nat \<Rightarrow> mb_state \<Rightarrow> mb_state option" where
  "decommitMBlocks new address n s =
    (let sz = MBLOCK_SIZE * n; s = osDecommitMemory address sz s
     in case find_spot (fl_mem s) address (free_list_head s) 0 of
          None \<Rightarrow> None
        | Some (iter, prev) \<Rightarrow>
            Some (if iter \<noteq> 0
                  then if fl_address (fl_mem s iter) + fl_size (fl_mem s iter) = address then extend_entry iter address sz s
                       else if address + sz = fl_address (fl_mem s iter)
                       then upd_fl iter (\<lambda>f. f\<lparr>fl_address := address, fl_size := fl_size f + sz\<rparr>) s
                       else insert_before new iter address sz s
                  else if address + sz = mblock_high_watermark s
                  then s\<lparr>mblock_high_watermark := mblock_high_watermark s - sz\<rparr>
                  else insert_last new prev address sz s))"

section \<open>The interface\<close>

definition getMBlocks :: "nat \<Rightarrow> mb_state \<Rightarrow> (mb_error + (nat \<times> mb_state)) option" where
  "getMBlocks n s =
    map_option (map_sum id (\<lambda>(ret, s).
      let s = s\<lparr>mblocks_allocated := mblocks_allocated s + n\<rparr>
      in (ret, s\<lparr>peak_mblocks_allocated := max (peak_mblocks_allocated s) (mblocks_allocated s)\<rparr>)))
      (getCommittedMBlocks n s)"

definition getMBlock :: "mb_state \<Rightarrow> (mb_error + (nat \<times> mb_state)) option" where
  "getMBlock s = getMBlocks 1 s"

definition freeMBlocks :: "nat \<Rightarrow> nat \<Rightarrow> nat \<Rightarrow> mb_state \<Rightarrow> mb_state option" where
  "freeMBlocks new addr n s = decommitMBlocks new addr n (s\<lparr>mblocks_allocated := mblocks_allocated s - n\<rparr>)"

definition freeAllMBlocks :: "mb_state \<Rightarrow> mb_state" where
  "freeAllMBlocks s = s\<lparr>committed := {}, space_begin := 2 ^ 64 - 1, space_end := 2 ^ 64 - 1, mblock_high_watermark := 2 ^ 64 - 1\<rparr>"

text \<open>\<open>addr\<close>: what \<open>osReserveHeapMemory\<close> returns.\<close>

definition initMBlocks :: "nat \<Rightarrow> nat \<Rightarrow> mb_state \<Rightarrow> mb_state" where
  "initMBlocks addr addressSpaceSize s =
    s\<lparr>space_begin := addr, space_end := addr + addressSpaceSize, mblock_high_watermark := addr\<rparr>"

end
