(* ===== verification/MBlockRanges.thy ===== *)
theory MBlockRanges
  imports MBlocks
begin

text \<open>
  The free list of the megablock allocator as a sequence of ranges: the invariant, and what the loops and the
  updates of the list do to it.
\<close>

section \<open>The invariant\<close>

text \<open>The entries in order: node, address and size.\<close>

type_synonym ranges = "(nat \<times> nat \<times> nat) list"

definition fl_rep :: "mb_state \<Rightarrow> ranges \<Rightarrow> bool" where
  "fl_rep s es \<longleftrightarrow> dl_list (\<lambda>a. fl_next (fl_mem s a)) (\<lambda>a. fl_prev (fl_mem s a)) (free_list_head s) (map fst es) \<and>
    (\<forall>(x, a, z) \<in> set es. fl_address (fl_mem s x) = a \<and> fl_size (fl_mem s x) = z)"

definition gapped :: "ranges \<Rightarrow> bool" where
  "gapped = sorted_wrt (\<lambda>(x, a, z) (y, b, w). a + z < b)"

definition range_bytes :: "ranges \<Rightarrow> nat set" where
  "range_bytes es = (\<Union>(x, a, z)\<in>set es. {a..<a + z})"

definition mb_inv :: "mb_state \<Rightarrow> ranges \<Rightarrow> bool" where
  "mb_inv s es \<longleftrightarrow> fl_rep s es \<and> gapped es \<and>
    (\<forall>(x, a, z) \<in> set es. 0 < z \<and> space_begin s \<le> a \<and> a + z < mblock_high_watermark s \<and> MBLOCK_SIZE dvd a \<and> MBLOCK_SIZE dvd z) \<and>
    0 < space_begin s \<and> space_begin s \<le> mblock_high_watermark s \<and> mblock_high_watermark s \<le> space_end s \<and>
    MBLOCK_SIZE dvd space_begin s \<and> MBLOCK_SIZE dvd mblock_high_watermark s \<and>
    committed s = {space_begin s..<mblock_high_watermark s} - range_bytes es \<and> mblocks_allocated s * MBLOCK_SIZE = card (committed s)"

lemma range_bytes_simps [simp]:
  "range_bytes [] = {}" "range_bytes ((x, a, z) # es) = {a..<a + z} \<union> range_bytes es"
  "range_bytes (es @ es') = range_bytes es \<union> range_bytes es'"
  by (auto simp: range_bytes_def)

lemma gapped_simps [simp]:
  "gapped []" "gapped ((x, a, z) # es) \<longleftrightarrow> (\<forall>(y, b, w) \<in> set es. a + z < b) \<and> gapped es"
  "gapped (es @ es') \<longleftrightarrow> gapped es \<and> gapped es' \<and> (\<forall>(x, a, z) \<in> set es. \<forall>(y, b, w) \<in> set es'. a + z < b)"
  by (auto simp: gapped_def sorted_wrt_append)

section \<open>The loops\<close>

lemma find_reusable_eq:
  assumes "dl_part (\<lambda>a. fl_next (m a)) prv prev p (map fst es) q 0" "\<forall>(x, a, z) \<in> set es. fl_size (m x) = z"
  shows "find_reusable m sz p = Some (case dropWhile (\<lambda>(x, a, z). z < sz) es of [] \<Rightarrow> 0 | (x, a, z) # _ \<Rightarrow> x)"
  using assms
proof (induction es arbitrary: prev p)
  case (Cons e es)
  obtain x a z where e: "e = (x, a, z)" by (cases e)
  have "find_reusable m sz (fl_next (m x)) = Some (case dropWhile (\<lambda>(x, a, z). z < sz) es of [] \<Rightarrow> 0 | (x, a, z) # _ \<Rightarrow> x)"
    by (rule Cons.IH [of x]) (use Cons.prems in \<open>auto simp: e\<close>)
  then show ?case using Cons.prems by (subst find_reusable.simps) (auto simp: e)
qed (simp add: find_reusable.simps)

lemma find_spot_eq:
  assumes "dl_part (\<lambda>a. fl_next (m a)) prv prev p (map fst es) q 0" "\<forall>(x, a, z) \<in> set es. fl_address (m x) = a \<and> fl_size (m x) = z"
  shows "find_spot m address p prev' =
    Some (case dropWhile (\<lambda>(x, a, z). a + z < address) es of [] \<Rightarrow> 0 | (x, a, z) # _ \<Rightarrow> x,
      case rev (takeWhile (\<lambda>(x, a, z). a + z < address) es) of [] \<Rightarrow> prev' | (x, a, z) # _ \<Rightarrow> x)"
  using assms
proof (induction es arbitrary: prev p prev')
  case (Cons e es)
  obtain x a z where e: "e = (x, a, z)" by (cases e)
  show ?case
  proof (cases "a + z < address")
    case True
    then have "find_spot m address p prev' = find_spot m address (fl_next (m x)) x"
      using Cons.prems by (subst find_spot.simps) (simp add: e)
    also have "\<dots> = Some (case dropWhile (\<lambda>(x, a, z). a + z < address) es of [] \<Rightarrow> 0 | (x, a, z) # _ \<Rightarrow> x,
        case rev (takeWhile (\<lambda>(x, a, z). a + z < address) es) of [] \<Rightarrow> x | (x, a, z) # _ \<Rightarrow> x)"
      by (rule Cons.IH [of x]) (use Cons.prems in \<open>auto simp: e\<close>)
    finally show ?thesis using True
      by (cases "rev (takeWhile (\<lambda>(x, a, z). a + z < address) es)") (auto simp: e)
  next
    case False
    then show ?thesis using Cons.prems by (subst find_spot.simps) (auto simp: e)
  qed
qed (simp add: find_spot.simps)

lemma fl_repD:
  assumes "fl_rep s es"
  shows "\<exists>q. dl_part (\<lambda>a. fl_next (fl_mem s a)) (\<lambda>a. fl_prev (fl_mem s a)) 0 (free_list_head s) (map fst es) q 0"
    "(x, a, z) \<in> set es \<Longrightarrow> fl_address (fl_mem s x) = a \<and> fl_size (fl_mem s x) = z \<and> x \<noteq> 0"
    "distinct (map fst es)" "0 \<notin> set (map fst es)"
proof -
  have l: "dl_list (\<lambda>a. fl_next (fl_mem s a)) (\<lambda>a. fl_prev (fl_mem s a)) (free_list_head s) (map fst es)" using assms by (simp add: fl_rep_def)
  then show "\<exists>q. dl_part (\<lambda>a. fl_next (fl_mem s a)) (\<lambda>a. fl_prev (fl_mem s a)) 0 (free_list_head s) (map fst es) q 0"
    "distinct (map fst es)" by (auto simp: dl_list_def)
  show z: "0 \<notin> set (map fst es)" using dl_list_nonzero [OF l] .
  show "(x, a, z) \<in> set es \<Longrightarrow> fl_address (fl_mem s x) = a \<and> fl_size (fl_mem s x) = z \<and> x \<noteq> 0" using assms z by (force simp: fl_rep_def)
qed

lemma fl_rep_at:
  assumes "fl_rep s (us @ (x, a, z) # vs)"
  shows "fl_next (fl_mem s x) = (case vs of [] \<Rightarrow> 0 | (y, _) # _ \<Rightarrow> y)" "fl_prev (fl_mem s x) = (if us = [] then 0 else fst (last us))"
    "fl_address (fl_mem s x) = a" "fl_size (fl_mem s x) = z" "x \<noteq> 0"
proof -
  obtain q r e where l: "dl_part (\<lambda>a. fl_next (fl_mem s a)) (\<lambda>a. fl_prev (fl_mem s a)) 0 (free_list_head s) (map fst us) q r"
    "dl_part (\<lambda>a. fl_next (fl_mem s a)) (\<lambda>a. fl_prev (fl_mem s a)) q r (x # map fst vs) e 0"
    using fl_repD(1) [OF assms] by (auto simp: dl_part_append)
  show "fl_next (fl_mem s x) = (case vs of [] \<Rightarrow> 0 | (y, _) # _ \<Rightarrow> y)" using l(2) by (cases vs) auto
  show "fl_prev (fl_mem s x) = (if us = [] then 0 else fst (last us))" using dl_part_last [OF l(1)] l(2) by (auto simp: last_map)
  show "fl_address (fl_mem s x) = a" "fl_size (fl_mem s x) = z" "x \<noteq> 0" using fl_repD(2) [OF assms, of x a z] by auto
qed

section \<open>Updates of the list\<close>

lemma upd_fl_simps [simp]:
  "fl_mem (upd_fl p f s) = (fl_mem s)(p := f (fl_mem s p))" "free_list_head (upd_fl p f s) = free_list_head s"
  "mblock_high_watermark (upd_fl p f s) = mblock_high_watermark s" "space_begin (upd_fl p f s) = space_begin s"
  "space_end (upd_fl p f s) = space_end s" "committed (upd_fl p f s) = committed s" "mblocks_allocated (upd_fl p f s) = mblocks_allocated s"
  by (simp_all add: upd_fl_def)

text \<open>The fields that only the callers change.\<close>

definition same_space :: "mb_state \<Rightarrow> mb_state \<Rightarrow> bool" where
  "same_space s s' \<longleftrightarrow> mblock_high_watermark s' = mblock_high_watermark s \<and> space_begin s' = space_begin s \<and> space_end s' = space_end s \<and>
    committed s' = committed s \<and> mblocks_allocated s' = mblocks_allocated s"

lemma fl_rep_change:
  assumes "fl_rep s (us @ (x, a, z) # vs)"
  shows "fl_rep (upd_fl x (\<lambda>f. f\<lparr>fl_address := a', fl_size := z'\<rparr>) s) (us @ (x, a', z') # vs)"
proof -
  have d: "x \<notin> fst ` set us" "x \<notin> fst ` set vs" using fl_repD(3) [OF assms] by auto
  have "dl_list (\<lambda>b. fl_next (fl_mem (upd_fl x (\<lambda>f. f\<lparr>fl_address := a', fl_size := z'\<rparr>) s) b))
      (\<lambda>b. fl_prev (fl_mem (upd_fl x (\<lambda>f. f\<lparr>fl_address := a', fl_size := z'\<rparr>) s) b)) (free_list_head s) (map fst (us @ (x, a', z') # vs)) =
    dl_list (\<lambda>b. fl_next (fl_mem s b)) (\<lambda>b. fl_prev (fl_mem s b)) (free_list_head s) (map fst (us @ (x, a', z') # vs))"
    by (rule dl_list_cong) simp
  moreover have "fl_address (fl_mem (upd_fl x (\<lambda>f. f\<lparr>fl_address := a', fl_size := z'\<rparr>) s) y) = b \<and>
      fl_size (fl_mem (upd_fl x (\<lambda>f. f\<lparr>fl_address := a', fl_size := z'\<rparr>) s) y) = w" if "(y, b, w) \<in> set (us @ (x, a', z') # vs)" for y b w
    using that d fl_repD(2) [OF assms, of y b w] by (cases "y = x") force+
  ultimately show ?thesis using assms unfolding fl_rep_def by auto
qed

lemma fl_rep_unlink:
  assumes "fl_rep s (us @ (x, a, z) # vs)"
  shows "fl_rep (unlink_range x s) (us @ vs)" "same_space s (unlink_range x s)"
proof -
  let ?s = "unlink_range x s" and ?n = "fl_next (fl_mem s x)" and ?p = "fl_prev (fl_mem s x)"
  note at = fl_rep_at [OF assms] and r = fl_repD [OF assms]
  have l: "dl_list (\<lambda>b. fl_next (fl_mem s b)) (\<lambda>b. fl_prev (fl_mem s b)) (free_list_head s) (map fst us @ x # map fst vs)"
    using assms by (simp add: fl_rep_def)
  have pn: "?p \<noteq> 0 \<Longrightarrow> ?p \<noteq> ?n" "?p \<noteq> x" "?n \<noteq> x"
    using at(1,2,5) r(3,4) by (auto split: list.splits if_splits simp: image_iff dest!: last_in_set)
  have desc: "fl_next (fl_mem ?s b) = (if b = ?p \<and> ?p \<noteq> 0 then ?n else fl_next (fl_mem s b))"
    "fl_prev (fl_mem ?s b) = (if b = ?n \<and> ?n \<noteq> 0 then ?p else fl_prev (fl_mem s b))"
    "fl_address (fl_mem ?s b) = fl_address (fl_mem s b)" "fl_size (fl_mem ?s b) = fl_size (fl_mem s b)" for b
    using pn by (auto simp: unlink_range_def Let_def)
  have h: "free_list_head ?s = (if ?p = 0 then ?n else free_list_head s)" by (simp add: unlink_range_def Let_def)
  have nz: "b \<in> set (map fst us @ map fst vs) \<Longrightarrow> b \<noteq> 0" for b using r(4) by auto
  have "dl_list (\<lambda>b. fl_next (fl_mem ?s b)) (\<lambda>b. fl_prev (fl_mem ?s b)) (if ?p = 0 then ?n else free_list_head s) (map fst us @ map fst vs)"
    by (rule dl_list_remove [OF l]) (use nz in \<open>auto simp: desc\<close>)
  then show "fl_rep ?s (us @ vs)" using assms by (auto simp: fl_rep_def h desc)
  show "same_space s ?s" by (simp add: same_space_def unlink_range_def Let_def)
qed

lemma fl_rep_insert_before:
  assumes "fl_rep s (us @ (y, b, w) # vs)" "new \<notin> fst ` set (us @ (y, b, w) # vs)" "new \<noteq> 0"
  shows "fl_rep (insert_before new y a z s) (us @ (new, a, z) # (y, b, w) # vs)" "same_space s (insert_before new y a z s)"
proof -
  let ?s = "insert_before new y a z s" and ?p = "fl_prev (fl_mem s y)"
  note at = fl_rep_at [OF assms(1)] and r = fl_repD [OF assms(1)]
  have p: "?p \<noteq> 0 \<Longrightarrow> ?p \<in> fst ` set us" using at(2) by (auto split: if_splits)
  have pn: "?p \<noteq> 0 \<Longrightarrow> ?p \<noteq> new" "?p \<noteq> y" "new \<noteq> y" using p at(5) assms(2) r(3) by auto
  have desc: "fl_next (fl_mem ?s c) = (if c = new then y else if c = ?p \<and> ?p \<noteq> 0 then new else fl_next (fl_mem s c))"
    "fl_prev (fl_mem ?s c) = (if c = new then ?p else if c = y then new else fl_prev (fl_mem s c))"
    "fl_address (fl_mem ?s c) = (if c = new then a else fl_address (fl_mem s c))" "fl_size (fl_mem ?s c) = (if c = new then z else fl_size (fl_mem s c))" for c
    using pn by (auto simp: insert_before_def Let_def)
  have h: "free_list_head ?s = (if ?p = 0 then new else free_list_head s)" using pn by (auto simp: insert_before_def Let_def)
  have us: "map fst us = [] \<longleftrightarrow> ?p = 0" "map fst us \<noteq> [] \<Longrightarrow> last (map fst us) = ?p"
    using at(2) r(4) last_in_set [of us] by (auto simp: last_map)
  have l: "dl_list (\<lambda>b. fl_next (fl_mem s b)) (\<lambda>b. fl_prev (fl_mem s b)) (free_list_head s) (map fst us @ map fst ((y, b, w) # vs))"
    using assms(1) by (simp add: fl_rep_def)
  have "dl_list (\<lambda>b. fl_next (fl_mem ?s b)) (\<lambda>b. fl_prev (fl_mem ?s b)) (if map fst us = [] then new else free_list_head s)
      (map fst us @ new # map fst ((y, b, w) # vs))"
  proof (rule dl_list_insert [OF l])
    have ne: "c \<noteq> new" if "c \<in> set (map fst us @ map fst ((y, b, w) # vs))" for c using that assms(2) by force
    show "fl_next (fl_mem ?s c) = (if map fst us \<noteq> [] \<and> c = last (map fst us) then new else fl_next (fl_mem s c))"
      if "c \<in> set (map fst us @ map fst ((y, b, w) # vs))" for c using ne [OF that] us unfolding desc by auto
    show "fl_prev (fl_mem ?s c) = (if map fst ((y, b, w) # vs) \<noteq> [] \<and> c = hd (map fst ((y, b, w) # vs)) then new else fl_prev (fl_mem s c))"
      if "c \<in> set (map fst us @ map fst ((y, b, w) # vs))" for c using ne [OF that] unfolding desc by auto
  qed (use assms(2,3) us in \<open>auto simp: desc\<close>)
  then have "dl_list (\<lambda>b. fl_next (fl_mem ?s b)) (\<lambda>b. fl_prev (fl_mem ?s b)) (free_list_head ?s) (map fst (us @ (new, a, z) # (y, b, w) # vs))"
    unfolding h us(1) by simp
  moreover have "fl_address (fl_mem ?s x) = c \<and> fl_size (fl_mem ?s x) = d" if "(x, c, d) \<in> set (us @ (new, a, z) # (y, b, w) # vs)" for x c d
    using that assms(2) r(2) [of x c d] unfolding desc by (cases "x = new") force+
  ultimately show "fl_rep ?s (us @ (new, a, z) # (y, b, w) # vs)" unfolding fl_rep_def by auto
  show "same_space s ?s" by (simp add: same_space_def insert_before_def Let_def)
qed

lemma fl_rep_insert_last:
  assumes "fl_rep s us" "new \<notin> fst ` set us" "new \<noteq> 0" "p = (if us = [] then 0 else fst (last us))"
  shows "fl_rep (insert_last new p a z s) (us @ [(new, a, z)])" "same_space s (insert_last new p a z s)"
proof -
  let ?s = "insert_last new p a z s"
  note r = fl_repD [OF assms(1)]
  have us: "map fst us = [] \<longleftrightarrow> p = 0" "map fst us \<noteq> [] \<Longrightarrow> last (map fst us) = p" "p \<noteq> new"
    using r(4) last_in_set [of us] assms(2,3) by (auto simp: last_map assms(4))
  have desc: "fl_next (fl_mem ?s c) = (if c = new then 0 else if c = p \<and> p \<noteq> 0 then new else fl_next (fl_mem s c))"
    "fl_prev (fl_mem ?s c) = (if c = new then p else fl_prev (fl_mem s c))"
    "fl_address (fl_mem ?s c) = (if c = new then a else fl_address (fl_mem s c))" "fl_size (fl_mem ?s c) = (if c = new then z else fl_size (fl_mem s c))" for c
    using us(3) by (auto simp: insert_last_def Let_def)
  have h: "free_list_head ?s = (if p = 0 then new else free_list_head s)" by (simp add: insert_last_def Let_def)
  have l: "dl_list (\<lambda>b. fl_next (fl_mem s b)) (\<lambda>b. fl_prev (fl_mem s b)) (free_list_head s) (map fst us @ [])"
    using assms(1) by (simp add: fl_rep_def)
  have "dl_list (\<lambda>b. fl_next (fl_mem ?s b)) (\<lambda>b. fl_prev (fl_mem ?s b)) (if map fst us = [] then new else free_list_head s) (map fst us @ new # [])"
  proof (rule dl_list_insert [OF l])
    have ne: "c \<noteq> new" if "c \<in> set (map fst us @ [])" for c using that assms(2) by force
    show "fl_next (fl_mem ?s c) = (if map fst us \<noteq> [] \<and> c = last (map fst us) then new else fl_next (fl_mem s c))"
      if "c \<in> set (map fst us @ [])" for c using ne [OF that] us unfolding desc by auto
    show "fl_prev (fl_mem ?s c) = (if [] \<noteq> [] \<and> c = hd [] then new else fl_prev (fl_mem s c))"
      if "c \<in> set (map fst us @ [])" for c using ne [OF that] unfolding desc by auto
  qed (use assms(2,3) us in \<open>auto simp: desc\<close>)
  then have "dl_list (\<lambda>b. fl_next (fl_mem ?s b)) (\<lambda>b. fl_prev (fl_mem ?s b)) (free_list_head ?s) (map fst (us @ [(new, a, z)]))"
    unfolding h us(1) by simp
  moreover have "fl_address (fl_mem ?s x) = c \<and> fl_size (fl_mem ?s x) = d" if "(x, c, d) \<in> set (us @ [(new, a, z)])" for x c d
    using that assms(2) r(2) [of x c d] unfolding desc by (cases "x = new") force+
  ultimately show "fl_rep ?s (us @ [(new, a, z)])" unfolding fl_rep_def by auto
  show "same_space s ?s" by (simp add: same_space_def insert_last_def Let_def)
qed

lemma extend_last:
  assumes "fl_rep s (us @ [(x, a, z)])" "address + sz = mblock_high_watermark s"
  shows "fl_rep (extend_entry x address sz s) us"
    "same_space (s\<lparr>mblock_high_watermark := mblock_high_watermark s - (z + sz)\<rparr>) (extend_entry x address sz s)"
proof -
  let ?s = "extend_entry x address sz s" and ?p = "fl_prev (fl_mem s x)"
  note at = fl_rep_at [OF assms(1)] and r = fl_repD [OF assms(1)]
  have p: "?p \<noteq> 0 \<Longrightarrow> ?p \<in> fst ` set us" using at(2) by (auto split: if_splits)
  then have px: "?p \<noteq> x" using at(5) r(3) by auto
  have desc: "c \<noteq> x \<Longrightarrow> fl_next (fl_mem ?s c) = (if c = ?p \<and> ?p \<noteq> 0 then 0 else fl_next (fl_mem s c))" "fl_prev (fl_mem ?s c) = fl_prev (fl_mem s c)"
    "c \<noteq> x \<Longrightarrow> fl_address (fl_mem ?s c) = fl_address (fl_mem s c)" "c \<noteq> x \<Longrightarrow> fl_size (fl_mem ?s c) = fl_size (fl_mem s c)" for c
    using px assms(2) by (auto simp: extend_entry_def Let_def)
  have h: "free_list_head ?s = (if ?p = 0 then 0 else free_list_head s)" using assms(2) by (simp add: extend_entry_def Let_def)
  have l: "dl_list (\<lambda>b. fl_next (fl_mem s b)) (\<lambda>b. fl_prev (fl_mem s b)) (free_list_head s) (map fst us @ x # [])"
    using assms(1) by (simp add: fl_rep_def)
  have nx: "fl_next (fl_mem s x) = 0" using at(1) by simp
  have ne: "c \<noteq> x \<and> c \<noteq> 0" if "c \<in> set (map fst us @ [])" for c using that r(3,4) by auto
  have "dl_list (\<lambda>b. fl_next (fl_mem ?s b)) (\<lambda>b. fl_prev (fl_mem ?s b)) (if ?p = 0 then fl_next (fl_mem s x) else free_list_head s) (map fst us @ [])"
  proof (rule dl_list_remove [OF l])
    show "fl_next (fl_mem ?s c) = (if c = ?p then fl_next (fl_mem s x) else fl_next (fl_mem s c))"
      "fl_prev (fl_mem ?s c) = (if c = fl_next (fl_mem s x) then ?p else fl_prev (fl_mem s c))" if "c \<in> set (map fst us @ [])" for c
      using ne [OF that] by (simp_all add: desc nx)
  qed
  then show "fl_rep ?s us" using assms(1) ne unfolding fl_rep_def by (force simp: h desc nx)
  show "same_space (s\<lparr>mblock_high_watermark := mblock_high_watermark s - (z + sz)\<rparr>) ?s"
    using assms(2) at(4) by (simp add: same_space_def extend_entry_def Let_def)
qed

lemma extend_plain:
  assumes "fl_rep s (us @ (x, a, z) # vs)" "address + sz \<noteq> mblock_high_watermark s" "\<And>y b w. (y, b, w) \<in> set vs \<Longrightarrow> b \<noteq> a + (z + sz)"
  shows "fl_rep (extend_entry x address sz s) (us @ (x, a, z + sz) # vs)" "same_space s (extend_entry x address sz s)"
proof -
  note at = fl_rep_at [OF assms(1)]
  have "fl_rep (upd_fl x (\<lambda>f. f\<lparr>fl_address := a, fl_size := z + sz\<rparr>) s) (us @ (x, a, z + sz) # vs)" by (rule fl_rep_change [OF assms(1)])
  moreover have "upd_fl x (\<lambda>f. f\<lparr>fl_address := a, fl_size := z + sz\<rparr>) s = upd_fl x (\<lambda>f. f\<lparr>fl_size := fl_size f + sz\<rparr>) s"
    using at(3,4) by (cases "fl_mem s x") (simp add: upd_fl_def)
  moreover have "fl_next (fl_mem s x) = 0 \<or> fl_address (fl_mem s (fl_next (fl_mem s x))) \<noteq> a + (z + sz) \<and> fl_next (fl_mem s x) \<noteq> x"
  proof (cases vs)
    case (Cons v vs')
    obtain y b w where v: "v = (y, b, w)" by (cases v)
    have "fl_address (fl_mem s y) = b" "y \<noteq> x" using fl_repD(2,3) [OF assms(1)] by (auto simp: Cons v)
    then show ?thesis using at(1) assms(3) [of y b w] by (simp add: Cons v)
  qed (use at(1) in simp)
  ultimately have e: "fl_rep (extend_entry x address sz s) (us @ (x, a, z + sz) # vs) \<and> same_space s (extend_entry x address sz s)"
    using assms(2) at(3,4) by (auto simp: extend_entry_def Let_def same_space_def)
  then show "fl_rep (extend_entry x address sz s) (us @ (x, a, z + sz) # vs)" "same_space s (extend_entry x address sz s)" by simp_all
qed

lemma extend_join:
  assumes "fl_rep s (us @ (x, a, z) # (y, b, w) # vs)" "address + sz \<noteq> mblock_high_watermark s" "b = a + (z + sz)"
  shows "fl_rep (extend_entry x address sz s) (us @ (x, a, z + sz + w) # vs)" "same_space s (extend_entry x address sz s)"
proof -
  let ?s = "extend_entry x address sz s" and ?n = "fl_next (fl_mem s y)"
  note at = fl_rep_at [OF assms(1)] and r = fl_repD [OF assms(1)]
  have a1: "fl_rep s ((us @ [(x, a, z)]) @ (y, b, w) # vs)" using assms(1) by simp
  note ay = fl_rep_at [OF a1]
  have x: "fl_next (fl_mem s x) = y" "fl_prev (fl_mem s y) = x" using at(1) ay(2) by simp_all
  have n: "?n \<noteq> x" "?n \<noteq> y" "x \<noteq> y" using ay(1) at(5) r(3,4) by (auto split: list.splits)
  have desc: "c \<noteq> y \<Longrightarrow> fl_next (fl_mem ?s c) = (if c = x then ?n else fl_next (fl_mem s c))"
    "c \<noteq> y \<Longrightarrow> fl_prev (fl_mem ?s c) = (if c = ?n \<and> ?n \<noteq> 0 then x else fl_prev (fl_mem s c))"
    "fl_address (fl_mem ?s c) = fl_address (fl_mem s c)" "fl_size (fl_mem ?s c) = (if c = x then z + sz + w else fl_size (fl_mem s c))" for c
    using n x at(3,4,5) ay(3,4,5) assms(2,3) by (auto simp: extend_entry_def Let_def)
  have h: "free_list_head ?s = free_list_head s" using n x at(3,4,5) ay(3,4,5) assms(2,3) by (auto simp: extend_entry_def Let_def)
  have l: "dl_list (\<lambda>b. fl_next (fl_mem s b)) (\<lambda>b. fl_prev (fl_mem s b)) (free_list_head s) (map fst (us @ [(x, a, z)]) @ y # map fst vs)"
    using assms(1) by (simp add: fl_rep_def)
  have ne: "c \<noteq> y \<and> c \<noteq> 0" if "c \<in> set (map fst (us @ [(x, a, z)]) @ map fst vs)" for c using that r(3,4) by auto
  have "dl_list (\<lambda>b. fl_next (fl_mem ?s b)) (\<lambda>b. fl_prev (fl_mem ?s b))
      (if fl_prev (fl_mem s y) = 0 then ?n else free_list_head s) (map fst (us @ [(x, a, z)]) @ map fst vs)"
  proof (rule dl_list_remove [OF l])
    show "fl_next (fl_mem ?s c) = (if c = fl_prev (fl_mem s y) then ?n else fl_next (fl_mem s c))"
      "fl_prev (fl_mem ?s c) = (if c = ?n then fl_prev (fl_mem s y) else fl_prev (fl_mem s c))"
      if "c \<in> set (map fst (us @ [(x, a, z)]) @ map fst vs)" for c using ne [OF that] by (simp_all add: desc x)
  qed
  moreover have "fl_address (fl_mem ?s c) = d \<and> fl_size (fl_mem ?s c) = e" if "(c, d, e) \<in> set (us @ (x, a, z + sz + w) # vs)" for c d e
  proof -
    have "x \<notin> fst ` (set us \<union> set vs)" using r(3) by auto
    moreover note t = that
    ultimately consider "(c, d, e) \<in> set (us @ vs)" "c \<noteq> x" | "c = x" "d = a" "e = z + sz + w" by (cases "c = x") force+
    then show ?thesis
    proof cases
      case 1
      then show ?thesis using r(2) [of c d e] unfolding desc by auto
    qed (use at(3) in \<open>simp add: desc\<close>)
  qed
  ultimately show "fl_rep ?s (us @ (x, a, z + sz + w) # vs)" using x at(5) unfolding fl_rep_def by (auto simp: h)
  show "same_space s ?s" using n x at(3,4,5) ay(3,4,5) assms(2,3) by (auto simp: same_space_def extend_entry_def Let_def)
qed

end
