(* ===== verification/MBlockSpace.thy ===== *)
theory MBlockSpace
  imports MBlockRanges
begin

text \<open>
  What the operations of the megablock allocator do to the set of committed addresses, and the enumeration of
  the megablocks in use.
\<close>

section \<open>Entries apart\<close>

lemma gapped_apart: "gapped es \<Longrightarrow> (x, a, z) \<in> set es \<Longrightarrow> (y, b, w) \<in> set es \<Longrightarrow> (x, a, z) = (y, b, w) \<or> a + z < b \<or> b + w < a"
  by (induction es) (auto simp: gapped_def)

lemma gapped_parts:
  assumes "gapped (us @ (x, a, z) # vs)"
  shows "gapped us" "gapped vs" "\<forall>(y, b, w) \<in> set us. b + w < a" "\<forall>(y, b, w) \<in> set vs. a + z < b"
    "\<forall>(y, b, w) \<in> set us. \<forall>(y', b', w') \<in> set vs. b + w < b'"
    "range_bytes us \<inter> {a..<a + z} = {}" "range_bytes vs \<inter> {a..<a + z} = {}"
proof -
  show "gapped us" "gapped vs" and u: "\<forall>(y, b, w) \<in> set us. b + w < a" and v: "\<forall>(y, b, w) \<in> set vs. a + z < b"
    and "\<forall>(y, b, w) \<in> set us. \<forall>(y', b', w') \<in> set vs. b + w < b'"
    using assms by auto
  show "range_bytes us \<inter> {a..<a + z} = {}" "range_bytes vs \<inter> {a..<a + z} = {}"
    using u v unfolding range_bytes_def by fastforce+
qed

lemma cut_front:
  assumes "A \<inter> {a..<a + z} = {}" "B \<inter> {a..<a + z} = {}" "k \<le> (z :: nat)"
  shows "A \<union> {a + k..<a + z} \<union> B = (A \<union> {a..<a + z} \<union> B) - {a..<a + k}"
proof -
  have "{a..<a + z} - {a..<a + k} = {a + k..<a + z}" by auto
  moreover have "{a..<a + k} \<subseteq> {a..<a + z}" using assms(3) by auto
  ultimately show ?thesis using assms(1,2) by blast
qed

lemma mb_invD:
  assumes "mb_inv s es"
  shows "fl_rep s es" "gapped es"
    "(x, a, z) \<in> set es \<Longrightarrow> 0 < z \<and> space_begin s \<le> a \<and> a + z < mblock_high_watermark s \<and> MBLOCK_SIZE dvd a \<and> MBLOCK_SIZE dvd z"
    "0 < space_begin s" "space_begin s \<le> mblock_high_watermark s" "mblock_high_watermark s \<le> space_end s"
    "MBLOCK_SIZE dvd space_begin s" "MBLOCK_SIZE dvd mblock_high_watermark s"
    "committed s = {space_begin s..<mblock_high_watermark s} - range_bytes es" "mblocks_allocated s * MBLOCK_SIZE = card (committed s)"
  using assms unfolding mb_inv_def by blast+

lemma range_bytes_in: "x \<in> range_bytes es \<longleftrightarrow> (\<exists>y a z. (y, a, z) \<in> set es \<and> a \<le> x \<and> x < a + z)"
  by (force simp: range_bytes_def)

lemma finite_committed: "mb_inv s es \<Longrightarrow> finite (committed s)"
  using mb_invD(9) [of s es] by simp

lemma fl_rep_fields [simp]:
  "fl_rep (s\<lparr>committed := c\<rparr>) es = fl_rep s es" "fl_rep (s\<lparr>mblocks_allocated := n\<rparr>) es = fl_rep s es"
  "fl_rep (s\<lparr>mblock_high_watermark := h\<rparr>) es = fl_rep s es" "fl_rep (s\<lparr>peak_mblocks_allocated := n\<rparr>) es = fl_rep s es"
  "fl_rep (commit_memory a z s) es = fl_rep s es" "fl_rep (osDecommitMemory a z s) es = fl_rep s es"
  by (simp_all add: fl_rep_def commit_memory_def osDecommitMemory_def)

text \<open>The invariant of a state that is described by its entries and its committed addresses.\<close>

lemma mb_invI:
  assumes "mb_inv s es" "fl_rep s' es'" "gapped es'"
    "\<And>x a z. (x, a, z) \<in> set es' \<Longrightarrow> 0 < z \<and> space_begin s \<le> a \<and> a + z < mblock_high_watermark s' \<and> MBLOCK_SIZE dvd a \<and> MBLOCK_SIZE dvd z"
    "space_begin s' = space_begin s" "space_end s' = space_end s"
    "space_begin s \<le> mblock_high_watermark s'" "mblock_high_watermark s' \<le> space_end s" "MBLOCK_SIZE dvd mblock_high_watermark s'"
    "committed s' = {space_begin s..<mblock_high_watermark s'} - range_bytes es'" "mblocks_allocated s' * MBLOCK_SIZE = card (committed s')"
  shows "mb_inv s' es'"
  using assms unfolding mb_inv_def by auto

section \<open>Committing\<close>

text \<open>A run of free megablocks is inside an entry or above the high watermark.\<close>

lemma free_run:
  assumes "mb_inv s es" "0 < sz" "{addr..<addr + sz} \<inter> committed s = {}" "space_begin s \<le> addr" "addr < mblock_high_watermark s"
  shows "\<exists>x a z. (x, a, z) \<in> set es \<and> a \<le> addr \<and> addr + sz \<le> a + z"
proof -
  note i = mb_invD [OF assms(1)]
  have out: "y \<in> range_bytes es" if "addr \<le> y" "y < addr + sz" "y < mblock_high_watermark s" for y
    using assms(3,4) that unfolding i(9) by (force simp: set_eq_iff)
  obtain x a z where e: "(x, a, z) \<in> set es" "a \<le> addr" "addr < a + z" using out [of addr] assms(2,5) by (auto simp: range_bytes_in)
  have "\<not> a + z < addr + sz"
  proof
    assume l: "a + z < addr + sz"
    then have "a + z \<in> range_bytes es" by (intro out) (use e i(3) [OF e(1)] in auto)
    then obtain y b w where f: "(y, b, w) \<in> set es" "b \<le> a + z" "a + z < b + w" by (auto simp: range_bytes_in)
    then show False using gapped_apart [OF i(2) e(1) f(1)] e i(3) [OF e(1)] by auto
  qed
  then have "addr + sz \<le> a + z" by simp
  with e show ?thesis by blast
qed

lemma reuse_ok:
  assumes "mb_inv s es" "0 < n" "es = us @ (x, a, z) # vs" "MBLOCK_SIZE * n \<le> z"
  defines "s1 \<equiv> upd_fl x (\<lambda>f. f\<lparr>fl_address := fl_address f + MBLOCK_SIZE * n, fl_size := fl_size f - MBLOCK_SIZE * n\<rparr>) s"
  defines "s2 \<equiv> commit_memory a (MBLOCK_SIZE * n) (if fl_size (fl_mem s1 x) = 0 then unlink_range x s1 else s1)"
  shows "\<exists>es'. mb_inv (s2\<lparr>mblocks_allocated := mblocks_allocated s + n\<rparr>) es'" "same_space (s\<lparr>committed := committed s \<union> {a..<a + MBLOCK_SIZE * n}\<rparr>) s2"
    "{a..<a + MBLOCK_SIZE * n} \<inter> committed s = {}"
proof -
  let ?z = "MBLOCK_SIZE * n"
  note i = mb_invD [OF assms(1)]
  have e: "(x, a, z) \<in> set es" by (simp add: assms(3))
  have at: "fl_address (fl_mem s x) = a" "fl_size (fl_mem s x) = z" using fl_rep_at [OF i(1) [unfolded assms(3)]] by simp_all
  have s1: "s1 = upd_fl x (\<lambda>f. f\<lparr>fl_address := a + ?z, fl_size := z - ?z\<rparr>) s"
    unfolding s1_def at(1) [symmetric] at(2) [symmetric] by (simp add: upd_fl_def)
  have r1: "fl_rep s1 (us @ (x, a + ?z, z - ?z) # vs)" unfolding s1 by (rule fl_rep_change) (use i(1) assms(3) in simp)
  have sp1: "same_space s s1" by (simp add: s1 same_space_def)
  define es' where "es' = (if z = ?z then us @ vs else us @ (x, a + ?z, z - ?z) # vs)"
  have r2: "fl_rep s2 es'" using r1 fl_rep_unlink(1) [OF r1] at(2) assms(4) by (simp add: s2_def es'_def) (simp add: s1)
  show sp2: "same_space (s\<lparr>committed := committed s \<union> {a..<a + ?z}\<rparr>) s2"
    using sp1 fl_rep_unlink(2) [OF r1] by (auto simp: s2_def same_space_def commit_memory_def)
  show d: "{a..<a + ?z} \<inter> committed s = {}" using assms(4) by (auto simp: i(9) assms(3))
  note gp = gapped_parts [OF i(2) [unfolded assms(3)]]
  have g: "gapped es'" using gp assms(4) by (auto simp: es'_def)
  have "range_bytes es' = range_bytes us \<union> {a + ?z..<a + z} \<union> range_bytes vs" using assms(4) by (simp add: es'_def Un_assoc)
  then have "range_bytes es' = range_bytes es - {a..<a + ?z}"
    using cut_front [OF gp(6,7) assms(4)] unfolding assms(3) by (simp add: Un_assoc)
  then have c: "committed s2 = {space_begin s..<mblock_high_watermark s} - range_bytes es'"
    using sp2 i(9) i(3) [OF e] assms(4) by (auto simp: same_space_def)
  have "card (committed s2) = card (committed s) + ?z"
    using sp2 d finite_committed [OF assms(1)] by (simp add: same_space_def card_Un_disjoint Int_commute)
  then have k: "(mblocks_allocated s + n) * MBLOCK_SIZE = card (committed s2)" using i(10) by (simp add: algebra_simps)
  have en: "0 < w \<and> space_begin s \<le> b \<and> b + w < mblock_high_watermark s \<and> MBLOCK_SIZE dvd b \<and> MBLOCK_SIZE dvd w" if "(y, b, w) \<in> set es'" for y b w
  proof -
    consider "(y, b, w) \<in> set es" | "b = a + ?z" "w = z - ?z" "?z < z" using \<open>(y, b, w) \<in> set es'\<close> assms(3,4) by (auto simp: es'_def split: if_splits)
    then show ?thesis
    proof cases
      case 2
      then have "b + w = a + z" by simp
      then show ?thesis using i(3) [OF e] 2 by (simp add: dvd_diff_nat)
    qed (use i(3) in blast)
  qed
  have "mb_inv (s2\<lparr>mblocks_allocated := mblocks_allocated s + n\<rparr>) es'"
  proof (rule mb_invI [OF assms(1) _ g])
    show "0 < w \<and> space_begin s \<le> b \<and> b + w < mblock_high_watermark (s2\<lparr>mblocks_allocated := mblocks_allocated s + n\<rparr>) \<and> MBLOCK_SIZE dvd b \<and> MBLOCK_SIZE dvd w"
      if "(y, b, w) \<in> set es'" for y b w using en [OF that] sp2 by (simp add: same_space_def)
  qed (use r2 sp2 c k i(5-8) in \<open>simp_all add: same_space_def\<close>)
  then show "\<exists>es'. mb_inv (s2\<lparr>mblocks_allocated := mblocks_allocated s + n\<rparr>) es'" by blast
qed

lemma mb_inv_peak [simp]: "mb_inv (s\<lparr>peak_mblocks_allocated := n\<rparr>) es = mb_inv s es"
  by (simp add: mb_inv_def)

lemma fresh_ok:
  assumes "mb_inv s es" "mblock_high_watermark s + MBLOCK_SIZE * n \<le> space_end s"
  defines "s' \<equiv> (commit_memory (mblock_high_watermark s) (MBLOCK_SIZE * n) s)\<lparr>mblock_high_watermark := mblock_high_watermark s + MBLOCK_SIZE * n\<rparr>"
  shows "mb_inv (s'\<lparr>mblocks_allocated := mblocks_allocated s + n\<rparr>) es"
    "{mblock_high_watermark s..<mblock_high_watermark s + MBLOCK_SIZE * n} \<inter> committed s = {}"
proof -
  note i = mb_invD [OF assms(1)]
  let ?h = "mblock_high_watermark s" and ?z = "MBLOCK_SIZE * n"
  show d: "{?h..<?h + ?z} \<inter> committed s = {}" by (auto simp: i(9))
  have "range_bytes es \<inter> {?h..<?h + ?z} = {}" using i(3) by (fastforce simp: range_bytes_in)
  moreover have "{space_begin s..<?h + ?z} = {space_begin s..<?h} \<union> {?h..<?h + ?z}" using i(5) by auto
  ultimately have c: "committed s' = {space_begin s..<?h + ?z} - range_bytes es" by (auto simp: s'_def commit_memory_def i(9))
  have "card (committed s') = card (committed s) + ?z"
    using d finite_committed [OF assms(1)] by (simp add: s'_def commit_memory_def card_Un_disjoint Int_commute)
  then have k: "(mblocks_allocated s + n) * MBLOCK_SIZE = card (committed s')" using i(10) by (simp add: algebra_simps)
  show "mb_inv (s'\<lparr>mblocks_allocated := mblocks_allocated s + n\<rparr>) es"
  proof (rule mb_invI [OF assms(1) _ i(2)])
    show "0 < z \<and> space_begin s \<le> a \<and> a + z < mblock_high_watermark (s'\<lparr>mblocks_allocated := mblocks_allocated s + n\<rparr>) \<and> MBLOCK_SIZE dvd a \<and> MBLOCK_SIZE dvd z"
      if "(x, a, z) \<in> set es" for x a z using i(3) [OF that] by (simp add: s'_def)
  qed (use i(1,5,8) assms(2) c k in \<open>simp_all add: s'_def commit_memory_def fl_rep_def\<close>)
qed

lemma find_reusable_cases:
  assumes "mb_inv s es"
  obtains (found) us x a z vs where "find_reusable (fl_mem s) sz (free_list_head s) = Some x" "es = us @ (x, a, z) # vs" "sz \<le> z" "x \<noteq> 0"
      "fl_address (fl_mem s x) = a"
  | (none) "find_reusable (fl_mem s) sz (free_list_head s) = Some 0" "\<And>x a z. (x, a, z) \<in> set es \<Longrightarrow> z < sz"
proof -
  let ?P = "\<lambda>(x, a, z). z < sz"
  note i = mb_invD [OF assms]
  obtain q where "dl_part (\<lambda>a. fl_next (fl_mem s a)) (\<lambda>a. fl_prev (fl_mem s a)) 0 (free_list_head s) (map fst es) q 0" using fl_repD(1) [OF i(1)] by blast
  then have f: "find_reusable (fl_mem s) sz (free_list_head s) = Some (case dropWhile ?P es of [] \<Rightarrow> 0 | (x, a, z) # _ \<Rightarrow> x)"
    by (rule find_reusable_eq) (use i(1) in \<open>auto simp: fl_rep_def\<close>)
  show thesis
  proof (cases "dropWhile ?P es")
    case Nil
    show thesis
    proof (rule none)
      show "z < sz" if "(x, a, z) \<in> set es" for x a z using Nil that by (auto simp: dropWhile_eq_Nil_conv)
    qed (use f Nil in simp)
  next
    case (Cons e vs)
    obtain x a z where e: "e = (x, a, z)" by (cases e)
    have n: "\<not> z < sz" using Cons hd_dropWhile [of ?P es] by (simp add: e)
    obtain us where s: "es = us @ (x, a, z) # vs" using takeWhile_dropWhile_id [of ?P es] by (metis Cons e)
    show thesis using f Cons e n fl_rep_at(3,5) [OF i(1) [unfolded s]] by (intro found [OF _ s]) simp_all
  qed
qed

lemma os_grants_same: "os_grants (upd_fl p f s) = os_grants s" "os_grants (unlink_range p s) = os_grants s"
  by (simp_all add: os_grants_def upd_fl_def unlink_range_def Let_def)

lemma getMBlocks_ok:
  assumes "mb_inv s es" "0 < n"
  obtains (got) addr s' es' where "getMBlocks n s = Some (Inr (addr, s'))" "mb_inv s' es'" "{addr..<addr + MBLOCK_SIZE * n} \<inter> committed s = {}"
      "committed s' = committed s \<union> {addr..<addr + MBLOCK_SIZE * n}" "MBLOCK_SIZE dvd addr" "space_begin s \<le> addr" "addr + MBLOCK_SIZE * n \<le> space_end s"
      "space_begin s' = space_begin s" "space_end s' = space_end s" "mblocks_allocated s' = mblocks_allocated s + n" "os_grants s"
  | (refused) "getMBlocks n s = Some (Inl CommitFailed)" "\<not> os_grants s"
  | (full) "getMBlocks n s = Some (Inl OutOfMemory)"
      "\<And>addr. {addr..<addr + MBLOCK_SIZE * n} \<subseteq> {space_begin s..<space_end s} \<Longrightarrow> {addr..<addr + MBLOCK_SIZE * n} \<inter> committed s \<noteq> {}"
proof -
  note i = mb_invD [OF assms(1)]
  let ?z = "MBLOCK_SIZE * n"
  have z: "?z > 0" using assms(2) by (simp add: MBLOCK_SIZE_def)
  from assms(1) show thesis
  proof (cases rule: find_reusable_cases [where sz = ?z])
    case (found us x a z vs)
    have e: "(x, a, z) \<in> set es" by (simp add: found(2))
    then have a: "a > 0" "space_begin s \<le> a" "a + ?z \<le> space_end s" "MBLOCK_SIZE dvd a" using i(3) [OF e] i(4,6) found(3) by auto
    define s1 where "s1 = upd_fl x (\<lambda>f. f\<lparr>fl_address := fl_address f + ?z, fl_size := fl_size f - ?z\<rparr>) s"
    define s0 where "s0 = (if fl_size (fl_mem s1 x) = 0 then unlink_range x s1 else s1)"
    define s2 where "s2 = commit_memory a ?z s0"
    define s' where "s' = (s2\<lparr>mblocks_allocated := mblocks_allocated s2 + n\<rparr>)\<lparr>peak_mblocks_allocated := max (peak_mblocks_allocated s2) (mblocks_allocated s2 + n)\<rparr>"
    have c: "getReusableMBlocks n s = Some (if os_grants s then Inr (a, s2) else Inl CommitFailed)"
      using found(1,4,5) by (simp add: getReusableMBlocks_def Let_def s2_def s1_def s0_def osCommitMemory_def os_grants_same)
    note r = reuse_ok [OF assms found(2,3), folded s1_def, folded s0_def, folded s2_def]
    show thesis
    proof (cases "os_grants s")
      case False
      then show thesis using c by (intro refused) (simp_all add: getMBlocks_def getCommittedMBlocks_def)
    next
      case True
    then have g: "getMBlocks n s = Some (Inr (a, s'))" using a(1) c by (simp add: getMBlocks_def getCommittedMBlocks_def s'_def)
      obtain es' where es': "mb_inv s' es'" using r by (auto simp: s'_def same_space_def)
      show thesis
        by (rule got [OF g es' r(3)]) (use a(2-4) r(2) True in \<open>simp_all add: same_space_def s'_def\<close>)
    qed
  next
    case none
    then have g: "getMBlocks n s = Some (map_sum id (\<lambda>(ret, s).
        let s = s\<lparr>mblocks_allocated := mblocks_allocated s + n\<rparr> in (ret, s\<lparr>peak_mblocks_allocated := max (peak_mblocks_allocated s) (mblocks_allocated s)\<rparr>))
        (getFreshMBlocks n s))"
      by (simp add: getMBlocks_def getCommittedMBlocks_def getReusableMBlocks_def Let_def)
    show thesis
    proof (cases "mblock_high_watermark s + ?z \<le> space_end s \<and> os_grants s")
      case granted: True
      then have True: "mblock_high_watermark s + ?z \<le> space_end s" and os: "os_grants s" by simp_all
      note f = fresh_ok [OF assms(1) True]
      define s1 where "s1 = (commit_memory (mblock_high_watermark s) ?z s)\<lparr>mblock_high_watermark := mblock_high_watermark s + ?z\<rparr>"
      define s' where "s' = (s1\<lparr>mblocks_allocated := mblocks_allocated s + n\<rparr>)\<lparr>peak_mblocks_allocated := max (peak_mblocks_allocated s) (mblocks_allocated s + n)\<rparr>"
      have "getMBlocks n s = Some (Inr (mblock_high_watermark s, s'))"
        using g True os by (simp add: getFreshMBlocks_def Let_def s'_def s1_def osCommitMemory_def commit_memory_def)
      moreover have "mb_inv s' es" using f(1) by (simp add: s'_def s1_def)
      ultimately show thesis
        using f(2) by (rule got) (use True os i(5,8) in \<open>simp_all add: s'_def s1_def commit_memory_def\<close>)
    next
      case outside: False
      show thesis
      proof (cases "mblock_high_watermark s + ?z \<le> space_end s")
        case True
        then show thesis using outside g by (intro refused) (simp_all add: getFreshMBlocks_def Let_def osCommitMemory_def)
      next
        case False
      show thesis
      proof (rule full)
        show "getMBlocks n s = Some (Inl OutOfMemory)" using g False by (simp add: getFreshMBlocks_def Let_def)
        show "{addr..<addr + ?z} \<inter> committed s \<noteq> {}" if "{addr..<addr + ?z} \<subseteq> {space_begin s..<space_end s}" for addr
        proof
          assume d: "{addr..<addr + ?z} \<inter> committed s = {}"
          have "space_begin s \<le> addr" "addr + ?z \<le> space_end s" using that z by (auto simp: ivl_subset)
          then obtain x a y where "(x, a, y) \<in> set es" "a \<le> addr" "addr + ?z \<le> a + y" using free_run [OF assms(1) z d] False by auto
          then show False using none(2) [of x a y] by simp
        qed
      qed
      qed
    qed
  qed
qed

section \<open>Decommitting\<close>

lemma find_spot_cases:
  assumes "mb_inv s es"
  obtains (found) us x a z vs p where "find_spot (fl_mem s) address (free_list_head s) 0 = Some (x, p)" "es = us @ (x, a, z) # vs" "address \<le> a + z"
      "\<forall>(y, b, w) \<in> set us. b + w < address" "x \<noteq> 0" "fl_address (fl_mem s x) = a" "fl_size (fl_mem s x) = z"
  | (none) "find_spot (fl_mem s) address (free_list_head s) 0 = Some (0, if es = [] then 0 else fst (last es))" "\<forall>(y, b, w) \<in> set es. b + w < address"
proof -
  let ?P = "\<lambda>(x, a, z). a + z < address"
  note i = mb_invD [OF assms]
  obtain q where "dl_part (\<lambda>a. fl_next (fl_mem s a)) (\<lambda>a. fl_prev (fl_mem s a)) 0 (free_list_head s) (map fst es) q 0" using fl_repD(1) [OF i(1)] by blast
  then have f: "find_spot (fl_mem s) address (free_list_head s) 0 = Some (case dropWhile ?P es of [] \<Rightarrow> 0 | (x, a, z) # _ \<Rightarrow> x,
      case rev (takeWhile ?P es) of [] \<Rightarrow> 0 | (x, a, z) # _ \<Rightarrow> x)"
    by (rule find_spot_eq) (use i(1) in \<open>auto simp: fl_rep_def\<close>)
  show thesis
  proof (cases "dropWhile ?P es")
    case Nil
    then have a: "\<forall>e \<in> set es. ?P e" by (simp add: dropWhile_eq_Nil_conv)
    then have "takeWhile ?P es = es" by (simp add: takeWhile_eq_all_conv)
    then show thesis using f Nil a by (intro none) (cases es rule: rev_cases; auto)+
  next
    case (Cons e vs)
    obtain x a z where e: "e = (x, a, z)" by (cases e)
    have n: "address \<le> a + z" using Cons hd_dropWhile [of ?P es] by (simp add: e)
    obtain us where s: "es = us @ (x, a, z) # vs" "us = takeWhile ?P es" using takeWhile_dropWhile_id [of ?P es] by (metis Cons e)
    have "\<forall>u \<in> set us. ?P u" unfolding s(2) using set_takeWhileD by fastforce
    moreover have "find_spot (fl_mem s) address (free_list_head s) 0 = Some (x, case rev us of [] \<Rightarrow> 0 | (x, a, z) # _ \<Rightarrow> x)"
      using f Cons e s(2) [symmetric] by simp
    ultimately show thesis using n fl_rep_at(3-5) [OF i(1) [unfolded s(1)]] by (intro found [OF _ s(1)]) simp_all
  qed
qed

lemma mb_freed:
  assumes "mb_inv s es" "{addr..<addr + MBLOCK_SIZE * n} \<subseteq> committed s" "fl_rep s' es'" "gapped es'"
    "\<And>x a z. (x, a, z) \<in> set es' \<Longrightarrow> 0 < z \<and> space_begin s \<le> a \<and> a + z < mblock_high_watermark s' \<and> MBLOCK_SIZE dvd a \<and> MBLOCK_SIZE dvd z"
    "space_begin s \<le> mblock_high_watermark s'" "mblock_high_watermark s' \<le> mblock_high_watermark s" "MBLOCK_SIZE dvd mblock_high_watermark s'"
    "{space_begin s..<mblock_high_watermark s'} - range_bytes es' = {space_begin s..<mblock_high_watermark s} - range_bytes es - {addr..<addr + MBLOCK_SIZE * n}"
    "same_space (s\<lparr>mblock_high_watermark := mblock_high_watermark s', committed := committed s - {addr..<addr + MBLOCK_SIZE * n},
      mblocks_allocated := mblocks_allocated s - n\<rparr>) s'"
  shows "mb_inv s' es' \<and> committed s' = committed s - {addr..<addr + MBLOCK_SIZE * n} \<and> space_begin s' = space_begin s \<and> space_end s' = space_end s \<and>
    mblocks_allocated s' = mblocks_allocated s - n"
proof -
  note i = mb_invD [OF assms(1)]
  have "card (committed s - {addr..<addr + MBLOCK_SIZE * n}) = card (committed s) - MBLOCK_SIZE * n"
    using assms(2) by (simp add: card_Diff_subset)
  then have k: "(mblocks_allocated s - n) * MBLOCK_SIZE = card (committed s - {addr..<addr + MBLOCK_SIZE * n})"
    using i(10) by (simp add: diff_mult_distrib2 mult.commute)
  have "mb_inv s' es'"
    by (rule mb_invI [OF assms(1,3,4,5)]) (use assms(6-10) i(6,9) k in \<open>simp_all add: same_space_def\<close>)
  then show ?thesis using assms(10) by (simp add: same_space_def)
qed

text \<open>The state in which the range is entered into the list, and what is to be shown of the result.\<close>

definition freeing :: "mb_state \<Rightarrow> ranges \<Rightarrow> nat \<Rightarrow> nat \<Rightarrow> mb_state \<Rightarrow> bool" where
  "freeing s es addr n s0 \<longleftrightarrow> mb_inv s es \<and> 0 < n \<and> MBLOCK_SIZE dvd addr \<and> {addr..<addr + MBLOCK_SIZE * n} \<subseteq> committed s \<and>
    s0 = osDecommitMemory addr (MBLOCK_SIZE * n) (s\<lparr>mblocks_allocated := mblocks_allocated s - n\<rparr>)"

definition freed :: "mb_state \<Rightarrow> nat \<Rightarrow> nat \<Rightarrow> mb_state \<Rightarrow> bool" where
  "freed s addr n s' \<longleftrightarrow> (\<exists>es'. mb_inv s' es') \<and> committed s' = committed s - {addr..<addr + MBLOCK_SIZE * n} \<and>
    space_begin s' = space_begin s \<and> space_end s' = space_end s \<and> mblocks_allocated s' = mblocks_allocated s - n"

lemma freeingD:
  assumes "freeing s es addr n s0"
  shows "mb_inv s es" "MBLOCK_SIZE dvd addr" "MBLOCK_SIZE * n > 0" "fl_rep s0 es"
    "fl_mem s0 = fl_mem s" "free_list_head s0 = free_list_head s" "mblock_high_watermark s0 = mblock_high_watermark s"
    "space_begin s \<le> addr" "addr + MBLOCK_SIZE * n \<le> mblock_high_watermark s"
    "(x, a, y) \<in> set es \<Longrightarrow> a + y \<le> addr \<or> addr + MBLOCK_SIZE * n \<le> a"
proof -
  let ?z = "MBLOCK_SIZE * n"
  have f: "mb_inv s es" "0 < n" "{addr..<addr + ?z} \<subseteq> committed s" using assms by (simp_all add: freeing_def)
  note i = mb_invD [OF f(1)]
  show "mb_inv s es" "MBLOCK_SIZE dvd addr" "fl_rep s0 es" "fl_mem s0 = fl_mem s" "free_list_head s0 = free_list_head s"
    "mblock_high_watermark s0 = mblock_high_watermark s"
    using assms i(1) by (simp_all add: freeing_def osDecommitMemory_def)
  show z: "?z > 0" using f(2) by (simp add: MBLOCK_SIZE_def)
  have "addr \<in> {addr..<addr + ?z}" "addr + ?z - 1 \<in> {addr..<addr + ?z}" unfolding atLeastLessThan_iff using z by linarith+
  then have "addr \<in> committed s" "addr + ?z - 1 \<in> committed s" using f(3) by blast+
  then show "space_begin s \<le> addr" "addr + ?z \<le> mblock_high_watermark s" by (auto simp: i(9))
  have dis: "range_bytes es \<inter> {addr..<addr + ?z} = {}" using f(3) by (auto simp: i(9))
  show "a + y \<le> addr \<or> addr + ?z \<le> a" if "(x, a, y) \<in> set es"
  proof (rule ccontr)
    assume "\<not> (a + y \<le> addr \<or> addr + ?z \<le> a)"
    then have "max a addr \<in> {addr..<addr + ?z}" "max a addr \<in> {a..<a + y}" using z i(3) [OF that] by (auto simp: max_def)
    then show False using dis that unfolding range_bytes_def by blast
  qed
qed

lemma freed_low:
  assumes "freeing s es addr n s0" "fl_rep s' es'" "gapped es'"
    "\<And>x a z. (x, a, z) \<in> set es' \<Longrightarrow> 0 < z \<and> space_begin s \<le> a \<and> a + z < mblock_high_watermark s' \<and> MBLOCK_SIZE dvd a \<and> MBLOCK_SIZE dvd z"
    "space_begin s \<le> mblock_high_watermark s'" "mblock_high_watermark s' \<le> mblock_high_watermark s" "MBLOCK_SIZE dvd mblock_high_watermark s'"
    "{space_begin s..<mblock_high_watermark s'} - range_bytes es' = {space_begin s..<mblock_high_watermark s} - range_bytes es - {addr..<addr + MBLOCK_SIZE * n}"
    "same_space (s0\<lparr>mblock_high_watermark := mblock_high_watermark s'\<rparr>) s'"
  shows "freed s addr n s'"
proof -
  have f: "mb_inv s es" "{addr..<addr + MBLOCK_SIZE * n} \<subseteq> committed s" using assms(1) by (simp_all add: freeing_def)
  have sp: "same_space (s\<lparr>mblock_high_watermark := mblock_high_watermark s', committed := committed s - {addr..<addr + MBLOCK_SIZE * n},
      mblocks_allocated := mblocks_allocated s - n\<rparr>) s'"
    using assms(1,9) by (simp add: freeing_def osDecommitMemory_def same_space_def)
  have "mb_inv s' es' \<and> committed s' = committed s - {addr..<addr + MBLOCK_SIZE * n} \<and> space_begin s' = space_begin s \<and> space_end s' = space_end s \<and>
      mblocks_allocated s' = mblocks_allocated s - n"
    by (rule mb_freed [OF f assms(2,3) _ assms(5-8) sp]) (rule assms(4))
  then show ?thesis unfolding freed_def by blast
qed

lemma freed_inside:
  assumes "freeing s es addr n s0" "fl_rep s' es' \<and> same_space s0 s'" "gapped es'"
    "\<And>x a z. (x, a, z) \<in> set es' \<Longrightarrow> (x, a, z) \<in> set es \<or>
      0 < z \<and> space_begin s \<le> a \<and> a + z < mblock_high_watermark s \<and> MBLOCK_SIZE dvd a \<and> MBLOCK_SIZE dvd z"
    "range_bytes es' = range_bytes es \<union> {addr..<addr + MBLOCK_SIZE * n}"
  shows "freed s addr n s'"
proof -
  note d = freeingD [OF assms(1)] and i = mb_invD [OF freeingD(1) [OF assms(1)]]
  have h: "mblock_high_watermark s' = mblock_high_watermark s" using assms(2) d(7) by (simp add: same_space_def)
  show ?thesis
  proof (rule freed_low [OF assms(1) _ assms(3)])
    show "0 < z \<and> space_begin s \<le> a \<and> a + z < mblock_high_watermark s' \<and> MBLOCK_SIZE dvd a \<and> MBLOCK_SIZE dvd z" if "(x, a, z) \<in> set es'" for x a z
      using assms(4) [OF that] i(3) [of x a z] unfolding h by blast
  qed (use assms(2,5) i(5,8) h d(7) in \<open>auto simp: same_space_def\<close>)
qed

lemma free_reaching_top:
  assumes "freeing s es addr n s0" "es = us @ (x, a, y) # vs" "a + y = addr" "addr + MBLOCK_SIZE * n = mblock_high_watermark s"
  shows "freed s addr n (extend_entry x addr (MBLOCK_SIZE * n) s0)"
proof -
  let ?z = "MBLOCK_SIZE * n" and ?s' = "extend_entry x addr (MBLOCK_SIZE * n) s0"
  note d = freeingD [OF assms(1)] and i = mb_invD [OF freeingD(1) [OF assms(1)]]
  note gp = gapped_parts [OF i(2) [unfolded assms(2)]] and r = d(4) [unfolded assms(2)]
  have ie: "0 < y \<and> space_begin s \<le> a \<and> MBLOCK_SIZE dvd a" using i(3) [of x a y] by (simp add: assms(2))
  have vs: "vs = []"
  proof (rule ccontr)
    assume "vs \<noteq> []"
    then obtain w c v where v: "(w, c, v) \<in> set vs" by (cases vs) auto
    then have "a + y < c" "0 < v" "c + v < mblock_high_watermark s" using gp(4) i(3) [of w c v] by (auto simp: assms(2))
    then show False using d(10) [of w c v] v assms(3,4) by (auto simp: assms(2))
  qed
  note x = extend_last [OF r [unfolded vs], of addr ?z, unfolded d(7), OF assms(4)]
  have h: "mblock_high_watermark ?s' = a" using x(2) assms(3,4) by (simp add: same_space_def)
  show ?thesis
  proof (rule freed_low [OF assms(1) x(1)])
    show "0 < v \<and> space_begin s \<le> c \<and> c + v < mblock_high_watermark ?s' \<and> MBLOCK_SIZE dvd c \<and> MBLOCK_SIZE dvd v" if "(w, c, v) \<in> set us" for w c v
      using that i(3) [of w c v] gp(3) by (auto simp: h assms(2))
    have "range_bytes us \<subseteq> {..<a}" using gp(3) by (fastforce simp: range_bytes_in)
    then show "{space_begin s..<mblock_high_watermark ?s'} - range_bytes us = {space_begin s..<mblock_high_watermark s} - range_bytes es - {addr..<addr + ?z}"
      unfolding h assms(2) vs using assms(3,4) by auto
  qed (use x gp(1) ie h assms(3,4) in \<open>simp_all add: same_space_def\<close>)
qed

lemma free_after:
  assumes "freeing s es addr n s0" "es = us @ (x, a, y) # vs" "a + y = addr" "addr + MBLOCK_SIZE * n \<noteq> mblock_high_watermark s"
  shows "freed s addr n (extend_entry x addr (MBLOCK_SIZE * n) s0)"
proof -
  let ?z = "MBLOCK_SIZE * n"
  note d = freeingD [OF assms(1)] and i = mb_invD [OF freeingD(1) [OF assms(1)]]
  note gp = gapped_parts [OF i(2) [unfolded assms(2)]] and r = d(4) [unfolded assms(2)]
  have hw0: "addr + ?z \<noteq> mblock_high_watermark s0" by (simp add: d(7) assms(4))
  have new: "0 < y + ?z + v \<and> space_begin s \<le> a \<and> MBLOCK_SIZE dvd a \<and> MBLOCK_SIZE dvd y + ?z" for v
    using i(3) [of x a y] by (simp add: assms(2))
  have j: "{a..<a + (y + ?z)} = {a..<a + y} \<union> {addr..<addr + ?z}" using assms(3) by auto
  have up: "addr + ?z \<le> c" if "(w, c, v) \<in> set vs" for w c v
    using d(10) [of w c v] gp(4) i(3) [of w c v] that assms(3) by (auto simp: assms(2))
  show ?thesis
  proof (cases "\<exists>w v vs'. vs = (w, a + (y + ?z), v) # vs'")
    case True
    then obtain w v vs' where vs: "vs = (w, a + (y + ?z), v) # vs'" by blast
    have iv: "0 < v \<and> a + (y + ?z) + v < mblock_high_watermark s \<and> MBLOCK_SIZE dvd v"
      using i(3) [of w "a + (y + ?z)" v] by (simp add: assms(2) vs)
    note x = extend_join [OF r [unfolded vs] hw0 refl]
    show ?thesis
    proof (rule freed_inside [OF assms(1) conjI [OF x]])
      show "gapped (us @ (x, a, y + ?z + v) # vs')" using gp(1-5) by (auto simp: vs add.assoc)
      have "{a..<a + (y + ?z + v)} = {a..<a + (y + ?z)} \<union> {a + (y + ?z)..<a + (y + ?z) + v}" by auto
      then show "range_bytes (us @ (x, a, y + ?z + v) # vs') = range_bytes es \<union> {addr..<addr + ?z}"
        unfolding assms(2) vs by (simp only: range_bytes_simps j) blast
    qed (use new iv in \<open>auto simp: assms(2) vs\<close>)
  next
    case False
    have gv: "a + (y + ?z) < c" if "(w, c, v) \<in> set vs" for w c v
    proof -
      have "vs \<noteq> []" using that by auto
      then obtain w0 c0 v0 vs' where vs: "vs = (w0, c0, v0) # vs'" by (cases vs) auto
      have "addr + ?z < c0" using up [of w0 c0 v0] False assms(3) by (auto simp: vs nat_less_le add.assoc)
      moreover have "(w, c, v) \<in> set vs' \<Longrightarrow> c0 + v0 < c" using gp(2) by (auto simp: vs)
      ultimately show ?thesis using that assms(3) by (auto simp: vs)
    qed
    then have ne: "c \<noteq> a + (y + ?z)" if "(w, c, v) \<in> set vs" for w c v using that by blast
    have "a + (y + ?z) < mblock_high_watermark s" using d(9) assms(3,4) by simp
    note x = extend_plain [OF r hw0 ne]
    show ?thesis
    proof (rule freed_inside [OF assms(1) conjI [OF x]])
      show "gapped (us @ (x, a, y + ?z) # vs)" using gp(1-5) gv by auto
      show "range_bytes (us @ (x, a, y + ?z) # vs) = range_bytes es \<union> {addr..<addr + ?z}"
        unfolding assms(2) by (simp only: range_bytes_simps j) blast
    qed (use new [of 0] \<open>a + (y + ?z) < mblock_high_watermark s\<close> in \<open>auto simp: assms(2)\<close>)
  qed
qed

lemma free_before:
  assumes "freeing s es addr n s0" "es = us @ (x, a, y) # vs" "\<forall>(w, c, v) \<in> set us. c + v < addr" "addr + MBLOCK_SIZE * n = a"
  shows "freed s addr n (upd_fl x (\<lambda>f. f\<lparr>fl_address := addr, fl_size := fl_size f + MBLOCK_SIZE * n\<rparr>) s0)"
proof -
  let ?z = "MBLOCK_SIZE * n"
  note d = freeingD [OF assms(1)] and i = mb_invD [OF freeingD(1) [OF assms(1)]]
  note gp = gapped_parts [OF i(2) [unfolded assms(2)]] and r = d(4) [unfolded assms(2)]
  have u: "upd_fl x (\<lambda>f. f\<lparr>fl_address := addr, fl_size := fl_size f + ?z\<rparr>) s0 = upd_fl x (\<lambda>f. f\<lparr>fl_address := addr, fl_size := y + ?z\<rparr>) s0"
    using fl_rep_at(4) [OF r] by (simp add: upd_fl_def)
  have x: "fl_rep (upd_fl x (\<lambda>f. f\<lparr>fl_address := addr, fl_size := y + ?z\<rparr>) s0) (us @ (x, addr, y + ?z) # vs) \<and>
      same_space s0 (upd_fl x (\<lambda>f. f\<lparr>fl_address := addr, fl_size := y + ?z\<rparr>) s0)"
    using fl_rep_change [OF r] by (simp add: same_space_def)
  have e: "addr + (y + ?z) = a + y" "0 < y + ?z" "{addr..<addr + (y + ?z)} = {addr..<addr + ?z} \<union> {a..<a + y}" using assms(4) d(3) by auto
  show ?thesis
    unfolding u
  proof (rule freed_inside [OF assms(1) x])
    show "gapped (us @ (x, addr, y + ?z) # vs)" using gp(1-5) assms(3) e(1) by auto
    show "range_bytes (us @ (x, addr, y + ?z) # vs) = range_bytes es \<union> {addr..<addr + ?z}" unfolding assms(2) range_bytes_simps e(3) by blast
    show "(w, c, v) \<in> set es \<or> 0 < v \<and> space_begin s \<le> c \<and> c + v < mblock_high_watermark s \<and> MBLOCK_SIZE dvd c \<and> MBLOCK_SIZE dvd v"
      if "(w, c, v) \<in> set (us @ (x, addr, y + ?z) # vs)" for w c v
    proof (cases "(w, c, v) \<in> set es")
      case False
      then have "c = addr" "v = y + ?z" using that by (auto simp: assms(2))
      then show ?thesis using e(1,2) i(3) [of x a y] d(2,8) by (simp add: assms(2))
    qed blast
  qed
qed

lemma free_between:
  assumes "freeing s es addr n s0" "es = us @ (x, a, y) # vs" "\<forall>(w, c, v) \<in> set us. c + v < addr" "addr + MBLOCK_SIZE * n < a"
    "new \<noteq> 0" "new \<notin> fst ` set es"
  shows "freed s addr n (insert_before new x addr (MBLOCK_SIZE * n) s0)"
proof -
  let ?z = "MBLOCK_SIZE * n"
  note d = freeingD [OF assms(1)] and i = mb_invD [OF freeingD(1) [OF assms(1)]]
  note gp = gapped_parts [OF i(2) [unfolded assms(2)]] and r = d(4) [unfolded assms(2)]
  note x = fl_rep_insert_before [OF r assms(6) [unfolded assms(2)] assms(5), of addr ?z]
  show ?thesis
  proof (rule freed_inside [OF assms(1) conjI [OF x]])
    show "gapped (us @ (new, addr, ?z) # (x, a, y) # vs)" using gp(1-5) assms(3,4) by force
    show "(w, c, v) \<in> set es \<or> 0 < v \<and> space_begin s \<le> c \<and> c + v < mblock_high_watermark s \<and> MBLOCK_SIZE dvd c \<and> MBLOCK_SIZE dvd v"
      if "(w, c, v) \<in> set (us @ (new, addr, ?z) # (x, a, y) # vs)" for w c v
    proof (cases "(w, c, v) \<in> set es")
      case False
      then have "c = addr" "v = ?z" using that by (auto simp: assms(2))
      then show ?thesis using assms(4) i(3) [of x a y] d(2,3,8) by (simp add: assms(2))
    qed blast
  qed (auto simp: assms(2))
qed

lemma free_top:
  assumes "freeing s es addr n s0" "\<forall>(w, c, v) \<in> set es. c + v < addr" "addr + MBLOCK_SIZE * n = mblock_high_watermark s"
  shows "freed s addr n (s0\<lparr>mblock_high_watermark := mblock_high_watermark s - MBLOCK_SIZE * n\<rparr>)"
proof -
  note d = freeingD [OF assms(1)] and i = mb_invD [OF freeingD(1) [OF assms(1)]]
  have h: "mblock_high_watermark s - MBLOCK_SIZE * n = addr" using assms(3) by simp
  show ?thesis
    unfolding h
  proof (rule freed_low [OF assms(1), where es' = es])
    show "0 < v \<and> space_begin s \<le> c \<and> c + v < mblock_high_watermark (s0\<lparr>mblock_high_watermark := addr\<rparr>) \<and> MBLOCK_SIZE dvd c \<and> MBLOCK_SIZE dvd v"
      if "(w, c, v) \<in> set es" for w c v using i(3) [OF that] assms(2) that by auto
  qed (use assms(3) d i(2) in \<open>auto simp: same_space_def\<close>)
qed

lemma free_last:
  assumes "freeing s es addr n s0" "\<forall>(w, c, v) \<in> set es. c + v < addr" "addr + MBLOCK_SIZE * n \<noteq> mblock_high_watermark s"
    "new \<noteq> 0" "new \<notin> fst ` set es"
  shows "freed s addr n (insert_last new (if es = [] then 0 else fst (last es)) addr (MBLOCK_SIZE * n) s0)"
proof -
  note d = freeingD [OF assms(1)] and i = mb_invD [OF freeingD(1) [OF assms(1)]]
  note x = fl_rep_insert_last [OF d(4) assms(5,4) refl, of addr "MBLOCK_SIZE * n"]
  show ?thesis
  proof (rule freed_inside [OF assms(1) conjI [OF x]])
    show "gapped (es @ [(new, addr, MBLOCK_SIZE * n)])" using i(2) assms(2) by auto
  qed (use assms(3) d(2,3,8,9) in auto)
qed

lemma freeMBlocks_ok:
  assumes "mb_inv s es" "0 < n" "MBLOCK_SIZE dvd addr" "{addr..<addr + MBLOCK_SIZE * n} \<subseteq> committed s" "new \<noteq> 0" "new \<notin> fst ` set es"
  shows "\<exists>s'. freeMBlocks new addr n s = Some s' \<and> freed s addr n s'"
proof -
  let ?z = "MBLOCK_SIZE * n" and ?h = "mblock_high_watermark s"
  define s0 where "s0 = osDecommitMemory addr ?z (s\<lparr>mblocks_allocated := mblocks_allocated s - n\<rparr>)"
  have f: "freeing s es addr n s0" using assms(1-4) by (simp add: freeing_def s0_def)
  note d = freeingD [OF f]
  from assms(1) show ?thesis
  proof (cases rule: find_spot_cases [where address = addr])
    case (found us x a y vs p)
    have e: "freeMBlocks new addr n s = Some (if a + y = addr then extend_entry x addr ?z s0
        else if addr + ?z = a then upd_fl x (\<lambda>f. f\<lparr>fl_address := addr, fl_size := fl_size f + ?z\<rparr>) s0 else insert_before new x addr ?z s0)"
      using found(1,5-7) by (simp add: freeMBlocks_def decommitMBlocks_def Let_def s0_def [symmetric] d(5,6))
    have "a + y = addr \<or> addr + ?z \<le> a" using d(10) [of x a y] found(3) by (auto simp: found(2))
    then consider "a + y = addr" | "a + y \<noteq> addr" "addr + ?z = a" | "a + y \<noteq> addr" "addr + ?z < a" by linarith
    then show ?thesis
    proof cases
      case 1
      then show ?thesis using e free_reaching_top [OF f found(2) 1] free_after [OF f found(2) 1] by (cases "addr + ?z = ?h") auto
    next
      case 2
      then show ?thesis using e free_before [OF f found(2,4) 2(2)] by simp
    next
      case 3
      then show ?thesis using e free_between [OF f found(2,4) 3(2) assms(5,6)] by simp
    qed
  next
    case none
    have "freeMBlocks new addr n s = Some (if addr + ?z = ?h then s0\<lparr>mblock_high_watermark := ?h - ?z\<rparr>
        else insert_last new (if es = [] then 0 else fst (last es)) addr ?z s0)"
      using none(1) by (simp add: freeMBlocks_def decommitMBlocks_def Let_def s0_def [symmetric] d(5-7))
    then show ?thesis using free_top [OF f none(2)] free_last [OF f none(2) _ assms(5,6)] by (cases "addr + ?z = ?h") auto
  qed
qed

section \<open>Walking over the committed megablocks\<close>

text \<open>\<open>iter\<close> points into the free list, and the entries before it end before \<open>p\<close>.\<close>

definition walk_at :: "mb_state \<Rightarrow> ranges \<Rightarrow> nat \<Rightarrow> nat \<Rightarrow> bool" where
  "walk_at s es iter p \<longleftrightarrow> (\<exists>us vs r q. es = us @ vs \<and> (\<forall>(x, a, z) \<in> set us. a + z \<le> p) \<and>
    dl_part (\<lambda>a. fl_next (fl_mem s a)) (\<lambda>a. fl_prev (fl_mem s a)) r iter (map fst vs) q 0)"

lemma skip_free_ok:
  assumes "dl_part (\<lambda>a. fl_next (m a)) prv r iter (map fst vs) q 0" "\<forall>(x, a, z) \<in> set vs. fl_address (m x) = a \<and> fl_size (m x) = z \<and> 0 < z"
    "gapped vs" "\<forall>(x, a, z) \<in> set vs. \<not> (a < p \<and> p < a + z)"
  shows "\<exists>us ws r' iter' p'. vs = us @ ws \<and> skip_free m iter p = Some (iter', p') \<and> p \<le> p' \<and> (\<forall>(x, a, z) \<in> set us. a + z \<le> p') \<and>
    (\<forall>(x, a, z) \<in> set ws. p' < a) \<and> dl_part (\<lambda>a. fl_next (m a)) prv r' iter' (map fst ws) q 0 \<and> {p..<p'} \<subseteq> range_bytes us \<and> p' \<in> insert p ((\<lambda>(x, a, z). a + z) ` set us)"
  using assms
proof (induction vs arbitrary: iter r p)
  case Nil
  then show ?case by (intro exI [of _ "[]"] exI [of _ q] exI [of _ 0] exI [of _ p]) (simp add: skip_free.simps)
next
  case (Cons e vs)
  obtain x a z where e: "e = (x, a, z)" by (cases e)
  have n: "iter = x" "x \<noteq> 0" "dl_part (\<lambda>a. fl_next (m a)) prv x (fl_next (m x)) (map fst vs) q 0" "fl_address (m x) = a" "fl_size (m x) = z" "0 < z"
    using Cons.prems(1,2) by (simp_all add: e)
  have g: "gapped vs" "\<forall>(y, b, w) \<in> set vs. a + z < b" using Cons.prems(3) by (simp_all add: e)
  show ?case
  proof (cases "p < a")
    case True
    then have "skip_free m iter p = Some (iter, p)" using n by (simp add: skip_free.simps)
    moreover have "\<forall>(y, b, w) \<in> set (e # vs). p < b" using True g(2) by (auto simp: e)
    ultimately show ?thesis using Cons.prems(1) by (intro exI [of _ "[]"] exI [of _ "e # vs"] exI [of _ r] exI [of _ iter] exI [of _ p]) simp
  next
    case False
    define p1 where "p1 = (if p = a then a + z else p)"
    have p1: "p \<le> p1" "a + z \<le> p1" "{p..<p1} \<subseteq> {a..<a + z}" "p1 = p \<or> p1 = a + z" using False Cons.prems(4) by (auto simp: p1_def e)
    have st: "skip_free m iter p = skip_free m (fl_next (m x)) p1" using n False by (subst skip_free.simps) (simp add: p1_def)
    have v: "\<forall>(y, b, w) \<in> set vs. fl_address (m y) = b \<and> fl_size (m y) = w \<and> 0 < w" using Cons.prems(2) by simp
    have "\<forall>(y, b, w) \<in> set vs. \<not> (b < p1 \<and> p1 < b + w)" using Cons.prems(4) g(2) p1(4) by (fastforce simp: e)
    from Cons.IH [OF n(3) v g(1) this] obtain us ws r' iter' p' where
      r: "vs = us @ ws" "skip_free m (fl_next (m x)) p1 = Some (iter', p')" "p1 \<le> p'" "\<forall>(x, a, z) \<in> set us. a + z \<le> p'" "\<forall>(x, a, z) \<in> set ws. p' < a"
        "dl_part (\<lambda>a. fl_next (m a)) prv r' iter' (map fst ws) q 0" "{p1..<p'} \<subseteq> range_bytes us" "p' \<in> insert p1 ((\<lambda>(x, a, z). a + z) ` set us)" by blast
    have "{p..<p'} \<subseteq> {p..<p1} \<union> {p1..<p'}" by auto
    then have "{p..<p'} \<subseteq> range_bytes (e # us)" using p1(3) r(7) unfolding e range_bytes_simps by blast
    moreover have "\<forall>(x, a, z) \<in> set (e # us). a + z \<le> p'" using r(3,4) p1(2) by (simp add: e)
    moreover have "p' \<in> insert p ((\<lambda>(x, a, z). a + z) ` set (e # us))" using r(8) p1(4) by (auto simp: e)
    moreover have "e # vs = (e # us) @ ws" "skip_free m iter p = Some (iter', p')" "p \<le> p'" using r(1-3) st p1(1) by simp_all
    ultimately show ?thesis using r(5,6) by blast
  qed
qed

lemma getAllocatedMBlock_ok:
  assumes "mb_inv s es" "walk_at s es iter p" "MBLOCK_SIZE dvd p" "space_begin s \<le> p" "\<forall>(x, a, z) \<in> set es. \<not> (a < p \<and> p < a + z)"
  shows "\<exists>mb iter'. getAllocatedMBlock iter p s = Some (mb, iter') \<and>
    (if mb = 0 then {p..} \<inter> committed s = {}
     else mb \<in> committed s \<and> MBLOCK_SIZE dvd mb \<and> p \<le> mb \<and> {p..<mb} \<inter> committed s = {} \<and> walk_at s es iter' mb)"
proof -
  note i = mb_invD [OF assms(1)]
  obtain us vs r q where w: "es = us @ vs" "\<forall>(x, a, z) \<in> set us. a + z \<le> p"
    "dl_part (\<lambda>a. fl_next (fl_mem s a)) (\<lambda>a. fl_prev (fl_mem s a)) r iter (map fst vs) q 0" using assms(2) unfolding walk_at_def by blast
  have v: "\<forall>(x, a, z) \<in> set vs. fl_address (fl_mem s x) = a \<and> fl_size (fl_mem s x) = z \<and> 0 < z" using i(3) fl_repD(2) [OF i(1)] by (fastforce simp: w(1))
  have "gapped vs" "\<forall>(x, a, z) \<in> set vs. \<not> (a < p \<and> p < a + z)" using i(2) assms(5) by (auto simp: w(1))
  from skip_free_ok [OF w(3) v this] obtain us' ws r' iter' p' where s: "vs = us' @ ws" "skip_free (fl_mem s) iter p = Some (iter', p')" "p \<le> p'"
      "\<forall>(x, a, z) \<in> set us'. a + z \<le> p'" "\<forall>(x, a, z) \<in> set ws. p' < a"
      "dl_part (\<lambda>a. fl_next (fl_mem s a)) (\<lambda>a. fl_prev (fl_mem s a)) r' iter' (map fst ws) q 0" "{p..<p'} \<subseteq> range_bytes us'"
      "p' \<in> insert p ((\<lambda>(x, a, z). a + z) ` set us')"
    by blast
  have free: "{p..<p'} \<inter> committed s = {}" using s(7) by (auto simp: i(9) w(1) s(1))
  have al: "MBLOCK_SIZE dvd p'" using s(8) assms(3) i(3) by (fastforce simp: w(1) s(1))
  have "\<forall>(x, a, z) \<in> set (us @ us'). a + z \<le> p'" using w(2) s(3,4) by fastforce
  moreover have "es = (us @ us') @ ws" by (simp add: w(1) s(1))
  ultimately have at: "walk_at s es iter' p'" using s(6) unfolding walk_at_def by blast
  show ?thesis
  proof (cases "p' \<ge> mblock_high_watermark s")
    case True
    have "{p..} = {p..<p'} \<union> {p'..}" using s(3) by auto
    then have "{p..} \<inter> committed s = {}" using free True by (auto simp: i(9))
    then show ?thesis using True by (simp add: getAllocatedMBlock_def s(2))
  next
    case False
    have "p' \<notin> range_bytes es" using w(2) s(3-5) by (fastforce simp: range_bytes_in w(1) s(1))
    then have "p' \<in> committed s" using False assms(4) s(3) by (simp add: i(9))
    moreover have "p' \<noteq> 0" using assms(4) i(4) s(3) by simp
    ultimately show ?thesis using False free al at s(3) by (simp add: getAllocatedMBlock_def s(2))
  qed
qed

lemma walk_at_mono: "walk_at s es iter p \<Longrightarrow> p \<le> p' \<Longrightarrow> walk_at s es iter p'"
  unfolding walk_at_def by (elim exE conjE) (intro exI conjI, assumption, fastforce)

lemma walk_at_head: "mb_inv s es \<Longrightarrow> walk_at s es (free_list_head s) p"
  using fl_repD(1) [OF mb_invD(1)] unfolding walk_at_def by (metis append_Nil empty_iff list.set(1))

lemma visit_mblocks_ok:
  assumes "mb_inv s es" "mblock \<in> committed s" "MBLOCK_SIZE dvd mblock" "keep \<Longrightarrow> walk_at s es state mblock"
  shows "\<exists>xs. visit_mblocks keep mblock state s = Some xs \<and> sorted_wrt (<) xs \<and> set xs = {a \<in> committed s. MBLOCK_SIZE dvd a \<and> mblock \<le> a}"
  using assms(2-4)
proof (induction "mblock_high_watermark s - mblock" arbitrary: mblock state rule: less_induct)
  case less
  note i = mb_invD [OF assms(1)]
  have m: "space_begin s \<le> mblock" "mblock < mblock_high_watermark s" "mblock \<noteq> 0" using less.prems(1) i(4) by (auto simp: i(9))
  let ?p = "mblock + MBLOCK_SIZE" and ?it = "if keep then state else free_list_head s"
  have pos: "MBLOCK_SIZE > 0" by (simp add: MBLOCK_SIZE_def)
  have step: "a = mblock \<or> ?p \<le> a" if "MBLOCK_SIZE dvd a" "mblock \<le> a" for a
    using that less.prems(2) pos by (auto simp: dvd_def) (metis mult_Suc_right mult_le_mono2 not_less_eq_eq le_antisym nat_le_linear add.commute mult_le_cancel1)
  have w: "walk_at s es ?it ?p" using less.prems(3) walk_at_mono [of s es state mblock ?p] walk_at_head [OF assms(1)] by auto
  have inside: "\<forall>(x, a, z) \<in> set es. \<not> (a < ?p \<and> ?p < a + z)"
  proof (intro ballI, unfold split_paired_all prod.case, rule notI)
    fix x a z assume e: "(x, a, z) \<in> set es" and l: "a < ?p \<and> ?p < a + z"
    have "a \<le> mblock" using step [of a] i(3) [OF e] l by linarith
    moreover have "mblock < a + z" using l by simp
    ultimately have "mblock \<in> range_bytes es" using e unfolding range_bytes_in by blast
    then show False using less.prems(1) by (simp add: i(9))
  qed
  have dv: "MBLOCK_SIZE dvd ?p" using less.prems(2) by simp
  from getAllocatedMBlock_ok [OF assms(1) w dv _ inside] m(1) obtain mb iter' where
    g: "getAllocatedMBlock ?it ?p s = Some (mb, iter')" "if mb = 0 then {?p..} \<inter> committed s = {}
     else mb \<in> committed s \<and> MBLOCK_SIZE dvd mb \<and> ?p \<le> mb \<and> {?p..<mb} \<inter> committed s = {} \<and> walk_at s es iter' mb" by auto
  have v: "visit_mblocks keep mblock state s = Option.bind (visit_mblocks keep mb iter' s) (\<lambda>r. Some (mblock # r))"
    using m(3) g(1) by (subst visit_mblocks.simps) (simp add: getNextMBlock_def split: if_splits)
  show ?case
  proof (cases "mb = 0")
    case True
    have "visit_mblocks keep mb iter' s = Some []" using True by (subst visit_mblocks.simps) simp
    moreover have "{a \<in> committed s. MBLOCK_SIZE dvd a \<and> mblock \<le> a} = {mblock}" using step g(2) True less.prems(1,2) by auto
    ultimately show ?thesis using v by simp
  next
    case False
    then have b: "mb \<in> committed s" "MBLOCK_SIZE dvd mb" "?p \<le> mb" "{?p..<mb} \<inter> committed s = {}" "walk_at s es iter' mb" using g(2) by auto
    have "mblock_high_watermark s - mb < mblock_high_watermark s - mblock" using b(3) m(2) pos by linarith
    from less.hyps [OF this b(1,2)] b(5) obtain xs where
      x: "visit_mblocks keep mb iter' s = Some xs" "sorted_wrt (<) xs" "set xs = {a \<in> committed s. MBLOCK_SIZE dvd a \<and> mb \<le> a}" by blast
    have "a = mblock \<or> mb \<le> a" if "a \<in> committed s" "MBLOCK_SIZE dvd a" "mblock \<le> a" for a
      using step [OF that(2,3)] that(1) b(4) by (meson atLeastLessThan_iff disjoint_iff not_le)
    then have "set (mblock # xs) = {a \<in> committed s. MBLOCK_SIZE dvd a \<and> mblock \<le> a}" using x(3) b(3) less.prems(1,2) by auto
    moreover have "sorted_wrt (<) (mblock # xs)" using x(2,3) b(3) pos by auto
    ultimately show ?thesis using v x(1) by simp
  qed
qed

lemma all_mblocks_ok:
  assumes "mb_inv s es"
  shows "\<exists>xs. all_mblocks keep s = Some xs \<and> sorted_wrt (<) xs \<and> set xs = {a \<in> committed s. MBLOCK_SIZE dvd a}"
proof -
  note i = mb_invD [OF assms]
  have "\<forall>(x, a, z) \<in> set es. \<not> (a < space_begin s \<and> space_begin s < a + z)" using i(3) by fastforce
  from getAllocatedMBlock_ok [OF assms walk_at_head [OF assms] i(7) order_refl this] obtain mb iter' where
    g: "getFirstMBlock s = Some (mb, iter')" "if mb = 0 then {space_begin s..} \<inter> committed s = {}
     else mb \<in> committed s \<and> MBLOCK_SIZE dvd mb \<and> space_begin s \<le> mb \<and> {space_begin s..<mb} \<inter> committed s = {} \<and> walk_at s es iter' mb"
    unfolding getFirstMBlock_def by blast
  have sub: "committed s \<subseteq> {space_begin s..}" by (auto simp: i(9))
  show ?thesis
  proof (cases "mb = 0")
    case True
    have "visit_mblocks keep mb iter' s = Some []" using True by (subst visit_mblocks.simps) simp
    moreover have "committed s = {}" using g(2) True sub by auto
    ultimately show ?thesis using g(1) by (simp add: all_mblocks_def)
  next
    case False
    then have b: "mb \<in> committed s" "MBLOCK_SIZE dvd mb" "{space_begin s..<mb} \<inter> committed s = {}" "walk_at s es iter' mb" using g(2) by auto
    have "{a \<in> committed s. MBLOCK_SIZE dvd a \<and> mb \<le> a} = {a \<in> committed s. MBLOCK_SIZE dvd a}"
      using b(3) sub by (auto simp: disjoint_iff)
    then show ?thesis using visit_mblocks_ok [OF assms b(1,2), of keep iter'] b(4) g(1) by (simp add: all_mblocks_def)
  qed
qed

section \<open>The properties\<close>

text \<open>A space of \<open>n\<close> megablocks that has just been reserved at \<open>addr\<close>.\<close>

lemma initMBlocks_inv:
  assumes "0 < addr" "MBLOCK_SIZE dvd addr" "free_list_head s = 0" "committed s = {}" "mblocks_allocated s = 0"
  shows "mb_inv (initMBlocks addr sz s) []"
  using assms by (simp add: mb_inv_def fl_rep_def dl_list_def initMBlocks_def)

definition new_space :: "nat \<Rightarrow> mb_state" where
  "new_space n = initMBlocks (16 * MBLOCK_SIZE) (n * MBLOCK_SIZE)
    \<lparr>fl_mem = \<lambda>_. \<lparr>fl_prev = 0, fl_next = 0, fl_address = 0, fl_size = 0\<rparr>, free_list_head = 0, mblock_high_watermark = 0,
     space_begin = 0, space_end = 0, mblocks_allocated = 0, peak_mblocks_allocated = 0, committed = {}, os_answers = \<lambda>_. True, os_calls = 0\<rparr>"

lemma new_space_inv: "mb_inv (new_space n) []"
  unfolding new_space_def by (rule initMBlocks_inv) (simp_all add: MBLOCK_SIZE_def)

lemma new_space_simps: "space_begin (new_space n) = 16 * MBLOCK_SIZE" "space_end (new_space n) = (16 + n) * MBLOCK_SIZE"
    "committed (new_space n) = {}" "mblocks_allocated (new_space n) = 0" "free_list_head (new_space n) = 0" "os_grants (new_space n)"
  by (simp_all add: new_space_def initMBlocks_def os_grants_def algebra_simps)

text \<open>C6 \<open>getMBlocks\<close> either returns the aligned address of a run of as many megablocks as it is asked for, within the reserved space and none of
  them committed before, and commits exactly that run; or it ends the program, which it does only when the operating system refuses to
  commit the run, or when every run of that length in the whole reserved space meets committed memory: no fragmentation of its own
  free list makes it fail.
\<close>

theorem getMBlocks_correct:
  assumes "mb_inv s es" "0 < n"
  shows "(\<exists>addr s' es'. getMBlocks n s = Some (Inr (addr, s')) \<and> mb_inv s' es' \<and> MBLOCK_SIZE dvd addr \<and>
      space_begin s \<le> addr \<and> addr + MBLOCK_SIZE * n \<le> space_end s \<and> {addr..<addr + MBLOCK_SIZE * n} \<inter> committed s = {} \<and>
      committed s' = committed s \<union> {addr..<addr + MBLOCK_SIZE * n} \<and> mblocks_allocated s' = mblocks_allocated s + n \<and> os_grants s) \<or>
    getMBlocks n s = Some (Inl CommitFailed) \<and> \<not> os_grants s \<or>
    getMBlocks n s = Some (Inl OutOfMemory) \<and>
      (\<forall>addr. {addr..<addr + MBLOCK_SIZE * n} \<subseteq> {space_begin s..<space_end s} \<longrightarrow> {addr..<addr + MBLOCK_SIZE * n} \<inter> committed s \<noteq> {})"
  using assms by (cases rule: getMBlocks_ok) blast+

theorem getMBlocks_correct_witness:
  "\<exists>addr s es. getMBlocks 3 (new_space 4) = Some (Inr (addr, s)) \<and> mb_inv s es \<and> committed s = {addr..<addr + MBLOCK_SIZE * 3} \<and>
    mblocks_allocated s = 3"
proof -
  have "\<not> (\<forall>addr. {addr..<addr + MBLOCK_SIZE * 3} \<subseteq> {space_begin (new_space 4)..<space_end (new_space 4)} \<longrightarrow>
      {addr..<addr + MBLOCK_SIZE * 3} \<inter> committed (new_space 4) \<noteq> {})"
    by (auto simp: new_space_simps MBLOCK_SIZE_def intro!: exI [of _ "16 * 1048576"])
  moreover have "(0 :: nat) < 3" by simp
  ultimately show ?thesis using getMBlocks_correct [OF new_space_inv, of 3 4] by (auto simp: new_space_simps)
qed

lemma three_mblocks: "\<exists>s es. mb_inv s es \<and> es = [] \<and> committed s = {16 * MBLOCK_SIZE..<19 * MBLOCK_SIZE} \<and> getMBlocks 3 (new_space 4) = Some (Inr (16 * MBLOCK_SIZE, s))"
proof -
  define s where "s = snd (projr (the (getMBlocks 3 (new_space 4))))"
  have e: "getReusableMBlocks 3 (new_space 4) = Some (Inr (0, new_space 4))"
    by (simp add: getReusableMBlocks_def Let_def new_space_simps find_reusable.simps)
  have g: "getMBlocks 3 (new_space 4) = Some (Inr (16 * MBLOCK_SIZE, s))" and fl: "free_list_head s = 0"
    by (simp_all add: s_def getMBlocks_def getCommittedMBlocks_def e getFreshMBlocks_def Let_def new_space_simps osCommitMemory_def commit_memory_def)
      (simp_all add: new_space_def initMBlocks_def MBLOCK_SIZE_def)
  have "(0 :: nat) < 3" by simp
  then have "\<exists>es. mb_inv s es \<and> committed s = {16 * MBLOCK_SIZE..<19 * MBLOCK_SIZE}"
    by (cases rule: getMBlocks_ok [OF new_space_inv, of 3 4]) (auto simp: g new_space_simps MBLOCK_SIZE_def)
  then obtain es where i: "mb_inv s es" "committed s = {16 * MBLOCK_SIZE..<19 * MBLOCK_SIZE}" by blast
  then have "es = []" using fl by (cases es) (auto simp: mb_inv_def fl_rep_def dl_list_def)
  then show ?thesis using i g by blast
qed

text \<open>C7 \<open>freeMBlocks\<close> on a run of committed megablocks, in any order and of any part of what was obtained, decommits exactly that run and keeps
  the list of free ranges: sorted, no two ranges touching, and none touching the high watermark.
\<close>

theorem freeMBlocks_correct:
  assumes "mb_inv s es" "0 < n" "MBLOCK_SIZE dvd addr" "{addr..<addr + MBLOCK_SIZE * n} \<subseteq> committed s" "new \<noteq> 0" "new \<notin> fst ` set es"
  shows "\<exists>s' es'. freeMBlocks new addr n s = Some s' \<and> mb_inv s' es' \<and> gapped es' \<and> (\<forall>(x, a, z) \<in> set es'. a + z < mblock_high_watermark s') \<and>
    committed s' = committed s - {addr..<addr + MBLOCK_SIZE * n} \<and> mblocks_allocated s' = mblocks_allocated s - n"
proof -
  from freeMBlocks_ok [OF assms] obtain s' es' where f: "freeMBlocks new addr n s = Some s'" "mb_inv s' es'"
    "committed s' = committed s - {addr..<addr + MBLOCK_SIZE * n}" "mblocks_allocated s' = mblocks_allocated s - n"
    unfolding freed_def by blast
  moreover have "gapped es'" "\<forall>(x, a, z) \<in> set es'. a + z < mblock_high_watermark s'" using f(2) by (auto simp: mb_inv_def)
  ultimately show ?thesis by blast
qed

theorem freeMBlocks_correct_witness:
  "\<exists>addr s s' es'. getMBlocks 3 (new_space 4) = Some (Inr (addr, s)) \<and> freeMBlocks 8 (addr + MBLOCK_SIZE) 1 s = Some s' \<and> mb_inv s' es' \<and>
    committed s' = {addr..<addr + MBLOCK_SIZE} \<union> {addr + 2 * MBLOCK_SIZE..<addr + 3 * MBLOCK_SIZE}"
proof -
  obtain s es where i: "mb_inv s es" "committed s = {16 * MBLOCK_SIZE..<19 * MBLOCK_SIZE}" "es = []" and
    g: "getMBlocks 3 (new_space 4) = Some (Inr (16 * MBLOCK_SIZE, s))" using three_mblocks by blast
  have "\<exists>s' es'. freeMBlocks 8 (17 * MBLOCK_SIZE) 1 s = Some s' \<and> mb_inv s' es' \<and> gapped es' \<and>
      (\<forall>(x, a, z) \<in> set es'. a + z < mblock_high_watermark s') \<and>
      committed s' = committed s - {17 * MBLOCK_SIZE..<17 * MBLOCK_SIZE + MBLOCK_SIZE * 1} \<and> mblocks_allocated s' = mblocks_allocated s - 1"
    by (rule freeMBlocks_correct [OF i(1)]) (simp_all add: i(2,3) MBLOCK_SIZE_def)
  then obtain s' es' where "freeMBlocks 8 (17 * MBLOCK_SIZE) 1 s = Some s'" "mb_inv s' es'"
      "committed s' = committed s - {17 * MBLOCK_SIZE..<17 * MBLOCK_SIZE + MBLOCK_SIZE * 1}" by blast
  moreover have "{16 * MBLOCK_SIZE..<19 * MBLOCK_SIZE} - {17 * MBLOCK_SIZE..<17 * MBLOCK_SIZE + MBLOCK_SIZE * 1} =
      {16 * MBLOCK_SIZE..<16 * MBLOCK_SIZE + MBLOCK_SIZE} \<union> {16 * MBLOCK_SIZE + 2 * MBLOCK_SIZE..<16 * MBLOCK_SIZE + 3 * MBLOCK_SIZE}"
    by (auto simp: MBLOCK_SIZE_def)
  ultimately show ?thesis using g i(2)
    by (intro exI [of _ "16 * MBLOCK_SIZE"] exI [of _ s] exI [of _ s'] exI [of _ es']) (simp add: MBLOCK_SIZE_def)
qed

text \<open>C8 Whether the caller keeps the state of the iteration or has it found again at each step, going from \<open>getFirstMBlock\<close> to \<open>getNextMBlock\<close>
  visits the committed megablocks, each once, in the order of their addresses, and ends.
\<close>

theorem all_mblocks_correct:
  assumes "mb_inv s es"
  shows "\<exists>xs. all_mblocks keep s = Some xs \<and> sorted_wrt (<) xs \<and> set xs = {a \<in> committed s. MBLOCK_SIZE dvd a}"
  by (rule all_mblocks_ok [OF assms])

text \<open>A space with a free megablock between two committed ones.\<close>

lemma space_with_hole: "\<exists>s es. mb_inv s es \<and> committed s = {16 * MBLOCK_SIZE..<17 * MBLOCK_SIZE} \<union> {18 * MBLOCK_SIZE..<19 * MBLOCK_SIZE}"
proof -
  obtain s where s: "mb_inv s []" "committed s = {16 * MBLOCK_SIZE..<19 * MBLOCK_SIZE}" using three_mblocks by blast
  have "\<exists>s'. freeMBlocks 8 (17 * MBLOCK_SIZE) 1 s = Some s' \<and> freed s (17 * MBLOCK_SIZE) 1 s'"
    by (rule freeMBlocks_ok [OF s(1)]) (simp_all add: s(2) MBLOCK_SIZE_def)
  then obtain s' es' where "mb_inv s' es'" "committed s' = committed s - {17 * MBLOCK_SIZE..<17 * MBLOCK_SIZE + MBLOCK_SIZE * 1}"
    by (auto simp: freed_def)
  moreover have "{16 * MBLOCK_SIZE..<19 * MBLOCK_SIZE} - {17 * MBLOCK_SIZE..<17 * MBLOCK_SIZE + MBLOCK_SIZE * 1} =
      {16 * MBLOCK_SIZE..<17 * MBLOCK_SIZE} \<union> {18 * MBLOCK_SIZE..<19 * MBLOCK_SIZE}"
    by (auto simp: MBLOCK_SIZE_def)
  ultimately show ?thesis unfolding s(2) by metis
qed

theorem all_mblocks_correct_witness:
  "\<exists>s es. mb_inv s es \<and> all_mblocks True s = Some [16 * MBLOCK_SIZE, 18 * MBLOCK_SIZE] \<and> all_mblocks False s = Some [16 * MBLOCK_SIZE, 18 * MBLOCK_SIZE]"
proof -
  obtain s es where s: "mb_inv s es" "committed s = {16 * MBLOCK_SIZE..<17 * MBLOCK_SIZE} \<union> {18 * MBLOCK_SIZE..<19 * MBLOCK_SIZE}"
    using space_with_hole by blast
  have "a = 16 * MBLOCK_SIZE \<or> a = 18 * MBLOCK_SIZE" if a: "a \<in> committed s" "MBLOCK_SIZE dvd a" for a
  proof -
    obtain k where k: "a = MBLOCK_SIZE * k" using a(2) by (rule dvdE)
    then have "16 \<le> k \<and> k < 17 \<or> 18 \<le> k \<and> k < 19" using a(1) by (auto simp: s(2) MBLOCK_SIZE_def)
    then have "k = 16 \<or> k = 18" by linarith
    then show ?thesis by (auto simp: k)
  qed
  moreover have "16 * MBLOCK_SIZE \<in> committed s" "18 * MBLOCK_SIZE \<in> committed s" by (simp_all add: s(2) MBLOCK_SIZE_def)
  ultimately have "{a \<in> committed s. MBLOCK_SIZE dvd a} = set [16 * MBLOCK_SIZE, 18 * MBLOCK_SIZE]" by auto
  moreover have "sorted_wrt (<) [16 * MBLOCK_SIZE, 18 * MBLOCK_SIZE]" by (simp add: MBLOCK_SIZE_def)
  ultimately have "xs = [16 * MBLOCK_SIZE, 18 * MBLOCK_SIZE]" if "sorted_wrt (<) xs" "set xs = {a \<in> committed s. MBLOCK_SIZE dvd a}" for xs
    using strict_sorted_equal [OF that(1), of "[16 * MBLOCK_SIZE, 18 * MBLOCK_SIZE]"] that(2) by metis
  then show ?thesis using s(1) all_mblocks_correct [OF s(1), of True] all_mblocks_correct [OF s(1), of False] by blast
qed

end
