(* ===== verification/HeapMemory.thy ===== *)
theory HeapMemory
  imports BlockHistory MBlockSpace
begin

text \<open>
  The block allocator on top of the megablock allocator: \<open>alloc_mega_group\<close> obtains its memory from \<open>getMBlocks\<close>, and
  \<open>returnMemoryToOS\<close> gives it back to \<open>freeMBlocks\<close>. The state of the pair has a part that only the one and a part that only the
  other works on, so that a call of the block allocator is composed of its own steps and the calls it makes; the interface between them
  is a locale, which the megablock allocator interprets.
\<close>

section \<open>Calls across the interface\<close>

text \<open>An allocation that needs \<open>k\<close> megablocks: it calls \<open>getMBlocks\<close> when \<open>k\<close> is not 0.\<close>

definition with_mblocks :: "(nat \<Rightarrow> 't \<Rightarrow> (mb_error + (nat \<times> 't)) option) \<Rightarrow> nat \<Rightarrow> (nat \<Rightarrow> ba_state \<Rightarrow> (nat \<times> ba_state) option) \<Rightarrow>
    ba_state \<times> 't \<Rightarrow> (mb_error + (nat \<times> ba_state \<times> 't)) option" where
  "with_mblocks get k f = (\<lambda>(s, t).
    (case if k = 0 then Some (Inr (0, t)) else get k t of
       None \<Rightarrow> None
     | Some (Inl e) \<Rightarrow> Some (Inl e)
     | Some (Inr (addr, t)) \<Rightarrow> map_option (\<lambda>(p, s). Inr (p, s, t)) (f addr s)))"

definition heap_allocGroup :: "(nat \<Rightarrow> 't \<Rightarrow> (mb_error + (nat \<times> 't)) option) \<Rightarrow> nat \<Rightarrow> nat \<Rightarrow> ba_state \<times> 't \<Rightarrow>
    (mb_error + (nat \<times> ba_state \<times> 't)) option" where
  "heap_allocGroup get d n = (\<lambda>(s, t). with_mblocks get (group_request d n s) (\<lambda>m. allocGroupOnNode m d n) (s, t))"

definition heap_allocLargeChunk :: "(nat \<Rightarrow> 't \<Rightarrow> (mb_error + (nat \<times> 't)) option) \<Rightarrow> nat \<Rightarrow> nat \<Rightarrow> nat \<Rightarrow> ba_state \<times> 't \<Rightarrow>
    (mb_error + (nat \<times> ba_state \<times> 't)) option" where
  "heap_allocLargeChunk get d lo hi = (\<lambda>(s, t). with_mblocks get (chunk_request d lo hi s) (\<lambda>m. allocLargeChunkOnNode m d lo hi) (s, t))"

definition heap_allocAligned :: "(nat \<Rightarrow> 't \<Rightarrow> (mb_error + (nat \<times> 't)) option) \<Rightarrow> nat \<Rightarrow> nat \<Rightarrow> ba_state \<times> 't \<Rightarrow>
    (mb_error + (nat \<times> ba_state \<times> 't)) option" where
  "heap_allocAligned get d n = (\<lambda>(s, t). with_mblocks get (aligned_request d n s) (\<lambda>m. allocAlignedGroupOnNode m d n) (s, t))"

primrec give_calls :: "(nat \<Rightarrow> nat \<Rightarrow> 't \<Rightarrow> 't option) \<Rightarrow> (nat \<times> nat) list \<Rightarrow> 't \<Rightarrow> 't option" where
  "give_calls give [] t = Some t"
| "give_calls give (c # calls) t = Option.bind (give (fst c) (snd c) t) (give_calls give calls)"

definition heap_return :: "(nat \<Rightarrow> nat \<Rightarrow> 't \<Rightarrow> 't option) \<Rightarrow> nat \<Rightarrow> ba_state \<times> 't \<Rightarrow> (nat \<times> ba_state \<times> 't) option" where
  "heap_return give n = (\<lambda>(s, t).
    (case returnMemoryToOS n s of
       None \<Rightarrow> None
     | Some (r, s') \<Rightarrow>
         map_option (\<lambda>t. (r, s', t)) (give_calls give (drop (length (mblocks_freed s)) (mblocks_freed s')) t)))"

text \<open>Histories of calls to the pair, from a megablock allocator in state \<open>t0\<close>.\<close>

inductive heap_history :: "(nat \<Rightarrow> 't \<Rightarrow> (mb_error + (nat \<times> 't)) option) \<Rightarrow> (nat \<Rightarrow> nat \<Rightarrow> 't \<Rightarrow> 't option) \<Rightarrow> 't \<Rightarrow>
    ba_state \<Rightarrow> 't \<Rightarrow> nat set \<Rightarrow> bool" for get give t0 where
  start: "deferred_free_mblock_list s = (\<lambda>_. 0) \<Longrightarrow> heap_history get give t0 (initBlockAllocator s) t0 {}"
| alloc: "heap_history get give t0 s t G \<Longrightarrow> 0 < n \<Longrightarrow> heap_allocGroup get d n (s, t) = Some (Inr (p, s', t')) \<Longrightarrow>
    heap_history get give t0 s' t' (insert p G)"
| large: "heap_history get give t0 s t G \<Longrightarrow> 0 < lo \<Longrightarrow> lo \<le> hi \<Longrightarrow> hi < 2 ^ 64 \<Longrightarrow>
    heap_allocLargeChunk get d lo hi (s, t) = Some (Inr (p, s', t')) \<Longrightarrow> heap_history get give t0 s' t' (insert p G)"
| aligned: "heap_history get give t0 s t G \<Longrightarrow> 0 < n \<Longrightarrow> heap_allocAligned get d n (s, t) = Some (Inr (p, s', t')) \<Longrightarrow>
    heap_history get give t0 s' t' (insert p G)"
| free: "heap_history get give t0 s t G \<Longrightarrow> p \<in> G \<Longrightarrow> freeGroup p s = Some s' \<Longrightarrow> heap_history get give t0 s' t (G - {p})"
| postpone: "heap_history get give t0 s t G \<Longrightarrow> deferMBlockFreeing s = Some s' \<Longrightarrow> heap_history get give t0 s' t G"
| commit: "heap_history get give t0 s t G \<Longrightarrow> commitMBlockFreeing s = Some s' \<Longrightarrow> heap_history get give t0 s' t G"
| give_back: "heap_history get give t0 s t G \<Longrightarrow> heap_return give n (s, t) = Some (r, s', t') \<Longrightarrow> heap_history get give t0 s' t' G"

section \<open>The interface\<close>

text \<open>
  What the block allocator relies on: \<open>owned t\<close> are the megablocks that have been got and not been given, by their number,
  \<open>room\<close> those that exist; \<open>grants t\<close> tells whether the operating system is going to commit memory.
\<close>

locale mblock_provider =
  fixes get :: "nat \<Rightarrow> 't \<Rightarrow> (mb_error + (nat \<times> 't)) option"
    and give :: "nat \<Rightarrow> nat \<Rightarrow> 't \<Rightarrow> 't option"
    and ok :: "'t \<Rightarrow> bool"
    and owned :: "'t \<Rightarrow> nat set"
    and room :: "nat set"
    and grants :: "'t \<Rightarrow> bool"
    and t0 :: 't
  assumes init: "ok t0" "owned t0 = {}"
    and got: "ok t \<Longrightarrow> 0 < k \<Longrightarrow>
      (\<exists>m t'. get k t = Some (Inr (m * MBLOCK_SIZE, t')) \<and> ok t' \<and> {m..<m + k} \<inter> owned t = {} \<and> owned t' = owned t \<union> {m..<m + k}) \<or>
      get k t = Some (Inl CommitFailed) \<and> \<not> grants t \<or>
      get k t = Some (Inl OutOfMemory) \<and> (\<forall>m. {m..<m + k} \<subseteq> room \<longrightarrow> {m..<m + k} \<inter> owned t \<noteq> {})"
    and given: "ok t \<Longrightarrow> 0 < k \<Longrightarrow> {m..<m + k} \<subseteq> owned t \<Longrightarrow>
      \<exists>t'. give (m * MBLOCK_SIZE) k t = Some t' \<and> ok t' \<and> owned t' = owned t - {m..<m + k}"
begin

lemma with_mblocks_got:
  assumes "ok t" "with_mblocks get k f (s, t) = Some (Inr (p, s', t'))"
  shows "\<exists>m. f (m * MBLOCK_SIZE) s = Some (p, s') \<and> ok t' \<and> {m..<m + k} \<inter> owned t = {} \<and> owned t' = owned t \<union> {m..<m + k}"
proof (cases "k = 0")
  case True
  then show ?thesis using assms by (intro exI [of _ 0]) (auto simp: with_mblocks_def)
next
  case False
  from got [OF assms(1), of k] False show ?thesis using assms(2) by (auto simp: with_mblocks_def)
qed

lemma give_calls_ok:
  assumes "ok t" "calls_ok calls" "given_back calls \<subseteq> owned t"
  shows "\<exists>t'. give_calls give calls t = Some t' \<and> ok t' \<and> owned t' = owned t - given_back calls"
  using assms
proof (induction calls arbitrary: t)
  case (Cons c calls)
  obtain a k where c: "c = (a, k)" by (cases c)
  then have "MBLOCK_SIZE dvd a" "0 < k" using Cons.prems(2) by (auto simp: calls_ok_def)
  then obtain m where a: "a = m * MBLOCK_SIZE" "0 < k" by (metis dvd_def mult.commute)
  then have m: "call_mblocks c = {m..<m + k}" by (simp add: c call_mblocks_def MBLOCK_SIZE_def)
  have "{m..<m + k} \<subseteq> owned t" using Cons.prems(3) m by auto
  from given [OF Cons.prems(1) a(2) this] obtain t1 where t1: "give a k t = Some t1" "ok t1" "owned t1 = owned t - {m..<m + k}" by (auto simp: a)
  have o: "calls_ok ([c] @ calls)" using Cons.prems(2) by simp
  then have "calls_ok calls" "given_back calls \<inter> {m..<m + k} = {}" unfolding calls_ok_append using m by auto
  moreover from this have "given_back calls \<subseteq> owned t1" using Cons.prems(3) t1(3) by auto
  ultimately obtain t' where "give_calls give calls t1 = Some t'" "ok t'" "owned t' = owned t1 - given_back calls"
    using Cons.IH [OF t1(2)] by blast
  then show ?case using t1 c m by auto
qed (simp add: given_back_def)

lemma return_ok:
  assumes "ba_history s G (owned t)" "ok t"
  shows "\<exists>r s' t'. heap_return give n (s, t) = Some (r, s', t') \<and> ok t' \<and> ba_history s' G (owned t') \<and> r \<le> n \<and>
    finite (owned t - owned t') \<and> owned t' \<subseteq> owned t \<and> r = card (owned t - owned t') \<and>
    (r < n \<longrightarrow> (\<forall>d < n_numa_nodes s. free_mblock_list s' d = 0))"
proof -
  obtain own where k: "ba_inv s own" "dom own = owned t" using history_knows [OF assms(1)] by (auto simp: ba_knows_def)
  from returnMemoryToOS_ok [OF k(1), of n] obtain r s' own' where
    r: "returnMemoryToOS n s = Some (r, s')" "ba_inv s' own'" "r \<le> n" "returned n s own (n - r) s' own'"
      "r < n \<Longrightarrow> \<forall>d < n_numa_nodes s. free_mblock_list s' d = 0" by blast
  then obtain calls where c: "mblocks_freed s' = mblocks_freed s @ calls" "calls_ok calls" "given_back calls \<subseteq> owned t" "n = n - r + card (given_back calls)"
    unfolding returned_def k(2) by blast
  from give_calls_ok [OF assms(2) c(2,3)] obtain t' where t: "give_calls give calls t = Some t'" "ok t'" "owned t' = owned t - given_back calls" by blast
  have "owned t - owned t' = given_back calls" using t(3) c(3) by blast
  moreover have "heap_return give n (s, t) = Some (r, s', t')" using r(1) c(1) t(1) by (simp add: heap_return_def)
  moreover have "ba_history s' G (owned t')" unfolding t(3) using ba_history.give_back [OF assms(1) r(1) c(1)] .
  moreover have "owned t' \<subseteq> owned t" using t(3) by blast
  moreover have "r = card (given_back calls)" using c(4) r(3) by simp
  ultimately show ?thesis using t(2) r(3,5) finite_given_back [of calls] by metis
qed

text \<open>The pair simulates the block allocator alone, with the megablocks owned as those in use.\<close>

lemma history_ok: "heap_history get give t0 s t G \<Longrightarrow> ok t \<and> ba_history s G (owned t)"
proof (induction rule: heap_history.induct)
  case (start s)
  then show ?case using init ba_history.start [OF start] by simp
next
  case (alloc s t G n d p s' t')
  then obtain m where m: "allocGroupOnNode (m * MBLOCK_SIZE) d n s = Some (p, s')" "ok t'" "{m..<m + group_request d n s} \<inter> owned t = {}"
    "owned t' = owned t \<union> {m..<m + group_request d n s}"
    using with_mblocks_got [of t "group_request d n s"] unfolding heap_allocGroup_def split_conv by blast
  then show ?case using ba_history.alloc [OF _ alloc.hyps(2) m(3,1)] alloc.IH by simp
next
  case (large s t G lo hi d p s' t')
  then obtain m where m: "allocLargeChunkOnNode (m * MBLOCK_SIZE) d lo hi s = Some (p, s')" "ok t'" "{m..<m + chunk_request d lo hi s} \<inter> owned t = {}"
    "owned t' = owned t \<union> {m..<m + chunk_request d lo hi s}"
    using with_mblocks_got [of t "chunk_request d lo hi s"] unfolding heap_allocLargeChunk_def split_conv by blast
  then show ?case using ba_history.large [OF _ large.hyps(2-4) m(3,1)] large.IH by simp
next
  case (aligned s t G n d p s' t')
  then obtain m where m: "allocAlignedGroupOnNode (m * MBLOCK_SIZE) d n s = Some (p, s')" "ok t'" "{m..<m + aligned_request d n s} \<inter> owned t = {}"
    "owned t' = owned t \<union> {m..<m + aligned_request d n s}"
    using with_mblocks_got [of t "aligned_request d n s"] unfolding heap_allocAligned_def split_conv by blast
  then show ?case using ba_history.aligned [OF _ aligned.hyps(2) m(3,1)] aligned.IH by simp
next
  case (free s t G p s')
  then show ?case using ba_history.free by blast
next
  case (postpone s t G s')
  then show ?case using ba_history.postpone by blast
next
  case (commit s t G s')
  then show ?case using ba_history.commit by blast
next
  case (give_back s t G n r s' t')
  then show ?case using return_ok [of s G t n] by auto
qed

lemma memory_owned:
  assumes "heap_history get give t0 s t G" "p \<in> G" "x \<in> memory_of s p"
  shows "x div MBLOCK_SIZE \<in> owned t"
proof -
  obtain own where k: "ba_inv s own" "dom own = owned t" "G = fst ` allocs own"
    using history_ok [OF assms(1)] history_knows by (fastforce simp: ba_knows_def)
  then obtain n where "(p, n) \<in> allocs own" using assms(2) by auto
  from alloc_memory [OF k(1) this assms(3)] show ?thesis using k(2) by blast
qed

lemma alloc_total:
  assumes "heap_history get give t0 s t G" "0 < n"
  shows "(\<exists>p s' t'. heap_allocGroup get d n (s, t) = Some (Inr (p, s', t')) \<and> p \<notin> G \<and> heap_history get give t0 s' t' (insert p G) \<and>
      blocks_of s' p = granted n) \<or>
    heap_allocGroup get d n (s, t) = Some (Inl CommitFailed) \<and> 0 < group_request d n s \<and> \<not> grants t \<or>
    heap_allocGroup get d n (s, t) = Some (Inl OutOfMemory) \<and> 0 < group_request d n s \<and>
      (\<forall>m. {m..<m + group_request d n s} \<subseteq> room \<longrightarrow> {m..<m + group_request d n s} \<inter> owned t \<noteq> {})"
proof -
  let ?k = "group_request d n s"
  have h: "ok t" "ba_history s G (owned t)" using history_ok [OF assms(1)] by auto
  have fine: ?thesis if t': "(if ?k = 0 then Some (Inr (0, t)) else get ?k t) = Some (Inr (m * MBLOCK_SIZE, t'))" and m: "{m..<m + ?k} \<inter> owned t = {}" for m t'
  proof -
    obtain own where k: "ba_knows s own G (owned t)" using history_knows [OF h(2)] by blast
    then have i: "ba_inv s own" "G = fst ` allocs own" by (auto simp: ba_knows_def)
    from allocGroupOnNode_ok [OF i(1) assms(2) fresh_outside [OF k m]] obtain p s' own' where
      a: "allocGroupOnNode (m * MBLOCK_SIZE) d n s = Some (p, s')" "ba_inv s' own'" "allocs own' = insert (p, granted n) (allocs own)" "p \<notin> G"
      unfolding i(2) .
    have "heap_allocGroup get d n (s, t) = Some (Inr (p, s', t'))" using t' a(1) by (simp add: heap_allocGroup_def with_mblocks_def)
    moreover have "blocks_of s' p = granted n" using alloc_blocks [OF a(2)] a(3) by blast
    ultimately show ?thesis using a(4) heap_history.alloc [OF assms] by blast
  qed
  show ?thesis
  proof (cases "?k = 0")
    case True
    then show ?thesis using fine [of 0 t] by simp
  next
    case False
    then show ?thesis using got [OF h(1), of ?k] fine by (auto simp: heap_allocGroup_def with_mblocks_def)
  qed
qed

end

section \<open>The megablock allocator as the provider\<close>

text \<open>The megablocks that are committed, by their number.\<close>

definition megablocks :: "mb_state \<Rightarrow> nat set" where
  "megablocks t = {v. v * MBLOCK_SIZE \<in> committed t}"

lemma aligned_range:
  assumes "MBLOCK_SIZE dvd a" "MBLOCK_SIZE dvd b"
  shows "x div MBLOCK_SIZE * MBLOCK_SIZE \<in> {a..<b} \<longleftrightarrow> x \<in> {a..<b}"
proof -
  obtain i j where e: "a = MBLOCK_SIZE * i" "b = MBLOCK_SIZE * j" using assms by (auto elim!: dvdE)
  have "i \<le> x div MBLOCK_SIZE \<longleftrightarrow> a \<le> x" "x div MBLOCK_SIZE < j \<longleftrightarrow> x < b"
    by (simp_all add: e less_eq_div_iff_mult_less_eq div_less_iff_less_mult MBLOCK_SIZE_def mult.commute)
  moreover have "i \<le> x div MBLOCK_SIZE \<longleftrightarrow> a \<le> x div MBLOCK_SIZE * MBLOCK_SIZE" "x div MBLOCK_SIZE < j \<longleftrightarrow> x div MBLOCK_SIZE * MBLOCK_SIZE < b"
    by (simp_all add: e MBLOCK_SIZE_def)
  ultimately show ?thesis by simp
qed

lemma committed_whole:
  assumes "mb_inv t es"
  shows "x \<in> committed t \<longleftrightarrow> x div MBLOCK_SIZE \<in> megablocks t"
proof -
  note i = mb_invD [OF assms]
  have e: "x div MBLOCK_SIZE * MBLOCK_SIZE \<in> {a..<a + z} \<longleftrightarrow> x \<in> {a..<a + z}" if "(y, a, z) \<in> set es" for y a z
    using i(3) [OF that] by (intro aligned_range) auto
  have "x div MBLOCK_SIZE * MBLOCK_SIZE \<in> range_bytes es \<longleftrightarrow> x \<in> range_bytes es"
    using e unfolding range_bytes_in atLeastLessThan_iff by blast
  then show ?thesis unfolding megablocks_def mem_Collect_eq i(9) Diff_iff aligned_range [OF i(7,8)] by simp
qed

lemma run_mblocks: "x \<in> {m * MBLOCK_SIZE..<m * MBLOCK_SIZE + MBLOCK_SIZE * k} \<longleftrightarrow> x div MBLOCK_SIZE \<in> {m..<m + k}"
  by (simp add: less_eq_div_iff_mult_less_eq div_less_iff_less_mult MBLOCK_SIZE_def add_mult_distrib mult.commute)

lemma start_of_mblock: "v * MBLOCK_SIZE div MBLOCK_SIZE = v"
  by (simp add: MBLOCK_SIZE_def)

lemma megablocks_run:
  assumes "committed t' = committed t \<union> {m * MBLOCK_SIZE..<m * MBLOCK_SIZE + MBLOCK_SIZE * k}"
  shows "megablocks t' = megablocks t \<union> {m..<m + k}"
  unfolding megablocks_def assms Un_iff run_mblocks start_of_mblock by auto

lemma megablocks_cut:
  assumes "committed t' = committed t - {m * MBLOCK_SIZE..<m * MBLOCK_SIZE + MBLOCK_SIZE * k}"
  shows "megablocks t' = megablocks t - {m..<m + k}"
  unfolding megablocks_def assms Diff_iff run_mblocks start_of_mblock by auto

lemma finite_megablocks:
  assumes "mb_inv t es"
  shows "finite (megablocks t)" "card (megablocks t) = mblocks_allocated t"
proof -
  have "committed t = (\<Union>v\<in>megablocks t. {v * MBLOCK_SIZE..<v * MBLOCK_SIZE + MBLOCK_SIZE * 1})"
    using committed_whole [OF assms] run_mblocks [where k = 1] by (auto simp del: atLeastLessThan_iff)
  moreover have inj: "inj (\<lambda>v. v * MBLOCK_SIZE)" by (simp add: inj_def MBLOCK_SIZE_def)
  have "(\<lambda>v. v * MBLOCK_SIZE) ` megablocks t \<subseteq> committed t" by (auto simp: megablocks_def)
  then show f: "finite (megablocks t)" using finite_committed [OF assms] inj by (meson finite_imageD finite_subset inj_on_subset subset_UNIV)
  moreover have "{v * MBLOCK_SIZE..<v * MBLOCK_SIZE + MBLOCK_SIZE * 1} \<inter> {w * MBLOCK_SIZE..<w * MBLOCK_SIZE + MBLOCK_SIZE * 1} = {}" if "v \<noteq> w" for v w
    using that unfolding disjoint_iff run_mblocks by auto
  ultimately have "card (committed t) = (\<Sum>v\<in>megablocks t. card {v * MBLOCK_SIZE..<v * MBLOCK_SIZE + MBLOCK_SIZE * 1})"
    by (simp only:) (intro card_UN_disjoint, simp_all)
  then have "card (committed t) = card (megablocks t) * MBLOCK_SIZE" by simp
  then show "card (megablocks t) = mblocks_allocated t" using mb_invD(10) [OF assms] by (simp add: MBLOCK_SIZE_def)
qed

text \<open>The nodes of the list of free ranges, and \<open>malloc\<close>, which returns an address that is not of a node in use.\<close>

partial_function (option) entries :: "(nat \<Rightarrow> fl_node) \<Rightarrow> nat \<Rightarrow> nat list option" where
  "entries m p = (if p = 0 then Some [] else Option.bind (entries m (fl_next (m p))) (\<lambda>r. Some (p # r)))"

definition malloc_ok :: "(mb_state \<Rightarrow> nat) \<Rightarrow> bool" where
  "malloc_ok malloc \<longleftrightarrow> (\<forall>t xs. entries (fl_mem t) (free_list_head t) = Some xs \<longrightarrow> malloc t \<noteq> 0 \<and> malloc t \<notin> set xs)"

definition next_entry :: "mb_state \<Rightarrow> nat" where
  "next_entry t = (case entries (fl_mem t) (free_list_head t) of None \<Rightarrow> 1 | Some xs \<Rightarrow> Suc (sum_list xs))"

lemma next_entry_ok: "malloc_ok next_entry"
  unfolding malloc_ok_def next_entry_def using member_le_sum_list by fastforce

lemma entries_part: "dl_part (\<lambda>a. fl_next (m a)) prv r p xs q 0 \<Longrightarrow> 0 \<notin> set xs \<Longrightarrow> entries m p = Some xs"
proof (induction xs arbitrary: r p)
  case Nil
  then show ?case by (subst entries.simps) simp
next
  case (Cons x xs)
  then show ?case by (subst entries.simps) auto
qed

lemma entries_eq:
  assumes "mb_inv t es"
  shows "entries (fl_mem t) (free_list_head t) = Some (map fst es)"
  using fl_repD(1,4) [OF mb_invD(1) [OF assms]] entries_part by fast

text \<open>\<open>freeMBlocks\<close> with the node that \<open>malloc\<close> gives it.\<close>

definition free_with :: "(mb_state \<Rightarrow> nat) \<Rightarrow> nat \<Rightarrow> nat \<Rightarrow> mb_state \<Rightarrow> mb_state option" where
  "free_with malloc addr n t = freeMBlocks (malloc t) addr n t"

definition space_ok :: "mb_state \<Rightarrow> mb_state \<Rightarrow> bool" where
  "space_ok t0 t \<longleftrightarrow> (\<exists>es. mb_inv t es) \<and> space_begin t = space_begin t0 \<and> space_end t = space_end t0"

definition room_of :: "mb_state \<Rightarrow> nat set" where
  "room_of t0 = {v. {v * MBLOCK_SIZE..<v * MBLOCK_SIZE + MBLOCK_SIZE} \<subseteq> {space_begin t0..<space_end t0}}"

locale c_heap =
  fixes malloc :: "mb_state \<Rightarrow> nat" and t0 :: mb_state
  assumes malloc: "malloc_ok malloc" and space: "mb_inv t0 []" "committed t0 = {}"
begin

lemma run_in_room: "{m..<m + k} \<subseteq> room_of t0 \<Longrightarrow> {m * MBLOCK_SIZE..<m * MBLOCK_SIZE + MBLOCK_SIZE * k} \<subseteq> {space_begin t0..<space_end t0}"
proof
  fix x assume r: "{m..<m + k} \<subseteq> room_of t0" and "x \<in> {m * MBLOCK_SIZE..<m * MBLOCK_SIZE + MBLOCK_SIZE * k}"
  then have v: "x div MBLOCK_SIZE \<in> room_of t0" unfolding run_mblocks by blast
  have "x \<in> {x div MBLOCK_SIZE * MBLOCK_SIZE..<x div MBLOCK_SIZE * MBLOCK_SIZE + MBLOCK_SIZE * 1}" unfolding run_mblocks by simp
  then show "x \<in> {space_begin t0..<space_end t0}" using v unfolding room_of_def mult_1_right by blast
qed

end

sublocale c_heap \<subseteq> mblock_provider getMBlocks "free_with malloc" "space_ok t0" megablocks "room_of t0" os_grants t0
proof
  show "space_ok t0 t0" "megablocks t0 = {}" using space by (auto simp: space_ok_def megablocks_def)
next
  fix t k assume "space_ok t0 t" and k: "0 < (k :: nat)"
  then obtain es where i: "mb_inv t es" "space_begin t = space_begin t0" "space_end t = space_end t0" by (auto simp: space_ok_def)
  show "(\<exists>m t'. getMBlocks k t = Some (Inr (m * MBLOCK_SIZE, t')) \<and> space_ok t0 t' \<and> {m..<m + k} \<inter> megablocks t = {} \<and> megablocks t' = megablocks t \<union> {m..<m + k}) \<or>
      getMBlocks k t = Some (Inl CommitFailed) \<and> \<not> os_grants t \<or>
      getMBlocks k t = Some (Inl OutOfMemory) \<and> (\<forall>m. {m..<m + k} \<subseteq> room_of t0 \<longrightarrow> {m..<m + k} \<inter> megablocks t \<noteq> {})"
    using i(1) k
  proof (cases rule: getMBlocks_ok)
    case (got addr s' es')
    then obtain m where m: "addr = m * MBLOCK_SIZE" by (metis dvd_def mult.commute)
    have "space_ok t0 s'" using got i by (auto simp: space_ok_def)
    moreover have "{m..<m + k} \<inter> megablocks t = {}"
    proof (rule equals0I)
      fix v assume "v \<in> {m..<m + k} \<inter> megablocks t"
      then have "v * MBLOCK_SIZE \<in> {addr..<addr + MBLOCK_SIZE * k} \<inter> committed t"
        unfolding m Int_iff run_mblocks start_of_mblock megablocks_def by blast
      with got(3) show False by blast
    qed
    ultimately show ?thesis using got(1) megablocks_run [OF got(4) [unfolded m]] unfolding m by blast
  next
    case refused
    then show ?thesis by blast
  next
    case full
    have "{m..<m + k} \<inter> megablocks t \<noteq> {}" if r: "{m..<m + k} \<subseteq> room_of t0" for m
    proof -
      obtain x where "x \<in> {m * MBLOCK_SIZE..<m * MBLOCK_SIZE + MBLOCK_SIZE * k}" "x \<in> committed t" using full(2) run_in_room [OF r] i(2,3) by fastforce
      then show ?thesis unfolding run_mblocks committed_whole [OF i(1)] by blast
    qed
    then show ?thesis using full(1) by blast
  qed
next
  fix t k m assume "space_ok t0 t" and k: "0 < (k :: nat)" and m: "{m..<m + k} \<subseteq> megablocks t"
  then obtain es where i: "mb_inv t es" "space_begin t = space_begin t0" "space_end t = space_end t0" by (auto simp: space_ok_def)
  have "{m * MBLOCK_SIZE..<m * MBLOCK_SIZE + MBLOCK_SIZE * k} \<subseteq> committed t"
    using m unfolding subset_iff run_mblocks committed_whole [OF i(1)] by blast
  moreover have "malloc t \<noteq> 0" "malloc t \<notin> fst ` set es"
    using malloc entries_eq [OF i(1)] unfolding malloc_ok_def set_map [symmetric] by blast+
  ultimately obtain t' where f: "free_with malloc (m * MBLOCK_SIZE) k t = Some t'" "freed t (m * MBLOCK_SIZE) k t'"
    using freeMBlocks_ok [OF i(1) k, of "m * MBLOCK_SIZE" "malloc t"] by (auto simp: free_with_def)
  then have "space_ok t0 t'" "megablocks t' = megablocks t - {m..<m + k}"
    using i(2,3) megablocks_cut [of t' t m k] by (auto simp: freed_def space_ok_def)
  then show "\<exists>t'. free_with malloc (m * MBLOCK_SIZE) k t = Some t' \<and> space_ok t0 t' \<and> megablocks t' = megablocks t - {m..<m + k}" using f(1) by blast
qed

interpretation heap: c_heap next_entry "new_space n" for n
  by unfold_locales (simp_all add: next_entry_ok new_space_inv new_space_simps)

text \<open>What the pair does, of the code's two allocators.\<close>

context c_heap begin

lemmas pair_history = history_ok
lemmas pair_memory = memory_owned
lemmas pair_alloc = alloc_total
lemmas pair_return = return_ok

end

section \<open>The properties of the pair\<close>

lemma c_heapI: "malloc_ok malloc \<Longrightarrow> mb_inv t0 [] \<Longrightarrow> committed t0 = {} \<Longrightarrow> c_heap malloc t0"
  by unfold_locales

abbreviation next_history :: "nat \<Rightarrow> ba_state \<Rightarrow> mb_state \<Rightarrow> nat set \<Rightarrow> bool" where
  "next_history n \<equiv> heap_history getMBlocks (free_with next_entry) (new_space n)"

lemma next_start: "next_history n new_allocator (new_space n) {}"
  unfolding new_allocator_def by (rule heap_history.start) simp

lemma one_group: "\<exists>p s t. heap_allocGroup getMBlocks 0 3 (new_allocator, new_space 4) = Some (Inr (p, s, t)) \<and> next_history 4 s t {p}"
proof -
  have "group_request 0 3 new_allocator \<le> 1" using request_le(2) [of 0 3] by (simp add: BLOCKS_TO_MBLOCKS_eq)
  then have "{16..<16 + group_request 0 3 new_allocator} \<subseteq> room_of (new_space 4)" "os_grants (new_space 4)"
    by (auto simp: room_of_def new_space_simps MBLOCK_SIZE_def)
  moreover have "megablocks (new_space 4) = {}" by (simp add: megablocks_def new_space_simps)
  ultimately show ?thesis using heap.alloc_total [OF next_start [of 4], of 3 0] by (metis inf_bot_right zero_less_numeral)
qed

text \<open>C2 Whatever calls have been made, and whatever the megablock allocator has answered, the memory of a group that is handed out and
  not freed is committed: in particular nothing that \<open>returnMemoryToOS\<close> has given back since lay in it.
\<close>

theorem heap_groups_committed:
  assumes "malloc_ok malloc" "mb_inv t0 []" "committed t0 = {}" "heap_history getMBlocks (free_with malloc) t0 s t G" "p \<in> G"
  shows "memory_of s p \<subseteq> committed t"
proof
  fix x assume "x \<in> memory_of s p"
  then have "x div MBLOCK_SIZE \<in> megablocks t" using c_heap.pair_memory [OF c_heapI [OF assms(1-3)] assms(4,5)] by blast
  then show "x \<in> committed t" using c_heap.pair_history [OF c_heapI [OF assms(1-3)] assms(4)] committed_whole by (auto simp: space_ok_def)
qed

theorem heap_groups_committed_witness:
  "\<exists>p s t. next_history 4 s t {p} \<and> memory_of s p \<subseteq> committed t"
proof -
  obtain p s t where h: "next_history 4 s t {p}" using one_group by blast
  have "p \<in> {p}" by simp
  from heap_groups_committed [OF next_entry_ok new_space_inv _ h this] show ?thesis using h by (auto simp: new_space_simps)
qed

text \<open>C4 After any calls, a request for a group of any size either gets a new group of that size, or the program ends for want of memory, and the
  latter only when megablocks have to be obtained and either the operating system refuses to commit them or no run of as many as are
  needed is free anywhere in the reserved space.
\<close>

theorem heap_alloc_total:
  assumes "malloc_ok malloc" "mb_inv t0 []" "committed t0 = {}" "heap_history getMBlocks (free_with malloc) t0 s t G" "0 < n"
  shows "(\<exists>p s' t'. heap_allocGroup getMBlocks d n (s, t) = Some (Inr (p, s', t')) \<and> p \<notin> G \<and> blocks_of s' p = granted n \<and>
      heap_history getMBlocks (free_with malloc) t0 s' t' (insert p G)) \<or>
    heap_allocGroup getMBlocks d n (s, t) = Some (Inl CommitFailed) \<and> 0 < group_request d n s \<and> \<not> os_grants t \<or>
    heap_allocGroup getMBlocks d n (s, t) = Some (Inl OutOfMemory) \<and> 0 < group_request d n s \<and>
      (\<forall>m. {m..<m + group_request d n s} \<subseteq> room_of t0 \<longrightarrow> {m..<m + group_request d n s} \<inter> megablocks t \<noteq> {})"
  using c_heap.pair_alloc [OF c_heapI [OF assms(1-3)] assms(4,5), of d] by blast

theorem heap_alloc_total_witness:
  "\<exists>p s t. heap_allocGroup getMBlocks 0 3 (new_allocator, new_space 4) = Some (Inr (p, s, t)) \<and> blocks_of s p = 3"
proof -
  have "(0 :: nat) < 3" "committed (new_space 4) = {}" "granted 3 = 3" by (simp_all add: new_space_simps granted_def ba_consts)
  then show ?thesis using heap_alloc_total [OF next_entry_ok new_space_inv _ next_start, of 4 3 0] one_group by auto
qed

text \<open>C5 Returning memory never fails: of the megablocks that were in use \<open>r\<close> are given back to the megablock allocator, which counts
  them out and decommits them, \<open>r\<close> is the result and no more than what was asked for, and where it is less no free megablock is left on any node;
  what follows is again a history with the same groups in use.
\<close>

theorem heap_return_correct:
  assumes "malloc_ok malloc" "mb_inv t0 []" "committed t0 = {}" "heap_history getMBlocks (free_with malloc) t0 s t G"
  shows "\<exists>r s' t'. heap_return (free_with malloc) n (s, t) = Some (r, s', t') \<and> heap_history getMBlocks (free_with malloc) t0 s' t' G \<and>
    r \<le> n \<and> mblocks_allocated t = mblocks_allocated t' + r \<and> megablocks t' \<subseteq> megablocks t \<and>
    (r < n \<longrightarrow> (\<forall>d < n_numa_nodes s. free_mblock_list s' d = 0))"
proof -
  note c = c_heapI [OF assms(1-3)]
  have h: "space_ok t0 t" "ba_history s G (megablocks t)" using c_heap.pair_history [OF c assms(4)] by auto
  from c_heap.pair_return [OF c h(2,1), of n] obtain r s' t' where r: "heap_return (free_with malloc) n (s, t) = Some (r, s', t')" "space_ok t0 t'"
    "r \<le> n" "megablocks t' \<subseteq> megablocks t" "r = card (megablocks t - megablocks t')" "r < n \<longrightarrow> (\<forall>d < n_numa_nodes s. free_mblock_list s' d = 0)" by blast
  obtain es es' where i: "mb_inv t es" "mb_inv t' es'" using h(1) r(2) by (auto simp: space_ok_def)
  have "r = mblocks_allocated t - mblocks_allocated t'" "mblocks_allocated t' \<le> mblocks_allocated t"
    using r(4,5) finite_megablocks [OF i(1)] finite_megablocks [OF i(2)] card_mono [of "megablocks t" "megablocks t'"] by (auto simp: card_Diff_subset)
  then show ?thesis using r heap_history.give_back [OF assms(4) r(1)] by (intro exI [of _ r] exI [of _ s'] exI [of _ t']) simp
qed

theorem heap_return_correct_witness:
  "\<exists>p s t r s' t'. next_history 4 s t {p} \<and> heap_return (free_with next_entry) 5 (s, t) = Some (r, s', t') \<and> r \<le> 5 \<and>
    mblocks_allocated t = mblocks_allocated t' + r"
proof -
  obtain p s t where h: "next_history 4 s t {p}" using one_group by blast
  have "committed (new_space 4) = {}" by (simp add: new_space_simps)
  from heap_return_correct [OF next_entry_ok new_space_inv this h, of 5] show ?thesis using h by metis
qed

end
