(* ===== verification/Spec2Isabelle.thy ===== *)
theory Spec2Isabelle
  imports BitPrims Timeouts FileLocks ProddableBlocks Pools ClosureTables StablePtrs StableNames VectorPrims WSDeques STMSleeping STMCommits HeapMemory
begin

text \<open>
  Verification of the runtime system of GHC (the C code under \<open>src/rts\<close>).

  The runtime system links with every Haskell program: it schedules threads on capabilities, collects
  garbage, and implements in C what the primops of the compiler need. The parts modelled here are those
  that carry its own data structures and algorithms, each in a theory of its own, in the order the code
  builds on them.

  \<^item> \<open>RTS_Prelude\<close>: generic lemmas on lists, maps, machine words and loops, and the collections the
    components share.
  \<^item> \<open>BitPrims\<close> (\<open>rts/prim/*.c\<close>): the C fallbacks of the bit-manipulation primops and of 64-bit arithmetic,
    functions on \<open>w word\<close>; undefined behaviour is \<open>None\<close>.
  \<^item> \<open>VectorPrims\<close> (\<open>rts/prim/vectorQuotRem.c\<close>, \<open>int64x2minmax.c\<close>): vector division, minimum and maximum,
    in the SSE2 and the AArch64 version, which are shown to be equal.
  \<^item> \<open>TimeoutQueues\<close> (\<open>rts/TimeoutQueue.c\<close>): a leftist heap of nodes with parent pointers in C memory. The state
    is the root and the memory; the lemmas relate it to a tree with a hole (the path the loops walk along),
    and to the multiset of entries.
  \<^item> \<open>Timeouts\<close> (\<open>rts/posix/Timeout.c\<close>): installing, cancelling and expiring delays on that queue. What it needs of
    the queue is the locale \<open>timeout_queue\<close>, interpreted on the operations of \<open>TimeoutQueues\<close>.
  \<^item> \<open>HashTables\<close> (\<open>rts/Hash.c\<close>): linear hashing with a directory of segments. The locale \<open>linear_hashing\<close> says
    what is needed of the hash function; it is interpreted for words and for strings. The tables of keys
    that stable names and file locks use are the locale \<open>keyed_table\<close>, interpreted on the hash tables.
  \<^item> \<open>FileLocks\<close> (\<open>rts/FileLock.c\<close>), \<open>StableNames\<close> (\<open>rts/StableName.c\<close>, \<open>sm/NonMovingSweep.c\<close>),
    \<open>StablePtrs\<close> (\<open>rts/StablePtr.c\<close>), \<open>ClosureTables\<close> (\<open>rts/ClosureTable.c\<close>): the tables that hold objects
    for C code, with free lists threaded through their entries, growth, and the steps of the collectors.
  \<^item> \<open>ProddableBlocks\<close> (\<open>rts/linker/ProddableBlocks.c\<close>): the linker's sorted array of address ranges.
  \<^item> \<open>Pools\<close> (\<open>rts/Pool.c\<close>): the pool of reusable resources.
  \<^item> \<open>WSDeques\<close> (\<open>rts/WSDeque.c\<close>): the Chase-Lev deque of sparks as an interleaving of single accesses to memory,
    refined to an abstract double-ended queue, and its attempts to steal to what may make them fail.
  \<^item> \<open>STM\<close>, \<open>STMTransactions\<close>, \<open>STMWaiting\<close>, \<open>STMSleeping\<close> (\<open>rts/STM.c\<close>): software transactional memory. \<open>STM\<close> has the state
    (TVars, watch queues, transaction records with their chunks) and every operation in both
    configurations; \<open>STMTransactions\<close> shows what they do to the logs of a nest of transactions;
    \<open>STMWaiting\<close> adds the queues of sleeping threads and has the properties of the operations; \<open>STMSleeping\<close> has the
    sequences of calls in which threads go to sleep, are woken, sleep again or leave, and that no wakeup is lost.
  \<^item> \<open>STMCommits\<close> (\<open>rts/STM.c\<close>): the commit protocol of the threaded runtime with any number of
    capabilities interleaved, and its serializability.
  \<^item> \<open>BlockAlloc\<close> (\<open>rts/sm/BlockAlloc.c\<close>, \<open>Block.h\<close>): the allocator of blocks and megablocks that all memory of the heap comes
    from; the state is the block descriptors, the free lists and the counters. \<open>BlockLists\<close> has the linked lists,
    \<open>BlockGroups\<close> the layout of a megablock as a sequence of groups, the invariant \<open>ba_inv\<close> (with a ghost map that says
    what each megablock is used for) and coalescing, \<open>BlockMegas\<close> the sorted lists of megablock groups. \<open>BlockFree\<close>,
    \<open>BlockGet\<close>, \<open>BlockSplit\<close> and \<open>BlockDefer\<close> show that freeing, allocation, aligned and large allocation, and deferred freeing
    keep it, \<open>BlockReturn\<close> what \<open>returnMemoryToOS\<close> gives back; \<open>BlockHistory\<close> has the histories of calls and the properties. What
    \<open>getMBlocks\<close> returns is an argument there and has to be memory that the allocator does not manage yet (\<open>fresh\<close>);
    \<open>group_request\<close> and its like say how many megablocks a call asks for.
  \<^item> \<open>MBlocks\<close> (\<open>rts/sm/MBlock.c\<close>, large address space): the allocator of megablocks below it, with its high watermark and
    its sorted list of free ranges, in an explicit memory of list nodes. Whether the operating system grants a commit is an answer
    in the state, and a refusal ends the program (\<open>osCommitMemory\<close> of \<open>rts/posix/OSMem.c\<close>). \<open>MBlockRanges\<close> has the list, \<open>MBlockSpace\<close> the invariant
    and the properties.
  \<^item> \<open>HeapMemory\<close>: the two allocators together. The locale \<open>mblock_provider\<close> says what the block allocator relies on; it is
    interpreted on \<open>getMBlocks\<close> and \<open>freeMBlocks\<close>, for every \<open>malloc\<close> that gives fresh list nodes.

  Conventions. A struct is a record and keeps the names of the C fields, a pointer is an address (a machine
  word where the code computes with it, a number where it does not; 0 is \<open>NULL\<close>), the heap is a function
  from addresses, updated as the code stores. A function that may be undefined, loop for ever or wait for
  somebody else returns an option, and \<open>None\<close> stands for that; loops are \<open>fun\<close> where they have a measure and
  \<open>partial_function (option)\<close> where they follow pointers, and then every theorem says that the result is
  \<open>Some\<close>. No fuel is used. What an allocator returns, what fresh memory holds, and the answers of code that is
  not here (\<open>isAlive\<close>, \<open>xxHash\<close>, free functions) are arguments. A mutex that is held for a whole operation
  makes it one step. The two concurrent algorithms are step relations, one access to shared memory per step,
  in sequentially consistent memory; the acquire and release orderings of the code are not modelled beyond
  that. Barriers for the non-moving collector, tracing, statistics and debug assertions are left out, except
  where a property says that the assertions hold.

  What is shown. For each component: a well-formedness invariant that every operation keeps, the result of
  each operation in terms of an abstract specification (a map, a multiset, a list, a stack of logs, a set of
  readers or a writer), termination of its loops, and for the concurrent ones safety under every
  interleaving. Where the code does something else than its comments say, the lemma that shows it is
  kept beside the properties (\<open>split_revives_overwritten_entry\<close>, \<open>ascending_inserts_not_leftist\<close>,
  \<open>addProddableBlock_truncates\<close>, \<open>addProddableBlock_bridges_gap\<close>, \<open>poolRelease_miscounts\<close>, \<open>poolFree_leaks\<close>,
  \<open>enlarge_overflows\<close>, \<open>blackholes_share_a_name\<close>, \<open>sweep_keeps_stale_key\<close>, \<open>allocMBlockAligned_barfs\<close>).

  Not modelled: the compiler and the libraries (Haskell); the scheduler, the garbage collectors and the
  interpreter, whose steps range over the layout of all heap objects and the generated code they run; the
  readers of the object formats in the linker, whose meaning is that of the formats and the operating
  system's loader; profiling, event logs and option parsing, which have no state that other parts depend on;
  adjustors and I/O managers, which are calls of the operating system; vendored code (\<open>xxhash.h\<close>, \<open>libffi\<close>).
  Weak memory is not modelled.
\<close>

end
